(* ===== verification/Prelude.thy ===== *)
theory Prelude
  imports Main "HOL-Library.Word" "HOL-Library.Char_ord" "HOL-Library.List_Lexorder"
begin

section \<open>Prelude: bytes, machine integers and byte orders\<close>

text \<open>
  Vocabulary shared by every component. A C++ \<open>std::string\<close>, \<open>Bytes\<close> or
  \<open>leveldb::Slice\<close> is a list of 8-bit characters; the order of \<open>char\<close> in
  HOL-Library.Char_ord is that of the unsigned byte and the order of HOL-Library.List_Lexorder
  is lexicographic with a proper prefix below its extensions, which together are
  \<open>memcmp\<close> followed by the comparison of the lengths.
  A signed machine integer is an \<open>int\<close> with the two's complement wrap-around written out
  (\<open>wrap32\<close>, \<open>wrap64\<close>); an unsigned 64-bit integer is a \<open>64 word\<close>. The in-memory
  image of an integer is little-endian (the byte order of the platforms the code supports).
\<close>

type_synonym bytes = string
type_synonym u64 = "64 word"

named_theorems codec_simps \<open>equations of the key encoders and decoders\<close>
named_theorems store_simps \<open>what a read of the store sees after an update\<close>

subsection \<open>Signed machine integers\<close>

definition wrap32 :: "int \<Rightarrow> int" where
  "wrap32 x = (x + 2 ^ 31) mod 2 ^ 32 - 2 ^ 31"

definition wrap64 :: "int \<Rightarrow> int" where
  "wrap64 x = (x + 2 ^ 63) mod 2 ^ 64 - 2 ^ 63"

definition in_int32 :: "int \<Rightarrow> bool" where
  "in_int32 x \<longleftrightarrow> - (2 ^ 31) \<le> x \<and> x < 2 ^ 31"

definition in_int64 :: "int \<Rightarrow> bool" where
  "in_int64 x \<longleftrightarrow> - (2 ^ 63) \<le> x \<and> x < 2 ^ 63"

definition INT64_MAX :: int where "INT64_MAX = 9223372036854775807"
definition INT64_MIN :: int where "INT64_MIN = -9223372036854775808"
definition UINT64_MAX :: u64 where "UINT64_MAX = 18446744073709551615"

lemma in_int32_wrap32 [simp]: "in_int32 (wrap32 x)"
  by (simp add: in_int32_def wrap32_def)

lemma in_int64_wrap64 [simp]: "in_int64 (wrap64 x)"
  by (simp add: in_int64_def wrap64_def)

lemma wrap32_id [simp]: "in_int32 x \<Longrightarrow> wrap32 x = x"
  by (simp add: in_int32_def wrap32_def)

lemma wrap64_id [simp]: "in_int64 x \<Longrightarrow> wrap64 x = x"
  by (simp add: in_int64_def wrap64_def)

text \<open>A signed 64-bit value and the bit pattern that stores it.\<close>

lemma sint_word_of_int64: "sint (word_of_int x :: u64) = wrap64 x"
  by (simp add: wrap64_def sint_sbintrunc' signed_take_bit_eq_take_bit_shift take_bit_eq_mod)

lemma in_int64_sint [simp]: "in_int64 (sint (w :: u64))"
  using sint_range_size [of w] by (simp add: in_int64_def word_size)

lemma word_of_int_wrap64 [simp]: "(word_of_int (wrap64 x) :: u64) = word_of_int x"
  by (simp flip: sint_word_of_int64)

subsection \<open>Little-endian images of unsigned integers\<close>

primrec le_bytes :: "nat \<Rightarrow> nat \<Rightarrow> bytes" where
  "le_bytes 0 n = []"
| "le_bytes (Suc k) n = char_of n # le_bytes k (n div 256)"

primrec le_nat :: "bytes \<Rightarrow> nat" where
  "le_nat [] = 0"
| "le_nat (c # cs) = of_char c + 256 * le_nat cs"

lemma length_le_bytes [simp]: "length (le_bytes k n) = k"
  by (induction k arbitrary: n) simp_all

lemma le_nat_less: "le_nat bs < 256 ^ length bs"
proof (induction bs)
  case (Cons c cs)
  have "le_nat (c # cs) < 256 * (le_nat cs + 1)"
    by simp
  also have "\<dots> \<le> 256 * 256 ^ length cs"
    using Cons by (intro mult_le_mono2) simp
  finally show ?case by simp
qed simp

lemma le_nat_le_bytes: "le_nat (le_bytes k n) = n mod 256 ^ k"
proof (induction k arbitrary: n)
  case (Suc k)
  have "n mod (256 * 256 ^ k) = 256 * (n div 256 mod 256 ^ k) + n mod 256"
    by (rule mod_mult2_eq)
  with Suc show ?case by simp
qed simp

lemma le_bytes_le_nat: "le_bytes (length bs) (le_nat bs) = bs"
proof (induction bs)
  case (Cons c cs)
  have c: "of_char c < (256 :: nat)" by simp
  have "(of_char c + 256 * le_nat cs) div 256 = le_nat cs"
    using c by simp
  moreover have "char_of (of_char c + 256 * le_nat cs) = c"
    by (rule of_char_eqI [where ?'a = nat]) (simp only: of_char_of, simp)
  ultimately show ?case
    using Cons by simp
qed simp

text \<open>The eight bytes of a 64-bit integer in memory, and the integer read back from them.\<close>

definition le64 :: "u64 \<Rightarrow> bytes" where
  "le64 w = le_bytes 8 (unat w)"

definition le64_word :: "bytes \<Rightarrow> u64" where
  "le64_word bs = of_nat (le_nat bs)"

lemma length_le64 [simp]: "length (le64 w) = 8"
  by (simp add: le64_def)

lemma le64_word_le64 [simp]: "le64_word (le64 w) = w"
proof -
  have "unat w mod 256 ^ 8 = unat w"
    using unsigned_less [where ?'a = nat, of w] by simp
  then show ?thesis
    by (simp add: le64_word_def le64_def le_nat_le_bytes)
qed

lemma le64_inject [simp]: "le64 v = le64 w \<longleftrightarrow> v = w"
  by (metis le64_word_le64)

lemma le64_le64_word: "length bs = 8 \<Longrightarrow> le64 (le64_word bs) = bs"
proof -
  assume len: "length bs = 8"
  have "le_nat bs < 2 ^ 64"
    using le_nat_less [of bs] len by simp
  then have "unat (of_nat (le_nat bs) :: u64) = le_nat bs"
    by (simp add: unat_of_nat)
  then show ?thesis
    using le_bytes_le_nat [of bs] len by (simp add: le64_def le64_word_def)
qed

subsection \<open>Lexicographic order of byte strings\<close>

lemma append_less_append [simp]: "(xs :: bytes) @ ys < xs @ zs \<longleftrightarrow> ys < zs"
  by (induction xs) simp_all

lemma append_le_append [simp]: "(xs :: bytes) @ ys \<le> xs @ zs \<longleftrightarrow> ys \<le> zs"
  by (induction xs) simp_all

lemma Nil_less_bytes [simp]: "([] :: bytes) < k \<longleftrightarrow> k \<noteq> []"
  by (cases k) auto

lemma append_less_same_length:
  "length (a :: bytes) = length b \<Longrightarrow> a @ x < b @ y \<longleftrightarrow> a < b \<or> a = b \<and> x < y"
  by (induction a b rule: list_induct2) auto

lemma append_le_same_length:
  "length (a :: bytes) = length b \<Longrightarrow> a @ x \<le> b @ y \<longleftrightarrow> a < b \<or> a = b \<and> x \<le> y"
  by (induction a b rule: list_induct2) auto

text \<open>Big-endian images order like the numbers they encode.\<close>

lemma rev_le_bytes_Suc:
  "rev (le_bytes (Suc k) n) = char_of (n div 256 ^ k) # rev (le_bytes k n)"
proof (induction k arbitrary: n)
  case (Suc k)
  have "n div 256 div 256 ^ k = n div 256 ^ Suc k"
    by (simp add: div_mult2_eq)
  moreover have "rev (le_bytes (Suc (Suc k)) n) = rev (le_bytes (Suc k) (n div 256)) @ [char_of n]"
    by simp
  ultimately show ?case
    using Suc [of "n div 256"] by simp
qed simp

lemma le_bytes_mod: "le_bytes k (n mod 256 ^ k) = le_bytes k n"
proof (induction k arbitrary: n)
  case (Suc k)
  have "n mod (256 * 256 ^ k) div 256 = n div 256 mod 256 ^ k"
    by (simp add: mod_mult2_eq)
  moreover have "n mod (256 * 256 ^ k) mod 256 = n mod 256"
    by (simp add: mod_mult2_eq)
  ultimately show ?case
    using Suc [of "n div 256"] by simp
qed simp

lemma less_div_mod_iff:
  "(m :: nat) < n \<longleftrightarrow> m div b < n div b \<or> m div b = n div b \<and> m mod b < n mod b"
proof (cases "m div b" "n div b" rule: linorder_cases)
  case less
  then have "m < n" by (meson div_le_mono leD leI)
  with less show ?thesis by simp
next
  case equal
  then show ?thesis
    by (metis div_mult_mod_eq nat_add_left_cancel_less nat_neq_iff)
next
  case greater
  then have "n < m" by (meson div_le_mono leD leI)
  with greater show ?thesis by simp
qed

lemma rev_le_bytes_less:
  assumes "m < 256 ^ k" and "n < 256 ^ k"
  shows "rev (le_bytes k m) < rev (le_bytes k n) \<longleftrightarrow> m < n"
  using assms
proof (induction k arbitrary: m n)
  case (Suc k)
  let ?b = "256 ^ k :: nat"
  have quot: "m div ?b < 256" "n div ?b < 256"
    using Suc.prems by (simp_all add: less_mult_imp_div_less mult.commute)
  have rest: "rev (le_bytes k m) < rev (le_bytes k n) \<longleftrightarrow> m mod ?b < n mod ?b"
    using Suc.IH [of "m mod ?b" "n mod ?b"] by (simp add: le_bytes_mod)
  have "m < n \<longleftrightarrow> m div ?b < n div ?b \<or> m div ?b = n div ?b \<and> m mod ?b < n mod ?b"
    by (rule less_div_mod_iff)
  then show ?case
    using quot rest by (simp only: rev_le_bytes_Suc Cons_less_Cons less_char_def of_char_of
        char_of_quasi_inj) simp
qed simp

lemma unat_plus_1: "unat (w :: u64) + 1 < 2 ^ 64 \<Longrightarrow> unat (w + 1) = unat w + 1"
  by (simp add: unat_word_ariths)

subsection \<open>Lists\<close>

lemma map_of_filter_key:
  "map_of (filter (\<lambda>p. P (fst p)) xs) k = (if P k then map_of xs k else None)"
  by (induction xs) auto

end
