(* ===== verification/Strings.thy ===== *)
theory Strings
  imports Prelude
begin

unbundle bit_operations_syntax

section \<open>String helpers (\<open>ssdb-master/src/util/strings.h\<close>)\<close>

text \<open>
  The inline helpers every other component uses: trimming, escaping, decimal conversion with
  its \<open>errno\<close> convention, substring arithmetic, bit counting and the byte swap
  \<open>big_endian\<close>. The C library calls they rest on (\<open>isspace\<close>, \<open>tolower\<close>,
  \<open>strtoll\<close>, \<open>snprintf\<close> of an integer, \<open>strrchr\<close>) are written out for the C locale.
\<close>

subsection \<open>C library\<close>

definition isspace :: "char \<Rightarrow> bool" where
  "isspace c \<longleftrightarrow> c = CHR '' '' \<or> (9 \<le> (of_char c :: nat) \<and> (of_char c :: nat) \<le> 13)"

definition isdigit :: "char \<Rightarrow> bool" where
  "isdigit c \<longleftrightarrow> 48 \<le> (of_char c :: nat) \<and> (of_char c :: nat) \<le> 57"

definition tolower :: "char \<Rightarrow> char" where
  "tolower c = (if 65 \<le> (of_char c :: nat) \<and> (of_char c :: nat) \<le> 90
                then char_of ((of_char c :: nat) + 32) else c)"

definition toupper :: "char \<Rightarrow> char" where
  "toupper c = (if 97 \<le> (of_char c :: nat) \<and> (of_char c :: nat) \<le> 122
                then char_of ((of_char c :: nat) - 32) else c)"

text \<open>The value of a (signed) C \<open>char\<close>.\<close>

definition schar :: "char \<Rightarrow> int" where
  "schar c = (if (of_char c :: int) < 128 then of_char c else of_char c - 256)"

text \<open>The characters of a C string: up to the first NUL.\<close>

definition c_str :: "bytes \<Rightarrow> bytes" where
  "c_str s = takeWhile (\<lambda>c. c \<noteq> CHR 0x00) s"

definition digit_char :: "nat \<Rightarrow> char" where
  "digit_char d = char_of (48 + d)"

fun decimal :: "nat \<Rightarrow> bytes" where
  "decimal n = (if n < 10 then [digit_char n] else decimal (n div 10) @ [digit_char (n mod 10)])"

declare decimal.simps [simp del]

fun parse_digits :: "nat \<Rightarrow> bytes \<Rightarrow> nat" where
  "parse_digits acc [] = acc"
| "parse_digits acc (c # cs) = parse_digits (10 * acc + (of_char c - 48)) cs"

text \<open>
  What \<open>strtol\<close>, \<open>strtoll\<close> and \<open>strtoull\<close> read in base 10: the sign, the magnitude and
  the unread rest, which is the whole string when there are no digits.
\<close>

definition strto_sign :: "bytes \<Rightarrow> bool \<times> bytes" where
  "strto_sign s =
     (case s of [] \<Rightarrow> (False, [])
      | c # r \<Rightarrow> if c = CHR ''-'' then (True, r) else if c = CHR ''+'' then (False, r)
                 else (False, s))"

definition strto_scan :: "bytes \<Rightarrow> bool \<times> nat \<times> bytes" where
  "strto_scan s =
     (let (neg, r) = strto_sign (dropWhile isspace s);
          ds = takeWhile isdigit r
      in if ds = [] then (False, 0, s) else (neg, parse_digits 0 ds, dropWhile isdigit r))"

definition EINVAL :: nat where "EINVAL = 22"
definition ERANGE :: nat where "ERANGE = 34"

text \<open>\<open>strtoll\<close>: the clamped value, whether it set \<open>ERANGE\<close>, and \<open>*end\<close> onwards.\<close>

definition strtoll :: "bytes \<Rightarrow> int \<times> bool \<times> bytes" where
  "strtoll s =
     (let (neg, m, r) = strto_scan s; v = (if neg then - int m else int m)
      in if v > INT64_MAX then (INT64_MAX, True, r)
         else if v < INT64_MIN then (INT64_MIN, True, r)
         else (v, False, r))"

definition strtoull :: "bytes \<Rightarrow> u64 \<times> bool \<times> bytes" where
  "strtoull s =
     (let (neg, m, r) = strto_scan s
      in if m > unat UINT64_MAX then (UINT64_MAX, True, r)
         else (if neg then - of_nat m else of_nat m, False, r))"

subsection \<open>Trimming and case\<close>

definition is_empty_str :: "bytes \<Rightarrow> bool" where
  "is_empty_str str \<longleftrightarrow> dropWhile isspace (c_str str) = []"

definition ltrim :: "bytes \<Rightarrow> bytes" where
  "ltrim str = dropWhile isspace (c_str str)"

text \<open>The loop of \<open>rtrim\<close> walks back from the last character; what it leaves is the string
  up to the NUL it writes.\<close>

definition rtrim :: "bytes \<Rightarrow> bytes" where
  "rtrim str = rev (dropWhile isspace (rev (c_str str)))"

definition trim :: "bytes \<Rightarrow> bytes" where
  "trim str = rtrim (ltrim str)"

definition strtolower :: "bytes \<Rightarrow> bytes" where
  "strtolower str = map tolower str"

definition strtoupper :: "bytes \<Rightarrow> bytes" where
  "strtoupper str = map toupper str"

text \<open>\<open>strrchr\<close>: what precedes the last slash, if there is one.\<close>

fun before_last_slash :: "bytes \<Rightarrow> bytes option" where
  "before_last_slash [] = None"
| "before_last_slash (c # cs) =
     (case before_last_slash cs of
        Some p \<Rightarrow> Some (c # p)
      | None \<Rightarrow> if c = CHR ''/'' then Some [] else None)"

text \<open>\<open>getcwd\<close> belongs to the operating system: its result is an argument.\<close>

definition real_dirname :: "bytes option \<Rightarrow> bytes \<Rightarrow> bytes" where
  "real_dirname cwd filepath =
     (let dir = (case filepath of
                   CHR ''/'' # _ \<Rightarrow> []
                 | _ \<Rightarrow> (case cwd of Some p \<Rightarrow> p | None \<Rightarrow> []) @ ''/'')
      in case before_last_slash filepath of Some p \<Rightarrow> dir @ p | None \<Rightarrow> dir)"

subsection \<open>Escaping\<close>

definition hex_digit :: "nat \<Rightarrow> char" where
  "hex_digit d = ''0123456789abcdef'' ! d"

definition escape_char :: "char \<Rightarrow> bytes" where
  "escape_char c =
     (if c = CHR 0x0D then [CHR 0x5C, CHR ''r'']
      else if c = CHR 0x0A then [CHR 0x5C, CHR ''n'']
      else if c = CHR 0x09 then [CHR 0x5C, CHR ''t'']
      else if c = CHR 0x5C then [CHR 0x5C, CHR 0x5C]
      else if c = CHR '' '' then [c]
      else if schar c \<ge> 33 \<and> schar c \<le> 126 then [c]
      else [CHR 0x5C, CHR ''x'', hex_digit (of_char c div 16), hex_digit (of_char c mod 16)])"

fun str_escape :: "bytes \<Rightarrow> bytes" where
  "str_escape [] = []"
| "str_escape (c # s) = escape_char c @ str_escape s"

definition hex_int :: "char \<Rightarrow> int" where
  "hex_int c = (if schar c \<ge> 48 \<and> schar c \<le> 57 then schar c - 48 else schar c - 97 + 10)"

text \<open>The cast to \<open>char\<close> keeps the low eight bits.\<close>

definition unescape_hex :: "char \<Rightarrow> char \<Rightarrow> char" where
  "unescape_hex c3 c4 = char_of (nat ((hex_int c3 * 16 + hex_int c4) mod 256))"

fun str_unescape :: "bytes \<Rightarrow> bytes" where
  "str_unescape [] = []"
| "str_unescape (c # s) =
     (if c \<noteq> CHR 0x5C then c # str_unescape s
      else case s of
        [] \<Rightarrow> []
      | c2 # s2 \<Rightarrow>
          if c2 = CHR ''a'' then CHR 0x07 # str_unescape s2
          else if c2 = CHR ''b'' then CHR 0x08 # str_unescape s2
          else if c2 = CHR ''f'' then CHR 0x0C # str_unescape s2
          else if c2 = CHR ''v'' then CHR 0x0B # str_unescape s2
          else if c2 = CHR ''r'' then CHR 0x0D # str_unescape s2
          else if c2 = CHR ''n'' then CHR 0x0A # str_unescape s2
          else if c2 = CHR ''t'' then CHR 0x09 # str_unescape s2
          else if c2 = CHR 0x5C then CHR 0x5C # str_unescape s2
          else if c2 = CHR ''x'' then
            (case s2 of
               c3 # c4 # s4 \<Rightarrow> unescape_hex c3 c4 # str_unescape s4
             | _ \<Rightarrow> str_unescape s2)
          else c2 # str_unescape s2)"

definition hexmem :: "bytes \<Rightarrow> bytes" where
  "hexmem p = str_escape p"

subsection \<open>Decimal conversion\<close>

definition decimal_int :: "int \<Rightarrow> bytes" where
  "decimal_int v = (if v < 0 then CHR ''-'' # decimal (nat (- v)) else decimal (nat v))"

text \<open>The three integer overloads of \<open>str\<close> print into a buffer of 21 bytes.\<close>

definition str_int :: "int \<Rightarrow> bytes" where
  "str_int v = take 20 (decimal_int v)"

definition str_int64 :: "int \<Rightarrow> bytes" where
  "str_int64 v = take 20 (decimal_int v)"

definition str_uint64 :: "u64 \<Rightarrow> bytes" where
  "str_uint64 v = take 20 (decimal (unat v))"

text \<open>
  \<open>errno\<close> on entry is an argument, \<open>errno\<close> on return the second result:
  0 exactly when the whole string was read.
\<close>

definition strto_errno :: "nat \<Rightarrow> bool \<Rightarrow> bytes \<Rightarrow> nat" where
  "strto_errno en erange r =
     (if r = [] then 0
      else let e = (if erange then ERANGE else en) in if e = 0 then EINVAL else e)"

definition str_to_int :: "nat \<Rightarrow> bytes \<Rightarrow> int \<times> nat" where
  "str_to_int en str = (let (v, er, r) = strtoll str in (wrap32 v, strto_errno en er r))"

definition str_to_int64 :: "nat \<Rightarrow> bytes \<Rightarrow> int \<times> nat" where
  "str_to_int64 en str = (let (v, er, r) = strtoll str in (v, strto_errno en er r))"

definition str_to_uint64 :: "nat \<Rightarrow> bytes \<Rightarrow> u64 \<times> nat" where
  "str_to_uint64 en str = (let (v, er, r) = strtoull str in (v, strto_errno en er r))"

subsection \<open>Substrings\<close>

text \<open>\<open>std::string::substr\<close> from a start inside the string.\<close>

definition std_substr :: "bytes \<Rightarrow> int \<Rightarrow> int \<Rightarrow> bytes" where
  "std_substr str start sz = take (nat sz) (drop (nat start) str)"

definition substr :: "bytes \<Rightarrow> int \<Rightarrow> int \<Rightarrow> bytes" where
  "substr str start sz =
     (let len = wrap32 (int (length str));
          start = (if start < 0 then wrap32 (len + start) else start);
          sz = (if sz < 0 then wrap32 (wrap32 (len + sz) - start) else sz)
      in if start < 0 \<or> start \<ge> int (length str) \<or> sz < 0 then []
         else std_substr str start sz)"

definition str_slice :: "bytes \<Rightarrow> int \<Rightarrow> int \<Rightarrow> bytes" where
  "str_slice str start end =
     (let len = wrap32 (int (length str));
          start = (if start < 0 then wrap32 (len + start) else start);
          sz = (if end < 0 then wrap32 (wrap32 (wrap32 (len + end) + 1) - start)
                  else wrap32 (wrap32 (end - start) + 1))
      in if start < 0 \<or> start \<ge> int (length str) \<or> sz < 0 then []
         else std_substr str start sz)"

subsection \<open>Bits and byte order\<close>

fun count_ones :: "nat \<Rightarrow> nat" where
  "count_ones c = (if c = 0 then 0 else c mod 2 + count_ones (c div 2))"

declare count_ones.simps [simp del]

fun bitcount :: "bytes \<Rightarrow> nat" where
  "bitcount [] = 0"
| "bitcount (c # p) = count_ones (of_char c) + bitcount p"

definition big_endian16 :: "16 word \<Rightarrow> 16 word" where
  "big_endian16 v = drop_bit 8 v OR push_bit 8 v"

definition big_endian32 :: "32 word \<Rightarrow> 32 word" where
  "big_endian32 v =
     drop_bit 24 v OR (drop_bit 8 v AND 0xff00) OR (push_bit 8 v AND 0xff0000) OR push_bit 24 v"

definition big_endian64 :: "u64 \<Rightarrow> u64" where
  "big_endian64 v =
     (let h = ucast (drop_bit 32 v) :: 32 word;
          l = ucast (v AND 0xffffffff) :: 32 word
      in ucast (big_endian32 h) OR push_bit 32 (ucast (big_endian32 l)))"

subsection \<open>The byte swap reverses the in-memory bytes\<close>

lemma byte_masks:
  "(0xff00 :: 32 word) = push_bit 8 (mask 8)" "(0xff0000 :: 32 word) = push_bit 16 (mask 8)"
  "(0xffffffff :: u64) = mask 32"
  by (simp_all add: mask_eq_exp_minus_1)

lemma bit_big_endian32:
  "bit (big_endian32 v) n \<longleftrightarrow>
     (if n < 8 then bit v (n + 24) else if n < 16 then bit v (n + 8)
      else if n < 24 then bit v (n - 8) else n < 32 \<and> bit v (n - 24))"
  using bit_imp_le_length [of v "n + 24"] bit_imp_le_length [of v "n + 8"]
  by (auto simp: big_endian32_def byte_masks bit_simps add.commute)

lemma bit_big_endian64:
  "bit (big_endian64 v) n \<longleftrightarrow> n < 64 \<and> bit v (56 + n mod 8 - 8 * (n div 8))"
proof -
  have eq: "bit (big_endian64 v) n \<longleftrightarrow>
    (if n < 32 then bit (big_endian32 (ucast (drop_bit 32 v))) n
     else n < 64 \<and> bit (big_endian32 (ucast (v AND 0xffffffff))) (n - 32))"
    using bit_imp_le_length [of "big_endian32 (ucast (drop_bit 32 v))" n]
      bit_imp_le_length [of "big_endian32 (ucast (v AND 0xffffffff))" "n - 32"]
    by (auto simp: big_endian64_def Let_def bit_simps)
  have n8: "n mod 8 = n - 8 * (n div 8)" by (rule minus_mult_div_eq_mod [symmetric])
  consider "n div 8 = 0" | "n div 8 = 1" | "n div 8 = 2" | "n div 8 = 3" | "n div 8 = 4" 
    | "n div 8 = 5" | "n div 8 = 6" | "n div 8 = 7" | "n \<ge> 64"
    by linarith
  then show ?thesis
    unfolding eq bit_big_endian32 n8
    by cases (auto simp: bit_simps byte_masks add.commute) 
qed

lemma nth_le_bytes: "i < k \<Longrightarrow> le_bytes k n ! i = char_of (n div 256 ^ i)"
proof (induction k arbitrary: n i)
  case (Suc k)
  then show ?case by (cases i) (simp_all add: div_mult2_eq)
qed simp

lemma bit_unat_div_256: "bit (unat (w :: u64) div 256 ^ i) j \<longleftrightarrow> bit w (8 * i + j)"
proof -
  have "unat w div 256 ^ i = drop_bit (8 * i) (unat w)"
    by (simp add: drop_bit_eq_div power_mult)
  then show ?thesis
    by (simp add: bit_simps bit_unsigned_iff)
qed

lemma big_endian64_byte:
  assumes "i < 8"
  shows "char_of (unat (big_endian64 w) div 256 ^ i) = char_of (unat w div 256 ^ (7 - i))"
proof -
  have b: "bit (big_endian64 w) (8 * i + j) = bit w (8 * (7 - i) + j)" if "j < 8" for j
    using assms that by (simp add: bit_big_endian64 diff_mult_distrib2 add.commute)
  show ?thesis
    using b [of 0] b [of 1] b [of 2] b by (simp add: char_of_def bit_unat_div_256)
qed

lemma le64_big_endian64: "le64 (big_endian64 w) = rev (le64 w)"
proof (rule nth_equalityI)
  fix i assume "i < length (le64 (big_endian64 w))"
  then have "i < 8" by simp
  then show "le64 (big_endian64 w) ! i = rev (le64 w) ! i"
    by (simp add: le64_def rev_nth nth_le_bytes big_endian64_byte)
qed simp

lemma big_endian64_involution [simp]: "big_endian64 (big_endian64 w) = w"
  by (metis le64_big_endian64 le64_inject rev_rev_ident)

lemma le64_big_endian64_less [simp]: "le64 (big_endian64 v) < le64 (big_endian64 w) \<longleftrightarrow> v < w"
  using unsigned_less [where ?'a = nat, of v] unsigned_less [where ?'a = nat, of w]
  unfolding le64_big_endian64 unfolding le64_def by (simp add: rev_le_bytes_less word_less_nat_alt)

subsection \<open>Decimal round trip\<close>

lemma of_char_digit_char [simp]: "d < 10 \<Longrightarrow> of_char (digit_char d) = (48 + d :: nat)"
  by (simp add: digit_char_def)

lemma isdigit_digit_char [simp]: "d < 10 \<Longrightarrow> isdigit (digit_char d)"
  by (simp add: isdigit_def)

lemma decimal_not_Nil [simp]: "decimal n \<noteq> []"
  by (subst decimal.simps) simp

lemma decimal_digits: "c \<in> set (decimal n) \<Longrightarrow> isdigit c"
proof (induction n rule: decimal.induct)
  case (1 n)
  then show ?case
    by (cases "n < 10") (auto simp: decimal.simps [of n])
qed

lemma parse_digits_snoc:
  "parse_digits acc (xs @ [c]) = 10 * parse_digits acc xs + (of_char c - 48)"
  by (induction xs arbitrary: acc) simp_all

lemma parse_digits_decimal [simp]: "parse_digits 0 (decimal n) = n"
proof (induction n rule: decimal.induct)
  case (1 n)
  then show ?case
    by (cases "n < 10") (simp_all add: decimal.simps [of n] parse_digits_snoc)
qed

lemma takeWhile_decimal [simp]: "takeWhile isdigit (decimal n) = decimal n"
  by (simp add: takeWhile_eq_all_conv decimal_digits)

lemma dropWhile_decimal [simp]: "dropWhile isdigit (decimal n) = []"
  by (simp add: decimal_digits)

lemma isdigit_not_space: "isdigit c \<Longrightarrow> \<not> isspace c \<and> c \<noteq> CHR ''-'' \<and> c \<noteq> CHR ''+''"
  by (auto simp: isdigit_def isspace_def)

lemma decimal_Cons:
  obtains d ds where "decimal n = d # ds" "isdigit d" "\<not> isspace d" "d \<noteq> CHR ''-''" "d \<noteq> CHR ''+''"
proof (cases "decimal n")
  case (Cons d ds)
  then have "isdigit d" using decimal_digits [of d n] by simp
  with Cons that show thesis using isdigit_not_space by blast
qed simp

lemma strto_scan_decimal_int:
  "strto_scan (decimal_int v) = (v < 0, nat \<bar>v\<bar>, [])"
proof (cases "v < 0")
  case True
  then show ?thesis
    by (simp add: strto_scan_def decimal_int_def strto_sign_def isspace_def)
next
  case False
  obtain d ds where "decimal (nat v) = d # ds" "isdigit d" "\<not> isspace d" "d \<noteq> CHR ''-''" "d \<noteq> CHR ''+''"
    by (rule decimal_Cons)
  then have "strto_sign (dropWhile isspace (decimal (nat v))) = (False, decimal (nat v))"
    by (simp add: strto_sign_def)
  with False show ?thesis
    by (simp add: strto_scan_def decimal_int_def)
qed

lemma length_decimal: "n < 10 ^ k \<Longrightarrow> 0 < k \<Longrightarrow> length (decimal n) \<le> k"
proof (induction k arbitrary: n)
  case (Suc k)
  show ?case
  proof (cases "n < 10")
    case False
    with Suc.prems have "n div 10 < 10 ^ k" by (simp add: less_mult_imp_div_less mult.commute)
    moreover from this have "0 < k" using False by (cases k) simp_all
    ultimately have "length (decimal (n div 10)) \<le> k" by (rule Suc.IH)
    with False show ?thesis by (simp add: decimal.simps [of n])
  qed (simp add: decimal.simps [of n])
qed simp

lemma str_int64_decimal: "in_int64 v \<Longrightarrow> str_int64 v = decimal_int v"
proof -
  assume v: "in_int64 v"
  have "length (decimal (nat \<bar>v\<bar>)) \<le> 19"
    using v by (intro length_decimal) (auto simp: in_int64_def nat_less_iff)
  then show ?thesis
    by (auto simp: str_int64_def decimal_int_def)
qed

lemma str_to_int64_str_int64:
  assumes "in_int64 v"
  shows "str_to_int64 en (str_int64 v) = (v, 0)"
  using assms
  by (auto simp: str_to_int64_def str_int64_decimal strtoll_def strto_scan_decimal_int strto_errno_def
      in_int64_def INT64_MAX_def INT64_MIN_def)

subsection \<open>Escaping round trip\<close>

lemma hex_digit_table: "d < 16 \<Longrightarrow> hex_int (hex_digit d) = int d"
proof -
  have "\<forall>d \<in> set [0..<16]. hex_int (hex_digit d) = int d"
    by code_simp
  then show "d < 16 \<Longrightarrow> hex_int (hex_digit d) = int d" by simp
qed

lemma unescape_hex_digits:
  "unescape_hex (hex_digit (of_char c div 16)) (hex_digit (of_char c mod 16)) = c"
proof -
  have "of_char c div 16 < (16 :: nat)"
    using nat_of_char_less_256 [of c] by linarith
  then have "hex_int (hex_digit (of_char c div 16)) * 16 + hex_int (hex_digit (of_char c mod 16)) =
      int (of_char c)"
    by (simp add: hex_digit_table zdiv_int zmod_int)
  then show ?thesis
    by (simp add: unescape_hex_def) 
qed

lemma str_unescape_escape_char: "str_unescape (escape_char c @ s) = c # str_unescape s"
  by (simp add: escape_char_def unescape_hex_digits)

lemma str_unescape_escape: "str_unescape (str_escape s) = s"
  by (induction s) (simp_all only: str_escape.simps str_unescape.simps(1) str_unescape_escape_char)

subsection \<open>Bit counts and slices\<close>

lemma count_ones_sum: "n < 2 ^ k \<Longrightarrow> count_ones n = (\<Sum>i<k. of_bool (bit n i))"
proof (induction k arbitrary: n)
  case 0
  then show ?case by (simp add: count_ones.simps)
next
  case (Suc k)
  have "n div 2 < 2 ^ k" using Suc.prems by simp
  then have "count_ones (n div 2) = (\<Sum>i<k. of_bool (bit n (Suc i)))"
    using Suc.IH by (simp add: bit_Suc)
  moreover have "count_ones n = n mod 2 + count_ones (n div 2)"
    by (cases "n = 0") (simp_all add: count_ones.simps [of n] count_ones.simps [of 0])
  ultimately show ?case
    by (simp only: sum.lessThan_Suc_shift) (simp add: bit_0 mod_2_eq_odd)
qed


lemma bitcount_sum: "bitcount p = (\<Sum>c\<leftarrow>p. \<Sum>i<8. of_bool (bit (of_char c :: nat) i))"
proof (induction p)
  case (Cons c p)
  have "count_ones (of_char c) = (\<Sum>i<8. of_bool (bit (of_char c :: nat) i))"
    by (rule count_ones_sum) simp
  with Cons show ?case by simp
qed simp

lemma take_drop_upto:
  assumes "0 \<le> s"
  shows "take (nat (e + 1 - s)) (drop (nat s) xs) = map (\<lambda>i. xs ! nat i) [s..min e (int (length xs) - 1)]"
proof (rule nth_equalityI)
  show len: "length (take (nat (e + 1 - s)) (drop (nat s) xs)) =
      length (map (\<lambda>i. xs ! nat i) [s..min e (int (length xs) - 1)])"
    using assms by auto
  fix i assume i: "i < length (take (nat (e + 1 - s)) (drop (nat s) xs))"
  then have "[s..min e (int (length xs) - 1)] ! i = s + int i"
    by (intro nth_upto) auto
  moreover from i have "i < length [s..min e (int (length xs) - 1)]"
    by (simp only: len length_map)
  moreover have "nat s \<le> length xs" using i by auto
  ultimately show "take (nat (e + 1 - s)) (drop (nat s) xs) ! i =
      map (\<lambda>i. xs ! nat i) [s..min e (int (length xs) - 1)] ! i"
    using i assms by (simp add: nat_add_distrib del: length_upto)
qed

lemma str_slice_nth:
  fixes str s e
  defines "n \<equiv> int (length str)"
  defines "s' \<equiv> (if s < 0 then n + s else s)" and "e' \<equiv> (if e < 0 then n + e else e)"
  assumes "n < 2 ^ 31" and "in_int32 s" and "in_int32 e" and "in_int32 (e' + 1 - s')"
    and "in_int32 (e' - s')"
  shows "str_slice str s e = (if 0 \<le> s' then map (\<lambda>i. str ! nat i) [s'..min e' (n - 1)] else [])"
proof -
  have len: "in_int32 n" using assms by (simp add: in_int32_def)
  have s': "in_int32 s'" using assms by (auto simp: in_int32_def)
  have e': "in_int32 e'" "in_int32 (e' + 1) \<or> e \<ge> 0" using assms by (auto simp: in_int32_def)
  have start: "(if s < 0 then wrap32 (wrap32 n + s) else s) = s'"
    using s' len by (auto simp: s'_def)
  have sz: "(if e < 0 then wrap32 (wrap32 (wrap32 (wrap32 n + e) + 1) - s')
             else wrap32 (wrap32 (e - s') + 1)) = e' + 1 - s'"
    using assms(7,8) e' len by (auto simp: e'_def algebra_simps split: if_splits)
  have eq: "str_slice str s e = (if s' < 0 \<or> s' \<ge> n \<or> e' + 1 - s' < 0 then []
      else std_substr str s' (e' + 1 - s'))"
    unfolding str_slice_def Let_def n_def [symmetric] start sz ..
  show ?thesis
    unfolding eq std_substr_def
    by (simp add: take_drop_upto n_def) linarith
qed

subsection \<open>Properties\<close>

text \<open>A 64-bit number printed by \<open>str\<close> is read back by \<open>str_to_int64\<close>, without an error.\<close>

theorem str_to_int64_of_str:
  assumes "in_int64 v"
  shows "str_to_int64 en (str_int64 v) = (v, 0)"
  using assms by (rule str_to_int64_str_int64)

theorem str_to_int64_of_str_witness: "str_to_int64 7 (str_int64 (-42)) = (-42, 0)"
  by (rule str_to_int64_of_str) (simp add: in_int64_def)

text \<open>Whatever bytes a string holds, \<open>str_unescape\<close> undoes \<open>str_escape\<close>.\<close>

theorem str_unescape_of_escape: "str_unescape (str_escape s) = s"
  by (rule str_unescape_escape)

text \<open>A number beyond the 64-bit range is read as the largest one, and \<open>errno\<close> is cleared: the
  callers that test \<open>errno\<close> take it for a number in range.\<close>

theorem str_to_int64_out_of_range:
  assumes "INT64_MAX < int n"
  shows "str_to_int64 en (decimal n) = (INT64_MAX, 0)"
  using assms strto_scan_decimal_int [of "int n"]
  by (simp add: str_to_int64_def strtoll_def strto_errno_def decimal_int_def)

theorem str_to_int64_out_of_range_witness: "str_to_int64 0 (decimal 9223372036854775808) = (INT64_MAX, 0)"
  by (rule str_to_int64_out_of_range) (simp add: INT64_MAX_def)

end
