(* ===== verification/Bytes.thy ===== *)
theory Bytes
  imports Strings
begin

section \<open>Byte slices, buffers and decoders (\<open>ssdb-master/src/util/bytes.h\<close>, \<open>bytes.cpp\<close>)\<close>

text \<open>
  \<open>Bytes\<close> (a read-only slice) is a byte list. \<open>Buffer\<close> keeps the whole allocated
  block, the offset of \<open>data_\<close> in it and the number of valid bytes, so that what
  \<open>nice\<close>, \<open>shrink\<close> and \<open>grow\<close> do to the block is visible; allocation is an argument
  (\<open>alloc n\<close>: the allocator can serve \<open>n\<close> bytes). \<open>Decoder\<close> is the unread rest of a slice.
\<close>

subsection \<open>Bytes\<close>

fun memcmp :: "bytes \<Rightarrow> bytes \<Rightarrow> int" where
  "memcmp (a # x) (b # y) =
     (if a = b then memcmp x y else if (of_char a :: nat) < of_char b then -1 else 1)"
| "memcmp _ _ = 0"

definition Bytes_compare :: "bytes \<Rightarrow> bytes \<Rightarrow> int" where
  "Bytes_compare x y =
     (let min_len = (if length x < length y then length x else length y);
          r = memcmp (take min_len x) (take min_len y)
      in if r = 0 then (if length x < length y then -1 else if length x > length y then 1 else r)
         else r)"

definition Bytes_eq :: "bytes \<Rightarrow> bytes \<Rightarrow> bool" where
  "Bytes_eq x y \<longleftrightarrow> length x = length y \<and> memcmp x y = 0"

definition Bytes_less :: "bytes \<Rightarrow> bytes \<Rightarrow> bool" where
  "Bytes_less x y \<longleftrightarrow> Bytes_compare x y < 0"

definition Bytes_Int :: "bytes \<Rightarrow> int" where
  "Bytes_Int b = fst (str_to_int 0 b)"

definition Bytes_Int64 :: "bytes \<Rightarrow> int" where
  "Bytes_Int64 b = fst (str_to_int64 0 b)"

definition Bytes_Uint64 :: "bytes \<Rightarrow> u64" where
  "Bytes_Uint64 b = fst (str_to_uint64 0 b)"

subsection \<open>Buffer\<close>

record buffer =
  buf :: bytes
  data_off :: nat
  bsize :: nat
  btotal :: nat

definition mem_write :: "bytes \<Rightarrow> nat \<Rightarrow> bytes \<Rightarrow> bytes" where
  "mem_write m off bs = take off m @ bs @ drop (off + length bs) m"

text \<open>A fresh block has arbitrary contents; zeros stand for them.\<close>

definition Buffer_new :: "nat \<Rightarrow> buffer" where
  "Buffer_new tot =
     \<lparr>buf = replicate tot (CHR 0x00), data_off = 0, bsize = 0, btotal = tot\<rparr>"

definition Buffer_data :: "buffer \<Rightarrow> bytes" where
  "Buffer_data b = take (bsize b) (drop (data_off b) (buf b))"

definition Buffer_empty :: "buffer \<Rightarrow> bool" where
  "Buffer_empty b \<longleftrightarrow> bsize b = 0"

definition Buffer_slot :: "buffer \<Rightarrow> nat" where
  "Buffer_slot b = data_off b + bsize b"

definition Buffer_space :: "buffer \<Rightarrow> int" where
  "Buffer_space b = int (btotal b) - int (data_off b) - int (bsize b)"

definition Buffer_incr :: "nat \<Rightarrow> buffer \<Rightarrow> buffer" where
  "Buffer_incr num b = b\<lparr>bsize := bsize b + num\<rparr>"

definition Buffer_decr :: "nat \<Rightarrow> buffer \<Rightarrow> buffer" where
  "Buffer_decr num b = b\<lparr>bsize := bsize b - num, data_off := data_off b + num\<rparr>"

definition Buffer_nice :: "buffer \<Rightarrow> buffer" where
  "Buffer_nice b =
     (if bsize b = 0 \<or> data_off b > btotal b div 2
      then (if bsize b > 0 then b\<lparr>buf := mem_write (buf b) 0 (Buffer_data b), data_off := 0\<rparr>
            else b\<lparr>data_off := 0\<rparr>)
      else b)"

text \<open>\<open>realloc\<close> keeps the common prefix of the block.\<close>

definition mem_realloc :: "bytes \<Rightarrow> nat \<Rightarrow> bytes" where
  "mem_realloc m n = take n m @ replicate (n - length m) (CHR 0x00)"

definition Buffer_shrink :: "int \<Rightarrow> buffer \<Rightarrow> buffer" where
  "Buffer_shrink tot b =
     (let tot = (if tot \<le> 0 then 8 * 1024 else tot); offset = data_off b
      in if int (offset + bsize b) > tot then b
         else b\<lparr>btotal := nat tot, buf := mem_realloc (buf b) (nat tot)\<rparr>)"

text \<open>
  \<open>None\<close> is the return value -1: \<open>realloc\<close> fails. A doubled size of \<open>2 ^ 31\<close> or more
  is a negative \<open>int\<close>, a request of more than \<open>2 ^ 63\<close> bytes as a \<open>size_t\<close>, which
  \<open>realloc\<close> always refuses.
\<close>

definition Buffer_grow :: "(nat \<Rightarrow> bool) \<Rightarrow> buffer \<Rightarrow> buffer option" where
  "Buffer_grow alloc b =
     (let n = (if btotal b < 8 * 1024 then 8 * 1024
               else if btotal b < 512 * 1024 then 8 * btotal b
               else 2 * btotal b)
      in if n \<ge> 2 ^ 31 \<or> \<not> alloc n then None
         else Some (b\<lparr>buf := mem_realloc (buf b) n, btotal := n\<rparr>))"

text \<open>The loop \<open>while(size > space()) grow()\<close> of the append functions.\<close>

function Buffer_reserve :: "(nat \<Rightarrow> bool) \<Rightarrow> int \<Rightarrow> buffer \<Rightarrow> buffer option" where
  "Buffer_reserve alloc sz b =
     (if sz > Buffer_space b
      then (case Buffer_grow alloc b of None \<Rightarrow> None | Some b' \<Rightarrow> Buffer_reserve alloc sz b')
      else Some b)"
  by pat_completeness auto
termination
  by (relation "measure (\<lambda>(alloc, sz, b). 2 ^ 31 - btotal b)")
     (auto simp: Buffer_grow_def Let_def split: if_splits)

declare Buffer_reserve.simps [simp del]

text \<open>What the append functions write at \<open>slot()\<close>.\<close>

definition Buffer_write :: "bytes \<Rightarrow> buffer \<Rightarrow> buffer" where
  "Buffer_write bs b =
     b\<lparr>buf := mem_write (buf b) (Buffer_slot b) bs, bsize := bsize b + length bs\<rparr>"

definition Buffer_append_char :: "(nat \<Rightarrow> bool) \<Rightarrow> char \<Rightarrow> buffer \<Rightarrow> (buffer \<times> int) option" where
  "Buffer_append_char alloc c b =
     map_option (\<lambda>b'. (Buffer_write [c] b', 1)) (Buffer_reserve alloc 1 b)"

definition Buffer_append :: "(nat \<Rightarrow> bool) \<Rightarrow> bytes \<Rightarrow> buffer \<Rightarrow> (buffer \<times> int) option" where
  "Buffer_append alloc p b =
     map_option (\<lambda>b'. (Buffer_write p b', int (length p)))
       (Buffer_reserve alloc (int (length p)) b)"

definition record_image :: "bytes \<Rightarrow> bytes" where
  "record_image s = decimal_int (int (length s)) @ [CHR 0x0A] @ s @ [CHR 0x0A]"

definition Buffer_append_record :: "(nat \<Rightarrow> bool) \<Rightarrow> bytes \<Rightarrow> buffer \<Rightarrow> (buffer \<times> int) option" where
  "Buffer_append_record alloc s b =
     map_option (\<lambda>b'. (Buffer_write (record_image s) b', int (length (record_image s))))
       (Buffer_reserve alloc (wrap32 (16 + int (length s) + 1)) b)"

text \<open>
  \<open>read_record\<close> returns 0 (\<open>Need_more\<close>), -1 (\<open>Malformed\<close>) or 1 with the record;
  \<open>Out_of_bounds\<close> marks a read of \<open>p[0]\<close> or \<open>p[1]\<close> past the valid data.
\<close>

datatype read_result = Need_more | Malformed | Record bytes | Out_of_bounds

definition atoi :: "bytes \<Rightarrow> int" where
  "atoi s = wrap32 (fst (strtoll (c_str s)))"

definition Buffer_read_record :: "buffer \<Rightarrow> buffer \<times> read_result" where
  "Buffer_read_record b =
     (let d = Buffer_data b; head = takeWhile (\<lambda>c. c \<noteq> CHR 0x0A) d
      in if CHR 0x0A \<notin> set d then (b, Need_more)
         else let head_len = length head + 1
         in if \<not> isdigit (d ! 0) then (b, Malformed)
            else if head_len + 1 > 20 then (b, Malformed)
            else let body_len = atoi head
            in if body_len < 0 then (b, Malformed)
               else let p = head_len + nat body_len
               in if int (bsize b) \<ge> wrap32 (wrap32 (int head_len + body_len) + 1)
                  then (if p \<ge> length d then (b, Out_of_bounds)
                        else if d ! p = CHR 0x0A
                        then (Buffer_decr (p + 1) b, Record (take (nat body_len) (drop head_len d)))
                        else if d ! p = CHR 0x0D
                        then (if int (bsize b) \<ge> wrap32 (wrap32 (int head_len + body_len) + 2)
                              then (if p + 1 \<ge> length d then (b, Out_of_bounds)
                                    else if d ! (p + 1) = CHR 0x0A
                                    then (Buffer_decr (p + 2) b,
                                          Record (take (nat body_len) (drop head_len d)))
                                    else (b, Malformed))
                              else (b, Need_more))
                        else (b, Malformed))
                  else (b, Need_more))"

subsection \<open>Decoder\<close>

definition Decoder_skip :: "nat \<Rightarrow> bytes \<Rightarrow> bytes option" where
  "Decoder_skip n d = (if length d < n then None else Some (drop n d))"

definition Decoder_read_int64 :: "bytes \<Rightarrow> (int \<times> bytes) option" where
  "Decoder_read_int64 d =
     (if length d < 8 then None else Some (sint (le64_word (take 8 d)), drop 8 d))"

definition Decoder_read_uint64 :: "bytes \<Rightarrow> (u64 \<times> bytes) option" where
  "Decoder_read_uint64 d = (if length d < 8 then None else Some (le64_word (take 8 d), drop 8 d))"

definition Decoder_read_data :: "bytes \<Rightarrow> (bytes \<times> bytes) option" where
  "Decoder_read_data d = Some (d, [])"

definition Decoder_read_8_data :: "bytes \<Rightarrow> (bytes \<times> bytes) option" where
  "Decoder_read_8_data d =
     (case d of
        [] \<Rightarrow> None
      | c # r \<Rightarrow> let len = of_char c
                 in if length r < len then None else Some (take len r, drop len r))"

subsection \<open>The slice order is the lexicographic order\<close>

lemma memcmp_same_length:
  "length x = length y \<Longrightarrow>
   (memcmp x y = 0 \<longleftrightarrow> x = y) \<and> (memcmp x y < 0 \<longleftrightarrow> x < y) \<and> (memcmp x y > 0 \<longleftrightarrow> y < x)"
  by (induction x y rule: list_induct2) (auto simp: less_char_def neq_iff)

lemma take_less_prefix:
  "length (x :: bytes) < length y \<Longrightarrow> x < y \<longleftrightarrow> x \<le> take (length x) y"
proof (induction x arbitrary: y)
  case Nil
  then show ?case by (cases y) simp_all
next
  case (Cons a x)
  then show ?case by (cases y) auto
qed

lemma take_greater_prefix:
  "length (x :: bytes) < length y \<Longrightarrow> y < x \<longleftrightarrow> take (length x) y < x"
proof (induction x arbitrary: y)
  case (Cons a x)
  then show ?case by (cases y) auto
qed simp

lemma Bytes_compare_sign:
  "(Bytes_compare x y < 0 \<longleftrightarrow> x < y) \<and> (Bytes_compare x y > 0 \<longleftrightarrow> y < x) \<and>
   (Bytes_compare x y = 0 \<longleftrightarrow> x = y)"
proof (cases "length x" "length y" rule: linorder_cases)
  case less
  then show ?thesis
    using memcmp_same_length [of x "take (length x) y"] take_less_prefix [of x y] take_greater_prefix [of x y]
    by (auto simp: Bytes_compare_def)
next
  case equal
  then show ?thesis
    using memcmp_same_length [of x y] by (auto simp: Bytes_compare_def)
next
  case greater
  then show ?thesis
    using memcmp_same_length [of "take (length y) x" y] take_less_prefix [of y x] take_greater_prefix [of y x]
    by (auto simp: Bytes_compare_def)
qed

lemma Bytes_eq_iff [simp]: "Bytes_eq x y \<longleftrightarrow> x = y"
  using memcmp_same_length [of x y] by (auto simp: Bytes_eq_def)

lemma Bytes_less_iff [simp]: "Bytes_less x y \<longleftrightarrow> x < y"
  by (simp add: Bytes_less_def Bytes_compare_sign)

subsection \<open>Buffer invariant\<close>

definition buffer_inv :: "buffer \<Rightarrow> bool" where
  "buffer_inv b \<longleftrightarrow> length (buf b) = btotal b \<and> data_off b + bsize b \<le> btotal b"

lemma buffer_inv_new: "buffer_inv (Buffer_new n)"
  by (simp add: buffer_inv_def Buffer_new_def)

lemma length_Buffer_data: "buffer_inv b \<Longrightarrow> length (Buffer_data b) = bsize b"
  by (auto simp: buffer_inv_def Buffer_data_def min_def)

lemma length_mem_write: "off + length bs \<le> length m \<Longrightarrow> length (mem_write m off bs) = length m"
  by (simp add: mem_write_def)

lemma length_mem_realloc [simp]: "length (mem_realloc m n) = n"
  by (simp add: mem_realloc_def)

text \<open>
  When \<open>nice\<close> moves the data, source and target do not overlap, so that the \<open>memcpy\<close> is
  defined, and the block from the old data on is left as it was: slices handed out
  before stay valid.
\<close>

lemma Buffer_nice_no_overlap:
  "buffer_inv b \<Longrightarrow> data_off b > btotal b div 2 \<Longrightarrow> bsize b \<le> data_off b"
  by (auto simp: buffer_inv_def)

lemma Buffer_nice_keeps_tail:
  assumes "buffer_inv b"
  shows "drop (data_off b) (buf (Buffer_nice b)) = drop (data_off b) (buf b)"
  using assms Buffer_nice_no_overlap [OF assms]
  by (auto simp: Buffer_nice_def mem_write_def length_Buffer_data)

lemma Buffer_nice_inv: "buffer_inv b \<Longrightarrow> buffer_inv (Buffer_nice b)"
  using length_Buffer_data [of b]
  by (auto simp: Buffer_nice_def buffer_inv_def length_mem_write)

lemma Buffer_nice_data: "buffer_inv b \<Longrightarrow> Buffer_data (Buffer_nice b) = Buffer_data b"
  using length_Buffer_data [of b]
  by (auto simp: Buffer_nice_def Buffer_data_def [of "_ \<lparr>data_off := _\<rparr>"] mem_write_def)

lemma take_drop_mem_realloc:
  "off + n \<le> k \<Longrightarrow> off + n \<le> length m \<Longrightarrow> take n (drop off (mem_realloc m k)) = take n (drop off m)"
  by (simp add: mem_realloc_def min_def take_drop add.commute)

lemma Buffer_shrink_inv: "buffer_inv b \<Longrightarrow> buffer_inv (Buffer_shrink n b)"
  by (auto simp: Buffer_shrink_def buffer_inv_def Let_def)

lemma Buffer_shrink_data: "buffer_inv b \<Longrightarrow> Buffer_data (Buffer_shrink n b) = Buffer_data b"
  by (auto simp: Buffer_shrink_def buffer_inv_def Let_def Buffer_data_def intro!: take_drop_mem_realloc)

lemma Buffer_grow_total: "Buffer_grow alloc b = Some b' \<Longrightarrow> btotal b < btotal b'"
  by (auto simp: Buffer_grow_def Let_def split: if_splits)

lemma Buffer_grow_inv: "buffer_inv b \<Longrightarrow> Buffer_grow alloc b = Some b' \<Longrightarrow> buffer_inv b'"
  using Buffer_grow_total [of alloc b b']
  by (auto simp: Buffer_grow_def buffer_inv_def Let_def split: if_splits)

lemma Buffer_grow_data:
  "buffer_inv b \<Longrightarrow> Buffer_grow alloc b = Some b' \<Longrightarrow> Buffer_data b' = Buffer_data b"
  using Buffer_grow_total [of alloc b b']
  by (auto simp: Buffer_grow_def buffer_inv_def Let_def Buffer_data_def split: if_splits
      intro!: take_drop_mem_realloc)

lemma Buffer_reserve_correct:
  assumes "buffer_inv b" and "Buffer_reserve alloc n b = Some b'"
  shows "buffer_inv b' \<and> Buffer_data b' = Buffer_data b \<and> n \<le> Buffer_space b'"
  using assms
proof (induction alloc n b rule: Buffer_reserve.induct)
  case (1 alloc n b)
  show ?case
  proof (cases "n > Buffer_space b")
    case True
    with 1 obtain c where c: "Buffer_grow alloc b = Some c" "Buffer_reserve alloc n c = Some b'"
      by (auto simp: Buffer_reserve.simps [of alloc n b] split: option.splits)
    with 1 True Buffer_grow_inv [OF _ c(1)] Buffer_grow_data [OF _ c(1)] show ?thesis
      by simp
  next
    case False
    with 1 show ?thesis by (simp add: Buffer_reserve.simps [of alloc n b])
  qed
qed

lemma Buffer_write_correct:
  assumes "buffer_inv b" and "int (length bs) \<le> Buffer_space b"
  shows "buffer_inv (Buffer_write bs b) \<and> Buffer_data (Buffer_write bs b) = Buffer_data b @ bs"
  using assms
  by (auto simp: buffer_inv_def Buffer_write_def Buffer_space_def Buffer_slot_def length_mem_write
      Buffer_data_def mem_write_def take_drop add.commute)

lemma Buffer_append_correct:
  assumes "buffer_inv b" and "Buffer_append alloc p b = Some (b', n)"
  shows "buffer_inv b' \<and> Buffer_data b' = Buffer_data b @ p \<and> n = int (length p)"
  using assms Buffer_reserve_correct [OF assms(1)] Buffer_write_correct
  by (auto simp: Buffer_append_def)

lemma Buffer_append_char_correct:
  assumes "buffer_inv b" and "Buffer_append_char alloc c b = Some (b', n)"
  shows "buffer_inv b' \<and> Buffer_data b' = Buffer_data b @ [c] \<and> n = 1"
  using assms Buffer_reserve_correct [OF assms(1)] Buffer_write_correct [where bs = "[c]"]
  by (auto simp: Buffer_append_char_def)

lemma length_record_image:
  assumes "length s < 2 ^ 31" shows "length (record_image s) \<le> 12 + length s"
proof -
  have "length (decimal (length s)) \<le> 10"
    using assms by (intro length_decimal) simp_all
  then show ?thesis by (simp add: record_image_def decimal_int_def)
qed

lemma Buffer_append_record_correct:
  assumes "buffer_inv b" and "length s < 2 ^ 31 - 17"
    and "Buffer_append_record alloc s b = Some (b', n)"
  shows "buffer_inv b' \<and> Buffer_data b' = Buffer_data b @ record_image s \<and>
    n = int (length (record_image s))"
proof -
  have "wrap32 (16 + int (length s) + 1) = 17 + int (length s)"
    using assms(2) by (subst wrap32_id) (simp_all add: in_int32_def)
  with assms obtain c where c: "Buffer_reserve alloc (17 + int (length s)) b = Some c"
    and b': "b' = Buffer_write (record_image s) c" "n = int (length (record_image s))"
    by (auto simp: Buffer_append_record_def)
  from Buffer_reserve_correct [OF assms(1) c] length_record_image [of s] assms(2)
  have "buffer_inv c \<and> Buffer_data c = Buffer_data b \<and> int (length (record_image s)) \<le> Buffer_space c"
    by auto
  with b' Buffer_write_correct show ?thesis by auto
qed

text \<open>With an allocator that never refuses, a record always fits below 1 GiB.\<close>

lemma Buffer_grow_succeeds:
  "\<forall>k < 2 ^ 31. alloc k \<Longrightarrow> btotal b < 2 ^ 30 \<Longrightarrow> Buffer_grow alloc b \<noteq> None"
  by (auto simp: Buffer_grow_def Let_def split: if_splits)

lemma Buffer_reserve_succeeds:
  assumes "\<forall>k < 2 ^ 31. alloc k" and "n + int (data_off b + bsize b) < 2 ^ 30" and "btotal b < 2 ^ 30"
  shows "\<exists>b'. Buffer_reserve alloc n b = Some b'"
  using assms
proof (induction alloc n b rule: Buffer_reserve.induct)
  case (1 alloc n b)
  show ?case
  proof (cases "n > Buffer_space b")
    case True
    obtain c where c: "Buffer_grow alloc b = Some c" 
      using 1 Buffer_grow_succeeds [of alloc b] by auto
    then have *: "data_off c = data_off b" "bsize c = bsize b"
      by (auto simp: Buffer_grow_def Let_def split: if_splits)
    show ?thesis
    proof (cases "btotal c < 2 ^ 30")
      case True
      with 1 c * \<open>n > Buffer_space b\<close> show ?thesis
        by (simp add: Buffer_reserve.simps [of alloc n b])
    next
      case False
      with * 1 have "\<not> n > Buffer_space c" by (simp add: Buffer_space_def)
      with c True show ?thesis
        by (simp add: Buffer_reserve.simps [of alloc n b] Buffer_reserve.simps [of alloc n c])
    qed
  qed (simp add: Buffer_reserve.simps [of alloc n b])
qed

subsection \<open>Records: what is appended is read back\<close>

lemma digit_not_newline: "isdigit c \<Longrightarrow> c \<noteq> CHR 0x0A \<and> c \<noteq> CHR 0x00"
  by (auto simp: isdigit_def)

lemma atoi_decimal: "n < 2 ^ 31 \<Longrightarrow> atoi (decimal n) = int n"
proof -
  assume n: "n < 2 ^ 31"
  have "c_str (decimal n) = decimal n"
    using decimal_digits digit_not_newline by (auto simp: c_str_def takeWhile_eq_all_conv)
  moreover have "strto_scan (decimal n) = (False, n, [])"
    using strto_scan_decimal_int [of "int n"] by (simp add: decimal_int_def)
  ultimately show ?thesis
    using n by (simp add: atoi_def strtoll_def INT64_MAX_def INT64_MIN_def in_int32_def)
qed

lemma record_image_head:
  "takeWhile (\<lambda>c. c \<noteq> CHR 0x0A) (record_image s @ rest) = decimal (length s)"
  using decimal_digits digit_not_newline
  by (simp add: record_image_def decimal_int_def takeWhile_append)

lemma Buffer_decr_data:
  assumes "buffer_inv b" and "Buffer_data b = xs @ ys"
  shows "buffer_inv (Buffer_decr (length xs) b) \<and> Buffer_data (Buffer_decr (length xs) b) = ys"
proof -
  have "bsize b = length xs + length ys"
    using length_Buffer_data [OF assms(1)] assms(2) by simp
  moreover have "ys = drop (length xs) (Buffer_data b)"
    using assms(2) by simp
  ultimately show ?thesis
    using assms(1) by (auto simp: buffer_inv_def Buffer_decr_def Buffer_data_def drop_take add.commute)
qed

lemma Buffer_read_record_image:
  assumes inv: "buffer_inv b" and data: "Buffer_data b = record_image s @ rest"
    and len: "length s < 2 ^ 31 - 17"
  shows "Buffer_read_record b = (Buffer_decr (length (record_image s)) b, Record s)"
proof -
  let ?h = "decimal (length s)"
  have h: "length ?h \<le> 10" using len by (intro length_decimal) simp_all
  have eq: "Buffer_data b = ?h @ CHR 0x0A # s @ CHR 0x0A # rest"
    using data by (simp add: record_image_def decimal_int_def)
  have size: "bsize b = length ?h + 2 + length s + length rest"
    using length_Buffer_data [OF inv] eq by simp
  have head: "takeWhile (\<lambda>c. c \<noteq> CHR 0x0A) (Buffer_data b) = ?h"
    using data by (simp add: record_image_head)
  obtain d ds where "?h = d # ds" "isdigit d" by (rule decimal_Cons)
  then have digit: "isdigit (Buffer_data b ! 0)" using eq by simp
  have wrap: "wrap32 (wrap32 (int (length ?h + 1) + int (length s)) + 1) = int (length ?h + 2 + length s)"
    using len h by (simp add: in_int32_def)
  have nth: "Buffer_data b ! (length ?h + 1 + length s) = CHR 0x0A"
    unfolding eq by (simp add: nth_append)
  have body: "take (length s) (drop (length ?h + 1) (Buffer_data b)) = s"
    unfolding eq by simp
  have "length (record_image s) = length ?h + 1 + length s + 1"
    by (simp add: record_image_def decimal_int_def)
  moreover have "CHR 0x0A \<in> set (Buffer_data b)" unfolding eq by simp
  ultimately show ?thesis
    using h digit nth body wrap size len
    by (simp add: Buffer_read_record_def Let_def head atoi_decimal length_Buffer_data [OF inv])
qed

text \<open>
  The contract of a channel of records, and what follows for every sequence of records:
  the reader gets what the writer put, in order.
\<close>

locale record_channel =
  fixes ok :: "'b \<Rightarrow> bool"
    and content :: "'b \<Rightarrow> bytes"
    and put :: "bytes \<Rightarrow> 'b \<Rightarrow> 'b option"
    and get :: "'b \<Rightarrow> 'b \<times> read_result"
    and fits :: "bytes \<Rightarrow> bool"
    and image :: "bytes \<Rightarrow> bytes"
  assumes put_content: "ok b \<Longrightarrow> fits s \<Longrightarrow> put s b = Some b' \<Longrightarrow> ok b' \<and> content b' = content b @ image s"
    and get_content: "ok b \<Longrightarrow> fits s \<Longrightarrow> content b = image s @ rest \<Longrightarrow>
      (\<exists>b'. get b = (b', Record s) \<and> ok b' \<and> content b' = rest)"
begin

primrec put_all :: "bytes list \<Rightarrow> 'b \<Rightarrow> 'b option" where
  "put_all [] b = Some b"
| "put_all (s # ss) b = (case put s b of None \<Rightarrow> None | Some b' \<Rightarrow> put_all ss b')"

primrec get_n :: "nat \<Rightarrow> 'b \<Rightarrow> 'b \<times> read_result list" where
  "get_n 0 b = (b, [])"
| "get_n (Suc n) b = (let (b', r) = get b; (b'', rs) = get_n n b' in (b'', r # rs))"

lemma put_all_content:
  "ok b \<Longrightarrow> list_all fits ss \<Longrightarrow> put_all ss b = Some b' \<Longrightarrow>
   ok b' \<and> content b' = content b @ concat (map image ss)"
proof (induction ss arbitrary: b)
  case (Cons s ss)
  then obtain c where "put s b = Some c" "put_all ss c = Some b'"
    by (auto split: option.splits)
  with Cons put_content [of b s c] show ?case by auto
qed simp

lemma get_n_content:
  "ok b \<Longrightarrow> list_all fits ss \<Longrightarrow> content b = concat (map image ss) @ rest \<Longrightarrow>
   \<exists>b'. get_n (length ss) b = (b', map Record ss) \<and> ok b' \<and> content b' = rest"
proof (induction ss arbitrary: b)
  case (Cons s ss)
  then obtain c where c: "get b = (c, Record s)" "ok c" "content c = concat (map image ss) @ rest"
    using get_content [of b s "concat (map image ss) @ rest"] by auto
  with Cons.prems Cons.IH [of c] show ?case by auto
qed simp

lemma put_all_get_n:
  assumes "ok b" and "list_all fits ss" and "put_all ss b = Some b'" and "content b = []"
  shows "\<exists>b''. get_n (length ss) b' = (b'', map Record ss) \<and> content b'' = []"
  using put_all_content [OF assms(1,2,3)] assms(2,4) get_n_content [of b' ss "[]"] by auto

end

definition Buffer_put_record :: "(nat \<Rightarrow> bool) \<Rightarrow> bytes \<Rightarrow> buffer \<Rightarrow> buffer option" where
  "Buffer_put_record alloc s b = map_option fst (Buffer_append_record alloc s b)"

definition record_fits :: "bytes \<Rightarrow> bool" where
  "record_fits s \<longleftrightarrow> length s < 2 ^ 31 - 17"

interpretation rec_buf: record_channel buffer_inv Buffer_data "Buffer_put_record alloc" Buffer_read_record
    record_fits record_image for alloc
proof
  fix b s b'
  assume "buffer_inv b" "record_fits s" "Buffer_put_record alloc s b = Some b'"
  then show "buffer_inv b' \<and> Buffer_data b' = Buffer_data b @ record_image s"
    using Buffer_append_record_correct [of b s alloc] by (auto simp: Buffer_put_record_def record_fits_def)
next
  fix b s rest
  assume "buffer_inv b" "record_fits s" "Buffer_data b = record_image s @ rest"
  then show "\<exists>b'. Buffer_read_record b = (b', Record s) \<and> buffer_inv b' \<and> Buffer_data b' = rest"
    using Buffer_read_record_image Buffer_decr_data by (auto simp: record_fits_def)
qed

text \<open>A length line of \<open>2147483647\<close> makes the length check overflow; the read goes out of bounds.\<close>

lemma Buffer_read_record_overflow:
  "snd (Buffer_read_record \<lparr>buf = ''2147483647'' @ [CHR 0x0A, CHR ''x''], data_off = 0, bsize = 12,
      btotal = 12\<rparr>) = Out_of_bounds"
  by (simp add: Buffer_read_record_def Buffer_data_def Let_def atoi_def c_str_def strtoll_def
      strto_scan_def strto_sign_def isspace_def isdigit_def wrap32_def INT64_MAX_def INT64_MIN_def)

subsection \<open>Properties\<close>

text \<open>\<open>Bytes::compare\<close> is the order of byte strings: negative, zero and positive as the first is
  below, equal to or above the second.\<close>

theorem Bytes_compare_order:
  "(Bytes_compare x y < 0 \<longleftrightarrow> x < y) \<and> (Bytes_compare x y = 0 \<longleftrightarrow> x = y) \<and> (Bytes_compare x y > 0 \<longleftrightarrow> y < x)"
  using Bytes_compare_sign [of x y] by auto

text \<open>Records that \<open>append_record\<close> has put into an empty buffer come out of \<open>read_record\<close> one by
  one, in order and unchanged, and leave the buffer empty.\<close>

theorem Buffer_records_in_order:
  assumes "buffer_inv b" and "list_all record_fits ss" and "rec_buf.put_all alloc ss b = Some b'"
    and "Buffer_data b = []"
  shows "\<exists>b''. rec_buf.get_n (length ss) b' = (b'', map Record ss) \<and> Buffer_data b'' = []"
  using assms by (rule rec_buf.put_all_get_n)

theorem Buffer_records_in_order_witness:
  "\<exists>b' b''. rec_buf.put_all (\<lambda>_. True) [''ab'', []] (Buffer_new 64) = Some b' \<and>
    rec_buf.get_n 2 b' = (b'', [Record ''ab'', Record []]) \<and> Buffer_data b'' = []"
proof -
  have "\<exists>b'. rec_buf.put_all (\<lambda>_. True) [''ab'', []] (Buffer_new 64) = Some b'"
    by (simp add: Buffer_put_record_def Buffer_append_record_def Buffer_reserve.simps Buffer_new_def Buffer_space_def
        Buffer_write_def wrap32_def record_image_def decimal_int_def decimal.simps)
  then obtain b' where b': "rec_buf.put_all (\<lambda>_. True) [''ab'', []] (Buffer_new 64) = Some b'" ..
  have "buffer_inv (Buffer_new 64)" "list_all record_fits [''ab'', []]" "Buffer_data (Buffer_new 64) = []"
    by (simp_all add: buffer_inv_new record_fits_def) (simp add: Buffer_new_def Buffer_data_def)
  from Buffer_records_in_order [OF this(1,2) b' this(3)] b' show ?thesis by (simp add: numeral_2_eq_2)
qed
text \<open>A packet whose length line is \<open>2147483647\<close> makes the length check of \<open>read_record\<close> overflow:
  the access that follows is outside of the data.\<close>

theorem Buffer_read_record_out_of_bounds:
  "snd (Buffer_read_record \<lparr>buf = ''2147483647'' @ [CHR 0x0A, CHR ''x''], data_off = 0, bsize = 12,
      btotal = 12\<rparr>) = Out_of_bounds"
  by (rule Buffer_read_record_overflow)

end
