(* ===== verification/LevelDB.thy ===== *)
theory LevelDB
  imports Bytes
begin

section \<open>The storage engine at its interface (\<open>deps/leveldb-1.18/include/leveldb\<close>)\<close>

text \<open>
  LevelDB is modelled at the contract its headers document: an ordered map from keys to
  values, written in atomic batches and read by key or through snapshot iterators. The map is
  the list of its entries in the order of the bytewise comparator. Errors of the engine are
  part of the state: \<open>rd_fail k\<close> says that reading \<open>k\<close> ends in an I/O error,
  \<open>wr_fail\<close> that writes do; the theorems hold for every value of them.
\<close>

type_synonym kvs = "(bytes \<times> bytes) list"

record leveldb =
  entries :: kvs
  rd_fail :: "bytes \<Rightarrow> bool"
  wr_fail :: bool

subsection \<open>Point operations\<close>

fun kv_put :: "bytes \<Rightarrow> bytes \<Rightarrow> kvs \<Rightarrow> kvs" where
  "kv_put k v [] = [(k, v)]"
| "kv_put k v ((a, b) # xs) =
     (if k < a then (k, v) # (a, b) # xs
      else if k = a then (k, v) # xs
      else (a, b) # kv_put k v xs)"

fun kv_del :: "bytes \<Rightarrow> kvs \<Rightarrow> kvs" where
  "kv_del k [] = []"
| "kv_del k ((a, b) # xs) = (if k = a then xs else (a, b) # kv_del k xs)"

text \<open>\<open>Get\<close>: OK with the value, \<open>IsNotFound()\<close>, or another non-OK status.\<close>

datatype get_status = Found bytes | NotFound | Failed

definition ldb_Get :: "leveldb \<Rightarrow> bytes \<Rightarrow> get_status" where
  "ldb_Get db k =
     (if rd_fail db k then Failed
      else case map_of (entries db) k of None \<Rightarrow> NotFound | Some v \<Rightarrow> Found v)"

text \<open>\<open>WriteBatch\<close>: the updates in the order they were added; \<open>Write\<close> applies all or none.\<close>

datatype wop = WPut bytes bytes | WDelete bytes

fun apply_wop :: "wop \<Rightarrow> kvs \<Rightarrow> kvs" where
  "apply_wop (WPut k v) xs = kv_put k v xs"
| "apply_wop (WDelete k) xs = kv_del k xs"

definition apply_batch :: "wop list \<Rightarrow> kvs \<Rightarrow> kvs" where
  "apply_batch b xs = fold apply_wop b xs"

definition ldb_Write :: "wop list \<Rightarrow> leveldb \<Rightarrow> leveldb \<times> bool" where
  "ldb_Write b db =
     (if wr_fail db then (db, False) else (db\<lparr>entries := apply_batch b (entries db)\<rparr>, True))"

definition ldb_Put :: "bytes \<Rightarrow> bytes \<Rightarrow> leveldb \<Rightarrow> leveldb \<times> bool" where
  "ldb_Put k v db = ldb_Write [WPut k v] db"

definition ldb_Delete :: "bytes \<Rightarrow> leveldb \<Rightarrow> leveldb \<times> bool" where
  "ldb_Delete k db = ldb_Write [WDelete k] db"

subsection \<open>Iterators\<close>

text \<open>An iterator sees the entries at its creation; a position past the end is not valid.\<close>

record ldb_iter =
  snap :: kvs
  pos :: nat

definition it_new :: "leveldb \<Rightarrow> ldb_iter" where
  "it_new db = \<lparr>snap = entries db, pos = length (entries db)\<rparr>"

definition it_Valid :: "ldb_iter \<Rightarrow> bool" where
  "it_Valid it \<longleftrightarrow> pos it < length (snap it)"

definition it_SeekToFirst :: "ldb_iter \<Rightarrow> ldb_iter" where
  "it_SeekToFirst it = it\<lparr>pos := 0\<rparr>"

definition it_SeekToLast :: "ldb_iter \<Rightarrow> ldb_iter" where
  "it_SeekToLast it = it\<lparr>pos := length (snap it) - 1\<rparr>"

definition it_Seek :: "bytes \<Rightarrow> ldb_iter \<Rightarrow> ldb_iter" where
  "it_Seek k it = it\<lparr>pos := length (takeWhile (\<lambda>p. fst p < k) (snap it))\<rparr>"

definition it_Next :: "ldb_iter \<Rightarrow> ldb_iter" where
  "it_Next it = (if it_Valid it then it\<lparr>pos := Suc (pos it)\<rparr> else it)"

definition it_Prev :: "ldb_iter \<Rightarrow> ldb_iter" where
  "it_Prev it =
     (if \<not> it_Valid it then it
      else if pos it = 0 then it\<lparr>pos := length (snap it)\<rparr>
      else it\<lparr>pos := pos it - 1\<rparr>)"

definition it_key :: "ldb_iter \<Rightarrow> bytes" where
  "it_key it = fst (snap it ! pos it)"

definition it_value :: "ldb_iter \<Rightarrow> bytes" where
  "it_value it = snd (snap it ! pos it)"

subsection \<open>Ordered entries\<close>

definition kv_sorted :: "kvs \<Rightarrow> bool" where
  "kv_sorted xs \<longleftrightarrow> sorted_wrt (<) (map fst xs)"

lemma kv_sorted_Nil [simp]: "kv_sorted []"
  by (simp add: kv_sorted_def)

lemma kv_sorted_Cons [simp]:
  "kv_sorted ((a, b) # xs) \<longleftrightarrow> (\<forall>p \<in> set xs. a < fst p) \<and> kv_sorted xs"
  by (simp add: kv_sorted_def)

lemma set_kv_put: "fst ` set (kv_put k v xs) = insert k (fst ` set xs)"
  by (induction k v xs rule: kv_put.induct) auto

lemma set_kv_del: "set (kv_del k xs) \<subseteq> set xs"
  by (induction k xs rule: kv_del.induct) auto

lemma kv_put_keys: "p \<in> set (kv_put k v xs) \<Longrightarrow> fst p = k \<or> fst p \<in> fst ` set xs"
  using set_kv_put [of k v xs] by blast

lemma kv_sorted_put: "kv_sorted xs \<Longrightarrow> kv_sorted (kv_put k v xs)"
proof (induction k v xs rule: kv_put.induct)
  case (2 k v a b xs)
  then show ?case by (fastforce dest: kv_put_keys)
qed simp

lemma kv_sorted_del: "kv_sorted xs \<Longrightarrow> kv_sorted (kv_del k xs)"
proof (induction k xs rule: kv_del.induct)
  case (2 k a b xs)
  then show ?case using set_kv_del [of k xs] by auto
qed simp

lemma map_of_kv_put: "map_of (kv_put k v xs) = (map_of xs)(k \<mapsto> v)"
  by (induction k v xs rule: kv_put.induct) auto

lemma kv_sorted_map_of_None: "kv_sorted ((a, b) # xs) \<Longrightarrow> map_of xs a = None"
  by (force simp: map_of_eq_None_iff)

lemma map_of_kv_del: "kv_sorted xs \<Longrightarrow> map_of (kv_del k xs) = (map_of xs)(k := None)"
proof (induction k xs rule: kv_del.induct)
  case (2 k a b xs)
  then show ?case using kv_sorted_map_of_None [of a b xs] by auto
qed auto

text \<open>
  The contract of a map of byte strings with an invariant, and what it gives for a whole
  batch: the batch acts on the lookup function update by update.
\<close>

fun wop_map :: "wop \<Rightarrow> (bytes \<rightharpoonup> bytes) \<Rightarrow> (bytes \<rightharpoonup> bytes)" where
  "wop_map (WPut k v) m = m(k \<mapsto> v)"
| "wop_map (WDelete k) m = m(k := None)"

definition batch_map :: "wop list \<Rightarrow> (bytes \<rightharpoonup> bytes) \<Rightarrow> (bytes \<rightharpoonup> bytes)" where
  "batch_map b m = fold wop_map b m"

lemma batch_map_simps [simp]:
  "batch_map [] m = m" "batch_map (x # b) m = batch_map b (wop_map x m)"
  "batch_map (b @ c) m = batch_map c (batch_map b m)"
  by (simp_all add: batch_map_def)

fun wop_key :: "wop \<Rightarrow> bytes" where
  "wop_key (WPut k v) = k"
| "wop_key (WDelete k) = k"

lemma batch_map_other: "k \<notin> wop_key ` set b \<Longrightarrow> batch_map b m k = m k"
proof (induction b arbitrary: m)
  case (Cons x b)
  then show ?case by (cases x) auto
qed simp

locale ordered_store =
  fixes lookup :: "'s \<Rightarrow> bytes \<Rightarrow> bytes option"
    and put :: "bytes \<Rightarrow> bytes \<Rightarrow> 's \<Rightarrow> 's"
    and del :: "bytes \<Rightarrow> 's \<Rightarrow> 's"
    and invar :: "'s \<Rightarrow> bool"
  assumes lookup_put: "invar s \<Longrightarrow> lookup (put k v s) = (lookup s)(k \<mapsto> v)"
    and lookup_del: "invar s \<Longrightarrow> lookup (del k s) = (lookup s)(k := None)"
    and invar_put: "invar s \<Longrightarrow> invar (put k v s)"
    and invar_del: "invar s \<Longrightarrow> invar (del k s)"
begin

fun run_wop :: "wop \<Rightarrow> 's \<Rightarrow> 's" where
  "run_wop (WPut k v) s = put k v s"
| "run_wop (WDelete k) s = del k s"

lemma run_batch:
  "invar s \<Longrightarrow> invar (fold run_wop b s) \<and> lookup (fold run_wop b s) = batch_map b (lookup s)"
proof (induction b arbitrary: s)
  case (Cons x b)
  then show ?case
    by (cases x) (simp_all add: lookup_put lookup_del invar_put invar_del del: fun_upd_apply)
qed simp

end

interpretation kv: ordered_store map_of kv_put kv_del kv_sorted
  by unfold_locales (simp_all add: map_of_kv_put map_of_kv_del kv_sorted_put kv_sorted_del)

lemma apply_batch_run: "apply_batch b xs = fold kv.run_wop b xs"
proof -
  have "apply_wop x xs = kv.run_wop x xs" for x xs
    by (cases x) simp_all
  then have "apply_wop = kv.run_wop" by (intro ext)
  then show ?thesis by (simp add: apply_batch_def)
qed

lemma apply_batch_sorted: "kv_sorted xs \<Longrightarrow> kv_sorted (apply_batch b xs)"
  by (simp add: apply_batch_run kv.run_batch)

lemma map_of_apply_batch: "kv_sorted xs \<Longrightarrow> map_of (apply_batch b xs) = batch_map b (map_of xs)"
  by (simp add: apply_batch_run kv.run_batch)

text \<open>Two ordered stores with the same lookup function are the same list.\<close>

lemma kv_sorted_eqI:
  assumes "kv_sorted xs" and "kv_sorted ys" and "map_of xs = map_of ys"
  shows "xs = ys"
proof -
  have d: "distinct (map fst xs)" "distinct (map fst ys)"
    using assms by (simp_all add: kv_sorted_def strict_sorted_iff)
  then have "set xs = set ys"
    using assms(3) map_of_is_SomeI by (metis d map_of_eqI map_of_SomeD subsetI subset_antisym surj_pair)
  moreover have "sorted_wrt (\<lambda>p q. fst p < fst q) xs" "sorted_wrt (\<lambda>p q. fst p < fst q) ys"
    using assms by (simp_all add: kv_sorted_def sorted_wrt_map)
  ultimately show ?thesis
  proof (induction xs arbitrary: ys)
    case (Cons x xs)
    then obtain y ys' where ys: "ys = y # ys'" by (cases ys) auto
    have "x = y" using Cons.prems unfolding ys
      by simp (metis insertE insertI1 order.asym)
    moreover have "x \<notin> set xs" "y \<notin> set ys'" using Cons.prems ys by auto
    ultimately show ?case using Cons ys by (simp add: insert_ident)
  qed simp
qed

end
