(* ===== verification/Binlog.thy ===== *)
theory Binlog
  imports LevelDB
begin

section \<open>Constants, binlogs and transactions (\<open>ssdb/const.h\<close>, \<open>ssdb/binlog.h\<close>, \<open>ssdb/binlog.cpp\<close>)\<close>

text \<open>
  Every write of the database is a transaction on the binlog queue: the data updates and one
  log entry per logical update are collected in one \<open>WriteBatch\<close> and written together.
  The log entries live in the same store as the data, under keys of type \<open>SYNCLOG\<close>.
\<close>

subsection \<open>Constants\<close>

definition SSDB_KEY_LEN_MAX :: nat where "SSDB_KEY_LEN_MAX = 255"

datatype DataType = SYNCLOG | KV | HASH | HSIZE | ZSET | ZSCORE | ZSIZE | QUEUE | QSIZE

primrec type_char :: "DataType \<Rightarrow> char" where
  "type_char SYNCLOG = CHR 0x01"
| "type_char KV = CHR ''k''"
| "type_char HASH = CHR ''h''"
| "type_char HSIZE = CHR ''H''"
| "type_char ZSET = CHR ''s''"
| "type_char ZSCORE = CHR ''z''"
| "type_char ZSIZE = CHR ''Z''"
| "type_char QUEUE = CHR ''q''"
| "type_char QSIZE = CHR ''Q''"

datatype BinlogType = BT_NOOP | BT_SYNC | BT_MIRROR | BT_COPY | BT_CTRL

primrec binlog_type_char :: "BinlogType \<Rightarrow> char" where
  "binlog_type_char BT_NOOP = CHR 0x00"
| "binlog_type_char BT_SYNC = CHR 0x01"
| "binlog_type_char BT_MIRROR = CHR 0x02"
| "binlog_type_char BT_COPY = CHR 0x03"
| "binlog_type_char BT_CTRL = CHR 0x04"

datatype BinlogCommand =
    BC_NONE | BC_KSET | BC_KDEL | BC_HSET | BC_HDEL | BC_ZSET | BC_ZDEL
  | BC_QPUSH_BACK | BC_QPUSH_FRONT | BC_QPOP_BACK | BC_QPOP_FRONT | BC_QSET | BC_BEGIN | BC_END

primrec binlog_cmd_char :: "BinlogCommand \<Rightarrow> char" where
  "binlog_cmd_char BC_NONE = CHR 0x00"
| "binlog_cmd_char BC_KSET = CHR 0x01"
| "binlog_cmd_char BC_KDEL = CHR 0x02"
| "binlog_cmd_char BC_HSET = CHR 0x03"
| "binlog_cmd_char BC_HDEL = CHR 0x04"
| "binlog_cmd_char BC_ZSET = CHR 0x05"
| "binlog_cmd_char BC_ZDEL = CHR 0x06"
| "binlog_cmd_char BC_QPUSH_BACK = CHR 0x0A"
| "binlog_cmd_char BC_QPUSH_FRONT = CHR 0x0B"
| "binlog_cmd_char BC_QPOP_BACK = CHR 0x0C"
| "binlog_cmd_char BC_QPOP_FRONT = CHR 0x0D"
| "binlog_cmd_char BC_QSET = CHR 0x0E"
| "binlog_cmd_char BC_BEGIN = CHR 0x07"
| "binlog_cmd_char BC_END = CHR 0x08"

lemma type_char_inject [simp]: "type_char a = type_char b \<longleftrightarrow> a = b"
  by (cases a; cases b) simp_all

subsection \<open>Binlog\<close>

text \<open>A \<open>Binlog\<close> is its buffer: 8 bytes of sequence number, type, command, key.\<close>

definition HEADER_LEN :: nat where "HEADER_LEN = 10"

definition Binlog_make :: "u64 \<Rightarrow> char \<Rightarrow> char \<Rightarrow> bytes \<Rightarrow> bytes" where
  "Binlog_make sq type cmd key = le64 sq @ [type] @ [cmd] @ key"

definition Binlog_seq :: "bytes \<Rightarrow> u64" where
  "Binlog_seq b = le64_word (take 8 b)"

definition Binlog_type :: "bytes \<Rightarrow> char" where
  "Binlog_type b = b ! 8"

definition Binlog_cmd :: "bytes \<Rightarrow> char" where
  "Binlog_cmd b = b ! (8 + 1)"

definition Binlog_key :: "bytes \<Rightarrow> bytes" where
  "Binlog_key b = drop HEADER_LEN b"

text \<open>\<open>load\<close>: \<open>None\<close> is -1, the log keeps its old contents.\<close>

definition Binlog_load :: "bytes \<Rightarrow> bytes option" where
  "Binlog_load s = (if length s < HEADER_LEN then None else Some s)"

definition dumps_type :: "char \<Rightarrow> bytes" where
  "dumps_type c =
     (if c = CHR 0x00 then ''noop '' else if c = CHR 0x01 then ''sync ''
      else if c = CHR 0x02 then ''mirror '' else if c = CHR 0x03 then ''copy ''
      else if c = CHR 0x04 then ''control '' else [])"

definition dumps_cmd :: "char \<Rightarrow> bytes" where
  "dumps_cmd c =
     (if c = binlog_cmd_char BC_NONE then ''none ''
      else if c = binlog_cmd_char BC_KSET then ''set ''
      else if c = binlog_cmd_char BC_KDEL then ''del ''
      else if c = binlog_cmd_char BC_HSET then ''hset ''
      else if c = binlog_cmd_char BC_HDEL then ''hdel ''
      else if c = binlog_cmd_char BC_ZSET then ''zset ''
      else if c = binlog_cmd_char BC_ZDEL then ''zdel ''
      else if c = binlog_cmd_char BC_BEGIN then ''begin ''
      else if c = binlog_cmd_char BC_END then ''end ''
      else if c = binlog_cmd_char BC_QPUSH_BACK then ''qpush_back ''
      else if c = binlog_cmd_char BC_QPUSH_FRONT then ''qpush_front ''
      else if c = binlog_cmd_char BC_QPOP_BACK then ''qpop_back ''
      else if c = binlog_cmd_char BC_QPOP_FRONT then ''qpop_front ''
      else if c = binlog_cmd_char BC_QSET then ''qset ''
      else [])"

text \<open>The number is printed into a buffer of 20 bytes.\<close>

definition Binlog_dumps :: "bytes \<Rightarrow> bytes" where
  "Binlog_dumps b =
     (if length b < HEADER_LEN then []
      else take 19 (decimal (unat (Binlog_seq b)) @ '' '') @ dumps_type (Binlog_type b) @
           dumps_cmd (Binlog_cmd b) @ hexmem (Binlog_key b))"

definition encode_seq_key :: "u64 \<Rightarrow> bytes" where
  "encode_seq_key sq = [type_char SYNCLOG] @ le64 (big_endian64 sq)"

definition decode_seq_key :: "bytes \<Rightarrow> u64" where
  "decode_seq_key key =
     (if length key = 8 + 1 \<and> key ! 0 = type_char SYNCLOG
      then big_endian64 (le64_word (take 8 (drop 1 key))) else 0)"

subsection \<open>BinlogQueue\<close>

record binlog_queue =
  min_seq :: u64
  last_seq :: u64
  tran_seq :: u64
  capacity :: int
  batch :: "wop list"
  enabled :: bool

record ssdb =
  ldb :: leveldb
  binlogs :: binlog_queue

definition bl_begin :: "ssdb \<Rightarrow> ssdb" where
  "bl_begin s = s\<lparr>binlogs := (binlogs s)\<lparr>tran_seq := last_seq (binlogs s), batch := []\<rparr>\<rparr>"

definition bl_rollback :: "ssdb \<Rightarrow> ssdb" where
  "bl_rollback s = s\<lparr>binlogs := (binlogs s)\<lparr>tran_seq := 0\<rparr>\<rparr>"

definition bl_commit :: "ssdb \<Rightarrow> ssdb \<times> bool" where
  "bl_commit s =
     (let (db, ok) = ldb_Write (batch (binlogs s)) (ldb s)
      in if ok
         then (s\<lparr>ldb := db, binlogs := (binlogs s)\<lparr>last_seq := tran_seq (binlogs s), tran_seq := 0\<rparr>\<rparr>, True)
         else (s\<lparr>ldb := db\<rparr>, False))"

definition bl_Put :: "bytes \<Rightarrow> bytes \<Rightarrow> ssdb \<Rightarrow> ssdb" where
  "bl_Put k v s = s\<lparr>binlogs := (binlogs s)\<lparr>batch := batch (binlogs s) @ [WPut k v]\<rparr>\<rparr>"

definition bl_Delete :: "bytes \<Rightarrow> ssdb \<Rightarrow> ssdb" where
  "bl_Delete k s = s\<lparr>binlogs := (binlogs s)\<lparr>batch := batch (binlogs s) @ [WDelete k]\<rparr>\<rparr>"

definition bl_add_log :: "char \<Rightarrow> char \<Rightarrow> bytes \<Rightarrow> ssdb \<Rightarrow> ssdb" where
  "bl_add_log type cmd key s =
     (if \<not> enabled (binlogs s) then s
      else let sq = tran_seq (binlogs s) + 1
           in s\<lparr>binlogs := (binlogs s)\<lparr>tran_seq := sq,
                 batch := batch (binlogs s) @ [WPut (encode_seq_key sq) (Binlog_make sq type cmd key)]\<rparr>\<rparr>)"

text \<open>\<open>Transaction\<close>: the constructor begins, the destructor rolls back; the mutex makes a
  transaction one step of the model.\<close>

definition Transaction :: "(ssdb \<Rightarrow> ssdb \<times> 'a) \<Rightarrow> ssdb \<Rightarrow> ssdb \<times> 'a" where
  "Transaction body s = (let (s', r) = body (bl_begin s) in (bl_rollback s', r))"

text \<open>\<open>get\<close>: the log when the function returns 1.\<close>

definition bl_get :: "u64 \<Rightarrow> leveldb \<Rightarrow> bytes option" where
  "bl_get sq db = (case ldb_Get db (encode_seq_key sq) of Found v \<Rightarrow> Binlog_load v | _ \<Rightarrow> None)"

datatype find_result = FR_Error | FR_None | FR_Log bytes

definition bl_load_at :: "ldb_iter \<Rightarrow> find_result" where
  "bl_load_at it =
     (if it_Valid it \<and> decode_seq_key (it_key it) \<noteq> 0
      then (case Binlog_load (it_value it) of None \<Rightarrow> FR_Error | Some b \<Rightarrow> FR_Log b)
      else FR_None)"

definition bl_find_next :: "u64 \<Rightarrow> leveldb \<Rightarrow> find_result" where
  "bl_find_next next_seq db =
     (case bl_get next_seq db of
        Some b \<Rightarrow> FR_Log b
      | None \<Rightarrow> bl_load_at (it_Seek (encode_seq_key next_seq) (it_new db)))"

definition bl_find_last :: "leveldb \<Rightarrow> find_result" where
  "bl_find_last db =
     (let it = it_Seek (encode_seq_key UINT64_MAX) (it_new db)
      in bl_load_at (if \<not> it_Valid it then it_SeekToLast it else it_Prev it))"

text \<open>
  The constructor. \<open>capacity\<close> is compared and subtracted as an unsigned 64-bit number.
\<close>

definition BinlogQueue_new :: "leveldb \<Rightarrow> bool \<Rightarrow> int \<Rightarrow> binlog_queue" where
  "BinlogQueue_new db on max_logs =
     (let last = (case bl_find_last db of FR_Log b \<Rightarrow> Binlog_seq b | _ \<Rightarrow> 0);
          cap = word_of_int max_logs :: u64;
          lo = (if last > cap then last - cap else 0);
          lo = (case bl_find_next lo db of FR_Log b \<Rightarrow> Binlog_seq b | _ \<Rightarrow> lo)
      in \<lparr>min_seq = lo, last_seq = last, tran_seq = 0, capacity = max_logs, batch = [],
          enabled = on\<rparr>)"

text \<open>\<open>SSDB::open\<close> on a store that LevelDB has opened, and the database on an empty directory
  with the default capacity.\<close>

definition ssdb_open :: "leveldb \<Rightarrow> bool \<Rightarrow> int \<Rightarrow> ssdb" where
  "ssdb_open db on max_logs = \<lparr>ldb = db, binlogs = BinlogQueue_new db on max_logs\<rparr>"

definition fresh_ldb :: leveldb where
  "fresh_ldb = \<lparr>entries = [], rd_fail = (\<lambda>_. False), wr_fail = False\<rparr>"

definition fresh_db :: ssdb where
  "fresh_db = ssdb_open fresh_ldb True 20000000"

definition bl_stats :: "binlog_queue \<Rightarrow> bytes" where
  "bl_stats q =
     ''    capacity : '' @ str_int (capacity q) @ [CHR 0x0A] @
     ''    min_seq  : '' @ str_uint64 (min_seq q) @ [CHR 0x0A] @
     ''    max_seq  : '' @ str_uint64 (last_seq q)"

definition bl_update :: "u64 \<Rightarrow> char \<Rightarrow> char \<Rightarrow> bytes \<Rightarrow> leveldb \<Rightarrow> leveldb \<times> int" where
  "bl_update sq type cmd key db =
     (let (db', ok) = ldb_Put (encode_seq_key sq) (Binlog_make sq type cmd key) db
      in (db', if ok then 0 else -1))"

definition bl_del :: "u64 \<Rightarrow> leveldb \<Rightarrow> leveldb \<times> int" where
  "bl_del sq db = (let (db', ok) = ldb_Delete (encode_seq_key sq) db in (db', if ok then 0 else -1))"

text \<open>The inner loop of \<open>del_range\<close>: at most \<open>n\<close> deletions, and the next \<open>start\<close>.\<close>

fun del_chunk :: "nat \<Rightarrow> u64 \<Rightarrow> u64 \<Rightarrow> wop list \<times> u64" where
  "del_chunk 0 start end = ([], start)"
| "del_chunk (Suc n) start end =
     (if start \<le> end
      then let (ws, s') = del_chunk n (start + 1) end in (WDelete (encode_seq_key start) # ws, s')
      else ([], start))"

text \<open>\<open>None\<close>: the loop does not end (\<open>start\<close> wraps around when \<open>end\<close> is the largest number).\<close>

partial_function (option) bl_del_range :: "u64 \<Rightarrow> u64 \<Rightarrow> leveldb \<Rightarrow> (leveldb \<times> int) option" where
  "bl_del_range start end db =
     (if start \<le> end
      then (case del_chunk 1000 start end of
              (ws, start') \<Rightarrow>
                (case ldb_Write ws db of
                   (db', ok) \<Rightarrow> if ok then bl_del_range start' end db' else Some (db', -1)))
      else Some (db, 0))"

definition bl_flush :: "ssdb \<Rightarrow> ssdb option" where
  "bl_flush s =
     (case bl_del_range (min_seq (binlogs s)) (last_seq (binlogs s)) (ldb s) of
        None \<Rightarrow> None | Some (db, r) \<Rightarrow> Some (s\<lparr>ldb := db\<rparr>))"

text \<open>One round of the cleaning thread; the comparison is between unsigned 64-bit numbers.\<close>

definition log_clean_step :: "ssdb \<Rightarrow> ssdb option" where
  "log_clean_step s =
     (let q = binlogs s
      in if last_seq q - min_seq q < word_of_int (wrap32 (capacity q + 10000)) then Some s
         else let end = last_seq q - word_of_int (capacity q)
              in case bl_del_range (min_seq q) end (ldb s) of
                   None \<Rightarrow> None
                 | Some (db, r) \<Rightarrow> Some (s\<lparr>ldb := db, binlogs := q\<lparr>min_seq := end + 1\<rparr>\<rparr>))"

text \<open>The loop of \<open>clean_obsolete_binlogs\<close>: backwards until a key that is not a log.\<close>

function clean_loop :: "ldb_iter \<Rightarrow> leveldb \<Rightarrow> leveldb" where
  "clean_loop it db =
     (if it_Valid it
      then let sq = decode_seq_key (it_key it)
           in if sq = 0 then db else clean_loop (it_Prev it) (fst (bl_del sq db))
      else db)"
  by pat_completeness auto
termination
  by (relation "measure (\<lambda>(it, db). if it_Valid it then Suc (pos it) else 0)")
     (auto simp: it_Prev_def it_Valid_def)

declare clean_loop.simps [simp del]

definition clean_obsolete_binlogs :: "ssdb \<Rightarrow> ssdb" where
  "clean_obsolete_binlogs s =
     (let it = it_Seek (encode_seq_key (min_seq (binlogs s))) (it_new (ldb s));
          it = (if it_Valid it then it_Prev it else it)
      in s\<lparr>ldb := clean_loop it (ldb s)\<rparr>)"

text \<open>The loop of \<open>merge\<close>: an older log of the same key is overwritten by a no-op.\<close>

partial_function (option) merge_loop ::
    "u64 \<Rightarrow> u64 \<Rightarrow> (bytes \<rightharpoonup> u64) \<Rightarrow> leveldb \<Rightarrow> leveldb option" where
  "merge_loop start end key_map db =
     (if start \<le> end
      then (case bl_get start db of
              None \<Rightarrow> merge_loop (start + 1) end key_map db
            | Some b \<Rightarrow>
                (if Binlog_type b = binlog_type_char BT_NOOP
                 then merge_loop (start + 1) end key_map db
                 else let key = Binlog_key b;
                          db' = (case key_map key of
                                   None \<Rightarrow> db
                                 | Some sq \<Rightarrow> fst (bl_update sq (binlog_type_char BT_NOOP)
                                                     (binlog_cmd_char BC_NONE) [] db))
                      in merge_loop (start + 1) end (key_map(key \<mapsto> Binlog_seq b)) db'))
      else Some db)"

definition bl_merge :: "ssdb \<Rightarrow> ssdb option" where
  "bl_merge s =
     map_option (\<lambda>db. s\<lparr>ldb := db\<rparr>)
       (merge_loop (min_seq (binlogs s)) (last_seq (binlogs s)) Map.empty (ldb s))"

subsection \<open>Codecs\<close>

text \<open>
  The contract of a key codec: what is encoded is decoded, and every key starts with the
  type of its component. Keys of one component are then distinct, and distinct from those
  of every other.
\<close>

locale key_codec =
  fixes type :: DataType
    and valid :: "'a \<Rightarrow> bool"
    and enc :: "'a \<Rightarrow> bytes"
    and dec :: "bytes \<Rightarrow> 'a option"
  assumes dec_enc: "valid x \<Longrightarrow> dec (enc x) = Some x"
    and enc_type: "\<exists>r. enc x = type_char type # r"
begin

lemma enc_inject: "valid x \<Longrightarrow> valid y \<Longrightarrow> enc x = enc y \<longleftrightarrow> x = y"
  using dec_enc by (metis option.inject)

lemma enc_hd: "hd (enc x) = type_char type" and enc_not_Nil: "enc x \<noteq> []"
  using enc_type [of x] by auto

lemma enc_other_type: "hd k \<noteq> type_char type \<Longrightarrow> enc x \<noteq> k"
  using enc_hd by metis

end

definition decode_seq_key_opt :: "bytes \<Rightarrow> u64 option" where
  "decode_seq_key_opt k = (let sq = decode_seq_key k in if sq = 0 then None else Some sq)"

lemma decode_encode_seq_key [simp]: "decode_seq_key (encode_seq_key sq) = sq"
  by (simp add: decode_seq_key_def encode_seq_key_def)

interpretation seq_key: key_codec SYNCLOG "\<lambda>sq. sq \<noteq> 0" encode_seq_key decode_seq_key_opt
  by unfold_locales (simp_all add: decode_seq_key_opt_def, simp add: encode_seq_key_def)

lemma encode_seq_key_inject [simp]: "encode_seq_key a = encode_seq_key b \<longleftrightarrow> a = b"
  by (metis decode_encode_seq_key)

lemma encode_seq_key_less [simp]: "encode_seq_key a < encode_seq_key b \<longleftrightarrow> a < b"
  by (simp add: encode_seq_key_def)

lemma encode_seq_key_le [simp]: "encode_seq_key a \<le> encode_seq_key b \<longleftrightarrow> a \<le> b"
  by (simp add: le_less)

lemma Binlog_make_fields [simp]:
  "Binlog_seq (Binlog_make sq t c k) = sq" "Binlog_type (Binlog_make sq t c k) = t"
  "Binlog_cmd (Binlog_make sq t c k) = c" "Binlog_key (Binlog_make sq t c k) = k"
  "Binlog_load (Binlog_make sq t c k) = Some (Binlog_make sq t c k)"
  by (simp_all add: Binlog_make_def Binlog_seq_def Binlog_type_def Binlog_cmd_def Binlog_key_def
      Binlog_load_def HEADER_LEN_def nth_append)

subsection \<open>Transactions\<close>

definition db_map :: "ssdb \<Rightarrow> bytes \<rightharpoonup> bytes" where
  "db_map s = map_of (entries (ldb s))"

definition is_log_key :: "bytes \<Rightarrow> bool" where
  "is_log_key k \<longleftrightarrow> k \<noteq> [] \<and> hd k = type_char SYNCLOG"

lemma is_log_key_encode [simp]: "is_log_key (encode_seq_key sq)"
  by (simp add: is_log_key_def encode_seq_key_def)

text \<open>
  A batch that is well logged from \<open>q\<close> to \<open>q'\<close>: data updates, which never touch a log key,
  and log entries numbered \<open>q + 1\<close>, \<dots>, \<open>q'\<close>.
\<close>

inductive well_logged :: "u64 \<Rightarrow> wop list \<Rightarrow> u64 \<Rightarrow> bool" for q :: u64 where
  wl_Nil: "well_logged q [] q"
| wl_Put: "well_logged q b r \<Longrightarrow> \<not> is_log_key k \<Longrightarrow> well_logged q (b @ [WPut k v]) r"
| wl_Delete: "well_logged q b r \<Longrightarrow> \<not> is_log_key k \<Longrightarrow> well_logged q (b @ [WDelete k]) r"
| wl_log: "well_logged q b r \<Longrightarrow>
    well_logged q (b @ [WPut (encode_seq_key (r + 1)) (Binlog_make (r + 1) t c k)]) (r + 1)"

inductive_cases well_logged_NilE: "well_logged q [] r"

text \<open>The states inside a transaction on \<open>s\<^sub>0\<close>, and what a finished one can have done.\<close>

definition in_tx :: "ssdb \<Rightarrow> ssdb \<Rightarrow> bool" where
  "in_tx s0 s \<longleftrightarrow> ldb s = ldb s0 \<and>
     last_seq (binlogs s) = last_seq (binlogs s0) \<and> min_seq (binlogs s) = min_seq (binlogs s0) \<and>
     capacity (binlogs s) = capacity (binlogs s0) \<and> enabled (binlogs s) = enabled (binlogs s0) \<and>
     well_logged (last_seq (binlogs s0)) (batch (binlogs s)) (tran_seq (binlogs s))"

definition tx_step :: "ssdb \<Rightarrow> wop list \<Rightarrow> ssdb \<Rightarrow> bool" where
  "tx_step s b s' \<longleftrightarrow>
     well_logged (last_seq (binlogs s)) b (last_seq (binlogs s')) \<and>
     ldb s' = (ldb s)\<lparr>entries := apply_batch b (entries (ldb s))\<rparr> \<and>
     (b \<noteq> [] \<longrightarrow> \<not> wr_fail (ldb s)) \<and>
     min_seq (binlogs s') = min_seq (binlogs s) \<and> capacity (binlogs s') = capacity (binlogs s) \<and>
     enabled (binlogs s') = enabled (binlogs s)"

lemma in_tx_begin: "in_tx s (bl_begin s)"
  by (simp add: in_tx_def bl_begin_def wl_Nil)

lemma in_tx_Put: "in_tx s0 s \<Longrightarrow> \<not> is_log_key k \<Longrightarrow> in_tx s0 (bl_Put k v s)"
  by (simp add: in_tx_def bl_Put_def wl_Put)

lemma in_tx_Delete: "in_tx s0 s \<Longrightarrow> \<not> is_log_key k \<Longrightarrow> in_tx s0 (bl_Delete k s)"
  by (simp add: in_tx_def bl_Delete_def wl_Delete)

lemma in_tx_add_log: "in_tx s0 s \<Longrightarrow> in_tx s0 (bl_add_log t c k s)"
  by (auto simp: in_tx_def bl_add_log_def Let_def wl_log)

lemmas in_tx_intros = in_tx_begin in_tx_Put in_tx_Delete in_tx_add_log

lemma in_tx_ldb: "in_tx s0 s \<Longrightarrow> ldb s = ldb s0"
  by (simp add: in_tx_def)

lemma apply_batch_Nil [simp]: "apply_batch [] xs = xs"
  by (simp add: apply_batch_def)

lemma tx_step_rollback: "in_tx s0 s \<Longrightarrow> tx_step s0 [] (bl_rollback s)"
  by (simp add: in_tx_def tx_step_def bl_rollback_def wl_Nil)

lemma tx_step_commit:
  assumes "in_tx s0 s" and "bl_commit s = (s', ok)"
  shows "ok = (\<not> wr_fail (ldb s0))"
    and "tx_step s0 (if ok then batch (binlogs s) else []) (bl_rollback s')"
  using assms
  by (auto simp: in_tx_def tx_step_def bl_commit_def bl_rollback_def ldb_Write_def Let_def wl_Nil
      split: if_splits)

lemma tx_step_map:
  assumes "tx_step s b s'" and "kv_sorted (entries (ldb s))"
  shows "db_map s' = batch_map b (db_map s)" and "kv_sorted (entries (ldb s'))"
  using assms by (simp_all add: tx_step_def db_map_def map_of_apply_batch apply_batch_sorted)

subsection \<open>The log of a committed batch\<close>

definition no_seq_wrap :: "ssdb \<Rightarrow> wop list \<Rightarrow> bool" where
  "no_seq_wrap s b \<longleftrightarrow> unat (last_seq (binlogs s)) + length b < 2 ^ 64"

lemma well_logged_mono:
  assumes "well_logged q b r" and "unat q + length b < 2 ^ 64"
  shows "q \<le> r \<and> unat r \<le> unat q + length b"
  using assms
proof (induction rule: well_logged.induct)
  case (wl_log b r t c k)
  then have IH: "q \<le> r" "unat r \<le> unat q + length b" by simp_all
  with wl_log.prems have "unat r + 1 < 2 ^ 64" by simp
  then have "unat (r + 1) = unat r + 1" by (rule unat_plus_1)
  with IH show ?case by (simp add: word_le_nat_alt)
qed simp_all

text \<open>
  The invariant of the log: every log key of the store is that of a positive number up to
  \<open>last_seq\<close> and holds a loadable log with that number, and the newest log is there.
\<close>

definition log_entry_ok :: "u64 \<Rightarrow> bytes \<Rightarrow> bytes \<Rightarrow> bool" where
  "log_entry_ok hi k v \<longleftrightarrow>
     (\<exists>sq. k = encode_seq_key sq \<and> 0 < sq \<and> sq \<le> hi \<and> Binlog_load v = Some v \<and> Binlog_seq v = sq)"

definition binlog_inv :: "ssdb \<Rightarrow> bool" where
  "binlog_inv s \<longleftrightarrow> kv_sorted (entries (ldb s)) \<and>
     (\<forall>k v. db_map s k = Some v \<longrightarrow> is_log_key k \<longrightarrow> log_entry_ok (last_seq (binlogs s)) k v) \<and>
     (last_seq (binlogs s) \<noteq> 0 \<longrightarrow> db_map s (encode_seq_key (last_seq (binlogs s))) \<noteq> None)"

text \<open>The part of it that \<open>flushdb\<close> keeps, which deletes the newest log too.\<close>

definition log_inv :: "ssdb \<Rightarrow> bool" where
  "log_inv s \<longleftrightarrow> kv_sorted (entries (ldb s)) \<and>
     (\<forall>k v. db_map s k = Some v \<longrightarrow> is_log_key k \<longrightarrow> log_entry_ok (last_seq (binlogs s)) k v)"

lemma binlog_inv_split:
  "binlog_inv s \<longleftrightarrow> log_inv s \<and> (last_seq (binlogs s) \<noteq> 0 \<longrightarrow> db_map s (encode_seq_key (last_seq (binlogs s))) \<noteq> None)"
  by (simp add: binlog_inv_def log_inv_def)

lemma log_invD:
  assumes "log_inv s"
  shows "kv_sorted (entries (ldb s))"
    and "db_map s k = Some v \<Longrightarrow> is_log_key k \<Longrightarrow> log_entry_ok (last_seq (binlogs s)) k v"
  using assms by (auto simp: log_inv_def)

lemma binlog_invD:
  assumes "binlog_inv s"
  shows "kv_sorted (entries (ldb s))"
    and "db_map s k = Some v \<Longrightarrow> is_log_key k \<Longrightarrow> log_entry_ok (last_seq (binlogs s)) k v"
    and "last_seq (binlogs s) \<noteq> 0 \<Longrightarrow> db_map s (encode_seq_key (last_seq (binlogs s))) \<noteq> None"
  using assms by (auto simp: binlog_inv_def)

text \<open>What a well logged batch leaves of the log part of a map.\<close>

lemma well_logged_map:
  assumes "well_logged q b r" and "unat q + length b < 2 ^ 64"
    and "\<forall>k v. m k = Some v \<longrightarrow> is_log_key k \<longrightarrow> log_entry_ok q k v"
  shows "(\<forall>k v. batch_map b m k = Some v \<longrightarrow> is_log_key k \<longrightarrow> log_entry_ok r k v) \<and>
    ((q \<noteq> 0 \<longrightarrow> m (encode_seq_key q) \<noteq> None) \<longrightarrow> r \<noteq> 0 \<longrightarrow> batch_map b m (encode_seq_key r) \<noteq> None)"
  using assms(1,2)
proof (induction rule: well_logged.induct)
  case wl_Nil
  then show ?case using assms(3) by simp
next
  case (wl_Put b r k v)
  then show ?case by (auto simp: encode_seq_key_def is_log_key_def)
next
  case (wl_Delete b r k)
  then show ?case by (auto simp: encode_seq_key_def is_log_key_def)
next
  case (wl_log b r t c k)
  then have "unat r \<le> unat q + length b" using well_logged_mono [of q b r] by simp
  with wl_log.prems have u: "unat (r + 1) = unat r + 1" by (intro unat_plus_1) simp
  then have lt: "r < r + 1" by (simp add: word_less_nat_alt)
  have "log_entry_ok (r + 1) k v" if "log_entry_ok r k v" for k v
    using that lt by (auto simp: log_entry_ok_def intro: order.trans less_imp_le)
  moreover have "0 < r + 1" using lt by (simp add: word_less_nat_alt)
  ultimately show ?case
    using wl_log by (auto simp: log_entry_ok_def)
qed

lemma tx_step_log_inv:
  assumes "tx_step s b s'" and "log_inv s" and "no_seq_wrap s b"
  shows "log_inv s'" and "binlog_inv s \<Longrightarrow> binlog_inv s'"
proof -
  have "well_logged (last_seq (binlogs s)) b (last_seq (binlogs s'))"
    using assms(1) by (simp add: tx_step_def)
  note m = well_logged_map [OF this, of "db_map s"] and t = tx_step_map [OF assms(1) log_invD(1) [OF assms(2)]]
  show "log_inv s'" using m assms(2,3) t by (simp add: log_inv_def no_seq_wrap_def)
  show "binlog_inv s \<Longrightarrow> binlog_inv s'" using m assms(2,3) t by (simp add: binlog_inv_def no_seq_wrap_def)
qed

lemma tx_step_binlog_inv: "tx_step s b s' \<Longrightarrow> binlog_inv s \<Longrightarrow> no_seq_wrap s b \<Longrightarrow> binlog_inv s'"
  using tx_step_log_inv(2) by (simp add: binlog_inv_split)

text \<open>Every log of the batch is in the store after the commit, with consecutive numbers.\<close>

lemma well_logged_present:
  assumes "well_logged q b r" and "unat q + length b < 2 ^ 64" and "q < sq" and "sq \<le> r"
  shows "batch_map b m (encode_seq_key sq) \<noteq> None"
  using assms
proof (induction rule: well_logged.induct)
  case (wl_Put b r k v)
  then show ?case by (auto simp: encode_seq_key_def is_log_key_def)
next
  case (wl_Delete b r k)
  then show ?case by (auto simp: encode_seq_key_def is_log_key_def)
next
  case (wl_log b r t c k)
  then have "unat r \<le> unat q + length b" using well_logged_mono [of q b r] by simp
  with wl_log.prems have u: "unat (r + 1) = unat r + 1" by (intro unat_plus_1) simp
  then have "sq \<le> r \<or> sq = r + 1" using wl_log.prems
    by (auto simp: word_le_nat_alt word_less_nat_alt word_unat_eq_iff)
  then show ?case using wl_log by auto
qed simp

subsection \<open>Finding logs\<close>

lemma seek_pos:
  assumes "kv_sorted xs" and "i = length (takeWhile (\<lambda>p. fst p < k) xs)"
  shows "j < i \<Longrightarrow> fst (xs ! j) < k" and "i \<le> j \<Longrightarrow> j < length xs \<Longrightarrow> k \<le> fst (xs ! j)"
proof -
  show "j < i \<Longrightarrow> fst (xs ! j) < k"
    using assms(2) by (metis nth_mem set_takeWhileD takeWhile_nth)
  assume j: "i \<le> j" "j < length xs"
  then have "\<not> fst (xs ! i) < k"
    using assms(2) by (metis (mono_tags, lifting) le_less_trans nth_length_takeWhile)
  moreover have "fst (xs ! i) \<le> fst (xs ! j)"
    using assms(1) j by (cases "i = j") (auto simp: kv_sorted_def sorted_wrt_iff_nth_less order.strict_iff_order)
  ultimately show "k \<le> fst (xs ! j)" by simp
qed

lemma kv_sorted_nth:
  "kv_sorted xs \<Longrightarrow> i < length xs \<Longrightarrow> j < length xs \<Longrightarrow> fst (xs ! i) < fst (xs ! j) \<longleftrightarrow> i < j"
  by (auto simp: kv_sorted_def sorted_wrt_iff_nth_less) (metis linorder_neqE_nat order.asym order.irrefl)

lemma map_of_nth: "kv_sorted xs \<Longrightarrow> i < length xs \<Longrightarrow> map_of xs (fst (xs ! i)) = Some (snd (xs ! i))"
  by (simp add: kv_sorted_def strict_sorted_iff)

lemma map_of_nthE:
  assumes "map_of xs k = Some v" obtains i where "i < length xs" "xs ! i = (k, v)"
  using map_of_SomeD [OF assms] by (auto simp: in_set_conv_nth)

lemma between_log_keys:
  assumes "encode_seq_key a \<le> k" and "k \<le> encode_seq_key b" shows "is_log_key k"
  using assms by (cases k) (auto simp: encode_seq_key_def is_log_key_def)

lemma decode_seq_key_other: "\<not> is_log_key k \<Longrightarrow> decode_seq_key k = 0"
  by (cases k) (auto simp: decode_seq_key_def is_log_key_def)

lemma bl_find_last_correct:
  assumes inv: "binlog_inv s" and "0 < last_seq (binlogs s)" and "last_seq (binlogs s) < UINT64_MAX"
  shows "\<exists>b. bl_find_last (ldb s) = FR_Log b \<and> Binlog_seq b = last_seq (binlogs s) \<and>
    db_map s (encode_seq_key (last_seq (binlogs s))) = Some b"
proof -
  let ?xs = "entries (ldb s)" and ?L = "encode_seq_key (last_seq (binlogs s))"
  let ?i = "length (takeWhile (\<lambda>p. fst p < encode_seq_key UINT64_MAX) ?xs)"
  note sorted = binlog_invD(1) [OF inv]
  obtain v where v: "map_of ?xs ?L = Some v"
    using binlog_invD(3) [OF inv] assms(2) by (auto simp: db_map_def word_gt_0)
  then obtain j where j: "j < length ?xs" "?xs ! j = (?L, v)" by (rule map_of_nthE)
  have ji: "j < ?i"
    using seek_pos(2) [OF sorted refl, of "encode_seq_key UINT64_MAX" j] j assms(3) by (force simp: not_le)
  have le: "?i \<le> length ?xs" by (simp add: length_takeWhile_le)
  let ?e = "?xs ! (?i - 1)"
  have e: "?L \<le> fst ?e" "fst ?e < encode_seq_key UINT64_MAX"
  proof -
    show "fst ?e < encode_seq_key UINT64_MAX"
      using ji by (intro seek_pos(1) [OF sorted refl]) simp
    show "?L \<le> fst ?e"
      using kv_sorted_nth [OF sorted, of "?i - 1" j] j ji le by (auto simp: not_less [symmetric])
  qed
  have "is_log_key (fst ?e)" by (rule between_log_keys [OF e(1) less_imp_le [OF e(2)]])
  moreover have m: "db_map s (fst ?e) = Some (snd ?e)"
    using map_of_nth [OF sorted, of "?i - 1"] ji le by (simp add: db_map_def)
  ultimately have ok: "log_entry_ok (last_seq (binlogs s)) (fst ?e) (snd ?e)"
    by (rule binlog_invD(2) [OF inv, rotated])
  then have key: "fst ?e = ?L" and ld: "Binlog_load (snd ?e) = Some (snd ?e)"
    and sq: "Binlog_seq (snd ?e) = last_seq (binlogs s)"
    using e(1) by (auto simp: log_entry_ok_def)
  have "bl_find_last (ldb s) = FR_Log (snd ?e)"
    using ji le ld key assms(2)
    by (auto simp: bl_find_last_def Let_def it_Seek_def it_new_def it_Valid_def it_SeekToLast_def
        it_Prev_def bl_load_at_def it_key_def it_value_def)
  with sq m key show ?thesis by auto
qed


lemma bl_find_next_correct:
  assumes inv: "binlog_inv s"
  shows "(case bl_find_next n (ldb s) of
      FR_Log b \<Rightarrow> db_map s (encode_seq_key (Binlog_seq b)) = Some b \<and> n \<le> Binlog_seq b \<and>
        (\<forall>sq \<ge> n. db_map s (encode_seq_key sq) \<noteq> None \<longrightarrow> Binlog_seq b \<le> sq)
    | FR_None \<Rightarrow> (\<forall>sq \<ge> n. db_map s (encode_seq_key sq) = None)
    | FR_Error \<Rightarrow> False)"
proof (cases "bl_get n (ldb s)")
  case (Some b)
  then have m: "db_map s (encode_seq_key n) = Some b"
    by (auto simp: bl_get_def ldb_Get_def db_map_def Binlog_load_def split: get_status.splits option.splits if_splits)
  then have "Binlog_seq b = n"
    using binlog_invD(2) [OF inv m] by (auto simp: log_entry_ok_def)
  with Some m show ?thesis by (simp add: bl_find_next_def)
next
  case None
  let ?xs = "entries (ldb s)"
  let ?i = "length (takeWhile (\<lambda>p. fst p < encode_seq_key n) ?xs)"
  note sorted = binlog_invD(1) [OF inv]
  have eq: "bl_find_next n (ldb s) = bl_load_at \<lparr>snap = ?xs, pos = ?i\<rparr>"
    using None by (simp add: bl_find_next_def it_Seek_def it_new_def)
  have first: "?i < length ?xs \<and> fst (?xs ! ?i) \<le> encode_seq_key sq"
    if "n \<le> sq" and "db_map s (encode_seq_key sq) \<noteq> None" for sq
  proof -
    obtain v where "map_of ?xs (encode_seq_key sq) = Some v"
      using \<open>db_map s (encode_seq_key sq) \<noteq> None\<close> by (auto simp: db_map_def)
    then obtain j where j: "j < length ?xs" "?xs ! j = (encode_seq_key sq, v)" by (rule map_of_nthE)
    have "\<not> j < ?i"
    proof
      assume "j < ?i"
      then have "fst (?xs ! j) < encode_seq_key n" by (rule seek_pos(1) [OF sorted refl])
      with j \<open>n \<le> sq\<close> show False by simp
    qed
    then show ?thesis using j kv_sorted_nth [OF sorted, of j ?i] by (auto simp: not_less [symmetric])
  qed
  show ?thesis
  proof (cases "?i < length ?xs \<and> is_log_key (fst (?xs ! ?i))")
    case True
    let ?e = "?xs ! ?i"
    have m: "db_map s (fst ?e) = Some (snd ?e)"
      using map_of_nth [OF sorted, of ?i] True by (simp add: db_map_def)
    then obtain sq where sq: "fst ?e = encode_seq_key sq" "0 < sq" "Binlog_load (snd ?e) = Some (snd ?e)"
        "Binlog_seq (snd ?e) = sq"
      using binlog_invD(2) [OF inv m] True by (auto simp: log_entry_ok_def)
    moreover have "encode_seq_key n \<le> fst ?e"
      using True by (intro seek_pos(2) [OF sorted refl]) auto
    ultimately have "n \<le> sq" by simp
    with sq m first True show ?thesis
      by (auto simp: eq bl_load_at_def it_Valid_def it_key_def it_value_def)
  next
    case False
    have "decode_seq_key (fst (?xs ! ?i)) = 0" if "?i < length ?xs"
      using False that by (simp add: decode_seq_key_other)
    then have none: "bl_find_next n (ldb s) = FR_None"
      by (auto simp: eq bl_load_at_def it_Valid_def it_key_def)
    have "db_map s (encode_seq_key sq) = None" if "n \<le> sq" for sq
    proof (rule ccontr)
      assume "db_map s (encode_seq_key sq) \<noteq> None"
      with first that have "?i < length ?xs" "fst (?xs ! ?i) \<le> encode_seq_key sq" by auto
      moreover from this have "encode_seq_key n \<le> fst (?xs ! ?i)"
        by (intro seek_pos(2) [OF sorted refl]) auto
      ultimately show False using False between_log_keys by blast
    qed
    with none show ?thesis by simp
  qed
qed

subsection \<open>Deleting a range of logs\<close>

definition del_logs :: "u64 set \<Rightarrow> (bytes \<rightharpoonup> bytes) \<Rightarrow> (bytes \<rightharpoonup> bytes)" where
  "del_logs S m = (\<lambda>k. if k \<in> encode_seq_key ` S then None else m k)"

lemma del_logs_empty [simp]: "del_logs {} m = m"
  by (simp add: del_logs_def)

lemma del_logs_Un: "del_logs T (del_logs S m) = del_logs (S \<union> T) m"
  by (auto simp: del_logs_def fun_eq_iff image_Un)

lemma del_chunk_spec:
  assumes "hi < UINT64_MAX" and "start \<le> hi + 1" and "del_chunk n start hi = (ws, s')"
  shows "start \<le> s' \<and> s' \<le> hi + 1 \<and> (s' = hi + 1 \<or> unat s' = unat start + n) \<and>
    batch_map ws m = del_logs {start..<s'} m"
  using assms
proof (induction n arbitrary: start ws s' m)
  case (Suc n)
  have hi: "unat (hi + 1) = unat hi + 1"
    using Suc.prems(1) by (intro unat_plus_1) (simp add: word_less_nat_alt UINT64_MAX_def)
  show ?case
  proof (cases "start \<le> hi")
    case True
    then have st: "unat (start + 1) = unat start + 1" 
      using hi unsigned_less [where ?'a = nat, of "hi + 1"]
      by (intro unat_plus_1) (simp add: word_le_nat_alt)
    then have "start + 1 \<le> hi + 1" using True hi by (simp add: word_le_nat_alt)
    moreover obtain vs where vs: "del_chunk n (start + 1) hi = (vs, s')" "ws = WDelete (encode_seq_key start) # vs"
      using Suc.prems(3) True by (auto split: prod.splits)
    ultimately have IH: "start + 1 \<le> s' \<and> s' \<le> hi + 1 \<and> (s' = hi + 1 \<or> unat s' = unat (start + 1) + n) \<and>
      batch_map vs m = del_logs {start + 1..<s'} m" for m
      using Suc.IH Suc.prems(1) by blast
    then have bounds: "start + 1 \<le> s'" "s' \<le> hi + 1" "s' = hi + 1 \<or> unat s' = unat (start + 1) + n"
      by blast+
    have "{start..<s'} = insert start {start + 1..<s'}"
      using bounds st by (auto simp: word_le_nat_alt word_less_nat_alt word_unat_eq_iff)
    then have "del_logs {start + 1..<s'} (m(encode_seq_key start := None)) = del_logs {start..<s'} m"
      by (auto simp: del_logs_def)
    with IH have "batch_map ws m = del_logs {start..<s'} m" unfolding vs(2) by simp
    with bounds st show ?thesis by (auto simp: word_le_nat_alt)
  next
    case False
    then have "start = hi + 1" using Suc.prems(2) hi by (simp add: word_le_nat_alt word_unat_eq_iff)
    with False Suc.prems show ?thesis by simp
  qed
qed simp

lemma bl_del_range_correct:
  assumes "hi < UINT64_MAX" and "start \<le> hi + 1" and "kv_sorted (entries db)"
  shows "\<exists>db' r. bl_del_range start hi db = Some (db', r) \<and> kv_sorted (entries db') \<and>
    (wr_fail db \<longrightarrow> db' = db) \<and>
    (\<not> wr_fail db \<longrightarrow> r = 0 \<and> map_of (entries db') = del_logs {start..hi} (map_of (entries db)))"
  using assms
proof (induction "unat hi + 1 - unat start" arbitrary: start db rule: less_induct)
  case less
  show ?case
  proof (cases "start \<le> hi")
    case True
    obtain ws s' where ws: "del_chunk 1000 start hi = (ws, s')" by fastforce
    note spec = del_chunk_spec [OF less.prems(1,2) ws]
    then have bounds: "start \<le> s'" "s' \<le> hi + 1" "s' = hi + 1 \<or> unat s' = unat start + 1000"
      by blast+
    have hi: "unat (hi + 1) = unat hi + 1"
      using less.prems(1) by (intro unat_plus_1) (simp add: word_less_nat_alt UINT64_MAX_def)
    show ?thesis
    proof (cases "wr_fail db")
      case fail: True
      then show ?thesis using True ws less.prems
        by (simp add: bl_del_range.simps [of start hi db] ldb_Write_def)
    next
      case ok: False
      let ?db = "db\<lparr>entries := apply_batch ws (entries db)\<rparr>"
      have "unat hi + 1 - unat s' < unat hi + 1 - unat start"
        using bounds True hi by (auto simp: word_le_nat_alt)
      then obtain db' r where db': "bl_del_range s' hi ?db = Some (db', r)" "kv_sorted (entries db')" "r = 0"
          "map_of (entries db') = del_logs {s'..hi} (map_of (entries ?db))"
        using less.hyps [of s' ?db] less.prems spec ok apply_batch_sorted by auto
      have "{start..<s'} \<union> {s'..hi} = {start..hi}"
        using bounds hi by (auto simp: word_le_nat_alt word_less_nat_alt)
      then have "map_of (entries db') = del_logs {start..hi} (map_of (entries db))"
        using db' spec less.prems(3) by (simp add: map_of_apply_batch del_logs_Un)
      with db' True ok ws show ?thesis
        by (simp add: bl_del_range.simps [of start hi db] ldb_Write_def)
    qed
  next
    case False
    then show ?thesis using less.prems by (auto simp: bl_del_range.simps [of start hi db])
  qed
qed

lemma unat_word_of_int_small: "0 \<le> x \<Longrightarrow> x < 2 ^ 64 \<Longrightarrow> unat (word_of_int x :: u64) = nat x"
  by (simp add: unat_eq_nat_uint uint_word_of_int)

text \<open>
  One round of the cleaning thread. It does something when there are ten thousand logs more than the capacity, and
  deletes then, when the disk works, all but the newest ones.
\<close>

lemma log_clean_step_log_inv:
  assumes inv: "log_inv s" and le: "min_seq (binlogs s) \<le> last_seq (binlogs s)"
    and last: "last_seq (binlogs s) < UINT64_MAX"
    and cap: "0 < capacity (binlogs s)" "capacity (binlogs s) < 2 ^ 31 - 10000"
  shows "\<exists>s'. log_clean_step s = Some s' \<and> log_inv s' \<and> last_seq (binlogs s') = last_seq (binlogs s) \<and>
    min_seq (binlogs s') \<le> last_seq (binlogs s') \<and>
    (\<forall>k. \<not> is_log_key k \<longrightarrow> db_map s' k = db_map s k) \<and>
    (\<forall>sq. last_seq (binlogs s) - word_of_int (capacity (binlogs s)) < sq \<longrightarrow> db_map s' (encode_seq_key sq) = db_map s (encode_seq_key sq)) \<and>
    (\<forall>sq. unat (last_seq (binlogs s)) < unat sq + nat (capacity (binlogs s)) \<longrightarrow>
        db_map s' (encode_seq_key sq) = db_map s (encode_seq_key sq)) \<and>
    (\<not> wr_fail (ldb s) \<and> unat (min_seq (binlogs s)) + nat (capacity (binlogs s)) + 10000 \<le> unat (last_seq (binlogs s)) \<longrightarrow>
      (\<forall>sq \<ge> min_seq (binlogs s). unat sq + nat (capacity (binlogs s)) \<le> unat (last_seq (binlogs s)) \<longrightarrow> db_map s' (encode_seq_key sq) = None))"
proof -
  let ?L = "last_seq (binlogs s)" and ?m = "min_seq (binlogs s)" and ?c = "nat (capacity (binlogs s))"
  let ?hi = "?L - word_of_int (capacity (binlogs s))"
  have c: "unat (word_of_int (capacity (binlogs s)) :: u64) = ?c"
    using cap by (simp add: unat_word_of_int_small)
  have "wrap32 (capacity (binlogs s) + 10000) = capacity (binlogs s) + 10000"
    using cap by (simp add: in_int32_def)
  then have "unat (word_of_int (wrap32 (capacity (binlogs s) + 10000)) :: u64) = ?c + 10000"
    using cap unat_word_of_int_small [of "capacity (binlogs s) + 10000"] by (simp add: nat_add_distrib)
  then have few: "?L - ?m < word_of_int (wrap32 (capacity (binlogs s) + 10000)) \<longleftrightarrow> unat ?L - unat ?m < ?c + 10000"
    using unat_sub [OF le] by (simp only: word_less_nat_alt)
  show ?thesis
  proof (cases "unat ?L - unat ?m < ?c + 10000")
    case True
    then show ?thesis using inv le few by (auto simp: log_clean_step_def Let_def)
  next
    case False
    then have far: "?c + 10000 \<le> unat ?L - unat ?m" by simp
    then have uhi: "unat ?hi = unat ?L - ?c"
      using c by (subst unat_sub) (simp_all add: word_le_nat_alt)
    have hi: "?hi < UINT64_MAX" "?m \<le> ?hi + 1" "?hi < ?L" "?hi + 1 \<le> ?L"
    proof -
      show lt: "?hi < ?L" using uhi far cap by (simp add: word_less_nat_alt)
      from lt last show "?hi < UINT64_MAX" by (rule order.strict_trans)
      have "unat (?hi + 1) = unat ?hi + 1"
        using lt unsigned_less [where ?'a = nat, of ?L] by (intro unat_plus_1) (simp add: word_less_nat_alt)
      then show "?m \<le> ?hi + 1" "?hi + 1 \<le> ?L"
        using uhi far lt unfolding word_le_nat_alt word_less_nat_alt by linarith+
    qed
    obtain db r where db: "bl_del_range ?m ?hi (ldb s) = Some (db, r)" "kv_sorted (entries db)"
      "wr_fail (ldb s) \<longrightarrow> db = ldb s"
      "\<not> wr_fail (ldb s) \<longrightarrow> map_of (entries db) = del_logs {?m..?hi} (map_of (entries (ldb s)))"
      using bl_del_range_correct [OF hi(1,2) log_invD(1) [OF inv]] by blast
    let ?s = "s\<lparr>ldb := db, binlogs := (binlogs s)\<lparr>min_seq := ?hi + 1\<rparr>\<rparr>"
    have step: "log_clean_step s = Some ?s"
      using False few db(1) by (simp add: log_clean_step_def Let_def)
    have keep: "db_map ?s k = db_map s k" if "k \<notin> encode_seq_key ` {?m..?hi}" for k
      using db(3,4) that by (cases "wr_fail (ldb s)") (auto simp: db_map_def del_logs_def)
    have sub: "db_map ?s k = Some v \<Longrightarrow> db_map s k = Some v" for k v
      using db(3,4) by (cases "wr_fail (ldb s)") (auto simp: db_map_def del_logs_def split: if_splits)
    have new: "?hi < sq \<longleftrightarrow> unat ?L < unat sq + ?c" for sq
      using uhi far by (auto simp: word_less_nat_alt)
    have above: "db_map ?s (encode_seq_key sq) = db_map s (encode_seq_key sq)" if "?hi < sq" for sq
      using that by (intro keep) auto
    have "db_map ?s (encode_seq_key sq) = db_map s (encode_seq_key sq)" if "unat ?L < unat sq + ?c" for sq
      using that unfolding new [symmetric] by (rule above)
    moreover have "log_inv ?s"
      unfolding log_inv_def using db(2) log_invD(2) [OF inv sub] by simp
    moreover have "db_map ?s k = db_map s k" if "\<not> is_log_key k" for k
      using that by (intro keep) auto
    moreover have "db_map ?s (encode_seq_key sq) = None" if "\<not> wr_fail (ldb s)" "?m \<le> sq" "unat sq + ?c \<le> unat ?L" for sq
      using that db(4) new [of sq] by (simp add: db_map_def del_logs_def not_less)
    ultimately show ?thesis using step hi(4) above by auto
  qed
qed

lemma log_clean_step_correct:
  assumes inv: "binlog_inv s" and le: "min_seq (binlogs s) \<le> last_seq (binlogs s)"
    and last: "last_seq (binlogs s) < UINT64_MAX"
    and cap: "0 < capacity (binlogs s)" "capacity (binlogs s) < 2 ^ 31 - 10000"
  shows "\<exists>s'. log_clean_step s = Some s' \<and> binlog_inv s' \<and> last_seq (binlogs s') = last_seq (binlogs s) \<and>
    min_seq (binlogs s') \<le> last_seq (binlogs s') \<and>
    (\<forall>k. \<not> is_log_key k \<longrightarrow> db_map s' k = db_map s k) \<and>
    (\<forall>sq. last_seq (binlogs s) - word_of_int (capacity (binlogs s)) < sq \<longrightarrow> db_map s' (encode_seq_key sq) = db_map s (encode_seq_key sq)) \<and>
    (\<forall>sq. unat (last_seq (binlogs s)) < unat sq + nat (capacity (binlogs s)) \<longrightarrow>
        db_map s' (encode_seq_key sq) = db_map s (encode_seq_key sq)) \<and>
    (\<not> wr_fail (ldb s) \<and> unat (min_seq (binlogs s)) + nat (capacity (binlogs s)) + 10000 \<le> unat (last_seq (binlogs s)) \<longrightarrow>
      (\<forall>sq \<ge> min_seq (binlogs s). unat sq + nat (capacity (binlogs s)) \<le> unat (last_seq (binlogs s)) \<longrightarrow> db_map s' (encode_seq_key sq) = None))"
proof -
  have l: "log_inv s" using inv by (simp add: binlog_inv_split)
  from log_clean_step_log_inv [OF this le last cap] obtain s' where
    s': "log_clean_step s = Some s'" "log_inv s'" "last_seq (binlogs s') = last_seq (binlogs s)" "min_seq (binlogs s') \<le> last_seq (binlogs s')"
      "\<forall>k. \<not> is_log_key k \<longrightarrow> db_map s' k = db_map s k"
      "\<forall>sq. last_seq (binlogs s) - word_of_int (capacity (binlogs s)) < sq \<longrightarrow> db_map s' (encode_seq_key sq) = db_map s (encode_seq_key sq)"
    and new: "\<forall>sq. unat (last_seq (binlogs s)) < unat sq + nat (capacity (binlogs s)) \<longrightarrow> db_map s' (encode_seq_key sq) = db_map s (encode_seq_key sq)"
    and old: "\<not> wr_fail (ldb s) \<and> unat (min_seq (binlogs s)) + nat (capacity (binlogs s)) + 10000 \<le> unat (last_seq (binlogs s)) \<longrightarrow>
      (\<forall>sq \<ge> min_seq (binlogs s). unat sq + nat (capacity (binlogs s)) \<le> unat (last_seq (binlogs s)) \<longrightarrow> db_map s' (encode_seq_key sq) = None)"
    by blast
  have "db_map s' (encode_seq_key (last_seq (binlogs s))) = db_map s (encode_seq_key (last_seq (binlogs s)))" using new cap by simp
  then have "binlog_inv s'" using inv s'(2,3) by (simp add: binlog_inv_split)
  with s' new old show ?thesis by blast
qed

subsection \<open>Reopening the database\<close>

lemma reopen_last_seq:
  assumes "binlog_inv s" and "last_seq (binlogs s) < UINT64_MAX"
  shows "last_seq (BinlogQueue_new (ldb s) on cap) = last_seq (binlogs s)"
proof (cases "last_seq (binlogs s) = 0")
  case True
  have no: "decode_seq_key k = 0" if "db_map s k = Some v" for k v
    using binlog_invD(2) [OF assms(1) that] True decode_seq_key_other [of k] by (auto simp: log_entry_ok_def)
  have "bl_find_last (ldb s) = FR_None"
    using no map_of_nth [OF binlog_invD(1) [OF assms(1)]]
    by (auto simp: bl_find_last_def Let_def bl_load_at_def it_Valid_def it_key_def db_map_def it_Seek_def
        it_new_def it_SeekToLast_def it_Prev_def split: if_splits)
  with True show ?thesis by (simp add: BinlogQueue_new_def Let_def)
next
  case False
  then show ?thesis
    using bl_find_last_correct [OF assms(1) _ assms(2)]
    by (auto simp: BinlogQueue_new_def Let_def word_gt_0)
qed

subsection \<open>Operations as transactions\<close>

text \<open>
  \<open>tx_run n s s'\<close>: an operation that is one transaction of at most \<open>n\<close> updates leads from
  \<open>s\<close> to \<open>s'\<close>. Each operation of the database is shown to be one; what every transaction
  keeps is proved once, here.
\<close>

definition in_txn :: "nat \<Rightarrow> ssdb \<Rightarrow> ssdb \<Rightarrow> bool" where
  "in_txn n s0 s \<longleftrightarrow> in_tx s0 s \<and> length (batch (binlogs s)) \<le> n"

definition tx_run :: "nat \<Rightarrow> ssdb \<Rightarrow> ssdb \<Rightarrow> bool" where
  "tx_run n s s' \<longleftrightarrow> (\<exists>b. length b \<le> n \<and> tx_step s b s')"

definition tx_done :: "nat \<Rightarrow> ssdb \<Rightarrow> ssdb \<Rightarrow> bool" where
  "tx_done n s0 s \<longleftrightarrow> in_txn n s0 s \<or> (\<exists>t. in_txn n s0 t \<and> fst (bl_commit t) = s)"

definition seq_room :: "nat \<Rightarrow> ssdb \<Rightarrow> bool" where
  "seq_room n s \<longleftrightarrow> unat (last_seq (binlogs s)) + n < 2 ^ 64"

lemma in_txn_begin: "in_txn n s (bl_begin s)"
  by (simp add: in_txn_def in_tx_begin) (simp add: bl_begin_def)

lemma in_txn_Put: "0 < n \<Longrightarrow> \<not> is_log_key k \<Longrightarrow> in_txn (n - 1) s0 s \<Longrightarrow> in_txn n s0 (bl_Put k v s)"
  by (simp add: in_txn_def in_tx_Put) (auto simp: bl_Put_def)

lemma in_txn_Delete: "0 < n \<Longrightarrow> \<not> is_log_key k \<Longrightarrow> in_txn (n - 1) s0 s \<Longrightarrow> in_txn n s0 (bl_Delete k s)"
  by (simp add: in_txn_def in_tx_Delete) (auto simp: bl_Delete_def)

lemma in_txn_add_log: "0 < n \<Longrightarrow> in_txn (n - 1) s0 s \<Longrightarrow> in_txn n s0 (bl_add_log t c k s)"
  by (simp add: in_txn_def in_tx_add_log) (auto simp: bl_add_log_def Let_def)

lemma in_txn_mono: "in_txn m s0 s \<Longrightarrow> m \<le> n \<Longrightarrow> in_txn n s0 s"
  by (auto simp: in_txn_def)

lemma tx_done_in: "in_txn n s0 s \<Longrightarrow> tx_done n s0 s"
  by (simp add: tx_done_def)

lemma tx_done_commit: "in_txn n s0 s \<Longrightarrow> tx_done n s0 (fst (bl_commit s))"
  by (auto simp: tx_done_def)

lemmas tx_intros = in_txn_begin in_txn_Put in_txn_Delete in_txn_add_log

lemma in_txn_ldb: "in_txn n s0 s \<Longrightarrow> ldb s = ldb s0"
  by (simp add: in_txn_def in_tx_def)

lemma Transaction_run:
  assumes "tx_done n s (fst (body (bl_begin s)))"
  shows "tx_run n s (fst (Transaction body s))"
proof -
  let ?t = "fst (body (bl_begin s))"
  have eq: "fst (Transaction body s) = bl_rollback ?t"
    by (simp add: Transaction_def Let_def split: prod.splits)
  from assms consider "in_txn n s ?t" | t where "in_txn n s t" "fst (bl_commit t) = ?t"
    by (auto simp: tx_done_def)
  then show ?thesis
  proof cases
    case 1
    then have "tx_step s [] (bl_rollback ?t)" by (intro tx_step_rollback) (simp add: in_txn_def)
    then show ?thesis unfolding tx_run_def eq by (intro exI [of _ "[]"]) simp
  next
    case 2
    obtain ok where ok: "bl_commit t = (?t, ok)" using 2(2) by (metis prod.collapse)
    have "in_tx s t" using 2(1) by (simp add: in_txn_def)
    note st = tx_step_commit(2) [OF this ok]
    have "length (if ok then batch (binlogs t) else []) \<le> n" using 2(1) by (simp add: in_txn_def)
    with st show ?thesis unfolding tx_run_def eq by blast
  qed
qed

lemma tx_run_refl: "tx_run n s s"
  by (auto simp: tx_run_def tx_step_def wl_Nil intro!: exI [of _ "[]"])

text \<open>What every operation keeps: the log invariant, and the fixed part of the queue.\<close>

lemma tx_run_binlog_inv: "tx_run n s s' \<Longrightarrow> binlog_inv s \<Longrightarrow> seq_room n s \<Longrightarrow> binlog_inv s'"
  unfolding tx_run_def seq_room_def
  by (elim exE conjE, erule tx_step_binlog_inv) (simp_all add: no_seq_wrap_def)

lemma tx_run_log_inv: "tx_run n s s' \<Longrightarrow> log_inv s \<Longrightarrow> seq_room n s \<Longrightarrow> log_inv s'"
  unfolding tx_run_def seq_room_def
  by (elim exE conjE, erule tx_step_log_inv(1)) (simp_all add: no_seq_wrap_def)

lemma tx_run_sorted: "tx_run n s s' \<Longrightarrow> kv_sorted (entries (ldb s)) \<Longrightarrow> kv_sorted (entries (ldb s'))"
  by (auto simp: tx_run_def dest: tx_step_map(2))

lemma tx_run_frame:
  "tx_run n s s' \<Longrightarrow> rd_fail (ldb s') = rd_fail (ldb s) \<and> wr_fail (ldb s') = wr_fail (ldb s) \<and>
    enabled (binlogs s') = enabled (binlogs s) \<and> capacity (binlogs s') = capacity (binlogs s) \<and>
    min_seq (binlogs s') = min_seq (binlogs s)"
  unfolding tx_run_def tx_step_def by (elim exE conjE) simp

lemma tx_run_wr_fail: "tx_run n s s' \<Longrightarrow> wr_fail (ldb s) \<Longrightarrow> ldb s' = ldb s \<and> last_seq (binlogs s') = last_seq (binlogs s)"
  unfolding tx_run_def tx_step_def
  by (elim exE conjE) (auto elim: well_logged_NilE)

text \<open>
  The data part of the store, without the logs, as seen from outside and, with the updates of
  the batch applied, from inside a transaction. The calls of a transaction act on it one
  after the other, and a commit makes all of them visible, or none.
\<close>

definition data_map :: "ssdb \<Rightarrow> bytes \<rightharpoonup> bytes" where
  "data_map s k = (if is_log_key k then None else db_map s k)"

definition tx_data :: "ssdb \<Rightarrow> bytes \<rightharpoonup> bytes" where
  "tx_data s k = (if is_log_key k then None else batch_map (batch (binlogs s)) (db_map s) k)"

lemma batch_map_snoc:
  "batch_map (b @ [WPut k v]) m = (batch_map b m)(k \<mapsto> v)"
  "batch_map (b @ [WDelete k]) m = (batch_map b m)(k := None)"
  by simp_all

lemma tx_data_begin [store_simps]: "tx_data (bl_begin s) = data_map s"
  by (simp add: tx_data_def data_map_def bl_begin_def db_map_def fun_eq_iff)

lemma tx_data_Put [store_simps]: "\<not> is_log_key k \<Longrightarrow> tx_data (bl_Put k v s) = (tx_data s)(k \<mapsto> v)"
  by (auto simp: tx_data_def bl_Put_def db_map_def fun_eq_iff)

lemma tx_data_Delete [store_simps]: "\<not> is_log_key k \<Longrightarrow> tx_data (bl_Delete k s) = (tx_data s)(k := None)"
  by (auto simp: tx_data_def bl_Delete_def db_map_def fun_eq_iff)

lemma tx_data_add_log [store_simps]: "tx_data (bl_add_log t c k s) = tx_data s"
  by (auto simp: tx_data_def bl_add_log_def db_map_def fun_eq_iff Let_def)

lemma tx_ldb [store_simps]:
  "ldb (bl_begin s) = ldb s" "ldb (bl_Put k v s) = ldb s" "ldb (bl_Delete k s) = ldb s"
  "ldb (bl_add_log t c k s) = ldb s" "ldb (bl_rollback s) = ldb s"
  by (simp_all add: bl_begin_def bl_Put_def bl_Delete_def bl_add_log_def bl_rollback_def Let_def)

lemma snd_bl_commit [store_simps]: "snd (bl_commit s) \<longleftrightarrow> \<not> wr_fail (ldb s)"
  by (simp add: bl_commit_def ldb_Write_def Let_def)

lemma data_map_commit [store_simps]:
  "kv_sorted (entries (ldb s)) \<Longrightarrow>
   data_map (fst (bl_commit s)) = (if wr_fail (ldb s) then data_map s else tx_data s)"
  by (auto simp: data_map_def tx_data_def bl_commit_def ldb_Write_def Let_def db_map_def map_of_apply_batch)

lemma data_map_ldb: "ldb s = ldb s' \<Longrightarrow> data_map s = data_map s'"
  by (simp add: data_map_def db_map_def fun_eq_iff)

lemma data_map_entry:
  assumes "kv_sorted (entries (ldb s))" and "e \<in> set (entries (ldb s))" and "\<not> is_log_key (fst e)"
  shows "data_map s (fst e) = Some (snd e)"
proof -
  have "distinct (map fst (entries (ldb s)))" using assms(1) by (auto simp: kv_sorted_def strict_sorted_iff)
  then have "map_of (entries (ldb s)) (fst e) = Some (snd e)" using assms(2) by simp
  then show ?thesis using assms(3) by (simp add: data_map_def db_map_def)
qed

lemma data_map_tx [store_simps]:
  "data_map (bl_begin s) = data_map s" "data_map (bl_Put k v s) = data_map s"
  "data_map (bl_Delete k s) = data_map s" "data_map (bl_add_log t c k s) = data_map s"
  "data_map (bl_rollback s) = data_map s"
  by (rule data_map_ldb, simp add: store_simps)+

lemma Transaction_simps [store_simps]:
  "fst (Transaction body s) = bl_rollback (fst (body (bl_begin s)))"
  "snd (Transaction body s) = snd (body (bl_begin s))"
  by (simp_all add: Transaction_def Let_def split: prod.splits)

text \<open>The last two calls of every writing operation: commit, and the result by its status.\<close>

definition tx_finish :: "'a \<Rightarrow> 'a \<Rightarrow> ssdb \<Rightarrow> ssdb \<times> 'a" where
  "tx_finish ok_ret err_ret s = (let (s', ok) = bl_commit s in (s', if ok then ok_ret else err_ret))"

lemma tx_finish_simps [store_simps]:
  "fst (tx_finish a b s) = fst (bl_commit s)" "snd (tx_finish a b s) = (if wr_fail (ldb s) then b else a)"
  using snd_bl_commit [of s] by (auto simp: tx_finish_def Let_def split: prod.splits)

lemma ldb_Get_data:
  "\<not> rd_fail (ldb s) k \<Longrightarrow> \<not> is_log_key k \<Longrightarrow>
   ldb_Get (ldb s) k = (case data_map s k of None \<Rightarrow> NotFound | Some v \<Rightarrow> Found v)"
  by (simp add: ldb_Get_def data_map_def db_map_def)

lemma tx_done_finish: "in_txn n s0 s \<Longrightarrow> tx_done n s0 (fst (tx_finish a b s))"
  by (simp add: store_simps tx_done_commit)

lemma tx_done_begin: "tx_done n s (bl_begin s)"
  by (intro tx_done_in in_txn_begin)

lemmas op_run_intros = Transaction_run tx_done_finish tx_done_begin tx_intros tx_run_refl

lemma Transaction_run_pair:
  "Transaction body s = (s', r) \<Longrightarrow> tx_done n s (fst (body (bl_begin s))) \<Longrightarrow> tx_run n s s'"
  using Transaction_run [of n s body] by simp

text \<open>The engine reads and writes without errors.\<close>

definition io_ok :: "ssdb \<Rightarrow> bool" where
  "io_ok s \<longleftrightarrow> kv_sorted (entries (ldb s)) \<and> \<not> wr_fail (ldb s) \<and> (\<forall>k. \<not> rd_fail (ldb s) k)"

lemma io_ok_run: "io_ok s \<Longrightarrow> tx_run n s s' \<Longrightarrow> io_ok s'"
  using tx_run_sorted [of n s s'] tx_run_frame [of n s s'] by (simp add: io_ok_def)

subsection \<open>The empty database\<close>

lemma fresh_db_simps [simp]:
  "ldb fresh_db = fresh_ldb" "entries fresh_ldb = []" "rd_fail fresh_ldb k = False" "wr_fail fresh_ldb = False"
  by (simp_all add: fresh_db_def ssdb_open_def fresh_ldb_def)

lemma fresh_queue: "binlogs fresh_db = \<lparr>min_seq = 0, last_seq = 0, tran_seq = 0, capacity = 20000000, batch = [], enabled = True\<rparr>"
  by (simp add: fresh_db_def ssdb_open_def BinlogQueue_new_def fresh_ldb_def bl_find_last_def bl_find_next_def bl_get_def
      ldb_Get_def bl_load_at_def it_Valid_def it_Seek_def it_new_def it_SeekToLast_def Let_def)

lemma fresh_data [simp]: "data_map fresh_db = (\<lambda>_. None)" "db_map fresh_db = (\<lambda>_. None)"
  by (simp_all add: data_map_def db_map_def fun_eq_iff)

lemma fresh_io [simp]: "io_ok fresh_db"
  by (simp add: io_ok_def)

lemma fresh_inv: "binlog_inv fresh_db"
  by (simp add: binlog_inv_def fresh_queue)

subsection \<open>Properties\<close>

text \<open>C7. Opening a store again finds the number of the newest log: \<open>find_last\<close> recovers \<open>last_seq\<close> from
  the store alone.\<close>

theorem reopen_recovers_last_seq:
  assumes "binlog_inv s" and "last_seq (binlogs s) < UINT64_MAX"
  shows "last_seq (binlogs (ssdb_open (ldb s) on cap)) = last_seq (binlogs s)"
  using reopen_last_seq [OF assms] by (simp add: ssdb_open_def)

text \<open>\<open>find_next\<close> returns the first log whose number is at least the given one, and nothing only if
  there is none; on a well-formed store it never reports an error.\<close>

theorem find_next_first_log:
  assumes "binlog_inv s"
  shows "case bl_find_next n (ldb s) of
      FR_Log b \<Rightarrow> db_map s (encode_seq_key (Binlog_seq b)) = Some b \<and> n \<le> Binlog_seq b \<and>
        (\<forall>sq \<ge> n. db_map s (encode_seq_key sq) \<noteq> None \<longrightarrow> Binlog_seq b \<le> sq)
    | FR_None \<Rightarrow> (\<forall>sq \<ge> n. db_map s (encode_seq_key sq) = None)
    | FR_Error \<Rightarrow> False"
  using assms by (rule bl_find_next_correct)

text \<open>C8. One round of the cleaning thread ends, keeps the log invariant and the data, and deletes no log that is among the newest
  \<open>capacity\<close> ones, also when fewer have ever been written. It waits until there are ten thousand logs more than that, and then
  deletes all the older ones, when the disk accepts the deletion.\<close>

theorem log_clean_keeps_newest:
  assumes "binlog_inv s" and "min_seq (binlogs s) \<le> last_seq (binlogs s)" and "last_seq (binlogs s) < UINT64_MAX"
    and "0 < capacity (binlogs s)" and "capacity (binlogs s) < 2 ^ 31 - 10000"
  shows "\<exists>s'. log_clean_step s = Some s' \<and> binlog_inv s' \<and> last_seq (binlogs s') = last_seq (binlogs s) \<and>
    min_seq (binlogs s') \<le> last_seq (binlogs s') \<and> data_map s' = data_map s \<and>
    (\<forall>sq. unat (last_seq (binlogs s)) < unat sq + nat (capacity (binlogs s)) \<longrightarrow>
        db_map s' (encode_seq_key sq) = db_map s (encode_seq_key sq)) \<and>
    (\<not> wr_fail (ldb s) \<and> unat (min_seq (binlogs s)) + nat (capacity (binlogs s)) + 10000 \<le> unat (last_seq (binlogs s)) \<longrightarrow>
      (\<forall>sq \<ge> min_seq (binlogs s). unat sq + nat (capacity (binlogs s)) \<le> unat (last_seq (binlogs s)) \<longrightarrow> db_map s' (encode_seq_key sq) = None))"
proof -
  from log_clean_step_correct [OF assms] obtain s' where
    s': "log_clean_step s = Some s'" "binlog_inv s'" "last_seq (binlogs s') = last_seq (binlogs s)" "min_seq (binlogs s') \<le> last_seq (binlogs s')"
      "\<forall>k. \<not> is_log_key k \<longrightarrow> db_map s' k = db_map s k"
    and new: "\<forall>sq. unat (last_seq (binlogs s)) < unat sq + nat (capacity (binlogs s)) \<longrightarrow> db_map s' (encode_seq_key sq) = db_map s (encode_seq_key sq)"
    and old: "\<not> wr_fail (ldb s) \<and> unat (min_seq (binlogs s)) + nat (capacity (binlogs s)) + 10000 \<le> unat (last_seq (binlogs s)) \<longrightarrow>
      (\<forall>sq \<ge> min_seq (binlogs s). unat sq + nat (capacity (binlogs s)) \<le> unat (last_seq (binlogs s)) \<longrightarrow> db_map s' (encode_seq_key sq) = None)"
    by blast
  have "data_map s' = data_map s" using s'(5) by (simp add: data_map_def fun_eq_iff)
  with s' new old show ?thesis by blast
qed

text \<open>\<open>del_range\<close> ends on every range below the largest number, and deletes exactly the logs in it.\<close>

theorem del_range_ends:
  assumes "hi < UINT64_MAX" and "start \<le> hi + 1" and "kv_sorted (entries db)" and "\<not> wr_fail db"
  shows "\<exists>db'. bl_del_range start hi db = Some (db', 0) \<and>
    map_of (entries db') = (\<lambda>k. if k \<in> encode_seq_key ` {start..hi} then None else map_of (entries db) k)"
  using bl_del_range_correct [OF assms(1-3)] assms(4) by (auto simp: del_logs_def)

text \<open>A store that a logged update has left behind, for the examples.\<close>

definition logged_db :: ssdb where
  "logged_db = bl_rollback (fst (bl_commit (bl_add_log (CHR 0x01) (CHR 0x01) ''kx'' (bl_Put ''kx'' ''1'' (bl_begin fresh_db)))))"

lemma logged_db_facts:
  "binlog_inv logged_db" "last_seq (binlogs logged_db) = 1" "min_seq (binlogs logged_db) = 0"
  "capacity (binlogs logged_db) = 20000000"
proof -
  have "in_txn 2 fresh_db (bl_add_log (CHR 0x01) (CHR 0x01) ''kx'' (bl_Put ''kx'' ''1'' (bl_begin fresh_db)))"
    by (auto intro!: tx_intros simp: is_log_key_def)
  then have "tx_run 2 fresh_db logged_db"
    using Transaction_run [of 2 fresh_db "\<lambda>_. bl_commit (bl_add_log (CHR 0x01) (CHR 0x01) ''kx'' (bl_Put ''kx'' ''1'' (bl_begin fresh_db)))"]
    by (simp add: logged_db_def store_simps tx_done_commit)
  then show "binlog_inv logged_db" by (rule tx_run_binlog_inv) (simp_all add: fresh_inv seq_room_def fresh_queue)
  show "last_seq (binlogs logged_db) = 1" "min_seq (binlogs logged_db) = 0" "capacity (binlogs logged_db) = 20000000"
    by (simp_all add: logged_db_def bl_commit_def bl_rollback_def bl_add_log_def bl_Put_def bl_begin_def fresh_queue ldb_Write_def Let_def)
qed

theorem reopen_recovers_last_seq_witness: "last_seq (binlogs (ssdb_open (ldb logged_db) True 10)) = 1"
  using reopen_recovers_last_seq [OF logged_db_facts(1), of True 10]
  by (simp add: logged_db_facts UINT64_MAX_def word_less_nat_alt)

theorem find_next_first_log_witness:
  "binlog_inv logged_db \<and> (case bl_find_next 2 (ldb logged_db) of
      FR_Log b \<Rightarrow> db_map logged_db (encode_seq_key (Binlog_seq b)) = Some b \<and> 2 \<le> Binlog_seq b \<and>
        (\<forall>sq \<ge> 2. db_map logged_db (encode_seq_key sq) \<noteq> None \<longrightarrow> Binlog_seq b \<le> sq)
    | FR_None \<Rightarrow> (\<forall>sq \<ge> 2. db_map logged_db (encode_seq_key sq) = None)
    | FR_Error \<Rightarrow> False)"
  using find_next_first_log [OF logged_db_facts(1), of 2] logged_db_facts(1) by blast

definition long_db :: ssdb where
  "long_db = fresh_db\<lparr>ldb := fresh_ldb\<lparr>entries := [(encode_seq_key 7, Binlog_make 7 (CHR 0x01) (CHR 0x01) ''kx''),
       (encode_seq_key 10020, Binlog_make 10020 (CHR 0x01) (CHR 0x01) ''ky'')]\<rparr>,
     binlogs := (binlogs fresh_db)\<lparr>min_seq := 1, last_seq := 10020, capacity := 15\<rparr>\<rparr>"

lemma long_db_facts:
  "binlog_inv long_db" "last_seq (binlogs long_db) = 10020" "min_seq (binlogs long_db) = 1" "capacity (binlogs long_db) = 15" "\<not> wr_fail (ldb long_db)"
  "db_map long_db (encode_seq_key 10020) = Some (Binlog_make 10020 (CHR 0x01) (CHR 0x01) ''ky'')" "db_map long_db (encode_seq_key 7) \<noteq> None"
proof -
  have m: "db_map long_db = [encode_seq_key 7 \<mapsto> Binlog_make 7 (CHR 0x01) (CHR 0x01) ''kx'', encode_seq_key 10020 \<mapsto> Binlog_make 10020 (CHR 0x01) (CHR 0x01) ''ky'']"
    by (auto simp: long_db_def db_map_def fun_eq_iff)
  show q: "last_seq (binlogs long_db) = 10020" "min_seq (binlogs long_db) = 1" "capacity (binlogs long_db) = 15" "\<not> wr_fail (ldb long_db)"
    by (simp_all add: long_db_def fresh_ldb_def)
  have "kv_sorted (entries (ldb long_db))" by (simp add: long_db_def kv_sorted_def encode_seq_key_less word_less_nat_alt)
  then show "binlog_inv long_db" by (auto simp: binlog_inv_def m q log_entry_ok_def word_less_nat_alt word_le_nat_alt split: if_splits)
  show "db_map long_db (encode_seq_key 10020) = Some (Binlog_make 10020 (CHR 0x01) (CHR 0x01) ''ky'')" "db_map long_db (encode_seq_key 7) \<noteq> None"
    by (simp_all add: m)
qed

theorem log_clean_keeps_newest_witness:
  "\<exists>s'. log_clean_step long_db = Some s' \<and> db_map long_db (encode_seq_key 7) \<noteq> None \<and> db_map s' (encode_seq_key 7) = None \<and>
    db_map s' (encode_seq_key 10020) = Some (Binlog_make 10020 (CHR 0x01) (CHR 0x01) ''ky'')"
proof -
  have "min_seq (binlogs long_db) \<le> last_seq (binlogs long_db)" "last_seq (binlogs long_db) < UINT64_MAX"
    "0 < capacity (binlogs long_db)" "capacity (binlogs long_db) < 2 ^ 31 - 10000"
    by (simp_all add: long_db_facts UINT64_MAX_def word_less_nat_alt word_le_nat_alt)
  from log_clean_keeps_newest [OF long_db_facts(1) this] obtain s' where s': "log_clean_step long_db = Some s'"
    and new: "\<forall>sq. unat (last_seq (binlogs long_db)) < unat sq + nat (capacity (binlogs long_db)) \<longrightarrow>
      db_map s' (encode_seq_key sq) = db_map long_db (encode_seq_key sq)"
    and old: "\<forall>sq \<ge> min_seq (binlogs long_db). unat sq + nat (capacity (binlogs long_db)) \<le> unat (last_seq (binlogs long_db)) \<longrightarrow>
      db_map s' (encode_seq_key sq) = None" by (auto simp: long_db_facts)
  then show ?thesis using new [rule_format, of 10020] old [rule_format, of 7] long_db_facts(6,7)
    by (simp add: long_db_facts word_le_nat_alt)
qed

theorem del_range_ends_witness:
  "\<exists>db'. bl_del_range 1 1 (ldb logged_db) = Some (db', 0) \<and> map_of (entries db') (encode_seq_key 1) = None"
proof -
  have "kv_sorted (entries (ldb logged_db))" "\<not> wr_fail (ldb logged_db)"
    using binlog_invD(1) [OF logged_db_facts(1)]
    by (simp_all add: logged_db_def bl_commit_def bl_rollback_def bl_add_log_def bl_Put_def bl_begin_def fresh_queue ldb_Write_def Let_def)
  from del_range_ends [OF _ _ this, of 1 1] show ?thesis
    by (auto simp: UINT64_MAX_def word_less_nat_alt word_le_nat_alt)
qed

end
