(* ===== verification/Keys.thy ===== *)
theory Keys
  imports Binlog
begin

section \<open>Key encodings (\<open>ssdb/t_kv.h\<close>, \<open>t_hash.h\<close>, \<open>t_zset.h\<close>, \<open>t_queue.h\<close>)\<close>

text \<open>
  How each data structure lays its entries out in the key space of the store: a type byte,
  then the name and the member. A decoder returns \<open>None\<close> where the code returns -1.
\<close>

subsection \<open>Encoders and decoders\<close>

definition encode_kv_key :: "bytes \<Rightarrow> bytes" where
  "encode_kv_key key = [type_char KV] @ key"

definition decode_name :: "bytes \<Rightarrow> bytes option" where
  "decode_name sl =
     (case Decoder_skip 1 sl of
        None \<Rightarrow> None
      | Some d \<Rightarrow> (case Decoder_read_data d of None \<Rightarrow> None | Some (key, _) \<Rightarrow> Some key))"

definition decode_kv_key :: "bytes \<Rightarrow> bytes option" where
  "decode_kv_key sl = decode_name sl"

definition encode_hsize_key :: "bytes \<Rightarrow> bytes" where
  "encode_hsize_key name = [type_char HSIZE] @ name"

definition decode_hsize_key :: "bytes \<Rightarrow> bytes option" where
  "decode_hsize_key sl = decode_name sl"

text \<open>The length byte is the cast of the length to \<open>uint8_t\<close>.\<close>

definition len8 :: "bytes \<Rightarrow> char" where
  "len8 s = char_of (length s)"

definition encode_hash_key :: "bytes \<Rightarrow> bytes \<Rightarrow> bytes" where
  "encode_hash_key name key = [type_char HASH] @ [len8 name] @ name @ ''='' @ key"

definition decode_hash_key :: "bytes \<Rightarrow> (bytes \<times> bytes) option" where
  "decode_hash_key sl =
     (case Decoder_skip 1 sl of
        None \<Rightarrow> None
      | Some d \<Rightarrow>
          (case Decoder_read_8_data d of
             None \<Rightarrow> None
           | Some (name, d) \<Rightarrow>
               (case Decoder_skip 1 d of
                  None \<Rightarrow> None
                | Some d \<Rightarrow>
                    (case Decoder_read_data d of None \<Rightarrow> None | Some (key, _) \<Rightarrow> Some (name, key)))))"

definition encode_score :: "int \<Rightarrow> u64" where
  "encode_score s = big_endian64 (word_of_int s)"

definition decode_score :: "int \<Rightarrow> u64" where
  "decode_score s = big_endian64 (word_of_int s)"

definition encode_zsize_key :: "bytes \<Rightarrow> bytes" where
  "encode_zsize_key name = [type_char ZSIZE] @ name"

definition decode_zsize_key :: "bytes \<Rightarrow> bytes option" where
  "decode_zsize_key sl = decode_name sl"

definition encode_zset_key :: "bytes \<Rightarrow> bytes \<Rightarrow> bytes" where
  "encode_zset_key name key = [type_char ZSET] @ [len8 name] @ name @ [len8 key] @ key"

definition decode_zset_key :: "bytes \<Rightarrow> (bytes \<times> bytes) option" where
  "decode_zset_key sl =
     (case Decoder_skip 1 sl of
        None \<Rightarrow> None
      | Some d \<Rightarrow>
          (case Decoder_read_8_data d of
             None \<Rightarrow> None
           | Some (name, d) \<Rightarrow>
               (case Decoder_read_8_data d of None \<Rightarrow> None | Some (key, _) \<Rightarrow> Some (name, key))))"

definition encode_zscore_key :: "bytes \<Rightarrow> bytes \<Rightarrow> bytes \<Rightarrow> bytes" where
  "encode_zscore_key key val score =
     (let s = Bytes_Int64 score
      in [type_char ZSCORE] @ [len8 key] @ key @ (if s < 0 then ''-'' else ''='') @
         le64 (encode_score s) @ ''='' @ val)"

definition decode_zscore_key :: "bytes \<Rightarrow> (bytes \<times> bytes \<times> bytes) option" where
  "decode_zscore_key sl =
     (case Decoder_skip 1 sl of
        None \<Rightarrow> None
      | Some d \<Rightarrow>
          (case Decoder_read_8_data d of
             None \<Rightarrow> None
           | Some (name, d) \<Rightarrow>
               (case Decoder_skip 1 d of
                  None \<Rightarrow> None
                | Some d \<Rightarrow>
                    (case Decoder_read_int64 d of
                       None \<Rightarrow> None
                     | Some (s, d) \<Rightarrow>
                         let score = str_int64 (sint (decode_score s))
                         in (case Decoder_skip 1 d of
                               None \<Rightarrow> None
                             | Some d \<Rightarrow>
                                 (case Decoder_read_data d of
                                    None \<Rightarrow> None
                                  | Some (key, _) \<Rightarrow> Some (name, key, score)))))))"

definition QFRONT_SEQ :: u64 where "QFRONT_SEQ = 2"
definition QBACK_SEQ :: u64 where "QBACK_SEQ = 3"
definition QITEM_MIN_SEQ :: u64 where "QITEM_MIN_SEQ = 10000"
definition QITEM_MAX_SEQ :: u64 where "QITEM_MAX_SEQ = 9223372036854775807"
definition QITEM_SEQ_INIT :: u64 where "QITEM_SEQ_INIT = QITEM_MAX_SEQ div 2"

definition encode_qsize_key :: "bytes \<Rightarrow> bytes" where
  "encode_qsize_key name = [type_char QSIZE] @ name"

definition decode_qsize_key :: "bytes \<Rightarrow> bytes option" where
  "decode_qsize_key sl = decode_name sl"

definition encode_qitem_key :: "bytes \<Rightarrow> u64 \<Rightarrow> bytes" where
  "encode_qitem_key name sq =
     [type_char QUEUE] @ [len8 name] @ name @ le64 (big_endian64 sq)"

definition decode_qitem_key :: "bytes \<Rightarrow> (bytes \<times> u64) option" where
  "decode_qitem_key sl =
     (case Decoder_skip 1 sl of
        None \<Rightarrow> None
      | Some d \<Rightarrow>
          (case Decoder_read_8_data d of
             None \<Rightarrow> None
           | Some (name, d) \<Rightarrow>
               (case Decoder_read_uint64 d of
                  None \<Rightarrow> None
                | Some (sq, _) \<Rightarrow> Some (name, big_endian64 sq))))"

subsection \<open>Round trips\<close>

definition name_ok :: "bytes \<Rightarrow> bool" where
  "name_ok name \<longleftrightarrow> length name \<le> SSDB_KEY_LEN_MAX"

lemma of_char_len8 [simp]: "name_ok s \<Longrightarrow> of_char (len8 s) = length s"
  by (simp add: name_ok_def len8_def SSDB_KEY_LEN_MAX_def)

lemma read_8_data_len8 [simp]: "name_ok s \<Longrightarrow> Decoder_read_8_data (len8 s # s @ r) = Some (s, r)"
  by (simp add: Decoder_read_8_data_def)

lemma skip_1_Cons [simp]: "Decoder_skip 1 (c # r) = Some r" "Decoder_skip (Suc 0) (c # r) = Some r"
  by (simp_all add: Decoder_skip_def)

lemma read_uint64_le64 [simp]: "Decoder_read_uint64 (le64 w @ r) = Some (w, r)"
  by (simp add: Decoder_read_uint64_def)

lemma read_int64_le64 [simp]: "Decoder_read_int64 (le64 w @ r) = Some (sint w, r)"
  by (simp add: Decoder_read_int64_def)

lemma decode_name_Cons [simp]: "decode_name (c # n) = Some n"
  by (simp add: decode_name_def Decoder_read_data_def)

lemma decode_encode_hash_key [codec_simps]:
  "name_ok name \<Longrightarrow> decode_hash_key (encode_hash_key name key) = Some (name, key)"
  by (simp add: decode_hash_key_def encode_hash_key_def Decoder_read_data_def)

lemma decode_encode_zset_key [codec_simps]:
  "name_ok name \<Longrightarrow> name_ok key \<Longrightarrow> decode_zset_key (encode_zset_key name key) = Some (name, key)"
  using read_8_data_len8 [of key "[]"]
  by (simp add: decode_zset_key_def encode_zset_key_def)

lemma decode_encode_qitem_key [codec_simps]:
  "name_ok name \<Longrightarrow> decode_qitem_key (encode_qitem_key name sq) = Some (name, sq)"
  using read_uint64_le64 [of _ "[]"]
  by (simp add: decode_qitem_key_def encode_qitem_key_def)

lemma in_int64_Bytes_Int64 [simp]: "in_int64 (Bytes_Int64 s)"
  by (auto simp: Bytes_Int64_def str_to_int64_def strtoll_def Let_def in_int64_def INT64_MAX_def
      INT64_MIN_def split: prod.splits if_splits)

lemma Bytes_Int64_str_int64 [simp]: "in_int64 v \<Longrightarrow> Bytes_Int64 (str_int64 v) = v"
  by (simp add: Bytes_Int64_def str_to_int64_str_int64)

lemma decode_encode_zscore_key [codec_simps]:
  "name_ok name \<Longrightarrow>
   decode_zscore_key (encode_zscore_key name key score) =
     Some (name, key, str_int64 (Bytes_Int64 score))"
  by (simp add: decode_zscore_key_def encode_zscore_key_def Let_def Decoder_read_data_def
      decode_score_def encode_score_def sint_word_of_int64)

text \<open>The seven codecs, each an instance of the key codec contract.\<close>

interpretation kv_key: key_codec KV "\<lambda>_. True" encode_kv_key decode_kv_key
  by unfold_locales (simp_all add: encode_kv_key_def decode_kv_key_def)

interpretation hsize_key: key_codec HSIZE "\<lambda>_. True" encode_hsize_key decode_hsize_key
  by unfold_locales (simp_all add: encode_hsize_key_def decode_hsize_key_def)

interpretation zsize_key: key_codec ZSIZE "\<lambda>_. True" encode_zsize_key decode_zsize_key
  by unfold_locales (simp_all add: encode_zsize_key_def decode_zsize_key_def)

interpretation qsize_key: key_codec QSIZE "\<lambda>_. True" encode_qsize_key decode_qsize_key
  by unfold_locales (simp_all add: encode_qsize_key_def decode_qsize_key_def)

interpretation hash_key: key_codec HASH "\<lambda>(n, k). name_ok n" "\<lambda>(n, k). encode_hash_key n k" decode_hash_key
  by (unfold_locales, force simp: codec_simps, force simp: encode_hash_key_def)

interpretation zset_key: key_codec ZSET "\<lambda>(n, k). name_ok n \<and> name_ok k"
    "\<lambda>(n, k). encode_zset_key n k" decode_zset_key
  by (unfold_locales, force simp: codec_simps, force simp: encode_zset_key_def)

interpretation qitem_key: key_codec QUEUE "\<lambda>(n, sq). name_ok n" "\<lambda>(n, sq). encode_qitem_key n sq"
    decode_qitem_key
  by (unfold_locales, force simp: codec_simps, force simp: encode_qitem_key_def)

interpretation zscore_key: key_codec ZSCORE "\<lambda>(n, k, s). name_ok n \<and> s = str_int64 (Bytes_Int64 s)"
    "\<lambda>(n, k, s). encode_zscore_key n k s" decode_zscore_key
  by (unfold_locales, force simp: codec_simps, force simp: encode_zscore_key_def Let_def)

lemma encode_inject [simp]:
  "encode_kv_key a = encode_kv_key b \<longleftrightarrow> a = b"
  "encode_hsize_key a = encode_hsize_key b \<longleftrightarrow> a = b"
  "encode_zsize_key a = encode_zsize_key b \<longleftrightarrow> a = b"
  "encode_qsize_key a = encode_qsize_key b \<longleftrightarrow> a = b"
  by (simp_all add: encode_kv_key_def encode_hsize_key_def encode_zsize_key_def encode_qsize_key_def)

lemma encode_hash_key_inject [simp]:
  "name_ok n \<Longrightarrow> name_ok n' \<Longrightarrow> encode_hash_key n k = encode_hash_key n' k' \<longleftrightarrow> n = n' \<and> k = k'"
  using hash_key.enc_inject [of "(n, k)" "(n', k')"] by simp

lemma encode_zset_key_inject [simp]:
  "name_ok n \<Longrightarrow> name_ok n' \<Longrightarrow> name_ok k \<Longrightarrow> name_ok k' \<Longrightarrow>
   encode_zset_key n k = encode_zset_key n' k' \<longleftrightarrow> n = n' \<and> k = k'"
  using zset_key.enc_inject [of "(n, k)" "(n', k')"] by simp

text \<open>The key of an item has eight bytes after the name, so it determines the name of any length.\<close>

lemma encode_qitem_key_inject [simp]: "encode_qitem_key n k = encode_qitem_key n' k' \<longleftrightarrow> n = n' \<and> k = k'"
proof
  assume e: "encode_qitem_key n k = encode_qitem_key n' k'"
  then have a: "n @ le64 (big_endian64 k) = n' @ le64 (big_endian64 k')" by (simp add: encode_qitem_key_def)
  then have "n = n'" "le64 (big_endian64 k) = le64 (big_endian64 k')" by simp_all
  then show "n = n' \<and> k = k'" by (metis big_endian64_involution le64_inject)
qed simp

lemma encode_zscore_key_inject:
  assumes "name_ok n" and "name_ok n'"
  shows "encode_zscore_key n k s = encode_zscore_key n' k' s' \<longleftrightarrow>
    n = n' \<and> k = k' \<and> Bytes_Int64 s = Bytes_Int64 s'"
proof -
  have norm: "encode_zscore_key n k s = encode_zscore_key n k (str_int64 (Bytes_Int64 s))" for n k s
    by (simp add: encode_zscore_key_def)
  have "encode_zscore_key n k s = encode_zscore_key n' k' s' \<longleftrightarrow>
      (n, k, str_int64 (Bytes_Int64 s)) = (n', k', str_int64 (Bytes_Int64 s'))"
    unfolding norm [of n k s] norm [of n' k' s']
    using zscore_key.enc_inject [of "(n, k, str_int64 (Bytes_Int64 s))" "(n', k', str_int64 (Bytes_Int64 s'))"]
      assms by simp
  moreover have "str_int64 (Bytes_Int64 s) = str_int64 (Bytes_Int64 s') \<longleftrightarrow> Bytes_Int64 s = Bytes_Int64 s'"
    by (metis Bytes_Int64_str_int64 in_int64_Bytes_Int64)
  ultimately show ?thesis by simp
qed

subsection \<open>The key spaces are disjoint\<close>

fun key_type :: "bytes \<Rightarrow> char" where
  "key_type [] = CHR 0x00"
| "key_type (c # r) = c"

lemma key_type_encode [simp]:
  "key_type (encode_seq_key sq) = type_char SYNCLOG" "key_type (encode_kv_key k) = type_char KV"
  "key_type (encode_hsize_key n) = type_char HSIZE" "key_type (encode_hash_key n k) = type_char HASH"
  "key_type (encode_zsize_key n) = type_char ZSIZE" "key_type (encode_zset_key n k) = type_char ZSET"
  "key_type (encode_zscore_key n k s) = type_char ZSCORE" "key_type (encode_qsize_key n) = type_char QSIZE"
  "key_type (encode_qitem_key n sq) = type_char QUEUE"
  by (simp_all add: encode_seq_key_def encode_kv_key_def encode_hsize_key_def encode_hash_key_def
      encode_zsize_key_def encode_zset_key_def encode_zscore_key_def Let_def encode_qsize_key_def
      encode_qitem_key_def)

lemma key_type_neqI: "key_type a \<noteq> key_type b \<Longrightarrow> a \<noteq> b"
  by auto

lemma is_log_key_iff: "is_log_key k \<longleftrightarrow> key_type k = type_char SYNCLOG"
  by (cases k) (auto simp: is_log_key_def)

lemma key_space_disjoint [simp]:
  "key_type a = type_char s \<Longrightarrow> key_type b = type_char t \<Longrightarrow> s \<noteq> t \<Longrightarrow> a \<noteq> b"
  by auto

lemma encode_not_log [simp]:
  "\<not> is_log_key (encode_kv_key k)" "\<not> is_log_key (encode_hsize_key n)"
  "\<not> is_log_key (encode_hash_key n k)" "\<not> is_log_key (encode_zsize_key n)"
  "\<not> is_log_key (encode_zset_key n k)" "\<not> is_log_key (encode_zscore_key n k sc)"
  "\<not> is_log_key (encode_qsize_key n)" "\<not> is_log_key (encode_qitem_key n sq)"
  by (simp_all add: is_log_key_iff)

subsection \<open>Order\<close>

text \<open>Inside one name the keys of hash members, queue items and scores sort as the data does.\<close>

lemma encode_hash_key_less [simp]: "encode_hash_key n k < encode_hash_key n k' \<longleftrightarrow> k < k'"
  by (simp add: encode_hash_key_def)

lemma encode_qitem_key_less [simp]: "encode_qitem_key n a < encode_qitem_key n b \<longleftrightarrow> a < b"
  by (simp add: encode_qitem_key_def)

lemma word_of_int_less_same_sign:
  assumes "in_int64 a" and "in_int64 b" and "a < 0 \<longleftrightarrow> b < 0"
  shows "(word_of_int a :: u64) < word_of_int b \<longleftrightarrow> a < b"
proof -
  have "uint (word_of_int x :: u64) = (if x < 0 then x + 2 ^ 64 else x)" if "in_int64 x" for x
  proof (cases "x < 0")
    case True
    then have "x mod 2 ^ 64 = (x + 2 ^ 64) mod 2 ^ 64" by simp
    also have "\<dots> = x + 2 ^ 64" using True that by (intro mod_pos_pos_trivial) (auto simp: in_int64_def)
    finally show ?thesis using True by (simp add: uint_word_of_int)
  next
    case False
    then show ?thesis using that by (simp add: uint_word_of_int in_int64_def)
  qed
  then show ?thesis using assms by (auto simp: word_less_def)
qed

lemma encode_zscore_key_less:
  "encode_zscore_key n k s < encode_zscore_key n k' s' \<longleftrightarrow>
   Bytes_Int64 s < Bytes_Int64 s' \<or> Bytes_Int64 s = Bytes_Int64 s' \<and> k < k'"
proof (cases "Bytes_Int64 s < 0 \<longleftrightarrow> Bytes_Int64 s' < 0")
  case True
  let ?a = "Bytes_Int64 s" and ?b = "Bytes_Int64 s'"
  have "encode_zscore_key n k s < encode_zscore_key n k' s' \<longleftrightarrow>
      le64 (encode_score ?a) @ ''='' @ k < le64 (encode_score ?b) @ ''='' @ k'"
    using True by (simp add: encode_zscore_key_def Let_def)
  also have "\<dots> \<longleftrightarrow> (word_of_int ?a :: u64) < word_of_int ?b \<or> (word_of_int ?a :: u64) = word_of_int ?b \<and> k < k'"
    by (subst append_less_same_length)
       (auto simp: encode_score_def dest: arg_cong [where f = big_endian64])
  also have "(word_of_int ?a :: u64) = word_of_int ?b \<longleftrightarrow> ?a = ?b"
    by (metis in_int64_Bytes_Int64 sint_word_of_int64 wrap64_id)
  finally show ?thesis using True by (simp add: word_of_int_less_same_sign)
next
  case False
  then show ?thesis by (auto simp: encode_zscore_key_def Let_def)
qed

subsection \<open>Properties\<close>



text \<open>The order of the score keys in the store is the order of the members of the set: by score as signed
  64-bit numbers, negative ones included, then by the bytes of the member; and the item keys of a queue are
  in the order of their numbers.\<close>

theorem score_keys_ordered:
  "(encode_zscore_key n k s < encode_zscore_key n k' s') =
     (Bytes_Int64 s < Bytes_Int64 s' \<or> (Bytes_Int64 s = Bytes_Int64 s' \<and> k < k')) \<and>
   (encode_qitem_key n a < encode_qitem_key n b) = (a < b)"
  by (simp add: encode_zscore_key_less)

end
