(* ===== verification/Iterator.thy ===== *)
theory Iterator
  imports Keys "HOL-Library.Sublist"
begin

section \<open>Range iterators (\<open>ssdb/iterator.h\<close>, \<open>ssdb/iterator.cpp\<close>, \<open>SSDBImpl::iterator\<close>)\<close>

text \<open>
  \<open>Iterator\<close> walks a LevelDB iterator in one direction up to an inclusive end key and a
  limit; \<open>KIterator\<close>, \<open>HIterator\<close> and \<open>ZIterator\<close> decode what it yields. Each loop over
  \<open>next()\<close> ends because a successful \<open>next()\<close> lowers the limit.
\<close>

subsection \<open>Iterator\<close>

datatype Direction = FORWARD | BACKWARD

record iterator =
  cur :: ldb_iter
  it_end :: bytes
  it_limit :: u64
  is_first :: bool
  direction :: Direction

definition Iterator_new :: "ldb_iter \<Rightarrow> bytes \<Rightarrow> u64 \<Rightarrow> Direction \<Rightarrow> iterator" where
  "Iterator_new it end limit dir =
     \<lparr>cur = it, it_end = end, it_limit = limit, is_first = True, direction = dir\<rparr>"

definition Iterator_key :: "iterator \<Rightarrow> bytes" where
  "Iterator_key it = it_key (cur it)"

definition Iterator_val :: "iterator \<Rightarrow> bytes" where
  "Iterator_val it = it_value (cur it)"

definition Iterator_move :: "iterator \<Rightarrow> iterator" where
  "Iterator_move it =
     (if is_first it then it\<lparr>is_first := False\<rparr>
      else if direction it = FORWARD then it\<lparr>cur := it_Next (cur it)\<rparr>
      else it\<lparr>cur := it_Prev (cur it)\<rparr>)"

definition past_end :: "iterator \<Rightarrow> bool" where
  "past_end it \<longleftrightarrow>
     (if direction it = FORWARD
      then it_end it \<noteq> [] \<and> Bytes_compare (it_key (cur it)) (it_end it) > 0
      else it_end it \<noteq> [] \<and> Bytes_compare (it_key (cur it)) (it_end it) < 0)"

definition Iterator_next :: "iterator \<Rightarrow> iterator \<times> bool" where
  "Iterator_next it =
     (if it_limit it = 0 then (it, False)
      else let it = Iterator_move it
           in if \<not> it_Valid (cur it) then (it\<lparr>it_limit := 0\<rparr>, False)
              else if past_end it then (it\<lparr>it_limit := 0\<rparr>, False)
              else (it\<lparr>it_limit := it_limit it - 1\<rparr>, True))"

fun Iterator_skip_n :: "nat \<Rightarrow> iterator \<Rightarrow> iterator \<times> bool" where
  "Iterator_skip_n 0 it = (it, True)"
| "Iterator_skip_n (Suc n) it =
     (case Iterator_next it of (it', b) \<Rightarrow> if \<not> b then (it', False) else Iterator_skip_n n it')"

definition Iterator_skip :: "u64 \<Rightarrow> iterator \<Rightarrow> iterator \<times> bool" where
  "Iterator_skip offset it = Iterator_skip_n (unat offset) it"

definition ssdb_iterator :: "leveldb \<Rightarrow> bytes \<Rightarrow> bytes \<Rightarrow> u64 \<Rightarrow> iterator" where
  "ssdb_iterator db start end limit =
     (let it = it_Seek start (it_new db);
          it = (if it_Valid it \<and> it_key it = start then it_Next it else it)
      in Iterator_new it end limit FORWARD)"

definition ssdb_rev_iterator :: "leveldb \<Rightarrow> bytes \<Rightarrow> bytes \<Rightarrow> u64 \<Rightarrow> iterator" where
  "ssdb_rev_iterator db start end limit =
     (let it = it_Seek start (it_new db);
          it = (if \<not> it_Valid it then it_SeekToLast it else it_Prev it)
      in Iterator_new it end limit BACKWARD)"

lemma Iterator_next_limit:
  "Iterator_next it = (it', True) \<Longrightarrow> unat (it_limit it') < unat (it_limit it)"
proof -
  assume "Iterator_next it = (it', True)"
  then have "it_limit it \<noteq> 0" "it_limit it' = it_limit it - 1"
    by (auto simp: Iterator_next_def Iterator_move_def Let_def split: if_splits)
  then show ?thesis by (simp add: unat_minus_one unat_gt_0)
qed

subsection \<open>Decoding iterators\<close>

record k_iterator =
  k_it :: iterator
  k_key :: bytes
  k_val :: bytes
  k_return_val :: bool

definition KIterator_new :: "iterator \<Rightarrow> k_iterator" where
  "KIterator_new it = \<lparr>k_it = it, k_key = [], k_val = [], k_return_val = True\<rparr>"

definition KIterator_return_val :: "bool \<Rightarrow> k_iterator \<Rightarrow> k_iterator" where
  "KIterator_return_val onoff k = k\<lparr>k_return_val := onoff\<rparr>"

function KIterator_next :: "k_iterator \<Rightarrow> k_iterator \<times> bool" where
  "KIterator_next k =
     (case Iterator_next (k_it k) of
        (it, False) \<Rightarrow> (k\<lparr>k_it := it\<rparr>, False)
      | (it, True) \<Rightarrow>
          let k = k\<lparr>k_it := it\<rparr>; ks = Iterator_key it; vs = Iterator_val it
          in if key_type ks \<noteq> type_char KV then (k, False)
             else case decode_kv_key ks of
                    None \<Rightarrow> KIterator_next k
                  | Some key \<Rightarrow> (k\<lparr>k_key := key, k_val := (if k_return_val k then vs else k_val k)\<rparr>, True))"
  by pat_completeness auto
termination
  by (relation "measure (\<lambda>k. unat (it_limit (k_it k)))") (auto dest: Iterator_next_limit [OF sym])

record h_iterator =
  h_it :: iterator
  h_name :: bytes
  h_key :: bytes
  h_val :: bytes
  h_return_val :: bool

definition HIterator_new :: "iterator \<Rightarrow> bytes \<Rightarrow> h_iterator" where
  "HIterator_new it name =
     \<lparr>h_it = it, h_name = name, h_key = [], h_val = [], h_return_val = True\<rparr>"

definition HIterator_return_val :: "bool \<Rightarrow> h_iterator \<Rightarrow> h_iterator" where
  "HIterator_return_val onoff h = h\<lparr>h_return_val := onoff\<rparr>"

function HIterator_next :: "h_iterator \<Rightarrow> h_iterator \<times> bool" where
  "HIterator_next h =
     (case Iterator_next (h_it h) of
        (it, False) \<Rightarrow> (h\<lparr>h_it := it\<rparr>, False)
      | (it, True) \<Rightarrow>
          let h = h\<lparr>h_it := it\<rparr>; ks = Iterator_key it; vs = Iterator_val it
          in if key_type ks \<noteq> type_char HASH then (h, False)
             else case decode_hash_key ks of
                    None \<Rightarrow> HIterator_next h
                  | Some (n, key) \<Rightarrow>
                      if n \<noteq> h_name h then (h\<lparr>h_key := key\<rparr>, False)
                      else (h\<lparr>h_key := key, h_val := (if h_return_val h then vs else h_val h)\<rparr>, True))"
  by pat_completeness auto
termination
  by (relation "measure (\<lambda>h. unat (it_limit (h_it h)))") (auto dest: Iterator_next_limit [OF sym])

record z_iterator =
  z_it :: iterator
  z_name :: bytes
  z_key :: bytes
  z_score :: bytes

definition ZIterator_new :: "iterator \<Rightarrow> bytes \<Rightarrow> z_iterator" where
  "ZIterator_new it name = \<lparr>z_it = it, z_name = name, z_key = [], z_score = []\<rparr>"

function ZIterator_next :: "z_iterator \<Rightarrow> z_iterator \<times> bool" where
  "ZIterator_next z =
     (case Iterator_next (z_it z) of
        (it, False) \<Rightarrow> (z\<lparr>z_it := it\<rparr>, False)
      | (it, True) \<Rightarrow>
          let z = z\<lparr>z_it := it\<rparr>; ks = Iterator_key it
          in if key_type ks \<noteq> type_char ZSCORE then (z, False)
             else case decode_zscore_key ks of
                    None \<Rightarrow> ZIterator_next z
                  | Some (n, key, score) \<Rightarrow> (z\<lparr>z_key := key, z_score := score\<rparr>, True))"
  by pat_completeness auto
termination
  by (relation "measure (\<lambda>z. unat (it_limit (z_it z)))") (auto dest: Iterator_next_limit [OF sym])

declare KIterator_next.simps [simp del] HIterator_next.simps [simp del] ZIterator_next.simps [simp del]

fun ZIterator_skip_n :: "nat \<Rightarrow> z_iterator \<Rightarrow> z_iterator \<times> bool" where
  "ZIterator_skip_n 0 z = (z, True)"
| "ZIterator_skip_n (Suc n) z =
     (case ZIterator_next z of (z', b) \<Rightarrow> if \<not> b then (z', False) else ZIterator_skip_n n z')"

definition ZIterator_skip :: "u64 \<Rightarrow> z_iterator \<Rightarrow> z_iterator \<times> bool" where
  "ZIterator_skip offset z = ZIterator_skip_n (unat offset) z"

subsection \<open>What an iterator yields\<close>

text \<open>
  \<open>iter_rest it\<close> is the list of entries that repeated calls of \<open>next()\<close> return; an iterator that
  has moved and may still move stands on an entry.
\<close>

definition iter_ok :: "iterator \<Rightarrow> bool" where
  "iter_ok it \<longleftrightarrow> is_first it \<or> it_limit it = 0 \<or> it_Valid (cur it)"

definition iter_line :: "iterator \<Rightarrow> kvs" where
  "iter_line it =
     (let xs = snap (cur it); p = pos (cur it)
      in if direction it = FORWARD then drop (if is_first it then p else Suc p) xs
         else if is_first it then (if p < length xs then rev (take (Suc p) xs) else [])
         else rev (take p xs))"

definition in_range :: "iterator \<Rightarrow> bytes \<times> bytes \<Rightarrow> bool" where
  "in_range it e \<longleftrightarrow>
     it_end it = [] \<or> (if direction it = FORWARD then fst e \<le> it_end it else it_end it \<le> fst e)"

definition iter_rest :: "iterator \<Rightarrow> kvs" where
  "iter_rest it = take (unat (it_limit it)) (takeWhile (in_range it) (iter_line it))"

definition iter_at :: "iterator \<Rightarrow> bytes \<times> bytes" where
  "iter_at it = (Iterator_key it, Iterator_val it)"

lemma past_end_iff: "past_end it \<longleftrightarrow> \<not> in_range it (iter_at it)"
  by (auto simp: past_end_def in_range_def iter_at_def Iterator_key_def Bytes_compare_sign not_less)

lemma iter_line_move:
  assumes "iter_ok it" and "it_limit it \<noteq> 0"
  shows "iter_line it = (if it_Valid (cur (Iterator_move it))
    then iter_at (Iterator_move it) # iter_line (Iterator_move it) else [])"
proof (cases "direction it")
  case FORWARD
  then show ?thesis using assms
    by (auto simp: iter_line_def iter_at_def Iterator_move_def it_Valid_def it_Next_def iter_ok_def
        Iterator_key_def Iterator_val_def it_key_def it_value_def Let_def Cons_nth_drop_Suc)
next
  case BACKWARD
  then show ?thesis using assms
    by (auto simp: iter_line_def iter_at_def Iterator_move_def it_Valid_def it_Prev_def iter_ok_def
        Iterator_key_def Iterator_val_def it_key_def it_value_def Let_def take_Suc_conv_app_nth
        gr0_conv_Suc)
qed

lemma Iterator_move_frame [simp]:
  "it_end (Iterator_move it) = it_end it" "it_limit (Iterator_move it) = it_limit it"
  "direction (Iterator_move it) = direction it" "is_first (Iterator_move it) = False"
  by (simp_all add: Iterator_move_def)

lemma in_range_cong:
  "it_end a = it_end b \<Longrightarrow> direction a = direction b \<Longrightarrow> in_range a = in_range b"
  by (simp add: in_range_def fun_eq_iff)

lemma Iterator_next_rest:
  assumes ok: "iter_ok it"
  shows "case iter_rest it of
      [] \<Rightarrow> snd (Iterator_next it) = False \<and> iter_ok (fst (Iterator_next it)) \<and> iter_rest (fst (Iterator_next it)) = []
    | e # es \<Rightarrow> snd (Iterator_next it) = True \<and> iter_ok (fst (Iterator_next it)) \<and>
        iter_at (fst (Iterator_next it)) = e \<and> iter_rest (fst (Iterator_next it)) = es"
proof (cases "it_limit it = 0")
  case True
  then show ?thesis using ok by (simp add: iter_rest_def Iterator_next_def)
next
  case False
  let ?m = "Iterator_move it"
  let ?m' = "?m\<lparr>it_limit := it_limit it - 1\<rparr>"
  have u: "unat (it_limit it) = Suc (unat (it_limit it - 1))"
    using False by (simp add: unat_minus_one unat_gt_0)
  have rng: "in_range ?m = in_range it" "in_range ?m' = in_range it"
    by (auto intro: in_range_cong)
  have at: "iter_at ?m' = iter_at ?m" "iter_line ?m' = iter_line ?m"
    by (simp_all add: iter_at_def iter_line_def Iterator_key_def Iterator_val_def Let_def)
  show ?thesis
  proof (cases "it_Valid (cur ?m) \<and> in_range it (iter_at ?m)")
    case True
    then have "Iterator_next it = (?m', True)"
      using False past_end_iff [of ?m] by (simp add: Iterator_next_def Let_def rng)
    moreover have "iter_rest it = iter_at ?m # iter_rest ?m'"
      using iter_line_move [OF ok False] True u by (simp add: iter_rest_def at rng)
    ultimately show ?thesis using True at by (simp add: iter_ok_def)
  next
    case stop: False
    then have "Iterator_next it = (?m\<lparr>it_limit := 0\<rparr>, False)"
      using False past_end_iff [of ?m] by (auto simp: Iterator_next_def Let_def rng)
    moreover have "iter_rest it = []"
      using iter_line_move [OF ok False] stop by (auto simp: iter_rest_def)
    moreover have "iter_rest (?m\<lparr>it_limit := 0\<rparr>) = []" by (simp add: iter_rest_def)
    ultimately show ?thesis by (simp add: iter_ok_def)
  qed
qed

lemma Iterator_next_cases:
  assumes "iter_ok it" and "Iterator_next it = (it', b)"
  shows "iter_ok it'" and "b \<longleftrightarrow> iter_rest it \<noteq> []"
    and "b \<Longrightarrow> iter_rest it = (Iterator_key it', Iterator_val it') # iter_rest it'"
    and "\<not> b \<Longrightarrow> iter_rest it' = []"
  using Iterator_next_rest [OF assms(1)] assms(2)
  by (auto simp: iter_at_def split: list.splits)

subsection \<open>Where a range starts\<close>

lemma kv_sorted_dropWhile:
  "kv_sorted xs \<Longrightarrow> drop (length (takeWhile (\<lambda>p. fst p < k) xs)) xs = filter (\<lambda>p. k \<le> fst p) xs"
proof (induction xs)
  case (Cons p xs)
  show ?case
  proof (cases "fst p < k")
    case True
    then show ?thesis using Cons by (cases p) auto
  next
    case False
    then have "filter (\<lambda>q. k \<le> fst q) xs = xs"
      using Cons.prems by (cases p) (auto simp: filter_id_conv intro: order.trans less_imp_le)
    with False show ?thesis by simp
  qed
qed simp

lemma kv_sorted_takeWhile:
  "kv_sorted xs \<Longrightarrow> takeWhile (\<lambda>p. fst p < k) xs = filter (\<lambda>p. fst p < k) xs"
proof (induction xs)
  case (Cons p xs)
  show ?case
  proof (cases "fst p < k")
    case True
    then show ?thesis using Cons by (cases p) auto
  next
    case False
    then have "filter (\<lambda>q. fst q < k) xs = []"
      using Cons.prems by (cases p) (auto simp: filter_empty_conv)
    with False show ?thesis by simp
  qed
qed simp

lemma takeWhile_eq_filter:
  assumes "sorted_wrt R xs" and "\<And>p q. p \<in> set xs \<Longrightarrow> q \<in> set xs \<Longrightarrow> R p q \<Longrightarrow> P q \<Longrightarrow> P p"
  shows "takeWhile P xs = filter P xs"
  using assms
proof (induction xs)
  case (Cons p xs)
  show ?case
  proof (cases "P p")
    case False
    then have "filter P xs = []" using Cons.prems by (auto simp: filter_empty_conv)
    with False show ?thesis by simp
  qed (use Cons in auto)
qed simp

lemma kv_sorted_wrt: "kv_sorted xs \<longleftrightarrow> sorted_wrt (\<lambda>p q. fst p < fst q) xs"
  by (simp add: kv_sorted_def sorted_wrt_map)

lemma kv_sorted_filter: "kv_sorted xs \<Longrightarrow> kv_sorted (filter P xs)"
  by (simp add: kv_sorted_wrt sorted_wrt_filter)

lemma kv_sorted_drop_after:
  assumes "kv_sorted xs" and "i = length (takeWhile (\<lambda>p. fst p < start) xs)"
  shows "(if i < length xs \<and> fst (xs ! i) = start then drop (Suc i) xs else drop i xs) =
    filter (\<lambda>p. start < fst p) xs"
  using assms
proof (induction xs arbitrary: i)
  case (Cons p xs)
  show ?case
  proof (cases "fst p < start")
    case True
    with Cons show ?thesis by (cases p) (auto simp: not_less)
  next
    case False
    then have "filter (\<lambda>q. start < fst q) xs = xs"
      using Cons.prems by (cases p) (auto simp: filter_id_conv not_less intro: le_less_trans)
    with False Cons.prems show ?thesis by auto
  qed
qed simp

lemma ssdb_iterator_rest:
  assumes "kv_sorted (entries db)"
  shows "iter_ok (ssdb_iterator db start end limit)"
    and "iter_rest (ssdb_iterator db start end limit) =
      take (unat limit) (filter (\<lambda>p. start < fst p \<and> (end = [] \<or> fst p \<le> end)) (entries db))"
proof -
  let ?xs = "entries db" and ?it = "ssdb_iterator db start end limit"
  show "iter_ok ?it" by (simp add: ssdb_iterator_def Iterator_new_def iter_ok_def Let_def)
  have line: "iter_line ?it = filter (\<lambda>p. start < fst p) ?xs"
    using kv_sorted_drop_after [OF assms refl, of start]
    by (auto simp: ssdb_iterator_def Iterator_new_def iter_line_def it_Seek_def it_new_def it_Valid_def
        it_key_def it_Next_def Let_def split: if_splits)
  have rng: "in_range ?it = (\<lambda>p. end = [] \<or> fst p \<le> end)"
    by (simp add: ssdb_iterator_def Iterator_new_def in_range_def Let_def fun_eq_iff)
  have "takeWhile (in_range ?it) (filter (\<lambda>p. start < fst p) ?xs) =
      filter (in_range ?it) (filter (\<lambda>p. start < fst p) ?xs)"
    unfolding rng
    by (rule takeWhile_eq_filter [OF kv_sorted_filter [OF assms, unfolded kv_sorted_wrt]]) auto
  then show "iter_rest ?it = take (unat limit) (filter (\<lambda>p. start < fst p \<and> (end = [] \<or> fst p \<le> end)) ?xs)"
    unfolding iter_rest_def line rng by (simp add: ssdb_iterator_def Iterator_new_def Let_def conj_commute)
qed

lemma ssdb_rev_iterator_rest:
  assumes "kv_sorted (entries db)"
  shows "iter_ok (ssdb_rev_iterator db start end limit)"
    and "iter_rest (ssdb_rev_iterator db start end limit) =
      take (unat limit) (rev (filter (\<lambda>p. fst p < start \<and> (end = [] \<or> end \<le> fst p)) (entries db)))"
proof -
  let ?xs = "entries db" and ?it = "ssdb_rev_iterator db start end limit"
  let ?i = "length (takeWhile (\<lambda>p. fst p < start) ?xs)"
  show "iter_ok ?it" by (simp add: ssdb_rev_iterator_def Iterator_new_def iter_ok_def Let_def)
  have le: "?i \<le> length ?xs" by (rule length_takeWhile_le)
  have "take ?i ?xs = filter (\<lambda>p. fst p < start) ?xs"
    unfolding kv_sorted_takeWhile [OF assms, symmetric] by (rule takeWhile_eq_take [symmetric])
  then have line: "iter_line ?it = rev (filter (\<lambda>p. fst p < start) ?xs)"
    using le
    by (cases ?i) (auto simp: ssdb_rev_iterator_def Iterator_new_def iter_line_def it_Seek_def it_new_def
        it_Valid_def it_Prev_def it_SeekToLast_def Let_def)
  have rng: "in_range ?it = (\<lambda>p. end = [] \<or> end \<le> fst p)"
    by (simp add: ssdb_rev_iterator_def Iterator_new_def in_range_def Let_def fun_eq_iff)
  have "sorted_wrt (\<lambda>p q. fst q < fst p) (rev (filter (\<lambda>p. fst p < start) ?xs))"
    using kv_sorted_filter [OF assms, unfolded kv_sorted_wrt] by (simp add: sorted_wrt_rev)
  then have "takeWhile (in_range ?it) (rev (filter (\<lambda>p. fst p < start) ?xs)) =
      filter (in_range ?it) (rev (filter (\<lambda>p. fst p < start) ?xs))"
    unfolding rng by (rule takeWhile_eq_filter) auto
  then show "iter_rest ?it = take (unat limit) (rev (filter (\<lambda>p. fst p < start \<and> (end = [] \<or> end \<le> fst p)) ?xs))"
    unfolding iter_rest_def line rng
    by (simp add: ssdb_rev_iterator_def Iterator_new_def Let_def conj_commute flip: rev_filter)
qed

subsection \<open>Draining a decoding iterator\<close>

text \<open>
  The contract the three decoding iterators share: on an entry they accept they yield what
  it decodes to, on any other they stop. Draining one then gives the decoded
  entries up to the first that is not accepted.
\<close>

locale decoding_iterator =
  fixes nxt :: "'i \<Rightarrow> 'i \<times> bool"
    and base :: "'i \<Rightarrow> iterator"
    and ready :: "'i \<Rightarrow> bool"
    and accept :: "'i \<Rightarrow> bytes \<times> bytes \<Rightarrow> bool"
    and emit :: "bytes \<times> bytes \<Rightarrow> 'o"
    and out :: "'i \<Rightarrow> 'o"
    and wf :: "bytes \<times> bytes \<Rightarrow> bool"
  assumes stop: "ready i \<Longrightarrow> iter_ok (base i) \<Longrightarrow> iter_rest (base i) = [] \<Longrightarrow> snd (nxt i) = False"
    and reject: "ready i \<Longrightarrow> iter_ok (base i) \<Longrightarrow> iter_rest (base i) = e # es \<Longrightarrow> wf e \<Longrightarrow>
      \<not> accept i e \<Longrightarrow> snd (nxt i) = False"
    and step: "ready i \<Longrightarrow> iter_ok (base i) \<Longrightarrow> iter_rest (base i) = e # es \<Longrightarrow> wf e \<Longrightarrow> accept i e \<Longrightarrow>
      \<exists>i'. nxt i = (i', True) \<and> ready i' \<and> iter_ok (base i') \<and> iter_rest (base i') = es \<and>
        out i' = emit e \<and> accept i' = accept i"
begin

primrec drain :: "nat \<Rightarrow> 'i \<Rightarrow> 'o list" where
  "drain 0 i = []"
| "drain (Suc n) i = (case nxt i of (i', b) \<Rightarrow> if b then out i' # drain n i' else [])"

primrec advance :: "nat \<Rightarrow> 'i \<Rightarrow> 'i \<times> bool" where
  "advance 0 i = (i, True)"
| "advance (Suc n) i = (case nxt i of (i', b) \<Rightarrow> if b then advance n i' else (i', False))"

lemma drain_correct:
  assumes "ready i" and "iter_ok (base i)" and "\<forall>e \<in> set (iter_rest (base i)). wf e"
  shows "drain n i = take n (map emit (takeWhile (accept i) (iter_rest (base i))))"
  using assms
proof (induction n arbitrary: i)
  case (Suc n)
  show ?case
  proof (cases "iter_rest (base i)")
    case Nil
    then have "snd (nxt i) = False" using stop Suc.prems by blast
    with Nil show ?thesis by (auto split: prod.splits)
  next
    case (Cons e es)
    show ?thesis
    proof (cases "accept i e")
      case True
      then obtain i' where i': "nxt i = (i', True)" "ready i'" "iter_ok (base i')" "iter_rest (base i') = es"
          "out i' = emit e" "accept i' = accept i"
        using step [OF Suc.prems(1,2) Cons] Suc.prems(3) Cons by auto
      with Suc.IH [of i'] Suc.prems(3) Cons True show ?thesis by simp
    next
      case False
      then have "snd (nxt i) = False" using reject [OF Suc.prems(1,2) Cons] Suc.prems(3) Cons by simp
      with False Cons show ?thesis by (auto split: prod.splits)
    qed
  qed
qed simp

end

definition entry_KV :: "bytes \<times> bytes \<Rightarrow> bool" where
  "entry_KV e \<longleftrightarrow> key_type (fst e) = type_char KV"

lemma KIterator_next_step:
  assumes "iter_ok (k_it k)" and "iter_rest (k_it k) = e # es"
  shows "if entry_KV e
    then \<exists>k'. KIterator_next k = (k', True) \<and> k_return_val k' = k_return_val k \<and> iter_ok (k_it k') \<and>
      iter_rest (k_it k') = es \<and> k_key k' = tl (fst e) \<and>
      k_val k' = (if k_return_val k then snd e else k_val k)
    else snd (KIterator_next k) = False"
proof -
  obtain it b where it: "Iterator_next (k_it k) = (it, b)" by fastforce
  note c = Iterator_next_cases [OF assms(1) it]
  have b: "b" and e: "e = (Iterator_key it, Iterator_val it)" "iter_rest it = es"
    using c(2,3) assms(2) by auto
  obtain x xs where "entry_KV e \<Longrightarrow> fst e = x # xs" by (cases "fst e") (auto simp: entry_KV_def)
  with it b e c(1) show ?thesis
    by (auto simp: KIterator_next.simps [of k] entry_KV_def Let_def decode_kv_key_def)
qed

interpretation kiter: decoding_iterator KIterator_next k_it "\<lambda>k. k_return_val k" "\<lambda>_. entry_KV"
    "\<lambda>e. (tl (fst e), snd e)" "\<lambda>k. (k_key k, k_val k)" "\<lambda>_. True"
proof unfold_locales
  fix k :: k_iterator assume "iter_ok (k_it k)" "iter_rest (k_it k) = []"
  then show "snd (KIterator_next k) = False"
    using Iterator_next_cases(2) [of "k_it k"]
    by (auto simp: KIterator_next.simps [of k] split: prod.splits bool.splits)
qed (use KIterator_next_step in force)+

definition entry_HASH :: "bytes \<Rightarrow> bytes \<times> bytes \<Rightarrow> bool" where
  "entry_HASH name e \<longleftrightarrow> key_type (fst e) = type_char HASH \<and> fst (the (decode_hash_key (fst e))) = name"

definition hash_key_wf :: "bytes \<times> bytes \<Rightarrow> bool" where
  "hash_key_wf e \<longleftrightarrow> (key_type (fst e) = type_char HASH \<longrightarrow> decode_hash_key (fst e) \<noteq> None)"

lemma HIterator_next_step:
  assumes "iter_ok (h_it h)" and "iter_rest (h_it h) = e # es" and "hash_key_wf e"
  shows "if entry_HASH (h_name h) e
    then \<exists>h'. HIterator_next h = (h', True) \<and> h_return_val h' = h_return_val h \<and> h_name h' = h_name h \<and>
      iter_ok (h_it h') \<and> iter_rest (h_it h') = es \<and> h_key h' = snd (the (decode_hash_key (fst e))) \<and>
      h_val h' = (if h_return_val h then snd e else h_val h)
    else snd (HIterator_next h) = False"
proof -
  obtain it b where it: "Iterator_next (h_it h) = (it, b)" by fastforce
  note c = Iterator_next_cases [OF assms(1) it]
  have b: "b" and e: "e = (Iterator_key it, Iterator_val it)" "iter_rest it = es"
    using c(2,3) assms(2) by auto
  with it c(1) assms(3) show ?thesis
    by (auto simp: HIterator_next.simps [of h] entry_HASH_def hash_key_wf_def Let_def)
qed

interpretation hiter: decoding_iterator HIterator_next h_it "\<lambda>h. h_return_val h" "\<lambda>h. entry_HASH (h_name h)"
    "\<lambda>e. (snd (the (decode_hash_key (fst e))), snd e)" "\<lambda>h. (h_key h, h_val h)" hash_key_wf
proof unfold_locales
  fix h :: h_iterator assume "iter_ok (h_it h)" "iter_rest (h_it h) = []"
  then show "snd (HIterator_next h) = False"
    using Iterator_next_cases(2) [of "h_it h"]
    by (auto simp: HIterator_next.simps [of h] split: prod.splits bool.splits)
qed (use HIterator_next_step in force)+

definition entry_ZSCORE :: "bytes \<times> bytes \<Rightarrow> bool" where
  "entry_ZSCORE e \<longleftrightarrow> key_type (fst e) = type_char ZSCORE"

definition zscore_key_wf :: "bytes \<times> bytes \<Rightarrow> bool" where
  "zscore_key_wf e \<longleftrightarrow> (key_type (fst e) = type_char ZSCORE \<longrightarrow> decode_zscore_key (fst e) \<noteq> None)"

lemma ZIterator_next_step:
  assumes "iter_ok (z_it z)" and "iter_rest (z_it z) = e # es" and "zscore_key_wf e"
  shows "if entry_ZSCORE e
    then \<exists>z'. ZIterator_next z = (z', True) \<and> iter_ok (z_it z') \<and> iter_rest (z_it z') = es \<and>
      (z_key z', z_score z') = snd (the (decode_zscore_key (fst e)))
    else snd (ZIterator_next z) = False"
proof -
  obtain it b where it: "Iterator_next (z_it z) = (it, b)" by fastforce
  note c = Iterator_next_cases [OF assms(1) it]
  have b: "b" and e: "e = (Iterator_key it, Iterator_val it)" "iter_rest it = es"
    using c(2,3) assms(2) by auto
  with it c(1) assms(3) show ?thesis
    by (auto simp: ZIterator_next.simps [of z] entry_ZSCORE_def zscore_key_wf_def Let_def)
qed

interpretation ziter: decoding_iterator ZIterator_next z_it "\<lambda>_. True" "\<lambda>_. entry_ZSCORE"
    "\<lambda>e. snd (the (decode_zscore_key (fst e)))" "\<lambda>z. (z_key z, z_score z)" zscore_key_wf
proof unfold_locales
  fix z :: z_iterator assume "iter_ok (z_it z)" "iter_rest (z_it z) = []"
  then show "snd (ZIterator_next z) = False"
    using Iterator_next_cases(2) [of "z_it z"]
    by (auto simp: ZIterator_next.simps [of z] split: prod.splits bool.splits)
qed (use ZIterator_next_step in force)+

subsection \<open>The entries under a prefix\<close>

text \<open>
  The keys of a component, or of one name of it, share a prefix. \<open>sub_list P xs\<close> are the entries
  under a prefix without it; a scan between two keys with the prefix yields exactly the
  part of it between the bounds.
\<close>

definition sub_list :: "bytes \<Rightarrow> kvs \<Rightarrow> kvs" where
  "sub_list P xs = map (\<lambda>e. (drop (length P) (fst e), snd e)) (filter (\<lambda>e. prefix P (fst e)) xs)"

lemma filter_map_pair: "filter Q (map f xs) = map f (filter (\<lambda>x. Q (f x)) xs)"
  by (induction xs) auto

lemma takeWhile_take: "takeWhile Q (take n xs) = take n (takeWhile Q xs)"
  by (induction xs arbitrary: n) (auto simp: take_Cons split: nat.split)

lemma prefix_between:
  fixes P :: bytes
  shows "P @ a \<le> q \<Longrightarrow> q \<le> P @ b \<Longrightarrow> prefix P q"
proof (induction P arbitrary: q)
  case (Cons c P)
  then show ?case by (cases q) (auto simp: le_less)
qed simp

lemma map_of_sub_list: "map_of (sub_list P xs) k = map_of xs (P @ k)"
proof (induction xs)
  case (Cons e xs)
  show ?case
  proof (cases "prefix P (fst e)")
    case True
    then obtain r where "fst e = P @ r" by (auto simp: prefix_def)
    with Cons show ?thesis by (cases e) (simp add: sub_list_def)
  next
    case False
    then have "fst e \<noteq> P @ k" by auto
    with Cons False show ?thesis by (cases e) (simp add: sub_list_def)
  qed
qed (simp add: sub_list_def)

lemma sub_list_sorted: "kv_sorted xs \<Longrightarrow> kv_sorted (sub_list P xs)"
  by (induction xs) (auto simp: sub_list_def kv_sorted_wrt prefix_def)

lemma sub_list_filter:
  assumes "\<And>k. Q (P @ k) = Q' k"
  shows "sub_list P (filter (\<lambda>e. Q (fst e)) xs) = filter (\<lambda>e. Q' (fst e)) (sub_list P xs)"
proof -
  have "Q (fst e) = Q' (drop (length P) (fst e))" if "prefix P (fst e)" for e :: "bytes \<times> bytes"
    using that assms by (metis append_eq_conv_conj prefixE)
  then show ?thesis
    unfolding sub_list_def filter_map_pair filter_filter by (intro arg_cong [where f = "map _"] filter_cong) auto
qed

lemma takeWhile_prefix_up:
  assumes "kv_sorted xs" and "\<forall>e \<in> set xs. P @ lo < fst e"
  shows "takeWhile (\<lambda>e. prefix P (fst e)) xs = filter (\<lambda>e. prefix P (fst e)) xs"
proof (rule takeWhile_eq_filter [OF assms(1) [unfolded kv_sorted_wrt]])
  fix p q assume "p \<in> set xs" "fst p < fst q" "prefix P (fst q)"
  moreover from this obtain b where "fst q = P @ b" by (auto simp: prefix_def)
  ultimately show "prefix P (fst p)" using assms(2) prefix_between [of P lo "fst p" b] by (simp add: less_imp_le)
qed

lemma takeWhile_prefix_down:
  assumes "kv_sorted xs" and "\<forall>e \<in> set xs. fst e < P @ hi"
  shows "takeWhile (\<lambda>e. prefix P (fst e)) (rev xs) = rev (filter (\<lambda>e. prefix P (fst e)) xs)"
  unfolding rev_filter
proof (rule takeWhile_eq_filter)
  show "sorted_wrt (\<lambda>p q. fst q < fst p) (rev xs)"
    using assms(1) by (simp add: kv_sorted_wrt sorted_wrt_rev)
  fix p q assume "p \<in> set (rev xs)" "fst q < fst p" "prefix P (fst q)"
  moreover from this obtain a where "fst q = P @ a" by (auto simp: prefix_def)
  ultimately show "prefix P (fst p)" using assms(2) prefix_between [of P a "fst p" hi] by (simp add: less_imp_le)
qed

lemma scan_up:
  assumes "kv_sorted (entries db)"
  shows "map (\<lambda>e. (drop (length P) (fst e), snd e))
      (takeWhile (\<lambda>e. prefix P (fst e))
        (iter_rest (ssdb_iterator db (P @ start) (if end = [] then [] else P @ end) limit))) =
    take (unat limit) (filter (\<lambda>e. start < fst e \<and> (end = [] \<or> fst e \<le> end)) (sub_list P (entries db)))"
proof -
  let ?e = "if end = [] then [] else P @ end"
  let ?R = "filter (\<lambda>p. P @ start < fst p \<and> (?e = [] \<or> fst p \<le> ?e)) (entries db)"
  have tw: "takeWhile (\<lambda>e. prefix P (fst e)) ?R = filter (\<lambda>e. prefix P (fst e)) ?R"
    by (rule takeWhile_prefix_up [OF kv_sorted_filter [OF assms]]) auto
  have "map (\<lambda>e. (drop (length P) (fst e), snd e)) (filter (\<lambda>e. prefix P (fst e)) ?R) =
      filter (\<lambda>e. start < fst e \<and> (end = [] \<or> fst e \<le> end)) (sub_list P (entries db))"
    unfolding sub_list_def [symmetric] by (rule sub_list_filter) simp
  with tw show ?thesis by (simp only: ssdb_iterator_rest [OF assms] takeWhile_take take_map [symmetric])
qed

lemma scan_down:
  assumes "kv_sorted (entries db)"
  shows "map (\<lambda>e. (drop (length P) (fst e), snd e))
      (takeWhile (\<lambda>e. prefix P (fst e))
        (iter_rest (ssdb_rev_iterator db (P @ start) (if end = [] then [] else P @ end) limit))) =
    take (unat limit) (rev (filter (\<lambda>e. fst e < start \<and> (end = [] \<or> end \<le> fst e)) (sub_list P (entries db))))"
proof -
  let ?e = "if end = [] then [] else P @ end"
  let ?R = "filter (\<lambda>p. fst p < P @ start \<and> (?e = [] \<or> ?e \<le> fst p)) (entries db)"
  have tw: "takeWhile (\<lambda>e. prefix P (fst e)) (rev ?R) = rev (filter (\<lambda>e. prefix P (fst e)) ?R)"
    by (rule takeWhile_prefix_down [OF kv_sorted_filter [OF assms]]) auto
  have "map (\<lambda>e. (drop (length P) (fst e), snd e)) (filter (\<lambda>e. prefix P (fst e)) ?R) =
      filter (\<lambda>e. fst e < start \<and> (end = [] \<or> end \<le> fst e)) (sub_list P (entries db))"
    unfolding sub_list_def [symmetric] by (rule sub_list_filter) simp
  with tw show ?thesis
    by (simp only: ssdb_rev_iterator_rest [OF assms] takeWhile_take take_map [symmetric] rev_map [symmetric])
qed

lemma iter_rest_subset:
  assumes "kv_sorted (entries db)"
  shows "set (iter_rest (ssdb_iterator db a b l)) \<subseteq> set (entries db)"
    and "set (iter_rest (ssdb_rev_iterator db a b l)) \<subseteq> set (entries db)"
  unfolding ssdb_iterator_rest(2) [OF assms] ssdb_rev_iterator_rest(2) [OF assms]
  by (auto dest!: in_set_takeD)

lemma sorted_wrt_map_on:
  "sorted_wrt R xs \<Longrightarrow> (\<And>x y. x \<in> set xs \<Longrightarrow> y \<in> set xs \<Longrightarrow> R x y \<Longrightarrow> Q (f x) (f y)) \<Longrightarrow> sorted_wrt Q (map f xs)"
  by (induction xs) auto

lemma sorted_wrt_index:
  assumes "sorted_wrt R xs" and "i < length xs" and "\<And>a. \<not> R a a" and "\<And>a b c. R a b \<Longrightarrow> R b c \<Longrightarrow> R a c"
  shows "card {x \<in> set xs. R x (xs ! i)} = i"
proof -
  have idx: "R (xs ! j) (xs ! i) \<longleftrightarrow> j < i" if "j < length xs" for j
    using sorted_wrt_nth_less [OF assms(1), of j i] sorted_wrt_nth_less [OF assms(1), of i j] assms(2-4) that
    by (metis linorder_neqE_nat)
  have inj: "inj_on (nth xs) {..<i}"
    using idx sorted_wrt_nth_less [OF assms(1)] assms(2,3) by (intro inj_onI) (metis lessThan_iff linorder_neqE_nat order.strict_trans)
  have "{x \<in> set xs. R x (xs ! i)} = nth xs ` {..<i}"
  proof (intro set_eqI iffI)
    fix x assume "x \<in> {x \<in> set xs. R x (xs ! i)}"
    then obtain j where "j < length xs" "x = xs ! j" "R (xs ! j) (xs ! i)" by (auto simp: in_set_conv_nth)
    then show "x \<in> nth xs ` {..<i}" using idx by auto
  next
    fix x assume "x \<in> nth xs ` {..<i}"
    then obtain j where "j < i" "x = xs ! j" by auto
    then show "x \<in> {x \<in> set xs. R x (xs ! i)}" using idx [of j] assms(2) by simp
  qed
  then show ?thesis using card_image [OF inj] by simp
qed

lemma index_takeWhile:
  assumes "i < length xs" and "distinct (map fst xs)"
  shows "length (takeWhile (\<lambda>e. fst e \<noteq> fst (xs ! i)) xs) = i"
  using assms
proof (induction xs arbitrary: i)
  case (Cons x xs)
  then show ?case by (cases i) (auto simp: image_iff)
qed simp

end
