(* ===== verification/KV.thy ===== *)
theory KV
  imports Iterator
begin

section \<open>Strings (\<open>ssdb/t_kv.cpp\<close>)\<close>

text \<open>
  The operations of \<open>SSDBImpl\<close> on keys with one value. Results are those of the source: 1 for
  success, 0 for a refusal, -1 for an error of the engine. Log lines are left out.
\<close>

subsection \<open>Operations\<close>

text \<open>\<open>get\<close> returns 1 with the value, 0, or -1; these are the three values of \<open>get_status\<close>.\<close>

primrec get_ret :: "get_status \<Rightarrow> int" where
  "get_ret (Found v) = 1"
| "get_ret NotFound = 0"
| "get_ret Failed = -1"

primrec get_val :: "get_status \<Rightarrow> bytes" where
  "get_val (Found v) = v"
| "get_val NotFound = []"
| "get_val Failed = []"

definition ssdb_get :: "bytes \<Rightarrow> ssdb \<Rightarrow> get_status" where
  "ssdb_get key s = ldb_Get (ldb s) (encode_kv_key key)"

text \<open>The loop of \<open>multi_set\<close>. \<open>None\<close>: the value of the last key is read past the end of
  the vector. The flag is \<open>False\<close> when an empty key ends the operation.\<close>

fun multi_set_loop :: "char \<Rightarrow> bytes list \<Rightarrow> ssdb \<Rightarrow> (ssdb \<times> bool) option" where
  "multi_set_loop lt [] s = Some (s, True)"
| "multi_set_loop lt [key] s = (if key = [] then Some (s, False) else None)"
| "multi_set_loop lt (key # val # kvs) s =
     (if key = [] then Some (s, False)
      else let buf = encode_kv_key key;
               s = bl_Put buf val s;
               s = bl_add_log lt (binlog_cmd_char BC_KSET) buf s
           in multi_set_loop lt kvs s)"

definition multi_set :: "bytes list \<Rightarrow> nat \<Rightarrow> char \<Rightarrow> ssdb \<Rightarrow> (ssdb \<times> int) option" where
  "multi_set kvs offset lt s =
     (if offset > length kvs then None
      else case multi_set_loop lt (drop offset kvs) (bl_begin s) of
             None \<Rightarrow> None
           | Some (s, False) \<Rightarrow> Some (bl_rollback s, 0)
           | Some (s, True) \<Rightarrow>
               (let (s, r) = tx_finish (wrap32 (int ((length kvs - offset) div 2))) (-1) s
                in Some (bl_rollback s, r)))"

fun multi_del_loop :: "char \<Rightarrow> bytes list \<Rightarrow> ssdb \<Rightarrow> ssdb" where
  "multi_del_loop lt [] s = s"
| "multi_del_loop lt (key # keys) s =
     (let buf = encode_kv_key key;
          s = bl_Delete buf s;
          s = bl_add_log lt (binlog_cmd_char BC_KDEL) buf s
      in multi_del_loop lt keys s)"

definition multi_del :: "bytes list \<Rightarrow> nat \<Rightarrow> char \<Rightarrow> ssdb \<Rightarrow> (ssdb \<times> int) option" where
  "multi_del keys offset lt s =
     (if offset > length keys then None
      else Some (Transaction (\<lambda>s.
             tx_finish (wrap32 (int (length keys - offset))) (-1) (multi_del_loop lt (drop offset keys) s)) s))"

definition ssdb_set :: "bytes \<Rightarrow> bytes \<Rightarrow> char \<Rightarrow> ssdb \<Rightarrow> ssdb \<times> int" where
  "ssdb_set key val lt s =
     (if key = [] then (s, 0)
      else Transaction (\<lambda>s.
        let buf = encode_kv_key key;
            s = bl_Put buf val s;
            s = bl_add_log lt (binlog_cmd_char BC_KSET) buf s
        in tx_finish 1 (-1) s) s)"

definition setnx :: "bytes \<Rightarrow> bytes \<Rightarrow> char \<Rightarrow> ssdb \<Rightarrow> ssdb \<times> int" where
  "setnx key val lt s =
     (if key = [] then (s, 0)
      else Transaction (\<lambda>s.
        if get_ret (ssdb_get key s) \<noteq> 0 then (s, 0)
        else let buf = encode_kv_key key;
                 s = bl_Put buf val s;
                 s = bl_add_log lt (binlog_cmd_char BC_KSET) buf s
             in tx_finish 1 (-1) s) s)"

text \<open>\<open>getset\<close>: the result and the old value that \<open>get\<close> stored.\<close>

definition getset :: "bytes \<Rightarrow> bytes \<Rightarrow> char \<Rightarrow> ssdb \<Rightarrow> ssdb \<times> int \<times> get_status" where
  "getset key newval lt s =
     (if key = [] then (s, 0, NotFound)
      else Transaction (\<lambda>s.
        let found = ssdb_get key s;
            buf = encode_kv_key key;
            s = bl_Put buf newval s;
            s = bl_add_log lt (binlog_cmd_char BC_KSET) buf s
        in tx_finish (get_ret found, found) (-1, found) s) s)"

definition ssdb_del :: "bytes \<Rightarrow> char \<Rightarrow> ssdb \<Rightarrow> ssdb \<times> int" where
  "ssdb_del key lt s =
     Transaction (\<lambda>s.
        let buf = encode_kv_key key;
            s = bl_Delete buf s;
            s = bl_add_log lt (binlog_cmd_char BC_KDEL) buf s
        in tx_finish 1 (-1) s) s"

text \<open>\<open>incr\<close>: \<open>en\<close> is \<open>errno\<close> at the call, the second result what \<open>*new_val\<close> is set to.
  The addition wraps around, as the compiled code does.\<close>

definition incr_store :: "bytes \<Rightarrow> int \<Rightarrow> char \<Rightarrow> ssdb \<Rightarrow> ssdb \<times> int \<times> int option" where
  "incr_store key v lt s =
     (let buf = encode_kv_key key;
          s = bl_Put buf (str_int64 v) s;
          s = bl_add_log lt (binlog_cmd_char BC_KSET) buf s
      in tx_finish (1, Some v) (-1, Some v) s)"

definition ssdb_incr :: "nat \<Rightarrow> bytes \<Rightarrow> int \<Rightarrow> char \<Rightarrow> ssdb \<Rightarrow> ssdb \<times> int \<times> int option" where
  "ssdb_incr en key by lt s =
     Transaction (\<lambda>s.
        case ssdb_get key s of
          Failed \<Rightarrow> (s, -1, None)
        | NotFound \<Rightarrow> incr_store key by lt s
        | Found old \<Rightarrow>
            let (x, en') = str_to_int64 en old;
                v = wrap64 (x + by)
            in if en' \<noteq> 0 then (s, 0, Some v) else incr_store key v lt s) s"

definition ssdb_scan :: "bytes \<Rightarrow> bytes \<Rightarrow> u64 \<Rightarrow> ssdb \<Rightarrow> k_iterator" where
  "ssdb_scan start end limit s =
     (let key_start = encode_kv_key start;
          key_end = (if end = [] then [] else encode_kv_key end)
      in KIterator_new (ssdb_iterator (ldb s) key_start key_end limit))"

definition ssdb_rscan :: "bytes \<Rightarrow> bytes \<Rightarrow> u64 \<Rightarrow> ssdb \<Rightarrow> k_iterator" where
  "ssdb_rscan start end limit s =
     (let key_start = encode_kv_key start;
          key_start = (if start = [] then key_start @ [CHR 0xFF] else key_start);
          key_end = (if end \<noteq> [] then encode_kv_key end else [])
      in KIterator_new (ssdb_rev_iterator (ldb s) key_start key_end limit))"

text \<open>
  \<open>setbit\<close>, \<open>getbit\<close>. \<open>None\<close> is undefined behaviour on a negative offset: a negative
  shift or, in \<open>setbit\<close>, an access outside of the string. In \<open>getbit\<close> an offset up to -8 makes
  a negative \<open>len\<close>, which the unsigned comparison takes for a large one.
\<close>

definition byte_or :: "char \<Rightarrow> nat \<Rightarrow> char" where
  "byte_or c b = char_of (or (of_char c) (2 ^ b) :: int)"

definition byte_clear :: "char \<Rightarrow> nat \<Rightarrow> char" where
  "byte_clear c b = char_of (and (of_char c) (not (2 ^ b)) :: int)"

definition byte_and :: "char \<Rightarrow> nat \<Rightarrow> nat" where
  "byte_and c b = and (of_char c) (2 ^ b)"

definition str_resize :: "bytes \<Rightarrow> nat \<Rightarrow> bytes" where
  "str_resize s n = take n s @ replicate (n - length s) (CHR 0x00)"

definition setbit_str :: "bytes \<Rightarrow> nat \<Rightarrow> int \<Rightarrow> bytes \<times> nat" where
  "setbit_str val bitoffset on =
     (let len = bitoffset div 8;
          bit = bitoffset mod 8;
          val = (if len \<ge> length val then str_resize val (len + 1) else val);
          orig = byte_and (val ! len) bit
      in (if on = 1 then val[len := byte_or (val ! len) bit] else val[len := byte_clear (val ! len) bit],
          orig))"

definition setbit :: "bytes \<Rightarrow> int \<Rightarrow> int \<Rightarrow> char \<Rightarrow> ssdb \<Rightarrow> (ssdb \<times> int) option" where
  "setbit key bitoffset on lt s =
     (if key = [] then Some (s, 0)
      else if ssdb_get key s = Failed then Some (Transaction (\<lambda>s. (s, -1)) s)
      else if bitoffset < 0 then None
      else Some (Transaction (\<lambda>s.
        let (val, orig) = setbit_str (get_val (ssdb_get key s)) (nat bitoffset) on;
            buf = encode_kv_key key;
            s = bl_Put buf val s;
            s = bl_add_log lt (binlog_cmd_char BC_KSET) buf s
        in tx_finish (int orig) (-1) s) s))"

definition getbit :: "bytes \<Rightarrow> int \<Rightarrow> ssdb \<Rightarrow> int option" where
  "getbit key bitoffset s =
     (if ssdb_get key s = Failed then Some (-1)
      else if bitoffset \<le> -8 then Some 0
      else if bitoffset < 0 then (if get_val (ssdb_get key s) = [] then Some 0 else None)
      else let val = get_val (ssdb_get key s);
               len = nat bitoffset div 8;
               bit = nat bitoffset mod 8
           in if len \<ge> length val then Some 0
              else Some (if byte_and (val ! len) bit = 0 then 0 else 1))"

subsection \<open>Each operation is one transaction\<close>

lemma multi_set_loop_in_txn:
  "multi_set_loop lt kvs s = Some (s', b) \<Longrightarrow> in_txn m s0 s \<Longrightarrow> in_txn (m + length kvs) s0 s'"
proof (induction lt kvs s arbitrary: m rule: multi_set_loop.induct)
  case (3 lt key val kvs s)
  show ?case
  proof (cases "key = []")
    case True
    then show ?thesis using 3 by (auto intro: in_txn_mono)
  next
    case False
    let ?s = "bl_add_log lt (binlog_cmd_char BC_KSET) (encode_kv_key key) (bl_Put (encode_kv_key key) val s)"
    have "in_txn (m + 2) s0 ?s" using 3(3) by (auto intro!: tx_intros)
    with 3(1) [OF False refl refl refl, of "m + 2"] 3(2) False show ?thesis by (simp add: Let_def)
  qed
qed (auto split: if_splits intro: in_txn_mono)

lemma multi_del_loop_in_txn:
  "in_txn m s0 s \<Longrightarrow> in_txn (m + 2 * length keys) s0 (multi_del_loop lt keys s)"
proof (induction lt keys s arbitrary: m rule: multi_del_loop.induct)
  case (2 lt key keys s)
  let ?s = "bl_add_log lt (binlog_cmd_char BC_KDEL) (encode_kv_key key) (bl_Delete (encode_kv_key key) s)"
  have "in_txn (m + 2) s0 ?s" using 2(2) by (auto intro!: tx_intros)
  with 2(1) [OF refl refl refl, of "m + 2"] show ?case by (simp add: Let_def)
qed simp

lemma kv_ops_run:
  "tx_run 2 s (fst (ssdb_set key val lt s))"
  "tx_run 2 s (fst (setnx key val lt s))"
  "tx_run 2 s (fst (getset key val lt s))"
  "tx_run 2 s (fst (ssdb_del key lt s))"
  "tx_run 2 s (fst (ssdb_incr en key by lt s))"
  by (auto simp: ssdb_set_def setnx_def getset_def ssdb_del_def ssdb_incr_def incr_store_def Let_def
      split: get_status.split prod.split intro!: op_run_intros)

lemma setbit_run: "setbit key off on lt s = Some (s', r) \<Longrightarrow> tx_run 2 s s'"
  by (auto simp: setbit_def Let_def split: if_splits prod.split intro!: op_run_intros elim!: Transaction_run_pair)

lemma multi_set_run:
  assumes "multi_set kvs offset lt s = Some (s', r)"
  shows "tx_run (length kvs) s s'"
proof -
  from assms obtain t b where t: "multi_set_loop lt (drop offset kvs) (bl_begin s) = Some (t, b)"
    by (auto simp: multi_set_def split: if_splits option.splits)
  from multi_set_loop_in_txn [OF t in_txn_begin [of 0]]
  have t': "in_txn (length kvs) s t" by (rule in_txn_mono) simp
  have "s' = fst (Transaction (\<lambda>_. if b then tx_finish r (-1) t else (t, 0)) s)"
    using assms t by (auto simp: multi_set_def Transaction_def Let_def tx_finish_def split: if_splits prod.splits bool.splits)
  with t' show ?thesis by (auto intro!: Transaction_run tx_done_finish intro: tx_done_in)
qed

lemma multi_del_run: "multi_del keys offset lt s = Some (s', r) \<Longrightarrow> tx_run (2 * length keys) s s'"
  using multi_del_loop_in_txn [OF in_txn_begin [of 0 s], of "drop offset keys" lt]
  unfolding multi_del_def
  by (auto split: if_splits elim!: Transaction_run_pair intro!: tx_done_finish elim!: in_txn_mono)

subsection \<open>What each operation does\<close>

definition kv_view :: "ssdb \<Rightarrow> bytes \<rightharpoonup> bytes" where
  "kv_view s k = data_map s (encode_kv_key k)"

lemma ssdb_get_view:
  "\<not> rd_fail (ldb s) (encode_kv_key k) \<Longrightarrow>
   ssdb_get k s = (case kv_view s k of None \<Rightarrow> NotFound | Some v \<Rightarrow> Found v)"
  by (simp add: ssdb_get_def kv_view_def ldb_Get_data)

lemma ssdb_get_begin [simp]: "ssdb_get k (bl_begin s) = ssdb_get k s"
  by (simp add: ssdb_get_def store_simps)


lemma ssdb_set_data:
  assumes "kv_sorted (entries (ldb s))" and "\<not> wr_fail (ldb s)" and "key \<noteq> []"
  shows "data_map (fst (ssdb_set key val lt s)) = (data_map s)(encode_kv_key key \<mapsto> val)"
    and "snd (ssdb_set key val lt s) = 1"
  using assms by (simp_all add: ssdb_set_def Let_def store_simps)

lemma ssdb_del_data:
  assumes "kv_sorted (entries (ldb s))" and "\<not> wr_fail (ldb s)"
  shows "data_map (fst (ssdb_del key lt s)) = (data_map s)(encode_kv_key key := None)"
    and "snd (ssdb_del key lt s) = 1"
  using assms by (simp_all add: ssdb_del_def Let_def store_simps)

lemma setnx_data:
  assumes "kv_sorted (entries (ldb s))" and "\<not> wr_fail (ldb s)" and "key \<noteq> []"
    and "\<not> rd_fail (ldb s) (encode_kv_key key)"
  shows "data_map (fst (setnx key val lt s)) =
      (if kv_view s key = None then (data_map s)(encode_kv_key key \<mapsto> val) else data_map s)"
    and "snd (setnx key val lt s) = (if kv_view s key = None then 1 else 0)"
  using assms by (auto simp: setnx_def Let_def store_simps ssdb_get_view split: option.split)

lemma getset_data:
  assumes "kv_sorted (entries (ldb s))" and "\<not> wr_fail (ldb s)" and "key \<noteq> []"
  shows "data_map (fst (getset key val lt s)) = (data_map s)(encode_kv_key key \<mapsto> val)"
    and "snd (getset key val lt s) = (get_ret (ssdb_get key s), ssdb_get key s)"
  using assms by (simp_all add: getset_def Let_def store_simps)

lemma ssdb_incr_data:
  assumes "kv_sorted (entries (ldb s))" and "\<not> wr_fail (ldb s)"
    and "\<not> rd_fail (ldb s) (encode_kv_key key)"
  shows "kv_view s key = None \<Longrightarrow>
      data_map (fst (ssdb_incr en key by lt s)) = (data_map s)(encode_kv_key key \<mapsto> str_int64 by) \<and>
      snd (ssdb_incr en key by lt s) = (1, Some by)"
    and "kv_view s key = Some old \<Longrightarrow> str_to_int64 en old = (x, 0) \<Longrightarrow>
      data_map (fst (ssdb_incr en key by lt s)) = (data_map s)(encode_kv_key key \<mapsto> str_int64 (wrap64 (x + by))) \<and>
      snd (ssdb_incr en key by lt s) = (1, Some (wrap64 (x + by)))"
    and "kv_view s key = Some old \<Longrightarrow> str_to_int64 en old = (x, Suc e) \<Longrightarrow>
      data_map (fst (ssdb_incr en key by lt s)) = data_map s \<and> fst (snd (ssdb_incr en key by lt s)) = 0"
  using assms by (simp_all add: ssdb_incr_def incr_store_def Let_def store_simps ssdb_get_view)

lemma multi_set_loop_data:
  "\<forall>p \<in> set ps. fst p \<noteq> [] \<Longrightarrow>
   \<exists>s'. multi_set_loop lt (concat (map (\<lambda>(k, v). [k, v]) ps)) s = Some (s', True) \<and> ldb s' = ldb s \<and>
     tx_data s' = fold (\<lambda>(k, v) m. m(encode_kv_key k \<mapsto> v)) ps (tx_data s)"
proof (induction ps arbitrary: s)
  case (Cons p ps)
  obtain k v where p: "p = (k, v)" by fastforce
  let ?s = "bl_add_log lt (binlog_cmd_char BC_KSET) (encode_kv_key k) (bl_Put (encode_kv_key k) v s)"
  from Cons.IH [of ?s] Cons.prems show ?case by (simp add: p Let_def store_simps)
qed simp

lemma multi_set_loop_empty_key:
  "\<exists>p \<in> set ps. fst p = [] \<Longrightarrow>
   \<exists>s'. multi_set_loop lt (concat (map (\<lambda>(k, v). [k, v]) ps)) s = Some (s', False) \<and> ldb s' = ldb s"
proof (induction ps arbitrary: s)
  case (Cons p ps)
  obtain k v where p: "p = (k, v)" by fastforce
  let ?s = "bl_add_log lt (binlog_cmd_char BC_KSET) (encode_kv_key k) (bl_Put (encode_kv_key k) v s)"
  from Cons.IH [of ?s] Cons.prems show ?case by (auto simp: p Let_def store_simps)
qed simp

lemma multi_set_correct:
  assumes "io_ok s" and "length ps < 2 ^ 31"
  shows "\<exists>s' r. multi_set (concat (map (\<lambda>(k, v). [k, v]) ps)) 0 lt s = Some (s', r) \<and>
    (if \<exists>p \<in> set ps. fst p = [] then r = 0 \<and> data_map s' = data_map s
     else r = int (length ps) \<and> data_map s' = fold (\<lambda>(k, v) m. m(encode_kv_key k \<mapsto> v)) ps (data_map s))"
proof (cases "\<exists>p \<in> set ps. fst p = []")
  case True
  from multi_set_loop_empty_key [OF this, of lt "bl_begin s"] obtain s' where
    s': "multi_set_loop lt (concat (map (\<lambda>(k, v). [k, v]) ps)) (bl_begin s) = Some (s', False)" "ldb s' = ldb s"
    by (auto simp: store_simps)
  have "data_map s' = data_map s" by (rule data_map_ldb) (rule s')
  with True s' show ?thesis by (simp add: multi_set_def store_simps)
next
  case False
  then have "\<forall>p \<in> set ps. fst p \<noteq> []" by blast
  from multi_set_loop_data [OF this, of lt "bl_begin s"] obtain s' where
    s': "multi_set_loop lt (concat (map (\<lambda>(k, v). [k, v]) ps)) (bl_begin s) = Some (s', True)" "ldb s' = ldb s"
      "tx_data s' = fold (\<lambda>(k, v) m. m(encode_kv_key k \<mapsto> v)) ps (data_map s)"
    by (auto simp: store_simps)
  have len: "length (concat (map (\<lambda>(k, v). [k, v]) ps)) = 2 * length ps"
    by (induction ps) (auto simp: split_beta)
  have "kv_sorted (entries (ldb s'))" "\<not> wr_fail (ldb s')" using assms(1) s'(2) by (auto simp: io_ok_def)
  moreover have "wrap32 (int (length ps)) = int (length ps)" using assms(2) by (simp add: in_int32_def)
  ultimately show ?thesis using False s'
    by (simp add: multi_set_def len case_prod_beta store_simps)
qed

subsection \<open>Scans\<close>

text \<open>The string part of the store as an association list in key order.\<close>

definition kv_list :: "ssdb \<Rightarrow> (bytes \<times> bytes) list" where
  "kv_list s = sub_list [type_char KV] (entries (ldb s))"

lemma entry_KV_prefix: "entry_KV e \<longleftrightarrow> prefix [type_char KV] (fst e)"
  by (cases "fst e") (auto simp: entry_KV_def)

lemma encode_kv_key_prefix: "encode_kv_key k = [type_char KV] @ k"
  by (simp add: encode_kv_key_def)

lemma kiter_drain_prefix:
  assumes "k_return_val k" and "iter_ok (k_it k)"
  shows "kiter.drain n k = take n (map (\<lambda>e. (drop (length [type_char KV]) (fst e), snd e))
    (takeWhile (\<lambda>e. prefix [type_char KV] (fst e)) (iter_rest (k_it k))))"
  using kiter.drain_correct [of k n] assms by (simp add: entry_KV_prefix [abs_def] drop_Suc)

lemma ssdb_scan_it:
  "k_return_val (ssdb_scan start end limit s)"
  "k_it (ssdb_scan start end limit s) = ssdb_iterator (ldb s) ([type_char KV] @ start)
     (if end = [] then [] else [type_char KV] @ end) limit"
  "k_return_val (ssdb_rscan start end limit s)"
  "k_it (ssdb_rscan start end limit s) = ssdb_rev_iterator (ldb s)
     ([type_char KV] @ (if start = [] then [CHR 0xFF] else start)) (if end = [] then [] else [type_char KV] @ end) limit"
  by (simp_all add: ssdb_scan_def ssdb_rscan_def KIterator_new_def Let_def encode_kv_key_prefix)

lemma ssdb_scan_correct:
  assumes "kv_sorted (entries (ldb s))"
  shows "kiter.drain n (ssdb_scan start end limit s) =
    take n (take (unat limit) (filter (\<lambda>e. start < fst e \<and> (end = [] \<or> fst e \<le> end)) (kv_list s)))"
  unfolding kv_list_def scan_up [OF assms, symmetric] ssdb_scan_it(2) [symmetric]
  by (rule kiter_drain_prefix) (simp_all only: ssdb_scan_it ssdb_iterator_rest [OF assms])

lemma ssdb_rscan_correct:
  assumes "kv_sorted (entries (ldb s))"
  shows "kiter.drain n (ssdb_rscan start end limit s) =
    take n (take (unat limit) (rev (filter
      (\<lambda>e. fst e < (if start = [] then [CHR 0xFF] else start) \<and> (end = [] \<or> end \<le> fst e)) (kv_list s))))"
  unfolding kv_list_def scan_down [OF assms, symmetric] ssdb_scan_it(4) [symmetric]
  by (rule kiter_drain_prefix) (simp_all only: ssdb_scan_it ssdb_rev_iterator_rest [OF assms])

lemma map_of_kv_list: "map_of (kv_list s) = kv_view s"
  by (simp add: fun_eq_iff kv_list_def map_of_sub_list kv_view_def data_map_def db_map_def encode_kv_key_prefix
      is_log_key_def)

subsection \<open>Bits\<close>

lemma byte_and_0: "byte_and c b = 0 \<longleftrightarrow> \<not> bit (of_char c :: nat) b"
  by (simp add: byte_and_def bit_iff_and_push_bit_not_eq_0 push_bit_eq_mult)

lemma byte_and_0_int: "byte_and c b = 0 \<longleftrightarrow> \<not> bit (of_char c :: int) b"
  using byte_and_0 [of c b] by (metis bit_of_nat_iff_bit of_nat_of_char)

lemma bit_char_of_int: "n < 8 \<Longrightarrow> bit (of_char (char_of (x :: int)) :: int) n \<longleftrightarrow> bit x n"
  using bit_take_bit_iff [of 8 x n] by (simp add: take_bit_eq_mod)

lemma byte_or_bit: "n < 8 \<Longrightarrow> byte_and (byte_or c b) n = 0 \<longleftrightarrow> byte_and c n = 0 \<and> n \<noteq> b"
  unfolding byte_and_0_int byte_or_def bit_char_of_int by (auto simp: bit_or_iff bit_exp_iff)

lemma byte_clear_bit: "n < 8 \<Longrightarrow> byte_and (byte_clear c b) n = 0 \<longleftrightarrow> byte_and c n = 0 \<or> n = b"
  unfolding byte_and_0_int byte_clear_def bit_char_of_int by (simp add: bit_and_iff bit_not_iff bit_exp_iff)

lemma byte_and_zero [simp]: "byte_and (CHR 0x00) b = 0"
  by (simp add: byte_and_def)

text \<open>The bit at an offset of a string that is zero beyond its end.\<close>

definition str_bit :: "bytes \<Rightarrow> nat \<Rightarrow> bool" where
  "str_bit val n \<longleftrightarrow> n div 8 < length val \<and> byte_and (val ! (n div 8)) (n mod 8) \<noteq> 0"

lemma str_bit_resize: "length val \<le> n \<Longrightarrow> str_bit (str_resize val n) m = str_bit val m"
  by (auto simp: str_bit_def str_resize_def nth_append)

lemma str_bit_update:
  assumes "n div 8 < length val"
  shows "str_bit (val[n div 8 := byte_or (val ! (n div 8)) (n mod 8)]) m \<longleftrightarrow> m = n \<or> str_bit val m"
    and "str_bit (val[n div 8 := byte_clear (val ! (n div 8)) (n mod 8)]) m \<longleftrightarrow> m \<noteq> n \<and> str_bit val m"
proof -
  have "m = n \<longleftrightarrow> m div 8 = n div 8 \<and> m mod 8 = n mod 8" by (metis div_mult_mod_eq)
  with assms show "str_bit (val[n div 8 := byte_or (val ! (n div 8)) (n mod 8)]) m \<longleftrightarrow> m = n \<or> str_bit val m"
    "str_bit (val[n div 8 := byte_clear (val ! (n div 8)) (n mod 8)]) m \<longleftrightarrow> m \<noteq> n \<and> str_bit val m"
    by (auto simp: str_bit_def nth_list_update byte_or_bit byte_clear_bit simp del: neq0_conv)
qed

lemma getbit_str_bit:
  assumes "\<not> rd_fail (ldb s) (encode_kv_key key)"
  shows "getbit key (int n) s = Some (if str_bit (get_val (ssdb_get key s)) n then 1 else 0)"
  using assms by (auto simp: getbit_def ssdb_get_view str_bit_def Let_def split: option.split)

lemma setbit_str_correct:
  assumes "setbit_str val n on = (val', orig)"
  shows "str_bit val' m \<longleftrightarrow> (if m = n then on = 1 else str_bit val m)" and "orig = 0 \<longleftrightarrow> \<not> str_bit val n"
proof -
  define w where "w = (if n div 8 \<ge> length val then str_resize val (n div 8 + 1) else val)"
  have len: "n div 8 < length w" by (simp add: w_def str_resize_def)
  have w: "str_bit w m = str_bit val m" for m by (simp add: w_def str_bit_resize)
  have *: "val' = (if on = 1 then w[n div 8 := byte_or (w ! (n div 8)) (n mod 8)]
      else w[n div 8 := byte_clear (w ! (n div 8)) (n mod 8)])" "orig = byte_and (w ! (n div 8)) (n mod 8)"
    using assms unfolding setbit_str_def Let_def w_def by simp_all
  show "str_bit val' m \<longleftrightarrow> (if m = n then on = 1 else str_bit val m)"
    unfolding * using str_bit_update [OF len, of m] w [of m] by (cases "on = 1") auto
  show "orig = 0 \<longleftrightarrow> \<not> str_bit val n" using len w [of n] by (auto simp: * str_bit_def)
qed

lemma setbit_data:
  assumes "kv_sorted (entries (ldb s))" and "\<not> wr_fail (ldb s)" and "\<not> rd_fail (ldb s) (encode_kv_key key)"
    and "key \<noteq> []"
  shows "\<exists>s' r val. setbit key (int n) on lt s = Some (s', r) \<and>
      data_map s' = (data_map s)(encode_kv_key key \<mapsto> val) \<and> rd_fail (ldb s') = rd_fail (ldb s) \<and>
      (\<forall>m. str_bit val m \<longleftrightarrow> (if m = n then on = 1 else str_bit (get_val (ssdb_get key s)) m)) \<and>
      (r = 0 \<longleftrightarrow> \<not> str_bit (get_val (ssdb_get key s)) n)"
proof -
  have nf: "ssdb_get key s \<noteq> Failed" using assms(3) by (auto simp: ssdb_get_view split: option.split)
  obtain val orig where v: "setbit_str (get_val (ssdb_get key s)) n on = (val, orig)" by fastforce
  obtain s' r where sb: "setbit key (int n) on lt s = Some (s', r)"
    using nf assms(4) surj_pair by (fastforce simp: setbit_def)
  have "r = int orig" and d: "data_map s' = (data_map s)(encode_kv_key key \<mapsto> val)"
    using arg_cong [OF sb, of "\<lambda>x. snd (the x)"] arg_cong [OF sb, of "\<lambda>x. data_map (fst (the x))"] nf v assms(1,2,4)
    by (simp_all add: setbit_def Let_def store_simps)
  with setbit_str_correct [OF v] sb tx_run_frame [OF setbit_run [OF sb]] show ?thesis by auto
qed

subsection \<open>Properties\<close>

lemma ssdb_get_io: "io_ok s \<Longrightarrow> ssdb_get k s = (case kv_view s k of None \<Rightarrow> NotFound | Some v \<Rightarrow> Found v)"
  by (simp add: ssdb_get_view io_ok_def)

lemma ssdb_get_data:
  assumes "io_ok s" and "io_ok s'" and "data_map s' = (data_map s)(encode_kv_key key := v)"
  shows "ssdb_get k s' = (if k = key then (case v of None \<Rightarrow> NotFound | Some x \<Rightarrow> Found x) else ssdb_get k s)"
  using assms by (simp add: ssdb_get_io kv_view_def)

text \<open>C5. \<open>set\<close> succeeds, \<open>get\<close> then returns the new value under the key and what it returned before under
  every other key, and no key of another type changes.\<close>

theorem ssdb_set_get:
  assumes "io_ok s" and "key \<noteq> []"
  shows "\<exists>s'. ssdb_set key val lt s = (s', 1) \<and> io_ok s' \<and>
    (\<forall>k. ssdb_get k s' = (if k = key then Found val else ssdb_get k s)) \<and>
    (\<forall>x. key_type x \<noteq> type_char KV \<longrightarrow> data_map s' x = data_map s x)"
proof -
  obtain s' r where s': "ssdb_set key val lt s = (s', r)" by fastforce
  have io: "io_ok s'" using io_ok_run [OF assms(1) kv_ops_run(1), of key val lt] s' by simp
  have "data_map s' = (data_map s)(encode_kv_key key \<mapsto> val)" "r = 1"
    using ssdb_set_data [OF _ _ assms(2), of s val lt] s' assms(1) by (auto simp: io_ok_def)
  with s' io ssdb_get_data [OF assms(1) io, of key "Some val"] show ?thesis by auto
qed

theorem ssdb_set_get_witness:
  "\<exists>s'. ssdb_set ''a'' ''1'' (CHR 0x01) fresh_db = (s', 1) \<and> ssdb_get ''a'' s' = Found ''1'' \<and> ssdb_get ''b'' s' = NotFound"
  using ssdb_set_get [of fresh_db "''a''" "''1''" "CHR 0x01"] by (auto simp: ssdb_get_io kv_view_def)

text \<open>The disk works again.\<close>

definition mended :: "ssdb \<Rightarrow> ssdb" where
  "mended s = s\<lparr>ldb := (ldb s)\<lparr>wr_fail := False\<rparr>\<rparr>"

lemma failed_run_forgotten:
  assumes "tx_run n s s'" and "wr_fail (ldb s)"
  shows "Transaction f (mended s') = Transaction f (mended s)"
proof -
  have "bl_begin (mended s') = bl_begin (mended s)"
    using tx_run_wr_fail [OF assms] tx_run_frame [OF assms(1)] by (simp add: bl_begin_def mended_def)
  then show ?thesis by (simp add: Transaction_def)
qed

text \<open>C6. An operation whose write fails says so and leaves no trace. \<open>set\<close>, \<open>del\<close> and \<open>getset\<close> report -1, and so do \<open>setnx\<close> and \<open>incr\<close>
  unless they would not have written. When the disk works again, every transaction does what it would have done
  without the failed operation: no log number is used up, and nothing of the failed batch is written later.\<close>

theorem kv_write_failure:
  assumes "wr_fail (ldb s)" and "key \<noteq> []"
  shows "snd (ssdb_set key val lt s) = -1 \<and> snd (ssdb_del key lt s) = -1 \<and> fst (snd (getset key val lt s)) = -1 \<and>
    snd (setnx key val lt s) = (if ssdb_get key s = NotFound then -1 else 0) \<and>
    fst (snd (ssdb_incr en key by lt s)) = (case ssdb_get key s of Found v \<Rightarrow> if snd (str_to_int64 en v) = 0 then -1 else 0 | _ \<Rightarrow> -1) \<and>
    (\<forall>s' \<in> {fst (ssdb_set key val lt s), fst (ssdb_del key lt s), fst (getset key val lt s), fst (setnx key val lt s), fst (ssdb_incr en key by lt s)}.
       Transaction f (mended s') = Transaction f (mended s))"
proof (intro conjI)
  show "snd (ssdb_set key val lt s) = -1" "snd (ssdb_del key lt s) = -1" "fst (snd (getset key val lt s)) = -1"
    using assms by (simp_all add: ssdb_set_def ssdb_del_def getset_def Let_def store_simps)
  have g: "ssdb_get key (bl_begin s) = ssdb_get key s" by (simp add: ssdb_get_def store_simps)
  show "snd (setnx key val lt s) = (if ssdb_get key s = NotFound then -1 else 0)"
    using assms g by (cases "ssdb_get key s") (simp_all add: setnx_def Let_def store_simps)
  show "fst (snd (ssdb_incr en key by lt s)) = (case ssdb_get key s of Found v \<Rightarrow> if snd (str_to_int64 en v) = 0 then -1 else 0 | _ \<Rightarrow> -1)"
    using assms g by (cases "ssdb_get key s") (auto simp: ssdb_incr_def incr_store_def Let_def store_simps split: prod.split)
  show "\<forall>s' \<in> {fst (ssdb_set key val lt s), fst (ssdb_del key lt s), fst (getset key val lt s), fst (setnx key val lt s), fst (ssdb_incr en key by lt s)}.
       Transaction f (mended s') = Transaction f (mended s)"
    by (simp add: failed_run_forgotten [OF kv_ops_run(1) assms(1)] failed_run_forgotten [OF kv_ops_run(2) assms(1)]
        failed_run_forgotten [OF kv_ops_run(3) assms(1)] failed_run_forgotten [OF kv_ops_run(4) assms(1)] failed_run_forgotten [OF kv_ops_run(5) assms(1)])
qed

definition broken_db :: ssdb where
  "broken_db = fresh_db\<lparr>ldb := fresh_ldb\<lparr>wr_fail := True\<rparr>\<rparr>"

theorem kv_write_failure_witness:
  "snd (setnx ''a'' ''1'' (CHR 0x01) broken_db) = -1 \<and> fst (snd (ssdb_incr 0 ''a'' 1 (CHR 0x01) broken_db)) = -1 \<and>
   ssdb_set ''b'' ''2'' (CHR 0x01) (mended (fst (ssdb_set ''a'' ''1'' (CHR 0x01) broken_db))) = ssdb_set ''b'' ''2'' (CHR 0x01) (mended broken_db)"
proof -
  have b: "wr_fail (ldb broken_db)" "''a'' \<noteq> []" "ssdb_get ''a'' broken_db = NotFound"
    by (simp_all add: broken_db_def ssdb_get_def ldb_Get_def fresh_ldb_def)
  note w = kv_write_failure [OF b(1,2), of "''1''" "CHR 0x01" 0 1 "\<lambda>s. tx_finish 1 (-1) (bl_add_log (CHR 0x01) (binlog_cmd_char BC_KSET) (encode_kv_key ''b'') (bl_Put (encode_kv_key ''b'') ''2'' s))"]
  then show ?thesis using b(3) by (auto simp: ssdb_set_def [of "''b''"] Let_def)
qed

text \<open>\<open>incr\<close> on a stored number adds to it and stores the decimal of the sum.\<close>

theorem ssdb_incr_adds:
  assumes "io_ok s" and "ssdb_get key s = Found (str_int64 v)" and "in_int64 v" and "in_int64 (v + by)"
  shows "\<exists>s'. ssdb_incr en key by lt s = (s', 1, Some (v + by)) \<and>
    (\<forall>k. ssdb_get k s' = (if k = key then Found (str_int64 (v + by)) else ssdb_get k s))"
proof -
  obtain s' r where s': "ssdb_incr en key by lt s = (s', r)" by (meson surj_pair)
  have io: "io_ok s'" using io_ok_run [OF assms(1) kv_ops_run(5), of en key "by" lt] s' by simp
  have "kv_view s key = Some (str_int64 v)"
    using assms(1,2) by (auto simp: ssdb_get_io split: option.splits)
  from ssdb_incr_data(2) [OF _ _ _ this str_to_int64_str_int64 [OF assms(3)], of en "by" lt]
  have "data_map s' = (data_map s)(encode_kv_key key \<mapsto> str_int64 (v + by))" "r = (1, Some (v + by))"
    using assms(1,4) s' by (simp_all add: io_ok_def)
  with s' ssdb_get_data [OF assms(1) io, of key "Some (str_int64 (v + by))"] show ?thesis by auto
qed

theorem ssdb_incr_adds_witness:
  "\<exists>s s'. ssdb_get ''n'' s = Found (str_int64 41) \<and> ssdb_incr 0 ''n'' 1 (CHR 0x01) s = (s', 1, Some 42) \<and>
    ssdb_get ''n'' s' = Found (str_int64 42)"
proof -
  let ?s = "fst (ssdb_set ''n'' (str_int64 41) (CHR 0x01) fresh_db)"
  have io: "io_ok ?s" using io_ok_run [OF fresh_io kv_ops_run(1), of "''n''"] by blast
  have g: "ssdb_get ''n'' ?s = Found (str_int64 41)"
    using ssdb_set_data(1) [of fresh_db "''n''" "str_int64 41" "CHR 0x01"] by (simp add: ssdb_get_io [OF io] kv_view_def)
  have "in_int64 41" "in_int64 (41 + 1)" by (simp_all add: in_int64_def)
  from ssdb_incr_adds [OF io g this, of 0 "CHR 0x01"] g show ?thesis by auto
qed

text \<open>\<open>multi_set\<close> is all or nothing: an empty key anywhere in the list makes it return 0 with the
  data unchanged; otherwise all pairs are stored, later ones over earlier ones.\<close>

theorem multi_set_all_or_nothing:
  assumes "io_ok s" and "length ps < 2 ^ 31"
  shows "\<exists>s' r. multi_set (concat (map (\<lambda>(k, v). [k, v]) ps)) 0 lt s = Some (s', r) \<and>
    (if \<exists>p \<in> set ps. fst p = [] then r = 0 \<and> data_map s' = data_map s
     else r = int (length ps) \<and> data_map s' = fold (\<lambda>(k, v) m. m(encode_kv_key k \<mapsto> v)) ps (data_map s))"
  using assms by (rule multi_set_correct)

theorem multi_set_all_or_nothing_witness:
  "\<exists>s' r. multi_set [''a'', ''1'', [], ''2''] 0 (CHR 0x01) fresh_db = Some (s', r) \<and> r = 0 \<and> data_map s' = data_map fresh_db"
  using multi_set_all_or_nothing [of fresh_db "[(''a'', ''1''), ([], ''2'')]" "CHR 0x01"] by simp

text \<open>\<open>setbit\<close> on a non-negative offset sets or clears that bit and no other, extends the string with
  zero bits as needed, and its result tells whether the bit was set.\<close>

theorem setbit_getbit:
  assumes "io_ok s" and "key \<noteq> []"
  shows "\<exists>s' r. setbit key (int n) on lt s = Some (s', r) \<and>
    (\<forall>m. getbit key (int m) s' = (if m = n then Some (if on = 1 then 1 else 0) else getbit key (int m) s)) \<and>
    (r = 0 \<longleftrightarrow> getbit key (int n) s = Some 0)"
proof -
  from setbit_data [of s key n on lt] assms obtain s' r val where
    s': "setbit key (int n) on lt s = Some (s', r)" "data_map s' = (data_map s)(encode_kv_key key \<mapsto> val)"
      "\<forall>m. str_bit val m \<longleftrightarrow> (if m = n then on = 1 else str_bit (get_val (ssdb_get key s)) m)"
      "r = 0 \<longleftrightarrow> \<not> str_bit (get_val (ssdb_get key s)) n"
    by (auto simp: io_ok_def)
  have io: "io_ok s'" by (rule io_ok_run [OF assms(1) setbit_run [OF s'(1)]])
  have "ssdb_get key s' = Found val" using ssdb_get_data [OF assms(1) io s'(2), of key] by simp
  then have "getbit key (int m) s' = Some (if str_bit val m then 1 else 0)" for m
    using getbit_str_bit [of s' key m] io by (simp add: io_ok_def)
  moreover have "getbit key (int m) s = Some (if str_bit (get_val (ssdb_get key s)) m then 1 else 0)" for m
    using getbit_str_bit [of s key m] assms(1) by (simp add: io_ok_def)
  ultimately show ?thesis using s' by auto
qed

theorem setbit_getbit_witness:
  "\<exists>s' r. setbit ''b'' 10 1 (CHR 0x01) fresh_db = Some (s', r) \<and> getbit ''b'' 10 s' = Some 1"
  using setbit_getbit [of fresh_db "''b''" 10 1 "CHR 0x01"] by (auto dest: spec [of _ 10])

text \<open>A store with three strings, for the examples.\<close>

definition abc_db :: ssdb where
  "abc_db = fresh_db\<lparr>ldb := fresh_ldb\<lparr>entries :=
     [(encode_kv_key ''a'', ''1''), (encode_kv_key ''b'', ''2''), (encode_kv_key [CHR 0xFF, CHR ''c''], ''3'')]\<rparr>\<rparr>"

lemma abc_db_facts: "io_ok abc_db" "kv_list abc_db = [(''a'', ''1''), (''b'', ''2''), ([CHR 0xFF, CHR ''c''], ''3'')]"
  by (simp_all add: abc_db_def io_ok_def kv_list_def sub_list_def encode_kv_key_def less_char_def)

text \<open>\<open>scan\<close> yields the pairs with keys after \<open>start\<close> up to \<open>end\<close>, in key order, as many as the limit
  allows.\<close>

theorem ssdb_scan_range:
  assumes "io_ok s"
  shows "kiter.drain n (ssdb_scan start end limit s) =
    take n (take (unat limit) (filter (\<lambda>e. start < fst e \<and> (end = [] \<or> fst e \<le> end)) (kv_list s))) \<and>
    map_of (kv_list s) = kv_view s \<and> kv_sorted (kv_list s)"
  using assms ssdb_scan_correct [of s n start "end" limit] map_of_kv_list [of s]
    sub_list_sorted [of "entries (ldb s)" "[type_char KV]"]
  by (simp add: io_ok_def kv_list_def)

theorem ssdb_scan_range_witness: "kiter.drain 5 (ssdb_scan ''a'' [] 5 abc_db) = [(''b'', ''2''), ([CHR 0xFF, CHR ''c''], ''3'')]"
  using ssdb_scan_range [OF abc_db_facts(1), of 5 "''a''" "[]" 5] by (simp add: abc_db_facts less_char_def)

text \<open>\<open>rscan\<close> from the empty key starts below the key \<open>"\xff"\<close>: pairs whose key begins with that byte
  are never among the results.\<close>

theorem ssdb_rscan_range:
  assumes "io_ok s"
  shows "kiter.drain n (ssdb_rscan start end limit s) =
    take n (take (unat limit) (rev (filter
      (\<lambda>e. fst e < (if start = [] then [CHR 0xFF] else start) \<and> (end = [] \<or> end \<le> fst e)) (kv_list s))))"
  using assms by (intro ssdb_rscan_correct) (simp add: io_ok_def)

theorem ssdb_rscan_range_witness: "kiter.drain 5 (ssdb_rscan [] [] 5 abc_db) = [(''b'', ''2''), (''a'', ''1'')]"
  using ssdb_rscan_range [OF abc_db_facts(1), of 5 "[]" "[]" 5] by (simp add: abc_db_facts less_char_def)

end
