(* ===== verification/Collection.thy ===== *)
theory Collection
  imports KV
begin

section \<open>What hashes, sorted sets and queues share\<close>

text \<open>
  Hashes, sorted sets and queues keep their members under keys of their own and a counter
  under a size key. The code repeats the same lines for each; they are one definition here.
\<close>

subsection \<open>Shared code\<close>

text \<open>The value of a size key: eight bytes of a signed number; any other length counts as 0.\<close>

definition size_value :: "bytes \<Rightarrow> int" where
  "size_value val =
     (if length val \<noteq> 8 then 0
      else let ret = sint (le64_word val) in if ret < 0 then 0 else ret)"

primrec size_ret :: "get_status \<Rightarrow> int" where
  "size_ret NotFound = 0"
| "size_ret Failed = -1"
| "size_ret (Found val) = size_value val"

text \<open>The tail of the operations that may add or remove a member: the counter, then the commit.\<close>

definition sized_finish :: "(ssdb \<Rightarrow> ssdb \<times> int) \<Rightarrow> int \<Rightarrow> 'a \<Rightarrow> 'a \<Rightarrow> ssdb \<Rightarrow> ssdb \<times> 'a" where
  "sized_finish incr_size ret ok_ret err_ret s =
     (if ret > 0
      then let (s, r) = incr_size s in if r = -1 then (s, err_ret) else tx_finish ok_ret err_ret s
      else tx_finish ok_ret err_ret s)"

text \<open>The loop shared by \<open>get_hnames\<close>, \<open>get_znames\<close> and \<open>get_qnames\<close>.\<close>

function get_names :: "DataType \<Rightarrow> (bytes \<Rightarrow> bytes option) \<Rightarrow> iterator \<Rightarrow> bytes list" where
  "get_names t dec it =
     (case Iterator_next it of
        (it', False) \<Rightarrow> []
      | (it', True) \<Rightarrow>
          if key_type (Iterator_key it') \<noteq> type_char t then []
          else case dec (Iterator_key it') of
                 None \<Rightarrow> get_names t dec it'
               | Some n \<Rightarrow> n # get_names t dec it')"
  by pat_completeness auto
termination
  by (relation "measure (\<lambda>(t, dec, it). unat (it_limit it))") (auto dest: Iterator_next_limit [OF sym])

declare get_names.simps [simp del]

subsection \<open>Counted collections\<close>

definition size_entry :: "nat \<Rightarrow> bytes option" where
  "size_entry c = (if c = 0 then None else Some (le64 (of_nat c)))"

text \<open>A counter as it is stored reads back as the number, as long as it fits in 63 bits.\<close>

definition size_fits :: "nat \<Rightarrow> bool" where
  "size_fits c \<longleftrightarrow> c < 2 ^ 63"

lemma size_value_le64: "size_fits c \<Longrightarrow> size_value (le64 (of_nat c)) = int c"
  using sint_word_of_int64 [of "int c"] by (simp add: size_value_def Let_def size_fits_def in_int64_def)

lemma size_entry_value:
  "size_fits c \<Longrightarrow> size_ret (case size_entry c of None \<Rightarrow> NotFound | Some v \<Rightarrow> Found v) = int c"
  by (auto simp: size_entry_def size_value_le64)

lemma size_entry_incr:
  assumes "size_fits (nat x)" and "0 \<le> x"
  shows "size_entry (nat x) = (if wrap64 x = 0 then None else Some (le64 (word_of_int (wrap64 x))))"
proof -
  have "wrap64 x = x" using assms by (simp add: size_fits_def in_int64_def)
  moreover have "(of_nat (nat x) :: u64) = word_of_int x"
    using assms(2) by (cases x rule: int_cases4) simp_all
  ultimately show ?thesis using assms(2) by (auto simp: size_entry_def nat_eq_iff)
qed

text \<open>
  The contract: members and counters have keys of different types, and the keys of the
  members that can be stored are distinct. \<open>coll_put\<close> and \<open>coll_del\<close> are what adding and
  removing a member do to the store.
\<close>

locale counted_collection =
  fixes item_type :: DataType and size_type :: DataType
    and nm_ok :: "bytes \<Rightarrow> bool" and mem_ok :: "bytes \<Rightarrow> bool"
    and item_key :: "bytes \<Rightarrow> bytes \<Rightarrow> bytes" and size_key :: "bytes \<Rightarrow> bytes"
  assumes item_inject: "nm_ok n \<Longrightarrow> mem_ok k \<Longrightarrow> nm_ok n' \<Longrightarrow> mem_ok k' \<Longrightarrow>
      item_key n k = item_key n' k' \<longleftrightarrow> n = n' \<and> k = k'"
    and size_inject: "size_key n = size_key n' \<longleftrightarrow> n = n'"
    and item_key_type: "key_type (item_key n k) = type_char item_type"
    and size_key_type: "key_type (size_key n) = type_char size_type"
    and types_differ: "item_type \<noteq> size_type"
begin

definition view :: "(bytes \<rightharpoonup> bytes) \<Rightarrow> bytes \<Rightarrow> bytes \<rightharpoonup> bytes" where
  "view m n k = (if nm_ok n \<and> mem_ok k then m (item_key n k) else None)"

definition only_ok :: "(bytes \<rightharpoonup> bytes) \<Rightarrow> bool" where
  "only_ok m \<longleftrightarrow> (\<forall>x v. m x = Some v \<longrightarrow> key_type x = type_char item_type \<longrightarrow>
     (\<exists>n k. nm_ok n \<and> mem_ok k \<and> x = item_key n k))"

definition counted :: "(bytes \<rightharpoonup> bytes) \<Rightarrow> bool" where
  "counted m \<longleftrightarrow>
     (\<forall>n. nm_ok n \<longrightarrow> finite (dom (view m n)) \<and> m (size_key n) = size_entry (card (dom (view m n))))"

definition coll_inv :: "(bytes \<rightharpoonup> bytes) \<Rightarrow> bool" where
  "coll_inv m \<longleftrightarrow> only_ok m \<and> counted m"

definition coll_put :: "(bytes \<rightharpoonup> bytes) \<Rightarrow> bytes \<Rightarrow> bytes \<Rightarrow> bytes \<Rightarrow> bytes \<rightharpoonup> bytes" where
  "coll_put m n k v =
     (if view m n k = None
      then m(item_key n k \<mapsto> v, size_key n := size_entry (card (dom (view m n)) + 1))
      else m(item_key n k \<mapsto> v))"

definition coll_del :: "(bytes \<rightharpoonup> bytes) \<Rightarrow> bytes \<Rightarrow> bytes \<Rightarrow> bytes \<rightharpoonup> bytes" where
  "coll_del m n k =
     (if view m n k = None then m
      else m(item_key n k := None, size_key n := size_entry (card (dom (view m n)) - 1)))"

lemma item_not_size [simp]: "item_key n k \<noteq> size_key n'" "size_key n' \<noteq> item_key n k"
  using item_key_type size_key_type types_differ by (metis type_char_inject)+

lemma view_frame:
  "(\<And>k. key_type k \<in> {type_char item_type, type_char size_type} \<Longrightarrow> m k = m' k) \<Longrightarrow> view m = view m'"
  by (simp add: view_def fun_eq_iff item_key_type)

lemma coll_inv_frame:
  assumes "\<And>k. key_type k \<in> {type_char item_type, type_char size_type} \<Longrightarrow> m k = m' k"
  shows "coll_inv m = coll_inv m'"
  using assms view_frame [OF assms]
  by (auto simp: coll_inv_def only_ok_def counted_def size_key_type)

lemma coll_inv_empty: "coll_inv (\<lambda>_. None)"
  by (simp add: coll_inv_def only_ok_def counted_def view_def size_entry_def dom_def)

lemma view_put:
  assumes "nm_ok n" and "mem_ok k"
  shows "view (coll_put m n k v) n' = (if n' = n then (view m n)(k \<mapsto> v) else view m n')"
  using assms by (auto simp: view_def coll_put_def item_inject)

lemma view_del:
  assumes "nm_ok n" and "mem_ok k"
  shows "view (coll_del m n k) n' = (if n' = n then (view m n)(k := None) else view m n')"
  using assms by (auto simp: view_def coll_del_def item_inject fun_eq_iff)

lemma coll_inv_put:
  assumes "coll_inv m" and "nm_ok n" and "mem_ok k"
  shows "coll_inv (coll_put m n k v)"
proof -
  have ok: "only_ok m" and cnt: "counted m" using assms(1) by (auto simp: coll_inv_def)
  have "finite (dom (view (coll_put m n k v) n')) \<and>
      coll_put m n k v (size_key n') = size_entry (card (dom (view (coll_put m n k v) n')))" if "nm_ok n'" for n'
  proof -
    have c: "finite (dom (view m n'))" "m (size_key n') = size_entry (card (dom (view m n')))"
      using cnt that by (auto simp: counted_def)
    show ?thesis
      unfolding view_put [OF assms(2,3)] using c
      by (auto simp: coll_put_def size_inject card_insert_if domIff)
  qed
  moreover have "only_ok (coll_put m n k v)"
    using ok assms(2,3) size_key_type types_differ
    by (auto simp: only_ok_def coll_put_def split: if_splits)
  ultimately show ?thesis by (simp add: coll_inv_def counted_def)
qed

lemma coll_inv_del:
  assumes "coll_inv m" and "nm_ok n" and "mem_ok k"
  shows "coll_inv (coll_del m n k)"
proof -
  have ok: "only_ok m" and cnt: "counted m" using assms(1) by (auto simp: coll_inv_def)
  have "finite (dom (view (coll_del m n k) n')) \<and>
      coll_del m n k (size_key n') = size_entry (card (dom (view (coll_del m n k) n')))" if "nm_ok n'" for n'
  proof -
    have c: "finite (dom (view m n'))" "m (size_key n') = size_entry (card (dom (view m n')))"
      using cnt that by (auto simp: counted_def)
    show ?thesis
      unfolding view_del [OF assms(2,3)] using c
      by (auto simp: coll_del_def size_inject domIff card_Diff_singleton_if)
  qed
  moreover have "only_ok (coll_del m n k)"
    using ok size_key_type types_differ by (auto simp: only_ok_def coll_del_def split: if_splits)
  ultimately show ?thesis by (simp add: coll_inv_def counted_def)
qed

lemma counted_size:
  assumes "coll_inv m" and "nm_ok n" and "size_fits (card (dom (view m n)))"
  shows "size_ret (case m (size_key n) of None \<Rightarrow> NotFound | Some v \<Rightarrow> Found v) = int (card (dom (view m n)))"
  using assms size_entry_value by (simp add: coll_inv_def counted_def)

end

lemma sized_finish_done:
  assumes "in_txn n s0 s" and "in_txn (n + 1) s0 (fst (incr s))"
  shows "tx_done (n + 1) s0 (fst (sized_finish incr ret a b s))"
proof -
  have "in_txn (n + 1) s0 s" using assms(1) by (rule in_txn_mono) simp
  with assms(2) show ?thesis
    by (auto simp: sized_finish_def Let_def split: prod.split intro: tx_done_finish tx_done_in)
qed

lemma sized_finish_simps [store_simps]:
  assumes "\<And>s. snd (incr s) = 0"
  shows "fst (sized_finish incr ret a b s) = fst (bl_commit (if ret > 0 then fst (incr s) else s))"
    and "snd (sized_finish incr ret a b s) =
      (if wr_fail (ldb (if ret > 0 then fst (incr s) else s)) then b else a)"
  using assms [of s] by (auto simp: sized_finish_def Let_def store_simps split: prod.split)

lemma tx_done_2_3: "in_txn 2 s0 s \<Longrightarrow> tx_done 3 s0 s"
  by (rule tx_done_in, erule in_txn_mono) simp

lemma get_names_correct:
  assumes "iter_ok it" and "\<And>r. dec (type_char t # r) = Some r"
  shows "get_names t dec it = map fst (map (\<lambda>e. (drop (length [type_char t]) (fst e), snd e))
    (takeWhile (\<lambda>e. prefix [type_char t] (fst e)) (iter_rest it)))"
  using assms(1)
proof (induction "length (iter_rest it)" arbitrary: it rule: less_induct)
  case less
  obtain it' b where it': "Iterator_next it = (it', b)" by fastforce
  note c = Iterator_next_cases [OF less.prems it']
  show ?case
  proof (cases b)
    case True
    then have rest: "iter_rest it = (Iterator_key it', Iterator_val it') # iter_rest it'" by (rule c(3))
    have "type_char t \<noteq> key_type []" by (cases t) simp_all
    then have "key_type (Iterator_key it') = type_char t \<longleftrightarrow> prefix [type_char t] (Iterator_key it')"
      by (cases "Iterator_key it'") auto
    moreover have "dec (Iterator_key it') = Some (drop (length [type_char t]) (Iterator_key it'))"
      if "prefix [type_char t] (Iterator_key it')" using that assms(2) by (auto simp: prefix_def)
    ultimately show ?thesis
      using less.hyps [of it'] c(1) rest it' True by (simp add: get_names.simps [of t dec it])
  next
    case False
    then show ?thesis using c(2) it' by (simp add: get_names.simps [of t dec it])
  qed
qed

lemma get_names_scan:
  assumes "kv_sorted (entries db)" and "\<And>r. dec (type_char t # r) = Some r"
  shows "get_names t dec (ssdb_iterator db ([type_char t] @ start) (if end = [] then [] else [type_char t] @ end) limit) =
      take (unat limit) (filter (\<lambda>n. start < n \<and> (end = [] \<or> n \<le> end)) (map fst (sub_list [type_char t] (entries db))))"
    and "get_names t dec (ssdb_rev_iterator db ([type_char t] @ start) (if end = [] then [] else [type_char t] @ end) limit) =
      take (unat limit) (rev (filter (\<lambda>n. n < start \<and> (end = [] \<or> end \<le> n)) (map fst (sub_list [type_char t] (entries db)))))"
  unfolding get_names_correct [OF ssdb_iterator_rest(1) [OF assms(1)] assms(2)] scan_up [OF assms(1)]
    get_names_correct [OF ssdb_rev_iterator_rest(1) [OF assms(1)] assms(2)] scan_down [OF assms(1)]
  by (simp_all add: take_map rev_map filter_map_pair)

lemma tx_done_mono_in: "in_txn m s0 s \<Longrightarrow> m \<le> n \<Longrightarrow> tx_done n s0 s"
  by (rule tx_done_in, erule in_txn_mono)

end
