(* ===== verification/Hash.thy ===== *)
theory Hash
  imports Collection
begin

section \<open>Hashes (\<open>ssdb/t_hash.cpp\<close>)\<close>

text \<open>
  A hash is its fields, each under its own key, and a counter of them under the size key of
  its name, which is absent when the hash is empty. The invariant is that the counter of
  every name is the number of its fields.
\<close>

subsection \<open>Operations\<close>

definition hget :: "bytes \<Rightarrow> bytes \<Rightarrow> ssdb \<Rightarrow> get_status" where
  "hget name key s = ldb_Get (ldb s) (encode_hash_key name key)"

definition hsize :: "bytes \<Rightarrow> ssdb \<Rightarrow> int" where
  "hsize name s = size_ret (ldb_Get (ldb s) (encode_hsize_key name))"

definition hset_one :: "bytes \<Rightarrow> bytes \<Rightarrow> bytes \<Rightarrow> char \<Rightarrow> ssdb \<Rightarrow> ssdb \<times> int" where
  "hset_one name key val lt s =
     (if name = [] \<or> key = [] then (s, -1)
      else if length name > SSDB_KEY_LEN_MAX then (s, -1)
      else if length key > SSDB_KEY_LEN_MAX then (s, -1)
      else let hkey = encode_hash_key name key;
               dbval = hget name key s;
               put = bl_add_log lt (binlog_cmd_char BC_HSET) hkey (bl_Put hkey val s)
           in if get_ret dbval = 0 then (put, 1)
              else if get_val dbval \<noteq> val then (put, 0)
              else (s, 0))"

definition hdel_one :: "bytes \<Rightarrow> bytes \<Rightarrow> char \<Rightarrow> ssdb \<Rightarrow> ssdb \<times> int" where
  "hdel_one name key lt s =
     (if length name > SSDB_KEY_LEN_MAX then (s, -1)
      else if length key > SSDB_KEY_LEN_MAX then (s, -1)
      else if get_ret (hget name key s) = 0 then (s, 0)
      else let hkey = encode_hash_key name key;
               s = bl_Delete hkey s;
               s = bl_add_log lt (binlog_cmd_char BC_HDEL) hkey s
           in (s, 1))"

definition incr_hsize :: "bytes \<Rightarrow> int \<Rightarrow> ssdb \<Rightarrow> ssdb \<times> int" where
  "incr_hsize name incr s =
     (let size = wrap64 (hsize name s + incr);
          size_key = encode_hsize_key name
      in (if size = 0 then bl_Delete size_key s else bl_Put size_key (le64 (word_of_int size)) s, 0))"

definition hset :: "bytes \<Rightarrow> bytes \<Rightarrow> bytes \<Rightarrow> char \<Rightarrow> ssdb \<Rightarrow> ssdb \<times> int" where
  "hset name key val lt s =
     Transaction (\<lambda>s.
        let (s, ret) = hset_one name key val lt s
        in if ret \<ge> 0 then sized_finish (incr_hsize name ret) ret ret (-1) s else (s, ret)) s"

definition hdel :: "bytes \<Rightarrow> bytes \<Rightarrow> char \<Rightarrow> ssdb \<Rightarrow> ssdb \<times> int" where
  "hdel name key lt s =
     Transaction (\<lambda>s.
        let (s, ret) = hdel_one name key lt s
        in if ret \<ge> 0 then sized_finish (incr_hsize name (- ret)) ret ret (-1) s else (s, ret)) s"

definition hincr_store :: "bytes \<Rightarrow> bytes \<Rightarrow> int \<Rightarrow> char \<Rightarrow> ssdb \<Rightarrow> ssdb \<times> int \<times> int option" where
  "hincr_store name key v lt s =
     (let (s, ret) = hset_one name key (str_int64 v) lt s
      in if ret = -1 then (s, -1, Some v)
         else if ret \<ge> 0 then sized_finish (incr_hsize name ret) ret (1, Some v) (-1, Some v) s
         else (s, 1, Some v))"

definition hincr :: "nat \<Rightarrow> bytes \<Rightarrow> bytes \<Rightarrow> int \<Rightarrow> char \<Rightarrow> ssdb \<Rightarrow> ssdb \<times> int \<times> int option" where
  "hincr en name key by lt s =
     Transaction (\<lambda>s.
        case hget name key s of
          Failed \<Rightarrow> (s, -1, None)
        | NotFound \<Rightarrow> hincr_store name key by lt s
        | Found old \<Rightarrow>
            let (x, en') = str_to_int64 en old;
                v = wrap64 (x + by)
            in if en' \<noteq> 0 then (s, 0, Some v) else hincr_store name key v lt s) s"

definition hscan :: "bytes \<Rightarrow> bytes \<Rightarrow> bytes \<Rightarrow> u64 \<Rightarrow> ssdb \<Rightarrow> h_iterator" where
  "hscan name start end limit s =
     (let key_start = encode_hash_key name start;
          key_end = (if end \<noteq> [] then encode_hash_key name end else [])
      in HIterator_new (ssdb_iterator (ldb s) key_start key_end limit) name)"

definition hrscan :: "bytes \<Rightarrow> bytes \<Rightarrow> bytes \<Rightarrow> u64 \<Rightarrow> ssdb \<Rightarrow> h_iterator" where
  "hrscan name start end limit s =
     (let key_start = encode_hash_key name start;
          key_start = (if start = [] then key_start @ [CHR 0xFF] else key_start);
          key_end = (if end \<noteq> [] then encode_hash_key name end else [])
      in HIterator_new (ssdb_rev_iterator (ldb s) key_start key_end limit) name)"

lemma HIterator_next_limit:
  "HIterator_next h = (h', True) \<Longrightarrow> unat (it_limit (h_it h')) < unat (it_limit (h_it h))"
proof (induction h arbitrary: h' rule: HIterator_next.induct)
  case (1 h)
  obtain it b where it: "Iterator_next (h_it h) = (it, b)" by fastforce
  show ?case
  proof (cases b)
    case True
    then have it': "Iterator_next (h_it h) = (it, True)" using it by simp
    note lt = Iterator_next_limit [OF this]
    show ?thesis
    proof (cases "decode_hash_key (Iterator_key it)")
      case None
      with "1.prems" it' lt "1.IH" [OF it' [symmetric] _ refl refl refl _ None, of h'] show ?thesis
        by (auto simp: HIterator_next.simps [of h] Let_def split: if_splits)
    next
      case (Some p)
      with "1.prems" it' lt show ?thesis
        by (cases p) (auto simp: HIterator_next.simps [of h] Let_def split: if_splits)
    qed
  qed (use "1.prems" it in \<open>simp add: HIterator_next.simps [of h]\<close>)
qed

text \<open>\<open>hclear\<close>: the inner loop gives the number of deletions, \<open>None\<close> when one fails; the outer
  one goes on until a scan finds nothing, and \<open>None\<close> says that it never does.\<close>

function hclear_batch :: "bytes \<Rightarrow> h_iterator \<Rightarrow> ssdb \<Rightarrow> nat \<Rightarrow> ssdb \<times> nat option" where
  "hclear_batch name it s num =
     (case HIterator_next it of
        (it', False) \<Rightarrow> (s, Some num)
      | (it', True) \<Rightarrow>
          (case hdel name (h_key it') (binlog_type_char BT_SYNC) s of
             (s', ret) \<Rightarrow> if ret = -1 then (s', None) else hclear_batch name it' s' (Suc num)))"
  by pat_completeness auto
termination
  by (relation "measure (\<lambda>(name, it, s, num). unat (it_limit (h_it it)))") (auto dest: HIterator_next_limit [OF sym])

declare hclear_batch.simps [simp del]

partial_function (option) hclear_loop :: "bytes \<Rightarrow> nat \<Rightarrow> ssdb \<Rightarrow> (ssdb \<times> nat) option" where
  "hclear_loop name count s =
     (case hclear_batch name (hscan name [] [] 1000 s) s 0 of
        (s', None) \<Rightarrow> Some (s', 0)
      | (s', Some num) \<Rightarrow> if num = 0 then Some (s', count) else hclear_loop name (count + num) s')"

definition hclear :: "bytes \<Rightarrow> ssdb \<Rightarrow> (ssdb \<times> nat) option" where
  "hclear name s = hclear_loop name 0 s"

definition get_hnames :: "iterator \<Rightarrow> bytes list" where
  "get_hnames it = get_names HSIZE decode_hsize_key it"

definition hlist :: "bytes \<Rightarrow> bytes \<Rightarrow> u64 \<Rightarrow> ssdb \<Rightarrow> bytes list" where
  "hlist name_s name_e limit s =
     (let start = encode_hsize_key name_s;
          end = (if name_e \<noteq> [] then encode_hsize_key name_e else [])
      in get_hnames (ssdb_iterator (ldb s) start end limit))"

definition hrlist :: "bytes \<Rightarrow> bytes \<Rightarrow> u64 \<Rightarrow> ssdb \<Rightarrow> bytes list" where
  "hrlist name_s name_e limit s =
     (let start = encode_hsize_key name_s;
          start = (if name_s = [] then start @ [CHR 0xFF] else start);
          end = (if name_e \<noteq> [] then encode_hsize_key name_e else [])
      in get_hnames (ssdb_rev_iterator (ldb s) start end limit))"

subsection \<open>Each operation is one transaction\<close>

lemma in_txn_incr_hsize: "0 < n \<Longrightarrow> in_txn (n - 1) s0 s \<Longrightarrow> in_txn n s0 (fst (incr_hsize name i s))"
  by (auto simp: incr_hsize_def Let_def intro!: tx_intros)

lemma snd_incr_hsize [simp]: "snd (incr_hsize name i s) = 0"
  by (simp add: incr_hsize_def Let_def)

lemma hset_one_txn: "in_txn 2 s (fst (hset_one name key val lt (bl_begin s)))"
  by (auto simp: hset_one_def Let_def intro!: tx_intros)

lemma hdel_one_txn: "in_txn 2 s (fst (hdel_one name key lt (bl_begin s)))"
  by (auto simp: hdel_one_def Let_def intro!: tx_intros)

lemma hash_finish_done:
  "in_txn 2 s0 s \<Longrightarrow> tx_done 3 s0 (fst (sized_finish (incr_hsize name i) ret a b s))"
  using sized_finish_done [of 2 s0 s "incr_hsize name i"] in_txn_incr_hsize [of 3 s0 s] by simp

lemma hset_run: "tx_run 3 s (fst (hset name key val lt s))"
  using hset_one_txn [of s name key val lt]
  by (auto simp: hset_def hash_finish_done tx_done_2_3 split: prod.split intro!: Transaction_run)

lemma hdel_run: "tx_run 3 s (fst (hdel name key lt s))"
  using hdel_one_txn [of s name key lt]
  by (auto simp: hdel_def hash_finish_done tx_done_2_3 split: prod.split intro!: Transaction_run)

lemma hincr_store_done: "tx_done 3 s (fst (hincr_store name key v lt (bl_begin s)))"
  using hset_one_txn [of s name key "str_int64 v" lt]
  by (auto simp: hincr_store_def split: prod.split intro!: hash_finish_done intro: tx_done_2_3)

lemma hincr_run: "tx_run 3 s (fst (hincr en name key by lt s))"
  by (auto simp: hincr_def Let_def split: get_status.split prod.split
      intro!: Transaction_run hincr_store_done tx_done_begin)

subsection \<open>What each operation does\<close>

definition hname_ok :: "bytes \<Rightarrow> bool" where
  "hname_ok n \<longleftrightarrow> n \<noteq> [] \<and> name_ok n"

interpretation hcoll: counted_collection HASH HSIZE hname_ok hname_ok encode_hash_key encode_hsize_key
  by unfold_locales (auto simp: hname_ok_def)

text \<open>The store can be read and written where an operation on a hash does so.\<close>

definition hash_io_ok :: "ssdb \<Rightarrow> bytes \<Rightarrow> bytes \<Rightarrow> bool" where
  "hash_io_ok s name key \<longleftrightarrow> kv_sorted (entries (ldb s)) \<and> \<not> wr_fail (ldb s) \<and>
     \<not> rd_fail (ldb s) (encode_hash_key name key) \<and> \<not> rd_fail (ldb s) (encode_hsize_key name)"

lemma hget_view:
  assumes "\<not> rd_fail (ldb s) (encode_hash_key n k)" and "hname_ok n" and "hname_ok k"
  shows "hget n k s = (case hcoll.view (data_map s) n k of None \<Rightarrow> NotFound | Some v \<Rightarrow> Found v)"
  using assms by (simp add: hget_def ldb_Get_data hcoll.view_def)

lemma hget_tx [store_simps]:
  "hget n k (bl_begin s) = hget n k s" "hget n k (bl_Put a b s) = hget n k s"
  by (simp_all add: hget_def store_simps)

lemma hsize_tx [store_simps]:
  "hsize n (bl_begin s) = hsize n s" "hsize n (bl_Put a b s) = hsize n s"
  "hsize n (bl_Delete a s) = hsize n s" "hsize n (bl_add_log t c a s) = hsize n s"
  by (simp_all add: hsize_def store_simps)

lemma hsize_view:
  assumes "\<not> rd_fail (ldb s) (encode_hsize_key n)" and "hcoll.coll_inv (data_map s)" and "hname_ok n"
    and "size_fits (card (dom (hcoll.view (data_map s) n)))"
  shows "hsize n s = int (card (dom (hcoll.view (data_map s) n)))"
  using hcoll.counted_size [OF assms(2-4)] assms(1) by (simp add: hsize_def ldb_Get_data)

lemma tx_data_incr_hsize [store_simps]:
  "tx_data (fst (incr_hsize n i s)) =
     (tx_data s)(encode_hsize_key n := (if wrap64 (hsize n s + i) = 0 then None
        else Some (le64 (word_of_int (wrap64 (hsize n s + i))))))"
  "ldb (fst (incr_hsize n i s)) = ldb s" "data_map (fst (incr_hsize n i s)) = data_map s"
  by (simp_all add: incr_hsize_def Let_def store_simps)

lemma hset_data:
  assumes "hash_io_ok s name key" and "hname_ok name" and "hname_ok key" and "hcoll.coll_inv (data_map s)"
    and "size_fits (Suc (card (dom (hcoll.view (data_map s) name))))"
  shows "data_map (fst (hset name key val lt s)) = hcoll.coll_put (data_map s) name key val"
    and "snd (hset name key val lt s) = (if hcoll.view (data_map s) name key = None then 1 else 0)"
proof -
  let ?v = "hcoll.view (data_map s) name"
  have io: "kv_sorted (entries (ldb s))" "\<not> wr_fail (ldb s)" using assms(1) by (auto simp: hash_io_ok_def)
  have get: "hget name key s = (case ?v key of None \<Rightarrow> NotFound | Some v \<Rightarrow> Found v)"
    using hget_view assms by (simp add: hash_io_ok_def)
  have sz: "hsize name s = int (card (dom ?v))"
    using hsize_view assms by (simp add: hash_io_ok_def size_fits_def)
  have ok: "name \<noteq> []" "key \<noteq> []" "\<not> length name > SSDB_KEY_LEN_MAX" "\<not> length key > SSDB_KEY_LEN_MAX"
    using assms(2,3) by (auto simp: hname_ok_def name_ok_def)
  have inc: "size_entry (card (dom ?v) + 1) = (if wrap64 (int (card (dom ?v)) + 1) = 0 then None
      else Some (le64 (word_of_int (wrap64 (int (card (dom ?v)) + 1)))))"
    using size_entry_incr [of "int (card (dom ?v)) + 1"] assms(5) by (simp add: nat_add_distrib)
  have same: "data_map s (encode_hash_key name key) = ?v key" using assms(2,3) by (simp add: hcoll.view_def)
  show "data_map (fst (hset name key val lt s)) = hcoll.coll_put (data_map s) name key val"
    and "snd (hset name key val lt s) = (if ?v key = None then 1 else 0)"
    using io ok inc same
    by (auto simp: hset_def hset_one_def Let_def store_simps get sz hcoll.coll_put_def split: option.split)
qed

lemma hdel_data:
  assumes "hash_io_ok s name key" and "hname_ok name" and "hname_ok key" and "hcoll.coll_inv (data_map s)"
    and "size_fits (card (dom (hcoll.view (data_map s) name)))"
  shows "data_map (fst (hdel name key lt s)) = hcoll.coll_del (data_map s) name key"
    and "snd (hdel name key lt s) = (if hcoll.view (data_map s) name key = None then 0 else 1)"
proof -
  let ?v = "hcoll.view (data_map s) name" let ?c = "card (dom ?v)"
  have io: "kv_sorted (entries (ldb s))" "\<not> wr_fail (ldb s)" using assms(1) by (auto simp: hash_io_ok_def)
  have get: "hget name key s = (case ?v key of None \<Rightarrow> NotFound | Some v \<Rightarrow> Found v)"
    using hget_view assms by (simp add: hash_io_ok_def)
  have sz: "hsize name s = int ?c" using hsize_view assms by (simp add: hash_io_ok_def)
  have ok: "\<not> length name > SSDB_KEY_LEN_MAX" "\<not> length key > SSDB_KEY_LEN_MAX"
    using assms(2,3) by (auto simp: hname_ok_def name_ok_def)
  have "finite (dom ?v)" using assms(2,4) by (simp add: hcoll.coll_inv_def hcoll.counted_def)
  then have pos: "?v key \<noteq> None \<Longrightarrow> 0 < ?c" by (auto simp: card_gt_0_iff)
  have dec: "size_entry (?c - 1) = (if wrap64 (int ?c - 1) = 0 then None
      else Some (le64 (word_of_int (wrap64 (int ?c - 1)))))" if "0 < ?c"
    using size_entry_incr [of "int ?c - 1"] assms(5) that by (simp add: nat_diff_distrib size_fits_def)
  show "data_map (fst (hdel name key lt s)) = hcoll.coll_del (data_map s) name key"
    and "snd (hdel name key lt s) = (if ?v key = None then 0 else 1)"
    using io ok dec pos
    by (auto simp: hdel_def hdel_one_def Let_def store_simps get sz hcoll.coll_del_def split: option.split)
qed

subsection \<open>Scans\<close>

definition hash_list :: "ssdb \<Rightarrow> bytes \<Rightarrow> (bytes \<times> bytes) list" where
  "hash_list s name = sub_list (encode_hash_key name []) (entries (ldb s))"

lemma encode_hash_key_append: "encode_hash_key name k = encode_hash_key name [] @ k"
  by (simp add: encode_hash_key_def)

lemma map_of_hash_list:
  "hname_ok name \<Longrightarrow> hname_ok k \<Longrightarrow> map_of (hash_list s name) k = hcoll.view (data_map s) name k"
  using encode_not_log(3) [of name k]
  by (simp add: hash_list_def map_of_sub_list hcoll.view_def data_map_def db_map_def
      encode_hash_key_append [of name k, symmetric])

text \<open>Under the invariant every entry of the type is a field, so the iterator stops only at the
  end of its hash.\<close>

lemma hash_entry_field:
  assumes "hcoll.coll_inv (data_map s)" and "kv_sorted (entries (ldb s))" and "e \<in> set (entries (ldb s))"
    and "key_type (fst e) = type_char HASH"
  obtains n k where "hname_ok n" "hname_ok k" "fst e = encode_hash_key n k" "hcoll.view (data_map s) n k = Some (snd e)"
proof -
  have m: "data_map s (fst e) = Some (snd e)"
    using assms(2-4) by (intro data_map_entry) (simp_all add: is_log_key_iff)
  with assms(1,4) obtain n k where nk: "hname_ok n" "hname_ok k" "fst e = encode_hash_key n k"
    by (auto simp: hcoll.coll_inv_def hcoll.only_ok_def)
  from nk m have "hcoll.view (data_map s) n k = Some (snd e)" by (simp add: hcoll.view_def)
  with nk show thesis by (rule that)
qed

lemma hash_entry_prefix:
  assumes "hcoll.coll_inv (data_map s)" and "kv_sorted (entries (ldb s))" and "e \<in> set (entries (ldb s))"
    and "hname_ok name"
  shows "hash_key_wf e" and "entry_HASH name e \<longleftrightarrow> prefix (encode_hash_key name []) (fst e)"
    and "entry_HASH name e \<Longrightarrow>
      snd (the (decode_hash_key (fst e))) = drop (length (encode_hash_key name [])) (fst e) \<and>
      hname_ok (snd (the (decode_hash_key (fst e)))) \<and>
      hcoll.view (data_map s) name (snd (the (decode_hash_key (fst e)))) = Some (snd e)"
proof -
  have nm: "name_ok name" using assms(4) by (simp add: hname_ok_def)
  have "hash_key_wf e \<and> (entry_HASH name e \<longleftrightarrow> prefix (encode_hash_key name []) (fst e)) \<and>
     (entry_HASH name e \<longrightarrow> snd (the (decode_hash_key (fst e))) = drop (length (encode_hash_key name [])) (fst e) \<and>
      hname_ok (snd (the (decode_hash_key (fst e)))) \<and>
      hcoll.view (data_map s) name (snd (the (decode_hash_key (fst e)))) = Some (snd e))"
  proof (cases "key_type (fst e) = type_char HASH")
    case True
    then obtain n k where nk: "hname_ok n" "hname_ok k" "fst e = encode_hash_key n k"
        "hcoll.view (data_map s) n k = Some (snd e)"
      using hash_entry_field [OF assms(1-3)] by blast
    have dec: "decode_hash_key (fst e) = Some (n, k)"
      using nk by (simp add: codec_simps hname_ok_def)
    have "prefix (encode_hash_key name []) (fst e) \<longleftrightarrow> n = name"
    proof
      assume "prefix (encode_hash_key name []) (fst e)"
      then obtain c where "fst e = encode_hash_key name c"
        by (metis prefixE encode_hash_key_append)
      with dec nm show "n = name" by (simp add: codec_simps)
    next
      assume "n = name"
      then show "prefix (encode_hash_key name []) (fst e)"
        using nk(3) encode_hash_key_append [of n k] by simp
    qed
    with nk dec True encode_hash_key_append [of name k] show ?thesis
      by (auto simp: hash_key_wf_def entry_HASH_def)
  next
    case False
    then have "\<not> prefix (encode_hash_key name []) (fst e)"
      by (auto simp: encode_hash_key_def prefix_def)
    with False show ?thesis by (simp add: hash_key_wf_def entry_HASH_def)
  qed
  then show "hash_key_wf e" and "entry_HASH name e \<longleftrightarrow> prefix (encode_hash_key name []) (fst e)"
    and "entry_HASH name e \<Longrightarrow> snd (the (decode_hash_key (fst e))) = drop (length (encode_hash_key name [])) (fst e) \<and>
      hname_ok (snd (the (decode_hash_key (fst e)))) \<and>
      hcoll.view (data_map s) name (snd (the (decode_hash_key (fst e)))) = Some (snd e)"
    by blast+
qed

lemma hash_fields_prefix:
  assumes "hcoll.coll_inv (data_map s)" and "kv_sorted (entries (ldb s))" and "hname_ok name"
    and "set es \<subseteq> set (entries (ldb s))"
  shows "\<forall>e \<in> set es. hash_key_wf e"
    and "map (\<lambda>e. (snd (the (decode_hash_key (fst e))), snd e)) (takeWhile (entry_HASH name) es) =
      map (\<lambda>e. (drop (length (encode_hash_key name [])) (fst e), snd e))
        (takeWhile (\<lambda>e. prefix (encode_hash_key name []) (fst e)) es)"
proof -
  note p = hash_entry_prefix [OF assms(1,2) _ assms(3)]
  show "\<forall>e \<in> set es. hash_key_wf e" using p(1) assms(4) by blast
  have tw: "takeWhile (\<lambda>e. prefix (encode_hash_key name []) (fst e)) es = takeWhile (entry_HASH name) es"
    by (rule takeWhile_cong) (use p(2) assms(4) in auto)
  show "map (\<lambda>e. (snd (the (decode_hash_key (fst e))), snd e)) (takeWhile (entry_HASH name) es) =
      map (\<lambda>e. (drop (length (encode_hash_key name [])) (fst e), snd e))
        (takeWhile (\<lambda>e. prefix (encode_hash_key name []) (fst e)) es)"
    unfolding tw using p(3) assms(4) by (auto dest!: set_takeWhileD)
qed

lemma hscan_it:
  "h_return_val (hscan name start end limit s)" "h_name (hscan name start end limit s) = name"
  "h_it (hscan name start end limit s) = ssdb_iterator (ldb s) (encode_hash_key name [] @ start)
     (if end = [] then [] else encode_hash_key name [] @ end) limit"
  "h_return_val (hrscan name start end limit s)" "h_name (hrscan name start end limit s) = name"
  "h_it (hrscan name start end limit s) = ssdb_rev_iterator (ldb s)
     (encode_hash_key name [] @ (if start = [] then [CHR 0xFF] else start))
     (if end = [] then [] else encode_hash_key name [] @ end) limit"
  by (simp_all add: hscan_def hrscan_def HIterator_new_def Let_def encode_hash_key_def)

lemma hiter_drain_prefix:
  assumes "hcoll.coll_inv (data_map s)" and "kv_sorted (entries (ldb s))" and "hname_ok (h_name h)"
    and "h_return_val h" and "iter_ok (h_it h)" and "set (iter_rest (h_it h)) \<subseteq> set (entries (ldb s))"
  shows "hiter.drain n h = take n (map (\<lambda>e. (drop (length (encode_hash_key (h_name h) [])) (fst e), snd e))
    (takeWhile (\<lambda>e. prefix (encode_hash_key (h_name h) []) (fst e)) (iter_rest (h_it h))))"
  using hash_fields_prefix [OF assms(1-3,6)] hiter.drain_correct [OF assms(4,5), of n] by simp

lemma hscan_correct:
  assumes "hcoll.coll_inv (data_map s)" and "kv_sorted (entries (ldb s))" and "hname_ok name"
  shows "hiter.drain n (hscan name start end limit s) =
    take n (take (unat limit) (filter (\<lambda>e. start < fst e \<and> (end = [] \<or> fst e \<le> end)) (hash_list s name)))"
  unfolding hash_list_def scan_up [OF assms(2), symmetric] hscan_it(3) [symmetric]
  using hiter_drain_prefix [OF assms(1,2), of "hscan name start end limit s" n] assms(3)
    iter_rest_subset(1) [OF assms(2)] ssdb_iterator_rest(1) [OF assms(2)]
  by (simp only: hscan_it)

lemma hrscan_correct:
  assumes "hcoll.coll_inv (data_map s)" and "kv_sorted (entries (ldb s))" and "hname_ok name"
  shows "hiter.drain n (hrscan name start end limit s) =
    take n (take (unat limit) (rev (filter
      (\<lambda>e. fst e < (if start = [] then [CHR 0xFF] else start) \<and> (end = [] \<or> end \<le> fst e)) (hash_list s name))))"
  unfolding hash_list_def scan_down [OF assms(2), symmetric] hscan_it(6) [symmetric]
  using hiter_drain_prefix [OF assms(1,2), of "hrscan name start end limit s" n] assms(3)
    iter_rest_subset(2) [OF assms(2)] ssdb_rev_iterator_rest(1) [OF assms(2)]
  by (simp only: hscan_it)

subsection \<open>Lists of names\<close>

definition hash_names :: "ssdb \<Rightarrow> bytes list" where
  "hash_names s = map fst (sub_list [type_char HSIZE] (entries (ldb s)))"

lemma hlist_correct:
  assumes "kv_sorted (entries (ldb s))"
  shows "hlist name_s name_e limit s =
      take (unat limit) (filter (\<lambda>n. name_s < n \<and> (name_e = [] \<or> n \<le> name_e)) (hash_names s))"
    and "hrlist name_s name_e limit s =
      take (unat limit) (rev (filter (\<lambda>n. n < (if name_s = [] then [CHR 0xFF] else name_s) \<and> (name_e = [] \<or> name_e \<le> n))
        (hash_names s)))"
proof -
  have dec: "decode_hsize_key (type_char HSIZE # r) = Some r" for r by (simp add: decode_hsize_key_def)
  show "hlist name_s name_e limit s =
      take (unat limit) (filter (\<lambda>n. name_s < n \<and> (name_e = [] \<or> n \<le> name_e)) (hash_names s))"
    using get_names_scan(1) [OF assms dec, of name_s name_e limit]
    by (cases "name_e = []") (simp_all add: hlist_def get_hnames_def encode_hsize_key_def Let_def hash_names_def)
  show "hrlist name_s name_e limit s =
      take (unat limit) (rev (filter (\<lambda>n. n < (if name_s = [] then [CHR 0xFF] else name_s) \<and> (name_e = [] \<or> name_e \<le> n))
        (hash_names s)))"
    using get_names_scan(2) [OF assms dec, of "if name_s = [] then [CHR 0xFF] else name_s" name_e limit]
    by (cases "name_e = []"; cases "name_s = []")
       (simp_all add: hrlist_def get_hnames_def encode_hsize_key_def Let_def hash_names_def)
qed

lemma hash_names_iff:
  assumes "hcoll.coll_inv (data_map s)" and "hname_ok n"
  shows "n \<in> set (hash_names s) \<longleftrightarrow> (\<exists>k. hcoll.view (data_map s) n k \<noteq> None)"
proof -
  have "n \<in> set (hash_names s) \<longleftrightarrow> map_of (sub_list [type_char HSIZE] (entries (ldb s))) n \<noteq> None"
    by (simp add: hash_names_def map_of_eq_None_iff)
  also have "\<dots> \<longleftrightarrow> data_map s (encode_hsize_key n) \<noteq> None"
    by (simp add: map_of_sub_list data_map_def db_map_def encode_hsize_key_def is_log_key_def)
  also have "\<dots> \<longleftrightarrow> card (dom (hcoll.view (data_map s) n)) \<noteq> 0"
    using assms by (simp add: hcoll.coll_inv_def hcoll.counted_def size_entry_def)
  also have "\<dots> \<longleftrightarrow> (\<exists>k. hcoll.view (data_map s) n k \<noteq> None)"
    using assms by (auto simp: hcoll.coll_inv_def hcoll.counted_def dom_def)
  finally show ?thesis .
qed

subsection \<open>Clearing a hash\<close>

lemma io_ok_hash: "io_ok s \<Longrightarrow> hash_io_ok s name key"
  by (simp add: io_ok_def hash_io_ok_def)

definition hash_ready :: "ssdb \<Rightarrow> bytes \<Rightarrow> bool" where
  "hash_ready s name \<longleftrightarrow> io_ok s \<and> hcoll.coll_inv (data_map s) \<and> hname_ok name \<and>
     size_fits (card (dom (hcoll.view (data_map s) name)))"

lemma hdel_ready:
  assumes "hash_ready s name" and "hname_ok k"
  shows "hash_ready (fst (hdel name k lt s)) name"
    and "data_map (fst (hdel name k lt s)) = hcoll.coll_del (data_map s) name k"
    and "snd (hdel name k lt s) \<noteq> -1"
proof -
  have h: "io_ok s" "hcoll.coll_inv (data_map s)" "hname_ok name"
      "size_fits (card (dom (hcoll.view (data_map s) name)))"
    using assms(1) by (auto simp: hash_ready_def)
  note d = hdel_data [OF io_ok_hash [OF h(1)] h(3) assms(2) h(2,4), of lt]
  show e: "data_map (fst (hdel name k lt s)) = hcoll.coll_del (data_map s) name k" by (rule d(1))
  show "snd (hdel name k lt s) \<noteq> -1" using d(2) by simp
  have "finite (dom (hcoll.view (data_map s) name))" using h by (simp add: hcoll.coll_inv_def hcoll.counted_def)
  then have "card (dom (hcoll.view (hcoll.coll_del (data_map s) name k) name)) \<le> card (dom (hcoll.view (data_map s) name))"
    unfolding hcoll.view_del [OF h(3) assms(2)] by (auto intro: card_mono)
  with h assms(2) show "hash_ready (fst (hdel name k lt s)) name"
    unfolding hash_ready_def e
    by (auto simp: size_fits_def intro: io_ok_run [OF _ hdel_run] hcoll.coll_inv_del)
qed

lemma hclear_batch_correct:
  assumes "hash_ready s name" and "h_return_val it" and "h_name it = name" and "iter_ok (h_it it)"
    and "\<forall>e \<in> set (iter_rest (h_it it)). hash_key_wf e"
    and "F = map (\<lambda>e. snd (the (decode_hash_key (fst e)))) (takeWhile (entry_HASH name) (iter_rest (h_it it)))"
    and "\<forall>k \<in> set F. hname_ok k"
  shows "\<exists>s'. hclear_batch name it s num = (s', Some (num + length F)) \<and> hash_ready s' name \<and>
    data_map s' = fold (\<lambda>k m. hcoll.coll_del m name k) F (data_map s)"
  using assms
proof (induction F arbitrary: it s num)
  case Nil
  have "snd (HIterator_next it) = False"
  proof (cases "iter_rest (h_it it)")
    case Nil
    then show ?thesis using hiter.stop Nil.prems by blast
  next
    case (Cons e es)
    then have "\<not> entry_HASH (h_name it) e" using Nil.prems by (auto split: if_splits)
    with Cons show ?thesis using hiter.reject [OF Nil.prems(2,4) Cons] Nil.prems(5) by simp
  qed
  with Nil.prems show ?case by (auto simp: hclear_batch.simps [of name it s num] split: prod.split)
next
  case (Cons k F)
  obtain e es where rest: "iter_rest (h_it it) = e # es" and e: "entry_HASH name e"
    using Cons.prems(6) by (cases "iter_rest (h_it it)") (auto split: if_splits)
  then have k: "k = snd (the (decode_hash_key (fst e)))"
    and F: "F = map (\<lambda>e. snd (the (decode_hash_key (fst e)))) (takeWhile (entry_HASH name) es)"
    using Cons.prems(6) by auto
  from HIterator_next_step [OF Cons.prems(4) rest] Cons.prems(2,3,5) rest e
  obtain it' where it': "HIterator_next it = (it', True)" "h_return_val it'" "h_name it' = name"
      "iter_ok (h_it it')" "iter_rest (h_it it') = es" "h_key it' = k"
    by (auto simp: k)
  have kok: "hname_ok k" "\<forall>k \<in> set F. hname_ok k" using Cons.prems(7) by simp_all
  let ?d = "hdel name k (binlog_type_char BT_SYNC) s"
  note d = hdel_ready [OF Cons.prems(1), of k "binlog_type_char BT_SYNC"]
  have "hclear_batch name it s num = hclear_batch name it' (fst ?d) (Suc num)"
    using it'(1,6) d Cons.prems(7) by (auto simp: hclear_batch.simps [of name it s num] split: prod.split)
  moreover have "\<exists>s'. hclear_batch name it' (fst ?d) (Suc num) = (s', Some (Suc num + length F)) \<and> hash_ready s' name \<and>
      data_map s' = fold (\<lambda>k m. hcoll.coll_del m name k) F (data_map (fst ?d))"
    using Cons.prems(5) rest it'(5) by (intro Cons.IH [OF d(1) [OF kok(1)] it'(2-4) _ _ kok(2)]) (simp_all add: F)
  ultimately show ?case using d(2) [OF kok(1)] by simp
qed


lemma fold_coll_del:
  assumes "hname_ok name" and "\<forall>k \<in> set F. hname_ok k"
  shows "hcoll.view (fold (\<lambda>k m. hcoll.coll_del m name k) F m) n =
      (if n = name then (hcoll.view m name) |` (- set F) else hcoll.view m n)"
    and "key_type x \<notin> {type_char HASH, type_char HSIZE} \<Longrightarrow> fold (\<lambda>k m. hcoll.coll_del m name k) F m x = m x"
  using assms
proof (induction F arbitrary: m)
  case (Cons k F)
  {
    case 1
    have "((hcoll.view m name)(k := None)) |` (- set F) = hcoll.view m name |` (- set (k # F))"
      by (auto simp: restrict_map_def)
    with 1 show ?case by (simp add: Cons.IH hcoll.view_del)
  next
    case 2
    then have "hcoll.coll_del m name k x = m x" by (auto simp: hcoll.coll_del_def)
    with 2 Cons.IH(2) show ?case by simp
  }
qed (auto simp: restrict_map_def)

text \<open>The fields a scan of \<open>hclear\<close> finds: the first thousand, none only if there is none.\<close>

lemma hclear_scan:
  assumes "hash_ready s name"
  defines "F \<equiv> map (\<lambda>e. snd (the (decode_hash_key (fst e))))
    (takeWhile (entry_HASH name) (iter_rest (h_it (hscan name [] [] 1000 s))))"
  shows "distinct F" and "set F \<subseteq> dom (hcoll.view (data_map s) name)"
    and "F = [] \<longleftrightarrow> dom (hcoll.view (data_map s) name) = {}"
proof -
  have r: "kv_sorted (entries (ldb s))" "hcoll.coll_inv (data_map s)" "hname_ok name"
    using assms(1) by (auto simp: hash_ready_def io_ok_def)
  let ?L = "filter (\<lambda>e. [] < fst e \<and> ([] = ([] :: bytes) \<or> fst e \<le> [])) (hash_list s name)"
  let ?V = "hcoll.view (data_map s) name"
  have "map (\<lambda>e. (snd (the (decode_hash_key (fst e))), snd e))
      (takeWhile (entry_HASH name) (iter_rest (h_it (hscan name [] [] 1000 s)))) = take 1000 ?L"
    using hash_fields_prefix(2) [OF r(2,1,3), of "iter_rest (h_it (hscan name [] [] 1000 s))"]
      iter_rest_subset(1) [OF r(1)] scan_up [OF r(1), of "encode_hash_key name []" "[]" "[]" 1000]
    by (simp only: hscan_it hash_list_def) simp
  from arg_cong [OF this, of "map fst"] have F: "F = map fst (take 1000 ?L)"
    by (simp add: F_def comp_def)
  have sorted: "kv_sorted ?L" unfolding hash_list_def by (intro kv_sorted_filter sub_list_sorted r(1))
  then have "distinct (map fst ?L)" by (auto simp: kv_sorted_def strict_sorted_iff)
  then show "distinct F" unfolding F take_map [symmetric] by (rule distinct_take)
  have dom: "map_of (hash_list s name) k = ?V k" if "hname_ok k" for k
    using map_of_hash_list [OF r(3) that] .
  have ok: "hname_ok (fst e)" if "e \<in> set (hash_list s name)" for e
  proof -
    from that obtain e' where e': "e' \<in> set (entries (ldb s))" "prefix (encode_hash_key name []) (fst e')"
        "e = (drop (length (encode_hash_key name [])) (fst e'), snd e')"
      by (auto simp: hash_list_def sub_list_def)
    with hash_entry_prefix [OF r(2,1) e'(1) r(3)] show ?thesis by (metis fst_conv)
  qed
  show sub: "set F \<subseteq> dom ?V"
  proof
    fix k assume "k \<in> set F"
    then obtain v where "(k, v) \<in> set (hash_list s name)" unfolding F by (auto dest!: in_set_takeD)
    with ok [of "(k, v)"] dom [of k] show "k \<in> dom ?V"
      by (metis domIff fst_conv map_of_eq_None_iff image_eqI)
  qed
  have "F \<noteq> []" if "dom ?V \<noteq> {}"
  proof -
    from that obtain k v where k: "?V k = Some v" by (metis domIff ex_in_conv not_None_eq)
    then have "hname_ok k" by (auto simp: hcoll.view_def split: if_splits)
    with k dom [of k] have "(k, v) \<in> set ?L" by (auto simp: hname_ok_def dest: map_of_SomeD)
    then have "?L \<noteq> []" by (metis empty_iff empty_set)
    then show ?thesis unfolding F by simp
  qed
  with sub show "F = [] \<longleftrightarrow> dom ?V = {}" by (cases "dom ?V = {}") auto
qed

lemma hclear_round:
  assumes "hash_ready s name"
  shows "\<exists>s' F. hclear_batch name (hscan name [] [] 1000 s) s 0 = (s', Some (length F)) \<and> hash_ready s' name \<and>
    data_map s' = fold (\<lambda>k m. hcoll.coll_del m name k) F (data_map s) \<and> distinct F \<and>
    set F \<subseteq> dom (hcoll.view (data_map s) name) \<and> (\<forall>k \<in> set F. hname_ok k) \<and>
    (F = [] \<longleftrightarrow> dom (hcoll.view (data_map s) name) = {})"
proof -
  let ?it = "hscan name [] [] 1000 s"
  let ?F = "map (\<lambda>e. snd (the (decode_hash_key (fst e)))) (takeWhile (entry_HASH name) (iter_rest (h_it ?it)))"
  have r: "kv_sorted (entries (ldb s))" "hcoll.coll_inv (data_map s)" "hname_ok name"
    using assms(1) by (auto simp: hash_ready_def io_ok_def)
  note F = hclear_scan [OF assms]
  have ok: "\<forall>k \<in> set ?F. hname_ok k"
    using F(2) by (auto simp: dom_def hcoll.view_def split: if_splits)
  have "\<forall>e \<in> set (iter_rest (h_it ?it)). hash_key_wf e"
    by (rule hash_fields_prefix(1) [OF r(2,1,3)]) (simp only: hscan_it iter_rest_subset [OF r(1)])
  moreover have "iter_ok (h_it ?it)" by (simp only: hscan_it ssdb_iterator_rest [OF r(1)])
  ultimately obtain s' where "hclear_batch name ?it s 0 = (s', Some (0 + length ?F))" "hash_ready s' name"
      "data_map s' = fold (\<lambda>k m. hcoll.coll_del m name k) ?F (data_map s)"
    using hclear_batch_correct [OF assms hscan_it(1,2) _ _ refl ok, of 0] by blast
  with F ok show ?thesis by (intro exI [of _ s'] exI [of _ ?F]) simp
qed

lemma hclear_loop_correct:
  assumes "hash_ready s name"
  shows "\<exists>s'. hclear_loop name c s = Some (s', c + card (dom (hcoll.view (data_map s) name))) \<and>
    hash_ready s' name \<and>
    (\<forall>n. hcoll.view (data_map s') n = (if n = name then Map.empty else hcoll.view (data_map s) n)) \<and>
    (\<forall>x. key_type x \<notin> {type_char HASH, type_char HSIZE} \<longrightarrow> data_map s' x = data_map s x)"
  using assms
proof (induction "card (dom (hcoll.view (data_map s) name))" arbitrary: s c rule: less_induct)
  case less
  let ?V = "hcoll.view (data_map s) name"
  have fin: "finite (dom ?V)" and nm: "hname_ok name"
    using less.prems by (auto simp: hash_ready_def hcoll.coll_inv_def hcoll.counted_def)
  from hclear_round [OF less.prems] obtain s' F where
    b: "hclear_batch name (hscan name [] [] 1000 s) s 0 = (s', Some (length F))" and r: "hash_ready s' name"
    and d: "data_map s' = fold (\<lambda>k m. hcoll.coll_del m name k) F (data_map s)"
    and F: "distinct F" "set F \<subseteq> dom ?V" "\<forall>k \<in> set F. hname_ok k" "F = [] \<longleftrightarrow> dom ?V = {}"
    by blast
  note v = fold_coll_del [OF nm F(3), where m = "data_map s", folded d]
  have card: "card (dom ?V) = length F + card (dom (hcoll.view (data_map s') name))"
    using F fin by (simp add: v card_Diff_subset distinct_card [symmetric] Diff_eq [symmetric] card_mono)
  show ?case
  proof (cases "F = []")
    case True
    then have "?V = Map.empty" using F(4) by simp
    with True b r v d show ?thesis by (simp add: hclear_loop.simps [of name c s])
  next
    case False
    then have "length F > 0" by simp
    with card have lt: "card (dom (hcoll.view (data_map s') name)) < card (dom ?V)" by linarith
    from less.hyps [OF lt r, of "c + length F"] card b False v show ?thesis
      by (auto simp: hclear_loop.simps [of name c s] add.assoc)
  qed
qed

subsection \<open>Properties of the hashes\<close>

lemma hash_readyD:
  assumes "hash_ready s name"
  shows "io_ok s" "hcoll.coll_inv (data_map s)" "hname_ok name" "kv_sorted (entries (ldb s))"
    and "size_fits (card (dom (hcoll.view (data_map s) name)))" "finite (dom (hcoll.view (data_map s) name))"
  using assms by (auto simp: hash_ready_def io_ok_def hcoll.coll_inv_def hcoll.counted_def)

lemma hget_io:
  "io_ok s \<Longrightarrow> hname_ok n \<Longrightarrow> hname_ok k \<Longrightarrow>
    hget n k s = (case hcoll.view (data_map s) n k of None \<Rightarrow> NotFound | Some v \<Rightarrow> Found v)"
  by (rule hget_view) (simp_all add: io_ok_def)

lemma hsize_ready: "hash_ready s name \<Longrightarrow> hsize name s = int (card (dom (hcoll.view (data_map s) name)))"
  by (rule hsize_view) (auto simp: hash_ready_def io_ok_def)

lemma hash_put_ready:
  assumes "hash_ready s name" and "hname_ok key" and "size_fits (Suc (nat (hsize name s)))"
  shows "hash_ready (fst (hset name key val lt s)) name"
    and "data_map (fst (hset name key val lt s)) = hcoll.coll_put (data_map s) name key val"
    and "snd (hset name key val lt s) = (if hcoll.view (data_map s) name key = None then 1 else 0)"
proof -
  note r = hash_readyD [OF assms(1)]
  have sf: "size_fits (Suc (card (dom (hcoll.view (data_map s) name))))"
    using assms(3) hsize_ready [OF assms(1)] by simp
  note d = hset_data [OF io_ok_hash [OF r(1)] r(3) assms(2) r(2) sf, of val lt]
  show e: "data_map (fst (hset name key val lt s)) = hcoll.coll_put (data_map s) name key val" by (rule d(1))
  show "snd (hset name key val lt s) = (if hcoll.view (data_map s) name key = None then 1 else 0)" by (rule d(2))
  have "card (dom ((hcoll.view (data_map s) name)(key \<mapsto> val))) \<le> Suc (card (dom (hcoll.view (data_map s) name)))"
    using r(6) by (simp add: card_insert_if)
  with sf have "size_fits (card (dom (hcoll.view (data_map (fst (hset name key val lt s))) name)))"
    unfolding e hcoll.view_put [OF r(3) assms(2)] by (simp add: size_fits_def)
  with r assms(2) show "hash_ready (fst (hset name key val lt s)) name"
    unfolding hash_ready_def e by (auto intro: io_ok_run [OF _ hset_run] hcoll.coll_inv_put)
qed

text \<open>C2. \<open>hset\<close> stores the value under the field: it returns 1 when the field is new and 0 when it
  replaces a value, \<open>hget\<close> finds the new value and every other field of every hash as before, \<open>hsize\<close>
  grows by the number of fields added, no key of another type changes, and the invariant that the size
  counter equals the number of fields is kept.\<close>

theorem hset_stores:
  assumes "hash_ready s name" and "hname_ok key" and "size_fits (Suc (nat (hsize name s)))"
  shows "\<exists>s' d. hset name key val lt s = (s', d) \<and> d = (if hget name key s = NotFound then 1 else 0) \<and>
    hash_ready s' name \<and> hsize name s' = hsize name s + d \<and>
    (\<forall>n k. hname_ok n \<and> hname_ok k \<longrightarrow>
       hget n k s' = (if n = name \<and> k = key then Found val else hget n k s)) \<and>
    (\<forall>x. key_type x \<notin> {type_char HASH, type_char HSIZE} \<longrightarrow> data_map s' x = data_map s x)"
proof -
  note p = hash_put_ready [OF assms, of val lt] and r = hash_readyD [OF assms(1)]
  let ?s' = "fst (hset name key val lt s)" let ?V = "hcoll.view (data_map s) name"
  have v: "hcoll.view (data_map ?s') n = (if n = name then ?V(key \<mapsto> val) else hcoll.view (data_map s) n)" for n
    unfolding p(2) by (rule hcoll.view_put [OF r(3) assms(2)])
  have g: "hget name key s = NotFound \<longleftrightarrow> ?V key = None"
    using hget_io [OF r(1,3) assms(2)] by (simp split: option.split)
  have "hsize name ?s' = hsize name s + (if ?V key = None then 1 else 0)"
    unfolding hsize_ready [OF p(1)] hsize_ready [OF assms(1)] v using r(6)
    by (simp add: card_insert_if domIff)
  moreover have "hget n k ?s' = (if n = name \<and> k = key then Found val else hget n k s)"
    if "hname_ok n \<and> hname_ok k" for n k
    using that hget_io [OF hash_readyD(1) [OF p(1)], of n k] hget_io [OF r(1), of n k] by (simp add: v)
  moreover have "data_map ?s' x = data_map s x" if "key_type x \<notin> {type_char HASH, type_char HSIZE}" for x
    using that unfolding p(2) by (auto simp: hcoll.coll_put_def)
  ultimately show ?thesis using p(1,3) g
    by (intro exI [of _ ?s'] exI [of _ "snd (hset name key val lt s)"]) (simp add: prod_eq_iff)
qed

lemma fresh_hash_ready: "hname_ok name \<Longrightarrow> hash_ready fresh_db name"
  by (simp add: hash_ready_def hcoll.coll_inv_empty [unfolded fun_eq_iff] fresh_data hcoll.view_def size_fits_def dom_def)

theorem hset_stores_witness:
  "\<exists>s'. hset ''h'' ''f'' ''v'' (CHR 0x01) fresh_db = (s', 1) \<and> hget ''h'' ''f'' s' = Found ''v'' \<and> hsize ''h'' s' = 1"
proof -
  have ok: "hname_ok ''h''" "hname_ok ''f''" by (simp_all add: hname_ok_def name_ok_def SSDB_KEY_LEN_MAX_def)
  have "hsize ''h'' fresh_db = 0" "hget ''h'' ''f'' fresh_db = NotFound"
    using hsize_ready [OF fresh_hash_ready [OF ok(1)]] hget_io [OF hash_readyD(1) [OF fresh_hash_ready [OF ok(1)]] ok]
    by (simp_all add: fresh_data hcoll.view_def dom_def)
  with hset_stores [OF fresh_hash_ready [OF ok(1)] ok(2), of "''v''" "CHR 0x01"] ok show ?thesis
    by (auto simp: size_fits_def)
qed


text \<open>\<open>hdel\<close> removes the field: it returns 1 when the field was there and 0 when it was not,
  \<open>hget\<close> then finds no such field and every other field of every hash as before, and \<open>hsize\<close> shrinks
  by the number of fields removed.\<close>

theorem hdel_removes:
  assumes "hash_ready s name" and "hname_ok key"
  shows "\<exists>s' d. hdel name key lt s = (s', d) \<and> d = (if hget name key s = NotFound then 0 else 1) \<and>
    hash_ready s' name \<and> hsize name s' = hsize name s - d \<and>
    (\<forall>n k. hname_ok n \<and> hname_ok k \<longrightarrow>
       hget n k s' = (if n = name \<and> k = key then NotFound else hget n k s)) \<and>
    (\<forall>x. key_type x \<notin> {type_char HASH, type_char HSIZE} \<longrightarrow> data_map s' x = data_map s x)"
proof -
  note p = hdel_ready [OF assms, of lt] and r = hash_readyD [OF assms(1)]
  note ret = hdel_data(2) [OF io_ok_hash [OF r(1)] r(3) assms(2) r(2,5), of lt]
  let ?s' = "fst (hdel name key lt s)" let ?V = "hcoll.view (data_map s) name"
  have v: "hcoll.view (data_map ?s') n = (if n = name then ?V(key := None) else hcoll.view (data_map s) n)" for n
    unfolding p(2) by (rule hcoll.view_del [OF r(3) assms(2)])
  have g: "hget name key s = NotFound \<longleftrightarrow> ?V key = None"
    using hget_io [OF r(1,3) assms(2)] by (simp split: option.split)
  have "?V key \<noteq> None \<Longrightarrow> 0 < card (dom ?V)" using r(6) by (auto simp: card_gt_0_iff)
  then have "hsize name ?s' = hsize name s - (if ?V key = None then 0 else 1)"
    unfolding hsize_ready [OF p(1)] hsize_ready [OF assms(1)] v using r(6)
    by (auto simp: card_Diff_singleton_if domIff)
  moreover have "hget n k ?s' = (if n = name \<and> k = key then NotFound else hget n k s)"
    if "hname_ok n \<and> hname_ok k" for n k
    using that hget_io [OF hash_readyD(1) [OF p(1)], of n k] hget_io [OF r(1), of n k] by (simp add: v)
  moreover have "data_map ?s' x = data_map s x" if "key_type x \<notin> {type_char HASH, type_char HSIZE}" for x
    using that unfolding p(2) by (auto simp: hcoll.coll_del_def)
  ultimately show ?thesis using p(1) ret g
    by (intro exI [of _ ?s'] exI [of _ "snd (hdel name key lt s)"]) (simp add: prod_eq_iff)
qed

definition hash_db :: ssdb where
  "hash_db = fst (hset ''h'' ''f'' ''v'' (CHR 0x01) fresh_db)"

lemma hash_db_ok: "hname_ok ''h''" "hname_ok ''f''"
  by (simp_all add: hname_ok_def name_ok_def SSDB_KEY_LEN_MAX_def)

lemma hash_db_facts:
  "hash_ready hash_db ''h''" "hcoll.view (data_map hash_db) ''h'' = [''f'' \<mapsto> ''v'']"
proof -
  note r = fresh_hash_ready [OF hash_db_ok(1)]
  have "size_fits (Suc (nat (hsize ''h'' fresh_db)))"
    unfolding hsize_ready [OF r] by (simp add: hcoll.view_def dom_def size_fits_def)
  note p = hash_put_ready [OF r hash_db_ok(2) this, of "''v''" "CHR 0x01", folded hash_db_def]
  show "hash_ready hash_db ''h''" by (rule p(1))
  show "hcoll.view (data_map hash_db) ''h'' = [''f'' \<mapsto> ''v'']"
    unfolding p(2) hcoll.view_put [OF hash_db_ok] by (simp add: hcoll.view_def fun_eq_iff)
qed

theorem hdel_removes_witness:
  "\<exists>s'. hdel ''h'' ''f'' (CHR 0x01) hash_db = (s', 1) \<and> hget ''h'' ''f'' s' = NotFound \<and> hsize ''h'' s' = 0"
proof -
  have "hsize ''h'' hash_db = 1" "hget ''h'' ''f'' hash_db \<noteq> NotFound"
    using hsize_ready [OF hash_db_facts(1)] hget_io [OF hash_readyD(1) [OF hash_db_facts(1)] hash_db_ok]
    by (simp_all add: hash_db_facts)
  with hdel_removes [OF hash_db_facts(1) hash_db_ok(2), of "CHR 0x01"] hash_db_ok show ?thesis by auto
qed

text \<open>C29. \<open>hclear\<close> returns: its loop of scans of a thousand fields ends, the number it returns is the
  number of fields the hash had, afterwards no field of the hash is found and its size is 0, and every
  other hash and every key of another type is as before.\<close>

theorem hclear_empties:
  assumes "hash_ready s name"
  shows "\<exists>s'. hclear name s = Some (s', nat (hsize name s)) \<and> hsize name s' = 0 \<and>
    (\<forall>k. hname_ok k \<longrightarrow> hget name k s' = NotFound) \<and>
    (\<forall>n k. n \<noteq> name \<and> hname_ok n \<and> hname_ok k \<longrightarrow> hget n k s' = hget n k s) \<and>
    (\<forall>x. key_type x \<notin> {type_char HASH, type_char HSIZE} \<longrightarrow> data_map s' x = data_map s x)"
proof -
  note r = hash_readyD [OF assms]
  from hclear_loop_correct [OF assms, of 0] obtain s' where s':
    "hclear_loop name 0 s = Some (s', card (dom (hcoll.view (data_map s) name)))" "hash_ready s' name"
    "\<forall>n. hcoll.view (data_map s') n = (if n = name then Map.empty else hcoll.view (data_map s) n)"
    "\<forall>x. key_type x \<notin> {type_char HASH, type_char HSIZE} \<longrightarrow> data_map s' x = data_map s x" by auto
  note r' = hash_readyD [OF s'(2)]
  have "hsize name s' = 0" using hsize_ready [OF s'(2)] s'(3) by simp
  moreover have "hget name k s' = NotFound" if "hname_ok k" for k
    using hget_io [OF r'(1,3) that] s'(3) by simp
  moreover have "hget n k s' = hget n k s" if "n \<noteq> name \<and> hname_ok n \<and> hname_ok k" for n k
    using hget_io [OF r'(1), of n k] hget_io [OF r(1), of n k] s'(3) that by simp
  ultimately show ?thesis using s'(1,4) hsize_ready [OF assms] by (auto simp: hclear_def)
qed

theorem hclear_empties_witness:
  "\<exists>s'. hclear ''h'' hash_db = Some (s', 1) \<and> hsize ''h'' s' = 0"
  using hclear_empties [OF hash_db_facts(1)] hsize_ready [OF hash_db_facts(1)] by (auto simp: hash_db_facts)


lemma hash_list_facts:
  assumes "hash_ready s name"
  shows "kv_sorted (hash_list s name)"
    and "(k, v) \<in> set (hash_list s name) \<longleftrightarrow> hname_ok k \<and> hget name k s = Found v"
proof -
  note r = hash_readyD [OF assms]
  show sorted: "kv_sorted (hash_list s name)" unfolding hash_list_def by (rule sub_list_sorted [OF r(4)])
  have ok: "hname_ok k" if "(k, v) \<in> set (hash_list s name)"
  proof -
    from that obtain e where e: "e \<in> set (entries (ldb s))" "prefix (encode_hash_key name []) (fst e)"
        "k = drop (length (encode_hash_key name [])) (fst e)"
      by (auto simp: hash_list_def sub_list_def)
    with hash_entry_prefix [OF r(2,4) e(1) r(3)] show ?thesis by metis
  qed
  have "distinct (map fst (hash_list s name))" using sorted by (simp add: kv_sorted_def strict_sorted_iff)
  then have "(k, v) \<in> set (hash_list s name) \<longleftrightarrow> map_of (hash_list s name) k = Some v" by simp
  with ok map_of_hash_list [OF r(3), of k s] hget_io [OF r(1,3), of k]
  show "(k, v) \<in> set (hash_list s name) \<longleftrightarrow> hname_ok k \<and> hget name k s = Found v"
    by (auto split: option.splits)
qed

text \<open>\<open>hscan\<close> returns exactly the fields of the hash after \<open>start\<close> up to \<open>end\<close>, each with the value
  \<open>hget\<close> returns, in ascending order of the field, cut after \<open>limit\<close> entries, and nothing of the next
  hash in the store.\<close>

theorem hscan_fields:
  assumes "hash_ready s name"
  shows "\<exists>L. hiter.drain n (hscan name start end limit s) = take n (take (unat limit) L) \<and> kv_sorted L \<and>
    set L = {(k, v). hname_ok k \<and> hget name k s = Found v \<and> start < k \<and> (end = [] \<or> k \<le> end)}"
proof -
  note r = hash_readyD [OF assms]
  let ?L = "filter (\<lambda>e. start < fst e \<and> (end = [] \<or> fst e \<le> end)) (hash_list s name)"
  have "kv_sorted ?L" by (rule kv_sorted_filter [OF hash_list_facts(1) [OF assms]])
  moreover have "set ?L = {(k, v). hname_ok k \<and> hget name k s = Found v \<and> start < k \<and> (end = [] \<or> k \<le> end)}"
    using hash_list_facts(2) [OF assms] by auto
  ultimately show ?thesis using hscan_correct [OF r(2,4,3), of n start "end" limit] by blast
qed

theorem hscan_fields_witness: "hiter.drain 5 (hscan ''h'' [] [] 5 hash_db) = [(''f'', ''v'')]"
proof -
  have g: "hname_ok k \<and> hget ''h'' k hash_db = Found v \<and> k \<noteq> [] \<longleftrightarrow> k = ''f'' \<and> v = ''v''" for k v
    using hget_io [OF hash_readyD(1) [OF hash_db_facts(1)] hash_db_ok(1), of k] hash_db_ok(2)
    by (auto simp: hash_db_facts split: if_splits option.splits)
  from hscan_fields [OF hash_db_facts(1), of 5 "[]" "[]" 5] obtain L where
    L: "hiter.drain 5 (hscan ''h'' [] [] 5 hash_db) = take 5 (take 5 L)" "kv_sorted L" "set L = {(''f'', ''v'')}"
    by (auto simp: g)
  from L(2) have "distinct L" by (auto simp: kv_sorted_def strict_sorted_iff distinct_map)
  with L(3) have "L = [(''f'', ''v'')]"
    by (cases L; cases "tl L") auto
  with L(1) show ?thesis by simp
qed


text \<open>\<open>hlist\<close> lists the names of the hashes after \<open>name_s\<close> up to \<open>name_e\<close> in ascending order, \<open>hrlist\<close>
  those before \<open>name_s\<close> down to \<open>name_e\<close> in descending order, where a name is listed only if the hash has a
  field. Downwards from the empty name the listing begins at \<open>"\xff"\<close>: a hash whose name begins with
  that byte is not listed.\<close>

theorem hlist_names:
  assumes "io_ok s" and "hcoll.coll_inv (data_map s)"
  shows "hlist name_s name_e limit s =
      take (unat limit) (filter (\<lambda>n. name_s < n \<and> (name_e = [] \<or> n \<le> name_e)) (hash_names s)) \<and>
    hrlist name_s name_e limit s =
      take (unat limit) (rev (filter (\<lambda>n. n < (if name_s = [] then [CHR 0xFF] else name_s) \<and>
        (name_e = [] \<or> name_e \<le> n)) (hash_names s))) \<and>
    sorted_wrt (<) (hash_names s) \<and>
    (\<forall>n. hname_ok n \<longrightarrow> (n \<in> set (hash_names s) \<longleftrightarrow> (\<exists>k v. hname_ok k \<and> hget n k s = Found v)))"
proof -
  have srt: "kv_sorted (entries (ldb s))" using assms(1) by (simp add: io_ok_def)
  have names: "sorted_wrt (<) (hash_names s)"
    using sub_list_sorted [OF srt] by (simp add: hash_names_def kv_sorted_def)
  have mem: "n \<in> set (hash_names s) \<longleftrightarrow> (\<exists>k v. hname_ok k \<and> hget n k s = Found v)" if n: "hname_ok n" for n
  proof -
    have "hcoll.view (data_map s) n k \<noteq> None \<longleftrightarrow> hname_ok k \<and> (\<exists>v. hget n k s = Found v)" for k
      using hget_io [OF assms(1) n, of k] n by (auto simp: hcoll.view_def split: option.splits)
    then show ?thesis unfolding hash_names_iff [OF assms(2) n] by blast
  qed
  show ?thesis by (intro conjI allI impI hlist_correct [OF srt] names mem)
qed

theorem hlist_names_witness:
  "''h'' \<in> set (hash_names hash_db) \<and> hlist [] [] 5 hash_db = take 5 (filter (\<lambda>n. n \<noteq> []) (hash_names hash_db))"
proof -
  note r = hash_readyD [OF hash_db_facts(1)]
  have "hget ''h'' ''f'' hash_db = Found ''v''" using hget_io [OF r(1) hash_db_ok] by (simp add: hash_db_facts)
  with hlist_names [OF r(1,2), of "[]" "[]" 5] hash_db_ok show ?thesis by auto
qed

end
