(* ===== verification/ZSet.thy ===== *)
theory ZSet
  imports Hash
begin

section \<open>Sorted sets (\<open>ssdb/t_zset.cpp\<close>)\<close>

text \<open>
  A member of a sorted set is stored twice: its score under its key, and a key made of the
  score and the member, so that a scan runs in the order of scores. The invariant ties the
  two to each other and the counter to both.
\<close>

subsection \<open>Operations\<close>

definition SSDB_SCORE_MIN :: bytes where "SSDB_SCORE_MIN = ''-9223372036854775808''"
definition SSDB_SCORE_MAX :: bytes where "SSDB_SCORE_MAX = ''+9223372036854775807''"

definition zsize :: "bytes \<Rightarrow> ssdb \<Rightarrow> int" where
  "zsize name s = size_ret (ldb_Get (ldb s) (encode_zsize_key name))"

definition zget :: "bytes \<Rightarrow> bytes \<Rightarrow> ssdb \<Rightarrow> get_status" where
  "zget name key s = ldb_Get (ldb s) (encode_zset_key name key)"

definition filter_score :: "bytes \<Rightarrow> bytes" where
  "filter_score score = str_int64 (Bytes_Int64 score)"

definition zset_one :: "bytes \<Rightarrow> bytes \<Rightarrow> bytes \<Rightarrow> char \<Rightarrow> ssdb \<Rightarrow> ssdb \<times> int" where
  "zset_one name key score lt s =
     (if name = [] \<or> key = [] then (s, 0)
      else if length name > SSDB_KEY_LEN_MAX then (s, -1)
      else if length key > SSDB_KEY_LEN_MAX then (s, -1)
      else let new_score = filter_score score;
               got = zget name key s;
               found = get_ret got;
               old_score = get_val got
           in if found = 0 \<or> old_score \<noteq> new_score
              then let s = (if found \<noteq> 0 then bl_Delete (encode_zscore_key name key old_score) s else s);
                       s = bl_Put (encode_zscore_key name key new_score) [] s;
                       k0 = encode_zset_key name key;
                       s = bl_Put k0 new_score s;
                       s = bl_add_log lt (binlog_cmd_char BC_ZSET) k0 s
                   in (s, if found \<noteq> 0 then 0 else 1)
              else (s, 0))"

definition zdel_one :: "bytes \<Rightarrow> bytes \<Rightarrow> char \<Rightarrow> ssdb \<Rightarrow> ssdb \<times> int" where
  "zdel_one name key lt s =
     (if length name > SSDB_KEY_LEN_MAX then (s, -1)
      else if length key > SSDB_KEY_LEN_MAX then (s, -1)
      else let got = zget name key s
           in if get_ret got \<noteq> 1 then (s, 0)
              else let s = bl_Delete (encode_zscore_key name key (get_val got)) s;
                       k0 = encode_zset_key name key;
                       s = bl_Delete k0 s;
                       s = bl_add_log lt (binlog_cmd_char BC_ZDEL) k0 s
                   in (s, 1))"

definition incr_zsize :: "bytes \<Rightarrow> int \<Rightarrow> ssdb \<Rightarrow> ssdb \<times> int" where
  "incr_zsize name incr s =
     (let size = wrap64 (zsize name s + incr);
          size_key = encode_zsize_key name
      in (if size = 0 then bl_Delete size_key s else bl_Put size_key (le64 (word_of_int size)) s, 0))"

definition zset :: "bytes \<Rightarrow> bytes \<Rightarrow> bytes \<Rightarrow> char \<Rightarrow> ssdb \<Rightarrow> ssdb \<times> int" where
  "zset name key score lt s =
     Transaction (\<lambda>s.
        let (s, ret) = zset_one name key score lt s
        in if ret \<ge> 0 then sized_finish (incr_zsize name ret) ret ret (-1) s else (s, ret)) s"

definition zdel :: "bytes \<Rightarrow> bytes \<Rightarrow> char \<Rightarrow> ssdb \<Rightarrow> ssdb \<times> int" where
  "zdel name key lt s =
     Transaction (\<lambda>s.
        let (s, ret) = zdel_one name key lt s
        in if ret \<ge> 0 then sized_finish (incr_zsize name (- ret)) ret ret (-1) s else (s, ret)) s"

definition zincr_store :: "bytes \<Rightarrow> bytes \<Rightarrow> int \<Rightarrow> char \<Rightarrow> ssdb \<Rightarrow> ssdb \<times> int \<times> int option" where
  "zincr_store name key v lt s =
     (let (s, ret) = zset_one name key (str_int64 v) lt s
      in if ret = -1 then (s, -1, Some v)
         else if ret \<ge> 0 then sized_finish (incr_zsize name ret) ret (1, Some v) (-1, Some v) s
         else (s, 1, Some v))"

text \<open>\<open>zincr\<close> does not look at \<open>errno\<close>.\<close>

definition zincr :: "bytes \<Rightarrow> bytes \<Rightarrow> int \<Rightarrow> char \<Rightarrow> ssdb \<Rightarrow> ssdb \<times> int \<times> int option" where
  "zincr name key by lt s =
     Transaction (\<lambda>s.
        case zget name key s of
          Failed \<Rightarrow> (s, -1, None)
        | NotFound \<Rightarrow> zincr_store name key by lt s
        | Found old \<Rightarrow> zincr_store name key (wrap64 (fst (str_to_int64 0 old) + by)) lt s) s"

definition ziterator :: "bytes \<Rightarrow> bytes \<Rightarrow> bytes \<Rightarrow> bytes \<Rightarrow> u64 \<Rightarrow> Direction \<Rightarrow> ssdb \<Rightarrow> z_iterator" where
  "ziterator name key_start score_start score_end limit dir s =
     (if dir = FORWARD
      then let start = (if score_start = [] then encode_zscore_key name key_start SSDB_SCORE_MIN
                        else encode_zscore_key name key_start score_start);
               end = (if score_end = [] then encode_zscore_key name [CHR 0xFF] SSDB_SCORE_MAX
                      else encode_zscore_key name [CHR 0xFF] score_end)
           in ZIterator_new (ssdb_iterator (ldb s) start end limit) name
      else let start = (if score_start = [] then encode_zscore_key name key_start SSDB_SCORE_MAX
                        else if key_start = [] then encode_zscore_key name [CHR 0xFF] score_start
                        else encode_zscore_key name key_start score_start);
               end = (if score_end = [] then encode_zscore_key name [] SSDB_SCORE_MIN
                      else encode_zscore_key name [] score_end)
           in ZIterator_new (ssdb_rev_iterator (ldb s) start end limit) name)"

lemma ZIterator_next_limit:
  "ZIterator_next z = (z', True) \<Longrightarrow> unat (it_limit (z_it z')) < unat (it_limit (z_it z))"
proof (induction z arbitrary: z' rule: ZIterator_next.induct)
  case (1 z)
  obtain it b where it: "Iterator_next (z_it z) = (it, b)" by fastforce
  show ?case
  proof (cases b)
    case True
    then have it': "Iterator_next (z_it z) = (it, True)" using it by simp
    note lt = Iterator_next_limit [OF this]
    show ?thesis
    proof (cases "decode_zscore_key (Iterator_key it)")
      case None
      with "1.prems" it' lt "1.IH" [OF it' [symmetric] _ refl refl _ None, of z'] show ?thesis
        by (auto simp: ZIterator_next.simps [of z] Let_def split: if_splits)
    next
      case (Some p)
      with "1.prems" it' lt show ?thesis
        by (cases p) (auto simp: ZIterator_next.simps [of z] Let_def split: if_splits)
    qed
  qed (use "1.prems" it in \<open>simp add: ZIterator_next.simps [of z]\<close>)
qed

function zrank_loop :: "bytes \<Rightarrow> z_iterator \<Rightarrow> nat \<Rightarrow> int" where
  "zrank_loop key it ret =
     (case ZIterator_next it of
        (it', False) \<Rightarrow> -1
      | (it', True) \<Rightarrow> if key = z_key it' then int ret else zrank_loop key it' (Suc ret))"
  by pat_completeness auto
termination
  by (relation "measure (\<lambda>(key, it, ret). unat (it_limit (z_it it)))") (auto dest: ZIterator_next_limit [OF sym])

declare zrank_loop.simps [simp del]

definition INT_MAX_U64 :: u64 where "INT_MAX_U64 = 2147483647"

definition zrank :: "bytes \<Rightarrow> bytes \<Rightarrow> ssdb \<Rightarrow> int" where
  "zrank name key s = zrank_loop key (ziterator name [] [] [] INT_MAX_U64 FORWARD s) 0"

definition zrrank :: "bytes \<Rightarrow> bytes \<Rightarrow> ssdb \<Rightarrow> int" where
  "zrrank name key s = zrank_loop key (ziterator name [] [] [] INT_MAX_U64 BACKWARD s) 0"

definition zrange :: "bytes \<Rightarrow> u64 \<Rightarrow> u64 \<Rightarrow> ssdb \<Rightarrow> z_iterator" where
  "zrange name offset limit s =
     (let limit = (if offset + limit > limit then offset + limit else limit)
      in fst (ZIterator_skip offset (ziterator name [] [] [] limit FORWARD s)))"

definition zrrange :: "bytes \<Rightarrow> u64 \<Rightarrow> u64 \<Rightarrow> ssdb \<Rightarrow> z_iterator" where
  "zrrange name offset limit s =
     (let limit = (if offset + limit > limit then offset + limit else limit)
      in fst (ZIterator_skip offset (ziterator name [] [] [] limit BACKWARD s)))"

text \<open>The score a scan starts from: that of the key when only the key is given.\<close>

definition scan_score :: "bytes \<Rightarrow> bytes \<Rightarrow> bytes \<Rightarrow> ssdb \<Rightarrow> bytes" where
  "scan_score name key score_start s =
     (if key \<noteq> [] \<and> score_start = [] then get_val (zget name key s) else score_start)"

definition zscan :: "bytes \<Rightarrow> bytes \<Rightarrow> bytes \<Rightarrow> bytes \<Rightarrow> u64 \<Rightarrow> ssdb \<Rightarrow> z_iterator" where
  "zscan name key score_start score_end limit s =
     ziterator name key (scan_score name key score_start s) score_end limit FORWARD s"

definition zrscan :: "bytes \<Rightarrow> bytes \<Rightarrow> bytes \<Rightarrow> bytes \<Rightarrow> u64 \<Rightarrow> ssdb \<Rightarrow> z_iterator" where
  "zrscan name key score_start score_end limit s =
     ziterator name key (scan_score name key score_start s) score_end limit BACKWARD s"

definition get_znames :: "iterator \<Rightarrow> bytes list" where
  "get_znames it = get_names ZSIZE decode_zsize_key it"

definition zlist :: "bytes \<Rightarrow> bytes \<Rightarrow> u64 \<Rightarrow> ssdb \<Rightarrow> bytes list" where
  "zlist name_s name_e limit s =
     (let start = encode_zsize_key name_s;
          end = (if name_e \<noteq> [] then encode_zsize_key name_e else [])
      in get_znames (ssdb_iterator (ldb s) start end limit))"

definition zrlist :: "bytes \<Rightarrow> bytes \<Rightarrow> u64 \<Rightarrow> ssdb \<Rightarrow> bytes list" where
  "zrlist name_s name_e limit s =
     (let start = encode_zsize_key name_s;
          start = (if name_s = [] then start @ [CHR 0xFF] else start);
          end = (if name_e \<noteq> [] then encode_zsize_key name_e else [])
      in get_znames (ssdb_rev_iterator (ldb s) start end limit))"

subsubsection \<open>\<open>zfix\<close>\<close>

text \<open>The two passes write to the store at once, outside of the batch.\<close>

definition db_put :: "bytes \<Rightarrow> bytes \<Rightarrow> ssdb \<Rightarrow> ssdb \<times> bool" where
  "db_put k v s = (case ldb_Put k v (ldb s) of (db, ok) \<Rightarrow> (s\<lparr>ldb := db\<rparr>, ok))"

definition db_delete :: "bytes \<Rightarrow> ssdb \<Rightarrow> ssdb \<times> bool" where
  "db_delete k s = (case ldb_Delete k (ldb s) of (db, ok) \<Rightarrow> (s\<lparr>ldb := db\<rparr>, ok))"

function zfix_scores :: "bytes \<Rightarrow> iterator \<Rightarrow> ssdb \<Rightarrow> int \<Rightarrow> ssdb \<times> int" where
  "zfix_scores name it s sz =
     (case Iterator_next it of
        (it', False) \<Rightarrow> (s, sz)
      | (it', True) \<Rightarrow>
          if key_type (Iterator_key it') \<noteq> type_char ZSCORE then (s, sz)
          else (case decode_zscore_key (Iterator_key it') of
                  None \<Rightarrow> (s, -1)
                | Some (name2, key, score) \<Rightarrow>
                    if name \<noteq> name2 then (s, sz)
                    else let buf = encode_zset_key name key; got = ldb_Get (ldb s) buf
                         in if got = Failed then (s, -1)
                            else if got = NotFound \<or> score \<noteq> get_val got
                            then (case db_put buf score s of
                                    (s', ok) \<Rightarrow> if \<not> ok then (s', -1) else zfix_scores name it' s' (sz + 1))
                            else zfix_scores name it' s (sz + 1)))"
  by pat_completeness auto
termination
  by (relation "measure (\<lambda>(name, it, s, sz). unat (it_limit it))") (auto dest: Iterator_next_limit [OF sym])

function zfix_members :: "bytes \<Rightarrow> iterator \<Rightarrow> ssdb \<Rightarrow> int \<Rightarrow> ssdb \<times> int" where
  "zfix_members name it s sz =
     (case Iterator_next it of
        (it', False) \<Rightarrow> (s, sz)
      | (it', True) \<Rightarrow>
          if key_type (Iterator_key it') \<noteq> type_char ZSET then (s, sz)
          else (case decode_zset_key (Iterator_key it') of
                  None \<Rightarrow> (s, -1)
                | Some (name2, key) \<Rightarrow>
                    if name \<noteq> name2 then (s, sz)
                    else let buf = encode_zscore_key name key (Iterator_val it'); got = ldb_Get (ldb s) buf
                         in if got = Failed then (s, -1)
                            else if got = NotFound
                            then (case db_put buf [] s of
                                    (s', ok) \<Rightarrow> if \<not> ok then (s', -1) else zfix_members name it' s' (sz + 1))
                            else zfix_members name it' s (sz + 1)))"
  by pat_completeness auto
termination
  by (relation "measure (\<lambda>(name, it, s, sz). unat (it_limit it))") (auto dest: Iterator_next_limit [OF sym])

declare zfix_scores.simps [simp del] zfix_members.simps [simp del]

text \<open>After each pass the counter is set to what the pass found; the status of that write is
  not looked at.\<close>

definition zfix_size :: "bytes \<Rightarrow> int \<Rightarrow> ssdb \<Rightarrow> ssdb" where
  "zfix_size name sz s =
     (if zsize name s \<noteq> sz
      then if sz = 0 then fst (db_delete (encode_zsize_key name) s)
           else fst (db_put (encode_zsize_key name) (le64 (word_of_int sz)) s)
      else s)"

definition zfix :: "bytes \<Rightarrow> ssdb \<Rightarrow> ssdb \<times> int" where
  "zfix name s =
     Transaction (\<lambda>s.
        let it_start = encode_zscore_key name [] SSDB_SCORE_MIN;
            it_end = encode_zscore_key name [CHR 0xFF] SSDB_SCORE_MAX;
            (s, sz) = zfix_scores name (ssdb_iterator (ldb s) it_start it_end UINT64_MAX) s 0
        in if sz = -1 then (s, -1)
           else if zsize name s = -1 then (s, -1)
           else let s = zfix_size name sz s;
                    it_start = encode_zset_key name [];
                    it_end = encode_zset_key (name @ [CHR 0xFF]) [];
                    (s, sz) = zfix_members name (ssdb_iterator (ldb s) it_start it_end UINT64_MAX) s 0
                in if sz = -1 then (s, -1)
                   else if zsize name s = -1 then (s, -1)
                   else (zfix_size name sz s, sz)) s"

subsection \<open>Each operation is one transaction\<close>

lemma in_txn_incr_zsize: "0 < n \<Longrightarrow> in_txn (n - 1) s0 s \<Longrightarrow> in_txn n s0 (fst (incr_zsize name i s))"
  by (auto simp: incr_zsize_def Let_def intro!: tx_intros)

lemma snd_incr_zsize [simp]: "snd (incr_zsize name i s) = 0"
  by (simp add: incr_zsize_def Let_def)

lemma zset_one_txn: "in_txn 4 s (fst (zset_one name key score lt (bl_begin s)))"
  by (auto simp: zset_one_def Let_def intro!: tx_intros)

lemma zdel_one_txn: "in_txn 4 s (fst (zdel_one name key lt (bl_begin s)))"
  by (auto simp: zdel_one_def Let_def intro!: tx_intros)

lemma tx_done_4_5: "in_txn 4 s0 s \<Longrightarrow> tx_done 5 s0 s"
  by (rule tx_done_in, erule in_txn_mono) simp

lemma zset_finish_done:
  "in_txn 4 s0 s \<Longrightarrow> tx_done 5 s0 (fst (sized_finish (incr_zsize name i) ret a b s))"
  using sized_finish_done [of 4 s0 s "incr_zsize name i"] in_txn_incr_zsize [of 5 s0 s] by simp

lemma zset_run: "tx_run 5 s (fst (zset name key score lt s))"
  using zset_one_txn [of s name key score lt]
  by (auto simp: zset_def zset_finish_done tx_done_4_5 split: prod.split intro!: Transaction_run)

lemma zdel_run: "tx_run 5 s (fst (zdel name key lt s))"
  using zdel_one_txn [of s name key lt]
  by (auto simp: zdel_def zset_finish_done tx_done_4_5 split: prod.split intro!: Transaction_run)

lemma zincr_store_done: "tx_done 5 s (fst (zincr_store name key v lt (bl_begin s)))"
  using zset_one_txn [of s name key "str_int64 v" lt]
  by (auto simp: zincr_store_def zset_finish_done tx_done_4_5 split: prod.split)

lemma zincr_run: "tx_run 5 s (fst (zincr name key by lt s))"
  by (auto simp: zincr_def Let_def split: get_status.split
      intro!: Transaction_run zincr_store_done tx_done_begin)

subsection \<open>What each operation does\<close>

interpretation zcoll: counted_collection ZSET ZSIZE hname_ok hname_ok encode_zset_key encode_zsize_key
  by unfold_locales (auto simp: hname_ok_def)

definition zset_io_ok :: "ssdb \<Rightarrow> bytes \<Rightarrow> bytes \<Rightarrow> bool" where
  "zset_io_ok s name key \<longleftrightarrow> kv_sorted (entries (ldb s)) \<and> \<not> wr_fail (ldb s) \<and>
     \<not> rd_fail (ldb s) (encode_zset_key name key) \<and> \<not> rd_fail (ldb s) (encode_zsize_key name)"

lemma filter_score_idem [simp]: "filter_score (filter_score sc) = filter_score sc"
  by (simp add: filter_score_def)

lemma Bytes_Int64_filter_score [simp]: "Bytes_Int64 (filter_score sc) = Bytes_Int64 sc"
  by (simp add: filter_score_def)

text \<open>The two records of a member agree, and every score key is that of a member.\<close>

definition scores_ok :: "(bytes \<rightharpoonup> bytes) \<Rightarrow> bool" where
  "scores_ok m \<longleftrightarrow>
     (\<forall>n k sc. zcoll.view m n k = Some sc \<longrightarrow> filter_score sc = sc \<and> m (encode_zscore_key n k sc) = Some []) \<and>
     (\<forall>x v. m x = Some v \<longrightarrow> key_type x = type_char ZSCORE \<longrightarrow>
        (\<exists>n k sc. zcoll.view m n k = Some sc \<and> x = encode_zscore_key n k sc))"

definition zset_inv :: "(bytes \<rightharpoonup> bytes) \<Rightarrow> bool" where
  "zset_inv m \<longleftrightarrow> zcoll.coll_inv m \<and> scores_ok m"

definition z_unscore :: "(bytes \<rightharpoonup> bytes) \<Rightarrow> bytes \<Rightarrow> bytes \<Rightarrow> bytes \<rightharpoonup> bytes" where
  "z_unscore m n k = (case zcoll.view m n k of None \<Rightarrow> m | Some old \<Rightarrow> m(encode_zscore_key n k old := None))"

definition z_put :: "(bytes \<rightharpoonup> bytes) \<Rightarrow> bytes \<Rightarrow> bytes \<Rightarrow> bytes \<Rightarrow> bytes \<rightharpoonup> bytes" where
  "z_put m n k sc = zcoll.coll_put ((z_unscore m n k)(encode_zscore_key n k sc \<mapsto> [])) n k sc"

definition z_del :: "(bytes \<rightharpoonup> bytes) \<Rightarrow> bytes \<Rightarrow> bytes \<Rightarrow> bytes \<rightharpoonup> bytes" where
  "z_del m n k = zcoll.coll_del (z_unscore m n k) n k"

lemma view_zscore [simp]:
  "zcoll.view (m(encode_zscore_key n k sc := v)) = zcoll.view m"
  "zcoll.view (z_unscore m n k) = zcoll.view m"
  "zcoll.coll_inv (m(encode_zscore_key n k sc := v)) = zcoll.coll_inv m"
  "zcoll.coll_inv (z_unscore m n k) = zcoll.coll_inv m"
  by (auto simp: z_unscore_def split: option.split intro!: zcoll.view_frame zcoll.coll_inv_frame)

lemma view_ok: "zcoll.view m n k = Some v \<Longrightarrow> hname_ok n \<and> hname_ok k"
  by (simp add: zcoll.view_def split: if_splits)

lemma view_z_put:
  assumes "hname_ok n" and "hname_ok k"
  shows "zcoll.view (z_put m n k sc) n' = (if n' = n then (zcoll.view m n)(k \<mapsto> sc) else zcoll.view m n')"
    and "zcoll.view (z_del m n k) n' = (if n' = n then (zcoll.view m n)(k := None) else zcoll.view m n')"
  using assms by (simp_all add: z_put_def z_del_def zcoll.view_put zcoll.view_del)

lemma coll_put_other: "key_type x \<notin> {type_char ZSET, type_char ZSIZE} \<Longrightarrow> zcoll.coll_put m n k v x = m x"
  "key_type x \<notin> {type_char ZSET, type_char ZSIZE} \<Longrightarrow> zcoll.coll_del m n k x = m x"
  by (auto simp: zcoll.coll_put_def zcoll.coll_del_def)

lemma z_put_other:
  "key_type x \<notin> {type_char ZSET, type_char ZSIZE, type_char ZSCORE} \<Longrightarrow> z_put m n k v x = m x"
  "key_type x \<notin> {type_char ZSET, type_char ZSIZE, type_char ZSCORE} \<Longrightarrow> z_del m n k x = m x"
  by (auto simp: z_put_def z_del_def coll_put_other z_unscore_def split: option.split)

lemma zscore_inject:
  "hname_ok n \<Longrightarrow> hname_ok n' \<Longrightarrow> filter_score sc = sc \<Longrightarrow> filter_score sc' = sc' \<Longrightarrow>
   encode_zscore_key n k sc = encode_zscore_key n' k' sc' \<longleftrightarrow> n = n' \<and> k = k' \<and> sc = sc'"
  using encode_zscore_key_inject [of n n' k sc k' sc'] unfolding hname_ok_def by (metis filter_score_def)

lemma unscore_rest:
  assumes "scores_ok m" and "z_unscore m n k x = Some v" and "key_type x = type_char ZSCORE"
  obtains n' k' sc' where "zcoll.view m n' k' = Some sc'" "x = encode_zscore_key n' k' sc'" "(n', k') \<noteq> (n, k)"
proof -
  have "m x = Some v" using assms(2) by (auto simp: z_unscore_def split: option.splits if_splits)
  with assms(1,3) obtain n' k' sc' where v: "zcoll.view m n' k' = Some sc'" "x = encode_zscore_key n' k' sc'"
    unfolding scores_ok_def by blast
  moreover have "(n', k') \<noteq> (n, k)" using v assms(2) by (auto simp: z_unscore_def)
  ultimately show thesis by (rule that)
qed

lemma z_put_zscore:
  assumes "scores_ok m" and "hname_ok n" and "hname_ok n'" and "filter_score sc' = sc'"
  shows "filter_score sc = sc \<Longrightarrow> z_put m n k sc (encode_zscore_key n' k' sc') =
      (if (n', k', sc') = (n, k, sc) then Some []
       else if (n', k') = (n, k) \<and> zcoll.view m n k = Some sc' then None
       else m (encode_zscore_key n' k' sc'))"
    and "z_del m n k (encode_zscore_key n' k' sc') =
      (if (n', k') = (n, k) \<and> zcoll.view m n k = Some sc' then None else m (encode_zscore_key n' k' sc'))"
proof -
  have old: "filter_score old = old" if "zcoll.view m n k = Some old" for old
    using that assms(1) by (auto simp: scores_ok_def)
  show "z_del m n k (encode_zscore_key n' k' sc') =
      (if (n', k') = (n, k) \<and> zcoll.view m n k = Some sc' then None else m (encode_zscore_key n' k' sc'))"
    using assms(2-) old
    by (cases "zcoll.view m n k") (auto simp: z_del_def coll_put_other z_unscore_def zscore_inject)
  assume "filter_score sc = sc"
  then show "z_put m n k sc (encode_zscore_key n' k' sc') =
      (if (n', k', sc') = (n, k, sc) then Some []
       else if (n', k') = (n, k) \<and> zcoll.view m n k = Some sc' then None
       else m (encode_zscore_key n' k' sc'))"
    using assms(2-) old
    by (cases "zcoll.view m n k") (auto simp: z_put_def coll_put_other z_unscore_def zscore_inject)
qed

lemma z_put_inv:
  assumes "zset_inv m" and "hname_ok n" and "hname_ok k" and "filter_score sc = sc"
  shows "zset_inv (z_put m n k sc)"
proof -
  have c: "zcoll.coll_inv m" and s: "scores_ok m" using assms(1) by (auto simp: zset_inv_def)
  have "zcoll.coll_inv (z_put m n k sc)"
    unfolding z_put_def by (rule zcoll.coll_inv_put) (simp_all add: c assms)
  moreover have "scores_ok (z_put m n k sc)"
    unfolding scores_ok_def
  proof (intro conjI allI impI)
    fix n' k' sc' assume v: "zcoll.view (z_put m n k sc) n' k' = Some sc'"
    note ok = view_ok [OF v]
    show f: "filter_score sc' = sc'"
      using v s assms by (auto simp: view_z_put scores_ok_def split: if_splits)
    show "z_put m n k sc (encode_zscore_key n' k' sc') = Some []"
      using v s f ok unfolding z_put_zscore(1) [OF s assms(2) conjunct1 [OF ok] f assms(4)] view_z_put [OF assms(2,3)]
      by (auto simp: scores_ok_def split: if_splits)
  next
    fix x v assume x: "z_put m n k sc x = Some v" "key_type x = type_char ZSCORE"
    then have "((z_unscore m n k)(encode_zscore_key n k sc \<mapsto> [])) x = Some v"
      by (simp add: z_put_def coll_put_other)
    then consider "x = encode_zscore_key n k sc" |
      n' k' sc' where "zcoll.view m n' k' = Some sc'" "x = encode_zscore_key n' k' sc'" "(n', k') \<noteq> (n, k)"
      using unscore_rest [OF s _ x(2)] by (auto split: if_splits)
    then show "\<exists>n' k' sc'. zcoll.view (z_put m n k sc) n' k' = Some sc' \<and> x = encode_zscore_key n' k' sc'"
    proof cases
      case 1
      moreover have "zcoll.view (z_put m n k sc) n k = Some sc" using assms by (simp add: view_z_put)
      ultimately show ?thesis by blast
    next
      case (2 n' k' sc')
      then have "zcoll.view (z_put m n k sc) n' k' = Some sc'" using assms by (auto simp: view_z_put)
      with 2 show ?thesis by blast
    qed
  qed
  ultimately show ?thesis by (simp add: zset_inv_def)
qed

lemma z_del_inv:
  assumes "zset_inv m" and "hname_ok n" and "hname_ok k"
  shows "zset_inv (z_del m n k)"
proof -
  have c: "zcoll.coll_inv m" and s: "scores_ok m" using assms(1) by (auto simp: zset_inv_def)
  have "zcoll.coll_inv (z_del m n k)"
    unfolding z_del_def by (rule zcoll.coll_inv_del) (simp_all add: c assms)
  moreover have "scores_ok (z_del m n k)"
    unfolding scores_ok_def
  proof (intro conjI allI impI)
    fix n' k' sc' assume v: "zcoll.view (z_del m n k) n' k' = Some sc'"
    note ok = view_ok [OF v]
    show f: "filter_score sc' = sc'"
      using v s assms by (auto simp: view_z_put scores_ok_def split: if_splits)
    show "z_del m n k (encode_zscore_key n' k' sc') = Some []"
      using v s f ok unfolding z_put_zscore(2) [OF s assms(2) conjunct1 [OF ok] f] view_z_put [OF assms(2,3)]
      by (auto simp: scores_ok_def split: if_splits)
  next
    fix x v assume x: "z_del m n k x = Some v" "key_type x = type_char ZSCORE"
    then have "z_unscore m n k x = Some v" by (simp add: z_del_def coll_put_other)
    then obtain n' k' sc' where "zcoll.view m n' k' = Some sc'" "x = encode_zscore_key n' k' sc'" "(n', k') \<noteq> (n, k)"
      by (rule unscore_rest [OF s _ x(2)])
    then have "zcoll.view (z_del m n k) n' k' = Some sc'" using assms by (auto simp: view_z_put)
    with \<open>x = encode_zscore_key n' k' sc'\<close> show "\<exists>n' k' sc'. zcoll.view (z_del m n k) n' k' = Some sc' \<and> x = encode_zscore_key n' k' sc'"
      by blast
  qed
  ultimately show ?thesis by (simp add: zset_inv_def)
qed

lemma zget_view:
  assumes "\<not> rd_fail (ldb s) (encode_zset_key n k)" and "hname_ok n" and "hname_ok k"
  shows "zget n k s = (case zcoll.view (data_map s) n k of None \<Rightarrow> NotFound | Some v \<Rightarrow> Found v)"
  using assms by (simp add: zget_def ldb_Get_data zcoll.view_def)

lemma zget_tx [store_simps]:
  "zget n k (bl_begin s) = zget n k s" "zget n k (bl_Put a b s) = zget n k s"
  by (simp_all add: zget_def store_simps)

lemma zsize_tx [store_simps]:
  "zsize n (bl_begin s) = zsize n s" "zsize n (bl_Put a b s) = zsize n s"
  "zsize n (bl_Delete a s) = zsize n s" "zsize n (bl_add_log t c a s) = zsize n s"
  by (simp_all add: zsize_def store_simps)

lemma zsize_view:
  assumes "\<not> rd_fail (ldb s) (encode_zsize_key n)" and "zcoll.coll_inv (data_map s)" and "hname_ok n"
    and "size_fits (card (dom (zcoll.view (data_map s) n)))"
  shows "zsize n s = int (card (dom (zcoll.view (data_map s) n)))"
  using zcoll.counted_size [OF assms(2-4)] assms(1) by (simp add: zsize_def ldb_Get_data)

lemma tx_data_incr_zsize [store_simps]:
  "tx_data (fst (incr_zsize n i s)) =
     (tx_data s)(encode_zsize_key n := (if wrap64 (zsize n s + i) = 0 then None
        else Some (le64 (word_of_int (wrap64 (zsize n s + i))))))"
  "ldb (fst (incr_zsize n i s)) = ldb s" "data_map (fst (incr_zsize n i s)) = data_map s"
  by (simp_all add: incr_zsize_def Let_def store_simps)

lemma zset_data:
  assumes "zset_io_ok s name key" and "hname_ok name" and "hname_ok key" and "zset_inv (data_map s)"
    and "size_fits (Suc (card (dom (zcoll.view (data_map s) name))))"
  shows "data_map (fst (zset name key score lt s)) = z_put (data_map s) name key (filter_score score)"
    and "snd (zset name key score lt s) = (if zcoll.view (data_map s) name key = None then 1 else 0)"
proof -
  let ?m = "data_map s" let ?v = "zcoll.view ?m name" and ?sc = "filter_score score"
  have c: "zcoll.coll_inv ?m" and sco: "scores_ok ?m" using assms(4) by (auto simp: zset_inv_def)
  have io: "kv_sorted (entries (ldb s))" "\<not> wr_fail (ldb s)" using assms(1) by (auto simp: zset_io_ok_def)
  have get: "zget name key s = (case ?v key of None \<Rightarrow> NotFound | Some v \<Rightarrow> Found v)"
    using zget_view assms by (simp add: zset_io_ok_def)
  have sz: "zsize name s = int (card (dom ?v))"
    using zsize_view assms c by (simp add: zset_io_ok_def size_fits_def)
  have ok: "name \<noteq> []" "key \<noteq> []" "\<not> length name > SSDB_KEY_LEN_MAX" "\<not> length key > SSDB_KEY_LEN_MAX"
    using assms(2,3) by (auto simp: hname_ok_def name_ok_def)
  have inc: "size_entry (card (dom ?v) + 1) = (if wrap64 (int (card (dom ?v)) + 1) = 0 then None
      else Some (le64 (word_of_int (wrap64 (int (card (dom ?v)) + 1)))))"
    using size_entry_incr [of "int (card (dom ?v)) + 1"] assms(5) by (simp add: nat_add_distrib)
  have same: "?m(encode_zscore_key name key ?sc := None, encode_zscore_key name key ?sc \<mapsto> [],
      encode_zset_key name key \<mapsto> ?sc) = ?m" if "?v key = Some ?sc"
  proof -
    have "?m (encode_zset_key name key) = Some ?sc" using that assms(2,3) by (simp add: zcoll.view_def)
    moreover have "?m (encode_zscore_key name key ?sc) = Some []" using that sco by (simp add: scores_ok_def)
    ultimately show ?thesis by (auto simp: fun_eq_iff)
  qed
  show "data_map (fst (zset name key score lt s)) = z_put ?m name key ?sc"
  proof (cases "?v key = Some ?sc")
    case True
    then show ?thesis using io ok same
      by (simp add: zset_def zset_one_def Let_def store_simps get z_put_def z_unscore_def zcoll.coll_put_def)
  next
    case False
    then show ?thesis using io ok inc
      by (cases "?v key") (auto simp: zset_def zset_one_def Let_def store_simps get sz z_put_def z_unscore_def
          zcoll.coll_put_def)
  qed
  show "snd (zset name key score lt s) = (if ?v key = None then 1 else 0)"
    using io ok by (cases "?v key") (auto simp: zset_def zset_one_def Let_def store_simps get)
qed

lemma zdel_data:
  assumes "zset_io_ok s name key" and "hname_ok name" and "hname_ok key" and "zset_inv (data_map s)"
    and "size_fits (card (dom (zcoll.view (data_map s) name)))"
  shows "data_map (fst (zdel name key lt s)) = z_del (data_map s) name key"
    and "snd (zdel name key lt s) = (if zcoll.view (data_map s) name key = None then 0 else 1)"
proof -
  let ?m = "data_map s" let ?v = "zcoll.view ?m name" let ?c = "card (dom ?v)"
  have c: "zcoll.coll_inv ?m" using assms(4) by (auto simp: zset_inv_def)
  have io: "kv_sorted (entries (ldb s))" "\<not> wr_fail (ldb s)" using assms(1) by (auto simp: zset_io_ok_def)
  have get: "zget name key s = (case ?v key of None \<Rightarrow> NotFound | Some v \<Rightarrow> Found v)"
    using zget_view assms by (simp add: zset_io_ok_def)
  have sz: "zsize name s = int ?c" using zsize_view assms c by (simp add: zset_io_ok_def)
  have ok: "\<not> length name > SSDB_KEY_LEN_MAX" "\<not> length key > SSDB_KEY_LEN_MAX"
    using assms(2,3) by (auto simp: hname_ok_def name_ok_def)
  have "finite (dom ?v)" using assms(2) c by (simp add: zcoll.coll_inv_def zcoll.counted_def)
  then have pos: "?v key \<noteq> None \<Longrightarrow> 0 < ?c" by (auto simp: card_gt_0_iff)
  have dec: "size_entry (?c - 1) = (if wrap64 (int ?c - 1) = 0 then None
      else Some (le64 (word_of_int (wrap64 (int ?c - 1)))))" if "0 < ?c"
    using size_entry_incr [of "int ?c - 1"] assms(5) that by (simp add: nat_diff_distrib size_fits_def)
  show "data_map (fst (zdel name key lt s)) = z_del ?m name key"
    and "snd (zdel name key lt s) = (if ?v key = None then 0 else 1)"
    using io ok dec pos
    by (auto simp: zdel_def zdel_one_def Let_def store_simps get sz z_del_def z_unscore_def zcoll.coll_del_def
        split: option.split)
qed

subsection \<open>Scans in the order of scores\<close>

definition zset_prefix :: "bytes \<Rightarrow> bytes" where
  "zset_prefix name = [type_char ZSCORE] @ [len8 name] @ name"

text \<open>The members of a set, with their scores, in the order of the store.\<close>

definition zset_list :: "ssdb \<Rightarrow> bytes \<Rightarrow> (bytes \<times> bytes) list" where
  "zset_list s name = map (\<lambda>e. snd (the (decode_zscore_key (fst e))))
     (filter (\<lambda>e. prefix (zset_prefix name) (fst e)) (entries (ldb s)))"

definition zlt :: "bytes \<times> bytes \<Rightarrow> bytes \<times> bytes \<Rightarrow> bool" where
  "zlt a b \<longleftrightarrow> Bytes_Int64 (snd a) < Bytes_Int64 (snd b) \<or>
     Bytes_Int64 (snd a) = Bytes_Int64 (snd b) \<and> fst a < fst b"

definition zset_ready :: "ssdb \<Rightarrow> bool" where
  "zset_ready s \<longleftrightarrow> kv_sorted (entries (ldb s)) \<and> scores_ok (data_map s)"

lemma zlt_encode: "encode_zscore_key n k sc < encode_zscore_key n k' sc' \<longleftrightarrow> zlt (k, sc) (k', sc')"
  by (simp add: zlt_def encode_zscore_key_less)

lemma zlt_trans: "zlt a b \<Longrightarrow> zlt b c \<Longrightarrow> zlt a c"
  by (auto simp: zlt_def)

lemma prefix_zscore [simp]: "prefix (zset_prefix name) (encode_zscore_key name k sc)"
  by (simp add: zset_prefix_def encode_zscore_key_def Let_def)

lemma prefix_zscore_name:
  assumes "name_ok n" and "name_ok name" and "prefix (zset_prefix name) (encode_zscore_key n k sc)"
  shows "n = name"
proof -
  have p: "len8 n = len8 name" "prefix name (n @ (if Bytes_Int64 sc < 0 then ''-'' else ''='') @
      le64 (encode_score (Bytes_Int64 sc)) @ ''='' @ k)"
    using assms(3) by (simp_all add: zset_prefix_def encode_zscore_key_def Let_def)
  then have "length n = length name" using of_char_len8 [OF assms(1)] of_char_len8 [OF assms(2)] by metis
  with p(2) show ?thesis by (metis append_eq_append_conv prefixE append.assoc)
qed

lemma zset_entry:
  assumes "zset_ready s" and "hname_ok name" and "e \<in> set (entries (ldb s))" and "prefix (zset_prefix name) (fst e)"
  obtains k sc where "zcoll.view (data_map s) name k = Some sc" "fst e = encode_zscore_key name k sc"
    "decode_zscore_key (fst e) = Some (name, k, sc)" "filter_score sc = sc"
proof -
  have srt: "kv_sorted (entries (ldb s))" and sco: "scores_ok (data_map s)"
    using assms(1) by (auto simp: zset_ready_def zset_inv_def)
  have t: "key_type (fst e) = type_char ZSCORE" using assms(4) by (auto simp: zset_prefix_def prefix_def)
  have "data_map s (fst e) = Some (snd e)"
    using srt assms(3) t by (intro data_map_entry) (simp_all add: is_log_key_iff)
  with sco t obtain n k sc where v: "zcoll.view (data_map s) n k = Some sc" "fst e = encode_zscore_key n k sc"
    unfolding scores_ok_def by blast
  have f: "filter_score sc = sc" using v(1) sco by (auto simp: scores_ok_def)
  have nm: "name_ok n" "name_ok name" using view_ok [OF v(1)] assms(2) by (auto simp: hname_ok_def)
  then have "n = name" using prefix_zscore_name [OF nm, of k sc] assms(4) v(2) by simp
  moreover have "decode_zscore_key (fst e) = Some (n, k, sc)"
    using nm(1) f unfolding v(2) decode_encode_zscore_key [OF nm(1)] by (simp add: filter_score_def)
  ultimately show thesis using v f that by blast
qed

lemma zset_list_set:
  assumes "zset_ready s" and "hname_ok name"
  shows "set (zset_list s name) = {(k, sc). zcoll.view (data_map s) name k = Some sc}"
proof (intro set_eqI iffI)
  fix p assume "p \<in> set (zset_list s name)"
  then obtain e where "e \<in> set (entries (ldb s))" "prefix (zset_prefix name) (fst e)"
      "p = snd (the (decode_zscore_key (fst e)))" by (auto simp: zset_list_def)
  then show "p \<in> {(k, sc). zcoll.view (data_map s) name k = Some sc}"
    by (auto elim: zset_entry [OF assms])
next
  fix p assume "p \<in> {(k, sc). zcoll.view (data_map s) name k = Some sc}"
  then obtain k sc where p: "p = (k, sc)" and v: "zcoll.view (data_map s) name k = Some sc" by auto
  then have "data_map s (encode_zscore_key name k sc) = Some []" and f: "filter_score sc = sc"
    using assms(1) by (auto simp: zset_ready_def zset_inv_def scores_ok_def)
  then have e: "(encode_zscore_key name k sc, []) \<in> set (entries (ldb s))"
    by (auto simp: data_map_def db_map_def dest: map_of_SomeD)
  have "decode_zscore_key (encode_zscore_key name k sc) = Some (name, k, sc)"
    using assms(2) f decode_encode_zscore_key [of name k sc] by (simp add: hname_ok_def filter_score_def)
  with e p show "p \<in> set (zset_list s name)" by (force simp: zset_list_def)
qed

lemma zset_list_sorted:
  assumes "zset_ready s" and "hname_ok name"
  shows "sorted_wrt zlt (zset_list s name)"
  unfolding zset_list_def
proof (rule sorted_wrt_map_on)
  show "sorted_wrt (\<lambda>p q. fst p < fst q) (filter (\<lambda>e. prefix (zset_prefix name) (fst e)) (entries (ldb s)))"
    using assms(1) by (simp add: zset_ready_def kv_sorted_wrt sorted_wrt_filter)
  fix x y assume x: "x \<in> set (filter (\<lambda>e. prefix (zset_prefix name) (fst e)) (entries (ldb s)))"
    and y: "y \<in> set (filter (\<lambda>e. prefix (zset_prefix name) (fst e)) (entries (ldb s)))" and lt: "fst x < fst y"
  from x obtain k sc where "fst x = encode_zscore_key name k sc" "decode_zscore_key (fst x) = Some (name, k, sc)"
    by (auto elim: zset_entry [OF assms])
  moreover from y obtain k' sc' where "fst y = encode_zscore_key name k' sc'"
      "decode_zscore_key (fst y) = Some (name, k', sc')"
    by (auto elim: zset_entry [OF assms])
  ultimately show "zlt (snd (the (decode_zscore_key (fst x)))) (snd (the (decode_zscore_key (fst y))))"
    using lt by (simp add: zlt_encode)
qed

lemma zset_list_filter:
  assumes "zset_ready s" and "hname_ok name" and "\<And>k sc. Q (encode_zscore_key name k sc) = Q' (k, sc)"
    and "\<And>x. Q x \<Longrightarrow> prefix (zset_prefix name) x"
  shows "map (\<lambda>e. snd (the (decode_zscore_key (fst e)))) (filter (\<lambda>e. Q (fst e)) (entries (ldb s))) =
    filter Q' (zset_list s name)"
proof -
  have "filter (\<lambda>e. Q (fst e)) (entries (ldb s)) =
      filter (\<lambda>e. prefix (zset_prefix name) (fst e) \<and> Q' (snd (the (decode_zscore_key (fst e))))) (entries (ldb s))"
  proof (rule filter_cong [OF refl])
    fix e assume "e \<in> set (entries (ldb s))"
    then show "Q (fst e) = (prefix (zset_prefix name) (fst e) \<and> Q' (snd (the (decode_zscore_key (fst e)))))"
      using assms(3,4) by (auto elim!: zset_entry [OF assms(1,2)])
  qed
  then show ?thesis by (simp add: zset_list_def filter_map_pair conj_commute)
qed

lemma Bytes_Int64_SCORE_MIN: "Bytes_Int64 SSDB_SCORE_MIN = INT64_MIN"
  and Bytes_Int64_SCORE_MAX: "Bytes_Int64 SSDB_SCORE_MAX = INT64_MAX"
  by (simp_all add: SSDB_SCORE_MIN_def SSDB_SCORE_MAX_def Bytes_Int64_def strtoll_def strto_scan_def strto_sign_def c_str_def
   INT64_MIN_def INT64_MAX_def isspace_def isdigit_def schar_def str_to_int64_def)

definition z_from :: "bytes \<Rightarrow> bytes" where
  "z_from sc = (if sc = [] then SSDB_SCORE_MIN else sc)"

definition z_to :: "bytes \<Rightarrow> bytes" where
  "z_to sc = (if sc = [] then SSDB_SCORE_MAX else sc)"

definition z_rfrom :: "bytes \<Rightarrow> bytes \<Rightarrow> bytes \<times> bytes" where
  "z_rfrom key sc = (if sc = [] then (key, SSDB_SCORE_MAX) else if key = [] then ([CHR 0xFF], sc) else (key, sc))"

lemma ziterator_it:
  "z_it (ziterator name key a b limit FORWARD s) = ssdb_iterator (ldb s) (encode_zscore_key name key (z_from a))
     (encode_zscore_key name [CHR 0xFF] (z_to b)) limit"
  "z_it (ziterator name key a b limit BACKWARD s) =
     ssdb_rev_iterator (ldb s) (encode_zscore_key name (fst (z_rfrom key a)) (snd (z_rfrom key a)))
       (encode_zscore_key name [] (z_from b)) limit"
  by (simp_all add: ziterator_def ZIterator_new_def Let_def z_from_def z_to_def z_rfrom_def)

lemma encode_zscore_key_prefix: "\<exists>r. encode_zscore_key name k sc = zset_prefix name @ r"
  using prefix_zscore by (auto simp: prefix_def)

lemma ziterator_rest:
  assumes "zset_ready s" and "hname_ok name"
  shows "\<forall>e \<in> set (iter_rest (z_it (ziterator name key a b limit dir s))). entry_ZSCORE e \<and> zscore_key_wf e"
    and "iter_ok (z_it (ziterator name key a b limit dir s))"
    and "map (\<lambda>e. snd (the (decode_zscore_key (fst e)))) (iter_rest (z_it (ziterator name key a b limit FORWARD s))) =
      take (unat limit) (filter (\<lambda>e. zlt (key, z_from a) e \<and> \<not> zlt ([CHR 0xFF], z_to b) e) (zset_list s name))"
    and "map (\<lambda>e. snd (the (decode_zscore_key (fst e)))) (iter_rest (z_it (ziterator name key a b limit BACKWARD s))) =
      take (unat limit) (rev (filter (\<lambda>e. zlt e (z_rfrom key a) \<and> \<not> zlt e ([], z_from b)) (zset_list s name)))"
proof -
  have srt: "kv_sorted (entries (ldb s))" using assms(1) by (simp add: zset_ready_def)
  let ?k = "encode_zscore_key name"
  let ?F = "\<lambda>x. ?k key (z_from a) < x \<and> (?k [CHR 0xFF] (z_to b) = [] \<or> x \<le> ?k [CHR 0xFF] (z_to b))"
  let ?B = "\<lambda>x. x < ?k (fst (z_rfrom key a)) (snd (z_rfrom key a)) \<and> (?k [] (z_from b) = [] \<or> ?k [] (z_from b) \<le> x)"
  have ne: "?k x y \<noteq> []" for x y by (simp add: encode_zscore_key_def Let_def)
  have btw: "prefix (zset_prefix name) x" if "?k p q \<le> x" "x \<le> ?k p' q'" for x p q p' q'
    using encode_zscore_key_prefix [of name p q] encode_zscore_key_prefix [of name p' q'] that
    by (auto intro: prefix_between)
  have F: "prefix (zset_prefix name) x" if "?F x" for x using that ne by (auto intro: btw less_imp_le)
  have B: "prefix (zset_prefix name) x" if "?B x" for x using that ne by (auto intro: btw less_imp_le)
  note it = ziterator_it ssdb_iterator_rest(2) [OF srt] ssdb_rev_iterator_rest(2) [OF srt]
  show "map (\<lambda>e. snd (the (decode_zscore_key (fst e)))) (iter_rest (z_it (ziterator name key a b limit FORWARD s))) =
      take (unat limit) (filter (\<lambda>e. zlt (key, z_from a) e \<and> \<not> zlt ([CHR 0xFF], z_to b) e) (zset_list s name))"
    unfolding it take_map [symmetric]
    by (rule arg_cong [where f = "take _"], rule zset_list_filter [OF assms _ F])
       (auto simp: ne zlt_encode not_less [symmetric])
  show "map (\<lambda>e. snd (the (decode_zscore_key (fst e)))) (iter_rest (z_it (ziterator name key a b limit BACKWARD s))) =
      take (unat limit) (rev (filter (\<lambda>e. zlt e (z_rfrom key a) \<and> \<not> zlt e ([], z_from b)) (zset_list s name)))"
    unfolding it take_map [symmetric] rev_map [symmetric]
    by (rule arg_cong [where f = "\<lambda>x. take _ (rev x)"], rule zset_list_filter [OF assms _ B])
       (auto simp: ne zlt_encode not_less [symmetric])
  have wf: "entry_ZSCORE e \<and> zscore_key_wf e" if "e \<in> set (entries (ldb s))" "prefix (zset_prefix name) (fst e)" for e
    by (rule zset_entry [OF assms that]) (simp add: entry_ZSCORE_def zscore_key_wf_def)
  have "e \<in> set (entries (ldb s)) \<and> prefix (zset_prefix name) (fst e)"
    if "e \<in> set (iter_rest (z_it (ziterator name key a b limit dir s)))" for e
  proof (cases dir)
    case FORWARD
    from that have "e \<in> set (filter (\<lambda>e. ?F (fst e)) (entries (ldb s)))" unfolding FORWARD it by (rule in_set_takeD)
    then show ?thesis unfolding set_filter using F [of "fst e"] by blast
  next
    case BACKWARD
    from that have "e \<in> set (rev (filter (\<lambda>e. ?B (fst e)) (entries (ldb s))))" unfolding BACKWARD it by (rule in_set_takeD)
    then show ?thesis unfolding set_rev set_filter using B [of "fst e"] by blast
  qed
  then show "\<forall>e \<in> set (iter_rest (z_it (ziterator name key a b limit dir s))). entry_ZSCORE e \<and> zscore_key_wf e"
    using wf by blast
  show "iter_ok (z_it (ziterator name key a b limit dir s))"
    by (cases dir) (simp_all add: ziterator_it ssdb_iterator_rest [OF srt] ssdb_rev_iterator_rest [OF srt])
qed

lemma ziter_drain_all:
  assumes "iter_ok (z_it z)" and "\<forall>e \<in> set (iter_rest (z_it z)). entry_ZSCORE e \<and> zscore_key_wf e"
  shows "ziter.drain n z = take n (map (\<lambda>e. snd (the (decode_zscore_key (fst e)))) (iter_rest (z_it z)))"
proof -
  have "takeWhile entry_ZSCORE (iter_rest (z_it z)) = iter_rest (z_it z)" using assms(2) by simp
  moreover have "ziter.drain n z = take n (map (\<lambda>e. snd (the (decode_zscore_key (fst e))))
      (takeWhile entry_ZSCORE (iter_rest (z_it z))))"
    using ziter.drain_correct [OF TrueI assms(1), of n] assms(2) by blast
  ultimately show ?thesis by (simp only:)
qed

lemma ziterator_correct:
  assumes "zset_ready s" and "hname_ok name"
  shows "ziter.drain n (ziterator name key a b limit FORWARD s) =
      take n (take (unat limit)
        (filter (\<lambda>e. zlt (key, z_from a) e \<and> \<not> zlt ([CHR 0xFF], z_to b) e) (zset_list s name)))"
    and "ziter.drain n (ziterator name key a b limit BACKWARD s) =
      take n (take (unat limit)
        (rev (filter (\<lambda>e. zlt e (z_rfrom key a) \<and> \<not> zlt e ([], z_from b)) (zset_list s name))))"
  by (simp_all only: ziter_drain_all [OF ziterator_rest(2,1) [OF assms]] ziterator_rest(3,4) [OF assms])

subsection \<open>Ranks and ranges\<close>

definition z_ok :: "z_iterator \<Rightarrow> bool" where
  "z_ok z \<longleftrightarrow> iter_ok (z_it z) \<and> (\<forall>e \<in> set (iter_rest (z_it z)). entry_ZSCORE e \<and> zscore_key_wf e)"

definition z_rest :: "z_iterator \<Rightarrow> (bytes \<times> bytes) list" where
  "z_rest z = map (\<lambda>e. snd (the (decode_zscore_key (fst e)))) (iter_rest (z_it z))"

lemma ZIterator_next_rest:
  assumes "z_ok z" and "ZIterator_next z = (z', b)"
  shows "z_ok z'" and "b \<longleftrightarrow> z_rest z \<noteq> []" and "z_rest z' = tl (z_rest z)"
    and "b \<Longrightarrow> hd (z_rest z) = (z_key z', z_score z')"
proof -
  have ok: "iter_ok (z_it z)" "\<forall>e \<in> set (iter_rest (z_it z)). entry_ZSCORE e \<and> zscore_key_wf e"
    using assms(1) by (auto simp: z_ok_def)
  have "z_ok z' \<and> b = (z_rest z \<noteq> []) \<and> z_rest z' = tl (z_rest z) \<and> (b \<longrightarrow> hd (z_rest z) = (z_key z', z_score z'))"
  proof (cases "iter_rest (z_it z)")
    case Nil
    obtain it c where it: "Iterator_next (z_it z) = (it, c)" by fastforce
    note cs = Iterator_next_cases [OF ok(1) it]
    have c: "c = False" "iter_rest it = []" "iter_ok it" using cs Nil by auto
    have "ZIterator_next z = (z\<lparr>z_it := it\<rparr>, False)" unfolding ZIterator_next.simps [of z] it c(1) by simp
    then have "z' = z\<lparr>z_it := it\<rparr>" "\<not> b" using assms(2) by auto
    with Nil c show ?thesis by (simp add: z_ok_def z_rest_def)
  next
    case (Cons e es)
    with ZIterator_next_step [OF ok(1) Cons] ok(2) assms(2) show ?thesis by (auto simp: z_ok_def z_rest_def)
  qed
  then show "z_ok z'" and "b \<longleftrightarrow> z_rest z \<noteq> []" and "z_rest z' = tl (z_rest z)"
    and "b \<Longrightarrow> hd (z_rest z) = (z_key z', z_score z')" by blast+
qed

lemma ZIterator_skip_rest:
  "z_ok z \<Longrightarrow> z_ok (fst (ZIterator_skip_n n z)) \<and> z_rest (fst (ZIterator_skip_n n z)) = drop n (z_rest z)"
proof (induction n arbitrary: z)
  case (Suc n)
  obtain z' b where z': "ZIterator_next z = (z', b)" by fastforce
  note r = ZIterator_next_rest [OF Suc.prems z']
  show ?case
  proof (cases b)
    case True
    then show ?thesis using Suc.IH [OF r(1)] r(3) z' by (simp add: drop_Suc)
  next
    case False
    then show ?thesis using r z' by simp
  qed
qed simp

lemma zrank_loop_correct:
  "z_ok z \<Longrightarrow> zrank_loop key z r =
    (let n = length (takeWhile (\<lambda>e. fst e \<noteq> key) (z_rest z))
     in if n < length (z_rest z) then int (r + n) else -1)"
proof (induction "length (z_rest z)" arbitrary: z r)
  case 0
  obtain z' b where z': "ZIterator_next z = (z', b)" by fastforce
  with ZIterator_next_rest [OF "0.prems" z'] "0.hyps" show ?case by (simp add: zrank_loop.simps [of key z r])
next
  case (Suc n)
  obtain z' b where z': "ZIterator_next z = (z', b)" by fastforce
  obtain x xs where x: "z_rest z = x # xs" using Suc.hyps(2) by (cases "z_rest z") auto
  note r = ZIterator_next_rest [OF Suc.prems z']
  with x have b: "b" "z_rest z' = xs" "x = (z_key z', z_score z')" by auto
  show ?case
    using Suc.hyps(1) [of z'] Suc.hyps(2) r(1) b x z' by (auto simp: zrank_loop.simps [of key z r] Let_def)
qed

lemma ziter_drain_rest: "z_ok z \<Longrightarrow> ziter.drain n z = take n (z_rest z)"
  using ziter_drain_all [of z n] by (simp add: z_ok_def z_rest_def)

lemma ziterator_z_rest:
  assumes "zset_ready s" and "hname_ok name"
  shows "z_ok (ziterator name key a b limit dir s)"
    and "z_rest (ziterator name key a b limit FORWARD s) =
      take (unat limit) (filter (\<lambda>e. zlt (key, z_from a) e \<and> \<not> zlt ([CHR 0xFF], z_to b) e) (zset_list s name))"
    and "z_rest (ziterator name key a b limit BACKWARD s) =
      take (unat limit) (rev (filter (\<lambda>e. zlt e (z_rfrom key a) \<and> \<not> zlt e ([], z_from b)) (zset_list s name)))"
  using ziterator_rest(1,2) [OF assms, of key a b limit dir] unfolding z_ok_def z_rest_def
  by (simp_all only: ziterator_rest(3,4) [OF assms] simp_thms)

text \<open>
  The members an unbounded scan reaches. Upwards, those above \<open>"\xff"\<close> at the largest score
  are out of range; downwards, all members at the largest score are.
\<close>

definition z_up :: "bytes \<times> bytes \<Rightarrow> bool" where
  "z_up e \<longleftrightarrow> Bytes_Int64 (snd e) < INT64_MAX \<or> fst e \<le> [CHR 0xFF]"

definition z_down :: "bytes \<times> bytes \<Rightarrow> bool" where
  "z_down e \<longleftrightarrow> Bytes_Int64 (snd e) < INT64_MAX"

lemma Bytes_Int64_bounds: "INT64_MIN \<le> Bytes_Int64 sc" "Bytes_Int64 sc \<le> INT64_MAX"
  using in_int64_Bytes_Int64 [of sc] by (simp_all add: in_int64_def INT64_MIN_def INT64_MAX_def)

lemma z_bounds:
  "hname_ok (fst e) \<Longrightarrow> zlt ([], z_from []) e \<and> \<not> zlt ([CHR 0xFF], z_to []) e \<longleftrightarrow> z_up e"
  "zlt e (z_rfrom [] []) \<and> \<not> zlt e ([], z_from []) \<longleftrightarrow> z_down e"
  using Bytes_Int64_bounds [of "snd e"]
  by (auto simp: zlt_def z_from_def z_to_def z_rfrom_def z_up_def z_down_def Bytes_Int64_SCORE_MIN
      Bytes_Int64_SCORE_MAX hname_ok_def)

lemma zset_list_ok: "zset_ready s \<Longrightarrow> hname_ok name \<Longrightarrow> e \<in> set (zset_list s name) \<Longrightarrow> hname_ok (fst e)"
  by (auto simp: zset_list_set dest: view_ok)

lemma z_rest_all:
  assumes "zset_ready s" and "hname_ok name"
  shows "z_rest (ziterator name [] [] [] limit FORWARD s) = take (unat limit) (filter z_up (zset_list s name))"
    and "z_rest (ziterator name [] [] [] limit BACKWARD s) = take (unat limit) (rev (filter z_down (zset_list s name)))"
proof -
  have "filter (\<lambda>e. zlt ([], z_from []) e \<and> \<not> zlt ([CHR 0xFF], z_to []) e) (zset_list s name) =
      filter z_up (zset_list s name)"
    by (rule filter_cong [OF refl], rule z_bounds) (rule zset_list_ok [OF assms])
  then show "z_rest (ziterator name [] [] [] limit FORWARD s) = take (unat limit) (filter z_up (zset_list s name))"
    unfolding ziterator_z_rest [OF assms] by simp
  show "z_rest (ziterator name [] [] [] limit BACKWARD s) = take (unat limit) (rev (filter z_down (zset_list s name)))"
    unfolding ziterator_z_rest [OF assms] z_bounds ..
qed

lemma range_limit:
  fixes offset limit :: u64
  assumes "unat offset + unat limit < 2 ^ 64"
  shows "unat (if offset + limit > limit then offset + limit else limit) = unat offset + unat limit"
proof -
  have "unat (offset + limit) = unat offset + unat limit" using assms by (simp add: unat_word_ariths)
  then show ?thesis by (auto simp: word_less_nat_alt)
qed

lemma zrange_correct:
  assumes "zset_ready s" and "hname_ok name" and "unat offset + unat limit < 2 ^ 64"
  shows "ziter.drain n (zrange name offset limit s) =
      take n (take (unat limit) (drop (unat offset) (filter z_up (zset_list s name))))"
    and "ziter.drain n (zrrange name offset limit s) =
      take n (take (unat limit) (drop (unat offset) (rev (filter z_down (zset_list s name)))))"
proof -
  let ?l = "if offset + limit > limit then offset + limit else limit"
  note skip = ZIterator_skip_rest [OF ziterator_z_rest(1) [OF assms(1,2)], of "unat offset" "[]" "[]" "[]" ?l]
  have d: "ziter.drain n (fst (ZIterator_skip offset (ziterator name [] [] [] ?l dir s))) =
      take n (drop (unat offset) (z_rest (ziterator name [] [] [] ?l dir s)))" for dir
    using ziter_drain_rest [OF conjunct1 [OF skip], of n dir] skip [of dir] by (simp only: ZIterator_skip_def)
  show "ziter.drain n (zrange name offset limit s) =
      take n (take (unat limit) (drop (unat offset) (filter z_up (zset_list s name))))"
    and "ziter.drain n (zrrange name offset limit s) =
      take n (take (unat limit) (drop (unat offset) (rev (filter z_down (zset_list s name)))))"
    unfolding zrange_def zrrange_def Let_def d z_rest_all [OF assms(1,2)] range_limit [OF assms(3)]
    by (simp_all only: drop_take add_diff_cancel_left')
qed

lemma zlt_irrefl [simp]: "\<not> zlt a a"
  by (simp add: zlt_def)

lemma zset_list_distinct:
  assumes "zset_ready s" and "hname_ok name"
  shows "distinct (map fst (zset_list s name))" and "length (zset_list s name) = card (dom (zcoll.view (data_map s) name))"
proof -
  have "distinct (zset_list s name)"
    using zset_list_sorted [OF assms] by (induction "zset_list s name" rule: list.induct) (auto simp: distinct_conv_nth sorted_wrt_iff_nth_less, metis zlt_irrefl linorder_neqE_nat)
  moreover have inj: "inj_on fst (set (zset_list s name))"
    unfolding zset_list_set [OF assms] by (auto simp: inj_on_def)
  ultimately show d: "distinct (map fst (zset_list s name))" by (simp add: distinct_map)
  have "fst ` set (zset_list s name) = dom (zcoll.view (data_map s) name)"
    unfolding zset_list_set [OF assms] by (force simp: dom_def)
  then show "length (zset_list s name) = card (dom (zcoll.view (data_map s) name))"
    using distinct_card [OF d] by simp
qed


text \<open>The rank of a member is the number of members before it.\<close>

lemma zrank_correct:
  assumes "zset_ready s" and "hname_ok name" and "zcoll.view (data_map s) name key = Some sc" and "z_up (key, sc)"
    and "card (dom (zcoll.view (data_map s) name)) \<le> unat INT_MAX_U64"
  shows "zrank name key s = int (card {e. zcoll.view (data_map s) name (fst e) = Some (snd e) \<and> zlt e (key, sc)})"
proof -
  let ?L = "zset_list s name"
  have mono: "z_up a" if "zlt a b" "z_up b" for a b
    using that Bytes_Int64_bounds(2) [of "snd b"] by (auto simp: zlt_def z_up_def)
  have fl: "filter z_up ?L = takeWhile z_up ?L"
    by (rule takeWhile_eq_filter [symmetric, OF zset_list_sorted [OF assms(1,2)]]) (rule mono)
  have "(key, sc) \<in> set (filter z_up ?L)" using assms(3,4) by (simp add: zset_list_set [OF assms(1,2)])
  then obtain i where i: "i < length (filter z_up ?L)" "filter z_up ?L ! i = (key, sc)"
    by (meson in_set_conv_nth)
  have lenL: "i < length ?L" "?L ! i = (key, sc)"
    using i unfolding fl by (auto simp: takeWhile_nth dest: order.strict_trans2 [OF _ length_takeWhile_le])
  have "z_rest (ziterator name [] [] [] INT_MAX_U64 FORWARD s) = filter z_up ?L"
    unfolding z_rest_all [OF assms(1,2)] using assms(5) zset_list_distinct(2) [OF assms(1,2)]
    by (simp add: order.trans [OF length_filter_le])
  moreover have "length (takeWhile (\<lambda>e. fst e \<noteq> key) (filter z_up ?L)) = i"
    using index_takeWhile [OF i(1)] zset_list_distinct(1) [OF assms(1,2)] i(2) by (simp add: distinct_map_filter)
  ultimately have "zrank name key s = int i"
    using i(1) unfolding zrank_def zrank_loop_correct [OF ziterator_z_rest(1) [OF assms(1,2)]] by (simp add: Let_def)
  moreover have "{e. zcoll.view (data_map s) name (fst e) = Some (snd e) \<and> zlt e (key, sc)} = {x \<in> set ?L. zlt x (?L ! i)}"
    unfolding zset_list_set [OF assms(1,2)] lenL(2) by auto
  moreover have "card {x \<in> set ?L. zlt x (?L ! i)} = i"
    by (rule sorted_wrt_index [OF zset_list_sorted [OF assms(1,2)] lenL(1)]) (auto intro: zlt_trans)
  ultimately show ?thesis by simp
qed

lemma zrank_none:
  assumes "zset_ready s" and "hname_ok name" and "zcoll.view (data_map s) name key = None"
  shows "zrank name key s = -1" and "zrrank name key s = -1"
proof -
  have "\<forall>e \<in> set (zset_list s name). fst e \<noteq> key"
    using assms(3) unfolding zset_list_set [OF assms(1,2)] by auto
  then have "takeWhile (\<lambda>e. fst e \<noteq> key) (z_rest (ziterator name [] [] [] INT_MAX_U64 dir s)) =
      z_rest (ziterator name [] [] [] INT_MAX_U64 dir s)" for dir
    by (cases dir) (auto simp: z_rest_all [OF assms(1,2)] dest!: in_set_takeD)
  then show "zrank name key s = -1" and "zrrank name key s = -1"
    unfolding zrank_def zrrank_def zrank_loop_correct [OF ziterator_z_rest(1) [OF assms(1,2)]] by (simp_all only: Let_def)
      simp_all
qed

subsection \<open>Properties of the sorted sets\<close>

text \<open>Where the operations on a sorted set work as intended: the store answers, the invariant
  holds and the counter has room.\<close>

definition zset_good :: "ssdb \<Rightarrow> bytes \<Rightarrow> bool" where
  "zset_good s name \<longleftrightarrow> io_ok s \<and> zset_inv (data_map s) \<and> hname_ok name \<and>
     size_fits (card (dom (zcoll.view (data_map s) name)))"

lemma zset_goodD:
  assumes "zset_good s name"
  shows "io_ok s" "zset_inv (data_map s)" "hname_ok name" "zset_ready s"
    and "size_fits (card (dom (zcoll.view (data_map s) name)))" "finite (dom (zcoll.view (data_map s) name))"
  using assms by (auto simp: zset_good_def io_ok_def zset_ready_def zset_inv_def zcoll.coll_inv_def zcoll.counted_def)

lemma zget_io:
  "io_ok s \<Longrightarrow> hname_ok n \<Longrightarrow> hname_ok k \<Longrightarrow>
    zget n k s = (case zcoll.view (data_map s) n k of None \<Rightarrow> NotFound | Some v \<Rightarrow> Found v)"
  by (rule zget_view) (simp_all add: io_ok_def)

lemma zsize_good: "zset_good s name \<Longrightarrow> zsize name s = int (card (dom (zcoll.view (data_map s) name)))"
  by (rule zsize_view) (auto simp: zset_good_def io_ok_def zset_inv_def)

lemma io_ok_zset: "io_ok s \<Longrightarrow> zset_io_ok s name key"
  by (simp add: io_ok_def zset_io_ok_def)

lemma zget_members:
  assumes "zset_good s name"
  shows "zcoll.view (data_map s) name k = Some sc \<longleftrightarrow> hname_ok k \<and> zget name k s = Found sc"
  using zget_io [OF zset_goodD(1,3) [OF assms], of k] by (auto simp: zcoll.view_def split: option.splits)

lemma z_put_good:
  assumes "zset_good s name" and "hname_ok key" and "size_fits (Suc (nat (zsize name s)))"
  shows "zset_good (fst (zset name key score lt s)) name"
    and "data_map (fst (zset name key score lt s)) = z_put (data_map s) name key (filter_score score)"
    and "snd (zset name key score lt s) = (if zcoll.view (data_map s) name key = None then 1 else 0)"
proof -
  note r = zset_goodD [OF assms(1)]
  have sf: "size_fits (Suc (card (dom (zcoll.view (data_map s) name))))"
    using assms(3) zsize_good [OF assms(1)] by simp
  note d = zset_data [OF io_ok_zset [OF r(1)] r(3) assms(2) r(2) sf, of score lt]
  show e: "data_map (fst (zset name key score lt s)) = z_put (data_map s) name key (filter_score score)" by (rule d(1))
  show "snd (zset name key score lt s) = (if zcoll.view (data_map s) name key = None then 1 else 0)" by (rule d(2))
  have "card (dom ((zcoll.view (data_map s) name)(key \<mapsto> filter_score score))) \<le> Suc (card (dom (zcoll.view (data_map s) name)))"
    using r(6) by (simp add: card_insert_if)
  with sf have "size_fits (card (dom (zcoll.view (data_map (fst (zset name key score lt s))) name)))"
    unfolding e view_z_put [OF r(3) assms(2)] by (simp add: size_fits_def)
  with r assms(2) show "zset_good (fst (zset name key score lt s)) name"
    unfolding zset_good_def e by (auto intro: io_ok_run [OF _ zset_run] z_put_inv)
qed


lemma z_del_good:
  assumes "zset_good s name" and "hname_ok key"
  shows "zset_good (fst (zdel name key lt s)) name"
    and "data_map (fst (zdel name key lt s)) = z_del (data_map s) name key"
    and "snd (zdel name key lt s) = (if zcoll.view (data_map s) name key = None then 0 else 1)"
proof -
  note r = zset_goodD [OF assms(1)]
  note d = zdel_data [OF io_ok_zset [OF r(1)] r(3) assms(2) r(2,5), of lt]
  show e: "data_map (fst (zdel name key lt s)) = z_del (data_map s) name key" by (rule d(1))
  show "snd (zdel name key lt s) = (if zcoll.view (data_map s) name key = None then 0 else 1)" by (rule d(2))
  have "card (dom ((zcoll.view (data_map s) name)(key := None))) \<le> card (dom (zcoll.view (data_map s) name))"
    using r(6) by (auto intro: card_mono)
  with r(5) have "size_fits (card (dom (zcoll.view (data_map (fst (zdel name key lt s))) name)))"
    unfolding e view_z_put [OF r(3) assms(2)] by (simp add: size_fits_def)
  with r assms(2) show "zset_good (fst (zdel name key lt s)) name"
    unfolding zset_good_def e by (auto intro: io_ok_run [OF _ zdel_run] z_del_inv)
qed

text \<open>C3. \<open>zset\<close> gives the member the score, in its decimal form: it returns 1 for a new member and 0 for a
  member that was there, \<open>zget\<close> returns the new score and the scores of all other members of all sets as
  before, \<open>zsize\<close> grows by the number of members added, and the invariant is kept: the counter is the
  number of members, each member has exactly the one score key of its score.\<close>

theorem zset_stores:
  assumes "zset_good s name" and "hname_ok key" and "size_fits (Suc (nat (zsize name s)))"
  shows "\<exists>s' d. zset name key score lt s = (s', d) \<and> d = (if zget name key s = NotFound then 1 else 0) \<and>
    zset_good s' name \<and> zsize name s' = zsize name s + d \<and>
    (\<forall>n k. hname_ok n \<and> hname_ok k \<longrightarrow>
       zget n k s' = (if n = name \<and> k = key then Found (str_int64 (Bytes_Int64 score)) else zget n k s)) \<and>
    (\<forall>x. key_type x \<notin> {type_char ZSET, type_char ZSIZE, type_char ZSCORE} \<longrightarrow> data_map s' x = data_map s x)"
proof -
  note p = z_put_good [OF assms, of score lt] and r = zset_goodD [OF assms(1)]
  let ?s' = "fst (zset name key score lt s)" let ?V = "zcoll.view (data_map s) name"
  have v: "zcoll.view (data_map ?s') n = (if n = name then ?V(key \<mapsto> filter_score score) else zcoll.view (data_map s) n)" for n
    unfolding p(2) by (rule view_z_put [OF r(3) assms(2)])
  have g: "zget name key s = NotFound \<longleftrightarrow> ?V key = None"
    using zget_io [OF r(1,3) assms(2)] by (simp split: option.split)
  have "zsize name ?s' = zsize name s + (if ?V key = None then 1 else 0)"
    unfolding zsize_good [OF p(1)] zsize_good [OF assms(1)] v using r(6)
    by (simp add: card_insert_if domIff)
  moreover have "zget n k ?s' = (if n = name \<and> k = key then Found (str_int64 (Bytes_Int64 score)) else zget n k s)"
    if "hname_ok n \<and> hname_ok k" for n k
    using that zget_io [OF zset_goodD(1) [OF p(1)], of n k] zget_io [OF r(1), of n k] by (simp add: v filter_score_def)
  moreover have "data_map ?s' x = data_map s x" if "key_type x \<notin> {type_char ZSET, type_char ZSIZE, type_char ZSCORE}" for x
    using that unfolding p(2) by (rule z_put_other)
  ultimately show ?thesis using p(1,3) g
    by (intro exI [of _ ?s'] exI [of _ "snd (zset name key score lt s)"]) (simp add: prod_eq_iff)
qed

lemma fresh_zset_good: "hname_ok name \<Longrightarrow> zset_good fresh_db name"
  by (simp add: zset_good_def zset_inv_def scores_ok_def zcoll.coll_inv_empty zcoll.view_def size_fits_def dom_def)

lemma fresh_zsize: "hname_ok name \<Longrightarrow> zsize name fresh_db = 0"
  using zsize_good [OF fresh_zset_good] by (simp add: zcoll.view_def dom_def)

lemma set_db_ok: "hname_ok ''z''" "hname_ok ''a''"
  by (simp_all add: hname_ok_def name_ok_def SSDB_KEY_LEN_MAX_def)

theorem zset_stores_witness:
  "\<exists>s'. zset ''z'' ''a'' ''7'' (CHR 0x01) fresh_db = (s', 1) \<and> zget ''z'' ''a'' s' = Found ''7'' \<and> zsize ''z'' s' = 1"
proof -
  have "str_int64 (Bytes_Int64 ''7'') = ''7''" by code_simp
  moreover have "zget ''z'' ''a'' fresh_db = NotFound"
    using zget_io [OF fresh_io set_db_ok] by (simp add: zcoll.view_def)
  ultimately show ?thesis
    using zset_stores [OF fresh_zset_good [OF set_db_ok(1)] set_db_ok(2), of "''7''" "CHR 0x01"] fresh_zsize [OF set_db_ok(1)] set_db_ok
    by (auto simp: size_fits_def)
qed

definition set_db :: ssdb where
  "set_db = fst (zset ''z'' ''a'' ''7'' (CHR 0x01) fresh_db)"

lemma set_db_facts:
  "zset_good set_db ''z''" "zcoll.view (data_map set_db) ''z'' = [''a'' \<mapsto> ''7'']"
proof -
  note r = fresh_zset_good [OF set_db_ok(1)]
  have "size_fits (Suc (nat (zsize ''z'' fresh_db)))"
    using fresh_zsize [OF set_db_ok(1)] by (simp add: size_fits_def)
  note p = z_put_good [OF r set_db_ok(2) this, of "''7''" "CHR 0x01", folded set_db_def]
  have f: "filter_score ''7'' = ''7''" by code_simp
  show "zset_good set_db ''z''" by (rule p(1))
  show "zcoll.view (data_map set_db) ''z'' = [''a'' \<mapsto> ''7'']"
    unfolding p(2) view_z_put [OF set_db_ok] by (simp add: f zcoll.view_def fun_eq_iff)
qed

text \<open>\<open>zdel\<close> removes the member and its score key: it returns 1 when the member was there and 0 when it
  was not, \<open>zget\<close> then finds no such member and all other members of all sets as before, and \<open>zsize\<close>
  shrinks by the number of members removed.\<close>

theorem zdel_removes:
  assumes "zset_good s name" and "hname_ok key"
  shows "\<exists>s' d. zdel name key lt s = (s', d) \<and> d = (if zget name key s = NotFound then 0 else 1) \<and>
    zset_good s' name \<and> zsize name s' = zsize name s - d \<and>
    (\<forall>n k. hname_ok n \<and> hname_ok k \<longrightarrow>
       zget n k s' = (if n = name \<and> k = key then NotFound else zget n k s)) \<and>
    (\<forall>x. key_type x \<notin> {type_char ZSET, type_char ZSIZE, type_char ZSCORE} \<longrightarrow> data_map s' x = data_map s x)"
proof -
  note p = z_del_good [OF assms, of lt] and r = zset_goodD [OF assms(1)]
  let ?s' = "fst (zdel name key lt s)" let ?V = "zcoll.view (data_map s) name"
  have v: "zcoll.view (data_map ?s') n = (if n = name then ?V(key := None) else zcoll.view (data_map s) n)" for n
    unfolding p(2) by (rule view_z_put [OF r(3) assms(2)])
  have g: "zget name key s = NotFound \<longleftrightarrow> ?V key = None"
    using zget_io [OF r(1,3) assms(2)] by (simp split: option.split)
  have "?V key \<noteq> None \<Longrightarrow> 0 < card (dom ?V)" using r(6) by (auto simp: card_gt_0_iff)
  then have "zsize name ?s' = zsize name s - (if ?V key = None then 0 else 1)"
    unfolding zsize_good [OF p(1)] zsize_good [OF assms(1)] v using r(6)
    by (auto simp: card_Diff_singleton_if domIff)
  moreover have "zget n k ?s' = (if n = name \<and> k = key then NotFound else zget n k s)"
    if "hname_ok n \<and> hname_ok k" for n k
    using that zget_io [OF zset_goodD(1) [OF p(1)], of n k] zget_io [OF r(1), of n k] by (simp add: v)
  moreover have "data_map ?s' x = data_map s x" if "key_type x \<notin> {type_char ZSET, type_char ZSIZE, type_char ZSCORE}" for x
    using that unfolding p(2) by (rule z_put_other)
  ultimately show ?thesis using p(1,3) g
    by (intro exI [of _ ?s'] exI [of _ "snd (zdel name key lt s)"]) (simp add: prod_eq_iff)
qed

theorem zdel_removes_witness:
  "\<exists>s'. zdel ''z'' ''a'' (CHR 0x01) set_db = (s', 1) \<and> zget ''z'' ''a'' s' = NotFound \<and> zsize ''z'' s' = 0"
proof -
  have "zsize ''z'' set_db = 1" "zget ''z'' ''a'' set_db \<noteq> NotFound"
    using zsize_good [OF set_db_facts(1)] zget_io [OF zset_goodD(1) [OF set_db_facts(1)] set_db_ok]
    by (simp_all add: set_db_facts)
  with zdel_removes [OF set_db_facts(1) set_db_ok(2), of "CHR 0x01"] set_db_ok show ?thesis by auto
qed



lemma set_db_members: "hname_ok k \<and> zget ''z'' k set_db = Found c \<longleftrightarrow> k = ''a'' \<and> c = ''7''"
  using zget_members [OF set_db_facts(1), of k c] by (auto simp: set_db_facts split: if_splits)

lemma Bytes_Int64_7: "Bytes_Int64 ''7'' = 7"
  by code_simp


text \<open>C28. \<open>zrange\<close> returns the members of the positions \<open>offset\<close>, \<open>offset + 1\<close>, ... of the order by score and
  key, with their scores, \<open>limit\<close> of them; \<open>zrrange\<close> does so for the reverse order. The forward scan
  reaches the members up to the key \<open>"\xff"\<close> of the largest score, the backward scan no member of that
  score.\<close>

theorem zrange_slice:
  assumes "zset_good s name" and "unat offset + unat limit < 2 ^ 64"
  shows "\<exists>L. ziter.drain n (zrange name offset limit s) =
      take n (take (unat limit) (drop (unat offset)
        (filter (\<lambda>(k, sc). Bytes_Int64 sc < INT64_MAX \<or> k \<le> [CHR 0xFF]) L))) \<and>
    ziter.drain n (zrrange name offset limit s) =
      take n (take (unat limit) (drop (unat offset) (rev (filter (\<lambda>(k, sc). Bytes_Int64 sc < INT64_MAX) L)))) \<and>
    sorted_wrt zlt L \<and> set L = {(k, sc). hname_ok k \<and> zget name k s = Found sc}"
proof -
  note r = zset_goodD [OF assms(1)]
  have u: "z_up = (\<lambda>(k, sc). Bytes_Int64 sc < INT64_MAX \<or> k \<le> [CHR 0xFF])"
    and d: "z_down = (\<lambda>(k, sc). Bytes_Int64 sc < INT64_MAX)"
    by (auto simp: z_up_def z_down_def fun_eq_iff)
  have "set (zset_list s name) = {(k, sc). hname_ok k \<and> zget name k s = Found sc}"
    unfolding zset_list_set [OF r(4,3)] by (simp add: zget_members [OF assms(1)])
  then show ?thesis
    using zrange_correct [OF r(4,3) assms(2), of n] zset_list_sorted [OF r(4,3)] unfolding u d by blast
qed

lemma sorted_singleton:
  assumes "sorted_wrt zlt L" and "set L = {x}"
  shows "L = [x]"
proof -
  obtain ys where L: "L = x # ys" using assms(2) by (cases L) auto
  have "y \<notin> set ys" for y
  proof
    assume "y \<in> set ys"
    with L assms have "y = x" "zlt x y" by auto
    then show False by simp
  qed
  with L show ?thesis by (cases ys) auto
qed

theorem zrange_slice_witness:
  "ziter.drain 5 (zrange ''z'' 0 5 set_db) = [(''a'', ''7'')] \<and> ziter.drain 5 (zrrange ''z'' 0 5 set_db) = [(''a'', ''7'')]"
proof -
  from zrange_slice [OF set_db_facts(1), of 0 5 5] obtain L where
    L: "ziter.drain 5 (zrange ''z'' 0 5 set_db) = take 5 (take 5 (filter (\<lambda>(k, sc). Bytes_Int64 sc < INT64_MAX \<or> k \<le> [CHR 0xFF]) L))"
    "ziter.drain 5 (zrrange ''z'' 0 5 set_db) = take 5 (take 5 (rev (filter (\<lambda>(k, sc). Bytes_Int64 sc < INT64_MAX) L)))"
    "sorted_wrt zlt L" "set L = {(''a'', ''7'')}"
    by (auto simp: set_db_members)
  from sorted_singleton [OF L(3,4)] L(1,2) show ?thesis by (simp add: Bytes_Int64_7 INT64_MAX_def)
qed

text \<open>\<open>zscan\<close> between two scores returns the members with a score and key after \<open>(score_start, key)\<close> up to
  the key \<open>"\xff"\<close> of \<open>score_end\<close>, in the order of scores and keys; \<open>zrscan\<close> returns those before
  \<open>(score_start, key)\<close>, or before \<open>"\xff"\<close> when no key is given, down to \<open>score_end\<close> in the reverse order.\<close>

theorem zscan_range:
  assumes "zset_good s name" and "score_start \<noteq> []" and "score_end \<noteq> []"
  shows "\<exists>L. ziter.drain n (zscan name key score_start score_end limit s) =
      take n (take (unat limit) (filter (\<lambda>e. zlt (key, score_start) e \<and> \<not> zlt ([CHR 0xFF], score_end) e) L)) \<and>
    ziter.drain n (zrscan name key score_start score_end limit s) =
      take n (take (unat limit) (rev (filter (\<lambda>e. zlt e (if key = [] then [CHR 0xFF] else key, score_start) \<and>
        \<not> zlt e ([], score_end)) L))) \<and>
    sorted_wrt zlt L \<and> set L = {(k, sc). hname_ok k \<and> zget name k s = Found sc}"
proof -
  note r = zset_goodD [OF assms(1)]
  have m: "set (zset_list s name) = {(k, sc). hname_ok k \<and> zget name k s = Found sc}"
    unfolding zset_list_set [OF r(4,3)] by (simp add: zget_members [OF assms(1)])
  have "scan_score name key score_start s = score_start" using assms(2) by (simp add: scan_score_def)
  then show ?thesis
    using ziterator_correct [OF r(4,3), of n key score_start score_end limit] zset_list_sorted [OF r(4,3)] m assms(2,3)
    by (intro exI [of _ "zset_list s name"]) (simp add: zscan_def zrscan_def z_from_def z_to_def z_rfrom_def)
qed

theorem zscan_range_witness: "ziter.drain 5 (zscan ''z'' [] ''6'' ''8'' 5 set_db) = [(''a'', ''7'')]"
proof -
  from zscan_range [OF set_db_facts(1), of "''6''" "''8''" 5 "[]" 5] obtain L where
    L: "ziter.drain 5 (zscan ''z'' [] ''6'' ''8'' 5 set_db) =
      take 5 (take 5 (filter (\<lambda>e. zlt ([], ''6'') e \<and> \<not> zlt ([CHR 0xFF], ''8'') e) L))"
    "sorted_wrt zlt L" "set L = {(''a'', ''7'')}"
    by (auto simp: set_db_members)
  moreover have "zlt ([], ''6'') (''a'', ''7'')" "\<not> zlt ([CHR 0xFF], ''8'') (''a'', ''7'')" by code_simp+
  ultimately show ?thesis using sorted_singleton [OF L(2,3)] by simp
qed

end
