(* ===== verification/Queue.thy ===== *)
theory Queue
  imports ZSet
begin

section \<open>Queues (\<open>ssdb/t_queue.cpp\<close>)\<close>

text \<open>
  A queue is a run of items under consecutive sequence numbers, with the numbers of the
  first and the last item stored beside them and the length under the size key. The
  operations refine those of a double-ended queue.
\<close>

subsection \<open>Operations\<close>

definition qget_by_seq :: "bytes \<Rightarrow> u64 \<Rightarrow> ssdb \<Rightarrow> get_status" where
  "qget_by_seq name sq s = ldb_Get (ldb s) (encode_qitem_key name sq)"

text \<open>\<open>qget_uint64\<close>: the result code and \<open>*ret\<close>.\<close>

definition qget_uint64 :: "bytes \<Rightarrow> u64 \<Rightarrow> ssdb \<Rightarrow> int \<times> u64" where
  "qget_uint64 name sq s =
     (case qget_by_seq name sq s of
        Found val \<Rightarrow> if length val \<noteq> 8 then (-1, 0) else (1, le64_word val)
      | NotFound \<Rightarrow> (0, 0)
      | Failed \<Rightarrow> (-1, 0))"

definition qdel_one :: "bytes \<Rightarrow> u64 \<Rightarrow> ssdb \<Rightarrow> ssdb" where
  "qdel_one name sq s = bl_Delete (encode_qitem_key name sq) s"

definition qset_one :: "bytes \<Rightarrow> u64 \<Rightarrow> bytes \<Rightarrow> ssdb \<Rightarrow> ssdb" where
  "qset_one name sq item s = bl_Put (encode_qitem_key name sq) item s"

definition qsize_of :: "get_status \<Rightarrow> int" where
  "qsize_of got =
     (case got of
        NotFound \<Rightarrow> 0
      | Failed \<Rightarrow> -1
      | Found val \<Rightarrow> if length val \<noteq> 8 then -1 else sint (le64_word val))"

definition qsize :: "bytes \<Rightarrow> ssdb \<Rightarrow> int" where
  "qsize name s = qsize_of (ldb_Get (ldb s) (encode_qsize_key name))"

definition incr_qsize :: "bytes \<Rightarrow> int \<Rightarrow> ssdb \<Rightarrow> ssdb \<times> int" where
  "incr_qsize name incr s =
     (if qsize name s = -1 then (s, -1)
      else let n = wrap64 (qsize name s + incr)
           in if n \<le> 0
              then let s = bl_Delete (encode_qsize_key name) s;
                       s = qdel_one name QFRONT_SEQ s;
                       s = qdel_one name QBACK_SEQ s
                   in (s, n)
              else (bl_Put (encode_qsize_key name) (le64 (word_of_int n)) s, n))"

definition qpeek :: "bytes \<Rightarrow> u64 \<Rightarrow> ssdb \<Rightarrow> get_status" where
  "qpeek name end_seq s =
     (case qget_uint64 name end_seq s of
        (ret, sq) \<Rightarrow> if ret = -1 then Failed else if ret = 0 then NotFound else qget_by_seq name sq s)"

definition qfront :: "bytes \<Rightarrow> ssdb \<Rightarrow> get_status" where
  "qfront name s = qpeek name QFRONT_SEQ s"

definition qback :: "bytes \<Rightarrow> ssdb \<Rightarrow> get_status" where
  "qback name s = qpeek name QBACK_SEQ s"

text \<open>The end of both \<open>qset\<close> functions.\<close>

definition qset_commit :: "bytes \<Rightarrow> u64 \<Rightarrow> bytes \<Rightarrow> char \<Rightarrow> ssdb \<Rightarrow> ssdb \<times> int" where
  "qset_commit name sq item lt s =
     (let s = qset_one name sq item s;
          s = bl_add_log lt (binlog_cmd_char BC_QSET) (encode_qitem_key name sq) s
      in tx_finish 1 (-1) s)"

text \<open>\<open>qset_by_seq\<close> does not look whether the front number was found; it is 0 when it was not.\<close>

definition qset_by_seq :: "bytes \<Rightarrow> u64 \<Rightarrow> bytes \<Rightarrow> char \<Rightarrow> ssdb \<Rightarrow> ssdb \<times> int" where
  "qset_by_seq name sq item lt s =
     Transaction (\<lambda>s.
        let n = qsize name s
        in if n = -1 then (s, -1)
           else let (ret, lo) = qget_uint64 name QFRONT_SEQ s
                in if ret = -1 then (s, -1)
                   else if sq < lo \<or> sq > lo + word_of_int n then (s, 0)
                   else qset_commit name sq item lt s) s"

text \<open>Where an index points: from the front when it is not negative, from the back otherwise.\<close>

definition qindex :: "bytes \<Rightarrow> int \<Rightarrow> ssdb \<Rightarrow> int \<times> u64" where
  "qindex name index s =
     (if index \<ge> 0
      then let (ret, sq) = qget_uint64 name QFRONT_SEQ s in (ret, sq + word_of_int index)
      else let (ret, sq) = qget_uint64 name QBACK_SEQ s in (ret, sq + word_of_int (index + 1)))"

definition qset :: "bytes \<Rightarrow> int \<Rightarrow> bytes \<Rightarrow> char \<Rightarrow> ssdb \<Rightarrow> ssdb \<times> int" where
  "qset name index item lt s =
     Transaction (\<lambda>s.
        let n = qsize name s
        in if n = -1 then (s, -1)
           else if index \<ge> n \<or> index < wrap64 (- n) then (s, 0)
           else let (ret, sq) = qindex name index s
                in if ret = -1 then (s, -1)
                   else if ret = 0 then (s, 0)
                   else qset_commit name sq item lt s) s"

text \<open>\<open>_qpush\<close> in its two parts: the new number and the ends, then the item and the size.\<close>

definition qpush_ends :: "bytes \<Rightarrow> u64 \<Rightarrow> int \<Rightarrow> u64 \<Rightarrow> ssdb \<Rightarrow> ssdb \<times> u64" where
  "qpush_ends name end_seq ret sq s =
     (if ret = 0
      then (qset_one name QBACK_SEQ (le64 QITEM_SEQ_INIT) (qset_one name QFRONT_SEQ (le64 QITEM_SEQ_INIT) s),
            QITEM_SEQ_INIT)
      else let sq = (if end_seq = QFRONT_SEQ then sq - 1 else sq + 1)
           in (qset_one name end_seq (le64 sq) s, sq))"

definition qpush_item :: "bytes \<Rightarrow> bytes \<Rightarrow> u64 \<Rightarrow> char \<Rightarrow> u64 \<Rightarrow> ssdb \<Rightarrow> ssdb \<times> int" where
  "qpush_item name item end_seq lt sq s =
     (if sq \<le> QITEM_MIN_SEQ \<or> sq \<ge> QITEM_MAX_SEQ then (s, -1)
      else let s = qset_one name sq item s;
               cmd = (if end_seq = QFRONT_SEQ then BC_QPUSH_FRONT else BC_QPUSH_BACK);
               s = bl_add_log lt (binlog_cmd_char cmd) (encode_qitem_key name sq) s;
               (s, n) = incr_qsize name 1 s
           in if n = -1 then (s, -1) else tx_finish n (-1) s)"

definition qpush :: "bytes \<Rightarrow> bytes \<Rightarrow> u64 \<Rightarrow> char \<Rightarrow> ssdb \<Rightarrow> ssdb \<times> int" where
  "qpush name item end_seq lt s =
     Transaction (\<lambda>s.
        let (ret, sq) = qget_uint64 name end_seq s
        in if ret = -1 then (s, -1)
           else let (s, sq) = qpush_ends name end_seq ret sq s
                in qpush_item name item end_seq lt sq s) s"

definition qpush_front :: "bytes \<Rightarrow> bytes \<Rightarrow> char \<Rightarrow> ssdb \<Rightarrow> ssdb \<times> int" where
  "qpush_front name item lt s = qpush name item QFRONT_SEQ lt s"

definition qpush_back :: "bytes \<Rightarrow> bytes \<Rightarrow> char \<Rightarrow> ssdb \<Rightarrow> ssdb \<times> int" where
  "qpush_back name item lt s = qpush name item QBACK_SEQ lt s"

text \<open>\<open>_qpop\<close>: the result and \<open>*item\<close>.\<close>

definition qpop :: "bytes \<Rightarrow> u64 \<Rightarrow> char \<Rightarrow> ssdb \<Rightarrow> ssdb \<times> int \<times> bytes" where
  "qpop name end_seq lt s =
     Transaction (\<lambda>s.
        let (ret, sq) = qget_uint64 name end_seq s
        in if ret = -1 then (s, -1, [])
           else if ret = 0 then (s, 0, [])
           else case qget_by_seq name sq s of
                  Failed \<Rightarrow> (s, -1, [])
                | NotFound \<Rightarrow> (s, 0, [])
                | Found item \<Rightarrow>
                    let s = qdel_one name sq s;
                        cmd = (if end_seq = QFRONT_SEQ then BC_QPOP_FRONT else BC_QPOP_BACK);
                        s = bl_add_log lt (binlog_cmd_char cmd) name s;
                        (s, n) = incr_qsize name (-1) s
                    in if n = -1 then (s, -1, item)
                       else let s = (if n > 0
                                     then qset_one name end_seq
                                            (le64 (if end_seq = QFRONT_SEQ then sq + 1 else sq - 1)) s
                                     else s)
                            in tx_finish (1, item) (-1, item) s) s"

definition qpop_front :: "bytes \<Rightarrow> char \<Rightarrow> ssdb \<Rightarrow> ssdb \<times> int \<times> bytes" where
  "qpop_front name lt s = qpop name QFRONT_SEQ lt s"

definition qpop_back :: "bytes \<Rightarrow> char \<Rightarrow> ssdb \<Rightarrow> ssdb \<times> int \<times> bytes" where
  "qpop_back name lt s = qpop name QBACK_SEQ lt s"

definition get_qnames :: "iterator \<Rightarrow> bytes list" where
  "get_qnames it = get_names QSIZE decode_qsize_key it"

definition qlist :: "bytes \<Rightarrow> bytes \<Rightarrow> u64 \<Rightarrow> ssdb \<Rightarrow> bytes list" where
  "qlist name_s name_e limit s =
     (let start = encode_qsize_key name_s;
          end = (if name_e \<noteq> [] then encode_qsize_key name_e else [])
      in get_qnames (ssdb_iterator (ldb s) start end limit))"

definition qrlist :: "bytes \<Rightarrow> bytes \<Rightarrow> u64 \<Rightarrow> ssdb \<Rightarrow> bytes list" where
  "qrlist name_s name_e limit s =
     (let start = encode_qsize_key name_s;
          start = (if name_s = [] then start @ [CHR 0xFF] else start);
          end = (if name_e \<noteq> [] then encode_qsize_key name_e else [])
      in get_qnames (ssdb_rev_iterator (ldb s) start end limit))"

text \<open>\<open>qfix\<close>: the loop gives the first and last number and the count, \<open>None\<close> on a key that
  does not decode.\<close>

function qfix_loop :: "iterator \<Rightarrow> u64 \<Rightarrow> u64 \<Rightarrow> u64 \<Rightarrow> (u64 \<times> u64 \<times> u64) option" where
  "qfix_loop it seq_min seq_max count =
     (case Iterator_next it of
        (it', False) \<Rightarrow> Some (seq_min, seq_max, count)
      | (it', True) \<Rightarrow>
          (case decode_qitem_key (Iterator_key it') of
             None \<Rightarrow> None
           | Some (n, sq) \<Rightarrow> qfix_loop it' (if seq_min = 0 then sq else seq_min) sq (count + 1)))"
  by pat_completeness auto
termination
  by (relation "measure (\<lambda>(it, a, b, c). unat (it_limit it))") (auto dest: Iterator_next_limit [OF sym])

declare qfix_loop.simps [simp del]

definition qfix :: "bytes \<Rightarrow> ssdb \<Rightarrow> ssdb \<times> int" where
  "qfix name s =
     Transaction (\<lambda>s.
        let key_s = encode_qitem_key name (QITEM_MIN_SEQ - 1);
            key_e = encode_qitem_key name QITEM_MAX_SEQ
        in case qfix_loop (ssdb_iterator (ldb s) key_s key_e QITEM_MAX_SEQ) 0 0 0 of
             None \<Rightarrow> (s, -1)
           | Some (seq_min, seq_max, count) \<Rightarrow>
               let s = (if count = 0
                        then qdel_one name QBACK_SEQ (qdel_one name QFRONT_SEQ (bl_Delete (encode_qsize_key name) s))
                        else qset_one name QBACK_SEQ (le64 seq_max)
                               (qset_one name QFRONT_SEQ (le64 seq_min)
                                 (bl_Put (encode_qsize_key name) (le64 count) s)))
               in tx_finish 0 (-1) s) s"

text \<open>\<open>qslice\<close>: the result and the items pushed to the list. The loop ends at the first
  number without an item; \<open>None\<close> would be an endless run.\<close>

partial_function (option) qslice_loop :: "bytes \<Rightarrow> u64 \<Rightarrow> u64 \<Rightarrow> ssdb \<Rightarrow> bytes list \<Rightarrow> (int \<times> bytes list) option" where
  "qslice_loop name seq_begin seq_end s list =
     (if seq_begin \<le> seq_end
      then (case qget_by_seq name seq_begin s of
              Failed \<Rightarrow> Some (-1, list)
            | NotFound \<Rightarrow> Some (0, list)
            | Found item \<Rightarrow> qslice_loop name (seq_begin + 1) seq_end s (list @ [item]))
      else Some (0, list))"

definition qslice :: "bytes \<Rightarrow> int \<Rightarrow> int \<Rightarrow> ssdb \<Rightarrow> (int \<times> bytes list) option" where
  "qslice name begin end s =
     (let (rf, f_seq) = qget_uint64 name QFRONT_SEQ s;
          (rb, b_seq) = qget_uint64 name QBACK_SEQ s
      in if begin \<ge> 0 \<and> end \<ge> 0
         then if rf \<noteq> 1 then Some (rf, [])
              else qslice_loop name (f_seq + word_of_int begin) (f_seq + word_of_int end) s []
         else if begin < 0 \<and> end < 0
         then if rb \<noteq> 1 then Some (rb, [])
              else qslice_loop name (b_seq + word_of_int (begin + 1)) (b_seq + word_of_int (end + 1)) s []
         else if rf \<noteq> 1 then Some (rf, [])
         else if rb \<noteq> 1 then Some (rb, [])
         else qslice_loop name
                (if begin \<ge> 0 then f_seq + word_of_int begin else b_seq + word_of_int (begin + 1))
                (if end \<ge> 0 then f_seq + word_of_int end else b_seq + word_of_int (end + 1)) s [])"

definition qget :: "bytes \<Rightarrow> int \<Rightarrow> ssdb \<Rightarrow> get_status" where
  "qget name index s =
     (case qindex name index s of
        (ret, sq) \<Rightarrow> if ret = -1 then Failed else if ret = 0 then NotFound else qget_by_seq name sq s)"

subsection \<open>Each operation is one transaction\<close>

lemma in_txn_incr_qsize: "in_txn n s0 s \<Longrightarrow> in_txn (n + 3) s0 (fst (incr_qsize name i s))"
  by (auto simp: incr_qsize_def Let_def qdel_one_def intro!: in_txn_Delete in_txn_Put elim!: in_txn_mono)

lemma qset_commit_done: "in_txn 0 s0 s \<Longrightarrow> tx_done 2 s0 (fst (qset_commit name sq item lt s))"
  by (auto simp: qset_commit_def Let_def qset_one_def intro!: tx_done_finish in_txn_Put in_txn_add_log)

lemma qset_run: "tx_run 2 s (fst (qset name index item lt s))"
  by (auto simp: qset_def Let_def split: prod.split intro!: Transaction_run qset_commit_done tx_done_begin in_txn_begin)

lemma qset_by_seq_run: "tx_run 2 s (fst (qset_by_seq name sq item lt s))"
  by (auto simp: qset_by_seq_def Let_def split: prod.split
      intro!: Transaction_run qset_commit_done tx_done_begin in_txn_begin)

lemma qpush_ends_txn: "in_txn 2 s (fst (qpush_ends name end_seq ret sq (bl_begin s)))"
  by (auto simp: qpush_ends_def Let_def qset_one_def intro!: tx_intros)

lemma qpush_item_done:
  assumes "in_txn 2 s0 s"
  shows "tx_done 7 s0 (fst (qpush_item name item end_seq lt sq s))"
proof -
  have i: "in_txn 7 s0 (fst (incr_qsize name 1 (bl_add_log lt c k (qset_one name sq item s))))" for c k
  proof -
    have "in_txn 4 s0 (bl_add_log lt c k (qset_one name sq item s))"
      using assms by (auto simp: qset_one_def intro!: in_txn_add_log in_txn_Put)
    from in_txn_incr_qsize [OF this] show ?thesis by simp
  qed
  show ?thesis
    using tx_done_mono_in [OF assms, of 7]
    by (auto simp: qpush_item_def Let_def case_prod_beta tx_done_in [OF i] intro!: tx_done_finish i)
qed

lemma qpush_run: "tx_run 7 s (fst (qpush name item end_seq lt s))"
  using qpush_item_done [OF qpush_ends_txn]
  by (auto simp: qpush_def Let_def case_prod_beta tx_done_begin intro!: Transaction_run)

lemma qpop_run: "tx_run 7 s (fst (qpop name end_seq lt s))"
proof -
  have i: "in_txn 5 s (fst (incr_qsize name (-1) (bl_add_log lt c k (qdel_one name sq (bl_begin s)))))" for c k sq
  proof -
    have "in_txn 2 s (bl_add_log lt c k (qdel_one name sq (bl_begin s)))"
      by (auto simp: qdel_one_def intro!: tx_intros)
    from in_txn_incr_qsize [OF this] show ?thesis by simp
  qed
  then have j: "in_txn 7 s (fst (incr_qsize name (-1) (bl_add_log lt c k (qdel_one name sq (bl_begin s)))))" for c k sq
    by (rule in_txn_mono) simp
  have k: "in_txn 7 s (qset_one name e v (fst (incr_qsize name (-1) (bl_add_log lt c k (qdel_one name sq (bl_begin s))))))"
    for c k sq e v
    unfolding qset_one_def by (rule in_txn_Put) (auto intro: in_txn_mono [OF i])
  show ?thesis
    unfolding qpop_def
    by (rule Transaction_run)
       (auto simp: Let_def case_prod_beta tx_done_begin split: get_status.split
         intro!: tx_done_finish j k intro: tx_done_in [OF j])
qed

lemma qfix_run: "tx_run 3 s (fst (qfix name s))"
  unfolding qfix_def
  by (rule Transaction_run)
     (auto simp: Let_def qset_one_def qdel_one_def tx_done_begin split: option.split prod.split
       intro!: tx_done_finish in_txn_Put in_txn_Delete in_txn_begin)

subsection \<open>The layout of a queue\<close>

text \<open>The item at a number, for a queue whose items are \<open>l\<close> from number \<open>f\<close> on.\<close>

definition q_item :: "nat \<Rightarrow> bytes list \<Rightarrow> nat \<Rightarrow> bytes option" where
  "q_item f l i = (if f \<le> i \<and> i < f + length l then Some (l ! (i - f)) else None)"

definition q_map :: "bytes \<Rightarrow> nat \<Rightarrow> bytes list \<Rightarrow> (bytes \<rightharpoonup> bytes) \<Rightarrow> bool" where
  "q_map n f l m \<longleftrightarrow>
     m (encode_qsize_key n) = (if l = [] then None else Some (le64 (of_nat (length l)))) \<and>
     m (encode_qitem_key n QFRONT_SEQ) = (if l = [] then None else Some (le64 (of_nat f))) \<and>
     m (encode_qitem_key n QBACK_SEQ) = (if l = [] then None else Some (le64 (of_nat (f + length l - 1)))) \<and>
     (\<forall>sq. sq \<noteq> QFRONT_SEQ \<longrightarrow> sq \<noteq> QBACK_SEQ \<longrightarrow> m (encode_qitem_key n sq) = q_item f l (unat sq))"

text \<open>There is room for \<open>a\<close> numbers before the items and \<open>b\<close> after, also if the queue starts anew.\<close>

definition q_room :: "nat \<Rightarrow> nat \<Rightarrow> nat \<Rightarrow> bytes list \<Rightarrow> bool" where
  "q_room a b f l \<longleftrightarrow> 10000 + a < f \<and> f + length l + b \<le> 9223372036854775807 \<and>
     10000 + a < 4611686018427387903 \<and> 4611686018427387903 + b < 9223372036854775807"

lemma q_item_simps:
  "q_item f [] i = None"
  "q_item f (l @ [x]) i = (if i = f + length l then Some x else q_item f l i)"
  "q_item f (x # l) i = (if i = f then Some x else q_item (Suc f) l i)"
  by (auto simp: q_item_def nth_append nth_Cons')

lemma unat_of_nat_64: "k < 2 ^ 64 \<Longrightarrow> unat (of_nat k :: u64) = k"
  by (simp add: unat_of_nat)

lemma of_nat_not_end:
  assumes "10000 < k" and "k < 2 ^ 64"
  shows "(of_nat k :: u64) \<noteq> QFRONT_SEQ" "(of_nat k :: u64) \<noteq> QBACK_SEQ"
    "QFRONT_SEQ \<noteq> (of_nat k :: u64)" "QBACK_SEQ \<noteq> (of_nat k :: u64)"
  using unat_of_nat_64 [OF assms(2)] assms(1) by (auto simp: QFRONT_SEQ_def QBACK_SEQ_def)

lemma seq_eq_iff: "k < 2 ^ 64 \<Longrightarrow> (sq :: u64) = of_nat k \<longleftrightarrow> unat sq = k"
  by (simp only: word_unat_eq_iff unat_of_nat_64)

lemma qitem_not_qsize [simp]:
  "encode_qitem_key n sq \<noteq> encode_qsize_key n'" "encode_qsize_key n' \<noteq> encode_qitem_key n sq"
  by (rule key_type_neqI, simp)+

lemma ends_differ [simp]: "QFRONT_SEQ \<noteq> QBACK_SEQ" "QBACK_SEQ \<noteq> QFRONT_SEQ"
  by (simp_all add: QFRONT_SEQ_def QBACK_SEQ_def)

lemma q_map_init:
  assumes "q_map n f [] m"
  shows "q_map n 4611686018427387903 [x] (m(encode_qitem_key n QFRONT_SEQ \<mapsto> le64 QITEM_SEQ_INIT,
    encode_qitem_key n QBACK_SEQ \<mapsto> le64 QITEM_SEQ_INIT, encode_qitem_key n QITEM_SEQ_INIT \<mapsto> x,
    encode_qsize_key n \<mapsto> le64 1))"
proof -
  have i: "QITEM_SEQ_INIT = of_nat 4611686018427387903" by (simp add: QITEM_SEQ_INIT_def QITEM_MAX_SEQ_def)
  show ?thesis
    using assms of_nat_not_end [of 4611686018427387903] seq_eq_iff [of 4611686018427387903]
    unfolding i by (auto simp: q_map_def q_item_simps)
qed

lemma q_map_push_back:
  assumes "q_map n f l m" and "l \<noteq> []" and "10000 < f" and "f + length l < 2 ^ 64"
  shows "q_map n f (l @ [x]) (m(encode_qitem_key n QBACK_SEQ \<mapsto> le64 (of_nat (f + length l)),
    encode_qitem_key n (of_nat (f + length l)) \<mapsto> x, encode_qsize_key n \<mapsto> le64 (of_nat (length l + 1))))"
  using assms of_nat_not_end [of "f + length l"] seq_eq_iff [of "f + length l"]
  by (auto simp: q_map_def q_item_simps simp del: of_nat_add)

lemma q_map_push_front:
  assumes "q_map n (Suc f) l m" and "l \<noteq> []" and "10000 < f" and "f + length l < 2 ^ 64"
  shows "q_map n f (x # l) (m(encode_qitem_key n QFRONT_SEQ \<mapsto> le64 (of_nat f),
    encode_qitem_key n (of_nat f) \<mapsto> x, encode_qsize_key n \<mapsto> le64 (of_nat (length l + 1))))"
  using assms of_nat_not_end [of f] seq_eq_iff [of f]
  by (auto simp: q_map_def q_item_simps simp del: of_nat_Suc of_nat_add)

lemma q_map_pop_last:
  assumes "q_map n f [x] m" and "10000 < f" and "f < 2 ^ 64"
  shows "q_map n g [] (m(encode_qitem_key n (of_nat f) := None, encode_qsize_key n := None,
    encode_qitem_key n QFRONT_SEQ := None, encode_qitem_key n QBACK_SEQ := None))"
  using assms of_nat_not_end [of f] seq_eq_iff [of f] by (auto simp: q_map_def q_item_simps)

lemma q_map_pop_front:
  assumes "q_map n f (x # l) m" and "l \<noteq> []" and "10000 < f" and "f + length l < 2 ^ 64"
  shows "q_map n (Suc f) l (m(encode_qitem_key n (of_nat f) := None, encode_qsize_key n \<mapsto> le64 (of_nat (length l)),
    encode_qitem_key n QFRONT_SEQ \<mapsto> le64 (of_nat (Suc f))))"
proof -
  have "q_item (Suc f) l f = None" by (simp add: q_item_def)
  then show ?thesis
    using assms of_nat_not_end [of f] seq_eq_iff [of f]
    by (auto simp: q_map_def q_item_simps simp del: of_nat_Suc of_nat_add)
qed

lemma q_map_pop_back:
  assumes "q_map n f (l @ [x]) m" and "l \<noteq> []" and "10000 < f" and "f + length l < 2 ^ 64"
  shows "q_map n f l (m(encode_qitem_key n (of_nat (f + length l)) := None,
    encode_qsize_key n \<mapsto> le64 (of_nat (length l)),
    encode_qitem_key n QBACK_SEQ \<mapsto> le64 (of_nat (f + length l - 1))))"
proof -
  have "q_item f l (f + length l) = None" by (simp add: q_item_def)
  then show ?thesis
    using assms of_nat_not_end [of "f + length l"] seq_eq_iff [of "f + length l"]
    by (auto simp: q_map_def q_item_simps simp del: of_nat_Suc of_nat_add)
qed

subsection \<open>Refinement of a double-ended queue\<close>

definition q_rep :: "ssdb \<Rightarrow> bytes \<Rightarrow> nat \<Rightarrow> nat \<Rightarrow> bytes list \<Rightarrow> bool" where
  "q_rep s n a b l \<longleftrightarrow> io_ok s \<and> (\<exists>f. q_map n f l (data_map s) \<and> q_room a b f l)"

text \<open>An operation on the queue \<open>n\<close> changes only its own keys.\<close>

definition q_frame :: "bytes \<Rightarrow> ssdb \<Rightarrow> ssdb \<Rightarrow> bool" where
  "q_frame n s s' \<longleftrightarrow>
     (\<forall>k. k \<noteq> encode_qsize_key n \<longrightarrow> (\<forall>sq. k \<noteq> encode_qitem_key n sq) \<longrightarrow> data_map s' k = data_map s k)"

lemma q_get:
  assumes "io_ok s"
  shows "qget_by_seq n sq s = (case data_map s (encode_qitem_key n sq) of None \<Rightarrow> NotFound | Some v \<Rightarrow> Found v)"
    and "qget_uint64 n sq s = (case data_map s (encode_qitem_key n sq) of None \<Rightarrow> (0, 0)
      | Some v \<Rightarrow> if length v \<noteq> 8 then (-1, 0) else (1, le64_word v))"
    and "qsize n s = (case data_map s (encode_qsize_key n) of None \<Rightarrow> 0
      | Some v \<Rightarrow> if length v \<noteq> 8 then -1 else sint (le64_word v))"
  using assms
  by (auto simp: qget_uint64_def qget_by_seq_def qsize_def qsize_of_def ldb_Get_data io_ok_def split: option.split)

lemma q_tx [store_simps]:
  "qget_by_seq n sq (bl_begin s) = qget_by_seq n sq s" "qget_uint64 n sq (bl_begin s) = qget_uint64 n sq s"
  "qsize n (bl_begin s) = qsize n s" "qsize n (bl_Put k v s) = qsize n s" "qsize n (bl_Delete k s) = qsize n s"
  "qsize n (bl_add_log t c k s) = qsize n s"
  by (simp_all add: qget_by_seq_def qget_uint64_def qsize_def store_simps)

lemma q_sint: "k < 2 ^ 63 \<Longrightarrow> sint (of_nat k :: u64) = int k"
  using sint_word_of_int64 [of "int k"] by (simp add: in_int64_def)

text \<open>What the operations read of a queue.\<close>

lemma q_rep_reads:
  assumes "io_ok s" and "q_map n f l (data_map s)" and "q_room a b f l"
  shows "qsize n s = int (length l)"
    and "l = [] \<Longrightarrow> qget_uint64 n QFRONT_SEQ s = (0, 0) \<and> qget_uint64 n QBACK_SEQ s = (0, 0)"
    and "l \<noteq> [] \<Longrightarrow> qget_uint64 n QFRONT_SEQ s = (1, of_nat f) \<and>
      qget_uint64 n QBACK_SEQ s = (1, of_nat (f + length l - 1))"
    and "10000 < k \<Longrightarrow> k < 2 ^ 64 \<Longrightarrow>
      qget_by_seq n (of_nat k) s = (case q_item f l k of None \<Rightarrow> NotFound | Some v \<Rightarrow> Found v)"
  using assms(2,3) of_nat_not_end [of k] unat_of_nat_64 [of k]
  by (auto simp: q_get [OF assms(1)] q_map_def q_room_def q_sint)

lemma incr_qsize_simps [store_simps]:
  "qsize n s \<noteq> -1 \<Longrightarrow> tx_data (fst (incr_qsize n i s)) =
     (if wrap64 (qsize n s + i) \<le> 0
      then (tx_data s)(encode_qsize_key n := None, encode_qitem_key n QFRONT_SEQ := None,
             encode_qitem_key n QBACK_SEQ := None)
      else (tx_data s)(encode_qsize_key n \<mapsto> le64 (word_of_int (wrap64 (qsize n s + i)))))"
  "qsize n s \<noteq> -1 \<Longrightarrow> snd (incr_qsize n i s) = wrap64 (qsize n s + i)"
  "ldb (fst (incr_qsize n i s)) = ldb s"
  "data_map (fst (incr_qsize n i s)) = data_map s"
  by (simp_all add: incr_qsize_def Let_def qdel_one_def store_simps)

definition q_next :: "u64 \<Rightarrow> int \<Rightarrow> u64 \<Rightarrow> u64" where
  "q_next e ret sq = (if ret = 0 then QITEM_SEQ_INIT else if e = QFRONT_SEQ then sq - 1 else sq + 1)"

lemma qpush_data:
  assumes "io_ok s" and "qsize n s = int k" and "k + 1 < 2 ^ 63" and "qget_uint64 n e s = (ret, sq)" and "ret \<noteq> -1"
    and "\<not> q_next e ret sq \<le> QITEM_MIN_SEQ" and "\<not> QITEM_MAX_SEQ \<le> q_next e ret sq"
  shows "data_map (fst (qpush n x e lt s)) =
      (if ret = 0 then (data_map s)(encode_qitem_key n QFRONT_SEQ \<mapsto> le64 QITEM_SEQ_INIT,
            encode_qitem_key n QBACK_SEQ \<mapsto> le64 QITEM_SEQ_INIT)
       else (data_map s)(encode_qitem_key n e \<mapsto> le64 (q_next e ret sq)))
      (encode_qitem_key n (q_next e ret sq) \<mapsto> x, encode_qsize_key n \<mapsto> le64 (of_nat (k + 1)))"
    and "snd (qpush n x e lt s) = int (k + 1)"
proof -
  have w: "wrap64 (int k + 1) = int k + 1" using assms(3) by (simp add: in_int64_def)
  have io: "kv_sorted (entries (ldb s))" "\<not> wr_fail (ldb s)" using assms(1) by (auto simp: io_ok_def)
  show "data_map (fst (qpush n x e lt s)) =
      (if ret = 0 then (data_map s)(encode_qitem_key n QFRONT_SEQ \<mapsto> le64 QITEM_SEQ_INIT,
            encode_qitem_key n QBACK_SEQ \<mapsto> le64 QITEM_SEQ_INIT)
       else (data_map s)(encode_qitem_key n e \<mapsto> le64 (q_next e ret sq)))
      (encode_qitem_key n (q_next e ret sq) \<mapsto> x, encode_qsize_key n \<mapsto> le64 (of_nat (k + 1)))"
    and "snd (qpush n x e lt s) = int (k + 1)"
    using assms(2,4-) io w
    by (auto simp: qpush_def qpush_ends_def qpush_item_def q_next_def qset_one_def Let_def case_prod_beta store_simps
        split: if_splits)
qed

lemma qpush_full:
  assumes "qget_uint64 n e s = (ret, sq)" and "q_next e ret sq \<le> QITEM_MIN_SEQ \<or> QITEM_MAX_SEQ \<le> q_next e ret sq"
  shows "data_map (fst (qpush n x e lt s)) = data_map s" and "snd (qpush n x e lt s) = -1"
  using assms by (auto simp: qpush_def qpush_ends_def qpush_item_def q_next_def qset_one_def Let_def store_simps)

lemma seq_range:
  assumes "10000 < k" and "k < 9223372036854775807"
  shows "\<not> of_nat k \<le> QITEM_MIN_SEQ" "\<not> QITEM_MAX_SEQ \<le> of_nat k"
  using assms by (simp_all add: QITEM_MIN_SEQ_def QITEM_MAX_SEQ_def word_le_nat_alt unat_of_nat_64)

lemma seq_init: "QITEM_SEQ_INIT = of_nat 4611686018427387903"
  by (simp add: QITEM_SEQ_INIT_def QITEM_MAX_SEQ_def)

lemma qpush_back_correct:
  assumes "q_rep s n a (Suc b) l"
  shows "q_rep (fst (qpush_back n x lt s)) n a b (l @ [x])"
    and "snd (qpush_back n x lt s) = int (length l) + 1"
    and "q_frame n s (fst (qpush_back n x lt s))"
proof -
  from assms obtain f where io: "io_ok s" and m: "q_map n f l (data_map s)"
    and room: "q_room a (Suc b) f l" by (auto simp: q_rep_def)
  note rd = q_rep_reads [OF io m room]
  define k where "k = (if l = [] then 4611686018427387903 else f + length l)"
  have k: "10000 < k" "k < 9223372036854775807" "length l + 1 < 2 ^ 63" using room by (auto simp: k_def q_room_def)
  obtain ret sq where g: "qget_uint64 n QBACK_SEQ s = (ret, sq)" "ret \<noteq> -1" "ret = 0 \<longleftrightarrow> l = []"
      "q_next QBACK_SEQ ret sq = of_nat k"
  proof (cases "l = []")
    case False
    then have "of_nat (f + length l - 1) + 1 = (of_nat k :: u64)" by (cases l) (simp_all add: k_def)
    with rd(3) False show thesis by (intro that [of 1 "of_nat (f + length l - 1)"]) (simp_all add: q_next_def)
  qed (use rd(2) in \<open>intro that [of 0 0], simp_all add: q_next_def k_def seq_init\<close>)
  note d = qpush_data [OF io rd(1) k(3) g(1,2) seq_range(1) [OF k(1,2), folded g(4)] seq_range(2) [OF k(1,2), folded g(4)],
      of x lt, folded qpush_back_def]
  have run: "io_ok (fst (qpush_back n x lt s))"
    unfolding qpush_back_def by (rule io_ok_run [OF io qpush_run])
  have "\<exists>f'. q_map n f' (l @ [x]) (data_map (fst (qpush_back n x lt s))) \<and> q_room a b f' (l @ [x])"
  proof (cases "l = []")
    case True
    then show ?thesis using q_map_init [of n f "data_map s" x] m room
      unfolding d g(4) by (intro exI [of _ 4611686018427387903]) (simp add: g(3) k_def seq_init q_room_def)
  next
    case False
    then show ?thesis using q_map_push_back [OF m False] room
      unfolding d g(4) by (intro exI [of _ f]) (simp add: g(3) k_def q_room_def)
  qed
  with run show "q_rep (fst (qpush_back n x lt s)) n a b (l @ [x])" by (simp add: q_rep_def)
  show "snd (qpush_back n x lt s) = int (length l) + 1" by (simp add: d)
  show "q_frame n s (fst (qpush_back n x lt s))" by (simp add: q_frame_def d)
qed

lemma qpush_front_correct:
  assumes "q_rep s n (Suc a) b l"
  shows "q_rep (fst (qpush_front n x lt s)) n a b (x # l)"
    and "snd (qpush_front n x lt s) = int (length l) + 1"
    and "q_frame n s (fst (qpush_front n x lt s))"
proof -
  from assms obtain f where io: "io_ok s" and m: "q_map n f l (data_map s)"
    and room: "q_room (Suc a) b f l" by (auto simp: q_rep_def)
  note rd = q_rep_reads [OF io m room]
  define k where "k = (if l = [] then 4611686018427387903 else f - 1)"
  have k: "10000 < k" "k < 9223372036854775807" "length l + 1 < 2 ^ 63" "l \<noteq> [] \<Longrightarrow> f = Suc k"
    using room by (auto simp: k_def q_room_def)
  obtain ret sq where g: "qget_uint64 n QFRONT_SEQ s = (ret, sq)" "ret \<noteq> -1" "ret = 0 \<longleftrightarrow> l = []"
      "q_next QFRONT_SEQ ret sq = of_nat k"
  proof (cases "l = []")
    case False
    with rd(3) show thesis by (intro that [of 1 "of_nat f"]) (simp_all add: q_next_def k(4))
  qed (use rd(2) in \<open>intro that [of 0 0], simp_all add: q_next_def k_def seq_init\<close>)
  note d = qpush_data [OF io rd(1) k(3) g(1,2) seq_range(1) [OF k(1,2), folded g(4)] seq_range(2) [OF k(1,2), folded g(4)],
      of x lt, folded qpush_front_def]
  have run: "io_ok (fst (qpush_front n x lt s))"
    unfolding qpush_front_def by (rule io_ok_run [OF io qpush_run])
  have "\<exists>f'. q_map n f' (x # l) (data_map (fst (qpush_front n x lt s))) \<and> q_room a b f' (x # l)"
  proof (cases "l = []")
    case True
    then show ?thesis using q_map_init [of n f "data_map s" x] m room
      unfolding d g(4) by (intro exI [of _ 4611686018427387903]) (simp add: g(3) k_def seq_init q_room_def)
  next
    case False
    then show ?thesis using q_map_push_front [OF _ False k(1), of n "data_map s" x] m room
      unfolding d g(4) by (intro exI [of _ k]) (simp add: g(3) k(4) q_room_def)
  qed
  with run show "q_rep (fst (qpush_front n x lt s)) n a b (x # l)" by (simp add: q_rep_def)
  show "snd (qpush_front n x lt s) = int (length l) + 1" by (simp add: d)
  show "q_frame n s (fst (qpush_front n x lt s))" by (simp add: q_frame_def d)
qed

lemma qpop_data:
  assumes "io_ok s" and "qsize n s = int (Suc k)" and "Suc k < 2 ^ 63" and "qget_uint64 n e s = (1, sq)"
    and "qget_by_seq n sq s = Found x"
  shows "data_map (fst (qpop n e lt s)) =
      (if k = 0 then (data_map s)(encode_qitem_key n sq := None, encode_qsize_key n := None,
            encode_qitem_key n QFRONT_SEQ := None, encode_qitem_key n QBACK_SEQ := None)
       else (data_map s)(encode_qitem_key n sq := None, encode_qsize_key n \<mapsto> le64 (of_nat k),
            encode_qitem_key n e \<mapsto> le64 (if e = QFRONT_SEQ then sq + 1 else sq - 1)))"
    and "snd (qpop n e lt s) = (1, x)"
proof -
  have w: "wrap64 (int (Suc k) + -1) = int k" using assms(3) by (simp add: in_int64_def)
  have io: "kv_sorted (entries (ldb s))" "\<not> wr_fail (ldb s)" using assms(1) by (auto simp: io_ok_def)
  show "data_map (fst (qpop n e lt s)) =
      (if k = 0 then (data_map s)(encode_qitem_key n sq := None, encode_qsize_key n := None,
            encode_qitem_key n QFRONT_SEQ := None, encode_qitem_key n QBACK_SEQ := None)
       else (data_map s)(encode_qitem_key n sq := None, encode_qsize_key n \<mapsto> le64 (of_nat k),
            encode_qitem_key n e \<mapsto> le64 (if e = QFRONT_SEQ then sq + 1 else sq - 1)))"
    and "snd (qpop n e lt s) = (1, x)"
    using assms(2,4-) io w
    by (auto simp: qpop_def qset_one_def qdel_one_def Let_def case_prod_beta store_simps split: if_splits)
qed

lemma qpop_empty:
  "qget_uint64 n e s = (0, sq) \<Longrightarrow> data_map (fst (qpop n e lt s)) = data_map s \<and> snd (qpop n e lt s) = (0, [])"
  by (simp add: qpop_def Let_def store_simps)

lemma qpop_front_correct:
  assumes "q_rep s n a b (x # l)"
  shows "q_rep (fst (qpop_front n lt s)) n a b l" and "snd (qpop_front n lt s) = (1, x)"
    and "q_frame n s (fst (qpop_front n lt s))"
proof -
  from assms obtain f where io: "io_ok s" and m: "q_map n f (x # l) (data_map s)"
    and room: "q_room a b f (x # l)" by (auto simp: q_rep_def)
  note rd = q_rep_reads [OF io m room]
  have f: "10000 < f" "f < 2 ^ 64" "f + length l < 2 ^ 64" "Suc (length l) < 2 ^ 63" using room by (auto simp: q_room_def)
  have "qget_by_seq n (of_nat f) s = Found x" using rd(4) [OF f(1,2)] by (simp add: q_item_simps)
  note d = qpop_data [OF io _ f(4) _ this, of QFRONT_SEQ lt, folded qpop_front_def]
  have dd: "data_map (fst (qpop_front n lt s)) = (if length l = 0
      then (data_map s)(encode_qitem_key n (of_nat f) := None, encode_qsize_key n := None,
            encode_qitem_key n QFRONT_SEQ := None, encode_qitem_key n QBACK_SEQ := None)
       else (data_map s)(encode_qitem_key n (of_nat f) := None, encode_qsize_key n \<mapsto> le64 (of_nat (length l)),
            encode_qitem_key n QFRONT_SEQ \<mapsto> le64 (of_nat (Suc f))))" "snd (qpop_front n lt s) = (1, x)"
    using d rd(1,3) by (simp_all add: add.commute)
  have run: "io_ok (fst (qpop_front n lt s))"
    unfolding qpop_front_def by (rule io_ok_run [OF io qpop_run])
  have "\<exists>f'. q_map n f' l (data_map (fst (qpop_front n lt s))) \<and> q_room a b f' l"
  proof (cases "l = []")
    case True
    then show ?thesis using q_map_pop_last [OF _ f(1,2), of n x "data_map s" 4611686018427387903] m room
      unfolding dd by (intro exI [of _ 4611686018427387903]) (simp add: q_room_def)
  next
    case False
    then show ?thesis using q_map_pop_front [OF m False f(1,3)] room
      unfolding dd by (intro exI [of _ "Suc f"]) (simp add: q_room_def del: of_nat_Suc)
  qed
  with run show "q_rep (fst (qpop_front n lt s)) n a b l" by (simp add: q_rep_def)
  show "snd (qpop_front n lt s) = (1, x)" by (rule dd)
  show "q_frame n s (fst (qpop_front n lt s))" by (simp add: q_frame_def dd)
qed

lemma qpop_back_correct:
  assumes "q_rep s n a b (l @ [x])"
  shows "q_rep (fst (qpop_back n lt s)) n a b l" and "snd (qpop_back n lt s) = (1, x)"
    and "q_frame n s (fst (qpop_back n lt s))"
proof -
  from assms obtain f where io: "io_ok s" and m: "q_map n f (l @ [x]) (data_map s)"
    and room: "q_room a b f (l @ [x])" by (auto simp: q_rep_def)
  note rd = q_rep_reads [OF io m room]
  have f: "10000 < f" "10000 < f + length l" "f + length l < 2 ^ 64" "Suc (length l) < 2 ^ 63" "f < 2 ^ 64"
    using room by (auto simp: q_room_def)
  have "qget_by_seq n (of_nat (f + length l)) s = Found x" using rd(4) [OF f(2,3)] by (simp add: q_item_simps)
  note d = qpop_data [OF io _ f(4) _ this, of QBACK_SEQ lt, folded qpop_back_def]
  have p: "l \<noteq> [] \<Longrightarrow> of_nat (f + length l) - 1 = (of_nat (f + length l - 1) :: u64)" by (cases l) simp_all
  have dd: "data_map (fst (qpop_back n lt s)) = (if length l = 0
      then (data_map s)(encode_qitem_key n (of_nat (f + length l)) := None, encode_qsize_key n := None,
            encode_qitem_key n QFRONT_SEQ := None, encode_qitem_key n QBACK_SEQ := None)
       else (data_map s)(encode_qitem_key n (of_nat (f + length l)) := None, encode_qsize_key n \<mapsto> le64 (of_nat (length l)),
            encode_qitem_key n QBACK_SEQ \<mapsto> le64 (of_nat (f + length l - 1))))" "snd (qpop_back n lt s) = (1, x)"
    using d rd(1,3) p by (simp_all del: of_nat_add)
  have run: "io_ok (fst (qpop_back n lt s))"
    unfolding qpop_back_def by (rule io_ok_run [OF io qpop_run])
  have "\<exists>f'. q_map n f' l (data_map (fst (qpop_back n lt s))) \<and> q_room a b f' l"
  proof (cases "l = []")
    case True
    then show ?thesis using q_map_pop_last [OF _ f(1,5), of n x "data_map s" 4611686018427387903] m room
      unfolding dd by (intro exI [of _ 4611686018427387903]) (simp add: q_room_def)
  next
    case False
    then show ?thesis using q_map_pop_back [OF m False f(1,3)] room
      unfolding dd by (intro exI [of _ f]) (simp add: q_room_def del: of_nat_add)
  qed
  with run show "q_rep (fst (qpop_back n lt s)) n a b l" by (simp add: q_rep_def)
  show "snd (qpop_back n lt s) = (1, x)" by (rule dd)
  show "q_frame n s (fst (qpop_back n lt s))" by (simp add: q_frame_def dd)
qed

lemma qpop_empty_correct:
  assumes "q_rep s n a b []"
  shows "data_map (fst (qpop_front n lt s)) = data_map s \<and> snd (qpop_front n lt s) = (0, [])"
    and "data_map (fst (qpop_back n lt s)) = data_map s \<and> snd (qpop_back n lt s) = (0, [])"
  using assms q_rep_reads(2) qpop_empty unfolding q_rep_def qpop_front_def qpop_back_def by metis+

text \<open>A queue is at its limit when the number of the next item leaves the range.\<close>

lemma qpush_back_full:
  assumes "io_ok s" and "q_map n f l (data_map s)" and "q_room 0 0 f l" and "l \<noteq> []" and "f + length l = 9223372036854775807"
  shows "data_map (fst (qpush_back n x lt s)) = data_map s \<and> snd (qpush_back n x lt s) = -1"
proof -
  have "of_nat (f + length l - 1) + 1 = (of_nat (f + length l) :: u64)" using assms(4) by (cases l) simp_all
  then have "q_next QBACK_SEQ 1 (of_nat (f + length l - 1)) = QITEM_MAX_SEQ"
    using assms(5) by (simp add: q_next_def QITEM_MAX_SEQ_def)
  then show ?thesis
    using qpush_full [of n QBACK_SEQ s 1 "of_nat (f + length l - 1)"] q_rep_reads(3) [OF assms(1-3)] assms(4)
    by (simp add: qpush_back_def)
qed

subsection \<open>Access by index\<close>

definition q_pos :: "bytes list \<Rightarrow> int \<Rightarrow> int" where
  "q_pos l i = (if i \<ge> 0 then i else int (length l) + i)"

lemma qindex_correct:
  assumes "io_ok s" and "q_map n f l (data_map s)" and "q_room a b f l" and "l \<noteq> []" and "0 \<le> int f + q_pos l i"
  shows "qindex n i s = (1, of_nat (nat (int f + q_pos l i)))"
proof -
  note rd = q_rep_reads(3) [OF assms(1-4)]
  have w: "(of_nat (nat x) :: u64) = word_of_int x" if "0 \<le> x" for x
    using that by (cases x rule: int_cases4) simp_all
  have "(of_nat f + word_of_int i :: u64) = word_of_int (int f + i)" by simp
  moreover have "(of_nat (f + length l - 1) + word_of_int (i + 1) :: u64) = word_of_int (int f + (int (length l) + i))"
  proof -
    have "int (f + length l - 1) + (i + 1) = int f + (int (length l) + i)" using assms(4) by (cases l) simp_all
    then show ?thesis by (metis of_int_add of_int_of_nat_eq)
  qed
  ultimately show ?thesis using rd w [OF assms(5)] by (auto simp: qindex_def q_pos_def)
qed

lemma qget_correct:
  assumes "q_rep s n a b l" and "- int (length l) \<le> i" and "i < 2 ^ 63"
  shows "qget n i s = (if q_pos l i < int (length l) then Found (l ! nat (q_pos l i)) else NotFound)"
proof -
  from assms(1) obtain f where io: "io_ok s" and m: "q_map n f l (data_map s)" and room: "q_room a b f l"
    by (auto simp: q_rep_def)
  show ?thesis
  proof (cases "l = []")
    case True
    with q_rep_reads(2) [OF io m room] assms(2) show ?thesis by (simp add: qget_def qindex_def q_pos_def)
  next
    case False
    have p: "0 \<le> q_pos l i" "q_pos l i < 2 ^ 63" using assms(2,3) room by (auto simp: q_pos_def q_room_def)
    let ?k = "nat (int f + q_pos l i)"
    have k: "10000 < ?k" "?k < 2 ^ 64" "?k = f + nat (q_pos l i)" using p room by (auto simp: q_room_def nat_add_distrib)
    have "qindex n i s = (1, of_nat ?k)" using qindex_correct [OF io m room False] p by simp
    then have "qget n i s = (case q_item f l ?k of None \<Rightarrow> NotFound | Some v \<Rightarrow> Found v)"
      using q_rep_reads(4) [OF io m room k(1,2)] by (simp add: qget_def)
    then show ?thesis using p by (simp add: q_item_def k(3) nat_less_iff)
  qed
qed

text \<open>The index is not checked: one of them reaches the number of the first item itself.\<close>

lemma qget_front_number:
  assumes "io_ok s" and "q_map n f l (data_map s)" and "q_room a b f l" and "l \<noteq> []"
  shows "qget n (1 - int (f + length l - 1)) s = Found (le64 (of_nat f))"
proof -
  let ?i = "1 - int (f + length l - 1)"
  have p: "int f + q_pos l ?i = 2"
    using assms(3,4) by (cases l) (simp_all add: q_pos_def q_room_def)
  have "qindex n ?i s = (1, of_nat (nat (int f + q_pos l ?i)))" by (rule qindex_correct [OF assms]) (simp only: p)
  then have "qindex n ?i s = (1, QFRONT_SEQ)" unfolding p by (simp add: QFRONT_SEQ_def)
  then show ?thesis using assms(2,4) by (simp add: qget_def q_get(1) [OF assms(1)] q_map_def)
qed

lemma q_map_update:
  assumes "q_map n f l m" and "i < length l" and "10000 < f" and "f + length l < 2 ^ 64"
  shows "q_map n f (l[i := x]) (m(encode_qitem_key n (of_nat (f + i)) \<mapsto> x))"
proof -
  have lt: "10000 < f + i" "f + i < 2 ^ 64" using assms by auto
  have "q_item f (l[i := x]) k = (if k = f + i then Some x else q_item f l k)" for k
    using assms(2) by (auto simp: q_item_def nth_list_update)
  then show ?thesis
    using assms(1,3) of_nat_not_end [OF lt] seq_eq_iff [OF lt(2)]
    by (auto simp: q_map_def simp del: of_nat_add)
qed

lemma qset_correct:
  assumes "q_rep s n a b l" and "- int (length l) \<le> i" and "i < int (length l)"
  shows "q_rep (fst (qset n i x lt s)) n a b (l[nat (q_pos l i) := x])" and "snd (qset n i x lt s) = 1"
    and "q_frame n s (fst (qset n i x lt s))"
proof -
  from assms(1) obtain f where io: "io_ok s" and m: "q_map n f l (data_map s)"
    and room: "q_room a b f l" by (auto simp: q_rep_def)
  have l: "l \<noteq> []" using assms(2,3) by auto
  have p: "0 \<le> q_pos l i" "q_pos l i < int (length l)" using assms(2,3) by (auto simp: q_pos_def)
  then have k: "nat (int f + q_pos l i) = f + nat (q_pos l i)" "nat (q_pos l i) < length l"
    by (auto simp: nat_add_distrib nat_less_iff)
  have idx: "qindex n i (bl_begin s) = (1, of_nat (f + nat (q_pos l i)))"
  proof -
    have "qindex n i (bl_begin s) = qindex n i s" by (simp add: qindex_def store_simps)
    also have "\<dots> = (1, of_nat (nat (int f + q_pos l i)))"
      using p(1) by (intro qindex_correct [OF io m room l]) simp
    finally show ?thesis by (simp only: k(1))
  qed
  have io': "kv_sorted (entries (ldb s))" "\<not> wr_fail (ldb s)" using io by (auto simp: io_ok_def)
  have w: "wrap64 (- int (length l)) = - int (length l)" using room by (simp add: in_int64_def q_room_def)
  have d: "data_map (fst (qset n i x lt s)) = (data_map s)(encode_qitem_key n (of_nat (f + nat (q_pos l i))) \<mapsto> x)"
    "snd (qset n i x lt s) = 1"
    using q_rep_reads(1) [OF io m room] idx io' w assms(2,3)
    by (simp_all add: qset_def qset_commit_def qset_one_def Let_def store_simps del: of_nat_add)
  have run: "io_ok (fst (qset n i x lt s))" by (rule io_ok_run [OF io qset_run])
  have "q_map n f (l[nat (q_pos l i) := x]) (data_map (fst (qset n i x lt s)))"
    unfolding d by (rule q_map_update [OF m k(2)]) (use room in \<open>auto simp: q_room_def\<close>)
  moreover have "q_room a b f (l[nat (q_pos l i) := x])" using room by (simp add: q_room_def)
  ultimately show "q_rep (fst (qset n i x lt s)) n a b (l[nat (q_pos l i) := x])" using run by (auto simp: q_rep_def)
  show "snd (qset n i x lt s) = 1" "q_frame n s (fst (qset n i x lt s))" using d by (simp_all add: q_frame_def)
qed

subsection \<open>Slices\<close>

lemma qslice_loop_correct:
  assumes "io_ok s" and "q_map n f l (data_map s)" and "q_room a b f l" and "f \<le> i" and "i < 2 ^ 64" and "e < 2 ^ 64 - 1"
  shows "qslice_loop n (of_nat i) (of_nat e) s acc = Some (0, acc @ take (e + 1 - i) (drop (i - f) l))"
  using assms(4,5)
proof (induction "e + 1 - i" arbitrary: i acc)
  case 0
  then have "\<not> (of_nat i :: u64) \<le> of_nat e"
    using assms(6) by (simp add: word_le_nat_alt unat_of_nat_64)
  with 0 show ?case by (simp add: qslice_loop.simps)
next
  case (Suc k)
  then have le: "(of_nat i :: u64) \<le> of_nat e"
    using assms(6) by (simp add: word_le_nat_alt unat_of_nat_64)
  have i: "10000 < i" using Suc.prems assms(3) by (simp add: q_room_def)
  have g: "qget_by_seq n (of_nat i) s = (case q_item f l i of None \<Rightarrow> NotFound | Some v \<Rightarrow> Found v)"
    by (rule q_rep_reads(4) [OF assms(1-3) i Suc.prems(2)])
  show ?case
  proof (cases "i - f < length l")
    case True
    then have it: "q_item f l i = Some (l ! (i - f))" using Suc.prems by (simp add: q_item_def)
    have "qslice_loop n (of_nat i) (of_nat e) s acc = qslice_loop n (of_nat (Suc i)) (of_nat e) s (acc @ [l ! (i - f)])"
      using le g it by (simp add: qslice_loop.simps [of n "of_nat i"] add.commute)
    also have "\<dots> = Some (0, (acc @ [l ! (i - f)]) @ take (e + 1 - Suc i) (drop (Suc i - f) l))"
      using Suc.hyps(2) Suc.prems assms(6) by (intro Suc.hyps(1)) simp_all
    finally have "qslice_loop n (of_nat i) (of_nat e) s acc =
        Some (0, acc @ [l ! (i - f)] @ take (e + 1 - Suc i) (drop (Suc i - f) l))" by simp
    moreover have "[l ! (i - f)] @ take (e + 1 - Suc i) (drop (Suc i - f) l) = take (e + 1 - i) (drop (i - f) l)"
      using True Suc.hyps(2) Suc.prems
      by (simp add: Cons_nth_drop_Suc [symmetric] Suc_diff_le take_Suc_Cons flip: Suc.hyps(2))
    ultimately show ?thesis by (simp only:)
  next
    case False
    then have "q_item f l i = None" by (auto simp: q_item_def)
    with False le g show ?thesis by (simp add: qslice_loop.simps [of n "of_nat i"])
  qed
qed

lemma qslice_ends:
  assumes "io_ok s" and "q_map n f l (data_map s)" and "q_room a b f l" and "l \<noteq> []"
  shows "qslice n i j s = qslice_loop n (snd (qindex n i s)) (snd (qindex n j s)) s []"
  using q_rep_reads(3) [OF assms] by (auto simp: qslice_def qindex_def Let_def split: if_splits)

lemma qslice_correct:
  assumes "q_rep s n a b l" and "- int (length l) \<le> i" and "i < 2 ^ 62" and "- int (length l) \<le> j" and "j < 2 ^ 62"
  shows "qslice n i j s = Some (0, take (nat (q_pos l j - q_pos l i + 1)) (drop (nat (q_pos l i)) l))"
proof -
  from assms(1) obtain f where io: "io_ok s" and m: "q_map n f l (data_map s)" and room: "q_room a b f l"
    by (auto simp: q_rep_def)
  show ?thesis
  proof (cases "l = []")
    case True
    with q_rep_reads(2) [OF io m room] show ?thesis by (simp add: qslice_def)
  next
    case False
    have p: "0 \<le> q_pos l i" "q_pos l i < 2 ^ 63" "0 \<le> q_pos l j" "q_pos l j < 2 ^ 63"
      using assms room by (auto simp: q_pos_def q_room_def)
    have idx: "qindex n k s = (1, of_nat (f + nat (q_pos l k)))" if "0 \<le> q_pos l k" for k
      using qindex_correct [OF io m room False, of k] that by (simp add: nat_add_distrib del: of_nat_add)
    have "qslice n i j s = qslice_loop n (of_nat (f + nat (q_pos l i))) (of_nat (f + nat (q_pos l j))) s []"
      using qslice_ends [OF io m room False] idx p by (simp del: of_nat_add)
    also have "\<dots> = Some (0, [] @ take (f + nat (q_pos l j) + 1 - (f + nat (q_pos l i)))
        (drop (f + nat (q_pos l i) - f) l))"
      by (rule qslice_loop_correct [OF io m room]) (use p room in \<open>auto simp: q_room_def\<close>)
    also have "f + nat (q_pos l j) + 1 - (f + nat (q_pos l i)) = nat (q_pos l j - q_pos l i + 1)"
      using p by linarith
    finally show ?thesis by simp
  qed
qed

lemma qpeek_correct:
  assumes "q_rep s n a b l"
  shows "qfront n s = (if l = [] then NotFound else Found (hd l))"
    and "qback n s = (if l = [] then NotFound else Found (last l))"
proof -
  from assms obtain f where io: "io_ok s" and m: "q_map n f l (data_map s)" and room: "q_room a b f l"
    by (auto simp: q_rep_def)
  have f: "10000 < f" "f < 2 ^ 64" "l \<noteq> [] \<Longrightarrow> 10000 < f + length l - 1" "f + length l - 1 < 2 ^ 64"
    using room by (cases l, auto simp: q_room_def)+
  note rd = q_rep_reads [OF io m room]
  have "q_item f l f = Some (hd l)" "q_item f l (f + length l - 1) = Some (last l)" if "l \<noteq> []"
    using that by (cases l, auto simp: q_item_def hd_conv_nth last_conv_nth)+
  then show "qfront n s = (if l = [] then NotFound else Found (hd l))"
    and "qback n s = (if l = [] then NotFound else Found (last l))"
    using rd(2,3) rd(4) [OF f(1,2)] rd(4) [OF f(3) f(4)] by (auto simp: qfront_def qback_def qpeek_def)
qed

subsection \<open>The contract\<close>

text \<open>
  A double-ended queue of bounded room: what each operation does to the list it
  represents. The order in which items leave follows.
\<close>

locale deque =
  fixes rep :: "'s \<Rightarrow> nat \<Rightarrow> nat \<Rightarrow> 'a list \<Rightarrow> bool"
    and push_back :: "'a \<Rightarrow> 's \<Rightarrow> 's" and push_front :: "'a \<Rightarrow> 's \<Rightarrow> 's"
    and pop_back :: "'s \<Rightarrow> 's \<times> 'a" and pop_front :: "'s \<Rightarrow> 's \<times> 'a"
  assumes push_back: "rep s a (Suc b) l \<Longrightarrow> rep (push_back x s) a b (l @ [x])"
    and push_front: "rep s (Suc a) b l \<Longrightarrow> rep (push_front x s) a b (x # l)"
    and pop_front: "rep s a b (x # l) \<Longrightarrow> rep (fst (pop_front s)) a b l \<and> snd (pop_front s) = x"
    and pop_back: "rep s a b (l @ [x]) \<Longrightarrow> rep (fst (pop_back s)) a b l \<and> snd (pop_back s) = x"
begin

fun take_front :: "nat \<Rightarrow> 's \<Rightarrow> 'a list \<times> 's" where
  "take_front 0 s = ([], s)"
| "take_front (Suc k) s = (case pop_front s of (s', x) \<Rightarrow> case take_front k s' of (xs, t) \<Rightarrow> (x # xs, t))"

fun take_back :: "nat \<Rightarrow> 's \<Rightarrow> 'a list \<times> 's" where
  "take_back 0 s = ([], s)"
| "take_back (Suc k) s = (case pop_back s of (s', x) \<Rightarrow> case take_back k s' of (xs, t) \<Rightarrow> (x # xs, t))"

lemma push_all_rep: "rep s a (b + length xs) l \<Longrightarrow> rep (fold push_back xs s) a b (l @ xs)"
proof (induction xs arbitrary: s l)
  case (Cons x xs)
  then have "rep (push_back x s) a (b + length xs) (l @ [x])" using push_back by simp
  from Cons.IH [OF this] show ?case by simp
qed simp

lemma take_front_rep:
  "rep s a b (xs @ l) \<Longrightarrow> fst (take_front (length xs) s) = xs \<and> rep (snd (take_front (length xs) s)) a b l"
proof (induction xs arbitrary: s)
  case (Cons x xs)
  then have "rep (fst (pop_front s)) a b (xs @ l)" "snd (pop_front s) = x" using pop_front by auto
  with Cons.IH [of "fst (pop_front s)"] show ?case by (simp add: case_prod_beta)
qed simp

lemma take_back_rep:
  "rep s a b (l @ rev xs) \<Longrightarrow> fst (take_back (length xs) s) = xs \<and> rep (snd (take_back (length xs) s)) a b l"
proof (induction xs arbitrary: s)
  case (Cons x xs)
  then have "rep s a b ((l @ rev xs) @ [x])" by simp
  from pop_back [OF this] have "rep (fst (pop_back s)) a b (l @ rev xs)" "snd (pop_back s) = x" by auto
  with Cons.IH [of "fst (pop_back s)"] show ?case by (simp add: case_prod_beta)
qed simp

lemma fifo:
  "rep s a (b + length xs) [] \<Longrightarrow> fst (take_front (length xs) (fold push_back xs s)) = xs"
  using push_all_rep [of s a b xs "[]"] take_front_rep [of "fold push_back xs s" a b xs "[]"] by simp

lemma lifo:
  "rep s a (b + length xs) [] \<Longrightarrow> fst (take_back (length xs) (fold push_back xs s)) = rev xs"
  using push_all_rep [of s a b xs "[]"] take_back_rep [of "fold push_back xs s" a b "[]" "rev xs"] by simp

end

interpretation ssdb_queue: deque "\<lambda>s. q_rep s n" "\<lambda>x s. fst (qpush_back n x lt s)" "\<lambda>x s. fst (qpush_front n x lt s)"
    "\<lambda>s. case qpop_back n lt s of (s', r, x) \<Rightarrow> (s', x)" "\<lambda>s. case qpop_front n lt s of (s', r, x) \<Rightarrow> (s', x)" for n lt
proof unfold_locales
  fix s a b x l assume "q_rep s n a b (x # l)"
  then show "q_rep (fst (case qpop_front n lt s of (s', r, x) \<Rightarrow> (s', x))) n a b l \<and>
      snd (case qpop_front n lt s of (s', r, x) \<Rightarrow> (s', x)) = x"
    using qpop_front_correct [of s n a b x l lt] by (auto simp: case_prod_beta)
next
  fix s a b x l assume "q_rep s n a b (l @ [x])"
  then show "q_rep (fst (case qpop_back n lt s of (s', r, x) \<Rightarrow> (s', x))) n a b l \<and>
      snd (case qpop_back n lt s of (s', r, x) \<Rightarrow> (s', x)) = x"
    using qpop_back_correct [of s n a b l x lt] by (auto simp: case_prod_beta)
qed (rule qpush_back_correct qpush_front_correct, assumption)+

subsection \<open>Properties of the queues\<close>

text \<open>C4. The operations at the ends of a queue refine those of a list: with room for a number at each end,
  \<open>qpush_back\<close> and \<open>qpush_front\<close> add the item at the end or the front and return the new size, \<open>qpop_front\<close>
  and \<open>qpop_back\<close> remove and return the first and the last item, on an empty queue they report 0 and change
  nothing, and none of them changes a key that is not of this queue.\<close>

theorem queue_refines_list:
  assumes "q_rep s n (Suc a) (Suc b) l"
  shows "(\<exists>s'. qpush_back n x lt s = (s', int (length l) + 1) \<and> q_rep s' n (Suc a) b (l @ [x]) \<and> q_frame n s s') \<and>
    (\<exists>s'. qpush_front n x lt s = (s', int (length l) + 1) \<and> q_rep s' n a (Suc b) (x # l) \<and> q_frame n s s') \<and>
    (if l = []
     then snd (qpop_front n lt s) = (0, []) \<and> data_map (fst (qpop_front n lt s)) = data_map s \<and>
          snd (qpop_back n lt s) = (0, []) \<and> data_map (fst (qpop_back n lt s)) = data_map s
     else (\<exists>s'. qpop_front n lt s = (s', 1, hd l) \<and> q_rep s' n (Suc a) (Suc b) (tl l) \<and> q_frame n s s') \<and>
          (\<exists>s'. qpop_back n lt s = (s', 1, last l) \<and> q_rep s' n (Suc a) (Suc b) (butlast l) \<and> q_frame n s s'))"
proof -
  have pb: "\<exists>s'. qpush_back n x lt s = (s', int (length l) + 1) \<and> q_rep s' n (Suc a) b (l @ [x]) \<and> q_frame n s s'"
    using qpush_back_correct [OF assms, of x lt] by (metis prod.collapse)
  have pf: "\<exists>s'. qpush_front n x lt s = (s', int (length l) + 1) \<and> q_rep s' n a (Suc b) (x # l) \<and> q_frame n s s'"
    using qpush_front_correct [OF assms, of x lt] by (metis prod.collapse)
  show ?thesis
  proof (cases "l = []")
    case True
    with assms have "q_rep s n (Suc a) (Suc b) []" by simp
    from qpop_empty_correct [OF this, of lt] True pb pf show ?thesis by simp
  next
    case False
    with assms have hd: "q_rep s n (Suc a) (Suc b) (hd l # tl l)" and lst: "q_rep s n (Suc a) (Suc b) (butlast l @ [last l])"
      by simp_all
    have "\<exists>s'. qpop_front n lt s = (s', 1, hd l) \<and> q_rep s' n (Suc a) (Suc b) (tl l) \<and> q_frame n s s'"
      using qpop_front_correct [OF hd, of lt] by (metis prod.collapse)
    moreover have "\<exists>s'. qpop_back n lt s = (s', 1, last l) \<and> q_rep s' n (Suc a) (Suc b) (butlast l) \<and> q_frame n s s'"
      using qpop_back_correct [OF lst, of lt] by (metis prod.collapse)
    ultimately show ?thesis using pb pf False by simp
  qed
qed

lemma fresh_q_rep:
  assumes "a < 4611686018427377903" and "b < 4611686018427387904"
  shows "q_rep fresh_db n a b []"
  using assms
  by (auto simp: q_rep_def q_map_def q_room_def q_item_simps intro!: exI [of _ 4611686018427387903])

definition queue_db :: ssdb where
  "queue_db = fst (qpush_back ''q'' ''x'' (CHR 0x01) fresh_db)"

lemma queue_db_rep: "q_rep queue_db ''q'' 9 9 [''x'']"
proof -
  have "q_rep fresh_db ''q'' 9 (Suc 9) []" by (rule fresh_q_rep) simp_all
  from qpush_back_correct(1) [OF this] show ?thesis by (simp add: queue_db_def)
qed

theorem queue_refines_list_witness:
  "snd (qpush_front ''q'' ''w'' (CHR 0x01) queue_db) = 2 \<and> snd (qpop_back ''q'' (CHR 0x01) queue_db) = (1, ''x'')"
  using queue_refines_list [of queue_db "''q''" 8 8 "[''x'']" "''w''" "CHR 0x01"] queue_db_rep by (auto simp: numeral_eq_Suc)

text \<open>The results of popping the front \<open>k\<close> times.\<close>

primrec qdrain :: "bytes \<Rightarrow> char \<Rightarrow> nat \<Rightarrow> ssdb \<Rightarrow> bytes list \<times> ssdb" where
  "qdrain n lt 0 s = ([], s)"
| "qdrain n lt (Suc k) s =
     (case qpop_front n lt s of (s', r, x) \<Rightarrow> case qdrain n lt k s' of (xs, t) \<Rightarrow> (x # xs, t))"

lemma qdrain_take: "qdrain n lt k s = ssdb_queue.take_front n lt k s"
  by (induction k arbitrary: s) (auto simp: ssdb_queue.take_front.simps split: prod.split)

text \<open>A queue is first in, first out: items pushed at the back of an empty queue, as many as there is
  room for, leave the front in the same order, and popping all of them leaves the queue empty.\<close>

theorem queue_fifo:
  assumes "q_rep s n a (b + length xs) []"
  shows "fst (qdrain n lt (length xs) (fold (\<lambda>x s. fst (qpush_back n x lt s)) xs s)) = xs \<and>
    q_rep (snd (qdrain n lt (length xs) (fold (\<lambda>x s. fst (qpush_back n x lt s)) xs s))) n a b []"
proof -
  let ?t = "fold (\<lambda>x s. fst (qpush_back n x lt s)) xs s"
  have "q_rep ?t n a b (xs @ [])" using ssdb_queue.push_all_rep [OF assms] by simp
  from ssdb_queue.take_front_rep [OF this] show ?thesis unfolding qdrain_take by simp
qed

theorem queue_fifo_witness:
  "fst (qdrain ''q'' (CHR 0x01) 2 (fold (\<lambda>x s. fst (qpush_back ''q'' x (CHR 0x01) s)) [''a'', ''b''] fresh_db)) = [''a'', ''b'']"
proof -
  have "q_rep fresh_db ''q'' 1 (1 + length [''a'', ''b'']) []"
    by (rule fresh_q_rep) simp_all
  from queue_fifo [OF this, of "CHR 0x01"] show ?thesis by (simp add: numeral_2_eq_2)
qed

text \<open>\<open>qget\<close> and \<open>qslice\<close> read the queue by index, from the back when the index is negative: \<open>qget\<close>
  returns the item at the index and nothing when the index is past the back, \<open>qslice\<close> the items from one
  index to the other, both included, and \<open>qset\<close> replaces the item at an index of the queue.\<close>

theorem queue_index:
  assumes "q_rep s n a b l" and "- int (length l) \<le> i" and "i < 2 ^ 62" and "- int (length l) \<le> j" and "j < 2 ^ 62"
  shows "qget n i s = (if q_pos l i < int (length l) then Found (l ! nat (q_pos l i)) else NotFound) \<and>
    qslice n i j s = Some (0, take (nat (q_pos l j - q_pos l i + 1)) (drop (nat (q_pos l i)) l)) \<and>
    (i < int (length l) \<longrightarrow> (\<exists>s'. qset n i x lt s = (s', 1) \<and> q_rep s' n a b (l[nat (q_pos l i) := x]) \<and> q_frame n s s'))"
proof -
  have "\<exists>s'. qset n i x lt s = (s', 1) \<and> q_rep s' n a b (l[nat (q_pos l i) := x]) \<and> q_frame n s s'"
    if "i < int (length l)"
    using qset_correct [OF assms(1,2) that, of x lt] by (metis prod.collapse)
  then show ?thesis using qget_correct [OF assms(1,2)] qslice_correct [OF assms] assms(3) by simp
qed

theorem queue_index_witness:
  "qget ''q'' (-1) queue_db = Found ''x'' \<and> qslice ''q'' 0 (-1) queue_db = Some (0, [''x''])"
  using queue_index [OF queue_db_rep, of "-1" 0 "''y''" "CHR 0x01"] queue_index [OF queue_db_rep, of 0 "-1" "''y''" "CHR 0x01"]
  by (simp add: q_pos_def)

text \<open>\<open>qget\<close> does not check a negative index against the size: at the index that leads from the number of
  the last item to the number under which the front is kept, it returns the eight bytes of the front
  number as if they were an item.\<close>

theorem qget_out_of_range:
  assumes "io_ok s" and "q_map n f l (data_map s)" and "q_room a b f l" and "l \<noteq> []"
  shows "1 - int (f + length l - 1) < - int (length l) \<and> qget n (1 - int (f + length l - 1)) s = Found (le64 (of_nat f))"
  using qget_front_number [OF assms] assms(3,4) by (simp add: q_room_def)

theorem qget_out_of_range_witness: "\<exists>f > 10000. qget ''q'' (1 - int f) queue_db = Found (le64 (of_nat f))"
proof -
  obtain f where f: "io_ok queue_db" "q_map ''q'' f [''x''] (data_map queue_db)" "q_room 9 9 f [''x'']"
    using queue_db_rep by (auto simp: q_rep_def)
  from qget_out_of_range [OF f] f(3) show ?thesis by (intro exI [of _ f]) (simp add: q_room_def)
qed

text \<open>A queue does not run over its numbers: when the last item has the largest number, \<open>qpush_back\<close>
  reports -1 and leaves the data as it was.\<close>

theorem qpush_at_the_limit:
  assumes "io_ok s" and "q_map n f l (data_map s)" and "q_room 0 0 f l" and "l \<noteq> []"
    and "f + length l = 9223372036854775807"
  shows "\<exists>s'. qpush_back n x lt s = (s', -1) \<and> data_map s' = data_map s"
  using qpush_back_full [OF assms, of x lt] by (metis prod.collapse)


definition full_queue_db :: ssdb where
  "full_queue_db = fresh_db\<lparr>ldb := fresh_ldb\<lparr>entries :=
     kv_put (encode_qsize_key ''q'') (le64 1)
      (kv_put (encode_qitem_key ''q'' QFRONT_SEQ) (le64 9223372036854775806)
       (kv_put (encode_qitem_key ''q'' QBACK_SEQ) (le64 9223372036854775806)
        (kv_put (encode_qitem_key ''q'' 9223372036854775806) ''x'' [])))\<rparr>\<rparr>"

lemma full_queue_map:
  "data_map full_queue_db = [encode_qitem_key ''q'' 9223372036854775806 \<mapsto> ''x'',
     encode_qitem_key ''q'' QBACK_SEQ \<mapsto> le64 9223372036854775806,
     encode_qitem_key ''q'' QFRONT_SEQ \<mapsto> le64 9223372036854775806, encode_qsize_key ''q'' \<mapsto> le64 1]"
  by (auto simp: full_queue_db_def data_map_def db_map_def map_of_kv_put fun_eq_iff simp del: kv_put.simps)

theorem qpush_at_the_limit_witness: "\<exists>s'. qpush_back ''q'' ''y'' (CHR 0x01) full_queue_db = (s', -1)"
proof -
  have io: "io_ok full_queue_db" by (simp add: full_queue_db_def io_ok_def kv_sorted_put del: kv_put.simps)
  have "unat sq = 9223372036854775806 \<longleftrightarrow> sq = 9223372036854775806" for sq :: u64
    using seq_eq_iff [of 9223372036854775806 sq] by simp
  then have "q_map ''q'' 9223372036854775806 [''x''] (data_map full_queue_db)"
    by (auto simp: q_map_def full_queue_map q_item_simps QFRONT_SEQ_def QBACK_SEQ_def)
  from qpush_at_the_limit [OF io this, of "''y''" "CHR 0x01"] show ?thesis by (auto simp: q_room_def)
qed

end
