(* ===== verification/SSDBImpl.thy ===== *)
theory SSDBImpl
  imports Queue
begin

section \<open>Whole-store operations (\<open>ssdb/ssdb_impl.cpp\<close>)\<close>

text \<open>
  \<open>flushdb\<close>, the raw access replication uses, and the range of keys of each type. Opening the
  store is \<open>ssdb_open\<close>, in the theory of the binlog queue.
\<close>

subsection \<open>Operations\<close>

definition raw_set :: "bytes \<Rightarrow> bytes \<Rightarrow> ssdb \<Rightarrow> ssdb \<times> int" where
  "raw_set key val s = (case db_put key val s of (s', ok) \<Rightarrow> (s', if ok then 1 else -1))"

definition raw_del :: "bytes \<Rightarrow> ssdb \<Rightarrow> ssdb \<times> int" where
  "raw_del key s = (case db_delete key s of (s', ok) \<Rightarrow> (s', if ok then 1 else -1))"

definition raw_get :: "bytes \<Rightarrow> ssdb \<Rightarrow> get_status" where
  "raw_get key s = ldb_Get (ldb s) key"

text \<open>One round of \<open>flushdb\<close>: at most \<open>n\<close> deletions; the second result is the value to return
  when the loop stops.\<close>

fun flush_round :: "nat \<Rightarrow> ldb_iter \<Rightarrow> ssdb \<Rightarrow> ssdb \<times> int option" where
  "flush_round 0 it s = (s, None)"
| "flush_round (Suc n) it s =
     (if \<not> it_Valid it then (s, Some 0)
      else case db_delete (it_key it) s of
             (s', ok) \<Rightarrow> if \<not> ok then (s', Some (-1)) else flush_round n (it_Next it) s')"

partial_function (option) flush_loop :: "ssdb \<Rightarrow> (ssdb \<times> int) option" where
  "flush_loop s =
     (case flush_round 10000 (it_SeekToFirst (it_new (ldb s))) s of
        (s', Some ret) \<Rightarrow> Some (s', ret)
      | (s', None) \<Rightarrow> flush_loop s')"

definition flushdb :: "ssdb \<Rightarrow> (ssdb \<times> int) option" where
  "flushdb s =
     (case flush_loop (bl_begin s) of
        None \<Rightarrow> None
      | Some (s, ret) \<Rightarrow> (case bl_flush s of None \<Rightarrow> None | Some s \<Rightarrow> Some (bl_rollback s, ret)))"

text \<open>The first or last key of a type: the result code and the name.\<close>

definition key_at :: "DataType \<Rightarrow> (bytes \<Rightarrow> bytes option) \<Rightarrow> iterator \<Rightarrow> int \<times> bytes" where
  "key_at t dec it =
     (case Iterator_next it of
        (it', False) \<Rightarrow> (0, [])
      | (it', True) \<Rightarrow>
          if key_type (Iterator_key it') = type_char t
          then case dec (Iterator_key it') of None \<Rightarrow> (-1, []) | Some n \<Rightarrow> (0, n)
          else (0, []))"

definition key_ends :: "DataType \<Rightarrow> (bytes \<Rightarrow> bytes) \<Rightarrow> (bytes \<Rightarrow> bytes option) \<Rightarrow> ssdb \<Rightarrow> (int \<times> bytes) list" where
  "key_ends t enc dec s =
     [key_at t dec (ssdb_iterator (ldb s) (enc []) [] 1),
      key_at t dec (ssdb_rev_iterator (ldb s) (enc [CHR 0xFF]) [] 1)]"

definition key_range :: "ssdb \<Rightarrow> int \<times> bytes list" where
  "key_range s =
     (let ks = key_ends KV encode_kv_key decode_kv_key s @
               key_ends HSIZE encode_hsize_key decode_hsize_key s @
               key_ends ZSIZE encode_zsize_key decode_zsize_key s @
               key_ends QSIZE encode_qsize_key decode_qsize_key s
      in (if \<exists>k \<in> set ks. fst k = -1 then -1 else 0, map snd ks))"

subsection \<open>\<open>flushdb\<close> empties the store\<close>

lemma kv_del_hd: "kv_del (fst e) (e # xs) = xs"
  by (cases e) simp

lemma flush_round_correct:
  assumes "\<not> wr_fail (ldb s)" and "entries (ldb s) = drop (pos it) (snap it)"
  shows "flush_round n it s =
    (s\<lparr>ldb := (ldb s)\<lparr>entries := drop n (entries (ldb s))\<rparr>\<rparr>, if length (entries (ldb s)) < n then Some 0 else None)"
  using assms
proof (induction n arbitrary: it s)
  case (Suc n)
  show ?case
  proof (cases "it_Valid it")
    case False
    then show ?thesis using Suc.prems by (simp add: it_Valid_def)
  next
    case True
    then have e: "entries (ldb s) = snap it ! pos it # drop (Suc (pos it)) (snap it)"
      using Suc.prems by (simp add: it_Valid_def Cons_nth_drop_Suc)
    let ?s = "s\<lparr>ldb := (ldb s)\<lparr>entries := drop (Suc (pos it)) (snap it)\<rparr>\<rparr>"
    have d: "db_delete (it_key it) s = (?s, True)"
      using Suc.prems(1) e
      by (simp add: db_delete_def ldb_Delete_def ldb_Write_def apply_batch_def it_key_def kv_del_hd)
    have "flush_round n (it_Next it) ?s = (?s\<lparr>ldb := (ldb ?s)\<lparr>entries := drop n (entries (ldb ?s))\<rparr>\<rparr>,
        if length (entries (ldb ?s)) < n then Some 0 else None)"
      by (rule Suc.IH) (use Suc.prems(1) True in \<open>simp_all add: it_Next_def\<close>)
    with True d e show ?thesis by simp
  qed
qed simp

lemma flush_loop_correct:
  assumes "\<not> wr_fail (ldb s)"
  shows "flush_loop s = Some (s\<lparr>ldb := (ldb s)\<lparr>entries := []\<rparr>\<rparr>, 0)"
  using assms
proof (induction "length (entries (ldb s))" arbitrary: s rule: less_induct)
  case less
  let ?s = "s\<lparr>ldb := (ldb s)\<lparr>entries := drop 10000 (entries (ldb s))\<rparr>\<rparr>"
  have r: "flush_round 10000 (it_SeekToFirst (it_new (ldb s))) s =
      (?s, if length (entries (ldb s)) < 10000 then Some 0 else None)"
    by (rule flush_round_correct [OF less.prems]) (simp add: it_SeekToFirst_def it_new_def)
  show ?case
  proof (cases "length (entries (ldb s)) < 10000")
    case True
    then show ?thesis using r by (simp add: flush_loop.simps [of s])
  next
    case False
    then have "flush_loop ?s = Some (?s\<lparr>ldb := (ldb ?s)\<lparr>entries := []\<rparr>\<rparr>, 0)"
      by (intro less.hyps) (use less.prems in auto)
    with False r show ?thesis by (simp add: flush_loop.simps [of s])
  qed
qed

lemma map_of_None_Nil:
  assumes "\<And>k. map_of xs k = None"
  shows "xs = []"
proof (cases xs)
  case (Cons e es)
  then show ?thesis using assms [of "fst e"] by simp
qed

lemma flushdb_correct:
  assumes "\<not> wr_fail (ldb s)" and "last_seq (binlogs s) < UINT64_MAX" and "min_seq (binlogs s) \<le> last_seq (binlogs s) + 1"
  shows "\<exists>s'. flushdb s = Some (s', 0) \<and> entries (ldb s') = [] \<and> last_seq (binlogs s') = last_seq (binlogs s) \<and>
    enabled (binlogs s') = enabled (binlogs s)"
proof -
  let ?t = "(bl_begin s)\<lparr>ldb := (ldb s)\<lparr>entries := []\<rparr>\<rparr>"
  have l: "flush_loop (bl_begin s) = Some (?t, 0)"
    using flush_loop_correct [of "bl_begin s"] assms(1) by (simp add: store_simps)
  obtain db' r where d: "bl_del_range (min_seq (binlogs s)) (last_seq (binlogs s)) (ldb ?t) = Some (db', r)"
      "map_of (entries db') = del_logs {min_seq (binlogs s)..last_seq (binlogs s)} (map_of (entries (ldb ?t)))"
    using bl_del_range_correct [OF assms(2,3), of "ldb ?t"] assms(1) by auto
  have "map_of (entries db') k = None" for k unfolding d(2) by (simp add: del_logs_def)
  then have "entries db' = []" by (rule map_of_None_Nil)
  then show ?thesis using l d(1) by (simp add: flushdb_def bl_flush_def bl_begin_def bl_rollback_def)
qed

subsection \<open>Properties\<close>

text \<open>\<open>flushdb\<close> returns and leaves an empty store when no write fails, also when the store has more
  entries than one round of ten thousand deletions removes. The counter of the logs keeps its value in
  memory, but not in the store: a server opened on it again starts from 0.\<close>

theorem flushdb_empties:
  assumes "\<not> wr_fail (ldb s)" and "last_seq (binlogs s) < UINT64_MAX" and "min_seq (binlogs s) \<le> last_seq (binlogs s) + 1"
  shows "\<exists>s'. flushdb s = Some (s', 0) \<and> entries (ldb s') = [] \<and> last_seq (binlogs s') = last_seq (binlogs s) \<and>
    last_seq (binlogs (ssdb_open (ldb s') on max_logs)) = 0"
proof -
  obtain s' where s': "flushdb s = Some (s', 0)" "entries (ldb s') = []" "last_seq (binlogs s') = last_seq (binlogs s)"
    using flushdb_correct [OF assms] by blast
  then have "bl_find_last (ldb s') = FR_None"
    by (simp add: bl_find_last_def bl_load_at_def Let_def it_new_def it_Seek_def it_Valid_def it_SeekToLast_def)
  then have "last_seq (binlogs (ssdb_open (ldb s') on max_logs)) = 0"
    by (simp add: ssdb_open_def BinlogQueue_new_def)
  with s' show ?thesis by blast
qed

theorem flushdb_empties_witness:
  "\<exists>s'. flushdb logged_db = Some (s', 0) \<and> entries (ldb s') = [] \<and> last_seq (binlogs s') = 1 \<and>
     last_seq (binlogs (ssdb_open (ldb s') True 10)) = 0"
proof -
  have "\<not> wr_fail (ldb logged_db)"
    by (simp add: logged_db_def bl_commit_def bl_rollback_def bl_add_log_def bl_Put_def bl_begin_def fresh_queue ldb_Write_def Let_def)
  from flushdb_empties [OF this, of True 10] show ?thesis
    by (simp add: logged_db_facts UINT64_MAX_def word_less_nat_alt word_le_nat_alt)
qed

end
