(* ===== verification/ZFix.thy ===== *)
theory ZFix
  imports ZSet
begin

text \<open>
  What \<open>SSDBImpl::zfix\<close> (t_zset.cpp) does to a sorted set whose member and score records agree: its two
  passes count the score keys and the members and write the counter. The definitions are in the theory of
  the sorted sets; here are the lemmas on the two passes and the properties of the whole operation.
\<close>

subsection \<open>The two passes over a set whose records agree\<close>

definition zfix_ready :: "ssdb \<Rightarrow> bytes \<Rightarrow> bool" where
  "zfix_ready s name \<longleftrightarrow> io_ok s \<and> scores_ok (data_map s) \<and> zcoll.only_ok (data_map s) \<and> hname_ok name \<and>
     size_fits (card (dom (zcoll.view (data_map s) name)))"

lemma zfix_readyD:
  assumes "zfix_ready s name"
  shows "io_ok s" "zset_ready s" "hname_ok name" "kv_sorted (entries (ldb s))" "name_ok name"
    "size_fits (card (dom (zcoll.view (data_map s) name)))"
  using assms by (auto simp: zfix_ready_def zset_ready_def io_ok_def hname_ok_def)

lemma zfix_scores_agree:
  assumes "zfix_ready s name" and "iter_ok it" and "\<forall>e \<in> set (iter_rest it). e \<in> set (entries (ldb s)) \<and> prefix (zset_prefix name) (fst e)"
  shows "zfix_scores name it s sz = (s, sz + int (length (iter_rest it)))"
  using assms(2,3)
proof (induction "length (iter_rest it)" arbitrary: it sz)
  case 0
  obtain it' b where it': "Iterator_next it = (it', b)" by fastforce
  with Iterator_next_cases [OF "0.prems"(1) it'] "0.hyps" show ?case by (simp add: zfix_scores.simps [of name it])
next
  case (Suc n)
  obtain it' b where it': "Iterator_next it = (it', b)" by fastforce
  note c = Iterator_next_cases [OF Suc.prems(1) it'] and r = zfix_readyD [OF assms(1)]
  have b: "b" using c(2) Suc.hyps(2) by auto
  let ?e = "(Iterator_key it', Iterator_val it')"
  have rest: "iter_rest it = ?e # iter_rest it'" by (rule c(3) [OF b])
  then have "?e \<in> set (entries (ldb s))" "prefix (zset_prefix name) (fst ?e)" using Suc.prems(2) by auto
  then obtain k sc where e: "zcoll.view (data_map s) name k = Some sc" "Iterator_key it' = encode_zscore_key name k sc"
      "decode_zscore_key (Iterator_key it') = Some (name, k, sc)"
    by (rule zset_entry [OF r(2,3)]) auto
  have "ldb_Get (ldb s) (encode_zset_key name k) = Found sc"
    using e(1) r(1) by (auto simp: ldb_Get_data io_ok_def zcoll.view_def split: if_splits)
  then have "zfix_scores name it s sz = zfix_scores name it' s (sz + 1)"
    using it' b e by (simp add: zfix_scores.simps [of name it])
  also have "\<dots> = (s, sz + 1 + int (length (iter_rest it')))"
    using Suc.hyps(1) [of it' "sz + 1"] Suc.hyps(2) c(1) Suc.prems(2) rest by simp
  finally show ?case using rest by simp
qed

definition zmem_prefix :: "bytes \<Rightarrow> bytes" where
  "zmem_prefix name = [type_char ZSET] @ [len8 name] @ name"

lemma zset_member_entry:
  assumes "zfix_ready s name" and "e \<in> set (entries (ldb s))" and "key_type (fst e) = type_char ZSET"
  obtains n k where "zcoll.view (data_map s) n k = Some (snd e)" "fst e = encode_zset_key n k"
    "decode_zset_key (fst e) = Some (n, k)" "prefix (zmem_prefix name) (fst e) \<longleftrightarrow> n = name" "hname_ok n" "hname_ok k"
proof -
  note r = zfix_readyD [OF assms(1)]
  have m: "data_map s (fst e) = Some (snd e)"
    using r(4) assms(2,3) by (intro data_map_entry) (simp_all add: is_log_key_iff)
  then obtain n k where nk: "hname_ok n" "hname_ok k" "fst e = encode_zset_key n k"
    using assms(1,3) unfolding zfix_ready_def zcoll.only_ok_def by blast
  have "prefix (zmem_prefix name) (fst e) \<longleftrightarrow> n = name"
  proof
    assume p: "prefix (zmem_prefix name) (fst e)"
    then have "len8 n = len8 name" "prefix name (n @ [len8 k] @ k)"
      by (simp_all add: nk zmem_prefix_def encode_zset_key_def)
    moreover from this have "length n = length name"
      using of_char_len8 [of n] of_char_len8 [of name] nk(1) r(5) by (metis hname_ok_def)
    ultimately show "n = name" by (metis append_eq_append_conv prefixE append.assoc)
  qed (simp add: nk zmem_prefix_def encode_zset_key_def)
  moreover have "decode_zset_key (fst e) = Some (n, k)" using nk by (simp add: codec_simps hname_ok_def)
  moreover have "zcoll.view (data_map s) n k = Some (snd e)" using nk m by (simp add: zcoll.view_def)
  ultimately show thesis using nk that by blast
qed

lemma zfix_members_agree:
  assumes "zfix_ready s name" and "iter_ok it" and "set (iter_rest it) \<subseteq> set (entries (ldb s))"
  shows "zfix_members name it s sz = (s, sz + int (length (takeWhile (\<lambda>e. prefix (zmem_prefix name) (fst e)) (iter_rest it))))"
  using assms(2,3)
proof (induction "length (iter_rest it)" arbitrary: it sz)
  case 0
  obtain it' b where it': "Iterator_next it = (it', b)" by fastforce
  with Iterator_next_cases [OF "0.prems"(1) it'] "0.hyps" show ?case by (simp add: zfix_members.simps [of name it])
next
  case (Suc n)
  obtain it' b where it': "Iterator_next it = (it', b)" by fastforce
  note c = Iterator_next_cases [OF Suc.prems(1) it'] and r = zfix_readyD [OF assms(1)]
  have b: "b" using c(2) Suc.hyps(2) by auto
  let ?e = "(Iterator_key it', Iterator_val it')"
  have rest: "iter_rest it = ?e # iter_rest it'" by (rule c(3) [OF b])
  then have e: "?e \<in> set (entries (ldb s))" using Suc.prems(2) by auto
  show ?case
  proof (cases "key_type (Iterator_key it') = type_char ZSET")
    case False
    then have "\<not> prefix (zmem_prefix name) (Iterator_key it')" by (auto simp: zmem_prefix_def prefix_def)
    with False it' b rest show ?thesis by (simp add: zfix_members.simps [of name it])
  next
    case True
    with e obtain m k where m: "zcoll.view (data_map s) m k = Some (Iterator_val it')"
        "decode_zset_key (Iterator_key it') = Some (m, k)" "prefix (zmem_prefix name) (Iterator_key it') \<longleftrightarrow> m = name"
      by (metis fst_conv snd_conv zset_member_entry [OF assms(1) e])
    show ?thesis
    proof (cases "m = name")
      case False
      with True m it' b rest show ?thesis by (simp add: zfix_members.simps [of name it])
    next
      case same: True
      have "data_map s (encode_zscore_key name k (Iterator_val it')) = Some []"
        using m(1) same assms(1) by (auto simp: zfix_ready_def scores_ok_def)
      then have "ldb_Get (ldb s) (encode_zscore_key name k (Iterator_val it')) = Found []"
        using r(1) by (simp add: ldb_Get_data io_ok_def)
      then have "zfix_members name it s sz = zfix_members name it' s (sz + 1)"
        using it' b m same True by (simp add: zfix_members.simps [of name it])
      also have "\<dots> = (s, sz + 1 + int (length (takeWhile (\<lambda>e. prefix (zmem_prefix name) (fst e)) (iter_rest it'))))"
        using Suc.hyps(1) [of it' "sz + 1"] Suc.hyps(2) c(1) Suc.prems(2) rest by simp
      finally show ?thesis using rest m same by simp
    qed
  qed
qed


lemma zmem_append: "encode_zset_key name k = zmem_prefix name @ len8 k # k"
  by (simp add: zmem_prefix_def encode_zset_key_def)

lemma member_entries_count:
  assumes "zfix_ready s name"
  shows "length (filter (\<lambda>e. prefix (zmem_prefix name) (fst e)) (entries (ldb s))) = card (dom (zcoll.view (data_map s) name))"
proof -
  note r = zfix_readyD [OF assms]
  let ?F = "filter (\<lambda>e. prefix (zmem_prefix name) (fst e)) (entries (ldb s))"
  let ?f = "\<lambda>e. drop (Suc (length (zmem_prefix name))) (fst e)"
  have t: "key_type (fst e) = type_char ZSET" if "prefix (zmem_prefix name) (fst e)" for e :: "bytes \<times> bytes"
    using that by (auto simp: zmem_prefix_def prefix_def)
  have e: "fst e = encode_zset_key name (?f e) \<and> zcoll.view (data_map s) name (?f e) = Some (snd e)" if "e \<in> set ?F" for e
  proof -
    from that have m: "e \<in> set (entries (ldb s))" "prefix (zmem_prefix name) (fst e)" by auto
    from zset_member_entry [OF assms m(1) t [OF m(2)]] m(2) obtain k where
      "zcoll.view (data_map s) name k = Some (snd e)" "fst e = encode_zset_key name k" by metis
    then show ?thesis by (simp add: zmem_append)
  qed
  have d: "distinct (map fst ?F)"
    using kv_sorted_filter [OF r(4)] by (simp add: kv_sorted_def strict_sorted_iff)
  have "inj_on ?f (set ?F)"
  proof (rule inj_onI)
    fix x y assume "x \<in> set ?F" "y \<in> set ?F" "?f x = ?f y"
    with e [of x] e [of y] show "x = y" by (metis option.inject prod_eqI)
  qed
  moreover have "?f ` set ?F = dom (zcoll.view (data_map s) name)"
  proof (intro equalityI subsetI)
    fix k assume "k \<in> dom (zcoll.view (data_map s) name)"
    then obtain sc where "zcoll.view (data_map s) name k = Some sc" by auto
    then have "(encode_zset_key name k, sc) \<in> set (entries (ldb s))"
      by (auto simp: zcoll.view_def data_map_def db_map_def dest: map_of_SomeD split: if_splits)
    then show "k \<in> ?f ` set ?F" by (intro image_eqI [of _ _ "(encode_zset_key name k, sc)"]) (auto simp: zmem_append)
  qed (use e in blast)
  ultimately have "card (set ?F) = card (dom (zcoll.view (data_map s) name))" by (metis card_image)
  with d show ?thesis by (metis distinct_card distinct_map)
qed

lemma zfix_members_count:
  assumes "zfix_ready s name" and "length name < 255"
  shows "zfix_members name (ssdb_iterator (ldb s) (encode_zset_key name []) (encode_zset_key (name @ [CHR 0xFF]) []) UINT64_MAX) s 0
    = (s, int (card (dom (zcoll.view (data_map s) name))))"
proof -
  note r = zfix_readyD [OF assms(1)]
  let ?P = "\<lambda>e. prefix (zmem_prefix name) (fst e)"
  let ?it = "ssdb_iterator (ldb s) (encode_zset_key name []) (encode_zset_key (name @ [CHR 0xFF]) []) UINT64_MAX"
  let ?I = "\<lambda>p. encode_zset_key name [] < fst p \<and>
    (encode_zset_key (name @ [CHR 0xFF]) [] = [] \<or> fst p \<le> encode_zset_key (name @ [CHR 0xFF]) [])"
  let ?R = "filter ?I (entries (ldb s))"
  have "takeWhile ?P ?R = filter ?P ?R"
    by (rule takeWhile_prefix_up [OF kv_sorted_filter [OF r(4)], where lo = "len8 [] # []"]) (auto simp: zmem_append)
  also have "\<dots> = filter ?P (entries (ldb s))"
  proof -
    have "?I e" if e: "e \<in> set (entries (ldb s))" "?P e" for e
    proof -
      have "key_type (fst e) = type_char ZSET" using e(2) by (auto simp: zmem_prefix_def prefix_def)
      from zset_member_entry [OF assms(1) e(1) this] e(2) obtain k where
        k: "hname_ok k" "fst e = encode_zset_key name k" by metis
      have "len8 [] < len8 k" using of_char_len8 [of k] of_char_len8 [of "[]"] k(1)
        by (simp add: less_char_def hname_ok_def name_ok_def)
      moreover have "len8 name < len8 (name @ [CHR 0xFF])"
        using of_char_len8 [OF r(5)] of_char_len8 [of "name @ [CHR 0xFF]"] assms(2)
        by (simp add: less_char_def name_ok_def SSDB_KEY_LEN_MAX_def)
      ultimately show ?thesis by (simp add: k encode_zset_key_def)
    qed
    then show ?thesis unfolding filter_filter by (intro filter_cong [OF refl]) blast
  qed
  finally have len: "length (takeWhile ?P ?R) = card (dom (zcoll.view (data_map s) name))"
    using member_entries_count [OF assms(1)] by simp
  have "length (takeWhile ?P (iter_rest ?it)) = card (dom (zcoll.view (data_map s) name))"
    using len r(6) by (simp add: ssdb_iterator_rest [OF r(4)] takeWhile_take size_fits_def UINT64_MAX_def)
  then show ?thesis
    using zfix_members_agree [OF assms(1), of ?it 0] ssdb_iterator_rest(1) [OF r(4)] iter_rest_subset(1) [OF r(4)]
    by simp
qed


text \<open>A name of 255 bytes: the length byte of the end key is 0, below that of the start key.\<close>

lemma zfix_members_long:
  assumes "zfix_ready s name" and "length name = 255"
  shows "zfix_members name (ssdb_iterator (ldb s) (encode_zset_key name []) (encode_zset_key (name @ [CHR 0xFF]) []) UINT64_MAX) s 0
    = (s, 0)"
proof -
  note r = zfix_readyD [OF assms(1)]
  let ?it = "ssdb_iterator (ldb s) (encode_zset_key name []) (encode_zset_key (name @ [CHR 0xFF]) []) UINT64_MAX"
  have "len8 (name @ [CHR 0xFF]) < len8 name" using assms(2) by (simp add: less_char_def len8_def)
  then have "encode_zset_key (name @ [CHR 0xFF]) [] < encode_zset_key name []" by (simp add: encode_zset_key_def)
  then have "iter_rest ?it = []"
    unfolding ssdb_iterator_rest [OF r(4)] by (auto simp: filter_empty_conv dest: order.strict_trans2)
      (simp add: encode_zset_key_def)
  then show ?thesis
    using zfix_members_agree [OF assms(1), of ?it 0] ssdb_iterator_rest(1) [OF r(4)] by simp
qed

lemma zfix_scores_count:
  assumes "zfix_ready s name"
  shows "\<exists>c. zfix_scores name (ssdb_iterator (ldb s) (encode_zscore_key name [] SSDB_SCORE_MIN)
      (encode_zscore_key name [CHR 0xFF] SSDB_SCORE_MAX) UINT64_MAX) s 0 = (s, int c) \<and> size_fits c"
proof -
  note r = zfix_readyD [OF assms]
  let ?z = "ziterator name [] [] [] UINT64_MAX FORWARD s"
  have it: "z_it ?z = ssdb_iterator (ldb s) (encode_zscore_key name [] SSDB_SCORE_MIN)
      (encode_zscore_key name [CHR 0xFF] SSDB_SCORE_MAX) UINT64_MAX"
    by (simp add: ziterator_it z_from_def z_to_def)
  have "length (iter_rest (z_it ?z)) = length (z_rest ?z)" by (simp add: z_rest_def)
  also have "\<dots> \<le> length (zset_list s name)"
    unfolding z_rest_all [OF r(2,3)] by (simp add: min.coboundedI1)
  finally have "size_fits (length (iter_rest (z_it ?z)))"
    using r(6) zset_list_distinct(2) [OF r(2,3)] by (simp add: size_fits_def)
  moreover have "\<forall>e \<in> set (iter_rest (z_it ?z)). e \<in> set (entries (ldb s)) \<and> prefix (zset_prefix name) (fst e)"
  proof
    fix e assume e: "e \<in> set (iter_rest (z_it ?z))"
    obtain a b where "encode_zscore_key name [] SSDB_SCORE_MIN = zset_prefix name @ a"
      "encode_zscore_key name [CHR 0xFF] SSDB_SCORE_MAX = zset_prefix name @ b"
      using encode_zscore_key_prefix by metis
    with e have "e \<in> set (entries (ldb s))" "zset_prefix name @ a < fst e" "fst e \<le> zset_prefix name @ b"
      unfolding it ssdb_iterator_rest [OF r(4)] by (auto dest!: in_set_takeD simp: zset_prefix_def)
    then show "e \<in> set (entries (ldb s)) \<and> prefix (zset_prefix name) (fst e)"
      using prefix_between [of "zset_prefix name" a "fst e" b] by (simp add: less_imp_le)
  qed
  ultimately show ?thesis
    using zfix_scores_agree [OF assms, of "z_it ?z" 0] ssdb_iterator_rest(1) [OF r(4)] unfolding it by auto
qed

subsection \<open>The counter\<close>

lemma zfix_size_correct:
  assumes "io_ok s" and "size_fits c"
  shows "zsize name (zfix_size name (int c) s) = int c" and "io_ok (zfix_size name (int c) s)"
    and "x \<noteq> encode_zsize_key name \<Longrightarrow> data_map (zfix_size name (int c) s) x = data_map s x"
    and "binlogs (zfix_size name (int c) s) = binlogs s"
    and "x \<noteq> encode_zsize_key name \<Longrightarrow> db_map (zfix_size name (int c) s) x = db_map s x"
    and "data_map s (encode_zsize_key name) = size_entry c0 \<Longrightarrow> size_fits c0 \<Longrightarrow>
      data_map (zfix_size name (int c) s) (encode_zsize_key name) = size_entry c"
proof -
  have io: "kv_sorted (entries (ldb s))" "\<not> wr_fail (ldb s)" "\<And>k. \<not> rd_fail (ldb s) k"
    using assms(1) by (auto simp: io_ok_def)
  note d = zfix_size_def db_put_def db_delete_def ldb_Put_def ldb_Delete_def ldb_Write_def apply_batch_def
  show "io_ok (zfix_size name (int c) s)" using io by (simp add: d io_ok_def kv_sorted_put kv_sorted_del)
  show "binlogs (zfix_size name (int c) s) = binlogs s" by (simp add: d)
  show "x \<noteq> encode_zsize_key name \<Longrightarrow> data_map (zfix_size name (int c) s) x = data_map s x"
    using io by (simp add: d data_map_def db_map_def map_of_kv_put map_of_kv_del)
  show "x \<noteq> encode_zsize_key name \<Longrightarrow> db_map (zfix_size name (int c) s) x = db_map s x"
    using io by (simp add: d db_map_def map_of_kv_put map_of_kv_del)
  show "data_map (zfix_size name (int c) s) (encode_zsize_key name) = size_entry c"
    if e: "data_map s (encode_zsize_key name) = size_entry c0" "size_fits c0"
  proof (cases "zsize name s = int c")
    case True
    have "zsize name s = int c0" using e io size_entry_value [OF e(2)] by (simp add: zsize_def ldb_Get_data)
    with True e show ?thesis by (simp add: zfix_size_def)
  next
    case False
    then show ?thesis using io
      by (simp add: d data_map_def db_map_def map_of_kv_put map_of_kv_del size_entry_def)
  qed
  show "zsize name (zfix_size name (int c) s) = int c"
  proof (cases "zsize name s = int c")
    case False
    then show ?thesis using io size_value_le64 [OF assms(2)]
      by (simp add: d zsize_def ldb_Get_def map_of_kv_put map_of_kv_del)
  qed (simp add: zfix_size_def)
qed

lemma zfix_ready_frame:
  assumes "zfix_ready s name" and "io_ok s'" and "\<And>x. x \<noteq> encode_zsize_key name \<Longrightarrow> data_map s' x = data_map s x"
  shows "zfix_ready s' name" and "zcoll.view (data_map s') = zcoll.view (data_map s)"
proof -
  have m: "data_map s' x = data_map s x" if "key_type x \<noteq> type_char ZSIZE" for x
    using assms(3) [of x] that by (metis key_type_encode(5))
  show v: "zcoll.view (data_map s') = zcoll.view (data_map s)" by (auto simp: zcoll.view_def fun_eq_iff m)
  have "scores_ok (data_map s') = scores_ok (data_map s)" "zcoll.only_ok (data_map s') = zcoll.only_ok (data_map s)"
    unfolding scores_ok_def zcoll.only_ok_def v using m by auto
  with assms(1,2) v show "zfix_ready s' name" by (simp add: zfix_ready_def)
qed

lemma zfix_steps:
  assumes "zfix_ready s name" and "\<And>t. zfix_ready t name \<Longrightarrow> zcoll.view (data_map t) = zcoll.view (data_map s) \<Longrightarrow>
      zfix_members name (ssdb_iterator (ldb t) (encode_zset_key name []) (encode_zset_key (name @ [CHR 0xFF]) []) UINT64_MAX) t 0
        = (t, int c)" and "size_fits c"
  shows "\<exists>s'. zfix name s = (s', int c) \<and> zsize name s' = int c \<and> io_ok s' \<and>
    (\<forall>x. x \<noteq> encode_zsize_key name \<longrightarrow> data_map s' x = data_map s x \<and> db_map s' x = db_map s x) \<and>
    (\<forall>c0. data_map s (encode_zsize_key name) = size_entry c0 \<longrightarrow> size_fits c0 \<longrightarrow>
       data_map s' (encode_zsize_key name) = size_entry c) \<and>
    last_seq (binlogs s') = last_seq (binlogs s) \<and> min_seq (binlogs s') = min_seq (binlogs s) \<and>
    capacity (binlogs s') = capacity (binlogs s)"
proof -
  let ?b = "bl_begin s"
  have io: "io_ok ?b" using assms(1) by (simp add: zfix_ready_def io_ok_def store_simps)
  have d: "data_map ?b = data_map s" by (rule data_map_ldb) (simp add: store_simps)
  have rb: "zfix_ready ?b name" by (rule zfix_ready_frame [OF assms(1) io]) (simp add: d)
  obtain c1 where c1: "zfix_scores name (ssdb_iterator (ldb ?b) (encode_zscore_key name [] SSDB_SCORE_MIN)
      (encode_zscore_key name [CHR 0xFF] SSDB_SCORE_MAX) UINT64_MAX) ?b 0 = (?b, int c1)" "size_fits c1"
    using zfix_scores_count [OF rb] by blast
  let ?t = "zfix_size name (int c1) ?b" let ?u = "zfix_size name (int c) ?t"
  note t = zfix_size_correct [OF io c1(2), where name = name] and rt = zfix_ready_frame [OF rb zfix_size_correct(2,3) [OF io c1(2)]]
  note u = zfix_size_correct [OF t(2) assms(3), where name = name]
  have ne: "zsize name x \<noteq> -1" if "io_ok x" for x
    using that by (auto simp: zsize_def ldb_Get_def io_ok_def size_value_def Let_def split: option.split)
  have "zfix name s = (bl_rollback ?u, int c)"
    unfolding zfix_def Transaction_def Let_def c1(1)
    using ne [OF io] ne [OF t(2)] assms(2) [OF rt(1)] rt(2) d by simp
  moreover have "data_map (bl_rollback ?u) = data_map ?u" by (rule data_map_ldb) (simp add: store_simps)
  moreover have "zsize name (bl_rollback ?u) = zsize name ?u" by (simp add: zsize_def store_simps)
  moreover have "io_ok (bl_rollback ?u)" using u(2) by (simp add: io_ok_def store_simps)
  moreover have "db_map (bl_rollback ?u) x = db_map s x" if "x \<noteq> encode_zsize_key name" for x
    using u(5) [OF that] t(5) [OF that] by (simp add: db_map_def store_simps)
  moreover have "data_map ?u (encode_zsize_key name) = size_entry c"
    if "data_map s (encode_zsize_key name) = size_entry c0" "size_fits c0" for c0
    by (rule u(6) [OF t(6) c1(2)]) (use that d in simp_all)
  moreover have "last_seq (binlogs (bl_rollback ?u)) = last_seq (binlogs s)" "min_seq (binlogs (bl_rollback ?u)) = min_seq (binlogs s)"
      "capacity (binlogs (bl_rollback ?u)) = capacity (binlogs s)"
    unfolding bl_rollback_def by (simp_all add: u(4) t(4)) (simp_all add: bl_begin_def)
  ultimately show ?thesis using u(1,3) t(3) d by auto
qed

text \<open>While the disk refuses writes \<open>zfix\<close> changes nothing.\<close>

lemma db_writes_refused:
  assumes "wr_fail (ldb s)"
  shows "db_put k v s = (s, False)" and "db_delete k s = (s, False)"
  using assms by (simp_all add: db_put_def db_delete_def ldb_Put_def ldb_Delete_def ldb_Write_def)

lemma zfix_scores_refused:
  assumes "wr_fail (ldb s)"
  shows "fst (zfix_scores name it s sz) = s"
proof (induction "unat (it_limit it)" arbitrary: it sz rule: less_induct)
  case less
  obtain it' b where it': "Iterator_next it = (it', b)" by fastforce
  have "b \<Longrightarrow> fst (zfix_scores name it' s (sz + 1)) = s"
    using less Iterator_next_limit [of it it'] it' by simp
  then show ?case
    by (subst zfix_scores.simps, cases b) (auto simp: it' db_writes_refused [OF assms] Let_def split: option.split)
qed

lemma zfix_members_refused:
  assumes "wr_fail (ldb s)"
  shows "fst (zfix_members name it s sz) = s"
proof (induction "unat (it_limit it)" arbitrary: it sz rule: less_induct)
  case less
  obtain it' b where it': "Iterator_next it = (it', b)" by fastforce
  have "b \<Longrightarrow> fst (zfix_members name it' s (sz + 1)) = s"
    using less Iterator_next_limit [of it it'] it' by simp
  then show ?case
    by (subst zfix_members.simps, cases b) (auto simp: it' db_writes_refused [OF assms] Let_def split: option.split)
qed

lemma zfix_refused:
  assumes "wr_fail (ldb s)"
  shows "fst (zfix name s) = bl_rollback (bl_begin s)"
proof -
  let ?b = "bl_begin s"
  have w: "wr_fail (ldb ?b)" using assms by (simp add: store_simps)
  have z: "zfix_size name c ?b = ?b" for c by (simp add: zfix_size_def db_writes_refused [OF w])
  have s: "\<exists>x. zfix_scores name it ?b 0 = (?b, x)" "\<exists>x. zfix_members name it ?b 0 = (?b, x)" for it
    using zfix_scores_refused [OF w, of name it 0] zfix_members_refused [OF w, of name it 0] by (metis prod.collapse)+
  show ?thesis
    using s(1) [of "ssdb_iterator (ldb ?b) (encode_zscore_key name [] SSDB_SCORE_MIN) (encode_zscore_key name [CHR 0xFF] SSDB_SCORE_MAX) UINT64_MAX"]
      s(2) [of "ssdb_iterator (ldb ?b) (encode_zset_key name []) (encode_zset_key (name @ [CHR 0xFF]) []) UINT64_MAX"]
    by (auto simp: zfix_def Transaction_def Let_def z)
qed


subsection \<open>Properties\<close>

text \<open>\<open>zfix\<close> repairs the size of a sorted set with a name of less than 255 bytes: whatever the counter
  held, when the members and the score keys agree, it returns the number of members, stores it as the size
  and changes nothing else.\<close>

theorem zfix_repairs_size:
  assumes "io_ok s" and "scores_ok (data_map s)" and "zcoll.only_ok (data_map s)" and "hname_ok name"
    and "size_fits (card {k. hname_ok k \<and> zget name k s \<noteq> NotFound})" and "length name < 255"
  shows "\<exists>s'. zfix name s = (s', int (card {k. hname_ok k \<and> zget name k s \<noteq> NotFound})) \<and>
    zsize name s' = int (card {k. hname_ok k \<and> zget name k s \<noteq> NotFound}) \<and>
    (\<forall>x. x \<noteq> encode_zsize_key name \<longrightarrow> data_map s' x = data_map s x)"
proof -
  have d: "dom (zcoll.view (data_map s) name) = {k. hname_ok k \<and> zget name k s \<noteq> NotFound}"
    using zget_io [OF assms(1,4)] assms(4) by (auto simp: zcoll.view_def dom_def split: option.splits if_splits)
  have r: "zfix_ready s name" using assms d by (simp add: zfix_ready_def)
  have "zfix_members name (ssdb_iterator (ldb t) (encode_zset_key name []) (encode_zset_key (name @ [CHR 0xFF]) []) UINT64_MAX) t 0
      = (t, int (card (dom (zcoll.view (data_map s) name))))"
    if "zfix_ready t name" "zcoll.view (data_map t) = zcoll.view (data_map s)" for t
    using zfix_members_count [OF that(1) assms(6)] unfolding that(2) .
  from zfix_steps [OF r this zfix_readyD(6) [OF r]] show ?thesis unfolding d by blast
qed

definition miscounted_db :: ssdb where
  "miscounted_db = fst (db_put (encode_zsize_key ''z'') (le64 5) set_db)"

lemma miscounted_facts:
  "io_ok miscounted_db" "scores_ok (data_map miscounted_db)" "zcoll.only_ok (data_map miscounted_db)"
  "hname_ok k \<and> zget ''z'' k miscounted_db \<noteq> NotFound \<longleftrightarrow> k = ''a''"
proof -
  note r = zset_goodD [OF set_db_facts(1)]
  have io: "kv_sorted (entries (ldb set_db))" "\<not> wr_fail (ldb set_db)" "\<And>k. \<not> rd_fail (ldb set_db) k"
    using r(1) by (auto simp: io_ok_def)
  have f: "zfix_ready set_db ''z''" using set_db_facts(1)
    by (simp add: zfix_ready_def zset_good_def zset_inv_def zcoll.coll_inv_def)
  have i: "io_ok miscounted_db"
    using io by (simp add: miscounted_db_def db_put_def ldb_Put_def ldb_Write_def apply_batch_def io_ok_def kv_sorted_put)
  have "data_map miscounted_db x = data_map set_db x" if "x \<noteq> encode_zsize_key ''z''" for x
    using that io by (simp add: miscounted_db_def db_put_def ldb_Put_def ldb_Write_def apply_batch_def data_map_def db_map_def map_of_kv_put)
  note m = zfix_ready_frame [OF f i this]
  show "io_ok miscounted_db" "scores_ok (data_map miscounted_db)" "zcoll.only_ok (data_map miscounted_db)"
    using m(1) by (simp_all add: zfix_ready_def)
  show "hname_ok k \<and> zget ''z'' k miscounted_db \<noteq> NotFound \<longleftrightarrow> k = ''a''"
    using zget_io [OF i set_db_ok(1), of k] set_db_ok(2) by (auto simp: m(2) set_db_facts split: if_splits)
qed

theorem zfix_repairs_size_witness:
  "zsize ''z'' miscounted_db = 5 \<and> (\<exists>s'. zfix ''z'' miscounted_db = (s', 1) \<and> zsize ''z'' s' = 1)"
proof -
  have w: "\<not> wr_fail (ldb set_db)" "\<And>k. \<not> rd_fail (ldb set_db) k"
    using zset_goodD(1) [OF set_db_facts(1)] by (auto simp: io_ok_def)
  have "zsize ''z'' miscounted_db = 5"
    using w size_value_le64 [of 5] by (simp add: miscounted_db_def zsize_def db_put_def ldb_Put_def ldb_Write_def apply_batch_def ldb_Get_def map_of_kv_put size_fits_def)
  moreover have "{k. hname_ok k \<and> zget ''z'' k miscounted_db \<noteq> NotFound} = {''a''}" using miscounted_facts(4) by blast
  ultimately show ?thesis
    using zfix_repairs_size [OF miscounted_facts(1-3) set_db_ok(1)] by (auto simp: size_fits_def)
qed

text \<open>For a name of 255 bytes the second pass of \<open>zfix\<close> scans an empty range, since the length byte
  of \<open>name + "\xff"\<close> wraps to 0: \<open>zfix\<close> returns 0 and sets the size to 0 although all members are still
  there.\<close>

theorem zfix_long_name:
  assumes "zset_good s name" and "length name = 255"
  shows "\<exists>s'. zfix name s = (s', 0) \<and> zsize name s' = 0 \<and> (\<forall>k. hname_ok k \<longrightarrow> zget name k s' = zget name k s)"
proof -
  have r: "zfix_ready s name"
    using assms(1) by (simp add: zfix_ready_def zset_good_def zset_inv_def zcoll.coll_inv_def)
  from zfix_steps [OF r, of 0] zfix_members_long [OF _ assms(2)] obtain s' where
    s': "zfix name s = (s', 0)" "zsize name s' = 0" "io_ok s'"
    "\<forall>x. x \<noteq> encode_zsize_key name \<longrightarrow> data_map s' x = data_map s x" by (auto simp: size_fits_def)
  have "zcoll.view (data_map s') = zcoll.view (data_map s)"
    by (rule zfix_ready_frame [OF r s'(3)]) (use s'(4) in blast)
  then have "zget name k s' = zget name k s" if "hname_ok k" for k
    using zget_io [OF s'(3) zset_goodD(3) [OF assms(1)] that] zget_io [OF zset_goodD(1,3) [OF assms(1)] that] by simp
  with s' show ?thesis by blast
qed

definition long_name :: bytes where
  "long_name = replicate 255 (CHR ''n'')"

lemma long_name_ok: "hname_ok long_name" "length long_name = 255"
  by (simp_all add: long_name_def hname_ok_def name_ok_def SSDB_KEY_LEN_MAX_def)

theorem zfix_long_name_witness:
  "\<exists>s s'. zget long_name ''a'' s = Found ''7'' \<and> zfix long_name s = (s', 0) \<and> zsize long_name s' = 0 \<and>
     zget long_name ''a'' s' = Found ''7''"
proof -
  let ?s = "fst (zset long_name ''a'' ''7'' (CHR 0x01) fresh_db)"
  have sf: "size_fits (Suc (nat (zsize long_name fresh_db)))"
    using fresh_zsize [OF long_name_ok(1)] by (simp add: size_fits_def)
  note p = z_put_good [OF fresh_zset_good [OF long_name_ok(1)] set_db_ok(2) sf, of "''7''" "CHR 0x01"]
  have f: "filter_score ''7'' = ''7''" by code_simp
  have "zget long_name ''a'' ?s = Found ''7''"
    using zget_io [OF zset_goodD(1) [OF p(1)] long_name_ok(1) set_db_ok(2)]
    unfolding p(2) view_z_put [OF long_name_ok(1) set_db_ok(2)] by (simp add: f)
  with zfix_long_name [OF p(1) long_name_ok(2)] set_db_ok(2) show ?thesis by metis
qed

end
