(* ===== verification/System.thy ===== *)
theory System
  imports SSDBImpl ZFix
begin

text \<open>
  The database as a whole: what each operation leaves alone, the invariant that spans strings, hashes, sorted
  sets, queues and logs, and the runs of operations, cleaning rounds and failing writes that keep it.
\<close>

subsection \<open>What an operation does not touch\<close>

text \<open>Inside a transaction on \<open>s0\<close> only keys of the types \<open>T\<close> differ; a finished operation leaves all
  other keys of the data as they were.\<close>

definition touches :: "char set \<Rightarrow> ssdb \<Rightarrow> ssdb \<Rightarrow> bool" where
  "touches T s0 s \<longleftrightarrow> ldb s = ldb s0 \<and> (\<forall>x. key_type x \<notin> T \<longrightarrow> tx_data s x = data_map s0 x)"

definition leaves :: "char set \<Rightarrow> ssdb \<Rightarrow> ssdb \<Rightarrow> bool" where
  "leaves T s s' \<longleftrightarrow> (kv_sorted (entries (ldb s)) \<longrightarrow> (\<forall>x. key_type x \<notin> T \<longrightarrow> data_map s' x = data_map s x))"

named_theorems frame_intros

definition kv_types :: "char set" where "kv_types = {type_char KV}"
definition h_types :: "char set" where "h_types = {type_char HASH, type_char HSIZE}"
definition z_types :: "char set" where "z_types = {type_char ZSET, type_char ZSIZE, type_char ZSCORE}"
definition q_types :: "char set" where "q_types = {type_char QUEUE, type_char QSIZE}"

lemmas types_defs = kv_types_def h_types_def z_types_def q_types_def

lemma in_types [simp]:
  "CHR ''k'' \<in> kv_types" "CHR ''h'' \<in> h_types" "CHR ''H'' \<in> h_types" "CHR ''s'' \<in> z_types" "CHR ''Z'' \<in> z_types"
  "CHR ''z'' \<in> z_types" "CHR ''q'' \<in> q_types" "CHR ''Q'' \<in> q_types"
  by (simp_all add: types_defs)

lemma touches_begin [frame_intros]: "touches T s (bl_begin s)"
  by (simp add: touches_def store_simps)

lemma touches_Put [frame_intros]:
  "touches T s0 s \<Longrightarrow> key_type k \<in> T \<Longrightarrow> \<not> is_log_key k \<Longrightarrow> touches T s0 (bl_Put k v s)"
  by (auto simp: touches_def store_simps)

lemma touches_Delete [frame_intros]:
  "touches T s0 s \<Longrightarrow> key_type k \<in> T \<Longrightarrow> \<not> is_log_key k \<Longrightarrow> touches T s0 (bl_Delete k s)"
  by (auto simp: touches_def store_simps)

lemma touches_add_log [frame_intros]: "touches T s0 s \<Longrightarrow> touches T s0 (bl_add_log t c k s)"
  by (simp add: touches_def store_simps)

lemma leaves_refl [frame_intros]: "leaves T s s"
  by (simp add: leaves_def)

lemma leaves_in: "touches T s0 s \<Longrightarrow> leaves T s0 s"
  unfolding touches_def leaves_def using data_map_ldb [of s s0] by simp

lemma leaves_begin [frame_intros]: "leaves T s (bl_begin s)"
  by (intro leaves_in touches_begin)

lemma leaves_commit [frame_intros]: "touches T s0 s \<Longrightarrow> leaves T s0 (fst (bl_commit s))"
  using data_map_ldb [of s s0] by (auto simp: touches_def leaves_def data_map_commit)

lemma leaves_finish [frame_intros]: "touches T s0 s \<Longrightarrow> leaves T s0 (fst (tx_finish a b s))"
  by (simp add: store_simps leaves_commit)

lemma data_map_rollback [simp]: "data_map (bl_rollback s) = data_map s"
  by (rule data_map_ldb) (simp add: store_simps)

lemma leaves_Transaction [frame_intros]:
  "leaves T s (fst (body (bl_begin s))) \<Longrightarrow> leaves T s (fst (Transaction body s))"
  by (cases "body (bl_begin s)") (simp add: Transaction_def leaves_def)

lemma leaves_sized_finish [frame_intros]:
  assumes "touches T s0 s" and "touches T s0 (fst (f s))"
  shows "leaves T s0 (fst (sized_finish f ret a b s))"
  using assms leaves_in [OF assms(2)] leaves_finish [of T s0 "fst (f s)"]
  by (auto simp: sized_finish_def Let_def split: prod.split intro: leaves_finish)

subsubsection \<open>Strings\<close>

lemma kv_ops_leave:
  "leaves kv_types s (fst (ssdb_set k v lt s))" "leaves kv_types s (fst (setnx k v lt s))"
  "leaves kv_types s (fst (getset k v lt s))" "leaves kv_types s (fst (ssdb_del k lt s))"
  "leaves kv_types s (fst (ssdb_incr en k by lt s))"
  by (auto simp: ssdb_set_def setnx_def getset_def ssdb_del_def ssdb_incr_def incr_store_def Let_def
      split: get_status.split prod.split intro!: frame_intros)

lemma leaves_Transaction_pair:
  "Transaction body s = (s', r) \<Longrightarrow> leaves T s (fst (body (bl_begin s))) \<Longrightarrow> leaves T s s'"
  using leaves_Transaction [of T s body] by simp

lemma setbit_leaves: "setbit k off on lt s = Some (s', r) \<Longrightarrow> leaves kv_types s s'"
  unfolding setbit_def
  by (auto simp: Let_def split: if_splits prod.split intro!: frame_intros elim!: leaves_Transaction_pair)

lemma multi_set_loop_touches:
  "multi_set_loop lt kvs s = Some (s', b) \<Longrightarrow> touches kv_types s0 s \<Longrightarrow> touches kv_types s0 s'"
proof (induction lt kvs s rule: multi_set_loop.induct)
  case (3 lt key val kvs s)
  let ?t = "bl_add_log lt (binlog_cmd_char BC_KSET) (encode_kv_key key) (bl_Put (encode_kv_key key) val s)"
  have "touches kv_types s0 ?t" using "3.prems"(2) by (intro frame_intros) simp_all
  with "3.IH" [OF _ refl refl refl] "3.prems" show ?case by (simp add: Let_def split: if_splits)
qed (simp_all split: if_splits)

lemma leaves_rollback [simp]: "leaves T s (bl_rollback s') = leaves T s s'"
  by (simp add: leaves_def)

lemma multi_set_leaves:
  assumes "multi_set kvs offset lt s = Some (s', r)"
  shows "leaves kv_types s s'"
proof -
  obtain t b where t: "multi_set_loop lt (drop offset kvs) (bl_begin s) = Some (t, b)"
    using assms by (auto simp: multi_set_def split: if_splits option.splits)
  note tt = multi_set_loop_touches [OF t touches_begin]
  show ?thesis
  proof (cases b)
    case True
    then have "s' = bl_rollback (fst (tx_finish (wrap32 (int ((length kvs - offset) div 2))) (-1) t))"
      using assms t by (auto simp: multi_set_def split: if_splits prod.splits)
    then show ?thesis using leaves_finish [OF tt] by simp
  next
    case False
    then have "s' = bl_rollback t" using assms t by (auto simp: multi_set_def split: if_splits)
    then show ?thesis using leaves_in [OF tt] by simp
  qed
qed

lemma multi_del_loop_touches:
  "touches kv_types s0 s \<Longrightarrow> touches kv_types s0 (multi_del_loop lt keys s)"
proof (induction lt keys s rule: multi_del_loop.induct)
  case (2 lt key keys s)
  from 2(2) have "touches kv_types s0 (bl_add_log lt (binlog_cmd_char BC_KDEL) (encode_kv_key key) (bl_Delete (encode_kv_key key) s))"
    by (intro frame_intros) simp_all
  from 2(1) [OF refl refl refl this] show ?case by (simp add: Let_def)
qed simp

lemma multi_del_leaves: "multi_del keys offset lt s = Some (s', r) \<Longrightarrow> leaves kv_types s s'"
  unfolding multi_del_def
  by (auto split: if_splits intro!: frame_intros multi_del_loop_touches elim!: leaves_Transaction_pair)

subsubsection \<open>Hashes, sorted sets and queues\<close>

lemma incr_hsize_touches:
  "touches T s0 s \<Longrightarrow> CHR ''H'' \<in> T \<Longrightarrow> touches T s0 (fst (incr_hsize n i s))"
  by (auto simp: incr_hsize_def Let_def intro!: frame_intros)

lemma hset_one_touches: "touches h_types s (fst (hset_one n k v lt (bl_begin s)))"
  by (auto simp: hset_one_def Let_def intro!: frame_intros)

lemma hset_tail_leaves:
  assumes "hset_one n k v lt (bl_begin s) = (t, ret)"
  shows "leaves h_types s (fst (sized_finish (incr_hsize n ret') ret a b t))"
    and "leaves h_types s t"
proof -
  have t: "touches h_types s t" using hset_one_touches [of s n k v lt] assms by simp
  then show "leaves h_types s (fst (sized_finish (incr_hsize n ret') ret a b t))"
    by (intro frame_intros incr_hsize_touches) simp_all
  from t show "leaves h_types s t" by (rule leaves_in)
qed

lemma hset_leaves: "leaves h_types s (fst (hset n k v lt s))"
  unfolding hset_def by (rule leaves_Transaction) (auto simp: Let_def split: prod.split intro: hset_tail_leaves)

lemma hincr_store_leaves: "leaves h_types s (fst (hincr_store n k v lt (bl_begin s)))"
  by (auto simp: hincr_store_def Let_def split: prod.split intro: hset_tail_leaves)

lemma hincr_leaves: "leaves h_types s (fst (hincr en n k by lt s))"
  unfolding hincr_def
  by (rule leaves_Transaction) (auto simp: Let_def store_simps split: prod.split get_status.split
      intro: hincr_store_leaves leaves_begin)

lemma hdel_leaves: "leaves h_types s (fst (hdel n k lt s))"
  unfolding hdel_def
  by (rule leaves_Transaction) (auto simp: hdel_one_def Let_def intro!: frame_intros incr_hsize_touches)

lemma incr_zsize_touches:
  "touches T s0 s \<Longrightarrow> CHR ''Z'' \<in> T \<Longrightarrow> touches T s0 (fst (incr_zsize n i s))"
  by (auto simp: incr_zsize_def Let_def intro!: frame_intros)

lemma zset_one_touches: "touches z_types s (fst (zset_one n k v lt (bl_begin s)))"
  by (auto simp: zset_one_def Let_def intro!: frame_intros)

lemma zset_tail_leaves:
  assumes "zset_one n k v lt (bl_begin s) = (t, ret)"
  shows "leaves z_types s (fst (sized_finish (incr_zsize n ret') ret a b t))" and "leaves z_types s t"
proof -
  have t: "touches z_types s t" using zset_one_touches [of s n k v lt] assms by simp
  then show "leaves z_types s (fst (sized_finish (incr_zsize n ret') ret a b t))"
    by (intro frame_intros incr_zsize_touches) simp_all
  from t show "leaves z_types s t" by (rule leaves_in)
qed

lemma zset_leaves: "leaves z_types s (fst (zset n k v lt s))"
  unfolding zset_def by (rule leaves_Transaction) (auto simp: Let_def split: prod.split intro: zset_tail_leaves)

lemma zincr_store_leaves: "leaves z_types s (fst (zincr_store n k v lt (bl_begin s)))"
  by (auto simp: zincr_store_def Let_def split: prod.split intro: zset_tail_leaves)

lemma zincr_leaves: "leaves z_types s (fst (zincr n k by lt s))"
  unfolding zincr_def
  by (rule leaves_Transaction) (auto simp: Let_def store_simps split: get_status.split
      intro: zincr_store_leaves leaves_begin)

lemma zdel_leaves: "leaves z_types s (fst (zdel n k lt s))"
  unfolding zdel_def
  by (rule leaves_Transaction) (auto simp: zdel_one_def Let_def intro!: frame_intros incr_zsize_touches)

lemma incr_qsize_touches: "touches q_types s0 s \<Longrightarrow> touches q_types s0 (fst (incr_qsize n i s))"
  by (auto simp: incr_qsize_def qdel_one_def Let_def intro!: frame_intros)

lemma qpush_item_leaves:
  assumes "touches q_types s0 s"
  shows "leaves q_types s0 (fst (qpush_item n x e lt sq s))"
proof -
  let ?t = "bl_add_log lt (binlog_cmd_char (if e = QFRONT_SEQ then BC_QPUSH_FRONT else BC_QPUSH_BACK))
      (encode_qitem_key n sq) (qset_one n sq x s)"
  obtain t r where i: "incr_qsize n 1 ?t = (t, r)" by fastforce
  have "touches q_types s0 ?t" using assms by (auto simp: qset_one_def intro!: frame_intros)
  from incr_qsize_touches [OF this, of n 1] have "touches q_types s0 t" by (simp only: i fst_conv)
  with leaves_in [OF assms] show ?thesis
    unfolding qpush_item_def Let_def i by (auto intro: leaves_in leaves_finish)
qed

lemma qpush_leaves: "leaves q_types s (fst (qpush n x e lt s))"
  unfolding qpush_def
  by (rule leaves_Transaction) (auto simp: qpush_ends_def qset_one_def Let_def split: prod.split
      intro!: qpush_item_leaves frame_intros)

lemma qpop_leaves: "leaves q_types s (fst (qpop n e lt s))"
  unfolding qpop_def
  by (rule leaves_Transaction) (auto simp: qset_one_def qdel_one_def Let_def case_prod_beta split: get_status.split
      intro!: frame_intros incr_qsize_touches intro: leaves_in)

lemma qset_leaves: "leaves q_types s (fst (qset n i x lt s))"
  unfolding qset_def
  by (rule leaves_Transaction) (auto simp: qset_commit_def qset_one_def Let_def split: prod.split intro!: frame_intros)


subsection \<open>The invariant of the database\<close>

definition q_ok :: "(bytes \<rightharpoonup> bytes) \<Rightarrow> bytes \<Rightarrow> bool" where
  "q_ok m n \<longleftrightarrow> (\<exists>f l. q_map n f l m \<and> q_room 0 0 f l)"

definition data_inv :: "(bytes \<rightharpoonup> bytes) \<Rightarrow> bool" where
  "data_inv m \<longleftrightarrow> hcoll.coll_inv m \<and> zset_inv m \<and> (\<forall>n. q_ok m n)"

lemma zset_inv_frame:
  assumes "\<And>x. key_type x \<in> z_types \<Longrightarrow> m x = m' x"
  shows "zset_inv m = zset_inv m'"
proof -
  have v: "zcoll.view m = zcoll.view m'" by (rule zcoll.view_frame) (use assms in \<open>auto simp: z_types_def\<close>)
  have c: "zcoll.coll_inv m = zcoll.coll_inv m'" by (rule zcoll.coll_inv_frame) (use assms in \<open>auto simp: z_types_def\<close>)
  have s: "m x = m' x" if "key_type x = type_char ZSCORE" for x using assms that by (simp add: z_types_def)
  have "scores_ok m = scores_ok m'"
    unfolding scores_ok_def v using s by (auto simp: s)
  with c show ?thesis by (simp add: zset_inv_def)
qed

lemma q_ok_frame: "(\<And>x. key_type x \<in> q_types \<Longrightarrow> m x = m' x) \<Longrightarrow> q_ok m n = q_ok m' n"
  by (simp add: q_ok_def q_map_def q_types_def)

lemma hcoll_frame: "(\<And>x. key_type x \<in> h_types \<Longrightarrow> m x = m' x) \<Longrightarrow> hcoll.coll_inv m = hcoll.coll_inv m'"
  by (rule hcoll.coll_inv_frame) (simp add: h_types_def)

text \<open>An operation that leaves the other types alone and keeps the part of the invariant about its own types
  keeps all of it.\<close>

lemma data_inv_step:
  assumes "data_inv (data_map s)" and "kv_sorted (entries (ldb s))" and "leaves T s s'"
    and "T \<inter> h_types \<noteq> {} \<Longrightarrow> hcoll.coll_inv (data_map s')" and "T \<inter> z_types \<noteq> {} \<Longrightarrow> zset_inv (data_map s')"
    and "\<And>n. T \<inter> q_types \<noteq> {} \<Longrightarrow> q_ok (data_map s') n"
  shows "data_inv (data_map s')"
proof -
  have m: "data_map s x = data_map s' x" if "key_type x \<in> U" "T \<inter> U = {}" for x U
    using assms(2,3) that by (auto simp: leaves_def)
  have "hcoll.coll_inv (data_map s')"
    by (cases "T \<inter> h_types = {}") (use assms(1,4) hcoll_frame [OF m] in \<open>auto simp: data_inv_def\<close>)
  moreover have "zset_inv (data_map s')"
    by (cases "T \<inter> z_types = {}") (use assms(1,5) zset_inv_frame [OF m] in \<open>auto simp: data_inv_def\<close>)
  moreover have "q_ok (data_map s') n" for n
    by (cases "T \<inter> q_types = {}") (use assms(1,6) q_ok_frame [OF m] in \<open>auto simp: data_inv_def\<close>)
  ultimately show ?thesis by (simp add: data_inv_def)
qed

lemma data_inv_kv: "data_inv (data_map s) \<Longrightarrow> kv_sorted (entries (ldb s)) \<Longrightarrow> leaves kv_types s s' \<Longrightarrow> data_inv (data_map s')"
  by (rule data_inv_step) (auto simp: types_defs)


subsection \<open>Every operation keeps it\<close>

text \<open>The assumptions on the store: reads succeed, and it has far fewer entries than a counter can count.\<close>

definition store_ok :: "ssdb \<Rightarrow> bool" where
  "store_ok s \<longleftrightarrow> kv_sorted (entries (ldb s)) \<and> (\<forall>k. \<not> rd_fail (ldb s) k) \<and> length (entries (ldb s)) < 2 ^ 62"

lemma store_ok_io: "store_ok s \<Longrightarrow> \<not> wr_fail (ldb s) \<Longrightarrow> io_ok s"
  by (simp add: store_ok_def io_ok_def)

lemma card_data_map: "finite (dom (data_map s))" "card (dom (data_map s)) \<le> length (entries (ldb s))"
proof -
  have sub: "dom (data_map s) \<subseteq> fst ` set (entries (ldb s))"
    by (auto simp: data_map_def db_map_def dom_def split: if_splits dest: map_of_SomeD intro: rev_image_eqI)
  then show "finite (dom (data_map s))" by (rule finite_subset) simp
  have "card (dom (data_map s)) \<le> card (fst ` set (entries (ldb s)))" using sub by (rule card_mono [rotated]) simp
  also have "\<dots> \<le> length (entries (ldb s))" by (metis card_image_le card_length le_trans List.finite_set)
  finally show "card (dom (data_map s)) \<le> length (entries (ldb s))" .
qed

lemma fields_fit:
  assumes "store_ok s"
  shows "size_fits (Suc (card (dom (hcoll.view (data_map s) n))))" "size_fits (Suc (card (dom (zcoll.view (data_map s) n))))"
proof -
  have c: "card (dom (data_map s)) < 2 ^ 62" using assms card_data_map(2) [of s] by (simp add: store_ok_def)
  have le: "card D \<le> card (dom (data_map s))" if "inj_on f D" "f ` D \<subseteq> dom (data_map s)" for f :: "bytes \<Rightarrow> bytes" and D
    using card_image [OF that(1)] card_mono [OF card_data_map(1) that(2)] by simp
  have "card (dom (hcoll.view (data_map s) n)) \<le> card (dom (data_map s))"
    by (rule le [of "encode_hash_key n"]) (auto simp: inj_on_def hcoll.view_def hname_ok_def split: if_splits)
  with c show "size_fits (Suc (card (dom (hcoll.view (data_map s) n))))" by (simp add: size_fits_def)
  have "card (dom (zcoll.view (data_map s) n)) \<le> card (dom (data_map s))"
    by (rule le [of "encode_zset_key n"]) (auto simp: inj_on_def zcoll.view_def hname_ok_def split: if_splits)
  with c show "size_fits (Suc (card (dom (zcoll.view (data_map s) n))))" by (simp add: size_fits_def)
qed

lemma run_wr_fail: "tx_run n s s' \<Longrightarrow> wr_fail (ldb s) \<Longrightarrow> data_map s' = data_map s"
  using tx_run_wr_fail data_map_ldb by blast

subsubsection \<open>Hashes\<close>

lemma hset_bad: "\<not> (hname_ok n \<and> hname_ok k) \<Longrightarrow> data_map (fst (hset n k v lt s)) = data_map s"
  by (auto simp: hset_def hset_one_def hname_ok_def name_ok_def store_simps)

lemma hset_inv:
  assumes "store_ok s" and "hcoll.coll_inv (data_map s)"
  shows "hcoll.coll_inv (data_map (fst (hset n k v lt s)))"
proof (cases "hname_ok n \<and> hname_ok k \<and> \<not> wr_fail (ldb s)")
  case True
  then have io: "hash_io_ok s n k" using store_ok_io [OF assms(1)] io_ok_hash by blast
  have "data_map (fst (hset n k v lt s)) = hcoll.coll_put (data_map s) n k v"
    using hset_data(1) [OF io _ _ assms(2) fields_fit(1) [OF assms(1)]] True by blast
  then show ?thesis using hcoll.coll_inv_put [OF assms(2)] True by simp
next
  case False
  then have "data_map (fst (hset n k v lt s)) = data_map s" using hset_bad run_wr_fail [OF hset_run] by blast
  then show ?thesis using assms(2) by simp
qed

lemma hincr_hset:
  "data_map (fst (hincr en n k by lt s)) = data_map s \<or>
   (\<exists>v. data_map (fst (hincr en n k by lt s)) = data_map (fst (hset n k (str_int64 v) lt s)))"
proof -
  have st: "fst (hincr_store n k v lt t) = fst (let (s, ret) = hset_one n k (str_int64 v) lt t
      in if ret \<ge> 0 then sized_finish (incr_hsize n ret) ret ret (-1) s else (s, ret))" for v t
    by (auto simp: hincr_store_def Let_def store_simps split: prod.split)
  have "data_map (bl_rollback (fst (hincr_store n k v lt (bl_begin s)))) = data_map (fst (hset n k (str_int64 v) lt s))" for v
    unfolding st by (simp add: hset_def Transaction_def Let_def split: prod.split)
  then show ?thesis
    by (auto simp: hincr_def Transaction_def Let_def store_simps case_prod_beta split: get_status.split prod.split)
qed


lemma hincr_inv:
  assumes "store_ok s" and "hcoll.coll_inv (data_map s)"
  shows "hcoll.coll_inv (data_map (fst (hincr en n k by lt s)))"
  using hincr_hset [of en n k "by" lt s] hset_inv [OF assms] assms(2) by auto

text \<open>\<open>hdel\<close> takes an empty name or field; there is no such field to delete.\<close>

lemma hdel_bad:
  assumes "store_ok s" and "hcoll.coll_inv (data_map s)" and "\<not> (hname_ok n \<and> hname_ok k)"
  shows "data_map (fst (hdel n k lt s)) = data_map s"
proof (cases "name_ok n \<and> name_ok k")
  case True
  have "data_map s (encode_hash_key n k) = None"
  proof (rule ccontr)
    assume "data_map s (encode_hash_key n k) \<noteq> None"
    then obtain n' k' where "hname_ok n'" "hname_ok k'" "encode_hash_key n k = encode_hash_key n' k'"
      using assms(2) by (auto simp: hcoll.coll_inv_def hcoll.only_ok_def)
    then show False using True assms(3) by (auto simp: hname_ok_def)
  qed
  then have "hget n k s = NotFound" using assms(1) by (simp add: hget_def ldb_Get_data store_ok_def)
  then show ?thesis using True assms(1) by (simp add: hdel_def hdel_one_def store_simps name_ok_def store_ok_def)
next
  case False
  then show ?thesis by (auto simp: hdel_def hdel_one_def store_simps name_ok_def)
qed

lemma hdel_inv:
  assumes "store_ok s" and "hcoll.coll_inv (data_map s)"
  shows "hcoll.coll_inv (data_map (fst (hdel n k lt s)))"
proof (cases "hname_ok n \<and> hname_ok k \<and> \<not> wr_fail (ldb s)")
  case True
  then have io: "hash_io_ok s n k" using store_ok_io [OF assms(1)] io_ok_hash by blast
  have "size_fits (card (dom (hcoll.view (data_map s) n)))" using fields_fit(1) [OF assms(1), of n] by (simp add: size_fits_def)
  then have "data_map (fst (hdel n k lt s)) = hcoll.coll_del (data_map s) n k"
    using hdel_data(1) [OF io _ _ assms(2)] True by blast
  then show ?thesis using hcoll.coll_inv_del [OF assms(2)] True by simp
next
  case False
  then have "data_map (fst (hdel n k lt s)) = data_map s" using hdel_bad [OF assms] run_wr_fail [OF hdel_run] by blast
  then show ?thesis using assms(2) by simp
qed

subsubsection \<open>Sorted sets\<close>

lemma zset_bad: "kv_sorted (entries (ldb s)) \<Longrightarrow> \<not> (hname_ok n \<and> hname_ok k) \<Longrightarrow> data_map (fst (zset n k v lt s)) = data_map s"
  by (auto simp: zset_def zset_one_def hname_ok_def name_ok_def store_simps)

lemma zset_inv_kept:
  assumes "store_ok s" and "zset_inv (data_map s)"
  shows "zset_inv (data_map (fst (zset n k v lt s)))"
proof (cases "hname_ok n \<and> hname_ok k \<and> \<not> wr_fail (ldb s)")
  case True
  then have io: "zset_io_ok s n k" using store_ok_io [OF assms(1)] io_ok_zset by blast
  have "data_map (fst (zset n k v lt s)) = z_put (data_map s) n k (filter_score v)"
    using zset_data(1) [OF io _ _ assms(2) fields_fit(2) [OF assms(1)]] True by blast
  then show ?thesis using z_put_inv [OF assms(2)] True by simp
next
  case False
  then have "data_map (fst (zset n k v lt s)) = data_map s"
    using zset_bad run_wr_fail [OF zset_run] assms(1) unfolding store_ok_def by blast
  then show ?thesis using assms(2) by simp
qed

lemma zincr_zset:
  "data_map (fst (zincr n k by lt s)) = data_map s \<or>
   (\<exists>v. data_map (fst (zincr n k by lt s)) = data_map (fst (zset n k (str_int64 v) lt s)))"
proof -
  have st: "fst (zincr_store n k v lt t) = fst (let (s, ret) = zset_one n k (str_int64 v) lt t
      in if ret \<ge> 0 then sized_finish (incr_zsize n ret) ret ret (-1) s else (s, ret))" for v t
    by (auto simp: zincr_store_def Let_def store_simps split: prod.split)
  have "data_map (bl_rollback (fst (zincr_store n k v lt (bl_begin s)))) = data_map (fst (zset n k (str_int64 v) lt s))" for v
    unfolding st by (simp add: zset_def Transaction_def Let_def split: prod.split)
  then show ?thesis
    by (auto simp: zincr_def Transaction_def Let_def store_simps case_prod_beta split: get_status.split prod.split)
qed

lemma zincr_inv:
  assumes "store_ok s" and "zset_inv (data_map s)"
  shows "zset_inv (data_map (fst (zincr n k by lt s)))"
  using zincr_zset [of n k "by" lt s] zset_inv_kept [OF assms] assms(2) by auto

lemma zdel_bad:
  assumes "store_ok s" and "zset_inv (data_map s)" and "\<not> (hname_ok n \<and> hname_ok k)"
  shows "data_map (fst (zdel n k lt s)) = data_map s"
proof (cases "name_ok n \<and> name_ok k")
  case True
  have "data_map s (encode_zset_key n k) = None"
  proof (rule ccontr)
    assume "data_map s (encode_zset_key n k) \<noteq> None"
    then obtain n' k' where "hname_ok n'" "hname_ok k'" "encode_zset_key n k = encode_zset_key n' k'"
      using assms(2) by (auto simp: zset_inv_def zcoll.coll_inv_def zcoll.only_ok_def)
    then show False using True assms(3) by (auto simp: hname_ok_def)
  qed
  then have "zget n k s = NotFound" using assms(1) by (simp add: zget_def ldb_Get_data store_ok_def)
  then show ?thesis using True assms(1) by (simp add: zdel_def zdel_one_def store_simps name_ok_def store_ok_def)
next
  case False
  then show ?thesis by (auto simp: zdel_def zdel_one_def store_simps name_ok_def)
qed

lemma zdel_inv:
  assumes "store_ok s" and "zset_inv (data_map s)"
  shows "zset_inv (data_map (fst (zdel n k lt s)))"
proof (cases "hname_ok n \<and> hname_ok k \<and> \<not> wr_fail (ldb s)")
  case True
  then have io: "zset_io_ok s n k" using store_ok_io [OF assms(1)] io_ok_zset by blast
  have "size_fits (card (dom (zcoll.view (data_map s) n)))" using fields_fit(2) [OF assms(1), of n] by (simp add: size_fits_def)
  then have "data_map (fst (zdel n k lt s)) = z_del (data_map s) n k"
    using zdel_data(1) [OF io _ _ assms(2)] True by blast
  then show ?thesis using z_del_inv [OF assms(2)] True by simp
next
  case False
  then have "data_map (fst (zdel n k lt s)) = data_map s" using zdel_bad [OF assms] run_wr_fail [OF zdel_run] by blast
  then show ?thesis using assms(2) by simp
qed

subsubsection \<open>Queues\<close>

lemma q_ok_rep: "q_ok (data_map s) n \<Longrightarrow> io_ok s \<Longrightarrow> \<exists>l. q_rep s n 0 0 l"
  by (auto simp: q_ok_def q_rep_def)

lemma q_rep_ok:
  assumes "q_rep s n a b l"
  shows "q_ok (data_map s) n"
proof -
  from assms obtain f where "q_map n f l (data_map s)" "q_room a b f l" by (auto simp: q_rep_def)
  then show ?thesis unfolding q_ok_def by (intro exI [of _ f] exI [of _ l]) (simp add: q_room_def)
qed

lemma q_frame_ok:
  assumes "q_frame n s s'" and "m \<noteq> n"
  shows "q_ok (data_map s') m = q_ok (data_map s) m"
  using assms by (simp add: q_ok_def q_map_def q_frame_def)

text \<open>One operation on the queue \<open>n\<close>, which leaves it well-formed and all others as they were.\<close>

lemma q_ok_all:
  assumes "\<forall>n. q_ok (data_map s) n" and "q_ok (data_map s') n \<and> q_frame n s s' \<or> data_map s' = data_map s"
  shows "q_ok (data_map s') m"
  using assms q_frame_ok [of n s s' m] by (cases "m = n") auto

lemma qpush_back_ok:
  assumes "io_ok s" and "\<forall>n. q_ok (data_map s) n"
  shows "q_ok (data_map (fst (qpush_back n x lt s))) m"
proof -
  obtain f l where m: "q_map n f l (data_map s)" and r: "q_room 0 0 f l" using assms(2) unfolding q_ok_def by blast
  have "q_ok (data_map (fst (qpush_back n x lt s))) n \<and> q_frame n s (fst (qpush_back n x lt s)) \<or>
      data_map (fst (qpush_back n x lt s)) = data_map s"
  proof (cases "l \<noteq> [] \<and> f + length l = 9223372036854775807")
    case True
    then show ?thesis using qpush_back_full [OF assms(1) m r, of x lt] by blast
  next
    case False
    let ?f = "if l = [] then 4611686018427387903 else f"
    have "q_map n ?f l (data_map s)" using m by (auto simp: q_map_def q_item_simps)
    moreover have "q_room 0 (Suc 0) ?f l" using r False by (auto simp: q_room_def)
    ultimately have "q_rep s n 0 (Suc 0) l" using assms(1) by (auto simp: q_rep_def)
    from qpush_back_correct(1,3) [OF this, of x lt] q_rep_ok show ?thesis by blast
  qed
  then show ?thesis by (rule q_ok_all [OF assms(2)])
qed

lemma qpush_front_ok:
  assumes "io_ok s" and "\<forall>n. q_ok (data_map s) n"
  shows "q_ok (data_map (fst (qpush_front n x lt s))) m"
proof -
  obtain f l where m: "q_map n f l (data_map s)" and r: "q_room 0 0 f l" using assms(2) unfolding q_ok_def by blast
  have "q_ok (data_map (fst (qpush_front n x lt s))) n \<and> q_frame n s (fst (qpush_front n x lt s)) \<or>
      data_map (fst (qpush_front n x lt s)) = data_map s"
  proof (cases "l \<noteq> [] \<and> f = 10001")
    case True
    then have "q_next QFRONT_SEQ 1 (of_nat f) \<le> QITEM_MIN_SEQ" by (simp add: q_next_def QITEM_MIN_SEQ_def)
    then show ?thesis
      using qpush_full(1) [of n QFRONT_SEQ s 1 "of_nat f"] q_rep_reads(3) [OF assms(1) m r] True
      by (simp add: qpush_front_def)
  next
    case False
    let ?f = "if l = [] then 4611686018427387903 else f"
    have "q_map n ?f l (data_map s)" using m by (auto simp: q_map_def q_item_simps)
    moreover have "q_room (Suc 0) 0 ?f l" using r False by (auto simp: q_room_def)
    ultimately have "q_rep s n (Suc 0) 0 l" using assms(1) by (auto simp: q_rep_def)
    from qpush_front_correct(1,3) [OF this, of x lt] q_rep_ok show ?thesis by blast
  qed
  then show ?thesis by (rule q_ok_all [OF assms(2)])
qed

lemma qpop_ok:
  assumes "io_ok s" and "\<forall>n. q_ok (data_map s) n"
  shows "q_ok (data_map (fst (qpop_front n lt s))) m" and "q_ok (data_map (fst (qpop_back n lt s))) m"
proof -
  obtain l where l: "q_rep s n 0 0 l" using q_ok_rep assms by blast
  have "(q_ok (data_map (fst (qpop_front n lt s))) n \<and> q_frame n s (fst (qpop_front n lt s)) \<or>
      data_map (fst (qpop_front n lt s)) = data_map s) \<and>
      (q_ok (data_map (fst (qpop_back n lt s))) n \<and> q_frame n s (fst (qpop_back n lt s)) \<or>
      data_map (fst (qpop_back n lt s)) = data_map s)"
  proof (cases "l = []")
    case True
    then show ?thesis using qpop_empty_correct l by blast
  next
    case False
    with l have "q_rep s n 0 0 (hd l # tl l)" "q_rep s n 0 0 (butlast l @ [last l])" by simp_all
    from qpop_front_correct(1,3) [OF this(1), of lt] qpop_back_correct(1,3) [OF this(2), of lt] q_rep_ok show ?thesis by blast
  qed
  then show "q_ok (data_map (fst (qpop_front n lt s))) m" and "q_ok (data_map (fst (qpop_back n lt s))) m"
    using q_ok_all [OF assms(2)] by blast+
qed

lemma qset_ok:
  assumes "io_ok s" and "\<forall>n. q_ok (data_map s) n"
  shows "q_ok (data_map (fst (qset n i x lt s))) m"
proof -
  obtain l where l: "q_rep s n 0 0 l" using q_ok_rep assms by blast
  have "q_ok (data_map (fst (qset n i x lt s))) n \<and> q_frame n s (fst (qset n i x lt s)) \<or>
      data_map (fst (qset n i x lt s)) = data_map s"
  proof (cases "- int (length l) \<le> i \<and> i < int (length l)")
    case True
    then show ?thesis using qset_correct(1,3) [OF l, of i x lt] q_rep_ok by blast
  next
    case False
    from l obtain f where "io_ok s" "q_map n f l (data_map s)" "q_room 0 0 f l" by (auto simp: q_rep_def)
    from q_rep_reads(1) [OF this] this(3) have "qsize n s = int (length l)" "wrap64 (- int (length l)) = - int (length l)"
      by (auto simp: q_room_def in_int64_def)
    with False show ?thesis by (auto simp: qset_def store_simps Let_def)
  qed
  then show ?thesis by (rule q_ok_all [OF assms(2)])
qed


subsection \<open>Runs of the database\<close>

text \<open>
  One logged step: an operation that writes by a transaction of the logs, one round of the log cleaning thread, or
  the disk, which may begin or cease to refuse writes between two operations. Each operation holds the mutex of the
  logs from its first read to its commit, so concurrent clients amount to a sequence of such steps; \<open>hclear\<close> is a
  sequence of \<open>hdel\<close>s. The commands that write past the logs are the further steps of \<open>db_cmd\<close> below.
\<close>

inductive db_step :: "ssdb \<Rightarrow> ssdb \<Rightarrow> bool" where
  st_set: "db_step s (fst (ssdb_set k v lt s))"
| st_setnx: "db_step s (fst (setnx k v lt s))"
| st_getset: "db_step s (fst (getset k v lt s))"
| st_del: "db_step s (fst (ssdb_del k lt s))"
| st_incr: "db_step s (fst (ssdb_incr en k i lt s))"
| st_setbit: "setbit k off on lt s = Some (s', r) \<Longrightarrow> db_step s s'"
| st_multi_set: "length kvs < 2 ^ 31 \<Longrightarrow> multi_set kvs j lt s = Some (s', r) \<Longrightarrow> db_step s s'"
| st_multi_del: "length ks < 2 ^ 31 \<Longrightarrow> multi_del ks j lt s = Some (s', r) \<Longrightarrow> db_step s s'"
| st_hset: "db_step s (fst (hset n k v lt s))"
| st_hdel: "db_step s (fst (hdel n k lt s))"
| st_hincr: "db_step s (fst (hincr en n k i lt s))"
| st_zset: "db_step s (fst (zset n k v lt s))"
| st_zdel: "db_step s (fst (zdel n k lt s))"
| st_zincr: "db_step s (fst (zincr n k i lt s))"
| st_qpush_back: "db_step s (fst (qpush_back n v lt s))"
| st_qpush_front: "db_step s (fst (qpush_front n v lt s))"
| st_qpop_back: "db_step s (fst (qpop_back n lt s))"
| st_qpop_front: "db_step s (fst (qpop_front n lt s))"
| st_qset: "db_step s (fst (qset n i v lt s))"
| st_clean: "log_clean_step s = Some s' \<Longrightarrow> db_step s s'"
| st_disk: "db_step s (s\<lparr>ldb := (ldb s)\<lparr>wr_fail := b\<rparr>\<rparr>)"

text \<open>The store and the log numbers are far from the end of their 64-bit counters.\<close>

definition db_room :: "ssdb \<Rightarrow> bool" where
  "db_room s \<longleftrightarrow> length (entries (ldb s)) < 2 ^ 62 \<and> unat (last_seq (binlogs s)) < 2 ^ 62"

inductive db_reach :: "ssdb \<Rightarrow> ssdb \<Rightarrow> bool" for s0 :: ssdb where
  reach_start: "db_reach s0 s0"
| reach_step: "db_reach s0 s \<Longrightarrow> db_room s \<Longrightarrow> db_step s s' \<Longrightarrow> db_reach s0 s'"

definition db_inv :: "ssdb \<Rightarrow> bool" where
  "db_inv s \<longleftrightarrow> binlog_inv s \<and> min_seq (binlogs s) \<le> last_seq (binlogs s) \<and>
     0 < capacity (binlogs s) \<and> capacity (binlogs s) < 2 ^ 31 - 10000 \<and>
     (\<forall>k. \<not> rd_fail (ldb s) k) \<and> data_inv (data_map s)"

text \<open>
  Without the newest log, and with it: \<open>state_inv False\<close> is what a flush keeps as well. The lemmas are for both.
\<close>

definition state_inv :: "bool \<Rightarrow> ssdb \<Rightarrow> bool" where
  "state_inv newest s \<longleftrightarrow> log_inv s \<and> (newest \<longrightarrow> binlog_inv s) \<and> min_seq (binlogs s) \<le> last_seq (binlogs s) \<and>
     0 < capacity (binlogs s) \<and> capacity (binlogs s) < 2 ^ 31 - 10000 \<and>
     (\<forall>k. \<not> rd_fail (ldb s) k) \<and> data_inv (data_map s)"

lemma db_inv_state: "db_inv s = state_inv True s"
  by (auto simp: db_inv_def state_inv_def binlog_inv_split)

text \<open>The part about the logs, for any transaction.\<close>

lemma db_inv_run:
  assumes "state_inv newest s" and "db_room s" and "tx_run n s s'" and "n < 2 ^ 34" and "data_inv (data_map s')"
  shows "state_inv newest s'"
proof -
  have room: "seq_room n s" using assms(2,4) by (simp add: seq_room_def db_room_def)
  have inv: "log_inv s'" "newest \<longrightarrow> binlog_inv s'"
    using tx_run_log_inv [OF assms(3) _ room] tx_run_binlog_inv [OF assms(3) _ room] assms(1) by (auto simp: state_inv_def)
  obtain b where b: "length b \<le> n" "well_logged (last_seq (binlogs s)) b (last_seq (binlogs s'))"
    using assms(3) by (auto simp: tx_run_def tx_step_def)
  have "unat (last_seq (binlogs s)) + length b < 2 ^ 64" using room b(1) by (simp add: seq_room_def)
  from well_logged_mono [OF b(2) this] have "last_seq (binlogs s) \<le> last_seq (binlogs s')" by simp
  then have "min_seq (binlogs s') \<le> last_seq (binlogs s')"
    using assms(1) tx_run_frame [OF assms(3)] by (auto simp: state_inv_def intro: order.trans)
  with inv assms(1,5) tx_run_frame [OF assms(3)] show ?thesis by (simp add: state_inv_def)
qed

lemma state_inv_store: "state_inv newest s \<Longrightarrow> db_room s \<Longrightarrow> store_ok s"
  by (simp add: state_inv_def db_room_def store_ok_def log_inv_def)

lemma db_inv_store: "db_inv s \<Longrightarrow> db_room s \<Longrightarrow> store_ok s"
  unfolding db_inv_state by (rule state_inv_store)


lemma db_inv_ops:
  assumes "state_inv newest s" and "db_room s" and "tx_run n s s'" and "n < 2 ^ 34"
  shows "leaves kv_types s s' \<Longrightarrow> state_inv newest s'"
    and "leaves h_types s s' \<Longrightarrow> hcoll.coll_inv (data_map s') \<Longrightarrow> state_inv newest s'"
    and "leaves z_types s s' \<Longrightarrow> zset_inv (data_map s') \<Longrightarrow> state_inv newest s'"
    and "leaves q_types s s' \<Longrightarrow> (\<And>m. \<not> wr_fail (ldb s) \<Longrightarrow> q_ok (data_map s') m) \<Longrightarrow> state_inv newest s'"
proof -
  have d: "data_inv (data_map s)" "kv_sorted (entries (ldb s))" using assms(1) by (auto simp: state_inv_def log_inv_def)
  note st = data_inv_step [OF d] and run = db_inv_run [OF assms]
  show "leaves kv_types s s' \<Longrightarrow> state_inv newest s'" by (intro run data_inv_kv [OF d])
  show "leaves h_types s s' \<Longrightarrow> hcoll.coll_inv (data_map s') \<Longrightarrow> state_inv newest s'"
    by (intro run, rule st [where T = h_types]) (auto simp: types_defs)
  show "leaves z_types s s' \<Longrightarrow> zset_inv (data_map s') \<Longrightarrow> state_inv newest s'"
    by (intro run, rule st [where T = z_types]) (auto simp: types_defs)
  show "leaves q_types s s' \<Longrightarrow> (\<And>m. \<not> wr_fail (ldb s) \<Longrightarrow> q_ok (data_map s') m) \<Longrightarrow> state_inv newest s'"
  proof (intro run, rule st [where T = q_types])
    fix m assume q: "\<And>m. \<not> wr_fail (ldb s) \<Longrightarrow> q_ok (data_map s') m"
    show "q_ok (data_map s') m"
      by (cases "wr_fail (ldb s)") (use q run_wr_fail [OF assms(3)] d(1) in \<open>auto simp: data_inv_def\<close>)
  qed (auto simp: types_defs)
qed

lemma bl_del_range_rd:
  assumes "bl_del_range a hi db = Some y"
  shows "rd_fail (fst y) = rd_fail db"
  by (rule bl_del_range.raw_induct [where P = "\<lambda>_ _ db y. rd_fail (fst y) = rd_fail db", OF _ assms])
     (fastforce simp: ldb_Write_def Let_def split: if_splits prod.splits)

lemma log_clean_frame:
  "log_clean_step s = Some s' \<Longrightarrow> rd_fail (ldb s') = rd_fail (ldb s) \<and> capacity (binlogs s') = capacity (binlogs s)"
  using bl_del_range_rd by (fastforce simp: log_clean_step_def Let_def split: if_splits option.splits)

lemma db_inv_clean:
  assumes "log_clean_step s = Some s'" and "state_inv newest s" and "db_room s"
  shows "state_inv newest s'"
proof -
  have p: "min_seq (binlogs s) \<le> last_seq (binlogs s)" "last_seq (binlogs s) < UINT64_MAX"
      "0 < capacity (binlogs s)" "capacity (binlogs s) < 2 ^ 31 - 10000" and l: "log_inv s" "newest \<longrightarrow> binlog_inv s"
    using assms(2,3) by (auto simp: state_inv_def db_room_def word_less_nat_alt UINT64_MAX_def)
  from log_clean_step_log_inv [OF l(1) p] assms(1) have
    c: "log_inv s'" "min_seq (binlogs s') \<le> last_seq (binlogs s')" "\<forall>k. \<not> is_log_key k \<longrightarrow> db_map s' k = db_map s k" by auto
  have "newest \<longrightarrow> binlog_inv s'" using log_clean_step_correct [OF _ p] l(2) assms(1) by auto
  moreover have "data_map s' = data_map s" using c(3) by (auto simp: data_map_def fun_eq_iff)
  ultimately show ?thesis using c assms(2) log_clean_frame [OF assms(1)] by (simp add: state_inv_def)
qed

lemma state_step_inv:
  assumes "db_step s s'" and "state_inv newest s" and "db_room s"
  shows "state_inv newest s'"
proof -
  note so = state_inv_store [OF assms(2,3)] and ops = db_inv_ops [OF assms(2,3)]
  have h: "hcoll.coll_inv (data_map s)" "zset_inv (data_map s)" "\<forall>n. q_ok (data_map s) n"
    using assms(2) by (auto simp: state_inv_def data_inv_def)
  note q = store_ok_io [OF so] 
  from assms(1) show ?thesis
  proof cases
    case st_clean
    then show ?thesis by (rule db_inv_clean [OF _ assms(2,3)])
  next
    case (st_disk b)
    then have "data_map s' = data_map s" "db_map s' = db_map s"
      by (simp_all add: data_map_def db_map_def fun_eq_iff)
    with st_disk assms(2) show ?thesis by (simp add: state_inv_def log_inv_def binlog_inv_def)
  next
    case (st_multi_set kvs j lt r)
    then show ?thesis using ops(1) [OF multi_set_run [OF st_multi_set(2)] _ multi_set_leaves] by simp
  next
    case (st_multi_del ks j lt r)
    then show ?thesis using ops(1) [OF multi_del_run [OF st_multi_del(2)] _ multi_del_leaves] by simp
  next
    case (st_setbit k off on lt r)
    then show ?thesis using ops(1) [OF setbit_run _ setbit_leaves] by simp
  qed (use ops(1) [OF kv_ops_run(1) _ kv_ops_leave(1)] ops(1) [OF kv_ops_run(2) _ kv_ops_leave(2)]
      ops(1) [OF kv_ops_run(3) _ kv_ops_leave(3)] ops(1) [OF kv_ops_run(4) _ kv_ops_leave(4)]
      ops(1) [OF kv_ops_run(5) _ kv_ops_leave(5)]
      ops(2) [OF hset_run _ hset_leaves hset_inv [OF so h(1)]] ops(2) [OF hdel_run _ hdel_leaves hdel_inv [OF so h(1)]]
      ops(2) [OF hincr_run _ hincr_leaves hincr_inv [OF so h(1)]]
      ops(3) [OF zset_run _ zset_leaves zset_inv_kept [OF so h(2)]] ops(3) [OF zdel_run _ zdel_leaves zdel_inv [OF so h(2)]]
      ops(3) [OF zincr_run _ zincr_leaves zincr_inv [OF so h(2)]]
      ops(4) [OF qpush_run [where end_seq = QBACK_SEQ, folded qpush_back_def] _ qpush_leaves [where e = QBACK_SEQ, folded qpush_back_def] qpush_back_ok [OF q h(3)]]
      ops(4) [OF qpush_run [where end_seq = QFRONT_SEQ, folded qpush_front_def] _ qpush_leaves [where e = QFRONT_SEQ, folded qpush_front_def] qpush_front_ok [OF q h(3)]]
      ops(4) [OF qpop_run [where end_seq = QBACK_SEQ, folded qpop_back_def] _ qpop_leaves [where e = QBACK_SEQ, folded qpop_back_def] qpop_ok(2) [OF q h(3)]]
      ops(4) [OF qpop_run [where end_seq = QFRONT_SEQ, folded qpop_front_def] _ qpop_leaves [where e = QFRONT_SEQ, folded qpop_front_def] qpop_ok(1) [OF q h(3)]]
      ops(4) [OF qset_run _ qset_leaves qset_ok [OF q h(3)]] in simp_all)
qed

lemma db_step_inv: "db_step s s' \<Longrightarrow> db_inv s \<Longrightarrow> db_room s \<Longrightarrow> db_inv s'"
  unfolding db_inv_state by (rule state_step_inv)

lemma db_reach_inv: "db_reach s0 s \<Longrightarrow> db_inv s0 \<Longrightarrow> db_inv s"
  by (induction rule: db_reach.induct) (auto intro: db_step_inv)

lemma fresh_db_inv: "db_inv fresh_db"
proof -
  have "q_ok (data_map fresh_db) n" for n
    using q_rep_ok [OF fresh_q_rep [of 0 0 n]] by simp
  moreover have "hcoll.coll_inv (data_map fresh_db)" by (simp add: hcoll.coll_inv_empty)
  moreover have "zset_inv (data_map fresh_db)" by (simp add: zset_inv_def scores_ok_def zcoll.coll_inv_empty zcoll.view_def)
  ultimately show ?thesis by (simp add: db_inv_def fresh_inv fresh_queue data_inv_def)
qed

lemma length_kv_put: "length (kv_put k v xs) \<le> Suc (length xs)"
  by (induction k v xs rule: kv_put.induct) auto

lemma length_kv_del: "length (kv_del k xs) \<le> length xs"
  by (induction k xs rule: kv_del.induct) auto

lemma length_apply_batch: "length (apply_batch b xs) \<le> length xs + length b"
proof (induction b arbitrary: xs)
  case (Cons w b)
  have "length (apply_wop w xs) \<le> Suc (length xs)"
    using length_kv_put length_kv_del [of _ xs] by (cases w) (auto intro: le_SucI)
  with Cons.IH [of "apply_wop w xs"] show ?case by (simp add: apply_batch_def)
qed simp

lemma tx_run_length:
  assumes "tx_run n s s'" and "seq_room n s"
  shows "length (entries (ldb s')) \<le> length (entries (ldb s)) + n" "unat (last_seq (binlogs s')) \<le> unat (last_seq (binlogs s)) + n"
proof -
  obtain b where b: "length b \<le> n" "well_logged (last_seq (binlogs s)) b (last_seq (binlogs s'))"
      "ldb s' = (ldb s)\<lparr>entries := apply_batch b (entries (ldb s))\<rparr>"
    using assms(1) by (auto simp: tx_run_def tx_step_def)
  then show "length (entries (ldb s')) \<le> length (entries (ldb s)) + n"
    using length_apply_batch [of b "entries (ldb s)"] by simp
  show "unat (last_seq (binlogs s')) \<le> unat (last_seq (binlogs s)) + n"
    using well_logged_mono [OF b(2)] b(1) assms(2) by (simp add: seq_room_def)
qed


subsection \<open>The commands that write past the logs\<close>

text \<open>
  A step of a server: a logged step, \<open>flushdb\<close>, \<open>clear_binlog\<close>, or \<open>zfix\<close> of a sorted set (for a name of 255 bytes
  \<open>zfix\<close> stores a wrong size, \<open>zfix_long_name\<close>). Not steps are \<open>qfix\<close>, and
  the \<open>qset_by_seq\<close> with which a slave replays a \<open>qset\<close>, since it can store an item one past the end of a queue without
  counting it. A disk that refuses writes does so for the whole of a step.
\<close>

inductive db_cmd :: "ssdb \<Rightarrow> ssdb \<Rightarrow> bool" where
  cm_logged: "db_step s s' \<Longrightarrow> db_cmd s s'"
| cm_flush: "flushdb s = Some (s', r) \<Longrightarrow> db_cmd s s'"
| cm_clear_binlog: "bl_flush s = Some s' \<Longrightarrow> db_cmd s s'"
| cm_zfix: "hname_ok n \<Longrightarrow> length n < 255 \<Longrightarrow> db_cmd s (fst (zfix n s))"

inductive cmd_reach :: "ssdb \<Rightarrow> ssdb \<Rightarrow> bool" for s0 :: ssdb where
  cmd_start: "cmd_reach s0 s0"
| cmd_step: "cmd_reach s0 s \<Longrightarrow> db_room s \<Longrightarrow> db_cmd s s' \<Longrightarrow> cmd_reach s0 s'"

lemma data_inv_empty: "data_inv (\<lambda>_. None)"
proof -
  have "data_map fresh_db = (\<lambda>_. None)" by (simp add: data_map_def db_map_def fun_eq_iff fresh_queue)
  with fresh_db_inv show ?thesis by (simp add: db_inv_def)
qed

text \<open>A step that changes only the numbers of the transaction in memory.\<close>

lemma state_inv_same:
  assumes "state_inv newest s" and "ldb s' = ldb s" and "last_seq (binlogs s') = last_seq (binlogs s)"
    and "min_seq (binlogs s') = min_seq (binlogs s)" and "capacity (binlogs s') = capacity (binlogs s)"
  shows "state_inv newest s'"
  using assms data_map_ldb [OF assms(2)] by (simp add: state_inv_def log_inv_def binlog_inv_def db_map_def)

lemma tx_numbers:
  "last_seq (binlogs (bl_rollback s)) = last_seq (binlogs s)" "min_seq (binlogs (bl_rollback s)) = min_seq (binlogs s)"
  "capacity (binlogs (bl_rollback s)) = capacity (binlogs s)" "last_seq (binlogs (bl_begin s)) = last_seq (binlogs s)"
  "min_seq (binlogs (bl_begin s)) = min_seq (binlogs s)" "capacity (binlogs (bl_begin s)) = capacity (binlogs s)"
  by (simp_all add: bl_rollback_def bl_begin_def)

lemma clear_binlog_inv:
  assumes "bl_flush s = Some s'" and "state_inv newest s" and "db_room s"
  shows "state_inv False s'"
proof -
  have p: "last_seq (binlogs s) < UINT64_MAX" "min_seq (binlogs s) \<le> last_seq (binlogs s) + 1" "kv_sorted (entries (ldb s))"
  proof -
    show l: "last_seq (binlogs s) < UINT64_MAX" using assms(3) by (simp add: db_room_def word_less_nat_alt UINT64_MAX_def)
    have "unat (last_seq (binlogs s) + 1) = unat (last_seq (binlogs s)) + 1"
      using assms(3) by (intro unat_plus_1) (simp add: db_room_def)
    then show "min_seq (binlogs s) \<le> last_seq (binlogs s) + 1"
      using assms(2) by (simp add: state_inv_def word_le_nat_alt)
    show "kv_sorted (entries (ldb s))" using assms(2) by (simp add: state_inv_def log_inv_def)
  qed
  obtain db r where db: "bl_del_range (min_seq (binlogs s)) (last_seq (binlogs s)) (ldb s) = Some (db, r)"
      "kv_sorted (entries db)" "wr_fail (ldb s) \<longrightarrow> db = ldb s"
      "\<not> wr_fail (ldb s) \<longrightarrow> map_of (entries db) = del_logs {min_seq (binlogs s)..last_seq (binlogs s)} (map_of (entries (ldb s)))"
    using bl_del_range_correct [OF p] by blast
  have s': "s' = s\<lparr>ldb := db\<rparr>" using assms(1) db(1) by (simp add: bl_flush_def)
  have sub: "db_map s' k = Some v \<Longrightarrow> db_map s k = Some v" for k v
    using db(3,4) s' by (cases "wr_fail (ldb s)") (auto simp: db_map_def del_logs_def split: if_splits)
  have "data_map s' = data_map s"
    using db(3,4) s' by (cases "wr_fail (ldb s)") (auto simp: data_map_def db_map_def del_logs_def fun_eq_iff)
  with db(2) sub assms(2) s' bl_del_range_rd [OF db(1)] show ?thesis by (auto simp: state_inv_def log_inv_def)
qed

lemma flush_loop_refused:
  assumes "wr_fail (ldb s)"
  shows "\<exists>r. flush_loop s = Some (s, r)"
proof -
  have "\<exists>r. flush_round (Suc n) it s = (s, Some r)" for n it
    by (simp add: db_writes_refused [OF assms])
  then obtain r where "flush_round 10000 (it_SeekToFirst (it_new (ldb s))) s = (s, Some r)"
    by (metis Suc_pred zero_less_numeral)
  then show ?thesis by (subst flush_loop.simps) (simp del: flush_round.simps)
qed

lemma flushdb_inv:
  assumes "flushdb s = Some (s', r)" and "state_inv newest s" and "db_room s"
  shows "state_inv False s'"
proof -
  let ?b = "bl_begin s"
  have ib: "state_inv newest ?b" by (rule state_inv_same [OF assms(2)]) (simp_all add: tx_numbers store_simps)
  obtain t r' u where t: "flush_loop ?b = Some (t, r')" "bl_flush t = Some u" "s' = bl_rollback u"
    using assms(1) by (auto simp: flushdb_def split: option.splits)
  have "state_inv False t \<and> db_room t"
  proof (cases "wr_fail (ldb s)")
    case True
    then have "t = ?b" using flush_loop_refused [of ?b] t(1) by (auto simp: store_simps)
    then show ?thesis using ib assms(3) by (simp add: state_inv_def db_room_def tx_numbers store_simps)
  next
    case False
    then have e: "t = ?b\<lparr>ldb := (ldb s)\<lparr>entries := []\<rparr>\<rparr>"
      using flush_loop_correct [of ?b] t(1) by (simp add: store_simps)
    then have "db_map t = (\<lambda>_. None)" "data_map t = (\<lambda>_. None)" by (simp_all add: db_map_def data_map_def fun_eq_iff)
    then show ?thesis using e assms(2,3) data_inv_empty
      by (simp add: state_inv_def log_inv_def db_room_def tx_numbers kv_sorted_def)
  qed
  with clear_binlog_inv [OF t(2)] have "state_inv False u" by blast
  then show ?thesis unfolding t(3) by (rule state_inv_same) (simp_all add: tx_numbers store_simps)
qed

lemma zfix_inv:
  assumes "state_inv newest s" and "db_room s" and "hname_ok n" and "length n < 255"
  shows "state_inv newest (fst (zfix n s))"
proof (cases "wr_fail (ldb s)")
  case True
  then show ?thesis unfolding zfix_refused [OF True]
    by (intro state_inv_same [OF assms(1)]) (simp_all add: tx_numbers store_simps)
next
  case False
  let ?c = "card (dom (zcoll.view (data_map s) n))"
  note so = state_inv_store [OF assms(1,2)]
  note io = store_ok_io [OF so False]
  have z: "zset_inv (data_map s)" using assms(1) by (simp add: state_inv_def data_inv_def)
  then have e: "data_map s (encode_zsize_key n) = size_entry ?c"
    using assms(3) by (simp add: zset_inv_def zcoll.coll_inv_def zcoll.counted_def)
  have f: "size_fits ?c" using fields_fit(2) [OF so, of n] by (simp add: size_fits_def)
  have r: "zfix_ready s n" using io z assms(3) f by (simp add: zfix_ready_def zset_inv_def zcoll.coll_inv_def)
  have "zfix_members n (ssdb_iterator (ldb t) (encode_zset_key n []) (encode_zset_key (n @ [CHR 0xFF]) []) UINT64_MAX) t 0 = (t, int ?c)"
    if "zfix_ready t n" "zcoll.view (data_map t) = zcoll.view (data_map s)" for t
    using zfix_members_count [OF that(1) assms(4)] unfolding that(2) .
  from zfix_steps [OF r this f] obtain s' where
    s': "zfix n s = (s', int ?c)" "io_ok s'" "\<And>x. x \<noteq> encode_zsize_key n \<Longrightarrow> data_map s' x = data_map s x \<and> db_map s' x = db_map s x"
      "data_map s' (encode_zsize_key n) = size_entry ?c"
      "last_seq (binlogs s') = last_seq (binlogs s)" "min_seq (binlogs s') = min_seq (binlogs s)"
      "capacity (binlogs s') = capacity (binlogs s)"
    using e f by blast
  have "data_map s' x = data_map s x" for x using s'(3) [of x] s'(4) e by (cases "x = encode_zsize_key n") simp_all
  then have "data_map s' = data_map s" by (rule ext)
  moreover have "db_map s' k = db_map s k" if "is_log_key k" for k using s'(3) [of k] that by (cases "k = encode_zsize_key n") simp_all
  ultimately show ?thesis using assms(1) s'(1,2,5-7)
    by (auto simp: state_inv_def log_inv_def binlog_inv_def io_ok_def)
qed

lemma state_inv_weak: "state_inv newest s \<Longrightarrow> state_inv False s"
  by (simp add: state_inv_def)

lemma db_cmd_inv:
  assumes "db_cmd s s'" and "state_inv False s" and "db_room s"
  shows "state_inv False s'"
  using assms
  by (cases rule: db_cmd.cases) (auto intro: state_step_inv flushdb_inv clear_binlog_inv zfix_inv)

lemma cmd_reach_inv: "cmd_reach s0 s \<Longrightarrow> state_inv False s0 \<Longrightarrow> state_inv False s"
  by (induction rule: cmd_reach.induct) (auto intro: db_cmd_inv)

end
