(* ===== verification/Replay.thy ===== *)
theory Replay
  imports System
begin

section \<open>What the logs say about the data\<close>

text \<open>
  A slave follows its master by the logs. They carry keys and commands but no values: the value is read when the
  log is sent. For strings, fields and members this is enough, for the last log of a key tells whether the key is
  there, and every change of a key is followed by a log. Both are shown here, for every operation of the database.
\<close>

subsection \<open>Batches in which every change is logged\<close>

definition tracked :: "bytes \<Rightarrow> bool" where
  "tracked x \<longleftrightarrow> key_type x \<in> {type_char KV, type_char HASH, type_char ZSET}"

definition set_cmd :: "bytes \<Rightarrow> char" where
  "set_cmd x = binlog_cmd_char (if key_type x = type_char KV then BC_KSET else if key_type x = type_char HASH then BC_HSET else BC_ZSET)"

definition del_cmd :: "bytes \<Rightarrow> char" where
  "del_cmd x = binlog_cmd_char (if key_type x = type_char KV then BC_KDEL else if key_type x = type_char HASH then BC_HDEL else BC_ZDEL)"

definition q_cmds :: "char set" where
  "q_cmds = binlog_cmd_char ` {BC_QSET, BC_QPUSH_BACK, BC_QPUSH_FRONT, BC_QPOP_BACK, BC_QPOP_FRONT}"

lemma binlog_cmd_char_inject [simp]: "binlog_cmd_char a = binlog_cmd_char b \<longleftrightarrow> a = b"
  by (cases a; cases b) simp_all

declare binlog_cmd_char.simps [simp del]

lemma cmds_distinct [simp]: "set_cmd x \<noteq> del_cmd x" "del_cmd x \<noteq> set_cmd x" "set_cmd x \<notin> q_cmds" "del_cmd x \<notin> q_cmds"
  by (auto simp: set_cmd_def del_cmd_def q_cmds_def)

text \<open>The forms a log can have.\<close>

inductive log_form :: "char \<Rightarrow> bytes \<Rightarrow> bool" where
  lf_kset: "log_form (binlog_cmd_char BC_KSET) (encode_kv_key k)"
| lf_kdel: "log_form (binlog_cmd_char BC_KDEL) (encode_kv_key k)"
| lf_hset: "hname_ok n \<Longrightarrow> hname_ok k \<Longrightarrow> log_form (binlog_cmd_char BC_HSET) (encode_hash_key n k)"
| lf_hdel: "name_ok n \<Longrightarrow> name_ok k \<Longrightarrow> log_form (binlog_cmd_char BC_HDEL) (encode_hash_key n k)"
| lf_zset: "hname_ok n \<Longrightarrow> hname_ok k \<Longrightarrow> log_form (binlog_cmd_char BC_ZSET) (encode_zset_key n k)"
| lf_zdel: "name_ok n \<Longrightarrow> name_ok k \<Longrightarrow> log_form (binlog_cmd_char BC_ZDEL) (encode_zset_key n k)"
| lf_queue: "c \<in> q_cmds \<Longrightarrow> log_form c k"

text \<open>The last update of a key in a batch and what the last log of it says: \<open>True\<close> for a new value, \<open>False\<close> for a deletion.\<close>

fun track1 :: "bytes \<Rightarrow> wop \<Rightarrow> bool option \<times> bool option \<Rightarrow> bool option \<times> bool option" where
  "track1 x (WPut k v) (w, l) =
     (if is_log_key k
      then (w, if Binlog_key v = x \<and> Binlog_cmd v = set_cmd x then Some True
               else if Binlog_key v = x \<and> Binlog_cmd v = del_cmd x then Some False else l)
      else (if k = x then Some True else w, l))"
| "track1 x (WDelete k) (w, l) = (if k = x then Some False else w, l)"

definition track :: "bytes \<Rightarrow> wop list \<Rightarrow> bool option \<times> bool option" where
  "track x b = fold (track1 x) b (None, None)"

lemma track_snoc [simp]: "track x [] = (None, None)" "track x (b @ [w]) = track1 x w (track x b)"
  by (simp_all add: track_def)

fun wop_ok :: "wop \<Rightarrow> bool" where
  "wop_ok (WPut k v) = (if is_log_key k then log_form (Binlog_cmd v) (Binlog_key v) else key_type k = type_char ZSET \<longrightarrow> filter_score v = v)"
| "wop_ok (WDelete k) = True"

definition all_logged :: "wop list \<Rightarrow> bool" where
  "all_logged b \<longleftrightarrow> (\<forall>w \<in> set b. wop_ok w) \<and> (\<forall>x. tracked x \<longrightarrow> fst (track x b) = snd (track x b))"

lemma all_logged_Nil: "all_logged []"
  by (simp add: all_logged_def)

lemma track1_simps:
  "fst (track1 x (WPut k v) p) = (if \<not> is_log_key k \<and> k = x then Some True else fst p)"
  "snd (track1 x (WPut k v) p) = (if is_log_key k \<and> Binlog_key v = x \<and> Binlog_cmd v = set_cmd x then Some True
      else if is_log_key k \<and> Binlog_key v = x \<and> Binlog_cmd v = del_cmd x then Some False else snd p)"
  "fst (track1 x (WDelete k) p) = (if k = x then Some False else fst p)"
  "snd (track1 x (WDelete k) p) = snd p"
proof -
  obtain w l where p: "p = (w, l)" by (cases p)
  show "fst (track1 x (WPut k v) p) = (if \<not> is_log_key k \<and> k = x then Some True else fst p)" by (auto simp: p)
  show "snd (track1 x (WPut k v) p) = (if is_log_key k \<and> Binlog_key v = x \<and> Binlog_cmd v = set_cmd x then Some True
      else if is_log_key k \<and> Binlog_key v = x \<and> Binlog_cmd v = del_cmd x then Some False else snd p)" by (simp add: p)
  show "fst (track1 x (WDelete k) p) = (if k = x then Some False else fst p)" by (simp add: p)
  show "snd (track1 x (WDelete k) p) = snd p" by (simp add: p)
qed

declare track1.simps [simp del]

lemma all_logged_other:
  "all_logged b \<Longrightarrow> \<not> tracked k \<Longrightarrow> \<not> is_log_key k \<Longrightarrow> all_logged (b @ [WPut k v])"
  "all_logged b \<Longrightarrow> \<not> tracked k \<Longrightarrow> all_logged (b @ [WDelete k])"
  by (auto simp: all_logged_def track1_simps) (auto simp: tracked_def)

lemma all_logged_queue_log:
  "all_logged b \<Longrightarrow> c \<in> q_cmds \<Longrightarrow> all_logged (b @ [WPut (encode_seq_key q) (Binlog_make q t c k)])"
  by (auto simp: all_logged_def track1_simps lf_queue)

lemma all_logged_pair:
  assumes "all_logged b" and "\<not> is_log_key k"
  shows "log_form (set_cmd k) k \<Longrightarrow> (key_type k = type_char ZSET \<longrightarrow> filter_score v = v) \<Longrightarrow>
      all_logged (b @ [WPut k v, WPut (encode_seq_key q) (Binlog_make q t (set_cmd k) k)])"
    and "log_form (del_cmd k) k \<Longrightarrow> all_logged (b @ [WDelete k, WPut (encode_seq_key q) (Binlog_make q t (del_cmd k) k)])"
proof -
  have e: "b @ [u, w] = (b @ [u]) @ [w]" for u w :: wop by simp
  show "log_form (set_cmd k) k \<Longrightarrow> (key_type k = type_char ZSET \<longrightarrow> filter_score v = v) \<Longrightarrow>
      all_logged (b @ [WPut k v, WPut (encode_seq_key q) (Binlog_make q t (set_cmd k) k)])"
    unfolding e all_logged_def using assms by (auto simp: all_logged_def track1_simps simp del: append_assoc)
  show "log_form (del_cmd k) k \<Longrightarrow> all_logged (b @ [WDelete k, WPut (encode_seq_key q) (Binlog_make q t (del_cmd k) k)])"
    unfolding e all_logged_def using assms by (auto simp: all_logged_def track1_simps simp del: append_assoc)
qed

subsection \<open>Every operation logs its changes\<close>

definition cov_in :: "nat \<Rightarrow> ssdb \<Rightarrow> ssdb \<Rightarrow> bool" where
  "cov_in n s0 s \<longleftrightarrow> in_txn n s0 s \<and> all_logged (batch (binlogs s))"

definition cov_done :: "nat \<Rightarrow> ssdb \<Rightarrow> ssdb \<Rightarrow> bool" where
  "cov_done n s0 s \<longleftrightarrow> cov_in n s0 s \<or> (\<exists>t. cov_in n s0 t \<and> fst (bl_commit t) = s)"

definition logged_run :: "nat \<Rightarrow> ssdb \<Rightarrow> ssdb \<Rightarrow> bool" where
  "logged_run n s s' \<longleftrightarrow> (\<exists>b. length b \<le> n \<and> tx_step s b s' \<and> all_logged b)"

named_theorems cov_intros

lemma cov_in_mono: "cov_in m s0 s \<Longrightarrow> m \<le> n \<Longrightarrow> cov_in n s0 s"
  by (auto simp: cov_in_def intro: in_txn_mono)

lemma cov_in_begin [cov_intros]: "cov_in n s (bl_begin s)"
  by (simp add: cov_in_def in_txn_begin) (simp add: bl_begin_def all_logged_Nil)

lemma cov_in_other [cov_intros]:
  "0 < n \<Longrightarrow> cov_in (n - 1) s0 s \<Longrightarrow> \<not> tracked k \<Longrightarrow> \<not> is_log_key k \<Longrightarrow> cov_in n s0 (bl_Put k v s)"
  "0 < n \<Longrightarrow> cov_in (n - 1) s0 s \<Longrightarrow> \<not> tracked k \<Longrightarrow> \<not> is_log_key k \<Longrightarrow> cov_in n s0 (bl_Delete k s)"
  by (auto simp: cov_in_def in_txn_Put in_txn_Delete) (auto simp: bl_Put_def bl_Delete_def all_logged_other)

lemma cov_in_queue_log: "0 < n \<Longrightarrow> cov_in (n - 1) s0 s \<Longrightarrow> c \<in> q_cmds \<Longrightarrow> cov_in n s0 (bl_add_log t c k s)"
  by (auto simp: cov_in_def in_txn_add_log) (auto simp: bl_add_log_def Let_def all_logged_queue_log)

lemma cov_in_pair:
  assumes "cov_in (n - 2) s0 s" and "2 \<le> n" and "\<not> is_log_key k" and "enabled (binlogs s0)"
  shows "log_form (set_cmd k) k \<Longrightarrow> (key_type k = type_char ZSET \<longrightarrow> filter_score v = v) \<Longrightarrow>
      cov_in n s0 (bl_add_log t (set_cmd k) k (bl_Put k v s))"
    and "log_form (del_cmd k) k \<Longrightarrow> cov_in n s0 (bl_add_log t (del_cmd k) k (bl_Delete k s))"
proof -
  have en: "enabled (binlogs s)" using assms(1,4) by (simp add: cov_in_def in_txn_def in_tx_def)
  have tx: "in_txn (n - 1 - 1) s0 s" using assms(1) by (simp add: cov_in_def numeral_2_eq_2)
  have b: "in_txn n s0 (bl_add_log t c k (bl_Put k v s))" "in_txn n s0 (bl_add_log t c k (bl_Delete k s))" for c
    using assms(2,3) tx by (auto intro!: in_txn_add_log in_txn_Put in_txn_Delete)
  show "log_form (set_cmd k) k \<Longrightarrow> (key_type k = type_char ZSET \<longrightarrow> filter_score v = v) \<Longrightarrow>
      cov_in n s0 (bl_add_log t (set_cmd k) k (bl_Put k v s))"
    using assms(1,3) en all_logged_pair(1) [of "batch (binlogs s)" k v] b(1)
    by (auto simp: cov_in_def) (simp_all add: bl_add_log_def bl_Put_def Let_def)
  show "log_form (del_cmd k) k \<Longrightarrow> cov_in n s0 (bl_add_log t (del_cmd k) k (bl_Delete k s))"
    using assms(1,3) en all_logged_pair(2) [of "batch (binlogs s)" k] b(2)
    by (auto simp: cov_in_def) (simp_all add: bl_add_log_def bl_Delete_def Let_def)
qed

lemma cov_in_logs [cov_intros]:
  assumes "2 \<le> m" and "cov_in (m - 2) s0 s" and "enabled (binlogs s0)"
  shows "cov_in m s0 (bl_add_log t (binlog_cmd_char BC_KSET) (encode_kv_key k) (bl_Put (encode_kv_key k) v s))"
    and "cov_in m s0 (bl_add_log t (binlog_cmd_char BC_KDEL) (encode_kv_key k) (bl_Delete (encode_kv_key k) s))"
    and "hname_ok n \<Longrightarrow> hname_ok k \<Longrightarrow>
      cov_in m s0 (bl_add_log t (binlog_cmd_char BC_HSET) (encode_hash_key n k) (bl_Put (encode_hash_key n k) v s))"
    and "name_ok n \<Longrightarrow> name_ok k \<Longrightarrow>
      cov_in m s0 (bl_add_log t (binlog_cmd_char BC_HDEL) (encode_hash_key n k) (bl_Delete (encode_hash_key n k) s))"
    and "hname_ok n \<Longrightarrow> hname_ok k \<Longrightarrow>
      cov_in m s0 (bl_add_log t (binlog_cmd_char BC_ZSET) (encode_zset_key n k) (bl_Put (encode_zset_key n k) (filter_score v) s))"
    and "name_ok n \<Longrightarrow> name_ok k \<Longrightarrow>
      cov_in m s0 (bl_add_log t (binlog_cmd_char BC_ZDEL) (encode_zset_key n k) (bl_Delete (encode_zset_key n k) s))"
  using cov_in_pair(1) [OF assms(2,1) _ assms(3), of "encode_kv_key k" v t] cov_in_pair(2) [OF assms(2,1) _ assms(3), of "encode_kv_key k" t]
    cov_in_pair(1) [OF assms(2,1) _ assms(3), of "encode_hash_key n k" v t] cov_in_pair(2) [OF assms(2,1) _ assms(3), of "encode_hash_key n k" t]
    cov_in_pair(1) [OF assms(2,1) _ assms(3), of "encode_zset_key n k" "filter_score v" t]
    cov_in_pair(2) [OF assms(2,1) _ assms(3), of "encode_zset_key n k" t]
  by (simp_all add: set_cmd_def del_cmd_def log_form.intros)

lemma cov_done_in: "cov_in n s0 s \<Longrightarrow> cov_done n s0 s"
  by (simp add: cov_done_def)

lemma cov_done_mono: "cov_done m s0 s \<Longrightarrow> m \<le> n \<Longrightarrow> cov_done n s0 s"
  by (auto simp: cov_done_def intro: cov_in_mono)

lemma cov_done_begin [cov_intros]: "cov_done n s (bl_begin s)"
  by (intro cov_done_in cov_in_begin)

lemma cov_done_finish [cov_intros]: "cov_in n s0 s \<Longrightarrow> cov_done n s0 (fst (tx_finish a b s))"
  by (auto simp: store_simps cov_done_def)

lemma cov_done_sized:
  assumes "cov_in n s0 s" and "cov_in (Suc n) s0 (fst (f s))"
  shows "cov_done (Suc n) s0 (fst (sized_finish f ret a b s))"
  using cov_in_mono [OF assms(1), of "Suc n"] assms(2)
  by (auto simp: sized_finish_def Let_def split: prod.split intro: cov_done_finish cov_done_in)

lemma logged_refl [cov_intros]: "logged_run n s s"
  by (auto simp: logged_run_def tx_step_def wl_Nil all_logged_Nil intro!: exI [of _ "[]"])

lemma Transaction_logged [cov_intros]:
  assumes "cov_done n s (fst (body (bl_begin s)))"
  shows "logged_run n s (fst (Transaction body s))"
proof -
  let ?t = "fst (body (bl_begin s))"
  have eq: "fst (Transaction body s) = bl_rollback ?t" by (simp add: store_simps)
  from assms consider "cov_in n s ?t" | t where "cov_in n s t" "fst (bl_commit t) = ?t" by (auto simp: cov_done_def)
  then show ?thesis
  proof cases
    case 1
    then have "tx_step s [] (bl_rollback ?t)" by (intro tx_step_rollback) (simp add: cov_in_def in_txn_def)
    then show ?thesis unfolding logged_run_def eq using all_logged_Nil by (intro exI [of _ "[]"]) simp
  next
    case 2
    obtain ok where ok: "bl_commit t = (?t, ok)" using 2(2) by (metis prod.collapse)
    have t: "in_tx s t" "length (batch (binlogs t)) \<le> n" using 2(1) by (simp_all add: cov_in_def in_txn_def)
    note st = tx_step_commit(2) [OF t(1) ok]
    have "all_logged (if ok then batch (binlogs t) else [])" using 2(1) by (simp add: cov_in_def all_logged_Nil)
    moreover have "length (if ok then batch (binlogs t) else []) \<le> n" using t(2) by simp
    ultimately show ?thesis using st unfolding logged_run_def eq by blast
  qed
qed

lemma Transaction_logged_pair: "Transaction body s = (s', r) \<Longrightarrow> cov_done n s (fst (body (bl_begin s))) \<Longrightarrow> logged_run n s s'"
  using Transaction_logged [of n s body] by simp

lemma untracked [simp]:
  "\<not> tracked (encode_hsize_key n)" "\<not> tracked (encode_zsize_key n)" "\<not> tracked (encode_zscore_key n k sc)"
  "\<not> tracked (encode_qsize_key n)" "\<not> tracked (encode_qitem_key n q)"
  by (simp_all add: tracked_def)

lemma cov_in_queue_logs [cov_intros]:
  assumes "0 < n" and "cov_in (n - 1) s0 s"
  shows "cov_in n s0 (bl_add_log t (binlog_cmd_char BC_QSET) k s)" "cov_in n s0 (bl_add_log t (binlog_cmd_char BC_QPUSH_BACK) k s)"
    "cov_in n s0 (bl_add_log t (binlog_cmd_char BC_QPUSH_FRONT) k s)" "cov_in n s0 (bl_add_log t (binlog_cmd_char BC_QPOP_BACK) k s)"
    "cov_in n s0 (bl_add_log t (binlog_cmd_char BC_QPOP_FRONT) k s)"
  using assms by (simp_all add: cov_in_queue_log q_cmds_def)

lemma kv_ops_logged:
  assumes "enabled (binlogs s)"
  shows "logged_run 10 s (fst (ssdb_set k v lt s))" "logged_run 10 s (fst (setnx k v lt s))"
  "logged_run 10 s (fst (getset k v lt s))" "logged_run 10 s (fst (ssdb_del k lt s))"
  "logged_run 10 s (fst (ssdb_incr en k by lt s))"
  using assms by (auto simp: ssdb_set_def setnx_def getset_def ssdb_del_def ssdb_incr_def incr_store_def Let_def
      split: get_status.split prod.split intro!: cov_intros)

lemma setbit_logged: "setbit k off on lt s = Some (s', r) \<Longrightarrow> enabled (binlogs s) \<Longrightarrow> logged_run 10 s s'"
  unfolding setbit_def
  by (auto simp: Let_def split: if_splits prod.split intro!: cov_intros elim!: Transaction_logged_pair)

lemma multi_set_loop_cov:
  "multi_set_loop lt kvs s = Some (t, b) \<Longrightarrow> enabled (binlogs s0) \<Longrightarrow> cov_in n s0 s \<Longrightarrow> cov_in (n + length kvs) s0 t"
proof (induction lt kvs s arbitrary: n rule: multi_set_loop.induct)
  case (3 lt key val kvs s)
  let ?s = "bl_add_log lt (binlog_cmd_char BC_KSET) (encode_kv_key key) (bl_Put (encode_kv_key key) val s)"
  have "cov_in (n + 2) s0 ?s" using 3(3,4) by (intro cov_in_logs) simp_all
  from 3(1) [OF _ refl refl refl _ 3(3) this] 3(2) 3(4) show ?case by (auto simp: Let_def split: if_splits intro: cov_in_mono)
qed (auto split: if_splits intro: cov_in_mono)

lemma multi_set_logged:
  assumes "multi_set kvs offset lt s = Some (s', r)" and "enabled (binlogs s)"
  shows "logged_run (length kvs) s s'"
proof -
  from assms(1) obtain t b where t: "multi_set_loop lt (drop offset kvs) (bl_begin s) = Some (t, b)"
    by (auto simp: multi_set_def split: if_splits option.splits)
  from multi_set_loop_cov [OF t assms(2) cov_in_begin [of 0]] have t': "cov_in (length kvs) s t" by (rule cov_in_mono) simp
  have "s' = fst (Transaction (\<lambda>_. if b then tx_finish r (-1) t else (t, 0)) s)"
    using assms(1) t by (auto simp: multi_set_def Transaction_def Let_def tx_finish_def split: if_splits prod.splits bool.splits)
  with t' show ?thesis by (auto intro!: Transaction_logged cov_done_finish intro: cov_done_in)
qed

lemma multi_del_loop_cov:
  "enabled (binlogs s0) \<Longrightarrow> cov_in n s0 s \<Longrightarrow> cov_in (n + 2 * length keys) s0 (multi_del_loop lt keys s)"
proof (induction lt keys s arbitrary: n rule: multi_del_loop.induct)
  case (2 lt key keys s)
  let ?s = "bl_add_log lt (binlog_cmd_char BC_KDEL) (encode_kv_key key) (bl_Delete (encode_kv_key key) s)"
  have "cov_in (n + 2) s0 ?s" using 2(2,3) by (intro cov_in_logs) simp_all
  from 2(1) [OF refl refl refl 2(2) this] show ?case by (simp add: Let_def)
qed simp

lemma multi_del_logged:
  assumes "multi_del keys offset lt s = Some (s', r)" and "enabled (binlogs s)"
  shows "logged_run (2 * length keys) s s'"
proof -
  have "cov_in (2 * length keys) s (multi_del_loop lt (drop offset keys) (bl_begin s))"
    using multi_del_loop_cov [OF assms(2) cov_in_begin [of 0], of "drop offset keys" lt] by (rule cov_in_mono) simp
  then show ?thesis using assms(1)
    by (auto simp: multi_del_def split: if_splits intro!: cov_done_finish elim!: Transaction_logged_pair)
qed

lemma incr_size_cov:
  "cov_in n s0 s \<Longrightarrow> cov_in (Suc n) s0 (fst (incr_hsize nm i s))" "cov_in n s0 s \<Longrightarrow> cov_in (Suc n) s0 (fst (incr_zsize nm i s))"
  by (auto simp: incr_hsize_def incr_zsize_def Let_def intro!: cov_intros)

lemma one_cov:
  assumes "enabled (binlogs s)"
  shows "cov_in 9 s (fst (hset_one n k v lt (bl_begin s)))" "cov_in 9 s (fst (hdel_one n k lt (bl_begin s)))"
    "cov_in 9 s (fst (zset_one n k v lt (bl_begin s)))" "cov_in 9 s (fst (zdel_one n k lt (bl_begin s)))"
  using assms
  by (auto simp: hset_one_def hdel_one_def zset_one_def zdel_one_def Let_def hname_ok_def name_ok_def intro!: cov_intros)

lemma sized_cov:
  assumes "cov_in 9 s0 s"
  shows "cov_done 10 s0 (fst (sized_finish (incr_hsize n i) ret a b s))" "cov_done 10 s0 (fst (sized_finish (incr_zsize n i) ret a b s))"
  using cov_done_sized [OF assms, of "incr_hsize n i" ret a b] cov_done_sized [OF assms, of "incr_zsize n i" ret a b] incr_size_cov [OF assms]
  by simp_all

lemma coll_ops_logged:
  assumes "enabled (binlogs s)"
  shows "logged_run 10 s (fst (hset n k v lt s))" "logged_run 10 s (fst (hdel n k lt s))"
    "logged_run 10 s (fst (zset n k v lt s))" "logged_run 10 s (fst (zdel n k lt s))"
  using one_cov [OF assms] one_cov [OF assms, THEN cov_done_in, THEN cov_done_mono, of 10]
  by (auto simp: hset_def hdel_def zset_def zdel_def case_prod_beta Let_def intro!: Transaction_logged sized_cov)

lemma incr_ops_logged:
  assumes "enabled (binlogs s)"
  shows "logged_run 10 s (fst (hincr en n k by lt s))" "logged_run 10 s (fst (zincr n k by lt s))"
proof -
  have "cov_done 10 s (fst (hincr_store n k v lt (bl_begin s)))" "cov_done 10 s (fst (zincr_store n k v lt (bl_begin s)))" for v
    using one_cov [OF assms] one_cov [OF assms, THEN cov_done_in, THEN cov_done_mono, of 10]
    by (auto simp: hincr_store_def zincr_store_def case_prod_beta Let_def intro!: sized_cov)
  then show "logged_run 10 s (fst (hincr en n k by lt s))" "logged_run 10 s (fst (zincr n k by lt s))"
    by (auto simp: hincr_def zincr_def Let_def split: get_status.split prod.split intro!: Transaction_logged cov_done_begin)
qed

lemma incr_qsize_cov: "cov_in n s0 s \<Longrightarrow> cov_in (n + 3) s0 (fst (incr_qsize nm i s))"
  by (auto simp: incr_qsize_def qdel_one_def Let_def intro!: cov_intros intro: cov_in_mono)

lemma qpush_item_cov:
  assumes "cov_in 4 s0 s"
  shows "cov_done 10 s0 (fst (qpush_item n x e lt q s))"
proof -
  have "cov_in 7 s0 (bl_add_log lt (binlog_cmd_char (if e = QFRONT_SEQ then BC_QPUSH_FRONT else BC_QPUSH_BACK)) k (qset_one n q x s))" for k
    using cov_in_mono [OF assms, of 5] by (auto simp: qset_one_def intro!: cov_intros)
  from incr_qsize_cov [OF this] have i: "cov_in 10 s0 (fst (incr_qsize n 1 (bl_add_log lt
      (binlog_cmd_char (if e = QFRONT_SEQ then BC_QPUSH_FRONT else BC_QPUSH_BACK)) k (qset_one n q x s))))" for k by simp
  show ?thesis using cov_done_in [OF cov_in_mono [OF assms, of 10]] cov_done_in [OF i] cov_done_finish [OF i, where 'a = int]
    by (cases "e = QFRONT_SEQ") (simp_all add: qpush_item_def Let_def case_prod_beta)
qed

lemma qpush_logged: "logged_run 10 s (fst (qpush n x e lt s))"
proof -
  have "cov_in 4 s (fst (qpush_ends n e r q (bl_begin s)))" for r q
    by (auto simp: qpush_ends_def qset_one_def Let_def intro!: cov_intros)
  from qpush_item_cov [OF this] show ?thesis
    unfolding qpush_def by (intro Transaction_logged) (simp add: Let_def case_prod_beta cov_done_begin)
qed

lemma qpop_logged: "logged_run 10 s (fst (qpop n e lt s))"
proof -
  let ?c = "binlog_cmd_char (if e = QFRONT_SEQ then BC_QPOP_FRONT else BC_QPOP_BACK)"
  have "cov_in 6 s (bl_add_log lt ?c n (qdel_one n q (bl_begin s)))" for q
    by (auto simp: qdel_one_def intro!: cov_intros)
  from incr_qsize_cov [OF this] have i: "cov_in 9 s (fst (incr_qsize n (-1) (bl_add_log lt ?c n (qdel_one n q (bl_begin s)))))" for q by simp
  then have k: "cov_in 10 s (qset_one n e' v (fst (incr_qsize n (-1) (bl_add_log lt ?c n (qdel_one n q (bl_begin s))))))" for q e' v
    unfolding qset_one_def by (intro cov_in_other) simp_all
  note j = cov_in_mono [OF i, of 10, simplified]
  show ?thesis unfolding qpop_def
    using cov_done_in [OF j] cov_done_finish [OF j] cov_done_finish [OF k]
    by (intro Transaction_logged) (auto simp: Let_def case_prod_beta cov_done_begin split: get_status.split)
qed

lemma qset_commit_cov: "cov_done 10 s (fst (qset_commit n q x lt (bl_begin s)))"
  by (auto simp: qset_commit_def qset_one_def Let_def intro!: cov_intros)

lemma qset_logged: "logged_run 10 s (fst (qset n i x lt s))" "logged_run 10 s (fst (qset_by_seq n q x lt s))"
  unfolding qset_def qset_by_seq_def
  by (rule Transaction_logged; auto simp: Let_def case_prod_beta cov_done_begin qset_commit_cov)+

subsection \<open>Logs and data after a run of operations\<close>

text \<open>The logs with numbers above \<open>q\<close>, as commands and keys, and what a list of them says about a key.\<close>

definition log_at :: "ssdb \<Rightarrow> u64 \<Rightarrow> bytes option" where
  "log_at s q = db_map s (encode_seq_key q)"

fun log_says :: "bytes \<Rightarrow> bool option \<Rightarrow> (char \<times> bytes) list \<Rightarrow> bool option" where
  "log_says x l [] = l"
| "log_says x l ((c, k) # L) = log_says x (if k = x \<and> c = set_cmd x then Some True else if k = x \<and> c = del_cmd x then Some False else l) L"

lemma log_says_append [simp]: "log_says x l (L @ L') = log_says x (log_says x l L) L'"
  by (induction x l L rule: log_says.induct) simp_all

lemma log_says_start: "log_says x l L = (case log_says x None L of None \<Rightarrow> l | Some b \<Rightarrow> Some b)"
proof (induction L arbitrary: l rule: rev_induct)
  case (snoc p L)
  show ?case using snoc [of l] snoc [of None] by (cases p) (auto split: option.splits)
qed simp

text \<open>\<open>since q m s L\<close>: the logs above \<open>q\<close> are \<open>L\<close>, without a gap, and they lead from the data \<open>m\<close> to those of \<open>s\<close>: a
  tracked key without a log is as it was, and the last log of any other tells whether it is there.\<close>

definition since :: "u64 \<Rightarrow> (bytes \<rightharpoonup> bytes) \<Rightarrow> ssdb \<Rightarrow> (char \<times> bytes) list \<Rightarrow> bool" where
  "since q m s L \<longleftrightarrow> unat (last_seq (binlogs s)) = unat q + length L \<and>
     (\<forall>i < length L. \<exists>t. log_at s (q + word_of_nat (Suc i)) =
        Some (Binlog_make (q + word_of_nat (Suc i)) t (fst (L ! i)) (snd (L ! i)))) \<and>
     (\<forall>(c, k) \<in> set L. log_form c k) \<and>
     (\<forall>x. tracked x \<longrightarrow> (case log_says x None L of None \<Rightarrow> data_map s x = m x | Some b \<Rightarrow> (data_map s x \<noteq> None) = b)) \<and>
     (\<forall>x v. data_map s x = Some v \<longrightarrow> key_type x = type_char ZSET \<longrightarrow> filter_score v = v)"

fun wop_logs :: "wop list \<Rightarrow> (char \<times> bytes) list" where
  "wop_logs [] = []"
| "wop_logs (WPut k v # b) = (if is_log_key k then [(Binlog_cmd v, Binlog_key v)] else []) @ wop_logs b"
| "wop_logs (WDelete k # b) = wop_logs b"

lemma wop_logs_append [simp]: "wop_logs (b @ c) = wop_logs b @ wop_logs c"
  by (induction b rule: wop_logs.induct) auto

text \<open>The two components of \<open>track\<close>: what the logs of the batch say, and what the batch does to the key.\<close>

lemma track_logs: "snd (track x b) = log_says x None (wop_logs b)"
proof (induction b rule: rev_induct)
  case (snoc w b)
  then show ?case by (cases w) (auto simp: track1_simps)
qed simp

lemma track_data:
  "\<not> is_log_key x \<Longrightarrow> case fst (track x b) of None \<Rightarrow> batch_map b m x = m x | Some p \<Rightarrow> (batch_map b m x \<noteq> None) = p"
proof (induction b rule: rev_induct)
  case (snoc w b)
  then show ?case by (cases w) (auto simp: track1_simps batch_map_snoc split: option.splits if_splits)
qed simp

lemma tracked_not_log: "tracked x \<Longrightarrow> \<not> is_log_key x"
  by (auto simp: tracked_def is_log_key_iff)

lemma wop_logs_length: "length (wop_logs b) \<le> length b"
  by (induction b rule: wop_logs.induct) auto

lemma unat_add_small: "unat (q :: u64) + n < 2 ^ 64 \<Longrightarrow> unat (q + word_of_nat n) = unat q + n"
  by (simp add: unat_word_ariths unat_of_nat)

lemma well_logged_logs:
  assumes "well_logged q b r" and "unat q + length b < 2 ^ 64"
  shows "unat r = unat q + length (wop_logs b)"
    and "i < length (wop_logs b) \<Longrightarrow> \<exists>t. batch_map b m (encode_seq_key (q + word_of_nat (Suc i))) =
      Some (Binlog_make (q + word_of_nat (Suc i)) t (fst (wop_logs b ! i)) (snd (wop_logs b ! i)))"
    and "p \<le> q \<Longrightarrow> batch_map b m (encode_seq_key p) = m (encode_seq_key p)"
proof -
  from assms have "unat r = unat q + length (wop_logs b) \<and>
    (i < length (wop_logs b) \<longrightarrow> (\<exists>t. batch_map b m (encode_seq_key (q + word_of_nat (Suc i))) =
      Some (Binlog_make (q + word_of_nat (Suc i)) t (fst (wop_logs b ! i)) (snd (wop_logs b ! i))))) \<and>
    (p \<le> q \<longrightarrow> batch_map b m (encode_seq_key p) = m (encode_seq_key p))"
  proof (induction rule: well_logged.induct)
    case (wl_log b r t c k)
    let ?n = "length (wop_logs b)"
    have le: "?n \<le> length b" by (rule wop_logs_length)
    have IH: "unat r = unat q + ?n" using wl_log by simp
    have u: "unat (r + 1) = unat r + 1" using wl_log.prems IH le by (intro unat_plus_1) simp
    have small: "unat (q + word_of_nat (Suc j)) = unat q + Suc j" if "j \<le> ?n" for j
      using that wl_log.prems le by (intro unat_add_small) simp
    have r: "r + 1 = q + word_of_nat (Suc ?n)" using small [of ?n] u IH by (simp add: word_unat_eq_iff)
    have len: "length (wop_logs (b @ [WPut (encode_seq_key (r + 1)) (Binlog_make (r + 1) t c k)])) = Suc ?n" by simp
    have new: "r + 1 \<noteq> q + word_of_nat (Suc j)" if "j < ?n" for j
      using that small [of j] u IH by (auto simp: word_unat_eq_iff)
    have old: "p \<le> q \<Longrightarrow> p \<noteq> r + 1" using u IH by (auto simp: word_le_nat_alt)
    show ?case
    proof (intro conjI impI)
      show "unat (r + 1) = unat q + length (wop_logs (b @ [WPut (encode_seq_key (r + 1)) (Binlog_make (r + 1) t c k)]))"
        using u IH by simp
      show "p \<le> q \<Longrightarrow> batch_map (b @ [WPut (encode_seq_key (r + 1)) (Binlog_make (r + 1) t c k)]) m (encode_seq_key p) = m (encode_seq_key p)"
        using wl_log old by (simp add: batch_map_snoc)
      assume "i < length (wop_logs (b @ [WPut (encode_seq_key (r + 1)) (Binlog_make (r + 1) t c k)]))"
      then consider "i = ?n" | "i < ?n" using len by linarith
      then show "\<exists>t'. batch_map (b @ [WPut (encode_seq_key (r + 1)) (Binlog_make (r + 1) t c k)]) m (encode_seq_key (q + word_of_nat (Suc i))) =
        Some (Binlog_make (q + word_of_nat (Suc i)) t' (fst (wop_logs (b @ [WPut (encode_seq_key (r + 1)) (Binlog_make (r + 1) t c k)]) ! i))
          (snd (wop_logs (b @ [WPut (encode_seq_key (r + 1)) (Binlog_make (r + 1) t c k)]) ! i)))"
      proof cases
        case 1
        then have e: "q + word_of_nat (Suc i) = r + 1" using r by simp
        show ?thesis unfolding e using 1 by (auto simp: batch_map_snoc nth_append)
      next
        case 2
        then show ?thesis using wl_log new [OF 2] by (simp add: batch_map_snoc nth_append)
      qed
    qed
  qed (auto simp: is_log_key_def encode_seq_key_def batch_map_snoc)
  then show "unat r = unat q + length (wop_logs b)"
    and "i < length (wop_logs b) \<Longrightarrow> \<exists>t. batch_map b m (encode_seq_key (q + word_of_nat (Suc i))) =
      Some (Binlog_make (q + word_of_nat (Suc i)) t (fst (wop_logs b ! i)) (snd (wop_logs b ! i)))"
    and "p \<le> q \<Longrightarrow> batch_map b m (encode_seq_key p) = m (encode_seq_key p)" by blast+
qed

lemma since_start:
  assumes "\<forall>x v. data_map s x = Some v \<longrightarrow> key_type x = type_char ZSET \<longrightarrow> filter_score v = v"
  shows "since (last_seq (binlogs s)) (data_map s) s []"
  using assms by (simp add: since_def)

lemma wop_logs_form: "all_logged b \<Longrightarrow> (c, k) \<in> set (wop_logs b) \<Longrightarrow> log_form c k"
proof -
  have "\<forall>w \<in> set b. wop_ok w \<Longrightarrow> (c, k) \<in> set (wop_logs b) \<Longrightarrow> log_form c k"
    by (induction b rule: wop_logs.induct) (auto split: if_splits)
  then show "all_logged b \<Longrightarrow> (c, k) \<in> set (wop_logs b) \<Longrightarrow> log_form c k" by (simp add: all_logged_def)
qed

lemma batch_score_ok:
  assumes "\<forall>w \<in> set b. wop_ok w" and "m x = Some v \<longrightarrow> filter_score v = v"
    and "key_type x = type_char ZSET" and "batch_map b m x = Some v"
  shows "filter_score v = v"
  using assms
proof (induction b rule: rev_induct)
  case (snoc w b)
  then show ?case by (cases w) (auto simp: batch_map_snoc is_log_key_iff split: if_splits)
qed simp

lemma since_logged:
  assumes "since q m s L" and "logged_run n s s'" and "seq_room n s" and "kv_sorted (entries (ldb s))"
  shows "\<exists>L'. since q m s' (L @ L')"
proof -
  from assms(2) obtain b where b: "length b \<le> n" "tx_step s b s'" "all_logged b" by (auto simp: logged_run_def)
  let ?p = "last_seq (binlogs s)" and ?B = "wop_logs b"
  have room: "unat ?p + length b < 2 ^ 64" using assms(3) b(1) by (simp add: seq_room_def)
  have wl: "well_logged ?p b (last_seq (binlogs s'))" using b(2) by (simp add: tx_step_def)
  note W = well_logged_logs [OF wl room]
  note D = tx_step_map(1) [OF b(2) assms(4)]
  have S: "unat ?p = unat q + length L" "\<And>i. i < length L \<Longrightarrow> \<exists>t. log_at s (q + word_of_nat (Suc i)) =
      Some (Binlog_make (q + word_of_nat (Suc i)) t (fst (L ! i)) (snd (L ! i)))"
    using assms(1) by (simp_all add: since_def)
  have p: "?p = q + word_of_nat (length L)"
    using unat_add_small [of q "length L"] S(1) room by (simp add: word_unat_eq_iff)
  have log: "\<exists>t. log_at s' (q + word_of_nat (Suc i)) = Some (Binlog_make (q + word_of_nat (Suc i)) t (fst ((L @ ?B) ! i)) (snd ((L @ ?B) ! i)))"
    if i: "i < length (L @ ?B)" for i
  proof (cases "i < length L")
    case True
    have "unat q + Suc i < 2 ^ 64" using True S(1) room by simp
    then have "q + word_of_nat (Suc i) \<le> ?p" using unat_add_small [of q "Suc i"] True S(1) by (simp add: word_le_nat_alt del: of_nat_Suc)
    from W(3) [OF this, of "db_map s"] S(2) [OF True] True show ?thesis by (simp add: log_at_def D nth_append del: of_nat_Suc)
  next
    case False
    let ?j = "i - length L"
    have "q + word_of_nat (Suc i) = ?p + word_of_nat (Suc ?j)" using False unfolding p by (simp flip: of_nat_add)
    moreover have "?j < length ?B" using False i by simp
    ultimately show ?thesis using W(2) [of ?j "db_map s"] False by (simp add: log_at_def D nth_append del: of_nat_Suc)
  qed
  have data: "case log_says x None (L @ ?B) of None \<Rightarrow> data_map s' x = m x | Some b \<Rightarrow> (data_map s' x \<noteq> None) = b" if x: "tracked x" for x
  proof -
    have x': "\<not> is_log_key x" by (rule tracked_not_log [OF x])
    have a: "log_says x None ?B = fst (track x b)" using b(3) x by (simp add: all_logged_def track_logs)
    have c: "log_says x l ?B = (case log_says x None ?B of None \<Rightarrow> l | Some y \<Rightarrow> Some y)" for l by (rule log_says_start)
    have d: "data_map s' x = batch_map b (db_map s) x" "data_map s x = db_map s x" using x' by (simp_all add: data_map_def D)
    have S3: "case log_says x None L of None \<Rightarrow> data_map s x = m x | Some b \<Rightarrow> (data_map s x \<noteq> None) = b"
      using assms(1) x by (simp add: since_def)
    show ?thesis
    proof (cases "log_says x None ?B")
      case None
      then have "data_map s' x = data_map s x" using track_data [OF x', of b "db_map s"] a d by simp
      with S3 show ?thesis using c [of "log_says x None L"] None by (simp split: option.splits)
    next
      case (Some y)
      then show ?thesis using track_data [OF x', of b "db_map s"] a d c [of "log_says x None L"] by simp
    qed
  qed
  have score: "filter_score v = v" if "data_map s' x = Some v" "key_type x = type_char ZSET" for x v
  proof (rule batch_score_ok [of b "db_map s" x])
    have x: "\<not> is_log_key x" using that(2) by (simp add: is_log_key_iff)
    show "batch_map b (db_map s) x = Some v" using that(1) x by (simp add: data_map_def D)
    have "data_map s x = Some v \<longrightarrow> filter_score v = v" using assms(1) that(2) unfolding since_def by blast
    then show "db_map s x = Some v \<longrightarrow> filter_score v = v" using x by (simp add: data_map_def)
  qed (use b(3) that in \<open>auto simp: all_logged_def\<close>)
  have "since q m s' (L @ ?B)" unfolding since_def
  proof (intro conjI allI impI ballI)
    show "unat (last_seq (binlogs s')) = unat q + length (L @ ?B)" using W(1) S(1) by simp
    fix p assume "p \<in> set (L @ ?B)"
    then show "case p of (c, k) \<Rightarrow> log_form c k" using wop_logs_form [OF b(3)] assms(1) by (auto simp: since_def)
  qed (use log data score in \<open>blast+\<close>)
  then show ?thesis by blast
qed

lemma db_step_logged:
  assumes "db_step s s'" and "enabled (binlogs s)"
  shows "(\<exists>n < 2 ^ 34. logged_run n s s') \<or> log_clean_step s = Some s' \<or> (\<exists>b. s' = s\<lparr>ldb := (ldb s)\<lparr>wr_fail := b\<rparr>\<rparr>)"
proof -
  have ten: "logged_run 10 s s'' \<Longrightarrow> \<exists>n < 2 ^ 34. logged_run n s s''" for s'' by (rule exI [of _ 10]) simp
  note ops = kv_ops_logged [OF assms(2)] coll_ops_logged [OF assms(2)] incr_ops_logged [OF assms(2)] qpush_logged qpop_logged qset_logged(1)
  from assms(1) show ?thesis
  proof cases
    case (st_setbit k off on lt r)
    then show ?thesis using setbit_logged assms(2) ten by blast
  next
    case (st_multi_set kvs j lt r)
    then show ?thesis using multi_set_logged [OF st_multi_set(2) assms(2)] by (intro disjI1 exI [of _ "length kvs"]) simp
  next
    case (st_multi_del ks j lt r)
    then show ?thesis using multi_del_logged [OF st_multi_del(2) assms(2)] by (intro disjI1 exI [of _ "2 * length ks"]) simp
  qed (use ops ten in \<open>auto simp: qpush_back_def qpush_front_def qpop_back_def qpop_front_def\<close>)
qed

lemma log_clean_cases:
  assumes "log_clean_step s = Some s'" and "db_inv s"
  shows "s' = s \<or> (let e = last_seq (binlogs s) - word_of_int (capacity (binlogs s))
    in min_seq (binlogs s') = e + 1 \<and> min_seq (binlogs s) \<le> e \<and> e < last_seq (binlogs s))"
proof (cases "last_seq (binlogs s) - min_seq (binlogs s) < word_of_int (wrap32 (capacity (binlogs s) + 10000))")
  case True
  then show ?thesis using assms(1) by (simp add: log_clean_step_def Let_def)
next
  case False
  let ?l = "last_seq (binlogs s)" and ?m = "min_seq (binlogs s)" and ?c = "capacity (binlogs s)"
  have c: "0 < ?c" "?c < 2 ^ 31 - 10000" "?m \<le> ?l" using assms(2) by (auto simp: db_inv_def)
  have w: "wrap32 (?c + 10000) = ?c + 10000" using c by (intro wrap32_id) (simp add: in_int32_def)
  have un: "unat (word_of_int i :: u64) = nat i" if "0 \<le> i" "i < 2 ^ 31" for i
    using that by (simp add: unsigned_of_int take_bit_int_eq_self)
  note uc = un [of ?c] un [of "?c + 10000"]
  have "nat (?c + 10000) \<le> unat (?l - ?m)" using False w uc c by (simp add: word_less_nat_alt not_less del: of_int_add)
  moreover have "unat (?l - ?m) = unat ?l - unat ?m" using c(3) by (simp add: unat_sub)
  ultimately have le: "unat ?m + nat ?c + 10000 \<le> unat ?l" using c(1) by (simp add: nat_add_distrib)
  then have "unat (?l - word_of_int ?c) = unat ?l - nat ?c" using uc c by (simp add: unat_sub word_le_nat_alt)
  then have "?m \<le> ?l - word_of_int ?c \<and> ?l - word_of_int ?c < ?l" using le c(1) by (simp add: word_le_nat_alt word_less_nat_alt)
  moreover have "min_seq (binlogs s') = ?l - word_of_int ?c + 1"
    using False assms(1) by (auto simp: log_clean_step_def Let_def split: option.splits)
  ultimately show ?thesis by (simp add: Let_def)
qed

lemma since_clean:
  assumes "since q m s L" and "log_clean_step s = Some s'" and "db_inv s" and "db_room s" and "min_seq (binlogs s') \<le> q + 1"
  shows "since q m s' L"
proof (cases "s' = s")
  case False
  let ?l = "last_seq (binlogs s)" let ?e = "?l - word_of_int (capacity (binlogs s))"
  have e: "min_seq (binlogs s') = ?e + 1" "?e < ?l" using log_clean_cases [OF assms(2,3)] False by (simp_all add: Let_def)
  have room: "unat ?l < 2 ^ 62" using assms(4) by (simp add: db_room_def)
  have ql: "unat q + length L = unat ?l" using assms(1) by (simp add: since_def)
  have "unat (?e + 1) = unat ?e + 1" using e(2) room by (intro unat_plus_1) (simp add: word_less_nat_alt)
  moreover have "unat (q + 1) = unat q + 1" using ql room by (intro unat_plus_1) simp
  ultimately have eq: "unat ?e \<le> unat q" using assms(5) e(1) by (simp add: word_le_nat_alt)
  have pre: "binlog_inv s" "min_seq (binlogs s) \<le> ?l" "?l < UINT64_MAX" "0 < capacity (binlogs s)" "capacity (binlogs s) < 2 ^ 31 - 10000"
    using assms(3,4) by (auto simp: db_inv_def db_room_def word_less_nat_alt UINT64_MAX_def)
  from log_clean_step_correct [OF pre] assms(2) have
    c: "last_seq (binlogs s') = ?l" "\<forall>k. \<not> is_log_key k \<longrightarrow> db_map s' k = db_map s k"
      "\<forall>sq. ?e < sq \<longrightarrow> db_map s' (encode_seq_key sq) = db_map s (encode_seq_key sq)" by auto
  have d: "data_map s' = data_map s" using c(2) by (auto simp: data_map_def fun_eq_iff)
  have l: "log_at s' (q + word_of_nat (Suc i)) = log_at s (q + word_of_nat (Suc i))" if "i < length L" for i
  proof -
    have "unat (q + word_of_nat (Suc i)) = unat q + Suc i" using that ql room by (intro unat_add_small) simp
    then have "?e < q + word_of_nat (Suc i)" using eq by (simp add: word_less_nat_alt del: of_nat_Suc)
    then show ?thesis using c(3) by (simp add: log_at_def del: of_nat_Suc)
  qed
  show ?thesis using assms(1) l unfolding since_def d c(1) by (simp del: of_nat_Suc)
qed (use assms(1) in simp)

lemma log_clean_enabled: "log_clean_step s = Some s' \<Longrightarrow> enabled (binlogs s') = enabled (binlogs s)"
  by (auto simp: log_clean_step_def Let_def split: if_splits option.splits)

lemma db_step_enabled: "db_step s s' \<Longrightarrow> enabled (binlogs s) \<Longrightarrow> enabled (binlogs s')"
  using db_step_logged [of s s'] log_clean_enabled [of s s'] by (auto simp: logged_run_def tx_step_def)

text \<open>\<open>since\<close> is kept by every step as long as the cleaning thread does not pass \<open>q\<close>.\<close>

lemma since_step:
  assumes "since q m s L" and "db_step s s'" and "db_inv s" and "db_room s" and "enabled (binlogs s)" and "min_seq (binlogs s') \<le> q + 1"
  shows "\<exists>L. since q m s' L"
proof -
  from db_step_logged [OF assms(2,5)] consider n where "n < 2 ^ 34" "logged_run n s s'" | "log_clean_step s = Some s'"
    | b where "s' = s\<lparr>ldb := (ldb s)\<lparr>wr_fail := b\<rparr>\<rparr>" by blast
  then show ?thesis
  proof cases
    case 1
    have "seq_room n s" using 1(1) assms(4) by (simp add: seq_room_def db_room_def)
    moreover have "kv_sorted (entries (ldb s))" using assms(3) by (simp add: db_inv_def binlog_inv_def)
    ultimately show ?thesis using since_logged [OF assms(1) 1(2)] by blast
  next
    case 2
    from since_clean [OF assms(1) 2 assms(3,4,6)] show ?thesis by blast
  next
    case 3
    have e: "log_at s' = log_at s" "data_map s' = data_map s" "binlogs s' = binlogs s"
      using 3 by (simp_all add: log_at_def db_map_def data_map_def fun_eq_iff)
    have "since q m s' L" using assms(1) unfolding since_def e .
    then show ?thesis by blast
  qed
qed

subsection \<open>The exact logs of an operation\<close>

text \<open>The log with number \<open>q\<close> as seen from inside a transaction.\<close>

definition tx_log :: "ssdb \<Rightarrow> u64 \<Rightarrow> bytes option" where
  "tx_log s q = batch_map (batch (binlogs s)) (db_map s) (encode_seq_key q)"

lemma not_log_neq: "\<not> is_log_key k \<Longrightarrow> encode_seq_key q \<noteq> k" "\<not> is_log_key k \<Longrightarrow> k \<noteq> encode_seq_key q"
  using is_log_key_encode by metis+

named_theorems log_simps

lemma tx_log_simps [log_simps]:
  "tx_log (bl_begin s) = log_at s" "\<not> is_log_key k \<Longrightarrow> tx_log (bl_Put k v s) = tx_log s" "\<not> is_log_key k \<Longrightarrow> tx_log (bl_Delete k s) = tx_log s"
  "enabled (binlogs s) \<Longrightarrow> tx_log (bl_add_log t c k' s) =
     (tx_log s)(tran_seq (binlogs s) + 1 \<mapsto> Binlog_make (tran_seq (binlogs s) + 1) t c k')"
  by (auto simp: tx_log_def log_at_def bl_begin_def bl_Put_def bl_Delete_def bl_add_log_def db_map_def fun_eq_iff not_log_neq Let_def)

lemma tx_seq_simps [log_simps]:
  "tran_seq (binlogs (bl_begin s)) = last_seq (binlogs s)" "tran_seq (binlogs (bl_Put k v s)) = tran_seq (binlogs s)"
  "tran_seq (binlogs (bl_Delete k s)) = tran_seq (binlogs s)"
  "enabled (binlogs s) \<Longrightarrow> tran_seq (binlogs (bl_add_log t c k s)) = tran_seq (binlogs s) + 1"
  "enabled (binlogs (bl_begin s)) = enabled (binlogs s)" "enabled (binlogs (bl_Put k v s)) = enabled (binlogs s)"
  "enabled (binlogs (bl_Delete k s)) = enabled (binlogs s)" "enabled (binlogs (bl_add_log t c k s)) = enabled (binlogs s)"
  by (simp_all add: bl_begin_def bl_Put_def bl_Delete_def bl_add_log_def Let_def)

lemma commit_log [log_simps]:
  "kv_sorted (entries (ldb s)) \<Longrightarrow> \<not> wr_fail (ldb s) \<Longrightarrow> log_at (fst (bl_commit s)) = tx_log s"
  "\<not> wr_fail (ldb s) \<Longrightarrow> last_seq (binlogs (fst (bl_commit s))) = tran_seq (binlogs s)"
  "log_at (bl_rollback s) = log_at s" "last_seq (binlogs (bl_rollback s)) = last_seq (binlogs s)"
  "enabled (binlogs (bl_rollback s)) = enabled (binlogs s)" "enabled (binlogs (fst (bl_commit s))) = enabled (binlogs s)"
  by (auto simp: log_at_def tx_log_def bl_commit_def bl_rollback_def ldb_Write_def Let_def db_map_def map_of_apply_batch fun_eq_iff)

lemma set_log:
  assumes "io_ok s" and "enabled (binlogs s)" and "k \<noteq> []"
  shows "log_at (fst (ssdb_set k v lt s)) = (log_at s)(last_seq (binlogs s) + 1 \<mapsto>
      Binlog_make (last_seq (binlogs s) + 1) lt (binlog_cmd_char BC_KSET) (encode_kv_key k))"
    and "last_seq (binlogs (fst (ssdb_set k v lt s))) = last_seq (binlogs s) + 1"
  using assms by (simp_all add: ssdb_set_def io_ok_def Let_def store_simps log_simps)

lemma incr_qsize_log [log_simps]:
  "tx_log (fst (incr_qsize n i s)) = tx_log s" "tran_seq (binlogs (fst (incr_qsize n i s))) = tran_seq (binlogs s)"
  "enabled (binlogs (fst (incr_qsize n i s))) = enabled (binlogs s)"
  by (simp_all add: incr_qsize_def Let_def qdel_one_def log_simps)

lemma qpush_log:
  assumes "io_ok s" and "enabled (binlogs s)" and "qsize n s = int k" and "k + 1 < 2 ^ 63" and "qget_uint64 n e s = (ret, sq)" and "ret \<noteq> -1"
    and "\<not> q_next e ret sq \<le> QITEM_MIN_SEQ" and "\<not> QITEM_MAX_SEQ \<le> q_next e ret sq"
  shows "log_at (fst (qpush n x e lt s)) = (log_at s)(last_seq (binlogs s) + 1 \<mapsto> Binlog_make (last_seq (binlogs s) + 1) lt
      (binlog_cmd_char (if e = QFRONT_SEQ then BC_QPUSH_FRONT else BC_QPUSH_BACK)) (encode_qitem_key n (q_next e ret sq)))"
    and "last_seq (binlogs (fst (qpush n x e lt s))) = last_seq (binlogs s) + 1" and "enabled (binlogs (fst (qpush n x e lt s)))"
proof -
  have w: "wrap64 (int k + 1) = int k + 1" using assms(4) by (simp add: in_int64_def)
  have io: "kv_sorted (entries (ldb s))" "\<not> wr_fail (ldb s)" using assms(1) by (auto simp: io_ok_def)
  note defs = qpush_def qpush_ends_def qpush_item_def q_next_def qset_one_def Let_def case_prod_beta store_simps log_simps
  show "log_at (fst (qpush n x e lt s)) = (log_at s)(last_seq (binlogs s) + 1 \<mapsto> Binlog_make (last_seq (binlogs s) + 1) lt
      (binlog_cmd_char (if e = QFRONT_SEQ then BC_QPUSH_FRONT else BC_QPUSH_BACK)) (encode_qitem_key n (q_next e ret sq)))"
    using assms(2,3,5-) io w by (auto simp: defs split: if_splits)
  show "last_seq (binlogs (fst (qpush n x e lt s))) = last_seq (binlogs s) + 1"
    using assms(2,3,5-) io w by (auto simp: defs split: if_splits)
  show "enabled (binlogs (fst (qpush n x e lt s)))"
    using assms(2,3,5-) io w by (auto simp: defs split: if_splits)
qed

lemma qpop_log:
  assumes "io_ok s" and "enabled (binlogs s)" and "qsize n s = int (Suc k)" and "Suc k < 2 ^ 63" and "qget_uint64 n e s = (1, sq)"
    and "qget_by_seq n sq s = Found x"
  shows "log_at (fst (qpop n e lt s)) = (log_at s)(last_seq (binlogs s) + 1 \<mapsto> Binlog_make (last_seq (binlogs s) + 1) lt
      (binlog_cmd_char (if e = QFRONT_SEQ then BC_QPOP_FRONT else BC_QPOP_BACK)) n)"
    and "last_seq (binlogs (fst (qpop n e lt s))) = last_seq (binlogs s) + 1"
proof -
  have w: "wrap64 (int (Suc k) + -1) = int k" using assms(4) by (simp add: in_int64_def)
  have io: "kv_sorted (entries (ldb s))" "\<not> wr_fail (ldb s)" using assms(1) by (auto simp: io_ok_def)
  note defs = qpop_def qset_one_def qdel_one_def Let_def case_prod_beta store_simps log_simps
  show "log_at (fst (qpop n e lt s)) = (log_at s)(last_seq (binlogs s) + 1 \<mapsto> Binlog_make (last_seq (binlogs s) + 1) lt
      (binlog_cmd_char (if e = QFRONT_SEQ then BC_QPOP_FRONT else BC_QPOP_BACK)) n)"
    using assms(2,3,5-) io w by (auto simp: defs split: if_splits)
  show "last_seq (binlogs (fst (qpop n e lt s))) = last_seq (binlogs s) + 1"
    using assms(2,3,5-) io w by (auto simp: defs split: if_splits)
qed

end
