(* ===== verification/RedisLink.thy ===== *)
theory RedisLink
  imports Bytes "HOL-Library.Signed_Division"
begin

section \<open>The redis protocol (\<open>net/link_redis.cpp\<close>)\<close>

text \<open>
  A request in the redis format is parsed, translated to a command of the server, and the response is
  written in the form the redis command promises. A buffer may refuse to grow at any append; the code
  ignores that and goes on with the next append, and so does the model.
\<close>

subsection \<open>Appending to a buffer that may be full\<close>

function Buffer_grown :: "(nat \<Rightarrow> bool) \<Rightarrow> int \<Rightarrow> buffer \<Rightarrow> buffer" where
  "Buffer_grown alloc sz b =
     (if sz > Buffer_space b
      then (case Buffer_grow alloc b of None \<Rightarrow> b | Some b' \<Rightarrow> Buffer_grown alloc sz b')
      else b)"
  by pat_completeness auto
termination
  by (relation "measure (\<lambda>(alloc, sz, b). 2 ^ 31 - btotal b)")
     (auto simp: Buffer_grow_def Let_def split: if_splits)

declare Buffer_grown.simps [simp del]

text \<open>One append whose result is not looked at: the bytes, for which the code reserves \<open>sz\<close>.\<close>

definition Buffer_put_sized :: "(nat \<Rightarrow> bool) \<Rightarrow> int \<Rightarrow> bytes \<Rightarrow> buffer \<Rightarrow> buffer" where
  "Buffer_put_sized alloc sz bs b =
     (let b = Buffer_grown alloc sz b in if sz > Buffer_space b then b else Buffer_write bs b)"

definition Buffer_put :: "(nat \<Rightarrow> bool) \<Rightarrow> bytes \<Rightarrow> buffer \<Rightarrow> buffer" where
  "Buffer_put alloc bs b = Buffer_put_sized alloc (wrap32 (int (length bs))) bs b"

lemma Buffer_reserve_grown:
  "Buffer_reserve alloc n b =
     (let b' = Buffer_grown alloc n b in if n > Buffer_space b' then None else Some b')"
proof (induction alloc n b rule: Buffer_reserve.induct)
  case (1 alloc n b)
  then show ?case
    by (auto simp: Buffer_reserve.simps [of alloc n b] Buffer_grown.simps [of alloc n b] Let_def split: option.split)
qed

subsection \<open>Commands\<close>

datatype REPLY = REPLY_BULK | REPLY_MULTI_BULK | REPLY_INT | REPLY_STATUS

datatype STRATEGY = STRATEGY_AUTO | STRATEGY_PING | STRATEGY_MGET | STRATEGY_HMGET | STRATEGY_HGETALL | STRATEGY_HKEYS
  | STRATEGY_HVALS | STRATEGY_SETEX | STRATEGY_ZRANGE | STRATEGY_ZREVRANGE | STRATEGY_ZRANGEBYSCORE
  | STRATEGY_ZREVRANGEBYSCORE | STRATEGY_ZADD | STRATEGY_ZINCRBY | STRATEGY_REMRANGEBYRANK | STRATEGY_REMRANGEBYSCORE
  | STRATEGY_NULL

record RedisRequestDesc =
  strategy :: STRATEGY
  redis_cmd :: bytes
  ssdb_cmd :: bytes
  reply_type :: REPLY

definition raw_cmd :: "STRATEGY \<Rightarrow> bytes \<Rightarrow> bytes \<Rightarrow> REPLY \<Rightarrow> bytes \<times> RedisRequestDesc" where
  "raw_cmd st rc sc rt = (rc, \<lparr>strategy = st, redis_cmd = rc, ssdb_cmd = sc, reply_type = rt\<rparr>)"

definition cmds_raw :: "(bytes \<times> RedisRequestDesc) list" where
  "cmds_raw = [
     raw_cmd STRATEGY_PING ''ping'' ''ping'' REPLY_STATUS,
     raw_cmd STRATEGY_AUTO ''get'' ''get'' REPLY_BULK,
     raw_cmd STRATEGY_AUTO ''getset'' ''getset'' REPLY_BULK,
     raw_cmd STRATEGY_AUTO ''set'' ''set'' REPLY_STATUS,
     raw_cmd STRATEGY_AUTO ''setnx'' ''setnx'' REPLY_INT,
     raw_cmd STRATEGY_AUTO ''exists'' ''exists'' REPLY_INT,
     raw_cmd STRATEGY_AUTO ''incr'' ''incr'' REPLY_INT,
     raw_cmd STRATEGY_AUTO ''decr'' ''decr'' REPLY_INT,
     raw_cmd STRATEGY_AUTO ''ttl'' ''ttl'' REPLY_INT,
     raw_cmd STRATEGY_AUTO ''expire'' ''expire'' REPLY_INT,
     raw_cmd STRATEGY_AUTO ''getbit'' ''getbit'' REPLY_INT,
     raw_cmd STRATEGY_AUTO ''setbit'' ''setbit'' REPLY_INT,
     raw_cmd STRATEGY_AUTO ''strlen'' ''strlen'' REPLY_INT,
     raw_cmd STRATEGY_AUTO ''bitcount'' ''bitcount'' REPLY_INT,
     raw_cmd STRATEGY_AUTO ''substr'' ''getrange'' REPLY_BULK,
     raw_cmd STRATEGY_AUTO ''getrange'' ''getrange'' REPLY_BULK,
     raw_cmd STRATEGY_AUTO ''keys'' ''keys'' REPLY_MULTI_BULK,
     raw_cmd STRATEGY_AUTO ''hset'' ''hset'' REPLY_INT,
     raw_cmd STRATEGY_AUTO ''hget'' ''hget'' REPLY_BULK,
     raw_cmd STRATEGY_AUTO ''hexists'' ''hexists'' REPLY_INT,
     raw_cmd STRATEGY_AUTO ''del'' ''multi_del'' REPLY_INT,
     raw_cmd STRATEGY_AUTO ''mset'' ''multi_set'' REPLY_STATUS,
     raw_cmd STRATEGY_AUTO ''incrby'' ''incr'' REPLY_INT,
     raw_cmd STRATEGY_AUTO ''decrby'' ''decr'' REPLY_INT,
     raw_cmd STRATEGY_AUTO ''hmset'' ''multi_hset'' REPLY_STATUS,
     raw_cmd STRATEGY_AUTO ''hdel'' ''multi_hdel'' REPLY_INT,
     raw_cmd STRATEGY_AUTO ''hmdel'' ''multi_hdel'' REPLY_INT,
     raw_cmd STRATEGY_AUTO ''hlen'' ''hsize'' REPLY_INT,
     raw_cmd STRATEGY_AUTO ''hincrby'' ''hincr'' REPLY_INT,
     raw_cmd STRATEGY_AUTO ''zcard'' ''zsize'' REPLY_INT,
     raw_cmd STRATEGY_AUTO ''zscore'' ''zget'' REPLY_BULK,
     raw_cmd STRATEGY_AUTO ''zrem'' ''multi_zdel'' REPLY_INT,
     raw_cmd STRATEGY_AUTO ''zrank'' ''zrank'' REPLY_INT,
     raw_cmd STRATEGY_AUTO ''zrevrank'' ''zrrank'' REPLY_INT,
     raw_cmd STRATEGY_AUTO ''zcount'' ''zcount'' REPLY_INT,
     raw_cmd STRATEGY_REMRANGEBYRANK ''zremrangebyrank'' ''zremrangebyrank'' REPLY_INT,
     raw_cmd STRATEGY_REMRANGEBYSCORE ''zremrangebyscore'' ''zremrangebyscore'' REPLY_INT,
     raw_cmd STRATEGY_MGET ''mget'' ''multi_get'' REPLY_MULTI_BULK,
     raw_cmd STRATEGY_HMGET ''hmget'' ''multi_hget'' REPLY_MULTI_BULK,
     raw_cmd STRATEGY_HGETALL ''hgetall'' ''hgetall'' REPLY_MULTI_BULK,
     raw_cmd STRATEGY_HKEYS ''hkeys'' ''hkeys'' REPLY_MULTI_BULK,
     raw_cmd STRATEGY_HVALS ''hvals'' ''hvals'' REPLY_MULTI_BULK,
     raw_cmd STRATEGY_SETEX ''setex'' ''setx'' REPLY_STATUS,
     raw_cmd STRATEGY_ZRANGE ''zrange'' ''zrange'' REPLY_MULTI_BULK,
     raw_cmd STRATEGY_ZREVRANGE ''zrevrange'' ''zrrange'' REPLY_MULTI_BULK,
     raw_cmd STRATEGY_ZADD ''zadd'' ''multi_zset'' REPLY_INT,
     raw_cmd STRATEGY_ZINCRBY ''zincrby'' ''zincr'' REPLY_BULK,
     raw_cmd STRATEGY_ZRANGEBYSCORE ''zrangebyscore'' ''zscan'' REPLY_MULTI_BULK,
     raw_cmd STRATEGY_ZREVRANGEBYSCORE ''zrevrangebyscore'' ''zrscan'' REPLY_MULTI_BULK,
     raw_cmd STRATEGY_AUTO ''lpush'' ''qpush_front'' REPLY_INT,
     raw_cmd STRATEGY_AUTO ''rpush'' ''qpush_back'' REPLY_INT,
     raw_cmd STRATEGY_AUTO ''lpop'' ''qpop_front'' REPLY_BULK,
     raw_cmd STRATEGY_AUTO ''rpop'' ''qpop_back'' REPLY_BULK,
     raw_cmd STRATEGY_AUTO ''llen'' ''qsize'' REPLY_INT,
     raw_cmd STRATEGY_AUTO ''lsize'' ''qsize'' REPLY_INT,
     raw_cmd STRATEGY_AUTO ''lindex'' ''qget'' REPLY_BULK,
     raw_cmd STRATEGY_AUTO ''lset'' ''qset'' REPLY_STATUS,
     raw_cmd STRATEGY_AUTO ''lrange'' ''qslice'' REPLY_MULTI_BULK]"

text \<open>The table is filled in order, a later entry replacing an earlier one of the same name.\<close>

definition cmd_table :: "bytes \<rightharpoonup> RedisRequestDesc" where
  "cmd_table = map_of (rev cmds_raw)"

record redis_link =
  cmd :: bytes
  req_desc :: "RedisRequestDesc option"
  recv_bytes :: "bytes list"
  recv_string :: "bytes list"

definition RedisLink_new :: redis_link where
  "RedisLink_new = \<lparr>cmd = [], req_desc = None, recv_bytes = [], recv_string = []\<rparr>"

subsection \<open>Translating a request\<close>

text \<open>
  \<open>dbl\<close> is \<open>(int64_t)Bytes::Double()\<close>, a conversion through floating point that the model leaves open.
  \<open>errno\<close> is passed in and out, since \<open>parse_req\<close> looks at what an earlier conversion left in it.
\<close>

fun zadd_args :: "(bytes \<Rightarrow> int) \<Rightarrow> bytes list \<Rightarrow> bytes list" where
  "zadd_args dbl (score # member # r) = member # str_int64 (dbl score) # zadd_args dbl r"
| "zadd_args dbl _ = []"

text \<open>The options after the scores of \<open>zrangebyscore\<close>: offset, count and \<open>withscores\<close>.\<close>

fun range_options :: "bytes list \<Rightarrow> bool \<Rightarrow> bytes \<Rightarrow> bytes \<Rightarrow> bytes \<Rightarrow> bytes \<times> bytes \<times> bytes" where
  "range_options [] after_limit offset count withscores = (offset, count, withscores)"
| "range_options (s # r) after_limit offset count withscores =
     (let (offset, count, after_limit) =
            (if after_limit then (if offset = [] then (s, count, True) else (offset, s, False))
             else (offset, count, False));
          s = strtolower s
      in if s = ''withscores'' then range_options r after_limit offset count s
         else if s = ''limit'' then range_options r True offset count withscores
         else range_options r after_limit offset count withscores)"

text \<open>A bound of \<open>zrangebyscore\<close>; \<open>step\<close> is what an open bound adds.\<close>

definition range_bound :: "int \<Rightarrow> bytes \<Rightarrow> nat \<Rightarrow> bytes \<times> nat" where
  "range_bound step s en =
     (if s = ''-inf'' \<or> s = ''+inf'' then ([], en)
      else if hd s = CHR ''('' then
        (let (v, en) = str_to_int en (tl s) in (decimal_int (wrap32 (v + step)), en))
      else (s, en))"

definition range_by_score :: "RedisRequestDesc \<Rightarrow> bytes list \<Rightarrow> nat \<Rightarrow> bytes list \<times> nat" where
  "range_by_score d args en =
     (let (name, smin, smax, (offset, count, withscores)) =
            (if length args \<ge> 4
             then (args ! 1, args ! 2, args ! 3, range_options (drop 4 args) False [] [] [])
             else ([], [], [], ([], [], [])))
      in if smin = [] \<or> smax = [] then ([ssdb_cmd d], en)
         else let up = (if strategy d = STRATEGY_ZRANGEBYSCORE then 1 else -1);
                  (a, en) = range_bound up smin en;
                  (b, en) = range_bound (- up) smax en
              in ([ssdb_cmd d, name, [], a, b,
                   if offset = [] then ''0'' else offset,
                   if count = [] then ''2000000000'' else count,
                   withscores], en))"

definition zrange_args :: "RedisRequestDesc \<Rightarrow> bytes list \<Rightarrow> nat \<Rightarrow> bytes list \<times> nat" where
  "zrange_args d args en =
     (let (a, en) =
        (if length args \<ge> 4
         then let (start, en) = str_to_int64 en (args ! 2);
                  (end, en) = str_to_int64 en (args ! 3)
              in (if (start \<ge> 0 \<and> end \<ge> 0) \<or> end = -1
                  then let size = (if end = -1 then -1
                                   else if strategy d = STRATEGY_REMRANGEBYSCORE then end
                                   else wrap64 (wrap64 (end - start) + 1))
                       in [args ! 1, args ! 2, str_int64 size]
                  else [], en)
         else ([], en))
      in (ssdb_cmd d # a @ (if length args > 4 then [strtolower (args ! 4)] else []), en))"

definition convert_args :: "(bytes \<Rightarrow> int) \<Rightarrow> RedisRequestDesc \<Rightarrow> bytes list \<Rightarrow> nat \<Rightarrow> bytes list \<times> nat" where
  "convert_args dbl d args en =
     (let n = length args; c = ssdb_cmd d; st = strategy d
      in if st = STRATEGY_HKEYS \<or> st = STRATEGY_HVALS
         then (c # (if n = 2 then [args ! 1, [], [], ''2000000000''] else []), en)
         else if st = STRATEGY_SETEX
         then (c # (if n = 4 then [args ! 1, args ! 3, args ! 2] else []), en)
         else if st = STRATEGY_ZADD
         then (c # (if n \<ge> 2 then args ! 1 # zadd_args dbl (drop 2 args) else []), en)
         else if st = STRATEGY_ZINCRBY
         then (c # (if n = 4 then [args ! 1, args ! 3, args ! 2] else []), en)
         else if st = STRATEGY_REMRANGEBYRANK \<or> st = STRATEGY_REMRANGEBYSCORE
         then (c # (if n \<ge> 4 then [args ! 1, args ! 2, args ! 3] else []), en)
         else if st = STRATEGY_ZRANGE \<or> st = STRATEGY_ZREVRANGE then zrange_args d args en
         else if st = STRATEGY_ZRANGEBYSCORE \<or> st = STRATEGY_ZREVRANGEBYSCORE then range_by_score d args en
         else (c # tl args, en))"

definition convert_req :: "(bytes \<Rightarrow> int) \<Rightarrow> nat \<Rightarrow> redis_link \<Rightarrow> redis_link \<times> nat" where
  "convert_req dbl en r =
     (case cmd_table (cmd r) of
        None \<Rightarrow> (r\<lparr>req_desc := None, recv_string := recv_string r @ cmd r # tl (recv_bytes r)\<rparr>, en)
      | Some d \<Rightarrow>
          (let (args, en) = convert_args dbl d (recv_bytes r) en
           in (r\<lparr>req_desc := Some d, recv_string := recv_string r @ args\<rparr>, en)))"

subsection \<open>Parsing a request\<close>

text \<open>
  \<open>m\<close> is the memory from \<open>ptr\<close> to the end of the buffer, of which the first \<open>sz\<close> bytes are data:
  \<open>strtol\<close> skips white space and may look past the line, and past the data. It leaves \<open>errno\<close> alone unless the
  number is out of range. It stops at the first byte that is no part of the number; when there is none up to the end
  of the allocated block, it reads outside of it, and the result is \<open>P_oob\<close>.
\<close>

datatype parse_status = P_error | P_more | P_oob | P_done nat "bytes list"

definition strtol_end :: "bytes \<Rightarrow> bytes" where
  "strtol_end s = dropWhile isdigit (snd (strto_sign (dropWhile isspace s)))"

function parse_loop :: "nat \<Rightarrow> bytes \<Rightarrow> nat \<Rightarrow> nat \<Rightarrow> int \<Rightarrow> bytes list \<Rightarrow> parse_status \<times> nat" where
  "parse_loop en m sz parsed num_args acc =
     (if sz = 0 \<or> CHR 0x0A \<notin> set (take sz m) then (P_more, en)
      else if strtol_end (drop 1 m) = [] then (P_oob, en)
      else
        let line = length (takeWhile (\<lambda>c. c \<noteq> CHR 0x0A) m) + 1;
            num = strtoll (drop 1 m);
            en' = (if fst (snd num) then ERANGE else en);
            len = wrap32 (fst num);
            m1 = drop line m; sz1 = sz - line; parsed1 = parsed + line
        in if en' = EINVAL then (P_error, en')
           else if len < 0 then (P_error, en')
           else if num_args = 0
           then (if len \<le> 0 then (P_error, en') else parse_loop en' m1 sz1 parsed1 len acc)
           else if len > int sz1 - 1 then (P_more, en')
           else
             let n = nat len; acc' = acc @ [take n m1];
                 m2 = drop (n + 1) m1; sz2 = sz1 - (n + 1); parsed2 = parsed1 + n + 1;
                 lf = (if sz2 > 0 \<and> hd m2 = CHR 0x0A then 1 else 0)
             in if num_args - 1 = 0 then (P_done (parsed2 + lf) acc', en')
                else parse_loop en' (drop lf m2) (sz2 - lf) (parsed2 + lf) (num_args - 1) acc')"
  by pat_completeness auto
termination
  by (relation "measure (\<lambda>(en, m, sz, parsed, num_args, acc). sz)") simp_all

declare parse_loop.simps [simp del]

text \<open>
  Leading empty lines. The first byte after them is read even when it is no data any more; past the end of
  the allocated block it has no value and \<open>Out_of_bounds\<close> is the result.
\<close>

fun skip_lines :: "nat \<Rightarrow> bytes \<Rightarrow> nat" where
  "skip_lines (Suc n) (c # m) = (if c = CHR 0x0A \<or> c = CHR 0x0D then Suc (skip_lines n m) else 0)"
| "skip_lines _ _ = 0"

datatype recv_result = Recv_null | Recv_oob | Recv "bytes list"

definition parse_req :: "nat \<Rightarrow> buffer \<Rightarrow> redis_link \<Rightarrow> (buffer \<times> redis_link \<times> nat \<times> recv_result)" where
  "parse_req en b r =
     (let m = drop (data_off b) (buf b); k = skip_lines (bsize b) m;
          sz = bsize b - k; m = drop k m; r = r\<lparr>recv_bytes := []\<rparr>
      in if m = [] then (b, r, en, Recv_oob)
         else if hd m \<noteq> CHR ''*'' then (b, r, en, Recv_null)
         else case parse_loop en m sz k 0 [] of
                (P_error, en) \<Rightarrow> (b, r, en, Recv_null)
              | (P_oob, en) \<Rightarrow> (b, r, en, Recv_oob)
              | (P_more, en) \<Rightarrow> (b, r, en, Recv [])
              | (P_done parsed args, en) \<Rightarrow> (Buffer_decr parsed b, r\<lparr>recv_bytes := args\<rparr>, en, Recv args))"

text \<open>More room for input, when there is none: the end of both \<open>recv\<close> functions.\<close>

definition make_room :: "(nat \<Rightarrow> bool) \<Rightarrow> buffer \<Rightarrow> buffer \<times> bool" where
  "make_room alloc b =
     (if Buffer_space b = 0
      then let b = Buffer_nice b
           in if Buffer_space b = 0
              then (case Buffer_grow alloc b of None \<Rightarrow> (b, False) | Some b' \<Rightarrow> (b', True))
              else (b, True)
      else (b, True))"

definition recv_req :: "(nat \<Rightarrow> bool) \<Rightarrow> (bytes \<Rightarrow> int) \<Rightarrow> nat \<Rightarrow> buffer \<Rightarrow> redis_link \<Rightarrow> buffer \<times> redis_link \<times> nat \<times> recv_result" where
  "recv_req alloc dbl en b r =
     (case parse_req en b r of
        (b, r, en, Recv []) \<Rightarrow>
          (let (b, ok) = make_room alloc b in (b, r, en, if ok then Recv [] else Recv_null))
      | (b, r, en, Recv (c # args)) \<Rightarrow>
          (let r = r\<lparr>cmd := strtolower c, recv_string := []\<rparr>;
               (r, en) = convert_req dbl en r;
               r = r\<lparr>recv_bytes := recv_string r\<rparr>
           in (b, r, en, Recv (recv_bytes r)))
      | res \<Rightarrow> res)"

subsection \<open>Writing a response\<close>

definition CRLF :: bytes where "CRLF = [CHR 0x0D, CHR 0x0A]"

definition bulk :: "bytes \<Rightarrow> bytes list" where
  "bulk val = [CHR ''$'' # decimal_int (wrap32 (int (length val))) @ CRLF, val, CRLF]"

definition multi_head :: "int \<Rightarrow> bytes" where
  "multi_head n = CHR ''*'' # decimal_int n @ CRLF"

text \<open>The loop over the requested keys of \<open>mget\<close> and \<open>hmget\<close>, beside the pairs of the response.\<close>

fun mget_bulks :: "bytes list \<Rightarrow> bytes list \<Rightarrow> bytes list" where
  "mget_bulks [] resp = []"
| "mget_bulks (k # ks) [] = (''$-1'' @ CRLF) # mget_bulks ks []"
| "mget_bulks (k # ks) (k' # resp) =
     (if k \<noteq> k' then (''$-1'' @ CRLF) # mget_bulks ks (k' # resp)
      else bulk (hd resp) @ mget_bulks ks (tl resp))"

fun every_second :: "bytes list \<Rightarrow> bytes list" where
  "every_second (x # y # r) = x # every_second r"
| "every_second r = r"

definition with_scores :: "RedisRequestDesc \<Rightarrow> bytes list \<Rightarrow> bool" where
  "with_scores d args =
     (\<not> ((strategy d = STRATEGY_ZRANGE \<or> strategy d = STRATEGY_ZREVRANGE) \<and> (length args < 5 \<or> args ! 4 \<noteq> ''withscores'')) \<and>
      \<not> ((strategy d = STRATEGY_ZRANGEBYSCORE \<or> strategy d = STRATEGY_ZREVRANGEBYSCORE) \<and> last args \<noteq> ''withscores''))"

text \<open>The appends of an \<open>ok\<close> response to a known command, in order.\<close>

definition desc_reply :: "RedisRequestDesc \<Rightarrow> bytes list \<Rightarrow> bytes list \<Rightarrow> bytes list" where
  "desc_reply d args resp =
     (let n = length resp
      in if strategy d = STRATEGY_PING then [''+PONG'' @ CRLF]
         else if reply_type d = REPLY_STATUS then [''+OK'' @ CRLF]
         else if reply_type d = REPLY_BULK then (if n \<ge> 2 then bulk (resp ! 1) else [''$0'' @ CRLF])
         else if reply_type d = REPLY_INT then (if n \<ge> 2 then ['':'', resp ! 1, CRLF] else [''$0'' @ CRLF])
         else if strategy d = STRATEGY_MGET \<or> strategy d = STRATEGY_HMGET then
           (if n mod 2 \<noteq> 1 then [''*0'']
            else let k = (if strategy d = STRATEGY_MGET then 1 else 2)
                 in multi_head (int (length args) - int k) # mget_bulks (drop k args) (tl resp))
         else if with_scores d args then multi_head (int n - 1) # concat (map bulk (tl resp))
         else multi_head ((int n - 1) sdiv 2) # concat (map bulk (every_second (tl resp))))"

definition redis_reply :: "redis_link \<Rightarrow> bytes list \<Rightarrow> bytes list" where
  "redis_reply r resp =
     (if resp = [] then []
      else let st = hd resp; msg = (if length resp \<ge> 2 then [resp ! 1] else [])
      in if st \<noteq> ''ok'' then
           (if st = ''error'' \<or> st = ''fail'' \<or> st = ''client_error'' then [''-ERR ''] @ msg @ [CRLF]
            else if st = ''not_found'' then [''$-1'' @ CRLF]
            else if st = ''noauth'' then [''-NOAUTH ''] @ msg @ [CRLF]
            else [''-ERR server error'' @ CRLF])
         else case req_desc r of
                None \<Rightarrow> multi_head (int (length resp) - 1) # concat (map bulk (tl resp))
              | Some d \<Rightarrow> desc_reply d (recv_string r) resp)"

definition send_resp :: "(nat \<Rightarrow> bool) \<Rightarrow> buffer \<Rightarrow> redis_link \<Rightarrow> bytes list \<Rightarrow> buffer" where
  "send_resp alloc out r resp = fold (Buffer_put alloc) (redis_reply r resp) out"

subsection \<open>Requests are read as they were sent\<close>

definition redis_arg :: "bytes \<Rightarrow> bytes" where
  "redis_arg a = CHR ''$'' # decimal (length a) @ CRLF @ a @ CRLF"

definition redis_image :: "bytes list \<Rightarrow> bytes" where
  "redis_image args = CHR ''*'' # decimal (length args) @ CRLF @ concat (map redis_arg args)"

lemma strtoll_decimal_CRLF:
  assumes "n < 2 ^ 31"
  shows "strtoll (decimal n @ CRLF @ r) = (int n, False, CRLF @ r)"
proof -
  obtain d ds where d: "decimal n = d # ds" "isdigit d" by (rule decimal_Cons)
  have dig: "list_all isdigit (decimal n)" using decimal_digits by (simp add: list_all_iff)
  have "\<not> isspace d" "d \<noteq> CHR ''-''" "d \<noteq> CHR ''+''" using d(2) by (auto simp: isdigit_def isspace_def)
  then have sg: "strto_sign (dropWhile isspace (decimal n @ CRLF @ r)) = (False, decimal n @ CRLF @ r)"
    by (simp add: d(1) strto_sign_def)
  have nd: "\<not> isdigit (CHR 0x0D)" by (simp add: isdigit_def)
  have tw: "takeWhile isdigit (decimal n @ CRLF @ r) = decimal n" "dropWhile isdigit (decimal n @ CRLF @ r) = CRLF @ r"
    using dig nd by (auto simp: CRLF_def list_all_iff takeWhile_append2 dropWhile_append2)
  have "strto_scan (decimal n @ CRLF @ r) = (False, n, CRLF @ r)"
    unfolding strto_scan_def sg prod.case Let_def tw by simp
  then show ?thesis using assms by (simp add: strtoll_def INT64_MAX_def INT64_MIN_def)
qed

lemma CRLF_not_Nil [simp]: "CRLF @ r \<noteq> []" "CRLF \<noteq> []"
  by (simp_all add: CRLF_def)

lemma strtol_end_decimal: "strtol_end (decimal n @ CRLF @ r) = CRLF @ r"
proof -
  obtain d ds where d: "decimal n = d # ds" "isdigit d" by (rule decimal_Cons)
  have dig: "list_all isdigit (decimal n)" using decimal_digits by (simp add: list_all_iff)
  have "\<not> isspace d" "d \<noteq> CHR ''-''" "d \<noteq> CHR ''+''" using d(2) by (auto simp: isdigit_def isspace_def)
  then have sg: "strto_sign (dropWhile isspace (decimal n @ CRLF @ r)) = (False, decimal n @ CRLF @ r)"
    by (simp add: d(1) strto_sign_def)
  have "\<not> isdigit (CHR 0x0D)" by (simp add: isdigit_def)
  then show ?thesis unfolding strtol_end_def sg
    using dig by (auto simp: CRLF_def list_all_iff dropWhile_append2)
qed

lemma line_length:
  "c \<noteq> CHR 0x0A \<Longrightarrow> length (takeWhile (\<lambda>c. c \<noteq> CHR 0x0A) (c # decimal n @ CRLF @ r)) = length (decimal n) + 2"
  using decimal_digits [of _ n] digit_not_newline by (auto simp: CRLF_def takeWhile_append2)

text \<open>One line of a length, and what the loop does with it.\<close>

lemma parse_line:
  assumes "c \<noteq> CHR 0x0A" and "n < 2 ^ 31" and "en \<noteq> EINVAL" and "length (decimal n) + 3 \<le> sz"
  shows "parse_loop en (c # decimal n @ CRLF @ r) sz parsed num_args acc =
    (let sz1 = sz - (length (decimal n) + 3); parsed1 = parsed + (length (decimal n) + 3)
     in if num_args = 0 then (if n = 0 then (P_error, en) else parse_loop en r sz1 parsed1 (int n) acc)
        else if int n > int sz1 - 1 then (P_more, en)
        else let r2 = drop (n + 1) r; sz2 = sz1 - (n + 1); parsed2 = parsed1 + n + 1;
                 lf = (if sz2 > 0 \<and> hd r2 = CHR 0x0A then 1 else 0)
             in if num_args - 1 = 0 then (P_done (parsed2 + lf) (acc @ [take n r]), en)
                else parse_loop en (drop lf r2) (sz2 - lf) (parsed2 + lf) (num_args - 1) (acc @ [take n r]))"
proof -
  let ?m = "c # decimal n @ CRLF @ r"
  have lf: "CHR 0x0A \<in> set (take sz ?m)"
  proof -
    have "?m = (c # decimal n @ CRLF) @ r" by simp
    moreover have "take sz ((c # decimal n @ CRLF) @ r) = (c # decimal n @ CRLF) @ take (sz - (length (decimal n) + 3)) r"
      using assms(4) by (simp only: take_append take_all_iff) (simp add: CRLF_def numeral_3_eq_3)
    ultimately show ?thesis by (simp add: CRLF_def)
  qed
  have dr: "drop (length (decimal n) + 3) ?m = r" by (simp add: CRLF_def numeral_3_eq_3)
  have w: "wrap32 (int n) = int n" using assms(2) by (simp add: in_int32_def)
  show ?thesis
    using lf assms(3,4) strtoll_decimal_CRLF [OF assms(2), of r] strtol_end_decimal [of n r] line_length [OF assms(1), of n r] dr w
    by (simp add: parse_loop.simps [of en ?m] Let_def numeral_3_eq_3)
qed

lemma parse_args:
  assumes "\<forall>a \<in> set args. length a < 2 ^ 31" and "en \<noteq> EINVAL" and "args \<noteq> []"
    and "length (concat (map redis_arg args)) \<le> sz"
  shows "parse_loop en (concat (map redis_arg args) @ r) sz parsed (int (length args)) acc =
    (P_done (parsed + length (concat (map redis_arg args))) (acc @ args), en)"
  using assms
proof (induction args arbitrary: sz parsed acc)
  case (Cons a args)
  let ?n = "length (decimal (length a)) + 3"
  let ?more = "concat (map redis_arg args) @ r"
  have len: "length (redis_arg a) = ?n + length a + 2" by (simp add: redis_arg_def CRLF_def)
  have sz: "?n + length a + 2 + length (concat (map redis_arg args)) \<le> sz" using Cons.prems(4) by (simp add: len)
  have m: "concat (map redis_arg (a # args)) @ r = CHR ''$'' # decimal (length a) @ CRLF @ (a @ CRLF @ ?more)"
    by (simp add: redis_arg_def)
  have d: "drop (length a + 1) (a @ CRLF @ ?more) = CHR 0x0A # ?more" "take (length a) (a @ CRLF @ ?more) = a"
    by (simp_all add: CRLF_def)
  have p: "parse_loop en (concat (map redis_arg (a # args)) @ r) sz parsed (int (length (a # args))) acc =
      (if args = [] then (P_done (parsed + ?n + length a + 2) (acc @ [a]), en)
       else parse_loop en ?more (sz - ?n - length a - 2) (parsed + ?n + length a + 2) (int (length args)) (acc @ [a]))"
    unfolding m using Cons.prems(1,2) sz d
    by (subst parse_line) (auto simp: Let_def add.assoc)
  show ?case
  proof (cases "args = []")
    case True
    then show ?thesis unfolding p by (simp add: len)
  next
    case False
    have "length (concat (map redis_arg args)) \<le> sz - ?n - length a - 2" using sz by simp
    from Cons.IH [OF _ Cons.prems(2) False this] Cons.prems(1) False show ?thesis
      unfolding p by (simp add: len add.assoc)
  qed
qed simp

lemma parse_image:
  assumes "\<forall>a \<in> set args. length a < 2 ^ 31" and "length args < 2 ^ 31" and "en \<noteq> EINVAL" and "args \<noteq> []"
    and "length (redis_image args) \<le> sz"
  shows "parse_loop en (redis_image args @ r) sz parsed 0 [] = (P_done (parsed + length (redis_image args)) args, en)"
proof -
  let ?n = "length (decimal (length args)) + 3" and ?c = "concat (map redis_arg args)"
  have len: "length (redis_image args) = ?n + length ?c" by (simp add: redis_image_def CRLF_def)
  have "parse_loop en (redis_image args @ r) sz parsed 0 [] = parse_loop en (?c @ r) (sz - ?n) (parsed + ?n) (int (length args)) []"
    unfolding redis_image_def append_Cons append_assoc using assms(2-5) len
    by (subst parse_line) (auto simp: Let_def)
  also have "\<dots> = (P_done (parsed + ?n + length ?c) args, en)"
    using parse_args [OF assms(1,3,4), of "sz - ?n"] assms(5) len by simp
  finally show ?thesis by (simp add: len)
qed

lemma skip_lines_none: "c \<noteq> CHR 0x0A \<Longrightarrow> c \<noteq> CHR 0x0D \<Longrightarrow> skip_lines n (c # m) = 0"
  by (cases n) simp_all

lemma parse_req_image:
  assumes "buffer_inv b" and "Buffer_data b = redis_image args @ rest"
    and "\<forall>a \<in> set args. length a < 2 ^ 31" and "length args < 2 ^ 31" and "en \<noteq> EINVAL" and "args \<noteq> []"
  shows "parse_req en b r = (Buffer_decr (length (redis_image args)) b, r\<lparr>recv_bytes := args\<rparr>, en, Recv args)"
    and "Buffer_data (Buffer_decr (length (redis_image args)) b) = rest"
    and "buffer_inv (Buffer_decr (length (redis_image args)) b)"
proof -
  note l = length_Buffer_data [OF assms(1)]
  let ?t = "drop (data_off b + bsize b) (buf b)"
  have m: "drop (data_off b) (buf b) = redis_image args @ (rest @ ?t)"
  proof -
    have "drop (data_off b) (buf b) = Buffer_data b @ ?t"
      unfolding Buffer_data_def by (metis append_take_drop_id drop_drop add.commute)
    then show ?thesis by (simp add: assms(2))
  qed
  have c: "redis_image args @ (rest @ ?t) = CHR ''*'' # tl (redis_image args @ (rest @ ?t))" by (simp add: redis_image_def)
  have k: "skip_lines (bsize b) (redis_image args @ (rest @ ?t)) = 0" by (subst c, rule skip_lines_none) simp_all
  have sz: "length (redis_image args) \<le> bsize b" using l assms(2) by simp
  have hd: "hd (redis_image args @ (rest @ ?t)) = CHR ''*''" "redis_image args @ (rest @ ?t) \<noteq> []" by (simp_all add: redis_image_def)
  show "parse_req en b r = (Buffer_decr (length (redis_image args)) b, r\<lparr>recv_bytes := args\<rparr>, en, Recv args)"
    unfolding parse_req_def m Let_def k using hd parse_image [OF assms(3-6) sz, of "rest @ ?t" 0] by simp
  show "Buffer_data (Buffer_decr (length (redis_image args)) b) = rest" "buffer_inv (Buffer_decr (length (redis_image args)) b)"
    using Buffer_decr_data [OF assms(1,2)] by simp_all
qed

lemma recv_req_image:
  assumes "buffer_inv b" and "Buffer_data b = redis_image (c # args) @ rest"
    and "\<forall>a \<in> set (c # args). length a < 2 ^ 31" and "length (c # args) < 2 ^ 31" and "en \<noteq> EINVAL"
    and "r1 = r\<lparr>recv_bytes := c # args, cmd := strtolower c, recv_string := []\<rparr>" and "convert_req dbl en r1 = (r2, en')"
  shows "recv_req alloc dbl en b r =
    (Buffer_decr (length (redis_image (c # args))) b, r2\<lparr>recv_bytes := recv_string r2\<rparr>, en', Recv (recv_string r2))"
  using parse_req_image(1) [OF assms(1-5), of r] assms(6,7) by (simp add: recv_req_def)

lemma parse_req_EINVAL:
  assumes "buffer_inv b" and "Buffer_data b = redis_image args @ rest" and "length args < 2 ^ 31"
  shows "\<exists>r'. parse_req EINVAL b r = (b, r', EINVAL, Recv_null)"
proof -
  let ?t = "drop (data_off b + bsize b) (buf b)"
  let ?x = "concat (map redis_arg args) @ rest @ ?t"
  have m: "drop (data_off b) (buf b) = CHR ''*'' # decimal (length args) @ CRLF @ ?x"
  proof -
    have "drop (data_off b) (buf b) = Buffer_data b @ ?t"
      unfolding Buffer_data_def by (metis append_take_drop_id drop_drop add.commute)
    then show ?thesis by (simp add: assms(2) redis_image_def)
  qed
  have sz: "bsize b = length (redis_image args @ rest)" using length_Buffer_data [OF assms(1)] assms(2) by simp
  have "CHR 0x0A \<in> set (take (bsize b) (CHR ''*'' # decimal (length args) @ CRLF @ ?x))"
  proof -
    have "CHR ''*'' # decimal (length args) @ CRLF @ ?x = (redis_image args @ rest) @ ?t" by (simp add: redis_image_def)
    then show ?thesis unfolding sz by (simp add: redis_image_def CRLF_def)
  qed
  moreover have "bsize b \<noteq> 0" unfolding sz by (simp add: redis_image_def)
  ultimately have "parse_loop EINVAL (CHR ''*'' # decimal (length args) @ CRLF @ ?x) (bsize b) 0 0 [] = (P_error, EINVAL)"
    using strtoll_decimal_CRLF [OF assms(3), of ?x] strtol_end_decimal [of "length args" ?x] CRLF_not_Nil(1) [of ?x]
    by (simp add: parse_loop.simps [of EINVAL "CHR ''*'' # decimal (length args) @ CRLF @ ?x"] Let_def)
  then show ?thesis unfolding parse_req_def m Let_def by (simp add: skip_lines_none)
qed

text \<open>
  What the redis command means, as a request of the server: \<open>st\<close> is the strategy of the table, \<open>args\<close> are the arguments
  after the name of the command, and \<open>out\<close> those the server gets. Commands that are only renamed keep their arguments;
  the others are given for the argument lists redis documents.
\<close>

definition translated :: "(bytes \<Rightarrow> int) \<Rightarrow> STRATEGY \<Rightarrow> bytes list \<Rightarrow> bytes list \<Rightarrow> bool" where
  "translated dbl st args out \<longleftrightarrow>
     (st \<in> {STRATEGY_AUTO, STRATEGY_PING, STRATEGY_MGET, STRATEGY_HMGET, STRATEGY_HGETALL, STRATEGY_NULL} \<longrightarrow> out = args) \<and>
     (\<forall>k x y. args = [k, x, y] \<longrightarrow>
        (st \<in> {STRATEGY_SETEX, STRATEGY_ZINCRBY} \<longrightarrow> out = [k, y, x]) \<and>
        (st \<in> {STRATEGY_REMRANGEBYRANK, STRATEGY_REMRANGEBYSCORE} \<longrightarrow> out = [k, x, y]) \<and>
        (st \<in> {STRATEGY_ZRANGEBYSCORE, STRATEGY_ZREVRANGEBYSCORE} \<longrightarrow> x \<noteq> [] \<longrightarrow> y \<noteq> [] \<longrightarrow>
           {x, y} \<inter> {''-inf'', ''+inf''} = {} \<longrightarrow> hd x \<noteq> CHR ''('' \<longrightarrow> hd y \<noteq> CHR ''('' \<longrightarrow>
           out = [k, [], x, y, ''0'', ''2000000000'', []])) \<and>
     (\<forall>k a e opt. st \<in> {STRATEGY_ZRANGE, STRATEGY_ZREVRANGE} \<longrightarrow> length opt \<le> 1 \<longrightarrow>
        args = [k, str_int64 a, str_int64 e] @ opt \<longrightarrow> 0 \<le> a \<longrightarrow> a < 2 ^ 63 \<longrightarrow> -1 \<le> e \<longrightarrow> e < 2 ^ 63 - 1 \<longrightarrow>
        out = [k, str_int64 a, str_int64 (if e = -1 then -1 else e - a + 1)] @ map strtolower opt) \<and>
     (\<forall>k. st \<in> {STRATEGY_HKEYS, STRATEGY_HVALS} \<longrightarrow> args = [k] \<longrightarrow> out = [k, [], [], ''2000000000'']) \<and>
     (\<forall>k ps. st = STRATEGY_ZADD \<longrightarrow> args = k # concat (map (\<lambda>(score, member). [score, member]) ps) \<longrightarrow>
        out = k # concat (map (\<lambda>(score, member). [member, str_int64 (dbl score)]) ps))"

lemma zadd_args_pairs:
  "zadd_args dbl (concat (map (\<lambda>(score, member). [score, member]) ps)) =
    concat (map (\<lambda>(score, member). [member, str_int64 (dbl score)]) ps)"
  by (induction ps) auto

lemma zrange_translated:
  assumes "strategy d \<in> {STRATEGY_ZRANGE, STRATEGY_ZREVRANGE}" and "length opt \<le> 1" and "0 \<le> a" and "a < 2 ^ 63" and "-1 \<le> e" and "e < 2 ^ 63 - 1"
  shows "fst (zrange_args d (c # [k, str_int64 a, str_int64 e] @ opt) en) =
    ssdb_cmd d # [k, str_int64 a, str_int64 (if e = -1 then -1 else e - a + 1)] @ map strtolower opt"
proof -
  have i: "in_int64 a" "in_int64 e" using assms(3-6) by (simp_all add: in_int64_def)
  have w: "wrap64 (e - a) = e - a" "wrap64 (e - a + 1) = e - a + 1" if "e \<noteq> -1" using assms(3-6) that by (simp_all add: in_int64_def)
  have o: "opt = [] \<or> (\<exists>x. opt = [x])" using assms(2) by (cases opt) auto
  show ?thesis using assms(1,3,5) o w
    by (auto simp: zrange_args_def Let_def str_to_int64_str_int64 [OF i(1)] str_to_int64_str_int64 [OF i(2)])
qed

lemma convert_args_translated:
  "\<exists>out en'. convert_args dbl d (c # args) en = (ssdb_cmd d # out, en') \<and> translated dbl (strategy d) args out"
proof -
  obtain out en' where c: "convert_args dbl d (c # args) en = (ssdb_cmd d # out, en')"
    by (cases "convert_args dbl d (c # args) en")
       (auto simp: convert_args_def zrange_args_def range_by_score_def Let_def case_prod_unfold split: if_splits)
  have "translated dbl (strategy d) args out"
    unfolding translated_def
  proof (intro conjI allI impI)
    fix k a e opt
    assume z: "strategy d \<in> {STRATEGY_ZRANGE, STRATEGY_ZREVRANGE}" "length (opt :: bytes list) \<le> 1"
        "args = [k, str_int64 a, str_int64 e] @ opt" "0 \<le> a" "a < 2 ^ 63" "-1 \<le> e" "e < 2 ^ 63 - 1"
    then have "convert_args dbl d (c # args) en = zrange_args d (c # args) en" by (auto simp: convert_args_def Let_def)
    then have "fst (zrange_args d (c # args) en) = ssdb_cmd d # out" using c by (metis fst_conv)
    then show "out = [k, str_int64 a, str_int64 (if e = -1 then -1 else e - a + 1)] @ map strtolower opt" unfolding z(3) append_Cons append_Nil
      using zrange_translated [OF z(1,2,4-7), of c k en] by (simp del: if_split)
  qed (use c in \<open>auto simp: convert_args_def range_by_score_def range_bound_def zadd_args_pairs Let_def\<close>)
  with c show ?thesis by blast
qed

subsection \<open>Properties\<close>

text \<open>C14. A well-formed request in the redis format (fewer than 2^31 arguments, each below 2^31 bytes) is read exactly as
  it was sent and removed from the buffer, what follows it stays, unless an earlier conversion left \<open>EINVAL\<close> in \<open>errno\<close>: then it is
  refused. A command the table does not know goes to the server under its own name in lower case with its arguments. A
  command of the table goes there under the name the table gives, with the same arguments when it is only renamed, and with those
  of \<open>translated\<close> when it is rewritten (\<open>setex\<close>, \<open>zadd\<close>, \<open>zincrby\<close>, \<open>zrange\<close>, \<open>zrangebyscore\<close>, \<open>hkeys\<close>, ...).\<close>

theorem redis_request_read:
  assumes "buffer_inv b" and "Buffer_data b = redis_image (c # args) @ rest"
    and "\<forall>a \<in> set (c # args). length a < 2 ^ 31" and "length (c # args) < 2 ^ 31"
  shows "(en = EINVAL \<longrightarrow> (\<exists>r'. recv_req alloc dbl en b r = (b, r', en, Recv_null))) \<and>
    (en \<noteq> EINVAL \<longrightarrow> (\<exists>b' r' en' name out. recv_req alloc dbl en b r = (b', r', en', Recv (name # out)) \<and>
       Buffer_data b' = rest \<and> buffer_inv b' \<and> req_desc r' = cmd_table (strtolower c) \<and>
       (case cmd_table (strtolower c) of
          None \<Rightarrow> name = strtolower c \<and> out = args
        | Some d \<Rightarrow> name = ssdb_cmd d \<and> translated dbl (strategy d) args out)))"
proof (intro conjI impI)
  assume "en = EINVAL"
  then show "\<exists>r'. recv_req alloc dbl en b r = (b, r', en, Recv_null)"
    using parse_req_EINVAL [OF assms(1,2,4), of r] by (auto simp: recv_req_def)
next
  assume en: "en \<noteq> EINVAL"
  let ?r1 = "r\<lparr>recv_bytes := c # args, cmd := strtolower c, recv_string := []\<rparr>"
  obtain r2 en' where cv: "convert_req dbl en ?r1 = (r2, en')" by fastforce
  obtain name out where out: "recv_string r2 = name # out" "req_desc r2 = cmd_table (strtolower c)"
      "case cmd_table (strtolower c) of None \<Rightarrow> name = strtolower c \<and> out = args
        | Some d \<Rightarrow> name = ssdb_cmd d \<and> translated dbl (strategy d) args out"
  proof (cases "cmd_table (strtolower c)")
    case None
    then show ?thesis using cv that by (auto simp: convert_req_def)
  next
    case (Some d)
    obtain out en'' where "convert_args dbl d (c # args) en = (ssdb_cmd d # out, en'')" "translated dbl (strategy d) args out"
      using convert_args_translated by blast
    then show ?thesis using cv Some that by (auto simp: convert_req_def)
  qed
  with recv_req_image [OF assms en refl cv] parse_req_image(2,3) [OF assms en]
  show "\<exists>b' r' en' name out. recv_req alloc dbl en b r = (b', r', en', Recv (name # out)) \<and>
       Buffer_data b' = rest \<and> buffer_inv b' \<and> req_desc r' = cmd_table (strtolower c) \<and>
       (case cmd_table (strtolower c) of
          None \<Rightarrow> name = strtolower c \<and> out = args
        | Some d \<Rightarrow> name = ssdb_cmd d \<and> translated dbl (strategy d) args out)" by auto
qed

lemma cmd_table_setex: "cmd_table ''setex'' = Some \<lparr>strategy = STRATEGY_SETEX, redis_cmd = ''setex'', ssdb_cmd = ''setx'', reply_type = REPLY_STATUS\<rparr>"
  by (simp add: cmd_table_def cmds_raw_def raw_cmd_def)

definition setex_buffer :: buffer where
  "setex_buffer = (let d = redis_image [''SETEX'', ''k'', ''60'', ''v''] @ ''*'' in \<lparr>buf = d, data_off = 0, bsize = length d, btotal = length d\<rparr>)"

theorem redis_request_read_witness:
  "\<exists>b' r' en'. recv_req (\<lambda>_. True) (\<lambda>_. 0) 0 setex_buffer RedisLink_new = (b', r', en', Recv [''setx'', ''k'', ''v'', ''60'']) \<and>
     Buffer_data b' = ''*''"
proof -
  have b: "buffer_inv setex_buffer" "Buffer_data setex_buffer = redis_image [''SETEX'', ''k'', ''60'', ''v''] @ ''*''"
    by (simp_all add: setex_buffer_def buffer_inv_def Buffer_data_def Let_def)
  have l: "strtolower ''SETEX'' = ''setex''" by code_simp
  from redis_request_read [OF b, of 0 "\<lambda>_. True" "\<lambda>_. 0" RedisLink_new] show ?thesis
    by (auto simp: l cmd_table_setex EINVAL_def translated_def)
qed

lemma cmd_table_zrange: "cmd_table ''zrange'' = Some \<lparr>strategy = STRATEGY_ZRANGE, redis_cmd = ''zrange'', ssdb_cmd = ''zrange'', reply_type = REPLY_MULTI_BULK\<rparr>"
  by (simp add: cmd_table_def cmds_raw_def raw_cmd_def)

text \<open>\<open>parse_req\<close> looks at an \<open>errno\<close> that it has not reset: a \<open>zrange\<close> whose end is not a number is taken for the
  end 0 and leaves \<open>EINVAL\<close> behind; the next request in the buffer, although well-formed, then makes
  \<open>recv_req\<close> fail, which closes the connection.\<close>

theorem redis_stale_errno:
  assumes "buffer_inv b" and "Buffer_data b = redis_image [''zrange'', ''k'', ''0'', ''x''] @ redis_image args @ rest"
    and "length args < 2 ^ 31"
  shows "\<exists>b' r' b'' r''. recv_req alloc dbl 0 b r = (b', r', EINVAL, Recv [''zrange'', ''k'', ''0'', ''1'']) \<and>
    Buffer_data b' = redis_image args @ rest \<and> recv_req alloc dbl EINVAL b' r' = (b'', r'', EINVAL, Recv_null)"
proof -
  let ?r1 = "r\<lparr>recv_bytes := [''zrange'', ''k'', ''0'', ''x''], cmd := strtolower ''zrange'', recv_string := []\<rparr>"
  obtain r2 en' where cv: "convert_req dbl 0 ?r1 = (r2, en')" by fastforce
  have l: "strtolower ''zrange'' = ''zrange''" "str_int64 1 = ''1''" "str_to_int64 0 ''0'' = (0, 0)"
      "str_to_int64 0 ''x'' = (0, EINVAL)" "wrap64 1 = 1" "wrap64 0 = 0"
    by code_simp+
  have e: "recv_string r2 = [''zrange'', ''k'', ''0'', ''1'']" "en' = EINVAL"
    using cv by (simp_all add: convert_req_def l cmd_table_zrange convert_args_def zrange_args_def Let_def split: if_splits) auto
  have z: "(0 :: nat) \<noteq> EINVAL" by (simp add: EINVAL_def)
  let ?b = "Buffer_decr (length (redis_image [''zrange'', ''k'', ''0'', ''x''])) b"
  note x = recv_req_image [OF assms(1,2) _ _ z refl cv, of alloc]
  note y = parse_req_image(2,3) [OF assms(1,2) _ _ z]
  have f: "recv_req alloc dbl 0 b r = (?b, r2\<lparr>recv_bytes := recv_string r2\<rparr>, EINVAL, Recv [''zrange'', ''k'', ''0'', ''1''])"
    using x by (simp add: e)
  have d: "Buffer_data ?b = redis_image args @ rest" "buffer_inv ?b" using y by simp_all
  from parse_req_EINVAL [OF d(2,1) assms(3), of "r2\<lparr>recv_bytes := recv_string r2\<rparr>"]
  obtain r3 where "parse_req EINVAL ?b (r2\<lparr>recv_bytes := recv_string r2\<rparr>) = (?b, r3, EINVAL, Recv_null)" ..
  then have "recv_req alloc dbl EINVAL ?b (r2\<lparr>recv_bytes := recv_string r2\<rparr>) = (?b, r3, EINVAL, Recv_null)" by (simp add: recv_req_def)
  with f d(1) show ?thesis by blast
qed

definition zrange_buffer :: buffer where
  "zrange_buffer = (let d = redis_image [''zrange'', ''k'', ''0'', ''x''] @ redis_image [''ping''] @ []
     in \<lparr>buf = d, data_off = 0, bsize = length d, btotal = length d\<rparr>)"

theorem redis_stale_errno_witness:
  "\<exists>b' r' b'' r''. recv_req (\<lambda>_. True) (\<lambda>_. 0) 0 zrange_buffer RedisLink_new = (b', r', EINVAL, Recv [''zrange'', ''k'', ''0'', ''1'']) \<and>
    Buffer_data b' = redis_image [''ping''] \<and> recv_req (\<lambda>_. True) (\<lambda>_. 0) EINVAL b' r' = (b'', r'', EINVAL, Recv_null)"
proof -
  have "buffer_inv zrange_buffer"
      "Buffer_data zrange_buffer = redis_image [''zrange'', ''k'', ''0'', ''x''] @ redis_image [''ping''] @ []"
    by (simp_all add: zrange_buffer_def buffer_inv_def Buffer_data_def Let_def)
  from redis_stale_errno [OF this, of "\<lambda>_. True" "\<lambda>_. 0" RedisLink_new] show ?thesis by simp
qed

end
