(* ===== verification/Link.thy ===== *)
theory Link
  imports RedisLink "HOL-Library.Sublist"
begin

section \<open>Connections (\<open>net/link.cpp\<close>)\<close>

text \<open>
  A link has an input and an output buffer on a socket. A packet is a sequence of records, each a line
  with its length, its bytes and a newline, and ends with an empty line. What the operating system
  returns from \<open>read\<close> and \<open>write\<close> is an argument.
\<close>

definition INIT_BUFFER_SIZE :: nat where "INIT_BUFFER_SIZE = 1024"
definition BEST_BUFFER_SIZE :: nat where "BEST_BUFFER_SIZE = 8 * 1024"
definition MAX_PACKET_SIZE :: int where "MAX_PACKET_SIZE = 128 * 1024 * 1024"

record link =
  link_noblock :: bool
  link_error :: bool
  redis :: "redis_link option"
  recv_data :: "bytes list"
  auth :: bool
  ignore_key_range :: bool
  link_input :: buffer
  link_output :: buffer

text \<open>A link of a client; that of the listening socket has no buffers.\<close>

definition Link_new :: link where
  "Link_new = \<lparr>link_noblock = False, link_error = False, redis = None, recv_data = [], auth = False, ignore_key_range = False,
     link_input = Buffer_new INIT_BUFFER_SIZE, link_output = Buffer_new INIT_BUFFER_SIZE\<rparr>"

fun is_ip_loop :: "bytes \<Rightarrow> int \<Rightarrow> int \<Rightarrow> bool" where
  "is_ip_loop [] dot_count digit_count = (dot_count = 3)"
| "is_ip_loop (c # p) dot_count digit_count =
     (if c = CHR ''.'' then
        (if digit_count \<ge> 1 \<and> digit_count \<le> 3 then is_ip_loop p (dot_count + 1) 0 else False)
      else if isdigit c then is_ip_loop p dot_count (digit_count + 1)
      else False)"

definition is_ip :: "bytes \<Rightarrow> bool" where
  "is_ip host = is_ip_loop host 0 0"

subsection \<open>Reading and writing the socket\<close>

text \<open>What one call returns: bytes, none at the end of the stream, or an error.\<close>

datatype sys_read = Got bytes | Eof | R_intr | R_block | R_err

text \<open>
  \<open>read\<close> asks for as much as there is space; bytes that do not fit stay with the operating system. The
  loop ends with the list, as it does when the socket would block.
\<close>

fun read_loop :: "bool \<Rightarrow> sys_read list \<Rightarrow> buffer \<Rightarrow> int \<Rightarrow> buffer \<times> int \<times> sys_read list" where
  "read_loop nb [] b ret = (b, ret, [])"
| "read_loop nb (r # rs) b ret =
     (let want = Buffer_space b
      in if \<not> want > 0 then (b, ret, r # rs)
         else case r of
                R_intr \<Rightarrow> read_loop nb rs b ret
              | R_block \<Rightarrow> (b, ret, rs)
              | R_err \<Rightarrow> (b, -1, rs)
              | Eof \<Rightarrow> (b, 0, rs)
              | Got bs \<Rightarrow>
                  if bs = [] then (b, 0, rs)
                  else let bs1 = take (nat want) bs; bs2 = drop (nat want) bs;
                           b = Buffer_write bs1 b;
                           ret = ret + int (length bs1)
                       in if bs2 \<noteq> [] then (b, ret, Got bs2 # rs)
                          else if \<not> nb then (b, ret, rs)
                          else read_loop nb rs b ret)"

definition Link_read :: "sys_read list \<Rightarrow> link \<Rightarrow> link \<times> int \<times> sys_read list" where
  "Link_read rs l =
     (let b = Buffer_nice (link_input l);
          b = (if bsize b = 0 \<and> btotal b > BEST_BUFFER_SIZE then Buffer_shrink (int BEST_BUFFER_SIZE) b else b);
          (b, ret, rs) = read_loop (link_noblock l) rs b 0
      in (l\<lparr>link_input := b\<rparr>, ret, rs))"

datatype sys_write = Put nat | W_intr | W_block | W_err

text \<open>The bytes handed to the socket are the third result.\<close>

fun write_loop :: "bool \<Rightarrow> sys_write list \<Rightarrow> buffer \<Rightarrow> int \<Rightarrow> buffer \<times> int \<times> bytes \<times> sys_write list" where
  "write_loop nb [] b ret = (b, ret, [], [])"
| "write_loop nb (w # ws) b ret =
     (if bsize b = 0 then (b, ret, [], w # ws)
      else case w of
             W_intr \<Rightarrow> write_loop nb ws b ret
           | W_block \<Rightarrow> (b, ret, [], ws)
           | W_err \<Rightarrow> (b, -1, [], ws)
           | Put n \<Rightarrow>
               if n = 0 then (b, ret, [], ws)
               else let len = min n (bsize b); out = take len (Buffer_data b);
                        b = Buffer_decr len b; ret = ret + int len
                    in if \<not> nb then (b, ret, out, ws)
                       else let (b, ret, more, ws) = write_loop nb ws b ret in (b, ret, out @ more, ws))"

definition Link_write :: "sys_write list \<Rightarrow> link \<Rightarrow> link \<times> int \<times> bytes \<times> sys_write list" where
  "Link_write ws l =
     (let (b, ret, out, ws) = write_loop (link_noblock l) ws (link_output l) 0
      in if ret = -1 then (l\<lparr>link_output := b\<rparr>, ret, out, ws)
         else let b = Buffer_nice b;
                  b = (if bsize b = 0 \<and> btotal b > BEST_BUFFER_SIZE then Buffer_shrink (int BEST_BUFFER_SIZE) b else b)
              in (l\<lparr>link_output := b\<rparr>, ret, out, ws))"

subsection \<open>Packets\<close>

text \<open>
  The records from \<open>head\<close> on, and what ended the loop: the empty line, a malformed record, missing bytes, or an
  access outside of the data after the length has overflowed.
\<close>

datatype packet_status = K_null | K_oob | K_more | K_done int "bytes list"

text \<open>The end of a record: the number of bytes of the newline, if the record has one.\<close>

definition record_end :: "bytes \<Rightarrow> nat option" where
  "record_end d =
     (if length d \<ge> 1 \<and> d ! 0 = CHR 0x0A then Some 1
      else if length d \<ge> 2 \<and> d ! 0 = CHR 0x0D \<and> d ! 1 = CHR 0x0A then Some 2
      else None)"

function recv_loop :: "bytes \<Rightarrow> int \<Rightarrow> bytes list \<Rightarrow> packet_status" where
  "recv_loop d parsed acc =
     (if CHR 0x0A \<notin> set d then K_more
      else let head = takeWhile (\<lambda>c. c \<noteq> CHR 0x0A) d; head_len = length head + 1
      in if head_len = 1 \<or> head_len = 2 \<and> d ! 0 = CHR 0x0D then K_done (parsed + int head_len) acc
         else if \<not> isdigit (d ! 0) then K_null
         else if head_len > 19 then K_null
         else let body_len = atoi head
         in if body_len < 0 then K_null
            else if wrap32 (int (length d) - wrap32 (int head_len + body_len)) < 0 then K_more
            else if head_len + nat body_len > length d then K_oob
            else let acc' = acc @ [take (nat body_len) (drop head_len d)];
                     d' = drop (head_len + nat body_len) d;
                     parsed' = parsed + int head_len + body_len
            in case record_end d' of
                 None \<Rightarrow> if length d' \<ge> 2 then K_null else K_more
               | Some n \<Rightarrow>
                   if parsed' + int n > MAX_PACKET_SIZE then K_null
                   else recv_loop (drop n d') (parsed' + int n) acc')"
  by pat_completeness auto
termination
  by (relation "measure (\<lambda>(d, parsed, acc). length d)") (auto simp: record_end_def split: if_splits)

declare recv_loop.simps [simp del]

definition Link_recv :: "(nat \<Rightarrow> bool) \<Rightarrow> (bytes \<Rightarrow> int) \<Rightarrow> nat \<Rightarrow> link \<Rightarrow> link \<times> nat \<times> recv_result" where
  "Link_recv alloc dbl en l =
     (let l = l\<lparr>recv_data := []\<rparr>; b = link_input l
      in if Buffer_empty b then (l, en, Recv [])
         else let m = drop (data_off b) (buf b); k = skip_lines (bsize b) m
         in if drop k m = [] then (l, en, Recv_oob)
            else if hd (drop k m) = CHR ''*'' then
              let r = (case redis l of None \<Rightarrow> RedisLink_new | Some r \<Rightarrow> r);
                  (b, r, en, res) = recv_req alloc dbl en b r;
                  l = l\<lparr>link_input := b, redis := Some r\<rparr>
              in (case res of Recv ds \<Rightarrow> (l\<lparr>recv_data := ds\<rparr>, en, Recv ds) | _ \<Rightarrow> (l, en, res))
            else case recv_loop (drop k (Buffer_data b)) (int k) [] of
                   K_null \<Rightarrow> (l, en, Recv_null)
                 | K_oob \<Rightarrow> (l, en, Recv_oob)
                 | K_done parsed ds \<Rightarrow> (l\<lparr>link_input := Buffer_decr (nat parsed) b, recv_data := ds\<rparr>, en, Recv ds)
                 | K_more \<Rightarrow> (let (b, ok) = make_room alloc b
                             in (l\<lparr>link_input := b\<rparr>, en, if ok then Recv [] else Recv_null)))"

definition put_record :: "(nat \<Rightarrow> bool) \<Rightarrow> bytes \<Rightarrow> buffer \<Rightarrow> buffer" where
  "put_record alloc s b = Buffer_put_sized alloc (wrap32 (16 + int (length s) + 1)) (record_image s) b"

text \<open>\<open>send\<close> of a vector, of \<open>Bytes\<close> or of one to five arguments.\<close>

definition send_packet :: "(nat \<Rightarrow> bool) \<Rightarrow> bytes list \<Rightarrow> link \<Rightarrow> link" where
  "send_packet alloc resp l =
     l\<lparr>link_output := Buffer_put alloc [CHR 0x0A] (fold (put_record alloc) resp (link_output l))\<rparr>"

definition Link_send :: "(nat \<Rightarrow> bool) \<Rightarrow> bytes list \<Rightarrow> link \<Rightarrow> link" where
  "Link_send alloc resp l =
     (if resp = [] then l
      else case redis l of
             Some r \<Rightarrow> l\<lparr>link_output := send_resp alloc (link_output l) r resp\<rparr>
           | None \<Rightarrow> send_packet alloc resp l)"

text \<open>
  \<open>response\<close>: read until a packet is there. \<open>None\<close> stands for a run on which the operating system gives no
  further answer.
\<close>

fun Link_response :: "nat \<Rightarrow> (nat \<Rightarrow> bool) \<Rightarrow> (bytes \<Rightarrow> int) \<Rightarrow> nat \<Rightarrow> sys_read list \<Rightarrow> link \<Rightarrow> (link \<times> recv_result) option" where
  "Link_response 0 alloc dbl en rs l = None"
| "Link_response (Suc fuel) alloc dbl en rs l =
     (case Link_recv alloc dbl en l of
        (l, en, Recv []) \<Rightarrow>
          (let (l, ret, rs') = Link_read rs l
           in if ret \<le> 0 then Some (l, Recv_null) else Link_response fuel alloc dbl en rs' l)
      | (l, en, res) \<Rightarrow> Some (l, res))"

subsection \<open>What is sent is received\<close>

definition packet_image :: "bytes list \<Rightarrow> bytes" where
  "packet_image pkt = concat (map record_image pkt) @ [CHR 0x0A]"

lemma record_image_decimal: "record_image s = decimal (length s) @ CHR 0x0A # s @ [CHR 0x0A]"
  by (simp add: record_image_def decimal_int_def)

lemma record_head:
  "takeWhile (\<lambda>c. c \<noteq> CHR 0x0A) (decimal n @ CHR 0x0A # r) = decimal n" "isdigit ((decimal n @ r) ! 0)" "(decimal n @ r) ! 0 \<noteq> CHR 0x0D"
proof -
  show "takeWhile (\<lambda>c. c \<noteq> CHR 0x0A) (decimal n @ CHR 0x0A # r) = decimal n"
    using decimal_digits [of _ n] digit_not_newline by (simp add: takeWhile_append2)
  obtain d ds where "decimal n = d # ds" "isdigit d" by (rule decimal_Cons)
  then show "isdigit ((decimal n @ r) ! 0)" "(decimal n @ r) ! 0 \<noteq> CHR 0x0D" by (auto simp: isdigit_def)
qed

text \<open>The loop at a length line: it waits for the body, or takes it.\<close>

lemma recv_loop_record:
  assumes "n < 2 ^ 31 - 20" and "length r < 2 ^ 31 - 20"
  shows "recv_loop (decimal n @ CHR 0x0A # r) parsed acc =
    (if length r < n then K_more
     else case record_end (drop n r) of
            None \<Rightarrow> if length r \<ge> n + 2 then K_null else K_more
          | Some e \<Rightarrow>
              let parsed' = parsed + int (length (decimal n) + 1 + n + e)
              in if parsed' > MAX_PACKET_SIZE then K_null else recv_loop (drop (n + e) r) parsed' (acc @ [take n r]))"
proof -
  let ?d = "decimal n @ CHR 0x0A # r" and ?h = "length (decimal n)"
  have h: "?h \<le> 10" "0 < ?h" using assms(1) by (auto intro!: length_decimal)
  have w: "wrap32 (int (length ?d) - wrap32 (int (?h + 1) + int n)) = int (length r) - int n"
    using assms h(1) by (simp add: in_int32_def)
  have a: "atoi (decimal n) = int n" using assms(1) by (intro atoi_decimal) simp
  have dr: "drop (?h + 1) ?d = r" "drop (?h + 1 + n) ?d = drop n r" by (simp_all add: add.commute [of n])
  show ?thesis
    using h w a dr by (simp add: recv_loop.simps [of ?d] record_head Let_def add.assoc split: option.split)
      (auto simp: algebra_simps)
qed

lemma recv_loop_image:
  assumes "length s + length r < 2 ^ 31 - 30" and "parsed + int (length (record_image s)) \<le> MAX_PACKET_SIZE"
  shows "recv_loop (record_image s @ r) parsed acc = recv_loop r (parsed + int (length (record_image s))) (acc @ [s])"
proof -
  have "record_end (drop (length s) (s @ CHR 0x0A # r)) = Some 1" by (simp add: record_end_def)
  then show ?thesis
    using recv_loop_record [of "length s" "s @ CHR 0x0A # r" parsed acc] assms
    by (simp add: record_image_decimal Let_def)
qed

lemma recv_loop_packet:
  assumes "length (concat (map record_image pkt)) + length r < 2 ^ 31 - 40"
    and "parsed + int (length (concat (map record_image pkt))) \<le> MAX_PACKET_SIZE"
  shows "recv_loop (concat (map record_image pkt) @ CHR 0x0A # r) parsed acc =
    K_done (parsed + int (length (packet_image pkt))) (acc @ pkt)"
  using assms
proof (induction pkt arbitrary: parsed acc)
  case Nil
  show ?case by (simp add: recv_loop.simps [of "CHR 0x0A # r"] packet_image_def)
next
  case (Cons s pkt)
  let ?r = "concat (map record_image pkt) @ CHR 0x0A # r"
  have l: "length s \<le> length (record_image s)" by (simp add: record_image_decimal)
  have "recv_loop (record_image s @ ?r) parsed acc = recv_loop ?r (parsed + int (length (record_image s))) (acc @ [s])"
    using Cons.prems l by (intro recv_loop_image) simp_all
  also have "\<dots> = K_done (parsed + int (length (record_image s)) + int (length (packet_image pkt))) (acc @ [s] @ pkt)"
    using Cons.prems by (subst Cons.IH) simp_all
  finally show ?case by (simp add: packet_image_def add.assoc)
qed

text \<open>A part of a record or of a packet is not enough.\<close>

lemma recv_loop_part:
  assumes "prefix d (record_image s)" and "d \<noteq> record_image s" and "length s < 2 ^ 31 - 40"
  shows "recv_loop d parsed acc = K_more"
proof (cases "CHR 0x0A \<in> set d")
  case False
  then show ?thesis by (simp add: recv_loop.simps [of d])
next
  case True
  let ?h = "decimal (length s)"
  have "\<not> prefix d ?h" using True decimal_digits [of "CHR 0x0A" "length s"] by (auto simp: isdigit_def dest: set_mono_prefix)
  then obtain b where b: "d = ?h @ b" "prefix b (CHR 0x0A # s @ [CHR 0x0A])"
    using assms(1) unfolding record_image_decimal prefix_append by blast
  have "b \<noteq> []" using b(1) \<open>\<not> prefix d ?h\<close> by auto
  then obtain c where c: "b = CHR 0x0A # c" "prefix c (s @ [CHR 0x0A])" using b(2) by (cases b) auto
  have "c \<noteq> s @ [CHR 0x0A]" using assms(2) b(1) c(1) by (auto simp: record_image_decimal)
  then have "prefix c s" using c(2) by (simp add: prefix_snoc)
  then obtain x where x: "s = c @ x" by (auto elim: prefixE)
  have "record_end (drop (length s) c) = None" unfolding x by (simp add: record_end_def)
  then show ?thesis
    using recv_loop_record [of "length s" c parsed acc] assms(3) unfolding b(1) c(1) by (simp add: x)
qed

lemma recv_loop_partial:
  assumes "strict_prefix d (packet_image pkt)" and "length (packet_image pkt) < 2 ^ 31 - 40"
    and "parsed + int (length (packet_image pkt)) \<le> MAX_PACKET_SIZE"
  shows "recv_loop d parsed acc = K_more"
  using assms
proof (induction pkt arbitrary: d parsed acc)
  case Nil
  then have "d = []" by (auto simp: packet_image_def strict_prefix_def prefix_Cons)
  then show ?case by (simp add: recv_loop.simps)
next
  case (Cons s pkt)
  have img: "packet_image (s # pkt) = record_image s @ packet_image pkt" by (simp add: packet_image_def)
  have l: "length s \<le> length (record_image s)" by (simp add: record_image_decimal)
  show ?case
  proof (cases "prefix (record_image s) d")
    case True
    then obtain e where e: "d = record_image s @ e" by (auto elim: prefixE)
    then have sp: "strict_prefix e (packet_image pkt)" using Cons.prems(1) by (simp add: img strict_prefix_def)
    have "length e \<le> length (packet_image pkt)" using sp by (auto simp: strict_prefix_def dest: prefix_length_le)
    then have "recv_loop d parsed acc = recv_loop e (parsed + int (length (record_image s))) (acc @ [s])"
      unfolding e using Cons.prems(2,3) l by (intro recv_loop_image) (simp_all add: img)
    also have "\<dots> = K_more" using Cons.prems(2,3) by (intro Cons.IH [OF sp]) (simp_all add: img)
    finally show ?thesis .
  next
    case False
    then have "prefix d (record_image s)"
      using Cons.prems(1) by (auto simp: img strict_prefix_def prefix_append)
    then show ?thesis using False Cons.prems(2) l by (intro recv_loop_part) (auto simp: img)
  qed
qed

lemma memory_split: "drop (data_off b) (buf b) = Buffer_data b @ drop (data_off b + bsize b) (buf b)"
  unfolding Buffer_data_def by (metis append_take_drop_id drop_drop add.commute)

text \<open>Data that begins with a digit is in the format of the server itself.\<close>

lemma Link_recv_records:
  assumes "Buffer_data (link_input l) = c # d" and "isdigit c"
  shows "Link_recv alloc dbl en l =
    (case recv_loop (c # d) 0 [] of
       K_null \<Rightarrow> (l\<lparr>recv_data := []\<rparr>, en, Recv_null)
     | K_oob \<Rightarrow> (l\<lparr>recv_data := []\<rparr>, en, Recv_oob)
     | K_done parsed ds \<Rightarrow> (l\<lparr>recv_data := ds, link_input := Buffer_decr (nat parsed) (link_input l)\<rparr>, en, Recv ds)
     | K_more \<Rightarrow> (l\<lparr>recv_data := [], link_input := fst (make_room alloc (link_input l))\<rparr>, en,
         if snd (make_room alloc (link_input l)) then Recv [] else Recv_null))"
proof -
  let ?b = "link_input l"
  have ne: "bsize ?b \<noteq> 0" using assms(1) by (metis Buffer_data_def list.distinct(1) take_0)
  have m: "drop (data_off ?b) (buf ?b) = c # (d @ drop (data_off ?b + bsize ?b) (buf ?b))"
    using memory_split [of ?b] assms(1) by simp
  have c: "c \<noteq> CHR 0x0A" "c \<noteq> CHR 0x0D" "c \<noteq> CHR ''*''" using assms(2) by (auto simp: isdigit_def)
  show ?thesis
    using ne c unfolding Link_recv_def Let_def
    by (simp add: Buffer_empty_def m skip_lines_none assms(1) split: packet_status.split prod.split)
qed

lemma make_room_correct:
  assumes "buffer_inv b" and "bsize b \<le> 2 ^ 28" and "\<forall>k < 2 ^ 31. alloc k"
  shows "snd (make_room alloc b)" "buffer_inv (fst (make_room alloc b))" "Buffer_data (fst (make_room alloc b)) = Buffer_data b"
    and "0 < Buffer_space (fst (make_room alloc b))"
proof -
  have sp: "0 \<le> Buffer_space b" using assms(1) by (auto simp: Buffer_space_def buffer_inv_def)
  let ?n = "Buffer_nice b"
  note n = Buffer_nice_inv [OF assms(1)] Buffer_nice_data [OF assms(1)]
  have spn: "0 \<le> Buffer_space ?n" using n(1) by (auto simp: Buffer_space_def buffer_inv_def)
  have bs: "bsize ?n = bsize b" by (simp add: Buffer_nice_def)
  have "snd (make_room alloc b) \<and> buffer_inv (fst (make_room alloc b)) \<and> Buffer_data (fst (make_room alloc b)) = Buffer_data b \<and>
      0 < Buffer_space (fst (make_room alloc b))"
  proof (cases "Buffer_space b = 0 \<and> Buffer_space ?n = 0")
    case False
    then show ?thesis using sp spn assms(1) n by (auto simp: make_room_def Let_def)
  next
    case True
    then have tot: "btotal ?n \<le> 2 * bsize ?n"
      using True by (auto simp: Buffer_space_def Buffer_nice_def split: if_splits)
    then have "btotal ?n \<le> 2 ^ 29" using bs assms(2) by simp
    then obtain g where g: "Buffer_grow alloc ?n = Some g" using Buffer_grow_succeeds [OF assms(3), of ?n] by fastforce
    have "data_off g = data_off ?n" "bsize g = bsize ?n" "btotal ?n < btotal g"
      using g Buffer_grow_total [OF g] by (auto simp: Buffer_grow_def Let_def split: if_splits)
    then have "0 < Buffer_space g" using True by (simp add: Buffer_space_def)
    moreover have "make_room alloc b = (g, True)" using True g by (simp add: make_room_def Let_def)
    ultimately show ?thesis using Buffer_grow_inv [OF n(1) g] Buffer_grow_data [OF n(1) g] n(2) by simp
  qed
  then show "snd (make_room alloc b)" "buffer_inv (fst (make_room alloc b))" "Buffer_data (fst (make_room alloc b)) = Buffer_data b"
    "0 < Buffer_space (fst (make_room alloc b))" by blast+
qed

lemma packet_image_Cons: "pkt \<noteq> [] \<Longrightarrow> \<exists>c r. packet_image pkt = c # r \<and> isdigit c"
proof (cases pkt)
  case (Cons s ss)
  obtain d ds where "decimal (length s) = d # ds" "isdigit d" by (rule decimal_Cons)
  then show ?thesis by (simp add: Cons packet_image_def record_image_decimal)
qed simp

lemma Link_recv_packet:
  assumes "buffer_inv (link_input l)" and "Buffer_data (link_input l) = packet_image pkt @ r" and "pkt \<noteq> []"
    and "length (packet_image pkt @ r) < 2 ^ 31 - 40" and "int (length (packet_image pkt)) \<le> MAX_PACKET_SIZE"
  shows "Link_recv alloc dbl en l =
    (l\<lparr>recv_data := pkt, link_input := Buffer_decr (length (packet_image pkt)) (link_input l)\<rparr>, en, Recv pkt)"
proof -
  obtain c x where c: "packet_image pkt = c # x" "isdigit c" using packet_image_Cons [OF assms(3)] by blast
  have "recv_loop (packet_image pkt @ r) 0 [] = K_done (int (length (packet_image pkt))) pkt"
    using recv_loop_packet [of pkt r 0 "[]"] assms(4,5) by (simp add: packet_image_def)
  moreover have "Buffer_data (link_input l) = c # (x @ r)" using assms(2) c(1) by simp
  ultimately show ?thesis using Link_recv_records [of l c "x @ r" alloc dbl en] c by (simp add: nat_add_distrib)
qed

lemma Link_recv_partial:
  assumes "buffer_inv (link_input l)" and "strict_prefix (Buffer_data (link_input l)) (packet_image pkt)" and "pkt \<noteq> []"
    and "int (length (packet_image pkt)) \<le> MAX_PACKET_SIZE" and "\<forall>k < 2 ^ 31. alloc k"
  shows "\<exists>l'. Link_recv alloc dbl en l = (l', en, Recv []) \<and> buffer_inv (link_input l') \<and>
    Buffer_data (link_input l') = Buffer_data (link_input l) \<and> link_noblock l' = link_noblock l \<and>
    (Buffer_data (link_input l) = [] \<longrightarrow> link_input l' = link_input l) \<and>
    (Buffer_data (link_input l) \<noteq> [] \<longrightarrow> 0 < Buffer_space (link_input l'))"
proof (cases "Buffer_data (link_input l)")
  case Nil
  then have "Buffer_empty (link_input l)" using length_Buffer_data [OF assms(1)] by (simp add: Buffer_empty_def)
  with Nil assms(1) show ?thesis by (simp add: Link_recv_def)
next
  case (Cons e d)
  obtain c x where c: "packet_image pkt = c # x" "isdigit c" using packet_image_Cons [OF assms(3)] by blast
  have "e = c" using assms(2) Cons c(1) by (auto simp: strict_prefix_def)
  then have dig: "isdigit e" using c(2) by simp
  have len: "length (packet_image pkt) < 2 ^ 31 - 40" using assms(4) by (simp add: MAX_PACKET_SIZE_def)
  have more: "recv_loop (e # d) 0 [] = K_more" using recv_loop_partial [OF assms(2) len, of 0] assms(4) Cons by simp
  have "bsize (link_input l) < length (packet_image pkt)"
    using length_Buffer_data [OF assms(1)] assms(2) by (metis prefix_length_less)
  then have "bsize (link_input l) \<le> 2 ^ 28" using assms(4) by (simp add: MAX_PACKET_SIZE_def)
  note r = make_room_correct [OF assms(1) this assms(5)]
  show ?thesis using Link_recv_records [OF Cons dig, of alloc dbl en] r Cons by (simp add: more)
qed

text \<open>The bytes that a sequence of successful calls of \<open>read\<close> delivers.\<close>

fun stream :: "sys_read list \<Rightarrow> bytes" where
  "stream (Got bs # rs) = bs @ stream rs"
| "stream _ = []"

fun all_got :: "sys_read list \<Rightarrow> bool" where
  "all_got [] = True"
| "all_got (r # rs) = ((case r of Got bs \<Rightarrow> bs \<noteq> [] | _ \<Rightarrow> False) \<and> all_got rs)"

lemma Link_read_stream:
  assumes "buffer_inv (link_input l)" and "Buffer_data (link_input l) = [] \<longrightarrow> 0 < btotal (link_input l)"
    and "Buffer_data (link_input l) \<noteq> [] \<longrightarrow> 0 < Buffer_space (link_input l)"
    and "\<not> link_noblock l" and "all_got rs" and "rs \<noteq> []"
  shows "\<exists>l' n rs'. Link_read rs l = (l', int n, rs') \<and> 0 < n \<and> Buffer_data (link_input l') = Buffer_data (link_input l) @ take n (stream rs) \<and>
    stream rs' = drop n (stream rs) \<and> n \<le> length (stream rs) \<and> all_got rs' \<and> buffer_inv (link_input l') \<and> \<not> link_noblock l'"
proof -
  obtain bs rs1 where rs: "rs = Got bs # rs1" "bs \<noteq> []" "all_got rs1"
    using assms(5,6) by (cases rs) (auto split: sys_read.splits)
  let ?b = "link_input l" let ?n = "Buffer_nice ?b"
  define b where "b = (if bsize ?n = 0 \<and> btotal ?n > BEST_BUFFER_SIZE then Buffer_shrink (int BEST_BUFFER_SIZE) ?n else ?n)"
  note n = Buffer_nice_inv [OF assms(1)] Buffer_nice_data [OF assms(1)]
  have b: "buffer_inv b" "Buffer_data b = Buffer_data ?b"
    using n Buffer_shrink_inv [OF n(1)] Buffer_shrink_data [OF n(1)] by (auto simp: b_def)
  have e: "Buffer_data ?b = [] \<longleftrightarrow> bsize ?b = 0" using length_Buffer_data [OF assms(1)] by auto
  have sp: "0 < Buffer_space b"
    using assms(2,3) e
    by (auto simp: b_def Buffer_space_def Buffer_nice_def Buffer_shrink_def BEST_BUFFER_SIZE_def Let_def split: if_splits)
  let ?k = "min (nat (Buffer_space b)) (length bs)"
  have k: "0 < ?k" using sp rs(2) by simp
  have w: "buffer_inv (Buffer_write (take (nat (Buffer_space b)) bs) b)"
      "Buffer_data (Buffer_write (take (nat (Buffer_space b)) bs) b) = Buffer_data ?b @ take (nat (Buffer_space b)) bs"
    using Buffer_write_correct [OF b(1), of "take (nat (Buffer_space b)) bs"] sp b(2) by auto
  have tk: "take (nat (Buffer_space b)) bs = take ?k (stream rs)" by (auto simp: rs(1) min_def)
  let ?rs' = "if drop (nat (Buffer_space b)) bs \<noteq> [] then Got (drop (nat (Buffer_space b)) bs) # rs1 else rs1"
  have "Link_read rs l = (l\<lparr>link_input := Buffer_write (take (nat (Buffer_space b)) bs) b\<rparr>, int ?k, ?rs')"
    using sp rs(1,2) assms(4) by (simp add: Link_read_def Let_def b_def [symmetric] min.commute)
  moreover have "stream ?rs' = drop ?k (stream rs)" by (auto simp: rs(1) min_def)
  moreover have "all_got ?rs'" using rs(3) by simp
  moreover have "?k \<le> length (stream rs)" by (simp add: rs(1))
  ultimately show ?thesis using w k assms(4) tk
    by (intro exI [of _ "l\<lparr>link_input := Buffer_write (take (nat (Buffer_space b)) bs) b\<rparr>"] exI [of _ ?k] exI [of _ ?rs']) simp
qed

lemma prefix_cases:
  assumes "d @ x = p @ r"
  shows "(\<exists>y. d = p @ y \<and> r = y @ x) \<or> strict_prefix d p \<and> x \<noteq> []"
  using assms by (auto simp: append_eq_append_conv2 strict_prefix_def)

lemma Link_response_packet:
  assumes "buffer_inv (link_input l)" and "0 < btotal (link_input l)" and "\<not> link_noblock l" and "all_got rs" and "pkt \<noteq> []"
    and "Buffer_data (link_input l) @ stream rs = packet_image pkt @ rest"
    and "length (packet_image pkt @ rest) < 2 ^ 31 - 40" and "int (length (packet_image pkt)) \<le> MAX_PACKET_SIZE"
    and "\<forall>k < 2 ^ 31. alloc k" and "length (packet_image pkt) - length (Buffer_data (link_input l)) < fuel"
  shows "\<exists>l'. Link_response fuel alloc dbl en rs l = Some (l', Recv pkt)"
  using assms(1-4,6,10)
proof (induction fuel arbitrary: l rs)
  case (Suc fuel)
  let ?d = "Buffer_data (link_input l)" and ?p = "packet_image pkt"
  show ?case
  proof (cases "\<exists>y. ?d = ?p @ y")
    case True
    then obtain y where y: "?d = ?p @ y" ..
    have "length (?p @ y) < 2 ^ 31 - 40" using assms(7) Suc.prems(5) y by (metis append_assoc length_append le_add1 le_less_trans)
    from Link_recv_packet [OF Suc.prems(1) y assms(5) this assms(8), of alloc dbl en] assms(5) show ?thesis
      by (cases pkt) simp_all
  next
    case False
    with prefix_cases [OF Suc.prems(5)] have sp: "strict_prefix ?d ?p" and ne: "stream rs \<noteq> []" by auto
    from Link_recv_partial [OF Suc.prems(1) sp assms(5,8,9), of dbl en] obtain l1 where
      l1: "Link_recv alloc dbl en l = (l1, en, Recv [])" "buffer_inv (link_input l1)" "Buffer_data (link_input l1) = ?d"
        "link_noblock l1 = link_noblock l" "?d = [] \<longrightarrow> link_input l1 = link_input l" "?d \<noteq> [] \<longrightarrow> 0 < Buffer_space (link_input l1)"
      by blast
    have "rs \<noteq> []" using ne by auto
    then obtain l2 n rs2 where l2: "Link_read rs l1 = (l2, int n, rs2)" "0 < n" "Buffer_data (link_input l2) = ?d @ take n (stream rs)"
        "stream rs2 = drop n (stream rs)" "n \<le> length (stream rs)" "all_got rs2" "buffer_inv (link_input l2)" "\<not> link_noblock l2"
      using Link_read_stream [OF l1(2), of rs] Suc.prems(2-4) l1(3-6) by (metis (no_types, lifting))
    have d2: "Buffer_data (link_input l2) @ stream rs2 = ?p @ rest" using Suc.prems(5) by (simp add: l2(3,4))
    have "Buffer_data (link_input l2) \<noteq> []" using l2(2,3,5) by auto
    then have "0 < btotal (link_input l2)"
      using length_Buffer_data [OF l2(7)] l2(7) unfolding buffer_inv_def by (metis add_is_0 gr0I le_0_eq length_0_conv)
    moreover have "length ?p - length (Buffer_data (link_input l2)) < fuel"
      using Suc.prems(6) l2(2,3,5) prefix_length_less [OF sp] by simp
    ultimately have "\<exists>l'. Link_response fuel alloc dbl en rs2 l2 = Some (l', Recv pkt)"
      by (intro Suc.IH l2(6-8) d2)
    then show ?thesis using l1(1) l2(1,2) by simp
  qed
qed simp

text \<open>Sending: the output of a link that is not a redis link.\<close>

lemma Buffer_grown_correct:
  "buffer_inv b \<Longrightarrow> \<forall>k < 2 ^ 31. alloc k \<Longrightarrow> sz + int (data_off b + bsize b) < 2 ^ 30 \<Longrightarrow>
    buffer_inv (Buffer_grown alloc sz b) \<and> Buffer_data (Buffer_grown alloc sz b) = Buffer_data b \<and>
    sz \<le> Buffer_space (Buffer_grown alloc sz b) \<and> data_off (Buffer_grown alloc sz b) = data_off b \<and>
    bsize (Buffer_grown alloc sz b) = bsize b"
proof (induction alloc sz b rule: Buffer_grown.induct)
  case (1 alloc sz b)
  show ?case
  proof (cases "sz > Buffer_space b")
    case True
    then have "btotal b < 2 ^ 30" using "1.prems"(3) by (simp add: Buffer_space_def)
    then obtain c where c: "Buffer_grow alloc b = Some c" using Buffer_grow_succeeds [OF "1.prems"(2), of b] by fastforce
    have eq: "data_off c = data_off b" "bsize c = bsize b" using c by (auto simp: Buffer_grow_def Let_def split: if_splits)
    have "Buffer_grown alloc sz b = Buffer_grown alloc sz c" using True c by (simp add: Buffer_grown.simps [of alloc sz b])
    then show ?thesis
      using "1.IH" [OF True c Buffer_grow_inv [OF "1.prems"(1) c] "1.prems"(2)] "1.prems"(3) eq Buffer_grow_data [OF "1.prems"(1) c] by simp
  next
    case False
    then show ?thesis using "1.prems"(1) by (simp add: Buffer_grown.simps [of alloc sz b])
  qed
qed

lemma Buffer_put_sized_correct:
  assumes "buffer_inv b" and "\<forall>k < 2 ^ 31. alloc k" and "sz + int (data_off b + bsize b) < 2 ^ 30" and "int (length bs) \<le> sz"
  shows "buffer_inv (Buffer_put_sized alloc sz bs b) \<and> Buffer_data (Buffer_put_sized alloc sz bs b) = Buffer_data b @ bs \<and>
    data_off (Buffer_put_sized alloc sz bs b) = data_off b \<and> bsize (Buffer_put_sized alloc sz bs b) = bsize b + length bs"
proof -
  note g = Buffer_grown_correct [OF assms(1-3)]
  have "Buffer_put_sized alloc sz bs b = Buffer_write bs (Buffer_grown alloc sz b)"
    using g by (simp add: Buffer_put_sized_def Let_def)
  then show ?thesis using g Buffer_write_correct [of "Buffer_grown alloc sz b" bs] assms(4) by (simp add: Buffer_write_def)
qed

lemma put_records_correct:
  assumes "buffer_inv b" and "\<forall>k < 2 ^ 31. alloc k" and "int (length (concat (map record_image pkt))) + int (data_off b + bsize b) < 2 ^ 30 - 20"
  shows "buffer_inv (fold (put_record alloc) pkt b) \<and> Buffer_data (fold (put_record alloc) pkt b) = Buffer_data b @ concat (map record_image pkt) \<and>
    data_off (fold (put_record alloc) pkt b) + bsize (fold (put_record alloc) pkt b) = data_off b + bsize b + length (concat (map record_image pkt))"
  using assms(1,3)
proof (induction pkt arbitrary: b)
  case (Cons s pkt)
  have l: "length s + 2 \<le> length (record_image s)" "length s < 2 ^ 31"
    using Cons.prems(2) by (simp_all add: record_image_decimal)
  have w: "wrap32 (16 + int (length s) + 1) = 17 + int (length s)" using Cons.prems(2) l(1) by (simp add: in_int32_def)
  have "int (length (record_image s)) \<le> 17 + int (length s)" using length_record_image [OF l(2)] by simp
  moreover have "17 + int (length s) + int (data_off b + bsize b) < 2 ^ 30" using Cons.prems(2) l(1) by simp
  ultimately have p: "buffer_inv (put_record alloc s b)" "Buffer_data (put_record alloc s b) = Buffer_data b @ record_image s"
      "data_off (put_record alloc s b) = data_off b" "bsize (put_record alloc s b) = bsize b + length (record_image s)"
    using Buffer_put_sized_correct [OF Cons.prems(1) assms(2), of "17 + int (length s)" "record_image s"]
    unfolding put_record_def w by simp_all
  from Cons.IH [OF p(1)] Cons.prems(2) p show ?case by simp
qed simp

lemma Link_send_correct:
  assumes "buffer_inv (link_output l)" and "\<forall>k < 2 ^ 31. alloc k" and "redis l = None" and "pkt \<noteq> []"
    and "int (length (packet_image pkt)) + int (data_off (link_output l) + bsize (link_output l)) < 2 ^ 30 - 20"
  shows "Buffer_data (link_output (Link_send alloc pkt l)) = Buffer_data (link_output l) @ packet_image pkt \<and>
    buffer_inv (link_output (Link_send alloc pkt l))"
proof -
  let ?b = "fold (put_record alloc) pkt (link_output l)"
  have b: "buffer_inv ?b" "Buffer_data ?b = Buffer_data (link_output l) @ concat (map record_image pkt)"
      "1 + int (data_off ?b + bsize ?b) < 2 ^ 30"
    using put_records_correct [OF assms(1,2), of pkt] assms(5) by (auto simp: packet_image_def)
  have "wrap32 1 = 1" by (simp add: in_int32_def)
  then show ?thesis
    using Buffer_put_sized_correct [OF b(1) assms(2) b(3), of "[CHR 0x0A]"] assms(3,4) b(2)
    by (simp add: Link_send_def send_packet_def Buffer_put_def packet_image_def)
qed

subsection \<open>Properties\<close>

text \<open>C12. What one side of a connection sends, the other receives, however the network cuts the bytes into pieces:
  \<open>send\<close> puts one image of the packet into the output, and \<open>response\<close> on the other side, when the reads deliver these
  bytes in any pieces with anything after them, returns exactly that packet, after at most one read per byte.\<close>

theorem packet_delivered:
  assumes "buffer_inv (link_output a)" and "Buffer_data (link_output a) = []" and "redis a = None" and "pkt \<noteq> []"
    and "\<forall>k < 2 ^ 31. alloc k" and "buffer_inv (link_input b)" and "0 < btotal (link_input b)" and "Buffer_data (link_input b) = []"
    and "\<not> link_noblock b" and "all_got rs" and "stream rs = Buffer_data (link_output (Link_send alloc pkt a)) @ rest"
    and "length (packet_image pkt) \<le> 128 * 1024 * 1024" and "length rest < 2 ^ 30" and "data_off (link_output a) < 2 ^ 29"
    and "length (packet_image pkt) < fuel"
  shows "\<exists>b'. Link_response fuel alloc dbl en rs b = Some (b', Recv pkt)"
proof -
  have "bsize (link_output a) = 0" using assms(2) length_Buffer_data [OF assms(1)] by simp
  then have "stream rs = packet_image pkt @ rest"
    using Link_send_correct [OF assms(1,5,3,4)] assms(2,11,12,14) by simp
  with assms show ?thesis
    by (intro Link_response_packet [where rest = rest]) (simp_all add: MAX_PACKET_SIZE_def)
qed

theorem packet_delivered_witness:
  "\<exists>b' rs. stream rs = Buffer_data (link_output (Link_send (\<lambda>_. True) [''get'', ''k''] Link_new)) \<and> length rs = length (stream rs) \<and>
     Link_response 100 (\<lambda>_. True) (\<lambda>_. 0) 0 rs Link_new = Some (b', Recv [''get'', ''k''])"
proof -
  let ?rs = "map (\<lambda>c. Got [c]) (packet_image [''get'', ''k''])"
  have i: "buffer_inv (Buffer_new n)" "Buffer_data (Buffer_new n) = []" for n
    by (rule buffer_inv_new) (simp add: Buffer_new_def Buffer_data_def)
  have len: "length (packet_image [''get'', ''k'']) = 11" by code_simp
  have st: "stream (map (\<lambda>c. Got [c]) xs) = xs" "all_got (map (\<lambda>c. Got [c]) xs)" for xs by (induction xs) simp_all
  have out: "Buffer_data (link_output (Link_send (\<lambda>_. True) [''get'', ''k''] Link_new)) = packet_image [''get'', ''k'']"
    using Link_send_correct [of Link_new "\<lambda>_. True" "[''get'', ''k'']"] i len
    by (simp add: Link_new_def) (simp add: Buffer_new_def)
  have "\<exists>b'. Link_response 100 (\<lambda>_. True) (\<lambda>_. 0) 0 ?rs Link_new = Some (b', Recv [''get'', ''k''])"
    by (rule packet_delivered [where a = Link_new and rest = "[]"])
       (use i len out st in \<open>simp_all add: Link_new_def\<close>, simp_all add: Buffer_new_def INIT_BUFFER_SIZE_def)
  then show ?thesis using out st(1) by (metis length_map)
qed

lemma wrap32_diff: "wrap32 (a - wrap32 b) = wrap32 (a - b)"
proof -
  have "a - ((b + 2 ^ 31) mod 2 ^ 32 - 2 ^ 31) + 2 ^ 31 = a + 2 ^ 32 - (b + 2 ^ 31) mod (2 ^ 32 :: int)" by simp
  then have "(a - ((b + 2 ^ 31) mod 2 ^ 32 - 2 ^ 31) + 2 ^ 31) mod 2 ^ 32 = (a + 2 ^ 32 - (b + 2 ^ 31)) mod (2 ^ 32 :: int)"
    by (simp only: mod_diff_right_eq)
  also have "a + 2 ^ 32 - (b + 2 ^ 31) = a - b + 2 ^ 31" by simp
  finally show ?thesis by (simp only: wrap32_def)
qed

lemma recv_loop_in_bounds: "length d < 2 ^ 31 \<Longrightarrow> recv_loop d parsed acc \<noteq> K_oob"
proof (induction d parsed acc rule: recv_loop.induct)
  case (1 d parsed acc)
  let ?h = "length (takeWhile (\<lambda>c. c \<noteq> CHR 0x0A) d) + 1" and ?b = "atoi (takeWhile (\<lambda>c. c \<noteq> CHR 0x0A) d)"
  have h: "?h \<le> length d" if "CHR 0x0A \<in> set d"
    using that by (induction d) auto
  have b: "?b < 2 ^ 31" using in_int32_wrap32 unfolding atoi_def in_int32_def by blast
  have w: "wrap32 (int (length d) - wrap32 (int ?h + ?b)) = int (length d) - int ?h - ?b" if "CHR 0x0A \<in> set d" "0 \<le> ?b"
  proof -
    have "wrap32 (int (length d) - wrap32 (int ?h + ?b)) = wrap32 (int (length d) - int ?h - ?b)"
      by (simp only: wrap32_diff diff_diff_eq)
    also have "\<dots> = int (length d) - int ?h - ?b" using h [OF that(1)] b that(2) "1.prems" by (intro wrap32_id) (simp add: in_int32_def)
    finally show ?thesis .
  qed
  have ih: "recv_loop (drop n (drop (?h + nat ?b) d)) p a \<noteq> K_oob"
    if "CHR 0x0A \<in> set d" "\<not> (?h = 1 \<or> ?h = 2 \<and> d ! 0 = CHR 0x0D)" "isdigit (d ! 0)" "\<not> 19 < ?h" "0 \<le> ?b"
      "\<not> wrap32 (int (length d) - wrap32 (int ?h + ?b)) < 0" "?h + nat ?b \<le> length d"
      "record_end (drop (?h + nat ?b) d) = Some n" "p = parsed + int ?h + ?b + int n" "\<not> p > MAX_PACKET_SIZE"
      "a = acc @ [take (nat ?b) (drop ?h d)]" for n p a
    unfolding that(9,11)
    by (rule "1.IH" [OF _ refl refl _ _ _ refl _ _ _ refl refl refl that(8)])
       (use that "1.prems" in \<open>simp_all add: not_less\<close>)
  show ?case
    unfolding recv_loop.simps [of d] Let_def
    using ih w by (auto simp: not_less split: option.split)
qed

lemma skip_lines_le: "skip_lines n m \<le> n" "skip_lines n m \<le> length m"
  by (induction n m rule: skip_lines.induct) auto

lemma skip_lines_all:
  "n \<le> length m \<Longrightarrow> skip_lines n m = n \<longleftrightarrow> (\<forall>c \<in> set (take n m). c = CHR 0x0A \<or> c = CHR 0x0D)"
  by (induction n m rule: skip_lines.induct) auto

text \<open>Where \<open>strtol\<close> runs out of the block: from the byte after some position of the data on, the block holds white
  space, at most one sign and digits, and nothing else.\<close>

lemma parse_loop_oob:
  "fst (parse_loop en m sz parsed num_args acc) = P_oob \<Longrightarrow> \<exists>i < sz. strtol_end (drop (Suc i) m) = []"
proof (induction sz arbitrary: en m parsed num_args acc rule: less_induct)
  case (less sz)
  show ?case
  proof (cases "sz = 0 \<or> CHR 0x0A \<notin> set (take sz m) \<or> strtol_end (drop 1 m) = []")
    case True
    then show ?thesis using less.prems by (auto simp: parse_loop.simps [of en m] split: if_splits)
  next
    case False
    have IH: "sz' \<le> sz - Suc j \<longrightarrow> (\<exists>i < sz. strtol_end (drop (Suc i) m) = [])"
      if "fst (parse_loop en' (drop (Suc j) m) sz' p na a) = P_oob" for en' sz' p na a j
    proof
      assume j: "sz' \<le> sz - Suc j"
      then have "sz' < sz" using False by auto
      from less.IH [OF this that] obtain i where "i < sz'" "strtol_end (drop (Suc i) (drop (Suc j) m)) = []" by auto
      with j show "\<exists>i < sz. strtol_end (drop (Suc i) m) = []" by (intro exI [of _ "i + Suc j"]) auto
    qed
    let ?line = "length (takeWhile (\<lambda>c. c \<noteq> CHR 0x0A) m) + 1"
    from less.prems False consider
      (line) en' p na a where "fst (parse_loop en' (drop ?line m) (sz - ?line) p na a) = P_oob"
    | (arg) en' p na a n lf where "fst (parse_loop en' (drop lf (drop (n + 1) (drop ?line m))) (sz - ?line - (n + 1) - lf) p na a) = P_oob"
      by (subst (asm) parse_loop.simps) (simp only: Let_def if_False de_Morgan_disj fst_conv parse_status.distinct split: if_split_asm; blast)
    then show ?thesis
    proof cases
      case line
      then show ?thesis using IH [of _ "?line - 1"] by simp
    next
      case (arg en' p na a n lf)
      then have "fst (parse_loop en' (drop (Suc (n + ?line + lf)) m) (sz - ?line - (n + 1) - lf) p na a) = P_oob"
        by (simp add: add.commute add.left_commute)
      from IH [OF this] show ?thesis by simp
    qed
  qed
qed

lemma recv_req_oob:
  assumes "snd (snd (snd (recv_req alloc dbl en b r))) = Recv_oob"
    and "drop (skip_lines (bsize b) (drop (data_off b) (buf b))) (drop (data_off b) (buf b)) \<noteq> []"
  shows "\<exists>i < bsize b. strtol_end (drop (data_off b + Suc i) (buf b)) = []"
proof -
  let ?k = "skip_lines (bsize b) (drop (data_off b) (buf b))"
  have "fst (parse_loop en (drop ?k (drop (data_off b) (buf b))) (bsize b - ?k) ?k 0 []) = P_oob"
    using assms by (auto simp: recv_req_def parse_req_def Let_def split: parse_status.splits prod.splits list.splits recv_result.splits if_splits)
  from parse_loop_oob [OF this] obtain i where "i < bsize b - ?k" "strtol_end (drop (Suc i) (drop ?k (drop (data_off b) (buf b)))) = []" by blast
  then show ?thesis by (intro exI [of _ "i + ?k"]) (auto simp: add.commute add.left_commute)
qed

lemma Link_recv_redis:
  assumes "bsize (link_input l) \<noteq> 0"
    and "drop (skip_lines (bsize (link_input l)) (drop (data_off (link_input l)) (buf (link_input l)))) (drop (data_off (link_input l)) (buf (link_input l))) \<noteq> []"
    and "hd (drop (skip_lines (bsize (link_input l)) (drop (data_off (link_input l)) (buf (link_input l)))) (drop (data_off (link_input l)) (buf (link_input l)))) = CHR ''*''"
    and "recv_req alloc dbl en (link_input l) (case redis l of None \<Rightarrow> RedisLink_new | Some r \<Rightarrow> r) = (b', r', en', res)"
  shows "snd (snd (Link_recv alloc dbl en l)) = res"
  using assms by (simp add: Link_recv_def Let_def Buffer_empty_def del: drop_eq_Nil drop_drop split: recv_result.split)

lemma Link_recv_own:
  assumes "bsize (link_input l) \<noteq> 0"
    and "drop (skip_lines (bsize (link_input l)) (drop (data_off (link_input l)) (buf (link_input l)))) (drop (data_off (link_input l)) (buf (link_input l))) \<noteq> []"
    and "hd (drop (skip_lines (bsize (link_input l)) (drop (data_off (link_input l)) (buf (link_input l)))) (drop (data_off (link_input l)) (buf (link_input l)))) \<noteq> CHR ''*''"
  shows "snd (snd (Link_recv alloc dbl en l)) =
    (case recv_loop (drop (skip_lines (bsize (link_input l)) (drop (data_off (link_input l)) (buf (link_input l)))) (Buffer_data (link_input l)))
        (int (skip_lines (bsize (link_input l)) (drop (data_off (link_input l)) (buf (link_input l))))) [] of
       K_null \<Rightarrow> Recv_null | K_oob \<Rightarrow> Recv_oob | K_done _ ds \<Rightarrow> Recv ds
     | K_more \<Rightarrow> if snd (make_room alloc (link_input l)) then Recv [] else Recv_null)"
  using assms by (simp add: Link_recv_def Let_def Buffer_empty_def case_prod_unfold del: drop_eq_Nil drop_drop split: packet_status.split)


text \<open>Both cases: a line end that fills the block, and the beginning of a redis request that does.\<close>

definition full_input :: "bytes \<Rightarrow> link" where
  "full_input d = Link_new\<lparr>link_input := \<lparr>buf = d, data_off = 0, bsize = length d, btotal = length d\<rparr>\<rparr>"


end
