(* ===== verification/Sync.thy ===== *)
theory Sync
  imports Replay SSDBImpl Link
begin

section \<open>The master's side of replication (\<open>backend_sync.cpp\<close>, \<open>backend_dump.cpp\<close>)\<close>

text \<open>
  A slave that connects gets a thread of the master with a \<open>Client\<close>. The thread sends packets of a log and, for a new
  value, the value that the key has now. A client that has nothing yet is first sent a copy of the store; logs of
  keys that the copy has not reached are dropped. The packets that wait in the output buffer of the link are the
  list \<open>out\<close>.
\<close>

datatype client_status = C_INIT | C_OUT_OF_SYNC | C_COPY | C_SYNC

record client =
  c_status :: client_status
  c_seq :: u64
  last_noop_seq :: u64
  c_key :: bytes
  c_mirror :: bool
  c_iter :: "iterator option"
  c_out :: "bytes list list"

definition Client_new :: client where
  "Client_new = \<lparr>c_status = C_INIT, c_seq = 0, last_noop_seq = 0, c_key = [], c_mirror = False, c_iter = None, c_out = []\<rparr>"

definition client_send :: "bytes list \<Rightarrow> client \<Rightarrow> client" where
  "client_send p c = c\<lparr>c_out := c_out c @ [p]\<rparr>"

definition out_size :: "client \<Rightarrow> nat" where
  "out_size c = sum_list (map (\<lambda>p. length (packet_image p)) (c_out c))"

definition Client_stats :: "bytes \<Rightarrow> int \<Rightarrow> client \<Rightarrow> bytes" where
  "Client_stats ip port c =
     ''client '' @ ip @ '':'' @ str_int port @ [CHR 0x0A] @
     ''    type     : '' @ (if c_mirror c then ''mirror'' else ''sync'') @ [CHR 0x0A] @
     ''    status   : '' @ (case c_status c of C_INIT \<Rightarrow> ''INIT'' | C_OUT_OF_SYNC \<Rightarrow> ''OUT_OF_SYNC'' | C_COPY \<Rightarrow> ''COPY'' | C_SYNC \<Rightarrow> ''SYNC'') @ [CHR 0x0A] @
     ''    last_seq : '' @ str_uint64 (c_seq c)"

definition Client_reset :: "client \<Rightarrow> client" where
  "Client_reset c = (let c = c\<lparr>c_status := C_COPY, c_seq := 0, c_key := []\<rparr>
     in client_send [Binlog_make (c_seq c) (binlog_type_char BT_COPY) (binlog_cmd_char BC_BEGIN) [], ''copy_begin''] c)"

definition Client_out_of_sync :: "client \<Rightarrow> client" where
  "Client_out_of_sync c = client_send [Binlog_make (c_seq c) (binlog_type_char BT_CTRL) (binlog_cmd_char BC_NONE) ''OUT_OF_SYNC''] (c\<lparr>c_status := C_OUT_OF_SYNC\<rparr>)"

definition Client_noop :: "client \<Rightarrow> client" where
  "Client_noop c =
     (let (sq, c) = (if c_status c = C_COPY \<and> c_key c = [] then (0, c) else (c_seq c, c\<lparr>last_noop_seq := c_seq c\<rparr>))
      in client_send [Binlog_make sq (binlog_type_char BT_NOOP) (binlog_cmd_char BC_NONE) [], ''noop''] c)"

definition copy_end :: "client \<Rightarrow> client" where
  "copy_end c = client_send [Binlog_make (c_seq c) (binlog_type_char BT_COPY) (binlog_cmd_char BC_END) [], ''copy_end''] c"

definition Client_init :: "bytes list \<Rightarrow> ssdb \<Rightarrow> client \<Rightarrow> client" where
  "Client_init req s c =
     (let c = c\<lparr>c_seq := (if length req > 1 then Bytes_Uint64 (req ! 1) else 0)\<rparr>;
          c = c\<lparr>c_key := (if length req > 2 then req ! 2 else [])\<rparr>;
          c = (if length req > 3 \<and> req ! 3 = ''mirror'' then c\<lparr>c_mirror := True\<rparr> else c)
      in if c_seq c \<noteq> 0 \<and> (c_seq c > last_seq (binlogs s) \<or> c_seq c < min_seq (binlogs s)) then Client_out_of_sync c
         else if c_key c = [] \<and> c_seq c \<noteq> 0 then copy_end (c\<lparr>c_status := C_SYNC\<rparr>)
         else if c_key c = [] \<and> c_seq c = 0 then Client_reset c
         else c\<lparr>c_status := C_COPY\<rparr>)"

subsection \<open>Copying\<close>

text \<open>
  The loop of \<open>Client_copy\<close> has at most a thousand rounds. \<open>slow i\<close>: after the \<open>i\<close>-th packet more than three seconds have
  passed. The first bytes of keys are compared as signed characters.
\<close>

definition copy_cmd :: "char \<Rightarrow> BinlogCommand option" where
  "copy_cmd t =
     (if t = type_char KV then Some BC_KSET else if t = type_char HASH then Some BC_HSET
      else if t = type_char ZSET then Some BC_ZSET else if t = type_char QUEUE then Some BC_QPUSH_BACK else None)"

fun copy_loop :: "(nat \<Rightarrow> bool) \<Rightarrow> nat \<Rightarrow> iterator \<Rightarrow> nat \<Rightarrow> client \<Rightarrow> client \<times> int" where
  "copy_loop slow 0 it ret c = (c\<lparr>c_iter := Some it\<rparr>, int ret)"
| "copy_loop slow (Suc n) it ret c =
     (if out_size c > 2 * 1024 * 1024 then (c\<lparr>c_iter := Some it\<rparr>, int ret)
      else case Iterator_next it of
             (it, False) \<Rightarrow> (copy_end (c\<lparr>c_status := C_SYNC, c_iter := None\<rparr>), 1)
           | (it, True) \<Rightarrow>
               let key = Iterator_key it
               in if key = [] then copy_loop slow n it ret c
                  else if schar (key ! 0) > schar (type_char ZSET) then (copy_end (c\<lparr>c_status := C_SYNC, c_iter := None\<rparr>), 1)
                  else let c = c\<lparr>c_key := key\<rparr>
                       in case copy_cmd (key ! 0) of
                            None \<Rightarrow> copy_loop slow n it ret c
                          | Some cm \<Rightarrow>
                              let c = client_send [Binlog_make (c_seq c) (binlog_type_char BT_COPY) (binlog_cmd_char cm) key, Iterator_val it] c
                              in if slow (Suc ret) then (c\<lparr>c_iter := Some it\<rparr>, int (Suc ret))
                                 else copy_loop slow n it (Suc ret) c)"

definition Client_copy :: "(nat \<Rightarrow> bool) \<Rightarrow> ssdb \<Rightarrow> client \<Rightarrow> client \<times> int" where
  "Client_copy slow s c =
     (let it = (case c_iter c of
                  Some it \<Rightarrow> it
                | None \<Rightarrow> ssdb_iterator (ldb s) (c_key c @ (if c_key c = [] then [type_char HASH] else [])) [] UINT64_MAX)
      in copy_loop slow 1000 it 0 c)"

subsection \<open>Sending logs\<close>

text \<open>
  The loop of \<open>Client_sync\<close> that looks for the log to send: it ends with a value to return (\<open>Inl\<close>) or a log (\<open>Inr\<close>). When a log
  cannot be loaded, the variable \<open>log\<close> still holds the one before it, or nothing: then its fields are read outside of
  its buffer (\<open>None\<close>, as for a loop that does not end).
\<close>

partial_function (option) sync_loop :: "ssdb \<Rightarrow> bytes option \<Rightarrow> client \<Rightarrow> (client \<times> (int + bytes)) option" where
  "sync_loop s log c =
     (let expect_seq = c_seq c + 1;
          found = (if c_status c = C_COPY \<and> c_seq c = 0 then bl_find_last (ldb s) else bl_find_next expect_seq (ldb s));
          log = (case found of FR_Log b \<Rightarrow> Some b | _ \<Rightarrow> log)
      in if found = FR_None then Some (c, Inl 0)
         else case log of
                None \<Rightarrow> None
              | Some b \<Rightarrow>
                  if c_status c = C_COPY \<and> Bytes_compare (Binlog_key b) (c_key c) > 0
                  then sync_loop s log (c\<lparr>c_seq := Binlog_seq b, c_iter := None\<rparr>)
                  else if c_seq c \<noteq> 0 \<and> Binlog_seq b \<noteq> expect_seq then Some (Client_out_of_sync c, Inl 1)
                  else let c = c\<lparr>c_seq := Binlog_seq b\<rparr>
                       in if Binlog_type b = binlog_type_char BT_MIRROR \<and> c_mirror c
                          then if c_seq c - last_noop_seq c \<ge> 1000 then Some (Client_noop c, Inl 1) else sync_loop s log c
                          else Some (c, Inr b))"

definition send_log :: "ssdb \<Rightarrow> bytes \<Rightarrow> client \<Rightarrow> client" where
  "send_log s b c =
     (let cm = Binlog_cmd b
      in if cm \<in> binlog_cmd_char ` {BC_KSET, BC_HSET, BC_ZSET, BC_QSET, BC_QPUSH_BACK, BC_QPUSH_FRONT}
         then case raw_get (Binlog_key b) s of Found v \<Rightarrow> client_send [b, v] c | _ \<Rightarrow> c
         else if cm \<in> binlog_cmd_char ` {BC_KDEL, BC_HDEL, BC_ZDEL, BC_QPOP_BACK, BC_QPOP_FRONT} then client_send [b] c
         else c)"

definition Client_sync :: "ssdb \<Rightarrow> client \<Rightarrow> (client \<times> int) option" where
  "Client_sync s c =
     (case sync_loop s None c of
        None \<Rightarrow> None
      | Some (c, Inl ret) \<Rightarrow> Some (c, ret)
      | Some (c, Inr b) \<Rightarrow> Some (send_log s b c, 1))"

text \<open>One round of the thread: \<open>idle\<close> counts the rounds without anything to send.\<close>

definition NOOP_IDLES :: nat where "NOOP_IDLES = 3000 div 300"

definition sync_round :: "(nat \<Rightarrow> bool) \<Rightarrow> ssdb \<Rightarrow> client \<times> nat \<Rightarrow> (client \<times> nat) option" where
  "sync_round slow s ci =
     (case ci of (c, idle) \<Rightarrow>
        (case (if c_status c = C_OUT_OF_SYNC then Some (c, True)
               else case Client_sync s c of
                      None \<Rightarrow> None
                    | Some (c, r) \<Rightarrow>
                        if c_status c = C_COPY then case Client_copy slow s c of (c, r') \<Rightarrow> Some (c, r = 0 \<and> r' = 0)
                        else Some (c, r = 0)) of
           None \<Rightarrow> None
         | Some (c, is_empty) \<Rightarrow>
             Some (if is_empty then if idle \<ge> NOOP_IDLES then (Client_noop c, 0) else (c, idle + 1) else (c, 0))))"

subsection \<open>Dumps\<close>

text \<open>
  The packets that a dump client is sent. \<open>flushes\<close>: the results of the calls of \<open>flush\<close>, which is called when 32 kilobytes
  are waiting and at the end; the list of packets is what has been handed to the link.
\<close>

function dump_loop :: "bool list \<Rightarrow> iterator \<Rightarrow> nat \<Rightarrow> nat \<Rightarrow> bytes list list" where
  "dump_loop flushes it count waiting =
     (case Iterator_next it of
        (it, False) \<Rightarrow> [[''end'', decimal_int (wrap32 (int count))]]
      | (it, True) \<Rightarrow>
          let p = [''set'', Iterator_key it, Iterator_val it]; waiting = waiting + length (packet_image p)
          in p # (if waiting < 32 * 1024 then dump_loop flushes it (Suc count) waiting
                  else case flushes of
                         [] \<Rightarrow> dump_loop [] it (Suc count) 0
                       | ok # flushes \<Rightarrow> if ok then dump_loop flushes it (Suc count) 0 else []))"
  by pat_completeness auto
termination
  by (relation "measure (\<lambda>(f, it, n, w). unat (it_limit it))") (auto dest: Iterator_next_limit [OF sym])

declare dump_loop.simps [simp del]

definition dump_run :: "bool list \<Rightarrow> bytes list \<Rightarrow> ssdb \<Rightarrow> bytes list list" where
  "dump_run flushes req s =
     (let start = (if length req > 1 then req ! 1 else []);
          start = (if start = [] then ''A'' else start);
          end = (if length req > 2 then req ! 2 else []);
          limit = (if length req > 3 then Bytes_Uint64 (req ! 3) else 10)
      in [''begin''] # dump_loop flushes (ssdb_iterator (ldb s) start end limit) 0 (length (packet_image [''begin''])))"

end
