(* ===== verification/Slave.thy ===== *)
theory Slave
  imports Sync
begin

section \<open>A slave (\<open>slave.cpp\<close>)\<close>

text \<open>
  A slave is a server with a thread that connects to a master, receives packets of a log and a value, and applies them
  to its own database. How far it has come, the number and the key of the last log, is kept in the database \<open>meta\<close>.
\<close>

datatype slave_status = S_DISCONNECTED | S_INIT | S_COPY | S_SYNC | S_OUT_OF_SYNC

record slave =
  sl_seq :: u64
  sl_key :: bytes
  copy_count :: u64
  sl_sync_count :: u64
  sl_id :: bytes
  sl_db :: ssdb
  sl_meta :: ssdb
  master_ip :: bytes
  master_port :: int
  sl_mirror :: bool
  log_type :: char
  sl_status :: slave_status
  connect_retry :: "32 word"
  sl_auth :: bytes
  connected :: bool

definition Slave_new :: "ssdb \<Rightarrow> ssdb \<Rightarrow> bytes \<Rightarrow> int \<Rightarrow> bool \<Rightarrow> slave" where
  "Slave_new db mt ip port mirror =
     \<lparr>sl_seq = 0, sl_key = [], copy_count = 0, sl_sync_count = 0, sl_id = take 127 (ip @ ''|'' @ decimal_int port),
      sl_db = db, sl_meta = mt, master_ip = ip, master_port = port, sl_mirror = mirror,
      log_type = binlog_type_char (if mirror then BT_MIRROR else BT_SYNC), sl_status = S_DISCONNECTED,
      connect_retry = 0, sl_auth = [], connected = False\<rparr>"

definition Slave_stats :: "slave \<Rightarrow> bytes" where
  "Slave_stats sl =
     ''slaveof '' @ master_ip sl @ '':'' @ str_int (master_port sl) @ [CHR 0x0A] @
     ''    id         : '' @ sl_id sl @ [CHR 0x0A] @
     (if sl_mirror sl then ''    type       : mirror'' else ''    type       : sync'') @ [CHR 0x0A] @
     ''    status     : '' @ (case sl_status sl of S_DISCONNECTED \<Rightarrow> ''DISCONNECTED'' | S_INIT \<Rightarrow> ''INIT'' | S_COPY \<Rightarrow> ''COPY''
       | S_SYNC \<Rightarrow> ''SYNC'' | S_OUT_OF_SYNC \<Rightarrow> ''OUT_OF_SYNC'') @ [CHR 0x0A] @
     ''    last_seq   : '' @ str_uint64 (sl_seq sl) @ [CHR 0x0A] @
     ''    copy_count : '' @ str_uint64 (copy_count sl) @ [CHR 0x0A] @
     ''    sync_count : '' @ str_uint64 (sl_sync_count sl)"

definition status_key :: "slave \<Rightarrow> bytes" where
  "status_key sl = ''slave.status.'' @ sl_id sl"

definition load_status :: "slave \<Rightarrow> slave" where
  "load_status sl =
     (let key = get_val (hget (status_key sl) ''last_key'' (sl_meta sl));
          sq = get_val (hget (status_key sl) ''last_seq'' (sl_meta sl));
          sl = (if key \<noteq> [] then sl\<lparr>sl_key := key\<rparr> else sl)
      in if sq \<noteq> [] then sl\<lparr>sl_seq := fst (str_to_uint64 0 sq)\<rparr> else sl)"

definition save_status :: "slave \<Rightarrow> slave" where
  "save_status sl =
     (let sq = str_uint64 (sl_seq sl);
          (m, r) = hset (status_key sl) ''last_key'' (sl_key sl) (binlog_type_char BT_SYNC) (sl_meta sl);
          (m, r) = hset (status_key sl) ''last_seq'' sq (binlog_type_char BT_SYNC) m
      in sl\<lparr>sl_meta := m\<rparr>)"

text \<open>\<open>None\<close>: the process exits.\<close>

definition migrate_old_status :: "slave \<Rightarrow> slave option" where
  "migrate_old_status sl =
     (let old_key = ''new.slave.status|'' @ sl_id sl; got = raw_get old_key (sl_meta sl)
      in if got = NotFound then Some sl
         else if length (get_val got) < 8 then Some sl
         else let sl = save_status (sl\<lparr>sl_seq := le64_word (take 8 (get_val got)), sl_key := drop 8 (get_val got)\<rparr>);
                  (m, r) = raw_del old_key (sl_meta sl)
              in if r = -1 then None else Some (sl\<lparr>sl_meta := m\<rparr>))"

definition Slave_start :: "slave \<Rightarrow> slave option" where
  "Slave_start sl = map_option load_status (migrate_old_status sl)"

text \<open>
  \<open>connect\<close>: what it sends to the master. Every fiftieth call tries; \<open>opened\<close>, \<open>flushed\<close> say whether the connection and the
  flush succeed, \<open>resp\<close> is the answer to the password, \<open>None\<close> when there is none: the code then reads through a null
  pointer, here \<open>None\<close>.
\<close>

definition Slave_connect :: "bool \<Rightarrow> bytes list option \<Rightarrow> bool \<Rightarrow> slave \<Rightarrow> (slave \<times> bytes list list \<times> int) option" where
  "Slave_connect opened resp flushed sl =
     (let sl = sl\<lparr>connect_retry := connect_retry sl + 1\<rparr>
      in if connect_retry sl mod 50 \<noteq> 1 then Some (sl, [], 0)
         else if \<not> opened then Some (sl, [], -1)
         else let sl = sl\<lparr>sl_status := S_INIT, connect_retry := 0\<rparr>;
                  hello = [''sync140'', str_uint64 (sl_seq sl), sl_key sl, if sl_mirror sl then ''mirror'' else ''sync''];
                  pw = (if sl_auth sl \<noteq> [] then [[''auth'', sl_auth sl]] else [])
              in if sl_auth sl \<noteq> [] \<and> resp = None then None
                 else if sl_auth sl \<noteq> [] \<and> (the resp = [] \<or> the resp ! 0 \<noteq> ''ok'') then Some (sl, pw, -1)
                 else if \<not> flushed then Some (sl, pw @ [hello], -1)
                 else Some (sl\<lparr>connected := True\<rparr>, pw @ [hello], 1))"

subsection \<open>Applying logs\<close>

definition sl_op :: "ssdb \<times> int \<Rightarrow> slave \<Rightarrow> slave \<times> bool" where
  "sl_op r sl = (sl\<lparr>sl_db := fst r\<rparr>, snd r \<noteq> -1)"

text \<open>The \<open>switch\<close> of \<open>proc_sync\<close>: the flag is \<open>False\<close> when the function returns -1 there.\<close>

definition sync_kv :: "bytes \<Rightarrow> bytes list \<Rightarrow> slave \<Rightarrow> slave \<times> bool" where
  "sync_kv b req sl =
     (if Binlog_cmd b = binlog_cmd_char BC_KSET
      then if length req \<noteq> 2 then (sl, True)
           else case decode_kv_key (Binlog_key b) of
                  None \<Rightarrow> (sl, True)
                | Some key \<Rightarrow> sl_op (ssdb_set key (req ! 1) (log_type sl) (sl_db sl)) sl
      else case decode_kv_key (Binlog_key b) of
             None \<Rightarrow> (sl, True)
           | Some key \<Rightarrow> sl_op (ssdb_del key (log_type sl) (sl_db sl)) sl)"

definition sync_hash :: "bytes \<Rightarrow> bytes list \<Rightarrow> slave \<Rightarrow> slave \<times> bool" where
  "sync_hash b req sl =
     (if Binlog_cmd b = binlog_cmd_char BC_HSET
      then if length req \<noteq> 2 then (sl, True)
           else case decode_hash_key (Binlog_key b) of
                  None \<Rightarrow> (sl, True)
                | Some (name, key) \<Rightarrow> sl_op (hset name key (req ! 1) (log_type sl) (sl_db sl)) sl
      else case decode_hash_key (Binlog_key b) of
             None \<Rightarrow> (sl, True)
           | Some (name, key) \<Rightarrow> sl_op (hdel name key (log_type sl) (sl_db sl)) sl)"

definition sync_zset :: "bytes \<Rightarrow> bytes list \<Rightarrow> slave \<Rightarrow> slave \<times> bool" where
  "sync_zset b req sl =
     (if Binlog_cmd b = binlog_cmd_char BC_ZSET
      then if length req \<noteq> 2 then (sl, True)
           else case decode_zset_key (Binlog_key b) of
                  None \<Rightarrow> (sl, True)
                | Some (name, key) \<Rightarrow> sl_op (zset name key (req ! 1) (log_type sl) (sl_db sl)) sl
      else case decode_zset_key (Binlog_key b) of
             None \<Rightarrow> (sl, True)
           | Some (name, key) \<Rightarrow> sl_op (zdel name key (log_type sl) (sl_db sl)) sl)"

definition sync_qput :: "bytes \<Rightarrow> bytes list \<Rightarrow> slave \<Rightarrow> slave \<times> bool" where
  "sync_qput b req sl =
     (if length req \<noteq> 2 then (sl, True)
      else case decode_qitem_key (Binlog_key b) of
             None \<Rightarrow> (sl, True)
           | Some (name, sq) \<Rightarrow>
               if sq < QITEM_MIN_SEQ \<or> sq > QITEM_MAX_SEQ then (sl, True)
               else sl_op (if Binlog_cmd b = binlog_cmd_char BC_QSET then qset_by_seq name sq (req ! 1) (log_type sl) (sl_db sl)
                           else if Binlog_cmd b = binlog_cmd_char BC_QPUSH_BACK then qpush_back name (req ! 1) (log_type sl) (sl_db sl)
                           else qpush_front name (req ! 1) (log_type sl) (sl_db sl)) sl)"

definition sync_qpop :: "bytes \<Rightarrow> slave \<Rightarrow> slave \<times> bool" where
  "sync_qpop b sl =
     (let (s, r, tmp) = (if Binlog_cmd b = binlog_cmd_char BC_QPOP_BACK then qpop_back (Binlog_key b) (log_type sl) (sl_db sl)
                         else qpop_front (Binlog_key b) (log_type sl) (sl_db sl))
      in sl_op (s, r) sl)"

definition sync_switch :: "bytes \<Rightarrow> bytes list \<Rightarrow> slave \<Rightarrow> slave \<times> bool" where
  "sync_switch b req sl =
     (let cm = Binlog_cmd b
      in if cm \<in> binlog_cmd_char ` {BC_KSET, BC_KDEL} then sync_kv b req sl
         else if cm \<in> binlog_cmd_char ` {BC_HSET, BC_HDEL} then sync_hash b req sl
         else if cm \<in> binlog_cmd_char ` {BC_ZSET, BC_ZDEL} then sync_zset b req sl
         else if cm \<in> binlog_cmd_char ` {BC_QSET, BC_QPUSH_BACK, BC_QPUSH_FRONT} then sync_qput b req sl
         else if cm \<in> binlog_cmd_char ` {BC_QPOP_BACK, BC_QPOP_FRONT} then sync_qpop b sl
         else (sl, True))"

definition proc_sync :: "bytes \<Rightarrow> bytes list \<Rightarrow> slave \<Rightarrow> slave \<times> int" where
  "proc_sync b req sl =
     (let (sl, ok) = sync_switch b req sl
      in if \<not> ok then (sl, -1)
         else let sl = sl\<lparr>sl_seq := Binlog_seq b\<rparr>;
                  sl = (if Binlog_type b = binlog_type_char BT_COPY then sl\<lparr>sl_key := Binlog_key b\<rparr> else sl)
              in (save_status sl, 0))"

definition proc_copy :: "bytes \<Rightarrow> bytes list \<Rightarrow> slave \<Rightarrow> slave \<times> int" where
  "proc_copy b req sl =
     (if Binlog_cmd b = binlog_cmd_char BC_BEGIN then (sl, 0)
      else if Binlog_cmd b = binlog_cmd_char BC_END then (save_status (sl\<lparr>sl_status := S_SYNC, sl_key := []\<rparr>), 0)
      else proc_sync b req (sl\<lparr>copy_count := copy_count sl + 1\<rparr>))"

definition proc_noop :: "bytes \<Rightarrow> slave \<Rightarrow> slave \<times> int" where
  "proc_noop b sl =
     (if sl_seq sl \<noteq> Binlog_seq b then (save_status (sl\<lparr>sl_seq := Binlog_seq b\<rparr>), 0) else (sl, 0))"

text \<open>\<open>proc\<close> does not look at what \<open>proc_copy\<close> and \<open>proc_sync\<close> return.\<close>

definition Slave_proc :: "bytes list \<Rightarrow> slave \<Rightarrow> slave \<times> int" where
  "Slave_proc req sl =
     (case Binlog_load (req ! 0) of
        None \<Rightarrow> (sl, 0)
      | Some b \<Rightarrow>
          if Binlog_type b = binlog_type_char BT_NOOP then proc_noop b sl
          else if Binlog_type b = binlog_type_char BT_CTRL
          then (if Binlog_key b = ''OUT_OF_SYNC'' then sl\<lparr>sl_status := S_OUT_OF_SYNC\<rparr> else sl, 0)
          else if Binlog_type b = binlog_type_char BT_COPY then (fst (proc_copy b req (sl\<lparr>sl_status := S_COPY\<rparr>)), 0)
          else if Binlog_type b = binlog_type_char BT_SYNC \<or> Binlog_type b = binlog_type_char BT_MIRROR
          then (fst (proc_sync b req (sl\<lparr>sl_status := S_SYNC, sl_sync_count := sl_sync_count sl + 1\<rparr>)), 0)
          else (sl, 0))"

text \<open>
  The inner loop of the thread, over the packets that \<open>recv\<close> finds in the buffer; the last may be an error. The flag is
  \<open>reconnect\<close>; \<open>None\<close> is the end of the process.
\<close>

fun recv_packets :: "bytes list list \<Rightarrow> bool \<Rightarrow> slave \<Rightarrow> (slave \<times> bool) option" where
  "recv_packets [] broken sl = Some (sl, broken)"
| "recv_packets (req # reqs) broken sl =
     (if req ! 0 = ''noauth'' then Some (sl, True)
      else case Slave_proc req sl of (sl, r) \<Rightarrow> if r = -1 then None else recv_packets reqs broken sl)"

text \<open>
  One round of the thread. What it meets is an event: the outcome of \<open>connect\<close> when it has no link, otherwise a wait
  that fails or is idle, a read that fails, or packets. The third part of the state counts idle waits.
\<close>

datatype slave_event =
    Connect bool "bytes list option" bool
  | Wait_error
  | Wait_idle
  | Read_error
  | Packets "bytes list list" bool

definition MAX_RECV_IDLE :: nat where "MAX_RECV_IDLE = 15 * 1000 div 200"

definition slave_round :: "slave_event \<Rightarrow> slave \<times> bool \<times> nat \<Rightarrow> (slave \<times> bool \<times> nat) option" where
  "slave_round ev st =
     (case st of (sl, reconnect, idle) \<Rightarrow>
        (let sl = (if reconnect then sl\<lparr>sl_status := S_DISCONNECTED, connected := False\<rparr> else sl)
         in if \<not> connected sl
            then (case ev of
                    Connect opened resp flushed \<Rightarrow>
                      (case Slave_connect opened resp flushed sl of None \<Rightarrow> None | Some (sl, _, _) \<Rightarrow> Some (sl, False, idle))
                  | _ \<Rightarrow> Some (sl, False, idle))
            else case ev of
                   Wait_idle \<Rightarrow> if idle \<ge> MAX_RECV_IDLE then Some (sl, True, 0) else Some (sl, False, idle + 1)
                 | Read_error \<Rightarrow> Some (sl, True, 0)
                 | Packets ps broken \<Rightarrow>
                     (case recv_packets ps broken sl of None \<Rightarrow> None | Some (sl, reconnect) \<Rightarrow> Some (sl, reconnect, 0))
                 | _ \<Rightarrow> Some (sl, False, idle)))"

end
