(* ===== verification/Replication.thy ===== *)
theory Replication
  imports Slave
begin

section \<open>A slave follows its master\<close>

text \<open>
  The two sides together: what a client of the master sends is what the slave receives, packet by packet.
\<close>

lemma tracked_encode [simp]: "tracked (encode_kv_key k)" "tracked (encode_hash_key n k)" "tracked (encode_zset_key n k)"
  by (simp_all add: tracked_def)

lemma tracked_neq [simp]:
  "tracked x \<Longrightarrow> x \<noteq> encode_hsize_key n" "tracked x \<Longrightarrow> x \<noteq> encode_zsize_key n" "tracked x \<Longrightarrow> x \<noteq> encode_zscore_key n k sc"
  by (auto simp: tracked_def)

subsection \<open>What the operations of a slave do to tracked keys\<close>

lemma hset_tracked:
  assumes "io_ok s" and "hname_ok n" and "hname_ok k" and "tracked x"
  shows "data_map (fst (hset n k v lt s)) x = ((data_map s)(encode_hash_key n k \<mapsto> v)) x"
proof -
  have get: "hget n k s = (case data_map s (encode_hash_key n k) of None \<Rightarrow> NotFound | Some v \<Rightarrow> Found v)"
    using assms(1) by (simp add: hget_def ldb_Get_data io_ok_def)
  have ok: "n \<noteq> []" "k \<noteq> []" "\<not> length n > SSDB_KEY_LEN_MAX" "\<not> length k > SSDB_KEY_LEN_MAX"
    using assms(2,3) by (auto simp: hname_ok_def name_ok_def)
  have io: "kv_sorted (entries (ldb s))" "\<not> wr_fail (ldb s)" using assms(1) by (auto simp: io_ok_def)
  show ?thesis using io ok tracked_neq [OF assms(4)]
    by (cases "data_map s (encode_hash_key n k)") (auto simp: hset_def hset_one_def Let_def store_simps get)
qed

lemma hdel_tracked:
  assumes "io_ok s" and "name_ok n" and "name_ok k" and "tracked x"
  shows "data_map (fst (hdel n k lt s)) x = ((data_map s)(encode_hash_key n k := None)) x"
proof -
  have get: "hget n k s = (case data_map s (encode_hash_key n k) of None \<Rightarrow> NotFound | Some v \<Rightarrow> Found v)"
    using assms(1) by (simp add: hget_def ldb_Get_data io_ok_def)
  have ok: "\<not> length n > SSDB_KEY_LEN_MAX" "\<not> length k > SSDB_KEY_LEN_MAX"
    using assms(2,3) by (auto simp: name_ok_def)
  have io: "kv_sorted (entries (ldb s))" "\<not> wr_fail (ldb s)" using assms(1) by (auto simp: io_ok_def)
  show ?thesis using io ok tracked_neq [OF assms(4)]
    by (cases "data_map s (encode_hash_key n k)") (auto simp: hdel_def hdel_one_def Let_def store_simps get)
qed

lemma zset_tracked:
  assumes "io_ok s" and "hname_ok n" and "hname_ok k" and "tracked x"
  shows "data_map (fst (zset n k v lt s)) x = ((data_map s)(encode_zset_key n k \<mapsto> filter_score v)) x"
proof -
  have get: "zget n k s = (case data_map s (encode_zset_key n k) of None \<Rightarrow> NotFound | Some v \<Rightarrow> Found v)"
    using assms(1) by (simp add: zget_def ldb_Get_data io_ok_def)
  have ok: "n \<noteq> []" "k \<noteq> []" "\<not> length n > SSDB_KEY_LEN_MAX" "\<not> length k > SSDB_KEY_LEN_MAX"
    using assms(2,3) by (auto simp: hname_ok_def name_ok_def)
  have io: "kv_sorted (entries (ldb s))" "\<not> wr_fail (ldb s)" using assms(1) by (auto simp: io_ok_def)
  show ?thesis using io ok tracked_neq [OF assms(4)]
    by (cases "data_map s (encode_zset_key n k)") (auto simp: zset_def zset_one_def Let_def store_simps get)
qed

lemma zdel_tracked:
  assumes "io_ok s" and "name_ok n" and "name_ok k" and "tracked x"
  shows "data_map (fst (zdel n k lt s)) x = ((data_map s)(encode_zset_key n k := None)) x"
proof -
  have get: "zget n k s = (case data_map s (encode_zset_key n k) of None \<Rightarrow> NotFound | Some v \<Rightarrow> Found v)"
    using assms(1) by (simp add: zget_def ldb_Get_data io_ok_def)
  have ok: "\<not> length n > SSDB_KEY_LEN_MAX" "\<not> length k > SSDB_KEY_LEN_MAX"
    using assms(2,3) by (auto simp: name_ok_def)
  have io: "kv_sorted (entries (ldb s))" "\<not> wr_fail (ldb s)" using assms(1) by (auto simp: io_ok_def)
  show ?thesis using io ok tracked_neq [OF assms(4)]
    by (cases "data_map s (encode_zset_key n k)") (auto simp: zdel_def zdel_one_def Let_def store_simps get)
qed

text \<open>Operations on queues touch no tracked key.\<close>

lemma leaves_q_tracked: "leaves q_types s s' \<Longrightarrow> io_ok s \<Longrightarrow> tracked x \<Longrightarrow> data_map s' x = data_map s x"
  by (auto simp: leaves_def io_ok_def tracked_def types_defs)

lemma qset_by_seq_leaves: "leaves q_types s (fst (qset_by_seq n q x lt s))"
  by (auto simp: qset_by_seq_def qset_commit_def qset_one_def Let_def split: prod.split intro!: frame_intros)

subsection \<open>One packet at the slave\<close>

text \<open>What a packet does to the tracked keys, and the packets that a client in \<open>C_SYNC\<close> sends.\<close>

definition apply_packet :: "bytes list \<Rightarrow> (bytes \<rightharpoonup> bytes) \<Rightarrow> bytes \<rightharpoonup> bytes" where
  "apply_packet p m =
     (let b = p ! 0; k = Binlog_key b
      in if Binlog_type b = binlog_type_char BT_NOOP \<or> \<not> tracked k then m
         else if Binlog_cmd b = set_cmd k then m(k \<mapsto> p ! 1)
         else if Binlog_cmd b = del_cmd k then m(k := None) else m)"

inductive good_packet :: "bytes list \<Rightarrow> bool" where
  gp_noop: "good_packet [Binlog_make q (binlog_type_char BT_NOOP) c [], v]"
| gp_value: "t \<in> binlog_type_char ` {BT_SYNC, BT_MIRROR} \<Longrightarrow> log_form c k \<Longrightarrow> k \<noteq> encode_kv_key [] \<Longrightarrow>
    (key_type k = type_char ZSET \<longrightarrow> filter_score v = v) \<Longrightarrow>
    c \<in> binlog_cmd_char ` {BC_KSET, BC_HSET, BC_ZSET, BC_QSET, BC_QPUSH_BACK, BC_QPUSH_FRONT} \<Longrightarrow>
    good_packet [Binlog_make q t c k, v]"
| gp_key: "t \<in> binlog_type_char ` {BT_SYNC, BT_MIRROR} \<Longrightarrow> log_form c k \<Longrightarrow>
    c \<in> binlog_cmd_char ` {BC_KDEL, BC_HDEL, BC_ZDEL, BC_QPOP_BACK, BC_QPOP_FRONT} \<Longrightarrow>
    good_packet [Binlog_make q t c k]"

definition same_data :: "(bytes \<rightharpoonup> bytes) \<Rightarrow> (bytes \<rightharpoonup> bytes) \<Rightarrow> bool" where
  "same_data m m' \<longleftrightarrow> (\<forall>x. tracked x \<longrightarrow> m x = m' x)"

lemma save_status_db [simp]: "sl_db (save_status sl) = sl_db sl"
  by (simp add: save_status_def Let_def case_prod_beta)

lemma proc_sync_db: "sl_db (fst (proc_sync b req sl)) = sl_db (fst (sync_switch b req sl))"
  by (simp add: proc_sync_def Let_def case_prod_beta)

lemma sl_op_db [simp]: "sl_db (fst (sl_op r sl)) = fst r"
  by (simp add: sl_op_def)

lemma decode_kv [simp]: "decode_kv_key (encode_kv_key k) = Some k"
  by (simp add: encode_kv_key_def decode_kv_key_def)

lemma binlog_type_char_inject [simp]: "binlog_type_char a = binlog_type_char b \<longleftrightarrow> a = b"
  by (cases a; cases b) simp_all

text \<open>The queue commands.\<close>

lemma sync_queue_frame:
  assumes "io_ok (sl_db sl)"
  shows "io_ok (sl_db (fst (sync_qput b req sl)))" "io_ok (sl_db (fst (sync_qpop b sl)))"
    and "same_data (data_map (sl_db (fst (sync_qput b req sl)))) (data_map (sl_db sl))"
    and "same_data (data_map (sl_db (fst (sync_qpop b sl)))) (data_map (sl_db sl))"
proof -
  note ops = qpush_back_def qpush_front_def qpop_back_def qpop_front_def
  note lv = leaves_q_tracked [OF _ assms]
  show "io_ok (sl_db (fst (sync_qput b req sl)))" "io_ok (sl_db (fst (sync_qpop b sl)))"
    using assms io_ok_run [OF assms qpush_run] io_ok_run [OF assms qset_by_seq_run] io_ok_run [OF assms qpop_run]
    by (auto simp: sync_qput_def sync_qpop_def ops case_prod_beta split: option.split)
  show "same_data (data_map (sl_db (fst (sync_qput b req sl)))) (data_map (sl_db sl))"
    "same_data (data_map (sl_db (fst (sync_qpop b sl)))) (data_map (sl_db sl))"
    by (auto simp: same_data_def sync_qput_def sync_qpop_def ops lv qpush_leaves qset_by_seq_leaves qpop_leaves case_prod_beta split: option.split)
qed


lemma sync_switch_good:
  assumes "good_packet p" and "io_ok (sl_db sl)" and "Binlog_type (p ! 0) \<noteq> binlog_type_char BT_NOOP"
  shows "io_ok (sl_db (fst (sync_switch (p ! 0) p sl))) \<and>
    same_data (data_map (sl_db (fst (sync_switch (p ! 0) p sl)))) (apply_packet p (data_map (sl_db sl)))"
proof -
  have s: "kv_sorted (entries (ldb (sl_db sl)))" "\<not> wr_fail (ldb (sl_db sl))" using assms(2) by (auto simp: io_ok_def)
  note run = io_ok_run [OF assms(2)]
  note io = run [OF kv_ops_run(1)] run [OF kv_ops_run(4)] run [OF hset_run] run [OF hdel_run] run [OF zset_run] run [OF zdel_run]
  note ops = ssdb_set_data(1) [OF s] ssdb_del_data(1) [OF s] hset_tracked [OF assms(2)] hdel_tracked [OF assms(2)]
    zset_tracked [OF assms(2)] zdel_tracked [OF assms(2)]
  note q = sync_queue_frame [OF assms(2)]
  have queue: ?thesis if "Binlog_cmd (p ! 0) \<in> q_cmds"
  proof -
    have c: "Binlog_cmd (p ! 0) \<noteq> set_cmd k" "Binlog_cmd (p ! 0) \<noteq> del_cmd k" for k using that cmds_distinct by metis+
    then have "apply_packet p (data_map (sl_db sl)) = data_map (sl_db sl)" by (simp add: apply_packet_def Let_def)
    moreover have "fst (sync_switch (p ! 0) p sl) = fst (sync_qput (p ! 0) p sl) \<or> fst (sync_switch (p ! 0) p sl) = fst (sync_qpop (p ! 0) sl)"
      using that by (auto simp: sync_switch_def q_cmds_def)
    ultimately show ?thesis using q by auto
  qed
  from assms(1) show ?thesis
  proof cases
    case (gp_value t c k v q)
    from gp_value(3) show ?thesis
    proof cases
      case (lf_kset k')
      then show ?thesis using gp_value io ops by (auto simp: sync_switch_def sync_kv_def apply_packet_def same_data_def set_cmd_def)
    next
      case (lf_hset n k')
      then show ?thesis using gp_value io ops by (auto simp: sync_switch_def sync_hash_def apply_packet_def same_data_def set_cmd_def codec_simps hname_ok_def)
    next
      case (lf_zset n k')
      then show ?thesis using gp_value io ops by (auto simp: sync_switch_def sync_zset_def apply_packet_def same_data_def set_cmd_def codec_simps hname_ok_def)
    next
      case lf_queue
      then show ?thesis using gp_value by (intro queue) simp
    qed (use gp_value in auto)
  next
    case (gp_key t c k q)
    from gp_key(3) show ?thesis
    proof cases
      case (lf_kdel k')
      then show ?thesis using gp_key io ops by (auto simp: sync_switch_def sync_kv_def apply_packet_def same_data_def set_cmd_def del_cmd_def)
    next
      case (lf_hdel n k')
      then show ?thesis using gp_key io ops by (auto simp: sync_switch_def sync_hash_def apply_packet_def same_data_def set_cmd_def del_cmd_def codec_simps)
    next
      case (lf_zdel n k')
      then show ?thesis using gp_key io ops by (auto simp: sync_switch_def sync_zset_def apply_packet_def same_data_def set_cmd_def del_cmd_def codec_simps)
    next
      case lf_queue
      then show ?thesis using gp_key by (intro queue) simp
    qed (use gp_key in auto)
  qed (use assms(3) in simp)
qed


lemma Slave_proc_good:
  assumes "good_packet p" and "io_ok (sl_db sl)"
  shows "io_ok (sl_db (fst (Slave_proc p sl))) \<and>
    same_data (data_map (sl_db (fst (Slave_proc p sl)))) (apply_packet p (data_map (sl_db sl))) \<and> snd (Slave_proc p sl) = 0"
proof (cases "Binlog_type (p ! 0) = binlog_type_char BT_NOOP")
  case True
  then show ?thesis using assms by (auto simp: Slave_proc_def proc_noop_def apply_packet_def same_data_def good_packet.simps)
next
  case False
  from assms(1) False have b: "Binlog_load (p ! 0) = Some (p ! 0)" "Binlog_type (p ! 0) \<in> binlog_type_char ` {BT_SYNC, BT_MIRROR}"
    by (auto simp: good_packet.simps)
  then have t: "Binlog_type (p ! 0) = binlog_type_char BT_SYNC \<or> Binlog_type (p ! 0) = binlog_type_char BT_MIRROR" by auto
  have e: "Slave_proc p sl = (fst (proc_sync (p ! 0) p (sl\<lparr>sl_status := S_SYNC, sl_sync_count := sl_sync_count sl + 1\<rparr>)), 0)"
    unfolding Slave_proc_def b(1) using t by (elim disjE) simp_all
  show ?thesis unfolding e
    using sync_switch_good [OF assms(1) _ False, of "sl\<lparr>sl_status := S_SYNC, sl_sync_count := sl_sync_count sl + 1\<rparr>"] assms(2)
    by (simp add: proc_sync_db)
qed

lemma good_not_noauth: "good_packet p \<Longrightarrow> p ! 0 \<noteq> ''noauth''"
proof
  assume p: "good_packet p" "p ! 0 = ''noauth''"
  from p(1) have "Binlog_load (p ! 0) \<noteq> None" by cases simp_all
  then show False unfolding p(2) by (simp add: Binlog_load_def HEADER_LEN_def)
qed

lemma apply_packet_same: "same_data m m' \<Longrightarrow> same_data (apply_packet p m) (apply_packet p m')"
  by (auto simp: same_data_def apply_packet_def Let_def)

lemma same_data_trans: "same_data a b \<Longrightarrow> same_data b c \<Longrightarrow> same_data a c"
  by (simp add: same_data_def)

lemma fold_packets_same: "same_data m m' \<Longrightarrow> same_data (fold apply_packet ps m) (fold apply_packet ps m')"
  by (induction ps arbitrary: m m') (simp_all add: apply_packet_same)

lemma recv_good:
  "\<forall>p \<in> set ps. good_packet p \<Longrightarrow> io_ok (sl_db sl) \<Longrightarrow> \<exists>sl'. recv_packets ps broken sl = Some (sl', broken) \<and> io_ok (sl_db sl') \<and>
    same_data (data_map (sl_db sl')) (fold apply_packet ps (data_map (sl_db sl)))"
proof (induction ps arbitrary: sl)
  case (Cons p ps)
  have p: "good_packet p" using Cons.prems(1) by simp
  obtain sl1 r where s: "Slave_proc p sl = (sl1, r)" by fastforce
  note P = Slave_proc_good [OF p Cons.prems(2), unfolded s fst_conv snd_conv]
  from Cons.IH [of sl1] Cons.prems(1) P obtain sl' where sl': "recv_packets ps broken sl1 = Some (sl', broken)" "io_ok (sl_db sl')"
    "same_data (data_map (sl_db sl')) (fold apply_packet ps (data_map (sl_db sl1)))" by auto
  have "same_data (data_map (sl_db sl')) (fold apply_packet (p # ps) (data_map (sl_db sl)))"
    using same_data_trans [OF sl'(3) fold_packets_same] P by simp
  with sl' show ?case using good_not_noauth [OF p] P s by simp
qed (simp add: same_data_def)

subsection \<open>One round at the master\<close>

text \<open>The strings of the master have names, and its logs are those of its own operations or of another master.\<close>

definition sane :: "ssdb \<Rightarrow> bool" where
  "sane s \<longleftrightarrow> data_map s (encode_kv_key []) = None \<and>
     (\<forall>q b. log_at s q = Some b \<longrightarrow> Binlog_type b \<in> binlog_type_char ` {BT_SYNC, BT_MIRROR})"

lemma since_last: "since q m s L \<Longrightarrow> last_seq (binlogs s) = q + word_of_nat (length L)"
proof -
  assume "since q m s L"
  then have e: "unat (last_seq (binlogs s)) = unat q + length L" by (simp add: since_def)
  have "unat (last_seq (binlogs s)) < 2 ^ LENGTH(64)" by (rule unsigned_less)
  then have "unat (q + word_of_nat (length L)) = unat q + length L" using e by (intro unat_add_small) simp
  with e show ?thesis by (simp add: word_unat_eq_iff)
qed

lemma since_find:
  assumes "since q m s ((c, k) # L)" and "binlog_inv s"
  shows "\<exists>t. bl_find_next (q + 1) (ldb s) = FR_Log (Binlog_make (q + 1) t c k) \<and> log_at s (q + 1) = Some (Binlog_make (q + 1) t c k)"
proof -
  from assms(1) obtain t where t: "log_at s (q + 1) = Some (Binlog_make (q + 1) t c k)"
    unfolding since_def by (metis (no_types, lifting) One_nat_def fst_conv length_Cons nth_Cons_0 of_nat_1 snd_conv zero_less_Suc)
  note nx = bl_find_next_correct [OF assms(2), of "q + 1"]
  show ?thesis
  proof (cases "bl_find_next (q + 1) (ldb s)")
    case (FR_Log b)
    have "Binlog_seq b = q + 1" using nx t FR_Log by (auto simp: log_at_def intro: order.antisym)
    then show ?thesis using nx t FR_Log by (auto simp: log_at_def)
  qed (use nx t in \<open>auto simp: log_at_def\<close>)
qed

lemma since_found_none:
  assumes "since q m s []" and "binlog_inv s" and "unat q + 1 < 2 ^ 64"
  shows "bl_find_next (q + 1) (ldb s) = FR_None"
proof -
  have q: "last_seq (binlogs s) = q" using since_last [OF assms(1)] by simp
  have "log_at s p = None" if "q + 1 \<le> p" for p
  proof (rule ccontr)
    assume "log_at s p \<noteq> None"
    then obtain b where "db_map s (encode_seq_key p) = Some b" by (auto simp: log_at_def)
    from binlog_invD(2) [OF assms(2) this] have "p \<le> q" by (auto simp: log_entry_ok_def q)
    with that have le: "q + 1 \<le> q" by (rule order.trans)
    have "unat (q + 1) = unat q + 1" using assms(3) by (intro unat_plus_1) simp
    with le show False by (simp add: word_le_nat_alt)
  qed
  with bl_find_next_correct [OF assms(2), of "q + 1"] show ?thesis
    by (cases "bl_find_next (q + 1) (ldb s)") (auto simp: log_at_def)
qed


lemma log_says_Cons: "log_says x None ((c, k) # L) = (case log_says x None L of
    None \<Rightarrow> if k = x \<and> c = set_cmd x then Some True else if k = x \<and> c = del_cmd x then Some False else None | Some b \<Rightarrow> Some b)"
  unfolding log_says.simps by (rule log_says_start)

lemma since_next:
  assumes "since q m s ((c, k) # L)" and "same_data m' (if \<not> tracked k then m else if c = set_cmd k
      then case data_map s k of None \<Rightarrow> m | Some v \<Rightarrow> m(k \<mapsto> v) else if c = del_cmd k then m(k := None) else m)"
  shows "since (q + 1) m' s L"
proof -
  have u: "unat (last_seq (binlogs s)) = unat q + Suc (length L)" using assms(1) by (simp add: since_def)
  have "unat (last_seq (binlogs s)) < 2 ^ LENGTH(64)" by (rule unsigned_less)
  then have q1: "unat (q + 1) = unat q + 1" using u by (intro unat_plus_1) simp
  have logs: "\<exists>t. log_at s (q + 1 + word_of_nat (Suc i)) = Some (Binlog_make (q + 1 + word_of_nat (Suc i)) t (fst (L ! i)) (snd (L ! i)))"
    if "i < length L" for i
  proof -
    have e: "q + 1 + word_of_nat (Suc i) = q + word_of_nat (Suc (Suc i))" by simp
    have "Suc i < length ((c, k) # L)" using that by simp
    with assms(1) show ?thesis unfolding e since_def by (metis nth_Cons_Suc)
  qed
  have data: "case log_says x None L of None \<Rightarrow> data_map s x = m' x | Some b \<Rightarrow> (data_map s x \<noteq> None) = b" if x: "tracked x" for x
  proof -
    have S: "case log_says x None ((c, k) # L) of None \<Rightarrow> data_map s x = m x | Some b \<Rightarrow> (data_map s x \<noteq> None) = b"
      using assms(1) x unfolding since_def by blast
    have M: "m' x = (if \<not> tracked k then m else if c = set_cmd k
      then case data_map s k of None \<Rightarrow> m | Some v \<Rightarrow> m(k \<mapsto> v) else if c = del_cmd k then m(k := None) else m) x"
      using assms(2) x by (simp add: same_data_def)
    show ?thesis
      by (cases "log_says x None L") (use S [unfolded log_says_Cons] M x in \<open>auto split: if_splits option.splits\<close>)
  qed
  show ?thesis unfolding since_def
  proof (intro conjI)
    show "\<forall>(c, k) \<in> set L. log_form c k" using assms(1) by (simp add: since_def)
    show "\<forall>x v. data_map s x = Some v \<longrightarrow> key_type x = type_char ZSET \<longrightarrow> filter_score v = v"
      using assms(1) unfolding since_def by blast
  qed (use u q1 logs data in \<open>auto simp del: of_nat_Suc\<close>)
qed

lemma since_same: "since q m s L \<Longrightarrow> same_data m' m \<Longrightarrow> since q m' s L"
  by (auto simp: since_def same_data_def split: option.splits)

text \<open>The packets that the client adds for a log do what the log says.\<close>

lemma log_form_cmds: "log_form c k \<Longrightarrow> c \<in> binlog_cmd_char ` {BC_KSET, BC_HSET, BC_ZSET, BC_QSET, BC_QPUSH_BACK, BC_QPUSH_FRONT} \<or>
    c \<in> binlog_cmd_char ` {BC_KDEL, BC_HDEL, BC_ZDEL, BC_QPOP_BACK, BC_QPOP_FRONT}"
  by (auto simp: log_form.simps q_cmds_def)


lemma cmd_sets:
  "set_cmd k \<notin> binlog_cmd_char ` {BC_KDEL, BC_HDEL, BC_ZDEL, BC_QPOP_BACK, BC_QPOP_FRONT}"
  "del_cmd k \<notin> binlog_cmd_char ` {BC_KSET, BC_HSET, BC_ZSET, BC_QSET, BC_QPUSH_BACK, BC_QPUSH_FRONT}"
  "binlog_cmd_char ` {BC_KDEL, BC_HDEL, BC_ZDEL, BC_QPOP_BACK, BC_QPOP_FRONT} \<inter>
     binlog_cmd_char ` {BC_KSET, BC_HSET, BC_ZSET, BC_QSET, BC_QPUSH_BACK, BC_QPUSH_FRONT} = {}"
  by (auto simp: set_cmd_def del_cmd_def)

lemma send_log_good:
  assumes "since q m s ((c, k) # L)" and "sane s" and "\<forall>k. \<not> rd_fail (ldb s) k" and "log_at s (q + 1) = Some (Binlog_make (q + 1) t c k)"
  shows "\<exists>ps. send_log s (Binlog_make (q + 1) t c k) cl = cl\<lparr>c_out := c_out cl @ ps\<rparr> \<and> (\<forall>p \<in> set ps. good_packet p) \<and>
    since (q + 1) (fold apply_packet ps m) s L"
proof -
  let ?b = "Binlog_make (q + 1) t c k"
  have t: "t \<in> binlog_type_char ` {BT_SYNC, BT_MIRROR}" using assms(2,4) by (fastforce simp: sane_def)
  have lf: "log_form c k" using assms(1) by (simp add: since_def)
  have tn: "t \<noteq> binlog_type_char BT_NOOP" using t by auto
  have get: "raw_get k s = (case db_map s k of None \<Rightarrow> NotFound | Some v \<Rightarrow> Found v)"
    using assms(3) by (simp add: raw_get_def ldb_Get_def db_map_def)
  have dm: "data_map s k = db_map s k" if "tracked k" using tracked_not_log [OF that] by (simp add: data_map_def)
  note nx = since_next [OF assms(1)]
  from log_form_cmds [OF lf] show ?thesis
  proof
    assume c: "c \<in> binlog_cmd_char ` {BC_KSET, BC_HSET, BC_ZSET, BC_QSET, BC_QPUSH_BACK, BC_QPUSH_FRONT}"
    then have nd: "c \<noteq> del_cmd k" using cmd_sets(2) by metis
    show ?thesis
    proof (cases "db_map s k")
      case None
      then have "send_log s ?b cl = cl\<lparr>c_out := c_out cl @ []\<rparr>" using c get by (simp add: send_log_def)
      moreover have "since (q + 1) (fold apply_packet [] m) s L"
        using None nd dm by (intro nx) (auto simp: same_data_def)
      ultimately show ?thesis by fastforce
    next
      case (Some v)
      have nk: "k \<noteq> encode_kv_key []" using Some assms(2) by (auto simp: sane_def data_map_def)
      have z: "key_type k = type_char ZSET \<longrightarrow> filter_score v = v"
      proof
        assume a: "key_type k = type_char ZSET"
        then have "data_map s k = Some v" using Some by (simp add: data_map_def is_log_key_iff)
        with a show "filter_score v = v" using assms(1) unfolding since_def by blast
      qed
      have "send_log s ?b cl = cl\<lparr>c_out := c_out cl @ [[?b, v]]\<rparr>" using c get Some by (simp add: send_log_def client_send_def)
      moreover have "good_packet [?b, v]" by (rule gp_value [OF t lf nk z c])
      moreover have "since (q + 1) (fold apply_packet [[?b, v]] m) s L"
        using Some nd dm tn by (intro nx) (auto simp: same_data_def apply_packet_def)
      ultimately show ?thesis by (intro exI [of _ "[[?b, v]]"]) simp
    qed
  next
    assume c: "c \<in> binlog_cmd_char ` {BC_KDEL, BC_HDEL, BC_ZDEL, BC_QPOP_BACK, BC_QPOP_FRONT}"
    then have ns: "c \<noteq> set_cmd k" "c \<notin> binlog_cmd_char ` {BC_KSET, BC_HSET, BC_ZSET, BC_QSET, BC_QPUSH_BACK, BC_QPUSH_FRONT}"
      using cmd_sets(1,3) by blast+
    have "send_log s ?b cl = cl\<lparr>c_out := c_out cl @ [[?b]]\<rparr>"
      unfolding send_log_def Let_def Binlog_make_fields using c ns(2) by (simp only: if_True if_False client_send_def)
    moreover have "good_packet [?b]" by (rule gp_key [OF t lf c])
    moreover have "since (q + 1) (fold apply_packet [[?b]] m) s L"
      using ns tn by (intro nx) (auto simp: same_data_def apply_packet_def)
    ultimately show ?thesis by (intro exI [of _ "[[?b]]"]) simp
  qed
qed


text \<open>A round of the thread of the client, when the logs after its number are \<open>L\<close>.\<close>

lemma client_round_log:
  assumes "since (c_seq cl) m s ((c, k) # L)" and "db_inv s" and "sane s" and "c_status cl = C_SYNC" and "\<not> c_mirror cl"
  shows "\<exists>ps. sync_round slow s (cl, i) = Some (cl\<lparr>c_seq := c_seq cl + 1, c_out := c_out cl @ ps\<rparr>, 0) \<and> (\<forall>p \<in> set ps. good_packet p) \<and>
    since (c_seq cl + 1) (fold apply_packet ps m) s L"
proof -
  have inv: "binlog_inv s" "\<forall>k. \<not> rd_fail (ldb s) k" using assms(2) by (simp_all add: db_inv_def)
  from since_find [OF assms(1) inv(1)] obtain t where
    t: "bl_find_next (c_seq cl + 1) (ldb s) = FR_Log (Binlog_make (c_seq cl + 1) t c k)" "log_at s (c_seq cl + 1) = Some (Binlog_make (c_seq cl + 1) t c k)"
    by blast
  from send_log_good [OF assms(1,3) inv(2) t(2), of "cl\<lparr>c_seq := c_seq cl + 1\<rparr>"] obtain ps where
    ps: "send_log s (Binlog_make (c_seq cl + 1) t c k) (cl\<lparr>c_seq := c_seq cl + 1\<rparr>) = cl\<lparr>c_seq := c_seq cl + 1, c_out := c_out cl @ ps\<rparr>"
      "\<forall>p \<in> set ps. good_packet p" "since (c_seq cl + 1) (fold apply_packet ps m) s L" by auto
  have "sync_loop s None cl = Some (cl\<lparr>c_seq := c_seq cl + 1\<rparr>, Inr (Binlog_make (c_seq cl + 1) t c k))"
    using t(1) assms(4,5) by (subst sync_loop.simps) (simp add: Let_def)
  then have "Client_sync s cl = Some (cl\<lparr>c_seq := c_seq cl + 1, c_out := c_out cl @ ps\<rparr>, 1)" using ps(1) by (simp add: Client_sync_def)
  then have "sync_round slow s (cl, i) = Some (cl\<lparr>c_seq := c_seq cl + 1, c_out := c_out cl @ ps\<rparr>, 0)"
    using assms(4) by (simp add: sync_round_def)
  with ps(2,3) show ?thesis by blast
qed

lemma client_round_idle:
  assumes "since (c_seq cl) m s []" and "db_inv s" and "db_room s" and "c_status cl = C_SYNC"
  shows "sync_round slow s (cl, i) = Some (if i \<ge> NOOP_IDLES then (Client_noop cl, 0) else (cl, i + 1))"
proof -
  have "last_seq (binlogs s) = c_seq cl" using since_last [OF assms(1)] by simp
  then have "bl_find_next (c_seq cl + 1) (ldb s) = FR_None"
    using assms(2,3) by (intro since_found_none [OF assms(1)]) (auto simp: db_inv_def db_room_def)
  then have "sync_loop s None cl = Some (cl, Inl 0)" using assms(4) by (subst sync_loop.simps) simp
  then show ?thesis using assms(4) by (simp add: sync_round_def Client_sync_def)
qed

subsection \<open>The runs of a master and a slave\<close>

text \<open>
  A state: the database of the master, its client with the counter of idle rounds, the slave. The packets on the way are
  those in \<open>c_out\<close>. The master changes its database by any step of \<open>db_step\<close> at any time; \<open>rp_write\<close> asks that its cleaning
  thread has not deleted logs that the client still needs.
\<close>

type_synonym repl_state = "ssdb \<times> (client \<times> nat) \<times> slave"

inductive repl :: "repl_state \<Rightarrow> repl_state \<Rightarrow> bool" for x :: repl_state where
  rp_start: "repl x x"
| rp_write: "repl x (s, ci, sl) \<Longrightarrow> db_room s \<Longrightarrow> db_step s s' \<Longrightarrow> sane s' \<Longrightarrow> min_seq (binlogs s') \<le> c_seq (fst ci) + 1 \<Longrightarrow> repl x (s', ci, sl)"
| rp_round: "repl x (s, ci, sl) \<Longrightarrow> db_room s \<Longrightarrow> sync_round slow s ci = Some ci' \<Longrightarrow> repl x (s, ci', sl)"
| rp_recv: "repl x (s, (c, i), sl) \<Longrightarrow> c_out c = ps @ qs \<Longrightarrow> recv_packets ps False sl = Some (sl', r) \<Longrightarrow> repl x (s, (c\<lparr>c_out := qs\<rparr>, i), sl')"

definition repl_inv :: "repl_state \<Rightarrow> bool" where
  "repl_inv x = (case x of (s, (c, i), sl) \<Rightarrow>
     db_inv s \<and> enabled (binlogs s) \<and> sane s \<and> io_ok (sl_db sl) \<and> c_status c = C_SYNC \<and> \<not> c_mirror c \<and>
     (\<forall>p \<in> set (c_out c). good_packet p) \<and>
     (\<exists>L. since (c_seq c) (fold apply_packet (c_out c) (data_map (sl_db sl))) s L))"

lemma noop_good:
  assumes "c_status c = C_SYNC"
  shows "\<exists>p. good_packet p \<and> apply_packet p = id \<and> Client_noop c = c\<lparr>last_noop_seq := c_seq c, c_out := c_out c @ [p]\<rparr>"
  using assms by (auto simp: Client_noop_def client_send_def apply_packet_def fun_eq_iff intro: gp_noop)

lemma repl_inv_kept:
  assumes "repl x y" and "repl_inv x"
  shows "repl_inv y"
  using assms
proof (induction rule: repl.induct)
  case (rp_write s ci sl s')
  obtain c i where ci: "ci = (c, i)" by (cases ci)
  have I: "db_inv s" "enabled (binlogs s)" using rp_write by (simp_all add: repl_inv_def ci)
  from rp_write obtain L where "since (c_seq c) (fold apply_packet (c_out c) (data_map (sl_db sl))) s L" by (auto simp: repl_inv_def ci)
  from since_step [OF this rp_write(3) I(1) rp_write(2) I(2)] rp_write(5) have "\<exists>L. since (c_seq c) (fold apply_packet (c_out c) (data_map (sl_db sl))) s' L"
    by (simp add: ci)
  with rp_write I db_step_inv [OF rp_write(3) I(1) rp_write(2)] db_step_enabled [OF rp_write(3) I(2)] show ?case
    by (simp add: repl_inv_def ci)
next
  case (rp_round s ci sl slow ci')
  obtain c i where ci: "ci = (c, i)" by (cases ci)
  from rp_round obtain L where L: "since (c_seq c) (fold apply_packet (c_out c) (data_map (sl_db sl))) s L" by (auto simp: repl_inv_def ci)
  have I: "db_inv s" "sane s" "c_status c = C_SYNC" "\<not> c_mirror c" using rp_round by (simp_all add: repl_inv_def ci)
  show ?case
  proof (cases L)
    case Nil
    from noop_good [OF I(3)] obtain p where p: "good_packet p" "apply_packet p = id" "Client_noop c = c\<lparr>last_noop_seq := c_seq c, c_out := c_out c @ [p]\<rparr>" by blast
    show ?thesis using client_round_idle [OF L [unfolded Nil] I(1) rp_round(2) I(3), of slow i] rp_round p
      by (auto simp: repl_inv_def ci split: if_splits)
  next
    case (Cons l L')
    obtain cm k where l: "l = (cm, k)" by (cases l)
    from client_round_log [OF L [unfolded Cons l] I, of slow i] rp_round show ?thesis
      by (auto simp: repl_inv_def ci)
  qed
next
  case (rp_recv s c i sl ps qs sl' r)
  have g: "\<forall>p \<in> set ps. good_packet p" "io_ok (sl_db sl)" using rp_recv by (auto simp: repl_inv_def)
  from recv_good [OF g, of False] rp_recv(3) have sl': "io_ok (sl_db sl')"
    "same_data (data_map (sl_db sl')) (fold apply_packet ps (data_map (sl_db sl)))" by auto
  from fold_packets_same [OF sl'(2), of qs] rp_recv since_same show ?case using sl'(1)
    by (fastforce simp: repl_inv_def)
qed auto


subsection \<open>Convergence\<close>

fun sync_rounds :: "(nat \<Rightarrow> bool) \<Rightarrow> nat \<Rightarrow> ssdb \<Rightarrow> client \<times> nat \<Rightarrow> (client \<times> nat) option" where
  "sync_rounds slow 0 s ci = Some ci"
| "sync_rounds slow (Suc n) s ci = (case sync_round slow s ci of None \<Rightarrow> None | Some ci \<Rightarrow> sync_rounds slow n s ci)"

lemma rounds_catch_up:
  assumes "since (c_seq c) m s L" and "db_inv s" and "sane s" and "c_status c = C_SYNC" and "\<not> c_mirror c"
  shows "\<exists>q ps j. sync_rounds slow (length L) s (c, i) = Some (c\<lparr>c_seq := q, c_out := c_out c @ ps\<rparr>, j) \<and>
    (\<forall>p \<in> set ps. good_packet p) \<and> since q (fold apply_packet ps m) s []"
  using assms(1,4,5)
proof (induction L arbitrary: c m i)
  case Nil
  then show ?case by (intro exI [of _ "c_seq c"] exI [of _ "[]"] exI [of _ i]) simp
next
  case (Cons l L)
  obtain cm k where l: "l = (cm, k)" by (cases l)
  from client_round_log [OF Cons.prems(1) [unfolded l] assms(2,3) Cons.prems(2,3), of slow i] obtain ps where
    ps: "sync_round slow s (c, i) = Some (c\<lparr>c_seq := c_seq c + 1, c_out := c_out c @ ps\<rparr>, 0)" "\<forall>p \<in> set ps. good_packet p"
      "since (c_seq c + 1) (fold apply_packet ps m) s L" by blast
  from Cons.IH [of "c\<lparr>c_seq := c_seq c + 1, c_out := c_out c @ ps\<rparr>" "fold apply_packet ps m" 0] ps(3) Cons.prems(2,3) obtain q ps' j where
    IH: "sync_rounds slow (length L) s (c\<lparr>c_seq := c_seq c + 1, c_out := c_out c @ ps\<rparr>, 0) = Some (c\<lparr>c_seq := q, c_out := (c_out c @ ps) @ ps'\<rparr>, j)"
      "\<forall>p \<in> set ps'. good_packet p" "since q (fold apply_packet ps' (fold apply_packet ps m)) s []" by auto
  then show ?case using ps by (intro exI [of _ q] exI [of _ "ps @ ps'"] exI [of _ j]) auto
qed

lemma same_gets:
  assumes "same_data (data_map s) (data_map s')" and "\<forall>k. \<not> rd_fail (ldb s) k" and "\<forall>k. \<not> rd_fail (ldb s') k"
  shows "ssdb_get k s = ssdb_get k s'" "hget n k s = hget n k s'" "zget n k s = zget n k s'"
  using assms by (simp_all add: ssdb_get_def hget_def zget_def ldb_Get_data same_data_def)

text \<open>A slave that has all data of its master, and a client that waits for new logs.\<close>

definition in_step :: "ssdb \<Rightarrow> client \<Rightarrow> slave \<Rightarrow> bool" where
  "in_step s c sl \<longleftrightarrow> db_inv s \<and> enabled (binlogs s) \<and> sane s \<and> io_ok (sl_db sl) \<and> c_status c = C_SYNC \<and> \<not> c_mirror c \<and>
     c_out c = [] \<and> c_seq c = last_seq (binlogs s) \<and> same_data (data_map (sl_db sl)) (data_map s) \<and>
     (\<forall>x v. data_map s x = Some v \<longrightarrow> key_type x = type_char ZSET \<longrightarrow> filter_score v = v)"

lemma in_step_inv: "in_step s c sl \<Longrightarrow> repl_inv (s, (c, i), sl)"
  using since_same [OF since_start [of s], of "data_map (sl_db sl)"] by (auto simp: in_step_def repl_inv_def)


text \<open>A master that has just been set up with its slave, and one string set.\<close>

definition fresh_slave :: slave where
  "fresh_slave = Slave_new fresh_db fresh_db ''1.1.1.1'' 8888 False"

definition one_string :: ssdb where
  "one_string = fst (ssdb_set ''a'' ''1'' (binlog_type_char BT_SYNC) fresh_db)"

lemma fresh_in_step: "in_step fresh_db (Client_new\<lparr>c_status := C_SYNC\<rparr>) fresh_slave"
  by (simp add: in_step_def fresh_db_inv fresh_queue sane_def log_at_def fresh_slave_def Slave_new_def Client_new_def same_data_def)


lemma one_string_run: "repl (fresh_db, (Client_new\<lparr>c_status := C_SYNC\<rparr>, 0), fresh_slave) (one_string, (Client_new\<lparr>c_status := C_SYNC\<rparr>, 0), fresh_slave)"
proof (rule repl.rp_write [OF repl.rp_start])
  show "db_room fresh_db" by (simp add: db_room_def fresh_queue)
  show "db_step fresh_db one_string" unfolding one_string_def by (rule db_step.intros)
  have "data_map one_string = [encode_kv_key ''a'' \<mapsto> ''1'']"
    unfolding one_string_def by (subst ssdb_set_data) (simp_all add: fun_eq_iff)
  moreover have "log_at one_string = (\<lambda>_. None)(1 \<mapsto> Binlog_make 1 (binlog_type_char BT_SYNC) (binlog_cmd_char BC_KSET) (encode_kv_key ''a''))"
    unfolding one_string_def by (subst set_log) (simp_all add: fresh_queue log_at_def fun_eq_iff)
  ultimately show "sane one_string" by (simp add: sane_def encode_kv_key_def)
  have "min_seq (binlogs one_string) = 0"
    using tx_run_frame [OF kv_ops_run(1)] unfolding one_string_def by (auto simp: fresh_queue)
  then show "min_seq (binlogs one_string) \<le> c_seq (fst (Client_new\<lparr>c_status := C_SYNC\<rparr>, 0)) + 1" by simp
qed


end
