(* ===== verification/Divergence.thy ===== *)
theory Divergence
  imports Replication
begin

section \<open>Where a slave does not follow\<close>

text \<open>
  What the design of the logs does not cover: a client that is behind the oldest log, a queue whose item is gone before
  the log of its push is sent, and a slave whose write fails.
\<close>

text \<open>What a client in \<open>C_SYNC\<close> does with the next log.\<close>

lemma sync_round_send:
  assumes "binlog_inv s" and "c_status c = C_SYNC" and "\<not> c_mirror c" and "log_at s (c_seq c + 1) = Some b"
  shows "sync_round slow s (c, i) = Some (send_log s b (c\<lparr>c_seq := c_seq c + 1\<rparr>), 0)"
proof -
  note nx = bl_find_next_correct [OF assms(1), of "c_seq c + 1"]
  have "bl_find_next (c_seq c + 1) (ldb s) = FR_Log b \<and> Binlog_seq b = c_seq c + 1"
  proof (cases "bl_find_next (c_seq c + 1) (ldb s)")
    case (FR_Log b')
    have "Binlog_seq b' = c_seq c + 1" using nx assms(4) FR_Log by (auto simp: log_at_def intro: order.antisym)
    then show ?thesis using nx assms(4) FR_Log by (auto simp: log_at_def)
  qed (use nx assms(4) in \<open>auto simp: log_at_def\<close>)
  then have "sync_loop s None c = Some (c\<lparr>c_seq := c_seq c + 1\<rparr>, Inr b)"
    using assms(2,3) by (subst sync_loop.simps) (simp add: Let_def)
  moreover have "c_status (send_log s b (c\<lparr>c_seq := c_seq c + 1\<rparr>)) = C_SYNC"
    using assms(2) by (simp add: send_log_def client_send_def Let_def split: get_status.split)
  ultimately show ?thesis using assms(2) by (simp add: sync_round_def Client_sync_def)
qed

text \<open>
  A client that is out of sync for good: whatever the database and however many rounds its thread runs, it stays so, and all that it
  sends tells the slave so and leaves the slave's database alone.
\<close>

definition lost :: "client \<Rightarrow> bool" where
  "lost c \<longleftrightarrow> c_status c = C_OUT_OF_SYNC \<and>
     (\<forall>slow n s i sl. \<exists>c' i' sl'. sync_rounds slow n s (c, i) = Some (c', i') \<and> c_status c' = C_OUT_OF_SYNC \<and>
        recv_packets (c_out c') False sl = Some (sl', False) \<and> sl_status sl' = S_OUT_OF_SYNC \<and> sl_db sl' = sl_db sl)"

definition noop_packet :: "bytes list \<Rightarrow> bool" where
  "noop_packet p \<longleftrightarrow> (\<exists>sq. p = [Binlog_make sq (binlog_type_char BT_NOOP) (binlog_cmd_char BC_NONE) [], ''noop''])"

lemma out_of_sync_rounds:
  assumes "c_status c = C_OUT_OF_SYNC"
  shows "\<exists>c' i' ps. sync_rounds slow n s (c, i) = Some (c', i') \<and> c_status c' = C_OUT_OF_SYNC \<and> c_out c' = c_out c @ ps \<and>
    (\<forall>p \<in> set ps. noop_packet p)"
  using assms
proof (induction n arbitrary: c i)
  case (Suc n)
  obtain c1 i1 ps where c1: "sync_round slow s (c, i) = Some (c1, i1)" "c_status c1 = C_OUT_OF_SYNC" "c_out c1 = c_out c @ ps" "\<forall>p \<in> set ps. noop_packet p"
  proof (cases "NOOP_IDLES \<le> i")
    case True
    then show thesis using Suc.prems that [of "Client_noop c" 0 "[[Binlog_make (c_seq c) (binlog_type_char BT_NOOP) (binlog_cmd_char BC_NONE) [], ''noop'']]"]
      by (auto simp: sync_round_def Client_noop_def client_send_def noop_packet_def)
  next
    case False
    then show thesis using Suc.prems that [of c "i + 1" "[]"] by (simp add: sync_round_def)
  qed
  from Suc.IH [OF c1(2), of i1] obtain c' i' qs where
    "sync_rounds slow n s (c1, i1) = Some (c', i')" "c_status c' = C_OUT_OF_SYNC" "c_out c' = c_out c1 @ qs" "\<forall>p \<in> set qs. noop_packet p" by blast
  with c1 show ?case by (intro exI [of _ c'] exI [of _ i'] exI [of _ "ps @ qs"]) auto
qed simp

lemma make_not_noauth: "Binlog_make sq t cm k \<noteq> ''noauth''"
proof
  assume a: "Binlog_make sq t cm k = ''noauth''"
  have "Binlog_load (Binlog_make sq t cm k) \<noteq> None" by simp
  then show False unfolding a by (simp add: Binlog_load_def HEADER_LEN_def)
qed

lemma noop_recv:
  "\<forall>p \<in> set ps. noop_packet p \<Longrightarrow> \<exists>sl'. recv_packets ps False sl = Some (sl', False) \<and> sl_status sl' = sl_status sl \<and> sl_db sl' = sl_db sl"
proof (induction ps arbitrary: sl)
  case (Cons p ps)
  obtain sq where p: "p = [Binlog_make sq (binlog_type_char BT_NOOP) (binlog_cmd_char BC_NONE) [], ''noop'']"
    using Cons.prems by (auto simp: noop_packet_def)
  have sv: "sl_status (save_status x) = sl_status x" "sl_db (save_status x) = sl_db x" for x
    by (simp_all add: save_status_def Let_def split: prod.split)
  define sl1 where "sl1 = fst (Slave_proc p sl)"
  have s: "Slave_proc p sl = (sl1, 0)" "sl_status sl1 = sl_status sl" "sl_db sl1 = sl_db sl"
    by (simp_all add: sl1_def p Slave_proc_def proc_noop_def sv)
  from Cons.IH [of sl1] Cons.prems obtain sl' where
    "recv_packets ps False sl1 = Some (sl', False)" "sl_status sl' = sl_status sl1" "sl_db sl' = sl_db sl1" by auto
  with s show ?case by (simp add: p make_not_noauth)
qed simp

lemma out_of_sync_lost:
  assumes "c_out c = []"
  shows "lost (Client_out_of_sync c)"
  unfolding lost_def
proof (intro conjI allI)
  let ?c = "Client_out_of_sync c"
  have st: "c_status ?c = C_OUT_OF_SYNC" "c_out ?c = [[Binlog_make (c_seq c) (binlog_type_char BT_CTRL) (binlog_cmd_char BC_NONE) ''OUT_OF_SYNC'']]"
    using assms by (simp_all add: Client_out_of_sync_def client_send_def)
  show "c_status ?c = C_OUT_OF_SYNC" by (fact st)
  fix slow n s i and sl :: slave
  from out_of_sync_rounds [OF st(1), of slow n s i] obtain c' i' ps where
    c': "sync_rounds slow n s (?c, i) = Some (c', i')" "c_status c' = C_OUT_OF_SYNC" "c_out c' = c_out ?c @ ps" "\<forall>p \<in> set ps. noop_packet p" by blast
  from noop_recv [OF c'(4), of "sl\<lparr>sl_status := S_OUT_OF_SYNC\<rparr>"] obtain sl' where
    sl': "recv_packets ps False (sl\<lparr>sl_status := S_OUT_OF_SYNC\<rparr>) = Some (sl', False)" "sl_status sl' = S_OUT_OF_SYNC" "sl_db sl' = sl_db sl" by auto
  have "recv_packets (c_out c') False sl = Some (sl', False)"
    using sl'(1) by (simp add: c'(3) st(2) make_not_noauth Slave_proc_def)
  with c' sl' show "\<exists>c' i' sl'. sync_rounds slow n s (?c, i) = Some (c', i') \<and> c_status c' = C_OUT_OF_SYNC \<and>
      recv_packets (c_out c') False sl = Some (sl', False) \<and> sl_status sl' = S_OUT_OF_SYNC \<and> sl_db sl' = sl_db sl" by blast
qed

text \<open>C22. A slave whose logs are gone is never fed a log out of order. When it connects with a number that is not among those of the master's logs,
  and when the next log of a client that is being sent logs was deleted, the client is out of sync for good: in every later round, whatever the database,
  it sends nothing but that and heartbeats, the slave marks itself out of sync, and the database of the slave stays as it is.\<close>

theorem behind_is_out_of_sync:
  assumes "binlog_inv s"
  shows "(1 < length req \<and> Bytes_Uint64 (req ! 1) \<noteq> 0 \<and>
      (last_seq (binlogs s) < Bytes_Uint64 (req ! 1) \<or> Bytes_Uint64 (req ! 1) < min_seq (binlogs s)) \<longrightarrow> lost (Client_init req s Client_new)) \<and>
    (c_status c = C_SYNC \<and> c_out c = [] \<and> c_seq c \<noteq> 0 \<and> c_seq c < last_seq (binlogs s) \<and> log_at s (c_seq c + 1) = None \<longrightarrow>
      (\<exists>c'. sync_round slow s (c, i) = Some (c', 0) \<and> lost c'))"
proof (intro conjI impI)
  assume a: "1 < length req \<and> Bytes_Uint64 (req ! 1) \<noteq> 0 \<and>
      (last_seq (binlogs s) < Bytes_Uint64 (req ! 1) \<or> Bytes_Uint64 (req ! 1) < min_seq (binlogs s))"
  then have "\<exists>c. Client_init req s Client_new = Client_out_of_sync c \<and> c_out c = []"
    by (auto simp: Client_init_def Client_new_def Let_def)
  then show "lost (Client_init req s Client_new)" using out_of_sync_lost by auto
next
  assume a: "c_status c = C_SYNC \<and> c_out c = [] \<and> c_seq c \<noteq> 0 \<and> c_seq c < last_seq (binlogs s) \<and> log_at s (c_seq c + 1) = None"
  have last: "db_map s (encode_seq_key (last_seq (binlogs s))) \<noteq> None" using binlog_invD(3) [OF assms] a by (metis word_not_simps(1))
  have le: "c_seq c + 1 \<le> last_seq (binlogs s)" using a by (simp add: inc_le)
  note nx = bl_find_next_correct [OF assms, of "c_seq c + 1"]
  have "\<exists>b. bl_find_next (c_seq c + 1) (ldb s) = FR_Log b \<and> Binlog_seq b \<noteq> c_seq c + 1"
    by (cases "bl_find_next (c_seq c + 1) (ldb s)") (use nx last le a in \<open>auto simp: log_at_def\<close>)
  then have "sync_loop s None c = Some (Client_out_of_sync c, Inl 1)" using a by (subst sync_loop.simps) (auto simp: Let_def)
  moreover have "c_status (Client_out_of_sync c) = C_OUT_OF_SYNC" by (simp add: Client_out_of_sync_def client_send_def)
  ultimately have "sync_round slow s (c, i) = Some (Client_out_of_sync c, 0)" using a by (simp add: sync_round_def Client_sync_def)
  then show "\<exists>c'. sync_round slow s (c, i) = Some (c', 0) \<and> lost c'" using out_of_sync_lost a by blast
qed

definition cleaned_db :: ssdb where
  "cleaned_db = fresh_db\<lparr>ldb := fresh_ldb\<lparr>entries := [(encode_seq_key 9, Binlog_make 9 (CHR 0x01) (CHR 0x01) ''kx'')]\<rparr>,
     binlogs := (binlogs fresh_db)\<lparr>min_seq := 9, last_seq := 9\<rparr>\<rparr>"

theorem behind_is_out_of_sync_witness:
  "lost (Client_init [''sync140'', ''5'', [], ''sync''] cleaned_db Client_new) \<and>
   (\<exists>c'. sync_round (\<lambda>_. False) cleaned_db (Client_new\<lparr>c_status := C_SYNC, c_seq := 5\<rparr>, 0) = Some (c', 0) \<and> lost c')"
proof -
  have m: "db_map cleaned_db = [encode_seq_key 9 \<mapsto> Binlog_make 9 (CHR 0x01) (CHR 0x01) ''kx'']"
    by (simp add: cleaned_db_def db_map_def)
  have s: "kv_sorted (entries (ldb cleaned_db))" "last_seq (binlogs cleaned_db) = 9" "min_seq (binlogs cleaned_db) = 9"
    by (simp_all add: cleaned_db_def kv_sorted_def)
  have "Bytes_Uint64 ''5'' = 5"
    by (simp add: Bytes_Uint64_def str_to_uint64_def strtoull_def strto_scan_def strto_sign_def isspace_def isdigit_def UINT64_MAX_def)
  moreover have "binlog_inv cleaned_db" by (auto simp: binlog_inv_def m s log_entry_ok_def split: if_splits)
  note behind_is_out_of_sync [OF this, of "[''sync140'', ''5'', [], ''sync'']" "Client_new\<lparr>c_status := C_SYNC, c_seq := 5\<rparr>" "\<lambda>_. False" 0]
  ultimately show ?thesis
    by (auto simp: s m log_at_def Client_new_def word_less_nat_alt)
qed

subsection \<open>Queues\<close>

lemma push_pop_logs:
  fixes y :: bytes and lt :: char
  assumes "q_rep s n a (Suc b) l" and "enabled (binlogs s)"
  defines "s' \<equiv> fst (qpop_back n lt (fst (qpush_back n y lt s)))"
  shows "\<exists>k. log_at s' = (log_at s)(last_seq (binlogs s) + 1 \<mapsto> Binlog_make (last_seq (binlogs s) + 1) lt (binlog_cmd_char BC_QPUSH_BACK) (encode_qitem_key n k),
      last_seq (binlogs s) + 2 \<mapsto> Binlog_make (last_seq (binlogs s) + 2) lt (binlog_cmd_char BC_QPOP_BACK) n) \<and>
      raw_get (encode_qitem_key n k) s' = NotFound \<and> last_seq (binlogs s') = last_seq (binlogs s) + 2"
proof -
  let ?t = "fst (qpush_back n y lt s)"
  from assms(1) obtain f where io: "io_ok s" and m: "q_map n f l (data_map s)" and room: "q_room a (Suc b) f l" by (auto simp: q_rep_def)
  note rd = q_rep_reads [OF io m room]
  obtain ret sq where g: "qget_uint64 n QBACK_SEQ s = (ret, sq)" "ret \<noteq> -1" by (metis rd(2,3) zero_neq_neg_one one_neq_neg_one)
  let ?k = "q_next QBACK_SEQ ret sq"
  have r: "q_rep ?t n a b (l @ [y])" by (rule qpush_back_correct(1) [OF assms(1)])
  from r obtain f' where io': "io_ok ?t" and m': "q_map n f' (l @ [y]) (data_map ?t)" and room': "q_room a b f' (l @ [y])" by (auto simp: q_rep_def)
  note rd' = q_rep_reads [OF io' m' room']
  have k: "\<not> ?k \<le> QITEM_MIN_SEQ \<and> \<not> QITEM_MAX_SEQ \<le> ?k"
  proof (rule ccontr)
    assume "\<not> (\<not> ?k \<le> QITEM_MIN_SEQ \<and> \<not> QITEM_MAX_SEQ \<le> ?k)"
    then have "snd (qpush_back n y lt s) = -1" using qpush_full(2) [OF g(1)] by (auto simp: qpush_back_def)
    then show False using qpush_back_correct(2) [OF assms(1), of y lt] by simp
  qed
  have len: "length l + 1 < 2 ^ 63" using room by (simp add: q_room_def)
  note lg = qpush_log [OF io assms(2) rd(1) len g k [THEN conjunct1] k [THEN conjunct2], of y lt, folded qpush_back_def]
  note dt = qpush_data [OF io rd(1) len g k [THEN conjunct1] k [THEN conjunct2], of y lt, folded qpush_back_def]
  have nk: "?k \<noteq> QFRONT_SEQ" "?k \<noteq> QBACK_SEQ" using k by (auto simp: QFRONT_SEQ_def QBACK_SEQ_def QITEM_MIN_SEQ_def)
  have bk: "data_map ?t (encode_qitem_key n QBACK_SEQ) = Some (le64 ?k)"
    using nk by (auto simp: dt q_next_def)
  have b': "qget_uint64 n QBACK_SEQ ?t = (1, ?k)" "qget_by_seq n ?k ?t = Found y"
    using nk bk by (auto simp: q_get [OF io'] dt)
  have sz: "qsize n ?t = int (Suc (length l))" "Suc (length l) < 2 ^ 63" using rd'(1) len by simp_all
  note lg' = qpop_log [OF io' lg(3) sz b', of lt, folded qpop_back_def]
  note dt' = qpop_data [OF io' sz b', of lt, folded qpop_back_def]
  have io2: "io_ok s'" unfolding s'_def qpop_back_def by (rule io_ok_run [OF io' qpop_run])
  have "data_map s' (encode_qitem_key n ?k) = None" using nk unfolding s'_def dt' by auto
  then have "raw_get (encode_qitem_key n ?k) s' = NotFound"
    using io2 by (simp add: raw_get_def ldb_Get_data io_ok_def)
  then show ?thesis unfolding s'_def lg' lg by (intro exI [of _ ?k]) (simp add: s'_def add.commute)
qed


text \<open>C37. Queues are not replicated faithfully: when an item is pushed and popped again before the log of the push is sent, the
  value of that log is gone and it is not sent, but the pop is. The slave, which had the same queue, loses an item that
  the master keeps.\<close>

theorem queue_replication_diverges:
  fixes y :: bytes
  assumes "q_rep s n a (Suc b) (l @ [x])" and "q_rep (sl_db sl) n a' b' (l @ [x])" and "db_inv s" and "db_room s" and "enabled (binlogs s)"
    and "c_status c = C_SYNC" and "\<not> c_mirror c" and "c_seq c = last_seq (binlogs s)" and "c_out c = []"
  defines "s' \<equiv> fst (qpop_back n (binlog_type_char BT_SYNC) (fst (qpush_back n y (binlog_type_char BT_SYNC) s)))"
  shows "\<exists>c' i' sl'. sync_rounds slow 2 s' (c, i) = Some (c', i') \<and> c_seq c' = last_seq (binlogs s') \<and>
    recv_packets (c_out c') False sl = Some (sl', False) \<and> q_rep s' n a b (l @ [x]) \<and> q_rep (sl_db sl') n a' b' l"
proof -
  let ?S = "binlog_type_char BT_SYNC" and ?t = "fst (qpush_back n y (binlog_type_char BT_SYNC) s)" and ?q = "last_seq (binlogs s)"
  from push_pop_logs [OF assms(1,5), of ?S y, folded s'_def] obtain k where
    lg: "log_at s' (?q + 1) = Some (Binlog_make (?q + 1) ?S (binlog_cmd_char BC_QPUSH_BACK) (encode_qitem_key n k))"
      "log_at s' (?q + 2) = Some (Binlog_make (?q + 2) ?S (binlog_cmd_char BC_QPOP_BACK) n)"
    and gone: "raw_get (encode_qitem_key n k) s' = NotFound" "last_seq (binlogs s') = ?q + 2" by auto
  have sm: "db_inv ?t" using db_step_inv [OF st_qpush_back assms(3,4)] .
  have room: "seq_room 7 s" "seq_room 14 s" using assms(4) by (simp_all add: seq_room_def db_room_def)
  have t: "tx_run 7 s ?t" "tx_run 7 ?t s'" unfolding s'_def qpush_back_def qpop_back_def by (rule qpush_run qpop_run)+
  have inv: "binlog_inv s'"
    using tx_run_binlog_inv [OF t(2)] sm tx_run_length(2) [OF t(1) room(1)] assms(4) by (simp add: db_inv_def seq_room_def db_room_def)
  let ?c1 = "c\<lparr>c_seq := ?q + 1\<rparr>" and ?b = "Binlog_make (?q + 2) ?S (binlog_cmd_char BC_QPOP_BACK) n"
  have r1: "sync_round slow s' (c, i) = Some (?c1, 0)"
    using sync_round_send [OF inv assms(6,7), of _ slow i] lg(1) gone(1) by (simp add: assms(8) send_log_def)
  have e: "?q + 1 + 1 = ?q + 2" by simp
  have r2: "sync_round slow s' (?c1, 0) = Some (?c1\<lparr>c_seq := ?q + 2, c_out := [[?b]]\<rparr>, 0)"
    using sync_round_send [OF inv, of ?c1 ?b slow 0] lg(2) assms(6,7,9) unfolding e
    by (simp add: e send_log_def client_send_def)
  have "sync_rounds slow 2 s' (c, i) = Some (?c1\<lparr>c_seq := ?q + 2, c_out := [[?b]]\<rparr>, 0)"
    using r1 r2 by (simp add: numeral_2_eq_2)
  moreover obtain sl' where "recv_packets [[?b]] False sl = Some (sl', False)" "sl_db sl' = fst (qpop_back n (log_type sl) (sl_db sl))"
  proof -
    have g: "good_packet [?b]" by (rule gp_key) (auto intro: lf_queue simp: q_cmds_def)
    show thesis
      using that [of "fst (Slave_proc [?b] sl)"] good_not_noauth [OF g] Slave_proc_good [OF g] assms(2)
      by (cases "Slave_proc [?b] sl") (auto simp: Slave_proc_def proc_sync_db sync_switch_def sync_qpop_def q_rep_def case_prod_beta)
  qed
  moreover have "q_rep s' n a b (l @ [x])"
    unfolding s'_def using qpop_back_correct(1) qpush_back_correct(1) [OF assms(1)] by blast
  moreover have "q_rep (fst (qpop_back n (log_type sl) (sl_db sl))) n a' b' l" by (rule qpop_back_correct(1) [OF assms(2)])
  ultimately show ?thesis using gone(2) by auto
qed


theorem queue_replication_diverges_witness:
  "\<exists>c' i' sl'. sync_rounds (\<lambda>_. False) 2 (fst (qpop_back ''q'' (binlog_type_char BT_SYNC) (fst (qpush_back ''q'' ''y'' (binlog_type_char BT_SYNC) queue_db))))
      (Client_new\<lparr>c_status := C_SYNC, c_seq := last_seq (binlogs queue_db)\<rparr>, 0) = Some (c', i') \<and>
    recv_packets (c_out c') False (fresh_slave\<lparr>sl_db := queue_db\<rparr>) = Some (sl', False) \<and> q_rep (sl_db sl') ''q'' 9 9 []"
proof -
  have st: "db_step fresh_db queue_db" unfolding queue_db_def by (rule st_qpush_back)
  have room: "db_room fresh_db" by (simp add: db_room_def fresh_queue)
  have inv: "db_inv queue_db" by (rule db_step_inv [OF st fresh_db_inv room])
  have en: "enabled (binlogs queue_db)" by (rule db_step_enabled [OF st]) (simp add: fresh_queue)
  have "tx_run 7 fresh_db queue_db" unfolding queue_db_def qpush_back_def by (rule qpush_run)
  from tx_run_length [OF this] have "db_room queue_db" by (simp add: seq_room_def fresh_queue db_room_def)
  with queue_replication_diverges [where s = queue_db and n = "''q''" and a = 9 and b = 8 and l = "[]" and x = "''x''" and y = "''y''"
      and sl = "fresh_slave\<lparr>sl_db := queue_db\<rparr>" and a' = 9 and b' = 9 and slow = "\<lambda>_. False" and i = 0
      and c = "Client_new\<lparr>c_status := C_SYNC, c_seq := last_seq (binlogs queue_db)\<rparr>"]
    queue_db_rep inv en show ?thesis by (auto simp: Client_new_def numeral_eq_Suc)
qed

subsection \<open>Failing writes\<close>

lemma proc_sync_seq: "snd (sync_switch b req sl) \<Longrightarrow> sl_seq (fst (proc_sync b req sl)) = Binlog_seq b"
  by (auto simp: proc_sync_def save_status_def Let_def case_prod_beta)

text \<open>A slave forgets a write that fails: \<open>proc\<close> does not look at the result of \<open>proc_sync\<close>, so the string of log \<open>q + 1\<close> is
  not stored, and once the disk works again the log \<open>q + 2\<close> moves the position of the slave past both. Connecting
  again, it asks for the logs after \<open>q + 2\<close>.\<close>

theorem slave_forgets_failed_write:
  assumes "io_ok (sl_db sl)" and "k \<noteq> []" and "k' \<noteq> []" and "k \<noteq> k'"
  shows "\<exists>sl1 sl2. Slave_proc [Binlog_make (q + 1) (binlog_type_char BT_SYNC) (binlog_cmd_char BC_KSET) (encode_kv_key k), v]
      (sl\<lparr>sl_db := (sl_db sl)\<lparr>ldb := (ldb (sl_db sl))\<lparr>wr_fail := True\<rparr>\<rparr>\<rparr>) = (sl1, 0) \<and>
    Slave_proc [Binlog_make (q + 2) (binlog_type_char BT_SYNC) (binlog_cmd_char BC_KSET) (encode_kv_key k'), v']
      (sl1\<lparr>sl_db := (sl_db sl1)\<lparr>ldb := (ldb (sl_db sl1))\<lparr>wr_fail := False\<rparr>\<rparr>\<rparr>) = (sl2, 0) \<and>
    sl_seq sl2 = q + 2 \<and> ssdb_get k (sl_db sl2) = ssdb_get k (sl_db sl) \<and> ssdb_get k' (sl_db sl2) = Found v'"
proof -
  let ?p = "[Binlog_make (q + 1) (binlog_type_char BT_SYNC) (binlog_cmd_char BC_KSET) (encode_kv_key k), v]"
  let ?p' = "[Binlog_make (q + 2) (binlog_type_char BT_SYNC) (binlog_cmd_char BC_KSET) (encode_kv_key k'), v']"
  let ?sl = "sl\<lparr>sl_db := (sl_db sl)\<lparr>ldb := (ldb (sl_db sl))\<lparr>wr_fail := True\<rparr>\<rparr>\<rparr>"
  have db: "sl_db (fst (Slave_proc [Binlog_make r (binlog_type_char BT_SYNC) (binlog_cmd_char BC_KSET) (encode_kv_key h), w] z)) =
      fst (ssdb_set h w (log_type z) (sl_db z))" "snd (Slave_proc [Binlog_make r (binlog_type_char BT_SYNC) (binlog_cmd_char BC_KSET) (encode_kv_key h), w] z) = 0" for r h w z
    by (simp_all add: Slave_proc_def proc_sync_db sync_switch_def sync_kv_def)
  define sl1 where "sl1 = fst (Slave_proc ?p ?sl)"
  let ?sl1 = "sl1\<lparr>sl_db := (sl_db sl1)\<lparr>ldb := (ldb (sl_db sl1))\<lparr>wr_fail := False\<rparr>\<rparr>\<rparr>"
  define sl2 where "sl2 = fst (Slave_proc ?p' ?sl1)"
  have l1: "ldb (sl_db sl1) = (ldb (sl_db sl))\<lparr>wr_fail := True\<rparr>"
    unfolding sl1_def db using tx_run_wr_fail [OF kv_ops_run(1), of "sl_db ?sl"] by simp
  then have io1: "io_ok (sl_db ?sl1)" using assms(1) by (simp add: io_ok_def)
  have d1: "data_map (sl_db ?sl1) = data_map (sl_db sl)" by (rule data_map_ldb) (use l1 assms(1) in \<open>simp add: io_ok_def\<close>)
  have d2: "data_map (sl_db sl2) = (data_map (sl_db sl))(encode_kv_key k' \<mapsto> v')"
    using io1 assms(3) unfolding sl2_def db d1 [symmetric] by (intro ssdb_set_data) (simp_all add: io_ok_def)
  have io2: "io_ok (sl_db sl2)" unfolding sl2_def db by (rule io_ok_run [OF io1 kv_ops_run(1)])
  have ok: "snd (sync_switch (?p' ! 0) ?p' (?sl1\<lparr>sl_status := S_SYNC, sl_sync_count := sl_sync_count ?sl1 + 1\<rparr>))"
    using ssdb_set_data(2) [of "sl_db ?sl1" k' v'] io1 assms(3) by (simp add: sync_switch_def sync_kv_def sl_op_def io_ok_def)
  have "sl_seq sl2 = q + 2" unfolding sl2_def using proc_sync_seq [OF ok] by (simp add: Slave_proc_def)
  moreover have "ssdb_get k (sl_db sl2) = ssdb_get k (sl_db sl)" "ssdb_get k' (sl_db sl2) = Found v'"
    using io2 assms(1,4) by (auto simp: ssdb_get_def ldb_Get_data io_ok_def d2)
  moreover have "Slave_proc ?p ?sl = (sl1, 0)" "Slave_proc ?p' ?sl1 = (sl2, 0)" using db(2) by (simp_all add: sl1_def sl2_def prod_eq_iff)
  ultimately show ?thesis by blast
qed

theorem slave_forgets_failed_write_witness:
  "\<exists>sl1 sl2. Slave_proc [Binlog_make 1 (binlog_type_char BT_SYNC) (binlog_cmd_char BC_KSET) (encode_kv_key ''a''), ''1'']
      (fresh_slave\<lparr>sl_db := fresh_db\<lparr>ldb := (ldb fresh_db)\<lparr>wr_fail := True\<rparr>\<rparr>\<rparr>) = (sl1, 0) \<and>
    Slave_proc [Binlog_make 2 (binlog_type_char BT_SYNC) (binlog_cmd_char BC_KSET) (encode_kv_key ''b''), ''2'']
      (sl1\<lparr>sl_db := (sl_db sl1)\<lparr>ldb := (ldb (sl_db sl1))\<lparr>wr_fail := False\<rparr>\<rparr>\<rparr>) = (sl2, 0) \<and> sl_seq sl2 = 2 \<and>
    ssdb_get ''a'' (sl_db sl2) = NotFound \<and> ssdb_get ''b'' (sl_db sl2) = Found ''2''"
proof -
  have "sl_db fresh_slave = fresh_db" by (simp add: fresh_slave_def Slave_new_def)
  moreover have "ssdb_get ''a'' fresh_db = NotFound" by (simp add: ssdb_get_def ldb_Get_def)
  ultimately show ?thesis using slave_forgets_failed_write [of fresh_slave "''a''" "''b''" 0 "''1''" "''2''"] by auto
qed

end
