(* ===== verification/Copy.thy ===== *)
theory Copy
  imports Replication
begin

section \<open>The first copy\<close>

text \<open>
  A slave that has nothing is sent a copy of the store. While its master does not write, the copy ends and the slave is in
  step with the master: the state from which \<open>Replication\<close> starts.
\<close>

subsection \<open>Packets of a copy at the slave\<close>

inductive copy_packet :: "bytes list \<Rightarrow> bool" where
  cp_mark: "c \<in> binlog_cmd_char ` {BC_BEGIN, BC_END} \<Longrightarrow> copy_packet [Binlog_make q (binlog_type_char BT_COPY) c [], v]"
| cp_value: "log_form c k \<Longrightarrow> k \<noteq> encode_kv_key [] \<Longrightarrow> (key_type k = type_char ZSET \<longrightarrow> filter_score v = v) \<Longrightarrow>
    c \<in> binlog_cmd_char ` {BC_KSET, BC_HSET, BC_ZSET, BC_QSET, BC_QPUSH_BACK, BC_QPUSH_FRONT} \<Longrightarrow>
    copy_packet [Binlog_make q (binlog_type_char BT_COPY) c k, v]"

text \<open>The \<open>switch\<close> does not look at the type of a log.\<close>

lemma sync_switch_type: "sl_db (fst (sync_switch (Binlog_make q t c k) [x, v] sl)) = sl_db (fst (sync_switch (Binlog_make q t' c k) [y, v] sl))"
  unfolding sync_switch_def sync_kv_def sync_hash_def sync_zset_def sync_qput_def sync_qpop_def Let_def Binlog_make_fields One_nat_def nth_Cons_Suc nth_Cons_0 by simp

lemma not_tracked_Nil [simp]: "\<not> tracked []"
  by (simp add: tracked_def)

lemma Slave_proc_copy:
  assumes "copy_packet p" and "io_ok (sl_db sl)"
  shows "io_ok (sl_db (fst (Slave_proc p sl))) \<and>
    same_data (data_map (sl_db (fst (Slave_proc p sl)))) (apply_packet p (data_map (sl_db sl))) \<and> snd (Slave_proc p sl) = 0 \<and> p ! 0 \<noteq> ''noauth''"
  using assms(1)
proof cases
  case (cp_mark c q v)
  have "Binlog_load (p ! 0) \<noteq> None" by (simp add: cp_mark)
  then have "p ! 0 \<noteq> ''noauth''" by (auto simp: Binlog_load_def HEADER_LEN_def)
  then show ?thesis using cp_mark assms(2) by (auto simp: Slave_proc_def proc_copy_def apply_packet_def same_data_def Let_def)
next
  case (cp_value c k v q)
  let ?p = "[Binlog_make q (binlog_type_char BT_SYNC) c k, v]" and ?sl = "sl\<lparr>sl_status := S_COPY, copy_count := copy_count sl + 1\<rparr>"
  have g: "good_packet ?p" by (rule gp_value [OF _ cp_value(2-5)]) simp
  have "Binlog_load (p ! 0) \<noteq> None" by (simp add: cp_value)
  then have n: "p ! 0 \<noteq> ''noauth''" by (auto simp: Binlog_load_def HEADER_LEN_def)
  have c: "c \<noteq> binlog_cmd_char BC_BEGIN" "c \<noteq> binlog_cmd_char BC_END" using cp_value(5) by auto
  have e: "Slave_proc p sl = (fst (proc_sync (p ! 0) p ?sl), 0)" using c by (simp add: Slave_proc_def cp_value(1) proc_copy_def)
  have "sl_db (fst (sync_switch (p ! 0) p ?sl)) = sl_db (fst (sync_switch (?p ! 0) ?p ?sl))" unfolding cp_value(1) nth_Cons_0 by (rule sync_switch_type)
  moreover have "apply_packet p = apply_packet ?p" by (simp add: fun_eq_iff apply_packet_def cp_value(1) Let_def)
  ultimately show ?thesis using sync_switch_good [OF g, of ?sl] assms(2) n by (simp add: e proc_sync_db)
qed

lemma recv_copy:
  "\<forall>p \<in> set ps. copy_packet p \<or> good_packet p \<Longrightarrow> io_ok (sl_db sl) \<Longrightarrow> \<exists>sl'. recv_packets ps broken sl = Some (sl', broken) \<and> io_ok (sl_db sl') \<and>
    same_data (data_map (sl_db sl')) (fold apply_packet ps (data_map (sl_db sl)))"
proof (induction ps arbitrary: sl)
  case (Cons p ps)
  obtain sl1 r where s: "Slave_proc p sl = (sl1, r)" by fastforce
  have P: "io_ok (sl_db sl1)" "same_data (data_map (sl_db sl1)) (apply_packet p (data_map (sl_db sl)))" "r = 0" "p ! 0 \<noteq> ''noauth''"
    using Cons.prems Slave_proc_copy [of p sl] Slave_proc_good [of p sl] good_not_noauth [of p] s by auto
  from Cons.IH [of sl1] Cons.prems(1) P(1) obtain sl' where sl': "recv_packets ps broken sl1 = Some (sl', broken)" "io_ok (sl_db sl')"
    "same_data (data_map (sl_db sl')) (fold apply_packet ps (data_map (sl_db sl1)))" by auto
  have "same_data (data_map (sl_db sl')) (fold apply_packet (p # ps) (data_map (sl_db sl)))"
    using same_data_trans [OF sl'(3) fold_packets_same [OF P(2)]] by simp
  with sl' show ?case using P s by simp
qed (simp add: same_data_def)

subsection \<open>The loop of a copy at the master\<close>

text \<open>The packets for one entry of the store.\<close>

definition entry_packets :: "u64 \<Rightarrow> bytes \<times> bytes \<Rightarrow> bytes list list" where
  "entry_packets q e = (case copy_cmd (key_type (fst e)) of None \<Rightarrow> [] | Some cm \<Rightarrow> [[Binlog_make q (binlog_type_char BT_COPY) (binlog_cmd_char cm) (fst e), snd e]])"

definition end_packet :: "u64 \<Rightarrow> bytes list" where
  "end_packet q = [Binlog_make q (binlog_type_char BT_COPY) (binlog_cmd_char BC_END) [], ''copy_end'']"

text \<open>
  What the loop leaves when \<open>rest\<close> is before the iterator: \<open>sent\<close> has been sent, and the copy has ended, at the end of the store or at
  a key after all that are copied, or it goes on with \<open>left\<close>.
\<close>

definition copied :: "client \<Rightarrow> kvs \<Rightarrow> client \<Rightarrow> kvs \<Rightarrow> kvs \<Rightarrow> bool" where
  "copied c rest c' sent left \<longleftrightarrow> rest = sent @ left \<and> c_seq c' = c_seq c \<and> c_mirror c' = c_mirror c \<and>
     (c_status c' = C_SYNC \<and> (left = [] \<or> schar (key_type (fst (hd left))) > schar (type_char ZSET)) \<and>
        c_out c' = c_out c @ concat (map (entry_packets (c_seq c)) sent) @ [end_packet (c_seq c)] \<or>
      c_status c' = c_status c \<and> (\<exists>it. c_iter c' = Some it \<and> iter_ok it \<and> iter_rest it = left) \<and>
        c_out c' = c_out c @ concat (map (entry_packets (c_seq c)) sent))"

text \<open>One entry: its packet is sent, and the loop goes on or its three seconds are over.\<close>

lemma copy_loop_entry:
  assumes "out_size c \<le> 2 * 1024 * 1024" and "Iterator_next it = (it', True)" and "k = Iterator_key it'" and "k \<noteq> []"
    and "\<not> schar (key_type k) > schar (type_char ZSET)" and "c1 = c\<lparr>c_key := k, c_out := c_out c @ entry_packets (c_seq c) (k, Iterator_val it')\<rparr>"
  shows "(\<exists>m. copy_loop slow (Suc n) it ret c = copy_loop slow n it' m c1) \<or> (\<exists>m. copy_loop slow (Suc n) it ret c = (c1\<lparr>c_iter := Some it'\<rparr>, m))"
proof -
  have kt: "k ! 0 = key_type k" using assms(4) by (cases k) simp_all
  show ?thesis
  proof (cases "copy_cmd (key_type k)")
    case None
    then have "c1 = c\<lparr>c_key := k\<rparr>" using assms(6) by (simp add: entry_packets_def)
    then show ?thesis using assms(1-5) kt None by auto
  next
    case (Some cm)
    have "client_send [Binlog_make (c_seq c) (binlog_type_char BT_COPY) (binlog_cmd_char cm) k, Iterator_val it'] (c\<lparr>c_key := k\<rparr>) = c1"
      using Some assms(6) by (simp add: entry_packets_def client_send_def)
    then show ?thesis using assms(1-5) kt Some by (cases "slow (Suc ret)") (auto simp: Let_def)
  qed
qed

lemma copy_loop_copied:
  assumes "iter_ok it" and "iter_rest it = rest" and "\<forall>e \<in> set rest. fst e \<noteq> []"
  shows "\<exists>sent left. copied c rest (fst (copy_loop slow n it ret c)) sent left \<and>
    (n \<noteq> 0 \<and> out_size c \<le> 2 * 1024 * 1024 \<and> c_status (fst (copy_loop slow n it ret c)) \<noteq> C_SYNC \<longrightarrow> sent \<noteq> [])"
  using assms
proof (induction n arbitrary: it rest ret c)
  case 0
  then show ?case by (intro exI [of _ "[]"] exI [of _ rest]) (simp add: copied_def)
next
  case (Suc n)
  obtain it' b where it': "Iterator_next it = (it', b)" by fastforce
  note nx = Iterator_next_cases [OF Suc.prems(1) it']
  let ?k = "Iterator_key it'" and ?v = "Iterator_val it'"
  consider "out_size c > 2 * 1024 * 1024" | "out_size c \<le> 2 * 1024 * 1024" "\<not> b" | "out_size c \<le> 2 * 1024 * 1024" b by linarith
  then show ?case
  proof cases
    case 1
    then show ?thesis using Suc.prems by (intro exI [of _ "[]"] exI [of _ rest]) (simp add: copied_def)
  next
    case 2
    then have "rest = []" using nx(2) Suc.prems(2) by simp
    then show ?thesis using 2 it' by (intro exI [of _ "[]"] exI [of _ "[]"]) (simp add: copied_def copy_end_def client_send_def end_packet_def)
  next
    case 3
    have r: "rest = (?k, ?v) # iter_rest it'" using nx(3) 3 Suc.prems(2) by simp
    have ne: "?k \<noteq> []" "?k ! 0 = key_type ?k" using Suc.prems(3) r by (auto simp: neq_Nil_conv)
    show ?thesis
    proof (cases "schar (key_type ?k) > schar (type_char ZSET)")
      case True
      then show ?thesis using 3 it' ne r by (intro exI [of _ "[]"] exI [of _ rest]) (simp add: copied_def copy_end_def client_send_def end_packet_def)
    next
      case False
      let ?c1 = "c\<lparr>c_key := ?k, c_out := c_out c @ entry_packets (c_seq c) (?k, ?v)\<rparr>"
      have rest': "\<forall>e \<in> set (iter_rest it'). fst e \<noteq> []" using Suc.prems(3) r by simp
      from copy_loop_entry [OF 3(1) _ refl ne(1) False refl, of it slow n ret] it' 3(2)
      consider m where "copy_loop slow (Suc n) it ret c = copy_loop slow n it' m ?c1" | m where "copy_loop slow (Suc n) it ret c = (?c1\<lparr>c_iter := Some it'\<rparr>, m)"
        by auto
      then show ?thesis
      proof cases
        case (1 m)
        from Suc.IH [OF nx(1) refl rest', of ?c1 m] obtain sent left where "copied ?c1 (iter_rest it') (fst (copy_loop slow n it' m ?c1)) sent left" by blast
        then show ?thesis unfolding 1 by (intro exI [of _ "(?k, ?v) # sent"] exI [of _ left]) (auto simp: copied_def r)
      next
        case (2 m)
        then show ?thesis using nx(1) r by (intro exI [of _ "[(?k, ?v)]"] exI [of _ "iter_rest it'"]) (simp add: copied_def)
      qed
    qed
  qed
qed

subsection \<open>The entries of a store\<close>

text \<open>A master whose data can be copied: its newest log has a key, as the logs of all operations have, and its scores are decimals.\<close>

definition quiet_master :: "ssdb \<Rightarrow> bool" where
  "quiet_master s \<longleftrightarrow> db_inv s \<and> db_room s \<and> enabled (binlogs s) \<and> sane s \<and>
     (\<forall>x v. data_map s x = Some v \<longrightarrow> key_type x = type_char ZSET \<longrightarrow> filter_score v = v) \<and>
     (\<forall>b. log_at s (last_seq (binlogs s)) = Some b \<longrightarrow> Binlog_key b \<noteq> [])"

lemma quietD:
  assumes "quiet_master s"
  shows "binlog_inv s" "kv_sorted (entries (ldb s))" "hcoll.coll_inv (data_map s)" "zcoll.coll_inv (data_map s)" "db_inv s" "sane s"
    "data_map s x = Some v \<Longrightarrow> key_type x = type_char ZSET \<Longrightarrow> filter_score v = v"
  using assms by (auto simp: quiet_master_def db_inv_def data_inv_def zset_inv_def binlog_inv_def)

definition copy_rest :: "ssdb \<Rightarrow> kvs" where
  "copy_rest s = filter (\<lambda>p. [type_char HASH] < fst p) (entries (ldb s))"

lemma entry_packets_good:
  assumes "quiet_master s" and "e \<in> set (copy_rest s)" and "p \<in> set (entry_packets q e)"
  shows "copy_packet p"
proof -
  obtain k v where e: "e = (k, v)" by fastforce
  from assms(2) have m: "map_of (entries (ldb s)) k = Some v" and gt: "[type_char HASH] < k"
    using quietD(2) [OF assms(1)] by (auto simp: copy_rest_def e kv_sorted_def strict_sorted_iff)
  from assms(3) have "copy_cmd (key_type k) \<noteq> None" by (cases "copy_cmd (key_type k)") (simp_all add: entry_packets_def e)
  then obtain cm where c: "copy_cmd (key_type k) = Some cm" by blast
  have "p = [Binlog_make q (binlog_type_char BT_COPY) (binlog_cmd_char cm) k, v]" using assms(3) by (simp add: entry_packets_def e c)
  note cm = c this
  have d: "data_map s k = Some v"
    using m cm(1) by (cases k) (auto simp: data_map_def db_map_def is_log_key_def copy_cmd_def split: if_splits)
  have lf: "log_form (binlog_cmd_char cm) k"
  proof (cases "key_type k = type_char KV")
    case True
    then obtain k' where "k = encode_kv_key k'" by (cases k) (auto simp: encode_kv_key_def)
    then show ?thesis using cm(1) True by (auto simp: copy_cmd_def intro: lf_kset)
  next
    case nk: False
    show ?thesis
    proof (cases "key_type k = type_char QUEUE")
      case True
      then show ?thesis using cm(1) by (auto simp: copy_cmd_def q_cmds_def intro: lf_queue)
    next
      case False
      then have "key_type k = type_char HASH \<or> key_type k = type_char ZSET" using nk cm(1) by (auto simp: copy_cmd_def split: if_splits)
      then show ?thesis using d quietD(3,4) [OF assms(1)] cm(1)
        by (auto simp: hcoll.coll_inv_def hcoll.only_ok_def zcoll.coll_inv_def zcoll.only_ok_def copy_cmd_def intro!: lf_hset lf_zset dest!: spec split: if_splits)
    qed
  qed
  moreover have "k \<noteq> encode_kv_key []" using d quietD(6) [OF assms(1)] by (auto simp: sane_def)
  moreover have "key_type k = type_char ZSET \<longrightarrow> filter_score v = v" using quietD(7) [OF assms(1) d] by blast
  moreover have "binlog_cmd_char cm \<in> binlog_cmd_char ` {BC_KSET, BC_HSET, BC_ZSET, BC_QSET, BC_QPUSH_BACK, BC_QPUSH_FRONT}"
    using cm(1) by (auto simp: copy_cmd_def split: if_splits)
  ultimately show ?thesis unfolding cm(2) by (rule cp_value)
qed

text \<open>Receiving the packets of entries adds the tracked ones.\<close>

lemma apply_entries:
  "tracked x \<Longrightarrow> fold apply_packet (concat (map (entry_packets q) es)) m x = (case map_of (rev es) x of None \<Rightarrow> m x | Some v \<Rightarrow> Some v)"
proof (induction es arbitrary: m)
  case (Cons e es)
  obtain k v where e: "e = (k, v)" by fastforce
  have "fold apply_packet (entry_packets q e) m x = (if k = x then Some v else m x)"
    using Cons.prems by (auto simp: entry_packets_def e apply_packet_def tracked_def set_cmd_def copy_cmd_def Let_def split: option.split)
  then show ?case using Cons.IH [OF Cons.prems, of "fold apply_packet (entry_packets q e) m"] by (auto simp: e map_add_def split: option.splits)
qed simp

lemma entry_data:
  assumes "quiet_master s" and "(x, v) \<in> set (copy_rest s)" and "tracked x"
  shows "data_map s x = Some v"
proof -
  have "map_of (entries (ldb s)) x = Some v" using assms(2) quietD(2) [OF assms(1)] by (simp add: copy_rest_def kv_sorted_def strict_sorted_iff)
  then show ?thesis using tracked_not_log [OF assms(3)] by (simp add: data_map_def db_map_def)
qed

lemma data_entry:
  assumes "quiet_master s" and "data_map s x = Some v" and "tracked x"
  shows "(x, v) \<in> set (copy_rest s)"
proof -
  have m: "map_of (entries (ldb s)) x = Some v" using assms(2) tracked_not_log [OF assms(3)] by (simp add: data_map_def db_map_def)
  have "[type_char HASH] < x"
  proof (cases "key_type x = type_char HASH")
    case True
    with assms(2) quietD(3) [OF assms(1)] obtain n k where "x = encode_hash_key n k" by (auto simp: hcoll.coll_inv_def hcoll.only_ok_def)
    then show ?thesis by (simp add: encode_hash_key_def)
  next
    case False
    then show ?thesis using assms(3) by (cases x) (auto simp: tracked_def less_char_def)
  qed
  then show ?thesis using map_of_SomeD [OF m] by (simp add: copy_rest_def)
qed

lemma past_tracked:
  assumes "kv_sorted l" and "schar (key_type (fst (hd l))) > schar (type_char ZSET)" and "x \<in> fst ` set l"
  shows "\<not> tracked x"
proof
  assume t: "tracked x"
  obtain e l' where l: "l = e # l'" using assms(3) by (cases l) auto
  have le: "fst e \<le> x" using assms(1,3) by (auto simp: l kv_sorted_def intro: less_imp_le)
  have i: "(of_char (key_type (fst e)) :: int) = int (of_char (key_type (fst e)))" by (simp only: of_nat_of_char)
  have big: "of_char (type_char ZSET) < (of_char (key_type (fst e)) :: nat)" using assms(2) nat_of_char_less_256 [of "key_type (fst e)"]
    unfolding l list.sel schar_def i by (simp split: if_splits)
  obtain a as b bs where "fst e = a # as" "x = b # bs" using big t by (cases "fst e"; cases x) (auto simp: tracked_def)
  then show False using le big t by (auto simp: tracked_def less_char_def less_eq_char_def)
qed

subsection \<open>Rounds\<close>

text \<open>A round of the master's thread, after which the slave receives what was sent. \<open>slow n\<close> is the clock of the \<open>n\<close>-th round.\<close>

fun exchange :: "(nat \<Rightarrow> nat \<Rightarrow> bool) \<Rightarrow> nat \<Rightarrow> ssdb \<Rightarrow> (client \<times> nat) \<times> slave \<Rightarrow> ((client \<times> nat) \<times> slave) option" where
  "exchange slow 0 s cs = Some cs"
| "exchange slow (Suc n) s cs =
     (case sync_round (slow 0) s (fst cs) of
        None \<Rightarrow> None
      | Some (c, i) \<Rightarrow>
          (case recv_packets (c_out c) False (snd cs) of None \<Rightarrow> None | Some (sl, r) \<Rightarrow> exchange (\<lambda>i. slow (Suc i)) n s ((c\<lparr>c_out := []\<rparr>, i), sl)))"

text \<open>The state between two rounds of a copy, when \<open>rest\<close> has not been sent.\<close>

definition copying :: "ssdb \<Rightarrow> client \<Rightarrow> slave \<Rightarrow> kvs \<Rightarrow> bool" where
  "copying s c sl rest \<longleftrightarrow> c_status c = C_COPY \<and> \<not> c_mirror c \<and> out_size c \<le> 2 * 1024 * 1024 \<and> (\<forall>p \<in> set (c_out c). copy_packet p \<or> good_packet p) \<and>
     io_ok (sl_db sl) \<and> (\<exists>sent. copy_rest s = sent @ rest) \<and>
     (\<forall>x. tracked x \<longrightarrow> fold apply_packet (c_out c) (data_map (sl_db sl)) x = (if x \<in> fst ` set rest then None else data_map s x)) \<and>
     (c_iter c = None \<and> c_key c = [] \<and> rest = copy_rest s \<and> c_seq c = 0 \<or>
      (\<exists>it. c_iter c = Some it \<and> iter_ok it \<and> iter_rest it = rest) \<and> c_seq c = last_seq (binlogs s))"

lemma no_new_logs:
  assumes "quiet_master s"
  shows "bl_find_next (last_seq (binlogs s) + 1) (ldb s) = FR_None"
proof -
  have "since (last_seq (binlogs s)) (data_map s) s []" using assms by (intro since_start) (auto simp: quiet_master_def)
  then show ?thesis using assms by (intro since_found_none) (auto simp: quiet_master_def db_inv_def db_room_def)
qed

lemma no_logs:
  assumes "binlog_inv s" and "last_seq (binlogs s) = 0"
  shows "bl_find_last (ldb s) = FR_None"
proof -
  have no: "decode_seq_key k = 0" if "db_map s k = Some v" for k v
    using binlog_invD(2) [OF assms(1) that] assms(2) decode_seq_key_other [of k] by (auto simp: log_entry_ok_def)
  then show ?thesis using map_of_nth [OF binlog_invD(1) [OF assms(1)]]
    by (auto simp: bl_find_last_def Let_def bl_load_at_def it_Valid_def it_key_def db_map_def it_Seek_def
        it_new_def it_SeekToLast_def it_Prev_def split: if_splits)
qed

text \<open>Looking for logs finds none to send, and takes over the number of the newest.\<close>

lemma copy_sync:
  assumes "quiet_master s" and "c_status c = C_COPY" and "c_seq c = last_seq (binlogs s) \<or> c_seq c = 0 \<and> c_key c = [] \<and> c_iter c = None"
  shows "Client_sync s c = Some (c\<lparr>c_seq := last_seq (binlogs s)\<rparr>, 0)"
proof -
  let ?q = "last_seq (binlogs s)"
  note inv = quietD(1) [OF assms(1)]
  have at_end: "sync_loop s log c' = Some (c', Inl 0)" if "c_status c' = C_COPY" "c_seq c' = ?q" for c' log
  proof -
    have f: "(if c_status c' = C_COPY \<and> c_seq c' = 0 then bl_find_last (ldb s) else bl_find_next (c_seq c' + 1) (ldb s)) = FR_None"
      using that no_new_logs [OF assms(1)] no_logs [OF inv] by auto
    show ?thesis by (subst sync_loop.simps) (simp only: Let_def f if_True simp_thms)
  qed
  show ?thesis
  proof (cases "c_seq c = ?q")
    case True
    then show ?thesis using at_end [OF assms(2)] by (simp add: Client_sync_def)
  next
    case False
    then have c: "c_seq c = 0" "c_key c = []" "c_iter c = None" "?q \<noteq> 0" using assms(3) by auto
    have "?q < UINT64_MAX" using assms(1) by (simp add: quiet_master_def db_room_def word_less_nat_alt UINT64_MAX_def)
    with bl_find_last_correct [OF inv] c(4) obtain b where b: "bl_find_last (ldb s) = FR_Log b" "Binlog_seq b = ?q" "log_at s ?q = Some b"
      by (auto simp: word_gt_0 log_at_def)
    have "Binlog_key b \<noteq> []" using assms(1) b(3) by (simp add: quiet_master_def)
    then have "Bytes_compare (Binlog_key b) [] > 0" using Bytes_compare_sign [of "Binlog_key b" "[]"] by (cases "Binlog_key b") auto
    then have "sync_loop s None c = sync_loop s (Some b) (c\<lparr>c_seq := ?q, c_iter := None\<rparr>)"
      using b(1,2) c(1,2) assms(2) by (subst sync_loop.simps) simp
    moreover have "c\<lparr>c_seq := ?q, c_iter := None\<rparr> = c\<lparr>c_seq := ?q\<rparr>" using c(3) by simp
    ultimately show ?thesis using at_end [of "c\<lparr>c_seq := ?q\<rparr>"] assms(2) by (simp add: Client_sync_def)
  qed
qed

lemma copy_iter:
  assumes "quiet_master s"
  shows "iter_ok (ssdb_iterator (ldb s) [type_char HASH] [] UINT64_MAX)" "iter_rest (ssdb_iterator (ldb s) [type_char HASH] [] UINT64_MAX) = copy_rest s"
proof -
  note k = quietD(2) [OF assms]
  show "iter_ok (ssdb_iterator (ldb s) [type_char HASH] [] UINT64_MAX)" by (rule ssdb_iterator_rest(1) [OF k])
  have "length (copy_rest s) \<le> length (entries (ldb s))" by (simp add: copy_rest_def)
  also have "\<dots> < 2 ^ 62" using assms by (simp add: quiet_master_def db_room_def)
  finally show "iter_rest (ssdb_iterator (ldb s) [type_char HASH] [] UINT64_MAX) = copy_rest s"
    unfolding ssdb_iterator_rest(2) [OF k] by (simp add: copy_rest_def UINT64_MAX_def)
qed

text \<open>One call of \<open>copy\<close>, in the terms of \<open>copying\<close>.\<close>

lemma copy_call:
  assumes "quiet_master s" and "copying s c sl rest"
  shows "\<exists>sent left c' ret. Client_copy slow s (c\<lparr>c_seq := last_seq (binlogs s)\<rparr>) = (c', ret) \<and> copied (c\<lparr>c_seq := last_seq (binlogs s)\<rparr>) rest c' sent left \<and>
    (c_status c' \<noteq> C_SYNC \<longrightarrow> sent \<noteq> []) \<and> (c_status c' = C_SYNC \<longrightarrow> ret = 1)"
proof -
  let ?c = "c\<lparr>c_seq := last_seq (binlogs s)\<rparr>"
  note cp = assms(2) [unfolded copying_def]
  obtain it where it: "Client_copy slow s ?c = copy_loop slow 1000 it 0 ?c" "iter_ok it" "iter_rest it = rest"
    using cp copy_iter [OF assms(1)] by (auto simp: Client_copy_def)
  from cp obtain old where old: "copy_rest s = old @ rest" by blast
  have "set rest \<subseteq> set (copy_rest s)" unfolding old by simp
  then have ne: "\<forall>e \<in> set rest. fst e \<noteq> []" by (auto simp: copy_rest_def)
  have small: "out_size ?c \<le> 2 * 1024 * 1024" using cp by (simp add: out_size_def)
  have ret: "c_status (fst (copy_loop sw n i m c')) = C_SYNC \<Longrightarrow> c_status c' = C_COPY \<Longrightarrow> snd (copy_loop sw n i m c') = 1" for sw n i m c'
    by (induction sw n i m c' rule: copy_loop.induct)
      (auto simp: Let_def client_send_def split: prod.splits bool.splits if_splits option.splits)
  from copy_loop_copied [OF it(2,3) ne, of ?c slow 1000 0] small show ?thesis
    unfolding it(1) using ret [of slow 1000 it 0 ?c] cp by (cases "copy_loop slow 1000 it 0 ?c") auto
qed

lemma copying_data:
  assumes "quiet_master s" and "copying s c sl rest" and "rest = sent @ left" and "tracked x"
  shows "fold apply_packet (concat (map (entry_packets q) sent)) (fold apply_packet (c_out c) (data_map (sl_db sl))) x =
    (if x \<in> fst ` set left then None else data_map s x)"
proof -
  note cp = assms(2) [unfolded copying_def]
  from cp assms(3) obtain old where old: "copy_rest s = old @ sent @ left" by auto
  have "distinct (map fst (copy_rest s))" using quietD(2) [OF assms(1)] by (simp add: copy_rest_def kv_sorted_def strict_sorted_iff distinct_map_filter)
  then have disj: "fst ` set sent \<inter> fst ` set left = {}" unfolding old by (auto simp: image_iff)
  have m: "fold apply_packet (c_out c) (data_map (sl_db sl)) x = (if x \<in> fst ` set rest then None else data_map s x)" using cp assms(4) by blast
  show ?thesis
  proof (cases "map_of (rev sent) x")
    case None
    then have "x \<notin> fst ` set sent" by (simp add: map_of_eq_None_iff)
    then show ?thesis unfolding apply_entries [OF assms(4)] None m assms(3) by auto
  next
    case (Some v)
    then have v: "(x, v) \<in> set sent" by (auto dest: map_of_SomeD)
    then have "(x, v) \<in> set (copy_rest s)" unfolding old by simp
    then have "data_map s x = Some v" by (rule entry_data [OF assms(1) _ assms(4)])
    moreover have "x \<notin> fst ` set left" using disj v by force
    ultimately show ?thesis unfolding apply_entries [OF assms(4)] Some by simp
  qed
qed

text \<open>What a call sends is understood by the slave, and brings it as far as the entries that are left.\<close>

lemma copied_data:
  assumes "quiet_master s" and "copying s c sl rest" and "copied (c\<lparr>c_seq := last_seq (binlogs s)\<rparr>) rest c' sent left"
  defines "ps \<equiv> concat (map (entry_packets (last_seq (binlogs s))) sent)"
  shows "\<forall>p \<in> set ps. copy_packet p" "kv_sorted left" "\<exists>old. copy_rest s = old @ left"
    "tracked x \<Longrightarrow> fold apply_packet (c_out c @ ps) (data_map (sl_db sl)) x = (if x \<in> fst ` set left then None else data_map s x)"
proof -
  have rs: "rest = sent @ left" using assms(3) by (simp add: copied_def)
  from assms(2) obtain old where "copy_rest s = old @ rest" by (auto simp: copying_def)
  then have old: "copy_rest s = old @ sent @ left" using rs by simp
  then have "copy_rest s = (old @ sent) @ left" by simp
  then show "\<exists>old. copy_rest s = old @ left" by blast
  have "set sent \<subseteq> set (copy_rest s)" unfolding old by auto
  then show "\<forall>p \<in> set ps. copy_packet p" using entry_packets_good [OF assms(1)] by (auto simp: ps_def)
  have "kv_sorted (copy_rest s)" unfolding copy_rest_def by (intro kv_sorted_filter quietD(2) [OF assms(1)])
  then show "kv_sorted left" unfolding old by (simp add: kv_sorted_def sorted_wrt_append)
  show "fold apply_packet (c_out c @ ps) (data_map (sl_db sl)) x = (if x \<in> fst ` set left then None else data_map s x)" if "tracked x"
    using copying_data [OF assms(1,2) rs that] by (simp add: ps_def)
qed

text \<open>The round in which the copy ends.\<close>

lemma copy_last_round:
  assumes "quiet_master s" and "copying s c sl rest" and "copied (c\<lparr>c_seq := last_seq (binlogs s)\<rparr>) rest c' sent left" and "c_status c' = C_SYNC"
  shows "\<exists>sl'. recv_packets (c_out c') False sl = Some (sl', False) \<and> in_step s (c'\<lparr>c_out := []\<rparr>) sl'"
proof -
  let ?q = "last_seq (binlogs s)" let ?ps = "concat (map (entry_packets ?q) sent)"
  note cp = assms(2) [unfolded copying_def] and cd = assms(3) [unfolded copied_def] and ad = copied_data [OF assms(1-3)]
  have out: "c_out c' = c_out c @ ?ps @ [end_packet ?q]" and last: "left = [] \<or> schar (key_type (fst (hd left))) > schar (type_char ZSET)"
    using cd assms(4) cp by auto
  have e: "copy_packet (end_packet ?q)" "apply_packet (end_packet ?q) = id"
    unfolding end_packet_def by (rule cp_mark, simp) (simp add: apply_packet_def Let_def fun_eq_iff)
  have "\<forall>p \<in> set (c_out c'). copy_packet p \<or> good_packet p" using cp ad(1) e(1) by (auto simp: out)
  from recv_copy [OF this, of sl False] cp obtain sl' where sl': "recv_packets (c_out c') False sl = Some (sl', False)" "io_ok (sl_db sl')"
    "same_data (data_map (sl_db sl')) (fold apply_packet (c_out c') (data_map (sl_db sl)))" by blast
  have nt: "x \<notin> fst ` set left" if "tracked x" for x using last past_tracked [OF ad(2)] that by (cases "left = []") auto
  have "same_data (data_map (sl_db sl')) (data_map s)" using sl'(3) ad(4) nt e(2) by (simp add: same_data_def out)
  then have "in_step s (c'\<lparr>c_out := []\<rparr>) sl'" using assms(1) sl'(2) cp cd assms(4) by (auto simp: in_step_def quiet_master_def)
  then show ?thesis using sl'(1) by blast
qed

text \<open>A round that leaves entries for the next, with a \<open>noop\<close> when it has sent nothing for long.\<close>

lemma copy_noop:
  assumes "c_status c = C_COPY" and "c2 = c \<or> c2 = Client_noop c"
  obtains extra where "c_out c2 = c_out c @ extra" "\<forall>p \<in> set extra. good_packet p" "fold apply_packet extra = id"
    "c_status c2 = C_COPY" "c_iter c2 = c_iter c" "c_seq c2 = c_seq c" "c_mirror c2 = c_mirror c"
proof (cases "c2 = c")
  case True
  then show ?thesis using that [of "[]"] assms(1) by simp
next
  case False
  let ?p = "[Binlog_make (if c_key c = [] then 0 else c_seq c) (binlog_type_char BT_NOOP) (binlog_cmd_char BC_NONE) [], ''noop'']"
  have "good_packet ?p" by (rule gp_noop)
  moreover have "apply_packet ?p = id" by (simp add: apply_packet_def Let_def fun_eq_iff)
  ultimately show ?thesis using that [of "[?p]"] assms False by (auto simp: Client_noop_def client_send_def)
qed

lemma copy_next_round:
  assumes "quiet_master s" and "copying s c sl rest" and "copied (c\<lparr>c_seq := last_seq (binlogs s)\<rparr>) rest c' sent left" and "c_status c' \<noteq> C_SYNC"
    and "c2 = c' \<or> c2 = Client_noop c'"
  shows "\<exists>sl'. recv_packets (c_out c2) False sl = Some (sl', False) \<and> copying s (c2\<lparr>c_out := []\<rparr>) sl' left"
proof -
  let ?q = "last_seq (binlogs s)" let ?ps = "concat (map (entry_packets ?q) sent)"
  note cp = assms(2) [unfolded copying_def] and cd = assms(3) [unfolded copied_def] and ad = copied_data [OF assms(1-3)]
  have out: "c_out c' = c_out c @ ?ps" and c': "c_status c' = C_COPY" "\<exists>it. c_iter c' = Some it \<and> iter_ok it \<and> iter_rest it = left"
    using cd assms(4) cp by auto
  obtain extra where x: "c_out c2 = c_out c' @ extra" "\<forall>p \<in> set extra. good_packet p" "fold apply_packet extra = id" "c_status c2 = C_COPY"
    "c_iter c2 = c_iter c'" "c_seq c2 = c_seq c'" "c_mirror c2 = c_mirror c'" by (rule copy_noop [OF c'(1) assms(5)])
  have "\<forall>p \<in> set (c_out c2). copy_packet p \<or> good_packet p" using cp ad(1) x(2) by (auto simp: x(1) out)
  from recv_copy [OF this, of sl False] cp obtain sl' where sl': "recv_packets (c_out c2) False sl = Some (sl', False)" "io_ok (sl_db sl')"
    "same_data (data_map (sl_db sl')) (fold apply_packet (c_out c2) (data_map (sl_db sl)))" by blast
  have dm: "data_map (sl_db sl') y = (if y \<in> fst ` set left then None else data_map s y)" if "tracked y" for y
    using sl'(3) ad(4) [OF that] that by (simp add: same_data_def x(1,3) out)
  have kept: "\<not> c_mirror c2" "c_seq c2 = ?q" "\<exists>it. c_iter c2 = Some it \<and> iter_ok it \<and> iter_rest it = left" using cp cd x(5-7) c'(2) by simp_all
  have "copying s (c2\<lparr>c_out := []\<rparr>) sl' left" unfolding copying_def using x(4) sl'(2) ad(3) dm kept by (simp add: out_size_def)
  then show ?thesis using sl'(1) by blast
qed

lemma copy_round:
  assumes "quiet_master s" and "copying s c sl rest"
  shows "\<exists>c' i' sl'. sync_round slow s (c, i) = Some (c', i') \<and> recv_packets (c_out c') False sl = Some (sl', False) \<and>
    (in_step s (c'\<lparr>c_out := []\<rparr>) sl' \<or> (\<exists>left. length left < length rest \<and> copying s (c'\<lparr>c_out := []\<rparr>) sl' left))"
proof -
  let ?c = "c\<lparr>c_seq := last_seq (binlogs s)\<rparr>"
  note cp = assms(2) [unfolded copying_def]
  have sync: "Client_sync s c = Some (?c, 0)" using cp by (intro copy_sync [OF assms(1)]) auto
  from copy_call [OF assms, of slow] obtain sent left c' ret where call: "Client_copy slow s ?c = (c', ret)" "copied ?c rest c' sent left"
    "c_status c' \<noteq> C_SYNC \<longrightarrow> sent \<noteq> []" "c_status c' = C_SYNC \<longrightarrow> ret = 1" by blast
  let ?r = "if ret = 0 then if i \<ge> NOOP_IDLES then (Client_noop c', 0) else (c', i + 1) else (c', 0)"
  have r: "sync_round slow s (c, i) = Some (fst ?r, snd ?r)" using sync call(1) cp by (auto simp: sync_round_def)
  show ?thesis
  proof (cases "c_status c' = C_SYNC")
    case True
    then have "fst ?r = c'" using call(4) by simp
    then show ?thesis using r copy_last_round [OF assms call(2) True] by fastforce
  next
    case False
    have "fst ?r = c' \<or> fst ?r = Client_noop c'" by simp
    from copy_next_round [OF assms call(2) False this] obtain sl' where
      "recv_packets (c_out (fst ?r)) False sl = Some (sl', False)" "copying s ((fst ?r)\<lparr>c_out := []\<rparr>) sl' left" by blast
    moreover have "length left < length rest" using call(2,3) False by (auto simp: copied_def)
    ultimately show ?thesis using r by blast
  qed
qed

text \<open>Every round sends an entry or ends the copy.\<close>

lemma copy_ends:
  assumes "quiet_master s"
  shows "copying s c sl rest \<Longrightarrow> \<exists>n c' i' sl'. n \<le> length rest + 1 \<and> exchange slow n s ((c, i), sl) = Some ((c', i'), sl') \<and> in_step s c' sl'"
proof (induction "length rest" arbitrary: slow c i sl rest rule: less_induct)
  case less
  from copy_round [OF assms less.prems, of "slow 0" i] obtain c1 i1 sl1 where r: "sync_round (slow 0) s (c, i) = Some (c1, i1)"
    "recv_packets (c_out c1) False sl = Some (sl1, False)"
    and alt: "in_step s (c1\<lparr>c_out := []\<rparr>) sl1 \<or> (\<exists>left. length left < length rest \<and> copying s (c1\<lparr>c_out := []\<rparr>) sl1 left)" by blast
  have step: "exchange slow (Suc n) s ((c, i), sl) = exchange (\<lambda>j. slow (Suc j)) n s ((c1\<lparr>c_out := []\<rparr>, i1), sl1)" for n using r by simp
  from alt show ?case
  proof
    assume "in_step s (c1\<lparr>c_out := []\<rparr>) sl1"
    then show ?thesis using step [of 0] by (intro exI [of _ "1 :: nat"]) simp
  next
    assume "\<exists>left. length left < length rest \<and> copying s (c1\<lparr>c_out := []\<rparr>) sl1 left"
    then obtain left where l: "length left < length rest" "copying s (c1\<lparr>c_out := []\<rparr>) sl1 left" by blast
    from less.hyps [OF l, of "\<lambda>j. slow (Suc j)" i1] obtain n c' i' sl' where
      "n \<le> length left + 1" "exchange (\<lambda>j. slow (Suc j)) n s ((c1\<lparr>c_out := []\<rparr>, i1), sl1) = Some ((c', i'), sl')" "in_step s c' sl'" by blast
    then show ?thesis using step [of n] l(1) by (intro exI [of _ "Suc n"]) auto
  qed
qed

lemma first_hello:
  assumes "Slave_connect opened resp flushed sl = Some (sl1, hello, 1)" and "sl_seq sl = 0" and "sl_key sl = []" and "\<not> sl_mirror sl"
  shows "sl_db sl1 = sl_db sl" "last hello = [''sync140'', str_uint64 0, [], ''sync'']"
  using assms by (auto simp: Slave_connect_def Let_def split: if_splits)

lemma first_client:
  "Client_init [''sync140'', str_uint64 0, [], ''sync''] s Client_new =
     Client_new\<lparr>c_status := C_COPY, c_out := [[Binlog_make 0 (binlog_type_char BT_COPY) (binlog_cmd_char BC_BEGIN) [], ''copy_begin'']]\<rparr>"
proof -
  have "Bytes_Uint64 (str_uint64 0) = 0"
    by (simp add: str_uint64_def decimal.simps Bytes_Uint64_def str_to_uint64_def strtoull_def strto_scan_def strto_sign_def c_str_def isspace_def isdigit_def schar_def)
  then show ?thesis by (simp add: Client_init_def Client_new_def Client_reset_def client_send_def Let_def)
qed

lemma copying_start:
  assumes "quiet_master s" and "io_ok (sl_db sl)" and "\<forall>x. tracked x \<longrightarrow> data_map (sl_db sl) x = None"
  shows "copying s (Client_init [''sync140'', str_uint64 0, [], ''sync''] s Client_new) sl (copy_rest s)"
proof -
  let ?b = "[Binlog_make 0 (binlog_type_char BT_COPY) (binlog_cmd_char BC_BEGIN) [], ''copy_begin'']"
  have b: "copy_packet ?b" "apply_packet ?b = id" by (rule cp_mark, simp) (simp add: apply_packet_def Let_def fun_eq_iff)
  have "length (packet_image ?b) \<le> 2 * 1024 * 1024" by (simp add: packet_image_def record_image_def Binlog_make_def decimal_int_def decimal.simps)
  moreover have "(if x \<in> fst ` set (copy_rest s) then None else data_map s x) = None" if "tracked x" for x
    using data_entry [OF assms(1) _ that] by (cases "data_map s x") force+
  ultimately show ?thesis using assms(2,3) b unfolding first_client copying_def by (simp add: Client_new_def out_size_def)
qed

text \<open>C19. A slave that has nothing says \<open>sync140 0\<close> and is sent a copy of the store. While the master does not write, the copy
  ends after at most one round more than there are entries, wherever the clock, the size of the output or the thousand
  entries of a round cut it, and the slave is in step: it answers every \<open>get\<close>, \<open>hget\<close> and \<open>zget\<close> as the master does and
  goes on with the logs.\<close>

theorem first_copy_in_step:
  assumes "quiet_master s" and "io_ok (sl_db sl)" and "\<forall>x. tracked x \<longrightarrow> data_map (sl_db sl) x = None"
    and "sl_seq sl = 0" and "sl_key sl = []" and "\<not> sl_mirror sl" and "Slave_connect opened resp flushed sl = Some (sl1, hello, 1)"
  shows "\<exists>n c i sl'. n \<le> length (entries (ldb s)) + 1 \<and>
    exchange slow n s ((Client_init (last hello) s Client_new, 0), sl1) = Some ((c, i), sl') \<and> in_step s c sl' \<and>
    (\<forall>k. ssdb_get k (sl_db sl') = ssdb_get k s) \<and> (\<forall>n k. hget n k (sl_db sl') = hget n k s \<and> zget n k (sl_db sl') = zget n k s)"
proof -
  note h = first_hello [OF assms(7,4-6)]
  have "copying s (Client_init (last hello) s Client_new) sl1 (copy_rest s)"
    unfolding h(2) using assms(2,3) by (intro copying_start [OF assms(1)]) (simp_all add: h(1))
  from copy_ends [OF assms(1) this, of slow 0] obtain n c i sl' where
    e: "n \<le> length (copy_rest s) + 1" "exchange slow n s ((Client_init (last hello) s Client_new, 0), sl1) = Some ((c, i), sl')" "in_step s c sl'" by blast
  have "length (copy_rest s) \<le> length (entries (ldb s))" by (simp add: copy_rest_def)
  moreover have "same_data (data_map (sl_db sl')) (data_map s)" "io_ok (sl_db sl')" "db_inv s" using e(3) by (simp_all add: in_step_def)
  ultimately show ?thesis using e same_gets [of "sl_db sl'" s] by (intro exI [of _ n] exI [of _ c] exI [of _ i] exI [of _ sl']) (simp add: io_ok_def db_inv_def)
qed

lemma one_string_facts: "quiet_master one_string" "ssdb_get ''a'' one_string = Found ''1''"
proof -
  have d: "data_map one_string = [encode_kv_key ''a'' \<mapsto> ''1'']"
    unfolding one_string_def by (subst ssdb_set_data) (simp_all add: fun_eq_iff)
  have l: "log_at one_string = (\<lambda>_. None)(1 \<mapsto> Binlog_make 1 (binlog_type_char BT_SYNC) (binlog_cmd_char BC_KSET) (encode_kv_key ''a''))"
    unfolding one_string_def by (subst set_log) (simp_all add: fresh_queue log_at_def fun_eq_iff)
  have st: "db_step fresh_db one_string" unfolding one_string_def by (rule db_step.intros)
  have room: "db_room fresh_db" by (simp add: db_room_def fresh_queue)
  have run: "tx_run 2 fresh_db one_string" unfolding one_string_def by (rule kv_ops_run(1))
  have "db_room one_string" using tx_run_length [OF run] by (simp add: seq_room_def fresh_queue db_room_def)
  moreover have "db_inv one_string" by (rule db_step_inv [OF st fresh_db_inv room])
  moreover have "enabled (binlogs one_string)" by (rule db_step_enabled [OF st]) (simp add: fresh_queue)
  moreover have "sane one_string" using d l by (simp add: sane_def encode_kv_key_def)
  ultimately show "quiet_master one_string" using l by (simp add: quiet_master_def d encode_kv_key_def)
  have "\<not> rd_fail (ldb one_string) k" for k using tx_run_frame [OF run] by simp
  then show "ssdb_get ''a'' one_string = Found ''1''" unfolding ssdb_get_def by (subst ldb_Get_data) (simp_all add: d)
qed

theorem first_copy_in_step_witness:
  "\<exists>sl1 hello n c i sl'. Slave_connect True None True fresh_slave = Some (sl1, hello, 1) \<and>
    exchange (\<lambda>_ _. False) n one_string ((Client_init (last hello) one_string Client_new, 0), sl1) = Some ((c, i), sl') \<and>
    in_step one_string c sl' \<and> ssdb_get ''a'' (sl_db sl') = Found ''1''"
proof -
  obtain sl1 hello where c: "Slave_connect True None True fresh_slave = Some (sl1, hello, 1)"
    by (simp add: Slave_connect_def fresh_slave_def Slave_new_def Let_def)
  have sl: "io_ok (sl_db fresh_slave)" "\<forall>x. tracked x \<longrightarrow> data_map (sl_db fresh_slave) x = None" "sl_seq fresh_slave = 0" "sl_key fresh_slave = []"
    "\<not> sl_mirror fresh_slave" by (simp_all add: fresh_slave_def Slave_new_def)
  from first_copy_in_step [OF one_string_facts(1) sl c, of "\<lambda>_ _. False"] show ?thesis using c one_string_facts(2) by metis
qed

end
