(* ===== verification/SortedSet.thy ===== *)
theory SortedSet
  imports Prelude
begin

text \<open>
  The in-memory sorted set of \<open>util/sorted_set.h\<close> and \<open>util/sorted_set.cpp\<close>: keys with a 64-bit score, found by
  key through \<open>existed\<close> and in the order of the scores through \<open>sorted_set\<close>. The contract its client, the
  expiration of keys, relies on is the locale \<open>score_queue\<close> at the end.
\<close>

subsection \<open>Items\<close>

text \<open>\<open>struct Item\<close> with its \<open>operator<\<close>.\<close>

datatype Item = Item (item_key: bytes) (item_score: int)

definition item_before :: "Item \<Rightarrow> Item \<Rightarrow> bool" where
  "item_before a b \<longleftrightarrow> item_score a < item_score b \<or> item_score a = item_score b \<and> item_key a < item_key b"

instantiation Item :: linorder
begin

definition less_Item :: "Item \<Rightarrow> Item \<Rightarrow> bool" where
  "less_Item a b \<longleftrightarrow> item_before a b"

definition less_eq_Item :: "Item \<Rightarrow> Item \<Rightarrow> bool" where
  "less_eq_Item a b \<longleftrightarrow> a < b \<or> a = b"

instance
proof
  fix x y z :: Item
  show "x < y \<longleftrightarrow> x \<le> y \<and> \<not> y \<le> x" by (cases x; cases y) (auto simp: less_Item_def item_before_def less_eq_Item_def)
  show "x \<le> x" by (simp add: less_eq_Item_def)
  show "x \<le> y \<Longrightarrow> y \<le> z \<Longrightarrow> x \<le> z" by (auto simp: less_Item_def item_before_def less_eq_Item_def)
  show "x \<le> y \<Longrightarrow> y \<le> x \<Longrightarrow> x = y" by (auto simp: less_Item_def item_before_def less_eq_Item_def)
  show "x \<le> y \<or> y \<le> x" by (cases x; cases y) (auto simp: less_Item_def item_before_def less_eq_Item_def)
qed

end

subsection \<open>The class\<close>

text \<open>A \<open>std::set\<close> is its elements in ascending order; an iterator into it is the element it points to.\<close>

record sorted_set =
  existed :: "bytes \<rightharpoonup> Item"
  sorted_items :: "Item list"

definition SortedSet_new :: sorted_set where
  "SortedSet_new = \<lparr>existed = (\<lambda>_. None), sorted_items = []\<rparr>"

definition SortedSet_size :: "sorted_set \<Rightarrow> int" where
  "SortedSet_size q = wrap32 (int (length (sorted_items q)))"

definition SortedSet_empty :: "sorted_set \<Rightarrow> bool" where
  "SortedSet_empty q \<longleftrightarrow> SortedSet_size q = 0"

definition SortedSet_add :: "bytes \<Rightarrow> int \<Rightarrow> sorted_set \<Rightarrow> sorted_set \<times> int" where
  "SortedSet_add key score q =
     (let store = (\<lambda>items. q\<lparr>existed := (existed q)(key \<mapsto> Item key score),
                             sorted_items := insort_insert (Item key score) items\<rparr>)
      in case existed q key of
           None \<Rightarrow> (store (sorted_items q), 1)
         | Some item \<Rightarrow>
             if item_score item = score then (q, 0)
             else (store (remove1 item (sorted_items q)), 0))"

definition SortedSet_del :: "bytes \<Rightarrow> sorted_set \<Rightarrow> sorted_set \<times> int" where
  "SortedSet_del key q =
     (case existed q key of
        None \<Rightarrow> (q, 0)
      | Some item \<Rightarrow>
          (q\<lparr>existed := (existed q)(key := None), sorted_items := remove1 item (sorted_items q)\<rparr>, 1))"

definition SortedSet_front :: "sorted_set \<Rightarrow> (bytes \<times> int) option" where
  "SortedSet_front q =
     (case sorted_items q of [] \<Rightarrow> None | item # _ \<Rightarrow> Some (item_key item, item_score item))"

definition SortedSet_back :: "sorted_set \<Rightarrow> (bytes \<times> int) option" where
  "SortedSet_back q =
     (case rev (sorted_items q) of [] \<Rightarrow> None | item # _ \<Rightarrow> Some (item_key item, item_score item))"

definition SortedSet_max_score :: "sorted_set \<Rightarrow> int" where
  "SortedSet_max_score q = (case SortedSet_back q of None \<Rightarrow> 0 | Some (key, score) \<Rightarrow> score)"

definition SortedSet_pop_front :: "sorted_set \<Rightarrow> sorted_set \<times> int" where
  "SortedSet_pop_front q =
     (case sorted_items q of
        [] \<Rightarrow> (q, 0)
      | item # items \<Rightarrow> (q\<lparr>existed := (existed q)(item_key item := None), sorted_items := items\<rparr>, 1))"

definition SortedSet_pop_back :: "sorted_set \<Rightarrow> sorted_set \<times> int" where
  "SortedSet_pop_back q =
     (case rev (sorted_items q) of
        [] \<Rightarrow> (q, 0)
      | item # items \<Rightarrow> (q\<lparr>existed := (existed q)(item_key item := None), sorted_items := rev items\<rparr>, 1))"

subsection \<open>The two indices agree\<close>

definition sset_inv :: "sorted_set \<Rightarrow> bool" where
  "sset_inv q \<longleftrightarrow> sorted_wrt (<) (sorted_items q) \<and>
     (\<forall>k i. existed q k = Some i \<longleftrightarrow> i \<in> set (sorted_items q) \<and> item_key i = k)"

text \<open>What the set stores, as a map from keys to scores.\<close>

definition sset_map :: "sorted_set \<Rightarrow> bytes \<rightharpoonup> int" where
  "sset_map q k = map_option item_score (existed q k)"

lemma sset_items:
  assumes "sset_inv q"
  shows "Item k s \<in> set (sorted_items q) \<longleftrightarrow> sset_map q k = Some s"
proof -
  have "Item k s \<in> set (sorted_items q) \<longleftrightarrow> existed q k = Some (Item k s)" using assms by (simp add: sset_inv_def)
  also have "\<dots> \<longleftrightarrow> sset_map q k = Some s"
  proof
    assume "sset_map q k = Some s"
    then obtain i where i: "existed q k = Some i" "item_score i = s" by (auto simp: sset_map_def)
    then have "item_key i = k" using assms by (simp add: sset_inv_def)
    with i show "existed q k = Some (Item k s)" by (cases i) simp
  qed (simp add: sset_map_def)
  finally show ?thesis .
qed


lemma sset_existed: "sset_inv q \<Longrightarrow> existed q k = Some i \<longleftrightarrow> i = Item k (item_score i) \<and> sset_map q k = Some (item_score i)"
  using sset_items [of q k "item_score i"] by (cases i) (auto simp: sset_inv_def)

lemma sset_distinct: "sset_inv q \<Longrightarrow> distinct (sorted_items q)"
  by (simp add: sset_inv_def strict_sorted_iff)

lemma sset_invI:
  assumes "sorted_wrt (<) (sorted_items q)" and "\<And>k s. Item k s \<in> set (sorted_items q) \<longleftrightarrow> m k = Some s"
    and "\<And>k. existed q k = map_option (Item k) (m k)"
  shows "sset_inv q" and "sset_map q = m"
proof -
  have "existed q k = Some i \<longleftrightarrow> i \<in> set (sorted_items q) \<and> item_key i = k" for k i
    by (cases i) (auto simp: assms(2,3))
  with assms(1) show "sset_inv q" by (simp add: sset_inv_def)
  show "sset_map q = m" by (auto simp: sset_map_def assms(3) fun_eq_iff option.map_comp comp_def option.map_ident)
qed

lemma sset_existed_map: "sset_inv q \<Longrightarrow> existed q k = map_option (Item k) (sset_map q k)"
  using sset_existed [of q k] by (cases "existed q k") (auto simp: sset_map_def)

lemma SortedSet_new_correct: "sset_inv SortedSet_new" "sset_map SortedSet_new = (\<lambda>_. None)"
  by (rule sset_invI [where m = "\<lambda>_. None"]; simp add: SortedSet_new_def)+

lemma sorted_wrt_remove1: "sorted_wrt P xs \<Longrightarrow> sorted_wrt P (remove1 x xs)"
proof (induction xs)
  case (Cons y ys)
  have "set (remove1 x ys) \<subseteq> set ys" by (rule set_remove1_subset)
  with Cons show ?case by auto
qed simp

lemma SortedSet_del_correct:
  assumes "sset_inv q"
  shows "sset_inv (fst (SortedSet_del k q))" and "sset_map (fst (SortedSet_del k q)) = (sset_map q)(k := None)"
    and "snd (SortedSet_del k q) = (if sset_map q k = None then 0 else 1)"
proof -
  note e = sset_existed_map [OF assms] and i = sset_items [OF assms] and d = sset_distinct [OF assms]
  have srt: "sorted_wrt (<) (sorted_items q)" using assms by (simp add: sset_inv_def)
  have "sset_inv (fst (SortedSet_del k q)) \<and> sset_map (fst (SortedSet_del k q)) = (sset_map q)(k := None)"
  proof (cases "sset_map q k")
    case None
    then show ?thesis using assms by (auto simp: SortedSet_del_def e)
  next
    case (Some s)
    have w: "sorted_wrt (<) (remove1 (Item k s) (sorted_items q))"
      using srt by (rule sorted_wrt_remove1)
    have del: "fst (SortedSet_del k q) = q\<lparr>existed := (existed q)(k := None), sorted_items := remove1 (Item k s) (sorted_items q)\<rparr>"
      using Some by (simp add: SortedSet_del_def e)
    have "Item k' s' \<in> set (remove1 (Item k s) (sorted_items q)) \<longleftrightarrow> ((sset_map q)(k := None)) k' = Some s'" for k' s'
      using Some d by (auto simp: i)
    with w show ?thesis unfolding del
      using sset_invI [of "q\<lparr>existed := (existed q)(k := None), sorted_items := remove1 (Item k s) (sorted_items q)\<rparr>"
        "(sset_map q)(k := None)"] by (simp add: e)
  qed
  then show "sset_inv (fst (SortedSet_del k q))" "sset_map (fst (SortedSet_del k q)) = (sset_map q)(k := None)" by blast+
  show "snd (SortedSet_del k q) = (if sset_map q k = None then 0 else 1)"
    by (simp add: SortedSet_del_def e split: option.split)
qed

lemma insort_insert_strict:
  fixes x :: "'a :: linorder"
  shows "sorted_wrt (<) xs \<Longrightarrow> sorted_wrt (<) (insort_insert x xs)" "set (insort_insert x xs) = insert x (set xs)"
  by (auto simp: strict_sorted_iff sorted_insort_insert distinct_insort_insert set_insort_insert)

lemma SortedSet_add_correct:
  assumes "sset_inv q"
  shows "sset_inv (fst (SortedSet_add k s q))" and "sset_map (fst (SortedSet_add k s q)) = (sset_map q)(k \<mapsto> s)"
    and "snd (SortedSet_add k s q) = (if sset_map q k = None then 1 else 0)"
proof -
  note e = sset_existed_map [OF assms] and i = sset_items [OF assms] and d = sset_distinct [OF assms]
  have srt: "sorted_wrt (<) (sorted_items q)" using assms by (simp add: sset_inv_def)
  have "sset_inv (fst (SortedSet_add k s q)) \<and> sset_map (fst (SortedSet_add k s q)) = (sset_map q)(k \<mapsto> s)"
  proof (cases "sset_map q k = Some s")
    case True
    then have "(sset_map q)(k \<mapsto> s) = sset_map q" by auto
    with True assms show ?thesis by (simp add: SortedSet_add_def e)
  next
    case False
    let ?items = "case sset_map q k of None \<Rightarrow> sorted_items q | Some t \<Rightarrow> remove1 (Item k t) (sorted_items q)"
    have w: "sorted_wrt (<) ?items" using srt by (auto split: option.split intro: sorted_wrt_remove1)
    let ?r = "q\<lparr>existed := (existed q)(k \<mapsto> Item k s), sorted_items := insort_insert (Item k s) ?items\<rparr>"
    have add: "fst (SortedSet_add k s q) = ?r"
      using False by (auto simp: SortedSet_add_def e Let_def split: option.split)
    have "Item k' s' \<in> set (insort_insert (Item k s) ?items) \<longleftrightarrow> ((sset_map q)(k \<mapsto> s)) k' = Some s'" for k' s'
      using d by (auto simp: insort_insert_strict(2) i split: option.split)
    with insort_insert_strict(1) [OF w, of "Item k s"] show ?thesis unfolding add
      using sset_invI [of ?r "(sset_map q)(k \<mapsto> s)"] by (simp add: e)
  qed
  then show "sset_inv (fst (SortedSet_add k s q))" "sset_map (fst (SortedSet_add k s q)) = (sset_map q)(k \<mapsto> s)" by blast+
  show "snd (SortedSet_add k s q) = (if sset_map q k = None then 1 else 0)"
    by (simp add: SortedSet_add_def e Let_def split: option.split)
qed


lemma sset_sorted: "sset_inv q \<Longrightarrow> sorted_wrt (<) (sorted_items q)"
  by (simp add: sset_inv_def)

lemma SortedSet_front_correct:
  assumes "sset_inv q"
  shows "SortedSet_front q = None \<longleftrightarrow> sset_map q = (\<lambda>_. None)"
    and "SortedSet_front q = Some (k, s) \<Longrightarrow> sset_map q k = Some s \<and> (\<forall>k' s'. sset_map q k' = Some s' \<longrightarrow> s \<le> s')"
proof -
  note i = sset_items [OF assms]
  show "SortedSet_front q = None \<longleftrightarrow> sset_map q = (\<lambda>_. None)"
  proof (cases "sorted_items q")
    case Nil
    with i have "sset_map q k = None" for k by (cases "sset_map q k") auto
    with Nil show ?thesis by (auto simp: SortedSet_front_def)
  next
    case (Cons x xs)
    with i [of "item_key x" "item_score x"] show ?thesis by (auto simp: SortedSet_front_def fun_eq_iff)
  qed
  assume f: "SortedSet_front q = Some (k, s)"
  then obtain xs where xs: "sorted_items q = Item k s # xs" by (auto simp: SortedSet_front_def split: list.splits)
  have "s \<le> s'" if "sset_map q k' = Some s'" for k' s'
  proof -
    have "Item k' s' \<in> set (Item k s # xs)" using that i [of k' s'] xs by simp
    then show ?thesis using sset_sorted [OF assms] xs by (auto simp: less_Item_def item_before_def)
  qed
  with i [of k s] xs show "sset_map q k = Some s \<and> (\<forall>k' s'. sset_map q k' = Some s' \<longrightarrow> s \<le> s')" by simp
qed

lemma SortedSet_back_correct:
  assumes "sset_inv q"
  shows "SortedSet_back q = None \<longleftrightarrow> sset_map q = (\<lambda>_. None)"
    and "SortedSet_back q = Some (k, s) \<Longrightarrow> sset_map q k = Some s \<and> (\<forall>k' s'. sset_map q k' = Some s' \<longrightarrow> s' \<le> s)"
proof -
  note i = sset_items [OF assms]
  show "SortedSet_back q = None \<longleftrightarrow> sset_map q = (\<lambda>_. None)"
    unfolding SortedSet_front_correct(1) [OF assms, symmetric]
    by (cases "sorted_items q" rule: rev_cases) (auto simp: SortedSet_front_def SortedSet_back_def split: list.split)
  assume f: "SortedSet_back q = Some (k, s)"
  then obtain xs where xs: "sorted_items q = xs @ [Item k s]"
    by (cases "sorted_items q" rule: rev_cases) (auto simp: SortedSet_back_def)
  have "s' \<le> s" if "sset_map q k' = Some s'" for k' s'
  proof -
    have "Item k' s' \<in> set (xs @ [Item k s])" using that i [of k' s'] xs by simp
    then show ?thesis using sset_sorted [OF assms] xs by (auto simp: less_Item_def item_before_def sorted_wrt_append)
  qed
  with i [of k s] xs show "sset_map q k = Some s \<and> (\<forall>k' s'. sset_map q k' = Some s' \<longrightarrow> s' \<le> s)" by simp
qed

lemma SortedSet_pop_front_correct:
  assumes "sset_inv q" and "SortedSet_front q = Some (k, s)"
  shows "sset_inv (fst (SortedSet_pop_front q))" and "sset_map (fst (SortedSet_pop_front q)) = (sset_map q)(k := None)"
    and "snd (SortedSet_pop_front q) = 1"
proof -
  note e = sset_existed_map [OF assms(1)] and i = sset_items [OF assms(1)] and d = sset_distinct [OF assms(1)]
  obtain xs where xs: "sorted_items q = Item k s # xs"
    using assms(2) by (auto simp: SortedSet_front_def split: list.splits)
  let ?r = "q\<lparr>existed := (existed q)(k := None), sorted_items := xs\<rparr>"
  have pop: "fst (SortedSet_pop_front q) = ?r" using xs by (simp add: SortedSet_pop_front_def)
  have ks: "sset_map q k = Some s" using i [of k s] xs by simp
  have "Item k' s' \<in> set xs \<longleftrightarrow> ((sset_map q)(k := None)) k' = Some s'" for k' s'
    using i [of k' s'] ks d xs by auto
  then have "sset_inv (fst (SortedSet_pop_front q)) \<and> sset_map (fst (SortedSet_pop_front q)) = (sset_map q)(k := None)"
    unfolding pop using sset_invI [of ?r "(sset_map q)(k := None)"] sset_sorted [OF assms(1)] xs
    by (simp add: e)
  then show "sset_inv (fst (SortedSet_pop_front q))" "sset_map (fst (SortedSet_pop_front q)) = (sset_map q)(k := None)" by blast+
  show "snd (SortedSet_pop_front q) = 1" using xs by (simp add: SortedSet_pop_front_def)
qed

lemma SortedSet_pop_back_correct:
  assumes "sset_inv q" and "SortedSet_back q = Some (k, s)"
  shows "sset_inv (fst (SortedSet_pop_back q))" and "sset_map (fst (SortedSet_pop_back q)) = (sset_map q)(k := None)"
    and "snd (SortedSet_pop_back q) = 1"
proof -
  note e = sset_existed_map [OF assms(1)] and i = sset_items [OF assms(1)] and d = sset_distinct [OF assms(1)]
  obtain xs where xs: "sorted_items q = xs @ [Item k s]"
    using assms(2) by (cases "sorted_items q" rule: rev_cases) (auto simp: SortedSet_back_def)
  let ?r = "q\<lparr>existed := (existed q)(k := None), sorted_items := xs\<rparr>"
  have pop: "fst (SortedSet_pop_back q) = ?r" using xs by (simp add: SortedSet_pop_back_def)
  have ks: "sset_map q k = Some s" using i [of k s] xs by simp
  have "Item k' s' \<in> set xs \<longleftrightarrow> ((sset_map q)(k := None)) k' = Some s'" for k' s'
    using i [of k' s'] ks d xs by auto
  then have "sset_inv (fst (SortedSet_pop_back q)) \<and> sset_map (fst (SortedSet_pop_back q)) = (sset_map q)(k := None)"
    unfolding pop using sset_invI [of ?r "(sset_map q)(k := None)"] sset_sorted [OF assms(1)] xs
    by (simp add: e sorted_wrt_append)
  then show "sset_inv (fst (SortedSet_pop_back q))" "sset_map (fst (SortedSet_pop_back q)) = (sset_map q)(k := None)" by blast+
  show "snd (SortedSet_pop_back q) = 1" using xs by (simp add: SortedSet_pop_back_def)
qed

lemma length_sorted_items:
  assumes "sset_inv q"
  shows "finite (dom (sset_map q))" and "length (sorted_items q) = card (dom (sset_map q))"
proof -
  have d: "dom (sset_map q) = item_key ` set (sorted_items q)"
  proof (intro set_eqI iffI)
    fix k assume "k \<in> item_key ` set (sorted_items q)"
    then obtain x where "x \<in> set (sorted_items q)" "k = item_key x" by blast
    then show "k \<in> dom (sset_map q)" using sset_items [OF assms, of k "item_score x"] by auto
  next
    fix k assume "k \<in> dom (sset_map q)"
    then obtain s where "sset_map q k = Some s" by blast
    then show "k \<in> item_key ` set (sorted_items q)"
      using sset_items [OF assms, of k s] by (auto intro: rev_image_eqI)
  qed
  have "inj_on item_key (set (sorted_items q))"
  proof (rule inj_onI)
    fix x y assume "x \<in> set (sorted_items q)" "y \<in> set (sorted_items q)" "item_key x = item_key y"
    then show "x = y"
      using sset_items [OF assms, of "item_key x" "item_score x"] sset_items [OF assms, of "item_key y" "item_score y"]
      by (cases x; cases y) auto
  qed
  then show "length (sorted_items q) = card (dom (sset_map q))"
    unfolding d using sset_distinct [OF assms] by (simp add: card_image distinct_card)
  show "finite (dom (sset_map q))" unfolding d by simp
qed

subsection \<open>The contract\<close>

text \<open>Keys with a score, that can be taken from both ends of the order of scores.\<close>

locale score_queue =
  fixes inv :: "'q \<Rightarrow> bool" and scores :: "'q \<Rightarrow> 'k \<rightharpoonup> int" and new :: 'q
    and add :: "'k \<Rightarrow> int \<Rightarrow> 'q \<Rightarrow> 'q" and del :: "'k \<Rightarrow> 'q \<Rightarrow> 'q"
    and front :: "'q \<Rightarrow> ('k \<times> int) option" and back_of :: "'q \<Rightarrow> ('k \<times> int) option"
    and pop_front :: "'q \<Rightarrow> 'q" and pop_back :: "'q \<Rightarrow> 'q"
  assumes new: "inv new" "scores new = Map.empty"
    and finite_scores: "inv q \<Longrightarrow> finite (dom (scores q))"
    and add: "inv q \<Longrightarrow> inv (add k s q)" "inv q \<Longrightarrow> scores (add k s q) = (scores q)(k \<mapsto> s)"
    and del: "inv q \<Longrightarrow> inv (del k q)" "inv q \<Longrightarrow> scores (del k q) = (scores q)(k := None)"
    and front_None: "inv q \<Longrightarrow> front q = None \<longleftrightarrow> scores q = Map.empty"
    and front_Some: "inv q \<Longrightarrow> front q = Some (k, s) \<Longrightarrow> scores q k = Some s"
      "inv q \<Longrightarrow> front q = Some (k, s) \<Longrightarrow> scores q k' = Some s' \<Longrightarrow> s \<le> s'"
    and back_None: "inv q \<Longrightarrow> back_of q = None \<longleftrightarrow> scores q = Map.empty"
    and back_Some: "inv q \<Longrightarrow> back_of q = Some (k, s) \<Longrightarrow> scores q k = Some s"
      "inv q \<Longrightarrow> back_of q = Some (k, s) \<Longrightarrow> scores q k' = Some s' \<Longrightarrow> s' \<le> s"
    and pop_front: "inv q \<Longrightarrow> front q = Some (k, s) \<Longrightarrow> inv (pop_front q)"
      "inv q \<Longrightarrow> front q = Some (k, s) \<Longrightarrow> scores (pop_front q) = (scores q)(k := None)"
    and pop_back: "inv q \<Longrightarrow> back_of q = Some (k, s) \<Longrightarrow> inv (pop_back q)"
      "inv q \<Longrightarrow> back_of q = Some (k, s) \<Longrightarrow> scores (pop_back q) = (scores q)(k := None)"
begin

text \<open>What a client gets that takes keys from the front.\<close>

fun pops :: "nat \<Rightarrow> 'q \<Rightarrow> ('k \<times> int) list" where
  "pops 0 q = []"
| "pops (Suc n) q = (case front q of None \<Rightarrow> [] | Some e \<Rightarrow> e # pops n (pop_front q))"

lemma pops_in: "inv q \<Longrightarrow> e \<in> set (pops n q) \<Longrightarrow> scores q (fst e) = Some (snd e)"
proof (induction n q rule: pops.induct)
  case (2 n q)
  obtain k s where f: "front q = Some (k, s)" using "2.prems"(2) by (cases "front q") auto
  have "e = (k, s) \<or> e \<in> set (pops n (pop_front q))" using "2.prems"(2) f by simp
  then show ?case
  proof
    assume "e \<in> set (pops n (pop_front q))"
    from "2.IH" [OF f pop_front(1) [OF "2.prems"(1) f] this] show ?thesis
      by (simp add: pop_front(2) [OF "2.prems"(1) f] split: if_splits)
  qed (simp add: front_Some(1) [OF "2.prems"(1) f])
qed simp

lemma pops_sorted: "inv q \<Longrightarrow> sorted (map snd (pops n q)) \<and> distinct (map fst (pops n q))"
proof (induction n q rule: pops.induct)
  case (2 n q)
  show ?case
  proof (cases "front q")
    case (Some e)
    then obtain k s where f: "front q = Some (k, s)" by (cases e) simp
    note p = pop_front [OF "2.prems" f]
    have in_q: "scores q (fst x) = Some (snd x) \<and> fst x \<noteq> k" if "x \<in> set (pops n (pop_front q))" for x
      using pops_in [OF p(1) that] by (simp add: p(2) split: if_splits)
    have "s \<le> snd x" "fst x \<noteq> k" if "x \<in> set (pops n (pop_front q))" for x
      using front_Some(2) [OF "2.prems" f] in_q [OF that] by auto
    with "2.IH" [OF f p(1)] f show ?thesis by auto
  qed simp
qed simp

lemma pops_all: "inv q \<Longrightarrow> card (dom (scores q)) \<le> n \<Longrightarrow> set (pops n q) = {(k, s). scores q k = Some s}"
proof (induction n q rule: pops.induct)
  case (1 q)
  then have "scores q = Map.empty" using finite_scores by (simp add: dom_eq_empty_conv)
  then show ?case by simp
next
  case (2 n q)
  show ?case
  proof (cases "front q")
    case None
    then show ?thesis using front_None [OF "2.prems"(1)] by simp
  next
    case (Some e)
    then obtain k s where f: "front q = Some (k, s)" by (cases e) simp
    note p = pop_front [OF "2.prems"(1) f] and k = front_Some(1) [OF "2.prems"(1) f]
    have "card (dom (scores (pop_front q))) \<le> n"
      using "2.prems" finite_scores [OF "2.prems"(1)] k by (simp add: p(2) card_Diff_singleton_if domI)
    from "2.IH" [OF f p(1) this] f k show ?thesis by (auto simp: p(2) split: if_splits)
  qed
qed

text \<open>Removing the greatest keys leaves scores that are below all others.\<close>

lemma pop_back_below:
  assumes "inv q" and "back_of q = Some (k, s)" and "scores (pop_back q) k' = Some s'"
  shows "s' \<le> s"
  using back_Some(2) [OF assms(1,2)] assms(3) by (simp add: pop_back(2) [OF assms(1,2)] split: if_splits)

end

interpretation sq: score_queue sset_inv sset_map SortedSet_new "\<lambda>k s q. fst (SortedSet_add k s q)"
    "\<lambda>k q. fst (SortedSet_del k q)" SortedSet_front SortedSet_back
    "\<lambda>q. fst (SortedSet_pop_front q)" "\<lambda>q. fst (SortedSet_pop_back q)"
proof (unfold_locales, goal_cases)
  case (3 q)
  then show ?case by (rule length_sorted_items)
qed (simp_all only: SortedSet_new_correct SortedSet_add_correct SortedSet_del_correct SortedSet_pop_front_correct
    SortedSet_pop_back_correct SortedSet_front_correct(1) SortedSet_back_correct(1),
  (use SortedSet_front_correct(2) SortedSet_back_correct(2) in blast)+)

lemma SortedSet_empty_iff:
  assumes "sset_inv q" and "length (sorted_items q) < 2 ^ 31"
  shows "SortedSet_empty q \<longleftrightarrow> sset_map q = Map.empty"
proof -
  have "SortedSet_empty q \<longleftrightarrow> sorted_items q = []"
    using assms(2) by (simp add: SortedSet_empty_def SortedSet_size_def in_int32_def)
  also have "\<dots> \<longleftrightarrow> SortedSet_front q = None" by (simp add: SortedSet_front_def split: list.split)
  finally show ?thesis by (simp add: sq.front_None [OF assms(1)])
qed

text \<open>A sorted set built by any sequence of \<open>add\<close>s, \<open>del\<close>s and pops gives its keys from the front in the order of
  their scores: taking the front as often as there are keys yields every key once with the score it was last
  given, in ascending order of scores.\<close>

theorem SortedSet_pops_in_order:
  assumes "sset_inv q" and "card (dom (sset_map q)) \<le> n"
  shows "sorted (map snd (sq.pops n q)) \<and> distinct (map fst (sq.pops n q)) \<and>
    set (sq.pops n q) = {(k, s). sset_map q k = Some s} \<and>
    sset_map (fst (SortedSet_add k s q)) = (sset_map q)(k \<mapsto> s) \<and> sset_inv (fst (SortedSet_add k s q)) \<and>
    sset_map (fst (SortedSet_del k q)) = (sset_map q)(k := None) \<and> sset_inv (fst (SortedSet_del k q)) \<and>
    sset_inv (fst (SortedSet_pop_front q)) \<and> sset_inv (fst (SortedSet_pop_back q))"
proof -
  have "sset_inv (fst (SortedSet_pop_front q))"
  proof (cases "SortedSet_front q")
    case None
    then show ?thesis using assms(1) by (simp add: SortedSet_front_def SortedSet_pop_front_def split: list.splits)
  qed (use sq.pop_front(1) [OF assms(1)] in force)
  moreover have "sset_inv (fst (SortedSet_pop_back q))"
  proof (cases "SortedSet_back q")
    case None
    then show ?thesis using assms(1) by (simp add: SortedSet_back_def SortedSet_pop_back_def split: list.splits)
  qed (use sq.pop_back(1) [OF assms(1)] in force)
  ultimately show ?thesis
    using sq.pops_sorted [OF assms(1)] sq.pops_all [OF assms] sq.add [OF assms(1)] sq.del [OF assms(1)] by simp
qed

theorem SortedSet_pops_in_order_witness:
  "let q = fst (SortedSet_add ''a'' 1 (fst (SortedSet_add ''b'' 5 (fst (SortedSet_add ''a'' 9 SortedSet_new)))))
   in sorted (map snd (sq.pops 2 q)) \<and> set (sq.pops 2 q) = {(''a'', 1), (''b'', 5)}"
proof -
  let ?q = "fst (SortedSet_add ''a'' 1 (fst (SortedSet_add ''b'' 5 (fst (SortedSet_add ''a'' 9 SortedSet_new)))))"
  have "sset_inv ?q" "sset_map ?q = [''b'' \<mapsto> 5, ''a'' \<mapsto> 1]"
    by (simp_all add: sq.add sq.new fun_eq_iff)
  with SortedSet_pops_in_order [of ?q 2] show ?thesis by (auto simp: Let_def split: if_splits)
qed

end
