(* ===== verification/Ttl.thy ===== *)
theory Ttl
  imports System SortedSet "HOL-Library.Signed_Division"
begin

section \<open>Expiration of keys (\<open>ssdb/ttl.cpp\<close>)\<close>

text \<open>
  The times at which keys expire are the scores of one sorted set of the database; the handler keeps the
  first of them in memory and a thread deletes the keys that are due. The handler and the database are
  separate parts of the state, since clients change the database too. The clock is an argument: each call
  of \<open>time_ms\<close> is one parameter of the definition.
\<close>

subsection \<open>The handler\<close>

definition EXPIRATION_LIST_KEY :: bytes where
  "EXPIRATION_LIST_KEY = replicate 5 (CHR 0xFF) @ ''|EXPIRE_LIST|KV''"

definition BATCH_SIZE :: nat where "BATCH_SIZE = 1000"

record expiration_handler =
  ssdb_null :: bool
  thread_quit :: bool
  first_timeout :: int
  fast_keys :: sorted_set

type_synonym ttl_state = "expiration_handler \<times> ssdb"

definition ExpirationHandler_new :: expiration_handler where
  "ExpirationHandler_new =
     \<lparr>ssdb_null = False, thread_quit = False, first_timeout = 0, fast_keys = SortedSet_new\<rparr>"

text \<open>The destructor asks the thread to stop and drops the database.\<close>

definition ExpirationHandler_delete :: "expiration_handler \<Rightarrow> expiration_handler" where
  "ExpirationHandler_delete h = h\<lparr>thread_quit := True, ssdb_null := True\<rparr>"

definition set_ttl :: "int \<Rightarrow> bytes \<Rightarrow> int \<Rightarrow> ttl_state \<Rightarrow> ttl_state \<times> int" where
  "set_ttl now key ttl hs =
     (let (h, s) = hs;
          expired = wrap64 (now + wrap64 (ttl * 1000));
          (s, ret) = zset EXPIRATION_LIST_KEY key (str_int64 expired) (binlog_type_char BT_SYNC) s
      in if ret = -1 then ((h, s), -1)
         else let h = (if expired < first_timeout h then h\<lparr>first_timeout := expired\<rparr> else h);
                  q = fast_keys h;
                  q = (if \<not> SortedSet_empty q \<and> expired \<le> SortedSet_max_score q
                       then let q = fst (SortedSet_add key expired q)
                            in if SortedSet_size q > int BATCH_SIZE then fst (SortedSet_pop_back q) else q
                       else fst (SortedSet_del key q))
              in ((h\<lparr>fast_keys := q\<rparr>, s), 0))"

definition del_ttl :: "bytes \<Rightarrow> ttl_state \<Rightarrow> ttl_state \<times> int" where
  "del_ttl key hs =
     (let (h, s) = hs
      in if first_timeout h \<noteq> INT64_MAX
         then ((h\<lparr>fast_keys := fst (SortedSet_del key (fast_keys h))\<rparr>,
                fst (zdel EXPIRATION_LIST_KEY key (binlog_type_char BT_SYNC) s)), 0)
         else ((h, s), 0))"

definition get_ttl :: "int \<Rightarrow> bytes \<Rightarrow> ttl_state \<Rightarrow> int" where
  "get_ttl now key hs =
     (case zget EXPIRATION_LIST_KEY key (snd hs) of
        Found score \<Rightarrow> (let ex = fst (str_to_int64 0 score) in wrap64 (ex - now) sdiv 1000)
      | _ \<Rightarrow> -1)"

text \<open>Scores below 2000000000 are in seconds, as an older version wrote them.\<close>

function load_expiration_loop :: "z_iterator \<Rightarrow> sorted_set \<Rightarrow> sorted_set" where
  "load_expiration_loop it q =
     (case ZIterator_next it of
        (it', False) \<Rightarrow> q
      | (it', True) \<Rightarrow>
          let score = fst (str_to_int64 0 (z_score it'));
              score = (if score < 2000000000 then wrap64 (score * 1000) else score)
          in load_expiration_loop it' (fst (SortedSet_add (z_key it') score q)))"
  by pat_completeness auto
termination
  by (relation "measure (\<lambda>(it, q). unat (it_limit (z_it it)))") (auto dest: ZIterator_next_limit [OF sym])

declare load_expiration_loop.simps [simp del]

definition load_expiration_keys_from_db :: "u64 \<Rightarrow> ttl_state \<Rightarrow> expiration_handler" where
  "load_expiration_keys_from_db num hs =
     (let (h, s) = hs
      in h\<lparr>fast_keys := load_expiration_loop (zscan EXPIRATION_LIST_KEY [] [] [] num s) (fast_keys h)\<rparr>)"

definition expire_front :: "int \<Rightarrow> ttl_state \<Rightarrow> ttl_state" where
  "expire_front now hs =
     (let (h, s) = hs
      in case SortedSet_front (fast_keys h) of
           None \<Rightarrow> (h, s)
         | Some (key, score) \<Rightarrow>
             let h = h\<lparr>first_timeout := score\<rparr>
             in if score \<le> now
                then let s = fst (ssdb_del key (binlog_type_char BT_SYNC) s);
                         s = fst (zdel EXPIRATION_LIST_KEY key (binlog_type_char BT_SYNC) s)
                     in (h\<lparr>fast_keys := fst (SortedSet_pop_front (fast_keys h))\<rparr>, s)
                else (h, s))"

definition expire_loop :: "int \<Rightarrow> ttl_state \<Rightarrow> ttl_state" where
  "expire_loop now hs =
     (let (h, s) = hs
      in if ssdb_null h then (h, s)
         else if SortedSet_empty (fast_keys h)
         then let h = load_expiration_keys_from_db (of_nat BATCH_SIZE) (h, s)
              in if SortedSet_empty (fast_keys h) then (h\<lparr>first_timeout := INT64_MAX\<rparr>, s)
                 else expire_front now (h, s)
         else expire_front now (h, s))"

text \<open>
  The thread, given what it reads from the clock in each round, once before and once in \<open>expire_loop\<close>. A
  round in which the first timeout is still ahead only sleeps.
\<close>

fun thread_func :: "(int \<times> int) list \<Rightarrow> ttl_state \<Rightarrow> ttl_state" where
  "thread_func [] hs = hs"
| "thread_func ((t, now) # clock) hs =
     (if thread_quit (fst hs) then (fst hs\<lparr>thread_quit := False\<rparr>, snd hs)
      else if first_timeout (fst hs) > t then thread_func clock hs
      else thread_func clock (expire_loop now hs))"

subsection \<open>The schedule\<close>

text \<open>When each key is to expire, as the database has it.\<close>

definition schedule :: "ssdb \<Rightarrow> bytes \<rightharpoonup> int" where
  "schedule s k = map_option Bytes_Int64 (zcoll.view (data_map s) EXPIRATION_LIST_KEY k)"

text \<open>The keys in memory are scheduled as the database says, and before all others.\<close>

definition first_keys :: "(bytes \<rightharpoonup> int) \<Rightarrow> (bytes \<rightharpoonup> int) \<Rightarrow> bool" where
  "first_keys m sch \<longleftrightarrow> (\<forall>k sc. m k = Some sc \<longrightarrow> sch k = Some sc) \<and>
     (\<forall>k sc k' sc'. m k = Some sc \<longrightarrow> m k' = None \<longrightarrow> sch k' = Some sc' \<longrightarrow> sc \<le> sc')"

text \<open>
  The state between two calls: the keys in memory are the first of the schedule, the thread wakes up before
  any key is due, and all times are in milliseconds.
\<close>

definition ttl_inv :: "ttl_state \<Rightarrow> bool" where
  "ttl_inv hs \<longleftrightarrow> (case hs of (h, s) \<Rightarrow>
     zset_good s EXPIRATION_LIST_KEY \<and> sset_inv (fast_keys h) \<and>
     card (dom (sset_map (fast_keys h))) \<le> BATCH_SIZE \<and> \<not> ssdb_null h \<and> first_keys (sset_map (fast_keys h)) (schedule s) \<and>
     (\<forall>k sc. schedule s k = Some sc \<longrightarrow> first_timeout h \<le> sc \<and> 2000000000 \<le> sc \<and> sc < INT64_MAX))"

lemma list_key_ok: "hname_ok EXPIRATION_LIST_KEY"
  by (simp add: hname_ok_def name_ok_def SSDB_KEY_LEN_MAX_def EXPIRATION_LIST_KEY_def)

lemma ttl_invD:
  assumes "ttl_inv (h, s)"
  shows "zset_good s EXPIRATION_LIST_KEY" "sset_inv (fast_keys h)" "card (dom (sset_map (fast_keys h))) \<le> BATCH_SIZE"
    "\<not> ssdb_null h" "sset_map (fast_keys h) k = Some sc \<Longrightarrow> schedule s k = Some sc"
    "sset_map (fast_keys h) k = Some sc \<Longrightarrow> sset_map (fast_keys h) k' = None \<Longrightarrow> schedule s k' = Some sc' \<Longrightarrow> sc \<le> sc'"
    "schedule s k = Some sc \<Longrightarrow> first_timeout h \<le> sc"
    "schedule s k = Some sc \<Longrightarrow> 2000000000 \<le> sc \<and> sc < INT64_MAX"
    "io_ok s" "first_keys (sset_map (fast_keys h)) (schedule s)"
  using assms unfolding ttl_inv_def first_keys_def prod.case by (blast intro: zset_goodD(1))+

lemma ttl_invI:
  assumes "zset_good s EXPIRATION_LIST_KEY" "sset_inv (fast_keys h)" "card (dom (sset_map (fast_keys h))) \<le> BATCH_SIZE"
    "\<not> ssdb_null h" "\<And>k sc. sset_map (fast_keys h) k = Some sc \<Longrightarrow> schedule s k = Some sc"
    "\<And>k sc k' sc'. sset_map (fast_keys h) k = Some sc \<Longrightarrow> sset_map (fast_keys h) k' = None \<Longrightarrow> schedule s k' = Some sc' \<Longrightarrow> sc \<le> sc'"
    "\<And>k sc. schedule s k = Some sc \<Longrightarrow> first_timeout h \<le> sc \<and> 2000000000 \<le> sc \<and> sc < INT64_MAX"
  shows "ttl_inv (h, s)"
  using assms unfolding ttl_inv_def first_keys_def prod.case by blast

lemma fast_keys_length: "sset_inv q \<Longrightarrow> card (dom (sset_map q)) \<le> Suc BATCH_SIZE \<Longrightarrow> length (sorted_items q) < 2 ^ 31"
  by (simp add: length_sorted_items BATCH_SIZE_def)

lemma schedule_zset:
  assumes "zset_good s EXPIRATION_LIST_KEY" and "hname_ok key" and "in_int64 v"
    and "size_fits (Suc (nat (zsize EXPIRATION_LIST_KEY s)))"
  shows "schedule (fst (zset EXPIRATION_LIST_KEY key (str_int64 v) lt s)) = (schedule s)(key \<mapsto> v)"
  unfolding schedule_def z_put_good(2) [OF assms(1,2,4)] view_z_put(1) [OF list_key_ok assms(2)]
  by (simp add: fun_eq_iff assms(3))

lemma schedule_zdel:
  assumes "zset_good s EXPIRATION_LIST_KEY" and "hname_ok key"
  shows "schedule (fst (zdel EXPIRATION_LIST_KEY key lt s)) = (schedule s)(key := None)"
  unfolding schedule_def z_del_good(2) [OF assms] view_z_put(2) [OF list_key_ok assms(2)]
  by (simp add: fun_eq_iff)

lemma schedule_ok: "schedule s k = Some sc \<Longrightarrow> hname_ok k"
  by (auto simp: schedule_def dest: view_ok)

subsection \<open>Loading\<close>

definition load_ms :: "bytes \<Rightarrow> int" where
  "load_ms sc = (if Bytes_Int64 sc < 2000000000 then wrap64 (Bytes_Int64 sc * 1000) else Bytes_Int64 sc)"

lemma load_loop_fold:
  "z_ok it \<Longrightarrow> load_expiration_loop it q = fold (\<lambda>(k, sc) q. fst (SortedSet_add k (load_ms sc) q)) (z_rest it) q"
proof (induction it q rule: load_expiration_loop.induct)
  case (1 it q)
  obtain it' b where n: "ZIterator_next it = (it', b)" by fastforce
  note r = ZIterator_next_rest [OF "1.prems" n]
  show ?case
  proof (cases b)
    case True
    then have "z_rest it = (z_key it', z_score it') # z_rest it'" using r by (metis list.collapse)
    moreover have n': "ZIterator_next it = (it', True)" using n True by simp
    ultimately show ?thesis using "1.IH" [OF n' [symmetric] _ refl refl r(1)]
      by (simp add: load_expiration_loop.simps [of it] load_ms_def Bytes_Int64_def Let_def)
  next
    case False
    then show ?thesis using n r by (simp add: load_expiration_loop.simps [of it])
  qed
qed

lemma fold_add_map:
  assumes "sset_inv q" and "distinct (map fst L)"
  shows "sset_inv (fold (\<lambda>(k, sc) q. fst (SortedSet_add k (f sc) q)) L q)"
    and "sset_map (fold (\<lambda>(k, sc) q. fst (SortedSet_add k (f sc) q)) L q) = sset_map q ++ map_of (map (\<lambda>(k, sc). (k, f sc)) L)"
  using assms
proof (induction L arbitrary: q)
  case (Cons e L)
  obtain k sc where e: "e = (k, sc)" by (cases e)
  { case 1
    then show ?case using Cons.IH(1) [of "fst (SortedSet_add k (f sc) q)"] by (simp add: e sq.add)
  next
    case 2
    then have "map_of (map (\<lambda>(k, sc). (k, f sc)) L) k = None"
      by (force simp: e map_of_eq_None_iff)
    then have "(sset_map q)(k \<mapsto> f sc) ++ map_of (map (\<lambda>(k, sc). (k, f sc)) L) = sset_map q ++ map_of (map (\<lambda>(k, sc). (k, f sc)) (e # L))"
      by (auto simp: e map_add_def fun_eq_iff split: option.split)
    then show ?case
      using 2 Cons.IH(2) [of "fst (SortedSet_add k (f sc) q)"] sq.add [of q k "f sc"] by (simp only: e fold_simps prod.case distinct.simps list.map) }
qed auto


lemma sorted_wrt_take:
  assumes "sorted_wrt P xs" and "x \<in> set (take n xs)" and "y \<in> set xs" and "y \<notin> set (take n xs)"
  shows "P x y"
proof -
  have "y \<in> set (drop n xs)" using assms(3,4) by (metis Un_iff append_take_drop_id set_append)
  moreover have "sorted_wrt P (take n xs @ drop n xs)" using assms(1) by simp
  ultimately show ?thesis using assms(2) unfolding sorted_wrt_append by blast
qed

text \<open>Loading into an empty queue takes the first keys of the schedule.\<close>

lemma load_correct:
  assumes "ttl_inv (h, s)" and "sset_map (fast_keys h) = Map.empty"
  shows "ttl_inv (load_expiration_keys_from_db (of_nat BATCH_SIZE) (h, s), s)"
    and "sset_map (fast_keys (load_expiration_keys_from_db (of_nat BATCH_SIZE) (h, s))) = Map.empty \<Longrightarrow> schedule s = Map.empty"
    and "first_timeout (load_expiration_keys_from_db n (h, s)) = first_timeout h"
    and "thread_quit (load_expiration_keys_from_db n (h, s)) = thread_quit h"
proof -
  let ?E = EXPIRATION_LIST_KEY
  note i = ttl_invD [OF assms(1)] and g = zset_goodD [OF ttl_invD(1) [OF assms(1)]]
  define L where "L = filter z_up (zset_list s ?E)"
  define q where "q = fast_keys (load_expiration_keys_from_db (of_nat BATCH_SIZE) (h, s))"
  have setL: "(k, c) \<in> set L \<longleftrightarrow> zcoll.view (data_map s) ?E k = Some c" for k c
    using i(8) [of k "Bytes_Int64 c"] zset_list_set [OF g(4,3)] by (auto simp: L_def z_up_def schedule_def)
  have srt: "sorted_wrt zlt L" unfolding L_def using zset_list_sorted [OF g(4,3)] by (rule sorted_wrt_filter)
  have dist: "distinct (map fst L)" unfolding L_def using zset_list_distinct [OF g(4,3)] by (simp add: distinct_map_filter)
  have b: "unat (of_nat BATCH_SIZE :: u64) = BATCH_SIZE" by (simp add: BATCH_SIZE_def)
  have q: "q = fold (\<lambda>(k, sc) q. fst (SortedSet_add k (load_ms sc) q)) (take BATCH_SIZE L) (fast_keys h)"
    unfolding q_def L_def load_expiration_keys_from_db_def zscan_def scan_score_def
    using load_loop_fold [OF ziterator_z_rest(1) [OF g(4,3)]] z_rest_all(1) [OF g(4,3)] b by simp
  have ms: "load_ms c = Bytes_Int64 c" if "(k, c) \<in> set L" for k c
    using i(8) [of k "Bytes_Int64 c"] that by (auto simp: load_ms_def setL schedule_def)
  have d: "distinct (map fst (take BATCH_SIZE L))" using dist by (simp add: take_map [symmetric])
  have inv: "sset_inv q" unfolding q by (rule fold_add_map(1) [OF i(2) d])
  have m: "sset_map q = map_of (map (\<lambda>(k, sc). (k, Bytes_Int64 sc)) (take BATCH_SIZE L))"
  proof -
    have "map (\<lambda>(k, sc). (k, load_ms sc)) (take BATCH_SIZE L) = map (\<lambda>(k, sc). (k, Bytes_Int64 sc)) (take BATCH_SIZE L)"
      using ms by (auto dest: in_set_takeD)
    then show ?thesis unfolding q fold_add_map(2) [OF i(2) d] assms(2) by (simp only: empty_map_add)
  qed
  have dk: "distinct (map fst (map (\<lambda>(k, sc). (k, Bytes_Int64 sc)) (take BATCH_SIZE L)))"
    using d by (simp add: comp_def case_prod_unfold)
  have qk: "sset_map q k = Some v \<longleftrightarrow> (\<exists>c. (k, c) \<in> set (take BATCH_SIZE L) \<and> v = Bytes_Int64 c)" for k v
    unfolding m using dk by (auto simp: map_of_eq_Some_iff)
  have sub: "schedule s k = Some v" if "sset_map q k = Some v" for k v
    using that by (auto simp: qk schedule_def setL dest!: in_set_takeD)
  have le: "v \<le> v'" if m: "sset_map q k = Some v" "sset_map q k' = None" "schedule s k' = Some v'" for k v k' v'
  proof -
    obtain c where "(k, c) \<in> set (take BATCH_SIZE L)" "v = Bytes_Int64 c" using m(1) qk by auto
    moreover obtain c' where "(k', c') \<in> set L" and c': "v' = Bytes_Int64 c'" using m(3) by (auto simp: schedule_def setL)
    moreover have "(k', c') \<notin> set (take BATCH_SIZE L)" using m(2) qk [of k' v'] c' by auto
    ultimately have "v = Bytes_Int64 c" "zlt (k, c) (k', c')" using sorted_wrt_take [OF srt] by blast+
    then show ?thesis using c' by (auto simp: zlt_def)
  qed
  have "dom (sset_map q) = fst ` set (take BATCH_SIZE L)" unfolding m dom_map_of_conv_image_fst by force
  then have card: "card (dom (sset_map q)) \<le> BATCH_SIZE"
    using card_image_le [of "set (take BATCH_SIZE L)" fst] card_length [of "take BATCH_SIZE L"] by simp
  have rest: "load_expiration_keys_from_db (of_nat BATCH_SIZE) (h, s) = h\<lparr>fast_keys := q\<rparr>"
    by (simp add: q_def load_expiration_keys_from_db_def)
  show "ttl_inv (load_expiration_keys_from_db (of_nat BATCH_SIZE) (h, s), s)"
    unfolding rest by (rule ttl_invI) (use i inv card sub le in auto)
  show "schedule s = Map.empty" if "sset_map (fast_keys (load_expiration_keys_from_db (of_nat BATCH_SIZE) (h, s))) = Map.empty"
  proof -
    have "take BATCH_SIZE L = []" using that qk unfolding q_def [symmetric] by (cases "take BATCH_SIZE L") (auto simp: fun_eq_iff)
    then have "L = []" by (simp add: BATCH_SIZE_def)
    then have "zcoll.view (data_map s) ?E k = None" for k using setL [of k] by (cases "zcoll.view (data_map s) ?E k") auto
    then show ?thesis by (simp add: schedule_def fun_eq_iff)
  qed
qed (simp_all add: load_expiration_keys_from_db_def)

subsection \<open>Expiring\<close>

definition first_due :: "ssdb \<Rightarrow> bytes \<Rightarrow> int \<Rightarrow> bool" where
  "first_due s k sc \<longleftrightarrow> schedule s k = Some sc \<and> (\<forall>k' sc'. schedule s k' = Some sc' \<longrightarrow> sc \<le> sc')"

definition expired_to :: "bytes \<Rightarrow> ssdb \<Rightarrow> ssdb \<Rightarrow> bool" where
  "expired_to k s s' \<longleftrightarrow> schedule s' = (schedule s)(k := None) \<and> kv_view s' = (kv_view s)(k := None) \<and>
     (\<forall>x. key_type x \<notin> kv_types \<union> z_types \<longrightarrow> data_map s' x = data_map s x)"

lemma front_first_due:
  assumes "ttl_inv (h, s)" and "SortedSet_front (fast_keys h) = Some (k, sc)"
  shows "first_due s k sc"
proof -
  note i = ttl_invD [OF assms(1)]
  have k: "sset_map (fast_keys h) k = Some sc" by (rule sq.front_Some(1) [OF i(2) assms(2)])
  have "sc \<le> sc'" if "schedule s k' = Some sc'" for k' sc'
  proof (cases "sset_map (fast_keys h) k'")
    case None
    then show ?thesis by (rule i(6) [OF k _ that])
  next
    case (Some c)
    then show ?thesis using i(5) [OF Some] that sq.front_Some(2) [OF i(2) assms(2)] by simp
  qed
  with i(5) [OF k] show ?thesis by (simp add: first_due_def)
qed

text \<open>Writing a string leaves the schedule alone.\<close>

lemma kv_update_good:
  assumes "zset_good s EXPIRATION_LIST_KEY" and "io_ok t" and "data_map t = (data_map s)(encode_kv_key k := v)"
  shows "zset_good t EXPIRATION_LIST_KEY" and "schedule t = schedule s"
proof -
  have "data_map t x = data_map s x" if "key_type x \<in> z_types" for x using that by (auto simp: assms(3) z_types_def)
  then have zi: "zset_inv (data_map t) = zset_inv (data_map s)" and v: "zcoll.view (data_map t) = zcoll.view (data_map s)"
    by (auto simp: z_types_def intro!: zset_inv_frame zcoll.view_frame)
  show "zset_good t EXPIRATION_LIST_KEY" using assms(2) zset_goodD [OF assms(1)] zi v by (simp add: zset_good_def)
  show "schedule t = schedule s" by (simp add: schedule_def v fun_eq_iff)
qed

text \<open>A key deleted from the database and from the schedule.\<close>

lemma expire_key:
  assumes "zset_good s EXPIRATION_LIST_KEY" and "schedule s k = Some sc"
    and s'_def: "s' = fst (zdel EXPIRATION_LIST_KEY k lt (fst (ssdb_del k lt s)))"
  shows "zset_good s' EXPIRATION_LIST_KEY" and "expired_to k s s'"
proof -
  let ?E = EXPIRATION_LIST_KEY let ?t = "fst (ssdb_del k lt s)"
  note g = zset_goodD [OF assms(1)] and ok = schedule_ok [OF assms(2)]
  have d: "data_map ?t = (data_map s)(encode_kv_key k := None)"
    using ssdb_del_data(1) g(1) by (simp add: io_ok_def)
  have io: "io_ok ?t" by (rule io_ok_run [OF g(1) kv_ops_run(4)])
  note gt = kv_update_good(1) [OF assms(1) io d] and sch = kv_update_good(2) [OF assms(1) io d]
  show "zset_good s' ?E" unfolding s'_def by (rule z_del_good(1) [OF gt ok])
  have e: "data_map s' = z_del (data_map ?t) ?E k" unfolding s'_def by (rule z_del_good(2) [OF gt ok])
  have fr: "data_map s' x = data_map ?t x" if "key_type x \<notin> z_types" for x
    unfolding e by (rule z_put_other) (use that in \<open>simp add: z_types_def\<close>)
  have "schedule s' = (schedule s)(k := None)"
    unfolding s'_def schedule_zdel [OF gt ok] sch ..
  moreover have "kv_view s' = (kv_view s)(k := None)"
    using fr [of "encode_kv_key _"] by (simp add: kv_view_def d fun_eq_iff z_types_def)
  moreover have "data_map s' x = data_map s x" if "key_type x \<notin> kv_types \<union> z_types" for x
    using fr [of x] that by (auto simp: d)
  ultimately show "expired_to k s s'" by (simp add: expired_to_def)
qed

lemma expire_front_correct:
  assumes "ttl_inv (h, s)" and "SortedSet_front (fast_keys h) = Some (k, sc)" and "expire_front now (h, s) = (h', s')"
  shows "ttl_inv (h', s')" and "first_due s k sc" and "first_timeout h' = sc" and "thread_quit h' = thread_quit h"
    and "if sc \<le> now then expired_to k s s' else s' = s"
proof -
  note i = ttl_invD [OF assms(1)]
  show due: "first_due s k sc" by (rule front_first_due [OF assms(1,2)])
  then have k: "schedule s k = Some sc" and le: "\<And>k' sc'. schedule s k' = Some sc' \<Longrightarrow> sc \<le> sc'"
    by (auto simp: first_due_def)
  show "first_timeout h' = sc" "thread_quit h' = thread_quit h"
    using assms(2,3) by (auto simp: expire_front_def Let_def split: if_splits)
  have "ttl_inv (h', s') \<and> (if sc \<le> now then expired_to k s s' else s' = s)"
  proof (cases "sc \<le> now")
    case True
    let ?lt = "binlog_type_char BT_SYNC" and ?q = "fst (SortedSet_pop_front (fast_keys h))"
    have h': "h' = h\<lparr>first_timeout := sc, fast_keys := ?q\<rparr>"
      and s': "s' = fst (zdel EXPIRATION_LIST_KEY k ?lt (fst (ssdb_del k ?lt s)))"
      using assms(2,3) True by (auto simp: expire_front_def Let_def)
    note x = expire_key [OF i(1) k s']
    note q = sq.pop_front [OF i(2) assms(2)]
    have sch: "schedule s' = (schedule s)(k := None)" using x(2) by (simp add: expired_to_def)
    have "card (dom (sset_map ?q)) \<le> BATCH_SIZE"
      using i(3) card_mono [of "dom (sset_map (fast_keys h))" "dom (sset_map ?q)"] sq.finite_scores [OF i(2)]
      by (auto simp: q(2))
    moreover have "schedule s' j = Some v" if "sset_map ?q j = Some v" for j v
      using that i(5) by (auto simp: q(2) sch split: if_splits)
    moreover have "v \<le> v'" if "sset_map ?q j = Some v" "sset_map ?q j' = None" "schedule s' j' = Some v'" for j v j' v'
      using that i(6) by (auto simp: q(2) sch split: if_splits)
    moreover have "sc \<le> v \<and> 2000000000 \<le> v \<and> v < INT64_MAX" if "schedule s' j = Some v" for j v
      using that le i(8) by (auto simp: sch split: if_splits)
    ultimately have "ttl_inv (h', s')" unfolding h'
      by (intro ttl_invI) (simp_all add: x(1) q(1) i(4))
    with x(2) True show ?thesis by simp
  next
    case False
    then have "h' = h\<lparr>first_timeout := sc\<rparr>" "s' = s" using assms(2,3) by (auto simp: expire_front_def Let_def)
    moreover have "ttl_inv (h\<lparr>first_timeout := sc\<rparr>, s)"
      by (rule ttl_invI) (use i le in auto)
    ultimately show ?thesis using False by simp
  qed
  then show "ttl_inv (h', s')" "if sc \<le> now then expired_to k s s' else s' = s" by blast+
qed

text \<open>One round: nothing is scheduled, or the first key of the schedule is deleted if it is due.\<close>

lemma expire_loop_correct:
  assumes "ttl_inv (h, s)" and "expire_loop now (h, s) = (h', s')"
  shows "ttl_inv (h', s')" and "thread_quit h' = thread_quit h"
    and "(schedule s = Map.empty \<and> s' = s) \<or>
      (\<exists>k sc. first_due s k sc \<and> (if sc \<le> now then expired_to k s s' else s' = s))"
proof -
  note i = ttl_invD [OF assms(1)]
  have emp: "SortedSet_empty (fast_keys g) \<longleftrightarrow> sset_map (fast_keys g) = Map.empty" if "ttl_inv (g, s)" for g
    using SortedSet_empty_iff [OF ttl_invD(2) [OF that]] fast_keys_length [OF ttl_invD(2) [OF that]] ttl_invD(3) [OF that] by simp
  have front: "ttl_inv (h', s') \<and> thread_quit h' = thread_quit h \<and>
      (\<exists>k sc. first_due s k sc \<and> (if sc \<le> now then expired_to k s s' else s' = s))"
    if g: "ttl_inv (g, s)" "sset_map (fast_keys g) \<noteq> Map.empty" "expire_front now (g, s) = (h', s')" "thread_quit g = thread_quit h" for g
  proof -
    obtain k sc where "SortedSet_front (fast_keys g) = Some (k, sc)"
      using sq.front_None [OF ttl_invD(2) [OF g(1)]] g(2) by (cases "SortedSet_front (fast_keys g)") auto
    from expire_front_correct [OF g(1) this g(3)] g(4) show ?thesis by metis
  qed
  let ?g = "load_expiration_keys_from_db (of_nat BATCH_SIZE) (h, s)"
  have "ttl_inv (h', s') \<and> thread_quit h' = thread_quit h \<and> ((schedule s = Map.empty \<and> s' = s) \<or>
      (\<exists>k sc. first_due s k sc \<and> (if sc \<le> now then expired_to k s s' else s' = s)))"
  proof (cases "sset_map (fast_keys h) = Map.empty")
    case False
    then show ?thesis using front [OF assms(1)] assms(2) i(4) emp [OF assms(1)] by (simp add: expire_loop_def)
  next
    case True
    note l = load_correct [OF assms(1) True]
    show ?thesis
    proof (cases "sset_map (fast_keys ?g) = Map.empty")
      case False
      then show ?thesis
        using front [OF l(1) False] assms(2) i(4) emp [OF assms(1)] emp [OF l(1)] True l(4) by (simp add: expire_loop_def Let_def)
    next
      case e: True
      then have sch: "schedule s = Map.empty" by (rule l(2))
      have "h' = ?g\<lparr>first_timeout := INT64_MAX\<rparr>" "s' = s"
        using assms(2) i(4) emp [OF assms(1)] emp [OF l(1)] True e by (auto simp: expire_loop_def Let_def)
      moreover have "ttl_inv (?g\<lparr>first_timeout := INT64_MAX\<rparr>, s)"
        by (rule ttl_invI) (use ttl_invD [OF l(1)] sch e in auto)
      ultimately show ?thesis using sch l(4) by simp
    qed
  qed
  then show "ttl_inv (h', s')" "thread_quit h' = thread_quit h"
    "(schedule s = Map.empty \<and> s' = s) \<or> (\<exists>k sc. first_due s k sc \<and> (if sc \<le> now then expired_to k s s' else s' = s))"
    by blast+
qed

subsection \<open>Setting and deleting\<close>

lemma wrap64_add: "wrap64 (a + wrap64 b) = wrap64 (a + b)"
proof -
  have "(a + ((b + 2 ^ 63) mod 2 ^ 64 - 2 ^ 63) + 2 ^ 63) mod 2 ^ 64 = (a + (b + 2 ^ 63) mod 2 ^ 64) mod (2 ^ 64 :: int)" by simp
  also have "\<dots> = (a + b + 2 ^ 63) mod 2 ^ 64" by (simp only: mod_add_right_eq add.assoc)
  finally show ?thesis by (simp only: wrap64_def)
qed

definition fast_put :: "bytes \<Rightarrow> int \<Rightarrow> sorted_set \<Rightarrow> sorted_set" where
  "fast_put key expired q =
     (if \<not> SortedSet_empty q \<and> expired \<le> SortedSet_max_score q
      then let q = fst (SortedSet_add key expired q)
           in if SortedSet_size q > int BATCH_SIZE then fst (SortedSet_pop_back q) else q
      else fst (SortedSet_del key q))"

lemma first_keys_del: "first_keys m sch \<Longrightarrow> first_keys (m(k := None)) (sch(k := None))"
  unfolding first_keys_def by (simp split: if_split_asm)

lemma first_keys_after:
  assumes "first_keys m sch" and "\<And>k sc. m k = Some sc \<Longrightarrow> sc \<le> v"
  shows "first_keys (m(key := None)) (sch(key \<mapsto> v))"
  using assms unfolding first_keys_def by (simp split: if_split_asm)

lemma first_keys_before:
  assumes "first_keys m sch" and "m k = Some sc" and "v \<le> sc" and "\<And>k' sc'. m k' = Some sc' \<Longrightarrow> sc' \<le> sc"
  shows "first_keys (m(key \<mapsto> v)) (sch(key \<mapsto> v))"
proof -
  have "sc \<le> sc'" if "m k' = None" "sch k' = Some sc'" for k' sc' using assms(1,2) that unfolding first_keys_def by blast
  with assms show ?thesis unfolding first_keys_def by (simp split: if_split_asm) (blast intro: order.trans)
qed

lemma first_keys_drop:
  assumes "first_keys m sch" and "m k = Some sc" and "\<And>k' sc'. m k' = Some sc' \<Longrightarrow> sc' \<le> sc"
  shows "first_keys (m(k := None)) sch"
  using assms unfolding first_keys_def by (simp split: if_split_asm)

lemma fast_put_correct:
  assumes "sset_inv q" and "card (dom (sset_map q)) \<le> BATCH_SIZE" and "first_keys (sset_map q) sch"
  shows "sset_inv (fast_put key v q)" and "card (dom (sset_map (fast_put key v q))) \<le> BATCH_SIZE"
    and "first_keys (sset_map (fast_put key v q)) (sch(key \<mapsto> v))"
proof -
  have len: "length (sorted_items q) < 2 ^ 31" by (rule fast_keys_length) (use assms in auto)
  note fin = sq.finite_scores [OF assms(1)] and emp = SortedSet_empty_iff [OF assms(1) len]
  have "sset_inv (fast_put key v q) \<and> card (dom (sset_map (fast_put key v q))) \<le> BATCH_SIZE \<and>
      first_keys (sset_map (fast_put key v q)) (sch(key \<mapsto> v))"
  proof (cases "\<not> SortedSet_empty q \<and> v \<le> SortedSet_max_score q")
    case False
    have "sc \<le> v" if m: "sset_map q k = Some sc" for k sc
    proof -
      have ne: "sset_map q \<noteq> Map.empty" using m by auto
      then obtain b c where "SortedSet_back q = Some (b, c)" using sq.back_None [OF assms(1)] by (cases "SortedSet_back q") auto
      moreover from this have "sc \<le> c" using m by (rule sq.back_Some(2) [OF assms(1)])
      ultimately show ?thesis using False ne emp by (simp add: SortedSet_max_score_def)
    qed
    from first_keys_after [OF assms(3) this] False assms(1,2) fin show ?thesis
      using card_mono [of "dom (sset_map q)" "dom ((sset_map q)(key := None))"] by (auto simp: fast_put_def sq.del)
  next
    case True
    let ?a = "fst (SortedSet_add key v q)"
    obtain b c where b: "SortedSet_back q = Some (b, c)" "v \<le> c"
      using True sq.back_None [OF assms(1)] emp by (cases "SortedSet_back q") (auto simp: SortedSet_max_score_def)
    note ad = sq.add [OF assms(1), of key v]
    have fk: "first_keys (sset_map ?a) (sch(key \<mapsto> v))" unfolding ad(2)
      by (rule first_keys_before [OF assms(3) sq.back_Some(1) [OF assms(1) b(1)] b(2) sq.back_Some(2) [OF assms(1) b(1)]])
    have card: "card (dom (sset_map ?a)) \<le> Suc BATCH_SIZE" using assms(2) fin by (simp add: ad(2) card_insert_if)
    then have "length (sorted_items ?a) < 2 ^ 31" by (rule fast_keys_length [OF ad(1)])
    then have sz: "SortedSet_size ?a = int (card (dom (sset_map ?a)))"
      using length_sorted_items(2) [OF ad(1)] by (simp add: SortedSet_size_def in_int32_def)
    show ?thesis
    proof (cases "SortedSet_size ?a > int BATCH_SIZE")
      case big: True
      have "sset_map ?a \<noteq> Map.empty" by (auto simp: ad(2))
      then obtain k' sc' where f: "SortedSet_back ?a = Some (k', sc')"
        using sq.back_None [OF ad(1)] by (cases "SortedSet_back ?a") auto
      note p = sq.pop_back [OF ad(1) f] and k' = sq.back_Some(1) [OF ad(1) f]
      have "card (dom (sset_map (fst (SortedSet_pop_back ?a)))) \<le> BATCH_SIZE"
        using card k' sq.finite_scores [OF ad(1)] by (simp add: p(2) card_Diff_singleton_if domI)
      moreover have "first_keys (sset_map (fst (SortedSet_pop_back ?a))) (sch(key \<mapsto> v))"
        unfolding p(2) by (rule first_keys_drop [OF fk k' sq.back_Some(2) [OF ad(1) f]])
      ultimately show ?thesis using True big p(1) by (simp add: fast_put_def Let_def)
    next
      case False
      then show ?thesis using True sz fk ad(1) by (simp add: fast_put_def Let_def)
    qed
  qed
  then show "sset_inv (fast_put key v q)" "card (dom (sset_map (fast_put key v q))) \<le> BATCH_SIZE"
    "first_keys (sset_map (fast_put key v q)) (sch(key \<mapsto> v))" by blast+
qed

lemma set_ttl_eq:
  assumes "zset EXPIRATION_LIST_KEY key (str_int64 (wrap64 (now + wrap64 (ttl * 1000)))) (binlog_type_char BT_SYNC) s = (s', r)"
    and "r \<noteq> -1"
  shows "set_ttl now key ttl (h, s) = ((h\<lparr>first_timeout := min (first_timeout h) (wrap64 (now + wrap64 (ttl * 1000))),
     fast_keys := fast_put key (wrap64 (now + wrap64 (ttl * 1000))) (fast_keys h)\<rparr>, s'), 0)"
  using assms by (simp add: set_ttl_def fast_put_def Let_def min_def)

text \<open>The times the thread handles: in milliseconds and below the largest score.\<close>

definition ttl_ok :: "int \<Rightarrow> int \<Rightarrow> bool" where
  "ttl_ok now ttl \<longleftrightarrow> 2000000000 \<le> now + ttl * 1000 \<and> now + ttl * 1000 < INT64_MAX"

lemma set_ttl_correct:
  assumes "ttl_inv (h, s)" and "hname_ok key" and "ttl_ok now ttl" and "size_fits (Suc (nat (zsize EXPIRATION_LIST_KEY s)))"
    and "set_ttl now key ttl (h, s) = ((h', s'), r)"
  shows "r = 0" and "ttl_inv (h', s')" and "schedule s' = (schedule s)(key \<mapsto> now + ttl * 1000)"
    and "leaves z_types s s'" and "thread_quit h' = thread_quit h"
proof -
  note i = ttl_invD [OF assms(1)]
  let ?E = EXPIRATION_LIST_KEY and ?lt = "binlog_type_char BT_SYNC" and ?v = "now + ttl * 1000"
  have v: "in_int64 ?v" using assms(3) by (simp add: ttl_ok_def in_int64_def INT64_MAX_def)
  then have w: "wrap64 (now + wrap64 (ttl * 1000)) = ?v" by (simp add: wrap64_add)
  let ?z = "zset ?E key (str_int64 ?v) ?lt s"
  have "snd ?z \<noteq> -1" using z_put_good(3) [OF i(1) assms(2,4)] by simp
  then have e: "h' = h\<lparr>first_timeout := min (first_timeout h) ?v, fast_keys := fast_put key ?v (fast_keys h)\<rparr>" "s' = fst ?z" "r = 0"
    using set_ttl_eq [of key now ttl s "fst ?z" "snd ?z" h] assms(5) by (auto simp: w)
  show "r = 0" "thread_quit h' = thread_quit h" by (simp_all add: e)
  show "leaves z_types s s'" unfolding e by (rule zset_leaves)
  show sch: "schedule s' = (schedule s)(key \<mapsto> ?v)" unfolding e by (rule schedule_zset [OF i(1) assms(2) v assms(4)])
  have "zset_good s' ?E" unfolding e by (rule z_put_good(1) [OF i(1) assms(2,4)])
  moreover note fast_put_correct [OF i(2,3,10), of key ?v]
  moreover have "first_timeout h' \<le> sc \<and> 2000000000 \<le> sc \<and> sc < INT64_MAX" if "schedule s' k = Some sc" for k sc
    using that i(7,8) [of k sc] assms(3) by (auto simp: sch e(1) ttl_ok_def split: if_splits)
  ultimately show "ttl_inv (h', s')" unfolding ttl_inv_def prod.case sch using i(4) by (auto simp: e)
qed

text \<open>A \<open>set_ttl\<close> the sorted set refuses changes nothing in memory.\<close>

lemma set_ttl_refused:
  assumes "snd (zset EXPIRATION_LIST_KEY key (str_int64 (wrap64 (now + wrap64 (ttl * 1000)))) (binlog_type_char BT_SYNC) s) = -1"
  shows "fst (fst (set_ttl now key ttl (h, s))) = h" and "snd (set_ttl now key ttl (h, s)) = -1"
proof -
  obtain s' where "zset EXPIRATION_LIST_KEY key (str_int64 (wrap64 (now + wrap64 (ttl * 1000)))) (binlog_type_char BT_SYNC) s = (s', -1)"
    using assms by (metis prod.collapse)
  then have "set_ttl now key ttl (h, s) = ((h, s'), -1)" by (simp add: set_ttl_def Let_def)
  then show "fst (fst (set_ttl now key ttl (h, s))) = h" "snd (set_ttl now key ttl (h, s)) = -1" by simp_all
qed

lemma del_ttl_correct:
  assumes "ttl_inv (h, s)" and "hname_ok key" and "del_ttl key (h, s) = ((h', s'), r)"
  shows "r = 0" and "ttl_inv (h', s')" and "schedule s' = (schedule s)(key := None)" and "leaves z_types s s'"
    and "thread_quit h' = thread_quit h"
proof -
  note i = ttl_invD [OF assms(1)]
  show "r = 0" "thread_quit h' = thread_quit h" using assms(3) by (auto simp: del_ttl_def split: if_splits)
  have "ttl_inv (h', s') \<and> schedule s' = (schedule s)(key := None) \<and> leaves z_types s s'"
  proof (cases "first_timeout h = INT64_MAX")
    case True
    then have e: "h' = h" "s' = s" using assms(3) by (auto simp: del_ttl_def)
    have "schedule s k = None" for k using i(7,8) [of k] True by (cases "schedule s k") (auto simp: not_less [symmetric])
    then have "schedule s = (schedule s)(key := None)" by (simp add: fun_eq_iff)
    with e assms(1) show ?thesis by (simp add: leaves_refl)
  next
    case False
    then have e: "h' = h\<lparr>fast_keys := fst (SortedSet_del key (fast_keys h))\<rparr>"
        "s' = fst (zdel EXPIRATION_LIST_KEY key (binlog_type_char BT_SYNC) s)"
      using assms(3) by (auto simp: del_ttl_def)
    note d = sq.del [OF i(2), of key]
    have sch: "schedule s' = (schedule s)(key := None)" unfolding e by (rule schedule_zdel [OF i(1) assms(2)])
    have "card (dom (sset_map (fast_keys h'))) \<le> BATCH_SIZE"
      using i(3) card_mono [of "dom (sset_map (fast_keys h))" "dom (sset_map (fast_keys h'))"] sq.finite_scores [OF i(2)]
      by (auto simp: e d(2))
    moreover have "zset_good s' EXPIRATION_LIST_KEY" unfolding e by (rule z_del_good(1) [OF i(1) assms(2)])
    moreover have "first_keys (sset_map (fast_keys h')) (schedule s')"
      unfolding sch by (simp add: e d(2) first_keys_del i(10))
    moreover have "first_timeout h' \<le> sc \<and> 2000000000 \<le> sc \<and> sc < INT64_MAX" if "schedule s' k = Some sc" for k sc
      using that i(7,8) [of k sc] by (auto simp: sch e(1) split: if_splits)
    ultimately have "ttl_inv (h', s')" unfolding ttl_inv_def prod.case using i(4) d(1) by (auto simp: e)
    moreover have "leaves z_types s s'" unfolding e by (rule zdel_leaves)
    ultimately show ?thesis using sch by blast
  qed
  then show "ttl_inv (h', s')" "schedule s' = (schedule s)(key := None)" "leaves z_types s s'" by blast+
qed

lemma get_ttl_schedule:
  assumes "zset_good s EXPIRATION_LIST_KEY" and "hname_ok key"
  shows "get_ttl now key (h, s) = (case schedule s key of None \<Rightarrow> -1 | Some sc \<Rightarrow> wrap64 (sc - now) sdiv 1000)"
  using zget_io [OF zset_goodD(1) [OF assms(1)] list_key_ok assms(2)]
  by (simp add: get_ttl_def schedule_def Bytes_Int64_def split: option.split)

lemma ttl_inv_frame:
  assumes "ttl_inv (h, s)" and "zset_good s' EXPIRATION_LIST_KEY" and "schedule s' = schedule s"
  shows "ttl_inv (h, s')"
  using assms unfolding ttl_inv_def prod.case by simp

text \<open>A server that starts on a database whose times are in milliseconds.\<close>

lemma ttl_inv_new:
  assumes "zset_good s EXPIRATION_LIST_KEY" and "\<And>k sc. schedule s k = Some sc \<Longrightarrow> 2000000000 \<le> sc \<and> sc < INT64_MAX"
  shows "ttl_inv (ExpirationHandler_new, s)"
  unfolding ttl_inv_def prod.case using assms
  by (fastforce simp: ExpirationHandler_new_def sq.new first_keys_def)

subsection \<open>The thread\<close>

text \<open>Each key keeps its value and its time, or is gone because its time has come.\<close>

definition expires :: "int set \<Rightarrow> ssdb \<Rightarrow> ssdb \<Rightarrow> bool" where
  "expires T s s' \<longleftrightarrow> (\<forall>k. schedule s' k = schedule s k \<and> kv_view s' k = kv_view s k \<or>
     schedule s' k = None \<and> kv_view s' k = None \<and> (\<exists>sc t. schedule s k = Some sc \<and> t \<in> T \<and> sc \<le> t))"

lemma expires_refl [simp]: "expires T s s"
  by (simp add: expires_def)

lemma expires_trans: "expires T s s' \<Longrightarrow> expires T' s' s'' \<Longrightarrow> expires (T \<union> T') s s''"
  unfolding expires_def by (metis UnCI option.distinct(1))

lemma expires_mono: "expires T s s' \<Longrightarrow> schedule s' k = Some sc \<Longrightarrow> schedule s k = Some sc"
  unfolding expires_def by (metis option.distinct(1))

lemma expired_to_expires: "expired_to k s s' \<Longrightarrow> first_due s k sc \<Longrightarrow> sc \<le> u \<Longrightarrow> expires {u} s s'"
  by (auto simp: expires_def expired_to_def first_due_def)

lemma thread_round:
  assumes "ttl_inv hs" and "expire_loop u hs = hs'"
  shows "ttl_inv hs'" and "thread_quit (fst hs') = thread_quit (fst hs)" and "expires {u} (snd hs) (snd hs')"
    and "schedule (snd hs) k = Some sc \<Longrightarrow> sc \<le> u \<Longrightarrow> \<exists>k c. first_due (snd hs) k c \<and> expired_to k (snd hs) (snd hs')"
proof -
  obtain h s h' s' where hs: "hs = (h, s)" "hs' = (h', s')" by (cases hs; cases hs')
  note x = expire_loop_correct [OF assms [unfolded hs]]
  show "ttl_inv hs'" "thread_quit (fst hs') = thread_quit (fst hs)" using x(1,2) by (simp_all add: hs)
  show "expires {u} (snd hs) (snd hs')" using x(3) expired_to_expires by (fastforce simp: hs split: if_splits)
  show "\<exists>k c. first_due (snd hs) k c \<and> expired_to k (snd hs) (snd hs')"
    if d: "schedule (snd hs) k = Some sc" "sc \<le> u"
  proof -
    have "schedule s \<noteq> Map.empty" using d(1) by (auto simp: hs)
    then obtain j c where j: "first_due s j c" "if c \<le> u then expired_to j s s' else s' = s" using x(3) by blast
    have "c \<le> u" using j(1) d by (force simp: first_due_def hs)
    with j show ?thesis by (auto simp: hs)
  qed
qed

lemma thread_func_expires:
  "ttl_inv hs \<Longrightarrow> ttl_inv (thread_func clock hs) \<and> expires (snd ` set clock) (snd hs) (snd (thread_func clock hs))"
proof (induction clock hs rule: thread_func.induct)
  case (2 t u clock hs)
  have quit: "ttl_inv (fst hs\<lparr>thread_quit := False\<rparr>, snd hs)"
    using "2.prems" by (cases hs) (simp add: ttl_inv_def)
  have "ttl_inv (thread_func clock (expire_loop u hs)) \<and>
      expires (insert u (snd ` set clock)) (snd hs) (snd (thread_func clock (expire_loop u hs)))"
    if "\<not> thread_quit (fst hs)" "\<not> first_timeout (fst hs) > t"
    using "2.IH"(2) [OF that thread_round(1) [OF "2.prems" refl]] expires_trans [OF thread_round(3) [OF "2.prems" refl]] by simp
  moreover have "expires (insert u (snd ` set clock)) s s'" if "expires (snd ` set clock) s s'" for s s'
    using that unfolding expires_def by blast
  ultimately show ?case using quit "2.IH"(1) "2.prems" by auto
qed simp

definition due_keys :: "int \<Rightarrow> ssdb \<Rightarrow> bytes set" where
  "due_keys now s = {k. \<exists>sc. schedule s k = Some sc \<and> sc \<le> now}"

lemma finite_due_keys: "zset_good s EXPIRATION_LIST_KEY \<Longrightarrow> finite (due_keys now s)"
  by (rule finite_subset [OF _ zset_goodD(6)]) (auto simp: due_keys_def schedule_def)

lemma thread_func_due:
  assumes "ttl_inv hs" and "\<not> thread_quit (fst hs)" and "\<And>t u. (t, u) \<in> set clock \<Longrightarrow> now \<le> t \<and> now \<le> u"
    and "card (due_keys now (snd hs)) \<le> length clock"
  shows "due_keys now (snd (thread_func clock hs)) = {}"
  using assms
proof (induction clock hs rule: thread_func.induct)
  case (1 hs)
  have "finite (due_keys now (snd hs))" using "1.prems"(1) finite_due_keys by (cases hs) (auto dest: ttl_invD(1))
  with "1.prems"(4) show ?case by simp
next
  case (2 t u clock hs)
  have t: "now \<le> t" "now \<le> u" using "2.prems"(3) by auto
  have fin: "finite (due_keys now (snd hs))" using "2.prems"(1) finite_due_keys by (cases hs) (auto dest: ttl_invD(1))
  show ?case
  proof (cases "due_keys now (snd hs) = {}")
    case True
    have "expires (snd ` set ((t, u) # clock)) (snd hs) (snd (thread_func ((t, u) # clock) hs))"
      using thread_func_expires [OF "2.prems"(1)] by blast
    then have "due_keys now (snd (thread_func ((t, u) # clock) hs)) \<subseteq> due_keys now (snd hs)"
      unfolding due_keys_def using expires_mono by blast
    with True show ?thesis by blast
  next
    case False
    then obtain k sc where k: "schedule (snd hs) k = Some sc" "sc \<le> now" by (auto simp: due_keys_def)
    then have "first_timeout (fst hs) \<le> t" using "2.prems"(1) t by (cases hs) (force dest: ttl_invD(7))
    then have step: "thread_func ((t, u) # clock) hs = thread_func clock (expire_loop u hs)"
      and nt: "\<not> first_timeout (fst hs) > t" using "2.prems"(2) by auto
    note r = thread_round [OF "2.prems"(1) refl, where u = u]
    have "sc \<le> u" using k t by simp
    from r(4) [OF k(1) this] obtain j c where j: "first_due (snd hs) j c" "expired_to j (snd hs) (snd (expire_loop u hs))" by blast
    have "c \<le> now" using j(1) k by (force simp: first_due_def)
    then have "j \<in> due_keys now (snd hs)" using j(1) by (auto simp: due_keys_def first_due_def)
    moreover have "due_keys now (snd (expire_loop u hs)) = due_keys now (snd hs) - {j}"
      using j(2) by (auto simp: due_keys_def expired_to_def)
    ultimately have "card (due_keys now (snd (expire_loop u hs))) \<le> length clock"
      using "2.prems"(4) fin by (simp add: card_Diff_singleton)
    from "2.IH"(2) [OF "2.prems"(2) nt r(1) _ _ this] r(2) "2.prems"(2,3) show ?thesis unfolding step by auto
  qed
qed

subsection \<open>Properties\<close>

lemma ssdb_get_expired: "io_ok s \<Longrightarrow> kv_view s k = None \<Longrightarrow> ssdb_get k s = NotFound"
  by (simp add: ssdb_get_io)

lemma ssdb_get_same: "io_ok s \<Longrightarrow> io_ok s' \<Longrightarrow> kv_view s' k = kv_view s k \<Longrightarrow> ssdb_get k s' = ssdb_get k s"
  by (simp add: ssdb_get_io)

text \<open>C9. The expiration thread deletes a key only after its time: whatever the clock reads in its rounds, a key
  whose value or schedule has changed was scheduled at or before a time the clock has shown, and is gone
  together with its schedule; every other key keeps its value and its time, and the handler stays consistent
  with the database.\<close>

theorem expire_never_early:
  assumes "ttl_inv (h, s)" and "thread_func clock (h, s) = (h', s')"
  shows "ttl_inv (h', s') \<and>
    (\<forall>k. ssdb_get k s' = ssdb_get k s \<and> schedule s' k = schedule s k \<or>
       ssdb_get k s' = NotFound \<and> schedule s' k = None \<and>
       (\<exists>sc t u. schedule s k = Some sc \<and> (t, u) \<in> set clock \<and> sc \<le> u))"
proof -
  have x: "ttl_inv (h', s')" "expires (snd ` set clock) s s'"
    using thread_func_expires [OF assms(1), of clock] assms(2) by simp_all
  note io = ttl_invD(9) [OF assms(1)] ttl_invD(9) [OF x(1)]
  show ?thesis
    using x ssdb_get_same [OF io] ssdb_get_expired [OF io(2)] unfolding expires_def by fastforce
qed

text \<open>C10. No key outlives its time: when the clock shows at least \<open>now\<close> from some point on, then after as many rounds
  of the thread as keys are due at \<open>now\<close>, all of these are deleted, with their entries in the schedule. The
  thread does not sleep past a key that is due, whichever keys it has in memory.\<close>

theorem expire_all_due:
  assumes "ttl_inv (h, s)" and "\<not> thread_quit h" and "\<forall>(t, u) \<in> set clock. now \<le> t \<and> now \<le> u"
    and "card {k. \<exists>sc. schedule s k = Some sc \<and> sc \<le> now} \<le> length clock" and "thread_func clock (h, s) = (h', s')"
    and "schedule s k = Some sc" and "sc \<le> now"
  shows "ssdb_get k s' = NotFound \<and> get_ttl t k (h', s') = -1"
proof -
  have x: "ttl_inv (h', s')" "expires (snd ` set clock) s s'"
    using thread_func_expires [OF assms(1), of clock] assms(5) by simp_all
  have "due_keys now s' = {}"
    using thread_func_due [of "(h, s)" clock now] assms(1-5) by (auto simp: due_keys_def)
  then have n: "schedule s' k = None"
    using assms(6,7) expires_mono [OF x(2), of k] by (cases "schedule s' k") (auto simp: due_keys_def)
  then have "kv_view s' k = None" using x(2) assms(6) unfolding expires_def by (metis option.distinct(1))
  then show ?thesis
    using n ssdb_get_expired [OF ttl_invD(9) [OF x(1)]] get_ttl_schedule [OF ttl_invD(1) [OF x(1)] schedule_ok [OF assms(6)]]
    by simp
qed

text \<open>\<open>set_ttl\<close> schedules the key \<open>ttl\<close> seconds ahead and returns 0: \<open>get_ttl\<close> then returns the seconds left until
  that time and the same as before for every other key; \<open>del_ttl\<close> makes it -1 again. Neither changes a value, and
  both keep the handler consistent with the database.\<close>

theorem set_ttl_get_ttl:
  assumes "ttl_inv (h, s)" and "hname_ok key" and "2000000000 \<le> now + ttl * 1000" and "now + ttl * 1000 < INT64_MAX"
    and "0 \<le> t" and "t \<le> INT64_MAX" and "size_fits (Suc (nat (zsize EXPIRATION_LIST_KEY s)))"
  shows "\<exists>h1 s1 h2 s2. set_ttl now key ttl (h, s) = ((h1, s1), 0) \<and> ttl_inv (h1, s1) \<and>
    get_ttl t key (h1, s1) = (now + ttl * 1000 - t) sdiv 1000 \<and>
    (\<forall>k. hname_ok k \<and> k \<noteq> key \<longrightarrow> get_ttl t k (h1, s1) = get_ttl t k (h, s)) \<and>
    (\<forall>k. ssdb_get k s1 = ssdb_get k s) \<and>
    del_ttl key (h1, s1) = ((h2, s2), 0) \<and> ttl_inv (h2, s2) \<and> get_ttl t key (h2, s2) = -1 \<and>
    (\<forall>k. ssdb_get k s2 = ssdb_get k s)"
proof -
  obtain h1 s1 r1 where e1: "set_ttl now key ttl (h, s) = ((h1, s1), r1)" by (metis prod.exhaust)
  have "ttl_ok now ttl" using assms(3,4) by (simp add: ttl_ok_def)
  note a = set_ttl_correct [OF assms(1,2) this assms(7) e1]
  obtain h2 s2 r2 where e2: "del_ttl key (h1, s1) = ((h2, s2), r2)" by (metis prod.exhaust)
  note b = del_ttl_correct [OF a(2) assms(2) e2]
  note io = ttl_invD(9) [OF assms(1)] ttl_invD(9) [OF a(2)] ttl_invD(9) [OF b(2)]
  have kt: "key_type (encode_kv_key k) \<notin> z_types" for k by (simp add: z_types_def)
  have "kv_view s1 k = kv_view s k" for k using a(4) io(1) kt by (simp add: leaves_def kv_view_def io_ok_def)
  moreover have "kv_view s2 k = kv_view s1 k" for k using b(4) io(2) kt by (simp add: leaves_def kv_view_def io_ok_def)
  ultimately have g: "ssdb_get k s1 = ssdb_get k s" "ssdb_get k s2 = ssdb_get k s" for k using io by (simp_all add: ssdb_get_io)
  have w: "in_int64 (now + ttl * 1000 - t)" using assms(3-6) by (simp add: in_int64_def INT64_MAX_def)
  have "get_ttl t key (h1, s1) = (now + ttl * 1000 - t) sdiv 1000"
    using get_ttl_schedule [OF ttl_invD(1) [OF a(2)] assms(2), of t h1] w by (simp add: a(3))
  moreover have "get_ttl t k (h1, s1) = get_ttl t k (h, s)" if "hname_ok k \<and> k \<noteq> key" for k
    using get_ttl_schedule [OF ttl_invD(1) [OF a(2)], of k t h1] get_ttl_schedule [OF ttl_invD(1) [OF assms(1)], of k t h] that
    by (simp add: a(3))
  moreover have "get_ttl t key (h2, s2) = -1"
    using get_ttl_schedule [OF ttl_invD(1) [OF b(2)] assms(2), of t h2] by (simp add: b(3))
  ultimately show ?thesis using e1 e2 a(1,2) b(1,2) g by auto
qed

text \<open>A handler on a new database, and one with a key that expires.\<close>

lemma new_ttl_inv: "ttl_inv (ExpirationHandler_new, fresh_db)"
  by (rule ttl_inv_new [OF fresh_zset_good [OF list_key_ok]]) (simp add: schedule_def zcoll.view_def)

lemma a_ok: "hname_ok ''a''"
  by (simp add: hname_ok_def name_ok_def SSDB_KEY_LEN_MAX_def)

theorem set_ttl_get_ttl_witness:
  "\<exists>h1 s1 h2 s2. set_ttl 2000000000 ''a'' 5 (ExpirationHandler_new, fresh_db) = ((h1, s1), 0) \<and>
     get_ttl 2000000000 ''a'' (h1, s1) = 5 \<and> get_ttl 2000009000 ''a'' (h1, s1) = -4 \<and>
     del_ttl ''a'' (h1, s1) = ((h2, s2), 0) \<and> get_ttl 2000000000 ''a'' (h2, s2) = -1"
proof -
  have "size_fits (Suc (nat (zsize EXPIRATION_LIST_KEY fresh_db)))"
    by (simp add: fresh_zsize [OF list_key_ok] size_fits_def)
  note w = set_ttl_get_ttl [OF new_ttl_inv a_ok, of 2000000000 5 _, OF _ _ _ _ this]
  from w [of 2000000000] w [of 2000009000] show ?thesis by (auto simp: INT64_MAX_def signed_divide_int_def)
qed

definition ttl_a :: ttl_state where
  "ttl_a = fst (set_ttl 2000000000 ''a'' 5 (ExpirationHandler_new, fresh_db))"

lemma ttl_a_facts:
  "ttl_inv ttl_a" "schedule (snd ttl_a) = [''a'' \<mapsto> 2000005000]" "\<not> thread_quit (fst ttl_a)"
proof -
  obtain h s r where e: "set_ttl 2000000000 ''a'' 5 (ExpirationHandler_new, fresh_db) = ((h, s), r)" by (metis prod.exhaust)
  have sz: "size_fits (Suc (nat (zsize EXPIRATION_LIST_KEY fresh_db)))"
    by (simp add: fresh_zsize [OF list_key_ok] size_fits_def)
  have ok: "ttl_ok 2000000000 5" by (simp add: ttl_ok_def INT64_MAX_def)
  note a = set_ttl_correct [OF new_ttl_inv a_ok ok sz e]
  have "schedule fresh_db = Map.empty" by (simp add: schedule_def zcoll.view_def fun_eq_iff)
  with a e show "ttl_inv ttl_a" "schedule (snd ttl_a) = [''a'' \<mapsto> 2000005000]" "\<not> thread_quit (fst ttl_a)"
    by (simp_all add: ttl_a_def ExpirationHandler_new_def)
qed

theorem expire_never_early_witness:
  "schedule (snd (thread_func [(2000004000, 2000004999)] ttl_a)) ''a'' = Some 2000005000"
proof -
  let ?c = "[(2000004000, 2000004999)]"
  have "ttl_inv (fst ttl_a, snd ttl_a)" using ttl_a_facts(1) by simp
  from expire_never_early [OF this, of ?c "fst (thread_func ?c ttl_a)" "snd (thread_func ?c ttl_a)"]
  have "schedule (snd (thread_func ?c ttl_a)) ''a'' = schedule (snd ttl_a) ''a'' \<or>
      (\<exists>sc. schedule (snd ttl_a) ''a'' = Some sc \<and> sc \<le> 2000004999)"
    by (auto simp del: thread_func.simps)
  then show ?thesis by (simp add: ttl_a_facts(2) del: thread_func.simps)
qed

theorem expire_all_due_witness:
  "ssdb_get ''a'' (snd (thread_func [(2000005000, 2000005001)] ttl_a)) = NotFound"
proof -
  let ?c = "[(2000005000, 2000005001)]"
  have "ttl_inv (fst ttl_a, snd ttl_a)" using ttl_a_facts(1) by simp
  moreover have "{k. \<exists>sc. schedule (snd ttl_a) k = Some sc \<and> sc \<le> 2000005000} = {''a''}" by (auto simp: ttl_a_facts(2))
  moreover have "thread_func ?c (fst ttl_a, snd ttl_a) = (fst (thread_func ?c ttl_a), snd (thread_func ?c ttl_a))" by simp
  ultimately show ?thesis
    using expire_all_due [of "fst ttl_a" "snd ttl_a" ?c 2000005000 "fst (thread_func ?c ttl_a)" "snd (thread_func ?c ttl_a)"
        "''a''" 2000005000] ttl_a_facts(2,3)
    by (simp del: thread_func.simps)
qed

end
