(* ===== verification/Server.thy ===== *)
theory Server
  imports Ttl SSDBImpl Link
begin

section \<open>The server and its string commands (\<open>serv.cpp\<close>, \<open>proc_kv.cpp\<close>, \<open>net/resp.cpp\<close>)\<close>

text \<open>
  A handler takes a request, the strings of a packet, and makes a response, the strings of the packet that goes
  back. Writing commands run in one thread, one after the other; each handler is a function of the state of
  the server. \<open>None\<close> is a handler that does not return or leaves defined behaviour.
\<close>

subsection \<open>Responses\<close>

text \<open>
  The two integer overloads of \<open>Response::add\<close> print into 20 bytes: a number of 20 characters, with its
  final zero byte, is written past the end.
\<close>

definition resp_add_int64 :: "int \<Rightarrow> bytes list \<Rightarrow> bytes list option" where
  "resp_add_int64 s resp = (let d = decimal_int s in if length d + 1 > 20 then None else Some (resp @ [d]))"

definition resp_add_uint64 :: "u64 \<Rightarrow> bytes list \<Rightarrow> bytes list option" where
  "resp_add_uint64 s resp = (let d = decimal (unat s) in if length d + 1 > 20 then None else Some (resp @ [d]))"

definition reply_status :: "int \<Rightarrow> bytes option \<Rightarrow> bytes list \<Rightarrow> bytes list" where
  "reply_status status errmsg resp =
     (if status = -1 then resp @ ''error'' # (case errmsg of None \<Rightarrow> [] | Some m \<Rightarrow> [m]) else resp @ [''ok''])"

definition reply_bool :: "int \<Rightarrow> bytes option \<Rightarrow> bytes list \<Rightarrow> bytes list" where
  "reply_bool status errmsg resp =
     (if status = -1 then resp @ ''error'' # (case errmsg of None \<Rightarrow> [] | Some m \<Rightarrow> [m])
      else if status = 0 then resp @ [''ok'', ''0'']
      else resp @ [''ok'', ''1''])"

definition reply_int :: "int \<Rightarrow> int \<Rightarrow> bytes list \<Rightarrow> bytes list option" where
  "reply_int status val resp =
     (if status = -1 then Some (resp @ [''error'']) else resp_add_int64 val (resp @ [''ok'']))"

definition reply_get :: "int \<Rightarrow> bytes option \<Rightarrow> bytes option \<Rightarrow> bytes list \<Rightarrow> bytes list" where
  "reply_get status val errmsg resp =
     (let msg = (case errmsg of None \<Rightarrow> [] | Some m \<Rightarrow> [m])
      in if status = -1 then resp @ ''error'' # msg
         else if status = 0 then resp @ ''not_found'' # msg
         else resp @ ''ok'' # (case val of None \<Rightarrow> [] | Some v \<Rightarrow> [v]))"

definition reply_list :: "int \<Rightarrow> bytes list \<Rightarrow> bytes list \<Rightarrow> bytes list" where
  "reply_list status list resp = (if status = -1 then resp @ [''error''] else resp @ ''ok'' # list)"

subsection \<open>The server\<close>

record server =
  sdb :: ssdb
  meta :: ssdb
  expiration :: expiration_handler
  kv_range_s :: bytes
  kv_range_e :: bytes
  slave_count :: nat
  sync_count :: nat

text \<open>What a handler sees beside the request: the flag of the link, the clock and \<open>errno\<close>.\<close>

record request_env =
  ignore_range :: bool
  clock :: int
  errno :: nat

type_synonym proc_result = "(server \<times> bytes list \<times> int) option"

definition answer :: "server \<Rightarrow> bytes list \<Rightarrow> proc_result" where
  "answer sv resp = Some (sv, resp, 0)"

definition answer_int :: "server \<Rightarrow> int \<Rightarrow> int \<Rightarrow> proc_result" where
  "answer_int sv status val = (case reply_int status val [] of None \<Rightarrow> None | Some resp \<Rightarrow> answer sv resp)"

definition SYNC :: char where "SYNC = binlog_type_char BT_SYNC"

definition set_kv_range :: "bytes \<Rightarrow> bytes \<Rightarrow> server \<Rightarrow> server \<times> int" where
  "set_kv_range start end sv =
     (let (m, ret) = hset ''key_range'' ''kv_s'' start SYNC (meta sv); sv = sv\<lparr>meta := m\<rparr>
      in if ret = -1 then (sv, -1)
         else let (m, ret) = hset ''key_range'' ''kv_e'' end SYNC (meta sv); sv = sv\<lparr>meta := m\<rparr>
              in if ret = -1 then (sv, -1) else (sv\<lparr>kv_range_s := start, kv_range_e := end\<rparr>, 0))"

definition get_kv_range :: "server \<Rightarrow> (bytes \<times> bytes) option" where
  "get_kv_range sv =
     (let s = hget ''key_range'' ''kv_s'' (meta sv); e = hget ''key_range'' ''kv_e'' (meta sv)
      in if get_ret s = -1 then None else if get_ret e = -1 then None else Some (get_val s, get_val e))"

definition in_kv_range :: "bytes \<Rightarrow> server \<Rightarrow> bool" where
  "in_kv_range key sv =
     (\<not> (length (kv_range_s sv) \<noteq> 0 \<and> Bytes_compare (kv_range_s sv) key \<ge> 0 \<or>
        length (kv_range_e sv) \<noteq> 0 \<and> Bytes_compare (kv_range_e sv) key < 0))"

definition check_num_params :: "nat \<Rightarrow> bytes list \<Rightarrow> server \<Rightarrow> proc_result \<Rightarrow> proc_result" where
  "check_num_params n req sv k =
     (if length req < n then answer sv [''client_error'', ''wrong number of arguments''] else k)"

definition check_kv_key_range :: "request_env \<Rightarrow> nat \<Rightarrow> bytes list \<Rightarrow> server \<Rightarrow> proc_result \<Rightarrow> proc_result" where
  "check_kv_key_range e n req sv k =
     (if \<not> ignore_range e \<and> length req > n \<and> \<not> in_kv_range (req ! n) sv then answer sv [''out_of_range''] else k)"

definition proc_clear_binlog :: "request_env \<Rightarrow> bytes list \<Rightarrow> server \<Rightarrow> proc_result" where
  "proc_clear_binlog e req sv =
     (case bl_flush (sdb sv) of None \<Rightarrow> None | Some s \<Rightarrow> answer (sv\<lparr>sdb := s\<rparr>) [''ok''])"

definition proc_flushdb :: "request_env \<Rightarrow> bytes list \<Rightarrow> server \<Rightarrow> proc_result" where
  "proc_flushdb e req sv =
     (if slave_count sv > 0 \<or> sync_count sv > 0
      then answer sv [''error'', ''flushdb is not allowed when replication is in use!'']
      else case flushdb (sdb sv) of None \<Rightarrow> None | Some (s, ret) \<Rightarrow> answer (sv\<lparr>sdb := s\<rparr>) [''ok''])"

definition proc_get_key_range :: "request_env \<Rightarrow> bytes list \<Rightarrow> server \<Rightarrow> proc_result" where
  "proc_get_key_range e req sv =
     (case get_kv_range sv of None \<Rightarrow> answer sv [''error''] | Some (s, e) \<Rightarrow> answer sv [''ok'', s, e])"

definition proc_get_kv_range :: "request_env \<Rightarrow> bytes list \<Rightarrow> server \<Rightarrow> proc_result" where
  "proc_get_kv_range e req sv =
     (case get_kv_range sv of None \<Rightarrow> answer sv [''error''] | Some (s, e) \<Rightarrow> answer sv [''ok'', s, e])"

definition proc_set_kv_range :: "request_env \<Rightarrow> bytes list \<Rightarrow> server \<Rightarrow> proc_result" where
  "proc_set_kv_range e req sv =
     (if length req \<noteq> 3 then answer sv [''client_error'']
      else answer (fst (set_kv_range (req ! 1) (req ! 2) sv)) [''ok''])"

subsection \<open>String commands\<close>

definition proc_get :: "request_env \<Rightarrow> bytes list \<Rightarrow> server \<Rightarrow> proc_result" where
  "proc_get e req sv =
     check_num_params 2 req sv (check_kv_key_range e 1 req sv (
       let g = ssdb_get (req ! 1) (sdb sv)
       in answer sv (reply_get (get_ret g) (Some (get_val g)) None [])))"

definition proc_getset :: "request_env \<Rightarrow> bytes list \<Rightarrow> server \<Rightarrow> proc_result" where
  "proc_getset e req sv =
     check_num_params 3 req sv (check_kv_key_range e 1 req sv (
       let (s, ret, g) = getset (req ! 1) (req ! 2) SYNC (sdb sv)
       in answer (sv\<lparr>sdb := s\<rparr>) (reply_get ret (Some (get_val g)) None [])))"

definition proc_set :: "request_env \<Rightarrow> bytes list \<Rightarrow> server \<Rightarrow> proc_result" where
  "proc_set e req sv =
     check_num_params 3 req sv (check_kv_key_range e 1 req sv (
       let (s, ret) = ssdb_set (req ! 1) (req ! 2) SYNC (sdb sv)
       in answer (sv\<lparr>sdb := s\<rparr>) (if ret = -1 then [''error''] else [''ok'', ''1''])))"

definition proc_setnx :: "request_env \<Rightarrow> bytes list \<Rightarrow> server \<Rightarrow> proc_result" where
  "proc_setnx e req sv =
     check_num_params 3 req sv (check_kv_key_range e 1 req sv (
       let (s, ret) = setnx (req ! 1) (req ! 2) SYNC (sdb sv)
       in answer (sv\<lparr>sdb := s\<rparr>) (reply_bool ret None [])))"

text \<open>Commands that change both the database and the schedule hold the mutex of the expiration handler.\<close>

definition proc_setx :: "request_env \<Rightarrow> bytes list \<Rightarrow> server \<Rightarrow> proc_result" where
  "proc_setx e req sv =
     check_num_params 4 req sv (check_kv_key_range e 1 req sv (
       let (s, ret) = ssdb_set (req ! 1) (req ! 2) SYNC (sdb sv); sv = sv\<lparr>sdb := s\<rparr>
       in if ret = -1 then answer sv [''error'']
          else let ((h, s), ret) = set_ttl (clock e) (req ! 1) (Bytes_Int (req ! 3)) (expiration sv, sdb sv);
                   sv = sv\<lparr>expiration := h, sdb := s\<rparr>
               in answer sv (if ret = -1 then [''error''] else [''ok'', ''1''])))"

definition proc_ttl :: "request_env \<Rightarrow> bytes list \<Rightarrow> server \<Rightarrow> proc_result" where
  "proc_ttl e req sv =
     check_num_params 2 req sv (check_kv_key_range e 1 req sv (
       answer sv [''ok'', str_int64 (get_ttl (clock e) (req ! 1) (expiration sv, sdb sv))]))"

definition proc_expire :: "request_env \<Rightarrow> bytes list \<Rightarrow> server \<Rightarrow> proc_result" where
  "proc_expire e req sv =
     check_num_params 3 req sv (check_kv_key_range e 1 req sv (
       if get_ret (ssdb_get (req ! 1) (sdb sv)) = 1
       then let ((h, s), ret) = set_ttl (clock e) (req ! 1) (Bytes_Int (req ! 2)) (expiration sv, sdb sv);
                sv = sv\<lparr>expiration := h, sdb := s\<rparr>
            in answer sv (if ret \<noteq> -1 then [''ok'', ''1''] else [''error''])
       else answer sv [''ok'', ''0'']))"

definition proc_exists :: "request_env \<Rightarrow> bytes list \<Rightarrow> server \<Rightarrow> proc_result" where
  "proc_exists e req sv =
     check_num_params 2 req sv (check_kv_key_range e 1 req sv (
       answer sv (reply_bool (get_ret (ssdb_get (req ! 1) (sdb sv))) None [])))"

definition proc_multi_exists :: "request_env \<Rightarrow> bytes list \<Rightarrow> server \<Rightarrow> proc_result" where
  "proc_multi_exists e req sv =
     check_num_params 2 req sv (
       answer sv (''ok'' # concat (map (\<lambda>key. [key, if get_ret (ssdb_get key (sdb sv)) = 1 then ''1'' else ''0'']) (drop 1 req))))"

definition proc_multi_set :: "request_env \<Rightarrow> bytes list \<Rightarrow> server \<Rightarrow> proc_result" where
  "proc_multi_set e req sv =
     (if length req < 3 \<or> length req mod 2 \<noteq> 1 then answer sv [''client_error'']
      else case multi_set req 1 SYNC (sdb sv) of
             None \<Rightarrow> None
           | Some (s, ret) \<Rightarrow> answer_int (sv\<lparr>sdb := s\<rparr>) 0 ret)"

definition proc_multi_del :: "request_env \<Rightarrow> bytes list \<Rightarrow> server \<Rightarrow> proc_result" where
  "proc_multi_del e req sv =
     check_num_params 2 req sv (
       case multi_del req 1 SYNC (sdb sv) of
         None \<Rightarrow> None
       | Some (s, ret) \<Rightarrow>
           if ret = -1 then answer (sv\<lparr>sdb := s\<rparr>) [''error'']
           else let (h, s) = fold (\<lambda>key hs. fst (del_ttl key hs)) (drop 1 req) (expiration sv, s)
                in answer_int (sv\<lparr>expiration := h, sdb := s\<rparr>) 0 ret)"

definition proc_multi_get :: "request_env \<Rightarrow> bytes list \<Rightarrow> server \<Rightarrow> proc_result" where
  "proc_multi_get e req sv =
     check_num_params 2 req sv (
       answer sv (''ok'' # concat (map (\<lambda>key. case ssdb_get key (sdb sv) of Found val \<Rightarrow> [key, val] | _ \<Rightarrow> []) (drop 1 req))))"

definition proc_del :: "request_env \<Rightarrow> bytes list \<Rightarrow> server \<Rightarrow> proc_result" where
  "proc_del e req sv =
     check_num_params 2 req sv (check_kv_key_range e 1 req sv (
       let (s, ret) = ssdb_del (req ! 1) SYNC (sdb sv)
       in if ret = -1 then answer (sv\<lparr>sdb := s\<rparr>) [''error'']
          else let ((h, s), ret) = del_ttl (req ! 1) (expiration sv, s)
               in answer (sv\<lparr>expiration := h, sdb := s\<rparr>) [''ok'', ''1'']))"

text \<open>The loops \<open>while(it->next())\<close>: what the handler pushes for each entry.\<close>

lemma KIterator_next_limit:
  "KIterator_next k = (k', True) \<Longrightarrow> unat (it_limit (k_it k')) < unat (it_limit (k_it k))"
proof (induction k arbitrary: k' rule: KIterator_next.induct)
  case (1 k)
  obtain it b where it: "Iterator_next (k_it k) = (it, b)" by fastforce
  show ?case
  proof (cases b)
    case True
    then have it': "Iterator_next (k_it k) = (it, True)" using it by simp
    note lt = Iterator_next_limit [OF this]
    show ?thesis
    proof (cases "decode_kv_key (Iterator_key it)")
      case None
      with "1.prems" it' lt "1.IH" [OF it' [symmetric] _ refl refl refl _ None, of k'] show ?thesis
        by (auto simp: KIterator_next.simps [of k] Let_def split: if_splits)
    next
      case (Some key)
      with "1.prems" it' lt show ?thesis by (auto simp: KIterator_next.simps [of k] Let_def split: if_splits)
    qed
  qed (use "1.prems" it in \<open>simp add: KIterator_next.simps [of k]\<close>)
qed

function k_loop :: "(k_iterator \<Rightarrow> bytes list) \<Rightarrow> k_iterator \<Rightarrow> bytes list" where
  "k_loop push it = (case KIterator_next it of (it', False) \<Rightarrow> [] | (it', True) \<Rightarrow> push it' @ k_loop push it')"
  by pat_completeness auto
termination
  by (relation "measure (\<lambda>(push, it). unat (it_limit (k_it it)))") (auto dest: KIterator_next_limit [OF sym])

declare k_loop.simps [simp del]

definition proc_scan :: "request_env \<Rightarrow> bytes list \<Rightarrow> server \<Rightarrow> proc_result" where
  "proc_scan e req sv =
     check_num_params 4 req sv (
       let limit = Bytes_Uint64 (req ! 3); it = ssdb_scan (req ! 1) (req ! 2) limit (sdb sv)
       in answer sv (''ok'' # k_loop (\<lambda>it. [k_key it, k_val it]) it))"

definition proc_rscan :: "request_env \<Rightarrow> bytes list \<Rightarrow> server \<Rightarrow> proc_result" where
  "proc_rscan e req sv =
     check_num_params 4 req sv (
       let limit = Bytes_Uint64 (req ! 3); it = ssdb_rscan (req ! 1) (req ! 2) limit (sdb sv)
       in answer sv (''ok'' # k_loop (\<lambda>it. [k_key it, k_val it]) it))"

definition proc_keys :: "request_env \<Rightarrow> bytes list \<Rightarrow> server \<Rightarrow> proc_result" where
  "proc_keys e req sv =
     check_num_params 4 req sv (
       let limit = Bytes_Uint64 (req ! 3);
           it = KIterator_return_val False (ssdb_scan (req ! 1) (req ! 2) limit (sdb sv))
       in answer sv (''ok'' # k_loop (\<lambda>it. [k_key it]) it))"

definition proc_rkeys :: "request_env \<Rightarrow> bytes list \<Rightarrow> server \<Rightarrow> proc_result" where
  "proc_rkeys e req sv =
     check_num_params 4 req sv (
       let limit = Bytes_Uint64 (req ! 3);
           it = KIterator_return_val False (ssdb_rscan (req ! 1) (req ! 2) limit (sdb sv))
       in answer sv (''ok'' # k_loop (\<lambda>it. [k_key it]) it))"

text \<open>The answer of the four commands that add: \<open>new_val\<close> is not set when the read fails, but then not used.\<close>

definition incr_answer :: "server \<Rightarrow> int \<Rightarrow> int option \<Rightarrow> proc_result" where
  "incr_answer sv ret new_val =
     (if ret = 0 then answer sv (reply_status (-1) (Some ''value is not an integer or out of range'') [])
      else answer_int sv ret (case new_val of None \<Rightarrow> 0 | Some v \<Rightarrow> v))"

definition proc_incr_dir :: "int \<Rightarrow> request_env \<Rightarrow> bytes list \<Rightarrow> server \<Rightarrow> proc_result" where
  "proc_incr_dir dir e req sv =
     check_num_params 2 req sv (
       let by = (if length req > 2 then Bytes_Int64 (req ! 2) else 1);
           (s, ret, new_val) = ssdb_incr (errno e) (req ! 1) (wrap64 (dir * by)) SYNC (sdb sv)
       in incr_answer (sv\<lparr>sdb := s\<rparr>) ret new_val)"

definition proc_incr :: "request_env \<Rightarrow> bytes list \<Rightarrow> server \<Rightarrow> proc_result" where
  "proc_incr e req sv = check_kv_key_range e 1 req sv (proc_incr_dir 1 e req sv)"

definition proc_decr :: "request_env \<Rightarrow> bytes list \<Rightarrow> server \<Rightarrow> proc_result" where
  "proc_decr e req sv = check_kv_key_range e 1 req sv (proc_incr_dir (-1) e req sv)"

definition proc_getbit :: "request_env \<Rightarrow> bytes list \<Rightarrow> server \<Rightarrow> proc_result" where
  "proc_getbit e req sv =
     check_num_params 3 req sv (check_kv_key_range e 1 req sv (
       case getbit (req ! 1) (Bytes_Int (req ! 2)) (sdb sv) of
         None \<Rightarrow> None
       | Some ret \<Rightarrow> answer sv (reply_bool ret None [])))"

definition proc_setbit :: "request_env \<Rightarrow> bytes list \<Rightarrow> server \<Rightarrow> proc_result" where
  "proc_setbit e req sv =
     check_num_params 4 req sv (check_kv_key_range e 1 req sv (
       let offset = Bytes_Int (req ! 2); bit = req ! 3
       in if length bit = 0 \<or> hd bit \<noteq> CHR ''0'' \<and> hd bit \<noteq> CHR ''1''
          then answer sv [''client_error'', ''bit is not an integer or out of range'']
          else if offset < 0 \<or> offset > MAX_PACKET_SIZE * 8
          then answer sv [''client_error'', ''offset is out of range [0, '' @ str_int (MAX_PACKET_SIZE * 8) @ '']'']
          else case setbit (req ! 1) offset (Bytes_Int bit) SYNC (sdb sv) of
                 None \<Rightarrow> None
               | Some (s, ret) \<Rightarrow> answer (sv\<lparr>sdb := s\<rparr>) (reply_bool ret None [])))"

definition proc_countbit :: "request_env \<Rightarrow> bytes list \<Rightarrow> server \<Rightarrow> proc_result" where
  "proc_countbit e req sv =
     check_num_params 2 req sv (check_kv_key_range e 1 req sv (
       let start = (if length req > 2 then Bytes_Int (req ! 2) else 0);
           g = ssdb_get (req ! 1) (sdb sv); val = get_val g
       in if get_ret g = -1 then answer sv [''error'']
          else let str = (if length req > 3 then substr val start (Bytes_Int (req ! 3))
                          else substr val start (wrap32 (int (length val))))
               in answer_int sv 0 (int (bitcount str))))"

definition proc_bitcount :: "request_env \<Rightarrow> bytes list \<Rightarrow> server \<Rightarrow> proc_result" where
  "proc_bitcount e req sv =
     check_num_params 2 req sv (check_kv_key_range e 1 req sv (
       let start = (if length req > 2 then Bytes_Int (req ! 2) else 0);
           end = (if length req > 3 then Bytes_Int (req ! 3) else -1);
           g = ssdb_get (req ! 1) (sdb sv)
       in if get_ret g = -1 then answer sv [''error'']
          else answer_int sv 0 (int (bitcount (str_slice (get_val g) start end)))))"

definition proc_substr :: "request_env \<Rightarrow> bytes list \<Rightarrow> server \<Rightarrow> proc_result" where
  "proc_substr e req sv =
     check_num_params 2 req sv (check_kv_key_range e 1 req sv (
       let start = (if length req > 2 then Bytes_Int (req ! 2) else 0);
           sz = (if length req > 3 then Bytes_Int (req ! 3) else 2000000000);
           g = ssdb_get (req ! 1) (sdb sv)
       in if get_ret g = -1 then answer sv [''error'']
          else answer sv [''ok'', substr (get_val g) start sz]))"

definition proc_getrange :: "request_env \<Rightarrow> bytes list \<Rightarrow> server \<Rightarrow> proc_result" where
  "proc_getrange e req sv =
     check_num_params 2 req sv (check_kv_key_range e 1 req sv (
       let start = (if length req > 2 then Bytes_Int (req ! 2) else 0);
           sz = (if length req > 3 then Bytes_Int (req ! 3) else -1);
           g = ssdb_get (req ! 1) (sdb sv)
       in if get_ret g = -1 then answer sv [''error'']
          else answer sv [''ok'', str_slice (get_val g) start sz]))"

definition proc_strlen :: "request_env \<Rightarrow> bytes list \<Rightarrow> server \<Rightarrow> proc_result" where
  "proc_strlen e req sv =
     check_num_params 2 req sv (check_kv_key_range e 1 req sv (
       let g = ssdb_get (req ! 1) (sdb sv) in answer_int sv (get_ret g) (int (length (get_val g)))))"

lemmas server_defs = check_num_params_def check_kv_key_range_def answer_def

subsection \<open>Properties\<close>

text \<open>The handlers of commands on a single key, with the least length of their requests.\<close>

definition single_key_procs :: "((request_env \<Rightarrow> bytes list \<Rightarrow> server \<Rightarrow> proc_result) \<times> nat) list" where
  "single_key_procs =
     [(proc_get, 2), (proc_getset, 3), (proc_set, 3), (proc_setnx, 3), (proc_setx, 4), (proc_ttl, 2), (proc_expire, 3),
      (proc_exists, 2), (proc_del, 2), (proc_incr, 2), (proc_decr, 2), (proc_getbit, 3), (proc_setbit, 4), (proc_countbit, 2),
      (proc_bitcount, 2), (proc_substr, 2), (proc_getrange, 2), (proc_strlen, 2)]"

text \<open>C15. A server that is responsible for a range of keys refuses the commands on a single string outside of it, for a key at
  or below the start or above the end of the range: each of the eighteen handlers, at any number of arguments, leaves the
  server as it was and answers \<open>out_of_range\<close>, or that arguments are missing, unless the link asked to ignore the range.\<close>

theorem out_of_range_refused:
  assumes "\<not> ignore_range e" and "kv_range_s sv \<noteq> [] \<and> key \<le> kv_range_s sv \<or> kv_range_e sv \<noteq> [] \<and> kv_range_e sv < key"
    and "(p, n) \<in> set single_key_procs"
  shows "\<exists>resp. p e (c # key # args) sv = Some (sv, resp, 0) \<and> (n \<le> length (c # key # args) \<longrightarrow> resp = [''out_of_range'']) \<and>
    (length (c # key # args) < n \<longrightarrow> hd resp = ''client_error'')"
proof -
  have "\<not> in_kv_range key sv" using assms(2) Bytes_compare_sign [of "kv_range_s sv" key] Bytes_compare_sign [of "kv_range_e sv" key]
    by (auto simp: in_kv_range_def not_less)
  then show ?thesis using assms(1,3)
    by (auto simp: single_key_procs_def proc_get_def proc_getset_def proc_set_def proc_setnx_def proc_setx_def proc_ttl_def proc_expire_def
        proc_exists_def proc_del_def proc_incr_def proc_decr_def proc_getbit_def proc_setbit_def proc_countbit_def
        proc_bitcount_def proc_substr_def proc_getrange_def proc_strlen_def server_defs)
qed

definition ranged_server :: server where
  "ranged_server = \<lparr>sdb = fresh_db, meta = fresh_db, expiration = ExpirationHandler_new, kv_range_s = [], kv_range_e = ''m'', slave_count = 0, sync_count = 0\<rparr>"

theorem out_of_range_refused_witness:
  "proc_set \<lparr>ignore_range = False, clock = 0, errno = 0\<rparr> [''set'', ''z'', ''v''] ranged_server = Some (ranged_server, [''out_of_range''], 0)"
  using out_of_range_refused [of "\<lparr>ignore_range = False, clock = 0, errno = 0\<rparr>" ranged_server "''z''" proc_set 3 "''set''" "[''v'']"]
  by (simp add: ranged_server_def single_key_procs_def less_char_def)

definition in_range :: "request_env \<Rightarrow> bytes \<Rightarrow> server \<Rightarrow> bool" where
  "in_range e key sv \<longleftrightarrow> ignore_range e \<or> in_kv_range key sv"

definition sv_inv :: "server \<Rightarrow> bool" where
  "sv_inv sv \<longleftrightarrow> ttl_inv (expiration sv, sdb sv)"

text \<open>The state after rounds of the expiration thread.\<close>

definition sv_thread :: "(int \<times> int) list \<Rightarrow> server \<Rightarrow> server" where
  "sv_thread rounds sv = (let (h, s) = thread_func rounds (expiration sv, sdb sv) in sv\<lparr>expiration := h, sdb := s\<rparr>)"

lemma proc_set_correct:
  assumes "sv_inv sv" and "in_range e key sv" and "key \<noteq> []"
  shows "\<exists>s'. proc_set e [c, key, val] sv = Some (sv\<lparr>sdb := s'\<rparr>, [''ok'', ''1''], 0) \<and> sv_inv (sv\<lparr>sdb := s'\<rparr>) \<and>
    kv_view s' = (kv_view (sdb sv))(key \<mapsto> val) \<and> schedule s' = schedule (sdb sv) \<and> s' = fst (ssdb_set key val SYNC (sdb sv))"
proof -
  note i = ttl_invD [OF assms(1) [unfolded sv_inv_def]]
  let ?s = "fst (ssdb_set key val SYNC (sdb sv))"
  have d: "data_map ?s = (data_map (sdb sv))(encode_kv_key key \<mapsto> val)" "snd (ssdb_set key val SYNC (sdb sv)) = 1"
    using ssdb_set_data [OF _ _ assms(3)] i(9) by (auto simp: io_ok_def)
  have io: "io_ok ?s" by (rule io_ok_run [OF i(9) kv_ops_run(1)])
  note g = kv_update_good [OF i(1) io d(1)]
  have "sv_inv (sv\<lparr>sdb := ?s\<rparr>)" using ttl_inv_frame [OF assms(1) [unfolded sv_inv_def] g] by (simp add: sv_inv_def)
  moreover have "kv_view ?s = (kv_view (sdb sv))(key \<mapsto> val)" by (auto simp: kv_view_def d(1) fun_eq_iff)
  moreover have "proc_set e [c, key, val] sv = Some (sv\<lparr>sdb := ?s\<rparr>, [''ok'', ''1''], 0)"
    using assms(2) d(2) by (auto simp: proc_set_def server_defs in_range_def case_prod_unfold)
  ultimately show ?thesis using g(2) by blast
qed

lemma ssdb_get_status: "io_ok s \<Longrightarrow> get_ret (ssdb_get k s) = (if kv_view s k = None then 0 else 1)"
  by (simp add: ssdb_get_io split: option.split)

lemma proc_get_view:
  assumes "io_ok (sdb sv)" and "in_range e key sv"
  shows "proc_get e [c, key] sv = Some (sv, case kv_view (sdb sv) key of None \<Rightarrow> [''not_found''] | Some v \<Rightarrow> [''ok'', v], 0)"
  using assms by (auto simp: proc_get_def server_defs in_range_def reply_get_def ssdb_get_io Let_def split: option.split)

lemma proc_setx_correct:
  assumes "sv_inv sv" and "in_range e key sv" and "hname_ok key" and "Bytes_Int t = ttl" and "ttl_ok (clock e) ttl"
    and "size_fits (Suc (nat (zsize EXPIRATION_LIST_KEY (sdb sv))))"
  shows "\<exists>h s. proc_setx e [c, key, val, t] sv = Some (sv\<lparr>expiration := h, sdb := s\<rparr>, [''ok'', ''1''], 0) \<and> ttl_inv (h, s) \<and>
    kv_view s = (kv_view (sdb sv))(key \<mapsto> val) \<and> schedule s = (schedule (sdb sv))(key \<mapsto> clock e + ttl * 1000) \<and>
    thread_quit h = thread_quit (expiration sv)"
proof -
  have ne: "key \<noteq> []" using assms(3) by (simp add: hname_ok_def)
  let ?s = "fst (ssdb_set key val SYNC (sdb sv))"
  from proc_set_correct [OF assms(1,2) ne, of c val] have
    st: "sv_inv (sv\<lparr>sdb := ?s\<rparr>)" "kv_view ?s = (kv_view (sdb sv))(key \<mapsto> val)" "schedule ?s = schedule (sdb sv)" by auto
  have ret: "snd (ssdb_set key val SYNC (sdb sv)) = 1"
    using ssdb_set_data(2) [OF _ _ ne] ttl_invD(9) [OF assms(1) [unfolded sv_inv_def]] by (simp add: io_ok_def)
  have inv: "ttl_inv (expiration sv, ?s)" using st(1) by (simp add: sv_inv_def)
  have sz: "size_fits (Suc (nat (zsize EXPIRATION_LIST_KEY ?s)))"
  proof -
    have "dom (zcoll.view (data_map ?s) EXPIRATION_LIST_KEY) = dom (zcoll.view (data_map (sdb sv)) EXPIRATION_LIST_KEY)"
      using fun_cong [OF st(3)] by (auto simp: schedule_def dom_def) (metis map_option_is_None not_None_eq)+
    then have "zsize EXPIRATION_LIST_KEY ?s = zsize EXPIRATION_LIST_KEY (sdb sv)"
      using zsize_good [OF ttl_invD(1) [OF inv]] zsize_good [OF ttl_invD(1) [OF assms(1) [unfolded sv_inv_def]]] by simp
    then show ?thesis using assms(6) by simp
  qed
  obtain h s r where e: "set_ttl (clock e) key ttl (expiration sv, ?s) = ((h, s), r)" by (metis prod.exhaust)
  note t = set_ttl_correct [OF inv assms(3,5) sz e]
  have "proc_setx e [c, key, val, t] sv = Some (sv\<lparr>expiration := h, sdb := s\<rparr>, [''ok'', ''1''], 0)"
    using assms(2,4) ret e t(1) by (auto simp: proc_setx_def server_defs in_range_def case_prod_unfold)
  moreover have "kv_view s = kv_view ?s"
    using t(4) ttl_invD(9) [OF inv] by (auto simp: leaves_def kv_view_def io_ok_def z_types_def fun_eq_iff)
  ultimately show ?thesis using t(2,3,5) st by auto
qed

text \<open>C11. \<open>setx\<close> stores a value for a time: it answers \<open>ok\<close>; as long as the clock of the expiration thread is before that
  time, \<open>get\<close> returns the value, whatever else the thread does; when the clock is past it, and the thread has made as
  many rounds as keys are due, \<open>get\<close> answers \<open>not_found\<close>.\<close>

theorem setx_keeps_and_expires:
  assumes "sv_inv sv" and "in_range e key sv" and "hname_ok key" and "Bytes_Int t = ttl" and "ttl_ok (clock e) ttl"
    and "size_fits (Suc (nat (zsize EXPIRATION_LIST_KEY (sdb sv))))" and "\<not> thread_quit (expiration sv)"
  shows "\<exists>sv'. proc_setx e [c, key, val, t] sv = Some (sv', [''ok'', ''1''], 0) \<and>
    (\<forall>rounds. (\<forall>(x, y) \<in> set rounds. y < clock e + ttl * 1000) \<longrightarrow>
       proc_get e [c', key] (sv_thread rounds sv') = Some (sv_thread rounds sv', [''ok'', val], 0)) \<and>
    (\<forall>rounds. (\<forall>(x, y) \<in> set rounds. clock e + ttl * 1000 \<le> x \<and> clock e + ttl * 1000 \<le> y) \<longrightarrow>
       card {k. \<exists>sc. schedule (sdb sv') k = Some sc \<and> sc \<le> clock e + ttl * 1000} \<le> length rounds \<longrightarrow>
       proc_get e [c', key] (sv_thread rounds sv') = Some (sv_thread rounds sv', [''not_found''], 0))"
proof -
  obtain h s where x: "proc_setx e [c, key, val, t] sv = Some (sv\<lparr>expiration := h, sdb := s\<rparr>, [''ok'', ''1''], 0)" "ttl_inv (h, s)"
      "kv_view s = (kv_view (sdb sv))(key \<mapsto> val)" "schedule s = (schedule (sdb sv))(key \<mapsto> clock e + ttl * 1000)" "\<not> thread_quit h"
    using proc_setx_correct [OF assms(1-6), of c val] assms(7) by blast
  let ?sv = "sv\<lparr>expiration := h, sdb := s\<rparr>" and ?D = "clock e + ttl * 1000"
  have run: "sv_thread rounds ?sv = ?sv\<lparr>expiration := fst (thread_func rounds (h, s)), sdb := snd (thread_func rounds (h, s))\<rparr>" for rounds
    by (simp add: sv_thread_def case_prod_unfold Let_def)
  have rng: "in_range e key (sv_thread rounds ?sv)" for rounds using assms(2) by (simp add: run in_range_def in_kv_range_def)
  have th: "ttl_inv (thread_func rounds (h, s))" "expires (snd ` set rounds) s (snd (thread_func rounds (h, s)))" for rounds
    using thread_func_expires [OF x(2), of rounds] by simp_all
  have io: "io_ok (snd (thread_func rounds (h, s)))" for rounds
    using ttl_invD(9) [of "fst (thread_func rounds (h, s))" "snd (thread_func rounds (h, s))"] th(1) by simp
  have get: "proc_get e [c', key] (sv_thread rounds ?sv) = Some (sv_thread rounds ?sv,
      case kv_view (snd (thread_func rounds (h, s))) key of None \<Rightarrow> [''not_found''] | Some v \<Rightarrow> [''ok'', v], 0)" for rounds
    using proc_get_view [OF _ rng [of rounds], of c'] io [of rounds] by (simp add: run)
  have "kv_view (snd (thread_func rounds (h, s))) key = Some val" if "\<forall>(a, y) \<in> set rounds. y < ?D" for rounds
    using th(2) [of rounds] that x(3,4) unfolding expires_def by (force dest: spec [of _ key])
  moreover have "kv_view (snd (thread_func rounds (h, s))) key = None"
    if r: "\<forall>(a, y) \<in> set rounds. ?D \<le> a \<and> ?D \<le> y" "card {k. \<exists>sc. schedule s k = Some sc \<and> sc \<le> ?D} \<le> length rounds" for rounds
  proof -
    have "due_keys ?D (snd (thread_func rounds (h, s))) = {}"
      using thread_func_due [OF x(2), of rounds ?D] x(5) r by (auto simp: due_keys_def)
    then have "schedule (snd (thread_func rounds (h, s))) key \<noteq> schedule s key" using x(4) by (auto simp: due_keys_def)
    with th(2) [of rounds] show ?thesis unfolding expires_def by (metis option.distinct(1))
  qed
  ultimately show ?thesis using x(1) get by (intro exI [of _ ?sv]) simp
qed

text \<open>A server on an empty database, and the environment of a request made when the clock shows 2000000000.\<close>

definition fresh_server :: server where
  "fresh_server = \<lparr>sdb = fresh_db, meta = fresh_db, expiration = ExpirationHandler_new, kv_range_s = [], kv_range_e = [],
     slave_count = 0, sync_count = 0\<rparr>"

definition env_2000 :: request_env where
  "env_2000 = \<lparr>ignore_range = False, clock = 2000000000, errno = 0\<rparr>"

lemma fresh_server_facts:
  "sv_inv fresh_server" "in_range env_2000 k fresh_server" "size_fits (Suc (nat (zsize EXPIRATION_LIST_KEY (sdb fresh_server))))"
  "\<not> thread_quit (expiration fresh_server)" "clock env_2000 = 2000000000"
  using new_ttl_inv by (simp_all add: sv_inv_def fresh_server_def in_range_def in_kv_range_def fresh_zsize [OF list_key_ok] size_fits_def
      ExpirationHandler_new_def env_2000_def)

theorem setx_keeps_and_expires_witness:
  "\<exists>sv'. proc_setx env_2000 [''setx'', ''a'', ''v'', ''5''] fresh_server = Some (sv', [''ok'', ''1''], 0) \<and>
     proc_get env_2000 [''get'', ''a''] (sv_thread [(2000004000, 2000004999)] sv') =
       Some (sv_thread [(2000004000, 2000004999)] sv', [''ok'', ''v''], 0)"
proof -
  have "Bytes_Int ''5'' = 5" by code_simp
  moreover have "ttl_ok (clock env_2000) 5" by (simp add: ttl_ok_def INT64_MAX_def fresh_server_facts)
  ultimately show ?thesis
    using setx_keeps_and_expires [OF fresh_server_facts(1,2) a_ok _ _ fresh_server_facts(3,4), of "''5''" 5 "''setx''" "''v''" "''get''"]
    by (fastforce simp: fresh_server_facts(5))
qed

subsection \<open>Emptying the database\<close>

lemma bl_del_range_wr:
  assumes "bl_del_range a hi db = Some y"
  shows "wr_fail (fst y) = wr_fail db"
  by (rule bl_del_range.raw_induct [where P = "\<lambda>_ _ db y. wr_fail (fst y) = wr_fail db", OF _ assms])
     (fastforce simp: ldb_Write_def Let_def split: if_splits prod.splits)

lemma flushdb_io:
  assumes "io_ok s" and "last_seq (binlogs s) < UINT64_MAX" and "min_seq (binlogs s) \<le> last_seq (binlogs s) + 1"
  shows "\<exists>s'. flushdb s = Some (s', 0) \<and> io_ok s' \<and> data_map s' = Map.empty"
proof -
  have w: "\<not> wr_fail (ldb s)" using assms(1) by (simp add: io_ok_def)
  obtain s' where s': "flushdb s = Some (s', 0)" "entries (ldb s') = []" using flushdb_correct [OF w assms(2,3)] by blast
  have l: "flush_loop (bl_begin s) = Some ((bl_begin s)\<lparr>ldb := (ldb s)\<lparr>entries := []\<rparr>\<rparr>, 0)"
    using flush_loop_correct [of "bl_begin s"] w by (simp add: store_simps)
  obtain db r where d: "bl_del_range (min_seq (binlogs s)) (last_seq (binlogs s)) ((ldb s)\<lparr>entries := []\<rparr>) = Some (db, r)" "ldb s' = db"
    using s'(1) l by (auto simp: flushdb_def bl_flush_def bl_begin_def bl_rollback_def split: option.splits)
  from bl_del_range_rd [OF d(1)] bl_del_range_wr [OF d(1)] have "io_ok s'" using assms(1) s'(2) by (simp add: io_ok_def d(2))
  moreover have "data_map s' = Map.empty" using s'(2) by (simp add: data_map_def db_map_def fun_eq_iff)
  ultimately show ?thesis using s'(1) by blast
qed

text \<open>What the thread does when the first of its queue is due, whatever the database says.\<close>

lemma expire_front_deletes:
  assumes "io_ok s" and "SortedSet_front (fast_keys h) = Some (key, due)" and "due \<le> now"
  shows "io_ok (snd (expire_front now (h, s)))" and "kv_view (snd (expire_front now (h, s))) key = None"
proof -
  let ?t = "fst (ssdb_del key (binlog_type_char BT_SYNC) s)"
  let ?u = "fst (zdel EXPIRATION_LIST_KEY key (binlog_type_char BT_SYNC) ?t)"
  have u: "snd (expire_front now (h, s)) = ?u" using assms(2,3) by (simp add: expire_front_def Let_def)
  have io: "io_ok ?t" by (rule io_ok_run [OF assms(1) kv_ops_run(4)])
  then show "io_ok (snd (expire_front now (h, s)))" unfolding u by (rule io_ok_run [OF _ zdel_run])
  have "data_map ?t (encode_kv_key key) = None" using ssdb_del_data(1) assms(1) by (simp add: io_ok_def)
  moreover have "data_map ?u (encode_kv_key key) = data_map ?t (encode_kv_key key)"
    using zdel_leaves [of ?t EXPIRATION_LIST_KEY key] io by (auto simp: leaves_def io_ok_def z_types_def)
  ultimately show "kv_view (snd (expire_front now (h, s))) key = None" unfolding u by (simp add: kv_view_def)
qed

lemma sv_thread_front:
  assumes "sset_inv (fast_keys (expiration sv))" and "card (dom (sset_map (fast_keys (expiration sv)))) \<le> BATCH_SIZE"
    and "\<not> ssdb_null (expiration sv)" and "\<not> thread_quit (expiration sv)" and "first_timeout (expiration sv) \<le> t"
    and "SortedSet_front (fast_keys (expiration sv)) = Some (key, due)"
  shows "sv_thread [(t, now)] sv = (let (h, s) = expire_front now (expiration sv, sdb sv) in sv\<lparr>expiration := h, sdb := s\<rparr>)"
proof -
  have "\<not> SortedSet_empty (fast_keys (expiration sv))"
    using SortedSet_empty_iff [OF assms(1) fast_keys_length [OF assms(1)]] assms(2,6) sq.front_None [OF assms(1)] by fastforce
  then show ?thesis using assms(3-5) by (simp add: sv_thread_def expire_loop_def)
qed

lemma empty_schedule:
  assumes "io_ok s" and "\<And>x. key_type x \<in> z_types \<Longrightarrow> data_map s x = None"
  shows "zset_good s EXPIRATION_LIST_KEY" and "schedule s = Map.empty"
proof -
  have "zset_inv (data_map s) = zset_inv (Map.empty)" and "zcoll.view (data_map s) = zcoll.view Map.empty"
    using assms(2) by (auto simp: z_types_def intro!: zset_inv_frame zcoll.view_frame)
  moreover have "zset_inv Map.empty" and "zcoll.view Map.empty = (\<lambda>n k. None)"
    by (simp_all add: zset_inv_def scores_ok_def zcoll.coll_inv_empty zcoll.view_def fun_eq_iff)
  ultimately have i: "zset_inv (data_map s)" and v: "zcoll.view (data_map s) = (\<lambda>n k. None)" by simp_all
  show "zset_good s EXPIRATION_LIST_KEY" using assms(1) list_key_ok i by (simp add: zset_good_def v size_fits_def)
  show "schedule s = Map.empty" by (simp add: schedule_def v fun_eq_iff)
qed

text \<open>C40. \<open>flushdb\<close> empties the database but not the queue of the expiration thread: a key that was to expire, and is
  written again after the flush, without a time to live, is deleted when the old time comes.\<close>

theorem flushdb_keeps_fast_keys:
  assumes "sv_inv sv" and "\<not> thread_quit (expiration sv)" and "slave_count sv = 0 \<and> sync_count sv = 0"
    and "last_seq (binlogs (sdb sv)) < UINT64_MAX \<and> min_seq (binlogs (sdb sv)) \<le> last_seq (binlogs (sdb sv)) + 1"
    and "SortedSet_front (fast_keys (expiration sv)) = Some (key, due)" and "in_range e key sv" and "due \<le> t" and "due \<le> now"
  shows "\<exists>sv1 sv2. proc_flushdb e [c] sv = Some (sv1, [''ok''], 0) \<and> proc_set e [c', key, val] sv1 = Some (sv2, [''ok'', ''1''], 0) \<and>
    proc_ttl e [c'', key] sv2 = Some (sv2, [''ok'', ''-1''], 0) \<and>
    proc_get e [c'', key] sv2 = Some (sv2, [''ok'', val], 0) \<and>
    proc_get e [c'', key] (sv_thread [(t, now)] sv2) = Some (sv_thread [(t, now)] sv2, [''not_found''], 0)"
proof -
  note i = ttl_invD [OF assms(1) [unfolded sv_inv_def]]
  have kd: "schedule (sdb sv) key = Some due" using front_first_due [OF assms(1) [unfolded sv_inv_def] assms(5)] by (simp add: first_due_def)
  have ok: "hname_ok key" by (rule schedule_ok [OF kd])
  then have ne: "key \<noteq> []" by (simp add: hname_ok_def)
  obtain s1 where s1: "flushdb (sdb sv) = Some (s1, 0)" "io_ok s1" "data_map s1 = Map.empty"
    using flushdb_io [OF i(9)] assms(4) by blast
  let ?s2 = "fst (ssdb_set key val SYNC s1)"
  let ?sv2 = "sv\<lparr>sdb := ?s2\<rparr>" and ?e = "expire_front now (expiration sv, ?s2)"
  have d2: "data_map ?s2 = [encode_kv_key key \<mapsto> val]" "snd (ssdb_set key val SYNC s1) = 1"
    using ssdb_set_data [OF _ _ ne] s1 by (auto simp: io_ok_def)
  have io2: "io_ok ?s2" by (rule io_ok_run [OF s1(2) kv_ops_run(1)])
  have z2: "zset_good ?s2 EXPIRATION_LIST_KEY" "schedule ?s2 = Map.empty"
    by (rule empty_schedule [OF io2]; auto simp: d2(1) z_types_def)+
  have rng: "in_range e key sv'" if "kv_range_s sv' = kv_range_s sv" "kv_range_e sv' = kv_range_e sv" for sv'
    using assms(6) that by (simp add: in_range_def in_kv_range_def)
  have th: "sv_thread [(t, now)] ?sv2 = sv\<lparr>expiration := fst ?e, sdb := snd ?e\<rparr>"
    using sv_thread_front [of ?sv2 t key due now] i(2,3,4,7) kd assms(2,5,7) by (fastforce simp: case_prod_unfold Let_def)
  note x = expire_front_deletes [OF io2 assms(5,8)]
  have "proc_flushdb e [c] sv = Some (sv\<lparr>sdb := s1\<rparr>, [''ok''], 0)" using assms(3) s1(1) by (simp add: proc_flushdb_def answer_def)
  moreover have "proc_set e [c', key, val] (sv\<lparr>sdb := s1\<rparr>) = Some (?sv2, [''ok'', ''1''], 0)"
    using rng [of "sv\<lparr>sdb := s1\<rparr>"] d2(2) by (auto simp: proc_set_def server_defs in_range_def case_prod_unfold)
  moreover have "proc_ttl e [c'', key] ?sv2 = Some (?sv2, [''ok'', ''-1''], 0)"
  proof -
    have "str_int64 (-1) = ''-1''" by code_simp
    then show ?thesis using rng [of ?sv2] get_ttl_schedule [OF z2(1) ok] z2(2) by (auto simp: proc_ttl_def server_defs in_range_def)
  qed
  moreover have "proc_get e [c'', key] ?sv2 = Some (?sv2, [''ok'', val], 0)"
    using proc_get_view [of ?sv2 e key c''] io2 rng [of ?sv2] by (simp add: kv_view_def d2(1))
  moreover have "proc_get e [c'', key] (sv_thread [(t, now)] ?sv2) = Some (sv_thread [(t, now)] ?sv2, [''not_found''], 0)"
    unfolding th using proc_get_view [of "sv\<lparr>expiration := fst ?e, sdb := snd ?e\<rparr>" e key c''] x rng by simp
  ultimately show ?thesis by blast
qed

text \<open>A server that starts on a database in which one key is to expire, and has loaded it.\<close>

definition restarted_server :: server where
  "restarted_server = fresh_server\<lparr>sdb := snd ttl_a,
     expiration := load_expiration_keys_from_db (of_nat BATCH_SIZE) (ExpirationHandler_new, snd ttl_a)\<rparr>"

lemma restarted_server_facts:
  "sv_inv restarted_server" "\<not> thread_quit (expiration restarted_server)" "in_range env_2000 k restarted_server"
  "SortedSet_front (fast_keys (expiration restarted_server)) = Some (''a'', 2000005000)"
  "last_seq (binlogs (sdb restarted_server)) < UINT64_MAX" "min_seq (binlogs (sdb restarted_server)) = 0"
proof -
  let ?s = "snd ttl_a"
  let ?h = "load_expiration_keys_from_db (of_nat BATCH_SIZE) (ExpirationHandler_new, ?s)"
  have "ttl_inv (fst ttl_a, ?s)" using ttl_a_facts(1) by simp
  note i = ttl_invD [OF this]
  have new: "ttl_inv (ExpirationHandler_new, ?s)" by (rule ttl_inv_new [OF i(1) i(8)])
  have e: "sset_map (fast_keys ExpirationHandler_new) = Map.empty" by (simp add: ExpirationHandler_new_def sq.new)
  note l = load_correct [OF new e]
  show "sv_inv restarted_server" "\<not> thread_quit (expiration restarted_server)" "in_range env_2000 k restarted_server"
    using l(1,4) fresh_server_facts(2) by (simp_all add: sv_inv_def restarted_server_def ExpirationHandler_new_def in_range_def in_kv_range_def)
  have "sset_map (fast_keys ?h) \<noteq> Map.empty" using l(2) ttl_a_facts(2) by auto
  then obtain k sc where f: "SortedSet_front (fast_keys ?h) = Some (k, sc)"
    using sq.front_None [OF ttl_invD(2) [OF l(1)]] by (cases "SortedSet_front (fast_keys ?h)") auto
  have "schedule ?s k = Some sc" by (rule ttl_invD(5) [OF l(1) sq.front_Some(1) [OF ttl_invD(2) [OF l(1)] f]])
  then show "SortedSet_front (fast_keys (expiration restarted_server)) = Some (''a'', 2000005000)"
    using f by (auto simp: restarted_server_def ttl_a_facts(2) split: if_splits)
  have run: "tx_run 5 fresh_db ?s"
    using zset_run [of fresh_db] by (simp add: ttl_a_def set_ttl_def Let_def case_prod_unfold)
  have "seq_room 5 fresh_db" by (simp add: seq_room_def fresh_queue)
  from tx_run_length(2) [OF run this] tx_run_frame [OF run]
  show "last_seq (binlogs (sdb restarted_server)) < UINT64_MAX" "min_seq (binlogs (sdb restarted_server)) = 0"
    by (simp_all add: restarted_server_def fresh_queue UINT64_MAX_def word_less_nat_alt)
qed

theorem flushdb_keeps_fast_keys_witness:
  "\<exists>sv1 sv2. proc_flushdb env_2000 [''flushdb''] restarted_server = Some (sv1, [''ok''], 0) \<and>
     proc_set env_2000 [''set'', ''a'', ''new''] sv1 = Some (sv2, [''ok'', ''1''], 0) \<and>
     proc_get env_2000 [''get'', ''a''] (sv_thread [(2000005000, 2000005000)] sv2) =
       Some (sv_thread [(2000005000, 2000005000)] sv2, [''not_found''], 0)"
proof -
  have "slave_count restarted_server = 0 \<and> sync_count restarted_server = 0" by (simp add: restarted_server_def fresh_server_def)
  from flushdb_keeps_fast_keys [OF restarted_server_facts(1,2) this _ restarted_server_facts(4,3), of 2000005000 2000005000
      "''flushdb''" "''set''" "''new''" "''get''"] restarted_server_facts(5,6)
  show ?thesis by fastforce
qed

end
