(* ===== verification/ProcHash.thy ===== *)
theory ProcHash
  imports Server
begin

section \<open>Commands on hashes (\<open>proc_hash.cpp\<close>)\<close>

text \<open>
  The handlers of hashes. The loops over the keys of a request are the same for sorted sets, so they take the
  operation as an argument. A \<open>multi\<close> command is not one transaction: what it did before an error stays.
\<close>

subsection \<open>Loops over the keys of a request\<close>

definition multi_present :: "(bytes \<Rightarrow> get_status) \<Rightarrow> bytes list \<Rightarrow> bytes list" where
  "multi_present get keys = concat (map (\<lambda>key. [key, if get_ret (get key) > 0 then ''1'' else ''0'']) keys)"

definition multi_found :: "(bytes \<Rightarrow> get_status) \<Rightarrow> bytes list \<Rightarrow> bytes list" where
  "multi_found get keys = concat (map (\<lambda>key. case get key of Found val \<Rightarrow> [key, val] | _ \<Rightarrow> []) keys)"

fun multi_sizes :: "(bytes \<Rightarrow> int) \<Rightarrow> bytes list \<Rightarrow> bytes list \<Rightarrow> bytes list option" where
  "multi_sizes sz [] resp = Some resp"
| "multi_sizes sz (key # keys) resp =
     (let ret = sz key
      in if ret = -1 then multi_sizes sz keys (resp @ [key, ''-1''])
         else case resp_add_int64 ret (resp @ [key]) of None \<Rightarrow> None | Some resp \<Rightarrow> multi_sizes sz keys resp)"

text \<open>The database after the loop, and the sum of the results, \<open>None\<close> after an error.\<close>

fun multi_store :: "(bytes \<Rightarrow> bytes \<Rightarrow> ssdb \<Rightarrow> ssdb \<times> int) \<Rightarrow> bytes list \<Rightarrow> int \<Rightarrow> ssdb \<Rightarrow> ssdb \<times> int option" where
  "multi_store op (key # val # rest) num s =
     (let (s, ret) = op key val s in if ret = -1 then (s, None) else multi_store op rest (wrap32 (num + ret)) s)"
| "multi_store op _ num s = (s, Some num)"

fun multi_remove :: "(bytes \<Rightarrow> ssdb \<Rightarrow> ssdb \<times> int) \<Rightarrow> bytes list \<Rightarrow> int \<Rightarrow> ssdb \<Rightarrow> ssdb \<times> int option" where
  "multi_remove op [] num s = (s, Some num)"
| "multi_remove op (key # rest) num s =
     (let (s, ret) = op key s in if ret = -1 then (s, None) else multi_remove op rest (wrap32 (num + ret)) s)"

definition answer_sum :: "server \<Rightarrow> ssdb \<times> int option \<Rightarrow> proc_result" where
  "answer_sum sv r =
     (let (s, num) = r; sv = sv\<lparr>sdb := s\<rparr> in case num of None \<Rightarrow> answer sv [''error''] | Some num \<Rightarrow> answer_int sv 0 num)"

text \<open>A result of type \<open>int64_t\<close> that is also passed as the status of type \<open>int\<close>.\<close>

definition answer_count :: "server \<Rightarrow> int \<Rightarrow> proc_result" where
  "answer_count sv ret = answer_int sv (wrap32 ret) ret"

function h_loop :: "(h_iterator \<Rightarrow> bytes list) \<Rightarrow> h_iterator \<Rightarrow> bytes list" where
  "h_loop push it = (case HIterator_next it of (it', False) \<Rightarrow> [] | (it', True) \<Rightarrow> push it' @ h_loop push it')"
  by pat_completeness auto
termination
  by (relation "measure (\<lambda>(push, it). unat (it_limit (h_it it)))") (auto dest: HIterator_next_limit [OF sym])

declare h_loop.simps [simp del]

subsection \<open>Handlers\<close>

definition proc_hexists :: "request_env \<Rightarrow> bytes list \<Rightarrow> server \<Rightarrow> proc_result" where
  "proc_hexists e req sv =
     check_num_params 3 req sv (answer sv (reply_bool (get_ret (hget (req ! 1) (req ! 2) (sdb sv))) None []))"

definition proc_multi_hexists :: "request_env \<Rightarrow> bytes list \<Rightarrow> server \<Rightarrow> proc_result" where
  "proc_multi_hexists e req sv =
     check_num_params 3 req sv (answer sv (''ok'' # multi_present (\<lambda>key. hget (req ! 1) key (sdb sv)) (drop 2 req)))"

definition proc_multi_hsize :: "request_env \<Rightarrow> bytes list \<Rightarrow> server \<Rightarrow> proc_result" where
  "proc_multi_hsize e req sv =
     check_num_params 2 req sv (
       case multi_sizes (\<lambda>key. hsize key (sdb sv)) (drop 1 req) [''ok''] of None \<Rightarrow> None | Some resp \<Rightarrow> answer sv resp)"

definition proc_multi_hset :: "request_env \<Rightarrow> bytes list \<Rightarrow> server \<Rightarrow> proc_result" where
  "proc_multi_hset e req sv =
     (if length req < 4 \<or> length req mod 2 \<noteq> 0 then answer sv [''client_error'']
      else answer_sum sv (multi_store (\<lambda>key val. hset (req ! 1) key val SYNC) (drop 2 req) 0 (sdb sv)))"

definition proc_multi_hdel :: "request_env \<Rightarrow> bytes list \<Rightarrow> server \<Rightarrow> proc_result" where
  "proc_multi_hdel e req sv =
     check_num_params 3 req sv (
       answer_sum sv (multi_remove (\<lambda>key. hdel (req ! 1) key SYNC) (drop 2 req) 0 (sdb sv)))"

definition proc_multi_hget :: "request_env \<Rightarrow> bytes list \<Rightarrow> server \<Rightarrow> proc_result" where
  "proc_multi_hget e req sv =
     check_num_params 3 req sv (answer sv (''ok'' # multi_found (\<lambda>key. hget (req ! 1) key (sdb sv)) (drop 2 req)))"

definition proc_hsize :: "request_env \<Rightarrow> bytes list \<Rightarrow> server \<Rightarrow> proc_result" where
  "proc_hsize e req sv = check_num_params 2 req sv (answer_count sv (hsize (req ! 1) (sdb sv)))"

definition proc_hset :: "request_env \<Rightarrow> bytes list \<Rightarrow> server \<Rightarrow> proc_result" where
  "proc_hset e req sv =
     check_num_params 4 req sv (
       let (s, ret) = hset (req ! 1) (req ! 2) (req ! 3) SYNC (sdb sv)
       in answer (sv\<lparr>sdb := s\<rparr>) (reply_bool ret None []))"

definition proc_hget :: "request_env \<Rightarrow> bytes list \<Rightarrow> server \<Rightarrow> proc_result" where
  "proc_hget e req sv =
     check_num_params 3 req sv (
       let g = hget (req ! 1) (req ! 2) (sdb sv) in answer sv (reply_get (get_ret g) (Some (get_val g)) None []))"

definition proc_hdel :: "request_env \<Rightarrow> bytes list \<Rightarrow> server \<Rightarrow> proc_result" where
  "proc_hdel e req sv =
     check_num_params 3 req sv (
       let (s, ret) = hdel (req ! 1) (req ! 2) SYNC (sdb sv) in answer (sv\<lparr>sdb := s\<rparr>) (reply_bool ret None []))"

definition proc_hclear :: "request_env \<Rightarrow> bytes list \<Rightarrow> server \<Rightarrow> proc_result" where
  "proc_hclear e req sv =
     check_num_params 2 req sv (
       case hclear (req ! 1) (sdb sv) of None \<Rightarrow> None | Some (s, count) \<Rightarrow> answer_int (sv\<lparr>sdb := s\<rparr>) 0 (int count))"

definition proc_hgetall :: "request_env \<Rightarrow> bytes list \<Rightarrow> server \<Rightarrow> proc_result" where
  "proc_hgetall e req sv =
     check_num_params 2 req sv (
       answer sv (''ok'' # h_loop (\<lambda>it. [h_key it, h_val it]) (hscan (req ! 1) [] [] 2000000000 (sdb sv))))"

definition proc_hscan :: "request_env \<Rightarrow> bytes list \<Rightarrow> server \<Rightarrow> proc_result" where
  "proc_hscan e req sv =
     check_num_params 5 req sv (
       let limit = Bytes_Uint64 (req ! 4); it = hscan (req ! 1) (req ! 2) (req ! 3) limit (sdb sv)
       in answer sv (''ok'' # h_loop (\<lambda>it. [h_key it, h_val it]) it))"

definition proc_hrscan :: "request_env \<Rightarrow> bytes list \<Rightarrow> server \<Rightarrow> proc_result" where
  "proc_hrscan e req sv =
     check_num_params 5 req sv (
       let limit = Bytes_Uint64 (req ! 4); it = hrscan (req ! 1) (req ! 2) (req ! 3) limit (sdb sv)
       in answer sv (''ok'' # h_loop (\<lambda>it. [h_key it, h_val it]) it))"

definition proc_hkeys :: "request_env \<Rightarrow> bytes list \<Rightarrow> server \<Rightarrow> proc_result" where
  "proc_hkeys e req sv =
     check_num_params 5 req sv (
       let limit = Bytes_Uint64 (req ! 4);
           it = HIterator_return_val False (hscan (req ! 1) (req ! 2) (req ! 3) limit (sdb sv))
       in answer sv (''ok'' # h_loop (\<lambda>it. [h_key it]) it))"

definition proc_hvals :: "request_env \<Rightarrow> bytes list \<Rightarrow> server \<Rightarrow> proc_result" where
  "proc_hvals e req sv =
     check_num_params 5 req sv (
       let limit = Bytes_Uint64 (req ! 4); it = hscan (req ! 1) (req ! 2) (req ! 3) limit (sdb sv)
       in answer sv (''ok'' # h_loop (\<lambda>it. [h_val it]) it))"

definition proc_hlist :: "request_env \<Rightarrow> bytes list \<Rightarrow> server \<Rightarrow> proc_result" where
  "proc_hlist e req sv =
     check_num_params 4 req sv (
       let limit = Bytes_Uint64 (req ! 3) in answer sv (reply_list 0 (hlist (req ! 1) (req ! 2) limit (sdb sv)) []))"

definition proc_hrlist :: "request_env \<Rightarrow> bytes list \<Rightarrow> server \<Rightarrow> proc_result" where
  "proc_hrlist e req sv =
     check_num_params 4 req sv (
       let limit = Bytes_Uint64 (req ! 3) in answer sv (reply_list 0 (hrlist (req ! 1) (req ! 2) limit (sdb sv)) []))"

definition proc_hincr_dir :: "int \<Rightarrow> request_env \<Rightarrow> bytes list \<Rightarrow> server \<Rightarrow> proc_result" where
  "proc_hincr_dir dir e req sv =
     check_num_params 3 req sv (
       let by = (if length req > 3 then Bytes_Int64 (req ! 3) else 1);
           (s, ret, new_val) = hincr (errno e) (req ! 1) (req ! 2) (wrap64 (dir * by)) SYNC (sdb sv)
       in incr_answer (sv\<lparr>sdb := s\<rparr>) ret new_val)"

definition proc_hincr :: "request_env \<Rightarrow> bytes list \<Rightarrow> server \<Rightarrow> proc_result" where
  "proc_hincr e req sv = proc_hincr_dir 1 e req sv"

definition proc_hdecr :: "request_env \<Rightarrow> bytes list \<Rightarrow> server \<Rightarrow> proc_result" where
  "proc_hdecr e req sv = proc_hincr_dir (-1) e req sv"

subsection \<open>Properties\<close>

definition flat_pairs :: "(bytes \<times> bytes) list \<Rightarrow> bytes list" where
  "flat_pairs l = concat (map (\<lambda>(k, v). [k, v]) l)"

lemma flat_pairs_simps [simp]: "flat_pairs [] = []" "flat_pairs ((k, v) # l) = k # v # flat_pairs l"
  by (simp_all add: flat_pairs_def)

lemma length_flat_pairs [simp]: "length (flat_pairs l) = 2 * length l"
  by (induction l) auto

lemma h_loop_drain:
  "unat (it_limit (h_it it)) \<le> n \<Longrightarrow> h_loop (\<lambda>it. [h_key it, h_val it]) it = flat_pairs (hiter.drain n it)"
proof (induction n arbitrary: it)
  case 0
  then show ?case using HIterator_next_limit [of it] by (auto simp: h_loop.simps [of _ it] split: prod.split bool.split)
next
  case (Suc n)
  then show ?case using HIterator_next_limit [of it] by (fastforce simp: h_loop.simps [of _ it] split: prod.split bool.split)
qed

lemma hscan_limit: "it_limit (h_it (hscan name a b limit s)) = limit"
  by (simp add: hscan_def Let_def HIterator_new_def ssdb_iterator_def Iterator_new_def)

lemma answer_int_ok:
  assumes "0 \<le> v" and "v < 2 ^ 63"
  shows "answer_int sv 0 v = Some (sv, [''ok'', decimal_int v], 0)"
proof -
  have "length (decimal (nat v)) \<le> 19" using length_decimal [of "nat v" 19] assms by (simp add: nat_less_iff)
  then show ?thesis using assms(1) by (simp add: answer_int_def reply_int_def resp_add_int64_def decimal_int_def answer_def Let_def)
qed

text \<open>Storing the pairs one after the other: the last value of a field counts.\<close>

lemma kv_sorted_set_eq: "kv_sorted xs \<Longrightarrow> kv_sorted ys \<Longrightarrow> set xs = set ys \<Longrightarrow> xs = ys"
  by (rule kv_sorted_eqI) (auto simp: kv_sorted_def strict_sorted_iff map_of_inject_set)

lemma multi_hset_correct:
  assumes "hash_ready s name" and "\<forall>(k, v) \<in> set pairs. hname_ok k" and "size_fits (nat (hsize name s) + length pairs)"
    and "0 \<le> num" and "num + int (length pairs) < 2 ^ 31"
  shows "\<exists>s'. multi_store (\<lambda>k v. hset name k v lt) (flat_pairs pairs) num s = (s', Some (num + (hsize name s' - hsize name s))) \<and>
    hash_ready s' name \<and> hsize name s \<le> hsize name s' \<and> hsize name s' \<le> hsize name s + int (length pairs) \<and>
    hcoll.view (data_map s') name = hcoll.view (data_map s) name ++ map_of (rev pairs)"
  using assms
proof (induction pairs arbitrary: num s)
  case Nil
  then show ?case by simp
next
  case (Cons p pairs)
  obtain k v where p: "p = (k, v)" by fastforce
  have ok: "hname_ok k" using Cons.prems(2) by (simp add: p)
  have fit: "size_fits (Suc (nat (hsize name s)))" using Cons.prems(3) by (simp add: size_fits_def)
  note h = hash_put_ready [OF Cons.prems(1) ok fit, of v lt] and r = hash_readyD [OF Cons.prems(1)]
  let ?s = "fst (hset name k v lt s)" and ?d = "snd (hset name k v lt s)"
  have view: "hcoll.view (data_map ?s) name = (hcoll.view (data_map s) name)(k \<mapsto> v)"
    unfolding h(2) using hcoll.view_put [OF r(3) ok] by simp
  have d: "?d = hsize name ?s - hsize name s" "0 \<le> ?d" "?d \<le> 1"
    using r(6) by (simp_all add: h(3) hsize_ready [OF h(1)] hsize_ready [OF Cons.prems(1)] view card_insert_if domIff)
  have pos: "0 \<le> hsize name s" by (simp add: hsize_ready [OF Cons.prems(1)])
  have w: "wrap32 (num + ?d) = num + ?d" using Cons.prems(4,5) d(2,3) by (intro wrap32_id) (simp add: in_int32_def)
  have "size_fits (nat (hsize name ?s) + length pairs)" using Cons.prems(3) d pos by (simp add: size_fits_def)
  from Cons.IH [OF h(1) _ this, of "num + ?d"] Cons.prems(2,4,5) d obtain s' where
    s': "multi_store (\<lambda>k v. hset name k v lt) (flat_pairs pairs) (num + ?d) ?s = (s', Some (num + ?d + (hsize name s' - hsize name ?s)))"
      "hash_ready s' name" "hsize name ?s \<le> hsize name s' \<and> hsize name s' \<le> hsize name ?s + int (length pairs)"
      "hcoll.view (data_map s') name = hcoll.view (data_map ?s) name ++ map_of (rev pairs)" by auto
  have "multi_store (\<lambda>k v. hset name k v lt) (flat_pairs (p # pairs)) num s = (s', Some (num + (hsize name s' - hsize name s)))"
  proof -
    have "multi_store (\<lambda>k v. hset name k v lt) (flat_pairs (p # pairs)) num s =
        multi_store (\<lambda>k v. hset name k v lt) (flat_pairs pairs) (num + ?d) ?s"
      using d(2) w by (simp add: p case_prod_unfold Let_def)
    then show ?thesis using s'(1) d(1) by simp
  qed
  moreover have "hcoll.view (data_map s') name = hcoll.view (data_map s) name ++ map_of (rev (p # pairs))"
    unfolding s'(4) view by (simp add: p map_add_upd map_add_assoc)
  ultimately show ?case using s'(2,3) d(1-3) by (intro exI [of _ s']) simp
qed

text \<open>\<open>multi_hset\<close> stores all pairs and answers the number of fields that are new; \<open>hgetall\<close> then answers exactly
  the fields of the hash in the order of their names, each with the value given last, or with the value it
  had before.\<close>

theorem multi_hset_hgetall:
  assumes "hash_ready (sdb sv) name" and "pairs \<noteq> []" and "\<forall>(k, v) \<in> set pairs. hname_ok k"
    and "nat (hsize name (sdb sv)) + length pairs \<le> 2000000000"
  shows "\<exists>sv' L. proc_multi_hset e (c # name # flat_pairs pairs) sv =
      Some (sv', [''ok'', decimal_int (hsize name (sdb sv') - hsize name (sdb sv))], 0) \<and>
    proc_hgetall e [c', name] sv' = Some (sv', ''ok'' # flat_pairs L, 0) \<and> kv_sorted L \<and>
    set L = {(k, v). hname_ok k \<and>
      (if k \<in> fst ` set pairs then map_of (rev pairs) k = Some v else hget name k (sdb sv) = Found v)} \<and>
    hsize name (sdb sv') = int (length L)"
proof -
  have fit: "size_fits (nat (hsize name (sdb sv)) + length pairs)" "0 + int (length pairs) < 2 ^ 31"
    using assms(4) by (simp_all add: size_fits_def)
  obtain s' where s': "multi_store (\<lambda>k v. hset name k v SYNC) (flat_pairs pairs) 0 (sdb sv) = (s', Some (hsize name s' - hsize name (sdb sv)))"
      "hash_ready s' name" "hsize name (sdb sv) \<le> hsize name s' \<and> hsize name s' \<le> hsize name (sdb sv) + int (length pairs)"
      "hcoll.view (data_map s') name = hcoll.view (data_map (sdb sv)) name ++ map_of (rev pairs)"
    using multi_hset_correct [OF assms(1,3) fit(1) _ fit(2), of SYNC] by auto
  note r = hash_readyD [OF s'(2)] and r0 = hash_readyD [OF assms(1)]
  let ?L = "hash_list s' name" and ?sv = "sv\<lparr>sdb := s'\<rparr>"
  have L: "kv_sorted ?L" "(k, v) \<in> set ?L \<longleftrightarrow> hname_ok k \<and> hget name k s' = Found v" for k v
    using hash_list_facts [OF s'(2)] by simp_all
  have none: "map_of (rev pairs) k = None \<longleftrightarrow> k \<notin> fst ` set pairs" for k by (simp add: map_of_eq_None_iff)
  have get: "hget name k s' = Found v \<longleftrightarrow> (if k \<in> fst ` set pairs then map_of (rev pairs) k = Some v else hget name k (sdb sv) = Found v)"
    if "hname_ok k" for k v
    using that none [of k] hget_io [OF r(1,3), of k] hget_io [OF r0(1,3), of k] by (auto simp: s'(4) map_add_def split: option.splits)
  have setL: "set ?L = {(k, v). hname_ok k \<and>
      (if k \<in> fst ` set pairs then map_of (rev pairs) k = Some v else hget name k (sdb sv) = Found v)}"
    unfolding set_eq_iff split_paired_All mem_Collect_eq prod.case L(2) using get by blast
  have len: "hsize name s' = int (length ?L)"
  proof -
    have "k \<in> dom (hcoll.view (data_map s') name) \<longleftrightarrow> k \<in> set (map fst ?L)" for k
    proof (cases "hname_ok k")
      case True
      from map_of_hash_list [OF r(3) this, of s'] show ?thesis
        by (metis domIff list.set_map map_of_eq_None_iff)
    next
      case False
      then show ?thesis using L(2) by (auto simp: hcoll.view_def)
    qed
    then have "dom (hcoll.view (data_map s') name) = set (map fst ?L)" by blast
    moreover have "distinct (map fst ?L)" using L(1) by (simp add: kv_sorted_def strict_sorted_iff)
    ultimately show ?thesis using hsize_ready [OF s'(2)] distinct_card [of "map fst ?L"] by simp
  qed
  have "h_loop (\<lambda>it. [h_key it, h_val it]) (hscan name [] [] 2000000000 s') = flat_pairs ?L"
  proof -
    have "length ?L \<le> 2000000000" using len s'(3) assms(4) hsize_ready [OF assms(1)] by simp
    moreover have "filter (\<lambda>e. [] < fst e \<and> ([] = [] \<or> fst e \<le> [])) ?L = ?L"
      using L(2) by (auto simp: filter_id_conv hname_ok_def)
    ultimately show ?thesis
      using h_loop_drain [of "hscan name [] [] 2000000000 s'" 2000000000] hscan_correct [OF r(2,4,3), of 2000000000 "[]" "[]" 2000000000]
      by (simp add: hscan_limit)
  qed
  then have "proc_hgetall e [c', name] ?sv = Some (?sv, ''ok'' # flat_pairs ?L, 0)" by (simp add: proc_hgetall_def server_defs)
  moreover have "proc_multi_hset e (c # name # flat_pairs pairs) sv = Some (?sv, [''ok'', decimal_int (hsize name s' - hsize name (sdb sv))], 0)"
  proof -
    have "answer_int ?sv 0 (hsize name s' - hsize name (sdb sv)) = Some (?sv, [''ok'', decimal_int (hsize name s' - hsize name (sdb sv))], 0)"
      by (rule answer_int_ok) (use s'(3) assms(4) in simp_all)
    moreover have "\<not> (length (flat_pairs pairs) < 2)" using assms(2) by (cases pairs) auto
    ultimately show ?thesis using s'(1) by (simp add: proc_multi_hset_def answer_sum_def)
  qed
  ultimately show ?thesis using L(1) setL len by (intro exI [of _ ?sv] exI [of _ ?L]) simp
qed

theorem multi_hset_hgetall_witness:
  "\<exists>sv'. proc_multi_hset env_2000 [''multi_hset'', ''h'', ''b'', ''1'', ''a'', ''2'', ''b'', ''3''] fresh_server = Some (sv', [''ok'', ''2''], 0) \<and>
     proc_hgetall env_2000 [''hgetall'', ''h''] sv' = Some (sv', [''ok'', ''a'', ''2'', ''b'', ''3''], 0)"
proof -
  let ?p = "[(''b'', ''1''), (''a'', ''2''), (''b'', ''3'')]"
  have ok: "hname_ok ''h''" "hname_ok ''a''" "hname_ok ''b''" by (simp_all add: hname_ok_def name_ok_def SSDB_KEY_LEN_MAX_def)
  have db: "sdb fresh_server = fresh_db" by (simp add: fresh_server_def)
  note r = fresh_hash_ready [OF ok(1)]
  have sz: "hsize ''h'' fresh_db = 0" using hsize_ready [OF r] by (simp add: hcoll.view_def dom_def)
  have get: "hget ''h'' k fresh_db \<noteq> Found v" if "hname_ok k" for k v
    using hget_io [OF fresh_io ok(1) that] by (simp add: hcoll.view_def)
  have "hash_ready (sdb fresh_server) ''h''" "nat (hsize ''h'' (sdb fresh_server)) + length ?p \<le> 2000000000" using r sz db by simp_all
  from multi_hset_hgetall [OF this(1) _ _ this(2), of env_2000 "''multi_hset''" "''hgetall''"] ok obtain sv' L where
    w: "proc_multi_hset env_2000 (''multi_hset'' # ''h'' # flat_pairs ?p) fresh_server = Some (sv', [''ok'', decimal_int (hsize ''h'' (sdb sv'))], 0)"
      "proc_hgetall env_2000 [''hgetall'', ''h''] sv' = Some (sv', ''ok'' # flat_pairs L, 0)" "kv_sorted L"
      "hsize ''h'' (sdb sv') = int (length L)"
      "set L = {(k, v). hname_ok k \<and> (if k \<in> fst ` set ?p then map_of (rev ?p) k = Some v else hget ''h'' k (sdb fresh_server) = Found v)}"
    by (auto simp: db sz)
  have "set L = set [(''a'', ''2''), (''b'', ''3'')]" unfolding w(5) db using ok get by (auto split: if_splits)
  moreover have "kv_sorted [(''a'', ''2''), (''b'', ''3'')]" by (simp add: kv_sorted_def less_char_def)
  ultimately have "L = [(''a'', ''2''), (''b'', ''3'')]" using kv_sorted_set_eq [OF w(3)] by blast
  moreover have "decimal_int 2 = ''2''" by code_simp
  ultimately show ?thesis using w(1,2,4) by simp
qed

end
