(* ===== verification/ProcZset.thy ===== *)
theory ProcZset
  imports ProcHash
begin

section \<open>Commands on sorted sets (\<open>proc_zset.cpp\<close>)\<close>

text \<open>
  The handlers of sorted sets, all but \<open>zavg\<close>, which answers a fraction. The commands that remove a range scan
  a snapshot and delete the members they find one by one, each in a transaction of its own.
\<close>

subsection \<open>Loops over members\<close>

function z_loop :: "(z_iterator \<Rightarrow> 'a) \<Rightarrow> z_iterator \<Rightarrow> 'a list" where
  "z_loop push it = (case ZIterator_next it of (it', False) \<Rightarrow> [] | (it', True) \<Rightarrow> push it' # z_loop push it')"
  by pat_completeness auto
termination
  by (relation "measure (\<lambda>(push, it). unat (it_limit (z_it it)))") (auto dest: ZIterator_next_limit [OF sym])

declare z_loop.simps [simp del]

text \<open>The loop of the two \<open>zremrange\<close> commands: the number of members found, \<open>None\<close> when a deletion fails.\<close>

function zrem_loop :: "bytes \<Rightarrow> z_iterator \<Rightarrow> ssdb \<Rightarrow> int \<Rightarrow> ssdb \<times> int option" where
  "zrem_loop name it s count =
     (case ZIterator_next it of
        (it', False) \<Rightarrow> (s, Some count)
      | (it', True) \<Rightarrow>
          (case zdel name (z_key it') SYNC s of
             (s', ret) \<Rightarrow> if ret = -1 then (s', None) else zrem_loop name it' s' (wrap64 (count + 1))))"
  by pat_completeness auto
termination
  by (relation "measure (\<lambda>(name, it, s, count). unat (it_limit (z_it it)))") (auto dest: ZIterator_next_limit [OF sym])

declare zrem_loop.simps [simp del]

function zpop :: "bytes \<Rightarrow> z_iterator \<Rightarrow> ssdb \<Rightarrow> bytes list \<Rightarrow> ssdb \<times> bytes list" where
  "zpop name it s resp =
     (case ZIterator_next it of
        (it', False) \<Rightarrow> (s, resp)
      | (it', True) \<Rightarrow>
          (case zdel name (z_key it') SYNC s of
             (s', ret) \<Rightarrow> zpop name it' s' (if ret = 1 then resp @ [z_key it', z_score it'] else resp)))"
  by pat_completeness auto
termination
  by (relation "measure (\<lambda>(name, it, s, resp). unat (it_limit (z_it it)))") (auto dest: ZIterator_next_limit [OF sym])

declare zpop.simps [simp del]

text \<open>\<open>zclear\<close>: a round goes on from the last member of the round before. The inner loop gives the number of
  members and the last of them, \<open>None\<close> when a deletion fails.\<close>

function zclear_batch :: "bytes \<Rightarrow> z_iterator \<Rightarrow> ssdb \<Rightarrow> nat \<Rightarrow> bytes \<Rightarrow> bytes \<Rightarrow> ssdb \<times> (nat \<times> bytes \<times> bytes) option" where
  "zclear_batch name it s num key_start score_start =
     (case ZIterator_next it of
        (it', False) \<Rightarrow> (s, Some (num, key_start, score_start))
      | (it', True) \<Rightarrow>
          (case zdel name (z_key it') SYNC s of
             (s', ret) \<Rightarrow> if ret = -1 then (s', None) else zclear_batch name it' s' (Suc num) (z_key it') (z_score it')))"
  by pat_completeness auto
termination
  by (relation "measure (\<lambda>(name, it, s, num, k, sc). unat (it_limit (z_it it)))") (auto dest: ZIterator_next_limit [OF sym])

declare zclear_batch.simps [simp del]

partial_function (option) zclear_loop :: "bytes \<Rightarrow> nat \<Rightarrow> bytes \<Rightarrow> bytes \<Rightarrow> ssdb \<Rightarrow> (ssdb \<times> nat option) option" where
  "zclear_loop name count key_start score_start s =
     (case zclear_batch name (zscan name key_start score_start [] 1000 s) s 0 key_start score_start of
        (s', None) \<Rightarrow> Some (s', None)
      | (s', Some (num, k, sc)) \<Rightarrow> if num = 0 then Some (s', Some count) else zclear_loop name (count + num) k sc s')"

subsection \<open>Handlers\<close>

definition proc_zexists :: "request_env \<Rightarrow> bytes list \<Rightarrow> server \<Rightarrow> proc_result" where
  "proc_zexists e req sv =
     check_num_params 3 req sv (answer sv (reply_bool (get_ret (zget (req ! 1) (req ! 2) (sdb sv))) None []))"

definition proc_multi_zexists :: "request_env \<Rightarrow> bytes list \<Rightarrow> server \<Rightarrow> proc_result" where
  "proc_multi_zexists e req sv =
     check_num_params 3 req sv (answer sv (''ok'' # multi_present (\<lambda>key. zget (req ! 1) key (sdb sv)) (drop 2 req)))"

definition proc_multi_zsize :: "request_env \<Rightarrow> bytes list \<Rightarrow> server \<Rightarrow> proc_result" where
  "proc_multi_zsize e req sv =
     check_num_params 2 req sv (
       case multi_sizes (\<lambda>key. zsize key (sdb sv)) (drop 1 req) [''ok''] of None \<Rightarrow> None | Some resp \<Rightarrow> answer sv resp)"

definition proc_multi_zset :: "request_env \<Rightarrow> bytes list \<Rightarrow> server \<Rightarrow> proc_result" where
  "proc_multi_zset e req sv =
     (if length req < 4 \<or> length req mod 2 \<noteq> 0 then answer sv [''client_error'']
      else answer_sum sv (multi_store (\<lambda>key val. zset (req ! 1) key val SYNC) (drop 2 req) 0 (sdb sv)))"

definition proc_multi_zdel :: "request_env \<Rightarrow> bytes list \<Rightarrow> server \<Rightarrow> proc_result" where
  "proc_multi_zdel e req sv =
     check_num_params 3 req sv (
       answer_sum sv (multi_remove (\<lambda>key. zdel (req ! 1) key SYNC) (drop 2 req) 0 (sdb sv)))"

definition proc_multi_zget :: "request_env \<Rightarrow> bytes list \<Rightarrow> server \<Rightarrow> proc_result" where
  "proc_multi_zget e req sv =
     check_num_params 3 req sv (answer sv (''ok'' # multi_found (\<lambda>key. zget (req ! 1) key (sdb sv)) (drop 2 req)))"

definition proc_zset :: "request_env \<Rightarrow> bytes list \<Rightarrow> server \<Rightarrow> proc_result" where
  "proc_zset e req sv =
     check_num_params 4 req sv (
       let (s, ret) = zset (req ! 1) (req ! 2) (req ! 3) SYNC (sdb sv) in answer_int (sv\<lparr>sdb := s\<rparr>) ret ret)"

definition proc_zsize :: "request_env \<Rightarrow> bytes list \<Rightarrow> server \<Rightarrow> proc_result" where
  "proc_zsize e req sv =
     check_num_params 2 req sv (answer_count sv (zsize (req ! 1) (sdb sv)))"

definition proc_zget :: "request_env \<Rightarrow> bytes list \<Rightarrow> server \<Rightarrow> proc_result" where
  "proc_zget e req sv =
     check_num_params 3 req sv (
       let g = zget (req ! 1) (req ! 2) (sdb sv) in answer sv (reply_get (get_ret g) (Some (get_val g)) None []))"

definition proc_zdel :: "request_env \<Rightarrow> bytes list \<Rightarrow> server \<Rightarrow> proc_result" where
  "proc_zdel e req sv =
     check_num_params 3 req sv (
       let (s, ret) = zdel (req ! 1) (req ! 2) SYNC (sdb sv) in answer (sv\<lparr>sdb := s\<rparr>) (reply_bool ret None []))"

definition proc_zrank :: "request_env \<Rightarrow> bytes list \<Rightarrow> server \<Rightarrow> proc_result" where
  "proc_zrank e req sv =
     check_num_params 3 req sv (
       let ret = zrank (req ! 1) (req ! 2) (sdb sv) in if ret = -1 then answer sv [''not_found''] else answer_count sv ret)"

definition proc_zrrank :: "request_env \<Rightarrow> bytes list \<Rightarrow> server \<Rightarrow> proc_result" where
  "proc_zrrank e req sv =
     check_num_params 3 req sv (
       let ret = zrrank (req ! 1) (req ! 2) (sdb sv) in if ret = -1 then answer sv [''not_found''] else answer_count sv ret)"

definition z_pairs :: "z_iterator \<Rightarrow> bytes list" where
  "z_pairs it = concat (z_loop (\<lambda>it. [z_key it, z_score it]) it)"

definition proc_zrange :: "request_env \<Rightarrow> bytes list \<Rightarrow> server \<Rightarrow> proc_result" where
  "proc_zrange e req sv =
     check_num_params 4 req sv (
       let offset = Bytes_Uint64 (req ! 2); limit = Bytes_Uint64 (req ! 3)
       in answer sv (''ok'' # z_pairs (zrange (req ! 1) offset limit (sdb sv))))"

definition proc_zrrange :: "request_env \<Rightarrow> bytes list \<Rightarrow> server \<Rightarrow> proc_result" where
  "proc_zrrange e req sv =
     check_num_params 4 req sv (
       let offset = Bytes_Uint64 (req ! 2); limit = Bytes_Uint64 (req ! 3)
       in answer sv (''ok'' # z_pairs (zrrange (req ! 1) offset limit (sdb sv))))"

definition proc_zclear :: "request_env \<Rightarrow> bytes list \<Rightarrow> server \<Rightarrow> proc_result" where
  "proc_zclear e req sv =
     check_num_params 2 req sv (
       case zclear_loop (req ! 1) 0 [] [] (sdb sv) of
         None \<Rightarrow> None
       | Some (s, None) \<Rightarrow> answer (sv\<lparr>sdb := s\<rparr>) [''error'']
       | Some (s, Some count) \<Rightarrow> answer_int (sv\<lparr>sdb := s\<rparr>) 0 (int count))"

text \<open>The offset that a seventh argument makes of the sixth.\<close>

definition scan_window :: "bytes list \<Rightarrow> u64 \<times> u64" where
  "scan_window req =
     (let limit = Bytes_Uint64 (req ! 5)
      in if length req > 6 then (limit, limit + Bytes_Uint64 (req ! 6)) else (0, limit))"

definition skip_offset :: "u64 \<Rightarrow> z_iterator \<Rightarrow> z_iterator" where
  "skip_offset offset it = (if offset > 0 then fst (ZIterator_skip offset it) else it)"

definition proc_zscan :: "request_env \<Rightarrow> bytes list \<Rightarrow> server \<Rightarrow> proc_result" where
  "proc_zscan e req sv =
     check_num_params 6 req sv (
       let (offset, limit) = scan_window req;
           it = skip_offset offset (zscan (req ! 1) (req ! 2) (req ! 3) (req ! 4) limit (sdb sv))
       in answer sv (''ok'' # z_pairs it))"

definition proc_zrscan :: "request_env \<Rightarrow> bytes list \<Rightarrow> server \<Rightarrow> proc_result" where
  "proc_zrscan e req sv =
     check_num_params 6 req sv (
       let (offset, limit) = scan_window req;
           it = skip_offset offset (zrscan (req ! 1) (req ! 2) (req ! 3) (req ! 4) limit (sdb sv))
       in answer sv (''ok'' # z_pairs it))"

definition proc_zkeys :: "request_env \<Rightarrow> bytes list \<Rightarrow> server \<Rightarrow> proc_result" where
  "proc_zkeys e req sv =
     check_num_params 6 req sv (
       let limit = Bytes_Uint64 (req ! 5)
       in answer sv (''ok'' # z_loop z_key (zscan (req ! 1) (req ! 2) (req ! 3) (req ! 4) limit (sdb sv))))"

definition proc_zlist :: "request_env \<Rightarrow> bytes list \<Rightarrow> server \<Rightarrow> proc_result" where
  "proc_zlist e req sv =
     check_num_params 4 req sv (
       let limit = Bytes_Uint64 (req ! 3) in answer sv (reply_list 0 (zlist (req ! 1) (req ! 2) limit (sdb sv)) []))"

definition proc_zrlist :: "request_env \<Rightarrow> bytes list \<Rightarrow> server \<Rightarrow> proc_result" where
  "proc_zrlist e req sv =
     check_num_params 4 req sv (
       let limit = Bytes_Uint64 (req ! 3) in answer sv (reply_list 0 (zrlist (req ! 1) (req ! 2) limit (sdb sv)) []))"

text \<open>The value of \<open>new_val\<close> when the read fails is not used.\<close>

definition proc_zincr_dir :: "int \<Rightarrow> request_env \<Rightarrow> bytes list \<Rightarrow> server \<Rightarrow> proc_result" where
  "proc_zincr_dir dir e req sv =
     check_num_params 3 req sv (
       let by = (if length req > 3 then Bytes_Int64 (req ! 3) else 1);
           (s, ret, new_val) = zincr (req ! 1) (req ! 2) (wrap64 (dir * by)) SYNC (sdb sv)
       in answer_int (sv\<lparr>sdb := s\<rparr>) ret (case new_val of None \<Rightarrow> 0 | Some v \<Rightarrow> v))"

definition proc_zincr :: "request_env \<Rightarrow> bytes list \<Rightarrow> server \<Rightarrow> proc_result" where
  "proc_zincr e req sv = proc_zincr_dir 1 e req sv"

definition proc_zdecr :: "request_env \<Rightarrow> bytes list \<Rightarrow> server \<Rightarrow> proc_result" where
  "proc_zdecr e req sv = proc_zincr_dir (-1) e req sv"

text \<open>The members between two scores, without a limit.\<close>

definition score_scan :: "bytes list \<Rightarrow> server \<Rightarrow> z_iterator" where
  "score_scan req sv = zscan (req ! 1) [] (req ! 2) (req ! 3) UINT64_MAX (sdb sv)"

definition proc_zcount :: "request_env \<Rightarrow> bytes list \<Rightarrow> server \<Rightarrow> proc_result" where
  "proc_zcount e req sv =
     check_num_params 4 req sv (answer_int sv 0 (wrap64 (int (length (z_loop z_key (score_scan req sv))))))"

definition proc_zsum :: "request_env \<Rightarrow> bytes list \<Rightarrow> server \<Rightarrow> proc_result" where
  "proc_zsum e req sv =
     check_num_params 4 req sv (
       answer_int sv 0 (fold (\<lambda>score sum. wrap64 (sum + fst (str_to_int64 0 score))) (z_loop z_score (score_scan req sv)) 0))"

definition proc_zremrangebyscore :: "request_env \<Rightarrow> bytes list \<Rightarrow> server \<Rightarrow> proc_result" where
  "proc_zremrangebyscore e req sv =
     check_num_params 4 req sv (answer_sum sv (zrem_loop (req ! 1) (score_scan req sv) (sdb sv) 0))"

definition proc_zremrangebyrank :: "request_env \<Rightarrow> bytes list \<Rightarrow> server \<Rightarrow> proc_result" where
  "proc_zremrangebyrank e req sv =
     check_num_params 4 req sv (
       let start = Bytes_Uint64 (req ! 2); end = Bytes_Uint64 (req ! 3)
       in answer_sum sv (zrem_loop (req ! 1) (zrange (req ! 1) start (end - start + 1) (sdb sv)) (sdb sv) 0))"

definition proc_zpop_front :: "request_env \<Rightarrow> bytes list \<Rightarrow> server \<Rightarrow> proc_result" where
  "proc_zpop_front e req sv =
     check_num_params 3 req sv (
       let limit = Bytes_Uint64 (req ! 2);
           (s, resp) = zpop (req ! 1) (zscan (req ! 1) [] [] [] limit (sdb sv)) (sdb sv) [''ok'']
       in answer (sv\<lparr>sdb := s\<rparr>) resp)"

definition proc_zpop_back :: "request_env \<Rightarrow> bytes list \<Rightarrow> server \<Rightarrow> proc_result" where
  "proc_zpop_back e req sv =
     check_num_params 3 req sv (
       let limit = Bytes_Uint64 (req ! 2);
           (s, resp) = zpop (req ! 1) (zrscan (req ! 1) [] [] [] limit (sdb sv)) (sdb sv) [''ok'']
       in answer (sv\<lparr>sdb := s\<rparr>) resp)"

definition proc_zfix :: "request_env \<Rightarrow> bytes list \<Rightarrow> server \<Rightarrow> proc_result" where
  "proc_zfix e req sv =
     check_num_params 2 req sv (
       let (s, ret) = zfix (req ! 1) (sdb sv) in answer_count (sv\<lparr>sdb := s\<rparr>) ret)"

subsection \<open>Removing members\<close>

definition zdel_all :: "bytes \<Rightarrow> (bytes \<times> bytes) list \<Rightarrow> ssdb \<Rightarrow> ssdb" where
  "zdel_all name M s = fold (\<lambda>e s. fst (zdel name (fst e) SYNC s)) M s"

lemma zdel_all_simps [simp]: "zdel_all name [] s = s" "zdel_all name (e # M) s = zdel_all name M (fst (zdel name (fst e) SYNC s))"
  by (simp_all add: zdel_all_def)

lemma zdel_all_append: "zdel_all name (M @ N) s = zdel_all name N (zdel_all name M s)"
  by (simp add: zdel_all_def)

definition z_members :: "ssdb \<Rightarrow> bytes \<Rightarrow> (bytes \<times> bytes) set" where
  "z_members s name = {(k, sc). zcoll.view (data_map s) name k = Some sc}"

lemma z_members_ok: "e \<in> z_members s name \<Longrightarrow> hname_ok (fst e)"
  by (auto simp: z_members_def dest: view_ok)

definition removed :: "bytes \<Rightarrow> (bytes \<times> bytes) list \<Rightarrow> ssdb \<Rightarrow> ssdb \<Rightarrow> bool" where
  "removed name M s s' \<longleftrightarrow> zset_good s' name \<and>
     (\<forall>n. zcoll.view (data_map s') n = (if n = name then zcoll.view (data_map s) n |` (- fst ` set M) else zcoll.view (data_map s) n)) \<and>
     (\<forall>x. key_type x \<notin> z_types \<longrightarrow> data_map s' x = data_map s x)"

lemma removed_nil: "zset_good s name \<Longrightarrow> removed name [] s s"
  by (simp add: removed_def restrict_map_def)

lemma removed_trans: "removed name M s s' \<Longrightarrow> removed name N s' s'' \<Longrightarrow> removed name (M @ N) s s''"
  by (auto simp: removed_def restrict_map_def fun_eq_iff)

lemma zdel_removed:
  assumes "zset_good s name" and "hname_ok k"
  shows "removed name [(k, sc)] s (fst (zdel name k lt s))"
proof -
  note d = z_del_good [OF assms, of lt] and r = zset_goodD [OF assms(1)]
  have "zcoll.view (data_map (fst (zdel name k lt s))) n =
      (if n = name then (zcoll.view (data_map s) name)(k := None) else zcoll.view (data_map s) n)" for n
    unfolding d(2) by (rule view_z_put(2) [OF r(3) assms(2)])
  moreover have "data_map (fst (zdel name k lt s)) x = data_map s x" if "key_type x \<notin> z_types" for x
    unfolding d(2) by (rule z_put_other) (use that in \<open>simp add: z_types_def\<close>)
  ultimately show ?thesis using d(1) by (auto simp: removed_def restrict_map_def fun_eq_iff)
qed

lemma zdel_all_removed:
  assumes "zset_good s name" and "\<forall>e \<in> set M. hname_ok (fst e)"
  shows "removed name M s (zdel_all name M s)"
  using assms
proof (induction M arbitrary: s)
  case (Cons e M)
  have "removed name [e] s (fst (zdel name (fst e) SYNC s))"
    using zdel_removed [OF Cons.prems(1), of "fst e" "snd e"] Cons.prems(2) by simp
  moreover from this have "removed name M (fst (zdel name (fst e) SYNC s)) (zdel_all name (e # M) s)"
    using Cons.IH Cons.prems(2) by (simp add: removed_def)
  ultimately show ?case using removed_trans [of name "[e]"] by simp
qed (simp add: removed_nil)

lemma removed_members:
  assumes "removed name M s s'" and "set M \<subseteq> z_members s name"
  shows "z_members s' name = z_members s name - set M"
proof -
  have V: "zcoll.view (data_map s') name = zcoll.view (data_map s) name |` (- fst ` set M)" using assms(1) by (simp add: removed_def)
  have M: "zcoll.view (data_map s) name k = Some sc" if "(k, sc) \<in> set M" for k sc
    using assms(2) that by (auto simp: z_members_def)
  have "(k, sc) \<in> z_members s' name \<longleftrightarrow> (k, sc) \<in> z_members s name - set M" for k sc
  proof (cases "k \<in> fst ` set M")
    case True
    then obtain sc' where "(k, sc') \<in> set M" by auto
    with M [OF this] True show ?thesis by (auto simp: z_members_def V restrict_map_def)
  next
    case False
    then have "(k, sc) \<notin> set M" by force
    with False show ?thesis by (simp add: z_members_def V restrict_map_def)
  qed
  then show ?thesis by auto
qed

text \<open>The loops delete what the scan of the snapshot returns.\<close>

lemma zrem_loop_correct:
  assumes "zset_good s name" and "z_ok it" and "\<forall>e \<in> set (z_rest it). hname_ok (fst e)" and "0 \<le> c" and "c + int (length (z_rest it)) < 2 ^ 63"
  shows "zrem_loop name it s c = (zdel_all name (z_rest it) s, Some (c + int (length (z_rest it))))"
  using assms
proof (induction "length (z_rest it)" arbitrary: it s c)
  case 0
  obtain it' b where n: "ZIterator_next it = (it', b)" by fastforce
  with ZIterator_next_rest [OF "0.prems"(2) n] "0.hyps" show ?case by (simp add: zrem_loop.simps [of name it])
next
  case (Suc n)
  obtain it' b where n: "ZIterator_next it = (it', b)" by fastforce
  obtain e M where M: "z_rest it = e # M" using Suc.hyps(2) by (cases "z_rest it") auto
  note r = ZIterator_next_rest [OF Suc.prems(2) n]
  have it': "b" "z_rest it' = M" "e = (z_key it', z_score it')" using r M by auto
  have ok: "hname_ok (fst e)" "\<forall>e \<in> set M. hname_ok (fst e)" using Suc.prems(3) M by auto
  note d = z_del_good [OF Suc.prems(1) ok(1), of SYNC]
  have w: "wrap64 (c + 1) = c + 1" using Suc.prems(4,5) M by (intro wrap64_id) (simp add: in_int64_def)
  have "zrem_loop name it s c = zrem_loop name it' (fst (zdel name (fst e) SYNC s)) (c + 1)"
    using n it'(1,3) d(3) w by (auto simp: zrem_loop.simps [of name it] case_prod_unfold split: if_splits)
  also have "... = (zdel_all name M (fst (zdel name (fst e) SYNC s)), Some (c + 1 + int (length M)))"
    using Suc.hyps(1) [OF _ d(1) r(1), of "c + 1"] Suc.hyps(2) Suc.prems(4,5) it'(2) ok(2) M by simp
  finally show ?case using M by simp
qed

lemma zpop_correct:
  assumes "zset_good s name" and "z_ok it" and "set (z_rest it) \<subseteq> z_members s name" and "distinct (map fst (z_rest it))"
  shows "zpop name it s resp = (zdel_all name (z_rest it) s, resp @ flat_pairs (z_rest it))"
  using assms
proof (induction "length (z_rest it)" arbitrary: it s resp)
  case 0
  obtain it' b where n: "ZIterator_next it = (it', b)" by fastforce
  with ZIterator_next_rest [OF "0.prems"(2) n] "0.hyps" show ?case by (simp add: zpop.simps [of name it])
next
  case (Suc n)
  obtain it' b where n: "ZIterator_next it = (it', b)" by fastforce
  obtain e M where M: "z_rest it = e # M" using Suc.hyps(2) by (cases "z_rest it") auto
  note r = ZIterator_next_rest [OF Suc.prems(2) n]
  have it': "b" "z_rest it' = M" "e = (z_key it', z_score it')" using r M by auto
  have e: "zcoll.view (data_map s) name (fst e) = Some (snd e)" using Suc.prems(3) M by (auto simp: z_members_def)
  then have ok: "hname_ok (fst e)" using view_ok by blast
  let ?s = "fst (zdel name (fst e) SYNC s)"
  have rem: "removed name [e] s ?s" using zdel_removed [OF Suc.prems(1) ok, of "snd e"] by simp
  have "set M \<subseteq> z_members ?s name"
    using removed_members [OF rem] Suc.prems(3,4) M by (auto simp: image_iff)
  then have "zpop name it' ?s (resp @ [fst e, snd e]) = (zdel_all name M ?s, resp @ [fst e, snd e] @ flat_pairs M)"
    using Suc.hyps(1) [of it' ?s] Suc.hyps(2) Suc.prems(4) rem r(1) it'(2) M by (simp add: removed_def)
  moreover have "zpop name it s resp = zpop name it' ?s (resp @ [fst e, snd e])"
    using n it'(1,3) z_del_good(3) [OF Suc.prems(1) ok, of SYNC] e by (simp add: zpop.simps [of name it] case_prod_unfold)
  ultimately show ?case using M by (cases e) simp
qed

subsection \<open>Clearing a set\<close>

lemma zclear_batch_correct:
  assumes "zset_good s name" and "z_ok it" and "\<forall>e \<in> set (z_rest it). hname_ok (fst e)"
  shows "zclear_batch name it s num k sc =
    (zdel_all name (z_rest it) s, Some (num + length (z_rest it), last ((k, sc) # z_rest it)))"
  using assms
proof (induction "length (z_rest it)" arbitrary: it s num k sc)
  case 0
  obtain it' b where n: "ZIterator_next it = (it', b)" by fastforce
  with ZIterator_next_rest [OF "0.prems"(2) n] "0.hyps" show ?case by (simp add: zclear_batch.simps [of name it])
next
  case (Suc n)
  obtain it' b where n: "ZIterator_next it = (it', b)" by fastforce
  obtain e M where M: "z_rest it = e # M" using Suc.hyps(2) by (cases "z_rest it") auto
  note r = ZIterator_next_rest [OF Suc.prems(2) n]
  have it': "b" "z_rest it' = M" "e = (z_key it', z_score it')" using r M by auto
  have ok: "hname_ok (fst e)" "\<forall>e \<in> set M. hname_ok (fst e)" using Suc.prems(3) M by auto
  note d = z_del_good [OF Suc.prems(1) ok(1), of SYNC]
  have "zclear_batch name it s num k sc = zclear_batch name it' (fst (zdel name (fst e) SYNC s)) (Suc num) (fst e) (snd e)"
    using n it'(1,3) d(3) by (auto simp: zclear_batch.simps [of name it] case_prod_unfold split: if_splits)
  also have "... = (zdel_all name M (fst (zdel name (fst e) SYNC s)), Some (Suc num + length M, last ((fst e, snd e) # M)))"
    using Suc.hyps(1) [OF _ d(1) r(1), of "Suc num" "fst e" "snd e"] Suc.hyps(2) it'(2) ok(2) M by simp
  finally show ?case using M by simp
qed

lemma z_up_bound: "\<not> zlt ([CHR 0xFF], z_to []) e \<longleftrightarrow> z_up e"
  using Bytes_Int64_bounds [of "snd e"] by (auto simp: zlt_def z_to_def z_up_def Bytes_Int64_SCORE_MAX)

lemma member_score:
  assumes "zset_good s name" and "(k, sc) \<in> z_members s name"
  shows "sc \<noteq> []"
proof -
  have "filter_score sc = sc"
    using assms zset_goodD(4) [OF assms(1)] by (auto simp: z_members_def zset_ready_def scores_ok_def)
  moreover have "filter_score sc \<noteq> []"
    using str_int64_decimal [OF in_int64_Bytes_Int64, of sc] by (simp add: filter_score_def decimal_int_def)
  ultimately show ?thesis by auto
qed

definition start_ok :: "bytes \<Rightarrow> bytes \<Rightarrow> bytes \<Rightarrow> ssdb \<Rightarrow> bool" where
  "start_ok name k sc s \<longleftrightarrow> (\<forall>e \<in> z_members s name. z_up e \<longrightarrow> zlt (k, z_from sc) e) \<and> (sc = [] \<longrightarrow> k = [])"

definition z_found :: "ssdb \<Rightarrow> bytes \<Rightarrow> (bytes \<times> bytes) list" where
  "z_found s name = filter z_up (zset_list s name)"

lemma z_found_facts:
  assumes "zset_good s name"
  shows "set (z_found s name) = {e \<in> z_members s name. z_up e}" and "sorted_wrt zlt (z_found s name)"
    and "distinct (map fst (z_found s name))" and "\<forall>e \<in> set (z_found s name). hname_ok (fst e)"
proof -
  note r = zset_goodD [OF assms]
  show "set (z_found s name) = {e \<in> z_members s name. z_up e}"
    by (auto simp: z_found_def zset_list_set [OF r(4,3)] z_members_def)
  show "sorted_wrt zlt (z_found s name)" unfolding z_found_def by (rule sorted_wrt_filter [OF zset_list_sorted [OF r(4,3)]])
  show "distinct (map fst (z_found s name))"
    unfolding z_found_def by (rule distinct_map_filter [OF zset_list_distinct(1) [OF r(4,3)]])
  show "\<forall>e \<in> set (z_found s name). hname_ok (fst e)" using zset_list_ok [OF r(4,3)] by (auto simp: z_found_def)
qed

lemma zclear_scan:
  assumes "zset_good s name" and "start_ok name k sc s"
  shows "z_ok (zscan name k sc [] n s)" and "z_rest (zscan name k sc [] n s) = take (unat n) (z_found s name)"
proof -
  note r = zset_goodD [OF assms(1)]
  have e: "zscan name k sc [] n s = ziterator name k sc [] n FORWARD s"
    using assms(2) by (auto simp: zscan_def scan_score_def start_ok_def)
  show "z_ok (zscan name k sc [] n s)" unfolding e by (rule ziterator_z_rest(1) [OF r(4,3)])
  have "filter (\<lambda>e. zlt (k, z_from sc) e \<and> \<not> zlt ([CHR 0xFF], z_to []) e) (zset_list s name) = z_found s name"
    unfolding z_found_def
  proof (rule filter_cong [OF refl])
    fix e assume "e \<in> set (zset_list s name)"
    then have "e \<in> z_members s name" by (simp add: zset_list_set [OF r(4,3)] z_members_def)
    then show "(zlt (k, z_from sc) e \<and> \<not> zlt ([CHR 0xFF], z_to []) e) = z_up e"
      using assms(2) z_up_bound [of e] by (auto simp: start_ok_def)
  qed
  then show "z_rest (zscan name k sc [] n s) = take (unat n) (z_found s name)"
    unfolding e ziterator_z_rest(2) [OF r(4,3)] by simp
qed

lemma set_minus_take:
  assumes "distinct xs"
  shows "set xs - set (take n xs) = set (drop n xs)"
proof -
  have "set xs = set (take n xs) \<union> set (drop n xs)" by (metis append_take_drop_id set_append)
  with set_take_disj_set_drop_if_distinct [OF assms order.refl, of n] show ?thesis by blast
qed

lemma sorted_zlt_unique: "sorted_wrt zlt xs \<Longrightarrow> sorted_wrt zlt ys \<Longrightarrow> set xs = set ys \<Longrightarrow> xs = ys"
proof (induction xs arbitrary: ys)
  case (Cons x xs)
  then obtain y ys' where ys: "ys = y # ys'" by (cases ys) auto
  have "y \<in> set (x # xs)" using Cons.prems(3) unfolding ys by simp
  then have "y = x \<or> zlt x y" using Cons.prems(1) unfolding sorted_wrt.simps list.set by blast
  moreover have "x \<in> set (y # ys')" using Cons.prems(3) unfolding ys by (metis list.set_intros(1))
  then have "x = y \<or> zlt y x" using Cons.prems(2) unfolding ys sorted_wrt.simps list.set by blast
  ultimately have eq: "x = y" using zlt_trans [of x y x] zlt_irrefl [of x] by blast
  have "x \<notin> set xs" "y \<notin> set ys'" using Cons.prems(1,2) zlt_irrefl unfolding ys sorted_wrt.simps by blast+
  then have "set xs = set ys'" using Cons.prems(3) eq unfolding ys by (simp add: insert_ident)
  with Cons.IH [of ys'] Cons.prems(1,2) eq show ?case unfolding ys by simp
qed simp

lemma start_ok_first: "start_ok name [] [] s"
  unfolding start_ok_def z_members_def using z_bounds(1) view_ok by fastforce

text \<open>After a round the rest of the set is beyond the last member that was deleted.\<close>

lemma zclear_next:
  assumes "zset_good s name" and "M = take n (z_found s name)" and "M \<noteq> []" and "removed name M s s'"
  shows "start_ok name (fst (last M)) (snd (last M)) s'" and "z_found s' name = drop n (z_found s name)"
proof -
  note f = z_found_facts [OF assms(1)]
  have sub: "set M \<subseteq> z_members s name" using f(1) assms(2) by (auto dest: in_set_takeD)
  have good: "zset_good s' name" using assms(4) by (simp add: removed_def)
  note f' = z_found_facts [OF good]
  have dist: "distinct (z_found s name)" using f(3) by (simp add: distinct_map)
  have rest: "{e \<in> z_members s' name. z_up e} = set (drop n (z_found s name))"
    using removed_members [OF assms(4) sub] f(1) set_minus_take [OF dist, of n] assms(2) by auto
  show "z_found s' name = drop n (z_found s name)"
    by (rule sorted_zlt_unique [OF f'(2)]) (use f(2) f'(1) rest in \<open>auto intro: sorted_wrt_drop\<close>)
  have "sorted_wrt zlt (M @ drop n (z_found s name))" using f(2) assms(2) by simp
  then have "zlt (last M) e" if "e \<in> set (drop n (z_found s name))" for e
    using that assms(3) by (simp add: sorted_wrt_append)
  moreover have "snd (last M) \<noteq> []" using member_score [OF assms(1), of "fst (last M)" "snd (last M)"] sub last_in_set [OF assms(3)] by auto
  ultimately show "start_ok name (fst (last M)) (snd (last M)) s'"
    using rest by (auto simp: start_ok_def z_from_def)
qed

lemma zclear_loop_correct:
  assumes "zset_good s name" and "start_ok name k sc s"
  shows "\<exists>s'. zclear_loop name c k sc s = Some (s', Some (c + length (z_found s name))) \<and> removed name (z_found s name) s s'"
  using assms
proof (induction "length (z_found s name)" arbitrary: s c k sc rule: less_induct)
  case less
  let ?M = "take 1000 (z_found s name)" and ?s = "zdel_all name (take 1000 (z_found s name)) s"
  note f = z_found_facts [OF less.prems(1)]
  have u: "unat (1000 :: u64) = 1000" by simp
  have ok: "\<forall>e \<in> set ?M. hname_ok (fst e)" using f(4) by (auto dest: in_set_takeD)
  have b: "zclear_batch name (zscan name k sc [] 1000 s) s 0 k sc = (?s, Some (length ?M, last ((k, sc) # ?M)))"
    using zclear_batch_correct [OF less.prems(1) zclear_scan(1) [OF less.prems], of 1000] ok zclear_scan(2) [OF less.prems, of 1000] u
    by simp
  note rem = zdel_all_removed [OF less.prems(1) ok]
  show ?case
  proof (cases "?M = []")
    case True
    then have "z_found s name = []" by (cases "z_found s name") auto
    with True b less.prems(1) show ?thesis by (simp add: zclear_loop.simps [of name c] removed_nil)
  next
    case False
    note n = zclear_next [OF less.prems(1) refl False rem]
    have len: "length (z_found ?s name) < length (z_found s name)" using False n(2) by (cases "z_found s name") auto
    have "zset_good ?s name" using rem by (simp add: removed_def)
    from less.hyps [OF len this n(1), of "c + length ?M"] obtain s' where
      s': "zclear_loop name (c + length ?M) (fst (last ?M)) (snd (last ?M)) ?s = Some (s', Some (c + length ?M + length (z_found ?s name)))"
        "removed name (z_found ?s name) ?s s'" by auto
    have "length ?M + length (z_found ?s name) = length (z_found s name)" unfolding n(2) by simp
    moreover have "removed name (z_found s name) s s'"
      using removed_trans [OF rem s'(2)] n(2) by simp
    moreover have "zclear_loop name c k sc s = zclear_loop name (c + length ?M) (fst (last ?M)) (snd (last ?M)) ?s"
    proof -
      obtain a d where l: "last ?M = (a, d)" by fastforce
      have "min (length (z_found s name)) 1000 \<noteq> 0" using False by (cases "z_found s name") auto
      then show ?thesis using l False unfolding zclear_loop.simps [of name c k sc s] b
        by (auto simp: min_def split: if_splits)
    qed
    ultimately show ?thesis using s'(1) by (simp add: add.assoc)
  qed
qed

subsection \<open>Properties\<close>

lemma removed_zget:
  assumes "zset_good s name" and "removed name M s s'" and "set M \<subseteq> z_members s name" and "hname_ok n" and "hname_ok k"
  shows "zget n k s' = (if n = name \<and> k \<in> fst ` set M then NotFound else zget n k s)"
proof -
  have "io_ok s'" using assms(2) by (auto simp: removed_def intro: zset_goodD(1))
  with assms zget_io [of s n k] zget_io [of s' n k] zset_goodD(1) [OF assms(1)] show ?thesis
    by (simp add: removed_def restrict_map_def)
qed

lemma removed_zsize:
  assumes "zset_good s name" and "removed name M s s'" and "set M \<subseteq> z_members s name" and "distinct (map fst M)"
  shows "zsize name s' = zsize name s - int (length M)"
proof -
  have V: "dom (zcoll.view (data_map s') name) = dom (zcoll.view (data_map s) name) - fst ` set M"
    using assms(2) by (auto simp: removed_def)
  have sub: "fst ` set M \<subseteq> dom (zcoll.view (data_map s) name)" using assms(3) by (auto simp: z_members_def)
  have "card (fst ` set M) = length M" using distinct_card [OF assms(4)] by simp
  then have "card (dom (zcoll.view (data_map s') name)) = card (dom (zcoll.view (data_map s) name)) - length M"
      "length M \<le> card (dom (zcoll.view (data_map s) name))"
    using sub zset_goodD(6) [OF assms(1)] by (simp_all add: V card_Diff_subset finite_subset) (metis card_mono)
  moreover have "zset_good s' name" using assms(2) by (simp add: removed_def)
  ultimately show ?thesis using zsize_good assms(1) by (simp add: of_nat_diff)
qed

lemma z_members_zget:
  assumes "zset_good s name"
  shows "z_members s name = {(k, sc). hname_ok k \<and> zget name k s = Found sc}"
  using zget_members [OF assms] by (auto simp: z_members_def)

text \<open>C26. \<open>zclear\<close> ends: it answers the number of members it found and removes them all, a thousand in a round, and
  nothing else. It finds all members but those of the largest score whose keys are above \<open>"\xff"\<close>.\<close>

theorem zclear_empties:
  assumes "zset_good (sdb sv) name"
  shows "\<exists>s' M. proc_zclear e [c, name] sv = Some (sv\<lparr>sdb := s'\<rparr>, [''ok'', decimal_int (int (length M))], 0) \<and>
    distinct M \<and> set M = {(k, sc). hname_ok k \<and> zget name k (sdb sv) = Found sc \<and> (Bytes_Int64 sc < INT64_MAX \<or> k \<le> [CHR 0xFF])} \<and>
    zset_good s' name \<and> zsize name s' = zsize name (sdb sv) - int (length M) \<and>
    (\<forall>n k. hname_ok n \<and> hname_ok k \<longrightarrow> zget n k s' = (if n = name \<and> k \<in> fst ` set M then NotFound else zget n k (sdb sv))) \<and>
    (\<forall>x. key_type x \<notin> {type_char ZSET, type_char ZSIZE, type_char ZSCORE} \<longrightarrow> data_map s' x = data_map (sdb sv) x)"
proof -
  let ?s = "sdb sv"
  let ?M = "z_found ?s name"
  note f = z_found_facts [OF assms]
  from zclear_loop_correct [OF assms start_ok_first, of 0] obtain s' where
    s': "zclear_loop name 0 [] [] ?s = Some (s', Some (length ?M))" "removed name ?M ?s s'" by auto
  have sub: "set ?M \<subseteq> z_members ?s name" using f(1) by auto
  have set: "set ?M = {(k, sc). hname_ok k \<and> zget name k ?s = Found sc \<and> (Bytes_Int64 sc < INT64_MAX \<or> k \<le> [CHR 0xFF])}"
    unfolding f(1) z_members_zget [OF assms] by (auto simp: z_up_def)
  note sz = removed_zsize [OF assms s'(2) sub f(3)]
  have good: "zset_good s' name" using s'(2) by (simp add: removed_def)
  have "int (length ?M) < 2 ^ 63"
    using sz zsize_good [OF assms] zsize_good [OF good] zset_goodD(5) [OF assms] by (simp add: size_fits_def)
  then have "proc_zclear e [c, name] sv = Some (sv\<lparr>sdb := s'\<rparr>, [''ok'', decimal_int (int (length ?M))], 0)"
    using s'(1) answer_int_ok [of "int (length ?M)"] by (simp add: proc_zclear_def check_num_params_def)
  moreover have "distinct ?M" using f(3) by (simp add: distinct_map)
  ultimately show ?thesis
    using set good sz removed_zget [OF assms s'(2) sub] s'(2) by (intro exI [of _ s'] exI [of _ ?M]) (simp add: removed_def z_types_def)
qed

text \<open>\<open>zpop_front\<close> answers the first members of the order by score and key, with their scores, as many as asked for, and
  removes exactly these; \<open>zpop_back\<close> does the same from the end of the order, where no member of the largest score
  is found.\<close>

theorem zpop_pops:
  assumes "zset_good (sdb sv) name"
  shows "\<exists>L F B s1 s2. sorted_wrt zlt L \<and> set L = {(k, sc). hname_ok k \<and> zget name k (sdb sv) = Found sc} \<and>
    F = take (unat (Bytes_Uint64 l)) (filter (\<lambda>(k, sc). Bytes_Int64 sc < INT64_MAX \<or> k \<le> [CHR 0xFF]) L) \<and>
    B = take (unat (Bytes_Uint64 l)) (rev (filter (\<lambda>(k, sc). Bytes_Int64 sc < INT64_MAX) L)) \<and>
    proc_zpop_front e [c, name, l] sv = Some (sv\<lparr>sdb := s1\<rparr>, ''ok'' # flat_pairs F, 0) \<and>
    proc_zpop_back e [c, name, l] sv = Some (sv\<lparr>sdb := s2\<rparr>, ''ok'' # flat_pairs B, 0) \<and>
    zset_good s1 name \<and> zset_good s2 name \<and>
    (\<forall>n k. hname_ok n \<and> hname_ok k \<longrightarrow>
       zget n k s1 = (if n = name \<and> k \<in> fst ` set F then NotFound else zget n k (sdb sv)) \<and>
       zget n k s2 = (if n = name \<and> k \<in> fst ` set B then NotFound else zget n k (sdb sv)))"
proof -
  let ?s = "sdb sv" and ?l = "Bytes_Uint64 l"
  let ?L = "zset_list ?s name"
  note r = zset_goodD [OF assms]
  have u: "z_up = (\<lambda>(k, sc). Bytes_Int64 sc < INT64_MAX \<or> k \<le> [CHR 0xFF])"
    and d: "z_down = (\<lambda>(k, sc). Bytes_Int64 sc < INT64_MAX)"
    by (auto simp: z_up_def z_down_def fun_eq_iff)
  let ?F = "take (unat ?l) (filter z_up ?L)" and ?B = "take (unat ?l) (rev (filter z_down ?L))"
  have L: "set ?L = z_members ?s name" by (simp add: zset_list_set [OF r(4,3)] z_members_def)
  have zf: "z_ok (zscan name [] [] [] ?l ?s)" "z_rest (zscan name [] [] [] ?l ?s) = ?F"
    using zclear_scan [OF assms start_ok_first, of ?l] by (simp_all add: z_found_def)
  have zb: "z_ok (zrscan name [] [] [] ?l ?s)" "z_rest (zrscan name [] [] [] ?l ?s) = ?B"
    using ziterator_z_rest(1) [OF r(4,3)] z_rest_all(2) [OF r(4,3)] by (simp_all add: zrscan_def scan_score_def)
  have sub: "set ?F \<subseteq> z_members ?s name" "set ?B \<subseteq> z_members ?s name"
    by (rule order.trans [OF set_take_subset]; auto simp: L)+
  have dist: "distinct (map fst ?F)" "distinct (map fst ?B)"
    using distinct_map_filter [OF zset_list_distinct(1) [OF r(4,3)]]
    by (simp_all add: take_map [symmetric] rev_map [symmetric] distinct_take)
  have ok: "\<forall>e \<in> set ?F. hname_ok (fst e)" "\<forall>e \<in> set ?B. hname_ok (fst e)"
    using sub z_members_ok by blast+
  note p = zpop_correct [OF assms zf(1), unfolded zf(2), OF sub(1) dist(1)] zpop_correct [OF assms zb(1), unfolded zb(2), OF sub(2) dist(2)]
  note rem = zdel_all_removed [OF assms ok(1)] zdel_all_removed [OF assms ok(2)]
  let ?s1 = "zdel_all name ?F ?s" and ?s2 = "zdel_all name ?B ?s"
  have pop: "proc_zpop_front e [c, name, l] sv = Some (sv\<lparr>sdb := ?s1\<rparr>, ''ok'' # flat_pairs ?F, 0)"
      "proc_zpop_back e [c, name, l] sv = Some (sv\<lparr>sdb := ?s2\<rparr>, ''ok'' # flat_pairs ?B, 0)"
    using p(1) [of "[''ok'']"] p(2) [of "[''ok'']"] by (simp_all add: proc_zpop_front_def proc_zpop_back_def server_defs Let_def)
  have good: "zset_good ?s1 name" "zset_good ?s2 name" using rem by (simp_all add: removed_def)
  have get: "\<forall>n k. hname_ok n \<and> hname_ok k \<longrightarrow>
       zget n k ?s1 = (if n = name \<and> k \<in> fst ` set ?F then NotFound else zget n k ?s) \<and>
       zget n k ?s2 = (if n = name \<and> k \<in> fst ` set ?B then NotFound else zget n k ?s)"
    using removed_zget [OF assms rem(1) sub(1)] removed_zget [OF assms rem(2) sub(2)] by blast
  have mem: "set ?L = {(k, sc). hname_ok k \<and> zget name k ?s = Found sc}" unfolding L by (rule z_members_zget [OF assms])
  have srt: "sorted_wrt zlt ?L" by (rule zset_list_sorted [OF r(4,3)])
  show ?thesis unfolding u [symmetric] d [symmetric]
    by (rule exI [of _ ?L], rule exI [of _ ?F], rule exI [of _ ?B], rule exI [of _ ?s1], rule exI [of _ ?s2], intro conjI refl)
       (fact srt mem pop good get)+
qed

lemma zrange_any:
  assumes "zset_good s name"
  shows "z_ok (zrange name offset limit s)" and "z_rest (zrange name offset limit s) =
    drop (unat offset) (take (unat (if offset + limit > limit then offset + limit else limit)) (z_found s name))"
proof -
  note r = zset_goodD [OF assms(1)]
  let ?l = "if offset + limit > limit then offset + limit else limit"
  note skip = ZIterator_skip_rest [OF ziterator_z_rest(1) [OF r(4,3)], of "unat offset" "[]" "[]" "[]" ?l FORWARD]
  show "z_ok (zrange name offset limit s)" using skip by (simp add: zrange_def ZIterator_skip_def Let_def)
  show "z_rest (zrange name offset limit s) = drop (unat offset) (take (unat ?l) (z_found s name))"
    using skip z_rest_all(1) [OF r(4,3), of ?l] by (simp only: zrange_def ZIterator_skip_def Let_def z_found_def)
qed

text \<open>The positions that a \<open>start\<close> and an \<open>end\<close> mean, with the wrap-around of \<open>end - start + 1\<close>.\<close>

definition rank_slice :: "u64 \<Rightarrow> u64 \<Rightarrow> 'a list \<Rightarrow> 'a list" where
  "rank_slice a b L =
     (if b + 1 = a then [] else if a \<le> b \<and> b \<noteq> UINT64_MAX then drop (unat a) (take (Suc (unat b)) L) else drop (unat a) L)"

lemma rank_slice_range:
  assumes "length L < 2 ^ 63"
  shows "drop (unat a) (take (unat (if a + (b - a + 1) > b - a + 1 then a + (b - a + 1) else b - a + 1)) L) = rank_slice a b L"
proof -
  let ?A = "unat a" and ?B = "unat b" and ?n = "b - a + 1"
  have lt: "?A < 2 ^ 64" "?B < 2 ^ 64" using unsigned_less [of a] unsigned_less [of b] by simp_all
  have s: "a + ?n = b + 1" by simp
  have m: "b = UINT64_MAX \<longleftrightarrow> ?B = 2 ^ 64 - 1" by (simp add: UINT64_MAX_def word_unat_eq_iff)
  have b1: "unat (b + 1) = (if ?B = 2 ^ 64 - 1 then 0 else ?B + 1)" using lt by (auto simp: unat_word_ariths)
  have d: "unat (b - a) = (if ?A \<le> ?B then ?B - ?A else ?B + 2 ^ 64 - ?A)" by (simp add: unat_sub_if')
  have n: "unat ?n = (if ?A \<le> ?B then (if ?B - ?A = 2 ^ 64 - 1 then 0 else ?B - ?A + 1) else if ?A = ?B + 1 then 0 else ?B + 2 ^ 64 - ?A + 1)"
    using lt d by (auto simp: unat_word_ariths)
  have w: "b + 1 = a \<longleftrightarrow> unat (b + 1) = ?A" by (simp add: word_unat_eq_iff)
  have all: "drop ?A (take k L) = drop ?A L" if "2 ^ 64 - ?A \<le> k" for k
  proof (cases "length L \<le> k")
    case False
    then have "length L \<le> ?A" using that assms by simp
    then show ?thesis by simp
  qed simp
  show ?thesis unfolding s
  proof (cases "b + 1 = a")
    case True
    then have "drop ?A (take (unat (if b + 1 > ?n then b + 1 else ?n)) L) = []" using n b1 lt w by (auto simp: word_less_nat_alt)
    then show "drop ?A (take (unat (if ?n < b + 1 then b + 1 else ?n)) L) = rank_slice a b L" using True by (simp add: rank_slice_def)
  next
    case ne: False
    show "drop ?A (take (unat (if ?n < b + 1 then b + 1 else ?n)) L) = rank_slice a b L"
    proof (cases "a \<le> b \<and> b \<noteq> UINT64_MAX")
      case True
      then have "unat (if ?n < b + 1 then b + 1 else ?n) = Suc ?B" using n b1 lt m by (auto simp: word_less_nat_alt word_le_nat_alt)
      then show ?thesis using True ne by (simp add: rank_slice_def)
    next
      case False
      then have "2 ^ 64 - ?A \<le> unat (if ?n < b + 1 then b + 1 else ?n)"
        using n b1 lt m ne w by (auto simp: word_less_nat_alt word_le_nat_alt)
      from all [OF this] show ?thesis using False ne by (auto simp: rank_slice_def)
    qed
  qed
qed


definition set_server :: server where
  "set_server = fresh_server\<lparr>sdb := set_db\<rparr>"

lemma set_server_db [simp]: "sdb set_server = set_db"
  by (simp add: set_server_def)

lemma set_db_found:
  "{(k, sc). hname_ok k \<and> zget ''z'' k set_db = Found sc \<and> (Bytes_Int64 sc < INT64_MAX \<or> k \<le> [CHR 0xFF])} = {(''a'', ''7'')}"
proof -
  have "hname_ok k \<and> zget ''z'' k set_db = Found sc \<and> (Bytes_Int64 sc < INT64_MAX \<or> k \<le> [CHR 0xFF]) \<longleftrightarrow> k = ''a'' \<and> sc = ''7''" for k sc
    using set_db_members [of k sc] by (auto simp: Bytes_Int64_7 INT64_MAX_def)
  then show ?thesis by auto
qed

lemma Bytes_Uint64_2: "unat (Bytes_Uint64 ''2'') = 2"
  by (simp add: Bytes_Uint64_def str_to_uint64_def strtoull_def strto_scan_def strto_sign_def c_str_def isspace_def isdigit_def
      schar_def UINT64_MAX_def)

lemma Bytes_Uint64_0: "Bytes_Uint64 ''0'' = 0"
  by (simp add: Bytes_Uint64_def str_to_uint64_def strtoull_def strto_scan_def strto_sign_def isspace_def isdigit_def UINT64_MAX_def)


theorem zclear_empties_witness:
  "\<exists>s'. proc_zclear env_2000 [''zclear'', ''z''] set_server = Some (set_server\<lparr>sdb := s'\<rparr>, [''ok'', ''1''], 0) \<and> zget ''z'' ''a'' s' = NotFound"
proof -
  have "zset_good (sdb set_server) ''z''" using set_db_facts(1) by simp
  note z = zclear_empties [OF this, of env_2000 "''zclear''", unfolded set_server_db]
  obtain s' M where
    w: "proc_zclear env_2000 [''zclear'', ''z''] set_server = Some (set_server\<lparr>sdb := s'\<rparr>, [''ok'', decimal_int (int (length M))], 0)"
      "distinct M" "set M = {(k, sc). hname_ok k \<and> zget ''z'' k set_db = Found sc \<and> (Bytes_Int64 sc < INT64_MAX \<or> k \<le> [CHR 0xFF])}"
      "\<forall>n k. hname_ok n \<and> hname_ok k \<longrightarrow> zget n k s' = (if n = ''z'' \<and> k \<in> fst ` set M then NotFound else zget n k set_db)"
    using z by blast
  have M: "set M = {(''a'', ''7'')}"
    unfolding w(3) by (rule set_db_found)
  then have "length M = 1" using distinct_card [OF w(2)] by simp
  moreover have "decimal_int 1 = ''1''" by code_simp
  ultimately show ?thesis using w(1,4) set_db_ok by (intro exI [of _ s']) (simp add: M)
qed

theorem zpop_pops_witness:
  "\<exists>s'. proc_zpop_front env_2000 [''zpop_front'', ''z'', ''2''] set_server = Some (set_server\<lparr>sdb := s'\<rparr>, [''ok'', ''a'', ''7''], 0) \<and>
     zget ''z'' ''a'' s' = NotFound"
proof -
  have g: "zset_good (sdb set_server) ''z''" using set_db_facts(1) by simp
  obtain L F s1 where w: "sorted_wrt zlt L" "set L = {(k, sc). hname_ok k \<and> zget ''z'' k set_db = Found sc}"
      "F = take (unat (Bytes_Uint64 ''2'')) (filter (\<lambda>(k, sc). Bytes_Int64 sc < INT64_MAX \<or> k \<le> [CHR 0xFF]) L)"
      "proc_zpop_front env_2000 [''zpop_front'', ''z'', ''2''] set_server = Some (set_server\<lparr>sdb := s1\<rparr>, ''ok'' # flat_pairs F, 0)"
      "\<forall>n k. hname_ok n \<and> hname_ok k \<longrightarrow> zget n k s1 = (if n = ''z'' \<and> k \<in> fst ` set F then NotFound else zget n k set_db)"
    using zpop_pops [OF g, of "''2''" env_2000 "''zpop_front''"] unfolding set_server_db by blast
  have "set L = {(''a'', ''7'')}" unfolding w(2) set_db_members by auto
  from sorted_singleton [OF w(1) this] have "F = [(''a'', ''7'')]" by (simp add: w(3) Bytes_Uint64_2 Bytes_Int64_7 INT64_MAX_def)
  then show ?thesis using w(4,5) set_db_ok by (intro exI [of _ s1]) simp
qed

end
