(* ===== verification/ProcQueue.thy ===== *)
theory ProcQueue
  imports ProcHash
begin

section \<open>Commands on queues (\<open>proc_queue.cpp\<close>)\<close>

text \<open>
  The handlers of queues. The commands that push or pop several items call the operation once for each, in a
  transaction of its own.
\<close>

subsection \<open>Loops\<close>

text \<open>Pushing all items: the database and the last size, \<open>None\<close> after an error.\<close>

fun qpush_items :: "(bytes \<Rightarrow> ssdb \<Rightarrow> ssdb \<times> int) \<Rightarrow> bytes list \<Rightarrow> int \<Rightarrow> ssdb \<Rightarrow> ssdb \<times> int option" where
  "qpush_items push [] sz s = (s, Some sz)"
| "qpush_items push (item # items) sz s =
     (let (s, sz) = push item s in if sz = -1 then (s, None) else qpush_items push items sz s)"

fun qpop_items :: "(ssdb \<Rightarrow> ssdb \<times> int \<times> bytes) \<Rightarrow> nat \<Rightarrow> bytes list \<Rightarrow> ssdb \<Rightarrow> ssdb \<times> bytes list" where
  "qpop_items pop 0 resp s = (s, resp)"
| "qpop_items pop (Suc sz) resp s =
     (let (s, ret, item) = pop s in if ret \<le> 0 then (s, resp) else qpop_items pop sz (resp @ [item]) s)"

text \<open>\<open>qtrim\<close> counts in an \<open>int\<close>; \<open>None\<close> is its overflow.\<close>

fun qtrim_items :: "(ssdb \<Rightarrow> ssdb \<times> int \<times> bytes) \<Rightarrow> nat \<Rightarrow> int \<Rightarrow> ssdb \<Rightarrow> (ssdb \<times> int) option" where
  "qtrim_items pop 0 count s = Some (s, count)"
| "qtrim_items pop (Suc sz) count s =
     (let (s, ret, item) = pop s
      in if ret \<le> 0 then Some (s, count)
         else if count + 1 \<ge> 2 ^ 31 then None
         else qtrim_items pop sz (count + 1) s)"

partial_function (option) qclear_loop :: "bytes \<Rightarrow> int \<Rightarrow> ssdb \<Rightarrow> (ssdb \<times> int option) option" where
  "qclear_loop name count s =
     (case qpop_front name SYNC s of
        (s', ret, item) \<Rightarrow>
          if ret = 0 then Some (s', Some count)
          else if ret = -1 then Some (s', None)
          else qclear_loop name (wrap64 (count + 1)) s')"

subsection \<open>Handlers\<close>

definition proc_qsize :: "request_env \<Rightarrow> bytes list \<Rightarrow> server \<Rightarrow> proc_result" where
  "proc_qsize e req sv = check_num_params 2 req sv (answer_count sv (qsize (req ! 1) (sdb sv)))"

definition proc_qfront :: "request_env \<Rightarrow> bytes list \<Rightarrow> server \<Rightarrow> proc_result" where
  "proc_qfront e req sv =
     check_num_params 2 req sv (
       let g = qfront (req ! 1) (sdb sv) in answer sv (reply_get (get_ret g) (Some (get_val g)) None []))"

definition proc_qback :: "request_env \<Rightarrow> bytes list \<Rightarrow> server \<Rightarrow> proc_result" where
  "proc_qback e req sv =
     check_num_params 2 req sv (
       let g = qback (req ! 1) (sdb sv) in answer sv (reply_get (get_ret g) (Some (get_val g)) None []))"

definition proc_qpush_func :: "(bytes \<Rightarrow> bytes \<Rightarrow> char \<Rightarrow> ssdb \<Rightarrow> ssdb \<times> int) \<Rightarrow> request_env \<Rightarrow> bytes list \<Rightarrow> server \<Rightarrow> proc_result" where
  "proc_qpush_func push e req sv =
     check_num_params 3 req sv (answer_sum sv (qpush_items (\<lambda>item. push (req ! 1) item SYNC) (drop 2 req) 0 (sdb sv)))"

definition proc_qpush_front :: "request_env \<Rightarrow> bytes list \<Rightarrow> server \<Rightarrow> proc_result" where
  "proc_qpush_front e req sv = proc_qpush_func qpush_front e req sv"

definition proc_qpush_back :: "request_env \<Rightarrow> bytes list \<Rightarrow> server \<Rightarrow> proc_result" where
  "proc_qpush_back e req sv = proc_qpush_func qpush_back e req sv"

definition proc_qpush :: "request_env \<Rightarrow> bytes list \<Rightarrow> server \<Rightarrow> proc_result" where
  "proc_qpush e req sv = proc_qpush_func qpush_back e req sv"

definition proc_qpop_func :: "(bytes \<Rightarrow> char \<Rightarrow> ssdb \<Rightarrow> ssdb \<times> int \<times> bytes) \<Rightarrow> request_env \<Rightarrow> bytes list \<Rightarrow> server \<Rightarrow> proc_result" where
  "proc_qpop_func pop e req sv =
     check_num_params 2 req sv (
       let sz = (if length req > 2 then Bytes_Uint64 (req ! 2) else 1)
       in if sz = 1
          then let (s, ret, item) = pop (req ! 1) SYNC (sdb sv) in answer (sv\<lparr>sdb := s\<rparr>) (reply_get ret (Some item) None [])
          else let (s, resp) = qpop_items (pop (req ! 1) SYNC) (unat sz) [''ok''] (sdb sv) in answer (sv\<lparr>sdb := s\<rparr>) resp)"

definition proc_qpop_front :: "request_env \<Rightarrow> bytes list \<Rightarrow> server \<Rightarrow> proc_result" where
  "proc_qpop_front e req sv = proc_qpop_func qpop_front e req sv"

definition proc_qpop_back :: "request_env \<Rightarrow> bytes list \<Rightarrow> server \<Rightarrow> proc_result" where
  "proc_qpop_back e req sv = proc_qpop_func qpop_back e req sv"

definition proc_qpop :: "request_env \<Rightarrow> bytes list \<Rightarrow> server \<Rightarrow> proc_result" where
  "proc_qpop e req sv = proc_qpop_func qpop_front e req sv"

definition proc_qtrim_func :: "(bytes \<Rightarrow> char \<Rightarrow> ssdb \<Rightarrow> ssdb \<times> int \<times> bytes) \<Rightarrow> request_env \<Rightarrow> bytes list \<Rightarrow> server \<Rightarrow> proc_result" where
  "proc_qtrim_func pop e req sv =
     check_num_params 2 req sv (
       let sz = (if length req > 2 then Bytes_Uint64 (req ! 2) else 1)
       in case qtrim_items (pop (req ! 1) SYNC) (unat sz) 0 (sdb sv) of
            None \<Rightarrow> None
          | Some (s, count) \<Rightarrow> answer_int (sv\<lparr>sdb := s\<rparr>) 0 count)"

definition proc_qtrim_front :: "request_env \<Rightarrow> bytes list \<Rightarrow> server \<Rightarrow> proc_result" where
  "proc_qtrim_front e req sv = proc_qtrim_func qpop_front e req sv"

definition proc_qtrim_back :: "request_env \<Rightarrow> bytes list \<Rightarrow> server \<Rightarrow> proc_result" where
  "proc_qtrim_back e req sv = proc_qtrim_func qpop_back e req sv"

definition proc_qlist :: "request_env \<Rightarrow> bytes list \<Rightarrow> server \<Rightarrow> proc_result" where
  "proc_qlist e req sv =
     check_num_params 4 req sv (
       let limit = Bytes_Uint64 (req ! 3) in answer sv (reply_list 0 (qlist (req ! 1) (req ! 2) limit (sdb sv)) []))"

definition proc_qrlist :: "request_env \<Rightarrow> bytes list \<Rightarrow> server \<Rightarrow> proc_result" where
  "proc_qrlist e req sv =
     check_num_params 4 req sv (
       let limit = Bytes_Uint64 (req ! 3) in answer sv (reply_list 0 (qrlist (req ! 1) (req ! 2) limit (sdb sv)) []))"

definition proc_qfix :: "request_env \<Rightarrow> bytes list \<Rightarrow> server \<Rightarrow> proc_result" where
  "proc_qfix e req sv =
     check_num_params 2 req sv (
       let (s, ret) = qfix (req ! 1) (sdb sv) in answer (sv\<lparr>sdb := s\<rparr>) (if ret = -1 then [''error''] else [''ok'']))"

text \<open>\<open>qclear\<close> returns -1 after an error, without a response; the server then closes the connection.\<close>

definition proc_qclear :: "request_env \<Rightarrow> bytes list \<Rightarrow> server \<Rightarrow> proc_result" where
  "proc_qclear e req sv =
     check_num_params 2 req sv (
       case qclear_loop (req ! 1) 0 (sdb sv) of
         None \<Rightarrow> None
       | Some (s, None) \<Rightarrow> Some (sv\<lparr>sdb := s\<rparr>, [], -1)
       | Some (s, Some count) \<Rightarrow> answer_int (sv\<lparr>sdb := s\<rparr>) 0 count)"

definition answer_slice :: "server \<Rightarrow> (int \<times> bytes list) option \<Rightarrow> proc_result" where
  "answer_slice sv r = (case r of None \<Rightarrow> None | Some (ret, list) \<Rightarrow> answer sv (reply_list ret list []))"

definition proc_qslice :: "request_env \<Rightarrow> bytes list \<Rightarrow> server \<Rightarrow> proc_result" where
  "proc_qslice e req sv =
     check_num_params 4 req sv (
       let begin = Bytes_Int64 (req ! 2); end = Bytes_Int64 (req ! 3)
       in answer_slice sv (qslice (req ! 1) begin end (sdb sv)))"

definition proc_qrange :: "request_env \<Rightarrow> bytes list \<Rightarrow> server \<Rightarrow> proc_result" where
  "proc_qrange e req sv =
     check_num_params 4 req sv (
       let begin = Bytes_Int64 (req ! 2); limit = sint (Bytes_Uint64 (req ! 3));
           end = (if limit \<ge> 0 then wrap64 (begin + limit - 1) else -1)
       in answer_slice sv (qslice (req ! 1) begin end (sdb sv)))"

definition proc_qget :: "request_env \<Rightarrow> bytes list \<Rightarrow> server \<Rightarrow> proc_result" where
  "proc_qget e req sv =
     check_num_params 3 req sv (
       let g = qget (req ! 1) (Bytes_Int64 (req ! 2)) (sdb sv) in answer sv (reply_get (get_ret g) (Some (get_val g)) None []))"

definition proc_qset :: "request_env \<Rightarrow> bytes list \<Rightarrow> server \<Rightarrow> proc_result" where
  "proc_qset e req sv =
     check_num_params 4 req sv (
       let (s, ret) = qset (req ! 1) (Bytes_Int64 (req ! 2)) (req ! 3) SYNC (sdb sv)
       in answer (sv\<lparr>sdb := s\<rparr>) (if ret = -1 \<or> ret = 0 then [''error'', ''index out of range''] else [''ok'']))"

subsection \<open>Properties\<close>

lemma q_frame_trans: "q_frame n s s' \<Longrightarrow> q_frame n s' s'' \<Longrightarrow> q_frame n s s''"
  by (simp add: q_frame_def)

lemma q_frame_same: "data_map s' = data_map s \<Longrightarrow> q_frame n s s'"
  by (simp add: q_frame_def)

lemma q_rep_pop_empty:
  assumes "q_rep s n a b []"
  shows "q_rep (fst (qpop_front n lt s)) n a b []" and "q_rep (fst (qpop_back n lt s)) n a b []"
  using assms qpop_empty_correct [OF assms, of lt] io_ok_run [OF _ qpop_run]
  by (auto simp: q_rep_def qpop_front_def qpop_back_def)

lemma qpush_items_correct:
  assumes "q_rep s n a (b + length items) l" and "items \<noteq> []"
  shows "\<exists>s'. qpush_items (\<lambda>item. qpush_back n item lt) items sz s = (s', Some (int (length l + length items))) \<and>
    q_rep s' n a b (l @ items) \<and> q_frame n s s'"
  using assms
proof (induction items arbitrary: s l sz)
  case (Cons x items)
  have r: "q_rep s n a (Suc (b + length items)) l" using Cons.prems(1) by simp
  note p = qpush_back_correct [OF r, of x lt]
  let ?s = "fst (qpush_back n x lt s)"
  have step: "qpush_items (\<lambda>item. qpush_back n item lt) (x # items) sz s =
      qpush_items (\<lambda>item. qpush_back n item lt) items (int (length l) + 1) ?s"
    using p(2) by (simp add: case_prod_unfold Let_def)
  show ?case
  proof (cases items)
    case Nil
    then show ?thesis using step p by (simp add: add.commute)
  next
    case (Cons y ys)
    from Cons.IH [OF p(1), of "int (length l) + 1"] this show ?thesis
      using step q_frame_trans [OF p(3)] by auto
  qed
qed simp

lemma qpop_front_items:
  assumes "q_rep s n a b l"
  shows "\<exists>s'. qpop_items (qpop_front n lt) k resp s = (s', resp @ take k l) \<and> q_rep s' n a b (drop k l) \<and> q_frame n s s'"
  using assms
proof (induction k arbitrary: s l resp)
  case (Suc k)
  show ?case
  proof (cases l)
    case Nil
    then have r: "q_rep s n a b []" using Suc.prems by simp
    show ?thesis using qpop_empty_correct(1) [OF r, of lt] q_rep_pop_empty(1) [OF r, of lt] Nil
      by (auto simp: case_prod_unfold Let_def q_frame_def)
  next
    case (Cons x xs)
    then have "q_rep s n a b (x # xs)" using Suc.prems by simp
    note p = qpop_front_correct [OF this, of lt]
    from Suc.IH [OF p(1), of "resp @ [x]"] Cons p(2) q_frame_trans [OF p(3)] show ?thesis
      by (auto simp: case_prod_unfold Let_def)
  qed
qed (auto simp: q_frame_def)

lemma qpop_back_items:
  assumes "q_rep s n a b (rev l)"
  shows "\<exists>s'. qpop_items (qpop_back n lt) k resp s = (s', resp @ take k l) \<and> q_rep s' n a b (rev (drop k l)) \<and> q_frame n s s'"
  using assms
proof (induction k arbitrary: s l resp)
  case (Suc k)
  show ?case
  proof (cases l)
    case Nil
    then have r: "q_rep s n a b []" using Suc.prems by simp
    show ?thesis using qpop_empty_correct(2) [OF r, of lt] q_rep_pop_empty(2) [OF r, of lt] Nil
      by (auto simp: case_prod_unfold Let_def q_frame_def)
  next
    case (Cons x xs)
    then have "q_rep s n a b (rev xs @ [x])" using Suc.prems by simp
    note p = qpop_back_correct [OF this, of lt]
    from Suc.IH [OF p(1), of "resp @ [x]"] Cons p(2) q_frame_trans [OF p(3)] show ?thesis
      by (auto simp: case_prod_unfold Let_def)
  qed
qed (auto simp: q_frame_def)

text \<open>A queue is first in, first out: \<open>qpush_back\<close> with any number of items answers the new size; \<open>qpop_front\<close>
  with a count then answers the oldest items in the order in which they came, \<open>qpop_back\<close> the newest in the
  reverse order, as many as asked for or as there are; the other items stay, and no key outside of the queue
  changes.\<close>

theorem qpush_qpop_commands:
  assumes "q_rep (sdb sv) name a (b + length items) l" and "items \<noteq> []" and "Bytes_Uint64 c \<noteq> 1"
  shows "\<exists>sv' s1 s2. proc_qpush_back e (x # name # items) sv = Some (sv', [''ok'', decimal_int (int (length l + length items))], 0) \<and>
    proc_qpop_front e [y, name, c] sv' = Some (sv'\<lparr>sdb := s1\<rparr>, ''ok'' # take (unat (Bytes_Uint64 c)) (l @ items), 0) \<and>
    q_rep s1 name a b (drop (unat (Bytes_Uint64 c)) (l @ items)) \<and> q_frame name (sdb sv) s1 \<and>
    proc_qpop_back e [y, name, c] sv' = Some (sv'\<lparr>sdb := s2\<rparr>, ''ok'' # take (unat (Bytes_Uint64 c)) (rev (l @ items)), 0) \<and>
    q_rep s2 name a b (rev (drop (unat (Bytes_Uint64 c)) (rev (l @ items)))) \<and> q_frame name (sdb sv) s2"
proof -
  let ?n = "unat (Bytes_Uint64 c)"
  obtain s' where s': "qpush_items (\<lambda>item. qpush_back name item SYNC) items 0 (sdb sv) = (s', Some (int (length l + length items)))"
      "q_rep s' name a b (l @ items)" "q_frame name (sdb sv) s'"
    using qpush_items_correct [OF assms(1,2), of SYNC 0] by blast
  obtain s1 where s1: "qpop_items (qpop_front name SYNC) ?n [''ok''] s' = (s1, ''ok'' # take ?n (l @ items))"
      "q_rep s1 name a b (drop ?n (l @ items))" "q_frame name s' s1"
    using qpop_front_items [OF s'(2), of SYNC ?n "[''ok'']"] by auto
  obtain s2 where s2: "qpop_items (qpop_back name SYNC) ?n [''ok''] s' = (s2, ''ok'' # take ?n (rev (l @ items)))"
      "q_rep s2 name a b (rev (drop ?n (rev (l @ items))))" "q_frame name s' s2"
    using qpop_back_items [of s' name a b "rev (l @ items)" SYNC ?n "[''ok'']"] s'(2) by auto
  have "int (length l + length items) < 2 ^ 63" using s'(2) by (auto simp: q_rep_def q_room_def)
  then have "proc_qpush_back e (x # name # items) sv = Some (sv\<lparr>sdb := s'\<rparr>, [''ok'', decimal_int (int (length l + length items))], 0)"
    using s'(1) assms(2) answer_int_ok [of "int (length l + length items)"]
    by (cases items) (simp_all add: proc_qpush_back_def proc_qpush_func_def check_num_params_def answer_sum_def)
  moreover have "proc_qpop_front e [y, name, c] (sv\<lparr>sdb := s'\<rparr>) = Some (sv\<lparr>sdb := s1\<rparr>, ''ok'' # take ?n (l @ items), 0)"
      "proc_qpop_back e [y, name, c] (sv\<lparr>sdb := s'\<rparr>) = Some (sv\<lparr>sdb := s2\<rparr>, ''ok'' # take ?n (rev (l @ items)), 0)"
    using s1(1) s2(1) assms(3) by (simp_all add: proc_qpop_front_def proc_qpop_back_def proc_qpop_func_def server_defs Let_def)
  ultimately show ?thesis
    using s1(2) s2(2) q_frame_trans [OF s'(3) s1(3)] q_frame_trans [OF s'(3) s2(3)]
    by (intro exI [of _ "sv\<lparr>sdb := s'\<rparr>"] exI [of _ s1] exI [of _ s2]) simp
qed

lemma qclear_loop_correct:
  assumes "q_rep s n a b l" and "0 \<le> c" and "c + int (length l) < 2 ^ 63"
  shows "\<exists>s'. qclear_loop n c s = Some (s', Some (c + int (length l))) \<and> q_rep s' n a b [] \<and> q_frame n s s'"
  using assms
proof (induction l arbitrary: s c)
  case Nil
  note p = qpop_empty_correct(1) [OF Nil.prems(1), of SYNC] q_rep_pop_empty(1) [OF Nil.prems(1), of SYNC]
  then show ?case by (auto simp: qclear_loop.simps [of n c s] case_prod_unfold q_frame_def)
next
  case (Cons x l)
  note p = qpop_front_correct [OF Cons.prems(1), of SYNC]
  have w: "wrap64 (c + 1) = c + 1" using Cons.prems(2,3) by (intro wrap64_id) (simp add: in_int64_def)
  have "qclear_loop n c s = qclear_loop n (c + 1) (fst (qpop_front n SYNC s))"
    using p(2) w by (simp add: qclear_loop.simps [of n c s] case_prod_unfold)
  with Cons.IH [OF p(1), of "c + 1"] Cons.prems(2,3) q_frame_trans [OF p(3)] show ?case by auto
qed

text \<open>\<open>qclear\<close> ends: it answers the number of items the queue had and leaves it empty, and everything outside
  of the queue as it was.\<close>

theorem qclear_empties:
  assumes "q_rep (sdb sv) name a b l"
  shows "\<exists>s'. proc_qclear e [c, name] sv = Some (sv\<lparr>sdb := s'\<rparr>, [''ok'', decimal_int (int (length l))], 0) \<and>
    q_rep s' name a b [] \<and> q_frame name (sdb sv) s'"
proof -
  have l: "int (length l) < 2 ^ 63" using assms by (auto simp: q_rep_def q_room_def)
  obtain s' where s': "qclear_loop name 0 (sdb sv) = Some (s', Some (int (length l)))" "q_rep s' name a b []" "q_frame name (sdb sv) s'"
    using qclear_loop_correct [OF assms, of 0] l by auto
  then show ?thesis using answer_int_ok [OF _ l] by (intro exI [of _ s']) (simp add: proc_qclear_def check_num_params_def)
qed

definition queue_server :: server where
  "queue_server = fresh_server\<lparr>sdb := queue_db\<rparr>"

theorem qclear_empties_witness:
  "\<exists>s'. proc_qclear env_2000 [''qclear'', ''q''] queue_server = Some (queue_server\<lparr>sdb := s'\<rparr>, [''ok'', ''1''], 0) \<and> q_rep s' ''q'' 9 9 []"
proof -
  have "q_rep (sdb queue_server) ''q'' 9 9 [''x'']" using queue_db_rep by (simp add: queue_server_def)
  moreover have "decimal_int 1 = ''1''" by code_simp
  ultimately show ?thesis using qclear_empties [of queue_server "''q''" 9 9 "[''x'']" env_2000 "''qclear''"] by auto
qed

theorem qpush_qpop_commands_witness:
  "\<exists>sv' s1. proc_qpush_back env_2000 [''qpush_back'', ''q'', ''a'', ''b''] queue_server = Some (sv', [''ok'', ''3''], 0) \<and>
     proc_qpop_front env_2000 [''qpop_front'', ''q'', ''0''] sv' = Some (sv'\<lparr>sdb := s1\<rparr>, [''ok''], 0) \<and> q_rep s1 ''q'' 9 7 [''x'', ''a'', ''b'']"
proof -
  have "q_rep (sdb queue_server) ''q'' 9 (7 + length [''a'', ''b'']) [''x'']" using queue_db_rep by (simp add: queue_server_def)
  moreover have "decimal_int 3 = ''3''" by code_simp
  moreover have "Bytes_Uint64 ''0'' = 0"
    by (simp add: Bytes_Uint64_def str_to_uint64_def strtoull_def strto_scan_def strto_sign_def c_str_def isspace_def isdigit_def schar_def)
  ultimately show ?thesis
    using qpush_qpop_commands [of queue_server "''q''" 9 7 "[''a'', ''b'']" "[''x'']" "''0''" env_2000 "''qpush_back''" "''qpop_front''"]
    by auto
qed

end
