(* ===== verification/IpFilter.thy ===== *)
theory IpFilter
  imports Strings "HOL-Library.Sublist"
begin

section \<open>The filter of addresses (\<open>util/ip_filter.h\<close>)\<close>

text \<open>
  A server admits a client by its address. A rule is stored as the text of the rule and one character:
  \<open>=\<close> for a full address and \<open>@\<close> for the first part of one; both are above the characters of an address. The
  ordered sets of rules are sorted lists without duplicates.
\<close>

record ip_filter =
  allow_all :: bool
  deny :: "bytes list"
  allow :: "bytes list"

definition IpFilter_new :: ip_filter where
  "IpFilter_new = \<lparr>allow_all = True, deny = [], allow = []\<rparr>"

definition is_full_ip :: "bytes \<Rightarrow> bool" where
  "is_full_ip ip_prefix = (length (filter (\<lambda>c. c = CHR ''.'') ip_prefix) = 3)"

text \<open>\<open>upper_bound\<close> of an ordered set: the first element above a value.\<close>

definition upper_bound :: "bytes list \<Rightarrow> bytes \<Rightarrow> bytes option" where
  "upper_bound m x = find (\<lambda>y. x < y) m"

definition check_hit :: "bytes list \<Rightarrow> bytes \<Rightarrow> bool" where
  "check_hit m ip =
     (if m = [] then False
      else case upper_bound m ip of
             None \<Rightarrow> False
           | Some rule \<Rightarrow>
               let len = length rule - 1
               in if rule ! len = CHR ''='' then take len rule = ip
                  else if length ip > len then take len ip = take len rule
                  else False)"

definition rule_of :: "bytes \<Rightarrow> bytes" where
  "rule_of ip_prefix = ip_prefix @ (if is_full_ip ip_prefix then ''='' else ''@'')"

definition is_all :: "bytes \<Rightarrow> bool" where
  "is_all ip_prefix = (ip_prefix = ''all'' \<or> ip_prefix = ''*'')"

definition add_allow :: "bytes \<Rightarrow> ip_filter \<Rightarrow> ip_filter" where
  "add_allow ip_prefix f =
     (if is_all ip_prefix then f\<lparr>allow_all := True\<rparr>
      else f\<lparr>allow_all := False, allow := insort_insert (rule_of ip_prefix) (allow f)\<rparr>)"

definition del_allow :: "bytes \<Rightarrow> ip_filter \<Rightarrow> ip_filter" where
  "del_allow ip_prefix f =
     (if is_all ip_prefix then f\<lparr>allow_all := False\<rparr>
      else f\<lparr>allow := remove1 (rule_of ip_prefix) (allow f)\<rparr>)"

definition add_deny :: "bytes \<Rightarrow> ip_filter \<Rightarrow> ip_filter" where
  "add_deny ip_prefix f =
     (if is_all ip_prefix then f else f\<lparr>deny := insort_insert (rule_of ip_prefix) (deny f)\<rparr>)"

definition del_deny :: "bytes \<Rightarrow> ip_filter \<Rightarrow> ip_filter" where
  "del_deny ip_prefix f =
     (if is_all ip_prefix then f else f\<lparr>deny := remove1 (rule_of ip_prefix) (deny f)\<rparr>)"

definition check_pass :: "ip_filter \<Rightarrow> bytes \<Rightarrow> bool" where
  "check_pass f ip =
     (if check_hit (deny f) ip then False
      else if check_hit (allow f) ip then True
      else if allow_all f then True
      else False)"

text \<open>The loop of \<open>NetworkServer::init\<close> over the entries of the section \<open>server\<close> of the configuration.\<close>

definition init_rule :: "bytes \<times> bytes \<Rightarrow> ip_filter \<Rightarrow> ip_filter" where
  "init_rule c f =
     (let f = (if fst c = ''allow'' then add_allow (snd c) f else f)
      in if fst c = ''deny'' then add_deny (snd c) f else f)"

definition init_filter :: "(bytes \<times> bytes) list \<Rightarrow> ip_filter" where
  "init_filter children = fold init_rule children IpFilter_new"

subsection \<open>What a rule means\<close>

text \<open>A full address admits itself, any other text the addresses that it is the first part of.\<close>

definition rule_matches :: "bytes \<Rightarrow> bytes \<Rightarrow> bool" where
  "rule_matches r ip \<longleftrightarrow> (if is_full_ip r then ip = r else strict_prefix r ip)"

definition is_address :: "bytes \<Rightarrow> bool" where
  "is_address ip \<longleftrightarrow> (\<forall>c \<in> set ip. isdigit c \<or> c = CHR ''.'')"

text \<open>No rule is the first part of another.\<close>

definition unnested :: "bytes set \<Rightarrow> bool" where
  "unnested R \<longleftrightarrow> (\<forall>r \<in> R. \<forall>q \<in> R. prefix r q \<longrightarrow> r = q)"

lemma rule_of_eq [simp]: "rule_of r = rule_of q \<longleftrightarrow> r = q"
  by (auto simp: rule_of_def split: if_splits)

lemma check_hit_rule: "upper_bound m ip = Some (rule_of r) \<Longrightarrow> check_hit m ip \<longleftrightarrow> rule_matches r ip"
  by (auto simp: check_hit_def upper_bound_def rule_of_def rule_matches_def strict_prefix_def prefix_def nth_append)
     (metis append_take_drop_id)

lemma isdigit_less: "isdigit c \<or> c = CHR ''.'' \<Longrightarrow> c < CHR ''='' \<and> c < CHR ''@''"
  by (auto simp: isdigit_def less_char_def)

lemma append_less_iff: "(p @ x < p @ y) = (x < (y :: bytes))"
  by (induction p) simp_all

text \<open>Above an address and below a rule that matches it there are only rules that have that rule as first part.\<close>

lemma between_prefix:
  fixes x :: bytes
  assumes "p @ q < x" and "x < p @ t"
  shows "\<exists>z. x = p @ z \<and> q < z \<and> z < t"
  using assms
proof (induction p arbitrary: x)
  case (Cons c p)
  obtain d x' where x: "x = d # x'" using Cons.prems by (cases x) auto
  have "d = c" using Cons.prems by (auto simp: x)
  with Cons.prems have "p @ q < x'" "x' < p @ t" by (auto simp: x)
  from Cons.IH [OF this] show ?case using \<open>d = c\<close> x by auto
qed auto

lemma upper_bound_rule:
  assumes m: "m = map rule_of rs" "sorted m" and u: "unnested (set rs)" and ip: "is_address ip"
    and r: "r \<in> set rs" "rule_matches r ip"
  shows "upper_bound m ip = Some (rule_of r)"
proof -
  have up: "ip < rule_of r"
  proof (cases "is_full_ip r")
    case True
    then show ?thesis using r(2) using append_less_iff [of r "[]" "''=''"] by (simp add: rule_matches_def rule_of_def)
  next
    case False
    with r(2) obtain c q where q: "ip = r @ c # q" by (auto simp: rule_matches_def strict_prefix_def prefix_def) (metis list.exhaust)
    then have "c < CHR ''@''" using ip isdigit_less by (auto simp: is_address_def)
    then show ?thesis using False by (simp add: q rule_of_def append_less_iff)
  qed
  have least: "\<not> ip < rule_of q" if q: "q \<in> set rs" "rule_of q < rule_of r" for q
  proof
    assume lt: "ip < rule_of q"
    obtain e where e: "ip = r @ e" using r(2) by (auto simp: rule_matches_def strict_prefix_def prefix_def split: if_splits)
    obtain z where z: "rule_of q = r @ z" "e < z" using between_prefix [of r e "rule_of q"] lt q(2) e by (auto simp: rule_of_def)
    have "q \<noteq> r" using q(2) by auto
    then have "\<not> prefix r q" using u q(1) r(1) by (auto simp: unnested_def)
    moreover have "prefix r q"
    proof (cases z rule: rev_cases)
      case Nil
      with z(2) show ?thesis by simp
    next
      case (snoc y c)
      with z(1) have "q = r @ y" by (auto simp: rule_of_def split: if_splits)
      then show ?thesis by simp
    qed
    ultimately show False by simp
  qed
  have "\<exists>y. find (\<lambda>y. ip < y) m = Some y"
    using up r(1) by (auto simp: m(1) find_None_iff not_None_eq [symmetric] simp del: not_None_eq)
  then obtain y where y: "find (\<lambda>y. ip < y) m = Some y" by blast
  then obtain i where i: "i < length m" "ip < m ! i" "y = m ! i" "\<forall>j<i. \<not> ip < m ! j" by (auto simp: find_Some_iff)
  obtain j where j: "j < length m" "m ! j = rule_of r" using r(1) by (auto simp: m(1) in_set_conv_nth)
  have "i \<le> j" using i(4) j up by (metis linorder_not_less)
  then have "m ! i \<le> rule_of r" using sorted_nth_mono [OF m(2), of i j] j by simp
  moreover have "\<not> m ! i < rule_of r" using least i(1,2) by (auto simp: m(1))
  ultimately show ?thesis using y i(3) by (simp add: upper_bound_def)
qed

lemma check_hit_matches:
  assumes "m = map rule_of rs" and "sorted m" and "unnested (set rs)" and "is_address ip"
  shows "check_hit m ip \<longleftrightarrow> (\<exists>r \<in> set rs. rule_matches r ip)"
proof
  assume h: "check_hit m ip"
  then obtain y where y: "upper_bound m ip = Some y" by (auto simp: check_hit_def split: option.splits if_splits)
  then obtain r where r: "r \<in> set rs" "y = rule_of r" using assms(1) by (auto simp: upper_bound_def find_Some_iff) (metis nth_mem)
  have "rule_matches r ip" using h check_hit_rule [of m ip r] y r by simp
  with r show "\<exists>r \<in> set rs. rule_matches r ip" by blast
next
  assume "\<exists>r \<in> set rs. rule_matches r ip"
  then obtain r where r: "r \<in> set rs" "rule_matches r ip" by blast
  with check_hit_rule [OF upper_bound_rule [OF assms r]] show "check_hit m ip" by simp
qed

subsection \<open>The filter as two sets of rules\<close>

definition rules_rep :: "bytes list \<Rightarrow> bytes set \<Rightarrow> bool" where
  "rules_rep m R \<longleftrightarrow> sorted m \<and> distinct m \<and> set m = rule_of ` R"

definition filter_rep :: "ip_filter \<Rightarrow> bytes set \<Rightarrow> bytes set \<Rightarrow> bool" where
  "filter_rep f A D \<longleftrightarrow> rules_rep (allow f) A \<and> rules_rep (deny f) D"

lemma rules_rep_insert: "rules_rep m R \<Longrightarrow> rules_rep (insort_insert (rule_of r) m) (insert r R)"
  by (simp add: rules_rep_def sorted_insort_insert distinct_insort_insert set_insort_insert)

lemma rules_rep_remove: "rules_rep m R \<Longrightarrow> rules_rep (remove1 (rule_of r) m) (R - {r})"
  by (auto simp: rules_rep_def sorted_remove1)

lemma rules_rep_hit:
  assumes "rules_rep m R" and "unnested R" and "is_address ip"
  shows "check_hit m ip \<longleftrightarrow> (\<exists>r \<in> R. rule_matches r ip)"
proof -
  let ?rs = "map (inv_into R rule_of) m"
  have "rule_of (inv_into R rule_of x) = x" if "x \<in> set m" for x using that assms(1) by (auto simp: rules_rep_def f_inv_into_f)
  then have m: "m = map rule_of ?rs" by (simp add: map_idI)
  have inj: "inj_on rule_of R" by (auto simp: inj_on_def)
  have "set ?rs = R" using assms(1) inv_into_image_cancel [OF inj, of R] by (simp add: rules_rep_def)
  with check_hit_matches [OF m _ _ assms(3)] assms(1,2) show ?thesis by (simp only: rules_rep_def)
qed

lemma filter_rep_ops:
  assumes "filter_rep f A D"
  shows "filter_rep (add_allow r f) (if is_all r then A else insert r A) D"
    and "filter_rep (del_allow r f) (if is_all r then A else A - {r}) D"
    and "filter_rep (add_deny r f) A (if is_all r then D else insert r D)"
    and "filter_rep (del_deny r f) A (if is_all r then D else D - {r})"
  using assms rules_rep_insert rules_rep_remove
  by (simp_all add: filter_rep_def add_allow_def del_allow_def add_deny_def del_deny_def)

definition allowed :: "(bytes \<times> bytes) list \<Rightarrow> bytes set" where
  "allowed cs = {r. (''allow'', r) \<in> set cs \<and> \<not> is_all r}"

definition denied :: "(bytes \<times> bytes) list \<Rightarrow> bytes set" where
  "denied cs = {r. (''deny'', r) \<in> set cs \<and> \<not> is_all r}"

text \<open>Whether clients that no rule names are admitted: without a rule of the kind \<open>allow\<close>, or when the last is \<open>all\<close>.\<close>

definition default_open :: "(bytes \<times> bytes) list \<Rightarrow> bool" where
  "default_open cs = (case rev (filter (\<lambda>c. fst c = ''allow'') cs) of [] \<Rightarrow> True | c # _ \<Rightarrow> is_all (snd c))"

lemma init_filter_rep: "filter_rep (init_filter cs) (allowed cs) (denied cs) \<and> allow_all (init_filter cs) = default_open cs"
proof (induction cs rule: rev_induct)
  case Nil
  show ?case by (simp add: init_filter_def IpFilter_new_def filter_rep_def rules_rep_def allowed_def denied_def default_open_def)
next
  case (snoc c cs)
  have f: "init_filter (cs @ [c]) = init_rule c (init_filter cs)" by (simp add: init_filter_def)
  have sets: "allowed (cs @ [c]) = (if fst c = ''allow'' \<and> \<not> is_all (snd c) then insert (snd c) (allowed cs) else allowed cs)"
      "denied (cs @ [c]) = (if fst c = ''deny'' \<and> \<not> is_all (snd c) then insert (snd c) (denied cs) else denied cs)"
    by (cases c; auto simp: allowed_def denied_def)+
  have all: "allow_all (init_filter (cs @ [c])) = default_open (cs @ [c])"
    using snoc unfolding f by (simp add: init_rule_def add_allow_def add_deny_def default_open_def Let_def)
  from snoc filter_rep_ops(1) [of "init_filter cs" "allowed cs" "denied cs" "snd c"]
    filter_rep_ops(3) [of "init_filter cs" "allowed cs" "denied cs" "snd c"]
  have "filter_rep (init_filter (cs @ [c])) (allowed (cs @ [c])) (denied (cs @ [c]))"
    unfolding f sets init_rule_def Let_def by (cases "fst c = ''allow''"; cases "fst c = ''deny''"; simp split: if_splits)
  with all show ?case by simp
qed


definition lan_rules :: "(bytes \<times> bytes) list" where
  "lan_rules = [(''allow'', ''192.168''), (''deny'', ''192.168.0.7''), (''port'', ''8888'')]"

lemma lan_sets: "allowed lan_rules = {''192.168''}" "denied lan_rules = {''192.168.0.7''}" "\<not> default_open lan_rules"
  by (auto simp: allowed_def denied_def lan_rules_def is_all_def default_open_def)


text \<open>One lookup in the ordered set does not find every rule: next to a \<open>deny\<close> rule for a full address, a rule for an address
  that continues it by a digit hides the first, and the denied client is admitted.\<close>

theorem deny_rule_hidden:
  assumes "is_full_ip ip" and "isdigit d"
  shows "\<not> check_pass (init_filter [(''deny'', ip)]) ip \<and>
    check_pass (init_filter [(''deny'', ip), (''deny'', ip @ [d])]) ip"
proof -
  have all: "\<not> is_all ip" "\<not> is_all (ip @ [d])" using assms by (auto simp: is_all_def is_full_ip_def isdigit_def)
  have full: "is_full_ip (ip @ [d])" using assms by (auto simp: is_full_ip_def isdigit_def)
  have lt: "ip < ip @ ''=''" "ip < ip @ [d, CHR ''='']" "ip @ [d, CHR ''=''] < ip @ ''=''"
    using append_less_iff [of ip "[]"] append_less_iff [of ip "[d, CHR ''='']" "''=''"] isdigit_less [of d] assms(2) by simp_all
  have ne: "ip @ [d, CHR ''=''] \<noteq> ip @ ''=''" by simp
  have one: "deny (init_filter [(''deny'', ip)]) = [ip @ ''='']"
    using all assms by (simp add: init_filter_def init_rule_def add_deny_def IpFilter_new_def rule_of_def insort_insert_key_def)
  have two: "deny (init_filter [(''deny'', ip), (''deny'', ip @ [d])]) = [ip @ [d, CHR ''=''], ip @ ''='']"
    using all assms full lt by (simp add: init_filter_def init_rule_def add_deny_def IpFilter_new_def rule_of_def insort_insert_key_def)
  have al: "allow (init_filter [(''deny'', ip), (''deny'', ip @ [d])]) = []" "allow_all (init_filter [(''deny'', ip), (''deny'', ip @ [d])])"
    using all by (simp_all add: init_filter_def init_rule_def add_deny_def IpFilter_new_def)
  show ?thesis using lt by (simp add: check_pass_def one two al check_hit_def upper_bound_def nth_append)
qed

theorem deny_rule_hidden_witness:
  "\<not> check_pass (init_filter [(''deny'', ''10.0.0.1'')]) ''10.0.0.1'' \<and>
   check_pass (init_filter [(''deny'', ''10.0.0.1''), (''deny'', ''10.0.0.1'' @ ''0'')]) ''10.0.0.1''"
  by (rule deny_rule_hidden) (simp_all add: is_full_ip_def isdigit_def)

end
