(* ===== verification/NetProc.thy ===== *)
theory NetProc
  imports ProcHash ProcZset ProcQueue IpFilter "HOL-Library.AList"
begin

section \<open>Commands and their dispatch (\<open>net/proc.cpp\<close>, \<open>net/server.cpp\<close>, \<open>serv.cpp\<close>)\<close>

text \<open>
  The table of commands, the commands that the network server has itself, and \<open>NetworkServer::proc\<close>, which refuses a
  request, runs it or hands it to a pool of threads. A function pointer is the name of the function: those of
  \<open>net/server.cpp\<close> and those of \<open>serv.cpp\<close> and the files of handlers.
\<close>

datatype proc_t = Net_proc bytes | Serv_proc bytes

datatype cmd_flag = FLAG_READ | FLAG_WRITE | FLAG_BACKEND | FLAG_THREAD

record command =
  cmd_name :: bytes
  flags :: "cmd_flag set"
  cmd_proc :: proc_t
  calls :: u64

type_synonym proc_map = "(bytes \<times> command) list"

definition get_proc :: "proc_map \<Rightarrow> bytes \<Rightarrow> command option" where
  "get_proc m str = map_of m str"

definition flag_of :: "char \<Rightarrow> cmd_flag set" where
  "flag_of c =
     (if c = CHR ''r'' then {FLAG_READ}
      else if c = CHR ''w'' then {FLAG_WRITE, FLAG_THREAD}
      else if c = CHR ''b'' then {FLAG_BACKEND}
      else if c = CHR ''t'' then {FLAG_THREAD}
      else {})"

definition set_proc :: "bytes \<Rightarrow> bytes \<Rightarrow> proc_t \<Rightarrow> proc_map \<Rightarrow> proc_map" where
  "set_proc c sflags p m =
     (let cm = (case get_proc m c of None \<Rightarrow> \<lparr>cmd_name = c, flags = {}, cmd_proc = p, calls = 0\<rparr> | Some cm \<Rightarrow> cm)
      in AList.update c (cm\<lparr>cmd_proc := p, flags := \<Union>(flag_of ` set sflags)\<rparr>) m)"

text \<open>\<open>set_proc\<close> without flags.\<close>

definition set_proc_default :: "bytes \<Rightarrow> proc_t \<Rightarrow> proc_map \<Rightarrow> proc_map" where
  "set_proc_default c p m = set_proc c ''t'' p m"

text \<open>A connection: a link with its descriptor and the address of the other side.\<close>

record conn =
  conn_link :: link
  conn_fd :: nat
  remote_ip :: bytes

record net_server =
  link_count :: int
  need_auth :: bool
  password :: bytes
  net_filter :: ip_filter
  procs :: proc_map
  net_data :: server

type_synonym handler = "request_env \<Rightarrow> bytes list \<Rightarrow> server \<Rightarrow> proc_result"

type_synonym net_result = "(conn \<times> net_server \<times> bytes list \<times> int) option"

definition PROC_OK :: int where "PROC_OK = 0"
definition PROC_ERROR :: int where "PROC_ERROR = -1"
definition PROC_THREAD :: int where "PROC_THREAD = 1"
definition PROC_BACKEND :: int where "PROC_BACKEND = 100"

subsection \<open>The commands of the network server\<close>

definition builtin_procs :: proc_map where
  "builtin_procs = fold (\<lambda>c. set_proc c ''r'' (Net_proc c))
     [''ping'', ''info'', ''auth'', ''list_allow_ip'', ''add_allow_ip'', ''del_allow_ip'', ''list_deny_ip'', ''add_deny_ip'', ''del_deny_ip''] []"

definition total_calls :: "proc_map \<Rightarrow> int" where
  "total_calls m = sint (sum_list (map (calls \<circ> snd) m))"

definition net_proc_ping :: "bytes list \<Rightarrow> conn \<Rightarrow> net_server \<Rightarrow> net_result" where
  "net_proc_ping req c net = Some (c, net, [''ok''], 0)"

definition net_proc_info :: "bytes list \<Rightarrow> conn \<Rightarrow> net_server \<Rightarrow> net_result" where
  "net_proc_info req c net =
     (case resp_add_int64 (link_count net) [''ok'', ''ideawu's network server framework'', ''version'', ''1.0'', ''links''] of
        None \<Rightarrow> None
      | Some resp \<Rightarrow>
          (case resp_add_int64 (total_calls (procs net)) (resp @ [''total_calls'']) of
             None \<Rightarrow> None
           | Some resp \<Rightarrow> Some (c, net, resp, 0)))"

definition net_proc_auth :: "bytes list \<Rightarrow> conn \<Rightarrow> net_server \<Rightarrow> net_result" where
  "net_proc_auth req c net =
     (if length req \<noteq> 2 then Some (c, net, [''client_error''], 0)
      else if \<not> need_auth net \<or> req ! 1 = password net
      then Some (c\<lparr>conn_link := (conn_link c)\<lparr>auth := True\<rparr>\<rparr>, net, [''ok'', ''1''], 0)
      else Some (c, net, [''error'', ''invalid password''], 0))"

definition ensure_localhost :: "conn \<Rightarrow> net_server \<Rightarrow> net_result \<Rightarrow> net_result" where
  "ensure_localhost c net k =
     (if remote_ip c \<noteq> ''127.0.0.1''
      then Some (c, net, [''noauth'', ''this command is only available from 127.0.0.1''], 0) else k)"

definition list_ips :: "bool \<Rightarrow> bytes list \<Rightarrow> bytes list" where
  "list_ips all rules = ''ok'' # (if all then [''all''] else []) @ map butlast rules"

definition net_proc_list_allow_ip :: "bytes list \<Rightarrow> conn \<Rightarrow> net_server \<Rightarrow> net_result" where
  "net_proc_list_allow_ip req c net = ensure_localhost c net (Some (c, net, list_ips (allow_all (net_filter net)) (allow (net_filter net)), 0))"

definition net_proc_list_deny_ip :: "bytes list \<Rightarrow> conn \<Rightarrow> net_server \<Rightarrow> net_result" where
  "net_proc_list_deny_ip req c net = ensure_localhost c net (Some (c, net, list_ips (\<not> allow_all (net_filter net)) (deny (net_filter net)), 0))"

text \<open>The four commands that change the rules have the same body but for the function of the filter.\<close>

definition change_rules :: "(bytes \<Rightarrow> ip_filter \<Rightarrow> ip_filter) \<Rightarrow> bytes list \<Rightarrow> conn \<Rightarrow> net_server \<Rightarrow> net_result" where
  "change_rules f req c net =
     ensure_localhost c net
       (if length req \<noteq> 2 then Some (c, net, [''client_error''], 0)
        else Some (c, net\<lparr>net_filter := f (req ! 1) (net_filter net)\<rparr>, [''ok''], 0))"

definition net_proc_add_allow_ip :: "bytes list \<Rightarrow> conn \<Rightarrow> net_server \<Rightarrow> net_result" where
  "net_proc_add_allow_ip = change_rules add_allow"

definition net_proc_del_allow_ip :: "bytes list \<Rightarrow> conn \<Rightarrow> net_server \<Rightarrow> net_result" where
  "net_proc_del_allow_ip = change_rules del_allow"

definition net_proc_add_deny_ip :: "bytes list \<Rightarrow> conn \<Rightarrow> net_server \<Rightarrow> net_result" where
  "net_proc_add_deny_ip = change_rules add_deny"

definition net_proc_del_deny_ip :: "bytes list \<Rightarrow> conn \<Rightarrow> net_server \<Rightarrow> net_result" where
  "net_proc_del_deny_ip = change_rules del_deny"

definition net_handler :: "bytes \<Rightarrow> bytes list \<Rightarrow> conn \<Rightarrow> net_server \<Rightarrow> net_result" where
  "net_handler f =
     (case map_of [(''ping'', net_proc_ping), (''info'', net_proc_info), (''auth'', net_proc_auth),
       (''list_allow_ip'', net_proc_list_allow_ip), (''add_allow_ip'', net_proc_add_allow_ip), (''del_allow_ip'', net_proc_del_allow_ip),
       (''list_deny_ip'', net_proc_list_deny_ip), (''add_deny_ip'', net_proc_add_deny_ip), (''del_deny_ip'', net_proc_del_deny_ip)] f of
        None \<Rightarrow> (\<lambda>req c net. None)
      | Some h \<Rightarrow> h)"

subsection \<open>The commands of the server\<close>

text \<open>
  \<open>reg_procs\<close>: name, flags and handler, in the order of the source. The handlers without an entry here work on the link
  or the network server and follow below, or are not modelled.
\<close>

definition reg_table :: "(bytes \<times> bytes \<times> handler option) list" where
  "reg_table = [
     (''get'', ''rt'', Some proc_get),
     (''set'', ''wt'', Some proc_set),
     (''del'', ''wt'', Some proc_del),
     (''setx'', ''wt'', Some proc_setx),
     (''setnx'', ''wt'', Some proc_setnx),
     (''getset'', ''wt'', Some proc_getset),
     (''getbit'', ''rt'', Some proc_getbit),
     (''setbit'', ''wt'', Some proc_setbit),
     (''countbit'', ''rt'', Some proc_countbit),
     (''substr'', ''rt'', Some proc_substr),
     (''getrange'', ''rt'', Some proc_getrange),
     (''strlen'', ''rt'', Some proc_strlen),
     (''bitcount'', ''rt'', Some proc_bitcount),
     (''incr'', ''wt'', Some proc_incr),
     (''decr'', ''wt'', Some proc_decr),
     (''scan'', ''rt'', Some proc_scan),
     (''rscan'', ''rt'', Some proc_rscan),
     (''keys'', ''rt'', Some proc_keys),
     (''rkeys'', ''rt'', Some proc_rkeys),
     (''exists'', ''rt'', Some proc_exists),
     (''multi_exists'', ''rt'', Some proc_multi_exists),
     (''multi_get'', ''rt'', Some proc_multi_get),
     (''multi_set'', ''wt'', Some proc_multi_set),
     (''multi_del'', ''wt'', Some proc_multi_del),
     (''ttl'', ''rt'', Some proc_ttl),
     (''expire'', ''wt'', Some proc_expire),
     (''hsize'', ''rt'', Some proc_hsize),
     (''hget'', ''rt'', Some proc_hget),
     (''hset'', ''wt'', Some proc_hset),
     (''hdel'', ''wt'', Some proc_hdel),
     (''hincr'', ''wt'', Some proc_hincr),
     (''hdecr'', ''wt'', Some proc_hdecr),
     (''hclear'', ''wt'', Some proc_hclear),
     (''hgetall'', ''rt'', Some proc_hgetall),
     (''hscan'', ''rt'', Some proc_hscan),
     (''hrscan'', ''rt'', Some proc_hrscan),
     (''hkeys'', ''rt'', Some proc_hkeys),
     (''hvals'', ''rt'', Some proc_hvals),
     (''hlist'', ''rt'', Some proc_hlist),
     (''hrlist'', ''rt'', Some proc_hrlist),
     (''hexists'', ''rt'', Some proc_hexists),
     (''multi_hexists'', ''rt'', Some proc_multi_hexists),
     (''multi_hsize'', ''rt'', Some proc_multi_hsize),
     (''multi_hget'', ''rt'', Some proc_multi_hget),
     (''multi_hset'', ''wt'', Some proc_multi_hset),
     (''multi_hdel'', ''wt'', Some proc_multi_hdel),
     (''zrank'', ''rt'', Some proc_zrank),
     (''zrrank'', ''rt'', Some proc_zrrank),
     (''zrange'', ''rt'', Some proc_zrange),
     (''zrrange'', ''rt'', Some proc_zrrange),
     (''zsize'', ''rt'', Some proc_zsize),
     (''zget'', ''rt'', Some proc_zget),
     (''zset'', ''wt'', Some proc_zset),
     (''zdel'', ''wt'', Some proc_zdel),
     (''zincr'', ''wt'', Some proc_zincr),
     (''zdecr'', ''wt'', Some proc_zdecr),
     (''zclear'', ''wt'', Some proc_zclear),
     (''zfix'', ''wt'', Some proc_zfix),
     (''zscan'', ''rt'', Some proc_zscan),
     (''zrscan'', ''rt'', Some proc_zrscan),
     (''zkeys'', ''rt'', Some proc_zkeys),
     (''zlist'', ''rt'', Some proc_zlist),
     (''zrlist'', ''rt'', Some proc_zrlist),
     (''zcount'', ''rt'', Some proc_zcount),
     (''zsum'', ''rt'', Some proc_zsum),
     (''zavg'', ''rt'', None),
     (''zremrangebyrank'', ''wt'', Some proc_zremrangebyrank),
     (''zremrangebyscore'', ''wt'', Some proc_zremrangebyscore),
     (''zexists'', ''rt'', Some proc_zexists),
     (''multi_zexists'', ''rt'', Some proc_multi_zexists),
     (''multi_zsize'', ''rt'', Some proc_multi_zsize),
     (''multi_zget'', ''rt'', Some proc_multi_zget),
     (''multi_zset'', ''wt'', Some proc_multi_zset),
     (''multi_zdel'', ''wt'', Some proc_multi_zdel),
     (''zpop_front'', ''wt'', Some proc_zpop_front),
     (''zpop_back'', ''wt'', Some proc_zpop_back),
     (''qsize'', ''rt'', Some proc_qsize),
     (''qfront'', ''rt'', Some proc_qfront),
     (''qback'', ''rt'', Some proc_qback),
     (''qpush'', ''wt'', Some proc_qpush),
     (''qpush_front'', ''wt'', Some proc_qpush_front),
     (''qpush_back'', ''wt'', Some proc_qpush_back),
     (''qpop'', ''wt'', Some proc_qpop),
     (''qpop_front'', ''wt'', Some proc_qpop_front),
     (''qpop_back'', ''wt'', Some proc_qpop_back),
     (''qtrim_front'', ''wt'', Some proc_qtrim_front),
     (''qtrim_back'', ''wt'', Some proc_qtrim_back),
     (''qfix'', ''wt'', Some proc_qfix),
     (''qclear'', ''wt'', Some proc_qclear),
     (''qlist'', ''rt'', Some proc_qlist),
     (''qrlist'', ''rt'', Some proc_qrlist),
     (''qslice'', ''rt'', Some proc_qslice),
     (''qrange'', ''rt'', Some proc_qrange),
     (''qget'', ''rt'', Some proc_qget),
     (''qset'', ''wt'', Some proc_qset),
     (''clear_binlog'', ''wt'', Some proc_clear_binlog),
     (''flushdb'', ''wt'', Some proc_flushdb),
     (''dump'', ''b'', None),
     (''sync140'', ''b'', None),
     (''info'', ''r'', None),
     (''version'', ''r'', None),
     (''dbsize'', ''rt'', None),
     (''compact'', ''rt'', None),
     (''ignore_key_range'', ''r'', None),
     (''get_key_range'', ''r'', Some proc_get_key_range),
     (''get_kv_range'', ''r'', Some proc_get_kv_range),
     (''set_kv_range'', ''r'', Some proc_set_kv_range),
     (''cluster_add_kv_node'', ''r'', None),
     (''cluster_del_kv_node'', ''r'', None),
     (''cluster_kv_node_list'', ''r'', None),
     (''cluster_set_kv_range'', ''r'', None),
     (''cluster_set_kv_status'', ''r'', None),
     (''cluster_migrate_kv_data'', ''r'', None)]"

definition reg_procs :: "proc_map \<Rightarrow> proc_map" where
  "reg_procs m = fold (\<lambda>(c, f, h). set_proc c f (Serv_proc c)) reg_table m"

definition serv_handler :: "bytes \<Rightarrow> handler option" where
  "serv_handler c = (case map_of reg_table c of None \<Rightarrow> None | Some (f, h) \<Rightarrow> h)"

text \<open>
  \<open>dump\<close> and \<open>sync140\<close> give the link to a backend and answer nothing. What \<open>BackendDump::proc\<close> and \<open>BackendSync::proc\<close> do to the object of the
  link, also when no thread can be made, is \<open>backend_proc\<close> in \<open>NetLoop\<close>, which has the objects.
\<close>

definition serv_proc_dump :: "bytes list \<Rightarrow> conn \<Rightarrow> net_server \<Rightarrow> net_result" where
  "serv_proc_dump req c net = Some (c, net, [], PROC_BACKEND)"

definition serv_proc_sync140 :: "bytes list \<Rightarrow> conn \<Rightarrow> net_server \<Rightarrow> net_result" where
  "serv_proc_sync140 req c net = Some (c, net, [], PROC_BACKEND)"

definition serv_proc_compact :: "bytes list \<Rightarrow> conn \<Rightarrow> net_server \<Rightarrow> net_result" where
  "serv_proc_compact req c net = Some (c, net, [''ok''], 0)"

definition serv_proc_ignore_key_range :: "bytes list \<Rightarrow> conn \<Rightarrow> net_server \<Rightarrow> net_result" where
  "serv_proc_ignore_key_range req c net = Some (c\<lparr>conn_link := (conn_link c)\<lparr>ignore_key_range := True\<rparr>\<rparr>, net, [''ok''], 0)"

text \<open>\<open>ver\<close> is the version string, \<open>sz\<close> the size that the engine reports.\<close>

definition serv_proc_version :: "bytes \<Rightarrow> bytes list \<Rightarrow> conn \<Rightarrow> net_server \<Rightarrow> net_result" where
  "serv_proc_version ver req c net = Some (c, net, [''ok'', ver], 0)"

definition serv_proc_dbsize :: "u64 \<Rightarrow> bytes list \<Rightarrow> conn \<Rightarrow> net_server \<Rightarrow> net_result" where
  "serv_proc_dbsize sz req c net = Some (c, net, [''ok'', str_uint64 sz], 0)"

text \<open>
  The call through a function pointer. \<open>other\<close> stands for the handlers of \<open>info\<close> in \<open>serv.cpp\<close> and of
  \<open>zavg\<close>, which are not modelled, and for those of the cluster, which work on state beside the server (\<open>Cluster\<close>, \<open>Migrate\<close>).
\<close>

record call_env =
  request :: request_env
  ver :: bytes
  db_size :: u64
  other :: "bytes \<Rightarrow> bytes list \<Rightarrow> conn \<Rightarrow> net_server \<Rightarrow> net_result"

definition call_proc :: "call_env \<Rightarrow> proc_t \<Rightarrow> bytes list \<Rightarrow> conn \<Rightarrow> net_server \<Rightarrow> net_result" where
  "call_proc e p req c net =
     (case p of
        Net_proc f \<Rightarrow> net_handler f req c net
      | Serv_proc f \<Rightarrow>
          (case serv_handler f of
             Some h \<Rightarrow> (case h ((request e)\<lparr>ignore_range := ignore_key_range (conn_link c)\<rparr>) req (net_data net) of
                         None \<Rightarrow> None
                       | Some (sv, resp, ret) \<Rightarrow> Some (c, net\<lparr>net_data := sv\<rparr>, resp, ret))
           | None \<Rightarrow>
               if f = ''dump'' then serv_proc_dump req c net
               else if f = ''sync140'' then serv_proc_sync140 req c net
               else if f = ''compact'' then serv_proc_compact req c net
               else if f = ''ignore_key_range'' then serv_proc_ignore_key_range req c net
               else if f = ''version'' then serv_proc_version (ver e) req c net
               else if f = ''dbsize'' then serv_proc_dbsize (db_size e) req c net
               else other e f req c net))"

subsection \<open>Dispatch\<close>

text \<open>
  \<open>NetworkServer::proc\<close>. What becomes of a request: it is answered with a result, or its job goes to one of the two pools.
  The link has the response in its output buffer; \<open>alloc\<close> is the allocator.
\<close>

datatype pool_name = Writer | Reader

datatype outcome = Result int | Queued pool_name

definition NetworkServer_proc :: "(nat \<Rightarrow> bool) \<Rightarrow> call_env \<Rightarrow> conn \<Rightarrow> net_server \<Rightarrow> (conn \<times> net_server \<times> bytes list \<times> command option \<times> outcome) option" where
  "NetworkServer_proc alloc e c net =
     (let req = recv_data (conn_link c);
          reply = (\<lambda>c net resp cmo ret. Some (c\<lparr>conn_link := Link_send alloc resp (conn_link c)\<rparr>, net, resp, cmo, Result ret))
      in if need_auth net \<and> auth (conn_link c) = False \<and> req ! 0 \<noteq> ''auth''
         then reply c net [''noauth'', ''authentication required''] None PROC_OK
         else case get_proc (procs net) (req ! 0) of
                None \<Rightarrow> reply c net [''client_error'', ''Unknown Command: '' @ req ! 0] None PROC_OK
              | Some cm \<Rightarrow>
                  if FLAG_THREAD \<in> flags cm
                  then Some (c, net, [], Some cm, Queued (if FLAG_WRITE \<in> flags cm then Writer else Reader))
                  else case call_proc e (cmd_proc cm) req c net of
                         None \<Rightarrow> None
                       | Some (c, net, resp, ret) \<Rightarrow> reply c net resp (Some cm) ret)"


subsection \<open>Commands that do not write\<close>

definition keeps_db :: "server \<Rightarrow> proc_result \<Rightarrow> bool" where
  "keeps_db sv r \<longleftrightarrow> (\<forall>sv' resp ret. r = Some (sv', resp, ret) \<longrightarrow> sdb sv' = sdb sv)"

definition read_only :: "handler \<Rightarrow> bool" where
  "read_only h \<longleftrightarrow> (\<forall>e req sv. keeps_db sv (h e req sv))"

named_theorems ro_intros

lemma keeps_db_simps [ro_intros]:
  "keeps_db sv (answer sv resp)" "keeps_db sv None" "keeps_db sv (answer_int sv st v)"
  "keeps_db sv k \<Longrightarrow> keeps_db sv (check_num_params n req sv k)" "keeps_db sv k \<Longrightarrow> keeps_db sv (check_kv_key_range e n req sv k)"
  by (auto simp: keeps_db_def answer_def answer_int_def check_num_params_def check_kv_key_range_def split: option.splits if_splits)

lemma keeps_db_more [ro_intros]:
  "keeps_db sv (answer_count sv n)" "keeps_db sv (answer_slice sv r)" "keeps_db sv (answer (fst (set_kv_range a b sv)) resp)"
  by (auto simp: keeps_db_def answer_count_def answer_int_def reply_int_def answer_slice_def answer_def set_kv_range_def resp_add_int64_def Let_def
      split: option.splits if_splits prod.splits)

lemma ro_strings:
  "read_only proc_get" "read_only proc_getbit" "read_only proc_countbit" "read_only proc_substr" "read_only proc_getrange" "read_only proc_strlen" "read_only proc_bitcount" "read_only proc_scan" "read_only proc_rscan" "read_only proc_keys" "read_only proc_rkeys" "read_only proc_exists" "read_only proc_multi_exists" "read_only proc_multi_get" "read_only proc_ttl" "read_only proc_get_key_range" "read_only proc_get_kv_range" "read_only proc_set_kv_range"
  by (auto simp: read_only_def proc_get_def proc_getbit_def proc_countbit_def proc_substr_def proc_getrange_def proc_strlen_def proc_bitcount_def proc_scan_def proc_rscan_def proc_keys_def proc_rkeys_def proc_exists_def proc_multi_exists_def proc_multi_get_def proc_ttl_def proc_get_key_range_def proc_get_kv_range_def proc_set_kv_range_def Let_def split: option.split get_status.split prod.split intro!: ro_intros)

lemma ro_hashes:
  "read_only proc_hsize" "read_only proc_hget" "read_only proc_hgetall" "read_only proc_hscan" "read_only proc_hrscan" "read_only proc_hkeys" "read_only proc_hvals" "read_only proc_hlist" "read_only proc_hrlist" "read_only proc_hexists" "read_only proc_multi_hexists" "read_only proc_multi_hsize" "read_only proc_multi_hget"
  by (auto simp: read_only_def proc_hsize_def proc_hget_def proc_hgetall_def proc_hscan_def proc_hrscan_def proc_hkeys_def proc_hvals_def proc_hlist_def proc_hrlist_def proc_hexists_def proc_multi_hexists_def proc_multi_hsize_def proc_multi_hget_def Let_def split: option.split get_status.split prod.split intro!: ro_intros)

lemma ro_zsets:
  "read_only proc_zrank" "read_only proc_zrrank" "read_only proc_zrange" "read_only proc_zrrange" "read_only proc_zsize" "read_only proc_zget" "read_only proc_zscan" "read_only proc_zrscan" "read_only proc_zkeys" "read_only proc_zlist" "read_only proc_zrlist" "read_only proc_zcount" "read_only proc_zsum" "read_only proc_zexists" "read_only proc_multi_zexists" "read_only proc_multi_zsize" "read_only proc_multi_zget"
  by (auto simp: read_only_def proc_zrank_def proc_zrrank_def proc_zrange_def proc_zrrange_def proc_zsize_def proc_zget_def proc_zscan_def proc_zrscan_def proc_zkeys_def proc_zlist_def proc_zrlist_def proc_zcount_def proc_zsum_def proc_zexists_def proc_multi_zexists_def proc_multi_zsize_def proc_multi_zget_def Let_def split: option.split get_status.split prod.split intro!: ro_intros)

lemma ro_queues:
  "read_only proc_qsize" "read_only proc_qfront" "read_only proc_qback" "read_only proc_qlist" "read_only proc_qrlist" "read_only proc_qslice" "read_only proc_qrange" "read_only proc_qget"
  by (auto simp: read_only_def proc_qsize_def proc_qfront_def proc_qback_def proc_qlist_def proc_qrlist_def proc_qslice_def proc_qrange_def proc_qget_def Let_def split: option.split get_status.split prod.split intro!: ro_intros)

lemmas ro_all = ro_strings ro_hashes ro_zsets ro_queues

lemma reg_table_read_only: "(c, f, Some h) \<in> set reg_table \<Longrightarrow> CHR ''w'' \<notin> set f \<Longrightarrow> read_only h"
  unfolding reg_table_def by (auto simp: ro_all)

subsection \<open>The table of a server\<close>

definition server_procs :: proc_map where
  "server_procs = reg_procs builtin_procs"

lemma get_set_proc: "get_proc (set_proc c f p m) x =
    (if x = c then Some (case get_proc m c of None \<Rightarrow> \<lparr>cmd_name = c, flags = \<Union>(flag_of ` set f), cmd_proc = p, calls = 0\<rparr>
      | Some cm \<Rightarrow> cm\<lparr>cmd_proc := p, flags := \<Union>(flag_of ` set f)\<rparr>) else get_proc m x)"
  by (auto simp: get_proc_def set_proc_def update_conv' Let_def split: option.split)

lemma reg_distinct: "distinct (map fst reg_table)"
  unfolding reg_table_def list.map fst_conv by code_simp

lemma get_fold_reg:
  "(x, f, h) \<in> set tbl \<Longrightarrow> distinct (map fst tbl) \<Longrightarrow>
    \<exists>cm. get_proc (fold (\<lambda>(c, f, h). set_proc c f (Serv_proc c)) tbl m) x = Some cm \<and> cmd_proc cm = Serv_proc x \<and> flags cm = \<Union>(flag_of ` set f)"
proof (induction tbl rule: rev_induct)
  case (snoc e tbl)
  obtain c g k where e: "e = (c, g, k)" by (cases e)
  show ?case
  proof (cases "x = c")
    case True
    then have "f = g" using snoc.prems by (force simp: e)
    then show ?thesis using True by (auto simp: e get_set_proc split: option.split)
  next
    case False
    then show ?thesis using snoc by (simp add: e get_set_proc)
  qed
qed simp

lemma get_fold_other:
  "x \<notin> fst ` set tbl \<Longrightarrow> get_proc (fold (\<lambda>(c, f, h). set_proc c f (Serv_proc c)) tbl m) x = get_proc m x"
  by (induction tbl arbitrary: m) (auto simp: get_set_proc)

lemma registered: "(c, f, h) \<in> set reg_table \<Longrightarrow>
    \<exists>cm. get_proc server_procs c = Some cm \<and> cmd_proc cm = Serv_proc c \<and> flags cm = \<Union>(flag_of ` set f) \<and> serv_handler c = h"
  using get_fold_reg [OF _ reg_distinct, of c f h builtin_procs] map_of_is_SomeI [OF reg_distinct, of c "(f, h)"]
  by (auto simp: server_procs_def reg_procs_def serv_handler_def)

lemma builtin: "get_proc builtin_procs c = Some cm \<Longrightarrow> cmd_proc cm = Net_proc c \<and> flags cm = {FLAG_READ} \<and>
    c \<in> {''ping'', ''info'', ''auth'', ''list_allow_ip'', ''add_allow_ip'', ''del_allow_ip'', ''list_deny_ip'', ''add_deny_ip'', ''del_deny_ip''}"
  unfolding builtin_procs_def by (auto simp: get_set_proc flag_of_def split: if_splits option.splits) (auto simp: get_proc_def)

text \<open>The commands that \<open>other\<close> serves.\<close>

definition unmodelled :: "bytes set" where
  "unmodelled = {''zavg'', ''info'', ''cluster_add_kv_node'', ''cluster_del_kv_node'', ''cluster_kv_node_list'', ''cluster_set_kv_range'',
     ''cluster_set_kv_status'', ''cluster_migrate_kv_data''}"

lemma reg_table_None: "(c, f, None) \<in> set reg_table \<Longrightarrow> c \<in> {''dump'', ''sync140'', ''compact'', ''ignore_key_range'', ''version'', ''dbsize''} \<union> unmodelled"
  unfolding reg_table_def by (auto simp: unmodelled_def)

lemma net_handler_db:
  assumes "c \<in> {''ping'', ''info'', ''auth'', ''list_allow_ip'', ''add_allow_ip'', ''del_allow_ip'', ''list_deny_ip'', ''add_deny_ip'', ''del_deny_ip''}"
    and "net_handler c req k net = Some (k', net', resp, ret)"
  shows "net_data net' = net_data net"
  using assms by (auto simp: net_handler_def net_proc_ping_def net_proc_info_def net_proc_auth_def net_proc_list_allow_ip_def
      net_proc_list_deny_ip_def net_proc_add_allow_ip_def net_proc_del_allow_ip_def net_proc_add_deny_ip_def net_proc_del_deny_ip_def
      change_rules_def ensure_localhost_def split: if_splits option.splits)

text \<open>C20. Only the thread of the writer changes the database: a command that is not registered with \<open>w\<close>, and so runs in the main
  thread or in one of the ten readers, leaves it as it is.\<close>

theorem only_writer_writes:
  assumes "get_proc server_procs c = Some cm" and "FLAG_WRITE \<notin> flags cm" and "c \<notin> unmodelled"
    and "call_proc e (cmd_proc cm) req k net = Some (k', net', resp, ret)"
  shows "sdb (net_data net') = sdb (net_data net)"
proof (cases "c \<in> fst ` set reg_table")
  case True
  then obtain f h where m: "(c, f, h) \<in> set reg_table" by force
  from registered [OF m] assms(1) have cm: "cmd_proc cm = Serv_proc c" "flags cm = \<Union>(flag_of ` set f)" "serv_handler c = h" by auto
  have w: "CHR ''w'' \<notin> set f" using assms(2) by (auto simp: cm flag_of_def)
  show ?thesis
  proof (cases h)
    case None
    have "c \<in> {''dump'', ''sync140'', ''compact'', ''ignore_key_range'', ''version'', ''dbsize''}"
      using reg_table_None [of c f] m assms(3) unfolding None by simp
    with assms(4) show ?thesis
      by (auto simp: call_proc_def cm None serv_proc_dump_def serv_proc_sync140_def serv_proc_compact_def serv_proc_ignore_key_range_def
          serv_proc_version_def serv_proc_dbsize_def)
  next
    case (Some g)
    then have "read_only g" using reg_table_read_only [of c f g] m w by simp
    then have "keeps_db (net_data net) (g ((request e)\<lparr>ignore_range := ignore_key_range (conn_link k)\<rparr>) req (net_data net))"
      by (simp add: read_only_def)
    with assms(4) show ?thesis by (auto simp: call_proc_def cm Some keeps_db_def split: option.splits)
  qed
next
  case False
  then have "get_proc builtin_procs c = Some cm" using assms(1) get_fold_other [OF False, of builtin_procs] by (simp add: server_procs_def reg_procs_def)
  note b = builtin [OF this]
  then have "net_handler c req k net = Some (k', net', resp, ret)" using assms(4) by (simp add: call_proc_def)
  from net_handler_db [OF conjunct2 [OF conjunct2 [OF b]] this] show ?thesis by simp
qed


text \<open>A reader command, and a server that nobody has used.\<close>

definition fresh_server :: "bytes \<Rightarrow> net_server" where
  "fresh_server pw = \<lparr>link_count = 1, need_auth = pw \<noteq> [], password = pw, net_filter = IpFilter_new, procs = server_procs,
     net_data = \<lparr>sdb = fresh_db, meta = fresh_db, expiration = ExpirationHandler_new, kv_range_s = [], kv_range_e = [], slave_count = 0, sync_count = 0\<rparr>\<rparr>"

definition plain_env :: call_env where
  "plain_env = \<lparr>request = \<lparr>ignore_range = False, clock = 0, errno = 0\<rparr>, ver = ''1'', db_size = 0, other = (\<lambda>f req c net. None)\<rparr>"

definition local_conn :: conn where
  "local_conn = \<lparr>conn_link = Link_new, conn_fd = 9, remote_ip = ''127.0.0.1''\<rparr>"

lemma get_registered: "(''hget'', ''rt'', Some proc_hget) \<in> set reg_table"
  by (simp add: reg_table_def)

theorem only_writer_writes_witness:
  "\<exists>cm k' net' resp ret. get_proc server_procs ''hget'' = Some cm \<and> FLAG_WRITE \<notin> flags cm \<and>
    call_proc plain_env (cmd_proc cm) [''hget''] local_conn (fresh_server []) = Some (k', net', resp, ret) \<and> sdb (net_data net') = fresh_db"
proof -
  from registered [OF get_registered] obtain cm where
    cm: "get_proc server_procs ''hget'' = Some cm" "cmd_proc cm = Serv_proc ''hget''" "flags cm = {FLAG_READ, FLAG_THREAD}" "serv_handler ''hget'' = Some proc_hget"
    by (auto simp: flag_of_def)
  have r: "call_proc plain_env (cmd_proc cm) [''hget''] local_conn (fresh_server []) =
      Some (local_conn, fresh_server [], [''client_error'', ''wrong number of arguments''], 0)"
    by (simp add: call_proc_def cm proc_hget_def check_num_params_def answer_def)
  from only_writer_writes [OF cm(1) _ _ r] cm r show ?thesis by (auto simp: unmodelled_def fresh_server_def)
qed

subsection \<open>What handlers return\<close>

definition ret_plain :: "proc_result \<Rightarrow> bool" where
  "ret_plain r \<longleftrightarrow> (\<forall>sv' resp ret. r = Some (sv', resp, ret) \<longrightarrow> ret = PROC_OK \<or> ret = PROC_ERROR)"

definition returns_plain :: "handler \<Rightarrow> bool" where
  "returns_plain h \<longleftrightarrow> (\<forall>e req sv. ret_plain (h e req sv))"

named_theorems plain_intros

lemma ret_plain_simps [plain_intros]:
  "ret_plain (answer sv resp)" "ret_plain None" "ret_plain (answer_int sv st v)" "ret_plain (answer_count sv i)" "ret_plain (answer_slice sv r)"
  "ret_plain (incr_answer sv i nv)" "ret_plain (answer_sum sv x)" "ret_plain (Some (sv, resp, -1))"
  "ret_plain k \<Longrightarrow> ret_plain (check_num_params n req sv k)" "ret_plain k \<Longrightarrow> ret_plain (check_kv_key_range e n req sv k)"
  by (auto simp: ret_plain_def PROC_OK_def answer_def answer_int_def answer_count_def answer_slice_def incr_answer_def answer_sum_def PROC_ERROR_def Let_def
      check_num_params_def check_kv_key_range_def split: option.splits if_splits prod.splits)

lemma plain_strings:
  "returns_plain proc_get" "returns_plain proc_set" "returns_plain proc_del" "returns_plain proc_setx" "returns_plain proc_setnx" "returns_plain proc_getset" "returns_plain proc_getbit" "returns_plain proc_setbit" "returns_plain proc_countbit" "returns_plain proc_substr" "returns_plain proc_getrange" "returns_plain proc_strlen" "returns_plain proc_bitcount" "returns_plain proc_incr" "returns_plain proc_decr" "returns_plain proc_scan" "returns_plain proc_rscan" "returns_plain proc_keys" "returns_plain proc_rkeys" "returns_plain proc_exists" "returns_plain proc_multi_exists" "returns_plain proc_multi_get" "returns_plain proc_multi_set" "returns_plain proc_multi_del" "returns_plain proc_ttl" "returns_plain proc_expire" "returns_plain proc_clear_binlog" "returns_plain proc_flushdb" "returns_plain proc_get_key_range" "returns_plain proc_get_kv_range" "returns_plain proc_set_kv_range"
  by (auto simp: returns_plain_def proc_incr_dir_def proc_get_def proc_set_def proc_del_def proc_setx_def proc_setnx_def proc_getset_def proc_getbit_def proc_setbit_def proc_countbit_def proc_substr_def proc_getrange_def proc_strlen_def proc_bitcount_def proc_incr_def proc_decr_def proc_scan_def proc_rscan_def proc_keys_def proc_rkeys_def proc_exists_def proc_multi_exists_def proc_multi_get_def proc_multi_set_def proc_multi_del_def proc_ttl_def proc_expire_def proc_clear_binlog_def proc_flushdb_def proc_get_key_range_def proc_get_kv_range_def proc_set_kv_range_def Let_def split: option.split get_status.split prod.split intro!: plain_intros)

lemma plain_hashes:
  "returns_plain proc_hsize" "returns_plain proc_hget" "returns_plain proc_hset" "returns_plain proc_hdel" "returns_plain proc_hincr" "returns_plain proc_hdecr" "returns_plain proc_hclear" "returns_plain proc_hgetall" "returns_plain proc_hscan" "returns_plain proc_hrscan" "returns_plain proc_hkeys" "returns_plain proc_hvals" "returns_plain proc_hlist" "returns_plain proc_hrlist" "returns_plain proc_hexists" "returns_plain proc_multi_hexists" "returns_plain proc_multi_hsize" "returns_plain proc_multi_hget" "returns_plain proc_multi_hset" "returns_plain proc_multi_hdel" "returns_plain proc_hget"
  by (auto simp: returns_plain_def proc_hincr_dir_def proc_hsize_def proc_hget_def proc_hset_def proc_hdel_def proc_hincr_def proc_hdecr_def proc_hclear_def proc_hgetall_def proc_hscan_def proc_hrscan_def proc_hkeys_def proc_hvals_def proc_hlist_def proc_hrlist_def proc_hexists_def proc_multi_hexists_def proc_multi_hsize_def proc_multi_hget_def proc_multi_hset_def proc_multi_hdel_def proc_hget_def Let_def split: option.split get_status.split prod.split intro!: plain_intros)

lemma plain_zsets:
  "returns_plain proc_zrank" "returns_plain proc_zrrank" "returns_plain proc_zrange" "returns_plain proc_zrrange" "returns_plain proc_zsize" "returns_plain proc_zget" "returns_plain proc_zset" "returns_plain proc_zdel" "returns_plain proc_zincr" "returns_plain proc_zdecr" "returns_plain proc_zclear" "returns_plain proc_zfix" "returns_plain proc_zscan" "returns_plain proc_zrscan" "returns_plain proc_zkeys" "returns_plain proc_zlist" "returns_plain proc_zrlist" "returns_plain proc_zcount" "returns_plain proc_zsum" "returns_plain proc_zremrangebyrank" "returns_plain proc_zremrangebyscore" "returns_plain proc_zexists" "returns_plain proc_multi_zexists" "returns_plain proc_multi_zsize" "returns_plain proc_multi_zget" "returns_plain proc_multi_zset" "returns_plain proc_multi_zdel" "returns_plain proc_zpop_front" "returns_plain proc_zpop_back"
  by (auto simp: returns_plain_def proc_zincr_dir_def proc_zrank_def proc_zrrank_def proc_zrange_def proc_zrrange_def proc_zsize_def proc_zget_def proc_zset_def proc_zdel_def proc_zincr_def proc_zdecr_def proc_zclear_def proc_zfix_def proc_zscan_def proc_zrscan_def proc_zkeys_def proc_zlist_def proc_zrlist_def proc_zcount_def proc_zsum_def proc_zremrangebyrank_def proc_zremrangebyscore_def proc_zexists_def proc_multi_zexists_def proc_multi_zsize_def proc_multi_zget_def proc_multi_zset_def proc_multi_zdel_def proc_zpop_front_def proc_zpop_back_def Let_def split: option.split get_status.split prod.split intro!: plain_intros)

lemma plain_queues:
  "returns_plain proc_qsize" "returns_plain proc_qfront" "returns_plain proc_qback" "returns_plain proc_qpush" "returns_plain proc_qpush_front" "returns_plain proc_qpush_back" "returns_plain proc_qpop" "returns_plain proc_qpop_front" "returns_plain proc_qpop_back" "returns_plain proc_qtrim_front" "returns_plain proc_qtrim_back" "returns_plain proc_qfix" "returns_plain proc_qclear" "returns_plain proc_qlist" "returns_plain proc_qrlist" "returns_plain proc_qslice" "returns_plain proc_qrange" "returns_plain proc_qget" "returns_plain proc_qset"
  by (auto simp: returns_plain_def proc_qpush_func_def proc_qpop_func_def proc_qtrim_func_def proc_qsize_def proc_qfront_def proc_qback_def proc_qpush_def proc_qpush_front_def proc_qpush_back_def proc_qpop_def proc_qpop_front_def proc_qpop_back_def proc_qtrim_front_def proc_qtrim_back_def proc_qfix_def proc_qclear_def proc_qlist_def proc_qrlist_def proc_qslice_def proc_qrange_def proc_qget_def proc_qset_def Let_def split: option.split get_status.split prod.split intro!: plain_intros)

lemmas plain_all = plain_strings plain_hashes plain_zsets plain_queues

lemma serv_handler_plain: "serv_handler c = Some h \<Longrightarrow> returns_plain h"
proof -
  assume "serv_handler c = Some h"
  then obtain f where "(c, f, Some h) \<in> set reg_table" by (auto simp: serv_handler_def dest!: map_of_SomeD split: option.splits)
  then show ?thesis unfolding reg_table_def by (auto simp: plain_all)
qed

text \<open>What is asked of the handlers that are not modelled: they leave the descriptor and the number of links alone, and they do not
  return \<open>PROC_THREAD\<close>, which only \<open>NetworkServer::proc\<close> does.\<close>

definition other_ok :: "call_env \<Rightarrow> bool" where
  "other_ok e \<longleftrightarrow> (\<forall>f req c net c' net' resp ret. other e f req c net = Some (c', net', resp, ret) \<longrightarrow>
     conn_fd c' = conn_fd c \<and> link_count net' = link_count net \<and> ret \<noteq> PROC_THREAD)"

lemma call_proc_frame:
  assumes "call_proc e p req c net = Some (c', net', resp, ret)" and "other_ok e"
  shows "conn_fd c' = conn_fd c" "link_count net' = link_count net" "ret \<noteq> PROC_THREAD"
proof -
  have "conn_fd c' = conn_fd c \<and> link_count net' = link_count net \<and> ret \<noteq> PROC_THREAD"
  proof (cases p)
    case (Net_proc f)
    with assms(1) show ?thesis
      by (auto simp: call_proc_def net_handler_def net_proc_ping_def net_proc_info_def net_proc_auth_def net_proc_list_allow_ip_def
      net_proc_list_deny_ip_def net_proc_add_allow_ip_def net_proc_del_allow_ip_def net_proc_add_deny_ip_def net_proc_del_deny_ip_def
      change_rules_def ensure_localhost_def PROC_THREAD_def split: if_splits option.splits)
  next
    case (Serv_proc f)
    show ?thesis
    proof (cases "serv_handler f")
      case None
      with assms Serv_proc show ?thesis
        by (auto simp: call_proc_def serv_proc_dump_def serv_proc_sync140_def serv_proc_compact_def serv_proc_ignore_key_range_def
          serv_proc_version_def serv_proc_dbsize_def PROC_THREAD_def PROC_BACKEND_def other_ok_def split: if_splits)
    next
      case (Some h)
      have "ret_plain (h ((request e)\<lparr>ignore_range := ignore_key_range (conn_link c)\<rparr>) req (net_data net))"
        using serv_handler_plain [OF Some] by (simp add: returns_plain_def)
      with assms(1) show ?thesis
        by (auto simp: call_proc_def Serv_proc Some ret_plain_def PROC_THREAD_def PROC_OK_def PROC_ERROR_def split: option.splits)
    qed
  qed
  then show "conn_fd c' = conn_fd c" "link_count net' = link_count net" "ret \<noteq> PROC_THREAD" by auto
qed

lemma NetworkServer_proc_frame:
  assumes "NetworkServer_proc al e c net = Some (c', net', resp, cm, r)" and "other_ok e"
  shows "conn_fd c' = conn_fd c" "link_count net' = link_count net" "r \<noteq> Result PROC_THREAD"
proof -
  have ne: "PROC_OK \<noteq> PROC_THREAD" by (simp add: PROC_OK_def PROC_THREAD_def)
  show "conn_fd c' = conn_fd c" "link_count net' = link_count net" "r \<noteq> Result PROC_THREAD"
    using assms ne by (auto simp: NetworkServer_proc_def Let_def split: if_splits option.splits dest: call_proc_frame)
qed

subsection \<open>Passwords\<close>

text \<open>The requests of a link, one after the other. A job in a pool ends the sequence here.\<close>

fun serve_requests :: "(nat \<Rightarrow> bool) \<Rightarrow> call_env \<Rightarrow> bytes list list \<Rightarrow> conn \<Rightarrow> net_server \<Rightarrow> (conn \<times> net_server \<times> (bytes list \<times> outcome) list) option" where
  "serve_requests alloc e [] c net = Some (c, net, [])"
| "serve_requests alloc e (req # reqs) c net =
     (case NetworkServer_proc alloc e (c\<lparr>conn_link := (conn_link c)\<lparr>recv_data := req\<rparr>\<rparr>) net of
        None \<Rightarrow> None
      | Some (c, net, resp, cm, Queued q) \<Rightarrow> Some (c, net, [(resp, Queued q)])
      | Some (c, net, resp, cm, Result ret) \<Rightarrow>
          (case serve_requests alloc e reqs c net of None \<Rightarrow> None | Some (c, net, out) \<Rightarrow> Some (c, net, (resp, Result ret) # out)))"

lemma auth_registered: "\<exists>cm. get_proc server_procs ''auth'' = Some cm \<and> cmd_proc cm = Net_proc ''auth'' \<and> flags cm = {FLAG_READ}"
proof -
  have "''auth'' \<notin> fst ` set reg_table" by (simp add: reg_table_def)
  then have e: "get_proc server_procs ''auth'' = get_proc builtin_procs ''auth''"
    using get_fold_other by (simp add: server_procs_def reg_procs_def)
  have "get_proc builtin_procs ''auth'' \<noteq> None" by (simp add: builtin_procs_def get_set_proc)
  with builtin [of "''auth''"] e show ?thesis by force
qed

lemma Link_send_auth [simp]: "auth (Link_send alloc resp l) = auth l"
  by (simp add: Link_send_def send_packet_def split: option.split)

lemma refused:
  assumes "procs net = server_procs" and "need_auth net" and "\<not> auth (conn_link c)" and "recv_data (conn_link c) \<noteq> []"
    and "recv_data (conn_link c) \<noteq> [''auth'', password net]"
  shows "\<exists>c' resp cm. NetworkServer_proc alloc e c net = Some (c', net, resp, cm, Result 0) \<and> \<not> auth (conn_link c') \<and>
    resp \<in> {[''noauth'', ''authentication required''], [''client_error''], [''error'', ''invalid password'']}"
proof (cases "recv_data (conn_link c) ! 0 = ''auth''")
  case True
  from auth_registered obtain cm where cm: "get_proc server_procs ''auth'' = Some cm" "cmd_proc cm = Net_proc ''auth''" "flags cm = {FLAG_READ}" by blast
  have "length (recv_data (conn_link c)) = 2 \<Longrightarrow> recv_data (conn_link c) ! 1 \<noteq> password net"
    using assms(5) True by (auto simp: numeral_2_eq_2 length_Suc_conv)
  then show ?thesis using assms True cm
    by (auto simp: NetworkServer_proc_def Let_def call_proc_def net_handler_def net_proc_auth_def)
next
  case False
  then show ?thesis using assms by (simp add: NetworkServer_proc_def Let_def PROC_OK_def)
qed

text \<open>C21. With a password set, a link that never sends it gets nothing: whatever it asks for, no command runs and no job
  is queued, the server stays as it is, and every answer is one of three refusals.\<close>

theorem no_password_no_service:
  assumes "procs net = server_procs" and "need_auth net" and "\<not> auth (conn_link c)"
    and "\<forall>req \<in> set reqs. req \<noteq> [] \<and> req \<noteq> [''auth'', password net]"
  shows "\<exists>c' out. serve_requests alloc e reqs c net = Some (c', net, out) \<and> \<not> auth (conn_link c') \<and> length out = length reqs \<and>
    (\<forall>(resp, r) \<in> set out. r = Result 0 \<and> resp \<in> {[''noauth'', ''authentication required''], [''client_error''], [''error'', ''invalid password'']})"
  using assms(3,4)
proof (induction reqs arbitrary: c)
  case (Cons req reqs)
  let ?c = "c\<lparr>conn_link := (conn_link c)\<lparr>recv_data := req\<rparr>\<rparr>"
  from refused [of net ?c alloc e] assms(1,2) Cons.prems obtain c' resp cm where
    r: "NetworkServer_proc alloc e ?c net = Some (c', net, resp, cm, Result 0)" "\<not> auth (conn_link c')"
      "resp \<in> {[''noauth'', ''authentication required''], [''client_error''], [''error'', ''invalid password'']}" by auto
  from Cons.IH [OF r(2)] Cons.prems(2) obtain c'' out where
    IH: "serve_requests alloc e reqs c' net = Some (c'', net, out)" "\<not> auth (conn_link c'')" "length out = length reqs"
      "\<forall>(resp, r) \<in> set out. r = Result 0 \<and> resp \<in> {[''noauth'', ''authentication required''], [''client_error''], [''error'', ''invalid password'']}" by auto
  show ?case using r IH by (intro exI [of _ c''] exI [of _ "(resp, Result 0) # out"]) auto
qed simp

theorem no_password_no_service_witness:
  "\<exists>c' out. serve_requests (\<lambda>_. True) plain_env [[''get'', ''a''], [''auth'', ''guess''], [''set'', ''a'', ''1'']] local_conn (fresh_server ''secret'') =
    Some (c', fresh_server ''secret'', out) \<and> \<not> auth (conn_link c') \<and> length out = 3"
  using no_password_no_service [of "fresh_server ''secret''" local_conn "[[''get'', ''a''], [''auth'', ''guess''], [''set'', ''a'', ''1'']]" "\<lambda>_. True" plain_env]
  by (auto simp: fresh_server_def local_conn_def Link_new_def)

end
