(* ===== verification/Fdevents.thy ===== *)
theory Fdevents
  imports Prelude
begin

section \<open>Subscription to events of descriptors (\<open>net/fde.cpp\<close>, \<open>net/fde_epoll.cpp\<close>, \<open>net/fde_select.cpp\<close>)\<close>

text \<open>
  The event loop watches descriptors through \<open>Fdevents\<close>, which has one implementation on \<open>epoll\<close> and one on
  \<open>select\<close>. A word of flags is the set of its bits. The lists that the operating system keeps or fills are
  arguments and state: for \<open>epoll\<close> the interest list, as its manual describes it.
\<close>

datatype fdflag = FDEVENT_IN | FDEVENT_PRI | FDEVENT_OUT | FDEVENT_HUP | FDEVENT_ERR

record 'p Fdevent =
  fde_fd :: nat
  s_flags :: "fdflag set"
  fde_events :: "fdflag set"
  data_num :: int
  data_ptr :: "'p option"

definition new_fde :: "nat \<Rightarrow> 'p Fdevent" where
  "new_fde i = \<lparr>fde_fd = i, s_flags = {}, fde_events = {}, data_num = 0, data_ptr = None\<rparr>"

text \<open>\<open>get_fde\<close> makes the table long enough for a descriptor.\<close>

definition get_fde :: "nat \<Rightarrow> 'p Fdevent list \<Rightarrow> 'p Fdevent list" where
  "get_fde fd t = t @ map new_fde [length t..<Suc fd]"

definition watched :: "'p Fdevent list \<Rightarrow> nat \<Rightarrow> fdflag set" where
  "watched t fd = (if fd < length t then s_flags (t ! fd) else {})"

definition target :: "'p Fdevent list \<Rightarrow> nat \<Rightarrow> 'p option" where
  "target t fd = (if fd < length t then data_ptr (t ! fd) else None)"

definition subscribe :: "fdflag set \<Rightarrow> int \<Rightarrow> 'p \<Rightarrow> 'p Fdevent \<Rightarrow> 'p Fdevent" where
  "subscribe flags num ptr fde = fde\<lparr>data_num := num, data_ptr := Some ptr, s_flags := s_flags fde \<union> flags\<rparr>"

subsection \<open>On \<open>epoll\<close>\<close>

datatype ctl_op = EPOLL_CTL_ADD | EPOLL_CTL_MOD | EPOLL_CTL_DEL

datatype epoll_bit = EPOLLIN | EPOLLPRI | EPOLLOUT | EPOLLHUP | EPOLLERR

record 'p ep_fdes =
  ep_table :: "'p Fdevent list"
  interest :: "nat \<rightharpoonup> epoll_bit set"

definition ep_new :: "'p ep_fdes" where
  "ep_new = \<lparr>ep_table = [], interest = Map.empty\<rparr>"

text \<open>The interest list: a descriptor is added once, changed or deleted only if it is there.\<close>

definition epoll_ctl :: "ctl_op \<Rightarrow> nat \<Rightarrow> epoll_bit set \<Rightarrow> (nat \<rightharpoonup> epoll_bit set) \<Rightarrow> (nat \<rightharpoonup> epoll_bit set) \<times> int" where
  "epoll_ctl op fd ev l =
     (case (op, l fd) of
        (EPOLL_CTL_ADD, None) \<Rightarrow> (l(fd \<mapsto> ev), 0)
      | (EPOLL_CTL_MOD, Some _) \<Rightarrow> (l(fd \<mapsto> ev), 0)
      | (EPOLL_CTL_DEL, Some _) \<Rightarrow> (l(fd := None), 0)
      | _ \<Rightarrow> (l, -1))"

definition epoll_bits :: "fdflag set \<Rightarrow> epoll_bit set" where
  "epoll_bits f = (if FDEVENT_IN \<in> f then {EPOLLIN} else {}) \<union> (if FDEVENT_OUT \<in> f then {EPOLLOUT} else {})"

definition ep_isset :: "nat \<Rightarrow> fdflag set \<Rightarrow> 'p ep_fdes \<Rightarrow> 'p ep_fdes \<times> bool" where
  "ep_isset fd flag s =
     (let t = get_fde fd (ep_table s) in (s\<lparr>ep_table := t\<rparr>, s_flags (t ! fd) \<inter> flag \<noteq> {}))"

definition ep_set :: "nat \<Rightarrow> fdflag set \<Rightarrow> int \<Rightarrow> 'p \<Rightarrow> 'p ep_fdes \<Rightarrow> 'p ep_fdes \<times> int" where
  "ep_set fd flags num ptr s =
     (let t = get_fde fd (ep_table s)
      in if s_flags (t ! fd) \<inter> flags \<noteq> {} then (s\<lparr>ep_table := t\<rparr>, 0)
         else let op = (if s_flags (t ! fd) \<noteq> {} then EPOLL_CTL_MOD else EPOLL_CTL_ADD);
                  t = t[fd := subscribe flags num ptr (t ! fd)];
                  (l, ret) = epoll_ctl op fd (epoll_bits (s_flags (t ! fd))) (interest s)
              in (s\<lparr>ep_table := t, interest := l\<rparr>, if ret = -1 then -1 else 0))"

definition ep_del :: "nat \<Rightarrow> 'p ep_fdes \<Rightarrow> 'p ep_fdes \<times> int" where
  "ep_del fd s =
     (let (l, ret) = epoll_ctl EPOLL_CTL_DEL fd {} (interest s); s = s\<lparr>interest := l\<rparr>
      in if ret = -1 then (s, -1)
         else let t = get_fde fd (ep_table s) in (s\<lparr>ep_table := t[fd := (t ! fd)\<lparr>s_flags := {}\<rparr>]\<rparr>, 0))"

definition ep_clr :: "nat \<Rightarrow> fdflag set \<Rightarrow> 'p ep_fdes \<Rightarrow> 'p ep_fdes \<times> int" where
  "ep_clr fd flags s =
     (let t = get_fde fd (ep_table s)
      in if s_flags (t ! fd) \<inter> flags = {} then (s\<lparr>ep_table := t\<rparr>, 0)
         else let t = t[fd := (t ! fd)\<lparr>s_flags := s_flags (t ! fd) - flags\<rparr>];
                  op = (if s_flags (t ! fd) \<noteq> {} then EPOLL_CTL_MOD else EPOLL_CTL_DEL);
                  (l, ret) = epoll_ctl op fd (epoll_bits (s_flags (t ! fd))) (interest s)
              in (s\<lparr>ep_table := t, interest := l\<rparr>, if ret = -1 then -1 else 0))"

text \<open>The system gives descriptors with the bits that are raised; \<open>wait\<close> turns them into the ready events.\<close>

definition ready_flags :: "epoll_bit set \<Rightarrow> fdflag set" where
  "ready_flags b =
     (if EPOLLIN \<in> b then {FDEVENT_IN} else {}) \<union> (if EPOLLPRI \<in> b then {FDEVENT_IN} else {}) \<union>
     (if EPOLLOUT \<in> b then {FDEVENT_OUT} else {}) \<union> (if EPOLLHUP \<in> b then {FDEVENT_ERR} else {}) \<union>
     (if EPOLLERR \<in> b then {FDEVENT_ERR} else {})"

fun ep_wait :: "(nat \<times> epoll_bit set) list \<Rightarrow> 'p ep_fdes \<Rightarrow> 'p ep_fdes \<times> 'p Fdevent list" where
  "ep_wait [] s = (s, [])"
| "ep_wait ((fd, b) # es) s =
     (let fde = (ep_table s ! fd)\<lparr>fde_events := ready_flags b\<rparr>;
          (s, r) = ep_wait es (s\<lparr>ep_table := (ep_table s)[fd := fde]\<rparr>)
      in (s, fde # r))"

subsection \<open>On \<open>select\<close>\<close>

record 'p sel_fdes =
  sel_table :: "'p Fdevent list"
  readset :: "nat set"
  writeset :: "nat set"
  maxfd :: int

definition FD_SETSIZE :: nat where "FD_SETSIZE = 1024"

definition sel_new :: "'p sel_fdes" where
  "sel_new = \<lparr>sel_table = [], readset = {}, writeset = {}, maxfd = -1\<rparr>"

definition sel_isset :: "nat \<Rightarrow> fdflag set \<Rightarrow> 'p sel_fdes \<Rightarrow> 'p sel_fdes \<times> bool" where
  "sel_isset fd flag s =
     (let t = get_fde fd (sel_table s) in (s\<lparr>sel_table := t\<rparr>, s_flags (t ! fd) \<inter> flag \<noteq> {}))"

definition sel_set :: "nat \<Rightarrow> fdflag set \<Rightarrow> int \<Rightarrow> 'p \<Rightarrow> 'p sel_fdes \<Rightarrow> 'p sel_fdes \<times> int" where
  "sel_set fd flags num ptr s =
     (if fd > FD_SETSIZE - 1 then (s, -1)
      else let t = get_fde fd (sel_table s)
           in if s_flags (t ! fd) \<inter> flags \<noteq> {} then (s\<lparr>sel_table := t\<rparr>, 0)
              else (s\<lparr>sel_table := t[fd := subscribe flags num ptr (t ! fd)],
                      readset := (if FDEVENT_IN \<in> flags then insert fd (readset s) else readset s),
                      writeset := (if FDEVENT_OUT \<in> flags then insert fd (writeset s) else writeset s),
                      maxfd := (if int fd > maxfd s then int fd else maxfd s)\<rparr>, 0))"

text \<open>The loop of \<open>del\<close> down to the largest descriptor in use; that of \<open>clr\<close> has no test for the end of the table
  and reads below it (\<open>None\<close>) when no descriptor is in use.\<close>

function shrink_maxfd :: "'p Fdevent list \<Rightarrow> int \<Rightarrow> int" where
  "shrink_maxfd t m = (if m \<ge> 0 \<and> s_flags (t ! nat m) = {} then shrink_maxfd t (m - 1) else m)"
  by pat_completeness auto
termination by (relation "measure (\<lambda>(t, m). nat (m + 1))") auto

declare shrink_maxfd.simps [simp del]

function shrink_unchecked :: "'p Fdevent list \<Rightarrow> int \<Rightarrow> int option" where
  "shrink_unchecked t m =
     (if m < 0 then None else if s_flags (t ! nat m) = {} then shrink_unchecked t (m - 1) else Some m)"
  by pat_completeness auto
termination by (relation "measure (\<lambda>(t, m). nat (m + 1))") auto

declare shrink_unchecked.simps [simp del]

definition sel_del :: "nat \<Rightarrow> 'p sel_fdes \<Rightarrow> 'p sel_fdes \<times> int" where
  "sel_del fd s =
     (let t = get_fde fd (sel_table s); t = t[fd := (t ! fd)\<lparr>s_flags := {}\<rparr>]
      in (s\<lparr>readset := readset s - {fd}, writeset := writeset s - {fd}, sel_table := t, maxfd := shrink_maxfd t (maxfd s)\<rparr>, 0))"

definition sel_clr :: "nat \<Rightarrow> fdflag set \<Rightarrow> 'p sel_fdes \<Rightarrow> ('p sel_fdes \<times> int) option" where
  "sel_clr fd flags s =
     (let t = get_fde fd (sel_table s)
      in if s_flags (t ! fd) \<inter> flags = {} then Some (s\<lparr>sel_table := t\<rparr>, 0)
         else let t = t[fd := (t ! fd)\<lparr>s_flags := s_flags (t ! fd) - flags\<rparr>]
              in case shrink_unchecked t (maxfd s) of
                   None \<Rightarrow> None
                 | Some m \<Rightarrow>
                     Some (s\<lparr>readset := (if FDEVENT_IN \<in> flags then readset s - {fd} else readset s),
                             writeset := (if FDEVENT_OUT \<in> flags then writeset s - {fd} else writeset s),
                             sel_table := t, maxfd := m\<rparr>, 0))"

text \<open>\<open>select\<close> gives the two sets of descriptors that are ready and their number \<open>ret\<close>; the loop over the table stops
  after as many events.\<close>

function sel_collect :: "nat set \<Rightarrow> nat set \<Rightarrow> nat \<Rightarrow> nat \<Rightarrow> 'p sel_fdes \<Rightarrow> 'p Fdevent list \<Rightarrow> 'p sel_fdes \<times> 'p Fdevent list" where
  "sel_collect rs ws ret i s acc =
     (if int i \<le> maxfd s \<and> length acc < ret
      then let ev = (if i \<in> rs then {FDEVENT_IN} else {}) \<union> (if i \<in> ws then {FDEVENT_OUT} else {});
               fde = (sel_table s ! i)\<lparr>fde_events := ev\<rparr>
           in sel_collect rs ws ret (Suc i) (s\<lparr>sel_table := (sel_table s)[i := fde]\<rparr>) (if ev \<noteq> {} then acc @ [fde] else acc)
      else (s, acc))"
  by pat_completeness auto
termination by (relation "measure (\<lambda>(rs, ws, ret, i, s, acc). nat (maxfd s + 1 - int i))") auto

declare sel_collect.simps [simp del]

definition sel_wait :: "nat set \<Rightarrow> nat set \<Rightarrow> nat \<Rightarrow> 'p sel_fdes \<Rightarrow> 'p sel_fdes \<times> 'p Fdevent list" where
  "sel_wait rs ws ret s = (if ret > 0 then sel_collect rs ws ret 0 s [] else (s, []))"

subsection \<open>The contract of a watch list\<close>

datatype 'p fd_op = Set nat fdflag 'p | Clr nat fdflag | Del nat

fun op_fd :: "'p fd_op \<Rightarrow> nat" where
  "op_fd (Set fd f p) = fd" | "op_fd (Clr fd f) = fd" | "op_fd (Del fd) = fd"

fun op_flag :: "'p fd_op \<Rightarrow> fdflag" where
  "op_flag (Set fd f p) = f" | "op_flag (Clr fd f) = f" | "op_flag (Del fd) = FDEVENT_IN"

text \<open>What an operation does to the subscriptions and to the pointers that events of a descriptor carry.\<close>

fun watch_op :: "'p fd_op \<Rightarrow> (nat \<Rightarrow> fdflag set) \<times> (nat \<Rightarrow> 'p option) \<Rightarrow> (nat \<Rightarrow> fdflag set) \<times> (nat \<Rightarrow> 'p option)" where
  "watch_op (Set fd f p) (w, t) = (if f \<in> w fd then (w, t) else (w(fd := insert f (w fd)), t(fd \<mapsto> p)))"
| "watch_op (Clr fd f) (w, t) = (w(fd := w fd - {f}), t)"
| "watch_op (Del fd) (w, t) = (w(fd := {}), t)"

locale fd_watch =
  fixes ok :: "'s \<Rightarrow> bool"
    and view :: "'s \<Rightarrow> (nat \<Rightarrow> fdflag set) \<times> (nat \<Rightarrow> 'p option)"
    and usable :: "nat \<Rightarrow> bool"
    and exec :: "'p fd_op \<Rightarrow> 's \<Rightarrow> 's option"
  assumes exec_law: "\<lbrakk>ok s; usable (op_fd p); op_flag p \<in> {FDEVENT_IN, FDEVENT_OUT}; fst (view s) l \<noteq> {}; l \<noteq> op_fd p\<rbrakk>
    \<Longrightarrow> \<exists>s'. exec p s = Some s' \<and> ok s' \<and> view s' = watch_op p (view s)"
begin

primrec run :: "'p fd_op list \<Rightarrow> 's \<Rightarrow> 's option" where
  "run [] s = Some s"
| "run (p # ps) s = (case exec p s of None \<Rightarrow> None | Some s' \<Rightarrow> run ps s')"

lemma watch_op_other: "l \<noteq> op_fd p \<Longrightarrow> fst (watch_op p v) l = fst v l"
  by (cases v; cases p) auto

lemma run_law:
  assumes "ok s" and "fst (view s) l \<noteq> {}"
    and "\<forall>p \<in> set ps. usable (op_fd p) \<and> op_flag p \<in> {FDEVENT_IN, FDEVENT_OUT} \<and> op_fd p \<noteq> l"
  shows "\<exists>s'. run ps s = Some s' \<and> ok s' \<and> view s' = fold watch_op ps (view s)"
  using assms
proof (induction ps arbitrary: s)
  case (Cons p ps)
  from exec_law [of s p l] Cons.prems obtain s' where
    s': "exec p s = Some s'" "ok s'" "view s' = watch_op p (view s)" by auto
  have "fst (view s') l \<noteq> {}" using Cons.prems watch_op_other [of l p "view s"] by (simp add: s'(3))
  from Cons.IH [OF s'(2) this] Cons.prems(3) show ?case by (simp add: s'(1,3))
qed simp

end

lemma table_simps [simp]:
  "watched (get_fde fd t) = watched t" "target (get_fde fd t) = target t" "fd < length (get_fde fd t)"
  "length t \<le> length (get_fde fd t)"
  by (auto simp: watched_def target_def get_fde_def nth_append new_fde_def fun_eq_iff)

lemma table_update:
  assumes "fd < length t"
  shows "watched (t[fd := x]) = (watched t)(fd := s_flags x)" and "target (t[fd := x]) = (target t)(fd := data_ptr x)"
  using assms by (auto simp: watched_def target_def nth_list_update fun_eq_iff)

lemma table_at [simp]: "s_flags (get_fde fd t ! fd) = watched t fd" "data_ptr (get_fde fd t ! fd) = target t fd"
  using table_simps(1,2) [of fd t] table_simps(3) [of fd t] by (metis watched_def, metis target_def)

lemma subscribe_simps [simp]:
  "s_flags (subscribe flags num ptr fde) = s_flags fde \<union> flags" "data_ptr (subscribe flags num ptr fde) = Some ptr"
  by (simp_all add: subscribe_def)

definition only_io :: "(nat \<Rightarrow> fdflag set) \<Rightarrow> bool" where
  "only_io w \<longleftrightarrow> (\<forall>fd. w fd \<subseteq> {FDEVENT_IN, FDEVENT_OUT})"

lemma only_io_upd: "only_io w \<Longrightarrow> x \<subseteq> {FDEVENT_IN, FDEVENT_OUT} \<Longrightarrow> only_io (w(fd := x))"
  by (auto simp: only_io_def)

lemma only_ioD: "only_io w \<Longrightarrow> w fd \<subseteq> {FDEVENT_IN, FDEVENT_OUT}"
  by (auto simp: only_io_def)

subsection \<open>Both implementations keep the contract\<close>

definition ep_view :: "'p ep_fdes \<Rightarrow> (nat \<Rightarrow> fdflag set) \<times> (nat \<Rightarrow> 'p option)" where
  "ep_view s = (watched (ep_table s), target (ep_table s))"

text \<open>The interest list of the system is what the table says.\<close>

definition ep_ok :: "'p ep_fdes \<Rightarrow> bool" where
  "ep_ok s \<longleftrightarrow> only_io (watched (ep_table s)) \<and>
     interest s = (\<lambda>fd. if watched (ep_table s) fd = {} then None else Some (epoll_bits (watched (ep_table s) fd)))"

definition ep_exec :: "'p fd_op \<Rightarrow> 'p ep_fdes \<Rightarrow> 'p ep_fdes option" where
  "ep_exec p s = (case p of
      Set fd f ptr \<Rightarrow> Some (fst (ep_set fd {f} 1 ptr s))
    | Clr fd f \<Rightarrow> Some (fst (ep_clr fd {f} s))
    | Del fd \<Rightarrow> Some (fst (ep_del fd s)))"

lemma ep_set_ok:
  assumes "ep_ok s" and "f \<in> {FDEVENT_IN, FDEVENT_OUT}"
  shows "ep_ok (fst (ep_set fd {f} n ptr s))" and "ep_view (fst (ep_set fd {f} n ptr s)) = watch_op (Set fd f ptr) (ep_view s)"
    and "snd (ep_set fd {f} n ptr s) = 0"
proof -
  note io = only_ioD [of "watched (ep_table s)" fd]
  have o: "only_io (watched (ep_table s))" using assms by (simp add: ep_ok_def)
  show "ep_ok (fst (ep_set fd {f} n ptr s))" "snd (ep_set fd {f} n ptr s) = 0"
    using assms only_io_upd [OF o, of "insert f (watched (ep_table s) fd)" fd] io [OF o]
    by (auto simp: ep_ok_def ep_set_def Let_def table_update epoll_ctl_def fun_eq_iff split: ctl_op.splits)
  show "ep_view (fst (ep_set fd {f} n ptr s)) = watch_op (Set fd f ptr) (ep_view s)"
    using assms by (auto simp: ep_view_def ep_set_def Let_def table_update epoll_ctl_def ep_ok_def)
qed

lemma ep_clr_ok:
  assumes "ep_ok s"
  shows "ep_ok (fst (ep_clr fd {f} s))" and "ep_view (fst (ep_clr fd {f} s)) = watch_op (Clr fd f) (ep_view s)"
    and "snd (ep_clr fd {f} s) = 0"
proof -
  have o: "only_io (watched (ep_table s))" using assms by (simp add: ep_ok_def)
  have x: "watched (ep_table s) fd - {f} \<subseteq> {FDEVENT_IN, FDEVENT_OUT}" using only_ioD [OF o, of fd] by auto
  have id: "f \<notin> watched (ep_table s) fd \<Longrightarrow> (watched (ep_table s))(fd := watched (ep_table s) fd - {f}) = watched (ep_table s)"
    by (auto simp: fun_eq_iff)
  show "ep_ok (fst (ep_clr fd {f} s))" "snd (ep_clr fd {f} s) = 0"
    using assms only_io_upd [OF o x, of fd]
    by (auto simp: ep_ok_def ep_clr_def Let_def table_update epoll_ctl_def fun_eq_iff split: ctl_op.splits)
  show "ep_view (fst (ep_clr fd {f} s)) = watch_op (Clr fd f) (ep_view s)"
    using assms id by (auto simp: ep_view_def ep_clr_def Let_def table_update epoll_ctl_def ep_ok_def fun_eq_iff)
qed

lemma ep_del_ok:
  assumes "ep_ok s"
  shows "ep_ok (fst (ep_del fd s))" and "ep_view (fst (ep_del fd s)) = watch_op (Del fd) (ep_view s)"
proof -
  have o: "only_io (watched (ep_table s))" using assms by (simp add: ep_ok_def)
  have id: "watched (ep_table s) fd = {} \<Longrightarrow> (watched (ep_table s))(fd := {}) = watched (ep_table s)" by (auto simp: fun_eq_iff)
  show "ep_ok (fst (ep_del fd s))"
    using assms only_io_upd [OF o, of "{}" fd] by (auto simp: ep_ok_def ep_del_def Let_def table_update epoll_ctl_def fun_eq_iff)
  show "ep_view (fst (ep_del fd s)) = watch_op (Del fd) (ep_view s)"
    using assms id by (auto simp: ep_view_def ep_del_def Let_def table_update epoll_ctl_def ep_ok_def fun_eq_iff)
qed

interpretation epw: fd_watch ep_ok ep_view "\<lambda>fd. True" ep_exec
proof
  fix s :: "'p ep_fdes" and p :: "'p fd_op" and l
  assume "ep_ok s" and "op_flag p \<in> {FDEVENT_IN, FDEVENT_OUT}"
  then show "\<exists>s'. ep_exec p s = Some s' \<and> ep_ok s' \<and> ep_view s' = watch_op p (ep_view s)"
    using ep_set_ok [of s] ep_clr_ok [of s] ep_del_ok [of s] by (cases p) (auto simp: ep_exec_def)
qed

definition sel_view :: "'p sel_fdes \<Rightarrow> (nat \<Rightarrow> fdflag set) \<times> (nat \<Rightarrow> 'p option)" where
  "sel_view s = (watched (sel_table s), target (sel_table s))"

text \<open>The two sets are what the table says, and \<open>maxfd\<close> is the largest descriptor in use.\<close>

definition maxfd_ok :: "'p Fdevent list \<Rightarrow> int \<Rightarrow> bool" where
  "maxfd_ok t m \<longleftrightarrow> -1 \<le> m \<and> m < int (length t) \<and> (\<forall>fd. watched t fd \<noteq> {} \<longrightarrow> int fd \<le> m)"

definition sel_ok :: "'p sel_fdes \<Rightarrow> bool" where
  "sel_ok s \<longleftrightarrow> only_io (watched (sel_table s)) \<and>
     readset s = {fd. FDEVENT_IN \<in> watched (sel_table s) fd} \<and> writeset s = {fd. FDEVENT_OUT \<in> watched (sel_table s) fd} \<and>
     maxfd_ok (sel_table s) (maxfd s)"

definition sel_exec :: "'p fd_op \<Rightarrow> 'p sel_fdes \<Rightarrow> 'p sel_fdes option" where
  "sel_exec p s = (case p of
      Set fd f ptr \<Rightarrow> Some (fst (sel_set fd {f} 1 ptr s))
    | Clr fd f \<Rightarrow> map_option fst (sel_clr fd {f} s)
    | Del fd \<Rightarrow> Some (fst (sel_del fd s)))"

lemma shrink_maxfd_ok: "maxfd_ok t m \<Longrightarrow> maxfd_ok t (shrink_maxfd t m)"
proof (induction t m rule: shrink_maxfd.induct)
  case (1 t m)
  show ?case
  proof (cases "m \<ge> 0 \<and> s_flags (t ! nat m) = {}")
    case True
    have "maxfd_ok t (m - 1)" unfolding maxfd_ok_def
    proof (intro conjI allI impI)
      fix fd assume w: "watched t fd \<noteq> {}"
      then have "int fd \<le> m" using "1.prems" by (auto simp: maxfd_ok_def)
      moreover have "int fd \<noteq> m" using w True by (auto simp: watched_def split: if_splits)
      ultimately show "int fd \<le> m - 1" by simp
    qed (use "1.prems" True in \<open>auto simp: maxfd_ok_def\<close>)
    from "1.IH" [OF True this] True show ?thesis by (subst shrink_maxfd.simps) simp
  next
    case False
    then have "shrink_maxfd t m = m" by (subst shrink_maxfd.simps) auto
    then show ?thesis using "1.prems" by simp
  qed
qed

lemma shrink_unchecked_eq: "shrink_maxfd t m \<ge> 0 \<Longrightarrow> shrink_unchecked t m = Some (shrink_maxfd t m)"
proof (induction t m rule: shrink_maxfd.induct)
  case (1 t m)
  show ?case
  proof (cases "m \<ge> 0 \<and> s_flags (t ! nat m) = {}")
    case True
    then have "shrink_maxfd t m = shrink_maxfd t (m - 1)" by (subst shrink_maxfd.simps) simp
    with "1.IH" [OF True] "1.prems" True show ?thesis by (subst shrink_unchecked.simps) simp
  next
    case False
    then have "shrink_maxfd t m = m" by (subst shrink_maxfd.simps) auto
    with "1.prems" False show ?thesis by (subst shrink_unchecked.simps) simp
  qed
qed

lemma maxfd_ok_less: "maxfd_ok t m \<Longrightarrow> fd < length t \<Longrightarrow> s_flags x \<subseteq> watched t fd \<Longrightarrow> maxfd_ok (t[fd := x]) m"
  by (auto simp: maxfd_ok_def table_update)

lemma maxfd_ok_get: "maxfd_ok t m \<Longrightarrow> maxfd_ok (get_fde fd t) m"
  by (auto simp: maxfd_ok_def) (metis get_fde_def length_append less_le_trans of_nat_le_iff le_add1)

lemma sel_set_ok:
  assumes "sel_ok s" and "f \<in> {FDEVENT_IN, FDEVENT_OUT}" and "fd < FD_SETSIZE"
  shows "sel_ok (fst (sel_set fd {f} n ptr s)) \<and> sel_view (fst (sel_set fd {f} n ptr s)) = watch_op (Set fd f ptr) (sel_view s)"
proof (cases "f \<in> watched (sel_table s) fd")
  case True
  with assms maxfd_ok_get show ?thesis by (auto simp: sel_ok_def sel_view_def sel_set_def Let_def FD_SETSIZE_def)
next
  case False
  let ?t = "(get_fde fd (sel_table s))[fd := subscribe {f} n ptr (get_fde fd (sel_table s) ! fd)]"
  let ?w = "watched (sel_table s)"
  have w: "watched ?t = ?w(fd := insert f (?w fd))" "target ?t = (target (sel_table s))(fd \<mapsto> ptr)"
    by (simp_all add: table_update fun_eq_iff)
  have o: "only_io (?w(fd := insert f (?w fd)))"
    using assms only_io_upd [of ?w "insert f (?w fd)" fd] only_ioD [of ?w fd] by (auto simp: sel_ok_def)
  have "int fd < int (length ?t)" by simp
  moreover have "maxfd s < int (length ?t)" using maxfd_ok_get [of "sel_table s" "maxfd s" fd] assms(1) by (simp add: sel_ok_def maxfd_ok_def)
  ultimately have m: "maxfd_ok ?t (if int fd > maxfd s then int fd else maxfd s)"
    using assms(1) unfolding maxfd_ok_def w by (auto simp: sel_ok_def maxfd_ok_def)
  have e: "fst (sel_set fd {f} n ptr s) = s\<lparr>sel_table := ?t,
      readset := (if FDEVENT_IN \<in> {f} then insert fd (readset s) else readset s),
      writeset := (if FDEVENT_OUT \<in> {f} then insert fd (writeset s) else writeset s),
      maxfd := (if int fd > maxfd s then int fd else maxfd s)\<rparr>"
    using False assms(3) by (simp add: sel_set_def Let_def FD_SETSIZE_def)
  show ?thesis unfolding e using o m w assms(1,2) False by (auto simp: sel_ok_def sel_view_def)
qed

lemma sel_del_ok:
  assumes "sel_ok s"
  shows "sel_ok (fst (sel_del fd s)) \<and> sel_view (fst (sel_del fd s)) = watch_op (Del fd) (sel_view s)"
proof -
  let ?t = "(get_fde fd (sel_table s))[fd := (get_fde fd (sel_table s) ! fd)\<lparr>s_flags := {}\<rparr>]"
  let ?w = "watched (sel_table s)"
  have w: "watched ?t = ?w(fd := {})" "target ?t = target (sel_table s)"
    by (simp_all add: table_update fun_eq_iff)
  have "maxfd_ok (get_fde fd (sel_table s)) (maxfd s)"
    using assms maxfd_ok_get by (auto simp: sel_ok_def)
  then have "maxfd_ok ?t (maxfd s)" by (rule maxfd_ok_less) simp_all
  from shrink_maxfd_ok [OF this] assms only_io_upd [of ?w "{}" fd] w show ?thesis
    by (auto simp: sel_ok_def sel_view_def sel_del_def Let_def)
qed

lemma sel_clr_ok:
  assumes "sel_ok s" and "watched (sel_table s) l \<noteq> {}" and "l \<noteq> fd"
  shows "\<exists>s'. sel_clr fd {f} s = Some (s', 0) \<and> sel_ok s' \<and> sel_view s' = watch_op (Clr fd f) (sel_view s)"
proof (cases "f \<in> watched (sel_table s) fd")
  case False
  then have "(watched (sel_table s))(fd := watched (sel_table s) fd - {f}) = watched (sel_table s)" by (auto simp: fun_eq_iff)
  with False assms maxfd_ok_get show ?thesis by (auto simp: sel_ok_def sel_view_def sel_clr_def Let_def)
next
  case True
  let ?t = "(get_fde fd (sel_table s))[fd := (get_fde fd (sel_table s) ! fd)\<lparr>s_flags := watched (sel_table s) fd - {f}\<rparr>]"
  let ?w = "watched (sel_table s)"
  have w: "watched ?t = ?w(fd := ?w fd - {f})" "target ?t = target (sel_table s)"
    by (simp_all add: table_update fun_eq_iff)
  have "maxfd_ok (get_fde fd (sel_table s)) (maxfd s)"
    using assms(1) maxfd_ok_get by (auto simp: sel_ok_def)
  then have "maxfd_ok ?t (maxfd s)" by (rule maxfd_ok_less) auto
  note m = shrink_maxfd_ok [OF this]
  have "watched ?t l \<noteq> {}" using assms(2,3) unfolding w by simp
  then have "shrink_maxfd ?t (maxfd s) \<ge> 0" using m unfolding maxfd_ok_def by (meson of_nat_0_le_iff order_trans)
  note sh = shrink_unchecked_eq [OF this]
  have o: "only_io (?w(fd := ?w fd - {f}))"
    using assms(1) only_io_upd [of ?w "?w fd - {f}" fd] only_ioD [of ?w fd] by (auto simp: sel_ok_def)
  show ?thesis using True sh m o w assms(1) by (auto simp: sel_ok_def sel_view_def sel_clr_def Let_def)
qed

interpretation selw: fd_watch sel_ok sel_view "\<lambda>fd. fd < FD_SETSIZE" sel_exec
proof
  fix s :: "'p sel_fdes" and p :: "'p fd_op" and l
  assume a: "sel_ok s" "op_fd p < FD_SETSIZE" "op_flag p \<in> {FDEVENT_IN, FDEVENT_OUT}" "fst (sel_view s) l \<noteq> {}" "l \<noteq> op_fd p"
  show "\<exists>s'. sel_exec p s = Some s' \<and> sel_ok s' \<and> sel_view s' = watch_op p (sel_view s)"
  proof (cases p)
    case (Set fd f ptr)
    with a sel_set_ok [of s f fd 1 ptr] show ?thesis by (simp add: sel_exec_def)
  next
    case (Clr fd f)
    with a have "watched (sel_table s) l \<noteq> {}" "l \<noteq> fd" by (simp_all add: sel_view_def)
    from sel_clr_ok [OF a(1) this, of f] Clr show ?thesis by (auto simp: sel_exec_def)
  next
    case (Del fd)
    with sel_del_ok [OF a(1), of fd] show ?thesis by (simp add: sel_exec_def)
  qed
qed

subsection \<open>Events\<close>

text \<open>A ready event of \<open>epoll\<close> carries the pointer of its descriptor, and flags beyond errors only for what the system raised.\<close>

lemma ep_wait_facts:
  "\<forall>(fd, b) \<in> set es. fd < length (ep_table s) \<Longrightarrow>
   ep_view (fst (ep_wait es s)) = ep_view s \<and> interest (fst (ep_wait es s)) = interest s \<and>
   map (\<lambda>e. (data_ptr e, fde_events e)) (snd (ep_wait es s)) = map (\<lambda>(fd, b). (target (ep_table s) fd, ready_flags b)) es"
proof (induction es arbitrary: s)
  case (Cons e es)
  obtain fd b where e: "e = (fd, b)" by (cases e)
  let ?fde = "(ep_table s ! fd)\<lparr>fde_events := ready_flags b\<rparr>"
  let ?s = "s\<lparr>ep_table := (ep_table s)[fd := ?fde]\<rparr>"
  have fd: "fd < length (ep_table s)" using Cons.prems e by simp
  have v: "ep_view ?s = ep_view s" using fd by (simp add: ep_view_def table_update, simp add: watched_def target_def fun_eq_iff)
  have "data_ptr (ep_table s ! fd) = target (ep_table s) fd" using fd by (simp add: target_def)
  with Cons.IH [of ?s] Cons.prems v e show ?case by (simp add: Let_def split_beta ep_view_def)
qed simp



text \<open>On \<open>select\<close>, \<open>clr\<close> of the only subscription leaves the table: the loop down to the largest descriptor has no end.\<close>

lemma sel_clr_last:
  fixes p :: 'p
  shows "sel_clr 0 {FDEVENT_IN} (fst (sel_set 0 {FDEVENT_IN} 1 p sel_new)) = None"
  by (simp add: sel_clr_def sel_set_def sel_new_def FD_SETSIZE_def get_fde_def new_fde_def subscribe_def shrink_unchecked.simps)

end
