(* ===== verification/NetLoop.thy ===== *)
theory NetLoop
  imports NetProc Fdevents "HOL-Library.Multiset"
begin

section \<open>The loop of the network server (\<open>net/server.cpp\<close>, \<open>net/worker.cpp\<close>, \<open>util/thread.h\<close>)\<close>

text \<open>
  One thread accepts connections, reads requests and writes answers; two pools of threads run the commands. A link is an
  object that the main thread, a pool or a backend thread holds by its address, and that is deleted when its
  connection ends. The state has the objects that are alive; reading one that is not is \<open>Dangling\<close>, and a handler that
  leaves defined behaviour is \<open>Crash\<close>. What the system calls return is an argument.
\<close>

datatype ptr = P_serv | P_reader | P_writer | P_link nat

datatype 'a res = Next 'a | Dangling | Crash

record job =
  job_link :: nat
  job_cmd :: "bytes option"
  job_result :: int
  job_resp :: "bytes list"

text \<open>A \<open>WorkerPool\<close>: the queue of jobs, the jobs that its threads have taken, and the queue of results.\<close>

record pool =
  jobs :: "job list"
  working :: "job list"
  results :: "job list"

record loop =
  net :: net_server
  heap :: "nat \<rightharpoonup> conn"
  fdes :: "ptr ep_fdes"
  writer :: pool
  reader :: pool
  ready_list :: "nat list"
  ready_list_2 :: "nat list"
  backend :: "nat set"
  serv_fd :: nat
  reader_fd :: nat
  writer_fd :: nat

text \<open>What the environment does: the allocator, conversion of floating point numbers, \<open>errno\<close>, the handlers' environment, and
  the results of reads and writes, and whether a new thread can be had.\<close>

record sys =
  alloc :: "nat \<Rightarrow> bool"
  dbl :: "bytes \<Rightarrow> int"
  en :: nat
  call :: call_env
  reads :: "sys_read list"
  writes :: "sys_write list"
  threads :: bool

subsection \<open>Pools\<close>

definition pool_push :: "job \<Rightarrow> pool \<Rightarrow> pool" where
  "pool_push j w = w\<lparr>jobs := jobs w @ [j]\<rparr>"

text \<open>\<open>pop\<close> of the queue of results: \<open>None\<close> when nothing is there.\<close>

definition pool_pop :: "pool \<Rightarrow> (job \<times> pool) option" where
  "pool_pop w = (case results w of [] \<Rightarrow> None | j # js \<Rightarrow> Some (j, w\<lparr>results := js\<rparr>))"

text \<open>A thread takes the first job.\<close>

definition pool_take :: "pool \<Rightarrow> pool option" where
  "pool_take w = (case jobs w of [] \<Rightarrow> None | j # js \<Rightarrow> Some (w\<lparr>jobs := js, working := working w @ [j]\<rparr>))"

definition get_pool :: "pool_name \<Rightarrow> loop \<Rightarrow> pool" where
  "get_pool n st = (case n of Writer \<Rightarrow> writer st | Reader \<Rightarrow> reader st)"

definition set_pool :: "pool_name \<Rightarrow> pool \<Rightarrow> loop \<Rightarrow> loop" where
  "set_pool n w st = (case n of Writer \<Rightarrow> st\<lparr>writer := w\<rparr> | Reader \<Rightarrow> st\<lparr>reader := w\<rparr>)"

text \<open>\<open>ProcWorker::proc\<close> on the \<open>i\<close>-th job that a thread of the pool has, and the push of the result.\<close>

definition worker_proc :: "sys \<Rightarrow> pool_name \<Rightarrow> nat \<Rightarrow> loop \<Rightarrow> loop res" where
  "worker_proc Y n i st =
     (let w = get_pool n st; j = working w ! i; p = job_link j
      in case heap st p of
           None \<Rightarrow> Dangling
         | Some c \<Rightarrow>
             (case job_cmd j of
                None \<Rightarrow> Crash
              | Some name \<Rightarrow>
                  (case get_proc (procs (net st)) name of
                     None \<Rightarrow> Crash
                   | Some cm \<Rightarrow>
                       (case call_proc (call Y) (cmd_proc cm) (recv_data (conn_link c)) c (net st) of
                          None \<Rightarrow> Crash
                        | Some (c, nt, resp, ret) \<Rightarrow>
                            let (l, len, _, _) = Link_write (writes Y) (Link_send (alloc Y) resp (conn_link c));
                                j = j\<lparr>job_resp := resp, job_result := (if len < 0 then PROC_ERROR else ret)\<rparr>
                            in Next (set_pool n (w\<lparr>working := take i (working w) @ drop (Suc i) (working w), results := results w @ [j]\<rparr>)
                                 (st\<lparr>net := nt, heap := (heap st)(p \<mapsto> c\<lparr>conn_link := l\<rparr>)\<rparr>))))))"

subsection \<open>Links\<close>

text \<open>\<open>accept_link\<close>: the new object and its descriptor, when the system has a connection.\<close>

definition accept_link :: "(nat \<times> nat \<times> bytes) option \<Rightarrow> loop \<Rightarrow> loop \<times> nat option" where
  "accept_link a st =
     (case a of
        None \<Rightarrow> (st, None)
      | Some (p, fd, ip) \<Rightarrow>
          if \<not> check_pass (net_filter (net st)) ip then (st, None)
          else (st\<lparr>heap := (heap st)(p \<mapsto> \<lparr>conn_link = Link_new\<lparr>link_noblock := True\<rparr>, conn_fd = fd, remote_ip = ip\<rparr>)\<rparr>, Some p))"

definition fd_set :: "nat \<Rightarrow> fdflag \<Rightarrow> ptr \<Rightarrow> loop \<Rightarrow> loop" where
  "fd_set fd f p st = st\<lparr>fdes := fst (ep_set fd {f} 1 p (fdes st))\<rparr>"

definition fd_clr :: "nat \<Rightarrow> fdflag \<Rightarrow> loop \<Rightarrow> loop" where
  "fd_clr fd f st = st\<lparr>fdes := fst (ep_clr fd {f} (fdes st))\<rparr>"

definition fd_del :: "nat \<Rightarrow> loop \<Rightarrow> loop" where
  "fd_del fd st = st\<lparr>fdes := fst (ep_del fd (fdes st))\<rparr>"

definition count_links :: "int \<Rightarrow> loop \<Rightarrow> loop" where
  "count_links d st = st\<lparr>net := (net st)\<lparr>link_count := link_count (net st) + d\<rparr>\<rparr>"

text \<open>\<open>link_count --; fdes->del(link->fd()); delete link\<close>, as it is in three places.\<close>

definition delete_link :: "nat \<Rightarrow> conn \<Rightarrow> loop \<Rightarrow> loop" where
  "delete_link p c st = (fd_del (conn_fd c) (count_links (-1) st))\<lparr>heap := (heap st)(p := None)\<rparr>"

definition set_link :: "nat \<Rightarrow> conn \<Rightarrow> link \<Rightarrow> loop \<Rightarrow> loop" where
  "set_link p c l st = st\<lparr>heap := (heap st)(p \<mapsto> c\<lparr>conn_link := l\<rparr>)\<rparr>"

definition count_call :: "bytes option \<Rightarrow> loop \<Rightarrow> loop" where
  "count_call name st =
     (case name of
        None \<Rightarrow> st
      | Some n \<Rightarrow> st\<lparr>net := (net st)\<lparr>procs := map (\<lambda>(k, cm). (k, if k = n then cm\<lparr>calls := calls cm + 1\<rparr> else cm)) (procs (net st))\<rparr>\<rparr>)"

definition push_ready :: "bool \<Rightarrow> nat \<Rightarrow> loop \<Rightarrow> loop" where
  "push_ready two p st = (if two then st\<lparr>ready_list_2 := ready_list_2 st @ [p]\<rparr> else st\<lparr>ready_list := ready_list st @ [p]\<rparr>)"

text \<open>The end of \<open>proc_result\<close>, after the write.\<close>

definition wait_or_ready :: "bool \<Rightarrow> nat \<Rightarrow> conn \<Rightarrow> loop \<Rightarrow> loop" where
  "wait_or_ready two p c st =
     (let fd = conn_fd c;
          st = (if \<not> Buffer_empty (link_output (conn_link c)) then fd_set fd FDEVENT_OUT (P_link p) st else st)
      in if Buffer_empty (link_input (conn_link c)) then fd_set fd FDEVENT_IN (P_link p) st
         else push_ready two p (fd_clr fd FDEVENT_IN st))"

definition proc_result :: "sys \<Rightarrow> bool \<Rightarrow> job \<Rightarrow> loop \<Rightarrow> loop res" where
  "proc_result Y two j st =
     (let p = job_link j; st = count_call (job_cmd j) st
      in case heap st p of
           None \<Rightarrow> Dangling
         | Some c \<Rightarrow>
             if job_result j = PROC_ERROR then Next (delete_link p c st)
             else let (l, len) = (if \<not> Buffer_empty (link_output (conn_link c))
                                  then case Link_write (writes Y) (conn_link c) of (l, len, _, _) \<Rightarrow> (l, len)
                                  else (conn_link c, 0))
                  in if len < 0 then Next (delete_link p c (set_link p c l st))
                     else Next (wait_or_ready two p (c\<lparr>conn_link := l\<rparr>) (set_link p c l st)))"

subsection \<open>Events\<close>

text \<open>\<open>proc_client_event\<close>. The two halves, for reading and for writing; the flag tells whether the function goes on.\<close>

definition client_in :: "sys \<Rightarrow> nat \<Rightarrow> loop \<Rightarrow> (loop \<times> bool) res" where
  "client_in Y p st =
     (let st = push_ready False p st
      in case heap st p of
           None \<Rightarrow> Dangling
         | Some c \<Rightarrow>
             if link_error (conn_link c) then Next (st, False)
             else let (l, len, _) = Link_read (reads Y) (conn_link c)
                  in if len \<le> 0 then Next (set_link p c (l\<lparr>link_error := True\<rparr>) st, False) else Next (set_link p c l st, True))"

definition client_out :: "sys \<Rightarrow> nat \<Rightarrow> loop \<Rightarrow> loop res" where
  "client_out Y p st =
     (case heap st p of
        None \<Rightarrow> Dangling
      | Some c \<Rightarrow>
          if link_error (conn_link c) then Next st
          else let (l, len, _, _) = Link_write (writes Y) (conn_link c)
               in if len \<le> 0 then Next (set_link p c (l\<lparr>link_error := True\<rparr>) st)
                  else if Buffer_empty (link_output l) then Next (fd_clr (conn_fd c) FDEVENT_OUT (set_link p c l st))
                  else Next (set_link p c l st))"

definition proc_client_event :: "sys \<Rightarrow> fdflag set \<Rightarrow> nat \<Rightarrow> loop \<Rightarrow> loop res" where
  "proc_client_event Y ev p st =
     (case (if FDEVENT_IN \<in> ev then client_in Y p st else Next (st, True)) of
        Next (st, True) \<Rightarrow> if FDEVENT_OUT \<in> ev then client_out Y p st else Next st
      | Next (st, False) \<Rightarrow> Next st
      | Dangling \<Rightarrow> Dangling
      | Crash \<Rightarrow> Crash)"

text \<open>One round of the loop over the events. \<open>pop\<close> on an empty queue reads from an empty pipe and does not return.\<close>

definition serve_event :: "sys \<Rightarrow> (nat \<times> nat \<times> bytes) option \<Rightarrow> ptr \<times> fdflag set \<Rightarrow> loop \<Rightarrow> loop res" where
  "serve_event Y a e st =
     (case e of
        (P_serv, ev) \<Rightarrow>
          (case accept_link a st of
             (st, None) \<Rightarrow> Next st
           | (st, Some p) \<Rightarrow>
               (case heap st p of
                  None \<Rightarrow> Dangling
                | Some c \<Rightarrow> Next (fd_set (conn_fd c) FDEVENT_IN (P_link p) (count_links 1 st))))
      | (P_reader, ev) \<Rightarrow> (case pool_pop (reader st) of None \<Rightarrow> Crash | Some (j, w) \<Rightarrow> proc_result Y False j (st\<lparr>reader := w\<rparr>))
      | (P_writer, ev) \<Rightarrow> (case pool_pop (writer st) of None \<Rightarrow> Crash | Some (j, w) \<Rightarrow> proc_result Y False j (st\<lparr>writer := w\<rparr>))
      | (P_link p, ev) \<Rightarrow> proc_client_event Y ev p st)"

subsection \<open>Requests\<close>

text \<open>\<open>BackendSync::proc\<close> and \<open>BackendDump::proc\<close>, which the handlers of \<open>sync140\<close> and \<open>dump\<close> call: from now on the link is that of a new
  thread; when there is none, it is deleted on the spot.\<close>

definition backend_proc :: "bool \<Rightarrow> nat \<Rightarrow> loop \<Rightarrow> loop" where
  "backend_proc thread p st =
     (if thread then st\<lparr>backend := insert p (backend st)\<rparr> else st\<lparr>heap := (heap st)(p := None)\<rparr>)"

text \<open>What the main thread still does with such a link after the handler has returned, while the thread of the backend runs already: it
  reads the descriptor of the link for \<open>fdes->del\<close>. (The call of \<open>send\<close> before it returns at once, as the response is empty.)\<close>

definition after_backend :: "nat \<Rightarrow> loop \<Rightarrow> loop res" where
  "after_backend p st =
     (case heap st p of
        None \<Rightarrow> Dangling
      | Some c \<Rightarrow> Next (count_links (-1) (fd_del (conn_fd c) st)))"

definition not_handed :: "loop res \<Rightarrow> (loop \<times> bool) res" where
  "not_handed r = (case r of Next st \<Rightarrow> Next (st, False) | Dangling \<Rightarrow> Dangling | Crash \<Rightarrow> Crash)"

text \<open>One round of the loop over the ready links. The flag tells that the link went to a backend; \<open>after_backend\<close> is then the rest of the
  round, a step of its own.\<close>

definition serve_ready :: "sys \<Rightarrow> nat \<Rightarrow> loop \<Rightarrow> (loop \<times> bool) res" where
  "serve_ready Y p st =
     (case heap st p of
        None \<Rightarrow> Dangling
      | Some c \<Rightarrow>
          if link_error (conn_link c) then Next (delete_link p c st, False)
          else (case Link_recv (alloc Y) (dbl Y) (en Y) (conn_link c) of
                  (l, _, Recv_null) \<Rightarrow> Next (delete_link p c (set_link p c l st), False)
                | (l, _, Recv_oob) \<Rightarrow> Crash
                | (l, _, Recv []) \<Rightarrow> Next (fd_set (conn_fd c) FDEVENT_IN (P_link p) (set_link p c l st), False)
                | (l, _, Recv req) \<Rightarrow>
                    (case NetworkServer_proc (alloc Y) (call Y) (c\<lparr>conn_link := l\<rparr>) (net st) of
                       None \<Rightarrow> Crash
                     | Some (c, nt, resp, cm, out) \<Rightarrow>
                         let st = st\<lparr>net := nt, heap := (heap st)(p \<mapsto> c)\<rparr>;
                             j = \<lparr>job_link = p, job_cmd = map_option cmd_name cm, job_result = PROC_OK, job_resp = resp\<rparr>
                         in (case out of
                               Queued q \<Rightarrow> Next (fd_del (conn_fd c) (set_pool q (pool_push j (get_pool q st)) st), False)
                             | Result ret \<Rightarrow>
                                 if ret = PROC_THREAD then Next (fd_del (conn_fd c) st, False)
                                 else if ret = PROC_BACKEND then Next (backend_proc (threads Y) p st, True)
                                 else not_handed (proc_result Y True (j\<lparr>job_result := ret\<rparr>) st)))))"


subsection \<open>Runs\<close>

text \<open>
  The state of \<open>serve\<close> before its loop; the descriptors of the listening socket and of the two pools are open.
\<close>

definition serve_start :: "nat \<Rightarrow> nat \<Rightarrow> nat \<Rightarrow> net_server \<Rightarrow> loop" where
  "serve_start sfd rfd wfd nt =
     fd_set wfd FDEVENT_IN P_writer (fd_set rfd FDEVENT_IN P_reader (fd_set sfd FDEVENT_IN P_serv
       \<lparr>net = nt\<lparr>link_count := 0\<rparr>, heap = Map.empty, fdes = ep_new, writer = \<lparr>jobs = [], working = [], results = []\<rparr>,
        reader = \<lparr>jobs = [], working = [], results = []\<rparr>, ready_list = [], ready_list_2 = [], backend = {},
        serv_fd = sfd, reader_fd = rfd, writer_fd = wfd\<rparr>))"

text \<open>Where the main thread is: at the top of its loop, among the events, among the ready links, or just behind the handler that gave the link
  \<open>p\<close> to a backend.\<close>

datatype phase = Top | Events "(ptr \<times> fdflag set) list" | Ready "nat list" | Handed nat "nat list"

text \<open>What \<open>epoll_wait\<close> may return, and what \<open>accept\<close> may.\<close>

definition wait_ok :: "(nat \<times> epoll_bit set) list \<Rightarrow> loop \<Rightarrow> bool" where
  "wait_ok es st \<longleftrightarrow> distinct (map fst es) \<and> (\<forall>(fd, b) \<in> set es. \<exists>i. interest (fdes st) fd = Some i \<and> b \<subseteq> i \<union> {EPOLLHUP, EPOLLERR})"

definition accept_ok :: "(nat \<times> nat \<times> bytes) option \<Rightarrow> loop \<Rightarrow> bool" where
  "accept_ok a st = (case a of None \<Rightarrow> True | Some (p, fd, ip) \<Rightarrow>
     heap st p = None \<and> (\<forall>q c. heap st q = Some c \<longrightarrow> conn_fd c \<noteq> fd) \<and> fd \<notin> {serv_fd st, reader_fd st, writer_fd st})"

definition fd_events :: "ptr Fdevent list \<Rightarrow> (ptr \<times> fdflag set) list" where
  "fd_events fs = map (\<lambda>f. (the (data_ptr f), fde_events f)) fs"

text \<open>The main thread and the threads of the pools and of the backends take steps in any order.\<close>

inductive loop_step :: "loop \<times> phase \<Rightarrow> loop \<times> phase \<Rightarrow> bool" where
  ls_wait: "wait_ok es st \<Longrightarrow> ep_wait es (fdes st) = (f, fs) \<Longrightarrow>
    loop_step (st, Top) (st\<lparr>ready_list := ready_list_2 st, ready_list_2 := [], fdes := f\<rparr>, Events (fd_events fs))"
| ls_event: "other_ok (call Y) \<Longrightarrow> accept_ok a st \<Longrightarrow> serve_event Y a e st = Next st' \<Longrightarrow> loop_step (st, Events (e # es)) (st', Events es)"
| ls_events_end: "loop_step (st, Events []) (st, Ready (ready_list st))"
| ls_ready: "other_ok (call Y) \<Longrightarrow> serve_ready Y p st = Next (st', False) \<Longrightarrow> loop_step (st, Ready (p # ps)) (st', Ready ps)"
| ls_handed: "other_ok (call Y) \<Longrightarrow> serve_ready Y p st = Next (st', True) \<Longrightarrow> loop_step (st, Ready (p # ps)) (st', Handed p ps)"
| ls_after: "after_backend p st = Next st' \<Longrightarrow> loop_step (st, Handed p ps) (st', Ready ps)"
| ls_ready_end: "loop_step (st, Ready []) (st, Top)"
| ls_take: "pool_take (get_pool n st) = Some w \<Longrightarrow> loop_step (st, ph) (set_pool n w st, ph)"
| ls_work: "other_ok (call Y) \<Longrightarrow> i < length (working (get_pool n st)) \<Longrightarrow> worker_proc Y n i st = Next st' \<Longrightarrow> loop_step (st, ph) (st', ph)"
| ls_backend: "p \<in> backend st \<Longrightarrow> loop_step (st, ph) (st\<lparr>heap := (heap st)(p := None), backend := backend st - {p}\<rparr>, ph)"

inductive loop_reach :: "loop \<times> phase \<Rightarrow> loop \<times> phase \<Rightarrow> bool" for x :: "loop \<times> phase" where
  lr_start: "loop_reach x x"
| lr_step: "loop_reach x y \<Longrightarrow> loop_step y z \<Longrightarrow> loop_reach x z"

subsection \<open>Where a link is\<close>

text \<open>
  The parts of the state that matter: the descriptors \<open>F\<close> of the objects, the subscriptions \<open>w\<close> and their targets \<open>t\<close>, the links \<open>X\<close>
  that the main thread still has to look at, the links \<open>H\<close> that the pools hold, the links \<open>B\<close> of the backends, the count \<open>n\<close>,
  and the descriptors \<open>sp\<close> that are not those of links.
\<close>

definition core :: "(nat \<rightharpoonup> nat) \<Rightarrow> (nat \<Rightarrow> fdflag set) \<Rightarrow> (nat \<Rightarrow> ptr option) \<Rightarrow> nat multiset \<Rightarrow> nat multiset \<Rightarrow> nat set \<Rightarrow> int \<Rightarrow> nat set \<Rightarrow> bool" where
  "core F w t X H B n sp \<longleftrightarrow>
     (finite (dom F) \<and> n = int (card (dom F - B))) \<and> (\<forall>p q fd. F p = Some fd \<longrightarrow> F q = Some fd \<longrightarrow> p = q) \<and>
     (\<forall>p fd. F p = Some fd \<longrightarrow> fd \<notin> sp) \<and>
     (\<forall>fd. w fd \<noteq> {} \<longrightarrow> (fd \<in> sp \<and> t fd \<in> Some ` {P_serv, P_reader, P_writer}) \<or>
        (\<exists>p. F p = Some fd \<and> t fd = Some (P_link p) \<and> p \<notin># H \<and> p \<notin> B)) \<and>
     (\<forall>p. count X p + count H p \<le> 1) \<and> (\<forall>p. p \<in># X \<longrightarrow> F p \<noteq> None \<and> p \<notin> B) \<and> (\<forall>p. p \<in># H \<longrightarrow> F p \<noteq> None \<and> p \<notin> B) \<and>
     (\<forall>p. p \<in> B \<longrightarrow> F p \<noteq> None) \<and> (\<forall>p fd. F p = Some fd \<longrightarrow> p \<in># X \<or> p \<in># H \<or> p \<in> B \<or> FDEVENT_IN \<in> w fd)"

lemma coreI:
  assumes "finite (dom F) \<and> n = int (card (dom F - B))" and "\<And>p q fd. F p = Some fd \<Longrightarrow> F q = Some fd \<Longrightarrow> p = q"
    and "\<And>p fd. F p = Some fd \<Longrightarrow> fd \<notin> sp"
    and "\<And>fd. w fd \<noteq> {} \<Longrightarrow> (fd \<in> sp \<and> t fd \<in> Some ` {P_serv, P_reader, P_writer}) \<or> (\<exists>p. F p = Some fd \<and> t fd = Some (P_link p) \<and> p \<notin># H \<and> p \<notin> B)"
    and "\<And>p. count X p + count H p \<le> 1" and "\<And>p. p \<in># X \<Longrightarrow> F p \<noteq> None \<and> p \<notin> B" and "\<And>p. p \<in># H \<Longrightarrow> F p \<noteq> None \<and> p \<notin> B"
    and "\<And>p. p \<in> B \<Longrightarrow> F p \<noteq> None" and "\<And>p fd. F p = Some fd \<Longrightarrow> p \<in># X \<or> p \<in># H \<or> p \<in> B \<or> FDEVENT_IN \<in> w fd"
  shows "core F w t X H B n sp"
  unfolding core_def by (intro conjI allI impI) (use assms in blast)+

lemma coreD:
  assumes "core F w t X H B n sp"
  shows "finite (dom F) \<and> n = int (card (dom F - B))" and "\<forall>p q fd. F p = Some fd \<longrightarrow> F q = Some fd \<longrightarrow> p = q"
    and "\<forall>p fd. F p = Some fd \<longrightarrow> fd \<notin> sp"
    and "\<forall>fd. w fd \<noteq> {} \<longrightarrow> (fd \<in> sp \<and> t fd \<in> Some ` {P_serv, P_reader, P_writer}) \<or> (\<exists>p. F p = Some fd \<and> t fd = Some (P_link p) \<and> p \<notin># H \<and> p \<notin> B)"
    and "\<forall>p. count X p + count H p \<le> 1" and "\<forall>p. p \<in># X \<longrightarrow> F p \<noteq> None \<and> p \<notin> B" and "\<forall>p. p \<in># H \<longrightarrow> F p \<noteq> None \<and> p \<notin> B"
    and "\<forall>p. p \<in> B \<longrightarrow> F p \<noteq> None" and "\<forall>p fd. F p = Some fd \<longrightarrow> p \<in># X \<or> p \<in># H \<or> p \<in> B \<or> FDEVENT_IN \<in> w fd"
  using assms unfolding core_def by blast+

lemma core_notin: "core F w t (add_mset p X) H B n sp \<Longrightarrow> p \<notin># X \<and> p \<notin># H \<and> p \<notin> B"
  using coreD(5) [rule_format, of F w t "add_mset p X" H B n sp p] coreD(6) [rule_format, of F w t "add_mset p X" H B n sp p] by (simp add: not_in_iff)

text \<open>The moves of a link: taken from a pool, found by an event, subscribed, put on the second list, given to a pool or a
  backend, deleted; a new link.\<close>

lemma target_transfer: "A \<or> (\<exists>p. P p) \<Longrightarrow> (A \<Longrightarrow> A') \<Longrightarrow> (\<And>p. P p \<Longrightarrow> Q p) \<Longrightarrow> A' \<or> (\<exists>p. Q p)"
  by blast

lemma core_take:
  assumes "core F w t X (add_mset p H) B n sp"
  shows "core F w t (add_mset p X) H B n sp"
proof -
  note D = coreD [OF assms]
  show ?thesis
  proof (rule coreI)
    show "count (add_mset p X) q + count H q \<le> 1" for q using D(5) [rule_format, of q] by (simp split: if_splits)
    show "(fd \<in> sp \<and> t fd \<in> Some ` {P_serv, P_reader, P_writer}) \<or> (\<exists>q. F q = Some fd \<and> t fd = Some (P_link q) \<and> q \<notin># H \<and> q \<notin> B)"
      if "w fd \<noteq> {}" for fd using D(4) [rule_format, OF that] by auto
  qed (use D(1-3,6-9) in auto)
qed

lemma core_event:
  assumes "core F w t X H B n sp" and "F p \<noteq> None" and "p \<notin># X" and "p \<notin># H" and "p \<notin> B"
  shows "core F w t (add_mset p X) H B n sp"
proof -
  note D = coreD [OF assms(1)]
  show ?thesis
  proof (rule coreI)
    show "count (add_mset p X) q + count H q \<le> 1" for q using D(5) [rule_format, of q] assms(3,4) by (cases "q = p") (simp_all add: not_in_iff)
  qed (use D assms(2-) in auto)
qed

lemma core_set:
  assumes "core F w t X H B n sp" and "F p = Some fd" and "p \<notin># H" and "p \<notin> B"
  shows "core F (w(fd := insert f (w fd))) (if f \<in> w fd then t else t(fd \<mapsto> P_link p)) X H B n sp"
proof -
  note D = coreD [OF assms(1)]
  have "t fd = Some (P_link p)" if "w fd \<noteq> {}" using D(4) [rule_format, OF that] D(2,3) assms(2) by auto
  then have e: "(if f \<in> w fd then t else t(fd \<mapsto> P_link p)) = t(fd \<mapsto> P_link p)" by (auto simp: fun_eq_iff)
  show ?thesis unfolding e by (rule coreI) (use D assms(2-) in \<open>auto split: if_splits\<close>)
qed

lemma core_less:
  assumes "core F w t X H B n sp" and "\<forall>fd'. fd' \<noteq> fd \<longrightarrow> w' fd' = w fd'" and "w' fd \<subseteq> w fd"
    and "F p = Some fd" and "p \<in># X \<or> FDEVENT_IN \<in> w' fd \<or> FDEVENT_IN \<notin> w fd"
  shows "core F w' t X H B n sp"
proof -
  note D = coreD [OF assms(1)]
  have w: "w' fd' \<subseteq> w fd'" for fd' using assms(2,3) by (cases "fd' = fd") auto
  have l: "q \<in># X \<or> q \<in># H \<or> q \<in> B \<or> FDEVENT_IN \<in> w' fd'" if q: "F q = Some fd'" for q fd'
  proof (cases "fd' = fd")
    case True
    then have "q = p" using q assms(4) D(2) by blast
    then show ?thesis using D(9) [rule_format, OF q] assms(5) True by auto
  qed (use D(9) [rule_format, OF q] assms(2) in auto)
  have W: "w' fd' \<noteq> {} \<Longrightarrow> w fd' \<noteq> {}" for fd' using w [of fd'] by auto
  show ?thesis
  proof (rule coreI)
    show "q \<in># X \<or> q \<in># H \<or> q \<in> B \<or> FDEVENT_IN \<in> w' fd'" if "F q = Some fd'" for q fd' by (rule l [OF that])
    show "(fd' \<in> sp \<and> t fd' \<in> Some ` {P_serv, P_reader, P_writer}) \<or> (\<exists>q. F q = Some fd' \<and> t fd' = Some (P_link q) \<and> q \<notin># H \<and> q \<notin> B)"
      if "w' fd' \<noteq> {}" for fd' using D(4) [rule_format, OF W [OF that]] .
  qed (use D(1-3,5-8) in auto)
qed

lemma core_drop:
  assumes "core F w t (add_mset p X) H B n sp" and "F p = Some fd" and "FDEVENT_IN \<in> w fd"
  shows "core F w t X H B n sp"
proof -
  note D = coreD [OF assms(1)]
  show ?thesis
  proof (rule coreI)
    show "count X q + count H q \<le> 1" for q using D(5) [rule_format, of q] by (simp split: if_splits)
    show "q \<in># X \<or> q \<in># H \<or> q \<in> B \<or> FDEVENT_IN \<in> w fd'" if "F q = Some fd'" for q fd'
      using D(9) [rule_format, OF that] assms(2,3) that by auto
  qed (use D(1-4,6-8) in auto)
qed

lemma core_give:
  assumes "core F w t (add_mset p X) H B n sp" and "F p = Some fd" and "w fd = {}"
  shows "core F w t X (add_mset p H) B n sp" and "core F w t X H (insert p B) (n - 1) sp"
proof -
  note D = coreD [OF assms(1)]
  note p = core_notin [OF assms(1)]
  have w: "(fd' \<in> sp \<and> t fd' \<in> Some ` {P_serv, P_reader, P_writer}) \<or> (\<exists>q. F q = Some fd' \<and> t fd' = Some (P_link q) \<and> q \<noteq> p \<and> q \<notin># H \<and> q \<notin> B)"
    if "w fd' \<noteq> {}" for fd'
    using D(4) [rule_format, OF that] that assms(2,3) by auto
  have c: "count X q + count H q \<le> 1" "q = p \<Longrightarrow> count X q + count H q = 0" for q
    using D(5) [rule_format, of q] by (auto split: if_splits)
  show "core F w t X (add_mset p H) B n sp"
  proof (rule coreI)
    show "count X q + count (add_mset p H) q \<le> 1" for q using c [of q] by (cases "q = p") simp_all
    show "(fd' \<in> sp \<and> t fd' \<in> Some ` {P_serv, P_reader, P_writer}) \<or> (\<exists>q. F q = Some fd' \<and> t fd' = Some (P_link q) \<and> q \<notin># add_mset p H \<and> q \<notin> B)"
      if "w fd' \<noteq> {}" for fd' using w [OF that] by auto
  qed (use D(1-3,6-9) in auto)
  have "card (dom F - B) = Suc (card (dom F - B - {p}))"
    using D(1) assms(2) p by (intro card.remove) auto
  moreover have "dom F - insert p B = dom F - B - {p}" by auto
  ultimately have n: "n - 1 = int (card (dom F - insert p B))" using D(1) by simp
  show "core F w t X H (insert p B) (n - 1) sp"
  proof (rule coreI)
    show "(fd' \<in> sp \<and> t fd' \<in> Some ` {P_serv, P_reader, P_writer}) \<or> (\<exists>q. F q = Some fd' \<and> t fd' = Some (P_link q) \<and> q \<notin># H \<and> q \<notin> insert p B)"
      if "w fd' \<noteq> {}" for fd' using w [OF that] by auto
    show "count X q + count H q \<le> 1" for q by (rule c)
    show "q \<in># X \<or> q \<in># H \<or> q \<in> insert p B \<or> FDEVENT_IN \<in> w fd'" if "F q = Some fd'" for q fd' using D(9) [rule_format, OF that] by auto
    show "F q \<noteq> None \<and> q \<notin> insert p B" if "q \<in># X" for q using D(6) [rule_format, of q] that p by auto
    show "F q \<noteq> None \<and> q \<notin> insert p B" if "q \<in># H" for q using D(7) [rule_format, of q] that p by auto
  qed (use D(1-3,8) n assms(2) in auto)
qed

lemma core_delete:
  assumes "core F w t (add_mset p X) H B n sp" and "F p = Some fd" and "w fd = {}"
  shows "core (F(p := None)) w t X H B (n - 1) sp"
proof -
  note D = coreD [OF assms(1)]
  note p = core_notin [OF assms(1)]
  have "dom (F(p := None)) - B = dom F - B - {p}" by auto
  moreover have "card (dom F - B) = Suc (card (dom F - B - {p}))"
    using D(1) assms(2) p by (intro card.remove) auto
  ultimately have n: "finite (dom (F(p := None))) \<and> n - 1 = int (card (dom (F(p := None)) - B))" using D(1) by simp
  show ?thesis
  proof (rule coreI)
    show "count X q + count H q \<le> 1" for q using D(5) [rule_format, of q] by (simp split: if_splits)
    show "(fd' \<in> sp \<and> t fd' \<in> Some ` {P_serv, P_reader, P_writer}) \<or> (\<exists>q. (F(p := None)) q = Some fd' \<and> t fd' = Some (P_link q) \<and> q \<notin># H \<and> q \<notin> B)"
      if "w fd' \<noteq> {}" for fd'
    proof -
      have "fd' \<noteq> fd" using that assms(3) by auto
      then show ?thesis by (intro target_transfer [OF D(4) [rule_format, OF that]]) (use assms(2) in auto)
    qed
    show "q \<in># X \<or> q \<in># H \<or> q \<in> B \<or> FDEVENT_IN \<in> w fd'" if "(F(p := None)) q = Some fd'" for q fd'
      using D(9) [rule_format, of q fd'] that by (auto split: if_splits)
    show "q = q'" if "(F(p := None)) q = Some fd'" "(F(p := None)) q' = Some fd'" for q q' fd'
      using D(2) [rule_format, of q fd' q'] that by (auto split: if_splits)
  qed (use D(3,6-8) p n in \<open>auto split: if_splits\<close>)
qed

lemma core_new:
  assumes "core F w t X H B n sp" and "F p = None" and "fd \<notin> ran F" and "fd \<notin> sp"
  shows "core (F(p \<mapsto> fd)) (w(fd := insert FDEVENT_IN (w fd))) (if FDEVENT_IN \<in> w fd then t else t(fd \<mapsto> P_link p)) X H B (n + 1) sp"
proof -
  note D = coreD [OF assms(1)]
  have w: "w fd = {}" using D(4) [rule_format, of fd] assms(3,4) by (auto simp: ran_def)
  have b: "p \<notin> B" "p \<notin># X" "p \<notin># H" using D(6-8) assms(2) by auto
  have "dom (F(p \<mapsto> fd)) - B = insert p (dom F - B)" using b by auto
  then have n: "finite (dom (F(p \<mapsto> fd))) \<and> n + 1 = int (card (dom (F(p \<mapsto> fd)) - B))" using D(1) assms(2) by (auto simp: card_insert_if domIff)
  show ?thesis
  proof (rule coreI)
    show "q = q'" if "(F(p \<mapsto> fd)) q = Some fd'" "(F(p \<mapsto> fd)) q' = Some fd'" for q q' fd'
      using D(2) [rule_format, of q fd' q'] that assms(3) by (auto split: if_splits simp: ran_def)
    show "(fd' \<in> sp \<and> (if FDEVENT_IN \<in> w fd then t else t(fd \<mapsto> P_link p)) fd' \<in> Some ` {P_serv, P_reader, P_writer}) \<or>
        (\<exists>q. (F(p \<mapsto> fd)) q = Some fd' \<and> (if FDEVENT_IN \<in> w fd then t else t(fd \<mapsto> P_link p)) fd' = Some (P_link q) \<and> q \<notin># H \<and> q \<notin> B)"
      if "(w(fd := insert FDEVENT_IN (w fd))) fd' \<noteq> {}" for fd'
    proof (cases "fd' = fd")
      case False
      then have "w fd' \<noteq> {}" using that by simp
      from D(4) [rule_format, OF this] show ?thesis by (rule target_transfer) (use False w assms(2) in auto)
    qed (use w b in auto)
    show "q \<in># X \<or> q \<in># H \<or> q \<in> B \<or> FDEVENT_IN \<in> (w(fd := insert FDEVENT_IN (w fd))) fd'" if "(F(p \<mapsto> fd)) q = Some fd'" for q fd'
      using D(9) [rule_format, of q fd'] that by (auto split: if_splits)
  qed (use D(3,5-8) assms(4) n in \<open>auto split: if_splits\<close>)
qed

lemma core_backend:
  assumes "core F w t X H B n sp" and "p \<in> B"
  shows "core (F(p := None)) w t X H (B - {p}) n sp"
proof -
  note D = coreD [OF assms(1)]
  have "dom (F(p := None)) - (B - {p}) = dom F - B" using assms(2) by auto
  then have n: "finite (dom (F(p := None))) \<and> n = int (card (dom (F(p := None)) - (B - {p})))" using D(1) by simp
  show ?thesis
  proof (rule coreI)
    show "(fd' \<in> sp \<and> t fd' \<in> Some ` {P_serv, P_reader, P_writer}) \<or> (\<exists>q. (F(p := None)) q = Some fd' \<and> t fd' = Some (P_link q) \<and> q \<notin># H \<and> q \<notin> B - {p})"
      if "w fd' \<noteq> {}" for fd' using D(4) [rule_format, OF that] assms(2) by auto
    show "q \<in># X \<or> q \<in># H \<or> q \<in> B - {p} \<or> FDEVENT_IN \<in> w fd'" if "(F(p := None)) q = Some fd'" for q fd'
      using D(9) [rule_format, of q fd'] that by (auto split: if_splits)
    show "q = q'" if "(F(p := None)) q = Some fd'" "(F(p := None)) q' = Some fd'" for q q' fd'
      using D(2) [rule_format, of q fd' q'] that by (auto split: if_splits)
  qed (use D(3,5-8) assms(2) n in \<open>auto split: if_splits\<close>)
qed


subsection \<open>The subscriptions\<close>

definition wat :: "loop \<Rightarrow> nat \<Rightarrow> fdflag set" where
  "wat st = watched (ep_table (fdes st))"

definition tgt :: "loop \<Rightarrow> nat \<Rightarrow> ptr option" where
  "tgt st = target (ep_table (fdes st))"

named_theorems loop_simps

lemma fd_set_view [loop_simps]:
  assumes "ep_ok (fdes st)" and "f = FDEVENT_IN \<or> f = FDEVENT_OUT"
  shows "ep_ok (fdes (fd_set fd f p st))" "wat (fd_set fd f p st) = (wat st)(fd := insert f (wat st fd))"
    "tgt (fd_set fd f p st) = (if f \<in> wat st fd then tgt st else (tgt st)(fd \<mapsto> p))"
  using ep_set_ok [OF assms(1), of f fd 1 p] assms(2) by (auto simp: fd_set_def wat_def tgt_def ep_view_def insert_absorb split: if_splits)

lemma fd_clr_view [loop_simps]:
  assumes "ep_ok (fdes st)"
  shows "ep_ok (fdes (fd_clr fd f st))" "wat (fd_clr fd f st) = (wat st)(fd := wat st fd - {f})" "tgt (fd_clr fd f st) = tgt st"
  using ep_clr_ok [OF assms, of fd f] by (auto simp: fd_clr_def wat_def tgt_def ep_view_def)

lemma fd_del_view [loop_simps]:
  assumes "ep_ok (fdes st)"
  shows "ep_ok (fdes (fd_del fd st))" "wat (fd_del fd st) = (wat st)(fd := {})" "tgt (fd_del fd st) = tgt st"
  using ep_del_ok [OF assms, of fd] by (auto simp: fd_del_def wat_def tgt_def ep_view_def)

definition fds :: "loop \<Rightarrow> nat \<rightharpoonup> nat" where
  "fds st p = map_option conn_fd (heap st p)"

definition pool_links :: "pool \<Rightarrow> nat multiset" where
  "pool_links w = mset (map job_link (jobs w @ working w @ results w))"

definition held :: "loop \<Rightarrow> nat multiset" where
  "held st = pool_links (writer st) + pool_links (reader st)"

definition specials :: "loop \<Rightarrow> nat set" where
  "specials st = {serv_fd st, reader_fd st, writer_fd st}"

text \<open>The invariant of a state in which the main thread has the links \<open>X\<close> to look at.\<close>

definition inv :: "loop \<Rightarrow> nat multiset \<Rightarrow> bool" where
  "inv st X \<longleftrightarrow> ep_ok (fdes st) \<and>
     core (fds st) (wat st) (tgt st) X (held st) (backend st) (link_count (net st)) (specials st)"

text \<open>What the primitives leave alone.\<close>

lemma frame [loop_simps]:
  "heap (fd_set fd f p st) = heap st" "heap (fd_clr fd f st) = heap st" "heap (fd_del fd st) = heap st" "heap (count_links d st) = heap st"
  "heap (push_ready two q st) = heap st" "heap (count_call nm st) = heap st" "heap (set_pool pn w st) = heap st"
  "fdes (count_links d st) = fdes st" "fdes (push_ready two q st) = fdes st" "fdes (count_call nm st) = fdes st" "fdes (set_pool pn w st) = fdes st"
  "fdes (set_link q c l st) = fdes st"
  "held (fd_set fd f p st) = held st" "held (fd_clr fd f st) = held st" "held (fd_del fd st) = held st" "held (count_links d st) = held st"
  "held (push_ready two q st) = held st" "held (count_call nm st) = held st" "held (set_link q c l st) = held st"
  "backend (fd_set fd f p st) = backend st" "backend (fd_clr fd f st) = backend st" "backend (fd_del fd st) = backend st"
  "backend (count_links d st) = backend st" "backend (push_ready two q st) = backend st" "backend (count_call nm st) = backend st"
  "backend (set_link q c l st) = backend st" "backend (set_pool pn w st) = backend st"
  by (auto simp: fd_set_def fd_clr_def fd_del_def count_links_def push_ready_def count_call_def set_pool_def set_link_def held_def
      split: option.split pool_name.split)

lemma frame_net [loop_simps]:
  "link_count (net (fd_set fd f p st)) = link_count (net st)" "link_count (net (fd_clr fd f st)) = link_count (net st)"
  "link_count (net (fd_del fd st)) = link_count (net st)" "link_count (net (count_links d st)) = link_count (net st) + d"
  "link_count (net (push_ready two q st)) = link_count (net st)" "link_count (net (count_call nm st)) = link_count (net st)"
  "link_count (net (set_link q c l st)) = link_count (net st)" "link_count (net (set_pool pn w st)) = link_count (net st)"
  by (auto simp: fd_set_def fd_clr_def fd_del_def count_links_def push_ready_def count_call_def set_pool_def set_link_def
      split: option.split pool_name.split)

lemma frame_fds [loop_simps]:
  "specials (fd_set fd f p st) = specials st" "specials (fd_clr fd f st) = specials st" "specials (fd_del fd st) = specials st"
  "specials (count_links d st) = specials st" "specials (push_ready two q st) = specials st" "specials (count_call nm st) = specials st"
  "specials (set_link q c l st) = specials st" "specials (set_pool pn w st) = specials st"
  by (auto simp: specials_def fd_set_def fd_clr_def fd_del_def count_links_def push_ready_def count_call_def set_pool_def set_link_def
      split: option.split pool_name.split)

lemma frame_view [loop_simps]:
  "wat (count_links d st) = wat st" "wat (push_ready two q st) = wat st" "wat (count_call nm st) = wat st" "wat (set_pool pn w st) = wat st"
  "wat (set_link q c l st) = wat st"
  "tgt (count_links d st) = tgt st" "tgt (push_ready two q st) = tgt st" "tgt (count_call nm st) = tgt st" "tgt (set_pool pn w st) = tgt st"
  "tgt (set_link q c l st) = tgt st"
  "fds (fd_set fd f p st) = fds st" "fds (fd_clr fd f st) = fds st" "fds (fd_del fd st) = fds st" "fds (count_links d st) = fds st"
  "fds (push_ready two q st) = fds st" "fds (count_call nm st) = fds st" "fds (set_pool pn w st) = fds st"
  by (simp_all add: wat_def tgt_def fds_def fun_eq_iff frame)

lemma fds_Some [simp]: "heap st p = Some c \<Longrightarrow> fds st p = Some (conn_fd c)"
  by (simp add: fds_def)

lemma inv_same:
  assumes "inv st X" and "fdes st' = fdes st" and "fds st' = fds st" and "held st' = held st" and "backend st' = backend st"
    and "link_count (net st') = link_count (net st)" and "specials st' = specials st"
  shows "inv st' X"
  using assms by (simp add: inv_def wat_def tgt_def)

lemma inv_set_link: "inv st X \<Longrightarrow> heap st p = Some c \<Longrightarrow> inv (set_link p c l st) X"
  by (erule inv_same) (auto simp: loop_simps, auto simp: fds_def set_link_def fun_eq_iff)

lemma inv_count_call: "inv st X \<Longrightarrow> inv (count_call nm st) X"
  by (erule inv_same) (simp_all add: loop_simps)

lemma inv_push: "inv st X \<Longrightarrow> inv (push_ready two q st) X"
  by (erule inv_same) (simp_all add: loop_simps)

lemma inv_fd_set:
  assumes "inv st X" and "heap st p = Some c" and "p \<notin># held st" and "p \<notin> backend st" and "f = FDEVENT_IN \<or> f = FDEVENT_OUT"
  shows "inv (fd_set (conn_fd c) f (P_link p) st) X"
proof -
  have e: "ep_ok (fdes st)" using assms(1) by (simp add: inv_def)
  from core_set [of "fds st" "wat st" "tgt st" X "held st" "backend st" "link_count (net st)" "specials st" p "conn_fd c" f] assms e
  show ?thesis by (simp add: inv_def loop_simps)
qed

lemma inv_fd_clr:
  assumes "inv st X" and "heap st p = Some c" and "p \<in># X \<or> f = FDEVENT_OUT"
  shows "inv (fd_clr (conn_fd c) f st) X"
proof -
  have e: "ep_ok (fdes st)" using assms(1) by (simp add: inv_def)
  from core_less [of "fds st" "wat st" "tgt st" X "held st" "backend st" "link_count (net st)" "specials st" "conn_fd c"
      "(wat st)(conn_fd c := wat st (conn_fd c) - {f})" p] assms e
  show ?thesis by (auto simp: inv_def loop_simps)
qed

lemma inv_fd_del:
  assumes "inv st X" and "heap st p = Some c" and "p \<in># X"
  shows "inv (fd_del (conn_fd c) st) X" and "wat (fd_del (conn_fd c) st) (conn_fd c) = {}"
proof -
  have e: "ep_ok (fdes st)" using assms(1) by (simp add: inv_def)
  then show "wat (fd_del (conn_fd c) st) (conn_fd c) = {}" by (simp add: loop_simps)
  from core_less [of "fds st" "wat st" "tgt st" X "held st" "backend st" "link_count (net st)" "specials st" "conn_fd c"
      "(wat st)(conn_fd c := {})" p] assms e
  show "inv (fd_del (conn_fd c) st) X" by (auto simp: inv_def loop_simps)
qed

lemma inv_delete:
  assumes "inv st (add_mset p X)" and "heap st p = Some c"
  shows "inv (delete_link p c st) X"
proof -
  have d: "inv (fd_del (conn_fd c) st) (add_mset p X)" "wat (fd_del (conn_fd c) st) (conn_fd c) = {}"
    using inv_fd_del [OF assms] by simp_all
  have "core ((fds st)(p := None)) (wat (fd_del (conn_fd c) st)) (tgt (fd_del (conn_fd c) st)) X (held st) (backend st) (link_count (net st) - 1) (specials st)"
    by (rule core_delete [where fd = "conn_fd c"]) (use d assms(2) in \<open>auto simp: inv_def loop_simps\<close>)
  moreover have "fds (delete_link p c st) = (fds st)(p := None)" by (auto simp: fds_def delete_link_def fun_eq_iff)
  moreover have "fdes (delete_link p c st) = fdes (fd_del (conn_fd c) st)" by (simp add: delete_link_def fd_del_def count_links_def)
  ultimately show ?thesis using d(1)
    by (simp add: inv_def wat_def tgt_def) (simp add: delete_link_def held_def specials_def fd_del_def count_links_def)
qed


lemma inv_cur:
  assumes "inv st (add_mset p X)"
  obtains c where "heap st p = Some c" "p \<notin># X" "p \<notin># held st" "p \<notin> backend st"
proof -
  have c: "core (fds st) (wat st) (tgt st) (add_mset p X) (held st) (backend st) (link_count (net st)) (specials st)"
    using assms by (simp add: inv_def)
  have "fds st p \<noteq> None" using coreD(6) [OF c] by auto
  then show thesis using that core_notin [OF c] by (auto simp: fds_def)
qed

lemma inv_held:
  assumes "inv st X" and "p \<in># held st"
  obtains c where "heap st p = Some c"
proof -
  have "fds st p \<noteq> None" using assms coreD(7) unfolding inv_def by blast
  then show thesis using that by (auto simp: fds_def)
qed

lemma inv_inj: "inv st X \<Longrightarrow> fds st p = Some fd \<Longrightarrow> fds st q = Some fd \<Longrightarrow> p = q"
  using coreD(2) unfolding inv_def by blast

lemma inv_target:
  assumes "inv st X" and "heap st p = Some c" and "wat st (conn_fd c) \<noteq> {}"
  shows "tgt st (conn_fd c) = Some (P_link p) \<and> p \<notin># held st \<and> p \<notin> backend st"
proof -
  have core: "core (fds st) (wat st) (tgt st) X (held st) (backend st) (link_count (net st)) (specials st)" using assms(1) by (simp add: inv_def)
  have f: "fds st p = Some (conn_fd c)" using assms(2) by simp
  show ?thesis using coreD(4) [OF core, rule_format, OF assms(3)] coreD(2) [OF core, rule_format, OF f] coreD(3) [OF core, rule_format, OF f] by auto
qed

lemma inv_drop: "inv st (add_mset p X) \<Longrightarrow> heap st p = Some c \<Longrightarrow> FDEVENT_IN \<in> wat st (conn_fd c) \<Longrightarrow> inv st X"
  unfolding inv_def by (auto intro: core_drop [where fd = "conn_fd c"])

text \<open>What one round of the main thread does with the link \<open>p\<close>: it is gone from the hands of the thread, or it is on a list and its
  descriptor is not subscribed for reading. Other links are not touched.\<close>

definition others_same :: "nat \<Rightarrow> loop \<Rightarrow> loop \<Rightarrow> bool" where
  "others_same p st st' \<longleftrightarrow> (\<forall>q. q \<noteq> p \<longrightarrow> fds st' q = fds st q) \<and> (\<forall>fd. fds st p \<noteq> Some fd \<longrightarrow> wat st' fd = wat st fd) \<and>
     (\<forall>q. q \<noteq> p \<longrightarrow> (q \<in># held st') = (q \<in># held st) \<and> (q \<in> backend st') = (q \<in> backend st))"

definition settled :: "bool \<Rightarrow> nat \<Rightarrow> nat multiset \<Rightarrow> loop \<Rightarrow> loop \<Rightarrow> bool" where
  "settled two p X st st' \<longleftrightarrow> others_same p st st' \<and>
     (inv st' X \<and> ready_list st' = ready_list st \<and> ready_list_2 st' = ready_list_2 st \<or>
      inv st' (add_mset p X) \<and> (\<forall>fd. fds st' p = Some fd \<longrightarrow> FDEVENT_IN \<notin> wat st' fd) \<and>
      ready_list st' = ready_list st @ (if two then [] else [p]) \<and> ready_list_2 st' = ready_list_2 st @ (if two then [p] else []))"

lemma lists_frame [loop_simps]:
  "ready_list (fd_set fd f p st) = ready_list st" "ready_list (fd_clr fd f st) = ready_list st" "ready_list (fd_del fd st) = ready_list st"
  "ready_list (count_links d st) = ready_list st" "ready_list (count_call nm st) = ready_list st" "ready_list (set_link q c l st) = ready_list st"
  "ready_list (set_pool pn w st) = ready_list st" "ready_list (push_ready two q st) = ready_list st @ (if two then [] else [q])"
  "ready_list_2 (fd_set fd f p st) = ready_list_2 st" "ready_list_2 (fd_clr fd f st) = ready_list_2 st" "ready_list_2 (fd_del fd st) = ready_list_2 st"
  "ready_list_2 (count_links d st) = ready_list_2 st" "ready_list_2 (count_call nm st) = ready_list_2 st" "ready_list_2 (set_link q c l st) = ready_list_2 st"
  "ready_list_2 (set_pool pn w st) = ready_list_2 st" "ready_list_2 (push_ready two q st) = ready_list_2 st @ (if two then [q] else [])"
  by (auto simp: fd_set_def fd_clr_def fd_del_def count_links_def push_ready_def count_call_def set_pool_def set_link_def
      split: option.split pool_name.split)

lemma others_trans: "others_same p a b \<Longrightarrow> others_same p b c \<Longrightarrow> fds b p = fds a p \<Longrightarrow> others_same p a c"
  by (auto simp: others_same_def)

lemma fds_set_link [loop_simps]: "heap st p = Some c \<Longrightarrow> fds (set_link p c l st) = fds st"
  by (auto simp: fds_def set_link_def fun_eq_iff)

lemma heap_set_link [loop_simps]: "heap (set_link p c l st) = (heap st)(p \<mapsto> c\<lparr>conn_link := l\<rparr>)"
  by (simp add: set_link_def)

lemma others_prims:
  assumes "ep_ok (fdes st)" and "heap st p = Some c"
  shows "f = FDEVENT_IN \<or> f = FDEVENT_OUT \<Longrightarrow> others_same p st (fd_set (conn_fd c) f r st)" "others_same p st (fd_clr (conn_fd c) f st)"
    "others_same p st (fd_del (conn_fd c) st)" "others_same p st (set_link p c l st)" "others_same p st (push_ready two p st)"
    "others_same p st (count_call nm st)" "others_same p st (count_links d st)"
  using assms by (auto simp: others_same_def loop_simps)

lemma delete_others: "ep_ok (fdes st) \<Longrightarrow> heap st p = Some c \<Longrightarrow> others_same p st (delete_link p c st)"
  using others_prims(3) [of st p c]
  by (auto simp: others_same_def fds_def wat_def held_def delete_link_def fd_del_def count_links_def)

lemma delete_settled:
  assumes "inv st (add_mset p X)" and "heap st p = Some c"
  shows "settled two p X st (delete_link p c st)"
proof -
  have "ready_list (delete_link p c st) = ready_list st" "ready_list_2 (delete_link p c st) = ready_list_2 st"
    by (simp_all add: delete_link_def fd_del_def count_links_def)
  then show ?thesis using inv_delete [OF assms] delete_others [OF _ assms(2)] assms(1) by (simp add: settled_def inv_def)
qed

lemma wait_settled:
  assumes "inv st (add_mset p X)" and "heap st p = Some c0" and "conn_fd c = conn_fd c0"
  shows "settled two p X st (wait_or_ready two p c st)"
proof -
  from inv_cur [OF assms(1)] have p: "p \<notin># held st" "p \<notin> backend st" by auto
  define st1 where "st1 = (if \<not> Buffer_empty (link_output (conn_link c)) then fd_set (conn_fd c) FDEVENT_OUT (P_link p) st else st)"
  have e: "ep_ok (fdes st)" using assms(1) by (simp add: inv_def)
  have i1: "inv st1 (add_mset p X)" using inv_fd_set [OF assms(1,2) p, of FDEVENT_OUT] assms(1,3) by (simp add: st1_def)
  have h1: "heap st1 p = Some c0" "held st1 = held st" "backend st1 = backend st" "fds st1 = fds st" "ready_list st1 = ready_list st" "ready_list_2 st1 = ready_list_2 st"
    using assms(2) by (simp_all add: st1_def loop_simps)
  have o1: "others_same p st st1" using others_prims(1) [OF e assms(2), of FDEVENT_OUT] assms(3) by (auto simp: st1_def others_same_def)
  have e1: "ep_ok (fdes st1)" using i1 by (simp add: inv_def)
  have w: "wait_or_ready two p c st = (if Buffer_empty (link_input (conn_link c)) then fd_set (conn_fd c) FDEVENT_IN (P_link p) st1
      else push_ready two p (fd_clr (conn_fd c) FDEVENT_IN st1))" by (simp add: wait_or_ready_def st1_def Let_def)
  show ?thesis
  proof (cases "Buffer_empty (link_input (conn_link c))")
    case True
    let ?s = "fd_set (conn_fd c0) FDEVENT_IN (P_link p) st1"
    have "inv ?s (add_mset p X)" using inv_fd_set [OF i1 h1(1)] p by (simp add: h1)
    moreover have "FDEVENT_IN \<in> wat ?s (conn_fd c0)" using e1 by (simp add: loop_simps)
    ultimately have "inv ?s X" using inv_drop [of ?s p X c0] h1(1) by (simp add: loop_simps)
    moreover have "others_same p st ?s" using others_trans [OF o1 others_prims(1) [OF e1 h1(1), of FDEVENT_IN]] by (simp add: h1)
    ultimately show ?thesis using w True assms(3) h1 by (simp add: settled_def loop_simps)
  next
    case False
    let ?s = "push_ready two p (fd_clr (conn_fd c0) FDEVENT_IN st1)"
    have "inv ?s (add_mset p X)" using inv_push [OF inv_fd_clr [OF i1 h1(1)]] by simp
    moreover have "others_same p st (fd_clr (conn_fd c0) FDEVENT_IN st1)" using others_trans [OF o1 others_prims(2) [OF e1 h1(1)]] by (simp add: h1)
    then have "others_same p st ?s" by (auto simp: others_same_def loop_simps)
    moreover have "FDEVENT_IN \<notin> wat ?s (conn_fd c0)" "fds ?s p = Some (conn_fd c0)" using e1 h1(1) by (simp_all add: loop_simps)
    ultimately show ?thesis using w False assms(3) h1 by (simp add: settled_def loop_simps)
  qed
qed


lemma settled_pre:
  assumes "settled two p X st1 st'" and "others_same p st st1" and "fds st1 p = fds st p"
    and "ready_list st1 = ready_list st" and "ready_list_2 st1 = ready_list_2 st"
  shows "settled two p X st st'"
  using assms(1) others_trans [OF assms(2) _ assms(3), of st'] assms(4,5) by (auto simp: settled_def)

lemma proc_result_settled:
  assumes "inv st (add_mset p X)" and "job_link j = p"
  shows "\<exists>st'. proc_result Y two j st = Next st' \<and> settled two p X st st'"
proof -
  obtain c where c: "heap st p = Some c" using inv_cur [OF assms(1)] by blast
  let ?s = "count_call (job_cmd j) st"
  have i: "inv ?s (add_mset p X)" by (rule inv_count_call [OF assms(1)])
  have h: "heap ?s p = Some c" using c by (simp add: loop_simps)
  have e: "ep_ok (fdes ?s)" using i by (simp add: inv_def)
  have pre: "settled two p X ?s st' \<Longrightarrow> settled two p X st st'" for st'
    by (erule settled_pre) (auto simp: others_same_def loop_simps)
  have set: "settled two p X (set_link p c l ?s) st' \<Longrightarrow> settled two p X st st'" for l st'
    by (rule pre, erule settled_pre) (use others_prims(4) [OF e h] h in \<open>auto simp: loop_simps\<close>)
  have iv: "inv (set_link p c l ?s) (add_mset p X)" "heap (set_link p c l ?s) p = Some (c\<lparr>conn_link := l\<rparr>)" for l
    using inv_set_link [OF i h] by (simp_all add: loop_simps)
  obtain l len where l: "(if \<not> Buffer_empty (link_output (conn_link c)) then case Link_write (writes Y) (conn_link c) of (l, len, _, _) \<Rightarrow> (l, len)
      else (conn_link c, 0)) = (l, len)" by fastforce
  have "settled two p X st (delete_link p c (set_link p c l ?s))"
    using set [OF delete_settled [OF iv]] by (simp add: delete_link_def)
  moreover have "settled two p X st (wait_or_ready two p (c\<lparr>conn_link := l\<rparr>) (set_link p c l ?s))"
    by (rule set, rule wait_settled [OF iv]) simp
  moreover have "settled two p X st (delete_link p c ?s)" by (rule pre, rule delete_settled [OF i h])
  ultimately show ?thesis using assms(2) h l by (auto simp: proc_result_def Let_def split del: if_split split: if_split)
qed

lemma inv_event:
  "inv st X \<Longrightarrow> fds st p \<noteq> None \<Longrightarrow> p \<notin># X \<Longrightarrow> p \<notin># held st \<Longrightarrow> p \<notin> backend st \<Longrightarrow> inv st (add_mset p X)"
  unfolding inv_def by (auto intro!: core_event)

lemma client_in_inv:
  assumes "inv st X" and "heap st p = Some c" and "p \<notin># X" and "p \<notin># held st" and "p \<notin> backend st"
  shows "\<exists>st' b. client_in Y p st = Next (st', b) \<and> inv st' (add_mset p X) \<and> ready_list st' = ready_list st @ [p] \<and>
    ready_list_2 st' = ready_list_2 st \<and> others_same p st st' \<and> fds st' = fds st \<and> held st' = held st \<and> backend st' = backend st"
proof -
  let ?s = "push_ready False p st"
  have i: "inv ?s (add_mset p X)" using inv_push [OF inv_event [OF assms(1) _ assms(3-5)]] assms(2) by (simp add: fds_def)
  have h: "heap ?s p = Some c" using assms(2) by (simp add: loop_simps)
  obtain l len rs where l: "Link_read (reads Y) (conn_link c) = (l, len, rs)" by (cases "Link_read (reads Y) (conn_link c)")
  have "inv (set_link p c k ?s) (add_mset p X)" for k by (rule inv_set_link [OF i h])
  then show ?thesis using h i l assms(2) by (auto simp: client_in_def Let_def loop_simps others_same_def)
qed

lemma client_out_inv:
  assumes "inv st X" and "heap st p = Some c"
  shows "\<exists>st'. client_out Y p st = Next st' \<and> inv st' X \<and> ready_list st' = ready_list st \<and> ready_list_2 st' = ready_list_2 st \<and>
    others_same p st st' \<and> fds st' = fds st"
proof -
  obtain l len rs os where l: "Link_write (writes Y) (conn_link c) = (l, len, rs, os)" by (cases "Link_write (writes Y) (conn_link c)")
  have s: "inv (set_link p c k st) X" "heap (set_link p c k st) p = Some (c\<lparr>conn_link := k\<rparr>)" for k
    using inv_set_link [OF assms] by (simp_all add: loop_simps)
  have e: "ep_ok (fdes st)" using assms(1) by (simp add: inv_def)
  have "inv (fd_clr (conn_fd c) FDEVENT_OUT (set_link p c l st)) X" using inv_fd_clr [OF s, of FDEVENT_OUT l] by simp
  then show ?thesis using l s(1) assms e by (auto simp: client_out_def Let_def loop_simps others_same_def)
qed

lemma client_event_inv:
  assumes "inv st X" and "fds st p \<noteq> None" and "FDEVENT_IN \<in> ev \<longrightarrow> p \<notin># X" and "p \<notin># held st" and "p \<notin> backend st"
  shows "\<exists>st'. proc_client_event Y ev p st = Next st' \<and> inv st' (if FDEVENT_IN \<in> ev then add_mset p X else X) \<and>
    ready_list st' = ready_list st @ (if FDEVENT_IN \<in> ev then [p] else []) \<and> ready_list_2 st' = ready_list_2 st \<and> others_same p st st'"
proof -
  obtain c where c: "heap st p = Some c" using assms(2) by (auto simp: fds_def)
  show ?thesis
  proof (cases "FDEVENT_IN \<in> ev")
    case True
    then obtain st1 b where
      s: "client_in Y p st = Next (st1, b)" "inv st1 (add_mset p X)" "ready_list st1 = ready_list st @ [p]" "ready_list_2 st1 = ready_list_2 st"
        "others_same p st st1" "fds st1 = fds st" using client_in_inv [OF assms(1) c _ assms(4,5), of Y] assms(3) by blast
    obtain c1 where "heap st1 p = Some c1" using s(6) c by (auto simp: fds_def fun_eq_iff map_option_case split: option.splits dest: spec [of _ p])
    from client_out_inv [OF s(2) this, of Y] obtain st2 where
      o: "client_out Y p st1 = Next st2" "inv st2 (add_mset p X)" "ready_list st2 = ready_list st1" "ready_list_2 st2 = ready_list_2 st1"
        "others_same p st1 st2" by blast
    show ?thesis using True s o others_trans [OF s(5) o(5)] by (cases b) (auto simp: proc_client_event_def)
  next
    case False
    then show ?thesis using client_out_inv [OF assms(1) c, of Y] assms(1) by (auto simp: proc_client_event_def others_same_def)
  qed
qed


text \<open>The link after its request has been looked at.\<close>

lemma inv_update:
  assumes "inv st X" and "heap st p = Some c" and "conn_fd c' = conn_fd c" and "link_count nt = link_count (net st)"
  shows "inv (st\<lparr>net := nt, heap := (heap st)(p \<mapsto> c')\<rparr>) X" "fds (st\<lparr>net := nt, heap := (heap st)(p \<mapsto> c')\<rparr>) = fds st"
proof -
  show f: "fds (st\<lparr>net := nt, heap := (heap st)(p \<mapsto> c')\<rparr>) = fds st" using assms(2,3) by (auto simp: fds_def fun_eq_iff)
  show "inv (st\<lparr>net := nt, heap := (heap st)(p \<mapsto> c')\<rparr>) X"
    by (rule inv_same [OF assms(1)]) (simp_all add: f held_def specials_def assms(4))
qed

lemma held_push: "held (set_pool q (pool_push j (get_pool q st)) st) = add_mset (job_link j) (held st)"
  by (cases q) (simp_all add: held_def set_pool_def get_pool_def pool_push_def pool_links_def)

lemma queue_settled:
  assumes "inv st (add_mset p X)" and "heap st p = Some c" and "job_link j = p"
  shows "settled two p X st (fd_del (conn_fd c) (set_pool q (pool_push j (get_pool q st)) st))"
proof -
  have e: "ep_ok (fdes st)" using assms(1) by (simp add: inv_def)
  let ?t = "fd_del (conn_fd c) st" and ?s = "fd_del (conn_fd c) (set_pool q (pool_push j (get_pool q st)) st)"
  have d: "inv ?t (add_mset p X)" "wat ?t (conn_fd c) = {}" using inv_fd_del [OF assms(1,2)] by simp_all
  have f: "fdes ?s = fdes ?t" by (simp add: fd_del_def loop_simps)
  have "core (fds st) (wat ?t) (tgt ?t) X (add_mset p (held st)) (backend st) (link_count (net st)) (specials st)"
    by (rule core_give(1) [where fd = "conn_fd c"]) (use d assms(2) in \<open>auto simp: inv_def loop_simps\<close>)
  then have "inv ?s X" using d(1) by (simp add: inv_def f wat_def tgt_def loop_simps held_push assms(3))
  moreover have "others_same p st ?s" using others_prims(3) [OF e assms(2)] assms(3)
    by (auto simp: others_same_def wat_def f loop_simps held_push)
  ultimately show ?thesis by (simp add: settled_def loop_simps)
qed

lemma backend_settled:
  assumes "inv st (add_mset p X)" and "heap st p = Some c"
  shows "settled two p X st (count_links (-1) (fd_del (conn_fd c) (st\<lparr>backend := insert p (backend st)\<rparr>)))"
proof -
  have e: "ep_ok (fdes st)" using assms(1) by (simp add: inv_def)
  let ?t = "fd_del (conn_fd c) st" and ?s = "count_links (-1) (fd_del (conn_fd c) (st\<lparr>backend := insert p (backend st)\<rparr>))"
  have d: "inv ?t (add_mset p X)" "wat ?t (conn_fd c) = {}" using inv_fd_del [OF assms(1,2)] by simp_all
  have f: "fdes ?s = fdes ?t" "held ?s = held st" "fds ?s = fds st" "backend ?s = insert p (backend st)" "specials ?s = specials st"
    "link_count (net ?s) = link_count (net st) - 1" "ready_list ?s = ready_list st" "ready_list_2 ?s = ready_list_2 st"
    by (simp_all add: fd_del_def count_links_def held_def fds_def fun_eq_iff specials_def)
  have "core (fds st) (wat ?t) (tgt ?t) X (held st) (insert p (backend st)) (link_count (net st) - 1) (specials st)"
    by (rule core_give(2) [where fd = "conn_fd c"]) (use d assms(2) in \<open>auto simp: inv_def loop_simps\<close>)
  then have "inv ?s X" using d(1) by (simp add: inv_def f wat_def tgt_def)
  moreover have "others_same p st ?s" using others_prims(3) [OF e assms(2)] unfolding others_same_def wat_def f by (auto simp: loop_simps)
  ultimately show ?thesis by (simp add: settled_def f)
qed

lemma set_wait_settled:
  assumes "inv st (add_mset p X)" and "heap st p = Some c"
  shows "settled two p X st (fd_set (conn_fd c) FDEVENT_IN (P_link p) st)"
proof -
  have p: "p \<notin># held st" "p \<notin> backend st" using inv_cur [OF assms(1)] by auto
  have e: "ep_ok (fdes st)" using assms(1) by (simp add: inv_def)
  let ?s = "fd_set (conn_fd c) FDEVENT_IN (P_link p) st"
  have "inv ?s (add_mset p X)" by (rule inv_fd_set [OF assms p]) simp
  then have "inv ?s X" by (rule inv_drop [where c = c]) (use e assms(2) in \<open>simp_all add: loop_simps\<close>)
  then show ?thesis using others_prims(1) [OF e assms(2), of FDEVENT_IN] by (simp add: settled_def loop_simps)
qed

lemma serve_ready_settled:
  assumes "inv st (add_mset p X)" and "other_ok (call Y)"
  shows "serve_ready Y p st = Crash \<or> (\<exists>st'. serve_ready Y p st = Next (st', False) \<and> settled True p X st st') \<or>
    (\<exists>u c. serve_ready Y p st = Next (backend_proc (threads Y) p u, True) \<and> inv u (add_mset p X) \<and> heap u p = Some c \<and>
       fds u = fds st \<and> wat u = wat st \<and> ready_list_2 u = ready_list_2 st)"
proof -
  obtain c where c: "heap st p = Some c" using inv_cur [OF assms(1)] by blast
  have e: "ep_ok (fdes st)" using assms(1) by (simp add: inv_def)
  obtain l n r where r: "Link_recv (alloc Y) (dbl Y) (en Y) (conn_link c) = (l, n, r)" by (cases "Link_recv (alloc Y) (dbl Y) (en Y) (conn_link c)")
  have iv: "inv (set_link p c l st) (add_mset p X)" "heap (set_link p c l st) p = Some (c\<lparr>conn_link := l\<rparr>)"
    using inv_set_link [OF assms(1) c] by (simp_all add: loop_simps)
  have set: "settled True p X (set_link p c l st) st' \<Longrightarrow> settled True p X st st'" for st'
    by (erule settled_pre) (use others_prims(4) [OF e c] c in \<open>auto simp: loop_simps\<close>)
  show ?thesis
  proof (cases "link_error (conn_link c)")
    case True
    then show ?thesis using c delete_settled [OF assms(1) c] by (simp add: serve_ready_def)
  next
    case ok: False
    show ?thesis
    proof (cases r)
      case Recv_null
      have "settled True p X st (delete_link p c (set_link p c l st))" using set [OF delete_settled [OF iv]] by (simp add: delete_link_def)
      then show ?thesis using c ok r Recv_null by (simp add: serve_ready_def)
    next
      case Recv_oob
      then show ?thesis using c ok r by (simp add: serve_ready_def)
    next
      case (Recv req)
      show ?thesis
      proof (cases "req = []")
        case True
        have "settled True p X st (fd_set (conn_fd c) FDEVENT_IN (P_link p) (set_link p c l st))" using set [OF set_wait_settled [OF iv]] by simp
        then show ?thesis using c ok r Recv True by (simp add: serve_ready_def)
      next
        case req: False
        show ?thesis
        proof (cases "NetworkServer_proc (alloc Y) (call Y) (c\<lparr>conn_link := l\<rparr>) (net st)")
          case None
          then show ?thesis using c ok r Recv req by (cases req) (simp_all add: serve_ready_def)
        next
          case (Some y)
          obtain c' nt resp cm oc where y: "y = (c', nt, resp, cm, oc)" by (cases y)
          note fr = NetworkServer_proc_frame [OF Some [unfolded y] assms(2)]
          let ?s = "st\<lparr>net := nt, heap := (heap st)(p \<mapsto> c')\<rparr>"
          have u: "inv ?s (add_mset p X)" "fds ?s = fds st" "heap ?s p = Some c'"
            using inv_update [OF assms(1) c, of c' nt] fr by simp_all
          have pre: "settled True p X ?s st' \<Longrightarrow> settled True p X st st'" for st'
            by (erule settled_pre) (auto simp: u others_same_def wat_def held_def)
          let ?j = "\<lparr>job_link = p, job_cmd = map_option cmd_name cm, job_result = PROC_OK, job_resp = resp\<rparr>"
          have q: "settled True p X st (fd_del (conn_fd c') (set_pool q (pool_push ?j (get_pool q ?s)) ?s))" for q
            by (rule pre, rule queue_settled [OF u(1,3)]) simp
          have pr: "\<exists>st'. proc_result Y True (?j\<lparr>job_result := ret\<rparr>) ?s = Next st' \<and> settled True p X st st'" for ret
            using proc_result_settled [OF u(1), of "?j\<lparr>job_result := ret\<rparr>" Y True] pre by auto
          have "wat ?s = wat st" by (simp add: wat_def)
          moreover have "serve_ready Y p st = (case oc of Queued q \<Rightarrow> Next (fd_del (conn_fd c') (set_pool q (pool_push ?j (get_pool q ?s)) ?s), False)
              | Result ret \<Rightarrow> if ret = PROC_THREAD then Next (fd_del (conn_fd c') ?s, False)
                 else if ret = PROC_BACKEND then Next (backend_proc (threads Y) p ?s, True)
                 else not_handed (proc_result Y True (?j\<lparr>job_result := ret\<rparr>) ?s))"
            using c ok r Recv req Some y by (cases req) (simp_all add: serve_ready_def Let_def)
          ultimately show ?thesis using fr(3) q u
          proof (cases oc)
            case (Result ret)
            then show ?thesis using fr(3) u pr [of ret] \<open>wat ?s = wat st\<close> \<open>serve_ready Y p st = _\<close>
              by (cases "ret = PROC_BACKEND") (auto simp: not_handed_def)
          qed auto
        qed
      qed
    qed
  qed
qed


subsection \<open>The invariant of the loop\<close>

text \<open>Links on the second list are not subscribed for reading; the events that are still to be handled are those of links that only
  the main thread has, each at most once, and an event for reading is that of a link that is not on the list yet.\<close>

definition no_in :: "loop \<Rightarrow> nat list \<Rightarrow> bool" where
  "no_in st L \<longleftrightarrow> (\<forall>p \<in> set L. \<forall>fd. fds st p = Some fd \<longrightarrow> FDEVENT_IN \<notin> wat st fd)"

fun event_link :: "ptr \<times> fdflag set \<Rightarrow> nat option" where
  "event_link (P_link p, ev) = Some p"
| "event_link _ = None"

definition pending :: "loop \<Rightarrow> (ptr \<times> fdflag set) list \<Rightarrow> bool" where
  "pending st es \<longleftrightarrow> distinct (List.map_filter event_link es) \<and>
     (\<forall>p ev. (P_link p, ev) \<in> set es \<longrightarrow> fds st p \<noteq> None \<and> p \<notin># held st \<and> p \<notin> backend st \<and> (FDEVENT_IN \<in> ev \<longrightarrow> p \<notin> set (ready_list st)))"

text \<open>A link that was just given to a backend, seen as if the main thread still had it: \<open>c\<close> is the object, which the backend may have
  deleted in the meantime.\<close>

definition mine :: "nat \<Rightarrow> conn \<Rightarrow> loop \<Rightarrow> loop" where
  "mine p c st = st\<lparr>heap := (heap st)(p \<mapsto> c), backend := backend st - {p}\<rparr>"

lemma mine_frame [loop_simps]:
  "held (mine p c st) = held st" "specials (mine p c st) = specials st" "wat (mine p c st) = wat st" "tgt (mine p c st) = tgt st"
  "fdes (mine p c st) = fdes st" "net (mine p c st) = net st" "ready_list_2 (mine p c st) = ready_list_2 st"
  by (simp_all add: mine_def held_def specials_def wat_def tgt_def)

fun loop_inv :: "loop \<times> phase \<Rightarrow> bool" where
  "loop_inv (st, Top) = (inv st (mset (ready_list_2 st)) \<and> no_in st (ready_list_2 st))"
| "loop_inv (st, Events es) = (inv st (mset (ready_list st)) \<and> ready_list_2 st = [] \<and> pending st es)"
| "loop_inv (st, Ready ps) = (inv st (mset ps + mset (ready_list_2 st)) \<and> no_in st (ready_list_2 st))"
| "loop_inv (st, Handed p ps) =
     (\<exists>c. (heap st p = None \<and> p \<notin> backend st \<or> heap st p = Some c \<and> p \<in> backend st) \<and>
        inv (mine p c st) (add_mset p (mset ps + mset (ready_list_2 st))) \<and> no_in (mine p c st) (ready_list_2 st))"

lemma event_link_Some: "event_link e = Some p \<longleftrightarrow> (\<exists>ev. e = (P_link p, ev))"
  by (cases e rule: event_link.cases) auto

lemma pending_others:
  assumes "pending st es" and "others_same p st st'" and "\<forall>ev. (P_link p, ev) \<notin> set es" and "set (ready_list st') \<subseteq> insert p (set (ready_list st))"
  shows "pending st' es"
  using assms unfolding pending_def others_same_def by (metis insertE subsetD)

lemma no_in_others:
  assumes "no_in st L" and "others_same p st st'" and "p \<notin> set L" and "inv st X" and "fds st p \<noteq> None"
  shows "no_in st' L"
  unfolding no_in_def
proof (intro ballI allI impI)
  fix q fd assume q: "q \<in> set L" "fds st' q = Some fd"
  then have "fds st q = Some fd" using assms(2,3) unfolding others_same_def by metis
  moreover have "fds st p \<noteq> Some fd" using inv_inj [OF assms(4) calculation, of p] q(1) assms(3) by auto
  ultimately show "FDEVENT_IN \<notin> wat st' fd" using assms(1,2) q(1) unfolding no_in_def others_same_def by metis
qed

lemma event_step:
  assumes "loop_inv (st, Events (e # es))" and "other_ok (call Y)" and "accept_ok a st"
  shows "serve_event Y a e st = Crash \<or> (\<exists>st'. serve_event Y a e st = Next st' \<and> loop_inv (st', Events es))"
proof -
  have I: "inv st (mset (ready_list st))" "ready_list_2 st = []" "pending st (e # es)" using assms(1) by auto
  have P: "pending st es" using I(3) by (auto simp: pending_def List.map_filter_simps split: option.splits)
  obtain r ev where e: "e = (r, ev)" by (cases e)
  have pool: "\<exists>st'. proc_result Y False j (set_pool q (get_pool q st\<lparr>results := js\<rparr>) st) = Next st' \<and> loop_inv (st', Events es)"
    if "results (get_pool q st) = j # js" for q j js
  proof -
    let ?s = "set_pool q (get_pool q st\<lparr>results := js\<rparr>) st"
    have h: "held st = add_mset (job_link j) (held ?s)"
      using that by (cases q) (simp_all add: held_def set_pool_def get_pool_def pool_links_def)
    have "inv ?s (add_mset (job_link j) (mset (ready_list st)))"
      using I(1) core_take unfolding inv_def h by (auto simp: loop_simps)
    from proc_result_settled [OF this refl, of Y False] obtain st' where
      st': "proc_result Y False j ?s = Next st'" "settled False (job_link j) (mset (ready_list st)) ?s st'" by blast
    have n: "(P_link (job_link j), ev) \<notin> set es" for ev using P h by (auto simp: pending_def)
    have "pending ?s es" using P h by (auto simp: pending_def loop_simps)
    then have "pending st' es" by (rule pending_others) (use st'(2) n in \<open>auto simp: settled_def loop_simps\<close>)
    then show ?thesis using st' I(2) by (auto simp: settled_def loop_simps)
  qed
  show ?thesis
  proof (cases r)
    case P_serv
    show ?thesis
    proof (cases a)
      case None
      then show ?thesis using I P e P_serv by (simp add: serve_event_def accept_link_def)
    next
      case (Some x)
      obtain p fd ip where x: "x = (p, fd, ip)" by (cases x)
      have ok: "heap st p = None" "\<forall>q c. heap st q = Some c \<longrightarrow> conn_fd c \<noteq> fd" "fd \<notin> specials st"
        using assms(3) Some x by (auto simp: accept_ok_def specials_def)
      let ?c = "\<lparr>conn_link = Link_new\<lparr>link_noblock := True\<rparr>, conn_fd = fd, remote_ip = ip\<rparr>"
      let ?s = "fd_set fd FDEVENT_IN (P_link p) (count_links 1 (st\<lparr>heap := (heap st)(p \<mapsto> ?c)\<rparr>))"
      have f: "fds (st\<lparr>heap := (heap st)(p \<mapsto> ?c)\<rparr>) = (fds st)(p \<mapsto> fd)" by (auto simp: fds_def fun_eq_iff)
      have n: "fds st p = None" "fd \<notin> ran (fds st)" using ok(1,2) by (auto simp: fds_def ran_def)
      have v: "wat (st\<lparr>heap := (heap st)(p \<mapsto> ?c)\<rparr>) = wat st" "tgt (st\<lparr>heap := (heap st)(p \<mapsto> ?c)\<rparr>) = tgt st"
        "held (st\<lparr>heap := (heap st)(p \<mapsto> ?c)\<rparr>) = held st" "specials (st\<lparr>heap := (heap st)(p \<mapsto> ?c)\<rparr>) = specials st"
        by (simp_all add: wat_def tgt_def held_def specials_def)
      have "inv ?s (mset (ready_list st))"
        using core_new [OF _ n ok(3), of "wat st" "tgt st"] I(1) by (auto simp: inv_def loop_simps f v)
      moreover have "pending ?s es"
      proof -
        have "\<forall>ev. (P_link p, ev) \<notin> set es" using P n(1) by (fastforce simp: pending_def)
        then show ?thesis using P by (auto simp: pending_def loop_simps f v)
      qed
      ultimately show ?thesis using I P e P_serv Some x by (auto simp: serve_event_def accept_link_def loop_simps)
    qed
  next
    case P_reader
    then show ?thesis using pool [of Reader] e
      by (auto simp: serve_event_def pool_pop_def set_pool_def get_pool_def split: list.splits)
  next
    case P_writer
    then show ?thesis using pool [of Writer] e
      by (auto simp: serve_event_def pool_pop_def set_pool_def get_pool_def split: list.splits)
  next
    case (P_link p)
    have p: "fds st p \<noteq> None" "p \<notin># held st" "p \<notin> backend st" "FDEVENT_IN \<in> ev \<longrightarrow> p \<notin># mset (ready_list st)"
      using I(3) e P_link by (auto simp: pending_def)
    from client_event_inv [OF I(1) p(1,4,2,3), of Y] obtain st' where
      st': "proc_client_event Y ev p st = Next st'" "inv st' (if FDEVENT_IN \<in> ev then add_mset p (mset (ready_list st)) else mset (ready_list st))"
        "ready_list st' = ready_list st @ (if FDEVENT_IN \<in> ev then [p] else [])" "ready_list_2 st' = ready_list_2 st" "others_same p st st'" by blast
    have "\<forall>ev. (P_link p, ev) \<notin> set es" using I(3) e P_link by (force simp: pending_def List.map_filter_simps map_filter_def)
    then have "pending st' es" by (rule pending_others [OF P st'(5)]) (auto simp: st'(3))
    then show ?thesis using st' I(2) e P_link by (auto simp: serve_event_def split: if_splits)
  qed
qed


lemma backend_proc_inv:
  assumes "inv u (add_mset p (mset ps + mset (ready_list_2 u)))" and "heap u p = Some c" and "no_in u (ready_list_2 u)"
  shows "loop_inv (backend_proc b p u, Handed p ps)"
proof -
  let ?s = "backend_proc b p u"
  have p: "p \<notin> backend u" using inv_cur [OF assms(1)] by blast
  have m: "mine p c ?s = u" using assms(2) p by (auto simp: mine_def backend_proc_def fun_upd_idem)
  have "ready_list_2 ?s = ready_list_2 u" by (simp add: backend_proc_def)
  moreover have "heap ?s p = None \<and> p \<notin> backend ?s \<or> heap ?s p = Some c \<and> p \<in> backend ?s"
    using assms(2) p by (simp add: backend_proc_def)
  ultimately show ?thesis unfolding loop_inv.simps by (intro exI [of _ c]) (use assms(1,3) m in simp)
qed

lemma ready_step:
  assumes "loop_inv (st, Ready (p # ps))" and "other_ok (call Y)"
  shows "serve_ready Y p st = Crash \<or> (\<exists>st' b. serve_ready Y p st = Next (st', b) \<and> loop_inv (st', if b then Handed p ps else Ready ps))"
proof -
  have I: "inv st (add_mset p (mset ps + mset (ready_list_2 st)))" "no_in st (ready_list_2 st)" using assms(1) by simp_all
  obtain c where c: "heap st p = Some c" "p \<notin># mset ps + mset (ready_list_2 st)" using inv_cur [OF I(1)] by blast
  from serve_ready_settled [OF I(1) assms(2)]
  consider "serve_ready Y p st = Crash"
    | (settled) st' where "serve_ready Y p st = Next (st', False)" "settled True p (mset ps + mset (ready_list_2 st)) st st'"
    | (handed) u c' where "serve_ready Y p st = Next (backend_proc (threads Y) p u, True)" "inv u (add_mset p (mset ps + mset (ready_list_2 st)))"
        "heap u p = Some c'" "fds u = fds st" "wat u = wat st" "ready_list_2 u = ready_list_2 st" by blast
  then show ?thesis
  proof cases
    case (settled st')
    have "no_in st' (ready_list_2 st)"
      by (rule no_in_others [OF I(2) _ _ I(1)]) (use settled(2) c in \<open>auto simp: settled_def\<close>)
    then have "loop_inv (st', Ready ps)" using settled(2) by (auto simp: settled_def no_in_def)
    with settled(1) show ?thesis by auto
  next
    case (handed u c')
    have "no_in u (ready_list_2 u)" using I(2) unfolding no_in_def handed(4-6) .
    then have "loop_inv (backend_proc (threads Y) p u, Handed p ps)"
      using backend_proc_inv [of u p ps c'] handed(2,3,6) by simp
    with handed(1) show ?thesis by auto
  qed simp
qed

lemma after_step:
  assumes "loop_inv (st, Handed p ps)"
  shows "(after_backend p st = Dangling) = (p \<notin> backend st)" and "after_backend p st = Next st' \<Longrightarrow> loop_inv (st', Ready ps)"
proof -
  from assms obtain c where c: "heap st p = None \<and> p \<notin> backend st \<or> heap st p = Some c \<and> p \<in> backend st"
    and I: "inv (mine p c st) (add_mset p (mset ps + mset (ready_list_2 st)))" "no_in (mine p c st) (ready_list_2 st)" by auto
  show "(after_backend p st = Dangling) = (p \<notin> backend st)" using c by (auto simp: after_backend_def split: option.splits)
  assume a: "after_backend p st = Next st'"
  then have h: "heap st p = Some c" "p \<in> backend st" using c by (auto simp: after_backend_def split: option.splits)
  let ?m = "mine p c st"
  have hm: "heap ?m p = Some c" by (simp add: mine_def)
  have "?m\<lparr>backend := insert p (backend ?m)\<rparr> = st" using h by (auto simp: mine_def fun_upd_idem insert_absorb)
  then have st': "st' = count_links (-1) (fd_del (conn_fd c) (?m\<lparr>backend := insert p (backend ?m)\<rparr>))" using a h by (simp add: after_backend_def)
  have r2: "ready_list_2 ?m = ready_list_2 st" by (simp add: mine_def)
  have s: "settled True p (mset ps + mset (ready_list_2 st)) ?m st'"
    unfolding st' by (rule backend_settled [OF I(1) hm])
  have np: "p \<notin># mset ps + mset (ready_list_2 st)" using inv_cur [OF I(1)] by blast
  have "no_in st' (ready_list_2 st)"
    by (rule no_in_others [OF I(2) _ _ I(1)]) (use s np hm in \<open>auto simp: settled_def\<close>)
  then show "loop_inv (st', Ready ps)" using s r2 by (auto simp: settled_def no_in_def)
qed

lemma ep_wait_frame:
  assumes "ep_wait es s = (f, fs)" and "\<forall>(fd, b) \<in> set es. fd < length (ep_table s)"
  shows "watched (ep_table f) = watched (ep_table s)" "target (ep_table f) = target (ep_table s)" "interest f = interest s"
    "map (\<lambda>x. (data_ptr x, fde_events x)) fs = map (\<lambda>(fd, b). (target (ep_table s) fd, ready_flags b)) es"
proof -
  have "watched (ep_table f) = watched (ep_table s) \<and> target (ep_table f) = target (ep_table s) \<and> interest f = interest s \<and>
    map (\<lambda>x. (data_ptr x, fde_events x)) fs = map (\<lambda>(fd, b). (target (ep_table s) fd, ready_flags b)) es"
    using assms
  proof (induction es s arbitrary: f fs rule: ep_wait.induct)
    case (2 fd b es s)
    let ?x = "(ep_table s ! fd)\<lparr>fde_events := ready_flags b\<rparr>" let ?s = "s\<lparr>ep_table := (ep_table s)[fd := ?x]\<rparr>"
    obtain f' fs' where w: "ep_wait es ?s = (f', fs')" by fastforce
    have f: "f = f'" "fs = ?x # fs'" using "2.prems"(1) w by (simp_all add: Let_def)
    have len: "fd < length (ep_table s)" using "2.prems"(2) by simp
    have same: "watched (ep_table ?s) = watched (ep_table s)" "target (ep_table ?s) = target (ep_table s)"
      using len by (simp_all add: table_update) (simp_all add: watched_def target_def fun_eq_iff)
    from "2.IH" [OF refl w] "2.prems"(2) have IH: "watched (ep_table f') = watched (ep_table ?s) \<and> target (ep_table f') = target (ep_table ?s) \<and>
        interest f' = interest ?s \<and> map (\<lambda>x. (data_ptr x, fde_events x)) fs' = map (\<lambda>(fd, b). (target (ep_table ?s) fd, ready_flags b)) es" by simp
    have "data_ptr ?x = target (ep_table s) fd" using len by (simp add: target_def)
    then show ?case using IH unfolding f same by simp
  qed simp
  then show "watched (ep_table f) = watched (ep_table s)" "target (ep_table f) = target (ep_table s)" "interest f = interest s"
    "map (\<lambda>x. (data_ptr x, fde_events x)) fs = map (\<lambda>(fd, b). (target (ep_table s) fd, ready_flags b)) es" by simp_all
qed

lemma wait_step:
  assumes "loop_inv (st, Top)" and "wait_ok es st" and "ep_wait es (fdes st) = (f, fs)"
  shows "loop_inv (st\<lparr>ready_list := ready_list_2 st, ready_list_2 := [], fdes := f\<rparr>, Events (fd_events fs))"
proof -
  let ?s = "st\<lparr>ready_list := ready_list_2 st, ready_list_2 := [], fdes := f\<rparr>"
  have I: "inv st (mset (ready_list_2 st))" "no_in st (ready_list_2 st)" using assms(1) by simp_all
  have ep: "ep_ok (fdes st)" using I(1) by (simp add: inv_def)
  have w: "wat st fd \<noteq> {} \<and> b \<subseteq> epoll_bits (wat st fd) \<union> {EPOLLHUP, EPOLLERR}" if "(fd, b) \<in> set es" for fd b
    using assms(2) that ep by (fastforce simp: wait_ok_def ep_ok_def wat_def split: if_splits)
  have "\<forall>(fd, b) \<in> set es. fd < length (ep_table (fdes st))" using w by (fastforce simp: wat_def watched_def split: if_splits)
  note fr = ep_wait_frame [OF assms(3) this]
  have same: "wat ?s = wat st" "tgt ?s = tgt st" "held ?s = held st" "fds ?s = fds st" "specials ?s = specials st"
    using fr by (simp_all add: wat_def tgt_def held_def fds_def specials_def fun_eq_iff)
  have "ep_ok f" using ep unfolding ep_ok_def fr(1,3) .
  then have inv: "inv ?s (mset (ready_list_2 st))" using I(1) unfolding inv_def same by simp
  have E: "fd_events fs = map (\<lambda>(fd, b). (the (tgt st fd), ready_flags b)) es"
  proof -
    have "fd_events fs = map (\<lambda>(d, ev). (the d, ev)) (map (\<lambda>x. (data_ptr x, fde_events x)) fs)" by (simp add: fd_events_def)
    then show ?thesis unfolding fr by (auto simp: tgt_def)
  qed
  have core: "core (fds st) (wat st) (tgt st) (mset (ready_list_2 st)) (held st) (backend st) (link_count (net st)) (specials st)"
    using I(1) by (simp add: inv_def)
  have link: "fds st p = Some fd \<and> p \<notin># held st \<and> p \<notin> backend st" if "(fd, b) \<in> set es" "the (tgt st fd) = P_link p" for fd b p
    using coreD(4) [OF core, rule_format, of fd] w [OF that(1)] that(2) by auto
  have "distinct (map fst es)" using assms(2) by (simp add: wait_ok_def)
  then have "distinct (List.map_filter event_link (fd_events fs))" using link unfolding E
  proof (induction es)
    case (Cons x es)
    obtain fd b where x: "x = (fd, b)" by (cases x)
    have IH: "distinct (List.map_filter event_link (map (\<lambda>(fd, b). (the (tgt st fd), ready_flags b)) es))"
      using Cons.prems by (intro Cons.IH) auto
    show ?case
    proof (cases "the (tgt st fd)")
      case (P_link p)
      have "p \<notin> set (List.map_filter event_link (map (\<lambda>(fd, b). (the (tgt st fd), ready_flags b)) es))"
      proof
        assume "p \<in> set (List.map_filter event_link (map (\<lambda>(fd, b). (the (tgt st fd), ready_flags b)) es))"
        then obtain fd' b' where "(fd', b') \<in> set es" "the (tgt st fd') = P_link p"
          by (auto simp: map_filter_def event_link_Some)
        then have "fds st p = Some fd'" "fds st p = Some fd" "fd' \<in> fst ` set es"
          using Cons.prems(2) [of fd' b' p] Cons.prems(2) [of fd b p] P_link x by force+
        then show False using Cons.prems(1) x by simp
      qed
      with IH show ?thesis by (simp add: x P_link map_filter_def)
    qed (use IH in \<open>simp_all add: x map_filter_def\<close>)
  qed (simp add: map_filter_def)
  moreover have "p \<notin> set (ready_list_2 st)" if "(fd, b) \<in> set es" "the (tgt st fd) = P_link p" "FDEVENT_IN \<in> ready_flags b" for fd b p
  proof
    assume "p \<in> set (ready_list_2 st)"
    then have "FDEVENT_IN \<notin> wat st fd" using I(2) link [OF that(1,2)] by (simp add: no_in_def)
    then have "EPOLLIN \<notin> b" "EPOLLPRI \<notin> b" using w [OF that(1)] by (auto simp: epoll_bits_def split: if_splits)
    with that(3) show False by (auto simp: ready_flags_def split: if_splits)
  qed
  ultimately have "pending ?s (fd_events fs)" using link unfolding pending_def same E by fastforce
  with inv show ?thesis by simp
qed

subsection \<open>The pools\<close>

lemma take_step:
  assumes "pool_take (get_pool n st) = Some w"
  shows "held (set_pool n w st) = held st"
  using assms by (cases n; cases "jobs (get_pool n st)")
    (auto simp: pool_take_def held_def pool_links_def set_pool_def get_pool_def)

text \<open>A step that keeps the invariant for every set of links in the hands of the main thread keeps it in every phase.\<close>

lemma loop_inv_mono:
  assumes "loop_inv (st, ph)" and "\<And>X. inv st X \<Longrightarrow> inv st' X" and "wat st' = wat st"
    and "\<And>q. q \<notin> backend st \<Longrightarrow> fds st' q = fds st q" and "\<And>q fd. fds st' q = Some fd \<Longrightarrow> fds st q = Some fd"
    and "set_mset (held st') = set_mset (held st)" and "backend st' \<subseteq> backend st"
    and "ready_list st' = ready_list st" and "ready_list_2 st' = ready_list_2 st"
    and "\<And>p ps. ph = Handed p ps \<Longrightarrow> loop_inv (st', Handed p ps)"
  shows "loop_inv (st', ph)"
proof -
  have n: "no_in st L \<Longrightarrow> no_in st' L" for L using assms(3,5) unfolding no_in_def by metis
  have p: "pending st es \<Longrightarrow> pending st' es" for es using assms(4,6-8) unfolding pending_def by (metis subsetD)
  show ?thesis using assms(1,2,8-10) n p by (cases ph) auto
qed

lemma handed_mono:
  assumes "loop_inv (st, Handed p ps)" and "\<And>c X. p \<notin># held st \<Longrightarrow> inv (mine p c st) X \<Longrightarrow> inv (mine p c st') X" and "wat st' = wat st"
    and "\<And>q fd c. p \<notin># held st \<Longrightarrow> fds (mine p c st') q = Some fd \<Longrightarrow> fds (mine p c st) q = Some fd" and "ready_list_2 st' = ready_list_2 st"
    and "p \<notin># held st \<Longrightarrow> heap st' p = None \<and> p \<notin> backend st' \<or> heap st' p = heap st p \<and> (p \<in> backend st') = (p \<in> backend st)"
  shows "loop_inv (st', Handed p ps)"
proof -
  from assms(1) obtain c where c: "heap st p = None \<and> p \<notin> backend st \<or> heap st p = Some c \<and> p \<in> backend st"
    and I: "inv (mine p c st) (add_mset p (mset ps + mset (ready_list_2 st)))" "no_in (mine p c st) (ready_list_2 st)" by auto
  have h: "p \<notin># held st" using inv_cur [OF I(1)] by (auto simp: mine_def held_def)
  have w: "wat (mine p c st') = wat (mine p c st)" using assms(3) by (simp add: wat_def mine_def)
  have "no_in (mine p c st') (ready_list_2 st')" using I(2) assms(4) [OF h] unfolding no_in_def w assms(5) by metis
  moreover have "inv (mine p c st') (add_mset p (mset ps + mset (ready_list_2 st')))" using assms(2) [OF h I(1)] by (simp add: assms(5))
  moreover have "heap st' p = None \<and> p \<notin> backend st' \<or> heap st' p = Some c \<and> p \<in> backend st'" using assms(6) [OF h] c by auto
  ultimately show ?thesis by auto
qed

lemma held_worked:
  assumes "i < length (working (get_pool n st))" and "job_link j = job_link (working (get_pool n st) ! i)"
  shows "held (set_pool n (get_pool n st\<lparr>working := take i (working (get_pool n st)) @ drop (Suc i) (working (get_pool n st)),
      results := results (get_pool n st) @ [j]\<rparr>) st) = held st"
proof -
  let ?w = "working (get_pool n st)"
  have "mset ?w = mset (take i ?w) + (add_mset (?w ! i) (mset (drop (Suc i) ?w)))"
    using arg_cong [OF id_take_nth_drop [OF assms(1)], of mset] by simp
  then have "image_mset job_link (mset ?w) = image_mset job_link (mset (take i ?w)) + add_mset (job_link j) (image_mset job_link (mset (drop (Suc i) ?w)))"
    using assms(2) by simp
  then show ?thesis by (cases n) (simp_all add: held_def pool_links_def set_pool_def get_pool_def)
qed

lemma working_held: "i < length (working (get_pool n st)) \<Longrightarrow> job_link (working (get_pool n st) ! i) \<in># held st"
  by (cases n) (auto simp: held_def pool_links_def get_pool_def)

lemma held_alive:
  assumes "loop_inv (st, ph)" and "p \<in># held st"
  obtains c where "heap st p = Some c" and "\<forall>r rs. ph = Handed r rs \<longrightarrow> r \<noteq> p"
proof (cases "\<exists>r rs. ph = Handed r rs")
  case True
  then obtain r rs where ph: "ph = Handed r rs" by blast
  then obtain d X where I: "inv (mine r d st) (add_mset r X)" using assms(1) by auto
  have h: "held (mine r d st) = held st" by (simp add: mine_def held_def)
  then have "r \<noteq> p" using inv_cur [OF I] assms(2) by metis
  moreover obtain c where "heap (mine r d st) p = Some c" by (rule inv_held [OF I]) (use h assms(2) in simp_all)
  ultimately show thesis using that ph by (auto simp: mine_def)
next
  case False
  then obtain X where "inv st X" using assms(1) by (cases ph) auto
  from inv_held [OF this assms(2)] show thesis using that False by blast
qed

lemma work_step:
  assumes "loop_inv (st, ph)" and "other_ok (call Y)" and "i < length (working (get_pool n st))"
  shows "worker_proc Y n i st = Crash \<or> (\<exists>st'. worker_proc Y n i st = Next st' \<and> loop_inv (st', ph))"
proof -
  let ?w = "get_pool n st" let ?j = "working ?w ! i" let ?p = "job_link ?j"
  note q = working_held [OF assms(3)]
  obtain c where c: "heap st ?p = Some c" and other: "\<forall>r rs. ph = Handed r rs \<longrightarrow> r \<noteq> ?p"
    using held_alive [OF assms(1) q] by blast
  have "loop_inv (st', ph)" if W: "worker_proc Y n i st = Next st'" for st'
  proof -
    obtain name where name: "job_cmd ?j = Some name" using W c by (cases "job_cmd ?j") (simp_all add: worker_proc_def Let_def)
    obtain cm where cm: "get_proc (procs (net st)) name = Some cm"
      using W c name by (cases "get_proc (procs (net st)) name") (simp_all add: worker_proc_def Let_def)
    obtain c' nt resp ret where cp: "call_proc (call Y) (cmd_proc cm) (recv_data (conn_link c)) c (net st) = Some (c', nt, resp, ret)"
      using W c name cm by (cases "call_proc (call Y) (cmd_proc cm) (recv_data (conn_link c)) c (net st)") (auto simp: worker_proc_def Let_def)
    obtain l len r q where lw: "Link_write (writes Y) (Link_send (alloc Y) resp (conn_link c')) = (l, len, r, q)"
      by (cases "Link_write (writes Y) (Link_send (alloc Y) resp (conn_link c'))")
    define j where "j = ?j\<lparr>job_resp := resp, job_result := (if len < 0 then PROC_ERROR else ret)\<rparr>"
    have j: "job_link j = ?p" by (simp add: j_def)
    have s: "st' = set_pool n (?w\<lparr>working := take i (working ?w) @ drop (Suc i) (working ?w), results := results ?w @ [j]\<rparr>)
        (st\<lparr>net := nt, heap := (heap st)(?p \<mapsto> c'\<lparr>conn_link := l\<rparr>)\<rparr>)"
      using W c name cm cp lw by (simp add: worker_proc_def Let_def j_def)
    let ?u = "st\<lparr>net := nt, heap := (heap st)(?p \<mapsto> c'\<lparr>conn_link := l\<rparr>)\<rparr>"
    note fr = call_proc_frame [OF cp assms(2)]
    have u: "inv ?u Z" if "inv st Z" for Z using inv_update [OF that c, of "c'\<lparr>conn_link := l\<rparr>" nt] fr by simp
    have f: "fds ?u = fds st" using c fr by (auto simp: fds_def fun_eq_iff)
    have gp: "get_pool n ?u = ?w" by (cases n) (simp_all add: get_pool_def)
    have h: "held st' = held ?u" using held_worked [of i n ?u j] assms(3) j unfolding gp s by simp
    have hu: "held ?u = held st" by (simp add: held_def)
    show ?thesis
    proof (rule loop_inv_mono [OF assms(1)])
      show "inv st' Z" if "inv st Z" for Z
        by (rule inv_same [OF u [OF that]]) (use h in \<open>simp_all add: s loop_simps\<close>)
      show "loop_inv (st', Handed r rs)" if ph: "ph = Handed r rs" for r rs
      proof (rule handed_mono [of st])
        have ne: "r \<noteq> ?p" using other ph by blast
        have fm: "fds (mine r d st') = fds (mine r d st)" for d
          using c fr ne by (auto simp: fds_def mine_def s fun_eq_iff set_pool_def split: pool_name.split)
        show "loop_inv (st, Handed r rs)" using assms(1) ph by simp
        show "inv (mine r d st') Z" if "inv (mine r d st) Z" for d Z
          by (rule inv_same [OF that _ fm]) (use h hu fr in \<open>simp_all add: s loop_simps, simp_all add: mine_def specials_def loop_simps\<close>)
        show "fds (mine r d st) q = Some fd" if "fds (mine r d st') q = Some fd" for q fd d using that by (simp add: fm)
        show "heap st' r = None \<and> r \<notin> backend st' \<or> heap st' r = heap st r \<and> (r \<in> backend st') = (r \<in> backend st)"
          using ne by (simp add: s loop_simps)
      qed (simp_all add: s loop_simps, simp add: wat_def)
    qed (use h hu f in \<open>simp_all add: s loop_simps, simp_all add: wat_def\<close>)
  qed
  moreover have "worker_proc Y n i st \<noteq> Dangling"
    using c by (simp add: worker_proc_def Let_def split: option.split prod.split)
  ultimately show ?thesis by (cases "worker_proc Y n i st") auto
qed

lemma inv_backend:
  assumes "inv st X" and "p \<in> backend st"
  shows "inv (st\<lparr>heap := (heap st)(p := None), backend := backend st - {p}\<rparr>) X"
proof -
  let ?s = "st\<lparr>heap := (heap st)(p := None), backend := backend st - {p}\<rparr>"
  have f: "fds ?s = (fds st)(p := None)" by (auto simp: fds_def fun_eq_iff)
  show ?thesis
    using core_backend [of "fds st" "wat st" "tgt st" X "held st" "backend st" "link_count (net st)" "specials st" p] assms
    by (simp add: inv_def f) (simp add: wat_def tgt_def held_def specials_def)
qed

lemma backend_step:
  assumes "loop_inv (st, ph)" and "p \<in> backend st"
  shows "loop_inv (st\<lparr>heap := (heap st)(p := None), backend := backend st - {p}\<rparr>, ph)"
proof (rule loop_inv_mono [OF assms(1)])
  let ?s = "st\<lparr>heap := (heap st)(p := None), backend := backend st - {p}\<rparr>"
  have f: "fds ?s = (fds st)(p := None)" by (auto simp: fds_def fun_eq_iff)
  show "inv ?s X" if "inv st X" for X by (rule inv_backend [OF that assms(2)])
  show "fds ?s q = fds st q" if "q \<notin> backend st" for q using that assms(2) by (auto simp: f)
  show "fds st q = Some fd" if "fds ?s q = Some fd" for q fd using that by (simp add: f split: if_splits)
  show "loop_inv (?s, Handed r rs)" if ph: "ph = Handed r rs" for r rs
  proof (rule handed_mono [of st])
    show "loop_inv (st, Handed r rs)" using assms(1) ph by simp
    have m: "mine r d ?s = (if r = p then mine r d st else (mine r d st)\<lparr>heap := (heap (mine r d st))(p := None), backend := backend (mine r d st) - {p}\<rparr>)" for d
    proof -
      have "backend st - {p} - {r} = backend st - {r} - {p}" by blast
      then show ?thesis by (auto simp: mine_def fun_upd_twist)
    qed
    show "inv (mine r d ?s) X" if "inv (mine r d st) X" for d X
    proof (cases "r = p")
      case True
      then show ?thesis using that m by simp
    next
      case False
      then have "p \<in> backend (mine r d st)" using assms(2) by (simp add: mine_def)
      from inv_backend [OF that this] show ?thesis unfolding m using False by simp
    qed
    show "fds (mine r d st) q = Some fd" if "fds (mine r d ?s) q = Some fd" for q fd d
      using that by (auto simp: fds_def mine_def split: if_splits)
    show "heap ?s r = None \<and> r \<notin> backend ?s \<or> heap ?s r = heap st r \<and> (r \<in> backend ?s) = (r \<in> backend st)" by auto
  qed (simp_all add: wat_def)
qed (auto simp: wat_def held_def)

subsection \<open>Reachable states\<close>

lemma loop_inv_step:
  assumes "loop_step x y" and "loop_inv x"
  shows "loop_inv y"
  using assms
proof (cases rule: loop_step.cases)
  case (ls_take n st w ph)
  note h = take_step [OF ls_take(3)]
  have "loop_inv (set_pool n w st, ph)"
  proof (rule loop_inv_mono [of st])
    show "loop_inv (set_pool n w st, Handed p ps)" if "ph = Handed p ps" for p ps
    proof (rule handed_mono [of st])
      have m: "mine p c (set_pool n w st) = set_pool n w (mine p c st)" for c by (cases n) (simp_all add: mine_def set_pool_def)
      have hm: "held (set_pool n w (mine p c st)) = held (mine p c st)" for c
        using take_step [of n "mine p c st" w] ls_take(3) by (cases n) (simp_all add: get_pool_def mine_def)
      show "inv (mine p c (set_pool n w st)) X" if "inv (mine p c st) X" for c X
        unfolding m by (rule inv_same [OF that]) (simp_all add: loop_simps hm)
      show "fds (mine p c st) q = Some fd" if "fds (mine p c (set_pool n w st)) q = Some fd" for q fd c using that by (simp add: m loop_simps)
    qed (use assms(2) ls_take that in \<open>simp_all add: loop_simps\<close>)
  qed (use assms(2) ls_take h in \<open>auto simp: loop_simps intro!: inv_same [of st]\<close>)
  then show ?thesis using ls_take by simp
next
  case (ls_event Y a st e st' es)
  then show ?thesis using event_step [of st e es Y a] assms(2) by auto
next
  case (ls_ready Y p st st' ps)
  then show ?thesis using ready_step [of st p ps Y] assms(2) by auto
next
  case (ls_handed Y p st st' ps)
  then show ?thesis using ready_step [of st p ps Y] assms(2) by auto
next
  case (ls_after p st st' ps)
  then show ?thesis using after_step(2) [of st p ps st'] assms(2) by auto
next
  case (ls_work Y i n st st' ph)
  then show ?thesis using work_step [of st ph Y i n] assms(2) by auto
qed (use assms(2) wait_step backend_step in \<open>auto simp: no_in_def\<close>)

lemma start_inv:
  assumes "distinct [sfd, rfd, wfd]"
  shows "loop_inv (serve_start sfd rfd wfd nt, Top)"
proof -
  define z where "z = \<lparr>net = nt\<lparr>link_count := 0\<rparr>, heap = Map.empty, fdes = ep_new, writer = \<lparr>jobs = [], working = [], results = []\<rparr>,
        reader = \<lparr>jobs = [], working = [], results = []\<rparr>, ready_list = [], ready_list_2 = [], backend = {},
        serv_fd = sfd, reader_fd = rfd, writer_fd = wfd\<rparr>"
  let ?s = "serve_start sfd rfd wfd nt"
  have z: "ep_ok (fdes z)" "wat z = (\<lambda>_. {})" "fds z = Map.empty" "held z = {#}" "specials z = {sfd, rfd, wfd}"
    "backend z = {}" "link_count (net z) = 0" "ready_list_2 z = []"
    by (simp_all add: z_def ep_ok_def ep_new_def only_io_def watched_def wat_def fds_def held_def specials_def pool_links_def fun_eq_iff)
  have s: "?s = fd_set wfd FDEVENT_IN P_writer (fd_set rfd FDEVENT_IN P_reader (fd_set sfd FDEVENT_IN P_serv z))"
    by (simp add: serve_start_def z_def)
  have "ep_ok (fdes ?s)" by (simp add: s loop_simps z(1))
  moreover have "wat ?s = (\<lambda>fd. if fd \<in> {sfd, rfd, wfd} then {FDEVENT_IN} else {})"
    using assms by (auto simp: s loop_simps z(1,2) fun_eq_iff)
  moreover have "tgt ?s = (tgt z)(sfd \<mapsto> P_serv, rfd \<mapsto> P_reader, wfd \<mapsto> P_writer)"
    using assms by (auto simp: s loop_simps z(1,2) fun_eq_iff)
  moreover have "fds ?s = Map.empty" "held ?s = {#}" "specials ?s = {sfd, rfd, wfd}" "backend ?s = {}" "link_count (net ?s) = 0" "ready_list_2 ?s = []"
    by (simp_all add: s loop_simps z(3-))
  ultimately show ?thesis by (auto simp: inv_def no_in_def core_def split: if_splits)
qed

lemma loop_reach_inv: "loop_reach x y \<Longrightarrow> loop_inv x \<Longrightarrow> loop_inv y"
  by (induction rule: loop_reach.induct) (auto intro: loop_inv_step)

lemma start_tables:
  assumes "distinct [sfd, rfd, wfd]"
  shows "tgt (serve_start sfd rfd wfd nt) sfd = Some P_serv" "wat (serve_start sfd rfd wfd nt) sfd = {FDEVENT_IN}"
proof -
  have "ep_ok (ep_new :: ptr ep_fdes)" "watched (ep_table (ep_new :: ptr ep_fdes)) = (\<lambda>_. {})"
    by (simp_all add: ep_ok_def ep_new_def only_io_def watched_def fun_eq_iff)
  then show "tgt (serve_start sfd rfd wfd nt) sfd = Some P_serv" "wat (serve_start sfd rfd wfd nt) sfd = {FDEVENT_IN}"
    using assms by (simp_all add: serve_start_def loop_simps, simp_all add: wat_def tgt_def)
qed

text \<open>The links that the main thread has still to look at.\<close>

fun in_hand :: "loop \<Rightarrow> phase \<Rightarrow> nat multiset" where
  "in_hand st Top = mset (ready_list_2 st)"
| "in_hand st (Events es) = mset (ready_list st)"
| "in_hand st (Ready ps) = mset ps + mset (ready_list_2 st)"
| "in_hand st (Handed p ps) = mset ps + mset (ready_list_2 st)"

text \<open>The link that the main thread has just given to a backend and not taken off its tables yet.\<close>

fun just_handed :: "phase \<Rightarrow> nat set" where
  "just_handed (Handed p ps) = {p}"
| "just_handed _ = {}"

lemma fds_dom: "dom (fds st) = dom (heap st)"
  by (auto simp: fds_def)

lemma one_place:
  assumes "inv st X" and "heap st p = Some c"
  shows "count X p + count (held st) p + (if p \<in> backend st then 1 else 0) \<le> (1 :: nat) \<and>
    (p \<in># X \<or> p \<in># held st \<or> p \<in> backend st \<or> FDEVENT_IN \<in> wat st (conn_fd c)) \<and>
    (p \<in># held st \<or> p \<in> backend st \<longrightarrow> wat st (conn_fd c) = {}) \<and> (wat st (conn_fd c) \<noteq> {} \<longrightarrow> tgt st (conn_fd c) = Some (P_link p)) \<and>
    link_count (net st) = int (card (dom (heap st) - backend st))"
proof (intro conjI)
  have core: "core (fds st) (wat st) (tgt st) X (held st) (backend st) (link_count (net st)) (specials st)"
    using assms(1) by (simp add: inv_def)
  note D = coreD [OF core]
  have f: "fds st p = Some (conn_fd c)" using assms(2) by simp
  show "count X p + count (held st) p + (if p \<in> backend st then 1 else 0) \<le> (1 :: nat)"
    using D(5) [rule_format, of p] D(6,7) by (auto simp: not_in_iff)
  show "p \<in># X \<or> p \<in># held st \<or> p \<in> backend st \<or> FDEVENT_IN \<in> wat st (conn_fd c)"
    by (rule D(9) [rule_format, OF f])
  show "p \<in># held st \<or> p \<in> backend st \<longrightarrow> wat st (conn_fd c) = {}" "wat st (conn_fd c) \<noteq> {} \<longrightarrow> tgt st (conn_fd c) = Some (P_link p)"
    using inv_target [OF assms] by blast+
  show "link_count (net st) = int (card (dom (heap st) - backend st))" using D(1) by (simp add: fds_dom)
qed

lemma reach_loop_inv:
  "distinct [sfd, rfd, wfd] \<Longrightarrow> loop_reach (serve_start sfd rfd wfd nt, Top) (st, ph) \<Longrightarrow> loop_inv (st, ph)"
  using loop_reach_inv start_inv by blast

lemma reach_inv:
  assumes "distinct [sfd, rfd, wfd]" and "loop_reach (serve_start sfd rfd wfd nt, Top) (st, ph)" and "just_handed ph = {}"
  shows "inv st (in_hand st ph)"
  using reach_loop_inv [OF assms(1,2)] assms(3) by (cases ph) simp_all

text \<open>C16. In every state that the server can reach, with its threads in any order, a link is in one place only. It is at most once on
  the lists of the main thread, in the queues and the threads of the pools, or with a backend; when it is in none of
  them it is subscribed for reading, so that no link is forgotten. While a pool or a backend has it, the main thread gets no
  event for it; only a link that the main thread has just handed to a backend is still subscribed, until the main thread has
  gone on. \<open>link_count\<close> is the number of links that are not with a backend, and one more between the hand-over and the end of that round.\<close>

theorem every_link_in_one_place:
  assumes "distinct [sfd, rfd, wfd]" and "loop_reach (serve_start sfd rfd wfd nt, Top) (st, ph)" and "heap st p = Some c"
  shows "count (in_hand st ph) p + count (held st) p + (if p \<in> backend st then 1 else 0) \<le> (1 :: nat) \<and>
    (p \<in># in_hand st ph \<or> p \<in># held st \<or> p \<in> backend st \<or> FDEVENT_IN \<in> wat st (conn_fd c)) \<and>
    (p \<in># held st \<or> p \<in> backend st - just_handed ph \<longrightarrow> wat st (conn_fd c) = {}) \<and>
    (wat st (conn_fd c) \<noteq> {} \<longrightarrow> tgt st (conn_fd c) = Some (P_link p)) \<and>
    link_count (net st) = int (card (dom (heap st) - backend st) + card (just_handed ph))"
proof (cases "just_handed ph = {}")
  case True
  note I = reach_inv [OF assms(1,2) True]
  from one_place [OF I assms(3)] True show ?thesis by simp
next
  case False
  then obtain q qs where ph: "ph = Handed q qs" by (cases ph) simp_all
  then obtain d where d: "heap st q = None \<and> q \<notin> backend st \<or> heap st q = Some d \<and> q \<in> backend st"
    and I: "inv (mine q d st) (add_mset q (mset qs + mset (ready_list_2 st)))" using reach_loop_inv [OF assms(1,2)] by auto
  have p: "heap (mine q d st) p = Some c" using assms(3) d by (auto simp: mine_def)
  note O = one_place [OF I p]
  have "dom (heap (mine q d st)) - backend (mine q d st) = insert q (dom (heap st) - backend st)" using d by (auto simp: mine_def)
  moreover have "finite (dom (heap st) - backend st)" "q \<notin> dom (heap st) - backend st"
    using coreD(1) [OF I [unfolded inv_def, THEN conjunct2]] d by (auto simp: fds_dom mine_def intro: finite_subset)
  ultimately have n: "link_count (net st) = int (card (dom (heap st) - backend st) + card (just_handed ph))"
    using O by (simp add: ph loop_simps)
  have b: "p \<in> backend (mine q d st) \<longleftrightarrow> p \<in> backend st \<and> p \<noteq> q" by (auto simp: mine_def)
  have q: "q \<notin># mset qs + mset (ready_list_2 st)" "q \<notin># held st" using inv_cur [OF I] by (auto simp: loop_simps)
  have t: "wat st (conn_fd c) \<noteq> {} \<longrightarrow> tgt st (conn_fd c) = Some (P_link p)" using O by (simp add: loop_simps)
  show ?thesis
  proof (cases "p = q")
    case True
    then have "p \<in> backend st" using d assms(3) by auto
    moreover have "count (mset qs + mset (ready_list_2 st)) p = 0" "count (held st) p = 0" using q True by (simp_all only: not_in_iff)
    ultimately show ?thesis using n t True q by (simp add: ph)
  next
    case False
    then show ?thesis using O n b by (simp add: ph loop_simps)
  qed
qed

text \<open>Runs in which one descriptor is ready, and in which a client connects.\<close>

lemma run_wait:
  assumes "ep_ok (fdes st)" and "FDEVENT_IN \<in> wat st fd" and "tgt st fd = Some r"
  obtains f where "loop_step (st, Top) (st\<lparr>ready_list := ready_list_2 st, ready_list_2 := [], fdes := f\<rparr>, Events [(r, {FDEVENT_IN})])"
    and "ep_ok f" "watched (ep_table f) = watched (ep_table (fdes st))" "target (ep_table f) = target (ep_table (fdes st))"
proof -
  have i: "interest (fdes st) fd = Some (epoll_bits (wat st fd))" using assms(1,2) by (auto simp: ep_ok_def wat_def)
  obtain f fs where w: "ep_wait [(fd, {EPOLLIN})] (fdes st) = (f, fs)" by fastforce
  have ok: "wait_ok [(fd, {EPOLLIN})] st" using assms(2) by (simp add: wait_ok_def i epoll_bits_def)
  have len: "\<forall>(d, b) \<in> set [(fd, {EPOLLIN})]. d < length (ep_table (fdes st))"
    using assms(2) by (auto simp: wat_def watched_def split: if_splits)
  note fr = ep_wait_frame [OF w len]
  have "fd_events fs = [(r, {FDEVENT_IN})]" using fr(4) assms(3) by (auto simp: fd_events_def tgt_def map_eq_Cons_conv ready_flags_def)
  moreover have "ep_ok f" using assms(1) unfolding ep_ok_def fr(1,3) .
  ultimately show thesis using that [of f] ls_wait [OF ok w] fr(1,2) by simp
qed

lemma run_accept:
  assumes "distinct [sfd, rfd, wfd]" and "fd \<notin> {sfd, rfd, wfd}" and "check_pass (net_filter nt) ip"
  obtains st c where "loop_reach (serve_start sfd rfd wfd nt, Top) (st, Top)" and "heap st p = Some c" and "conn_fd c = fd"
    and "FDEVENT_IN \<in> wat st fd" and "conn_link c = Link_new\<lparr>link_noblock := True\<rparr>" and "net st = nt\<lparr>link_count := 1\<rparr>"
    and "ready_list_2 st = []" and "backend st = {}"
proof -
  let ?s = "serve_start sfd rfd wfd nt"
  have e: "ep_ok (fdes ?s)" using start_inv [OF assms(1), of nt] by (simp add: inv_def)
  obtain f where r1: "loop_step (?s, Top) (?s\<lparr>ready_list := ready_list_2 ?s, ready_list_2 := [], fdes := f\<rparr>, Events [(P_serv, {FDEVENT_IN})])" "ep_ok f"
    using run_wait [OF e, of sfd P_serv] start_tables [OF assms(1), of nt] by auto
  let ?t = "?s\<lparr>ready_list := ready_list_2 ?s, ready_list_2 := [], fdes := f\<rparr>"
  have h: "heap ?t = Map.empty" "net_filter (net ?t) = net_filter nt" "serv_fd ?t = sfd" "reader_fd ?t = rfd" "writer_fd ?t = wfd" "ready_list ?t = []"
    "ready_list_2 ?t = []" by (simp_all add: serve_start_def fd_set_def)
  let ?c = "\<lparr>conn_link = Link_new\<lparr>link_noblock := True\<rparr>, conn_fd = fd, remote_ip = ip\<rparr>"
  let ?u = "fd_set fd FDEVENT_IN (P_link p) (count_links 1 (?t\<lparr>heap := (heap ?t)(p \<mapsto> ?c)\<rparr>))"
  have u: "heap ?u p = Some ?c" "ready_list ?u = []" "FDEVENT_IN \<in> wat ?u fd" using r1(2) h(6) by (simp_all add: loop_simps)
  have "serve_event \<lparr>alloc = \<lambda>_. True, dbl = \<lambda>_. 0, en = 0, call = plain_env, reads = [], writes = [], threads = True\<rparr> (Some (p, fd, ip)) (P_serv, {FDEVENT_IN}) ?t = Next ?u"
    using assms(3) h(2) by (simp add: serve_event_def accept_link_def loop_simps)
  moreover have "accept_ok (Some (p, fd, ip)) ?t" using assms(2) h by (simp add: accept_ok_def)
  moreover have "other_ok plain_env" by (simp add: other_ok_def plain_env_def)
  ultimately have "loop_step (?t, Events [(P_serv, {FDEVENT_IN})]) (?u, Events [])" by (intro ls_event) auto
  then have "loop_reach (?s, Top) (?u, Events [])" by (rule lr_step [OF lr_step [OF lr_start r1(1)]])
  from lr_step [OF lr_step [OF this ls_events_end] , unfolded u(2), OF ls_ready_end]
  have "loop_reach (?s, Top) (?u, Top)" .
  moreover have "net ?u = nt\<lparr>link_count := 1\<rparr>" "ready_list_2 ?u = []" "backend ?u = {}"
    by (simp_all add: loop_simps serve_start_def fd_set_def count_links_def)
  ultimately show thesis by (intro that [OF _ u(1) _ u(3)]) simp_all
qed

theorem every_link_in_one_place_witness:
  "\<exists>st c. loop_reach (serve_start 3 4 5 (fresh_server []), Top) (st, Top) \<and> heap st 100 = Some c \<and> conn_fd c = 7 \<and>
    count (in_hand st Top) 100 + count (held st) 100 + (if 100 \<in> backend st then 1 else 0) \<le> (1 :: nat) \<and>
    tgt st 7 = Some (P_link 100) \<and> link_count (net st) = int (card (dom (heap st) - backend st))"
proof -
  obtain st c where r: "loop_reach (serve_start 3 4 5 (fresh_server []), Top) (st, Top)" "heap st 100 = Some c" "conn_fd c = 7" "FDEVENT_IN \<in> wat st 7"
    by (rule run_accept [of 3 4 5 7 "fresh_server []" "''10.0.0.1''" 100]) (simp_all add: fresh_server_def check_pass_def IpFilter_new_def check_hit_def)
  then have "wat st (conn_fd c) \<noteq> {}" by auto
  with every_link_in_one_place [OF _ r(1,2)] r show ?thesis by (intro exI [of _ st] exI [of _ c]) simp
qed



subsection \<open>The hand-over to a backend\<close>

text \<open>A client that sends bytes on a subscribed connection is the only ready link of the next round.\<close>

lemma run_bytes:
  assumes "distinct [sfd, rfd, wfd]" and "loop_reach (serve_start sfd rfd wfd nt, Top) (st, Top)" and "heap st p = Some c"
    and "FDEVENT_IN \<in> wat st (conn_fd c)" and "ready_list_2 st = []" and "\<not> link_error (conn_link c)"
    and "Link_read rs (conn_link c) = (l, len, rs')" and "0 < len"
  obtains st' where "loop_reach (serve_start sfd rfd wfd nt, Top) (st', Ready [p])" and "heap st' p = Some (c\<lparr>conn_link := l\<rparr>)" and "net st' = net st"
proof -
  have I: "inv st (in_hand st Top)" by (rule reach_inv [OF assms(1,2)]) simp
  have "tgt st (conn_fd c) = Some (P_link p)" using inv_target [OF I assms(3)] assms(4) by auto
  moreover have "ep_ok (fdes st)" using I by (simp add: inv_def)
  ultimately obtain f where r: "loop_step (st, Top) (st\<lparr>ready_list := ready_list_2 st, ready_list_2 := [], fdes := f\<rparr>, Events [(P_link p, {FDEVENT_IN})])"
    using run_wait [of st "conn_fd c" "P_link p"] assms(4) by blast
  let ?t = "st\<lparr>ready_list := ready_list_2 st, ready_list_2 := [], fdes := f\<rparr>"
  let ?Y = "\<lparr>alloc = \<lambda>_. True, dbl = \<lambda>_. 0, en = 0, call = plain_env, reads = rs, writes = [], threads = True\<rparr>"
  let ?u = "set_link p c l (push_ready False p ?t)"
  have "serve_event ?Y None (P_link p, {FDEVENT_IN}) ?t = Next ?u"
    using assms(3,6-8) by (simp add: serve_event_def proc_client_event_def client_in_def loop_simps)
  moreover have "other_ok (call ?Y)" by (simp add: other_ok_def plain_env_def)
  ultimately have "loop_step (?t, Events [(P_link p, {FDEVENT_IN})]) (?u, Events [])" by (intro ls_event) (auto simp: accept_ok_def)
  moreover have "ready_list ?u = [p]" using assms(5) by (simp add: loop_simps)
  ultimately have "loop_reach (serve_start sfd rfd wfd nt, Top) (?u, Ready [p])"
    using lr_step [OF lr_step [OF lr_step [OF assms(2) r]] ls_events_end] by metis
  then show thesis by (rule that) (simp_all add: loop_simps, simp add: set_link_def push_ready_def)
qed

text \<open>A new link that has read the request \<open>sync140\<close>.\<close>

definition sync_read :: link where
  "sync_read = fst (Link_read [Got (packet_image [''sync140''])] (Link_new\<lparr>link_noblock := True\<rparr>))"

lemma sync_read_facts:
  "\<exists>len rs. Link_read [Got (packet_image [''sync140''])] (Link_new\<lparr>link_noblock := True\<rparr>) = (sync_read, len, rs) \<and> 0 < len"
  "\<not> link_error sync_read" "buffer_inv (link_input sync_read)" "Buffer_data (link_input sync_read) = packet_image [''sync140''] @ []"
proof -
  let ?l = "Link_new\<lparr>link_noblock := True\<rparr>" let ?p = "packet_image [''sync140'']"
  let ?b = "link_input ?l"
  have p: "?p \<noteq> []" "length ?p = 11" by (code_simp+)
  have n: "Buffer_nice ?b = ?b" "buffer_inv ?b" "Buffer_data ?b = []" "Buffer_space ?b = 1024" "btotal ?b \<le> BEST_BUFFER_SIZE"
    by (simp_all add: Link_new_def Buffer_new_def INIT_BUFFER_SIZE_def BEST_BUFFER_SIZE_def Buffer_nice_def buffer_inv_def Buffer_data_def Buffer_space_def)
  have r: "Link_read [Got ?p] ?l = (?l\<lparr>link_input := Buffer_write ?p ?b\<rparr>, 11, [])"
    using p n by (simp add: Link_read_def Let_def)
  then have s: "sync_read = ?l\<lparr>link_input := Buffer_write ?p ?b\<rparr>" by (simp add: sync_read_def)
  from r show "\<exists>len rs. Link_read [Got ?p] ?l = (sync_read, len, rs) \<and> 0 < len" by (simp add: s)
  show "\<not> link_error sync_read" by (simp add: s Link_new_def)
  show "buffer_inv (link_input sync_read)" "Buffer_data (link_input sync_read) = ?p @ []"
    using Buffer_write_correct [OF n(2), of ?p] n(3,4) p(2) by (simp_all add: s)
qed

definition plain_sys :: "bool \<Rightarrow> sys" where
  "plain_sys th = \<lparr>alloc = \<lambda>_. True, dbl = \<lambda>_. 0, en = 0, call = plain_env, reads = [], writes = [], threads = th\<rparr>"

text \<open>It goes to a backend.\<close>

lemma sync_handed:
  assumes "heap st p = Some c" and "conn_link c = sync_read" and "procs (net st) = server_procs" and "\<not> need_auth (net st)"
  obtains u where "\<And>th. serve_ready (plain_sys th) p st = Next (backend_proc th p u, True)" and "heap u p \<noteq> None" and "backend u = backend st"
proof -
  let ?p = "packet_image [''sync140'']"
  have len: "length ?p = 11" by code_simp
  let ?l = "sync_read\<lparr>recv_data := [''sync140''], link_input := Buffer_decr (length ?p) (link_input sync_read)\<rparr>"
  have r: "Link_recv (\<lambda>_. True) (\<lambda>_. 0) 0 sync_read = (?l, 0, Recv [''sync140''])"
    by (rule Link_recv_packet [OF sync_read_facts(3,4)]) (simp_all add: len MAX_PACKET_SIZE_def)
  have "(''sync140'', ''b'', None) \<in> set reg_table" by (simp add: reg_table_def)
  from registered [OF this] obtain cm where
    cm: "get_proc server_procs ''sync140'' = Some cm" "cmd_proc cm = Serv_proc ''sync140''" "flags cm = {FLAG_BACKEND}" "serv_handler ''sync140'' = None"
    by (auto simp: flag_of_def)
  let ?c = "c\<lparr>conn_link := ?l\<rparr>"
  have n: "NetworkServer_proc (\<lambda>_. True) plain_env ?c (net st) = Some (?c, net st, [], Some cm, Result PROC_BACKEND)"
    using assms(3,4) cm by (simp add: NetworkServer_proc_def Let_def call_proc_def serv_proc_sync140_def Link_send_def)
  let ?u = "st\<lparr>net := net st, heap := (heap st)(p \<mapsto> ?c)\<rparr>"
  have "serve_ready (plain_sys th) p st = Next (backend_proc th p ?u, True)" for th
    using assms(1,2) sync_read_facts(2) r n by (simp add: serve_ready_def plain_sys_def PROC_BACKEND_def PROC_THREAD_def Let_def)
  then show thesis by (rule that) simp_all
qed

text \<open>C0. The round that hands a link to a backend can use it after it was deleted, in two ways, both for a client that sends
  nothing but \<open>sync140\<close>: when no thread can be had, \<open>BackendSync::proc\<close> deletes the link and the main thread then reads its descriptor;
  and when the thread is there, it may end (the client has closed the connection) and delete the link before the main thread reads it.\<close>

theorem handover_uses_freed_link:
  "(\<exists>st u. loop_reach (serve_start 3 4 5 (fresh_server []), Top) (st, Ready [100]) \<and>
      serve_ready (plain_sys False) 100 st = Next (u, True) \<and> after_backend 100 u = Dangling) \<and>
   (\<exists>v w. loop_reach (serve_start 3 4 5 (fresh_server []), Top) (v, Handed 100 []) \<and> after_backend 100 v \<noteq> Dangling \<and>
      loop_step (v, Handed 100 []) (w, Handed 100 []) \<and> after_backend 100 w = Dangling)"
proof -
  let ?s = "serve_start 3 4 5 (fresh_server [])"
  obtain st0 c0 where a: "loop_reach (?s, Top) (st0, Top)" "heap st0 100 = Some c0" "conn_fd c0 = 7" "FDEVENT_IN \<in> wat st0 7"
      "conn_link c0 = Link_new\<lparr>link_noblock := True\<rparr>" "net st0 = (fresh_server [])\<lparr>link_count := 1\<rparr>" "ready_list_2 st0 = []" "backend st0 = {}"
    by (rule run_accept [of 3 4 5 7 "fresh_server []" "''10.0.0.1''" 100]) (simp_all add: fresh_server_def check_pass_def IpFilter_new_def check_hit_def)
  obtain len rs where l: "Link_read [Got (packet_image [''sync140''])] (conn_link c0) = (sync_read, len, rs)" "0 < len"
    using sync_read_facts(1) a(5) by auto
  have e: "\<not> link_error (conn_link c0)" by (simp add: a(5) Link_new_def)
  obtain st where b: "loop_reach (?s, Top) (st, Ready [100])" "heap st 100 = Some (c0\<lparr>conn_link := sync_read\<rparr>)" "net st = net st0"
    using run_bytes [OF _ a(1,2) _ a(7) e l] a(3,4) by auto
  obtain u where u: "\<And>th. serve_ready (plain_sys th) 100 st = Next (backend_proc th 100 u, True)" "heap u 100 \<noteq> None" "backend u = backend st"
    by (rule sync_handed [OF b(2)]) (simp_all add: b(3) a(6) fresh_server_def)
  have "after_backend 100 (backend_proc False 100 u) = Dangling" by (simp add: after_backend_def backend_proc_def)
  moreover have "other_ok (call (plain_sys True))" by (simp add: plain_sys_def other_ok_def plain_env_def)
  from lr_step [OF b(1) ls_handed [OF this u(1)]] have "loop_reach (?s, Top) (backend_proc True 100 u, Handed 100 [])" .
  moreover have "after_backend 100 (backend_proc True 100 u) \<noteq> Dangling" using u(2) by (auto simp: after_backend_def backend_proc_def)
  moreover have "100 \<in> backend (backend_proc True 100 u)" by (simp add: backend_proc_def)
  note ls_backend [OF this, of "Handed 100 []"]
  moreover have "after_backend 100 ((backend_proc True 100 u)\<lparr>heap := (heap (backend_proc True 100 u))(100 := None), backend := backend (backend_proc True 100 u) - {100}\<rparr>) = Dangling"
    by (simp add: after_backend_def)
  ultimately show ?thesis using b(1) u(1) by blast
qed

end
