(* ===== verification/Configuration.thy ===== *)
theory Configuration
  imports Bytes
begin

section \<open>The configuration file (\<open>util/config.cpp\<close>, \<open>ssdb/options.cpp\<close>)\<close>

text \<open>
  A configuration is a tree of keys with values. In a file each line is an entry, and tabs at its start tell whose child it
  is. A pointer to an entry is the path of indices that leads to it; the root is the empty path. Strings of the
  tree are made from C strings and so have no NUL. A line buffer has 4096 bytes.
\<close>

datatype config = Config (conf_key: bytes) (conf_val: bytes) (conf_children: "config list")

abbreviation tab :: char where "tab \<equiv> CHR 0x09"
abbreviation newline :: char where "newline \<equiv> CHR 0x0A"

definition CONFIG_MAX_LINE :: nat where "CONFIG_MAX_LINE = 4096"

fun upd_at :: "nat list \<Rightarrow> (config \<Rightarrow> config) \<Rightarrow> config \<Rightarrow> config" where
  "upd_at [] f c = f c"
| "upd_at (i # p) f c = Config (conf_key c) (conf_val c) ((conf_children c)[i := upd_at p f (conf_children c ! i)])"

fun node_at :: "nat list \<Rightarrow> config \<Rightarrow> config" where
  "node_at [] c = c"
| "node_at (i # p) c = node_at p (conf_children c ! i)"

definition add_child :: "nat list \<Rightarrow> bytes \<Rightarrow> bytes \<Rightarrow> config \<Rightarrow> config \<times> nat list" where
  "add_child p key val t =
     (upd_at p (\<lambda>c. Config (conf_key c) (conf_val c) (conf_children c @ [Config (c_str key) (c_str val) []])) t,
      p @ [length (conf_children (node_at p t))])"

definition is_comment :: "config \<Rightarrow> bool" where
  "is_comment c \<longleftrightarrow> conf_key c \<noteq> [] \<and> hd (conf_key c) = CHR ''#''"

subsection \<open>Loading\<close>

definition is_kv_seperator :: "char \<Rightarrow> bool" where
  "is_kv_seperator ch \<longleftrightarrow> ch = CHR ''='' \<or> ch = CHR '':''"

text \<open>\<open>fgets\<close> with a buffer of \<open>n\<close> bytes, on what is left of the file.\<close>

definition fgets :: "nat \<Rightarrow> bytes \<Rightarrow> (bytes \<times> bytes) option" where
  "fgets n f =
     (if f = [] then None
      else let k = length (takeWhile (\<lambda>c. c \<noteq> newline) f); m = min (n - 1) (if k < length f then k + 1 else k)
           in Some (take m f, drop m f))"

lemma fgets_less: "fgets n f = Some (l, r) \<Longrightarrow> 1 < n \<Longrightarrow> length r < length f"
  using length_takeWhile_le [of "\<lambda>c. c \<noteq> newline" f]
  by (cases f) (auto simp: fgets_def Let_def min_def split: if_splits)

text \<open>Errors: the file cannot be read, a line is refused, or the line starts with NUL, which makes \<open>load\<close> write before its
  buffer.\<close>

datatype conf_error = Unreadable | Invalid_line | Stray_write

primrec up :: "nat \<Rightarrow> nat list \<Rightarrow> nat list" where
  "up 0 p = p"
| "up (Suc n) p = up n (if p \<noteq> [] then butlast p else p)"

text \<open>The body of the loop: the tree, the pointer \<open>cfg\<close> and \<open>last_indent\<close>.\<close>

definition load_line :: "bytes \<Rightarrow> config \<times> nat list \<times> nat \<Rightarrow> conf_error + (config \<times> nat list \<times> nat)" where
  "load_line line st =
     (case st of (t, cfg, last_indent) \<Rightarrow>
        if c_str line = [] then Inl Stray_write
        else let buf = butlast (c_str line)
             in if is_empty_str buf then Inr st
                else let indent = length (takeWhile (\<lambda>c. c = tab) buf); key = drop indent buf
                     in if hd key = CHR ''#'' then Inr (fst (add_child cfg ''#'' (tl key) t), cfg, last_indent)
                        else if indent > last_indent + 1 then Inl Invalid_line
                        else let cfg = (if indent \<le> last_indent then up (last_indent - indent + 1) cfg else cfg)
                             in if isspace (hd key) then Inl Invalid_line
                                else let val = dropWhile (\<lambda>c. \<not> is_kv_seperator c) key
                                     in if val = [] then Inl Invalid_line
                                        else let key = trim (takeWhile (\<lambda>c. \<not> is_kv_seperator c) key); val = trim (tl val);
                                                 (t, cfg) = add_child cfg key val t
                                             in Inr (t, cfg, indent))"

function load_loop :: "bytes \<Rightarrow> config \<times> nat list \<times> nat \<Rightarrow> conf_error + config" where
  "load_loop f st =
     (case fgets CONFIG_MAX_LINE f of
        None \<Rightarrow> Inr (fst st)
      | Some (line, f) \<Rightarrow> (case load_line line st of Inl e \<Rightarrow> Inl e | Inr st \<Rightarrow> load_loop f st))"
  by pat_completeness auto

termination
  by (relation "measure (\<lambda>(f, st). length f)") (auto dest!: fgets_less simp: CONFIG_MAX_LINE_def)

declare load_loop.simps [simp del]

text \<open>\<open>load\<close> on the contents of the file, or \<open>None\<close> when it cannot be opened or a read fails.\<close>

definition conf_load :: "bytes option \<Rightarrow> conf_error + config" where
  "conf_load file =
     (case file of
        None \<Rightarrow> Inl Unreadable
      | Some f \<Rightarrow> load_loop f (Config ''root'' [] [], [], 0))"

subsection \<open>Saving\<close>

definition conf_line :: "nat \<Rightarrow> config \<Rightarrow> bytes" where
  "conf_line depth c = replicate depth tab @
     (if is_comment c then ''#'' @ c_str (conf_val c) else c_str (conf_key c) @ '': '' @ c_str (conf_val c)) @ [newline]"

fun conf_save :: "nat \<Rightarrow> config \<Rightarrow> bytes" where
  "conf_save depth (Config k v cs) = concat (map (\<lambda>c. conf_line depth c @ conf_save (depth + 1) c) cs)"

subsection \<open>Looking up and setting\<close>

text \<open>The parts of a key path between dots and slashes.\<close>

fun key_fields :: "bytes \<Rightarrow> bytes list" where
  "key_fields [] = [[]]"
| "key_fields (c # s) = (if c = CHR ''.'' \<or> c = CHR ''/'' then [] # key_fields s
     else case key_fields s of f # fs \<Rightarrow> (c # f) # fs | [] \<Rightarrow> [[c]])"

definition path_of :: "bytes \<Rightarrow> bytes list" where
  "path_of key = key_fields (take (CONFIG_MAX_LINE - 1) (c_str key))"

text \<open>\<open>find_child\<close>: the last child with the key; its index.\<close>

fun find_index :: "bytes \<Rightarrow> config list \<Rightarrow> nat option" where
  "find_index key [] = None"
| "find_index key (c # cs) = (case find_index key cs of Some i \<Rightarrow> Some (Suc i) | None \<Rightarrow> if conf_key c = key then Some 0 else None)"

definition find_child :: "bytes \<Rightarrow> config \<Rightarrow> config option" where
  "find_child key c = (case find_index key (conf_children c) of None \<Rightarrow> None | Some i \<Rightarrow> Some (conf_children c ! i))"

primrec get_path :: "bytes list \<Rightarrow> config \<Rightarrow> config option" where
  "get_path [] c = Some c"
| "get_path (f # fs) c = (case find_child f c of None \<Rightarrow> None | Some d \<Rightarrow> get_path fs d)"

definition conf_get :: "bytes \<Rightarrow> config \<Rightarrow> config option" where
  "conf_get key c = get_path (path_of key) c"

definition conf_num :: "config \<Rightarrow> int" where "conf_num c = atoi (conf_val c)"

definition get_num :: "bytes \<Rightarrow> config \<Rightarrow> int" where
  "get_num key c = (case conf_get key c of None \<Rightarrow> 0 | Some d \<Rightarrow> conf_num d)"

definition get_int64 :: "nat \<Rightarrow> bytes \<Rightarrow> config \<Rightarrow> int \<times> nat" where
  "get_int64 e key c = (case conf_get key c of None \<Rightarrow> (0, e) | Some d \<Rightarrow> str_to_int64 e (conf_val d))"

definition get_str :: "bytes \<Rightarrow> config \<Rightarrow> bytes" where
  "get_str key c = (case conf_get key c of None \<Rightarrow> [] | Some d \<Rightarrow> conf_val d)"

text \<open>\<open>build_key_path\<close> and the assignment of \<open>set\<close>: missing entries are added at the end.\<close>

definition child_path :: "bytes \<Rightarrow> nat list \<Rightarrow> config \<Rightarrow> config \<times> nat list" where
  "child_path f p t =
     (case find_index f (conf_children (node_at p t)) of
        Some i \<Rightarrow> (t, p @ [i])
      | None \<Rightarrow> add_child p f [] t)"

definition build_key_path :: "bytes \<Rightarrow> config \<Rightarrow> config \<times> nat list" where
  "build_key_path key t = fold (\<lambda>f (t, p). child_path f p t) (path_of key) (t, [])"

definition conf_set :: "bytes \<Rightarrow> bytes \<Rightarrow> config \<Rightarrow> config" where
  "conf_set key val t =
     (case build_key_path key t of (t, p) \<Rightarrow> upd_at p (\<lambda>c. Config (conf_key c) (c_str val) (conf_children c)) t)"

subsection \<open>Options\<close>

record options =
  cache_size :: u64
  max_open_files :: u64
  write_buffer_size :: u64
  block_size :: u64
  compaction_speed :: int
  compression :: bytes
  opt_binlog :: bool
  binlog_capacity :: u64

definition LOG_QUEUE_SIZE :: "bool \<Rightarrow> u64" where
  "LOG_QUEUE_SIZE ndebug = (if ndebug then 20 * 1000 * 1000 else 10000)"

text \<open>\<open>Options::load\<close>. The numbers are cast to \<open>size_t\<close>, so that \<open>\<le> 0\<close> is a test for zero.\<close>

definition Options_load :: "bool \<Rightarrow> config \<Rightarrow> options" where
  "Options_load ndebug conf =
     (let num = (\<lambda>k. word_of_int (get_num k conf) :: u64);
          cache_size = num ''leveldb.cache_size'';
          max_open_files = num ''leveldb.max_open_files'';
          write_buffer_size = num ''leveldb.write_buffer_size'';
          block_size = num ''leveldb.block_size'';
          compaction_speed = get_num ''leveldb.compaction_speed'' conf;
          compression = get_str ''leveldb.compression'' conf;
          binlog = get_str ''replication.binlog'' conf;
          binlog_capacity = num ''replication.binlog.capacity'';
          compression = strtolower compression;
          compression = (if compression \<noteq> ''no'' then ''yes'' else compression);
          binlog = (strtolower binlog = ''yes'');
          binlog_capacity = (if binlog_capacity \<le> 0 then LOG_QUEUE_SIZE ndebug else binlog_capacity);
          cache_size = (if cache_size \<le> 0 then 16 else cache_size);
          write_buffer_size = (if write_buffer_size \<le> 0 then 16 else write_buffer_size);
          block_size = (if block_size \<le> 0 then 16 else block_size);
          max_open_files = (if max_open_files \<le> 0
            then let m = cache_size div 1024 * 300; m = (if m < 500 then 500 else m) in if m > 1000 then 1000 else m
            else max_open_files)
      in \<lparr>cache_size = cache_size, max_open_files = max_open_files, write_buffer_size = write_buffer_size, block_size = block_size,
          compaction_speed = compaction_speed, compression = compression, opt_binlog = binlog, binlog_capacity = binlog_capacity\<rparr>)"

subsection \<open>Paths\<close>

fun valid :: "nat list \<Rightarrow> config \<Rightarrow> bool" where
  "valid [] c = True"
| "valid (i # p) c = (i < length (conf_children c) \<and> valid p (conf_children c ! i))"

lemma node_upd [simp]: "valid p t \<Longrightarrow> node_at p (upd_at p f t) = f (node_at p t)"
  by (induction p t rule: node_at.induct) auto

lemma valid_upd: "valid p t \<Longrightarrow> valid p (upd_at p f t)"
  by (induction p t rule: node_at.induct) auto

lemma upd_upd [simp]: "valid p t \<Longrightarrow> upd_at p f (upd_at p g t) = upd_at p (\<lambda>c. f (g c)) t"
  by (induction p t rule: node_at.induct) auto

lemma upd_cong: "valid p t \<Longrightarrow> f (node_at p t) = g (node_at p t) \<Longrightarrow> upd_at p f t = upd_at p g t"
  by (induction p t rule: node_at.induct) auto

lemma upd_append: "upd_at (p @ q) f t = upd_at p (upd_at q f) t"
  by (induction p arbitrary: t) auto

lemma node_append: "node_at (p @ q) t = node_at q (node_at p t)"
  by (induction p arbitrary: t) auto

lemma valid_append: "valid (p @ q) t \<longleftrightarrow> valid p t \<and> valid q (node_at p t)"
  by (induction p arbitrary: t) auto

lemma up_take: "up n p = take (length p - n) p"
  by (induction n arbitrary: p) (auto simp: butlast_conv_take)

subsection \<open>Round trip\<close>

text \<open>
  What a line can hold. A text has no NUL and no line end; the key of an entry also has no separator, does not look like a
  comment, and key and value have no white space at their ends. In a tree that can be written down, comments come before the
  other children of an entry and have no children themselves; every line fits in the buffer.
\<close>

definition text_ok :: "bytes \<Rightarrow> bool" where
  "text_ok s \<longleftrightarrow> CHR 0x00 \<notin> set s \<and> newline \<notin> set s"

definition trimmed :: "bytes \<Rightarrow> bool" where
  "trimmed s \<longleftrightarrow> s = [] \<or> \<not> isspace (hd s) \<and> \<not> isspace (last s)"

definition entry_ok :: "config \<Rightarrow> bool" where
  "entry_ok c \<longleftrightarrow> (if is_comment c then conf_key c = ''#'' \<and> text_ok (conf_val c) \<and> conf_children c = []
     else text_ok (conf_key c) \<and> trimmed (conf_key c) \<and> (\<forall>x \<in> set (conf_key c). \<not> is_kv_seperator x) \<and> text_ok (conf_val c) \<and> trimmed (conf_val c))"

fun writable :: "config \<Rightarrow> bool" where
  "writable (Config k v cs) \<longleftrightarrow> sorted_wrt (\<lambda>a b. is_comment b \<longrightarrow> is_comment a) cs \<and> (\<forall>c \<in> set cs. entry_ok c \<and> writable c)"

fun lines_fit :: "nat \<Rightarrow> config \<Rightarrow> bool" where
  "lines_fit d (Config k v cs) \<longleftrightarrow> (\<forall>c \<in> set cs. length (conf_line d c) < CONFIG_MAX_LINE \<and> lines_fit (d + 1) c)"

fun conf_lines :: "nat \<Rightarrow> config \<Rightarrow> bytes list" where
  "conf_lines depth (Config k v cs) = concat (map (\<lambda>c. conf_line depth c # conf_lines (depth + 1) c) cs)"

primrec load_lines :: "bytes list \<Rightarrow> config \<times> nat list \<times> nat \<Rightarrow> conf_error + (config \<times> nat list \<times> nat)" where
  "load_lines [] st = Inr st"
| "load_lines (l # ls) st = (case load_line l st of Inl e \<Rightarrow> Inl e | Inr st \<Rightarrow> load_lines ls st)"

lemma load_lines_append: "load_lines (ls @ ls') st = (case load_lines ls st of Inl e \<Rightarrow> Inl e | Inr st \<Rightarrow> load_lines ls' st)"
  by (induction ls arbitrary: st) (auto split: sum.splits)

lemma concat_lines: "concat (conf_lines d c) = conf_save d c"
proof (induction d c rule: conf_lines.induct)
  case (1 d k v cs)
  then show ?case by (induction cs) auto
qed

lemma fgets_line:
  assumes "newline \<notin> set l" and "length l + 1 < n"
  shows "fgets n (l @ newline # f) = Some (l @ [newline], f)"
proof -
  have "takeWhile (\<lambda>c. c \<noteq> newline) (l @ newline # f) = l" using assms(1) by (induction l) auto
  moreover have "min (n - 1) (length l + 1) = length l + 1" using assms(2) by simp
  ultimately show ?thesis by (simp add: fgets_def Let_def)
qed

lemma load_loop_lines:
  assumes "\<forall>l \<in> set ls. \<exists>x. l = x @ [newline] \<and> newline \<notin> set x \<and> length l < CONFIG_MAX_LINE"
  shows "load_loop (concat ls) st = (case load_lines ls st of Inl e \<Rightarrow> Inl e | Inr st \<Rightarrow> Inr (fst st))"
  using assms
proof (induction ls arbitrary: st)
  case Nil
  then show ?case by (subst load_loop.simps) (simp add: fgets_def)
next
  case (Cons l ls)
  then obtain x where x: "l = x @ [newline]" "newline \<notin> set x" "length l < CONFIG_MAX_LINE" by auto
  then have "fgets CONFIG_MAX_LINE (concat (l # ls)) = Some (l, concat ls)" using fgets_line [of x CONFIG_MAX_LINE "concat ls"] by simp
  then show ?case using Cons.IH Cons.prems by (subst load_loop.simps) (auto split: sum.split)
qed

text \<open>One line of a written tree. The pointer is below the entry at the path \<open>p\<close>, or still at the root.\<close>

definition below :: "nat list \<Rightarrow> nat list \<times> nat \<Rightarrow> bool" where
  "below p = (\<lambda>(q, li). take (length p) q = p \<and> (length q = li + 1 \<or> q = [] \<and> li = 0))"

lemma below_child:
  assumes "below (p @ [n]) (q, l)"
  shows "below p (q, l)"
proof -
  have t: "take (Suc (length p)) q = p @ [n]" using assms by (simp add: below_def)
  have "take (length p) q = take (length p) (take (Suc (length p)) q)" by (simp add: min_def)
  also have "\<dots> = p" unfolding t by simp
  finally show ?thesis using assms by (auto simp: below_def)
qed

lemma c_str_text: "CHR 0x00 \<notin> set s \<Longrightarrow> c_str s = s"
  unfolding c_str_def by (induction s) auto

lemma text_c_str: "CHR 0x00 \<notin> set (c_str s)" "set (c_str s) \<subseteq> set s"
  unfolding c_str_def by (auto dest: set_takeWhileD)

lemma rev_dropWhile_all: "s \<noteq> [] \<Longrightarrow> \<not> P (last s) \<Longrightarrow> rev (dropWhile P (rev s)) = s"
  by (cases s rule: rev_cases) auto

lemma trim_trimmed:
  assumes "text_ok s" and "trimmed s"
  shows "trim s = s" "trim (CHR '' '' # s) = s"
proof -
  have c: "c_str s = s" "c_str (CHR '' '' # s) = CHR '' '' # s" using assms(1) by (auto simp: text_ok_def c_str_text)
  have l: "dropWhile isspace s = s" using assms(2) by (cases s) (simp_all add: trimmed_def)
  have r: "rev (dropWhile isspace (rev s)) = s" using assms(2) rev_dropWhile_all [of s isspace] by (cases "s = []") (simp_all add: trimmed_def)
  show "trim s = s" by (simp add: trim_def ltrim_def rtrim_def c l r)
  show "trim (CHR '' '' # s) = s" by (simp add: trim_def ltrim_def rtrim_def c l r) (simp add: isspace_def)
qed

lemma trim_Nil: "trim [] = []"
  by (simp add: trim_def ltrim_def rtrim_def c_str_def)

lemma takeWhile_tabs:
  assumes "s = [] \<or> hd s \<noteq> tab"
  shows "takeWhile (\<lambda>c. c = tab) (replicate d tab @ s) = replicate d tab"
  using assms by (induction d) (cases s, auto)

lemma not_empty_line: "\<not> isspace x \<Longrightarrow> x \<in> set s \<Longrightarrow> CHR 0x00 \<notin> set s \<Longrightarrow> \<not> is_empty_str s"
  by (auto simp: is_empty_str_def c_str_text)

lemma comment_line:
  assumes "is_comment c" and "entry_ok c"
  shows "load_line (conf_line d c) (t, q, li) = Inr (fst (add_child q ''#'' (conf_val c) t), q, li)"
proof -
  have v: "CHR 0x00 \<notin> set (conf_val c)" using assms by (simp add: entry_ok_def text_ok_def)
  have b: "c_str (conf_line d c) = (replicate d tab @ CHR ''#'' # conf_val c) @ [newline]"
    using assms(1) v by (subst c_str_text) (auto simp: conf_line_def c_str_text)
  have i: "takeWhile (\<lambda>c. c = tab) (replicate d tab @ CHR ''#'' # conf_val c) = replicate d tab" by (rule takeWhile_tabs) simp
  have "\<not> is_empty_str (replicate d tab @ CHR ''#'' # conf_val c)" by (rule not_empty_line [of "CHR ''#''"]) (use v in \<open>auto simp: isspace_def\<close>)
  then show ?thesis by (simp add: load_line_def b butlast_append i Let_def)
qed

lemma key_line:
  assumes "text_ok k" and "trimmed k" and "\<forall>x \<in> set k. \<not> is_kv_seperator x"
  shows "takeWhile (\<lambda>c. \<not> is_kv_seperator c) (k @ CHR '':'' # v) = k" "dropWhile (\<lambda>c. \<not> is_kv_seperator c) (k @ CHR '':'' # v) = CHR '':'' # v"
    "\<not> isspace (hd (k @ CHR '':'' # v))"
proof -
  show "takeWhile (\<lambda>c. \<not> is_kv_seperator c) (k @ CHR '':'' # v) = k" "dropWhile (\<lambda>c. \<not> is_kv_seperator c) (k @ CHR '':'' # v) = CHR '':'' # v"
    using assms(3) by (simp_all add: takeWhile_append dropWhile_append is_kv_seperator_def)
  show "\<not> isspace (hd (k @ CHR '':'' # v))" using assms(2) by (cases k) (auto simp: trimmed_def isspace_def)
qed

lemma item_line:
  assumes "\<not> is_comment c" and "entry_ok c" and "below p (q, li)"
  shows "load_line (conf_line (length p) c) (t, q, li) =
    Inr (fst (add_child p (conf_key c) (conf_val c) t), p @ [length (conf_children (node_at p t))], length p)"
proof -
  let ?k = "conf_key c" and ?v = "conf_val c" and ?d = "length p"
  have e: "text_ok ?k" "trimmed ?k" "\<forall>x \<in> set ?k. \<not> is_kv_seperator x" "text_ok ?v" "trimmed ?v" using assms(1,2) by (simp_all add: entry_ok_def)
  let ?s = "?k @ CHR '':'' # CHR '' '' # ?v"
  note key = key_line [OF e(1-3), of "CHR '' '' # ?v"]
  have nul: "CHR 0x00 \<notin> set ?s" using e(1,4) by (auto simp: text_ok_def)
  have b: "c_str (conf_line ?d c) = (replicate ?d tab @ ?s) @ [newline]"
    using assms(1) e(1,4) by (subst c_str_text) (auto simp: conf_line_def c_str_text text_ok_def)
  have i: "takeWhile (\<lambda>c. c = tab) (replicate ?d tab @ ?s) = replicate ?d tab"
    by (rule takeWhile_tabs) (use key(3) in \<open>auto simp: isspace_def\<close>)
  have ne: "\<not> is_empty_str (replicate ?d tab @ ?s)" by (rule not_empty_line [of "CHR '':''"]) (use nul in \<open>auto simp: isspace_def\<close>)
  have h: "hd ?s \<noteq> CHR ''#''" using assms(1) by (cases ?k) (auto simp: is_comment_def)
  have "length (take ?d q) = ?d" using assms(3) by (simp add: below_def)
  then have le: "?d \<le> li + 1" using assms(3) by (auto simp: below_def)
  have cfg: "(if ?d \<le> li then up (li - ?d + 1) q else q) = p"
    using assms(3) le by (auto simp: below_def up_take)
  show ?thesis using le
    by (simp add: load_line_def b butlast_append i ne h key Let_def cfg trim_trimmed [OF e(1,2)] trim_trimmed [OF e(4,5)] add_child_def)
qed

text \<open>The lines of a subtree, when the pointer is at its root.\<close>

lemma comments_lines:
  assumes "\<forall>c \<in> set cs. is_comment c \<and> entry_ok c" and "valid p t"
  shows "load_lines (concat (map (\<lambda>c. conf_line d c # conf_lines (d + 1) c) cs)) (upd_at p (\<lambda>_. Config k v cs0) t, p, li) =
    Inr (upd_at p (\<lambda>_. Config k v (cs0 @ cs)) t, p, li)"
  using assms(1)
proof (induction cs arbitrary: cs0)
  case (Cons c cs)
  obtain x where c: "c = Config ''#'' x []" "text_ok x" using Cons.prems by (cases c) (auto simp: entry_ok_def)
  have "fst (add_child p ''#'' (conf_val c) (upd_at p (\<lambda>_. Config k v cs0) t)) = upd_at p (\<lambda>_. Config k v (cs0 @ [c])) t"
    using assms(2) c by (simp add: add_child_def c_str_text text_ok_def)
  then show ?case using Cons comment_line [of c d] c by simp
qed simp

lemma subtree_lines:
  assumes "writable (Config k v cs)" and "valid p t" and "length p = d" and "length p = li + 1 \<or> p = [] \<and> li = 0"
  shows "\<exists>q l. load_lines (conf_lines d (Config k v cs)) (upd_at p (\<lambda>_. Config k v []) t, p, li) =
    Inr (upd_at p (\<lambda>_. Config k v cs) t, q, l) \<and> below p (q, l)"
  using assms
proof (induction "Config k v cs" arbitrary: k v cs p t d li rule: measure_induct_rule [where f = size])
  case less
  let ?L = "\<lambda>cs. concat (map (\<lambda>c. conf_line d c # conf_lines (d + 1) c) cs)"
  define cm where "cm = takeWhile is_comment cs"
  define it where "it = dropWhile is_comment cs"
  have cs: "cs = cm @ it" by (simp add: cm_def it_def)
  have ok: "\<forall>c \<in> set cs. entry_ok c \<and> writable c" and srt: "sorted_wrt (\<lambda>a b. is_comment b \<longrightarrow> is_comment a) cs" using less.prems(1) by auto
  have cmt: "\<forall>c \<in> set cm. is_comment c \<and> entry_ok c" using ok by (auto simp: cm_def dest: set_takeWhileD)
  have itm: "\<forall>c \<in> set it. \<not> is_comment c"
  proof (cases it)
    case (Cons x xs)
    then have "\<not> is_comment x" using hd_dropWhile [of is_comment cs] by (simp add: it_def)
    moreover have "sorted_wrt (\<lambda>a b. is_comment b \<longrightarrow> is_comment a) it" using srt unfolding cs by (simp add: sorted_wrt_append)
    ultimately show ?thesis using Cons by auto
  qed simp
  have items: "\<exists>q l. load_lines (?L xs) (upd_at p (\<lambda>_. Config k v ys) t, q0, l0) = Inr (upd_at p (\<lambda>_. Config k v (ys @ xs)) t, q, l) \<and> below p (q, l)"
    if "set xs \<subseteq> set it" "below p (q0, l0)" for xs ys q0 l0
    using that
  proof (induction xs arbitrary: ys q0 l0)
    case (Cons c xs)
    obtain k' v' cs' where c: "c = Config k' v' cs'" by (cases c)
    have c_ok: "entry_ok c" "writable c" "\<not> is_comment c" "c \<in> set cs" using Cons.prems(1) ok itm cs by auto
    let ?n = "length ys" and ?T = "upd_at p (\<lambda>_. Config k v (ys @ [c])) t"
    have vp: "valid (p @ [?n]) ?T" using less.prems(2) by (simp add: valid_append valid_upd)
    have e: "upd_at (p @ [?n]) (\<lambda>_. z) ?T = upd_at p (\<lambda>_. Config k v (ys @ [z])) t" for z
      using less.prems(2) by (simp add: upd_append)
    have "text_ok k'" "text_ok v'" using c_ok(1,3) c by (auto simp: entry_ok_def)
    then have "load_line (conf_line d c) (upd_at p (\<lambda>_. Config k v ys) t, q0, l0) = Inr (upd_at (p @ [?n]) (\<lambda>_. Config k' v' []) ?T, p @ [?n], d)"
      using item_line [OF c_ok(3,1) Cons.prems(2)] less.prems(2,3) unfolding e by (simp add: add_child_def c c_str_text text_ok_def)
    moreover have "size (Config k' v' cs') < size (Config k v cs)" using c_ok(4) c by (simp add: size_list_estimation' less_Suc_eq_le)
    from less.hyps [OF this, of "p @ [?n]" ?T "d + 1" d] c_ok(2) vp less.prems(3) c obtain q l where
      "load_lines (conf_lines (d + 1) c) (upd_at (p @ [?n]) (\<lambda>_. Config k' v' []) ?T, p @ [?n], d) = Inr (upd_at (p @ [?n]) (\<lambda>_. c) ?T, q, l)"
      "below (p @ [?n]) (q, l)" by auto
    moreover from this(2) have "below p (q, l)" by (rule below_child)
    ultimately show ?case using Cons.IH [of q l "ys @ [c]"] Cons.prems(1) by (simp add: load_lines_append e)
  qed auto
  have "below p (p, li)" using less.prems(4) by (auto simp: below_def)
  from items [OF order_refl this, of cm] obtain q l where
    "load_lines (?L it) (upd_at p (\<lambda>_. Config k v cm) t, p, li) = Inr (upd_at p (\<lambda>_. Config k v cs) t, q, l)" "below p (q, l)"
    unfolding cs by auto
  then show ?case using comments_lines [OF cmt less.prems(2), of d k v "[]" li] by (auto simp: cs load_lines_append)
qed

lemma written_lines:
  assumes "writable c" and "lines_fit d c" and "l \<in> set (conf_lines d c)"
  shows "\<exists>x. l = x @ [newline] \<and> newline \<notin> set x \<and> length l < CONFIG_MAX_LINE"
  using assms
proof (induction d c rule: conf_lines.induct)
  case (1 d k v cs)
  then obtain c where c: "c \<in> set cs" "l = conf_line d c \<or> l \<in> set (conf_lines (d + 1) c)" by auto
  show ?case
  proof (cases "l = conf_line d c")
    case True
    have "entry_ok c" using 1 c(1) by simp
    then have "newline \<notin> set (conf_key c) \<or> is_comment c" "newline \<notin> set (conf_val c)" by (auto simp: entry_ok_def text_ok_def split: if_splits)
    then have "newline \<notin> set (c_str (conf_key c)) \<or> is_comment c" "newline \<notin> set (c_str (conf_val c))" using text_c_str(2) by blast+
    then show ?thesis using True 1 c(1) by (auto simp: conf_line_def)
  qed (use 1 c in auto)
qed

text \<open>A configuration that is written to a file and loaded again is the same tree, comments included, if it can be written down at all:
  keys without separators and comments before the other children of their entry, no white space at the ends of keys and
  values, and no line longer than the buffer.\<close>

theorem save_load:
  assumes "writable (Config ''root'' [] cs)" and "lines_fit 0 (Config ''root'' [] cs)"
  shows "conf_load (Some (conf_save 0 (Config ''root'' [] cs))) = Inr (Config ''root'' [] cs)"
proof -
  let ?c = "Config ''root'' [] cs"
  from subtree_lines [OF assms(1), of "[]" undefined 0 0] obtain q l where
    "load_lines (conf_lines 0 ?c) (Config ''root'' [] [], [], 0) = Inr (?c, q, l)" by auto
  moreover have "load_loop (concat (conf_lines 0 ?c)) st = (case load_lines (conf_lines 0 ?c) st of Inl e \<Rightarrow> Inl e | Inr st \<Rightarrow> Inr (fst st))" for st
    by (rule load_loop_lines) (use written_lines [OF assms] in blast)
  ultimately show ?thesis unfolding conf_load_def concat_lines by (simp del: conf_save.simps conf_lines.simps)
qed

text \<open>A small file.\<close>

definition sample_conf :: config where
  "sample_conf = Config ''root'' [] [Config ''#'' '' ssdb'' [], Config ''server'' [] [Config ''ip'' ''127.0.0.1'' [], Config ''port'' ''8888'' []],
     Config ''work_dir'' ''var'' []]"

lemma sample_conf_ok: "writable sample_conf" "lines_fit 0 sample_conf"
  by code_simp+

theorem save_load_witness: "conf_load (Some (conf_save 0 sample_conf)) = Inr sample_conf"
  using save_load [of "conf_children sample_conf"] sample_conf_ok by (simp add: sample_conf_def)

text \<open>The last character of a file is cut off when it is not a line end.\<close>

lemma last_line_cut: "conf_load (Some ''port: 8888'') = Inr (Config ''root'' [] [Config ''port'' ''888'' []])"
  by code_simp

subsection \<open>What is loaded can be written\<close>

lemma trim_ok:
  assumes "CHR 0x00 \<notin> set s" and "newline \<notin> set s"
  shows "text_ok (trim s)" "trimmed (trim s)"
proof -
  let ?l = "dropWhile isspace s"
  have "CHR 0x00 \<notin> set ?l" using assms(1) by (blast dest: set_dropWhileD)
  then have e: "trim s = rev (dropWhile isspace (rev ?l))"
    using assms(1) by (simp add: trim_def ltrim_def rtrim_def c_str_text)
  have "set (trim s) \<subseteq> set s" unfolding e by (auto dest!: set_dropWhileD)
  then show "text_ok (trim s)" using assms by (auto simp: text_ok_def)
  show "trimmed (trim s)"
  proof (cases "trim s = []")
    case False
    then have ne: "dropWhile isspace (rev ?l) \<noteq> []" by (simp add: e)
    obtain y where y: "?l = trim s @ y" unfolding e by (metis rev_append rev_rev_ident takeWhile_dropWhile_id)
    then have "hd (trim s) = hd ?l" "?l \<noteq> []" using False by auto
    then have "\<not> isspace (hd (trim s))" using hd_dropWhile [of isspace s] by simp
    moreover have "\<not> isspace (last (trim s))" using hd_dropWhile [OF ne] ne by (simp add: e last_rev)
    ultimately show ?thesis by (simp add: trimmed_def)
  qed (simp add: trimmed_def)
qed

lemma upd_key: "(\<And>c. conf_key (f c) = conf_key c \<and> conf_val (f c) = conf_val c) \<Longrightarrow> conf_key (upd_at p f t) = conf_key t \<and> conf_val (upd_at p f t) = conf_val t"
  by (cases p) auto

lemma writable_upd:
  assumes "valid p t" and "writable t" and "p = [] \<or> \<not> is_comment (node_at p t)" and "writable (f (node_at p t))"
    and keep: "\<And>c. conf_key (f c) = conf_key c \<and> conf_val (f c) = conf_val c"
  shows "writable (upd_at p f t)"
  using assms(1-4)
proof (induction p t rule: node_at.induct)
  case (2 i p c)
  obtain k v cs where c: "c = Config k v cs" by (cases c)
  have i: "i < length cs" "entry_ok (cs ! i)" "writable (cs ! i)" using 2(2,3) c by auto
  let ?d = "upd_at p f (cs ! i)"
  have key: "conf_key ?d = conf_key (cs ! i)" "conf_val ?d = conf_val (cs ! i)" using upd_key [of f p] keep by auto
  have nc: "\<not> is_comment (cs ! i)"
  proof (cases p)
    case Nil
    then show ?thesis using 2(4) c by simp
  next
    case (Cons j q)
    then have "conf_children (cs ! i) \<noteq> []" using 2(2) c by auto
    then show ?thesis using i(2) by (auto simp: entry_ok_def)
  qed
  then have "entry_ok ?d" using i(2) key by (auto simp: entry_ok_def is_comment_def)
  moreover have "writable ?d" using 2 c nc by (cases "p = []") auto
  moreover have "sorted_wrt (\<lambda>a b. is_comment b \<longrightarrow> is_comment a) (cs[i := ?d])"
  proof -
    have "map is_comment (cs[i := ?d]) = map is_comment cs" using key i(1) by (auto simp: is_comment_def map_update list_update_same_conv)
    moreover have "sorted_wrt (\<lambda>a b. b \<longrightarrow> a) (map is_comment cs)" using 2(3) c by (simp add: sorted_wrt_map)
    ultimately have "sorted_wrt (\<lambda>a b. b \<longrightarrow> a) (map is_comment (cs[i := ?d]))" by simp
    then show ?thesis by (simp only: sorted_wrt_map)
  qed
  ultimately show ?case using 2(3) c by (auto dest: set_update_subset_insert [THEN subsetD])
qed simp

text \<open>The state of the loop: the pointer is at an entry whose children so far are comments.\<close>

definition load_inv :: "config \<times> nat list \<times> nat \<Rightarrow> bool" where
  "load_inv st \<longleftrightarrow> (case st of (t, q, li) \<Rightarrow> writable t \<and> valid q t \<and> (q = [] \<or> \<not> is_comment (node_at q t)) \<and>
     (\<forall>c \<in> set (conf_children (node_at q t)). is_comment c) \<and> conf_key t = ''root'' \<and> conf_val t = [])"

lemma writable_node: "writable t \<Longrightarrow> valid p t \<Longrightarrow> writable (node_at p t)"
  by (induction p t rule: node_at.induct) (auto, metis config.collapse nth_mem writable.simps)

lemma entry_node: "writable t \<Longrightarrow> valid p t \<Longrightarrow> p \<noteq> [] \<Longrightarrow> entry_ok (node_at p t)"
proof (induction p t rule: node_at.induct)
  case (2 i p c)
  then show ?case by (cases c; cases p) auto
qed simp

lemma prefix_not_comment:
  assumes "writable t" and "valid (p @ r) t" and "p @ r = [] \<or> \<not> is_comment (node_at (p @ r) t)"
  shows "valid p t" "p = [] \<or> \<not> is_comment (node_at p t)"
proof -
  show v: "valid p t" using assms(2) by (simp add: valid_append)
  show "p = [] \<or> \<not> is_comment (node_at p t)"
  proof (cases r)
    case (Cons j r')
    then have "conf_children (node_at p t) \<noteq> []" using assms(2) by (auto simp: valid_append)
    then show ?thesis using entry_node [OF assms(1) v] by (auto simp: entry_ok_def)
  qed (use assms(3) in simp)
qed

lemma add_child_inv:
  assumes "writable t" and "valid p t" and "p = [] \<or> \<not> is_comment (node_at p t)" and "entry_ok (Config k v [])"
    and "is_comment (Config k v []) \<Longrightarrow> \<forall>c \<in> set (conf_children (node_at p t)). is_comment c"
  shows "writable (fst (add_child p k v t))" "valid p (fst (add_child p k v t))"
    "conf_key (fst (add_child p k v t)) = conf_key t" "conf_val (fst (add_child p k v t)) = conf_val t"
    "node_at p (fst (add_child p k v t)) = Config (conf_key (node_at p t)) (conf_val (node_at p t)) (conf_children (node_at p t) @ [Config k v []])"
proof -
  obtain k' v' cs where n: "node_at p t = Config k' v' cs" by (cases "node_at p t")
  have s: "c_str k = k" "c_str v = v" using assms(4) by (auto simp: entry_ok_def text_ok_def c_str_text split: if_splits)
  have w: "writable (Config k' v' cs)" using writable_node [OF assms(1,2)] n by simp
  then have "writable (Config k' v' (cs @ [Config k v []]))" using assms(4,5) n by (auto simp: sorted_wrt_append)
  then show "writable (fst (add_child p k v t))" using writable_upd [OF assms(2,1,3)] n s by (simp add: add_child_def)
  show "valid p (fst (add_child p k v t))" "node_at p (fst (add_child p k v t)) = Config (conf_key (node_at p t)) (conf_val (node_at p t)) (conf_children (node_at p t) @ [Config k v []])"
    using assms(2) s by (simp_all add: add_child_def valid_upd)
  show "conf_key (fst (add_child p k v t)) = conf_key t" "conf_val (fst (add_child p k v t)) = conf_val t" by (simp_all add: add_child_def upd_key)
qed

lemma takeWhile_hd: "s \<noteq> [] \<Longrightarrow> \<not> isspace (hd s) \<Longrightarrow> CHR 0x00 \<notin> set s \<Longrightarrow> trim s \<noteq> [] \<and> hd (trim s) = hd s"
  by (cases s) (auto simp: trim_def ltrim_def rtrim_def c_str_text dropWhile_append hd_append)

lemma load_line_inv:
  assumes "load_inv st" and "newline \<notin> set (butlast line)" and "load_line line st = Inr st'"
  shows "load_inv st'"
proof -
  obtain t cfg li where st: "st = (t, cfg, li)" by (cases st)
  have I: "writable t" "valid cfg t" "cfg = [] \<or> \<not> is_comment (node_at cfg t)" "\<forall>c \<in> set (conf_children (node_at cfg t)). is_comment c"
    "conf_key t = ''root''" "conf_val t = []" using assms(1) by (simp_all add: load_inv_def st)
  define buf where "buf = butlast (c_str line)"
  have nul: "CHR 0x00 \<notin> set buf" using text_c_str(1) [of line] by (auto simp: buf_def dest: in_set_butlastD)
  have nl: "newline \<notin> set buf"
  proof -
    obtain r where "line = c_str line @ r" unfolding c_str_def by (metis takeWhile_dropWhile_id)
    then show ?thesis using assms(2) unfolding buf_def by (metis Un_iff butlast.simps(1) butlast_append in_set_butlastD set_append)
  qed
  define indent where "indent = length (takeWhile (\<lambda>c. c = tab) buf)"
  define key where "key = drop indent buf"
  have ks: "set key \<subseteq> set buf" by (auto simp: key_def dest: in_set_dropD)
  show ?thesis
  proof (cases "is_empty_str buf")
    case True
    then show ?thesis using assms(1,3) by (auto simp: load_line_def st Let_def buf_def split: if_splits)
  next
    case ne: False
    have kne: "key \<noteq> []"
    proof
      assume "key = []"
      then have "dropWhile (\<lambda>c. c = tab) buf = []" by (simp add: key_def indent_def dropWhile_eq_drop)
      then have "\<forall>c \<in> set buf. c = tab" by (simp add: dropWhile_eq_Nil_conv)
      moreover have "isspace tab" by (simp add: isspace_def)
      ultimately have "\<forall>c \<in> set buf. isspace c" by metis
      then show False using ne by (simp add: is_empty_str_def c_str_text [OF nul] dropWhile_eq_Nil_conv)
    qed
    have step: "load_line line st = (if hd key = CHR ''#'' then Inr (fst (add_child cfg ''#'' (tl key) t), cfg, li)
       else if indent > li + 1 then Inl Invalid_line
       else let cfg = (if indent \<le> li then up (li - indent + 1) cfg else cfg)
            in if isspace (hd key) then Inl Invalid_line
               else let val = dropWhile (\<lambda>c. \<not> is_kv_seperator c) key
                    in if val = [] then Inl Invalid_line
                       else let (t, cfg) = add_child cfg (trim (takeWhile (\<lambda>c. \<not> is_kv_seperator c) key)) (trim (tl val)) t in Inr (t, cfg, indent))"
      using assms(3) ne unfolding load_line_def st Let_def buf_def [symmetric] indent_def [symmetric] key_def [symmetric] by (auto split: if_splits)
    show ?thesis
    proof (cases "hd key = CHR ''#''")
      case True
      have "set (tl key) \<subseteq> set key" by (cases key) auto
      then have e: "entry_ok (Config ''#'' (tl key) [])" using ks nul nl by (auto simp: entry_ok_def is_comment_def text_ok_def)
      from add_child_inv [OF I(1-3) e] I(4) show ?thesis using assms(3) True I step
        by (auto simp: load_inv_def is_comment_def)
    next
      case False
      define p where "p = (if indent \<le> li then up (li - indent + 1) cfg else cfg)"
      define k where "k = trim (takeWhile (\<lambda>c. \<not> is_kv_seperator c) key)"
      define v where "v = trim (tl (dropWhile (\<lambda>c. \<not> is_kv_seperator c) key))"
      have st': "\<not> isspace (hd key)" "dropWhile (\<lambda>c. \<not> is_kv_seperator c) key \<noteq> []" "st' = (fst (add_child p k v t), snd (add_child p k v t), indent)"
        using assms(3) False unfolding step Let_def p_def [symmetric] k_def [symmetric] v_def [symmetric] by (auto split: if_splits prod.splits)
      obtain r where r: "cfg = p @ r" unfolding p_def up_take by (metis append_Nil2 append_take_drop_id)
      have p: "valid p t" "p = [] \<or> \<not> is_comment (node_at p t)" using prefix_not_comment [of t p r] I(1-3) r by auto
      let ?w = "takeWhile (\<lambda>c. \<not> is_kv_seperator c) key"
      have "set ?w \<subseteq> set key" "set (tl (dropWhile (\<lambda>c. \<not> is_kv_seperator c) key)) \<subseteq> set key"
        using set_takeWhileD set_dropWhileD list.set_sel(2) by (fastforce, metis subsetI list.set_sel(2) set_dropWhileD tl_Nil)
      then have clean: "CHR 0x00 \<notin> set ?w" "newline \<notin> set ?w" "text_ok v" "trimmed v"
        using ks nul nl trim_ok [of "tl (dropWhile (\<lambda>c. \<not> is_kv_seperator c) key)"] by (auto simp: v_def)
      have kt: "text_ok k" "trimmed k" using trim_ok [OF clean(1,2)] by (simp_all add: k_def)
      have "set k \<subseteq> set ?w" using clean(1) unfolding k_def trim_def ltrim_def rtrim_def
        by (auto dest!: set_dropWhileD text_c_str(2) [THEN subsetD])
      then have sep: "\<forall>x \<in> set k. \<not> is_kv_seperator x" using set_takeWhileD by fastforce
      have nc: "\<not> is_comment (Config k v [])"
        using takeWhile_hd [of ?w] clean(1) st'(1) False kne by (cases key) (auto simp: is_comment_def k_def trim_Nil split: if_splits)
      then have e: "entry_ok (Config k v [])" using kt sep clean by (simp add: entry_ok_def)
      note ac = add_child_inv [OF I(1) p e]
      have "snd (add_child p k v t) = p @ [length (conf_children (node_at p t))]" by (simp add: add_child_def)
      then show ?thesis using ac nc I(5,6) by (simp add: st'(3) load_inv_def valid_append node_append)
    qed
  qed
qed

lemma fgets_butlast: "fgets n f = Some (l, r) \<Longrightarrow> newline \<notin> set (butlast l)"
proof -
  assume a: "fgets n f = Some (l, r)"
  let ?k = "length (takeWhile (\<lambda>c. c \<noteq> newline) f)"
  define m where "m = min (n - 1) (if ?k < length f then ?k + 1 else ?k)"
  have l: "l = take m f" using a unfolding fgets_def Let_def m_def by (simp only: option.inject prod.inject split: if_splits) simp_all
  then have b: "butlast l = take (min (length l - 1) m) f" by (simp add: butlast_conv_take)
  have "m \<le> ?k + 1" unfolding m_def by (rule min.coboundedI2) simp
  moreover have "length l \<le> m" unfolding l length_take by (rule min.cobounded2)
  ultimately have "min (length l - 1) m \<le> ?k" by linarith
  then have "set (butlast l) \<subseteq> set (take ?k f)" unfolding b by (rule set_take_subset_set_take)
  then have "set (butlast l) \<subseteq> set (takeWhile (\<lambda>c. c \<noteq> newline) f)" unfolding takeWhile_eq_take [symmetric] .
  then show ?thesis by (auto dest: set_takeWhileD)
qed

lemma load_loop_inv: "load_loop f st = Inr t \<Longrightarrow> load_inv st \<Longrightarrow> writable t \<and> conf_key t = ''root'' \<and> conf_val t = []"
proof (induction f st rule: load_loop.induct)
  case (1 f st)
  show ?case
  proof (cases "fgets CONFIG_MAX_LINE f")
    case None
    then show ?thesis using "1.prems" by (subst (asm) load_loop.simps) (auto simp: load_inv_def)
  next
    case (Some y)
    obtain l r where y: "y = (l, r)" by (cases y)
    obtain st' where s: "load_line l st = Inr st'" using "1.prems"(1) Some y by (subst (asm) load_loop.simps) (auto split: sum.splits)
    have "load_loop r st' = Inr t" using "1.prems"(1) Some y s by (subst (asm) load_loop.simps) simp
    moreover have "load_inv st'" by (rule load_line_inv [OF "1.prems"(2) fgets_butlast s]) (use Some y in simp)
    ultimately show ?thesis using "1.IH" [OF Some y [symmetric] s] by blast
  qed
qed


subsection \<open>Setting and looking up\<close>

text \<open>What \<open>set\<close> does, without the pointer.\<close>

primrec set_path :: "bytes list \<Rightarrow> bytes \<Rightarrow> config \<Rightarrow> config" where
  "set_path [] v c = Config (conf_key c) v (conf_children c)"
| "set_path (f # fs) v c = Config (conf_key c) (conf_val c)
     (case find_index f (conf_children c) of
        Some i \<Rightarrow> (conf_children c)[i := set_path fs v (conf_children c ! i)]
      | None \<Rightarrow> conf_children c @ [set_path fs v (Config f [] [])])"

lemma find_index_Some: "find_index f cs = Some i \<Longrightarrow> i < length cs \<and> conf_key (cs ! i) = f"
  by (induction f cs arbitrary: i rule: find_index.induct) (auto split: option.splits if_splits)

lemma find_index_update: "i < length cs \<Longrightarrow> conf_key d = conf_key (cs ! i) \<Longrightarrow> find_index f (cs[i := d]) = find_index f cs"
  by (induction f cs arbitrary: i rule: find_index.induct) (auto split: option.splits nat.splits)

lemma find_index_append: "find_index f (cs @ [d]) = (if conf_key d = f then Some (length cs) else find_index f cs)"
  by (induction f cs rule: find_index.induct) (auto split: option.splits)

lemma set_path_key [simp]: "conf_key (set_path fs v c) = conf_key c"
  by (cases fs) auto

lemma fold_child_path:
  assumes "valid p t" and "\<forall>f \<in> set fs. c_str f = f"
  shows "(case fold (\<lambda>f (t, p). child_path f p t) fs (t, p) of (t', q) \<Rightarrow> upd_at q (\<lambda>c. Config (conf_key c) v (conf_children c)) t') = upd_at p (set_path fs v) t"
  using assms
proof (induction fs arbitrary: p t)
  case Nil
  then show ?case by (auto intro: upd_cong)
next
  case (Cons f fs)
  show ?case
  proof (cases "find_index f (conf_children (node_at p t))")
    case (Some i)
    then have "valid (p @ [i]) t" using Cons.prems(1) find_index_Some by (auto simp: valid_append)
    from Cons.IH [OF this] Cons.prems Some show ?thesis by (simp add: child_path_def upd_append, intro upd_cong) (simp_all add: Some)
  next
    case None
    let ?n = "length (conf_children (node_at p t))"
    let ?t = "upd_at p (\<lambda>c. Config (conf_key c) (conf_val c) (conf_children c @ [Config f [] []])) t"
    have "valid (p @ [?n]) ?t" using Cons.prems(1) by (simp add: valid_append valid_upd)
    moreover have "add_child p f [] t = (?t, p @ [?n])" using Cons.prems(2) by (simp add: add_child_def) (simp add: c_str_def)
    ultimately have "(case fold (\<lambda>f (t, p). child_path f p t) (f # fs) (t, p) of (t', q) \<Rightarrow> upd_at q (\<lambda>c. Config (conf_key c) v (conf_children c)) t') =
        upd_at (p @ [?n]) (set_path fs v) ?t" using Cons.IH [of "p @ [?n]" ?t] Cons.prems(2) None by (simp add: child_path_def)
    also have "\<dots> = upd_at p (set_path (f # fs) v) t" unfolding upd_append upd_upd [OF Cons.prems(1)]
      by (rule upd_cong [OF Cons.prems(1)]) (simp add: None)
    finally show ?thesis .
  qed
qed

lemma key_fields_text: "f \<in> set (key_fields s) \<Longrightarrow> set f \<subseteq> set s"
proof (induction s arbitrary: f rule: key_fields.induct)
  case (2 c s)
  then show ?case by (cases "key_fields s") (fastforce split: if_splits)+
qed simp

lemma path_of_text: "\<forall>f \<in> set (path_of k). c_str f = f"
proof
  fix f assume "f \<in> set (path_of k)"
  then have "set f \<subseteq> set (c_str k)" using key_fields_text [of f] set_take_subset unfolding path_of_def by fast
  then show "c_str f = f" using text_c_str(1) [of k] by (intro c_str_text) auto
qed

lemma conf_set_path: "conf_set k v t = set_path (path_of k) (c_str v) t"
  using fold_child_path [of "[]" t "path_of k" "c_str v"] path_of_text by (simp add: conf_set_def build_key_path_def)

definition val_at :: "bytes list \<Rightarrow> config \<Rightarrow> bytes" where
  "val_at gs c = (case get_path gs c of None \<Rightarrow> [] | Some d \<Rightarrow> conf_val d)"

lemma val_at_simps: "val_at [] c = conf_val c" "val_at (g # gs) c = (case find_child g c of None \<Rightarrow> [] | Some d \<Rightarrow> val_at gs d)"
  by (simp_all add: val_at_def split: option.split)

lemma find_child_set:
  "find_child g (set_path (f # fs) v c) =
    (if g = f then Some (set_path fs v (case find_child f c of None \<Rightarrow> Config f [] [] | Some d \<Rightarrow> d)) else find_child g c)"
proof (cases "find_index f (conf_children c)")
  case None
  then show ?thesis by (auto simp: find_child_def find_index_append nth_append dest!: find_index_Some split: option.splits)
next
  case (Some i)
  note i = find_index_Some [OF Some]
  show ?thesis using Some i
    by (auto simp: find_child_def find_index_update nth_list_update dest: find_index_Some split: option.splits)
qed

lemma val_at_set: "val_at gs (set_path fs v c) = (if gs = fs then v else val_at gs c)"
proof (induction fs arbitrary: gs c)
  case Nil
  then show ?case by (cases gs) (simp_all add: val_at_simps find_child_def split: option.split)
next
  case (Cons f fs)
  show ?case
  proof (cases gs)
    case (Cons g gs')
    have e: "val_at gs' (Config f [] []) = []" by (cases gs') (simp_all add: val_at_simps find_child_def)
    show ?thesis using Cons.IH [of gs'] e by (auto simp: Cons val_at_simps find_child_set simp del: set_path.simps split: option.split)
  qed (simp add: val_at_simps)
qed

text \<open>C35. After \<open>set\<close> the value is found under its path, and every other path has the value it had before, where a path that leads to no entry
  has the empty value. Dots and slashes separate the same way.\<close>

theorem conf_set_get:
  "get_str k (conf_set k v t) = c_str v \<and> (\<forall>k'. path_of k' \<noteq> path_of k \<longrightarrow> get_str k' (conf_set k v t) = get_str k' t)"
proof -
  have "get_str k' c = val_at (path_of k') c" for k' c by (simp add: get_str_def conf_get_def val_at_def)
  then show ?thesis by (simp add: conf_set_path val_at_set)
qed


theorem conf_set_get_witness:
  "get_str ''server/port'' (conf_set ''server.port'' ''8889'' sample_conf) = ''8889'' \<and>
   get_str ''server.ip'' (conf_set ''server.port'' ''8889'' sample_conf) = ''127.0.0.1''"
proof -
  have p: "path_of ''server/port'' = path_of ''server.port''" "path_of ''server.ip'' \<noteq> path_of ''server.port''" by code_simp+
  have "get_str ''server.ip'' sample_conf = ''127.0.0.1''" "c_str ''8889'' = ''8889''" by code_simp+
  moreover have "get_str ''server/port'' c = get_str ''server.port'' c" for c by (simp add: get_str_def conf_get_def p(1))
  ultimately show ?thesis using conf_set_get [of "''server.port''" "''8889''" sample_conf] p(2) by simp
qed

subsection \<open>Options\<close>

lemma files_bounds: "500 \<le> (let m = (if x < 500 then 500 else x) in if m > 1000 then 1000 else m) \<and> (let m = (if x < 500 then 500 else x) in if m > 1000 then 1000 else m) \<le> (1000 :: u64)"
  by (auto simp: Let_def not_less)

text \<open>Options have usable values whatever the file says: no size and no capacity is zero, the number of open files is between 500 and
  1000 unless it is given, and a number between 1 and the largest \<open>int\<close> is taken as it is.\<close>

theorem options_usable:
  assumes "o1 = Options_load ndebug conf"
  shows "cache_size o1 \<noteq> 0 \<and> write_buffer_size o1 \<noteq> 0 \<and> block_size o1 \<noteq> 0 \<and> binlog_capacity o1 \<noteq> 0 \<and> max_open_files o1 \<noteq> 0 \<and>
    (get_num ''leveldb.max_open_files'' conf = 0 \<longrightarrow> 500 \<le> max_open_files o1 \<and> max_open_files o1 \<le> 1000) \<and>
    (0 < get_num ''leveldb.cache_size'' conf \<longrightarrow> uint (cache_size o1) = get_num ''leveldb.cache_size'' conf) \<and>
    (0 < get_num ''replication.binlog.capacity'' conf \<longrightarrow> uint (binlog_capacity o1) = get_num ''replication.binlog.capacity'' conf)"
proof -
  have r: "get_num k conf < 2 ^ 31" for k
    using in_int32_wrap32 by (auto simp: get_num_def conf_num_def atoi_def in_int32_def split: option.split)
  have u: "0 < get_num k conf \<Longrightarrow> uint (word_of_int (get_num k conf) :: u64) = get_num k conf" for k
    using r [of k] by (simp add: uint_word_of_int)
  have nz: "0 < get_num k conf \<Longrightarrow> (word_of_int (get_num k conf) :: u64) \<noteq> 0" for k
    using u [of k] by auto
  have q: "LOG_QUEUE_SIZE b \<noteq> 0" for b by (simp add: LOG_QUEUE_SIZE_def)
  have fb: "500 \<le> (let m = (if x < 500 then 500 else x) in if m > 1000 then 1000 else m)" for x :: u64 using files_bounds [of x] by blast
  then have fz: "(let m = (if x < 500 then 500 else x) in if m > 1000 then 1000 else m) \<noteq> 0" for x :: u64
    using fb [of x] by (auto simp: Let_def split: if_splits)
  show ?thesis unfolding assms Options_load_def Let_def
    using u nz q fb fz files_bounds by (auto simp: Let_def)
qed

theorem options_usable_witness:
  "binlog_capacity (Options_load True (conf_set ''replication.binlog.capacity'' ''5000'' sample_conf)) = 5000 \<and>
   max_open_files (Options_load True (conf_set ''replication.binlog.capacity'' ''5000'' sample_conf)) \<noteq> 0"
proof -
  let ?c = "conf_set ''replication.binlog.capacity'' ''5000'' sample_conf"
  have n: "get_num ''replication.binlog.capacity'' ?c = 5000" by code_simp
  have o: "max_open_files (Options_load True ?c) \<noteq> 0" "uint (binlog_capacity (Options_load True ?c)) = 5000"
    using options_usable [OF refl, of True ?c] n by simp_all
  then have "binlog_capacity (Options_load True ?c) = word_of_int 5000" by (metis word_of_int_uint)
  with o(1) show ?thesis by simp
qed

end
