(* ===== verification/Client.thy ===== *)
theory Client
  imports NetProc
begin

section \<open>The C++ client (\<open>client/SSDB_impl.cpp\<close>, \<open>client/SSDB_client.h\<close>)\<close>

text \<open>
  A method of the client sends one request and reads the response. It is modelled as the pair of the two; \<open>invoke\<close> runs it on a
  connection, which maps a request and a state to a new state and the response, \<open>None\<close> when the link fails (\<open>ClientImpl::request\<close>
  is \<open>Link::send\<close>, \<open>flush\<close> and \<open>response\<close>). The value is \<open>None\<close> when the method does not write it. A \<open>std::map\<close> is the list of
  its pairs in the order of the keys.
\<close>

type_synonym 'w connection = "bytes list \<Rightarrow> 'w \<Rightarrow> 'w \<times> bytes list option"
type_synonym 'a client_method = "bytes list \<times> (bytes list option \<Rightarrow> bytes \<times> 'a option)"

definition Status_new :: "bytes list option \<Rightarrow> bytes" where
  "Status_new resp = (case resp of Some (c # r) \<Rightarrow> c | _ \<Rightarrow> ''error'')"

definition Status_ok :: "bytes \<Rightarrow> bool" where "Status_ok s \<longleftrightarrow> s = ''ok''"
definition Status_not_found :: "bytes \<Rightarrow> bool" where "Status_not_found s \<longleftrightarrow> s = ''not_found''"

definition read_none :: "bytes list option \<Rightarrow> bytes \<times> unit option" where
  "read_none resp = (Status_new resp, None)"

definition read_list :: "bytes list option \<Rightarrow> bytes \<times> bytes list option" where
  "read_list resp = (let s = Status_new resp in if Status_ok s then (s, Some (tl (the resp))) else (s, None))"

definition read_int64 :: "bytes list option \<Rightarrow> bytes \<times> int option" where
  "read_int64 resp =
     (let s = Status_new resp
      in if Status_ok s then (if length (the resp) \<ge> 2 then (s, Some (fst (str_to_int64 0 (the resp ! 1)))) else (''server_error'', None))
         else (s, None))"

definition read_str :: "bytes list option \<Rightarrow> bytes \<times> bytes option" where
  "read_str resp =
     (let s = Status_new resp
      in if Status_ok s then (if length (the resp) \<ge> 2 then (s, Some (the resp ! 1)) else (''server_error'', None)) else (s, None))"

text \<open>\<open>qpush\<close>: \<open>want\<close> says that the caller passed a pointer for the size.\<close>

definition read_size :: "bool \<Rightarrow> bytes list option \<Rightarrow> bytes \<times> int option" where
  "read_size want resp =
     (let s = Status_new resp
      in if want \<and> Status_ok s then (if length (the resp) > 1 then (s, Some (fst (str_to_int64 0 (the resp ! 1)))) else (''error'', None))
         else (s, None))"

text \<open>\<open>get_kv_range\<close>: \<open>at\<close> throws when a field is missing.\<close>

definition read_range :: "bytes list option \<Rightarrow> (bytes \<times> (bytes \<times> bytes) option) option" where
  "read_range resp =
     (let s = Status_new resp
      in if Status_ok s then (if length (the resp) \<ge> 3 then Some (s, Some (the resp ! 1, the resp ! 2)) else None) else Some (s, None))"

definition invoke :: "'w connection \<Rightarrow> 'a client_method \<Rightarrow> 'w \<Rightarrow> 'w \<times> bytes \<times> 'a option" where
  "invoke conn m w = (case conn (fst m) w of (w, resp) \<Rightarrow> (w, snd m resp))"

definition map_fields :: "(bytes \<times> bytes) list \<Rightarrow> bytes list" where
  "map_fields kvs = concat (map (\<lambda>(k, v). [k, v]) kvs)"

definition opt_score :: "int option \<Rightarrow> bytes" where
  "opt_score s = (case s of None \<Rightarrow> [] | Some v \<Rightarrow> str_int64 v)"

subsection \<open>Server and strings\<close>

definition ClientImpl_dbsize :: "int client_method" where "ClientImpl_dbsize = ([''dbsize''], read_int64)"

definition ClientImpl_get_kv_range :: "'w connection \<Rightarrow> 'w \<Rightarrow> 'w \<times> (bytes \<times> (bytes \<times> bytes) option) option" where
  "ClientImpl_get_kv_range conn w = (case conn [''get_kv_range''] w of (w, resp) \<Rightarrow> (w, read_range resp))"

definition ClientImpl_set_kv_range :: "bytes \<Rightarrow> bytes \<Rightarrow> unit client_method" where
  "ClientImpl_set_kv_range start end = ([''set_kv_range'', start, end], read_none)"

definition ClientImpl_get :: "bytes \<Rightarrow> bytes client_method" where
  "ClientImpl_get key = ([''get'', key], read_str)"

definition ClientImpl_set :: "bytes \<Rightarrow> bytes \<Rightarrow> unit client_method" where
  "ClientImpl_set key val = ([''set'', key, val], read_none)"

definition ClientImpl_setx :: "bytes \<Rightarrow> bytes \<Rightarrow> int \<Rightarrow> unit client_method" where
  "ClientImpl_setx key val ttl = ([''setx'', key, val, str_int ttl], read_none)"

definition ClientImpl_del :: "bytes \<Rightarrow> unit client_method" where
  "ClientImpl_del key = ([''del'', key], read_none)"

definition ClientImpl_incr :: "bytes \<Rightarrow> int \<Rightarrow> int client_method" where
  "ClientImpl_incr key incrby = ([''incr'', key, str_int64 incrby], read_int64)"

definition ClientImpl_keys :: "bytes \<Rightarrow> bytes \<Rightarrow> u64 \<Rightarrow> bytes list client_method" where
  "ClientImpl_keys key_start key_end limit = ([''keys'', key_start, key_end, str_uint64 limit], read_list)"

definition ClientImpl_scan :: "bytes \<Rightarrow> bytes \<Rightarrow> u64 \<Rightarrow> bytes list client_method" where
  "ClientImpl_scan key_start key_end limit = ([''scan'', key_start, key_end, str_uint64 limit], read_list)"

definition ClientImpl_rscan :: "bytes \<Rightarrow> bytes \<Rightarrow> u64 \<Rightarrow> bytes list client_method" where
  "ClientImpl_rscan key_start key_end limit = ([''rscan'', key_start, key_end, str_uint64 limit], read_list)"

definition ClientImpl_multi_get :: "bytes list \<Rightarrow> bytes list client_method" where
  "ClientImpl_multi_get keys = (''multi_get'' # keys, read_list)"

definition ClientImpl_multi_set :: "(bytes \<times> bytes) list \<Rightarrow> unit client_method" where
  "ClientImpl_multi_set kvs = (''multi_set'' # map_fields kvs, read_none)"

definition ClientImpl_multi_del :: "bytes list \<Rightarrow> unit client_method" where
  "ClientImpl_multi_del keys = (''multi_del'' # keys, read_none)"

subsection \<open>Hashes\<close>

definition ClientImpl_hget :: "bytes \<Rightarrow> bytes \<Rightarrow> bytes client_method" where
  "ClientImpl_hget name key = ([''hget'', name, key], read_str)"

definition ClientImpl_hset :: "bytes \<Rightarrow> bytes \<Rightarrow> bytes \<Rightarrow> unit client_method" where
  "ClientImpl_hset name key val = ([''hset'', name, key, val], read_none)"

definition ClientImpl_hdel :: "bytes \<Rightarrow> bytes \<Rightarrow> unit client_method" where
  "ClientImpl_hdel name key = ([''hdel'', name, key], read_none)"

definition ClientImpl_hincr :: "bytes \<Rightarrow> bytes \<Rightarrow> int \<Rightarrow> int client_method" where
  "ClientImpl_hincr name key incrby = ([''hincr'', name, key, str_int64 incrby], read_int64)"

definition ClientImpl_hsize :: "bytes \<Rightarrow> int client_method" where "ClientImpl_hsize name = ([''hsize'', name], read_int64)"
definition ClientImpl_hclear :: "bytes \<Rightarrow> int client_method" where "ClientImpl_hclear name = ([''hclear'', name], read_int64)"

definition ClientImpl_hkeys :: "bytes \<Rightarrow> bytes \<Rightarrow> bytes \<Rightarrow> u64 \<Rightarrow> bytes list client_method" where
  "ClientImpl_hkeys name key_start key_end limit = ([''hkeys'', name, key_start, key_end, str_uint64 limit], read_list)"

definition ClientImpl_hgetall :: "bytes \<Rightarrow> bytes list client_method" where "ClientImpl_hgetall name = ([''hgetall'', name], read_list)"

definition ClientImpl_hscan :: "bytes \<Rightarrow> bytes \<Rightarrow> bytes \<Rightarrow> u64 \<Rightarrow> bytes list client_method" where
  "ClientImpl_hscan name key_start key_end limit = ([''hscan'', name, key_start, key_end, str_uint64 limit], read_list)"

definition ClientImpl_hrscan :: "bytes \<Rightarrow> bytes \<Rightarrow> bytes \<Rightarrow> u64 \<Rightarrow> bytes list client_method" where
  "ClientImpl_hrscan name key_start key_end limit = ([''hrscan'', name, key_start, key_end, str_uint64 limit], read_list)"

definition ClientImpl_multi_hget :: "bytes \<Rightarrow> bytes list \<Rightarrow> bytes list client_method" where
  "ClientImpl_multi_hget name keys = (''multi_hget'' # name # keys, read_list)"

definition ClientImpl_multi_hset :: "bytes \<Rightarrow> (bytes \<times> bytes) list \<Rightarrow> unit client_method" where
  "ClientImpl_multi_hset name kvs = (''multi_hset'' # name # map_fields kvs, read_none)"

definition ClientImpl_multi_hdel :: "bytes \<Rightarrow> bytes list \<Rightarrow> unit client_method" where
  "ClientImpl_multi_hdel name keys = (''multi_hdel'' # name # keys, read_none)"

subsection \<open>Sorted sets\<close>

definition ClientImpl_zget :: "bytes \<Rightarrow> bytes \<Rightarrow> int client_method" where
  "ClientImpl_zget name key = ([''zget'', name, key], read_int64)"

definition ClientImpl_zset :: "bytes \<Rightarrow> bytes \<Rightarrow> int \<Rightarrow> unit client_method" where
  "ClientImpl_zset name key score = ([''zset'', name, key, str_int64 score], read_none)"

definition ClientImpl_zdel :: "bytes \<Rightarrow> bytes \<Rightarrow> unit client_method" where
  "ClientImpl_zdel name key = ([''zdel'', name, key], read_none)"

definition ClientImpl_zincr :: "bytes \<Rightarrow> bytes \<Rightarrow> int \<Rightarrow> int client_method" where
  "ClientImpl_zincr name key incrby = ([''zincr'', name, key, str_int64 incrby], read_int64)"

definition ClientImpl_zsize :: "bytes \<Rightarrow> int client_method" where "ClientImpl_zsize name = ([''zsize'', name], read_int64)"
definition ClientImpl_zclear :: "bytes \<Rightarrow> int client_method" where "ClientImpl_zclear name = ([''zclear'', name], read_int64)"

definition ClientImpl_zrank :: "bytes \<Rightarrow> bytes \<Rightarrow> int client_method" where "ClientImpl_zrank name key = ([''zrank'', name, key], read_int64)"
definition ClientImpl_zrrank :: "bytes \<Rightarrow> bytes \<Rightarrow> int client_method" where "ClientImpl_zrrank name key = ([''zrrank'', name, key], read_int64)"

definition ClientImpl_zrange :: "bytes \<Rightarrow> u64 \<Rightarrow> u64 \<Rightarrow> bytes list client_method" where
  "ClientImpl_zrange name offset limit = ([''zrange'', name, str_uint64 offset, str_uint64 limit], read_list)"

definition ClientImpl_zrrange :: "bytes \<Rightarrow> u64 \<Rightarrow> u64 \<Rightarrow> bytes list client_method" where
  "ClientImpl_zrrange name offset limit = ([''zrrange'', name, str_uint64 offset, str_uint64 limit], read_list)"

definition ClientImpl_zkeys :: "bytes \<Rightarrow> bytes \<Rightarrow> int option \<Rightarrow> int option \<Rightarrow> u64 \<Rightarrow> bytes list client_method" where
  "ClientImpl_zkeys name key_start score_start score_end limit =
     ([''zkeys'', name, key_start, opt_score score_start, opt_score score_end, str_uint64 limit], read_list)"

definition ClientImpl_zscan :: "bytes \<Rightarrow> bytes \<Rightarrow> int option \<Rightarrow> int option \<Rightarrow> u64 \<Rightarrow> bytes list client_method" where
  "ClientImpl_zscan name key_start score_start score_end limit =
     ([''zscan'', name, key_start, opt_score score_start, opt_score score_end, str_uint64 limit], read_list)"

definition ClientImpl_zrscan :: "bytes \<Rightarrow> bytes \<Rightarrow> int option \<Rightarrow> int option \<Rightarrow> u64 \<Rightarrow> bytes list client_method" where
  "ClientImpl_zrscan name key_start score_start score_end limit =
     ([''zrscan'', name, key_start, opt_score score_start, opt_score score_end, str_uint64 limit], read_list)"

definition ClientImpl_multi_zget :: "bytes \<Rightarrow> bytes list \<Rightarrow> bytes list client_method" where
  "ClientImpl_multi_zget name keys = (''multi_zget'' # name # keys, read_list)"

definition ClientImpl_multi_zset :: "bytes \<Rightarrow> (bytes \<times> int) list \<Rightarrow> unit client_method" where
  "ClientImpl_multi_zset name kss = (''multi_zset'' # name # map_fields (map (\<lambda>(k, s). (k, str_int64 s)) kss), read_none)"

definition ClientImpl_multi_zdel :: "bytes \<Rightarrow> bytes list \<Rightarrow> unit client_method" where
  "ClientImpl_multi_zdel name keys = (''multi_zdel'' # name # keys, read_none)"

subsection \<open>Queues\<close>

definition ClientImpl_qpush :: "bytes \<Rightarrow> bytes \<Rightarrow> bool \<Rightarrow> int client_method" where
  "ClientImpl_qpush name item want = ([''qpush'', name, item], read_size want)"

definition ClientImpl_qpush_items :: "bytes \<Rightarrow> bytes list \<Rightarrow> bool \<Rightarrow> int client_method" where
  "ClientImpl_qpush_items name items want = (''qpush'' # name # items, read_size want)"

definition ClientImpl_qpop :: "bytes \<Rightarrow> bytes client_method" where
  "ClientImpl_qpop name = ([''qpop'', name], read_str)"

definition ClientImpl_qpop_items :: "bytes \<Rightarrow> int \<Rightarrow> bytes list client_method" where
  "ClientImpl_qpop_items name limit = ([''qpop'', name, str_int64 limit], read_list)"

definition ClientImpl_qslice :: "bytes \<Rightarrow> int \<Rightarrow> int \<Rightarrow> bytes list client_method" where
  "ClientImpl_qslice name begin end = ([''qslice'', name, str_int64 begin, str_int64 end], read_list)"

definition ClientImpl_qrange :: "bytes \<Rightarrow> int \<Rightarrow> int \<Rightarrow> bytes list client_method" where
  "ClientImpl_qrange name begin limit = ([''qrange'', name, str_int64 begin, str_int64 limit], read_list)"

definition ClientImpl_qclear :: "bytes \<Rightarrow> int client_method" where "ClientImpl_qclear name = ([''qclear'', name], read_int64)"

subsection \<open>The status of a response\<close>

definition codes :: "bytes set" where
  "codes = {''ok'', ''error'', ''not_found'', ''client_error'', ''out_of_range''}"

definition coded :: "proc_result \<Rightarrow> bool" where
  "coded r \<longleftrightarrow> (\<forall>sv resp ret. r = Some (sv, resp, ret) \<longrightarrow> (resp = [] \<longrightarrow> ret = PROC_ERROR) \<and> (resp \<noteq> [] \<longrightarrow> hd resp \<in> codes))"

definition returns_coded :: "handler \<Rightarrow> bool" where
  "returns_coded h \<longleftrightarrow> (\<forall>e req sv. coded (h e req sv))"

named_theorems coded_intros

lemma coded_answer [coded_intros]: "hd resp \<in> codes \<Longrightarrow> resp \<noteq> [] \<Longrightarrow> coded (answer sv resp)"
  by (simp add: coded_def answer_def)

lemma coded_answers [coded_intros]:
  "coded None" "coded (answer sv (reply_get st v m []))" "coded (answer sv (reply_bool st m []))" "coded (answer sv (reply_status st m []))" "coded (answer sv (reply_list st l []))"
  "coded (answer_int sv st n)" "coded (Some (sv, [], -1))"
  by (auto simp: coded_def answer_def reply_get_def reply_bool_def reply_status_def reply_list_def answer_int_def reply_int_def resp_add_int64_def PROC_ERROR_def codes_def Let_def
      split: option.splits if_splits)

lemma coded_calls [coded_intros]:
  "coded (answer_count sv i)" "coded (answer_slice sv r)" "coded (incr_answer sv i nv)" "coded (answer_sum sv x)"
  "coded k \<Longrightarrow> coded (check_num_params n req sv k)" "coded k \<Longrightarrow> coded (check_kv_key_range e n req sv k)"
  by (auto simp: answer_count_def answer_slice_def incr_answer_def answer_sum_def check_num_params_def check_kv_key_range_def codes_def Let_def
      split: option.splits prod.splits intro!: coded_intros)

lemma coded_if [coded_intros]: "coded (answer sv a) \<Longrightarrow> coded (answer sv b) \<Longrightarrow> coded (answer sv (if c then a else b))"
  by simp

text \<open>The loops that add to a response keep its status.\<close>

lemma multi_sizes_hd: "multi_sizes f ks resp = Some r \<Longrightarrow> resp \<noteq> [] \<Longrightarrow> r \<noteq> [] \<and> hd r = hd resp"
  by (induction f ks resp arbitrary: r rule: multi_sizes.induct) (auto simp: Let_def resp_add_int64_def split: if_splits option.splits)

lemma zpop_hd: "zpop name it s resp = (s', r) \<Longrightarrow> resp \<noteq> [] \<Longrightarrow> r \<noteq> [] \<and> hd r = hd resp"
proof (induction name it s resp arbitrary: s' r rule: zpop.induct)
  case (1 name it s resp)
  from "1.prems"(1) show ?case
    unfolding zpop.simps [of name it s resp] using "1.IH" "1.prems"(2) by (fastforce split: prod.splits bool.splits if_splits)
qed

lemma qpop_items_hd: "qpop_items pop n resp s = (s', r) \<Longrightarrow> resp \<noteq> [] \<Longrightarrow> r \<noteq> [] \<and> hd r = hd resp"
  by (induction pop n resp s arbitrary: s' r rule: qpop_items.induct) (auto split: prod.splits if_splits)

lemmas coded_loops = multi_sizes_hd [of _ _ "[''ok'']"] zpop_hd [of _ _ _ "[''ok'']"] qpop_items_hd [of _ _ "[''ok'']"]

lemma coded_strings:
  "returns_coded proc_get" "returns_coded proc_set" "returns_coded proc_del" "returns_coded proc_setx" "returns_coded proc_setnx" "returns_coded proc_getset" "returns_coded proc_getbit" "returns_coded proc_setbit" "returns_coded proc_countbit" "returns_coded proc_substr" "returns_coded proc_getrange" "returns_coded proc_strlen" "returns_coded proc_bitcount" "returns_coded proc_incr" "returns_coded proc_decr" "returns_coded proc_scan" "returns_coded proc_rscan" "returns_coded proc_keys" "returns_coded proc_rkeys" "returns_coded proc_exists" "returns_coded proc_multi_exists" "returns_coded proc_multi_get" "returns_coded proc_multi_set" "returns_coded proc_multi_del" "returns_coded proc_ttl" "returns_coded proc_expire" "returns_coded proc_clear_binlog" "returns_coded proc_flushdb" "returns_coded proc_get_key_range" "returns_coded proc_get_kv_range" "returns_coded proc_set_kv_range"
  by (auto simp: returns_coded_def proc_incr_dir_def proc_get_def proc_set_def proc_del_def proc_setx_def proc_setnx_def proc_getset_def proc_getbit_def proc_setbit_def proc_countbit_def proc_substr_def proc_getrange_def proc_strlen_def proc_bitcount_def proc_incr_def proc_decr_def proc_scan_def proc_rscan_def proc_keys_def proc_rkeys_def proc_exists_def proc_multi_exists_def proc_multi_get_def proc_multi_set_def proc_multi_del_def proc_ttl_def proc_expire_def proc_clear_binlog_def proc_flushdb_def proc_get_key_range_def proc_get_kv_range_def proc_set_kv_range_def codes_def Let_def split: option.split get_status.split prod.split intro!: coded_intros)

lemma coded_hashes:
  "returns_coded proc_hsize" "returns_coded proc_hget" "returns_coded proc_hset" "returns_coded proc_hdel" "returns_coded proc_hincr" "returns_coded proc_hdecr" "returns_coded proc_hclear" "returns_coded proc_hgetall" "returns_coded proc_hscan" "returns_coded proc_hrscan" "returns_coded proc_hkeys" "returns_coded proc_hvals" "returns_coded proc_hlist" "returns_coded proc_hrlist" "returns_coded proc_hexists" "returns_coded proc_multi_hexists" "returns_coded proc_multi_hsize" "returns_coded proc_multi_hget" "returns_coded proc_multi_hset" "returns_coded proc_multi_hdel" "returns_coded proc_hget"
  by (auto simp: returns_coded_def proc_hincr_dir_def proc_hsize_def proc_hget_def proc_hset_def proc_hdel_def proc_hincr_def proc_hdecr_def proc_hclear_def proc_hgetall_def proc_hscan_def proc_hrscan_def proc_hkeys_def proc_hvals_def proc_hlist_def proc_hrlist_def proc_hexists_def proc_multi_hexists_def proc_multi_hsize_def proc_multi_hget_def proc_multi_hset_def proc_multi_hdel_def proc_hget_def codes_def Let_def split: option.split get_status.split prod.split intro!: coded_intros dest: coded_loops)

lemma coded_zsets:
  "returns_coded proc_zrank" "returns_coded proc_zrrank" "returns_coded proc_zrange" "returns_coded proc_zrrange" "returns_coded proc_zsize" "returns_coded proc_zget" "returns_coded proc_zset" "returns_coded proc_zdel" "returns_coded proc_zincr" "returns_coded proc_zdecr" "returns_coded proc_zclear" "returns_coded proc_zfix" "returns_coded proc_zscan" "returns_coded proc_zrscan" "returns_coded proc_zkeys" "returns_coded proc_zlist" "returns_coded proc_zrlist" "returns_coded proc_zcount" "returns_coded proc_zsum" "returns_coded proc_zremrangebyrank" "returns_coded proc_zremrangebyscore" "returns_coded proc_zexists" "returns_coded proc_multi_zexists" "returns_coded proc_multi_zsize" "returns_coded proc_multi_zget" "returns_coded proc_multi_zset" "returns_coded proc_multi_zdel" "returns_coded proc_zpop_front" "returns_coded proc_zpop_back"
  by (auto simp: returns_coded_def proc_zincr_dir_def proc_zrank_def proc_zrrank_def proc_zrange_def proc_zrrange_def proc_zsize_def proc_zget_def proc_zset_def proc_zdel_def proc_zincr_def proc_zdecr_def proc_zclear_def proc_zfix_def proc_zscan_def proc_zrscan_def proc_zkeys_def proc_zlist_def proc_zrlist_def proc_zcount_def proc_zsum_def proc_zremrangebyrank_def proc_zremrangebyscore_def proc_zexists_def proc_multi_zexists_def proc_multi_zsize_def proc_multi_zget_def proc_multi_zset_def proc_multi_zdel_def proc_zpop_front_def proc_zpop_back_def codes_def Let_def split: option.split get_status.split prod.split intro!: coded_intros dest: coded_loops)

lemma coded_queues:
  "returns_coded proc_qsize" "returns_coded proc_qfront" "returns_coded proc_qback" "returns_coded proc_qpush" "returns_coded proc_qpush_front" "returns_coded proc_qpush_back" "returns_coded proc_qpop" "returns_coded proc_qpop_front" "returns_coded proc_qpop_back" "returns_coded proc_qtrim_front" "returns_coded proc_qtrim_back" "returns_coded proc_qfix" "returns_coded proc_qclear" "returns_coded proc_qlist" "returns_coded proc_qrlist" "returns_coded proc_qslice" "returns_coded proc_qrange" "returns_coded proc_qget" "returns_coded proc_qset"
  by (auto simp: returns_coded_def proc_qpush_func_def proc_qpop_func_def proc_qtrim_func_def proc_qsize_def proc_qfront_def proc_qback_def proc_qpush_def proc_qpush_front_def proc_qpush_back_def proc_qpop_def proc_qpop_front_def proc_qpop_back_def proc_qtrim_front_def proc_qtrim_back_def proc_qfix_def proc_qclear_def proc_qlist_def proc_qrlist_def proc_qslice_def proc_qrange_def proc_qget_def proc_qset_def codes_def Let_def split: option.split get_status.split prod.split intro!: coded_intros dest: coded_loops)

lemmas coded_all = coded_strings coded_hashes coded_zsets coded_queues

lemma serv_handler_coded: "serv_handler c = Some h \<Longrightarrow> returns_coded h"
proof -
  assume "serv_handler c = Some h"
  then obtain f where "(c, f, Some h) \<in> set reg_table" by (auto simp: serv_handler_def dest!: map_of_SomeD split: option.splits)
  then show ?thesis unfolding reg_table_def by (auto simp: coded_all)
qed



subsection \<open>A server at the other end\<close>

text \<open>
  What a client of the strings relies on: \<open>view\<close> are the pairs of the server at the other end, \<open>rng\<close> the range of keys it serves;
  \<open>open_link\<close> says that the link is open, and \<open>ready\<close> that the server has been told to answer for all keys on it.
\<close>

locale kv_server =
  fixes send :: "bytes list \<Rightarrow> 's \<Rightarrow> 's \<times> bytes list option"
    and open_link ready :: "'s \<Rightarrow> bool" and view :: "'s \<Rightarrow> bytes \<rightharpoonup> bytes" and rng :: "'s \<Rightarrow> bytes \<times> bytes" and key_ok :: "bytes \<Rightarrow> bool"
  assumes ready_open: "ready s \<Longrightarrow> open_link s"
    and ignore_law: "open_link s \<Longrightarrow> \<exists>s'. send [''ignore_key_range''] s = (s', Some [''ok'']) \<and> ready s' \<and> view s' = view s \<and> rng s' = rng s"
    and version_law: "ready s \<Longrightarrow> \<exists>v. send [''version''] s = (s, Some [''ok'', v])"
    and get_law: "ready s \<Longrightarrow> send [''get'', k] s = (s, Some (case view s k of None \<Rightarrow> [''not_found''] | Some v \<Rightarrow> [''ok'', v]))"
    and set_law: "ready s \<Longrightarrow> key_ok k \<Longrightarrow>
      \<exists>s' r. send [''set'', k, v] s = (s', Some (''ok'' # r)) \<and> ready s' \<and> view s' = (view s)(k \<mapsto> v) \<and> rng s' = rng s"
    and del_law: "ready s \<Longrightarrow> key_ok k \<Longrightarrow>
      \<exists>s' r. send [''del'', k] s = (s', Some (''ok'' # r)) \<and> ready s' \<and> view s' = (view s)(k := None) \<and> rng s' = rng s"
    and keys_law: "ready s \<Longrightarrow> send [''keys'', a, b, str_uint64 n] s =
      (s, Some (''ok'' # take (unat n) (sorted_list_of_set {k \<in> dom (view s). a < k \<and> (b = [] \<or> k \<le> b)})))"
    and range_law: "ready s \<Longrightarrow> \<exists>s' r. send [''set_kv_range'', a, b] s = (s', Some (''ok'' # r)) \<and> ready s' \<and> view s' = view s \<and> rng s' = (a, b)"
    and finite_view: "ready s \<Longrightarrow> finite (dom (view s))"
    and view_ok: "ready s \<Longrightarrow> k \<in> dom (view s) \<Longrightarrow> key_ok k"
    and key_nonempty: "key_ok k \<Longrightarrow> k \<noteq> []"
begin

lemma client_get: "ready s \<Longrightarrow> invoke send (ClientImpl_get k) s = (s, case view s k of None \<Rightarrow> (''not_found'', None) | Some v \<Rightarrow> (''ok'', Some v))"
  by (auto simp: invoke_def ClientImpl_get_def get_law read_str_def Status_new_def Status_ok_def split: option.split)

lemma client_set:
  assumes "ready s" and "key_ok k"
  shows "\<exists>s'. invoke send (ClientImpl_set k v) s = (s', ''ok'', None) \<and> ready s' \<and> view s' = (view s)(k \<mapsto> v) \<and> rng s' = rng s"
  using set_law [OF assms, of v] by (auto simp: invoke_def ClientImpl_set_def read_none_def Status_new_def)

lemma client_del:
  assumes "ready s" and "key_ok k"
  shows "\<exists>s'. invoke send (ClientImpl_del k) s = (s', ''ok'', None) \<and> ready s' \<and> view s' = (view s)(k := None) \<and> rng s' = rng s"
  using del_law [OF assms] by (auto simp: invoke_def ClientImpl_del_def read_none_def Status_new_def)

definition keys_between :: "'s \<Rightarrow> bytes \<Rightarrow> bytes \<Rightarrow> bytes list" where
  "keys_between s a b = sorted_list_of_set {k \<in> dom (view s). a < k \<and> (b = [] \<or> k \<le> b)}"

lemma client_keys: "ready s \<Longrightarrow> invoke send (ClientImpl_keys a b n) s = (s, ''ok'', Some (take (unat n) (keys_between s a b)))"
  by (simp add: invoke_def ClientImpl_keys_def keys_law read_list_def Status_new_def Status_ok_def keys_between_def)

lemma client_set_range:
  assumes "ready s"
  shows "\<exists>s'. invoke send (ClientImpl_set_kv_range a b) s = (s', ''ok'', None) \<and> ready s' \<and> view s' = view s \<and> rng s' = (a, b)"
  using range_law [OF assms, of a b] by (auto simp: invoke_def ClientImpl_set_kv_range_def read_none_def Status_new_def)

end

text \<open>
  The server of this development behind a link: the handler of the command runs on the state of the connection and of the
  server. \<open>e\<close> is the environment of the calls.
\<close>

definition remote :: "call_env \<Rightarrow> bytes list \<Rightarrow> conn \<times> net_server \<Rightarrow> (conn \<times> net_server) \<times> bytes list option" where
  "remote e req cs =
     (case call_proc e (Serv_proc (req ! 0)) req (fst cs) (snd cs) of None \<Rightarrow> (cs, None) | Some (c, net, resp, ret) \<Rightarrow> ((c, net), Some resp))"

definition remote_open :: "conn \<times> net_server \<Rightarrow> bool" where
  "remote_open cs \<longleftrightarrow> (let sv = net_data (snd cs) in sv_inv sv \<and> (\<forall>k \<in> dom (kv_view (sdb sv)). hname_ok k) \<and>
     hash_ready (meta sv) ''key_range'' \<and> dom (hcoll.view (data_map (meta sv)) ''key_range'') \<subseteq> {''kv_s'', ''kv_e''})"

definition remote_ready :: "conn \<times> net_server \<Rightarrow> bool" where
  "remote_ready cs \<longleftrightarrow> remote_open cs \<and> ignore_key_range (conn_link (fst cs))"

definition remote_view :: "conn \<times> net_server \<Rightarrow> bytes \<rightharpoonup> bytes" where
  "remote_view cs = kv_view (sdb (net_data (snd cs)))"

definition remote_rng :: "conn \<times> net_server \<Rightarrow> bytes \<times> bytes" where
  "remote_rng cs = (kv_range_s (net_data (snd cs)), kv_range_e (net_data (snd cs)))"

lemma remote_handlers:
  "serv_handler ''get'' = Some proc_get" "serv_handler ''set'' = Some proc_set" "serv_handler ''del'' = Some proc_del"
  "serv_handler ''keys'' = Some proc_keys" "serv_handler ''set_kv_range'' = Some proc_set_kv_range"
  "serv_handler ''ignore_key_range'' = None" "serv_handler ''version'' = None"
  by (simp_all add: serv_handler_def reg_table_def)

lemma remote_call:
  assumes "serv_handler (req ! 0) = Some h" and "ignore_key_range (conn_link c)"
    and "h ((request e)\<lparr>ignore_range := True\<rparr>) req (net_data net) = Some (sv, resp, ret)"
  shows "remote e req (c, net) = ((c, net\<lparr>net_data := sv\<rparr>), Some resp)"
  using assms by (simp add: remote_def call_proc_def)

lemma proc_del_correct:
  assumes "sv_inv sv" and "in_range e key sv" and "hname_ok key"
  shows "\<exists>h s. proc_del e [c, key] sv = Some (sv\<lparr>expiration := h, sdb := s\<rparr>, [''ok'', ''1''], 0) \<and> sv_inv (sv\<lparr>expiration := h, sdb := s\<rparr>) \<and>
    kv_view s = (kv_view (sdb sv))(key := None)"
proof -
  note i = ttl_invD [OF assms(1) [unfolded sv_inv_def]]
  let ?s = "fst (ssdb_del key SYNC (sdb sv))"
  have d: "data_map ?s = (data_map (sdb sv))(encode_kv_key key := None)" "snd (ssdb_del key SYNC (sdb sv)) = 1"
    using ssdb_del_data i(9) by (auto simp: io_ok_def)
  have io: "io_ok ?s" by (rule io_ok_run [OF i(9) kv_ops_run(4)])
  note g = kv_update_good [OF i(1) io d(1)]
  have inv: "ttl_inv (expiration sv, ?s)" using ttl_inv_frame [OF assms(1) [unfolded sv_inv_def] g] .
  obtain h s r where e: "del_ttl key (expiration sv, ?s) = ((h, s), r)" by (metis prod.exhaust)
  note t = del_ttl_correct [OF inv assms(3) e]
  have "kv_view s = kv_view ?s"
    using t(4) io by (auto simp: leaves_def kv_view_def io_ok_def z_types_def fun_eq_iff)
  moreover have "kv_view ?s = (kv_view (sdb sv))(key := None)" by (auto simp: kv_view_def d(1) fun_eq_iff)
  moreover have "proc_del e [c, key] sv = Some (sv\<lparr>expiration := h, sdb := s\<rparr>, [''ok'', ''1''], 0)"
    using assms(2) d(2) e by (auto simp: proc_del_def server_defs in_range_def case_prod_unfold)
  ultimately show ?thesis using t(2) by (auto simp: sv_inv_def)
qed

lemma str_to_uint64_str_uint64: "str_to_uint64 en (str_uint64 v) = (v, 0)"
proof -
  have v: "unat v < 2 ^ 64" using unsigned_less [of v] by simp
  then have "length (decimal (unat v)) \<le> 20" by (intro length_decimal) simp_all
  then have "str_uint64 v = decimal_int (int (unat v))" by (simp add: str_uint64_def decimal_int_def)
  moreover have "unat UINT64_MAX = 2 ^ 64 - 1" by (simp add: UINT64_MAX_def)
  ultimately show ?thesis using v by (auto simp: str_to_uint64_def strtoull_def strto_scan_decimal_int strto_errno_def)
qed

text \<open>An iterator whose values are not read still returns the keys.\<close>

interpretation kkeys: decoding_iterator KIterator_next k_it "\<lambda>_. True" "\<lambda>_. entry_KV" "\<lambda>e. tl (fst e)" k_key "\<lambda>_. True"
proof unfold_locales
  fix k :: k_iterator assume "iter_ok (k_it k)" "iter_rest (k_it k) = []"
  then show "snd (KIterator_next k) = False"
    using Iterator_next_cases(2) [of "k_it k"] by (auto simp: KIterator_next.simps [of k] split: prod.splits bool.splits)
qed (use KIterator_next_step in force)+

lemma k_loop_keys: "unat (it_limit (k_it it)) \<le> n \<Longrightarrow> k_loop (\<lambda>it. [k_key it]) it = kkeys.drain n it"
proof (induction n arbitrary: it)
  case 0
  then show ?case using KIterator_next_limit [of it] by (auto simp: k_loop.simps [of _ it] split: prod.split bool.split)
next
  case (Suc n)
  then show ?case using KIterator_next_limit [of it] by (fastforce simp: k_loop.simps [of _ it] split: prod.split bool.split)
qed

lemma scan_limit: "unat (it_limit (k_it (ssdb_scan start end limit s))) \<le> unat limit"
  unfolding ssdb_scan_it(2) by (simp add: ssdb_iterator_def Iterator_new_def Let_def)

lemma keys_scan:
  assumes "kv_sorted (entries (ldb s))"
  shows "k_loop (\<lambda>it. [k_key it]) (KIterator_return_val False (ssdb_scan start end limit s)) =
    take (unat limit) (map fst (filter (\<lambda>e. start < fst e \<and> (end = [] \<or> fst e \<le> end)) (kv_list s)))"
proof -
  let ?it = "ssdb_scan start end limit s" let ?n = "unat limit"
  have i: "iter_ok (k_it ?it)" unfolding ssdb_scan_it(2) by (rule ssdb_iterator_rest(1) [OF assms])
  have "k_loop (\<lambda>it. [k_key it]) (KIterator_return_val False ?it) = kkeys.drain ?n (KIterator_return_val False ?it)"
    by (rule k_loop_keys) (use scan_limit [of start "end" limit s] in \<open>simp add: KIterator_return_val_def\<close>)
  also have "\<dots> = take ?n (map (\<lambda>e. tl (fst e)) (takeWhile entry_KV (iter_rest (k_it ?it))))"
    using kkeys.drain_correct [of "KIterator_return_val False ?it" ?n] i by (simp add: KIterator_return_val_def)
  also have "\<dots> = map fst (kiter.drain ?n ?it)"
    using kiter.drain_correct [of ?it ?n] i ssdb_scan_it(1) by (simp add: take_map o_def)
  finally show ?thesis using ssdb_scan_correct [OF assms] by (simp add: take_map)
qed

lemma kv_list_dom:
  assumes "kv_sorted (entries (ldb s))"
  shows "map fst (filter (\<lambda>e. P (fst e)) (kv_list s)) = sorted_list_of_set {k \<in> dom (kv_view s). P k}"
proof -
  have "kv_sorted (filter (\<lambda>e. P (fst e)) (kv_list s))" unfolding kv_list_def by (intro kv_sorted_filter sub_list_sorted assms)
  then have s: "sorted_wrt (<) (map fst (filter (\<lambda>e. P (fst e)) (kv_list s)))" by (simp add: kv_sorted_def)
  have "set (map fst (filter (\<lambda>e. P (fst e)) (kv_list s))) = {k \<in> dom (kv_view s). P k}"
    unfolding map_of_kv_list [symmetric] by (auto simp: dom_map_of_conv_image_fst)
  with s show ?thesis by (metis sorted_list_of_set.idem_if_sorted_distinct strict_sorted_iff)
qed

lemma finite_kv_view: "finite (dom (kv_view s))"
  unfolding map_of_kv_list [symmetric] by (rule finite_dom_map_of)

lemma proc_keys_correct:
  assumes "kv_sorted (entries (ldb (sdb sv)))"
  shows "proc_keys e [c, a, b, str_uint64 n] sv =
    Some (sv, ''ok'' # take (unat n) (sorted_list_of_set {k \<in> dom (kv_view (sdb sv)). a < k \<and> (b = [] \<or> k \<le> b)}), 0)"
  using keys_scan [OF assms, of a b n] kv_list_dom [OF assms, of "\<lambda>k. a < k \<and> (b = [] \<or> k \<le> b)"] str_to_uint64_str_uint64 [of 0 n]
  by (simp add: proc_keys_def server_defs Bytes_Uint64_def)

text \<open>The range of a server, in memory and in the database of its own data.\<close>

lemma set_kv_range_correct:
  assumes "hash_ready (meta sv) ''key_range''" and "dom (hcoll.view (data_map (meta sv)) ''key_range'') \<subseteq> {''kv_s'', ''kv_e''}"
  shows "\<exists>m. set_kv_range a b sv = (sv\<lparr>meta := m, kv_range_s := a, kv_range_e := b\<rparr>, 0) \<and> hash_ready m ''key_range'' \<and>
    dom (hcoll.view (data_map m) ''key_range'') \<subseteq> {''kv_s'', ''kv_e''}"
proof -
  have k: "hname_ok ''kv_s''" "hname_ok ''kv_e''" by code_simp+
  have put: "hash_ready (fst (hset ''key_range'' f v SYNC m)) ''key_range'' \<and> snd (hset ''key_range'' f v SYNC m) \<noteq> -1 \<and>
      dom (hcoll.view (data_map (fst (hset ''key_range'' f v SYNC m))) ''key_range'') \<subseteq> {''kv_s'', ''kv_e''}"
    if m: "hash_ready m ''key_range''" "dom (hcoll.view (data_map m) ''key_range'') \<subseteq> {''kv_s'', ''kv_e''}" and f: "f \<in> {''kv_s'', ''kv_e''}" for m f v
  proof -
    have "card (dom (hcoll.view (data_map m) ''key_range'')) \<le> card {''kv_s'', ''kv_e''}" by (intro card_mono m(2)) simp
    then have "size_fits (Suc (nat (hsize ''key_range'' m)))" using hsize_ready [OF m(1)] by (simp add: size_fits_def)
    moreover have "hname_ok f" using f k by auto
    ultimately show ?thesis
      using hash_put_ready [OF m(1), of f v SYNC] hcoll.view_put [of "''key_range''" f "data_map m" v "''key_range''"] hash_readyD(3) [OF m(1)] m(2) f
      by auto
  qed
  let ?m = "fst (hset ''key_range'' ''kv_s'' a SYNC (meta sv))"
  have 1: "hash_ready ?m ''key_range''" "snd (hset ''key_range'' ''kv_s'' a SYNC (meta sv)) \<noteq> -1" "dom (hcoll.view (data_map ?m) ''key_range'') \<subseteq> {''kv_s'', ''kv_e''}"
    using put [OF assms, of "''kv_s''" a] by auto
  from put [OF 1(1,3), of "''kv_e''" b] 1(2) show ?thesis
    by (intro exI [of _ "fst (hset ''key_range'' ''kv_e'' b SYNC ?m)"]) (auto simp: set_kv_range_def case_prod_beta Let_def)
qed

interpretation peer: kv_server "remote e" remote_open remote_ready remote_view remote_rng hname_ok for e
proof (unfold_locales, goal_cases)
  case (1 s)
  then show ?case by (simp add: remote_ready_def)
next
  case (2 s)
  then show ?case by (cases s) (simp add: remote_def call_proc_def remote_handlers serv_proc_ignore_key_range_def remote_ready_def remote_open_def remote_view_def remote_rng_def)
next
  case (3 s)
  then show ?case by (simp add: remote_def call_proc_def remote_handlers serv_proc_version_def)
next
  case (4 s k)
  obtain c net where s: "s = (c, net)" by fastforce
  have i: "ignore_key_range (conn_link c)" "sv_inv (net_data net)" using 4 by (simp_all add: s remote_ready_def remote_open_def Let_def)
  have io: "io_ok (sdb (net_data net))" using i(2) ttl_invD(9) [of "expiration (net_data net)"] by (simp add: sv_inv_def)
  have "in_range ((request e)\<lparr>ignore_range := True\<rparr>) k (net_data net)" by (simp add: in_range_def)
  from remote_call [where h = proc_get and req = "[''get'', k]" and e = e, OF _ i(1) proc_get_view [OF io this]] show ?case by (simp add: s remote_handlers remote_view_def)
next
  case (5 s k v)
  obtain c net where s: "s = (c, net)" by fastforce
  have i: "ignore_key_range (conn_link c)" "sv_inv (net_data net)" using 5 by (simp_all add: s remote_ready_def remote_open_def Let_def)
  have r: "in_range ((request e)\<lparr>ignore_range := True\<rparr>) k (net_data net)" by (simp add: in_range_def)
  have "k \<noteq> []" using 5 by (simp add: hname_ok_def)
  from proc_set_correct [OF i(2) r this, of "''set''" v] obtain s' where s': "proc_set ((request e)\<lparr>ignore_range := True\<rparr>) [''set'', k, v] (net_data net) =
    Some ((net_data net)\<lparr>sdb := s'\<rparr>, [''ok'', ''1''], 0)" "sv_inv ((net_data net)\<lparr>sdb := s'\<rparr>)" "kv_view s' = (kv_view (sdb (net_data net)))(k \<mapsto> v)" by blast
  from remote_call [where h = proc_set and req = "[''set'', k, v]" and e = e, OF _ i(1) s'(1)] show ?case using 5 s'(2,3) by (simp add: s remote_handlers remote_ready_def remote_open_def Let_def remote_view_def remote_rng_def)
next
  case (6 s k)
  obtain c net where s: "s = (c, net)" by fastforce
  have i: "ignore_key_range (conn_link c)" "sv_inv (net_data net)" using 6 by (simp_all add: s remote_ready_def remote_open_def Let_def)
  have r: "in_range ((request e)\<lparr>ignore_range := True\<rparr>) k (net_data net)" by (simp add: in_range_def)
  from proc_del_correct [OF i(2) r, of "''del''"] 6 obtain h s' where s': "proc_del ((request e)\<lparr>ignore_range := True\<rparr>) [''del'', k] (net_data net) =
    Some ((net_data net)\<lparr>expiration := h, sdb := s'\<rparr>, [''ok'', ''1''], 0)" "sv_inv ((net_data net)\<lparr>expiration := h, sdb := s'\<rparr>)"
    "kv_view s' = (kv_view (sdb (net_data net)))(k := None)" by blast
  from remote_call [where h = proc_del and req = "[''del'', k]" and e = e, OF _ i(1) s'(1)] show ?case using 6 s'(2,3) by (simp add: s remote_handlers remote_ready_def remote_open_def Let_def remote_view_def remote_rng_def)
next
  case (7 s a b n)
  obtain c net where s: "s = (c, net)" by fastforce
  have i: "ignore_key_range (conn_link c)" "sv_inv (net_data net)" using 7 by (simp_all add: s remote_ready_def remote_open_def Let_def)
  have "kv_sorted (entries (ldb (sdb (net_data net))))" using i(2) ttl_invD(9) [of "expiration (net_data net)"] by (simp add: sv_inv_def io_ok_def)
  from remote_call [where h = proc_keys and req = "[''keys'', a, b, str_uint64 n]" and e = e, OF _ i(1) proc_keys_correct [OF this]] show ?case by (simp add: s remote_handlers remote_view_def)
next
  case (8 s a b)
  obtain c net where s: "s = (c, net)" by fastforce
  have i: "ignore_key_range (conn_link c)" "hash_ready (meta (net_data net)) ''key_range''"
    "dom (hcoll.view (data_map (meta (net_data net))) ''key_range'') \<subseteq> {''kv_s'', ''kv_e''}" using 8 by (simp_all add: s remote_ready_def remote_open_def Let_def)
  from set_kv_range_correct [OF i(2,3), of a b] obtain m where m: "set_kv_range a b (net_data net) = ((net_data net)\<lparr>meta := m, kv_range_s := a, kv_range_e := b\<rparr>, 0)"
    "hash_ready m ''key_range''" "dom (hcoll.view (data_map m) ''key_range'') \<subseteq> {''kv_s'', ''kv_e''}" by blast
  have "proc_set_kv_range ((request e)\<lparr>ignore_range := True\<rparr>) [''set_kv_range'', a, b] (net_data net) =
    Some ((net_data net)\<lparr>meta := m, kv_range_s := a, kv_range_e := b\<rparr>, [''ok''], 0)" by (simp add: proc_set_kv_range_def answer_def m(1))
  from remote_call [where h = proc_set_kv_range and req = "[''set_kv_range'', a, b]" and e = e, OF _ i(1) this] show ?case using 8 m(2,3) by (simp add: s remote_handlers remote_ready_def remote_open_def Let_def remote_view_def remote_rng_def sv_inv_def)
next
  case (9 s)
  show ?case unfolding remote_view_def by (rule finite_kv_view)
next
  case (10 s k)
  then show ?case by (auto simp: remote_ready_def remote_open_def Let_def remote_view_def)
next
  case (11 k)
  then show ?case by (simp add: hname_ok_def)
qed
end
