(* ===== verification/Cluster.thy ===== *)
theory Cluster
  imports ProcHash
begin

section \<open>The cluster (\<open>cluster.cpp\<close>, \<open>cluster_store.cpp\<close>, \<open>util/line.h\<close>, \<open>proc_cluster.cpp\<close>)\<close>

text \<open>
  A server can keep the list of the nodes of a cluster: which range of keys each of them serves. The list is in memory and,
  one field for each node, in a hash of the database of the server's own data, from which it is loaded at the start.
\<close>

subsection \<open>Lines\<close>

definition enc_write :: "bytes \<Rightarrow> bytes \<Rightarrow> bytes" where
  "enc_write data val = val @ str_escape data @ [CHR 0x0A]"

definition enc_write_int :: "int \<Rightarrow> bytes \<Rightarrow> bytes" where
  "enc_write_int data val = enc_write (str_int data) val"

record line_decoder =
  dec_buf :: bytes
  dec_spos :: nat
  dec_epos :: nat

definition LineDecoder_new :: "bytes \<Rightarrow> line_decoder" where
  "LineDecoder_new s = \<lparr>dec_buf = s, dec_spos = 0, dec_epos = 0\<rparr>"

text \<open>\<open>read\<close>: \<open>None\<close> when no full line is left; then only \<open>epos\<close> has moved.\<close>

definition dec_read :: "line_decoder \<Rightarrow> line_decoder \<times> bytes option" where
  "dec_read d =
     (let epos = dec_epos d + length (takeWhile (\<lambda>c. c \<noteq> CHR 0x0A) (drop (dec_epos d) (dec_buf d)))
      in if epos \<ge> length (dec_buf d) then (d\<lparr>dec_epos := epos\<rparr>, None)
         else (d\<lparr>dec_spos := epos + 1, dec_epos := epos + 1\<rparr>,
               Some (str_unescape (take (epos - dec_spos d) (drop (dec_spos d) (dec_buf d))))))"

definition dec_read_int :: "line_decoder \<Rightarrow> line_decoder \<times> int option" where
  "dec_read_int d = (case dec_read d of (d, None) \<Rightarrow> (d, None) | (d, Some line) \<Rightarrow> (d, Some (fst (str_to_int 0 line))))"

subsection \<open>Nodes\<close>

record key_range =
  range_begin :: bytes
  range_end :: bytes

definition overlapped :: "key_range \<Rightarrow> key_range \<Rightarrow> bool" where
  "overlapped this r =
     (if range_begin this \<noteq> [] \<and> range_end r \<noteq> [] \<and> range_begin this \<ge> range_end r then False
      else if range_end this \<noteq> [] \<and> range_begin r \<noteq> [] \<and> range_end this \<le> range_begin r then False
      else True)"

record node =
  node_id :: int
  node_status :: int
  node_range :: key_range
  node_ip :: bytes
  node_port :: int

definition NODE_INIT :: int where "NODE_INIT = 0"
definition NODE_SERVING :: int where "NODE_SERVING = 1"

text \<open>The constructor does not set the port: \<open>p\<close> is what is there.\<close>

definition Node_new :: "int \<Rightarrow> node" where
  "Node_new p = \<lparr>node_id = 0, node_status = NODE_INIT, node_range = \<lparr>range_begin = [], range_end = []\<rparr>, node_ip = [], node_port = p\<rparr>"

subsection \<open>The store\<close>

definition kv_node_list_key :: bytes where "kv_node_list_key = ''KV_NODE_LIST''"

definition node_image :: "node \<Rightarrow> bytes" where
  "node_image n = enc_write_int (node_port n) (enc_write (node_ip n) (enc_write (range_end (node_range n))
     (enc_write (range_begin (node_range n)) (enc_write_int (node_status n) (enc_write_int (node_id n) [])))))"

definition save_kv_node :: "node \<Rightarrow> ssdb \<Rightarrow> ssdb \<times> int" where
  "save_kv_node n db =
     (let (db, ret) = hset kv_node_list_key (str_int (node_id n)) (node_image n) SYNC db in (db, if ret = -1 then -1 else 0))"

definition upd_opt :: "('a \<Rightarrow> 'b \<Rightarrow> 'b) \<Rightarrow> 'a option \<Rightarrow> 'b \<Rightarrow> 'b" where
  "upd_opt f x n = (case x of None \<Rightarrow> n | Some v \<Rightarrow> f v n)"

definition node_read :: "bytes \<Rightarrow> node \<Rightarrow> node" where
  "node_read val n =
     (let d = LineDecoder_new val;
          (d, i) = dec_read_int d; n = upd_opt (\<lambda>v n. n\<lparr>node_id := v\<rparr>) i n;
          (d, st) = dec_read_int d; n = upd_opt (\<lambda>v n. n\<lparr>node_status := v\<rparr>) st n;
          (d, b) = dec_read d; n = upd_opt (\<lambda>v n. n\<lparr>node_range := (node_range n)\<lparr>range_begin := v\<rparr>\<rparr>) b n;
          (d, e) = dec_read d; n = upd_opt (\<lambda>v n. n\<lparr>node_range := (node_range n)\<lparr>range_end := v\<rparr>\<rparr>) e n;
          (d, ip) = dec_read d; n = upd_opt (\<lambda>v n. n\<lparr>node_ip := v\<rparr>) ip n;
          (d, port) = dec_read_int d
      in upd_opt (\<lambda>v n. n\<lparr>node_port := v\<rparr>) port n)"

definition load_kv_node :: "int \<Rightarrow> node \<Rightarrow> ssdb \<Rightarrow> node \<times> int" where
  "load_kv_node nid n db =
     (let g = hget kv_node_list_key (str_int nid) db
      in if get_ret g \<le> 0 then (n, get_ret g) else (node_read (get_val g) n, 1))"

definition store_del_kv_node :: "int \<Rightarrow> ssdb \<Rightarrow> ssdb \<times> int" where
  "store_del_kv_node nid db = hdel kv_node_list_key (str_int nid) SYNC db"

text \<open>\<open>load_kv_node_list\<close>: the list of keys that the iterator goes through, and what is loaded for each. It always returns 0.\<close>

definition load_kv_node_list :: "int \<Rightarrow> ssdb \<Rightarrow> node list" where
  "load_kv_node_list p db =
     map (\<lambda>k. fst (load_kv_node (fst (str_to_int 0 k)) (Node_new p) db)) (h_loop (\<lambda>it. [h_key it]) (hscan kv_node_list_key [] [] 10000 db))"

subsection \<open>The cluster\<close>

record cluster =
  cdb :: ssdb
  next_id :: int
  kv_node_list :: "node list"

definition Cluster_new :: "ssdb \<Rightarrow> cluster" where
  "Cluster_new db = \<lparr>cdb = db, next_id = 1, kv_node_list = []\<rparr>"

definition Cluster_init :: "int \<Rightarrow> cluster \<Rightarrow> cluster" where
  "Cluster_init p c =
     (let l = load_kv_node_list p (cdb c)
      in c\<lparr>kv_node_list := kv_node_list c @ l, next_id := foldl (\<lambda>i n. if node_id n \<ge> i then wrap32 (node_id n + 1) else i) (next_id c) (kv_node_list c @ l)\<rparr>)"

definition add_kv_node :: "bytes \<Rightarrow> int \<Rightarrow> cluster \<Rightarrow> cluster \<times> int" where
  "add_kv_node ip port c =
     (let n = (Node_new port)\<lparr>node_id := next_id c, node_ip := ip, node_port := port\<rparr>;
          c = c\<lparr>next_id := wrap32 (next_id c + 1)\<rparr>;
          (db, ret) = save_kv_node n (cdb c); c = c\<lparr>cdb := db\<rparr>
      in if ret = -1 then (c, -1) else (c\<lparr>kv_node_list := kv_node_list c @ [n]\<rparr>, node_id n))"

text \<open>The index of the first node with an id.\<close>

fun find_node :: "int \<Rightarrow> node list \<Rightarrow> nat option" where
  "find_node nid [] = None"
| "find_node nid (n # ns) = (if node_id n = nid then Some 0 else map_option Suc (find_node nid ns))"

definition del_kv_node :: "int \<Rightarrow> cluster \<Rightarrow> cluster \<times> int" where
  "del_kv_node nid c =
     (case find_node nid (kv_node_list c) of
        None \<Rightarrow> (c, 0)
      | Some i \<Rightarrow>
          let (db, ret) = store_del_kv_node nid (cdb c); c = c\<lparr>cdb := db\<rparr>
          in if ret = -1 then (c, -1) else (c\<lparr>kv_node_list := take i (kv_node_list c) @ drop (Suc i) (kv_node_list c)\<rparr>, 1))"

text \<open>The assignment through the pointer that \<open>get_kv_node_ref\<close> returns, and the save.\<close>

definition change_node :: "nat \<Rightarrow> (node \<Rightarrow> node) \<Rightarrow> cluster \<Rightarrow> cluster \<times> int" where
  "change_node i f c =
     (let n = f (kv_node_list c ! i); c = c\<lparr>kv_node_list := (kv_node_list c)[i := n]\<rparr>;
          (db, ret) = save_kv_node n (cdb c)
      in (c\<lparr>cdb := db\<rparr>, if ret = -1 then -1 else 1))"

definition cluster_set_kv_range :: "int \<Rightarrow> key_range \<Rightarrow> cluster \<Rightarrow> cluster \<times> int" where
  "cluster_set_kv_range nid r c =
     (if \<exists>n \<in> set (kv_node_list c). node_id n \<noteq> nid \<and> node_status n = NODE_SERVING \<and> overlapped (node_range n) r then (c, -1)
      else case find_node nid (kv_node_list c) of
             None \<Rightarrow> (c, 0)
           | Some i \<Rightarrow> change_node i (\<lambda>n. n\<lparr>node_range := r\<rparr>) c)"

definition set_kv_status :: "int \<Rightarrow> int \<Rightarrow> cluster \<Rightarrow> cluster \<times> int" where
  "set_kv_status nid st c =
     (case find_node nid (kv_node_list c) of
        None \<Rightarrow> (c, 0)
      | Some i \<Rightarrow> change_node i (\<lambda>n. n\<lparr>node_status := st\<rparr>) c)"

definition get_kv_node :: "int \<Rightarrow> cluster \<Rightarrow> node option" where
  "get_kv_node nid c = (case find_node nid (kv_node_list c) of None \<Rightarrow> None | Some i \<Rightarrow> Some (kv_node_list c ! i))"

subsection \<open>Handlers\<close>

fun add_ints :: "int list \<Rightarrow> bytes list \<Rightarrow> bytes list option" where
  "add_ints [] resp = Some resp"
| "add_ints (i # is) resp = (case resp_add_int64 i resp of None \<Rightarrow> None | Some resp \<Rightarrow> add_ints is resp)"

fun add_nodes :: "node list \<Rightarrow> bytes list \<Rightarrow> bytes list option" where
  "add_nodes [] resp = Some resp"
| "add_nodes (n # ns) resp =
     (case add_ints [6, node_id n, node_status n] resp of
        None \<Rightarrow> None
      | Some resp \<Rightarrow>
          (case resp_add_int64 (node_port n) (resp @ [range_begin (node_range n), range_end (node_range n), node_ip n]) of
             None \<Rightarrow> None
           | Some resp \<Rightarrow> add_nodes ns resp))"

type_synonym cluster_result = "(cluster \<times> bytes list) option"

definition cluster_answer :: "cluster \<times> int \<Rightarrow> cluster_result" where
  "cluster_answer cr = (case cr of (c, ret) \<Rightarrow> if ret = -1 then Some (c, [''error'']) else map_option (\<lambda>resp. (c, resp)) (reply_int 0 ret []))"

definition proc_cluster_kv_node_list :: "bytes list \<Rightarrow> cluster \<Rightarrow> cluster_result" where
  "proc_cluster_kv_node_list req c = map_option (\<lambda>resp. (c, resp)) (add_nodes (kv_node_list c) [''ok''])"

definition proc_cluster_add_kv_node :: "bytes list \<Rightarrow> cluster \<Rightarrow> cluster_result" where
  "proc_cluster_add_kv_node req c =
     (if length req < 3 then Some (c, [''client_error'']) else cluster_answer (add_kv_node (req ! 1) (Bytes_Int (req ! 2)) c))"

definition proc_cluster_del_kv_node :: "bytes list \<Rightarrow> cluster \<Rightarrow> cluster_result" where
  "proc_cluster_del_kv_node req c =
     (if length req < 2 then Some (c, [''client_error'']) else cluster_answer (del_kv_node (Bytes_Int (req ! 1)) c))"

definition proc_cluster_set_kv_range :: "bytes list \<Rightarrow> cluster \<Rightarrow> cluster_result" where
  "proc_cluster_set_kv_range req c =
     (if length req < 4 then Some (c, [''client_error''])
      else cluster_answer (cluster_set_kv_range (Bytes_Int (req ! 1)) \<lparr>range_begin = req ! 2, range_end = req ! 3\<rparr> c))"

definition proc_cluster_set_kv_status :: "bytes list \<Rightarrow> cluster \<Rightarrow> cluster_result" where
  "proc_cluster_set_kv_status req c =
     (if length req < 3 then Some (c, [''client_error''])
      else let st = Bytes_Int (req ! 2)
           in if st \<noteq> NODE_INIT \<and> st \<noteq> NODE_SERVING then Some (c, [''client_error'', ''invalid status''])
              else cluster_answer (set_kv_status (Bytes_Int (req ! 1)) st c))"

subsection \<open>A node as lines\<close>

lemma escape_no_newline: "CHR 0x0A \<notin> set (str_escape s)"
proof (induction s)
  case (Cons c s)
  have "\<forall>d \<in> set [0..<16]. hex_digit d \<noteq> CHR 0x0A" by code_simp
  then have h: "d < 16 \<Longrightarrow> hex_digit d \<noteq> CHR 0x0A" for d by simp
  have "of_char c div 16 < (16 :: nat)" using nat_of_char_less_256 [of c] by linarith
  then have "CHR 0x0A \<notin> set (escape_char c)"
    using h [of "of_char c div 16"] h [of "of_char c mod 16"] by (auto simp: escape_char_def)
  with Cons show ?case by simp
qed simp

text \<open>A decoder at the start of a line.\<close>

definition dec_at :: "line_decoder \<Rightarrow> bytes \<Rightarrow> bool" where
  "dec_at d rest \<longleftrightarrow> dec_spos d = dec_epos d \<and> dec_epos d \<le> length (dec_buf d) \<and> drop (dec_epos d) (dec_buf d) = rest"

lemma dec_read_line:
  assumes "dec_at d (str_escape x @ CHR 0x0A # rest)"
  shows "\<exists>d'. dec_read d = (d', Some x) \<and> dec_at d' rest"
proof -
  have d: "dec_spos d = dec_epos d" "dec_epos d \<le> length (dec_buf d)" "drop (dec_epos d) (dec_buf d) = str_escape x @ CHR 0x0A # rest"
    using assms by (auto simp: dec_at_def)
  have t: "takeWhile (\<lambda>c. c \<noteq> CHR 0x0A) (str_escape x @ CHR 0x0A # rest) = str_escape x"
    using escape_no_newline [of x] by (simp add: takeWhile_append)
  let ?e = "dec_epos d + length (str_escape x)"
  have len: "length (dec_buf d) = dec_epos d + length (str_escape x) + 1 + length rest"
    using arg_cong [OF d(3), of length] d(2) by simp
  have "drop (Suc ?e) (dec_buf d) = drop (Suc (length (str_escape x))) (drop (dec_epos d) (dec_buf d))" by (simp add: add.commute)
  then have r: "drop (Suc ?e) (dec_buf d) = rest" unfolding d(3) by simp
  show ?thesis using len d(1,2) r by (simp add: dec_read_def Let_def d(3) t dec_at_def str_unescape_escape)
qed

lemma str_int_round:
  assumes "in_int32 v"
  shows "fst (str_to_int 0 (str_int v)) = v"
proof -
  have "in_int64 v" using assms by (simp add: in_int32_def in_int64_def)
  then have "str_to_int64 0 (str_int v) = (v, 0)" using str_to_int64_str_int64 by (simp add: str_int_def str_int64_def)
  then show ?thesis using wrap32_id [OF assms] by (auto simp: str_to_int_def str_to_int64_def split: prod.splits)
qed

lemma dec_read_int_line:
  assumes "dec_at d (str_escape (str_int v) @ CHR 0x0A # rest)" and "in_int32 v"
  shows "\<exists>d'. dec_read_int d = (d', Some v) \<and> dec_at d' rest"
  using dec_read_line [OF assms(1)] str_int_round [OF assms(2)] by (auto simp: dec_read_int_def)

definition node_ok :: "node \<Rightarrow> bool" where
  "node_ok n \<longleftrightarrow> in_int32 (node_id n) \<and> in_int32 (node_status n) \<and> in_int32 (node_port n)"

lemma node_read_image:
  assumes "node_ok n"
  shows "node_read (node_image n) m = n"
proof -
  let ?L = "\<lambda>x rest. str_escape x @ CHR 0x0A # rest"
  let ?r5 = "?L (str_int (node_port n)) []" let ?r4 = "?L (node_ip n) ?r5" let ?r3 = "?L (range_end (node_range n)) ?r4"
  let ?r2 = "?L (range_begin (node_range n)) ?r3" let ?r1 = "?L (str_int (node_status n)) ?r2" let ?r0 = "?L (str_int (node_id n)) ?r1"
  have i: "in_int32 (node_id n)" "in_int32 (node_status n)" "in_int32 (node_port n)" using assms by (simp_all add: node_ok_def)
  have "dec_at (LineDecoder_new (node_image n)) ?r0" by (simp add: dec_at_def LineDecoder_new_def node_image_def enc_write_int_def enc_write_def)
  from dec_read_int_line [OF this i(1)] obtain d1 where d1: "dec_read_int (LineDecoder_new (node_image n)) = (d1, Some (node_id n))" "dec_at d1 ?r1" by blast
  from dec_read_int_line [OF d1(2) i(2)] obtain d2 where d2: "dec_read_int d1 = (d2, Some (node_status n))" "dec_at d2 ?r2" by blast
  from dec_read_line [OF d2(2)] obtain d3 where d3: "dec_read d2 = (d3, Some (range_begin (node_range n)))" "dec_at d3 ?r3" by blast
  from dec_read_line [OF d3(2)] obtain d4 where d4: "dec_read d3 = (d4, Some (range_end (node_range n)))" "dec_at d4 ?r4" by blast
  from dec_read_line [OF d4(2)] obtain d5 where d5: "dec_read d4 = (d5, Some (node_ip n))" "dec_at d5 ?r5" by blast
  from dec_read_int_line [OF d5(2) i(3)] obtain d6 where d6: "dec_read_int d5 = (d6, Some (node_port n))" by blast
  show ?thesis by (simp add: node_read_def Let_def d1 d2 d3 d4 d5 d6 upd_opt_def)
qed

subsection \<open>Records in a store\<close>

lemma remove_nth_keys:
  assumes "distinct (map f xs)" and "i < length xs"
  shows "distinct (map f (take i xs @ drop (Suc i) xs))" "set (take i xs @ drop (Suc i) xs) = {x \<in> set xs. f x \<noteq> f (xs ! i)}"
proof -
  obtain a b where ab: "a = take i xs" "b = drop (Suc i) xs" by blast
  have e: "xs = a @ xs ! i # b" unfolding ab by (rule id_take_nth_drop [OF assms(2)])
  then obtain y where y: "y = xs ! i" "xs = a @ y # b" by blast
  have d: "distinct (map f (a @ y # b))" using assms(1) unfolding y(2) .
  then show "distinct (map f (take i xs @ drop (Suc i) xs))" by (simp add: ab [symmetric])
  have x: "f y \<notin> f ` set a" "f y \<notin> f ` set b" and sx: "set xs = insert y (set a \<union> set b)" using d arg_cong [OF y(2), of set] by simp_all
  show "set (take i xs @ drop (Suc i) xs) = {x \<in> set xs. f x \<noteq> f (xs ! i)}"
    unfolding ab [symmetric] y(1) [symmetric] sx set_append using x imageI [of _ "set a" f] imageI [of _ "set b" f] by (auto, metis+)
qed

text \<open>
  What the cluster relies on: a store of fields, in which one field can be written or removed without the others changing. A list
  of records with different keys is represented by one field for each.
\<close>

locale record_table =
  fixes ready :: "'s \<Rightarrow> bool" and fields :: "'s \<Rightarrow> bytes \<rightharpoonup> bytes" and room :: nat
    and put :: "bytes \<Rightarrow> bytes \<Rightarrow> 's \<Rightarrow> 's \<times> int" and del :: "bytes \<Rightarrow> 's \<Rightarrow> 's \<times> int"
    and key :: "'r \<Rightarrow> bytes" and img :: "'r \<Rightarrow> bytes" and rec_ok :: "'r \<Rightarrow> bool"
  assumes put_ok: "ready s \<Longrightarrow> rec_ok r \<Longrightarrow> card (dom (fields s)) < room \<Longrightarrow>
      ready (fst (put (key r) (img r) s)) \<and> fields (fst (put (key r) (img r) s)) = (fields s)(key r \<mapsto> img r) \<and> snd (put (key r) (img r) s) \<noteq> -1"
    and del_ok: "ready s \<Longrightarrow> rec_ok r \<Longrightarrow> ready (fst (del (key r) s)) \<and> fields (fst (del (key r) s)) = (fields s)(key r := None) \<and> snd (del (key r) s) \<noteq> -1"
begin

definition rep :: "'s \<Rightarrow> 'r list \<Rightarrow> bool" where
  "rep s rs \<longleftrightarrow> ready s \<and> distinct (map key rs) \<and> (\<forall>r \<in> set rs. rec_ok r) \<and>
     (\<forall>k v. fields s k = Some v \<longleftrightarrow> (\<exists>r \<in> set rs. k = key r \<and> v = img r))"

lemma repD:
  assumes "rep s rs"
  shows "ready s" "distinct (map key rs)" "r \<in> set rs \<Longrightarrow> rec_ok r" "fields s k = Some v \<longleftrightarrow> (\<exists>r \<in> set rs. k = key r \<and> v = img r)"
  using assms by (auto simp: rep_def)

lemma rep_card: "rep s rs \<Longrightarrow> card (dom (fields s)) = length rs"
proof -
  assume r: "rep s rs"
  have "dom (fields s) = set (map key rs)" using repD(4) [OF r] by (auto simp: dom_def)
  then show ?thesis using distinct_card [OF repD(2) [OF r]] by simp
qed

lemma rep_add:
  assumes "rep s rs" and "rec_ok r" and "key r \<notin> key ` set rs" and "length rs < room"
  shows "rep (fst (put (key r) (img r) s)) (rs @ [r])" "snd (put (key r) (img r) s) \<noteq> -1"
proof -
  note d = repD [OF assms(1)]
  note p = put_ok [OF d(1) assms(2), unfolded rep_card [OF assms(1)], OF assms(4)]
  show "snd (put (key r) (img r) s) \<noteq> -1" using p by blast
  have "((fields s)(key r \<mapsto> img r)) k = Some v \<longleftrightarrow> (\<exists>r' \<in> set (rs @ [r]). k = key r' \<and> v = img r')" for k v
    using d(4) [of k v] assms(3) by auto
  then show "rep (fst (put (key r) (img r) s)) (rs @ [r])" using p d(2,3) assms(2,3) by (auto simp: rep_def)
qed

lemma rep_change:
  assumes "rep s rs" and "i < length rs" and "rec_ok r" and "key r = key (rs ! i)" and "length rs < room"
  shows "rep (fst (put (key r) (img r) s)) (rs[i := r])" "snd (put (key r) (img r) s) \<noteq> -1"
proof -
  note d = repD [OF assms(1)]
  note p = put_ok [OF d(1) assms(3), unfolded rep_card [OF assms(1)], OF assms(5)]
  show "snd (put (key r) (img r) s) \<noteq> -1" using p by blast
  have k: "map key (rs[i := r]) = map key rs" using assms(2,4) by (simp add: map_update list_update_same_conv)
  have uniq: "r' \<in> set (rs[i := r]) \<and> key r' = key r \<longleftrightarrow> r' = r" for r'
  proof
    assume r': "r' \<in> set (rs[i := r]) \<and> key r' = key r"
    then obtain j where j: "j < length rs" "r' = rs[i := r] ! j" by (auto simp: in_set_conv_nth)
    then have "j = i" using r' d(2) assms(2,4) by (metis distinct_conv_nth length_map nth_list_update_neq nth_map)
    then show "r' = r" using j assms(2) by simp
  qed (use assms(2) in \<open>simp add: set_update_memI\<close>)
  have other: "r' \<in> set (rs[i := r]) \<longleftrightarrow> r' \<in> set rs" if "key r' \<noteq> key r" for r'
    using that assms(2,4) by (metis in_set_conv_nth length_list_update nth_list_update_eq nth_list_update_neq)
  have "((fields s)(key r \<mapsto> img r)) x = Some v \<longleftrightarrow> (\<exists>r' \<in> set (rs[i := r]). x = key r' \<and> v = img r')" for x v
  proof (cases "x = key r")
    case True
    then show ?thesis using uniq by (metis fun_upd_same option.inject)
  next
    case False
    then show ?thesis using d(4) [of x v] other by (metis fun_upd_other)
  qed
  moreover have "\<forall>r \<in> set (rs[i := r]). rec_ok r" using d(3) assms(3) by (auto dest!: set_update_subset_insert [THEN subsetD])
  ultimately show "rep (fst (put (key r) (img r) s)) (rs[i := r])" using p d(2) k by (auto simp: rep_def)
qed

lemma rep_remove:
  assumes "rep s rs" and "i < length rs"
  shows "rep (fst (del (key (rs ! i)) s)) (take i rs @ drop (Suc i) rs)" "snd (del (key (rs ! i)) s) \<noteq> -1"
proof -
  note d = repD [OF assms(1)]
  let ?r = "rs ! i" and ?rs = "take i rs @ drop (Suc i) rs"
  have ok: "rec_ok ?r" using d(3) assms(2) by simp
  note p = del_ok [OF d(1) ok]
  show "snd (del (key ?r) s) \<noteq> -1" using p by blast
  note q = remove_nth_keys [OF d(2) assms(2)]
  have "((fields s)(key ?r := None)) k = Some v \<longleftrightarrow> (\<exists>r' \<in> set ?rs. k = key r' \<and> v = img r')" for k v
    unfolding q(2) using d(4) [of k v] by auto
  moreover have "\<forall>r \<in> set ?rs. rec_ok r" unfolding q(2) using d(3) by simp
  ultimately show "rep (fst (del (key ?r) s)) ?rs" using p q(1) by (simp add: rep_def)
qed

end

text \<open>The hash of the nodes is such a store.\<close>

definition nodes_ready :: "ssdb \<Rightarrow> bool" where
  "nodes_ready db \<longleftrightarrow> hash_ready db kv_node_list_key"

lemma node_key_ok:
  assumes "in_int32 v"
  shows "hname_ok (str_int v)"
proof -
  have "str_int v \<noteq> []" by (auto simp: str_int_def decimal_int_def)
  moreover have "length (str_int v) \<le> 20" by (simp add: str_int_def)
  ultimately show ?thesis by (simp add: hname_ok_def name_ok_def SSDB_KEY_LEN_MAX_def)
qed

interpretation nodes: record_table nodes_ready "\<lambda>db. hcoll.view (data_map db) kv_node_list_key" "2 ^ 31"
  "\<lambda>k v db. hset kv_node_list_key k v SYNC db" "\<lambda>k db. hdel kv_node_list_key k SYNC db" "\<lambda>n. str_int (node_id n)" node_image node_ok
proof (unfold_locales, goal_cases)
  case (1 s r)
  have r: "hash_ready s kv_node_list_key" and k: "hname_ok (str_int (node_id r))" using 1 node_key_ok by (auto simp: nodes_ready_def node_ok_def)
  have "size_fits (Suc (nat (hsize kv_node_list_key s)))" using 1(3) hsize_ready [OF r] by (simp add: size_fits_def)
  note p = hash_put_ready [OF r k this, of "node_image r" SYNC]
  show ?case using p hcoll.view_put [of kv_node_list_key "str_int (node_id r)" "data_map s" "node_image r" kv_node_list_key] k hash_readyD(3) [OF r]
    by (simp add: nodes_ready_def)
next
  case (2 s r)
  have r: "hash_ready s kv_node_list_key" and k: "hname_ok (str_int (node_id r))" using 2 node_key_ok by (auto simp: nodes_ready_def node_ok_def)
  note p = hdel_ready [OF r k, of SYNC]
  show ?case using p hcoll.view_del [of kv_node_list_key "str_int (node_id r)" "data_map s" kv_node_list_key] k hash_readyD(3) [OF r]
    by (simp add: nodes_ready_def)
qed

subsection \<open>The list in memory and the list in the store\<close>

definition cluster_inv :: "cluster \<Rightarrow> bool" where
  "cluster_inv c \<longleftrightarrow> nodes.rep (cdb c) (kv_node_list c) \<and> (\<forall>n \<in> set (kv_node_list c). 1 \<le> node_id n \<and> node_id n < next_id c) \<and>
     1 \<le> next_id c \<and> next_id c < 2 ^ 31"

lemma str_int_inject: "in_int32 a \<Longrightarrow> in_int32 b \<Longrightarrow> str_int a = str_int b \<longleftrightarrow> a = b"
  using str_int_round by metis

lemma cluster_invD:
  assumes "cluster_inv c"
  shows "distinct (map node_id (kv_node_list c))" "length (kv_node_list c) < 2 ^ 31" "n \<in> set (kv_node_list c) \<Longrightarrow> node_ok n"
proof -
  have r: "nodes.rep (cdb c) (kv_node_list c)" using assms by (simp add: cluster_inv_def)
  show "n \<in> set (kv_node_list c) \<Longrightarrow> node_ok n" by (rule nodes.repD(3) [OF r])
  have d: "distinct (map (\<lambda>n. str_int (node_id n)) (kv_node_list c))" by (rule nodes.repD(2) [OF r])
  show i: "distinct (map node_id (kv_node_list c))" using d by (auto simp: distinct_map inj_on_def)
  have "set (map node_id (kv_node_list c)) \<subseteq> {1..<next_id c}" using assms by (auto simp: cluster_inv_def)
  then have "card (set (map node_id (kv_node_list c))) \<le> card {1..<next_id c}" by (intro card_mono) auto
  then have "length (kv_node_list c) \<le> nat (next_id c - 1)" using distinct_card [OF i] by simp
  moreover have "next_id c < 2 ^ 31" using assms by (simp add: cluster_inv_def)
  moreover have "1 \<le> next_id c" using assms by (simp add: cluster_inv_def)
  ultimately show "length (kv_node_list c) < 2 ^ 31" by simp
qed

lemma find_node_Some: "find_node i ns = Some j \<Longrightarrow> j < length ns \<and> node_id (ns ! j) = i"
  by (induction ns arbitrary: j) (auto split: if_splits)

lemma find_node_None: "find_node i ns = None \<longleftrightarrow> i \<notin> node_id ` set ns"
  by (induction ns) auto

lemma get_kv_node_iff:
  assumes "distinct (map node_id (kv_node_list c))"
  shows "get_kv_node i c = Some n \<longleftrightarrow> n \<in> set (kv_node_list c) \<and> node_id n = i"
proof (cases "find_node i (kv_node_list c)")
  case None
  then show ?thesis using find_node_None [THEN iffD1, OF None] by (auto simp: get_kv_node_def)
next
  case (Some j)
  note j = find_node_Some [OF Some]
  have "n = kv_node_list c ! j" if "n \<in> set (kv_node_list c)" "node_id n = i" for n
    using that j assms by (metis distinct_map inj_onD nth_mem)
  then show ?thesis using Some j by (auto simp: get_kv_node_def)
qed

lemma add_inv:
  assumes "cluster_inv c" and "next_id c + 1 < 2 ^ 31" and "in_int32 port"
  shows "cluster_inv (fst (add_kv_node ip port c))" "snd (add_kv_node ip port c) = next_id c"
    "kv_node_list (fst (add_kv_node ip port c)) = kv_node_list c @ [(Node_new port)\<lparr>node_id := next_id c, node_ip := ip\<rparr>]"
proof -
  have I: "nodes.rep (cdb c) (kv_node_list c)" "1 \<le> next_id c" "\<forall>n \<in> set (kv_node_list c). 1 \<le> node_id n \<and> node_id n < next_id c"
    using assms(1) by (auto simp: cluster_inv_def)
  let ?n = "(Node_new port)\<lparr>node_id := next_id c, node_ip := ip\<rparr>"
  have id32: "in_int32 (next_id c)" using I(2) assms(2) by (simp add: in_int32_def)
  have ok: "node_ok ?n" using id32 assms(3) by (simp add: node_ok_def Node_new_def NODE_INIT_def in_int32_def)
  have "str_int (node_id ?n) \<notin> (\<lambda>n. str_int (node_id n)) ` set (kv_node_list c)"
  proof
    assume "str_int (node_id ?n) \<in> (\<lambda>n. str_int (node_id n)) ` set (kv_node_list c)"
    then obtain n where n: "n \<in> set (kv_node_list c)" "str_int (next_id c) = str_int (node_id n)" by auto
    have "in_int32 (node_id n)" using cluster_invD(3) [OF assms(1) n(1)] by (simp add: node_ok_def)
    then show False using str_int_inject [OF id32] n I(3) by fastforce
  qed
  note a = nodes.rep_add [OF I(1) ok this cluster_invD(2) [OF assms(1)]]
  have w: "wrap32 (next_id c + 1) = next_id c + 1" using I(2) assms(2) by (intro wrap32_id) (simp add: in_int32_def)
  have e: "add_kv_node ip port c = (c\<lparr>next_id := next_id c + 1, cdb := fst (hset kv_node_list_key (str_int (node_id ?n)) (node_image ?n) SYNC (cdb c)),
      kv_node_list := kv_node_list c @ [?n]\<rparr>, next_id c)"
    using a(2) by (simp add: add_kv_node_def save_kv_node_def Let_def w case_prod_beta Node_new_def)
  show "snd (add_kv_node ip port c) = next_id c" "kv_node_list (fst (add_kv_node ip port c)) = kv_node_list c @ [?n]" by (simp_all add: e)
  show "cluster_inv (fst (add_kv_node ip port c))" using a(1) I assms(2) by (auto simp: e cluster_inv_def)
qed

lemma change_inv:
  assumes "cluster_inv c" and "i < length (kv_node_list c)" and "node_ok (f (kv_node_list c ! i))" and "node_id (f (kv_node_list c ! i)) = node_id (kv_node_list c ! i)"
  shows "cluster_inv (fst (change_node i f c))" "snd (change_node i f c) = 1" "kv_node_list (fst (change_node i f c)) = (kv_node_list c)[i := f (kv_node_list c ! i)]"
proof -
  have I: "nodes.rep (cdb c) (kv_node_list c)" "\<forall>n \<in> set (kv_node_list c). 1 \<le> node_id n \<and> node_id n < next_id c" using assms(1) by (auto simp: cluster_inv_def)
  have k: "str_int (node_id (f (kv_node_list c ! i))) = str_int (node_id (kv_node_list c ! i))" using assms(4) by simp
  note p = nodes.rep_change [OF I(1) assms(2,3) k cluster_invD(2) [OF assms(1)]]
  have m: "\<forall>n \<in> set ((kv_node_list c)[i := f (kv_node_list c ! i)]). 1 \<le> node_id n \<and> node_id n < next_id c"
    using I(2) assms(2,4) by (auto dest!: set_update_subset_insert [THEN subsetD])
  show "cluster_inv (fst (change_node i f c))" "snd (change_node i f c) = 1" "kv_node_list (fst (change_node i f c)) = (kv_node_list c)[i := f (kv_node_list c ! i)]"
    using p m assms(1) by (simp_all add: change_node_def save_kv_node_def Let_def case_prod_beta cluster_inv_def)
qed

lemma del_inv:
  assumes "cluster_inv c"
  shows "cluster_inv (fst (del_kv_node i c))" "snd (del_kv_node i c) = (if get_kv_node i c = None then 0 else 1)"
    "set (kv_node_list (fst (del_kv_node i c))) = {n \<in> set (kv_node_list c). node_id n \<noteq> i}"
proof -
  have I: "nodes.rep (cdb c) (kv_node_list c)" "\<forall>n \<in> set (kv_node_list c). 1 \<le> node_id n \<and> node_id n < next_id c" using assms by (auto simp: cluster_inv_def)
  have "cluster_inv (fst (del_kv_node i c)) \<and> snd (del_kv_node i c) = (if get_kv_node i c = None then 0 else 1) \<and>
    set (kv_node_list (fst (del_kv_node i c))) = {n \<in> set (kv_node_list c). node_id n \<noteq> i}"
  proof (cases "find_node i (kv_node_list c)")
    case None
    then show ?thesis using assms find_node_None [THEN iffD1, OF None] by (auto simp: del_kv_node_def get_kv_node_def)
  next
    case (Some j)
    let ?l = "kv_node_list c" let ?r = "take j ?l @ drop (Suc j) ?l"
    have j: "j < length ?l" "node_id (?l ! j) = i" using find_node_Some [OF Some] by auto
    note p = nodes.rep_remove [OF I(1) j(1)]
    have e: "del_kv_node i c = (c\<lparr>cdb := fst (hdel kv_node_list_key (str_int i) SYNC (cdb c)), kv_node_list := ?r\<rparr>, 1)"
      using p(2) j by (simp add: del_kv_node_def Some store_del_kv_node_def Let_def case_prod_beta)
    have "set ?r = {n \<in> set ?l. node_id n \<noteq> i}" using remove_nth_keys(2) [OF cluster_invD(1) [OF assms] j(1)] j(2) by simp
    then show ?thesis using p(1) j I(2) assms by (auto simp: e cluster_inv_def get_kv_node_def Some)
  qed
  then show "cluster_inv (fst (del_kv_node i c))" "snd (del_kv_node i c) = (if get_kv_node i c = None then 0 else 1)"
    "set (kv_node_list (fst (del_kv_node i c))) = {n \<in> set (kv_node_list c). node_id n \<noteq> i}" by auto
qed

subsection \<open>A restart\<close>

lemma h_loop_keys:
  "unat (it_limit (h_it it)) \<le> n \<Longrightarrow> h_loop (\<lambda>it. [h_key it]) it = map fst (hiter.drain n it)"
proof (induction n arbitrary: it)
  case 0
  then show ?case using HIterator_next_limit [of it] by (auto simp: h_loop.simps [of _ it] split: prod.split bool.split)
next
  case (Suc n)
  then show ?case using HIterator_next_limit [of it] by (fastforce simp: h_loop.simps [of _ it] split: prod.split bool.split)
qed

lemma hash_list_view:
  assumes "hash_ready s name"
  shows "(k, v) \<in> set (hash_list s name) \<longleftrightarrow> hcoll.view (data_map s) name k = Some v"
    and "length (hash_list s name) = card (dom (hcoll.view (data_map s) name))"
proof -
  note r = hash_readyD [OF assms] and l = hash_list_facts [OF assms]
  show e: "(k, v) \<in> set (hash_list s name) \<longleftrightarrow> hcoll.view (data_map s) name k = Some v" for k v
    using hget_io [OF r(1,3), of k] by (cases "hname_ok k") (auto simp: l(2) hcoll.view_def split: option.splits)
  have d: "distinct (map fst (hash_list s name))" using l(1) by (simp add: kv_sorted_def strict_sorted_iff)
  have "dom (hcoll.view (data_map s) name) = set (map fst (hash_list s name))" using e by force
  then show "length (hash_list s name) = card (dom (hcoll.view (data_map s) name))" using distinct_card [OF d] by simp
qed

lemma load_keys:
  assumes "hash_ready db kv_node_list_key" and "card (dom (hcoll.view (data_map db) kv_node_list_key)) \<le> 10000"
  shows "h_loop (\<lambda>it. [h_key it]) (hscan kv_node_list_key [] [] 10000 db) = map fst (hash_list db kv_node_list_key)"
proof -
  note r = hash_readyD [OF assms(1)]
  have "filter (\<lambda>e. [] < fst e \<and> ([] = [] \<or> fst e \<le> [])) (hash_list db kv_node_list_key) = hash_list db kv_node_list_key"
    using hash_list_facts(2) [OF assms(1)] by (auto simp: filter_id_conv hname_ok_def)
  then show ?thesis
    using h_loop_keys [of "hscan kv_node_list_key [] [] 10000 db" 10000] hscan_correct [OF r(2,4,3), of 10000 "[]" "[]" 10000]
      hash_list_view(2) [OF assms(1)] assms(2)
    by (simp add: hscan_limit)
qed

lemma load_saved:
  assumes "nodes.rep db ns" and "n \<in> set ns"
  shows "fst (load_kv_node (fst (str_to_int 0 (str_int (node_id n)))) m db) = n"
proof -
  have ok: "node_ok n" and h: "hash_ready db kv_node_list_key" using nodes.repD(1,3) [OF assms(1)] assms(2) by (auto simp: nodes_ready_def)
  then have k: "fst (str_to_int 0 (str_int (node_id n))) = node_id n" "hname_ok (str_int (node_id n))"
    using str_int_round node_key_ok by (auto simp: node_ok_def)
  have "hcoll.view (data_map db) kv_node_list_key (str_int (node_id n)) = Some (node_image n)" using nodes.repD(4) [OF assms(1)] assms(2) by blast
  then have "hget kv_node_list_key (str_int (node_id n)) db = Found (node_image n)"
    using hget_io [OF hash_readyD(1,3) [OF h] k(2)] by simp
  then show ?thesis using node_read_image [OF ok] by (simp add: load_kv_node_def Let_def k)
qed

lemma load_list:
  assumes "nodes.rep db ns" and "length ns \<le> 10000"
  shows "set (load_kv_node_list p db) = set ns" "nodes.rep db (load_kv_node_list p db)"
proof -
  have h: "hash_ready db kv_node_list_key" using nodes.repD(1) [OF assms(1)] by (simp add: nodes_ready_def)
  let ?L = "hash_list db kv_node_list_key" and ?f = "\<lambda>k. fst (load_kv_node (fst (str_to_int 0 k)) (Node_new p) db)"
  have l: "load_kv_node_list p db = map ?f (map fst ?L)"
    unfolding load_kv_node_list_def using load_keys [OF h] nodes.rep_card [OF assms(1)] assms(2) by simp
  have m: "(k, v) \<in> set ?L \<longleftrightarrow> (\<exists>n \<in> set ns. k = str_int (node_id n) \<and> v = node_image n)" for k v
    unfolding hash_list_view(1) [OF h] by (rule nodes.repD(4) [OF assms(1)])
  have "set (map fst ?L) = (\<lambda>n. str_int (node_id n)) ` set ns" using m by force
  then have "set (load_kv_node_list p db) = (\<lambda>n. ?f (str_int (node_id n))) ` set ns" unfolding l by (simp only: set_map image_image)
  then show s: "set (load_kv_node_list p db) = set ns" using load_saved [OF assms(1)] by simp
  have "str_int (node_id (?f k)) = k" if "k \<in> set (map fst ?L)" for k
  proof -
    from that m obtain n where "n \<in> set ns" "k = str_int (node_id n)" by force
    then show ?thesis using load_saved [OF assms(1)] by simp
  qed
  then have "map (\<lambda>n. str_int (node_id n)) (load_kv_node_list p db) = map fst ?L" unfolding l by (auto intro: map_idI)
  moreover have "distinct (map fst ?L)" using hash_list_facts(1) [OF h] by (simp add: kv_sorted_def strict_sorted_iff)
  ultimately show "nodes.rep db (load_kv_node_list p db)" using assms(1) by (simp add: nodes.rep_def s)
qed

lemma next_id_fold:
  assumes "1 \<le> i" and "i \<le> m" and "\<forall>n \<in> set ns. node_id n < m" and "m < 2 ^ 31"
  shows "foldl (\<lambda>i n. if node_id n \<ge> i then wrap32 (node_id n + 1) else i) i ns \<in> {i..m} \<and>
    (\<forall>n \<in> set ns. node_id n < foldl (\<lambda>i n. if node_id n \<ge> i then wrap32 (node_id n + 1) else i) i ns)"
  using assms
proof (induction ns arbitrary: i)
  case (Cons n ns)
  let ?i = "if node_id n \<ge> i then wrap32 (node_id n + 1) else i"
  have "wrap32 (node_id n + 1) = node_id n + 1" if "node_id n \<ge> i" using that Cons.prems by (intro wrap32_id) (auto simp: in_int32_def)
  then have i: "i \<le> ?i" "?i \<le> m" "node_id n < ?i" using Cons.prems(2,3) by auto
  have "1 \<le> ?i" using i(1) Cons.prems(1) by simp
  from Cons.IH [OF this i(2) _ Cons.prems(4)] show ?case using i Cons.prems(3) by (simp only: foldl_Cons list.set) auto
qed simp

lemma init_inv:
  assumes "nodes.rep db ns" and "length ns \<le> 10000" and "\<forall>n \<in> set ns. 1 \<le> node_id n \<and> node_id n < m" and "1 \<le> m" and "m < 2 ^ 31"
  shows "cluster_inv (Cluster_init p (Cluster_new db))" "set (kv_node_list (Cluster_init p (Cluster_new db))) = set ns"
    "next_id (Cluster_init p (Cluster_new db)) \<le> m" "cdb (Cluster_init p (Cluster_new db)) = db"
proof -
  note l = load_list [OF assms(1,2), of p]
  have "1 \<le> (1 :: int)" and "\<forall>n \<in> set (load_kv_node_list p db). node_id n < m" using assms(3) by (simp_all add: l(1))
  note f = next_id_fold [OF this(1) assms(4) this(2) assms(5)]
  show "set (kv_node_list (Cluster_init p (Cluster_new db))) = set ns" "cdb (Cluster_init p (Cluster_new db)) = db"
    "next_id (Cluster_init p (Cluster_new db)) \<le> m"
    using f by (simp_all add: Cluster_init_def Cluster_new_def Let_def l(1))
  show "cluster_inv (Cluster_init p (Cluster_new db))"
    using f l assms(3,5) by (auto simp: Cluster_init_def Cluster_new_def Let_def cluster_inv_def)
qed

subsection \<open>What the requests keep\<close>

lemma Bytes_Int_int32: "in_int32 (Bytes_Int b)"
  by (auto simp: Bytes_Int_def str_to_int_def split: prod.splits)

lemma cluster_answer_fst: "cluster_answer cr = Some (c', resp) \<Longrightarrow> c' = fst cr"
  by (cases cr) (auto simp: cluster_answer_def split: if_splits)

text \<open>Both setters replace one field of the node, and give 0 when there is no such node.\<close>

lemma set_inv:
  assumes "cluster_inv c" and "get_kv_node i c = Some n" and "node_ok (f n)" and "node_id (f n) = i"
  shows "\<exists>j. find_node i (kv_node_list c) = Some j \<and> cluster_inv (fst (change_node j f c)) \<and> snd (change_node j f c) = 1 \<and>
    set (kv_node_list (fst (change_node j f c))) = insert (f n) {m \<in> set (kv_node_list c). node_id m \<noteq> i}"
proof -
  from assms(2) obtain j where j: "find_node i (kv_node_list c) = Some j" "n = kv_node_list c ! j" by (auto simp: get_kv_node_def split: option.splits)
  note k = find_node_Some [OF j(1)]
  note d = cluster_invD(1) [OF assms(1)]
  note h = change_inv [OF assms(1), of j f]
  let ?l = "kv_node_list c"
  have "set (?l[j := f n]) = insert (f n) (set (take j ?l @ drop (Suc j) ?l))" using k by (simp add: upd_conv_take_nth_drop)
  then have "set (?l[j := f n]) = insert (f n) {m \<in> set ?l. node_id m \<noteq> i}" using remove_nth_keys(2) [OF d, of j] k by simp
  then show ?thesis using h j k assms(3,4) by auto
qed

lemma set_range_inv:
  assumes "cluster_inv c"
  shows "cluster_inv (fst (cluster_set_kv_range i r c))"
proof (cases "get_kv_node i c")
  case None
  then show ?thesis using assms by (auto simp: cluster_set_kv_range_def get_kv_node_def split: option.splits)
next
  case (Some n)
  have n: "node_ok n" "node_id n = i" using Some cluster_invD(3) [OF assms] get_kv_node_iff [OF cluster_invD(1) [OF assms]] by auto
  then show ?thesis using set_inv [OF assms Some, of "\<lambda>n. n\<lparr>node_range := r\<rparr>"] assms by (auto simp: cluster_set_kv_range_def node_ok_def)
qed

lemma set_status_facts:
  assumes "cluster_inv c" and "in_int32 st"
  shows "cluster_inv (fst (set_kv_status i st c))"
    "get_kv_node i c = Some n \<Longrightarrow> snd (set_kv_status i st c) = 1 \<and>
      set (kv_node_list (fst (set_kv_status i st c))) = insert (n\<lparr>node_status := st\<rparr>) {m \<in> set (kv_node_list c). node_id m \<noteq> i}"
    "get_kv_node i c = None \<Longrightarrow> set_kv_status i st c = (c, 0)"
proof -
  have n: "node_ok (n\<lparr>node_status := st\<rparr>)" "node_id (n\<lparr>node_status := st\<rparr>) = i" if "get_kv_node i c = Some n" for n
    using that cluster_invD(3) [OF assms(1)] get_kv_node_iff [OF cluster_invD(1) [OF assms(1)]] assms(2) by (auto simp: node_ok_def)
  show 3: "get_kv_node i c = None \<Longrightarrow> set_kv_status i st c = (c, 0)" by (auto simp: set_kv_status_def get_kv_node_def split: option.splits)
  show "get_kv_node i c = Some n \<Longrightarrow> snd (set_kv_status i st c) = 1 \<and>
      set (kv_node_list (fst (set_kv_status i st c))) = insert (n\<lparr>node_status := st\<rparr>) {m \<in> set (kv_node_list c). node_id m \<noteq> i}"
  proof -
    assume g: "get_kv_node i c = Some n"
    from set_inv [OF assms(1) g, of "\<lambda>n. n\<lparr>node_status := st\<rparr>", OF n [OF g]] show ?thesis unfolding set_kv_status_def by (elim exE conjE) simp
  qed
  show "cluster_inv (fst (set_kv_status i st c))"
  proof (cases "get_kv_node i c")
    case None
    then show ?thesis using 3 assms(1) by simp
  next
    case (Some m)
    from set_inv [OF assms(1) Some, of "\<lambda>n. n\<lparr>node_status := st\<rparr>"] n [OF Some] show ?thesis by (auto simp: set_kv_status_def)
  qed
qed

text \<open>A run of the cluster: requests, one after the other (each operation holds the mutex), fewer than \<open>2^31 - 1\<close> of them add a node.\<close>

inductive cluster_run :: "cluster \<Rightarrow> cluster \<Rightarrow> bool" where
  start: "cluster_run c c"
| add: "cluster_run c c' \<Longrightarrow> next_id c' + 1 < 2 ^ 31 \<Longrightarrow> proc_cluster_add_kv_node req c' = Some (c'', resp) \<Longrightarrow> cluster_run c c''"
| del: "cluster_run c c' \<Longrightarrow> proc_cluster_del_kv_node req c' = Some (c'', resp) \<Longrightarrow> cluster_run c c''"
| set_range: "cluster_run c c' \<Longrightarrow> proc_cluster_set_kv_range req c' = Some (c'', resp) \<Longrightarrow> cluster_run c c''"
| set_status: "cluster_run c c' \<Longrightarrow> proc_cluster_set_kv_status req c' = Some (c'', resp) \<Longrightarrow> cluster_run c c''"

lemma cluster_run_inv: "cluster_run c c' \<Longrightarrow> cluster_inv c \<Longrightarrow> cluster_inv c'"
proof (induction rule: cluster_run.induct)
  case (add c c' req c'' resp)
  then show ?case using add_inv(1) [of c' "Bytes_Int (req ! 2)" "req ! 1"] Bytes_Int_int32
    by (auto simp: proc_cluster_add_kv_node_def split: if_splits dest!: cluster_answer_fst)
next
  case (del c c' req c'' resp)
  then show ?case using del_inv(1) by (auto simp: proc_cluster_del_kv_node_def split: if_splits dest!: cluster_answer_fst)
next
  case (set_range c c' req c'' resp)
  then show ?case using set_range_inv by (auto simp: proc_cluster_set_kv_range_def split: if_splits dest!: cluster_answer_fst)
next
  case (set_status c c' req c'' resp)
  then show ?case using set_status_facts(1) Bytes_Int_int32
    by (auto simp: proc_cluster_set_kv_status_def Let_def split: if_splits dest!: cluster_answer_fst)
qed

definition no_nodes :: "ssdb \<Rightarrow> bool" where
  "no_nodes db \<longleftrightarrow> nodes_ready db \<and> hcoll.view (data_map db) kv_node_list_key = Map.empty"

lemma first_start:
  assumes "no_nodes db"
  shows "cluster_inv (Cluster_init p (Cluster_new db))" "kv_node_list (Cluster_init p (Cluster_new db)) = []"
proof -
  have "nodes.rep db []" using assms by (simp add: no_nodes_def nodes.rep_def)
  from init_inv [OF this, of 1 p] show "cluster_inv (Cluster_init p (Cluster_new db))" "kv_node_list (Cluster_init p (Cluster_new db)) = []" by simp_all
qed


text \<open>Witness of the restart: two nodes are added and the first is deleted. The example serves the next properties too.\<close>

definition example_cluster :: cluster where
  "example_cluster = fst (set_kv_status 1 NODE_SERVING (fst (add_kv_node ''10.0.0.2'' 8888 (fst (add_kv_node ''10.0.0.1'' 8888 (Cluster_init 0 (Cluster_new fresh_db)))))))"

lemma fresh_no_nodes: "no_nodes fresh_db"
proof -
  have "hname_ok kv_node_list_key" by code_simp
  then show ?thesis using fresh_hash_ready by (simp add: no_nodes_def nodes_ready_def hcoll.view_def fresh_data fun_eq_iff)
qed

lemma example_facts:
  "cluster_inv example_cluster"
  "kv_node_list example_cluster = [(Node_new 8888)\<lparr>node_id := 1, node_status := NODE_SERVING, node_ip := ''10.0.0.1''\<rparr>,
     (Node_new 8888)\<lparr>node_id := 2, node_ip := ''10.0.0.2''\<rparr>]"
  "cluster_run (Cluster_init 0 (Cluster_new fresh_db)) example_cluster" "next_id example_cluster = 3"
proof -
  let ?c0 = "Cluster_init 0 (Cluster_new fresh_db)"
  let ?c1 = "fst (add_kv_node ''10.0.0.1'' 8888 ?c0)" let ?c2 = "fst (add_kv_node ''10.0.0.2'' 8888 ?c1)"
  note f = first_start [OF fresh_no_nodes, of 0]
  have n0: "next_id ?c0 = 1" using f(2) by (simp add: Cluster_init_def Cluster_new_def Let_def)
  have p: "in_int32 8888" by (simp add: in_int32_def)
  have "next_id ?c0 + 1 < 2 ^ 31" by (simp add: n0)
  note a1 = add_inv [OF f(1) this p, of "''10.0.0.1''"]
  have n1: "next_id ?c1 = 2" using a1(2) by (auto simp: add_kv_node_def Let_def n0 save_kv_node_def case_prod_beta in_int32_def split: if_splits)
  have "next_id ?c1 + 1 < 2 ^ 31" by (simp add: n1)
  note a2 = add_inv [OF a1(1) this p, of "''10.0.0.2''"]
  have l: "kv_node_list ?c2 = [(Node_new 8888)\<lparr>node_id := 1, node_ip := ''10.0.0.1''\<rparr>, (Node_new 8888)\<lparr>node_id := 2, node_ip := ''10.0.0.2''\<rparr>]"
    using a2(3) a1(3) f(2) n0 n1 by simp
  have e: "example_cluster = fst (change_node 0 (\<lambda>n. n\<lparr>node_status := NODE_SERVING\<rparr>) ?c2)"
    by (simp add: example_cluster_def set_kv_status_def l)
  have "next_id ?c2 = 3" using a2(2) by (auto simp: add_kv_node_def [of _ _ "?c1"] Let_def n1 save_kv_node_def case_prod_beta in_int32_def split: if_splits)
  then show "next_id example_cluster = 3" unfolding e by (simp add: change_node_def Let_def case_prod_beta)
  have "in_int32 NODE_SERVING" by (simp add: in_int32_def NODE_SERVING_def)
  then show "cluster_inv example_cluster" unfolding example_cluster_def by (rule set_status_facts(1) [OF a2(1)])
  show "kv_node_list example_cluster = [(Node_new 8888)\<lparr>node_id := 1, node_status := NODE_SERVING, node_ip := ''10.0.0.1''\<rparr>,
     (Node_new 8888)\<lparr>node_id := 2, node_ip := ''10.0.0.2''\<rparr>]"
    unfolding e by (simp add: change_node_def Let_def case_prod_beta l Node_new_def)
  have b: "Bytes_Int ''8888'' = 8888" "Bytes_Int ''1'' = 1" "decimal_int 1 = ''1''" "decimal_int 2 = ''2''" by code_simp+
  have r1: "cluster_run ?c0 ?c1"
    by (rule cluster_run.add [OF cluster_run.start, where req = "[[], ''10.0.0.1'', ''8888'']" and resp = "[''ok'', ''1'']"])
      (use a1(2) in \<open>auto simp: n0 proc_cluster_add_kv_node_def b cluster_answer_def case_prod_beta reply_int_def resp_add_int64_def Let_def\<close>)
  have r2: "cluster_run ?c0 ?c2"
    by (rule cluster_run.add [OF r1, where req = "[[], ''10.0.0.2'', ''8888'']" and resp = "[''ok'', ''2'']"])
      (use a2(2) in \<open>auto simp: n1 proc_cluster_add_kv_node_def b cluster_answer_def case_prod_beta reply_int_def resp_add_int64_def Let_def\<close>)
  have "get_kv_node 1 ?c2 = Some ((Node_new 8888)\<lparr>node_id := 1, node_ip := ''10.0.0.1''\<rparr>)" by (simp add: get_kv_node_def l)
  with set_status_facts(2) [OF a2(1) \<open>in_int32 NODE_SERVING\<close>] have "snd (set_kv_status 1 NODE_SERVING ?c2) = 1" by blast
  then show "cluster_run ?c0 example_cluster"
    by (intro cluster_run.set_status [OF r2, where req = "[[], ''1'', ''1'']" and resp = "[''ok'', ''1'']"])
      (auto simp: proc_cluster_set_kv_status_def b cluster_answer_def case_prod_beta reply_int_def resp_add_int64_def Let_def NODE_SERVING_def example_cluster_def)
qed


subsection \<open>Which node serves a key\<close>

text \<open>A range has the keys after its begin up to its end: those that a server with the range accepts.\<close>

definition covers :: "key_range \<Rightarrow> bytes \<Rightarrow> bool" where
  "covers r k \<longleftrightarrow> (range_begin r = [] \<or> range_begin r < k) \<and> (range_end r = [] \<or> k \<le> range_end r)"

lemma covers_server: "in_kv_range k (sv\<lparr>kv_range_s := range_begin r, kv_range_e := range_end r\<rparr>) \<longleftrightarrow> covers r k"
  using Bytes_compare_sign [of "range_begin r" k] Bytes_compare_sign [of "range_end r" k] by (auto simp: in_kv_range_def covers_def not_le [symmetric])

lemma overlapped_covers: "covers r k \<Longrightarrow> covers r' k \<Longrightarrow> overlapped r r'"
  by (auto simp: covers_def overlapped_def)

lemma overlapped_sym: "overlapped r r' \<longleftrightarrow> overlapped r' r"
  by (auto simp: overlapped_def)

text \<open>At most one serving node for every key.\<close>

definition exclusive :: "cluster \<Rightarrow> bool" where
  "exclusive c \<longleftrightarrow> (\<forall>a \<in> set (kv_node_list c). \<forall>b \<in> set (kv_node_list c).
     node_status a = NODE_SERVING \<and> node_status b = NODE_SERVING \<and> (\<exists>k. covers (node_range a) k \<and> covers (node_range b) k) \<longrightarrow> a = b)"

lemma exclusive_subset: "exclusive c \<Longrightarrow> set (kv_node_list c') \<subseteq> set (kv_node_list c) \<Longrightarrow> exclusive c'"
  unfolding exclusive_def by blast

lemma exclusive_insert:
  assumes "exclusive c" and "set (kv_node_list c') \<subseteq> insert m (set (kv_node_list c))"
    and "node_status m = NODE_SERVING \<Longrightarrow> \<forall>b \<in> set (kv_node_list c'). b \<noteq> m \<and> node_status b = NODE_SERVING \<longrightarrow> \<not> overlapped (node_range b) (node_range m)"
  shows "exclusive c'"
  unfolding exclusive_def
proof (intro ballI impI)
  fix a b assume ab: "a \<in> set (kv_node_list c')" "b \<in> set (kv_node_list c')"
    and h: "node_status a = NODE_SERVING \<and> node_status b = NODE_SERVING \<and> (\<exists>k. covers (node_range a) k \<and> covers (node_range b) k)"
  then have o: "overlapped (node_range a) (node_range b)" "overlapped (node_range b) (node_range a)" using overlapped_covers by blast+
  show "a = b"
  proof (cases "a = m \<or> b = m")
    case True
    then show ?thesis using assms(3) ab h o by metis
  next
    case False
    then have "a \<in> set (kv_node_list c)" "b \<in> set (kv_node_list c)" using ab assms(2) by auto
    then show ?thesis using assms(1) h unfolding exclusive_def by blast
  qed
qed

lemma set_range_exclusive:
  assumes "cluster_inv c" and "exclusive c"
  shows "exclusive (fst (cluster_set_kv_range i r c))"
proof (cases "get_kv_node i c")
  case None
  then show ?thesis using assms(2) by (auto simp: cluster_set_kv_range_def get_kv_node_def split: option.splits)
next
  case (Some n)
  have n: "node_ok n" "node_id n = i" using Some cluster_invD(3) [OF assms(1)] get_kv_node_iff [OF cluster_invD(1) [OF assms(1)]] by auto
  let ?f = "\<lambda>n. n\<lparr>node_range := r\<rparr>"
  from set_inv [OF assms(1) Some, of ?f] n obtain j where j: "find_node i (kv_node_list c) = Some j"
    "set (kv_node_list (fst (change_node j ?f c))) = insert (?f n) {m \<in> set (kv_node_list c). node_id m \<noteq> i}" by (auto simp: node_ok_def)
  show ?thesis
  proof (cases "\<exists>n \<in> set (kv_node_list c). node_id n \<noteq> i \<and> node_status n = NODE_SERVING \<and> overlapped (node_range n) r")
    case False
    then have "exclusive (fst (change_node j ?f c))" by (intro exclusive_insert [OF assms(2), where m = "?f n"]) (use j(2) in auto)
    then show ?thesis unfolding cluster_set_kv_range_def if_not_P [OF False] by (simp add: j(1))
  qed (use assms(2) in \<open>simp add: cluster_set_kv_range_def\<close>)
qed

lemma set_status_exclusive:
  assumes "cluster_inv c" and "exclusive c" and "in_int32 st"
    and "st = NODE_SERVING \<Longrightarrow> get_kv_node i c = Some n \<Longrightarrow>
      \<forall>m \<in> set (kv_node_list c). node_id m \<noteq> i \<and> node_status m = NODE_SERVING \<longrightarrow> \<not> overlapped (node_range m) (node_range n)"
    and "get_kv_node i c = Some n"
  shows "exclusive (fst (set_kv_status i st c))"
  by (rule exclusive_insert [OF assms(2), where m = "n\<lparr>node_status := st\<rparr>"]) (use set_status_facts(2) [OF assms(1,3,5)] assms(4,5) in auto)

text \<open>C33. No two nodes serve the same key: when at most one serving node covers each key, that is so after a node is
  added, deleted, given any range (with a range that overlaps that of another serving node the request fails) or taken out of
  service, and after it is put in service when its range overlaps that of no other serving node.\<close>

theorem one_node_serves:
  assumes "cluster_inv c" and "exclusive c" and "next_id c + 1 < 2 ^ 31" and "in_int32 port"
  shows "exclusive (fst (add_kv_node ip port c)) \<and> exclusive (fst (del_kv_node i c)) \<and> exclusive (fst (cluster_set_kv_range i r c)) \<and>
    exclusive (fst (set_kv_status i NODE_INIT c)) \<and>
    ((\<forall>n m. get_kv_node i c = Some n \<and> m \<in> set (kv_node_list c) \<and> node_id m \<noteq> i \<and> node_status m = NODE_SERVING \<longrightarrow>
        \<not> overlapped (node_range m) (node_range n)) \<longrightarrow> exclusive (fst (set_kv_status i NODE_SERVING c)))"
proof -
  have "exclusive (fst (add_kv_node ip port c))"
    by (rule exclusive_insert [OF assms(2), where m = "(Node_new port)\<lparr>node_id := next_id c, node_ip := ip\<rparr>"])
      (simp_all add: add_inv(3) [OF assms(1,3,4)] Node_new_def NODE_INIT_def NODE_SERVING_def)
  moreover have "exclusive (fst (del_kv_node i c))" by (rule exclusive_subset [OF assms(2)]) (use del_inv(3) [OF assms(1)] in auto)
  moreover have "exclusive (fst (set_kv_status i st c))" if "in_int32 st"
    "st = NODE_SERVING \<Longrightarrow> \<forall>n m. get_kv_node i c = Some n \<and> m \<in> set (kv_node_list c) \<and> node_id m \<noteq> i \<and> node_status m = NODE_SERVING \<longrightarrow>
        \<not> overlapped (node_range m) (node_range n)" for st
  proof (cases "get_kv_node i c")
    case None
    then show ?thesis using set_status_facts(3) [OF assms(1) that(1)] assms(2) by simp
  next
    case (Some n)
    show ?thesis by (rule set_status_exclusive [OF assms(1,2) that(1) _ Some]) (use that(2) in auto)
  qed
  moreover have "in_int32 NODE_INIT" "in_int32 NODE_SERVING" "NODE_INIT \<noteq> NODE_SERVING" by (simp_all add: in_int32_def NODE_INIT_def NODE_SERVING_def)
  ultimately show ?thesis using set_range_exclusive [OF assms(1,2)] by blast
qed

lemma example_exclusive: "exclusive example_cluster"
  unfolding exclusive_def example_facts(2) by (auto simp: Node_new_def NODE_INIT_def NODE_SERVING_def)

theorem one_node_serves_witness: "exclusive (fst (cluster_set_kv_range 2 \<lparr>range_begin = [], range_end = []\<rparr> example_cluster))"
proof -
  have "next_id example_cluster + 1 < 2 ^ 31" by (simp add: example_facts(4))
  moreover have "in_int32 8888" by (simp add: in_int32_def)
  ultimately show ?thesis using one_node_serves [OF example_facts(1) example_exclusive, of 8888] by blast
qed

text \<open>C39. \<open>set_kv_status\<close> does not look at the ranges: a node whose range shares a key with that of a serving node is put in
  service, the answer is 1, and two serving nodes cover the key.\<close>

theorem status_not_checked:
  assumes "cluster_inv c" and "get_kv_node i c = Some a" and "node_status a = NODE_SERVING" and "get_kv_node j c = Some b" and "i \<noteq> j"
    and "covers (node_range a) k" and "covers (node_range b) k"
  shows "snd (set_kv_status j NODE_SERVING c) = 1 \<and> \<not> exclusive (fst (set_kv_status j NODE_SERVING c))"
proof -
  have "in_int32 NODE_SERVING" by (simp add: in_int32_def NODE_SERVING_def)
  note s = set_status_facts(2) [OF assms(1) this assms(4)]
  let ?b = "b\<lparr>node_status := NODE_SERVING\<rparr>" and ?c = "fst (set_kv_status j NODE_SERVING c)"
  note g = get_kv_node_iff [OF cluster_invD(1) [OF assms(1)]]
  have ids: "a \<in> set (kv_node_list c)" "node_id a = i" "node_id ?b = j" using assms(2,4) g by auto
  then have "a \<in> set (kv_node_list ?c)" "?b \<in> set (kv_node_list ?c)" "a \<noteq> ?b" using s assms(5) by auto
  then have "\<not> exclusive ?c" using assms(3,6,7) by (fastforce simp: exclusive_def)
  with s show ?thesis by blast
qed

theorem status_not_checked_witness:
  "snd (set_kv_status 2 NODE_SERVING example_cluster) = 1 \<and> \<not> exclusive (fst (set_kv_status 2 NODE_SERVING example_cluster))"
proof -
  have "get_kv_node 1 example_cluster = Some ((Node_new 8888)\<lparr>node_id := 1, node_status := NODE_SERVING, node_ip := ''10.0.0.1''\<rparr>)"
    "get_kv_node 2 example_cluster = Some ((Node_new 8888)\<lparr>node_id := 2, node_ip := ''10.0.0.2''\<rparr>)"
    by (simp_all add: get_kv_node_def example_facts(2))
  from status_not_checked [OF example_facts(1) this(1) _ this(2), of "''k''"] show ?thesis by (simp add: Node_new_def covers_def)
qed

end
