(* ===== verification/Migrate.thy ===== *)
theory Migrate
  imports Client Cluster
begin

section \<open>Migration of keys (\<open>cluster_migrate.cpp\<close>, \<open>cluster.cpp\<close>)\<close>

text \<open>
  A server of a cluster moves keys from one node to another, as a client of both. The connections to the two nodes, where they can
  be made, are arguments; both act on one state \<open>'w\<close>, so that they may lead to the same server. Nodes are positions in the list of
  nodes, as the pointers of the code are.
\<close>

definition check_version :: "'w connection \<Rightarrow> 'w \<Rightarrow> 'w \<times> int" where
  "check_version client w =
     (case client [''version''] w of (w, resp) \<Rightarrow>
        (w, case resp of None \<Rightarrow> -1 | Some r \<Rightarrow> if length r < 2 \<or> r ! 0 \<noteq> ''ok'' then -1 else 0))"

text \<open>\<open>init_client\<close>: \<open>None\<close> when there is no connection or the server does not accept the request.\<close>

definition init_client :: "'w connection option \<Rightarrow> 'w \<Rightarrow> 'w \<times> 'w connection option" where
  "init_client client w =
     (case client of None \<Rightarrow> (w, None)
      | Some c \<Rightarrow> (case c [''ignore_key_range''] w of (w, resp) \<Rightarrow>
          (w, case resp of None \<Rightarrow> None | Some r \<Rightarrow> if r = [] \<or> r ! 0 \<noteq> ''ok'' then None else Some c)))"

definition move_key :: "'w connection \<Rightarrow> 'w connection \<Rightarrow> bytes \<Rightarrow> 'w \<Rightarrow> 'w \<times> int" where
  "move_key src dst key w =
     (let (w, s, v) = invoke src (ClientImpl_get key) w; val = (case v of None \<Rightarrow> [] | Some v \<Rightarrow> v)
      in if Status_not_found s then (w, 0)
         else if \<not> Status_ok s then (w, -1)
         else let (w, s, _) = invoke dst (ClientImpl_set key val) w
              in if \<not> Status_ok s then (w, -1)
                 else let (w, s, _) = invoke src (ClientImpl_del key) w
                      in if \<not> Status_ok s then (w, -1)
                         else (w, wrap32 (wrap32 (int (length key)) + wrap32 (int (length val)))))"

text \<open>The \<open>for\<close> loop: \<open>None\<close> when a key cannot be moved.\<close>

fun move_keys :: "'w connection \<Rightarrow> 'w connection \<Rightarrow> bytes list \<Rightarrow> int \<Rightarrow> 'w \<Rightarrow> 'w \<times> int option" where
  "move_keys src dst [] bytes w = (w, Some bytes)"
| "move_keys src dst (key # keys) bytes w =
     (case move_key src dst key w of (w, ret) \<Rightarrow>
        if ret = -1 then (w, None) else move_keys src dst keys (wrap64 (bytes + ret)) w)"

text \<open>The loop \<open>while(1)\<close>, which ends when no key up to \<open>moved_max_key\<close> is left.\<close>

partial_function (option) move_loop ::
    "'w connection \<Rightarrow> 'w connection \<Rightarrow> bytes \<Rightarrow> u64 \<Rightarrow> bytes list \<Rightarrow> int \<Rightarrow> 'w \<Rightarrow> ('w \<times> int) option" where
  "move_loop src dst moved_max_key num_keys keys bytes w =
     (case move_keys src dst keys bytes w of
        (w, None) \<Rightarrow> Some (w, -1)
      | (w, Some bytes) \<Rightarrow>
          (case invoke src (ClientImpl_keys [] moved_max_key num_keys) w of (w, s, ks) \<Rightarrow>
             if \<not> Status_ok s then Some (w, -1)
             else if ks = Some [] \<or> ks = None then Some (w, bytes)
             else move_loop src dst moved_max_key num_keys (the ks) bytes w))"

text \<open>\<open>num_keys\<close> is an \<open>int\<close> and is converted to \<open>uint64_t\<close>. The result has the new \<open>moved_max_key\<close>, which is empty before.\<close>

definition move_range :: "'w connection \<Rightarrow> 'w connection \<Rightarrow> bytes \<Rightarrow> int \<Rightarrow> 'w \<Rightarrow> ('w \<times> bytes \<times> int) option" where
  "move_range src dst max_key num_keys w =
     (let limit = word_of_int num_keys;
          (w, s, ks) = invoke src (ClientImpl_keys [] max_key limit) w; keys = (case ks of None \<Rightarrow> [] | Some l \<Rightarrow> l)
      in if \<not> Status_ok s then Some (w, [], -1)
         else if keys = [] then Some (w, [], 0)
         else let moved_max_key = keys ! (length keys - 1);
                  (w, s, _) = invoke src (ClientImpl_set_kv_range moved_max_key max_key) w
              in if \<not> Status_ok s then Some (w, moved_max_key, -1)
                 else map_option (\<lambda>(w, bytes). (w, moved_max_key, bytes)) (move_loop src dst moved_max_key limit keys 0 w))"

definition set_range_at :: "nat \<Rightarrow> bytes \<Rightarrow> bytes \<Rightarrow> node list \<Rightarrow> node list" where
  "set_range_at i b e ns = ns[i := (ns ! i)\<lparr>node_range := \<lparr>range_begin = b, range_end = e\<rparr>\<rparr>]"

text \<open>\<open>ClusterMigrate::migrate_kv_data\<close> on the nodes at the positions \<open>i\<close> and \<open>j\<close>; the ranges are copied at the start.\<close>

definition migrate_kv_data :: "'w connection option \<Rightarrow> 'w connection option \<Rightarrow> nat \<Rightarrow> nat \<Rightarrow> int \<Rightarrow> node list \<Rightarrow> 'w \<Rightarrow> ('w \<times> node list \<times> int) option" where
  "migrate_kv_data src_conn dst_conn i j num_keys ns w =
     (case init_client src_conn w of
        (w, None) \<Rightarrow> Some (w, ns, -1)
      | (w, Some src) \<Rightarrow>
     (case init_client dst_conn w of
        (w, None) \<Rightarrow> Some (w, ns, -1)
      | (w, Some dst) \<Rightarrow>
          let (w, ret) = check_version src w
          in if ret = -1 then Some (w, ns, -1)
             else let (w, ret) = check_version dst w
             in if ret = -1 then Some (w, ns, -1)
                else let src_range = node_range (ns ! i); dst_range = node_range (ns ! j)
                     in (case move_range src dst (range_end src_range) num_keys w of
                           None \<Rightarrow> None
                         | Some (w, moved_max_key, bytes) \<Rightarrow>
                             if bytes = -1 then Some (w, ns, -1)
                             else if bytes = 0 then Some (w, ns, 0)
                             else let ns = set_range_at j (range_begin dst_range) moved_max_key
                                             (set_range_at i moved_max_key (range_end src_range) ns);
                                      (w, s, _) = invoke dst (ClientImpl_set_kv_range (range_begin dst_range) moved_max_key) w
                                  in if \<not> Status_ok s then Some (w, ns, -1) else Some (w, ns, bytes))))"

subsection \<open>The request\<close>

text \<open>\<open>Cluster::migrate_kv_data\<close>. \<open>connect\<close> gives the connection for an address.\<close>

definition cluster_migrate_kv_data ::
    "(bytes \<Rightarrow> int \<Rightarrow> 'w connection option) \<Rightarrow> int \<Rightarrow> int \<Rightarrow> int \<Rightarrow> cluster \<Rightarrow> 'w \<Rightarrow> ('w \<times> cluster \<times> int) option" where
  "cluster_migrate_kv_data connect src_id dst_id num_keys c w =
     (case find_node src_id (kv_node_list c) of
        None \<Rightarrow> Some (w, c, -1)
      | Some i \<Rightarrow>
     (case find_node dst_id (kv_node_list c) of
        None \<Rightarrow> Some (w, c, -1)
      | Some j \<Rightarrow>
          let ns = kv_node_list c
          in (case migrate_kv_data (connect (node_ip (ns ! i)) (node_port (ns ! i))) (connect (node_ip (ns ! j)) (node_port (ns ! j))) i j num_keys ns w of
                None \<Rightarrow> None
              | Some (w, ns, sz) \<Rightarrow>
                  let c = c\<lparr>kv_node_list := ns\<rparr>
                  in if sz > 0
                     then let (db, ret) = save_kv_node (ns ! i) (cdb c); c = c\<lparr>cdb := db\<rparr>
                          in if ret = -1 then Some (w, c, -1)
                             else let (db, ret) = save_kv_node (ns ! j) (cdb c); c = c\<lparr>cdb := db\<rparr>
                                  in if ret = -1 then Some (w, c, -1) else Some (w, c, sz)
                     else Some (w, c, sz))))"

definition proc_cluster_migrate_kv_data ::
    "(bytes \<Rightarrow> int \<Rightarrow> 'w connection option) \<Rightarrow> bytes list \<Rightarrow> cluster \<Rightarrow> 'w \<Rightarrow> ('w \<times> cluster \<times> bytes list) option" where
  "proc_cluster_migrate_kv_data connect req c w =
     (if length req < 4 then Some (w, c, [''client_error''])
      else case cluster_migrate_kv_data connect (Bytes_Int (req ! 1)) (Bytes_Int (req ! 2)) (Bytes_Int (req ! 3)) c w of
             None \<Rightarrow> None
           | Some (w, c, ret) \<Rightarrow>
               if ret = -1 then Some (w, c, [''error'']) else map_option (\<lambda>resp. (w, c, resp)) (reply_int 0 ret []))"

subsection \<open>What a migration needs of its two ends\<close>

text \<open>
  The keys of the source are \<open>V\<close>, all else that is of interest, such as the keys of the destination, is \<open>D\<close>; \<open>upd\<close>, \<open>srange\<close> and \<open>drange\<close>
  say how it changes when a key is moved and when the source and the destination are told their ranges.
\<close>

definition pair_size :: "(bytes \<rightharpoonup> bytes) \<Rightarrow> bytes \<Rightarrow> int" where
  "pair_size m k = int (length k) + int (length (the (m k)))"

definition sizes_fit :: "(bytes \<rightharpoonup> bytes) \<Rightarrow> bool" where
  "sizes_fit m \<longleftrightarrow> (\<forall>k \<in> dom m. pair_size m k < 2 ^ 31) \<and> (\<Sum>k \<in> dom m. pair_size m k) < 2 ^ 63"

definition first_keys_upto :: "(bytes \<rightharpoonup> bytes) \<Rightarrow> bytes \<Rightarrow> int \<Rightarrow> bytes list" where
  "first_keys_upto m max_key num = take (unat (word_of_int num :: u64)) (sorted_list_of_set {k \<in> dom m. max_key = [] \<or> k \<le> max_key})"

locale mover =
  fixes src dst :: "'w connection" and can_open R :: "'w \<Rightarrow> bool" and V :: "'w \<Rightarrow> bytes \<rightharpoonup> bytes" and D :: "'w \<Rightarrow> 'd"
    and upd :: "bytes \<Rightarrow> bytes \<Rightarrow> 'd \<Rightarrow> 'd" and srange drange :: "bytes \<Rightarrow> bytes \<Rightarrow> 'd \<Rightarrow> 'd"
  assumes connect_law: "can_open w \<Longrightarrow> \<exists>w1 w2. init_client (Some src) w = (w1, Some src) \<and> init_client (Some dst) w1 = (w2, Some dst) \<and>
      check_version src w2 = (w2, 0) \<and> check_version dst w2 = (w2, 0) \<and> R w2 \<and> V w2 = V w \<and> D w2 = D w"
    and list_law: "R w \<Longrightarrow> invoke src (ClientImpl_keys a b n) w =
      (w, ''ok'', Some (take (unat n) (sorted_list_of_set {k \<in> dom (V w). a < k \<and> (b = [] \<or> k \<le> b)})))"
    and srange_law: "R w \<Longrightarrow> \<exists>w'. invoke src (ClientImpl_set_kv_range a b) w = (w', ''ok'', None) \<and> R w' \<and> V w' = V w \<and> D w' = srange a b (D w)"
    and drange_law: "R w \<Longrightarrow> \<exists>w'. invoke dst (ClientImpl_set_kv_range a b) w = (w', ''ok'', None) \<and> R w' \<and> V w' = V w \<and> D w' = drange a b (D w)"
    and move_law: "R w \<Longrightarrow> V w k = Some v \<Longrightarrow> \<exists>w'. move_key src dst k w = (w', wrap32 (wrap32 (int (length k)) + wrap32 (int (length v)))) \<and>
      R w' \<and> V w' = (V w)(k := None) \<and> D w' = upd k v (D w)"
    and finite_keys: "R w \<Longrightarrow> finite (dom (V w))"
    and no_empty_key: "R w \<Longrightarrow> [] \<notin> dom (V w)"
begin

lemma move_keys_all:
  assumes "R w" and "distinct ks" and "set ks \<subseteq> dom (V w)" and "\<forall>k \<in> set ks. pair_size (V w) k < 2 ^ 31"
    and "0 \<le> n" and "n + (\<Sum>k \<leftarrow> ks. pair_size (V w) k) < 2 ^ 63"
  shows "\<exists>w'. move_keys src dst ks n w = (w', Some (n + (\<Sum>k \<leftarrow> ks. pair_size (V w) k))) \<and> R w' \<and> V w' = V w |` (- set ks) \<and>
    D w' = fold (\<lambda>k. upd k (the (V w k))) ks (D w)"
  using assms
proof (induction ks arbitrary: w n)
  case (Cons k ks)
  obtain v where v: "V w k = Some v" using Cons.prems(3) by auto
  have sz: "0 \<le> pair_size (V w) k" "pair_size (V w) k < 2 ^ 31" "pair_size (V w) k = int (length k) + int (length v)"
    using Cons.prems(4) v by (auto simp: pair_size_def)
  then have wr: "wrap32 (wrap32 (int (length k)) + wrap32 (int (length v))) = pair_size (V w) k" by (simp add: in_int32_def)
  from move_law [OF Cons.prems(1) v] obtain w1 where w1: "move_key src dst k w = (w1, pair_size (V w) k)" "R w1" "V w1 = (V w)(k := None)" "D w1 = upd k v (D w)"
    unfolding wr by blast
  have same: "V w1 k' = V w k'" "pair_size (V w1) k' = pair_size (V w) k'" if "k' \<in> set ks" for k'
    using that Cons.prems(2) by (auto simp: w1(3) pair_size_def)
  have tot: "(\<Sum>k \<leftarrow> ks. pair_size (V w1) k) = (\<Sum>k \<leftarrow> ks. pair_size (V w) k)" using same(2) by (intro arg_cong [of _ _ sum_list] map_cong) simp_all
  have pos: "0 \<le> (\<Sum>k \<leftarrow> ks. pair_size (V w) k)" by (intro sum_list_nonneg) (auto simp: pair_size_def)
  let ?n = "n + pair_size (V w) k"
  have n: "wrap64 ?n = ?n" using Cons.prems(5,6) sz pos by (intro wrap64_id) (simp add: in_int64_def)
  have "set ks \<subseteq> dom (V w1)" using Cons.prems(2,3) by (auto simp: w1(3))
  moreover have "\<forall>k \<in> set ks. pair_size (V w1) k < 2 ^ 31" using Cons.prems(4) same(2) by simp
  moreover have "0 \<le> ?n" "?n + (\<Sum>k \<leftarrow> ks. pair_size (V w1) k) < 2 ^ 63" using Cons.prems(5,6) sz(1) by (simp_all add: tot)
  ultimately obtain w' where w': "move_keys src dst ks ?n w1 = (w', Some (?n + (\<Sum>k \<leftarrow> ks. pair_size (V w1) k)))"
    "R w'" "V w' = V w1 |` (- set ks)" "D w' = fold (\<lambda>k. upd k (the (V w1 k))) ks (D w1)" using Cons.IH [OF w1(2), of ?n] Cons.prems(2) by auto
  have "fold (\<lambda>k. upd k (the (V w1 k))) ks (D w1) = fold (\<lambda>k. upd k (the (V w k))) ks (upd k v (D w))"
    unfolding w1(4) by (intro fold_cong refl) (simp add: same(1))
  moreover have "V w1 |` (- set ks) = V w |` (- set (k # ks))" by (auto simp: w1(3) restrict_map_def fun_eq_iff)
  ultimately show ?case using w1(1) w' n sz(1) v by (intro exI [of _ w']) (auto simp: tot)
qed (simp add: restrict_map_def)

text \<open>The first keys in order are all keys up to the last of them.\<close>

lemma first_keys_facts:
  assumes "R w" and "ks = first_keys_upto (V w) b num" and "ks \<noteq> []"
  shows "distinct ks" "set ks = {k \<in> dom (V w). k \<le> last ks}" "last ks \<in> dom (V w)" "b = [] \<or> last ks \<le> b"
proof -
  let ?S = "{k \<in> dom (V w). b = [] \<or> k \<le> b}" and ?n = "unat (word_of_int num :: u64)"
  have fin: "finite ?S" using finite_keys [OF assms(1)] by simp
  have "sorted_list_of_set ?S = ks @ drop ?n (sorted_list_of_set ?S)" by (simp add: assms(2) first_keys_upto_def)
  then obtain rest where rest: "sorted_list_of_set ?S = ks @ rest" by blast
  have srt: "sorted_wrt (<) (ks @ rest)" using sorted_list_of_set.strict_sorted_key_list_of_set [of ?S] unfolding rest by simp
  have st: "set (ks @ rest) = ?S" using set_sorted_list_of_set [OF fin] unfolding rest .
  show "distinct ks" using srt by (simp add: sorted_wrt_append strict_sorted_iff)
  have l: "last ks \<in> set ks" using assms(3) by simp
  then show "last ks \<in> dom (V w)" "b = [] \<or> last ks \<le> b" using st by auto
  have lt: "last ks < k" if "k \<in> set rest" for k using srt that l by (auto simp: sorted_wrt_append)
  have le: "k \<le> last ks" if "k \<in> set ks" for k
  proof -
    have "ks = butlast ks @ [last ks]" using assms(3) by simp
    moreover have "sorted_wrt (<) ks" using srt by (simp add: sorted_wrt_append)
    ultimately have "sorted_wrt (<) (butlast ks @ [last ks])" "k \<in> set (butlast ks @ [last ks])" using that by simp_all
    then show ?thesis by (auto simp only: sorted_wrt_append set_append set_simps Un_iff intro: less_imp_le)
  qed
  have "k \<in> set ks" if "k \<in> dom (V w)" "k \<le> last ks" for k
  proof -
    have "k \<in> ?S" using that l st by (auto intro: order_trans)
    then have "k \<in> set ks \<union> set rest" using st by simp
    then show ?thesis using lt that(2) by force
  qed
  then show "set ks = {k \<in> dom (V w). k \<le> last ks}" using le st by auto
qed

lemma sum_first_keys:
  assumes "R w" and "sizes_fit (V w)" and "ks = first_keys_upto (V w) b num" and "ks \<noteq> []"
  shows "(\<Sum>k \<leftarrow> ks. pair_size (V w) k) = (\<Sum>k \<in> {k \<in> dom (V w). k \<le> last ks}. pair_size (V w) k)"
    "(\<Sum>k \<leftarrow> ks. pair_size (V w) k) < 2 ^ 63" "0 < (\<Sum>k \<leftarrow> ks. pair_size (V w) k)"
proof -
  note f = first_keys_facts [OF assms(1,3,4)]
  show e: "(\<Sum>k \<leftarrow> ks. pair_size (V w) k) = (\<Sum>k \<in> {k \<in> dom (V w). k \<le> last ks}. pair_size (V w) k)"
    using f(1) unfolding f(2) [symmetric] by (simp add: sum_list_distinct_conv_sum_set)
  have "(\<Sum>k \<in> {k \<in> dom (V w). k \<le> last ks}. pair_size (V w) k) \<le> (\<Sum>k \<in> dom (V w). pair_size (V w) k)"
    by (intro sum_mono2 finite_keys [OF assms(1)]) (auto simp: pair_size_def)
  then show "(\<Sum>k \<leftarrow> ks. pair_size (V w) k) < 2 ^ 63" using e assms(2) by (simp add: sizes_fit_def)
  have "last ks \<noteq> []" using f(3) no_empty_key [OF assms(1)] by metis
  then have "0 < pair_size (V w) (last ks)" by (cases "last ks") (simp_all add: pair_size_def)
  moreover have "pair_size (V w) (last ks) \<le> (\<Sum>k \<in> {k \<in> dom (V w). k \<le> last ks}. pair_size (V w) k)"
    by (rule member_le_sum) (use f(3) finite_keys [OF assms(1)] in \<open>auto simp: pair_size_def\<close>)
  ultimately show "0 < (\<Sum>k \<leftarrow> ks. pair_size (V w) k)" using e by simp
qed

lemma list_first:
  assumes "R w"
  shows "invoke src (ClientImpl_keys [] b (word_of_int num)) w = (w, ''ok'', Some (first_keys_upto (V w) b num))"
proof -
  have "{k \<in> dom (V w). [] < k \<and> (b = [] \<or> k \<le> b)} = {k \<in> dom (V w). b = [] \<or> k \<le> b}"
  proof -
    have "[] < k" if "k \<in> dom (V w)" for k using that no_empty_key [OF assms] by (cases k) auto
    then show ?thesis by blast
  qed
  then show ?thesis using list_law [OF assms, of "[]" b "word_of_int num"] by (simp add: first_keys_upto_def)
qed

lemma move_range_all:
  assumes "R w" and "sizes_fit (V w)" and "ks = first_keys_upto (V w) b num"
  shows "if ks = [] then move_range src dst b num w = Some (w, [], 0)
    else \<exists>w'. move_range src dst b num w = Some (w', last ks, \<Sum>k \<in> {k \<in> dom (V w). k \<le> last ks}. pair_size (V w) k) \<and>
      R w' \<and> V w' = V w |` {k. last ks < k} \<and> D w' = fold (\<lambda>k. upd k (the (V w k))) ks (srange (last ks) b (D w))"
proof (cases "ks = []")
  case True
  then show ?thesis using list_first [OF assms(1), of b num] assms(3) by (simp add: move_range_def Status_ok_def)
next
  case False
  note f = first_keys_facts [OF assms(1,3) False] and t = sum_first_keys [OF assms(1-3) False]
  let ?m = "last ks"
  from srange_law [OF assms(1), of ?m b] obtain w1 where
    w1: "invoke src (ClientImpl_set_kv_range ?m b) w = (w1, ''ok'', None)" "R w1" "V w1 = V w" "D w1 = srange ?m b (D w)" by blast
  have "set ks \<subseteq> dom (V w1)" "\<forall>k \<in> set ks. pair_size (V w1) k < 2 ^ 31" "0 + (\<Sum>k \<leftarrow> ks. pair_size (V w1) k) < 2 ^ 63"
    using f(2) assms(2) t(2) by (auto simp: w1(3) sizes_fit_def)
  from move_keys_all [OF w1(2) f(1) this(1,2) order_refl this(3)] obtain w' where
    w': "move_keys src dst ks 0 w1 = (w', Some (\<Sum>k \<leftarrow> ks. pair_size (V w) k))" "R w'" "V w' = V w |` (- set ks)" "D w' = fold (\<lambda>k. upd k (the (V w k))) ks (D w1)"
    by (auto simp: w1(3))
  have v: "V w' = V w |` {k. ?m < k}" unfolding w'(3) using f(2) by (auto simp: restrict_map_def fun_eq_iff not_le)
  have "{k \<in> dom (V w'). ?m = [] \<or> k \<le> ?m} = {}" using f(3) no_empty_key [OF assms(1)] by (auto simp: v)
  then have "first_keys_upto (V w') ?m num = []" unfolding first_keys_upto_def by (simp only: sorted_list_of_set_empty take_Nil)
  then have l: "invoke src (ClientImpl_keys [] ?m (word_of_int num)) w' = (w', ''ok'', Some [])" using list_first [OF w'(2), of ?m num] by simp
  have "move_loop src dst ?m (word_of_int num) ks 0 w1 = Some (w', \<Sum>k \<leftarrow> ks. pair_size (V w) k)"
    by (subst move_loop.simps) (simp add: w'(1) l Status_ok_def)
  then have "move_range src dst b num w = Some (w', ?m, \<Sum>k \<leftarrow> ks. pair_size (V w) k)"
    using list_first [OF assms(1), of b num] False w1(1) by (simp add: move_range_def Status_ok_def assms(3) [symmetric] last_conv_nth)
  then show ?thesis using False v w'(2,4) w1(4) t(1) by simp
qed

lemma migrated_keys:
  assumes "can_open w" and "sizes_fit (V w)" and "ks = first_keys_upto (V w) b num" and "ks \<noteq> []"
  shows "set ks = {k \<in> dom (V w). k \<le> last ks}" "0 < (\<Sum>k \<in> {k \<in> dom (V w). k \<le> last ks}. pair_size (V w) k)"
proof -
  from connect_law [OF assms(1)] obtain w' where w': "R w'" "V w' = V w" by blast
  have k: "ks = first_keys_upto (V w') b num" "sizes_fit (V w')" using assms(2,3) w'(2) by simp_all
  show "set ks = {k \<in> dom (V w). k \<le> last ks}" using first_keys_facts(2) [OF w'(1) k(1) assms(4)] w'(2) by simp
  show "0 < (\<Sum>k \<in> {k \<in> dom (V w). k \<le> last ks}. pair_size (V w) k)" using sum_first_keys(1,3) [OF w'(1) k(2,1) assms(4)] w'(2) by simp
qed

lemma migrate_all:
  assumes "can_open w" and "sizes_fit (V w)" and "r = node_range (ns ! i)" and "ks = first_keys_upto (V w) (range_end r) num"
  shows "\<exists>w'. R w' \<and> (if ks = [] then migrate_kv_data (Some src) (Some dst) i j num ns w = Some (w', ns, 0) \<and> V w' = V w \<and> D w' = D w
    else migrate_kv_data (Some src) (Some dst) i j num ns w = Some (w',
        set_range_at j (range_begin (node_range (ns ! j))) (last ks) (set_range_at i (last ks) (range_end r) ns),
        \<Sum>k \<in> {k \<in> dom (V w). k \<le> last ks}. pair_size (V w) k) \<and>
      V w' = V w |` {k. last ks < k} \<and>
      D w' = drange (range_begin (node_range (ns ! j))) (last ks) (fold (\<lambda>k. upd k (the (V w k))) ks (srange (last ks) (range_end r) (D w))))"
proof -
  from connect_law [OF assms(1)] obtain w1 w2 where c: "init_client (Some src) w = (w1, Some src)" "init_client (Some dst) w1 = (w2, Some dst)"
    "check_version src w2 = (w2, 0)" "check_version dst w2 = (w2, 0)" "R w2" "V w2 = V w" "D w2 = D w" by blast
  have ks: "ks = first_keys_upto (V w2) (range_end r) num" using assms(4) c(6) by simp
  have fit: "sizes_fit (V w2)" using assms(2) c(6) by simp
  note m = move_range_all [OF c(5) fit ks]
  show ?thesis
  proof (cases "ks = []")
    case True
    then show ?thesis using m c by (intro exI [of _ w2]) (simp add: migrate_kv_data_def assms(3) [symmetric])
  next
    case False
    from m False obtain w3 where w3: "move_range src dst (range_end r) num w2 = Some (w3, last ks, \<Sum>k \<in> {k \<in> dom (V w). k \<le> last ks}. pair_size (V w) k)"
      "R w3" "V w3 = V w |` {k. last ks < k}" "D w3 = fold (\<lambda>k. upd k (the (V w k))) ks (srange (last ks) (range_end r) (D w))" by (auto simp: c(6,7))
    from drange_law [OF w3(2), of "range_begin (node_range (ns ! j))" "last ks"] obtain w4 where
      w4: "invoke dst (ClientImpl_set_kv_range (range_begin (node_range (ns ! j))) (last ks)) w3 = (w4, ''ok'', None)" "R w4" "V w4 = V w3"
        "D w4 = drange (range_begin (node_range (ns ! j))) (last ks) (D w3)" by blast
    have pos: "0 < (\<Sum>k \<in> {k \<in> dom (V w). k \<le> last ks}. pair_size (V w) k)" using sum_first_keys(1,3) [OF c(5) fit ks False] by (simp add: c(6))
    show ?thesis using False w3 w4 pos c(1-4)
      by (intro exI [of _ w4]) (simp add: migrate_kv_data_def assms(3) [symmetric] Let_def Status_ok_def)
  qed
qed

end

subsection \<open>Two servers, and one\<close>

text \<open>A connection to one of two servers.\<close>

definition left_conn :: "'a connection \<Rightarrow> ('a \<times> 'b) connection" where
  "left_conn send req w = (case send req (fst w) of (a, resp) \<Rightarrow> ((a, snd w), resp))"

definition right_conn :: "'b connection \<Rightarrow> ('a \<times> 'b) connection" where
  "right_conn send req w = (case send req (snd w) of (b, resp) \<Rightarrow> ((fst w, b), resp))"

lemma invoke_left: "invoke (left_conn send) m (a, b) = (case invoke send m a of (a', x) \<Rightarrow> ((a', b), x))"
  by (simp add: invoke_def left_conn_def split: prod.split)

lemma invoke_right: "invoke (right_conn send) m (a, b) = (case invoke send m b of (b', x) \<Rightarrow> ((a, b'), x))"
  by (simp add: invoke_def right_conn_def split: prod.split)

text \<open>With the same server at both ends a key that is moved is deleted.\<close>

context kv_server
begin

lemma connect_self:
  assumes "open_link s"
  shows "\<exists>s'. init_client (Some send) s = (s', Some send) \<and> check_version send s' = (s', 0) \<and> ready s' \<and> view s' = view s \<and> rng s' = rng s"
proof -
  from ignore_law [OF assms] obtain s' where s': "send [''ignore_key_range''] s = (s', Some [''ok''])" "ready s'" "view s' = view s" "rng s' = rng s" by blast
  from version_law [OF s'(2)] obtain v where "send [''version''] s' = (s', Some [''ok'', v])" by blast
  with s' show ?thesis by (auto simp: init_client_def check_version_def)
qed

lemma move_self:
  assumes "ready s" and "view s k = Some v"
  shows "\<exists>s'. move_key send send k s = (s', wrap32 (wrap32 (int (length k)) + wrap32 (int (length v)))) \<and> ready s' \<and> view s' = (view s)(k := None) \<and> rng s' = rng s"
proof -
  have k: "key_ok k" using view_ok [OF assms(1)] assms(2) by auto
  from client_set [OF assms(1) k, of v] obtain s1 where s1: "invoke send (ClientImpl_set k v) s = (s1, ''ok'', None)" "ready s1" "view s1 = (view s)(k \<mapsto> v)" "rng s1 = rng s" by blast
  from client_del [OF s1(2) k] obtain s2 where s2: "invoke send (ClientImpl_del k) s1 = (s2, ''ok'', None)" "ready s2" "view s2 = (view s1)(k := None)" "rng s2 = rng s1" by blast
  show ?thesis using s1 s2 client_get [OF assms(1), of k] assms(2)
    by (intro exI [of _ s2]) (simp add: move_key_def Status_ok_def Status_not_found_def)
qed

end

sublocale kv_server \<subseteq> self: mover send send open_link ready view rng "\<lambda>k v d. d" "\<lambda>a b d. (a, b)" "\<lambda>a b d. (a, b)"
proof (unfold_locales, goal_cases)
  case (1 s)
  from connect_self [OF this] obtain s1 where s1: "init_client (Some send) s = (s1, Some send)" "ready s1" "view s1 = view s" "rng s1 = rng s" by blast
  from connect_self [OF ready_open [OF s1(2)]] s1 show ?case by auto
next
  case (2 s a b n)
  then show ?case using client_keys by (simp add: keys_between_def)
next
  case (3 s a b)
  then show ?case using client_set_range by blast
next
  case (4 s k v)
  then show ?case using move_self by blast
next
  case (5 s)
  then show ?case by (rule finite_view)
next
  case (6 s)
  then show ?case using view_ok key_nonempty by blast
qed

text \<open>Two servers: the keys that are moved are added to those of the destination.\<close>

locale kv_server_pair = source: kv_server send1 open1 ready1 view1 rng1 key_ok + target: kv_server send2 open2 ready2 view2 rng2 key_ok
  for send1 :: "'a connection" and open1 ready1 :: "'a \<Rightarrow> bool" and view1 rng1 and send2 :: "'b connection" and open2 ready2 :: "'b \<Rightarrow> bool" and view2 rng2 key_ok
begin

lemma connect_pair:
  assumes "open1 a" and "open2 b"
  shows "\<exists>w1 a' b'. init_client (Some (left_conn send1)) (a, b) = (w1, Some (left_conn send1)) \<and>
    init_client (Some (right_conn send2)) w1 = ((a', b'), Some (right_conn send2)) \<and> check_version (left_conn send1) (a', b') = ((a', b'), 0) \<and>
    check_version (right_conn send2) (a', b') = ((a', b'), 0) \<and> ready1 a' \<and> ready2 b' \<and> view1 a' = view1 a \<and> rng1 a' = rng1 a \<and> view2 b' = view2 b \<and> rng2 b' = rng2 b"
proof -
  from source.ignore_law [OF assms(1)] obtain a' where a: "send1 [''ignore_key_range''] a = (a', Some [''ok''])" "ready1 a'" "view1 a' = view1 a" "rng1 a' = rng1 a" by blast
  from source.version_law [OF a(2)] obtain v where v: "send1 [''version''] a' = (a', Some [''ok'', v])" by blast
  from target.ignore_law [OF assms(2)] obtain b' where b: "send2 [''ignore_key_range''] b = (b', Some [''ok''])" "ready2 b'" "view2 b' = view2 b" "rng2 b' = rng2 b" by blast
  from target.version_law [OF b(2)] obtain u where u: "send2 [''version''] b' = (b', Some [''ok'', u])" by blast
  show ?thesis using a b v u by (auto simp: init_client_def check_version_def left_conn_def right_conn_def)
qed

lemma move_pair:
  assumes "ready1 a" and "ready2 b" and "view1 a k = Some v"
  shows "\<exists>a' b'. move_key (left_conn send1) (right_conn send2) k (a, b) = ((a', b'), wrap32 (wrap32 (int (length k)) + wrap32 (int (length v)))) \<and>
    ready1 a' \<and> ready2 b' \<and> view1 a' = (view1 a)(k := None) \<and> rng1 a' = rng1 a \<and> view2 b' = (view2 b)(k \<mapsto> v) \<and> rng2 b' = rng2 b"
proof -
  have k: "key_ok k" using source.view_ok [OF assms(1)] assms(3) by auto
  from target.client_set [OF assms(2) k, of v] obtain b' where b: "invoke send2 (ClientImpl_set k v) b = (b', ''ok'', None)" "ready2 b'" "view2 b' = (view2 b)(k \<mapsto> v)" "rng2 b' = rng2 b" by blast
  from source.client_del [OF assms(1) k] obtain a' where a: "invoke send1 (ClientImpl_del k) a = (a', ''ok'', None)" "ready1 a'" "view1 a' = (view1 a)(k := None)" "rng1 a' = rng1 a" by blast
  show ?thesis using a b source.client_get [OF assms(1), of k] assms(3)
    by (intro exI [of _ a'] exI [of _ b']) (simp add: move_key_def Status_ok_def Status_not_found_def invoke_left invoke_right)
qed

end

sublocale kv_server_pair \<subseteq> both: mover "left_conn send1" "right_conn send2" "\<lambda>(a, b). open1 a \<and> open2 b" "\<lambda>(a, b). ready1 a \<and> ready2 b" "\<lambda>(a, b). view1 a"
  "\<lambda>(a, b). (rng1 a, view2 b, rng2 b)" "\<lambda>k v (r, m, q). (r, m(k \<mapsto> v), q)" "\<lambda>x y (r, m, q). ((x, y), m, q)" "\<lambda>x y (r, m, q). (r, m, (x, y))"
proof (unfold_locales, goal_cases)
  case (1 w)
  obtain a b where w: "w = (a, b)" by fastforce
  from connect_pair [of a b] 1 show ?case unfolding w by fastforce
next
  case (2 w x y n)
  then show ?case using source.client_keys by (cases w) (simp add: source.keys_between_def invoke_left)
next
  case (3 w x y)
  obtain a b where w: "w = (a, b)" by fastforce
  from source.client_set_range [of a x y] 3 obtain a' where "invoke send1 (ClientImpl_set_kv_range x y) a = (a', ''ok'', None)" "ready1 a'" "view1 a' = view1 a" "rng1 a' = (x, y)"
    unfolding w by auto
  then show ?case using 3 by (intro exI [of _ "(a', b)"]) (simp add: w invoke_left)
next
  case (4 w x y)
  obtain a b where w: "w = (a, b)" by fastforce
  from target.client_set_range [of b x y] 4 obtain b' where "invoke send2 (ClientImpl_set_kv_range x y) b = (b', ''ok'', None)" "ready2 b'" "view2 b' = view2 b" "rng2 b' = (x, y)"
    unfolding w by auto
  then show ?case using 4 by (intro exI [of _ "(a, b')"]) (simp add: w invoke_right)
next
  case (5 w k v)
  obtain a b where w: "w = (a, b)" by fastforce
  from move_pair [of a b k v] 5 show ?case unfolding w by fastforce
next
  case (6 w)
  then show ?case using source.finite_view by (cases w) auto
next
  case (7 w)
  then show ?case using source.view_ok [of "fst w" "[]"] source.key_nonempty [of "[]"] by (cases w) auto
qed

interpretation peers: kv_server_pair "remote e1" remote_open remote_ready remote_view remote_rng "remote e2" remote_open remote_ready remote_view remote_rng hname_ok for e1 e2
  by unfold_locales

lemma fold_pair_upd:
  "fold (\<lambda>k (r, m, q). (r, m(k \<mapsto> f k), q)) ks (r, m, q) = (r, m ++ (\<lambda>k. if k \<in> set ks then Some (f k) else None), q)"
proof (induction ks arbitrary: m)
  case (Cons k ks)
  have "m(k \<mapsto> f k) ++ (\<lambda>x. if x \<in> set ks then Some (f x) else None) = m ++ (\<lambda>x. if x \<in> set (k # ks) then Some (f x) else None)"
    by (auto simp: map_add_def fun_eq_iff)
  then show ?case by (simp only: fold.simps o_apply case_prod_conv Cons.IH)
qed (simp add: map_add_def)

subsection \<open>The nodes after a migration\<close>

lemma set_range_at_nth:
  assumes "i < length ns" and "j < length ns"
  shows "set_range_at j b2 e2 (set_range_at i b1 e1 ns) = ns[i := set_range_at j b2 e2 (set_range_at i b1 e1 ns) ! i, j := set_range_at j b2 e2 (set_range_at i b1 e1 ns) ! j]"
    "i \<noteq> j \<Longrightarrow> set_range_at j b2 e2 (set_range_at i b1 e1 ns) = ns[i := (ns ! i)\<lparr>node_range := \<lparr>range_begin = b1, range_end = e1\<rparr>\<rparr>,
       j := (ns ! j)\<lparr>node_range := \<lparr>range_begin = b2, range_end = e2\<rparr>\<rparr>]"
    "\<exists>r. set_range_at j b2 e2 (set_range_at i b1 e1 ns) ! i = (ns ! i)\<lparr>node_range := r\<rparr>"
    "\<exists>r. set_range_at j b2 e2 (set_range_at i b1 e1 ns) ! j = (ns ! j)\<lparr>node_range := r\<rparr>"
  using assms by (cases "i = j"; auto simp: set_range_at_def nth_list_update list_update_swap)+

text \<open>Both nodes are saved: the store and the list in memory agree again.\<close>

lemma save_both:
  assumes "cluster_inv c" and "i < length (kv_node_list c)" and "j < length (kv_node_list c)"
    and "ns = set_range_at j b2 e2 (set_range_at i b1 e1 (kv_node_list c))"
  shows "\<exists>db1 db2. save_kv_node (ns ! i) (cdb c) = (db1, 0) \<and> save_kv_node (ns ! j) db1 = (db2, 0) \<and> cluster_inv (c\<lparr>kv_node_list := ns, cdb := db2\<rparr>)"
proof -
  let ?l = "kv_node_list c"
  note sr = set_range_at_nth [OF assms(2,3), of b2 e2 b1 e1, folded assms(4)]
  from sr(3) obtain r where r: "ns ! i = (?l ! i)\<lparr>node_range := r\<rparr>" by blast
  from sr(4) obtain q where q: "ns ! j = (?l ! j)\<lparr>node_range := q\<rparr>" by blast
  have ok: "node_ok (ns ! i)" "node_ok (ns ! j)" using cluster_invD(3) [OF assms(1)] assms(2,3) by (simp_all add: r q node_ok_def)
  let ?c1 = "fst (change_node i (\<lambda>_. ns ! i) c)" let ?c2 = "fst (change_node j (\<lambda>_. ns ! j) ?c1)"
  have i: "node_id (ns ! i) = node_id (?l ! i)" by (simp add: r)
  note 1 = change_inv [OF assms(1,2), of "\<lambda>_. ns ! i", OF ok(1) i]
  have l: "j < length (kv_node_list ?c1)" "node_id (kv_node_list ?c1 ! j) = node_id (?l ! j)" using assms(2,3) i by (auto simp: 1(3) nth_list_update)
  note 2 = change_inv [OF 1(1) l(1), of "\<lambda>_. ns ! j", OF ok(2)]
  have j: "node_id (ns ! j) = node_id (kv_node_list ?c1 ! j)" by (simp add: l(2) q)
  let ?d1 = "fst (save_kv_node (ns ! i) (cdb c))" let ?d2 = "fst (save_kv_node (ns ! j) ?d1)"
  have c1: "?c1 = c\<lparr>kv_node_list := ?l[i := ns ! i], cdb := ?d1\<rparr>" by (simp add: change_node_def Let_def case_prod_beta)
  have "?c2 = ?c1\<lparr>kv_node_list := (kv_node_list ?c1)[j := ns ! j], cdb := fst (save_kv_node (ns ! j) (cdb ?c1))\<rparr>"
    by (simp add: change_node_def [of j] Let_def case_prod_beta)
  then have c2: "?c2 = c\<lparr>kv_node_list := ns, cdb := ?d2\<rparr>" unfolding c1 using sr(1) by simp
  have "snd (save_kv_node (ns ! i) (cdb c)) = 0" using 1(2) by (auto simp: change_node_def Let_def case_prod_beta save_kv_node_def split: if_splits)
  moreover have "snd (save_kv_node (ns ! j) (cdb ?c1)) = 0"
    using 2(2) [OF j] by (simp add: change_node_def [of j] Let_def case_prod_beta save_kv_node_def split: if_splits)
  moreover have "cdb ?c1 = ?d1" unfolding c1 by simp
  ultimately show ?thesis using 2(1) [OF j] unfolding c2
    by (intro exI [of _ ?d1] exI [of _ ?d2]) (simp add: prod_eq_iff)
qed

text \<open>C30. A migration moves a prefix of the keys: of the source's keys up to the end of its range the first \<open>num\<close> ones, \<open>ks\<close>. It ends and
  returns their size. The source keeps exactly the keys after the last of them, the destination has them with their values beside
  what it had, both servers accept the ranges that the list of nodes then says, and the list is saved. No key is lost, and none is
  left at the source that it does not serve.\<close>

theorem migration_moves_keys:
  assumes "cluster_inv c" and "get_kv_node x c = Some m" and "get_kv_node y c = Some n" and "x \<noteq> y"
    and "connect (node_ip m) (node_port m) = Some (left_conn (remote ea))" and "connect (node_ip n) (node_port n) = Some (right_conn (remote eb))"
    and "remote_open a" and "remote_open b" and "sizes_fit (remote_view a)"
    and "ks = first_keys_upto (remote_view a) (range_end (node_range m)) num" and "ks \<noteq> []"
  shows "\<exists>a' b' c'. cluster_migrate_kv_data connect x y num c (a, b) = Some ((a', b'), c', \<Sum>k \<in> {k \<in> dom (remote_view a). k \<le> last ks}. pair_size (remote_view a) k) \<and>
    remote_view a' = remote_view a |` {k. last ks < k} \<and> remote_view b' = remote_view b ++ (remote_view a |` {k. k \<le> last ks}) \<and>
    remote_rng a' = (last ks, range_end (node_range m)) \<and> remote_rng b' = (range_begin (node_range n), last ks) \<and> cluster_inv c' \<and>
    get_kv_node x c' = Some (m\<lparr>node_range := \<lparr>range_begin = last ks, range_end = range_end (node_range m)\<rparr>\<rparr>) \<and>
    get_kv_node y c' = Some (n\<lparr>node_range := \<lparr>range_begin = range_begin (node_range n), range_end = last ks\<rparr>\<rparr>)"
proof -
  from assms(2) obtain i where i: "find_node x (kv_node_list c) = Some i" "m = kv_node_list c ! i" by (auto simp: get_kv_node_def split: option.splits)
  from assms(3) obtain j where j: "find_node y (kv_node_list c) = Some j" "n = kv_node_list c ! j" by (auto simp: get_kv_node_def split: option.splits)
  note fi = find_node_Some [OF i(1)] and fj = find_node_Some [OF j(1)]
  have ij: "i \<noteq> j" using fi fj assms(4) by auto
  let ?V = "remote_view a" and ?l = "kv_node_list c" and ?e = "range_end (node_range m)" and ?b = "range_begin (node_range n)"
  let ?ns = "set_range_at j ?b (last ks) (set_range_at i (last ks) ?e ?l)" and ?sz = "\<Sum>k \<in> {k \<in> dom ?V. k \<le> last ks}. pair_size ?V k"
  from peers.both.migrate_all [of "(a, b)" "node_range m" ?l i ks num ea eb j] assms(7-11) i(2) j(2) obtain w' where
    w': "case w' of (a', b') \<Rightarrow> remote_ready a' \<and> remote_ready b'"
      "migrate_kv_data (Some (left_conn (remote ea))) (Some (right_conn (remote eb))) i j num ?l (a, b) = Some (w', ?ns, ?sz)"
      "(case w' of (a', b') \<Rightarrow> remote_view a') = ?V |` {k. last ks < k}"
      "(case w' of (a', b') \<Rightarrow> (remote_rng a', remote_view b', remote_rng b')) = (\<lambda>(r, m, q). (r, m, (?b, last ks)))
        (fold (\<lambda>k (r, m, q). (r, m(k \<mapsto> the (?V k)), q)) ks ((last ks, ?e), remote_view b, remote_rng b))"
    by auto
  obtain a' b' where ab: "w' = (a', b')" by (cases w') blast
  have f: "remote_rng a' = (last ks, ?e)" "remote_rng b' = (?b, last ks)" "remote_view b' = remote_view b ++ (\<lambda>k. if k \<in> set ks then Some (the (?V k)) else None)"
    using w'(4) by (auto simp: ab fold_pair_upd)
  have ks: "set ks = {k \<in> dom ?V. k \<le> last ks}" and pos: "0 < ?sz"
    using peers.both.migrated_keys [of "(a, b)" ks ?e num] assms(7-11) by simp_all
  from ks have v: "(\<lambda>k. if k \<in> set ks then Some (the (?V k)) else None) = ?V |` {k. k \<le> last ks}" by (auto simp: restrict_map_def fun_eq_iff)
  from save_both [OF assms(1) conjunct1 [OF fi] conjunct1 [OF fj] refl, of ?b "last ks" "last ks" ?e] obtain db1 db2 where
    db: "save_kv_node (?ns ! i) (cdb c) = (db1, 0)" "save_kv_node (?ns ! j) db1 = (db2, 0)" "cluster_inv (c\<lparr>kv_node_list := ?ns, cdb := db2\<rparr>)" by blast
  let ?c = "c\<lparr>kv_node_list := ?ns, cdb := db2\<rparr>"
  have "cluster_migrate_kv_data connect x y num c (a, b) = Some (w', ?c, ?sz)"
    using i j assms(5,6) w'(2) db(1,2) pos by (simp add: cluster_migrate_kv_data_def Let_def)
  moreover have g: "get_kv_node (node_id z) ?c = Some z" if "z \<in> set ?ns" for z
    using get_kv_node_iff [OF cluster_invD(1) [OF db(3)]] that by simp
  have "?ns = ?l[i := m\<lparr>node_range := \<lparr>range_begin = last ks, range_end = ?e\<rparr>\<rparr>, j := n\<lparr>node_range := \<lparr>range_begin = ?b, range_end = last ks\<rparr>\<rparr>]"
    using set_range_at_nth(2) [of i ?l j, OF _ _ ij] fi fj i(2) j(2) by simp
  then have nth: "?ns ! i = m\<lparr>node_range := \<lparr>range_begin = last ks, range_end = ?e\<rparr>\<rparr>" "?ns ! j = n\<lparr>node_range := \<lparr>range_begin = ?b, range_end = last ks\<rparr>\<rparr>"
      "i < length ?ns" "j < length ?ns" using fi fj ij by simp_all
  have mem: "?ns ! i \<in> set ?ns" "?ns ! j \<in> set ?ns" using nth_mem [OF nth(3)] nth_mem [OF nth(4)] .
  have "get_kv_node x ?c = Some (m\<lparr>node_range := \<lparr>range_begin = last ks, range_end = ?e\<rparr>\<rparr>)" "get_kv_node y ?c = Some (n\<lparr>node_range := \<lparr>range_begin = ?b, range_end = last ks\<rparr>\<rparr>)"
    using g [OF mem(1)] g [OF mem(2)] fi fj unfolding nth(1,2) i(2) [symmetric] j(2) [symmetric] by simp_all
  ultimately show ?thesis using f v db(3) w'(3) ab by auto
qed

text \<open>C38. A migration from a node to itself, or to another node with the same address, deletes the keys: each is read, written where it
  was, and deleted. The request is answered with the size, and the keys up to the last of them are gone.\<close>

theorem self_migration_deletes:
  assumes "cluster_inv c" and "get_kv_node x c = Some m" and "get_kv_node y c = Some n"
    and "connect (node_ip m) (node_port m) = Some (remote e)" and "connect (node_ip n) (node_port n) = Some (remote e)"
    and "remote_open a" and "sizes_fit (remote_view a)" and "ks = first_keys_upto (remote_view a) (range_end (node_range m)) num" and "ks \<noteq> []"
  shows "\<exists>a' c' size. cluster_migrate_kv_data connect x y num c a = Some (a', c', size) \<and> 0 < size \<and> remote_view a' = remote_view a |` {k. last ks < k}"
proof -
  from assms(2) obtain i where i: "find_node x (kv_node_list c) = Some i" "m = kv_node_list c ! i" by (auto simp: get_kv_node_def split: option.splits)
  from assms(3) obtain j where j: "find_node y (kv_node_list c) = Some j" "n = kv_node_list c ! j" by (auto simp: get_kv_node_def split: option.splits)
  note fi = find_node_Some [OF i(1)] and fj = find_node_Some [OF j(1)]
  let ?V = "remote_view a" and ?l = "kv_node_list c" and ?e = "range_end (node_range m)" and ?b = "range_begin (node_range n)"
  let ?ns = "set_range_at j ?b (last ks) (set_range_at i (last ks) ?e ?l)" and ?sz = "\<Sum>k \<in> {k \<in> dom ?V. k \<le> last ks}. pair_size ?V k"
  from peer.self.migrate_all [OF assms(6,7), of "node_range m" ?l i ks num e j] assms(8,9) i(2) j(2) obtain a' where
    a': "migrate_kv_data (Some (remote e)) (Some (remote e)) i j num ?l a = Some (a', ?ns, ?sz)" "remote_view a' = ?V |` {k. last ks < k}" by auto
  have pos: "0 < ?sz" by (rule peer.self.migrated_keys(2) [OF assms(6-9)])
  from save_both [OF assms(1) conjunct1 [OF fi] conjunct1 [OF fj] refl, of ?b "last ks" "last ks" ?e] obtain db1 db2 where
    db: "save_kv_node (?ns ! i) (cdb c) = (db1, 0)" "save_kv_node (?ns ! j) db1 = (db2, 0)" by blast
  have "cluster_migrate_kv_data connect x y num c a = Some (a', c\<lparr>kv_node_list := ?ns, cdb := db2\<rparr>, ?sz)"
    using i j assms(4,5) a'(1) db pos by (simp add: cluster_migrate_kv_data_def Let_def)
  then show ?thesis using pos a'(2) by blast
qed

text \<open>A server with one key, for the witnesses.\<close>

definition example_conn :: conn where
  "example_conn = \<lparr>conn_link = Link_new, conn_fd = 7, remote_ip = []\<rparr>"

definition empty_remote :: "conn \<times> net_server" where
  "empty_remote = (example_conn, NetProc.fresh_server [])"

definition full_remote :: "conn \<times> net_server" where
  "full_remote = fst (remote plain_env [''set'', ''k'', ''v''] (fst (remote plain_env [''ignore_key_range''] empty_remote)))"

lemma remote_facts:
  "remote_open empty_remote" "remote_view empty_remote = Map.empty" "remote_open full_remote" "remote_view full_remote = [''k'' \<mapsto> ''v'']"
proof -
  have h: "hname_ok ''key_range''" "hname_ok ''k''" by code_simp+
  have v: "kv_view fresh_db = Map.empty" by (simp add: kv_view_def fresh_data fun_eq_iff)
  show o: "remote_open empty_remote" using fresh_server_facts(1) fresh_hash_ready [OF h(1)] v
    by (auto simp: remote_open_def empty_remote_def NetProc.fresh_server_def Server.fresh_server_def sv_inv_def hcoll.view_def fresh_data Let_def dom_def)
  show e: "remote_view empty_remote = Map.empty" using v by (simp add: remote_view_def empty_remote_def NetProc.fresh_server_def)
  from peer.ignore_law [OF o, of plain_env] obtain s where s: "remote plain_env [''ignore_key_range''] empty_remote = (s, Some [''ok''])" "remote_ready s" "remote_view s = Map.empty"
    by (auto simp: e)
  from peer.set_law [OF s(2) h(2), of plain_env "''v''"] s(1,3) have "remote_ready full_remote \<and> remote_view full_remote = [''k'' \<mapsto> ''v'']"
    unfolding full_remote_def by auto
  then show "remote_open full_remote" "remote_view full_remote = [''k'' \<mapsto> ''v'']" by (simp_all add: remote_ready_def)
qed

lemma full_keys: "first_keys_upto (remote_view full_remote) [] 10 = [''k'']" "sizes_fit (remote_view full_remote)"
  by (simp_all add: remote_facts(4) first_keys_upto_def sizes_fit_def pair_size_def)

lemma example_nodes:
  "get_kv_node 1 example_cluster = Some ((Node_new 8888)\<lparr>node_id := 1, node_status := NODE_SERVING, node_ip := ''10.0.0.1''\<rparr>)"
  "get_kv_node 2 example_cluster = Some ((Node_new 8888)\<lparr>node_id := 2, node_ip := ''10.0.0.2''\<rparr>)"
  by (simp_all add: get_kv_node_def example_facts(2))

theorem migration_moves_keys_witness:
  "\<exists>a' b' c'. cluster_migrate_kv_data (\<lambda>ip port. Some (if ip = ''10.0.0.1'' then left_conn (remote plain_env) else right_conn (remote plain_env))) 1 2 10
     example_cluster (full_remote, empty_remote) = Some ((a', b'), c', 2) \<and> remote_view a' = Map.empty \<and> remote_view b' = [''k'' \<mapsto> ''v'']"
proof -
  let ?f = "\<lambda>ip port. Some (if ip = ''10.0.0.1'' then left_conn (remote plain_env) else right_conn (remote plain_env))"
  let ?m = "(Node_new 8888)\<lparr>node_id := 1, node_status := NODE_SERVING, node_ip := ''10.0.0.1''\<rparr>" and ?n = "(Node_new 8888)\<lparr>node_id := 2, node_ip := ''10.0.0.2''\<rparr>"
  have c: "?f (node_ip ?m) (node_port ?m) = Some (left_conn (remote plain_env))" "?f (node_ip ?n) (node_port ?n) = Some (right_conn (remote plain_env))" by simp_all
  have k: "[''k''] = first_keys_upto (remote_view full_remote) (range_end (node_range ?m)) 10" by (simp add: full_keys Node_new_def)
  have n: "(1 :: int) \<noteq> 2" "[''k''] \<noteq> []" by simp_all
  from migration_moves_keys [where connect = ?f, OF example_facts(1) example_nodes n(1) c remote_facts(3,1) full_keys(2) k n(2)] obtain a' b' c' where
    "cluster_migrate_kv_data ?f 1 2 10 example_cluster (full_remote, empty_remote) =
      Some ((a', b'), c', \<Sum>k \<in> {k \<in> dom (remote_view full_remote). k \<le> last [''k'']}. pair_size (remote_view full_remote) k)"
    "remote_view a' = remote_view full_remote |` {k. last [''k''] < k}" "remote_view b' = remote_view empty_remote ++ (remote_view full_remote |` {k. k \<le> last [''k'']})"
    by blast
  moreover have "{k. k = ''k'' \<and> k \<le> ''k''} = {''k''}" by auto
  ultimately show ?thesis by (intro exI [of _ a'] exI [of _ b'] exI [of _ c']) (simp add: remote_facts pair_size_def restrict_map_def fun_eq_iff)
qed

theorem self_migration_deletes_witness:
  "\<exists>a' c' size. cluster_migrate_kv_data (\<lambda>ip port. Some (remote plain_env)) 1 1 10 example_cluster full_remote = Some (a', c', size) \<and> remote_view a' = Map.empty"
proof -
  let ?m = "(Node_new 8888)\<lparr>node_id := 1, node_status := NODE_SERVING, node_ip := ''10.0.0.1''\<rparr>"
  have "[''k''] = first_keys_upto (remote_view full_remote) (range_end (node_range ?m)) 10" by (simp add: full_keys Node_new_def)
  from self_migration_deletes [where connect = "\<lambda>ip port. Some (remote plain_env)", OF example_facts(1) example_nodes(1,1) refl refl remote_facts(3) full_keys(2) this] obtain a' c' size where
    "cluster_migrate_kv_data (\<lambda>ip port. Some (remote plain_env)) 1 1 10 example_cluster full_remote = Some (a', c', size)"
    "remote_view a' = remote_view full_remote |` {k. last [''k''] < k}" by blast
  moreover have "[''k'' \<mapsto> ''v''] |` {k. ''k'' < k} = Map.empty" by (simp add: restrict_map_def fun_eq_iff)
  ultimately show ?thesis by (auto simp: remote_facts(4))
qed

end
